(* ===== verification/Prelude.thy ===== *)
theory Prelude
  imports Main "HOL-Library.Word" "HOL-Library.Monad_Syntax"
begin

unbundle bit_operations_syntax

text \<open>
  Shared types and lemmas of the development: the fixed-width integer types of the
  server, reading and writing a flat byte buffer, the little-endian layout of the
  integer types, and small facts on lists that several components use.

  Conventions kept by every theory. A function of the source that can leave the
  defined behaviour of C++ (an index past the end of a buffer, a failing \<open>assert\<close>,
  the use of an invalidated iterator) returns an \<open>option\<close>, with \<open>None\<close> for that
  outcome; a function that reports an error returns a value of a sum type with the
  error on the left. State is passed explicitly.
\<close>

type_synonym u8 = "8 word"
type_synonym u16 = "16 word"
type_synonym u32 = "32 word"
type_synonym u64 = "64 word"

named_theorems wire_simps \<open>lengths and round trips of the byte layouts\<close>
named_theorems buf_simps \<open>reading and writing a flat buffer\<close>

section \<open>Words as numbers\<close>

lemma unat_of_nat_eq: "n < 2 ^ LENGTH('a::len) \<Longrightarrow> unat (word_of_nat n :: 'a word) = n"
  by (simp add: unat_of_nat take_bit_nat_eq_self)

lemma unat_lt2p: "unat (w :: 'a::len word) < 2 ^ LENGTH('a)"
  by (rule unsigned_less)

lemma uint_lt2p: "uint (w :: 'a::len word) < 2 ^ LENGTH('a)"
  by (rule unsigned_less)

text \<open>The value of \<^verbatim>\<open>(int32_t)x\<close> for an unsigned 32-bit \<open>x\<close>.\<close>

lemma sint_u32: "sint (n :: u32) = (if uint n < 2 ^ 31 then uint n else uint n - 2 ^ 32)"
proof -
  have "sint n = signed_take_bit 31 (uint n)"
    by (simp add: sint_uint)
  also have "\<dots> = (uint n + 2 ^ 31) mod 2 ^ 32 - 2 ^ 31"
    by (simp add: signed_take_bit_eq_take_bit_shift take_bit_eq_mod)
  also have "\<dots> = (if uint n < 2 ^ 31 then uint n else uint n - 2 ^ 32)"
  proof (cases "uint n < 2 ^ 31")
    case True
    then have "(uint n + 2 ^ 31) mod 2 ^ 32 = uint n + 2 ^ 31"
      by (intro mod_pos_pos_trivial) simp_all
    with True show ?thesis by simp
  next
    case False
    then have "(uint n + 2 ^ 31 - 2 ^ 32) mod 2 ^ 32 = uint n + 2 ^ 31 - 2 ^ 32"
      using uint_lt2p [of n] by (intro mod_pos_pos_trivial) simp_all
    moreover have "(uint n + 2 ^ 31 - 2 ^ 32) mod 2 ^ 32 = (uint n + 2 ^ 31) mod 2 ^ 32"
      by (rule minus_mod_self2)
    ultimately show ?thesis using False by simp
  qed
  finally show ?thesis .
qed

section \<open>Flat buffers\<close>

text \<open>
  \<open>read_at p n buf\<close> is the \<open>n\<close> bytes from index \<open>p\<close>, and \<open>write_at p bs buf\<close> stores
  \<open>bs\<close> from index \<open>p\<close>. Both are \<open>None\<close> when the range is not inside the buffer. The
  index is an \<open>int\<close> because the source keeps its read positions in \<open>int32_t\<close> fields.
\<close>

definition read_at :: "int \<Rightarrow> nat \<Rightarrow> 'a list \<Rightarrow> 'a list option" where
  "read_at p n buf =
     (if 0 \<le> p \<and> nat p + n \<le> length buf then Some (take n (drop (nat p) buf)) else None)"

definition write_at :: "int \<Rightarrow> 'a list \<Rightarrow> 'a list \<Rightarrow> 'a list option" where
  "write_at p bs buf =
     (if 0 \<le> p \<and> nat p + length bs \<le> length buf
      then Some (take (nat p) buf @ bs @ drop (nat p + length bs) buf) else None)"

lemma write_at_length [buf_simps]: "write_at p bs buf = Some buf' \<Longrightarrow> length buf' = length buf"
  by (auto simp: write_at_def split: if_splits)

lemma write_at_Some:
  "0 \<le> p \<Longrightarrow> nat p + length bs \<le> length buf \<Longrightarrow> \<exists>buf'. write_at p bs buf = Some buf'"
  by (simp add: write_at_def)

lemma read_at_Some:
  "0 \<le> p \<Longrightarrow> nat p + n \<le> length buf \<Longrightarrow> \<exists>bs. read_at p n buf = Some bs \<and> length bs = n"
  by (simp add: read_at_def)

lemma read_at_length: "read_at p n buf = Some bs \<Longrightarrow> length bs = n"
  by (auto simp: read_at_def split: if_splits)

lemma read_write_same [buf_simps]:
  "write_at p bs buf = Some buf' \<Longrightarrow> read_at p (length bs) buf' = Some bs"
  by (auto simp: write_at_def read_at_def split: if_splits)

lemma read_write_before:
  assumes "write_at p bs buf = Some buf'" "q + int n \<le> p"
  shows "read_at q n buf' = read_at q n buf"
proof (cases "0 \<le> q")
  case True
  from assms(1) have p: "0 \<le> p" "nat p + length bs \<le> length buf"
    and b: "buf' = take (nat p) buf @ bs @ drop (nat p + length bs) buf"
    by (auto simp: write_at_def split: if_splits)
  from True assms(2) have q: "nat q + n \<le> nat p" by linarith
  have "take (nat q + n) buf' = take (nat q + n) buf"
    using p q by (simp add: b)
  then have "take n (drop (nat q) buf') = take n (drop (nat q) buf)"
    by (metis add.commute take_drop)
  moreover have "length buf' = length buf"
    using p by (simp add: b)
  ultimately show ?thesis by (simp add: read_at_def)
qed (simp add: read_at_def)

lemma read_write_after:
  assumes "write_at p bs buf = Some buf'" "p + int (length bs) \<le> q"
  shows "read_at q n buf' = read_at q n buf"
proof -
  from assms(1) have p: "0 \<le> p" "nat p + length bs \<le> length buf"
    and b: "buf' = take (nat p) buf @ bs @ drop (nat p + length bs) buf"
    by (auto simp: write_at_def split: if_splits)
  from p(1) assms(2) have q: "nat p + length bs \<le> nat q" by linarith
  have "drop (nat q) buf' = drop (nat q) buf"
    using p q by (simp add: b)
  moreover have "length buf' = length buf"
    using p by (simp add: b)
  ultimately show ?thesis by (simp add: read_at_def)
qed

section \<open>Little-endian layout\<close>

text \<open>
  The server stores integers by casting a byte pointer, on a little-endian machine: the
  layout of a \<open>w\<close>-bit integer is its bytes from the least significant one.
\<close>

fun le_bytes :: "nat \<Rightarrow> 'a::len word \<Rightarrow> u8 list" where
  "le_bytes 0 w = []"
| "le_bytes (Suc n) w = ucast w # le_bytes n (drop_bit 8 w)"

fun le_value :: "u8 list \<Rightarrow> 'a::len word" where
  "le_value [] = 0"
| "le_value (b # bs) = ucast b OR push_bit 8 (le_value bs)"

lemma length_le_bytes [simp]: "length (le_bytes n w) = n"
  by (induction n arbitrary: w) auto

lemma le_value_le_bytes_take:
  "le_value (le_bytes n w) = (take_bit (8 * n) w :: 'a::len word)"
proof (induction n arbitrary: w)
  case 0
  then show ?case by simp
next
  case (Suc n)
  show ?case
    by (rule bit_word_eqI) (auto simp: Suc bit_simps not_le)
qed

lemma le_value_le_bytes [wire_simps]:
  "LENGTH('a::len) \<le> 8 * n \<Longrightarrow> le_value (le_bytes n w) = (w :: 'a word)"
  by (simp add: le_value_le_bytes_take take_bit_word_eq_self)

lemma le_bytes_le_value [wire_simps]:
  "8 * length bs \<le> LENGTH('a::len) \<Longrightarrow> le_bytes (length bs) (le_value bs :: 'a word) = bs"
proof (induction bs)
  case Nil
  then show ?case by simp
next
  case (Cons b bs)
  let ?v = "le_value bs :: 'a word"
  have tl: "8 * length bs \<le> LENGTH('a)" and room: "8 * length bs + 8 \<le> LENGTH('a)"
    using Cons.prems by simp_all
  have low: "ucast (ucast b OR push_bit 8 ?v :: 'a word) = b"
    using room by (intro bit_word_eqI) (auto simp: bit_simps)
  have small: "\<not> bit ?v n" if "8 * length bs \<le> n" for n
  proof -
    have "take_bit (8 * length bs) ?v = ?v"
      using Cons.IH [OF tl] le_value_le_bytes_take [of "length bs" ?v] by simp
    then have "bit (take_bit (8 * length bs) ?v) n = bit ?v n" by simp
    with that show ?thesis by (simp add: bit_simps)
  qed
  have high: "drop_bit 8 (ucast b OR push_bit 8 ?v :: 'a word) = ?v"
  proof (rule bit_word_eqI)
    fix n
    assume n: "n < LENGTH('a)"
    show "bit (drop_bit 8 (ucast b OR push_bit 8 ?v :: 'a word)) n = bit ?v n"
    proof (cases "8 + n < LENGTH('a)")
      case True
      then show ?thesis by (auto simp: bit_simps dest: bit_imp_le_length)
    next
      case False
      with room small [of n] show ?thesis by (auto simp: bit_simps)
    qed
  qed
  from low high Cons.IH [OF tl] show ?case by simp
qed

text \<open>
  What every user of an integer layout relies on: a fixed width, and the value read back
  from the bytes written. The stream and message templates are proved once against this
  interface and used at each width.
\<close>

locale wire_value =
  fixes enc :: "'v \<Rightarrow> u8 list" and dec :: "u8 list \<Rightarrow> 'v" and width :: nat
  assumes enc_length: "length (enc v) = width"
    and dec_enc: "dec (enc v) = v"
    and enc_dec: "length bs = width \<Longrightarrow> enc (dec bs) = bs"
begin

lemma enc_inj: "enc v = enc w \<Longrightarrow> v = w"
  by (metis dec_enc)

lemma read_written: "write_at p (enc v) buf = Some buf' \<Longrightarrow>
    map_option dec (read_at p width buf') = Some v"
  using read_write_same [of p "enc v" buf buf'] by (simp add: enc_length dec_enc)

end

lemma le_bytes_le_value_width:
  "length bs = n \<Longrightarrow> 8 * n \<le> LENGTH('a::len) \<Longrightarrow> le_bytes n (le_value bs :: 'a word) = bs"
  using le_bytes_le_value [of bs, where 'a = 'a] by simp

interpretation wire8: wire_value "le_bytes 1 :: u8 \<Rightarrow> u8 list" le_value 1
  by unfold_locales (auto simp: length_Suc_conv)

interpretation wire16: wire_value "le_bytes 2 :: u16 \<Rightarrow> u8 list" le_value 2
  by unfold_locales (simp_all add: le_value_le_bytes le_bytes_le_value_width)

interpretation wire32: wire_value "le_bytes 4 :: u32 \<Rightarrow> u8 list" le_value 4
  by unfold_locales (simp_all add: le_value_le_bytes le_bytes_le_value_width)

section \<open>Searching a list\<close>

lemma find_member: "find p xs = Some x \<Longrightarrow> x \<in> set xs \<and> p x"
  by (induction xs) (auto split: if_splits)

section \<open>Stores with a lookup\<close>

text \<open>
  The contract of the tables the server keeps by key (the item types by id, the tiles by
  position): what a lookup returns after an insertion. The keys a table takes and the shape
  its state keeps are parameters.
\<close>

locale joined_store =
  fixes lookup :: "'k \<Rightarrow> 's \<Rightarrow> 'v option"
    and put :: "'k \<Rightarrow> 'v \<Rightarrow> 's \<Rightarrow> 's"
    and good :: "'s \<Rightarrow> bool"
    and key_ok :: "'k \<Rightarrow> bool"
    and join :: "'v option \<Rightarrow> 'v \<Rightarrow> 'v"
  assumes good_put: "good s \<Longrightarrow> key_ok j \<Longrightarrow> good (put j v s)"
    and lookup_put: "good s \<Longrightarrow> key_ok j \<Longrightarrow> key_ok k \<Longrightarrow>
      lookup k (put j v s) = (if k = j then Some (join (lookup k s) v) else lookup k s)"
begin

fun put_all :: "('k \<times> 'v) list \<Rightarrow> 's \<Rightarrow> 's" where
  "put_all [] s = s"
| "put_all ((j, v) # kvs) s = put_all kvs (put j v s)"

lemma good_put_all: "good s \<Longrightarrow> list_all (key_ok \<circ> fst) kvs \<Longrightarrow> good (put_all kvs s)"
  by (induction kvs arbitrary: s) (auto simp: good_put)

lemma lookup_put_all_join:
  "good s \<Longrightarrow> list_all (key_ok \<circ> fst) kvs \<Longrightarrow> key_ok k \<Longrightarrow>
   lookup k (put_all kvs s) =
     fold (\<lambda>v old. Some (join old v)) (map snd (filter (\<lambda>kv. fst kv = k) kvs)) (lookup k s)"
proof (induction kvs arbitrary: s)
  case Nil
  then show ?case by simp
next
  case (Cons a kvs)
  obtain j v where a: "a = (j, v)" by (cases a)
  from Cons.prems a have "good (put j v s)" by (simp add: good_put)
  with Cons.prems a Cons.IH [of "put j v s"] show ?case
    by (auto simp: lookup_put)
qed

end

text \<open>The two ways the components resolve a second \<open>put\<close> of a key: the last value wins, or the
  first one is kept.\<close>

locale lookup_store =
  joined_store lookup put good key_ok "\<lambda>_ v. v"
  for lookup :: "'k \<Rightarrow> 's \<Rightarrow> 'v option"
    and put :: "'k \<Rightarrow> 'v \<Rightarrow> 's \<Rightarrow> 's"
    and good :: "'s \<Rightarrow> bool"
    and key_ok :: "'k \<Rightarrow> bool"
begin

lemma lookup_put_all:
  "good s \<Longrightarrow> list_all (key_ok \<circ> fst) kvs \<Longrightarrow> key_ok k \<Longrightarrow>
   lookup k (put_all kvs s) = (case map_of (rev kvs) k of Some v \<Rightarrow> Some v | None \<Rightarrow> lookup k s)"
proof (induction kvs arbitrary: s)
  case Nil
  then show ?case by simp
next
  case (Cons a kvs)
  obtain j v where a: "a = (j, v)" by (cases a)
  from Cons a have "lookup k (put_all kvs (put j v s)) =
      (case map_of (rev kvs) k of Some v \<Rightarrow> Some v | None \<Rightarrow> lookup k (put j v s))"
    by (intro Cons.IH) (auto simp: good_put)
  with Cons.prems a show ?case
    by (auto simp: lookup_put map_add_def split: option.split)
qed

end

locale keep_store =
  joined_store lookup put good key_ok "\<lambda>old v. case old of None \<Rightarrow> v | Some w \<Rightarrow> w"
  for lookup :: "'k \<Rightarrow> 's \<Rightarrow> 'v option"
    and put :: "'k \<Rightarrow> 'v \<Rightarrow> 's \<Rightarrow> 's"
    and good :: "'s \<Rightarrow> bool"
    and key_ok :: "'k \<Rightarrow> bool"
begin

lemma lookup_put_all:
  "good s \<Longrightarrow> list_all (key_ok \<circ> fst) kvs \<Longrightarrow> key_ok k \<Longrightarrow>
   lookup k (put_all kvs s) = (case lookup k s of Some v \<Rightarrow> Some v | None \<Rightarrow> map_of kvs k)"
proof (induction kvs arbitrary: s)
  case Nil
  then show ?case by (simp split: option.split)
next
  case (Cons a kvs)
  obtain j v where a: "a = (j, v)" by (cases a)
  from Cons a have "lookup k (put_all kvs (put j v s)) =
      (case lookup k (put j v s) of Some v \<Rightarrow> Some v | None \<Rightarrow> map_of kvs k)"
    by (intro Cons.IH) (auto simp: good_put)
  with Cons.prems a show ?case
    by (auto simp: lookup_put split: option.split)
qed

end

end
