(* ===== verification/FileReader.thy ===== *)
theory FileReader
  imports Prelude
begin

text \<open>
  Byte access of the binary file loader (\<^verbatim>\<open>Source/fileloader.h\<close>, \<^verbatim>\<open>Source/fileloader.cpp\<close>):
  reading single bytes and ranges, seeking and telling, either straight from the file or
  through the three-block read cache. The theory ends with the law that makes the cache
  transparent: in both modes the loader behaves as a cursor on the bytes of the file, which
  is the interface (\<open>byte_cursor\<close>) the node parser is verified against.

  File positions are \<open>long\<close> and \<open>unsigned long\<close> in the source; they are \<open>int\<close> here, and
  nothing in a file that fits the address space brings them near the 64-bit bounds. The
  functions return \<open>None\<close> where the code leaves the defined behaviour (an index outside the
  block table or the buffer) and \<^verbatim>\<open>bool\<close> results are kept as such.
\<close>

datatype FILELOADER_ERRORS =
  ERROR_NONE | ERROR_INVALID_FILE_VERSION | ERROR_CAN_NOT_OPEN | ERROR_CAN_NOT_CREATE | ERROR_EOF
| ERROR_SEEK_ERROR | ERROR_NOT_OPEN | ERROR_INVALID_NODE | ERROR_INVALID_FORMAT | ERROR_TELL_ERROR
| ERROR_COULDNOTWRITE | ERROR_CACHE_ERROR

abbreviation NODE_START :: u8 where "NODE_START \<equiv> 0xFE"
abbreviation NODE_END :: u8 where "NODE_END \<equiv> 0xFF"
abbreviation ESCAPE_CHAR :: u8 where "ESCAPE_CHAR \<equiv> 0xFD"

abbreviation CACHE_BLOCKS :: nat where "CACHE_BLOCKS \<equiv> 3"

record cache_block =
  cb_loaded :: bool
  cb_base :: int
  cb_data :: "u8 list"     \<comment> \<open>the bytes the last \<open>fread\<close> stored; \<open>size\<close> is their number\<close>

record FileLoader =
  fl_file :: "u8 list"              \<comment> \<open>the contents behind \<^verbatim>\<open>m_file\<close>\<close>
  fl_pos :: int                     \<comment> \<open>its stdio position\<close>
  fl_lastError :: FILELOADER_ERRORS
  fl_buffer_size :: nat             \<comment> \<open>\<^verbatim>\<open>m_buffer_size\<close>\<close>
  fl_use_cache :: bool
  fl_cache_size :: int
  fl_cached_data :: "cache_block list"
  fl_cache_index :: "nat option"    \<comment> \<open>\<open>None\<close> is \<^verbatim>\<open>NO_VALID_CACHE\<close>\<close>
  fl_cache_offset :: int

definition cb_size :: "cache_block \<Rightarrow> int" where
  "cb_size b = int (length (cb_data b))"

definition fl_new :: "u8 list \<Rightarrow> FileLoader" where
  "fl_new file = \<lparr>fl_file = file, fl_pos = 0, fl_lastError = ERROR_NONE, fl_buffer_size = 1024,
     fl_use_cache = False, fl_cache_size = 0,
     fl_cached_data = replicate CACHE_BLOCKS \<lparr>cb_loaded = False, cb_base = 0, cb_data = []\<rparr>,
     fl_cache_index = None, fl_cache_offset = 0xFFFFFFFF\<rparr>"

section \<open>The block cache\<close>

definition cache_base :: "int \<Rightarrow> int \<Rightarrow> int" where
  "cache_base cs pos = pos AND NOT (cs - 1)"

text \<open>\<open>fread\<close> of at most \<open>n\<close> bytes from a position: short at the end of the file.\<close>

definition fread :: "int \<Rightarrow> nat \<Rightarrow> u8 list \<Rightarrow> u8 list" where
  "fread pos n file = take n (drop (nat pos) file)"

fun find_index_from :: "nat \<Rightarrow> ('a \<Rightarrow> bool) \<Rightarrow> 'a list \<Rightarrow> nat option" where
  "find_index_from i p [] = None"
| "find_index_from i p (x # xs) = (if p x then Some i else find_index_from (Suc i) p xs)"

text \<open>\<^verbatim>\<open>loadCacheBlock\<close>: a free block, else the first that lies more than two blocks away, else
  block 0. The seek of a regular file to a non-negative position does not fail. The result
  \<open>-1\<close> is \<open>None\<close> in the first component.\<close>

definition loadCacheBlock :: "int \<Rightarrow> FileLoader \<Rightarrow> nat option \<times> FileLoader" where
  "loadCacheBlock pos st =
     (let base_pos = cache_base (fl_cache_size st) pos;
          loading_cache =
            (case find_index_from 0 (\<lambda>b. \<not> cb_loaded b) (fl_cached_data st) of
               Some i \<Rightarrow> i
             | None \<Rightarrow>
                 (case find_index_from 0 (\<lambda>b. \<bar>cb_base b - base_pos\<bar> > 2 * fl_cache_size st)
                        (fl_cached_data st) of
                    Some i \<Rightarrow> i | None \<Rightarrow> 0));
          old = fl_cached_data st ! loading_cache;
          data = fread base_pos (nat (fl_cache_size st)) (fl_file st);
          new = old\<lparr>cb_base := base_pos, cb_data := data\<rparr>;
          st1 = st\<lparr>fl_pos := base_pos + int (length data)\<rparr>
      in if int (length data) < pos - base_pos
         then (None, st1\<lparr>fl_lastError := ERROR_SEEK_ERROR,
                         fl_cached_data := (fl_cached_data st)[loading_cache := new]\<rparr>)
         else (Some loading_cache,
               st1\<lparr>fl_cached_data := (fl_cached_data st)[loading_cache := new\<lparr>cb_loaded := True\<rparr>]\<rparr>))"

definition getCacheBlock :: "int \<Rightarrow> FileLoader \<Rightarrow> nat option \<times> FileLoader" where
  "getCacheBlock pos st =
     (case find_index_from 0
             (\<lambda>b. cb_loaded b \<and> cb_base b = cache_base (fl_cache_size st) pos)
             (fl_cached_data st) of
        Some i \<Rightarrow> (Some i, st)
      | None \<Rightarrow> loadCacheBlock pos st)"

section \<open>Bytes, ranges, seek and tell\<close>

text \<open>\<^verbatim>\<open>readByte\<close>: \<open>Some None\<close> is the result false. The test \<^verbatim>\<open>tmp < 0\<close> on the \<open>long\<close>
  copy of the block number sees the failure of \<^verbatim>\<open>getCacheBlock\<close>.\<close>

definition readByte :: "FileLoader \<Rightarrow> (u8 option \<times> FileLoader) option" where
  "readByte st =
     (if fl_use_cache st then
        (case fl_cache_index st of
           None \<Rightarrow> Some (None, st\<lparr>fl_lastError := ERROR_CACHE_ERROR\<rparr>)
         | Some i \<Rightarrow>
             if fl_cache_offset st \<ge> cb_size (fl_cached_data st ! i) then
               (let pos = fl_cache_offset st + cb_base (fl_cached_data st ! i) in
                case getCacheBlock pos st of
                  (None, st1) \<Rightarrow> Some (None, st1)
                | (Some tmp, st1) \<Rightarrow>
                    (let b = fl_cached_data st1 ! tmp; off = pos - cb_base b;
                         st2 = st1\<lparr>fl_cache_index := Some tmp, fl_cache_offset := off\<rparr>
                     in if off \<ge> cb_size b then Some (None, st2)
                        else Some (Some (cb_data b ! nat off), st2\<lparr>fl_cache_offset := off + 1\<rparr>)))
             else Some (Some (cb_data (fl_cached_data st ! i) ! nat (fl_cache_offset st)),
                        st\<lparr>fl_cache_offset := fl_cache_offset st + 1\<rparr>))
      else if nat (fl_pos st) < length (fl_file st)
      then Some (Some (fl_file st ! nat (fl_pos st)), st\<lparr>fl_pos := fl_pos st + 1\<rparr>)
      else Some (None, st\<lparr>fl_lastError := ERROR_EOF\<rparr>))"

text \<open>
  \<^verbatim>\<open>safeSeek\<close> keeps the block number in an \<open>unsigned long\<close> and compares it with
  \<open>0xFFFFFFFF\<close>. Where \<open>long\<close> has 64 bits a failed load (\<open>-1\<close>) is not equal to that constant
  and the block table is indexed out of bounds: \<open>None\<close>.
\<close>

definition safeSeek :: "int \<Rightarrow> FileLoader \<Rightarrow> (bool \<times> FileLoader) option" where
  "safeSeek pos st =
     (if fl_use_cache st then
        (case getCacheBlock pos st of
           (None, st1) \<Rightarrow> None
         | (Some i, st1) \<Rightarrow>
             Some (True, st1\<lparr>fl_cache_index := Some i,
                             fl_cache_offset := pos - cb_base (fl_cached_data st1 ! i)\<rparr>))
      else Some (True, st\<lparr>fl_pos := pos\<rparr>))"

definition safeTell :: "FileLoader \<Rightarrow> int option \<times> FileLoader" where
  "safeTell st =
     (if fl_use_cache st then
        (case fl_cache_index st of
           None \<Rightarrow> (None, st\<lparr>fl_lastError := ERROR_CACHE_ERROR\<rparr>)
         | Some i \<Rightarrow> (Some (cb_base (fl_cached_data st ! i) + fl_cache_offset st - 1), st))
      else (Some (fl_pos st - 1), st))"

text \<open>The copy loop of the cached \<^verbatim>\<open>readBytes\<close>: it ends when nothing remains, and runs on
  without progress when the block has no more bytes, so it is a partial function. A position
  past the loaded bytes makes the unsigned difference huge and the copy undefined.\<close>

partial_function (option) readBytes_loop ::
    "u8 list \<Rightarrow> nat \<Rightarrow> int \<Rightarrow> FileLoader \<Rightarrow> (u8 list \<times> FileLoader) option" where
  "readBytes_loop acc remain pos st =
     (case getCacheBlock pos st of
        (None, st1) \<Rightarrow> None
      | (Some i, st1) \<Rightarrow>
          (let b = fl_cached_data st1 ! i; off = pos - cb_base b in
           if off > cb_size b then None
           else
             let reading = min remain (nat (cb_size b - off));
                 st2 = st1\<lparr>fl_cache_index := Some i, fl_cache_offset := off + int reading\<rparr>;
                 acc2 = acc @ take reading (drop (nat off) (cb_data b))
             in if remain - reading > 0
                then readBytes_loop acc2 (remain - reading) (pos + int reading) st2
                else Some (acc2, st2)))"

definition readBytes :: "nat \<Rightarrow> int \<Rightarrow> FileLoader \<Rightarrow> (u8 list option \<times> FileLoader) option" where
  "readBytes n pos st =
     (if fl_use_cache st then map_option (apfst Some) (readBytes_loop [] n pos st)
      else
        let value = fread pos n (fl_file st);
            st1 = st\<lparr>fl_pos := pos + int (length value)\<rparr>
        in if length value \<noteq> n then Some (None, st1\<lparr>fl_lastError := ERROR_EOF\<rparr>)
           else Some (Some value, st1))"

section \<open>The cache holds bytes of the file\<close>

lemma cache_base_bounds:
  assumes "0 \<le> pos" "1 \<le> cs"
  shows "0 \<le> cache_base cs pos" "cache_base cs pos \<le> pos" "pos < cache_base cs pos + cs"
proof -
  let ?m = "cs - 1"
  have split: "(pos AND ?m) + cache_base cs pos = pos"
  proof -
    have "(pos AND ?m) AND (pos AND NOT ?m) = 0"
      by (rule bit_eqI) (auto simp: bit_simps)
    then have "(pos AND ?m) + (pos AND NOT ?m) = (pos AND ?m) OR (pos AND NOT ?m)"
      using plus_and_or [of "pos AND ?m" "pos AND NOT ?m"] by simp
    also have "\<dots> = pos"
      by (rule bit_eqI) (auto simp: bit_simps)
    finally show ?thesis by (simp add: cache_base_def)
  qed
  have m: "0 \<le> pos AND ?m" "pos AND ?m \<le> ?m"
    using assms by (simp_all add: AND_upper2)
  have "0 \<le> pos AND NOT ?m" using assms by simp
  then show "0 \<le> cache_base cs pos" by (simp add: cache_base_def)
  from split m assms show "cache_base cs pos \<le> pos" "pos < cache_base cs pos + cs"
    by linarith+
qed

lemma find_index_from_Some:
  "find_index_from k p xs = Some i \<Longrightarrow> k \<le> i \<and> i < k + length xs \<and> p (xs ! (i - k))"
proof (induction xs arbitrary: k)
  case Nil
  then show ?case by simp
next
  case (Cons x xs)
  show ?case
  proof (cases "p x")
    case True
    with Cons.prems show ?thesis by auto
  next
    case False
    with Cons.prems have "find_index_from (Suc k) p xs = Some i" by simp
    from Cons.IH [OF this] have i: "Suc k \<le> i" "i < Suc k + length xs" "p (xs ! (i - Suc k))" by auto
    then have "i - k = Suc (i - Suc k)" by simp
    with i show ?thesis by simp
  qed
qed

definition block_ok :: "u8 list \<Rightarrow> int \<Rightarrow> cache_block \<Rightarrow> bool" where
  "block_ok file cs b \<longleftrightarrow>
     (cb_loaded b \<longrightarrow> 0 \<le> cb_base b \<and> cb_data b = fread (cb_base b) (nat cs) file)"

definition cache_inv :: "u8 list \<Rightarrow> FileLoader \<Rightarrow> bool" where
  "cache_inv file st \<longleftrightarrow> fl_file st = file \<and>
     (fl_use_cache st \<longrightarrow> 1 \<le> fl_cache_size st \<and> length (fl_cached_data st) = CACHE_BLOCKS \<and>
        (\<forall>b \<in> set (fl_cached_data st). block_ok file (fl_cache_size st) b))"

definition cursor :: "u8 list \<Rightarrow> int \<Rightarrow> FileLoader \<Rightarrow> bool" where
  "cursor file p st \<longleftrightarrow> cache_inv file st \<and> 0 \<le> p \<and> p \<le> int (length file) \<and>
     (if fl_use_cache st then
        (\<exists>i. fl_cache_index st = Some i \<and> i < CACHE_BLOCKS \<and> cb_loaded (fl_cached_data st ! i) \<and>
           cb_base (fl_cached_data st ! i) + fl_cache_offset st = p \<and> 0 \<le> fl_cache_offset st \<and>
           fl_cache_offset st \<le> cb_size (fl_cached_data st ! i))
      else fl_pos st = p)"

lemma block_ok_nth:
  assumes "block_ok file cs b" "cb_loaded b" "1 \<le> cs" "0 \<le> off" "off < cb_size b"
  shows "cb_data b ! nat off = file ! nat (cb_base b + off)"
    "cb_base b + off < int (length file)"
proof -
  have d: "cb_data b = take (nat cs) (drop (nat (cb_base b)) file)" "0 \<le> cb_base b"
    using assms by (auto simp: block_ok_def fread_def)
  have len: "nat off < length (take (nat cs) (drop (nat (cb_base b)) file))"
    using assms(4,5) d(1) by (simp add: cb_size_def) linarith
  then have "nat off < nat cs" "nat off < length file - nat (cb_base b)" by simp_all
  with d assms(4) show "cb_data b ! nat off = file ! nat (cb_base b + off)"
    by (simp add: nat_add_distrib)
  show "cb_base b + off < int (length file)"
    using len d assms(4) by simp linarith
qed

lemma block_ok_size:
  assumes "block_ok file cs b" "cb_loaded b" "1 \<le> cs" "0 \<le> off" "off < cs"
    "cb_base b + off \<le> int (length file)"
  shows "off \<le> cb_size b" "off = cb_size b \<Longrightarrow> cb_base b + off = int (length file)"
proof -
  have d: "cb_data b = take (nat cs) (drop (nat (cb_base b)) file)" "0 \<le> cb_base b"
    using assms by (auto simp: block_ok_def fread_def)
  then have "cb_size b = min cs (int (length file) - cb_base b)" if "cb_base b \<le> int (length file)"
    using that assms(3) by (simp add: cb_size_def min_def nat_le_iff) linarith
  with assms show "off \<le> cb_size b" "off = cb_size b \<Longrightarrow> cb_base b + off = int (length file)"
    by (auto simp: min_def split: if_splits)
qed

lemma cache_inv_fread_size:
  "0 \<le> b \<Longrightarrow> 1 \<le> cs \<Longrightarrow> b \<le> int (length file) \<Longrightarrow>
   int (length (fread b (nat cs) file)) = min cs (int (length file) - b)"
  by (simp add: fread_def min_def) linarith

text \<open>The block that holds a position inside the file is always found or loaded.\<close>

lemma getCacheBlock_ok:
  assumes inv: "cache_inv file st" and c: "fl_use_cache st" and p: "0 \<le> p" "p \<le> int (length file)"
  shows "\<exists>i st'. getCacheBlock p st = (Some i, st') \<and> i < CACHE_BLOCKS \<and> cache_inv file st' \<and>
    fl_use_cache st' \<and> fl_cache_size st' = fl_cache_size st \<and> fl_buffer_size st' = fl_buffer_size st \<and>
    cb_loaded (fl_cached_data st' ! i) \<and>
    cb_base (fl_cached_data st' ! i) = cache_base (fl_cache_size st) p"
proof (cases "find_index_from 0
    (\<lambda>b. cb_loaded b \<and> cb_base b = cache_base (fl_cache_size st) p) (fl_cached_data st)")
  case (Some i)
  from find_index_from_Some [OF this] inv c Some show ?thesis
    by (auto simp: getCacheBlock_def cache_inv_def)
next
  case None
  let ?cs = "fl_cache_size st" and ?d = "fl_cached_data st"
  let ?b = "cache_base ?cs p"
  define l where "l = (case find_index_from 0 (\<lambda>b. \<not> cb_loaded b) ?d of Some i \<Rightarrow> i
    | None \<Rightarrow> (case find_index_from 0 (\<lambda>b. \<bar>cb_base b - ?b\<bar> > 2 * ?cs) ?d of Some i \<Rightarrow> i | None \<Rightarrow> 0))"
  have cs: "1 \<le> ?cs" and len: "length ?d = CACHE_BLOCKS" and fl: "fl_file st = file"
    and ok: "\<forall>b \<in> set ?d. block_ok file ?cs b"
    using inv c by (auto simp: cache_inv_def)
  have l: "l < CACHE_BLOCKS"
    using len by (auto simp: l_def dest!: find_index_from_Some split: option.split)
  note b = cache_base_bounds [OF p(1) cs]
  have short: "\<not> int (length (fread ?b (nat ?cs) file)) < p - ?b"
    using cache_inv_fread_size [of ?b ?cs "file"] b p cs by (auto simp: min_def)
  let ?new = "(?d ! l)\<lparr>cb_base := ?b, cb_data := fread ?b (nat ?cs) file, cb_loaded := True\<rparr>"
  let ?st = "st\<lparr>fl_pos := ?b + int (length (fread ?b (nat ?cs) file)), fl_cached_data := ?d[l := ?new]\<rparr>"
  have "getCacheBlock p st = (Some l, ?st)"
    using None short fl by (simp add: getCacheBlock_def loadCacheBlock_def Let_def l_def)
  moreover have "block_ok file ?cs ?new"
    using b by (simp add: block_ok_def)
  then have "cache_inv file ?st"
    using ok cs len fl set_update_subset_insert [of ?d l ?new] by (auto simp: cache_inv_def)
  ultimately show ?thesis using l len c by auto
qed

text \<open>The offset of a position in its block: inside the loaded bytes, or at their end exactly
  at the end of the file.\<close>

lemma getCacheBlock_offset:
  assumes inv: "cache_inv file st" and c: "fl_use_cache st" and p: "0 \<le> p" "p \<le> int (length file)"
    and i: "i < CACHE_BLOCKS" and l: "cb_loaded (fl_cached_data st ! i)"
    and base: "cb_base (fl_cached_data st ! i) = cache_base (fl_cache_size st) p"
  shows "0 \<le> p - cb_base (fl_cached_data st ! i)"
    "p - cb_base (fl_cached_data st ! i) \<le> cb_size (fl_cached_data st ! i)"
    "p - cb_base (fl_cached_data st ! i) = cb_size (fl_cached_data st ! i) \<Longrightarrow> p = int (length file)"
proof -
  have cs: "1 \<le> fl_cache_size st" and ok: "block_ok file (fl_cache_size st) (fl_cached_data st ! i)"
    using inv c i by (auto simp: cache_inv_def)
  note b = cache_base_bounds [OF p(1) cs]
  show "0 \<le> p - cb_base (fl_cached_data st ! i)" using b base by simp
  show "p - cb_base (fl_cached_data st ! i) \<le> cb_size (fl_cached_data st ! i)"
    "p - cb_base (fl_cached_data st ! i) = cb_size (fl_cached_data st ! i) \<Longrightarrow> p = int (length file)"
    using block_ok_size [OF ok l cs, of "p - cb_base (fl_cached_data st ! i)"] b base p by auto
qed

section \<open>The interface of the node parser\<close>

text \<open>
  What the parser needs of its reader: a state stands at a position of the file, reading
  gives the byte there and moves on, or fails at the end; telling reports one less than
  the position; seeking moves anywhere inside.
\<close>

locale byte_cursor =
  fixes rb :: "'s \<Rightarrow> (u8 option \<times> 's) option"
    and tell :: "'s \<Rightarrow> int option \<times> 's"
    and seek :: "int \<Rightarrow> 's \<Rightarrow> (bool \<times> 's) option"
    and bytes :: "u8 list"
    and stands :: "int \<Rightarrow> 's \<Rightarrow> bool"
    and safe :: "'s \<Rightarrow> bool"
  assumes stands_bounds: "stands p st \<Longrightarrow> 0 \<le> p \<and> p \<le> int (length bytes) \<and> safe st"
    and rb_byte: "stands p st \<Longrightarrow> p < int (length bytes) \<Longrightarrow>
      \<exists>st'. rb st = Some (Some (bytes ! nat p), st') \<and> stands (p + 1) st'"
    and rb_eof: "stands p st \<Longrightarrow> p = int (length bytes) \<Longrightarrow> \<exists>st'. rb st = Some (None, st') \<and> stands p st'"
    and tell_pos: "stands p st \<Longrightarrow> tell st = (Some (p - 1), st)"
    and seek_pos: "stands p st \<Longrightarrow> 0 \<le> q \<Longrightarrow> q \<le> int (length bytes) \<Longrightarrow>
      \<exists>st'. seek q st = Some (True, st') \<and> stands q st'"

lemma cursor_readByte:
  assumes cur: "cursor file p st" and p: "p < int (length file)"
  shows "\<exists>st'. readByte st = Some (Some (file ! nat p), st') \<and> cursor file (p + 1) st' \<and>
    fl_buffer_size st' = fl_buffer_size st"
proof (cases "fl_use_cache st")
  case False
  with cur p show ?thesis by (auto simp: readByte_def cursor_def cache_inv_def)
next
  case True
  from cur True obtain i where i: "fl_cache_index st = Some i" "i < CACHE_BLOCKS"
    "cb_loaded (fl_cached_data st ! i)" "cb_base (fl_cached_data st ! i) + fl_cache_offset st = p"
    "0 \<le> fl_cache_offset st" "fl_cache_offset st \<le> cb_size (fl_cached_data st ! i)"
    by (auto simp: cursor_def)
  have inv: "cache_inv file st" and p0: "0 \<le> p" using cur by (auto simp: cursor_def)
  show ?thesis
  proof (cases "fl_cache_offset st < cb_size (fl_cached_data st ! i)")
    case off: True
    have "block_ok file (fl_cache_size st) (fl_cached_data st ! i)" "1 \<le> fl_cache_size st"
      using inv True i(2) by (auto simp: cache_inv_def)
    from block_ok_nth(1) [OF this(1) i(3) this(2) i(5) off] i(4)
    have "cb_data (fl_cached_data st ! i) ! nat (fl_cache_offset st) = file ! nat p" by simp
    with True i off cur p show ?thesis
      by (auto simp: readByte_def cursor_def cache_inv_def)
  next
    case off: False
    from getCacheBlock_ok [OF inv True p0] p obtain j st1 where
      j: "getCacheBlock p st = (Some j, st1)" "j < CACHE_BLOCKS" "cache_inv file st1" "fl_use_cache st1"
        "fl_cache_size st1 = fl_cache_size st" "fl_buffer_size st1 = fl_buffer_size st"
        "cb_loaded (fl_cached_data st1 ! j)"
        "cb_base (fl_cached_data st1 ! j) = cache_base (fl_cache_size st1) p"
      by fastforce
    let ?b = "fl_cached_data st1 ! j"
    have bounds: "0 \<le> p - cb_base ?b" "p - cb_base ?b < cb_size ?b"
    proof -
      have "p \<le> int (length file)" using p by simp
      note o = getCacheBlock_offset [OF j(3,4) p0 this j(2,7,8)]
      have "p - cb_base ?b \<noteq> cb_size ?b" using o(3) p by auto
      with o show "0 \<le> p - cb_base ?b" "p - cb_base ?b < cb_size ?b" by linarith+
    qed
    have "block_ok file (fl_cache_size st1) ?b" "1 \<le> fl_cache_size st1"
      using j by (auto simp: cache_inv_def)
    from block_ok_nth(1) [OF this(1) j(7) this(2) bounds]
    have "cb_data ?b ! nat (p - cb_base ?b) = file ! nat p" by simp
    moreover have "fl_cache_offset st + cb_base (fl_cached_data st ! i) = p" using i(4) by simp
    ultimately show ?thesis
      using True i(1) off j bounds p p0
      by (auto simp: readByte_def Let_def cursor_def cache_inv_def)
  qed
qed

lemma cursor_readByte_eof:
  assumes cur: "cursor file p st" and p: "p = int (length file)"
  shows "\<exists>st'. readByte st = Some (None, st') \<and> cursor file p st' \<and>
    fl_buffer_size st' = fl_buffer_size st"
proof (cases "fl_use_cache st")
  case False
  with cur p show ?thesis by (auto simp: readByte_def cursor_def cache_inv_def)
next
  case True
  from cur True obtain i where i: "fl_cache_index st = Some i" "i < CACHE_BLOCKS"
    "cb_loaded (fl_cached_data st ! i)" "cb_base (fl_cached_data st ! i) + fl_cache_offset st = p"
    "0 \<le> fl_cache_offset st"
    by (auto simp: cursor_def)
  have inv: "cache_inv file st" and p0: "0 \<le> p" using cur by (auto simp: cursor_def)
  have full: "\<not> fl_cache_offset st < cb_size (fl_cached_data st ! i)"
  proof
    assume off: "fl_cache_offset st < cb_size (fl_cached_data st ! i)"
    have "block_ok file (fl_cache_size st) (fl_cached_data st ! i)" "1 \<le> fl_cache_size st"
      using inv True i(2) by (auto simp: cache_inv_def)
    from block_ok_nth(2) [OF this(1) i(3) this(2) i(5) off] i(4) p show False by simp
  qed
  from getCacheBlock_ok [OF inv True p0] p obtain j st1 where
    j: "getCacheBlock p st = (Some j, st1)" "j < CACHE_BLOCKS" "cache_inv file st1" "fl_use_cache st1"
      "fl_cache_size st1 = fl_cache_size st" "fl_buffer_size st1 = fl_buffer_size st"
      "cb_loaded (fl_cached_data st1 ! j)"
      "cb_base (fl_cached_data st1 ! j) = cache_base (fl_cache_size st1) p"
    by fastforce
  note full j
  moreover have "\<not> p - cb_base (fl_cached_data st1 ! j) < cb_size (fl_cached_data st1 ! j)"
  proof
    assume off: "p - cb_base (fl_cached_data st1 ! j) < cb_size (fl_cached_data st1 ! j)"
    have "block_ok file (fl_cache_size st1) (fl_cached_data st1 ! j)" "1 \<le> fl_cache_size st1"
      using j by (auto simp: cache_inv_def)
    moreover have "0 \<le> p - cb_base (fl_cached_data st1 ! j)"
      using getCacheBlock_offset [OF j(3,4) p0 _ j(2,7,8)] p by auto
    ultimately show False using block_ok_nth(2) [OF _ j(7) _ _ off] p by auto
  qed
  moreover have "fl_cache_offset st + cb_base (fl_cached_data st ! i) = p" using i(4) by simp
  moreover have "0 \<le> p - cb_base (fl_cached_data st1 ! j)"
    "p - cb_base (fl_cached_data st1 ! j) \<le> cb_size (fl_cached_data st1 ! j)"
    using getCacheBlock_offset [OF j(3,4) p0 _ j(2,7,8)] p by auto
  ultimately show ?thesis
    using True i(1) cur by (auto simp: readByte_def Let_def cursor_def cache_inv_def)
qed

lemma safeSeek_cursor:
  assumes inv: "cache_inv file st" and q: "0 \<le> q" "q \<le> int (length file)"
  shows "\<exists>st'. safeSeek q st = Some (True, st') \<and> cursor file q st' \<and>
    fl_buffer_size st' = fl_buffer_size st"
proof (cases "fl_use_cache st")
  case False
  with inv q show ?thesis by (auto simp: safeSeek_def cursor_def cache_inv_def)
next
  case True
  from getCacheBlock_ok [OF inv True q] obtain j st1 where
    j: "getCacheBlock q st = (Some j, st1)" "j < CACHE_BLOCKS" "cache_inv file st1" "fl_use_cache st1"
      "fl_cache_size st1 = fl_cache_size st" "fl_buffer_size st1 = fl_buffer_size st"
      "cb_loaded (fl_cached_data st1 ! j)"
      "cb_base (fl_cached_data st1 ! j) = cache_base (fl_cache_size st1) q"
    by fastforce
  with getCacheBlock_offset [OF j(3,4) q j(2,7,8)] True q show ?thesis
    by (auto simp: safeSeek_def cursor_def cache_inv_def)
qed

text \<open>The loader, in either mode, is a cursor on its file.\<close>

interpretation loader: byte_cursor readByte safeTell safeSeek bytes
    "\<lambda>p st. cursor bytes p st \<and> fl_buffer_size st = bs" "\<lambda>st. cache_inv bytes st \<and> fl_buffer_size st = bs"
  for bytes bs
proof
  fix p st
  assume c: "cursor bytes p st \<and> fl_buffer_size st = bs"
  then show "0 \<le> p \<and> p \<le> int (length bytes) \<and> cache_inv bytes st \<and> fl_buffer_size st = bs"
    by (simp add: cursor_def)
  show "\<exists>st'. readByte st = Some (Some (bytes ! nat p), st') \<and> cursor bytes (p + 1) st' \<and> fl_buffer_size st' = bs"
    if "p < int (length bytes)"
    using cursor_readByte [of bytes p st] c that by auto
  show "\<exists>st'. readByte st = Some (None, st') \<and> cursor bytes p st' \<and> fl_buffer_size st' = bs"
    if "p = int (length bytes)"
    using cursor_readByte_eof [of bytes p st] c that by auto
  show "safeTell st = (Some (p - 1), st)"
    using c by (auto simp: safeTell_def cursor_def)
  show "\<exists>st'. safeSeek q st = Some (True, st') \<and> cursor bytes q st' \<and> fl_buffer_size st' = bs"
    if "0 \<le> q" "q \<le> int (length bytes)" for q
    using safeSeek_cursor [of bytes st q] c that by (auto simp: cursor_def)
qed

section \<open>Ranges\<close>

lemma readBytes_loop_ok:
  assumes "cache_inv file st" "fl_use_cache st" "0 \<le> pos" "pos + int n \<le> int (length file)"
  shows "\<exists>st'. readBytes_loop acc n pos st = Some (acc @ take n (drop (nat pos) file), st') \<and>
    cache_inv file st' \<and> fl_buffer_size st' = fl_buffer_size st"
  using assms
proof (induction n arbitrary: acc pos st rule: less_induct)
  case (less n)
  have p: "pos \<le> int (length file)" using less.prems by simp
  from getCacheBlock_ok [OF less.prems(1,2,3) p] obtain j st1 where
    j: "getCacheBlock pos st = (Some j, st1)" "j < CACHE_BLOCKS" "cache_inv file st1" "fl_use_cache st1"
      "fl_cache_size st1 = fl_cache_size st" "fl_buffer_size st1 = fl_buffer_size st"
      "cb_loaded (fl_cached_data st1 ! j)"
      "cb_base (fl_cached_data st1 ! j) = cache_base (fl_cache_size st1) pos"
    by fastforce
  let ?b = "fl_cached_data st1 ! j"
  let ?off = "pos - cb_base ?b"
  note off = getCacheBlock_offset [OF j(3,4) less.prems(3) p j(2,7,8)]
  define r where "r = min n (nat (cb_size ?b - ?off))"
  let ?st2 = "st1\<lparr>fl_cache_index := Some j, fl_cache_offset := ?off + int r\<rparr>"
  have inv2: "cache_inv file ?st2" "fl_use_cache ?st2" "fl_buffer_size ?st2 = fl_buffer_size st"
    using j by (auto simp: cache_inv_def)
  have data: "take r (drop (nat ?off) (cb_data ?b)) = take r (drop (nat pos) file)"
  proof -
    have "block_ok file (fl_cache_size st1) ?b" using j by (auto simp: cache_inv_def)
    then have d: "cb_data ?b = take (nat (fl_cache_size st1)) (drop (nat (cb_base ?b)) file)" "0 \<le> cb_base ?b"
      using j(7) by (auto simp: block_ok_def fread_def)
    have r: "r \<le> nat (fl_cache_size st1) - nat ?off"
    proof -
      have "length (cb_data ?b) \<le> nat (fl_cache_size st1)" using d(1) by simp
      moreover have "nat (cb_size ?b - ?off) = length (cb_data ?b) - nat ?off"
        using off(1) by (simp add: cb_size_def)
      ultimately show ?thesis unfolding r_def by linarith
    qed
    have "nat pos = nat ?off + nat (cb_base ?b)" using off(1) d(2) by linarith
    with d(1) r show ?thesis by (simp add: drop_take min_def)
  qed
  have step: "readBytes_loop acc n pos st =
      (if n - r > 0 then readBytes_loop (acc @ take r (drop (nat pos) file)) (n - r) (pos + int r) ?st2
       else Some (acc @ take r (drop (nat pos) file), ?st2))"
  proof -
    have "readBytes_loop acc n pos st =
      (if n - r > 0
       then readBytes_loop (acc @ take r (drop (nat ?off) (cb_data ?b))) (n - r) (pos + int r) ?st2
       else Some (acc @ take r (drop (nat ?off) (cb_data ?b)), ?st2))"
      using j(1) off(2) by (subst readBytes_loop.simps) (simp add: r_def Let_def)
    then show ?thesis unfolding data .
  qed
  show ?case
  proof (cases "n - r > 0")
    case False
    then have "r = n" by (simp add: r_def)
    with step inv2 show ?thesis by simp
  next
    case True
    have "0 < r"
    proof (rule ccontr)
      assume "\<not> 0 < r"
      with True have "?off = cb_size ?b" using off(2) by (simp add: r_def min_def split: if_splits)
      with off(3) less.prems(4) True show False by simp
    qed
    have rn: "r < n" using True by simp
    from less.IH [of "n - r" ?st2 "pos + int r" "acc @ take r (drop (nat pos) file)"]
      inv2 less.prems(3,4) \<open>0 < r\<close> rn
    obtain st' where st': "readBytes_loop (acc @ take r (drop (nat pos) file)) (n - r) (pos + int r) ?st2 =
        Some ((acc @ take r (drop (nat pos) file)) @ take (n - r) (drop (nat (pos + int r)) file), st')"
      "cache_inv file st'" "fl_buffer_size st' = fl_buffer_size st"
      by auto
    have "nat (pos + int r) = r + nat pos" using less.prems(3) by linarith
    then have "take r (drop (nat pos) file) @ take (n - r) (drop (nat (pos + int r)) file) =
        take n (drop (nat pos) file)"
      using rn by (metis add_diff_inverse_nat drop_drop less_not_sym take_add)
    with st' step True show ?thesis by simp
  qed
qed

lemma readBytes_buffer:
  assumes "cache_inv file st" "0 \<le> pos" "pos + int n \<le> int (length file)"
  shows "\<exists>st'. readBytes n pos st = Some (Some (take n (drop (nat pos) file)), st') \<and>
    cache_inv file st' \<and> fl_buffer_size st' = fl_buffer_size st"
proof (cases "fl_use_cache st")
  case True
  from readBytes_loop_ok [OF assms(1) this assms(2,3), of "[]"] True show ?thesis
    by (auto simp: readBytes_def)
next
  case False
  have "nat pos + n \<le> length file" using assms by linarith
  with False assms(1) show ?thesis
    by (auto simp: readBytes_def cache_inv_def Let_def fread_def)
qed

text \<open>
  The read cache is transparent: from any consistent loader state, cached or not, reading
  a range that lies inside the file succeeds, terminates and returns exactly the bytes of
  the file, and leaves the loader consistent.
\<close>
theorem readBytes_correct:
  assumes "cache_inv file st" "0 \<le> pos" "pos + int n \<le> int (length file)"
  shows "\<exists>st'. readBytes n pos st = Some (Some (take n (drop (nat pos) file)), st') \<and>
    cache_inv file st'"
  using readBytes_buffer [OF assms] by blast

theorem readBytes_correct_witness:
  "\<exists>st'. readBytes 2 1 ((fl_new [10, 11, 12, 13])\<lparr>fl_use_cache := True, fl_cache_size := 8192\<rparr>) =
     Some (Some [11, 12], st') \<and> cache_inv [10, 11, 12, 13] st'"
  using readBytes_correct [of "[10, 11, 12, 13]"
      "(fl_new [10, 11, 12, 13])\<lparr>fl_use_cache := True, fl_cache_size := 8192\<rparr>" 1 2]
  by (simp add: cache_inv_def fl_new_def block_ok_def)

end
