(* ===== verification/PropStreams.thy ===== *)
theory PropStreams
  imports Prelude
begin

text \<open>
  The property streams of \<^verbatim>\<open>Source/fileloader.h\<close>: \<^verbatim>\<open>PropStream\<close> reads typed values from
  a byte array between a moving pointer and its end, \<^verbatim>\<open>PropWriteStream\<close> appends typed
  values to a growing heap buffer. Items, houses, players and the map files are stored
  through them. The templates \<^verbatim>\<open>GET_VALUE\<close> and \<^verbatim>\<open>ADD_VALUE\<close> are modelled once, over the
  layout of a value, and instantiated at the widths the accessors use.

  The main facts: a read never moves past the end, a value or string written is read back
  and the stream moves to what follows, and the growing buffer is a correct implementation
  of appending to a byte list as long as its 32-bit size does not overflow.
\<close>

section \<open>Reading\<close>

record PropStream =
  ps_data :: "u8 list"   \<comment> \<open>the array the stream was given, up to \<^verbatim>\<open>end\<close>\<close>
  ps_p :: nat            \<comment> \<open>the pointer \<^verbatim>\<open>p\<close>, as an index of the array\<close>

definition ps_init :: "u8 list \<Rightarrow> PropStream" where
  "ps_init a = \<lparr>ps_data = a, ps_p = 0\<rparr>"

definition ps_size :: "PropStream \<Rightarrow> int" where
  "ps_size s = int (length (ps_data s)) - int (ps_p s)"

definition ps_rest :: "PropStream \<Rightarrow> u8 list" where
  "ps_rest s = drop (ps_p s) (ps_data s)"

definition ps_wf :: "PropStream \<Rightarrow> bool" where
  "ps_wf s \<longleftrightarrow> ps_p s \<le> length (ps_data s)"

text \<open>
  The accessors return \<open>None\<close> where the code returns false, and then the stream has not
  moved; the value read and the moved stream otherwise.
\<close>

definition GET_VALUE :: "nat \<Rightarrow> (u8 list \<Rightarrow> 'v) \<Rightarrow> PropStream \<Rightarrow> ('v \<times> PropStream) option" where
  "GET_VALUE sz dec s =
     (if ps_size s < int sz then None
      else Some (dec (take sz (ps_rest s)), s\<lparr>ps_p := ps_p s + sz\<rparr>))"

definition GET_UINT32 :: "PropStream \<Rightarrow> (u32 \<times> PropStream) option" where
  "GET_UINT32 = GET_VALUE 4 le_value"

definition GET_INT32 :: "PropStream \<Rightarrow> (int \<times> PropStream) option" where
  "GET_INT32 = GET_VALUE 4 (\<lambda>bs. sint (le_value bs :: u32))"

definition GET_UINT16 :: "PropStream \<Rightarrow> (u16 \<times> PropStream) option" where
  "GET_UINT16 = GET_VALUE 2 le_value"

definition GET_INT16 :: "PropStream \<Rightarrow> (int \<times> PropStream) option" where
  "GET_INT16 = GET_VALUE 2 (\<lambda>bs. sint (le_value bs :: u16))"

definition GET_UINT8 :: "PropStream \<Rightarrow> (u8 \<times> PropStream) option" where
  "GET_UINT8 = GET_VALUE 1 le_value"

definition GET_INT8 :: "PropStream \<Rightarrow> (int \<times> PropStream) option" where
  "GET_INT8 = GET_VALUE 1 (\<lambda>bs. sint (le_value bs :: u8))"

definition GET_NSTRING :: "u16 \<Rightarrow> PropStream \<Rightarrow> (u8 list \<times> PropStream) option" where
  "GET_NSTRING str_len s =
     (if ps_size s < int (unat str_len) then None
      else Some (take (unat str_len) (ps_rest s), s\<lparr>ps_p := ps_p s + unat str_len\<rparr>))"

definition GET_RAWSTRING :: "nat \<Rightarrow> PropStream \<Rightarrow> (u8 list \<times> PropStream) option" where
  "GET_RAWSTRING str_len s =
     (if ps_size s < int str_len then None
      else Some (take str_len (ps_rest s), s\<lparr>ps_p := ps_p s + str_len\<rparr>))"

definition GET_STRING :: "PropStream \<Rightarrow> (u8 list \<times> PropStream) option" where
  "GET_STRING s =
     (case GET_UINT16 s of
        None \<Rightarrow> None
      | Some (str_len, s1) \<Rightarrow>
          if ps_size s1 < int (unat str_len) then None
          else Some (take (unat str_len) (ps_rest s1), s1\<lparr>ps_p := ps_p s1 + unat str_len\<rparr>))"

text \<open>
  \<^verbatim>\<open>GET_STRING\<close> has consumed the length when it fails; its callers drop the stream then.
  \<^verbatim>\<open>GET_LSTRING\<close> compares the size with \<^verbatim>\<open>(int32_t)str_len\<close>: a length of \<open>2 ^ 31\<close> or more
  is negative there, passes the check and makes the copy run past the array, which is
  the outer \<open>None\<close>.
\<close>

definition GET_LSTRING :: "PropStream \<Rightarrow> (u8 list \<times> PropStream) option option" where
  "GET_LSTRING s =
     (case GET_UINT32 s of
        None \<Rightarrow> Some None
      | Some (str_len, s1) \<Rightarrow>
          if ps_size s1 < sint str_len then Some None
          else if ps_size s1 < uint str_len then None
          else Some (Some (take (unat str_len) (ps_rest s1), s1\<lparr>ps_p := ps_p s1 + unat str_len\<rparr>)))"

text \<open>\<^verbatim>\<open>SKIP_N\<close> takes a signed count: a negative one moves back, and out of the array
  (the outer \<open>None\<close>) when it is larger than the bytes already read.\<close>

definition SKIP_N :: "int \<Rightarrow> PropStream \<Rightarrow> PropStream option option" where
  "SKIP_N n s =
     (if ps_size s < n then Some None
      else if int (ps_p s) + n < 0 then None
      else Some (Some (s\<lparr>ps_p := nat (int (ps_p s) + n)\<rparr>)))"

subsection \<open>Facts on reading\<close>

lemma ps_init_rest [simp]: "ps_rest (ps_init a) = a" "ps_wf (ps_init a)"
  by (simp_all add: ps_init_def ps_rest_def ps_wf_def)

lemma ps_size_rest: "ps_wf s \<Longrightarrow> ps_size s = int (length (ps_rest s))"
  by (simp add: ps_size_def ps_rest_def ps_wf_def)

lemma ps_advance: "ps_rest (s\<lparr>ps_p := ps_p s + n\<rparr>) = drop n (ps_rest s)"
  by (simp add: ps_rest_def add.commute)

lemma ps_advance_wf: "int n \<le> ps_size s \<Longrightarrow> ps_wf (s\<lparr>ps_p := ps_p s + n\<rparr>)"
  by (simp add: ps_wf_def ps_size_def)

lemma GET_VALUE_wf: "GET_VALUE sz dec s = Some (v, s') \<Longrightarrow> ps_wf s'"
  by (auto simp: GET_VALUE_def not_less intro: ps_advance_wf split: if_splits)

lemma GET_VALUE_append:
  assumes "ps_wf s" "ps_rest s = bs @ r" "length bs = sz"
  shows "\<exists>s'. GET_VALUE sz dec s = Some (dec bs, s') \<and> ps_rest s' = r \<and> ps_wf s'"
proof -
  have sz: "\<not> ps_size s < int sz"
    using assms by (simp add: ps_size_rest)
  then have wf: "ps_wf (s\<lparr>ps_p := ps_p s + sz\<rparr>)"
    by (intro ps_advance_wf) simp
  show ?thesis
    using sz wf assms by (auto simp: GET_VALUE_def ps_advance)
qed

lemma GET_UINT8_Cons:
  assumes "ps_wf s" "ps_rest s = b # r"
  shows "\<exists>s'. GET_UINT8 s = Some (b, s') \<and> ps_rest s' = r \<and> ps_wf s'"
  using GET_VALUE_append [of s "[b]" r 1 "le_value :: u8 list \<Rightarrow> u8"] assms
  by (simp add: GET_UINT8_def)

lemma GET_UINT8_Nil: "ps_wf s \<Longrightarrow> ps_rest s = [] \<Longrightarrow> GET_UINT8 s = None"
  by (simp add: GET_UINT8_def GET_VALUE_def ps_size_rest)

lemma GET_UINT16_append:
  assumes "ps_wf s" "ps_rest s = le_bytes 2 v @ r"
  shows "\<exists>s'. GET_UINT16 s = Some (v, s') \<and> ps_rest s' = r \<and> ps_wf s'"
  using GET_VALUE_append [of s "le_bytes 2 v" r 2 "le_value :: u8 list \<Rightarrow> u16"] assms
  by (simp add: GET_UINT16_def wire16.dec_enc)

lemma GET_UINT32_append:
  assumes "ps_wf s" "ps_rest s = le_bytes 4 v @ r"
  shows "\<exists>s'. GET_UINT32 s = Some (v, s') \<and> ps_rest s' = r \<and> ps_wf s'"
  using GET_VALUE_append [of s "le_bytes 4 v" r 4 "le_value :: u8 list \<Rightarrow> u32"] assms
  by (simp add: GET_UINT32_def wire32.dec_enc)

lemma GET_RAWSTRING_append:
  assumes "ps_wf s" "ps_rest s = bs @ r" "length bs = n"
  shows "\<exists>s'. GET_RAWSTRING n s = Some (bs, s') \<and> ps_rest s' = r \<and> ps_wf s'"
  using GET_VALUE_append [OF assms, of "\<lambda>x. x"] assms(2,3)
  by (auto simp: GET_RAWSTRING_def GET_VALUE_def split: if_splits)

lemma SKIP_N_append:
  assumes "ps_wf s" "ps_rest s = bs @ r" "int (length bs) = n"
  shows "\<exists>s'. SKIP_N n s = Some (Some s') \<and> ps_rest s' = r \<and> ps_wf s'"
proof -
  have "\<not> ps_size s < n" using assms by (simp add: ps_size_rest)
  moreover have "nat (int (ps_p s) + n) = ps_p s + length bs" using assms(3) by simp
  moreover have "ps_wf (s\<lparr>ps_p := ps_p s + length bs\<rparr>)"
    using assms by (intro ps_advance_wf) (simp add: ps_size_rest)
  ultimately show ?thesis using assms by (auto simp: SKIP_N_def ps_advance)
qed

text \<open>Every accessor that succeeds has consumed its bytes.\<close>

lemma GET_UINT8_size: "GET_UINT8 s = Some (v, s') \<Longrightarrow> ps_size s' < ps_size s \<and> 0 \<le> ps_size s'"
  by (auto simp: GET_UINT8_def GET_VALUE_def ps_size_def split: if_splits)

lemma GET_UINT16_size: "GET_UINT16 s = Some (v, s') \<Longrightarrow> ps_size s' < ps_size s"
  by (auto simp: GET_UINT16_def GET_VALUE_def ps_size_def split: if_splits)

lemma SKIP_N_size: "SKIP_N n s = Some (Some s') \<Longrightarrow> 0 \<le> n \<Longrightarrow> ps_size s' \<le> ps_size s"
  by (auto simp: SKIP_N_def ps_size_def split: if_splits)

lemma GET_STRING_append:
  assumes "ps_wf s" "ps_rest s = le_bytes 2 (word_of_nat (length v) :: u16) @ v @ r"
    and "length v < 65536"
  shows "\<exists>s'. GET_STRING s = Some (v, s') \<and> ps_rest s' = r \<and> ps_wf s'"
proof -
  from GET_UINT16_append [OF assms(1,2)] obtain s1 where
    s1: "GET_UINT16 s = Some (word_of_nat (length v), s1)" "ps_rest s1 = v @ r" "ps_wf s1"
    by blast
  have len: "unat (word_of_nat (length v) :: u16) = length v"
    using assms(3) by (simp add: unat_of_nat_eq)
  then have ulen: "uint (word_of_nat (length v) :: u16) = int (length v)"
    by (metis uint_nat)
  have sz: "\<not> ps_size s1 < int (length v)"
    using s1 by (simp add: ps_size_rest)
  then have "ps_wf (s1\<lparr>ps_p := ps_p s1 + length v\<rparr>)"
    by (intro ps_advance_wf) simp
  with s1 len ulen sz show ?thesis
    by (auto simp: GET_STRING_def ps_advance)
qed

section \<open>Writing\<close>

record PropWriteStream =
  pw_buffer :: "u8 list"   \<comment> \<open>the heap block, \<open>pw_buffer_size\<close> bytes\<close>
  pw_buffer_size :: u32
  pw_size :: u32

definition pw_new :: PropWriteStream where
  "pw_new = \<lparr>pw_buffer = replicate 32 0, pw_buffer_size = 32, pw_size = 0\<rparr>"

text \<open>
  Growing and copying, shared by the template and the strings. The sizes are \<^verbatim>\<open>uint32_t\<close>
  and wrap; \<open>realloc\<close> keeps the common prefix (the bytes it adds are indeterminate until
  written, 0 here); the copy is undefined (\<open>None\<close>) if it does not fit the block.
\<close>

definition pw_reserve :: "nat \<Rightarrow> PropWriteStream \<Rightarrow> PropWriteStream" where
  "pw_reserve n w =
     (if pw_buffer_size w - pw_size w < word_of_nat n
      then let bs = pw_buffer_size w + word_of_nat n + 0x1F
           in w\<lparr>pw_buffer_size := bs,
                pw_buffer := take (unat bs) (pw_buffer w) @ replicate (unat bs - length (pw_buffer w)) 0\<rparr>
      else w)"

definition pw_copy :: "u8 list \<Rightarrow> PropWriteStream \<Rightarrow> PropWriteStream option" where
  "pw_copy bytes w =
     (case write_at (uint (pw_size w)) bytes (pw_buffer w) of
        None \<Rightarrow> None
      | Some b \<Rightarrow> Some (w\<lparr>pw_buffer := b, pw_size := pw_size w + word_of_nat (length bytes)\<rparr>))"

definition ADD_VALUE :: "('v \<Rightarrow> u8 list) \<Rightarrow> 'v \<Rightarrow> PropWriteStream \<Rightarrow> PropWriteStream option" where
  "ADD_VALUE enc add w = pw_copy (enc add) (pw_reserve (length (enc add)) w)"

definition ADD_UINT32 :: "u32 \<Rightarrow> PropWriteStream \<Rightarrow> PropWriteStream option" where
  "ADD_UINT32 = ADD_VALUE (le_bytes 4)"

definition ADD_UINT16 :: "u16 \<Rightarrow> PropWriteStream \<Rightarrow> PropWriteStream option" where
  "ADD_UINT16 = ADD_VALUE (le_bytes 2)"

definition ADD_UINT8 :: "u8 \<Rightarrow> PropWriteStream \<Rightarrow> PropWriteStream option" where
  "ADD_UINT8 = ADD_VALUE (le_bytes 1)"

text \<open>The length is the string's size cut to 16 (32) bits, and so is what is copied.\<close>

definition ADD_STRING :: "u8 list \<Rightarrow> PropWriteStream \<Rightarrow> PropWriteStream option" where
  "ADD_STRING add w =
     (let str_len = (word_of_nat (length add) :: u16) in
      case ADD_UINT16 str_len w of
        None \<Rightarrow> None
      | Some w1 \<Rightarrow> pw_copy (take (unat str_len) add) (pw_reserve (unat str_len) w1))"

definition ADD_LSTRING :: "u8 list \<Rightarrow> PropWriteStream \<Rightarrow> PropWriteStream option" where
  "ADD_LSTRING add w =
     (let str_len = (word_of_nat (length add) :: u32) in
      case ADD_UINT32 str_len w of
        None \<Rightarrow> None
      | Some w1 \<Rightarrow> pw_copy (take (unat str_len) add) (pw_reserve (unat str_len) w1))"

definition getStream :: "PropWriteStream \<Rightarrow> u8 list" where
  "getStream w = take (unat (pw_size w)) (pw_buffer w)"

subsection \<open>The growing buffer implements appending\<close>

definition pw_inv :: "PropWriteStream \<Rightarrow> bool" where
  "pw_inv w \<longleftrightarrow> length (pw_buffer w) = unat (pw_buffer_size w) \<and> pw_size w \<le> pw_buffer_size w"

text \<open>What is left before the 32-bit size of the block could overflow: a stream holding
  \<open>n\<close> bytes has a block of fewer than \<open>n + 32\<close> more than the values written into it.\<close>

definition pw_room :: "nat \<Rightarrow> PropWriteStream \<Rightarrow> bool" where
  "pw_room n w \<longleftrightarrow> unat (pw_buffer_size w) + n + 31 < 2 ^ 32"

lemma pw_new_inv: "pw_inv pw_new" "getStream pw_new = []"
  by (simp_all add: pw_inv_def pw_new_def getStream_def word_le_nat_alt)

lemma pw_reserve_spec:
  assumes inv: "pw_inv w" and room: "pw_room n w"
  shows "pw_inv (pw_reserve n w) \<and> getStream (pw_reserve n w) = getStream w
    \<and> unat (pw_size w) + n \<le> unat (pw_buffer_size (pw_reserve n w))
    \<and> pw_size (pw_reserve n w) = pw_size w
    \<and> unat (pw_buffer_size (pw_reserve n w)) \<le> unat (pw_buffer_size w) + n + 31"
proof -
  have le: "unat (pw_size w) \<le> unat (pw_buffer_size w)"
    using inv by (simp add: pw_inv_def word_le_nat_alt)
  have sub: "unat (pw_buffer_size w - pw_size w) = unat (pw_buffer_size w) - unat (pw_size w)"
    using inv by (simp add: pw_inv_def unat_sub)
  have n: "unat (word_of_nat n :: u32) = n"
    using room by (simp add: pw_room_def unat_of_nat_eq)
  have grown: "unat (pw_buffer_size w + word_of_nat n + 0x1F) = unat (pw_buffer_size w) + n + 31"
    using room n by (simp add: pw_room_def unat_word_ariths)
  show ?thesis
  proof (cases "pw_buffer_size w - pw_size w < word_of_nat n")
    case True
    then show ?thesis
      using inv le grown by (simp add: pw_reserve_def Let_def pw_inv_def getStream_def
          word_le_nat_alt)
  next
    case False
    then have "n \<le> unat (pw_buffer_size w) - unat (pw_size w)"
      using sub n by (simp add: word_less_nat_alt)
    with False le inv show ?thesis by (simp add: pw_reserve_def)
  qed
qed

lemma pw_copy_spec:
  assumes inv: "pw_inv w" and fits: "unat (pw_size w) + length bytes \<le> unat (pw_buffer_size w)"
  shows "\<exists>w'. pw_copy bytes w = Some w' \<and> pw_inv w' \<and> getStream w' = getStream w @ bytes
    \<and> pw_buffer_size w' = pw_buffer_size w"
proof -
  have len: "length (pw_buffer w) = unat (pw_buffer_size w)"
    using inv by (simp add: pw_inv_def)
  have b: "unat (pw_size w) + length bytes < 2 ^ 32"
    using fits unat_lt2p [of "pw_buffer_size w"] by simp
  have sz: "unat (pw_size w + word_of_nat (length bytes)) = unat (pw_size w) + length bytes"
    using b by (simp add: unat_word_ariths unat_of_nat_eq)
  have "write_at (uint (pw_size w)) bytes (pw_buffer w) =
      Some (getStream w @ bytes @ drop (unat (pw_size w) + length bytes) (pw_buffer w))"
    using len fits by (simp add: write_at_def getStream_def flip: unat_eq_nat_uint)
  moreover have "length (getStream w) = unat (pw_size w)"
    using len fits by (simp add: getStream_def)
  ultimately show ?thesis
    using len fits sz
    by (simp add: pw_copy_def pw_inv_def getStream_def [of "w\<lparr>pw_buffer := _, pw_size := _\<rparr>"]
        word_le_nat_alt)
qed

lemma pw_append_spec:
  assumes "pw_inv w" "pw_room (length bytes) w"
  shows "\<exists>w'. pw_copy bytes (pw_reserve (length bytes) w) = Some w' \<and> pw_inv w'
    \<and> getStream w' = getStream w @ bytes
    \<and> unat (pw_buffer_size w') \<le> unat (pw_buffer_size w) + length bytes + 31"
proof -
  note r = pw_reserve_spec [OF assms]
  then have "unat (pw_size (pw_reserve (length bytes) w)) + length bytes
      \<le> unat (pw_buffer_size (pw_reserve (length bytes) w))"
    by simp
  from pw_copy_spec [OF _ this] r show ?thesis by auto
qed

text \<open>
  The contract the serialisers use, as an interface: a sink with a stored byte list, an
  operation that appends the layout of a value, and a bound on what may still be added.
\<close>

locale byte_sink =
  fixes append :: "u8 list \<Rightarrow> 's \<Rightarrow> 's option"
    and stored :: "'s \<Rightarrow> u8 list"
    and good :: "'s \<Rightarrow> bool"
    and used :: "'s \<Rightarrow> nat"
    and limit :: nat and slack :: nat
  assumes append_ok: "good w \<Longrightarrow> used w + length bs + slack < limit \<Longrightarrow>
      \<exists>w'. append bs w = Some w' \<and> good w' \<and> stored w' = stored w @ bs
        \<and> used w' \<le> used w + length bs + slack"
begin

fun append_all :: "u8 list list \<Rightarrow> 's \<Rightarrow> 's option" where
  "append_all [] w = Some w"
| "append_all (b # bs) w = (case append b w of None \<Rightarrow> None | Some w1 \<Rightarrow> append_all bs w1)"

lemma append_all_ok:
  "good w \<Longrightarrow> used w + (\<Sum>b\<leftarrow>bs. length b + slack) < limit \<Longrightarrow>
   \<exists>w'. append_all bs w = Some w' \<and> good w' \<and> stored w' = stored w @ concat bs
     \<and> used w' \<le> used w + (\<Sum>b\<leftarrow>bs. length b + slack)"
proof (induction bs arbitrary: w)
  case Nil
  then show ?case by simp
next
  case (Cons b bs)
  from Cons.prems have "used w + length b + slack < limit" by simp
  from append_ok [OF Cons.prems(1) this] obtain w1 where
    w1: "append b w = Some w1" "good w1" "stored w1 = stored w @ b"
      "used w1 \<le> used w + length b + slack"
    by blast
  from w1(4) Cons.prems(2) have "used w1 + (\<Sum>b\<leftarrow>bs. length b + slack) < limit" by simp
  from Cons.IH [OF w1(2) this] w1 show ?case by auto
qed

end

definition pw_append :: "u8 list \<Rightarrow> PropWriteStream \<Rightarrow> PropWriteStream option" where
  "pw_append bytes w = pw_copy bytes (pw_reserve (length bytes) w)"

interpretation pw: byte_sink pw_append getStream pw_inv "\<lambda>w. unat (pw_buffer_size w)"
    "2 ^ 32" 31
  by unfold_locales (use pw_append_spec in \<open>auto simp: pw_append_def pw_room_def\<close>)

lemma ADD_VALUE_append: "ADD_VALUE enc v w = pw_append (enc v) w"
  by (simp add: ADD_VALUE_def pw_append_def)

lemma ADD_STRING_append:
  "length add < 65536 \<Longrightarrow>
   ADD_STRING add w = Option.bind (pw_append (le_bytes 2 (word_of_nat (length add) :: u16)) w) (pw_append add)"
  by (simp add: ADD_STRING_def ADD_UINT16_def ADD_VALUE_append pw_append_def Let_def
      unat_of_nat_eq split: option.split)

section \<open>Writing and reading back\<close>

text \<open>The typed values the serialisers store, and their two directions.\<close>

datatype prop_value = PU8 u8 | PU16 u16 | PU32 u32 | PStr "u8 list"

datatype prop_type = TU8 | TU16 | TU32 | TStr

fun type_of_prop :: "prop_value \<Rightarrow> prop_type" where
  "type_of_prop (PU8 _) = TU8"
| "type_of_prop (PU16 _) = TU16"
| "type_of_prop (PU32 _) = TU32"
| "type_of_prop (PStr _) = TStr"

fun add_prop :: "prop_value \<Rightarrow> PropWriteStream \<Rightarrow> PropWriteStream option" where
  "add_prop (PU8 v) w = ADD_UINT8 v w"
| "add_prop (PU16 v) w = ADD_UINT16 v w"
| "add_prop (PU32 v) w = ADD_UINT32 v w"
| "add_prop (PStr v) w = ADD_STRING v w"

fun get_prop :: "prop_type \<Rightarrow> PropStream \<Rightarrow> (prop_value \<times> PropStream) option" where
  "get_prop TU8 s = map_option (apfst PU8) (GET_UINT8 s)"
| "get_prop TU16 s = map_option (apfst PU16) (GET_UINT16 s)"
| "get_prop TU32 s = map_option (apfst PU32) (GET_UINT32 s)"
| "get_prop TStr s = map_option (apfst PStr) (GET_STRING s)"

fun add_props :: "prop_value list \<Rightarrow> PropWriteStream \<Rightarrow> PropWriteStream option" where
  "add_props [] w = Some w"
| "add_props (v # vs) w = (case add_prop v w of None \<Rightarrow> None | Some w1 \<Rightarrow> add_props vs w1)"

fun get_props :: "prop_type list \<Rightarrow> PropStream \<Rightarrow> (prop_value list \<times> PropStream) option" where
  "get_props [] s = Some ([], s)"
| "get_props (t # ts) s =
     (case get_prop t s of None \<Rightarrow> None
      | Some (v, s1) \<Rightarrow> (case get_props ts s1 of None \<Rightarrow> None | Some (vs, s2) \<Rightarrow> Some (v # vs, s2)))"

fun prop_chunks :: "prop_value \<Rightarrow> u8 list list" where
  "prop_chunks (PU8 v) = [le_bytes 1 v]"
| "prop_chunks (PU16 v) = [le_bytes 2 v]"
| "prop_chunks (PU32 v) = [le_bytes 4 v]"
| "prop_chunks (PStr v) = [le_bytes 2 (word_of_nat (length v) :: u16), v]"

fun prop_ok :: "prop_value \<Rightarrow> bool" where
  "prop_ok (PStr v) = (length v < 65536)"
| "prop_ok _ = True"

lemma append_all_append:
  "pw.append_all (xs @ ys) w = Option.bind (pw.append_all xs w) (pw.append_all ys)"
  by (induction xs arbitrary: w) (auto split: option.split)

lemma add_prop_chunks: "prop_ok v \<Longrightarrow> add_prop v w = pw.append_all (prop_chunks v) w"
  by (cases v) (auto simp: ADD_UINT8_def ADD_UINT16_def ADD_UINT32_def ADD_VALUE_append
      ADD_STRING_append split: option.split)

lemma add_props_chunks:
  "list_all prop_ok vs \<Longrightarrow> add_props vs w = pw.append_all (concat (map prop_chunks vs)) w"
  by (induction vs arbitrary: w)
    (auto simp: add_prop_chunks append_all_append split: option.split)

lemma get_prop_chunks:
  assumes "prop_ok v" "ps_wf s" "ps_rest s = concat (prop_chunks v) @ r"
  shows "\<exists>s'. get_prop (type_of_prop v) s = Some (v, s') \<and> ps_rest s' = r \<and> ps_wf s'"
proof (cases v)
  case (PU8 x)
  with assms GET_UINT8_Cons [of s x r] show ?thesis by auto
next
  case (PU16 x)
  with assms GET_UINT16_append [of s x r] show ?thesis by auto
next
  case (PU32 x)
  with assms GET_UINT32_append [of s x r] show ?thesis by auto
next
  case (PStr x)
  with assms GET_STRING_append [of s x r] show ?thesis by auto
qed

lemma get_props_chunks:
  assumes "list_all prop_ok vs" "ps_wf s" "ps_rest s = concat (concat (map prop_chunks vs)) @ r"
  shows "\<exists>s'. get_props (map type_of_prop vs) s = Some (vs, s') \<and> ps_rest s' = r \<and> ps_wf s'"
  using assms
proof (induction vs arbitrary: s)
  case Nil
  then show ?case by simp
next
  case (Cons v vs)
  from get_prop_chunks [of v s "concat (concat (map prop_chunks vs)) @ r"] Cons.prems
  obtain s1 where s1: "get_prop (type_of_prop v) s = Some (v, s1)"
      "ps_rest s1 = concat (concat (map prop_chunks vs)) @ r" "ps_wf s1"
    by auto
  with Cons.IH [of s1] Cons.prems show ?case by auto
qed

definition props_cost :: "prop_value list \<Rightarrow> nat" where
  "props_cost vs = (\<Sum>b\<leftarrow>concat (map prop_chunks vs). length b + 31)"

text \<open>
  Any sequence of integers and strings (each below 64 KiB) written to a fresh
  \<^verbatim>\<open>PropWriteStream\<close> is stored without a write outside its heap block, and reading the
  stream back with the accessors of the same types gives the same values and leaves
  nothing unread, as long as the block stays below 4 GiB.
\<close>
theorem propstream_roundtrip:
  assumes "list_all prop_ok vs" and "32 + props_cost vs < 2 ^ 32"
  shows "\<exists>w s. add_props vs pw_new = Some w \<and>
    get_props (map type_of_prop vs) (ps_init (getStream w)) = Some (vs, s) \<and> ps_size s = 0"
proof -
  let ?cs = "concat (map prop_chunks vs)"
  have "unat (pw_buffer_size pw_new) = 32" by (simp add: pw_new_def)
  with assms(2) obtain w where
    w: "pw.append_all ?cs pw_new = Some w" "getStream w = concat ?cs"
    using pw.append_all_ok [of pw_new ?cs] pw_new_inv by (auto simp: props_cost_def)
  from get_props_chunks [OF assms(1), of "ps_init (getStream w)" "[]"] w(2)
  obtain s where s: "get_props (map type_of_prop vs) (ps_init (getStream w)) = Some (vs, s)"
      "ps_rest s = []" "ps_wf s"
    by auto
  then have "ps_size s = 0" by (simp add: ps_size_rest)
  with s w(1) add_props_chunks [OF assms(1)] show ?thesis by auto
qed

theorem propstream_roundtrip_witness:
  "\<exists>w s. add_props [PU8 7, PStr [1, 2, 3], PU32 0xDEADBEEF] pw_new = Some w \<and>
    get_props [TU8, TStr, TU32] (ps_init (getStream w)) =
      Some ([PU8 7, PStr [1, 2, 3], PU32 0xDEADBEEF], s) \<and> ps_size s = 0"
  using propstream_roundtrip [of "[PU8 7, PStr [1, 2, 3], PU32 0xDEADBEEF]"]
  by (simp add: props_cost_def)

text \<open>
  \<^verbatim>\<open>GET_LSTRING\<close> compares the remaining size with the length cast to a signed
  integer, so every stored length of 2 GiB or more passes its check and the copy leaves
  the defined behaviour; for smaller lengths it never does.
\<close>
theorem get_lstring_bounds:
  fixes n :: u32
  assumes "ps_wf s" "ps_rest s = le_bytes 4 n @ r" "length r < 2 ^ 31"
  shows "GET_LSTRING s = None \<longleftrightarrow> 2 ^ 31 \<le> uint n"
proof -
  from GET_UINT32_append [OF assms(1,2)] obtain s1 where
    s1: "GET_UINT32 s = Some (n, s1)" "ps_rest s1 = r" "ps_wf s1"
    by blast
  have sz: "ps_size s1 = int (length r)" using s1 by (simp add: ps_size_rest)
  note sn = sint_u32 [of n]
  have un: "uint n < 2 ^ 32" using uint_lt2p [of n] by simp
  show ?thesis
    using s1 sz sn un assms(3) by (auto simp: GET_LSTRING_def)
qed

theorem get_lstring_bounds_witness:
  "GET_LSTRING (ps_init (le_bytes 4 (0x80000000 :: u32) @ [65])) = None"
  using get_lstring_bounds [of "ps_init (le_bytes 4 (0x80000000 :: u32) @ [65])" "0x80000000 :: u32" "[65]"]
  by simp

end
