(* ===== verification/FileLoader.thy ===== *)
theory FileLoader
  imports FileReader PropStreams
begin

text \<open>
  The node tree of the binary files (\<^verbatim>\<open>Source/fileloader.cpp\<close>): the writer that escapes the
  three marker bytes, the recursive parser that finds the nodes and the extent of their
  properties, and \<^verbatim>\<open>getProps\<close>, which fetches and unescapes the properties of a node.

  The parser is written over the reading operations it calls, and verified against the
  \<open>byte_cursor\<close> interface of the previous theory; \<open>parseNode\<close> is its instance with the
  loader's own operations. Its recursion spends one unit of fuel per byte it consumes;
  \<open>parse_total\<close> shows that one unit more than the bytes left is always enough, on every file.
\<close>

section \<open>Writing\<close>

text \<open>The output file: what was written, and how many more bytes the device takes.\<close>

record FileOut =
  fo_bytes :: "u8 list"
  fo_room :: nat
  fo_error :: FILELOADER_ERRORS

definition fwrite1 :: "u8 \<Rightarrow> FileOut \<Rightarrow> bool \<times> FileOut" where
  "fwrite1 c out =
     (if fo_room out = 0 then (False, out)
      else (True, out\<lparr>fo_bytes := fo_bytes out @ [c], fo_room := fo_room out - 1\<rparr>))"

fun writeData :: "u8 list \<Rightarrow> bool \<Rightarrow> FileOut \<Rightarrow> bool \<times> FileOut" where
  "writeData [] unescape out = (True, out)"
| "writeData (c # cs) unescape out =
     (let (ok, out1) =
        (if unescape \<and> (c = NODE_START \<or> c = NODE_END \<or> c = ESCAPE_CHAR)
         then fwrite1 ESCAPE_CHAR out else (True, out))
      in if \<not> ok then (False, out1\<lparr>fo_error := ERROR_COULDNOTWRITE\<rparr>)
         else
           let (ok2, out2) = fwrite1 c out1
           in if \<not> ok2 then (False, out2\<lparr>fo_error := ERROR_COULDNOTWRITE\<rparr>)
              else writeData cs unescape out2)"

definition openFile_write :: "nat \<Rightarrow> FileOut" where
  "openFile_write room =
     snd (writeData [0, 0, 0, 0] False \<lparr>fo_bytes = [], fo_room = room, fo_error = ERROR_NONE\<rparr>)"

definition startNode :: "u8 \<Rightarrow> FileOut \<Rightarrow> FileOut" where
  "startNode ty out = snd (writeData [ty] True (snd (writeData [NODE_START] False out)))"

definition endNode :: "FileOut \<Rightarrow> FileOut" where
  "endNode out = snd (writeData [NODE_END] False out)"

definition setProps :: "u8 list \<Rightarrow> FileOut \<Rightarrow> FILELOADER_ERRORS \<times> FileOut" where
  "setProps data out =
     (let (ok, out1) = writeData data True out
      in if \<not> ok then (fo_error out1, out1) else (ERROR_NONE, out1))"

section \<open>Parsing\<close>

datatype NodeStruct = NodeStruct
  (n_start: int) (n_propsSize: int) (n_type: int)
  (n_child: "NodeStruct option") (n_next: "NodeStruct option")

text \<open>
  \<^verbatim>\<open>parseNode\<close>. The outer loop reads a type byte (\<open>parseNode_with\<close>), the inner one the bytes
  up to the node's end (\<open>parseScan_with\<close>); the node under construction is in the arguments:
  its start, its type, its child once seen, and the size of its properties once set. A
  result \<open>Some None\<close> is the return value false.
\<close>

fun parseNode_with :: "('s \<Rightarrow> (u8 option \<times> 's) option) \<Rightarrow> ('s \<Rightarrow> int option \<times> 's) \<Rightarrow>
      (int \<Rightarrow> 's \<Rightarrow> (bool \<times> 's) option) \<Rightarrow> ('s \<Rightarrow> 's) \<Rightarrow>
      nat \<Rightarrow> int \<Rightarrow> 's \<Rightarrow> (NodeStruct option \<times> 's) option"
  and parseScan_with :: "('s \<Rightarrow> (u8 option \<times> 's) option) \<Rightarrow> ('s \<Rightarrow> int option \<times> 's) \<Rightarrow>
      (int \<Rightarrow> 's \<Rightarrow> (bool \<times> 's) option) \<Rightarrow> ('s \<Rightarrow> 's) \<Rightarrow>
      nat \<Rightarrow> int \<Rightarrow> int \<Rightarrow> NodeStruct option \<Rightarrow> int option \<Rightarrow> 's \<Rightarrow> (NodeStruct option \<times> 's) option"
where
  "parseNode_with rb tell seek bad 0 start st = None"
| "parseNode_with rb tell seek bad (Suc fuel) start st =
     (case rb st of
        None \<Rightarrow> None
      | Some (None, st1) \<Rightarrow> Some (None, st1)
      | Some (Some byte, st1) \<Rightarrow> parseScan_with rb tell seek bad fuel start (uint byte) None None st1)"
| "parseScan_with rb tell seek bad 0 start ty child props st = None"
| "parseScan_with rb tell seek bad (Suc fuel) start ty child props st =
     (case rb st of
        None \<Rightarrow> None
      | Some (None, st1) \<Rightarrow> Some (None, st1)
      | Some (Some byte, st1) \<Rightarrow>
          if byte = NODE_START then
            (case tell st1 of
               (None, st2) \<Rightarrow> Some (None, st2)
             | (Some pos, st2) \<Rightarrow>
                 (case parseNode_with rb tell seek bad fuel pos st2 of
                    None \<Rightarrow> None
                  | Some (None, st3) \<Rightarrow> Some (None, st3)
                  | Some (Some childNode, st3) \<Rightarrow>
                      parseScan_with rb tell seek bad fuel start ty (Some childNode)
                        (Some (pos - start - 2)) st3))
          else if byte = NODE_END then
            (case (case props of Some _ \<Rightarrow> (props, st1)
                   | None \<Rightarrow> (case tell st1 of (None, st2) \<Rightarrow> (None, st2)
                              | (Some pos, st2) \<Rightarrow> (Some (pos - start - 2), st2))) of
               (None, st2) \<Rightarrow> Some (None, st2)
             | (Some psize, st2) \<Rightarrow>
                 (case rb st2 of
                    None \<Rightarrow> None
                  | Some (None, st3) \<Rightarrow> Some (Some (NodeStruct start psize ty child None), st3)
                  | Some (Some byte2, st3) \<Rightarrow>
                      if byte2 = NODE_START then
                        (case tell st3 of
                           (None, st4) \<Rightarrow> Some (None, st4)
                         | (Some pos, st4) \<Rightarrow>
                             (case parseNode_with rb tell seek bad fuel pos st4 of
                                None \<Rightarrow> None
                              | Some (None, st5) \<Rightarrow> Some (None, st5)
                              | Some (Some nextNode, st5) \<Rightarrow>
                                  Some (Some (NodeStruct start psize ty child (Some nextNode)), st5)))
                      else if byte2 = NODE_END then
                        (case tell st3 of
                           (None, st4) \<Rightarrow> Some (None, st4)
                         | (Some pos, st4) \<Rightarrow>
                             (case seek pos st4 of
                                None \<Rightarrow> None
                              | Some (False, st5) \<Rightarrow> Some (None, st5)
                              | Some (True, st5) \<Rightarrow> Some (Some (NodeStruct start psize ty child None), st5)))
                      else Some (None, bad st3)))
          else if byte = ESCAPE_CHAR then
            (case rb st1 of
               None \<Rightarrow> None
             | Some (None, st2) \<Rightarrow> Some (None, st2)
             | Some (Some _, st2) \<Rightarrow> parseScan_with rb tell seek bad fuel start ty child props st2)
          else parseScan_with rb tell seek bad fuel start ty child props st1)"

definition parseNode :: "nat \<Rightarrow> int \<Rightarrow> FileLoader \<Rightarrow> (NodeStruct option \<times> FileLoader) option" where
  "parseNode = parseNode_with readByte safeTell safeSeek (\<lambda>st. st\<lparr>fl_lastError := ERROR_INVALID_FORMAT\<rparr>)"

text \<open>
  \<^verbatim>\<open>openFile\<close> for reading an existing file: the version word must be 0 (a file shorter than
  the word leaves it uninitialised, \<open>None\<close>), the cache is sized from the file, and the root
  starts at offset 4.
\<close>

definition openFile :: "bool \<Rightarrow> u8 list \<Rightarrow> (NodeStruct option \<times> FileLoader) option" where
  "openFile caching file =
     (let st = fl_new file in
      if length file < 4 then None
      else if (le_value (take 4 file) :: u32) > 0
      then Some (None, st\<lparr>fl_lastError := ERROR_INVALID_FILE_VERSION\<rparr>)
      else
        let st1 = (if caching
                   then st\<lparr>fl_use_cache := True,
                           fl_cache_size := min 32768 (max (int (length file) div 20) 8192) AND NOT 0x1FFF\<rparr>
                   else st)
        in case safeSeek 4 st1 of
             None \<Rightarrow> None
           | Some (False, st2) \<Rightarrow> Some (None, st2\<lparr>fl_lastError := ERROR_INVALID_FORMAT\<rparr>)
           | Some (True, st2) \<Rightarrow>
               (case safeSeek 4 st2 of
                  None \<Rightarrow> None
                | Some (False, st3) \<Rightarrow> Some (None, st3)
                | Some (True, st3) \<Rightarrow>
                    (case readByte st3 of
                       None \<Rightarrow> None
                     | Some (None, st4) \<Rightarrow> Some (None, st4)
                     | Some (Some byte, st4) \<Rightarrow>
                         if byte = NODE_START then parseNode (length file) 4 st4 else Some (None, st4))))"

section \<open>Properties of a node\<close>

text \<open>The loop that removes the escape bytes in place. An escape byte at the very end would
  read the byte behind the properties: \<open>None\<close>; the parser never delimits properties so.\<close>

fun unescape :: "u8 list \<Rightarrow> u8 list option" where
  "unescape [] = Some []"
| "unescape [b] = (if b = ESCAPE_CHAR then None else Some [b])"
| "unescape (b # c # r) =
     (if b = ESCAPE_CHAR then map_option ((#) c) (unescape r) else map_option ((#) b) (unescape (c # r)))"

text \<open>
  \<^verbatim>\<open>getProps\<close>: a buffer that is too small is replaced by one 1024 bytes larger, once. If the
  properties still do not fit, they are read past its end (the outer \<open>None\<close>).
\<close>

definition getProps :: "NodeStruct \<Rightarrow> FileLoader \<Rightarrow> (u8 list option \<times> FileLoader) option" where
  "getProps node st =
     (let psize = nat (n_propsSize node);
          st1 = (if psize \<ge> fl_buffer_size st
                 then st\<lparr>fl_buffer_size := fl_buffer_size st + 1024\<rparr> else st)
      in if psize > fl_buffer_size st1 then None
         else
           case readBytes psize (n_start node + 2) st1 of
             None \<Rightarrow> None
           | Some (None, st2) \<Rightarrow> Some (None, st2)
           | Some (Some raw, st2) \<Rightarrow> (case unescape raw of None \<Rightarrow> None | Some b \<Rightarrow> Some (Some b, st2)))"

definition getProps_stream :: "NodeStruct \<Rightarrow> FileLoader \<Rightarrow> ((bool \<times> PropStream) \<times> FileLoader) option" where
  "getProps_stream node st =
     (case getProps node st of
        None \<Rightarrow> None
      | Some (None, st1) \<Rightarrow> Some ((False, ps_init []), st1)
      | Some (Some a, st1) \<Rightarrow> Some ((True, ps_init a), st1))"

definition getChildNode :: "NodeStruct \<Rightarrow> NodeStruct option \<Rightarrow> (NodeStruct \<times> int) option" where
  "getChildNode root parent =
     (case parent of
        Some p \<Rightarrow> map_option (\<lambda>c. (c, n_type c)) (n_child p)
      | None \<Rightarrow> Some (root, n_type root))"

definition getNextNode :: "NodeStruct option \<Rightarrow> (NodeStruct \<times> int) option" where
  "getNextNode prev =
     (case prev of
        Some p \<Rightarrow> map_option (\<lambda>c. (c, n_type c)) (n_next p)
      | None \<Rightarrow> None)"

section \<open>The layout of a tree\<close>

datatype tree = Tree u8 "u8 list" "tree list"

text \<open>What a caller stores: a list of sibling nodes, each started, given its properties, its
  children, and ended.\<close>

fun write_trees :: "tree list \<Rightarrow> FileOut \<Rightarrow> FileOut" where
  "write_trees [] out = out"
| "write_trees (Tree ty ps kids # ts) out =
     write_trees ts (endNode (write_trees kids (snd (setProps ps (startNode ty out)))))"

fun escape :: "u8 list \<Rightarrow> u8 list" where
  "escape [] = []"
| "escape (c # cs) =
     (if c = NODE_START \<or> c = NODE_END \<or> c = ESCAPE_CHAR then ESCAPE_CHAR # c # escape cs
      else c # escape cs)"

fun enc_trees :: "tree list \<Rightarrow> u8 list" where
  "enc_trees [] = []"
| "enc_trees (Tree ty ps kids # ts) =
     NODE_START # escape [ty] @ escape ps @ enc_trees kids @ [NODE_END] @ enc_trees ts"

text \<open>The type byte is written with escapes but read without, so only the types that are not
  marker bytes survive.\<close>

definition plain_type :: "u8 \<Rightarrow> bool" where
  "plain_type ty \<longleftrightarrow> ty \<noteq> NODE_START \<and> ty \<noteq> NODE_END \<and> ty \<noteq> ESCAPE_CHAR"

fun plain_trees :: "tree list \<Rightarrow> bool" where
  "plain_trees [] = True"
| "plain_trees (Tree ty ps kids # ts) = (plain_type ty \<and> plain_trees kids \<and> plain_trees ts)"

fun small_trees :: "tree list \<Rightarrow> bool" where
  "small_trees [] = True"
| "small_trees (Tree ty ps kids # ts) =
     (length (escape ps) \<le> 2048 \<and> small_trees kids \<and> small_trees ts)"

text \<open>The nodes the parser is to build for a list of siblings stored at an offset.\<close>

fun mk_chain :: "int \<Rightarrow> tree list \<Rightarrow> NodeStruct option" where
  "mk_chain off [] = None"
| "mk_chain off (Tree ty ps kids # ts) =
     Some (NodeStruct off (int (length (escape ps))) (uint ty)
       (mk_chain (off + 2 + int (length (escape ps))) kids)
       (mk_chain (off + 3 + int (length (escape ps)) + int (length (enc_trees kids))) ts))"

text \<open>A traversal by child and next pointers that fetches the properties of every node.\<close>

fun read_chain :: "NodeStruct option \<Rightarrow> FileLoader \<Rightarrow> (tree list \<times> FileLoader) option" where
  "read_chain None st = Some ([], st)"
| "read_chain (Some (NodeStruct off psize ty child nxt)) st =
     (case getProps (NodeStruct off psize ty child nxt) st of
        Some (Some ps, st1) \<Rightarrow>
          (case read_chain child st1 of
             None \<Rightarrow> None
           | Some (kids, st2) \<Rightarrow>
               (case read_chain nxt st2 of
                  None \<Rightarrow> None
                | Some (ts, st3) \<Rightarrow> Some (Tree (word_of_int ty) ps kids # ts, st3)))
      | _ \<Rightarrow> None)"

subsection \<open>The writer produces the layout\<close>

lemma fwrite1_ok:
  "0 < fo_room out \<Longrightarrow> fwrite1 c out = (True, out\<lparr>fo_bytes := fo_bytes out @ [c], fo_room := fo_room out - 1\<rparr>)"
  by (simp add: fwrite1_def)

lemma writeData_raw:
  "length cs \<le> fo_room out \<Longrightarrow> writeData cs False out =
     (True, out\<lparr>fo_bytes := fo_bytes out @ cs, fo_room := fo_room out - length cs\<rparr>)"
  by (induction cs arbitrary: out) (auto simp: fwrite1_ok)

lemma writeData_escape:
  "length (escape cs) \<le> fo_room out \<Longrightarrow> writeData cs True out =
     (True, out\<lparr>fo_bytes := fo_bytes out @ escape cs, fo_room := fo_room out - length (escape cs)\<rparr>)"
  by (induction cs arbitrary: out) (auto simp: fwrite1_ok Let_def)

lemma write_trees_enc:
  "length (enc_trees ts) \<le> fo_room out \<Longrightarrow> write_trees ts out =
     out\<lparr>fo_bytes := fo_bytes out @ enc_trees ts, fo_room := fo_room out - length (enc_trees ts)\<rparr>"
proof (induction ts arbitrary: out rule: enc_trees.induct)
  case 1
  then show ?case by simp
next
  case (2 ty ps kids ts)
  let ?out1 = "snd (setProps ps (startNode ty out))"
  have o1: "?out1 = out\<lparr>fo_bytes := fo_bytes out @ NODE_START # escape [ty] @ escape ps,
      fo_room := fo_room out - (1 + length (escape [ty]) + length (escape ps))\<rparr>"
    using "2.prems" by (simp add: startNode_def setProps_def writeData_raw writeData_escape del: escape.simps writeData.simps)
  have o2: "write_trees kids ?out1 = ?out1\<lparr>fo_bytes := fo_bytes ?out1 @ enc_trees kids,
      fo_room := fo_room ?out1 - length (enc_trees kids)\<rparr>"
    using "2.prems" by (intro "2.IH"(1)) (simp add: o1 del: escape.simps)
  let ?out3 = "endNode (write_trees kids ?out1)"
  have o3: "?out3 = out\<lparr>fo_bytes := fo_bytes out @ NODE_START # escape [ty] @ escape ps @ enc_trees kids @ [NODE_END],
      fo_room := fo_room out - (2 + length (escape [ty]) + length (escape ps) + length (enc_trees kids))\<rparr>"
    unfolding o2 using "2.prems" by (simp add: o1 endNode_def writeData_raw del: escape.simps writeData.simps)
  have "write_trees ts ?out3 = ?out3\<lparr>fo_bytes := fo_bytes ?out3 @ enc_trees ts,
      fo_room := fo_room ?out3 - length (enc_trees ts)\<rparr>"
    using "2.prems" by (intro "2.IH"(2)) (simp add: o3 del: escape.simps)
  then show ?case by (simp add: o3 del: escape.simps)
qed

lemma escape_length: "length ps \<le> length (escape ps)"
  by (induction ps) auto

subsection \<open>The parser against a byte cursor\<close>

context byte_cursor
begin

lemma rb_Cons:
  assumes "stands p st" "drop (nat p) bytes = b # r"
  shows "\<exists>st'. rb st = Some (Some b, st') \<and> stands (p + 1) st' \<and> drop (nat (p + 1)) bytes = r"
proof -
  have p: "0 \<le> p" using stands_bounds [OF assms(1)] by simp
  have len: "nat p < length bytes" using assms(2) by (metis drop_all list.discI not_le)
  then have "p < int (length bytes)" using p by linarith
  moreover have "bytes ! nat p = b" using assms(2) len by (metis hd_drop_conv_nth list.sel(1))
  moreover have "drop (nat (p + 1)) bytes = r"
    using assms(2) p by (metis Suc_as_int drop_Suc list.sel(3) tl_drop nat_0_le)
  ultimately show ?thesis using rb_byte [OF assms(1)] by auto
qed

lemma rb_Nil:
  assumes "stands p st" "drop (nat p) bytes = []"
  shows "\<exists>st'. rb st = Some (None, st') \<and> stands p st'"
proof -
  from assms stands_bounds [OF assms(1)] have "p = int (length bytes)" by auto
  with rb_eof [OF assms(1)] show ?thesis by simp
qed

lemma scan_props:
  assumes "stands p st" "drop (nat p) bytes = escape ps @ rest"
  shows "\<exists>st'. parseScan_with rb tell seek bad (length ps + f) start ty c pr st =
      parseScan_with rb tell seek bad f start ty c pr st' \<and>
    stands (p + int (length (escape ps))) st' \<and> drop (nat (p + int (length (escape ps)))) bytes = rest"
  using assms
proof (induction ps arbitrary: p st)
  case Nil
  then show ?case by auto
next
  case (Cons b ps)
  show ?case
  proof (cases "b = NODE_START \<or> b = NODE_END \<or> b = ESCAPE_CHAR")
    case True
    with Cons.prems have "drop (nat p) bytes = ESCAPE_CHAR # b # escape ps @ rest" by auto
    from rb_Cons [OF Cons.prems(1) this] obtain st1 where
      st1: "rb st = Some (Some ESCAPE_CHAR, st1)" "stands (p + 1) st1"
        "drop (nat (p + 1)) bytes = b # escape ps @ rest"
      by blast
    from rb_Cons [OF st1(2,3)] obtain st2 where
      st2: "rb st1 = Some (Some b, st2)" "stands (p + 2) st2" "drop (nat (p + 2)) bytes = escape ps @ rest"
      by (auto simp: add.assoc)
    from Cons.IH [OF st2(2,3)] st1 st2 True show ?thesis
      by (auto simp: algebra_simps)
  next
    case False
    with Cons.prems have "drop (nat p) bytes = b # escape ps @ rest" by auto
    from rb_Cons [OF Cons.prems(1) this] obtain st1 where
      st1: "rb st = Some (Some b, st1)" "stands (p + 1) st1" "drop (nat (p + 1)) bytes = escape ps @ rest"
      by blast
    from Cons.IH [OF st1(2,3)] st1 False show ?thesis
      by (auto simp: algebra_simps)
  qed
qed

lemma parse_end:
  assumes "stands p st" "drop (nat p) bytes = NODE_END # rest" "rest = [] \<or> hd rest = NODE_END"
    and "pr = None \<longrightarrow> p - start - 2 = psize" "\<And>z. pr = Some z \<Longrightarrow> z = psize"
  shows "\<exists>st'. parseScan_with rb tell seek bad (Suc f) start ty c pr st =
      Some (Some (NodeStruct start psize ty c None), st') \<and> stands (p + 1) st'"
proof -
  from rb_Cons [OF assms(1,2)] obtain st1 where
    st1: "rb st = Some (Some NODE_END, st1)" "stands (p + 1) st1" "drop (nat (p + 1)) bytes = rest"
    by blast
  have sz: "(case pr of Some _ \<Rightarrow> (pr, st1) | None \<Rightarrow> (case tell st1 of (None, st2) \<Rightarrow> (None, st2)
      | (Some pos, st2) \<Rightarrow> (Some (pos - start - 2), st2))) = (Some psize, st1)"
    using tell_pos [OF st1(2)] assms(4,5) by (cases pr) auto
  show ?thesis
  proof (cases rest)
    case Nil
    with rb_Nil [OF st1(2)] st1 sz show ?thesis by auto
  next
    case (Cons b r)
    with assms(3) st1(3) have "drop (nat (p + 1)) bytes = NODE_END # r" by simp
    from rb_Cons [OF st1(2) this] obtain st2 where
      st2: "rb st1 = Some (Some NODE_END, st2)" "stands (p + 2) st2" by (auto simp: add.assoc)
    have b: "0 \<le> p + 1" "p + 1 \<le> int (length bytes)"
      using stands_bounds [OF st1(2)] by auto
    have "tell st2 = (Some (p + 1), st2)" using tell_pos [OF st2(2)] by (simp add: add.commute)
    with seek_pos [OF st2(2) b] st1 st2 sz show ?thesis
      by auto
  qed
qed

lemma parse_tail:
  assumes "stands p st" "drop (nat p) bytes = NODE_END # enc_trees ts @ rest"
    "rest = [] \<or> hd rest = NODE_END"
    and pr: "pr = None \<longrightarrow> p - start - 2 = psize" "\<And>z. pr = Some z \<Longrightarrow> z = psize"
    and next_ok: "\<And>s. ts \<noteq> [] \<Longrightarrow> stands (p + 2) s \<Longrightarrow>
      \<exists>n s'. parseNode_with rb tell seek bad f (p + 1) s = Some (Some n, s') \<and>
        mk_chain (p + 1) ts = Some n \<and> stands (p + 1 + int (length (enc_trees ts))) s'"
  shows "\<exists>st'. parseScan_with rb tell seek bad (Suc f) start ty c pr st =
      Some (Some (NodeStruct start psize ty c (mk_chain (p + 1) ts)), st') \<and>
    stands (p + 1 + int (length (enc_trees ts))) st'"
proof (cases ts rule: enc_trees.cases)
  case 1
  with parse_end [OF assms(1) _ assms(3) pr] assms(2) show ?thesis by auto
next
  case (2 t ps kids us)
  define r where "r = escape [t] @ escape ps @ enc_trees kids @ [NODE_END] @ enc_trees us @ rest"
  have d: "drop (nat p) bytes = NODE_END # NODE_START # r"
    using assms(2) 2 by (simp add: r_def)
  from rb_Cons [OF assms(1) d] obtain st1 where
    st1: "rb st = Some (Some NODE_END, st1)" "stands (p + 1) st1" "drop (nat (p + 1)) bytes = NODE_START # r"
    by blast
  from rb_Cons [OF st1(2,3)] obtain st2 where
    st2: "rb st1 = Some (Some NODE_START, st2)" "stands (p + 2) st2" by (auto simp: add.assoc)
  have sz: "(case pr of Some _ \<Rightarrow> (pr, st1) | None \<Rightarrow> (case tell st1 of (None, st2) \<Rightarrow> (None, st2)
      | (Some pos, st2) \<Rightarrow> (Some (pos - start - 2), st2))) = (Some psize, st1)"
    using tell_pos [OF st1(2)] pr by (cases pr) auto
  from next_ok [OF _ st2(2)] 2 obtain n s' where
    "parseNode_with rb tell seek bad f (p + 1) st2 = Some (Some n, s')"
    "mk_chain (p + 1) ts = Some n" "stands (p + 1 + int (length (enc_trees ts))) s'"
    by blast
  moreover have "tell st2 = (Some (p + 1), st2)" using tell_pos [OF st2(2)] by (simp add: add.commute)
  ultimately show ?thesis using st1 st2 sz by auto
qed

lemma parse_chain:
  assumes "ts \<noteq> []" "plain_trees ts" "stands (off + 1) st" "0 \<le> off"
    and "drop (nat off) bytes = enc_trees ts @ rest" "rest = [] \<or> hd rest = NODE_END"
    and "length (enc_trees ts) \<le> fuel"
  shows "\<exists>n st'. parseNode_with rb tell seek bad fuel off st = Some (Some n, st') \<and>
    mk_chain off ts = Some n \<and> stands (off + int (length (enc_trees ts))) st'"
  using assms
proof (induction ts arbitrary: off st rest fuel rule: enc_trees.induct)
  case 1
  then show ?case by simp
next
  case (2 ty ps kids ts)
  let ?e = "int (length (escape ps))" and ?k = "int (length (enc_trees kids))"
  let ?q = "off + 2 + ?e"
  have ty: "escape [ty] = [ty]" and oks: "plain_trees kids" "plain_trees ts"
    using "2.prems"(2) by (simp_all add: plain_type_def)
  have elen: "length ps \<le> length (escape ps)" by (rule escape_length)
  have len: "3 + length (escape ps) + length (enc_trees kids) + length (enc_trees ts) \<le> fuel"
    using "2.prems"(7) ty by simp
  then obtain f where fuel: "fuel = Suc (length ps + f)"
    and f: "2 + length (enc_trees kids) + length (enc_trees ts) \<le> f"
    using elen by (intro that [of "fuel - 1 - length ps"]) linarith+
  have "nat (off + 1) = Suc (nat off)" using "2.prems"(4) by simp
  then have "drop (nat (off + 1)) bytes = tl (drop (nat off) bytes)" by (simp add: drop_Suc tl_drop)
  then have d1: "drop (nat (off + 1)) bytes = ty # escape ps @ enc_trees kids @ NODE_END # enc_trees ts @ rest"
    using "2.prems"(5) ty by simp
  from rb_Cons [OF "2.prems"(3) d1] obtain st1 where
    st1: "rb st = Some (Some ty, st1)" "stands (off + 2) st1"
      "drop (nat (off + 2)) bytes = escape ps @ enc_trees kids @ NODE_END # enc_trees ts @ rest"
    by (auto simp: add.assoc)
  from scan_props [OF st1(2,3)] obtain st2 where
    st2: "parseScan_with rb tell seek bad (length ps + f) off (uint ty) None None st1 =
        parseScan_with rb tell seek bad f off (uint ty) None None st2" "stands ?q st2"
      "drop (nat ?q) bytes = enc_trees kids @ NODE_END # enc_trees ts @ rest"
    by blast
  have enter: "parseNode_with rb tell seek bad fuel off st =
      parseScan_with rb tell seek bad f off (uint ty) None None st2"
    using st1(1) st2(1) fuel by simp
  have tail: "\<exists>st'. parseScan_with rb tell seek bad (Suc g) off (uint ty) c pr s =
        Some (Some (NodeStruct off ?e (uint ty) c (mk_chain (?q + ?k + 1) ts)), st') \<and>
      stands (?q + ?k + 1 + int (length (enc_trees ts))) st'"
    if "stands (?q + ?k) s" "length (enc_trees ts) \<le> g"
      "pr = None \<longrightarrow> ?k = 0" "\<And>z. pr = Some z \<Longrightarrow> z = ?e" for g c pr s
  proof (rule parse_tail [OF that(1) _ "2.prems"(6) _ that(4)])
    have q: "nat (?q + ?k) = length (enc_trees kids) + nat ?q" using "2.prems"(4) by linarith
    show d: "drop (nat (?q + ?k)) bytes = NODE_END # enc_trees ts @ rest"
      unfolding q drop_drop [symmetric] st2(3) by simp
    show "pr = None \<longrightarrow> ?q + ?k - off - 2 = ?e" using that(3) by auto
    show "\<exists>n s'. parseNode_with rb tell seek bad g (?q + ?k + 1) s = Some (Some n, s') \<and>
        mk_chain (?q + ?k + 1) ts = Some n \<and> stands (?q + ?k + 1 + int (length (enc_trees ts))) s'"
      if "ts \<noteq> []" "stands (?q + ?k + 2) s" for s
    proof (rule "2.IH"(2) [OF that(1) oks(2)])
      show "stands (?q + ?k + 1 + 1) s" using that(2) by (simp add: add.assoc)
      show "0 \<le> ?q + ?k + 1" using "2.prems"(4) by simp
      have "nat (?q + ?k + 1) = Suc (nat (?q + ?k))" using "2.prems"(4) by linarith
      then show "drop (nat (?q + ?k + 1)) bytes = enc_trees ts @ rest"
        using d by (metis drop_Suc list.sel(3) tl_drop)
      show "rest = [] \<or> hd rest = NODE_END" by (rule "2.prems"(6))
      show "length (enc_trees ts) \<le> g" by (rule \<open>length (enc_trees ts) \<le> g\<close>)
    qed
  qed
  have "\<exists>st'. parseScan_with rb tell seek bad f off (uint ty) None None st2 =
        Some (Some (NodeStruct off ?e (uint ty) (mk_chain ?q kids) (mk_chain (?q + ?k + 1) ts)), st') \<and>
      stands (?q + ?k + 1 + int (length (enc_trees ts))) st'"
  proof (cases kids rule: enc_trees.cases)
    case 1
    have "f = Suc (f - 1)" "length (enc_trees ts) \<le> f - 1" using f by linarith+
    with tail [of st2 "f - 1" None None] st2(2) 1 show ?thesis by simp
  next
    case (2 t ps' kids' us)
    define r where "r = escape [t] @ escape ps' @ enc_trees kids' @ [NODE_END] @ enc_trees us @ NODE_END # enc_trees ts @ rest"
    have d: "drop (nat ?q) bytes = NODE_START # r" using st2(3) 2 by (simp add: r_def)
    from rb_Cons [OF st2(2) d] obtain st3 where
      st3: "rb st2 = Some (Some NODE_START, st3)" "stands (?q + 1) st3" by blast
    have tell: "tell st3 = (Some ?q, st3)" using tell_pos [OF st3(2)] by simp
    have "\<exists>n st'. parseNode_with rb tell seek bad (f - 1) ?q st3 = Some (Some n, st') \<and>
        mk_chain ?q kids = Some n \<and> stands (?q + ?k) st'"
    proof (rule "2.IH"(1) [OF _ oks(1) st3(2) _ st2(3)])
      show "kids \<noteq> []" using 2 by simp
      show "0 \<le> ?q" using "2.prems"(4) by simp
      show "NODE_END # enc_trees ts @ rest = [] \<or> hd (NODE_END # enc_trees ts @ rest) = NODE_END" by simp
      show "length (enc_trees kids) \<le> f - 1" using f by simp
    qed
    then obtain n st4 where
      st4: "parseNode_with rb tell seek bad (f - 1) ?q st3 = Some (Some n, st4)"
        "mk_chain ?q kids = Some n" "stands (?q + ?k) st4" by blast
    have fs: "f = Suc (f - 1)" "f - 1 = Suc (f - 2)" using f by linarith+
    have "parseScan_with rb tell seek bad f off (uint ty) None None st2 =
        parseScan_with rb tell seek bad (f - 1) off (uint ty) (Some n) (Some ?e) st4"
      using st3(1) tell st4(1) by (subst fs(1)) simp
    with tail [OF st4(3), of "f - 2" "Some ?e" "Some n"] fs(2) f st4(2) show ?thesis by simp
  qed
  then obtain st' where
    "parseScan_with rb tell seek bad f off (uint ty) None None st2 =
        Some (Some (NodeStruct off ?e (uint ty) (mk_chain ?q kids) (mk_chain (?q + ?k + 1) ts)), st')"
    "stands (?q + ?k + 1 + int (length (enc_trees ts))) st'" by blast
  moreover have "?q + ?k + 1 + int (length (enc_trees ts)) = off + int (length (enc_trees (Tree ty ps kids # ts)))"
    using ty by simp
  moreover have "?q + ?k + 1 = off + 3 + ?e + ?k" by simp
  ultimately show ?case unfolding enter by (simp add: add.assoc)
qed

lemma rb_cases:
  assumes "stands p st"
  obtains st' where "rb st = Some (None, st')"
    | b st' where "rb st = Some (Some b, st')" "stands (p + 1) st'" "p < int (length bytes)"
proof (cases "p < int (length bytes)")
  case True
  with rb_byte [OF assms] that(2) show ?thesis by blast
next
  case False
  with stands_bounds [OF assms] rb_eof [OF assms] that(1) show ?thesis by force
qed

definition parsed :: "int \<Rightarrow> (NodeStruct option \<times> 's) option \<Rightarrow> bool" where
  "parsed p r \<longleftrightarrow> (\<exists>st'. r = Some (None, st')) \<or>
     (\<exists>n q st'. r = Some (Some n, st') \<and> p < q \<and> stands q st')"

lemma parsed_mono: "parsed p r \<Longrightarrow> p' \<le> p \<Longrightarrow> parsed p' r"
  unfolding parsed_def by (elim disjE exE conjE) (force intro: le_less_trans)+

lemma parsed_False: "parsed p (Some (None, st))"
  by (simp add: parsed_def)

lemma parsed_cases:
  assumes "parsed p r"
  obtains st' where "r = Some (None, st')" | n q st' where "r = Some (Some n, st')" "p < q" "stands q st'"
  using assms by (auto simp: parsed_def)

text \<open>The scan after a child, and after the end of the node, given that nested parsing works.\<close>

lemma parsed_child:
  assumes st: "stands (p + 1) st"
    and node: "\<And>q s st'. stands q st' \<Longrightarrow> p < q \<Longrightarrow> parsed q (parseNode_with rb tell seek bad f s st')"
    and scan: "\<And>q start ty c pr st'. stands q st' \<Longrightarrow> p < q \<Longrightarrow>
      parsed q (parseScan_with rb tell seek bad f start ty c pr st')"
  shows "parsed p (case tell st of
               (None, st2) \<Rightarrow> Some (None, st2)
             | (Some pos, st2) \<Rightarrow>
                 (case parseNode_with rb tell seek bad f pos st2 of
                    None \<Rightarrow> None
                  | Some (None, st3) \<Rightarrow> Some (None, st3)
                  | Some (Some childNode, st3) \<Rightarrow>
                      parseScan_with rb tell seek bad f start ty (Some childNode)
                        (Some (pos - start - 2)) st3))"
proof -
  have "tell st = (Some p, st)" using tell_pos [OF st] by simp
  have "parsed (p + 1) (parseNode_with rb tell seek bad f p st)" by (rule node [OF st]) simp
  then show ?thesis
  proof (cases rule: parsed_cases)
    case (1 st')
    with \<open>tell st = (Some p, st)\<close> show ?thesis by (simp add: parsed_False)
  next
    case (2 n q st3)
    have "parsed q (parseScan_with rb tell seek bad f start ty (Some n) (Some (p - start - 2)) st3)"
      using 2 by (intro scan) auto
    with 2 \<open>tell st = (Some p, st)\<close> show ?thesis by (auto elim: parsed_mono)
  qed
qed

lemma parsed_end:
  assumes st: "stands (p + 1) st"
    and node: "\<And>q s st'. stands q st' \<Longrightarrow> p < q \<Longrightarrow> parsed q (parseNode_with rb tell seek bad f s st')"
  shows "parsed p (case rb st of
                    None \<Rightarrow> None
                  | Some (None, st3) \<Rightarrow> Some (Some (NodeStruct start psize ty child None), st3)
                  | Some (Some byte2, st3) \<Rightarrow>
                      if byte2 = NODE_START then
                        (case tell st3 of
                           (None, st4) \<Rightarrow> Some (None, st4)
                         | (Some pos, st4) \<Rightarrow>
                             (case parseNode_with rb tell seek bad f pos st4 of
                                None \<Rightarrow> None
                              | Some (None, st5) \<Rightarrow> Some (None, st5)
                              | Some (Some nextNode, st5) \<Rightarrow>
                                  Some (Some (NodeStruct start psize ty child (Some nextNode)), st5)))
                      else if byte2 = NODE_END then
                        (case tell st3 of
                           (None, st4) \<Rightarrow> Some (None, st4)
                         | (Some pos, st4) \<Rightarrow>
                             (case seek pos st4 of
                                None \<Rightarrow> None
                              | Some (False, st5) \<Rightarrow> Some (None, st5)
                              | Some (True, st5) \<Rightarrow> Some (Some (NodeStruct start psize ty child None), st5)))
                      else Some (None, bad st3))"
proof (cases "p + 1 < int (length bytes)")
  case False
  then have "p + 1 = int (length bytes)" using stands_bounds [OF st] by simp
  from rb_eof [OF st this] show ?thesis by (auto simp: parsed_def intro!: exI [of _ "p + 1"])
next
  case True
  from rb_byte [OF st True] obtain st3 where
    st3: "rb st = Some (Some (bytes ! nat (p + 1)), st3)" "stands (p + 2) st3" by (auto simp: add.assoc)
  have t: "tell st3 = (Some (p + 1), st3)" using tell_pos [OF st3(2)] by (simp add: add.commute)
  have b: "0 \<le> p + 1" "p + 1 \<le> int (length bytes)" using stands_bounds [OF st] by auto
  have "parsed p (parseNode_with rb tell seek bad f (p + 1) st3)"
    by (rule parsed_mono [OF node [OF st3(2)]]) simp_all
  with seek_pos [OF st3(2) b] st3 t show ?thesis
    by (elim parsed_cases) (auto simp: parsed_def)
qed

lemma parse_total:
  "(stands p st \<longrightarrow> int (length bytes) - p < int fuel \<longrightarrow>
      parsed p (parseNode_with rb tell seek bad fuel start st)) \<and>
   (stands p st \<longrightarrow> int (length bytes) - p < int fuel \<longrightarrow>
      parsed p (parseScan_with rb tell seek bad fuel start ty c pr st))"
proof (induction fuel arbitrary: p st start ty c pr)
  case 0
  then show ?case using stands_bounds [of p st] by auto
next
  case (Suc f)
  show ?case
  proof (cases "stands p st \<and> int (length bytes) - p < int (Suc f)")
    case True
    then have st: "stands p st" and f: "int (length bytes) - p \<le> int f" by auto
    have node: "parsed q (parseNode_with rb tell seek bad f s st')" if "stands q st'" "p < q" for q s st'
      using Suc.IH that f by auto
    have scan: "parsed q (parseScan_with rb tell seek bad f start ty c pr st')"
      if "stands q st'" "p < q" for q start ty c pr st'
      using Suc.IH that f by auto
    show ?thesis
    proof (cases rule: rb_cases [OF st])
      case (1 st')
      then show ?thesis by (simp add: parsed_False)
    next
      case (2 b st1)
      have "parsed p (parseNode_with rb tell seek bad (Suc f) start st)"
        using 2 parsed_mono [OF scan [OF 2(2)], of p] by simp
      moreover have "parsed p (parseScan_with rb tell seek bad (Suc f) start ty c pr st)"
      proof -
        consider "b = NODE_START" | "b = NODE_END" | "b = ESCAPE_CHAR"
          | "b \<noteq> NODE_START" "b \<noteq> NODE_END" "b \<noteq> ESCAPE_CHAR" by blast
        then show ?thesis
        proof cases
          case 1
          have "parsed p (case tell st1 of
               (None, st2) \<Rightarrow> Some (None, st2)
             | (Some pos, st2) \<Rightarrow>
                 (case parseNode_with rb tell seek bad f pos st2 of
                    None \<Rightarrow> None
                  | Some (None, st3) \<Rightarrow> Some (None, st3)
                  | Some (Some childNode, st3) \<Rightarrow>
                      parseScan_with rb tell seek bad f start ty (Some childNode)
                        (Some (pos - start - 2)) st3))"
            by (rule parsed_child [OF 2(2) node scan])
          with 1 2 show ?thesis by simp
        next
          case 2
          have t: "tell st1 = (Some p, st1)" using tell_pos [OF \<open>stands (p + 1) st1\<close>] by simp
          show ?thesis
            using 2 \<open>rb st = Some (Some b, st1)\<close> parsed_end [OF \<open>stands (p + 1) st1\<close> node] t
            by (cases pr) simp_all
        next
          case 3
          show ?thesis
          proof (cases rule: rb_cases [OF \<open>stands (p + 1) st1\<close>])
            case (1 st')
            with 3 \<open>rb st = Some (Some b, st1)\<close> show ?thesis by (simp add: parsed_False)
          next
            case (2 b' st2)
            have "parsed p (parseScan_with rb tell seek bad f start ty c pr st2)"
              by (rule parsed_mono [OF scan [OF 2(2)]]) simp_all
            with 2 3 \<open>rb st = Some (Some b, st1)\<close> show ?thesis by simp
          qed
        next
          case 4
          have "parsed p (parseScan_with rb tell seek bad f start ty c pr st1)"
            by (rule parsed_mono [OF scan [OF 2(2)]]) simp_all
          with 2 4 show ?thesis by simp
        qed
      qed
      ultimately show ?thesis by simp
    qed
  qed auto
qed

end

subsection \<open>Fetching what was stored\<close>

lemma unescape_escape: "unescape (escape ps) = Some ps"
proof (induction ps)
  case Nil
  then show ?case by simp
next
  case (Cons b ps)
  show ?case
  proof (cases "b = NODE_START \<or> b = NODE_END \<or> b = ESCAPE_CHAR")
    case True
    with Cons show ?thesis by auto
  next
    case False
    with Cons show ?thesis by (cases "escape ps") auto
  qed
qed

lemma getProps_stored:
  assumes "cache_inv bytes st" "1024 \<le> fl_buffer_size st" "0 \<le> off"
    "drop (nat (off + 2)) bytes = escape ps @ rest" "rest \<noteq> []" "length (escape ps) \<le> 2048"
  shows "\<exists>st'. getProps (NodeStruct off (int (length (escape ps))) ty c nx) st = Some (Some ps, st') \<and>
    cache_inv bytes st' \<and> 1024 \<le> fl_buffer_size st'"
proof -
  let ?st = "if length (escape ps) \<ge> fl_buffer_size st
             then st\<lparr>fl_buffer_size := fl_buffer_size st + 1024\<rparr> else st"
  have inv: "cache_inv bytes ?st" "1024 \<le> fl_buffer_size ?st" and fits: "\<not> length (escape ps) > fl_buffer_size ?st"
    using assms by (auto simp: cache_inv_def)
  have "length (escape ps) < length (drop (nat (off + 2)) bytes)"
    unfolding assms(4) using assms(5) by simp
  then have "off + 2 + int (length (escape ps)) \<le> int (length bytes)" by simp
  from readBytes_buffer [OF inv(1) _ this] assms(3,4) obtain st' where
    st': "readBytes (length (escape ps)) (off + 2) ?st = Some (Some (escape ps), st')"
      "cache_inv bytes st'" "fl_buffer_size st' = fl_buffer_size ?st"
    by auto
  have "getProps (NodeStruct off (int (length (escape ps))) ty c nx) st = Some (Some ps, st')"
    unfolding getProps_def Let_def by (simp only: NodeStruct.sel nat_int st'(1) fits) (simp add: unescape_escape)
  with st' inv(2) show ?thesis by simp
qed

lemma read_chain_stored:
  assumes "cache_inv bytes st" "1024 \<le> fl_buffer_size st" "0 \<le> off"
    "drop (nat off) bytes = enc_trees ts @ rest" "plain_trees ts" "small_trees ts"
  shows "\<exists>st'. read_chain (mk_chain off ts) st = Some (ts, st') \<and>
    cache_inv bytes st' \<and> 1024 \<le> fl_buffer_size st'"
  using assms
proof (induction ts arbitrary: off st rest rule: enc_trees.induct)
  case 1
  then show ?case by simp
next
  case (2 ty ps kids ts)
  let ?e = "int (length (escape ps))" and ?k = "int (length (enc_trees kids))"
  have ok: "escape [ty] = [ty]" "length (escape ps) \<le> 2048" "plain_trees kids" "plain_trees ts"
    "small_trees kids" "small_trees ts"
    using "2.prems"(5,6) by (simp_all add: plain_type_def)
  have n: "nat (off + 2) = 2 + nat off" "nat (off + 2 + ?e) = length (escape ps) + nat (off + 2)"
    "nat (off + 3 + ?e + ?k) = 1 + length (enc_trees kids) + nat (off + 2 + ?e)"
    using "2.prems"(3) by linarith+
  have d1: "drop (nat (off + 2)) bytes = escape ps @ enc_trees kids @ NODE_END # enc_trees ts @ rest"
    unfolding n(1) drop_drop [symmetric] "2.prems"(4) using ok(1) by simp
  have d2: "drop (nat (off + 2 + ?e)) bytes = enc_trees kids @ NODE_END # enc_trees ts @ rest"
    unfolding n(2) drop_drop [symmetric] d1 by simp
  have d3: "drop (nat (off + 3 + ?e + ?k)) bytes = enc_trees ts @ rest"
    unfolding n(3) drop_drop [symmetric] d2 by simp
  obtain st1 where st1: "getProps (NodeStruct off ?e (uint ty) (mk_chain (off + 2 + ?e) kids)
        (mk_chain (off + 3 + ?e + ?k) ts)) st = Some (Some ps, st1)"
    "cache_inv bytes st1" "1024 \<le> fl_buffer_size st1"
    using getProps_stored [OF "2.prems"(1,2,3) d1 _ ok(2)] by blast
  obtain st2 where st2: "read_chain (mk_chain (off + 2 + ?e) kids) st1 = Some (kids, st2)"
    "cache_inv bytes st2" "1024 \<le> fl_buffer_size st2"
    using "2.IH"(1) [OF st1(2,3) _ d2 ok(3,5)] "2.prems"(3) by auto
  obtain st3 where st3: "read_chain (mk_chain (off + 3 + ?e + ?k) ts) st2 = Some (ts, st3)"
    "cache_inv bytes st3" "1024 \<le> fl_buffer_size st3"
    using "2.IH"(2) [OF st2(2,3) _ d3 ok(4,6)] "2.prems"(3) by auto
  from st1 st2 st3 show ?case by simp
qed

section \<open>Opening a file\<close>

lemma cache_size_pos: "1 \<le> min 32768 (max n 8192) AND NOT (0x1FFF :: int)"
proof -
  have "min 32768 (max n 8192) < cache_base 8192 (min 32768 (max n 8192)) + 8192"
    by (rule cache_base_bounds) auto
  then show ?thesis by (simp add: cache_base_def)
qed

lemma openFile_start:
  assumes "4 \<le> length file" "(le_value (take 4 file) :: u32) = 0"
  shows "\<exists>st. openFile caching file =
      (case readByte st of
         None \<Rightarrow> None
       | Some (None, st4) \<Rightarrow> Some (None, st4)
       | Some (Some byte, st4) \<Rightarrow>
           if byte = NODE_START then parseNode (length file) 4 st4 else Some (None, st4)) \<and>
    cursor file 4 st \<and> fl_buffer_size st = 1024"
proof -
  define st1 where "st1 = (if caching
     then (fl_new file)\<lparr>fl_use_cache := True,
             fl_cache_size := min 32768 (max (int (length file) div 20) 8192) AND NOT 0x1FFF\<rparr>
     else fl_new file)"
  have inv: "cache_inv file st1" "fl_buffer_size st1 = 1024"
    using cache_size_pos by (auto simp: st1_def cache_inv_def fl_new_def block_ok_def)
  have l: "(4 :: int) \<le> int (length file)" using assms(1) by simp
  from safeSeek_cursor [OF inv(1) _ l] obtain st2 where
    st2: "safeSeek 4 st1 = Some (True, st2)" "cursor file 4 st2" "fl_buffer_size st2 = 1024"
    using inv(2) by auto
  then have "cache_inv file st2" by (simp add: cursor_def)
  from safeSeek_cursor [OF this _ l] obtain st3 where
    st3: "safeSeek 4 st2 = Some (True, st3)" "cursor file 4 st3" "fl_buffer_size st3 = 1024"
    using st2(3) by auto
  have "openFile caching file = (case readByte st3 of
         None \<Rightarrow> None
       | Some (None, st4) \<Rightarrow> Some (None, st4)
       | Some (Some byte, st4) \<Rightarrow>
           if byte = NODE_START then parseNode (length file) 4 st4 else Some (None, st4))"
    using assms st2(1) st3(1) unfolding openFile_def Let_def st1_def [symmetric] by simp
  with st3 show ?thesis by blast
qed

text \<open>
  C32. Opening any file of at least four bytes, with or without the read cache, returns: the
  recursive parser ends within one step per byte of the file, whatever the bytes are, and never indexes
  outside the block table (the result is never the undefined \<open>None\<close>).
\<close>
theorem openFile_returns:
  assumes "4 \<le> length file"
  shows "\<exists>root st. openFile caching file = Some (root, st)"
proof (cases "(le_value (take 4 file) :: u32) > 0")
  case True
  with assms show ?thesis by (simp add: openFile_def)
next
  case False
  then have "(le_value (take 4 file) :: u32) = 0" by (simp add: word_gt_0)
  from openFile_start [OF assms this] obtain st where
    st: "openFile caching file = (case readByte st of
         None \<Rightarrow> None
       | Some (None, st4) \<Rightarrow> Some (None, st4)
       | Some (Some byte, st4) \<Rightarrow>
           if byte = NODE_START then parseNode (length file) 4 st4 else Some (None, st4))"
      "cursor file 4 st \<and> fl_buffer_size st = 1024"
    by blast
  show ?thesis
  proof (cases rule: loader.rb_cases [OF st(2)])
    case (1 st')
    with st(1) show ?thesis by simp
  next
    case (2 b st')
    have "loader.parsed file 1024 5 (parseNode (length file) 4 st')"
      unfolding parseNode_def using loader.parse_total [where p = 5 and st = st' and fuel = "length file" and bytes = "file" and bs = 1024] 2(2,3) by simp
    with st(1) 2(1) show ?thesis by (auto simp: loader.parsed_def)
  qed
qed

theorem openFile_returns_witness:
  "\<exists>root st. openFile True [0, 0, 0, 0, 0xFE, 1, 0xFD] = Some (root, st)"
  using openFile_returns [of "[0, 0, 0, 0, 0xFE, 1, 0xFD]" True] by simp

lemma open_written:
  assumes "plain_trees [t]" "length (enc_trees [t]) + 4 \<le> room"
  shows "\<exists>root st. openFile caching (fo_bytes (write_trees [t] (openFile_write room))) = Some (Some root, st) \<and>
    mk_chain 4 [t] = Some root \<and> cache_inv ([0, 0, 0, 0] @ enc_trees [t]) st \<and> fl_buffer_size st = 1024"
proof -
  let ?bytes = "[0, 0, 0, 0] @ enc_trees [t]"
  have "openFile_write room = \<lparr>fo_bytes = [0, 0, 0, 0], fo_room = room - 4, fo_error = ERROR_NONE\<rparr>"
    unfolding openFile_write_def using assms(2) by (subst writeData_raw) simp_all
  then have w: "fo_bytes (write_trees [t] (openFile_write room)) = ?bytes"
    using assms(2) by (subst write_trees_enc) simp_all
  have "(le_value (take 4 ?bytes) :: u32) = 0" by simp
  from openFile_start [of ?bytes caching, OF _ this] obtain st where
    st: "openFile caching ?bytes = (case readByte st of
         None \<Rightarrow> None
       | Some (None, st4) \<Rightarrow> Some (None, st4)
       | Some (Some byte, st4) \<Rightarrow>
           if byte = NODE_START then parseNode (length ?bytes) 4 st4 else Some (None, st4))"
      "cursor ?bytes 4 st \<and> fl_buffer_size st = 1024"
    by auto
  have d: "drop (nat 4) ?bytes = enc_trees [t] @ []" by simp
  obtain r where r: "enc_trees [t] = NODE_START # r" by (cases t) auto
  from loader.rb_Cons [OF st(2), of NODE_START r] d r obtain st1 where
    st1: "readByte st = Some (Some NODE_START, st1)" "cursor ?bytes (4 + 1) st1 \<and> fl_buffer_size st1 = 1024"
    by auto
  have "\<exists>n st2. parseNode (length ?bytes) 4 st1 = Some (Some n, st2) \<and> mk_chain 4 [t] = Some n \<and>
      cursor ?bytes (4 + int (length (enc_trees [t]))) st2 \<and> fl_buffer_size st2 = 1024"
    unfolding parseNode_def by (rule loader.parse_chain [OF _ assms(1) st1(2) _ d]) simp_all
  with st(1) st1(1) show ?thesis unfolding w cursor_def by auto
qed

text \<open>
  C1. Round trip of the node file: a tree written with startNode, setProps and endNode and
  opened again, with or without the cache, is read back unchanged by walking the parsed nodes
  and fetching their properties, provided no node type is one of the three marker bytes and
  the escaped properties of a node take at most 2048 bytes.
\<close>
theorem file_roundtrip:
  assumes "plain_trees [t]" "small_trees [t]" "length (enc_trees [t]) + 4 \<le> room"
  shows "\<exists>root st st'. openFile caching (fo_bytes (write_trees [t] (openFile_write room))) = Some (Some root, st) \<and>
    read_chain (Some root) st = Some ([t], st')"
proof -
  from open_written [OF assms(1,3)] obtain root st where
    r: "openFile caching (fo_bytes (write_trees [t] (openFile_write room))) = Some (Some root, st)"
    "mk_chain 4 [t] = Some root" "cache_inv ([0, 0, 0, 0] @ enc_trees [t]) st" "fl_buffer_size st = 1024"
    by blast
  have b: "1024 \<le> fl_buffer_size st" using r(4) by simp
  have d: "drop (nat 4) ([0, 0, 0, 0] @ enc_trees [t]) = enc_trees [t] @ []" by simp
  from read_chain_stored [OF r(3) b _ d assms(1,2)] r(1,2) show ?thesis by auto
qed

theorem file_roundtrip_witness:
  "\<exists>root st st'. openFile True (fo_bytes (write_trees [Tree 1 [0xFE, 7] [Tree 2 [] [], Tree 3 [0xFD] []]]
       (openFile_write 100))) = Some (Some root, st) \<and>
    read_chain (Some root) st = Some ([Tree 1 [0xFE, 7] [Tree 2 [] [], Tree 3 [0xFD] []]], st')"
  by (rule file_roundtrip) (simp_all add: plain_type_def)

text \<open>
  Properties are not limited when a file is written, but \<open>getProps\<close> grows its buffer of
  1024 bytes by 1024 only once: fetching the properties of a root node whose escaped
  properties take more than 2048 bytes reads past the end of the buffer.
\<close>
theorem getProps_overflow:
  assumes "plain_type ty" "length (escape ps) > 2048" "length (enc_trees [Tree ty ps []]) + 4 \<le> room"
  shows "\<exists>root st. openFile caching (fo_bytes (write_trees [Tree ty ps []] (openFile_write room))) = Some (Some root, st) \<and>
    getProps root st = None"
proof -
  have "plain_trees [Tree ty ps []]" using assms(1) by simp
  from open_written [OF this assms(3)] obtain root st where
    "openFile caching (fo_bytes (write_trees [Tree ty ps []] (openFile_write room))) = Some (Some root, st)"
    "mk_chain 4 [Tree ty ps []] = Some root" "fl_buffer_size st = 1024"
    by blast
  moreover from this assms(2) have "getProps root st = None"
    by (auto simp: getProps_def Let_def)
  ultimately show ?thesis by blast
qed

lemma escape_replicate: "escape (replicate n 0) = replicate n 0"
  by (induction n) simp_all

theorem getProps_overflow_witness:
  "\<exists>root st. openFile True (fo_bytes (write_trees [Tree 1 (replicate 2049 0) []] (openFile_write 3000))) = Some (Some root, st) \<and>
    getProps root st = None"
  by (rule getProps_overflow) (simp_all add: plain_type_def escape_replicate)

text \<open>
  The writer escapes a node's type byte like any other data, but the parser takes the
  byte after the node marker as the type: a file holding one leaf whose type is a marker
  byte does not open (types 0xFE and 0xFD), or yields a node of another type (0xFF).
\<close>
theorem marker_type_not_preserved:
  "map (\<lambda>ty. case openFile False (fo_bytes (write_trees [Tree ty [] []] (openFile_write 100))) of
       Some (Some root, _) \<Rightarrow> Some (n_type root) | _ \<Rightarrow> None) [NODE_START, NODE_END, ESCAPE_CHAR] =
     [None, Some 0xFD, None]"
  by code_simp

end
