(* ===== verification/Items.thy ===== *)
theory Items
  imports Complex_Main FileLoader
begin

text \<open>
  The table of item types (\<^verbatim>\<open>Source/items.h\<close>, \<^verbatim>\<open>Source/items.cpp\<close>, \<^verbatim>\<open>Source/itemloader.h\<close>): the
  type record and its defaults, the growing array that holds one entry per id, and the loader
  of the binary item file, which walks the node tree of \<open>FileLoader\<close> and decodes the
  properties of each node.

  The record keeps the fields that the loader sets and that the components of this
  development read; the fields only \<^verbatim>\<open>items.xml\<close> sets and only combat or scripts read are left
  out. Enumerations are their numbers. Weights are real numbers.
\<close>

section \<open>Item types\<close>

abbreviation ITEM_GROUP_NONE :: int where "ITEM_GROUP_NONE \<equiv> 0"
abbreviation ITEM_GROUP_GROUND :: int where "ITEM_GROUP_GROUND \<equiv> 1"
abbreviation ITEM_GROUP_CONTAINER :: int where "ITEM_GROUP_CONTAINER \<equiv> 2"
abbreviation ITEM_GROUP_RUNE :: int where "ITEM_GROUP_RUNE \<equiv> 6"
abbreviation ITEM_GROUP_TELEPORT :: int where "ITEM_GROUP_TELEPORT \<equiv> 7"
abbreviation ITEM_GROUP_MAGICFIELD :: int where "ITEM_GROUP_MAGICFIELD \<equiv> 8"
abbreviation ITEM_GROUP_SPLASH :: int where "ITEM_GROUP_SPLASH \<equiv> 11"
abbreviation ITEM_GROUP_FLUID :: int where "ITEM_GROUP_FLUID \<equiv> 12"
abbreviation ITEM_GROUP_DOOR :: int where "ITEM_GROUP_DOOR \<equiv> 13"

datatype ItemTypes_t = ITEM_TYPE_NONE | ITEM_TYPE_DEPOT | ITEM_TYPE_MAILBOX | ITEM_TYPE_TRASHHOLDER
  | ITEM_TYPE_CONTAINER | ITEM_TYPE_DOOR | ITEM_TYPE_MAGICFIELD | ITEM_TYPE_TELEPORT | ITEM_TYPE_BED
  | ITEM_TYPE_KEY | ITEM_TYPE_RUNE | ITEM_TYPE_LAST

record ItemType =
  it_group :: int
  it_type :: ItemTypes_t
  it_id :: u16
  it_clientId :: u16
  it_name :: string
  it_maxItems :: u16
  it_weight :: real
  it_isVertical :: bool
  it_isHorizontal :: bool
  it_isHangable :: bool
  it_allowDistRead :: bool
  it_speed :: u16
  it_decayTo :: int
  it_decayTime :: u32
  it_stopTime :: bool
  it_canReadText :: bool
  it_canWriteText :: bool
  it_stackable :: bool
  it_useable :: bool
  it_moveable :: bool
  it_alwaysOnTop :: bool
  it_alwaysOnTopOrder :: int
  it_pickupable :: bool
  it_rotable :: bool
  it_rotateTo :: int
  it_lightLevel :: int
  it_lightColor :: int
  it_floorChangeDown :: bool
  it_floorChangeNorth :: bool
  it_floorChangeSouth :: bool
  it_floorChangeEast :: bool
  it_floorChangeWest :: bool
  it_hasHeight :: bool
  it_blockSolid :: bool
  it_blockProjectile :: bool
  it_blockPathFind :: bool
  it_allowPickupable :: bool
  it_charges :: u32
  it_replaceable :: bool

definition new_ItemType :: ItemType where
  "new_ItemType = \<lparr>it_group = ITEM_GROUP_NONE, it_type = ITEM_TYPE_NONE, it_id = 0, it_clientId = 0,
     it_name = [], it_maxItems = 8, it_weight = 0, it_isVertical = False, it_isHorizontal = False,
     it_isHangable = False, it_allowDistRead = False, it_speed = 0, it_decayTo = -1, it_decayTime = 0,
     it_stopTime = False, it_canReadText = False, it_canWriteText = False, it_stackable = False,
     it_useable = False, it_moveable = True, it_alwaysOnTop = False, it_alwaysOnTopOrder = 0,
     it_pickupable = False, it_rotable = False, it_rotateTo = 0, it_lightLevel = 0, it_lightColor = 0,
     it_floorChangeDown = True, it_floorChangeNorth = False, it_floorChangeSouth = False,
     it_floorChangeEast = False, it_floorChangeWest = False, it_hasHeight = False,
     it_blockSolid = False, it_blockProjectile = False, it_blockPathFind = False,
     it_allowPickupable = False, it_charges = 0, it_replaceable = True\<rparr>"

definition isGroundTile :: "ItemType \<Rightarrow> bool" where "isGroundTile it \<longleftrightarrow> it_group it = ITEM_GROUP_GROUND"
definition isContainer :: "ItemType \<Rightarrow> bool" where "isContainer it \<longleftrightarrow> it_group it = ITEM_GROUP_CONTAINER"
definition isSplash :: "ItemType \<Rightarrow> bool" where "isSplash it \<longleftrightarrow> it_group it = ITEM_GROUP_SPLASH"
definition isFluidContainer :: "ItemType \<Rightarrow> bool" where "isFluidContainer it \<longleftrightarrow> it_group it = ITEM_GROUP_FLUID"
definition isKey :: "ItemType \<Rightarrow> bool" where "isKey it \<longleftrightarrow> it_type it = ITEM_TYPE_KEY"
definition isRune :: "ItemType \<Rightarrow> bool" where "isRune it \<longleftrightarrow> it_type it = ITEM_TYPE_RUNE"
definition isMagicField :: "ItemType \<Rightarrow> bool" where "isMagicField it \<longleftrightarrow> it_type it = ITEM_TYPE_MAGICFIELD"
definition isDoor :: "ItemType \<Rightarrow> bool" where "isDoor it \<longleftrightarrow> it_type it = ITEM_TYPE_DOOR"
definition isDepot :: "ItemType \<Rightarrow> bool" where "isDepot it \<longleftrightarrow> it_type it = ITEM_TYPE_DEPOT"
definition isTeleport :: "ItemType \<Rightarrow> bool" where "isTeleport it \<longleftrightarrow> it_type it = ITEM_TYPE_TELEPORT"
definition isMailbox :: "ItemType \<Rightarrow> bool" where "isMailbox it \<longleftrightarrow> it_type it = ITEM_TYPE_MAILBOX"
definition isTrashHolder :: "ItemType \<Rightarrow> bool" where "isTrashHolder it \<longleftrightarrow> it_type it = ITEM_TYPE_TRASHHOLDER"
definition isBed :: "ItemType \<Rightarrow> bool" where "isBed it \<longleftrightarrow> it_type it = ITEM_TYPE_BED"
definition hasSubType :: "ItemType \<Rightarrow> bool" where
  "hasSubType it \<longleftrightarrow> isFluidContainer it \<or> isSplash it \<or> it_stackable it \<or> it_charges it \<noteq> 0"

section \<open>The array of types\<close>

text \<open>The template \<^verbatim>\<open>Array\<close>: null entries are \<open>None\<close>, and adding beyond the end grows it to
  5000 entries past the position. An \<open>int32_t\<close> id reaches it as \<open>uint32_t\<close>.\<close>

definition getElement :: "u32 \<Rightarrow> 'a option list \<Rightarrow> 'a option" where
  "getElement pos arr = (if unat pos < length arr then arr ! unat pos else None)"

definition addElement :: "'a \<Rightarrow> u32 \<Rightarrow> 'a option list \<Rightarrow> 'a option list" where
  "addElement a pos arr =
     (let arr1 = (if unat pos \<ge> length arr
                  then arr @ replicate (unat pos + 5000 - length arr) None else arr)
      in arr1[unat pos := Some a])"

record Items =
  is_items :: "ItemType option list"
  is_reverse :: "int \<rightharpoonup> int"
  is_dwMajorVersion :: u32
  is_dwMinorVersion :: u32
  is_dwBuildNumber :: u32

definition new_Items :: Items where
  "new_Items = \<lparr>is_items = replicate 8000 None, is_reverse = Map.empty,
     is_dwMajorVersion = 0, is_dwMinorVersion = 0, is_dwBuildNumber = 0\<rparr>"

definition getItemType :: "Items \<Rightarrow> int \<Rightarrow> ItemType" where
  "getItemType st i = (case getElement (word_of_int i) (is_items st) of Some it \<Rightarrow> it | None \<Rightarrow> new_ItemType)"

text \<open>The searches by client id and by name run over the occupied entries from 100 and end at
  the first empty one. Ids have 16 bits, so the array and the \<open>uint32_t\<close> counter stay small. The
  name comparison (\<^verbatim>\<open>boost::algorithm::iequals\<close>) ignores case.\<close>

function search_from :: "(ItemType \<Rightarrow> bool) \<Rightarrow> nat \<Rightarrow> ItemType option list \<Rightarrow> (nat \<times> ItemType) option" where
  "search_from p i arr =
     (if i < length arr
      then (case arr ! i of
              None \<Rightarrow> None
            | Some it \<Rightarrow> if p it then Some (i, it) else search_from p (i + 1) arr)
      else None)"
  by pat_completeness auto
termination by (relation "measure (\<lambda>(p, i, arr). length arr - i)") auto

declare search_from.simps [simp del]

definition getItemIdByClientId :: "Items \<Rightarrow> int \<Rightarrow> ItemType" where
  "getItemIdByClientId st spriteId =
     (case search_from (\<lambda>it. uint (it_clientId it) = spriteId) 100 (is_items st) of
        Some (_, it) \<Rightarrow> it | None \<Rightarrow> new_ItemType)"

definition lower :: "char \<Rightarrow> char" where
  "lower c = (let n = of_char c :: nat in if 65 \<le> n \<and> n \<le> 90 then char_of (n + 32) else c)"

definition iequals :: "string \<Rightarrow> string \<Rightarrow> bool" where
  "iequals a b \<longleftrightarrow> map lower a = map lower b"

definition getItemIdByName :: "Items \<Rightarrow> string \<Rightarrow> int" where
  "getItemIdByName st name =
     (if name = [] then -1
      else case search_from (\<lambda>it. iequals name (it_name it)) 100 (is_items st) of
          Some (i, _) \<Rightarrow> int i | None \<Rightarrow> -1)"

section \<open>Loading the binary item file\<close>

definition hasBitSet :: "u32 \<Rightarrow> u32 \<Rightarrow> bool" where
  "hasBitSet flag flags \<longleftrightarrow> flags AND flag = flag"

text \<open>The version block of the root. \<open>None\<close> is \<^verbatim>\<open>ERROR_INVALID_FORMAT\<close>.\<close>

definition load_version :: "PropStream \<Rightarrow> Items \<Rightarrow> Items option" where
  "load_version props st = do {
     (flags, s1) \<leftarrow> GET_UINT32 props;
     (attr, s2) \<leftarrow> GET_UINT8 s1;
     if attr = 1 then do {
       (datalen, s3) \<leftarrow> GET_UINT16 s2;
       if datalen \<noteq> 140 then None
       else do {
         (major, s4) \<leftarrow> GET_UINT32 s3;
         (minor, s5) \<leftarrow> GET_UINT32 s4;
         (build, s6) \<leftarrow> GET_UINT32 s5;
         (csd, s7) \<leftarrow> GET_RAWSTRING 128 s6;
         Some (st\<lparr>is_dwMajorVersion := major, is_dwMinorVersion := minor, is_dwBuildNumber := build\<rparr>)
       }
     } else Some st
   }"

definition load_group :: "int \<Rightarrow> ItemType \<Rightarrow> ItemType option" where
  "load_group ty it =
     (if ty = ITEM_GROUP_CONTAINER then Some (it\<lparr>it_type := ITEM_TYPE_CONTAINER\<rparr>)
      else if ty = ITEM_GROUP_DOOR then Some (it\<lparr>it_type := ITEM_TYPE_DOOR\<rparr>)
      else if ty = ITEM_GROUP_MAGICFIELD then Some (it\<lparr>it_type := ITEM_TYPE_MAGICFIELD\<rparr>)
      else if ty = ITEM_GROUP_TELEPORT then Some (it\<lparr>it_type := ITEM_TYPE_TELEPORT\<rparr>)
      else if ty \<in> {ITEM_GROUP_NONE, ITEM_GROUP_GROUND, ITEM_GROUP_RUNE, ITEM_GROUP_SPLASH, ITEM_GROUP_FLUID}
      then Some it
      else None)"

definition load_flags :: "u32 \<Rightarrow> ItemType \<Rightarrow> ItemType" where
  "load_flags flags it = it\<lparr>
     it_blockSolid := hasBitSet 1 flags,
     it_blockProjectile := hasBitSet 2 flags,
     it_blockPathFind := hasBitSet 4 flags,
     it_hasHeight := hasBitSet 8 flags,
     it_useable := hasBitSet 16 flags,
     it_pickupable := hasBitSet 32 flags,
     it_moveable := hasBitSet 64 flags,
     it_stackable := hasBitSet 128 flags,
     it_floorChangeDown := hasBitSet 256 flags,
     it_floorChangeNorth := hasBitSet 512 flags,
     it_floorChangeEast := hasBitSet 1024 flags,
     it_floorChangeSouth := hasBitSet 2048 flags,
     it_floorChangeWest := hasBitSet 4096 flags,
     it_alwaysOnTop := hasBitSet 8192 flags,
     it_isVertical := hasBitSet 131072 flags,
     it_isHorizontal := hasBitSet 262144 flags,
     it_isHangable := hasBitSet 65536 flags,
     it_allowDistRead := hasBitSet 1048576 flags,
     it_rotable := hasBitSet 32768 flags,
     it_canReadText := (if hasBitSet 16384 flags then True else it_canReadText it)\<rparr>"

abbreviation ITEM_ATTR_SERVERID :: u8 where "ITEM_ATTR_SERVERID \<equiv> 0x10"
abbreviation ITEM_ATTR_CLIENTID :: u8 where "ITEM_ATTR_CLIENTID \<equiv> 0x11"
abbreviation ITEM_ATTR_SPEED :: u8 where "ITEM_ATTR_SPEED \<equiv> 0x14"
abbreviation ITEM_ATTR_LIGHT2 :: u8 where "ITEM_ATTR_LIGHT2 \<equiv> 0x2A"
abbreviation ITEM_ATTR_TOPORDER :: u8 where "ITEM_ATTR_TOPORDER \<equiv> 0x2B"

text \<open>One attribute: its length, then its value. The length passed to \<^verbatim>\<open>SKIP_N\<close> is not
  negative, so skipping is always defined.\<close>

definition load_attr :: "u8 \<Rightarrow> PropStream \<Rightarrow> ItemType \<Rightarrow> (ItemType \<times> PropStream) option" where
  "load_attr attrib s it = do {
     (datalen, s1) \<leftarrow> GET_UINT16 s;
     if attrib = ITEM_ATTR_SERVERID then
       if datalen \<noteq> 2 then None
       else do {
         (serverid, s2) \<leftarrow> GET_UINT16 s1;
         if serverid > 20000 then None else Some (it\<lparr>it_id := serverid\<rparr>, s2)
       }
     else if attrib = ITEM_ATTR_CLIENTID then
       if datalen \<noteq> 2 then None
       else do { (clientid, s2) \<leftarrow> GET_UINT16 s1; Some (it\<lparr>it_clientId := clientid\<rparr>, s2) }
     else if attrib = ITEM_ATTR_SPEED then
       if datalen \<noteq> 2 then None
       else do { (speed, s2) \<leftarrow> GET_UINT16 s1; Some (it\<lparr>it_speed := speed\<rparr>, s2) }
     else if attrib = ITEM_ATTR_LIGHT2 then
       if datalen \<noteq> 4 then None
       else do {
         (level, s2) \<leftarrow> GET_UINT16 s1;
         (color, s3) \<leftarrow> GET_UINT16 s2;
         Some (it\<lparr>it_lightLevel := uint level, it_lightColor := uint color\<rparr>, s3)
       }
     else if attrib = ITEM_ATTR_TOPORDER then
       if datalen \<noteq> 1 then None
       else do { (v, s2) \<leftarrow> GET_UINT8 s1; Some (it\<lparr>it_alwaysOnTopOrder := uint v\<rparr>, s2) }
     else (case SKIP_N (uint datalen) s1 of Some (Some s2) \<Rightarrow> Some (it, s2) | _ \<Rightarrow> None)
   }"

lemma load_attr_size:
  assumes "load_attr attrib s it = Some (it', s')" "0 \<le> ps_size s"
  shows "ps_size s' < ps_size s"
  using assms(1)
  by (auto simp: load_attr_def Let_def split: bind_splits if_splits option.splits prod.splits
      dest!: GET_UINT16_size GET_UINT8_size SKIP_N_size)

function load_attrs :: "PropStream \<Rightarrow> ItemType \<Rightarrow> ItemType option" where
  "load_attrs s it =
     (case GET_UINT8 s of
        None \<Rightarrow> Some it
      | Some (attrib, s1) \<Rightarrow>
          (case load_attr attrib s1 it of None \<Rightarrow> None | Some (it1, s2) \<Rightarrow> load_attrs s2 it1))"
  by pat_completeness auto
termination
  by (relation "measure (\<lambda>(s, it). nat (ps_size s))")
    (auto dest!: GET_UINT8_size load_attr_size)

declare load_attrs.simps [simp del]

definition load_item :: "int \<Rightarrow> PropStream \<Rightarrow> ItemType option" where
  "load_item ty props = do {
     it \<leftarrow> load_group ty (new_ItemType\<lparr>it_group := ty\<rparr>);
     (flags, s1) \<leftarrow> GET_UINT32 props;
     load_attrs s1 (load_flags flags it)
   }"

definition store_item :: "ItemType \<Rightarrow> Items \<Rightarrow> Items" where
  "store_item it st = st\<lparr>is_reverse := (is_reverse st)(uint (it_clientId it) \<mapsto> uint (it_id it)),
     is_items := addElement it (ucast (it_id it)) (is_items st)\<rparr>"

fun load_items :: "NodeStruct option \<Rightarrow> FileLoader \<Rightarrow> Items \<Rightarrow> (FILELOADER_ERRORS \<times> Items) option" where
  "load_items None f st = Some (ERROR_NONE, st)"
| "load_items (Some (NodeStruct start psize ty child nxt)) f st =
     (case getProps_stream (NodeStruct start psize ty child nxt) f of
        None \<Rightarrow> None
      | Some ((False, _), f1) \<Rightarrow> Some (fl_lastError f1, st)
      | Some ((True, props), f1) \<Rightarrow>
          (case load_item ty props of
             None \<Rightarrow> Some (ERROR_INVALID_FORMAT, st)
           | Some it \<Rightarrow> load_items nxt f1 (store_item it st)))"

definition loadFromOtb :: "u8 list \<Rightarrow> Items \<Rightarrow> (FILELOADER_ERRORS \<times> Items) option" where
  "loadFromOtb file_bytes st =
     (case openFile True file_bytes of
        None \<Rightarrow> None
      | Some (None, f) \<Rightarrow> Some (fl_lastError f, st)
      | Some (Some rootn, f) \<Rightarrow>
          (case getProps_stream rootn f of
             None \<Rightarrow> None
           | Some ((ok, props), f1) \<Rightarrow>
               (case (if ok then load_version props st else Some st) of
                  None \<Rightarrow> Some (ERROR_INVALID_FORMAT, st)
                | Some st1 \<Rightarrow>
                    if is_dwMajorVersion st1 \<noteq> 1 then Some (ERROR_INVALID_FORMAT, st1)
                    else load_items (n_child rootn) f1 st1)))"

section \<open>Lookups\<close>

interpretation type_table: lookup_store getElement "\<lambda>k v. addElement v k" "\<lambda>_. True" "\<lambda>_. True"
  by unfold_locales (auto simp: getElement_def addElement_def Let_def nth_append word_unat_eq_iff)

definition found_at :: "(ItemType \<Rightarrow> bool) \<Rightarrow> nat \<Rightarrow> ItemType option list \<Rightarrow> nat \<Rightarrow> ItemType \<Rightarrow> bool" where
  "found_at p i arr j it \<longleftrightarrow> i \<le> j \<and> j < length arr \<and> arr ! j = Some it \<and> p it \<and>
     (\<forall>k. i \<le> k \<and> k < j \<longrightarrow> (\<exists>it'. arr ! k = Some it' \<and> \<not> p it'))"

lemma found_at_here: "found_at p i arr j it \<Longrightarrow> arr ! i = Some x \<Longrightarrow> p x \<Longrightarrow> i = j"
  unfolding found_at_def by (metis le_neq_implies_less order_refl option.inject)

lemma found_at_gap: "found_at p i arr j it \<Longrightarrow> arr ! i \<noteq> None"
  unfolding found_at_def by (metis le_neq_implies_less order_refl option.distinct(1))

lemma found_at_Suc:
  "arr ! i = Some x \<Longrightarrow> \<not> p x \<Longrightarrow> found_at p i arr j it \<longleftrightarrow> found_at p (i + 1) arr j it"
  unfolding found_at_def
  by (metis Suc_eq_plus1 Suc_leD le_neq_implies_less less_eq_Suc_le option.inject)

lemma search_from_spec: "search_from p i arr = Some (j, it) \<longleftrightarrow> found_at p i arr j it"
proof (induction p i arr rule: search_from.induct)
  case (1 p i arr)
  consider "i \<ge> length arr" | "i < length arr" "arr ! i = None"
    | x where "i < length arr" "arr ! i = Some x" "p x"
    | x where "i < length arr" "arr ! i = Some x" "\<not> p x" by fastforce
  then show ?case
  proof cases
    case 1
    then show ?thesis by (subst search_from.simps) (auto simp: found_at_def)
  next
    case 2
    have "search_from p i arr = None" using 2 by (subst search_from.simps) simp
    with found_at_gap 2 show ?thesis by fastforce
  next
    case 3
    then have "search_from p i arr = Some (i, x)" by (subst search_from.simps) simp
    moreover have "found_at p i arr i x" using 3 by (auto simp: found_at_def)
    moreover have "it = x" if "found_at p i arr i it" using that 3 by (simp add: found_at_def)
    ultimately show ?thesis using found_at_here 3 by fastforce
  next
    case 4
    have "search_from p i arr = search_from p (i + 1) arr"
      using 4 by (subst search_from.simps) simp
    with "1" [OF 4] found_at_Suc [of arr i x p] 4 show ?thesis by simp
  qed
qed

text \<open>
  The search by client id returns a type with that client id exactly when one stands in
  the run of occupied ids that starts at 100 (then the first of them); a type behind the first
  unused id is never found and the default type is returned.
\<close>
theorem getItemIdByClientId_spec:
  "(\<forall>j it. 100 \<le> j \<and> j < length (is_items st) \<and> is_items st ! j = Some it \<and> uint (it_clientId it) = c \<and>
      (\<forall>k. 100 \<le> k \<and> k < j \<longrightarrow> (\<exists>it'. is_items st ! k = Some it' \<and> uint (it_clientId it') \<noteq> c))
      \<longrightarrow> getItemIdByClientId st c = it) \<and>
   ((\<exists>g. 100 \<le> g \<and> g < length (is_items st) \<and> is_items st ! g = None \<and>
      (\<forall>k it. 100 \<le> k \<and> k < g \<and> is_items st ! k = Some it \<longrightarrow> uint (it_clientId it) \<noteq> c))
      \<longrightarrow> getItemIdByClientId st c = new_ItemType)"
proof (intro conjI allI impI)
  fix j it
  assume "100 \<le> j \<and> j < length (is_items st) \<and> is_items st ! j = Some it \<and> uint (it_clientId it) = c \<and>
      (\<forall>k. 100 \<le> k \<and> k < j \<longrightarrow> (\<exists>it'. is_items st ! k = Some it' \<and> uint (it_clientId it') \<noteq> c))"
  then have "search_from (\<lambda>it. uint (it_clientId it) = c) 100 (is_items st) = Some (j, it)"
    by (simp add: search_from_spec found_at_def)
  then show "getItemIdByClientId st c = it" by (simp add: getItemIdByClientId_def)
next
  assume "\<exists>g. 100 \<le> g \<and> g < length (is_items st) \<and> is_items st ! g = None \<and>
      (\<forall>k it. 100 \<le> k \<and> k < g \<and> is_items st ! k = Some it \<longrightarrow> uint (it_clientId it) \<noteq> c)"
  then obtain g where g: "100 \<le> g" "g < length (is_items st)" "is_items st ! g = None"
    "\<And>k it. 100 \<le> k \<Longrightarrow> k < g \<Longrightarrow> is_items st ! k = Some it \<Longrightarrow> uint (it_clientId it) \<noteq> c" by blast
  have "search_from (\<lambda>it. uint (it_clientId it) = c) 100 (is_items st) \<noteq> Some (j, it)" for j it
    using g by (auto simp: search_from_spec found_at_def) (metis linorder_neqE_nat option.distinct(1))
  then have "search_from (\<lambda>it. uint (it_clientId it) = c) 100 (is_items st) = None"
    by (cases "search_from (\<lambda>it. uint (it_clientId it) = c) 100 (is_items st)") auto
  then show "getItemIdByClientId st c = new_ItemType" by (simp add: getItemIdByClientId_def)
qed

theorem getItemIdByClientId_spec_witness:
  "getItemIdByClientId (new_Items\<lparr>is_items := replicate 100 None @
      [Some (new_ItemType\<lparr>it_clientId := 3\<rparr>), None, Some (new_ItemType\<lparr>it_clientId := 7\<rparr>)]\<rparr>) 7 = new_ItemType"
proof (rule getItemIdByClientId_spec [THEN conjunct2, THEN mp], rule exI [of _ 101], intro conjI allI impI)
  fix k it
  let ?st = "new_Items\<lparr>is_items := replicate 100 None @
      [Some (new_ItemType\<lparr>it_clientId := 3\<rparr>), None, Some (new_ItemType\<lparr>it_clientId := 7\<rparr>)]\<rparr>"
  assume "100 \<le> k \<and> k < 101 \<and> is_items ?st ! k = Some it"
  moreover from this have "k = 100" by simp
  ultimately show "uint (it_clientId it) \<noteq> 7" by (auto simp: nth_append)
qed (simp_all add: nth_append)

section \<open>The layout of an item file\<close>

datatype otb_attr = ServerId u16 | ClientId u16 | Speed u16 | Light u16 u16 | TopOrder u8
  | OtherAttr u8 "u8 list"

fun enc_attr :: "otb_attr \<Rightarrow> u8 list" where
  "enc_attr (ServerId v) = ITEM_ATTR_SERVERID # le_bytes 2 (2 :: u16) @ le_bytes 2 v"
| "enc_attr (ClientId v) = ITEM_ATTR_CLIENTID # le_bytes 2 (2 :: u16) @ le_bytes 2 v"
| "enc_attr (Speed v) = ITEM_ATTR_SPEED # le_bytes 2 (2 :: u16) @ le_bytes 2 v"
| "enc_attr (Light l c) = ITEM_ATTR_LIGHT2 # le_bytes 2 (4 :: u16) @ le_bytes 2 l @ le_bytes 2 c"
| "enc_attr (TopOrder v) = ITEM_ATTR_TOPORDER # le_bytes 2 (1 :: u16) @ [v]"
| "enc_attr (OtherAttr a bs) = a # le_bytes 2 (word_of_nat (length bs) :: u16) @ bs"

fun attr_ok :: "otb_attr \<Rightarrow> bool" where
  "attr_ok (ServerId v) = (v \<le> 20000)"
| "attr_ok (OtherAttr a bs) = (length bs < 65536 \<and>
     a \<notin> {ITEM_ATTR_SERVERID, ITEM_ATTR_CLIENTID, ITEM_ATTR_SPEED, ITEM_ATTR_LIGHT2, ITEM_ATTR_TOPORDER})"
| "attr_ok _ = True"

fun apply_attr :: "otb_attr \<Rightarrow> ItemType \<Rightarrow> ItemType" where
  "apply_attr (ServerId v) it = it\<lparr>it_id := v\<rparr>"
| "apply_attr (ClientId v) it = it\<lparr>it_clientId := v\<rparr>"
| "apply_attr (Speed v) it = it\<lparr>it_speed := v\<rparr>"
| "apply_attr (Light l c) it = it\<lparr>it_lightLevel := uint l, it_lightColor := uint c\<rparr>"
| "apply_attr (TopOrder v) it = it\<lparr>it_alwaysOnTopOrder := uint v\<rparr>"
| "apply_attr (OtherAttr a bs) it = it"

lemma load_attr_enc:
  assumes "attr_ok a" "ps_wf s" "ps_rest s = enc_attr a @ r"
  shows "\<exists>b s1 s2. GET_UINT8 s = Some (b, s1) \<and> load_attr b s1 it = Some (apply_attr a it, s2) \<and>
    ps_rest s2 = r \<and> ps_wf s2"
proof (cases a)
  case (ServerId v)
  with assms GET_UINT8_Cons [of s ITEM_ATTR_SERVERID "le_bytes 2 (2 :: u16) @ le_bytes 2 v @ r"] obtain s1 where
    s1: "GET_UINT8 s = Some (ITEM_ATTR_SERVERID, s1)" "ps_rest s1 = le_bytes 2 (2 :: u16) @ le_bytes 2 v @ r" "ps_wf s1"
    by auto
  from GET_UINT16_append [OF s1(3,2)] obtain s2 where
    s2: "GET_UINT16 s1 = Some (2, s2)" "ps_rest s2 = le_bytes 2 v @ r" "ps_wf s2" by blast
  from GET_UINT16_append [OF s2(3,2)] s1 s2 ServerId assms(1) show ?thesis
    by (auto simp: load_attr_def not_less)
next
  case (ClientId v)
  with assms GET_UINT8_Cons [of s ITEM_ATTR_CLIENTID "le_bytes 2 (2 :: u16) @ le_bytes 2 v @ r"] obtain s1 where
    s1: "GET_UINT8 s = Some (ITEM_ATTR_CLIENTID, s1)" "ps_rest s1 = le_bytes 2 (2 :: u16) @ le_bytes 2 v @ r" "ps_wf s1"
    by auto
  from GET_UINT16_append [OF s1(3,2)] obtain s2 where
    s2: "GET_UINT16 s1 = Some (2, s2)" "ps_rest s2 = le_bytes 2 v @ r" "ps_wf s2" by blast
  from GET_UINT16_append [OF s2(3,2)] s1 s2 ClientId show ?thesis
    by (auto simp: load_attr_def)
next
  case (Speed v)
  with assms GET_UINT8_Cons [of s ITEM_ATTR_SPEED "le_bytes 2 (2 :: u16) @ le_bytes 2 v @ r"] obtain s1 where
    s1: "GET_UINT8 s = Some (ITEM_ATTR_SPEED, s1)" "ps_rest s1 = le_bytes 2 (2 :: u16) @ le_bytes 2 v @ r" "ps_wf s1"
    by auto
  from GET_UINT16_append [OF s1(3,2)] obtain s2 where
    s2: "GET_UINT16 s1 = Some (2, s2)" "ps_rest s2 = le_bytes 2 v @ r" "ps_wf s2" by blast
  from GET_UINT16_append [OF s2(3,2)] s1 s2 Speed show ?thesis
    by (auto simp: load_attr_def)
next
  case (Light l c)
  with assms GET_UINT8_Cons [of s ITEM_ATTR_LIGHT2 "le_bytes 2 (4 :: u16) @ le_bytes 2 l @ le_bytes 2 c @ r"] obtain s1 where
    s1: "GET_UINT8 s = Some (ITEM_ATTR_LIGHT2, s1)" "ps_rest s1 = le_bytes 2 (4 :: u16) @ le_bytes 2 l @ le_bytes 2 c @ r" "ps_wf s1"
    by auto
  from GET_UINT16_append [OF s1(3,2)] obtain s2 where
    s2: "GET_UINT16 s1 = Some (4, s2)" "ps_rest s2 = le_bytes 2 l @ le_bytes 2 c @ r" "ps_wf s2" by blast
  from GET_UINT16_append [OF s2(3,2)] obtain s3 where
    s3: "GET_UINT16 s2 = Some (l, s3)" "ps_rest s3 = le_bytes 2 c @ r" "ps_wf s3" by blast
  from GET_UINT16_append [OF s3(3,2)] s1 s2 s3 Light show ?thesis
    by (auto simp: load_attr_def)
next
  case (TopOrder v)
  with assms GET_UINT8_Cons [of s ITEM_ATTR_TOPORDER "le_bytes 2 (1 :: u16) @ [v] @ r"] obtain s1 where
    s1: "GET_UINT8 s = Some (ITEM_ATTR_TOPORDER, s1)" "ps_rest s1 = le_bytes 2 (1 :: u16) @ [v] @ r" "ps_wf s1"
    by auto
  from GET_UINT16_append [OF s1(3,2)] obtain s2 where
    s2: "GET_UINT16 s1 = Some (1, s2)" "ps_rest s2 = v # r" "ps_wf s2" by auto
  from GET_UINT8_Cons [OF s2(3,2)] s1 s2 TopOrder show ?thesis
    by (auto simp: load_attr_def)
next
  case (OtherAttr b bs)
  let ?n = "word_of_nat (length bs) :: u16"
  from OtherAttr assms GET_UINT8_Cons [of s b "le_bytes 2 ?n @ bs @ r"] obtain s1 where
    s1: "GET_UINT8 s = Some (b, s1)" "ps_rest s1 = le_bytes 2 ?n @ bs @ r" "ps_wf s1"
    by auto
  from GET_UINT16_append [OF s1(3,2)] obtain s2 where
    s2: "GET_UINT16 s1 = Some (?n, s2)" "ps_rest s2 = bs @ r" "ps_wf s2" by blast
  have "unat ?n = length bs" using OtherAttr assms(1) by (intro unat_of_nat_eq) simp
  then have "int (length bs) = uint ?n" by (metis uint_nat)
  from SKIP_N_append [OF s2(3,2) this] s1 s2 OtherAttr assms(1) show ?thesis
    by (auto simp: load_attr_def)
qed

lemma load_attrs_enc:
  "list_all attr_ok as \<Longrightarrow> ps_wf s \<Longrightarrow> ps_rest s = concat (map enc_attr as) \<Longrightarrow>
   load_attrs s it = Some (fold apply_attr as it)"
proof (induction as arbitrary: s it)
  case Nil
  then show ?case by (subst load_attrs.simps) (simp add: GET_UINT8_Nil)
next
  case (Cons a as)
  then have "attr_ok a" "ps_rest s = enc_attr a @ concat (map enc_attr as)" by simp_all
  from load_attr_enc [OF this(1) Cons.prems(2) this(2), of it] obtain b s1 s2 where
    s: "GET_UINT8 s = Some (b, s1)" "load_attr b s1 it = Some (apply_attr a it, s2)"
      "ps_rest s2 = concat (map enc_attr as)" "ps_wf s2" by blast
  with Cons.IH [of s2 "apply_attr a it"] Cons.prems(1) show ?case
    by (subst load_attrs.simps) simp
qed

text \<open>A stored item: its group, flags and attributes; and the root with the version block.\<close>

datatype otb_item = OtbItem (oi_group: u8) (oi_flags: u32) (oi_attrs: "otb_attr list")

fun item_tree :: "otb_item \<Rightarrow> tree" where
  "item_tree (OtbItem g flags attrs) = Tree g (le_bytes 4 flags @ concat (map enc_attr attrs)) []"

text \<open>
  What a stored item means, written down from the flag bits and the groups of
  \<^verbatim>\<open>itemloader.h\<close> and not from the loader: an attribute that is given several times has its last
  value, one that is not given has the value of the constructor.
\<close>

definition last_attr :: "(otb_attr \<Rightarrow> 'a option) \<Rightarrow> 'a \<Rightarrow> otb_attr list \<Rightarrow> 'a" where
  "last_attr sel d attrs = fold (\<lambda>a x. case sel a of Some v \<Rightarrow> v | None \<Rightarrow> x) attrs d"

fun server_id :: "otb_attr \<Rightarrow> u16 option" where
  "server_id (ServerId v) = Some v" | "server_id _ = None"

fun client_id :: "otb_attr \<Rightarrow> u16 option" where
  "client_id (ClientId v) = Some v" | "client_id _ = None"

fun speed_of :: "otb_attr \<Rightarrow> u16 option" where
  "speed_of (Speed v) = Some v" | "speed_of _ = None"

fun light_level :: "otb_attr \<Rightarrow> int option" where
  "light_level (Light l c) = Some (uint l)" | "light_level _ = None"

fun light_color :: "otb_attr \<Rightarrow> int option" where
  "light_color (Light l c) = Some (uint c)" | "light_color _ = None"

fun top_order :: "otb_attr \<Rightarrow> int option" where
  "top_order (TopOrder v) = Some (uint v)" | "top_order _ = None"

fun described_type :: "otb_item \<Rightarrow> ItemType" where
  "described_type (OtbItem g flags attrs) = new_ItemType\<lparr>
     it_group := uint g,
     it_type := (case map_of [(2 :: int, ITEM_TYPE_CONTAINER), (7, ITEM_TYPE_TELEPORT),
         (8, ITEM_TYPE_MAGICFIELD), (13, ITEM_TYPE_DOOR)] (uint g) of Some t \<Rightarrow> t | None \<Rightarrow> ITEM_TYPE_NONE),
     it_id := last_attr server_id 0 attrs,
     it_clientId := last_attr client_id 0 attrs,
     it_speed := last_attr speed_of 0 attrs,
     it_lightLevel := last_attr light_level 0 attrs,
     it_lightColor := last_attr light_color 0 attrs,
     it_alwaysOnTopOrder := last_attr top_order 0 attrs,
     it_blockSolid := bit flags 0, it_blockProjectile := bit flags 1, it_blockPathFind := bit flags 2,
     it_hasHeight := bit flags 3, it_useable := bit flags 4, it_pickupable := bit flags 5,
     it_moveable := bit flags 6, it_stackable := bit flags 7,
     it_floorChangeDown := bit flags 8, it_floorChangeNorth := bit flags 9,
     it_floorChangeEast := bit flags 10, it_floorChangeSouth := bit flags 11,
     it_floorChangeWest := bit flags 12, it_alwaysOnTop := bit flags 13,
     it_canReadText := bit flags 14, it_rotable := bit flags 15, it_isHangable := bit flags 16,
     it_isVertical := bit flags 17, it_isHorizontal := bit flags 18, it_allowDistRead := bit flags 20\<rparr>"

fun item_ok :: "otb_item \<Rightarrow> bool" where
  "item_ok (OtbItem g flags attrs) \<longleftrightarrow> uint g \<in> {0, 1, 2, 6, 7, 8, 11, 12, 13} \<and> list_all attr_ok attrs \<and>
     length (escape (le_bytes 4 flags @ concat (map enc_attr attrs))) \<le> 2048"

definition otb_tree :: "u32 \<Rightarrow> u32 \<Rightarrow> u8 list \<Rightarrow> otb_item list \<Rightarrow> tree" where
  "otb_tree minor build csd items =
     Tree 0 (le_bytes 4 (0 :: u32) @ [1] @ le_bytes 2 (140 :: u16) @ le_bytes 4 (1 :: u32) @
       le_bytes 4 minor @ le_bytes 4 build @ csd) (map item_tree items)"

lemma escape_append: "escape (xs @ ys) = escape xs @ escape ys"
  by (induction xs) auto

lemma load_version_enc:
  assumes "length csd = 128"
  shows "load_version (ps_init (le_bytes 4 (0 :: u32) @ [1] @ le_bytes 2 (140 :: u16) @ le_bytes 4 (1 :: u32) @
       le_bytes 4 minor @ le_bytes 4 build @ csd)) st =
    Some (st\<lparr>is_dwMajorVersion := 1, is_dwMinorVersion := minor, is_dwBuildNumber := build\<rparr>)"
proof -
  let ?r4 = "csd @ []" let ?r3 = "le_bytes 4 build @ ?r4" let ?r2 = "le_bytes 4 minor @ ?r3"
  let ?r1 = "le_bytes 4 (1 :: u32) @ ?r2" let ?r0 = "le_bytes 2 (140 :: u16) @ ?r1"
  define s where "s = ps_init (le_bytes 4 (0 :: u32) @ [1] @ ?r0)"
  have "ps_wf s" "ps_rest s = le_bytes 4 (0 :: u32) @ 1 # ?r0" by (simp_all add: s_def)
  from GET_UINT32_append [OF this] obtain s1 where
    s1: "GET_UINT32 s = Some (0, s1)" "ps_rest s1 = 1 # ?r0" "ps_wf s1" by blast
  from GET_UINT8_Cons [OF s1(3,2)] obtain s2 where
    s2: "GET_UINT8 s1 = Some (1, s2)" "ps_rest s2 = ?r0" "ps_wf s2" by blast
  from GET_UINT16_append [OF s2(3,2)] obtain s3 where
    s3: "GET_UINT16 s2 = Some (140, s3)" "ps_rest s3 = ?r1" "ps_wf s3" by blast
  from GET_UINT32_append [OF s3(3,2)] obtain s4 where
    s4: "GET_UINT32 s3 = Some (1, s4)" "ps_rest s4 = ?r2" "ps_wf s4" by blast
  from GET_UINT32_append [OF s4(3,2)] obtain s5 where
    s5: "GET_UINT32 s4 = Some (minor, s5)" "ps_rest s5 = ?r3" "ps_wf s5" by blast
  from GET_UINT32_append [OF s5(3,2)] obtain s6 where
    s6: "GET_UINT32 s5 = Some (build, s6)" "ps_rest s6 = ?r4" "ps_wf s6" by blast
  from GET_RAWSTRING_append [OF s6(3,2) assms] obtain s7 where
    s7: "GET_RAWSTRING 128 s6 = Some (csd, s7)" by blast
  have "load_version s st = Some (st\<lparr>is_dwMajorVersion := 1, is_dwMinorVersion := minor, is_dwBuildNumber := build\<rparr>)"
    using s1 s2 s3 s4 s5 s6 s7 by (simp add: load_version_def)
  then show ?thesis by (simp add: s_def)
qed

lemma hasBitSet_bit: "hasBitSet (2 ^ n) flags \<longleftrightarrow> bit flags n" if "n < 32"
proof -
  have "flags AND 2 ^ n = (if bit flags n then 2 ^ n else 0)"
    by (rule bit_word_eqI) (auto simp: bit_and_iff bit_exp_iff)
  moreover have "(2 :: u32) ^ n \<noteq> 0" using that by simp
  ultimately show ?thesis by (simp add: hasBitSet_def)
qed

lemmas flag_bits = hasBitSet_bit [of 0] hasBitSet_bit [of 1] hasBitSet_bit [of 2] hasBitSet_bit [of 3]
  hasBitSet_bit [of 4] hasBitSet_bit [of 5] hasBitSet_bit [of 6] hasBitSet_bit [of 7] hasBitSet_bit [of 8]
  hasBitSet_bit [of 9] hasBitSet_bit [of 10] hasBitSet_bit [of 11] hasBitSet_bit [of 12] hasBitSet_bit [of 13]
  hasBitSet_bit [of 14] hasBitSet_bit [of 15] hasBitSet_bit [of 16] hasBitSet_bit [of 17] hasBitSet_bit [of 18]
  hasBitSet_bit [of 20]

text \<open>The attributes one after the other leave the last value of each.\<close>

lemma apply_attrs:
  "fold apply_attr attrs it = it\<lparr>
     it_id := last_attr server_id (it_id it) attrs,
     it_clientId := last_attr client_id (it_clientId it) attrs,
     it_speed := last_attr speed_of (it_speed it) attrs,
     it_lightLevel := last_attr light_level (it_lightLevel it) attrs,
     it_lightColor := last_attr light_color (it_lightColor it) attrs,
     it_alwaysOnTopOrder := last_attr top_order (it_alwaysOnTopOrder it) attrs\<rparr>"
proof (induction attrs arbitrary: it)
  case Nil
  then show ?case by (simp add: last_attr_def)
next
  case (Cons a attrs)
  then show ?case by (cases a) (simp_all add: last_attr_def)
qed

lemma load_item_described:
  assumes "item_ok (OtbItem g flags attrs)"
    "load_group (uint g) (new_ItemType\<lparr>it_group := uint g\<rparr>) = Some it"
  shows "fold apply_attr attrs (load_flags flags it) = described_type (OtbItem g flags attrs)"
  using assms(2)
  by (auto simp: apply_attrs load_group_def load_flags_def flag_bits [simplified] new_ItemType_def split: if_splits)

lemma load_item_enc:
  assumes "item_ok (OtbItem g flags attrs)"
  shows "load_item (uint g) (ps_init (le_bytes 4 flags @ concat (map enc_attr attrs))) =
    Some (described_type (OtbItem g flags attrs))"
proof -
  let ?s = "ps_init (le_bytes 4 flags @ concat (map enc_attr attrs))"
  have "ps_wf ?s" "ps_rest ?s = le_bytes 4 flags @ concat (map enc_attr attrs)" by simp_all
  from GET_UINT32_append [OF this] obtain s1 where
    s1: "GET_UINT32 ?s = Some (flags, s1)" "ps_rest s1 = concat (map enc_attr attrs)" "ps_wf s1" by blast
  have "load_group (uint g) it \<noteq> None" for it
    using assms by (auto simp: load_group_def)
  then obtain it where it: "load_group (uint g) (new_ItemType\<lparr>it_group := uint g\<rparr>) = Some it" by blast
  have "list_all attr_ok attrs" using assms by simp
  from load_attrs_enc [OF this s1(3,2)] it s1(1) load_item_described [OF assms it] show ?thesis
    by (simp add: load_item_def del: described_type.simps)
qed

lemma getProps_stream_stored:
  assumes "cache_inv bytes st" "1024 \<le> fl_buffer_size st" "0 \<le> off"
    "drop (nat (off + 2)) bytes = escape ps @ rest" "rest \<noteq> []" "length (escape ps) \<le> 2048"
  shows "\<exists>st'. getProps_stream (NodeStruct off (int (length (escape ps))) ty c nx) st = Some ((True, ps_init ps), st') \<and>
    cache_inv bytes st' \<and> 1024 \<le> fl_buffer_size st'"
  using getProps_stored [OF assms, of ty c nx] by (auto simp: getProps_stream_def)

lemma plain_group: "uint g \<in> {0, 1, 2, 6, 7, 8, 11, 12, 13} \<Longrightarrow> plain_type g"
  by (auto simp: plain_type_def)

text \<open>The loader's walk over the items stored at an offset.\<close>

lemma load_items_stored:
  assumes "list_all item_ok items" "cache_inv bytes f" "1024 \<le> fl_buffer_size f" "0 \<le> off"
    "drop (nat off) bytes = enc_trees (map item_tree items) @ rest"
  shows "load_items (mk_chain off (map item_tree items)) f st =
    Some (ERROR_NONE, fold store_item (map described_type items) st)"
  using assms
proof (induction items arbitrary: f off st)
  case Nil
  then show ?case by simp
next
  case (Cons i items)
  obtain g flags attrs where i: "i = OtbItem g flags attrs" by (cases i)
  let ?ps = "le_bytes 4 flags @ concat (map enc_attr attrs)" and ?ts = "map item_tree items"
  let ?e = "int (length (escape ?ps))"
  have ok: "item_ok (OtbItem g flags attrs)" "list_all item_ok items" using Cons.prems(1) i by simp_all
  then have g: "escape [g] = [g]" "length (escape ?ps) \<le> 2048" using plain_group [of g] by (auto simp: plain_type_def)
  have n: "nat (off + 2) = 2 + nat off" "nat (off + 3 + ?e) = 1 + length (escape ?ps) + nat (off + 2)"
    using Cons.prems(4) by linarith+
  have d1: "drop (nat (off + 2)) bytes = escape ?ps @ NODE_END # enc_trees ?ts @ rest"
    unfolding n(1) drop_drop [symmetric] Cons.prems(5) i using g(1) by simp
  have d2: "drop (nat (off + 3 + ?e)) bytes = enc_trees ?ts @ rest"
    unfolding n(2) drop_drop [symmetric] d1 by simp
  obtain f1 where f1: "getProps_stream (NodeStruct off ?e (uint g) None (mk_chain (off + 3 + ?e) ?ts)) f =
      Some ((True, ps_init ?ps), f1)" "cache_inv bytes f1" "1024 \<le> fl_buffer_size f1"
    using getProps_stream_stored [OF Cons.prems(2,3,4) d1 _ g(2)] by blast
  have "load_items (mk_chain (off + 3 + ?e) ?ts) f1 (store_item (described_type i) st) =
      Some (ERROR_NONE, fold store_item (map described_type items) (store_item (described_type i) st))"
    using Cons.IH [OF ok(2) f1(2,3) _ d2] Cons.prems(4) by simp
  with f1(1) load_item_enc [OF ok(1)] i show ?case by simp
qed

text \<open>
  After the items of a file are stored, looking an id up gives the last item of the file with
  that id, and otherwise what the table held before; the same holds of the client ids.
\<close>

lemma map_of_find: "map_of (map (\<lambda>x. (key x, val x)) xs) k = map_option val (find (\<lambda>x. key x = k) xs)"
  by (induction xs) auto

lemma find_append: "find p (xs @ ys) = (case find p xs of Some x \<Rightarrow> Some x | None \<Rightarrow> find p ys)"
  by (induction xs) auto

lemma stored_items_lookup:
  "getElement i (is_items (fold store_item its st)) =
     (case find (\<lambda>it. uint (it_id it) = uint i) (rev its) of
        Some it \<Rightarrow> Some it | None \<Rightarrow> getElement i (is_items st))"
proof -
  have "is_items (fold store_item its st) = type_table.put_all (map (\<lambda>it. (ucast (it_id it), it)) its) (is_items st)"
    by (induction its arbitrary: st) (simp_all add: store_item_def)
  moreover have keys: "(\<lambda>it. uint (it_id it) = uint i) = (\<lambda>it. ucast (it_id it) = i)"
    by (auto simp: fun_eq_iff word_uint_eq_iff uint_up_ucast is_up)
  ultimately show ?thesis unfolding keys
    using type_table.lookup_put_all [where s = "is_items st" and kvs = "map (\<lambda>it. (ucast (it_id it), it)) its" and k = i]
    by (simp add: list_all_iff rev_map map_of_find split: option.splits)
qed

lemma stored_items_reverse:
  "is_reverse (fold store_item its st) c =
     (case find (\<lambda>it. uint (it_clientId it) = c) (rev its) of
        Some it \<Rightarrow> Some (uint (it_id it)) | None \<Rightarrow> is_reverse st c)"
proof (induction its arbitrary: st)
  case (Cons it its)
  then show ?case by (auto simp: store_item_def find_append split: option.splits)
qed simp

lemma stored_items_versions:
  "is_dwMajorVersion (fold store_item its st) = is_dwMajorVersion st"
  "is_dwMinorVersion (fold store_item its st) = is_dwMinorVersion st"
  "is_dwBuildNumber (fold store_item its st) = is_dwBuildNumber st"
  by (induction its arbitrary: st) (simp_all add: store_item_def)

text \<open>The run of the whole loader on a written file.\<close>

lemma loadFromOtb_stores:
  assumes "list_all item_ok items" "length csd = 128"
    "length (escape (le_bytes 4 minor @ le_bytes 4 build @ csd)) \<le> 2000"
    "length (enc_trees [otb_tree minor build csd items]) + 4 \<le> room"
  shows "loadFromOtb (fo_bytes (write_trees [otb_tree minor build csd items] (openFile_write room))) st =
    Some (ERROR_NONE, fold store_item (map described_type items)
      (st\<lparr>is_dwMajorVersion := 1, is_dwMinorVersion := minor, is_dwBuildNumber := build\<rparr>))"
proof -
  define ps where "ps = le_bytes 4 (0 :: u32) @ [1] @ le_bytes 2 (140 :: u16) @ le_bytes 4 (1 :: u32) @
       le_bytes 4 minor @ le_bytes 4 build @ csd"
  let ?kids = "map item_tree items" and ?bytes = "[0, 0, 0, 0] @ enc_trees [otb_tree minor build csd items]"
  let ?e = "int (length (escape ps))"
  have tree: "otb_tree minor build csd items = Tree 0 ps ?kids" by (simp add: otb_tree_def ps_def)
  have plain: "plain_trees ?kids" using assms(1)
  proof (induction items)
    case (Cons i xs)
    then show ?case by (cases i) (simp add: plain_group)
  qed simp
  then have plain1: "plain_trees [otb_tree minor build csd items]" by (simp add: tree plain_type_def)
  have "length (escape (le_bytes 4 (0 :: u32) @ [1] @ le_bytes 2 (140 :: u16) @ le_bytes 4 (1 :: u32))) = 11"
    by code_simp
  then have small: "length (escape ps) \<le> 2048"
    using assms(3) by (simp add: ps_def escape_append del: le_bytes.simps)
  from open_written [OF plain1 assms(4), of True] obtain rootn f where
    f: "openFile True (fo_bytes (write_trees [otb_tree minor build csd items] (openFile_write room))) = Some (Some rootn, f)"
      "mk_chain 4 [otb_tree minor build csd items] = Some rootn" "cache_inv ?bytes f" "fl_buffer_size f = 1024" by blast
  have rootn: "rootn = NodeStruct 4 ?e 0 (mk_chain (6 + ?e) ?kids) None" using f(2) by (simp add: tree)
  have d1: "drop (nat (4 + 2)) ?bytes = escape ps @ enc_trees ?kids @ [NODE_END]" by (simp add: tree)
  have n: "nat (6 + ?e) = length (escape ps) + nat (4 + 2)" by simp
  have d2: "drop (nat (6 + ?e)) ?bytes = enc_trees ?kids @ [NODE_END]"
    unfolding n drop_drop [symmetric] d1 by simp
  have b: "1024 \<le> fl_buffer_size f" using f(4) by simp
  obtain f1 where f1: "getProps_stream rootn f = Some ((True, ps_init ps), f1)" "cache_inv ?bytes f1" "1024 \<le> fl_buffer_size f1"
    using getProps_stream_stored [OF f(3) b _ d1 _ small] that unfolding rootn by auto
  let ?st1 = "st\<lparr>is_dwMajorVersion := 1, is_dwMinorVersion := minor, is_dwBuildNumber := build\<rparr>"
  have v: "load_version (ps_init ps) st = Some ?st1"
    using load_version_enc [OF assms(2)] by (simp add: ps_def)
  have "load_items (n_child rootn) f1 ?st1 = Some (ERROR_NONE, fold store_item (map described_type items) ?st1)"
    using load_items_stored [OF assms(1) f1(2,3) _ d2] rootn by simp
  with f(1) f1(1) v show ?thesis by (simp add: loadFromOtb_def)
qed

text \<open>
  C34. End to end: a file that holds a version-1 root and one node per item, written by the
  node writer, is loaded without error. The versions are those of the root. The entry of every id is
  the type that the last item of the file with that id describes, each of its flags the bit
  \<^verbatim>\<open>itemloader.h\<close> assigns to it, its kind the one of its group, its id, client id, speed, light and
  order the last its attributes give (unknown attributes are skipped); an id no item has
  keeps its old entry, and the table from client ids to ids is filled in the same way. The loader
  is the one compiled without \<^verbatim>\<open>__PROTOCOL_76__\<close>; the other accepts version 2 in place of 1.
\<close>
theorem loadFromOtb_loads:
  assumes "list_all item_ok items" "length csd = 128"
    "length (escape (le_bytes 4 minor @ le_bytes 4 build @ csd)) \<le> 2000"
    "length (enc_trees [otb_tree minor build csd items]) + 4 \<le> room"
  shows "\<exists>st'. loadFromOtb (fo_bytes (write_trees [otb_tree minor build csd items] (openFile_write room))) st =
      Some (ERROR_NONE, st') \<and>
    is_dwMajorVersion st' = 1 \<and> is_dwMinorVersion st' = minor \<and> is_dwBuildNumber st' = build \<and>
    (\<forall>i. getElement i (is_items st') =
       (case find (\<lambda>it. uint (it_id it) = uint i) (rev (map described_type items)) of
          Some it \<Rightarrow> Some it | None \<Rightarrow> getElement i (is_items st))) \<and>
    (\<forall>c. is_reverse st' c =
       (case find (\<lambda>it. uint (it_clientId it) = c) (rev (map described_type items)) of
          Some it \<Rightarrow> Some (uint (it_id it)) | None \<Rightarrow> is_reverse st c))"
  by (intro exI conjI allI, rule loadFromOtb_stores [OF assms])
    (simp_all add: stored_items_lookup stored_items_reverse stored_items_versions split: option.split)

text \<open>Two items with one id: a moveable bag that blocks and does not stop projectiles, and a door whose
  description replaces it.\<close>

definition bag_item :: otb_item where
  "bag_item = OtbItem 2 0x61 [ServerId 101, ClientId 7, TopOrder 2, OtherAttr 0x12 [65]]"

definition door_item :: otb_item where
  "door_item = OtbItem 13 0x4002 [ServerId 100, ServerId 102, ClientId 8, Light 5 9, Speed 3]"

theorem loadFromOtb_loads_witness:
  "\<exists>st'. loadFromOtb (fo_bytes (write_trees [otb_tree 3 9 (replicate 128 0) [bag_item, door_item]]
        (openFile_write 1000))) new_Items = Some (ERROR_NONE, st') \<and>
     getElement 101 (is_items st') = Some (new_ItemType\<lparr>it_group := 2, it_type := ITEM_TYPE_CONTAINER,
       it_id := 101, it_clientId := 7, it_alwaysOnTopOrder := 2, it_blockSolid := True,
       it_pickupable := True, it_moveable := True, it_floorChangeDown := False\<rparr>) \<and>
     getElement 102 (is_items st') = Some (new_ItemType\<lparr>it_group := 13, it_type := ITEM_TYPE_DOOR,
       it_id := 102, it_clientId := 8, it_lightLevel := 5, it_lightColor := 9, it_speed := 3,
       it_blockProjectile := True, it_canReadText := True, it_moveable := False, it_floorChangeDown := False\<rparr>) \<and>
     is_reverse st' 8 = Some 102"
proof -
  let ?items = "[bag_item, door_item]"
  have "list_all item_ok ?items" by code_simp
  moreover have "length (escape (le_bytes 4 (3 :: u32) @ le_bytes 4 (9 :: u32) @ replicate 128 0)) \<le> 2000" by code_simp
  moreover have "length (enc_trees [otb_tree 3 9 (replicate 128 0) ?items]) + 4 \<le> 1000" by code_simp
  ultimately obtain st' where st': "loadFromOtb (fo_bytes (write_trees [otb_tree 3 9 (replicate 128 0) ?items]
        (openFile_write 1000))) new_Items = Some (ERROR_NONE, st')"
      "\<And>i. getElement i (is_items st') =
       (case find (\<lambda>it. uint (it_id it) = uint i) (rev (map described_type ?items)) of
          Some it \<Rightarrow> Some it | None \<Rightarrow> getElement i (is_items new_Items))"
      "\<And>c. is_reverse st' c =
       (case find (\<lambda>it. uint (it_clientId it) = c) (rev (map described_type ?items)) of
          Some it \<Rightarrow> Some (uint (it_id it)) | None \<Rightarrow> is_reverse new_Items c)"
    using loadFromOtb_loads [of ?items "replicate 128 0" 3 9 1000 new_Items] by auto
  show ?thesis
    by (rule exI [of _ st'], rule conjI [OF st'(1)])
      (simp add: st'(2,3) bag_item_def door_item_def last_attr_def new_ItemType_def)
qed

text \<open>
  A truncated item file is reported as loaded: for a file cut inside its first node the
  parser fails without setting an error, so the loader returns \<open>ERROR_NONE\<close>, which its caller
  takes for success, and stores nothing.
\<close>
theorem truncated_otb_reported_loaded:
  "loadFromOtb [0, 0, 0, 0, 0xFE, 0, 1, 2] st = Some (ERROR_NONE, st)"
proof -
  have "(case openFile True [0, 0, 0, 0, 0xFE, 0, 1, 2] of Some (None, f) \<Rightarrow> fl_lastError f = ERROR_NONE | _ \<Rightarrow> False)"
    by code_simp
  then show ?thesis by (auto simp: loadFromOtb_def split: option.splits)
qed

section \<open>Absorption\<close>

text \<open>
  \<^verbatim>\<open>Abilities::Absorb::reduce\<close>: the percentages of the table scale the damage one after the
  other, each rounded up. The product fits a \<open>double\<close> exactly and a quotient by 100 cannot
  round to an integer, so the rounding is that of the integers. \<open>None\<close> is an index outside
  the nine resistances.
\<close>

definition ceil_pct :: "int \<Rightarrow> int \<Rightarrow> int" where
  "ceil_pct dmg r = - ((- (dmg * (100 - r))) div 100)"

fun reduce_from :: "nat \<Rightarrow> nat \<Rightarrow> int list \<Rightarrow> u32 \<Rightarrow> bool \<times> int \<Rightarrow> (bool \<times> int) option" where
  "reduce_from 0 c res ctype acc = Some acc"
| "reduce_from (Suc n) c res ctype (r, dmg) =
     (if ctype AND push_bit c 1 \<noteq> 0
      then (if c + 1 < length res
            then reduce_from n (c + 1) res ctype (r \<or> res ! (c + 1) > 0, ceil_pct dmg (res ! (c + 1)))
            else None)
      else reduce_from n (c + 1) res ctype (r, dmg))"

definition absorb_reduce :: "int list \<Rightarrow> u32 \<Rightarrow> int \<Rightarrow> (bool \<times> int) option" where
  "absorb_reduce res ctype dmg =
     (let acc = (if res ! 0 > 0 then (True, ceil_pct dmg (res ! 0)) else (False, dmg))
      in if ctype = 0 then Some acc else reduce_from 9 0 res ctype acc)"

lemma ceil_pct_bounds: "0 \<le> dmg \<Longrightarrow> 0 \<le> r \<Longrightarrow> r \<le> 100 \<Longrightarrow> 0 \<le> ceil_pct dmg r \<and> ceil_pct dmg r \<le> dmg"
proof -
  assume a: "0 \<le> dmg" "0 \<le> r" "r \<le> 100"
  then have "0 \<le> dmg * (100 - r)" "dmg * (100 - r) \<le> dmg * 100"
    by (simp_all add: mult_left_mono)
  then show ?thesis unfolding ceil_pct_def by linarith
qed

lemma reduce_from_bounds:
  "length res = 9 \<Longrightarrow> list_all (\<lambda>r. 0 \<le> r \<and> r \<le> 100) res \<Longrightarrow> 0 \<le> dmg \<Longrightarrow> n + c = 9 \<Longrightarrow> ctype < 256 \<Longrightarrow>
   \<exists>b d. reduce_from n c res ctype (a, dmg) = Some (b, d) \<and> 0 \<le> d \<and> d \<le> dmg"
proof (induction n arbitrary: c a dmg)
  case 0
  then show ?case by simp
next
  case (Suc n)
  show ?case
  proof (cases "ctype AND push_bit c 1 \<noteq> 0")
    case False
    with Suc show ?thesis by simp
  next
    case True
    have "c \<noteq> 8"
    proof
      assume "c = 8"
      have "unat ctype < 2 ^ 8" using Suc.prems(5) by (simp add: word_less_nat_alt)
      then have "take_bit 8 (unat ctype) = unat ctype" by (simp add: take_bit_nat_eq_self)
      then have "\<not> bit (unat ctype) 8" by (metis bit_take_bit_iff less_irrefl)
      then have "\<not> bit ctype 8" by (simp add: bit_unsigned_iff)
      then have "ctype AND 2 ^ 8 = 0" by (simp only: and_exp_eq_0_iff_not_bit not_False_eq_True)
      with True \<open>c = 8\<close> show False by simp
    qed
    then have c: "c + 1 < length res" using Suc.prems by simp
    then have "0 \<le> res ! (c + 1)" "res ! (c + 1) \<le> 100" using Suc.prems(2) by (auto simp: list_all_length)
    note b = ceil_pct_bounds [OF Suc.prems(3) this]
    from Suc.IH [of "ceil_pct dmg (res ! (c + 1))" "c + 1" "a \<or> res ! (c + 1) > 0"] Suc.prems b
    obtain b' d where "reduce_from n (c + 1) res ctype (a \<or> res ! (c + 1) > 0, ceil_pct dmg (res ! (c + 1))) = Some (b', d)"
      "0 \<le> d" "d \<le> ceil_pct dmg (res ! (c + 1))" by auto
    with True c b show ?thesis by simp
  qed
qed

text \<open>
  For every combination of the server's damage types (bits below 256) and resistances between 0 and 100,
  absorbing stays inside the resistance table and leaves a damage between 0 and the damage
  dealt.
\<close>
theorem absorb_reduce_bounds:
  assumes "length res = 9" "list_all (\<lambda>r. 0 \<le> r \<and> r \<le> 100) res" "0 \<le> dmg" "ctype < 256"
  shows "\<exists>b d. absorb_reduce res ctype dmg = Some (b, d) \<and> 0 \<le> d \<and> d \<le> dmg"
proof -
  have "0 \<le> res ! 0" "res ! 0 \<le> 100" using assms(1,2) by (auto simp: list_all_length)
  note b = ceil_pct_bounds [OF assms(3) this]
  show ?thesis
    using reduce_from_bounds [OF assms(1,2) _ _ assms(4), of "ceil_pct dmg (res ! 0)" 9 0 True]
      reduce_from_bounds [OF assms(1,2,3) _ assms(4), of 9 0 False] assms(3) b
    by (auto simp: absorb_reduce_def Let_def simp del: reduce_from.simps)
qed

theorem absorb_reduce_bounds_witness:
  "\<exists>b d. absorb_reduce [10, 20, 0, 0, 50, 0, 0, 0, 100] 9 150 = Some (b, d) \<and> 0 \<le> d \<and> d \<le> 150"
  by (rule absorb_reduce_bounds) simp_all

end
