(* ===== verification/ItemAttrs.thy ===== *)
theory ItemAttrs
  imports Prelude
begin

text \<open>
  The attributes of an item (\<^verbatim>\<open>Source/ItemAttributes.h\<close>, \<^verbatim>\<open>Source/ItemAttributes.cpp\<close>): a list
  of typed values and a word of flags that says which types are present. A failing
  \<^verbatim>\<open>assert\<close>, and reading or assigning the wrong member of the value union, are \<open>None\<close>.
\<close>

datatype ItemDecayState_t = DECAYING_FALSE | DECAYING_TRUE | DECAYING_PENDING

type_synonym ItemAttrType = u16

abbreviation ATTR_ITEM_ACTIONID :: ItemAttrType where "ATTR_ITEM_ACTIONID \<equiv> 0x01"
abbreviation ATTR_ITEM_UNIQUEID :: ItemAttrType where "ATTR_ITEM_UNIQUEID \<equiv> 0x02"
abbreviation ATTR_ITEM_DESC :: ItemAttrType where "ATTR_ITEM_DESC \<equiv> 0x04"
abbreviation ATTR_ITEM_TEXT :: ItemAttrType where "ATTR_ITEM_TEXT \<equiv> 0x08"
abbreviation ATTR_ITEM_WRITTENBY :: ItemAttrType where "ATTR_ITEM_WRITTENBY \<equiv> 0x10"
abbreviation ATTR_ITEM_OWNER :: ItemAttrType where "ATTR_ITEM_OWNER \<equiv> 0x20"
abbreviation ATTR_ITEM_DURATION :: ItemAttrType where "ATTR_ITEM_DURATION \<equiv> 0x40"
abbreviation ATTR_ITEM_DECAYING :: ItemAttrType where "ATTR_ITEM_DECAYING \<equiv> 0x80"
abbreviation ATTR_ITEM_CHARGES :: ItemAttrType where "ATTR_ITEM_CHARGES \<equiv> 0x100"
abbreviation ATTR_ITEM_FLUIDTYPE :: ItemAttrType where "ATTR_ITEM_FLUIDTYPE \<equiv> 0x200"
abbreviation ATTR_ITEM_DOORID :: ItemAttrType where "ATTR_ITEM_DOORID \<equiv> 0x300"

text \<open>The union of an attribute, with the member that is live.\<close>

datatype attr_value = AInteger int | AString "u8 list"

record ItemAttributes =
  m_attributes :: "(ItemAttrType \<times> attr_value) list"
  m_attrFlags :: u16

definition new_ItemAttributes :: ItemAttributes where
  "new_ItemAttributes = \<lparr>m_attributes = [], m_attrFlags = 0\<rparr>"

text \<open>The copy constructor copies the list only.\<close>

definition copy_ItemAttributes :: "ItemAttributes \<Rightarrow> ItemAttributes" where
  "copy_ItemAttributes other = \<lparr>m_attributes = m_attributes other, m_attrFlags = 0\<rparr>"

definition validateIntAttrType :: "ItemAttrType \<Rightarrow> bool" where
  "validateIntAttrType ty \<longleftrightarrow> ty \<in> {ATTR_ITEM_ACTIONID, ATTR_ITEM_UNIQUEID, ATTR_ITEM_OWNER, ATTR_ITEM_DURATION,
     ATTR_ITEM_DECAYING, ATTR_ITEM_CHARGES, ATTR_ITEM_FLUIDTYPE, ATTR_ITEM_DOORID}"

definition validateStrAttrType :: "ItemAttrType \<Rightarrow> bool" where
  "validateStrAttrType ty \<longleftrightarrow> ty \<in> {ATTR_ITEM_DESC, ATTR_ITEM_TEXT, ATTR_ITEM_WRITTENBY}"

definition hasAttribute :: "ItemAttrType \<Rightarrow> ItemAttributes \<Rightarrow> bool" where
  "hasAttribute ty a \<longleftrightarrow> m_attrFlags a AND ty \<noteq> 0"

definition getAttr :: "ItemAttrType \<Rightarrow> ItemAttributes \<Rightarrow> attr_value option" where
  "getAttr ty a = map_of (m_attributes a) ty"

definition getStrAttr :: "ItemAttrType \<Rightarrow> ItemAttributes \<Rightarrow> u8 list option" where
  "getStrAttr ty a =
     (if m_attrFlags a AND ty = 0 then Some []
      else case getAttr ty a of None \<Rightarrow> Some [] | Some (AString s) \<Rightarrow> Some s | Some (AInteger _) \<Rightarrow> None)"

text \<open>The result is an \<^verbatim>\<open>int32_t\<close> returned as \<^verbatim>\<open>uint32_t\<close>.\<close>

definition getIntAttr :: "ItemAttrType \<Rightarrow> ItemAttributes \<Rightarrow> u32 option" where
  "getIntAttr ty a =
     (if \<not> validateIntAttrType ty then None
      else case getAttr ty a of None \<Rightarrow> Some 0 | Some (AInteger i) \<Rightarrow> Some (word_of_int i) | Some (AString _) \<Rightarrow> None)"

text \<open>Storing at the first attribute of a type.\<close>

fun update_attr :: "ItemAttrType \<Rightarrow> attr_value \<Rightarrow> (ItemAttrType \<times> attr_value) list \<Rightarrow> (ItemAttrType \<times> attr_value) list" where
  "update_attr ty v [] = []"
| "update_attr ty v ((t, w) # as) = (if t = ty then (t, v) # as else (t, w) # update_attr ty v as)"

definition addAttr :: "ItemAttrType \<Rightarrow> attr_value \<Rightarrow> ItemAttributes \<Rightarrow> ItemAttributes option" where
  "addAttr ty v a =
     (if m_attrFlags a AND ty \<noteq> 0 then None
      else Some \<lparr>m_attributes = m_attributes a @ [(ty, v)], m_attrFlags = m_attrFlags a OR ty\<rparr>)"

text \<open>
  \<^verbatim>\<open>setStrAttr\<close>. When the flag is set and no attribute of the type is in the list, the code
  assigns to the string member of a fresh union whose string was never constructed: \<open>None\<close>.
\<close>

definition setStrAttr :: "ItemAttrType \<Rightarrow> u8 list \<Rightarrow> ItemAttributes \<Rightarrow> ItemAttributes option" where
  "setStrAttr ty val a =
     (if \<not> (validateStrAttrType ty \<and> length val > 0) then None
      else if m_attrFlags a AND ty \<noteq> 0
      then (case getAttr ty a of
              Some (AString _) \<Rightarrow> Some (a\<lparr>m_attributes := update_attr ty (AString val) (m_attributes a)\<rparr>)
            | _ \<Rightarrow> None)
      else Some a)"

definition removeAttribute :: "ItemAttrType \<Rightarrow> ItemAttributes \<Rightarrow> ItemAttributes" where
  "removeAttribute ty a =
     (if m_attrFlags a AND ty \<noteq> 0
      then \<lparr>m_attributes = filter (\<lambda>(t, _). t \<noteq> ty) (m_attributes a), m_attrFlags = m_attrFlags a AND NOT ty\<rparr>
      else a)"

definition setIntAttr :: "ItemAttrType \<Rightarrow> int \<Rightarrow> ItemAttributes \<Rightarrow> ItemAttributes option" where
  "setIntAttr ty val a =
     (if \<not> validateIntAttrType ty then None
      else case getAttr ty a of
          None \<Rightarrow> Some a
        | Some (AString _) \<Rightarrow> None
        | Some (AInteger _) \<Rightarrow> Some (a\<lparr>m_attributes := update_attr ty (AInteger val) (m_attributes a)\<rparr>))"

text \<open>Adding is on \<^verbatim>\<open>int32_t\<close>: an overflow is undefined.\<close>

definition increaseIntAttr :: "ItemAttrType \<Rightarrow> int \<Rightarrow> ItemAttributes \<Rightarrow> ItemAttributes option" where
  "increaseIntAttr ty val a =
     (if \<not> validateIntAttrType ty then None
      else case getAttr ty a of
          None \<Rightarrow> Some a
        | Some (AString _) \<Rightarrow> None
        | Some (AInteger i) \<Rightarrow>
            if - (2 ^ 31) \<le> i + val \<and> i + val < 2 ^ 31
            then Some (a\<lparr>m_attributes := update_attr ty (AInteger (i + val)) (m_attributes a)\<rparr>)
            else None)"

section \<open>The public accessors\<close>

definition getSpecialDescription :: "ItemAttributes \<Rightarrow> u8 list option" where
  "getSpecialDescription a = getStrAttr ATTR_ITEM_DESC a"
definition getText :: "ItemAttributes \<Rightarrow> u8 list option" where "getText a = getStrAttr ATTR_ITEM_TEXT a"
definition getWriter :: "ItemAttributes \<Rightarrow> u8 list option" where "getWriter a = getStrAttr ATTR_ITEM_WRITTENBY a"
definition getActionId :: "ItemAttributes \<Rightarrow> u16 option" where "getActionId a = map_option ucast (getIntAttr ATTR_ITEM_ACTIONID a)"
definition getUniqueId :: "ItemAttributes \<Rightarrow> u16 option" where "getUniqueId a = map_option ucast (getIntAttr ATTR_ITEM_UNIQUEID a)"
definition getCharges :: "ItemAttributes \<Rightarrow> u16 option" where "getCharges a = map_option ucast (getIntAttr ATTR_ITEM_CHARGES a)"
definition getFluidType :: "ItemAttributes \<Rightarrow> u16 option" where "getFluidType a = map_option ucast (getIntAttr ATTR_ITEM_FLUIDTYPE a)"
definition getOwner :: "ItemAttributes \<Rightarrow> u32 option" where "getOwner a = getIntAttr ATTR_ITEM_OWNER a"
definition getDuration :: "ItemAttributes \<Rightarrow> int option" where "getDuration a = map_option sint (getIntAttr ATTR_ITEM_DURATION a)"
definition getDecaying :: "ItemAttributes \<Rightarrow> u32 option" where "getDecaying a = getIntAttr ATTR_ITEM_DECAYING a"

fun decay_number :: "ItemDecayState_t \<Rightarrow> int" where
  "decay_number DECAYING_FALSE = 0"
| "decay_number DECAYING_TRUE = 1"
| "decay_number DECAYING_PENDING = 2"

definition setSpecialDescription :: "u8 list \<Rightarrow> ItemAttributes \<Rightarrow> ItemAttributes option" where
  "setSpecialDescription d a = setStrAttr ATTR_ITEM_DESC d a"
definition setText :: "u8 list \<Rightarrow> ItemAttributes \<Rightarrow> ItemAttributes option" where "setText t a = setStrAttr ATTR_ITEM_TEXT t a"
definition setWriter :: "u8 list \<Rightarrow> ItemAttributes \<Rightarrow> ItemAttributes option" where "setWriter w a = setStrAttr ATTR_ITEM_WRITTENBY w a"
definition setActionId :: "u16 \<Rightarrow> ItemAttributes \<Rightarrow> ItemAttributes option" where
  "setActionId n a = setIntAttr ATTR_ITEM_ACTIONID (uint (if n < 100 then 100 else n)) a"
definition setUniqueIdAttr :: "u16 \<Rightarrow> ItemAttributes \<Rightarrow> ItemAttributes option" where
  "setUniqueIdAttr n a = setIntAttr ATTR_ITEM_UNIQUEID (uint (if n < 1000 then 1000 else n)) a"
definition setCharges :: "u16 \<Rightarrow> ItemAttributes \<Rightarrow> ItemAttributes option" where "setCharges n a = setIntAttr ATTR_ITEM_CHARGES (uint n) a"
definition setFluidType :: "u16 \<Rightarrow> ItemAttributes \<Rightarrow> ItemAttributes option" where "setFluidType n a = setIntAttr ATTR_ITEM_FLUIDTYPE (uint n) a"
definition setOwner :: "u32 \<Rightarrow> ItemAttributes \<Rightarrow> ItemAttributes option" where "setOwner n a = setIntAttr ATTR_ITEM_OWNER (sint n) a"
definition setDuration :: "int \<Rightarrow> ItemAttributes \<Rightarrow> ItemAttributes option" where "setDuration t a = setIntAttr ATTR_ITEM_DURATION t a"
definition decreaseDuration :: "int \<Rightarrow> ItemAttributes \<Rightarrow> ItemAttributes option" where
  "decreaseDuration t a = increaseIntAttr ATTR_ITEM_DURATION (- t) a"
definition setDecaying :: "ItemDecayState_t \<Rightarrow> ItemAttributes \<Rightarrow> ItemAttributes option" where
  "setDecaying d a = setIntAttr ATTR_ITEM_DECAYING (decay_number d) a"
definition resetSpecialDescription :: "ItemAttributes \<Rightarrow> ItemAttributes" where "resetSpecialDescription a = removeAttribute ATTR_ITEM_DESC a"
definition resetText :: "ItemAttributes \<Rightarrow> ItemAttributes" where "resetText a = removeAttribute ATTR_ITEM_TEXT a"
definition resetWriter :: "ItemAttributes \<Rightarrow> ItemAttributes" where "resetWriter a = removeAttribute ATTR_ITEM_WRITTENBY a"

section \<open>What the operations do to an attribute that is present\<close>

lemma update_attr_same: "map_of as ty \<noteq> None \<Longrightarrow> map_of (update_attr ty v as) ty = Some v"
  by (induction as) auto

lemma update_attr_other: "t \<noteq> ty \<Longrightarrow> map_of (update_attr ty v as) t = map_of as t"
  by (induction as) auto

text \<open>
  Storing into an attribute that is present: the value is the one read back (modulo its
  32 bits), every other attribute keeps its value, and the flags do not change. When the attribute is
  absent the store is lost: the attributes stay as they are.
\<close>
theorem setIntAttr_spec:
  assumes "validateIntAttrType ty" "getAttr ty a = Some (AInteger i) \<or> getAttr ty a = None"
  shows "\<exists>a'. setIntAttr ty v a = Some a' \<and> m_attrFlags a' = m_attrFlags a \<and>
    (\<forall>t. t \<noteq> ty \<longrightarrow> getAttr t a' = getAttr t a) \<and>
    (if getAttr ty a = None then a' = a else getIntAttr ty a' = Some (word_of_int v))"
proof (cases "getAttr ty a")
  case None
  with assms(1) show ?thesis by (simp add: setIntAttr_def)
next
  case (Some w)
  with assms have "getAttr ty a = Some (AInteger i)" by auto
  with assms(1) update_attr_same [of "m_attributes a" ty "AInteger v"] update_attr_other [of _ ty "AInteger v" "m_attributes a"]
  show ?thesis by (auto simp: setIntAttr_def getIntAttr_def getAttr_def)
qed

theorem setIntAttr_spec_witness:
  "\<exists>a'. setIntAttr ATTR_ITEM_CHARGES 7 \<lparr>m_attributes = [(ATTR_ITEM_OWNER, AInteger 3), (ATTR_ITEM_CHARGES, AInteger 1)],
      m_attrFlags = 0x120\<rparr> = Some a' \<and> getIntAttr ATTR_ITEM_CHARGES a' = Some 7 \<and>
    getAttr ATTR_ITEM_OWNER a' = Some (AInteger 3)"
  using setIntAttr_spec [of ATTR_ITEM_CHARGES "\<lparr>m_attributes = [(ATTR_ITEM_OWNER, AInteger 3), (ATTR_ITEM_CHARGES, AInteger 1)],
      m_attrFlags = 0x120\<rparr>" 1 7]
  by (auto simp: validateIntAttrType_def getAttr_def)

section \<open>No attribute is ever stored\<close>

datatype attr_op = OpSetDesc "u8 list" | OpSetText "u8 list" | OpSetWriter "u8 list" | OpSetActionId u16
  | OpSetUniqueId u16 | OpSetCharges u16 | OpSetFluidType u16 | OpSetOwner u32 | OpSetDuration int
  | OpDecreaseDuration int | OpSetDecaying ItemDecayState_t | OpResetDesc | OpResetText | OpResetWriter
  | OpRemove ItemAttrType | OpCopy

fun attr_step :: "attr_op \<Rightarrow> ItemAttributes \<Rightarrow> ItemAttributes option" where
  "attr_step (OpSetDesc s) a = setSpecialDescription s a"
| "attr_step (OpSetText s) a = setText s a"
| "attr_step (OpSetWriter s) a = setWriter s a"
| "attr_step (OpSetActionId n) a = setActionId n a"
| "attr_step (OpSetUniqueId n) a = setUniqueIdAttr n a"
| "attr_step (OpSetCharges n) a = setCharges n a"
| "attr_step (OpSetFluidType n) a = setFluidType n a"
| "attr_step (OpSetOwner n) a = setOwner n a"
| "attr_step (OpSetDuration n) a = setDuration n a"
| "attr_step (OpDecreaseDuration n) a = decreaseDuration n a"
| "attr_step (OpSetDecaying d) a = setDecaying d a"
| "attr_step OpResetDesc a = Some (resetSpecialDescription a)"
| "attr_step OpResetText a = Some (resetText a)"
| "attr_step OpResetWriter a = Some (resetWriter a)"
| "attr_step (OpRemove ty) a = Some (removeAttribute ty a)"
| "attr_step OpCopy a = Some (copy_ItemAttributes a)"

fun attr_steps :: "attr_op list \<Rightarrow> ItemAttributes \<Rightarrow> ItemAttributes option" where
  "attr_steps [] a = Some a"
| "attr_steps (x # xs) a = (case attr_step x a of None \<Rightarrow> None | Some a1 \<Rightarrow> attr_steps xs a1)"

text \<open>The calls that pass the assertions: the strings are not empty.\<close>

fun attr_op_ok :: "attr_op \<Rightarrow> bool" where
  "attr_op_ok (OpSetDesc s) = (s \<noteq> [])"
| "attr_op_ok (OpSetText s) = (s \<noteq> [])"
| "attr_op_ok (OpSetWriter s) = (s \<noteq> [])"
| "attr_op_ok _ = True"

named_theorems attr_defs

lemmas [attr_defs] = setSpecialDescription_def setText_def setWriter_def setActionId_def setUniqueIdAttr_def
  setCharges_def setFluidType_def setOwner_def setDuration_def decreaseDuration_def setDecaying_def
  resetSpecialDescription_def resetText_def resetWriter_def removeAttribute_def setStrAttr_def setIntAttr_def
  increaseIntAttr_def copy_ItemAttributes_def validateIntAttrType_def validateStrAttrType_def getAttr_def

lemma attr_step_new: "attr_op_ok x \<Longrightarrow> attr_step x new_ItemAttributes = Some new_ItemAttributes"
  by (cases x) (simp_all add: attr_defs new_ItemAttributes_def)

lemma getters_new:
  "getText new_ItemAttributes = Some []" "getWriter new_ItemAttributes = Some []"
  "getSpecialDescription new_ItemAttributes = Some []"
  "getActionId new_ItemAttributes = Some 0" "getUniqueId new_ItemAttributes = Some 0"
  "getCharges new_ItemAttributes = Some 0" "getFluidType new_ItemAttributes = Some 0"
  "getOwner new_ItemAttributes = Some 0" "getDuration new_ItemAttributes = Some 0"
  "getDecaying new_ItemAttributes = Some 0"
  by (simp_all add: getText_def getWriter_def getSpecialDescription_def getActionId_def getUniqueId_def
      getCharges_def getFluidType_def getOwner_def getDuration_def getDecaying_def getStrAttr_def getIntAttr_def
      attr_defs new_ItemAttributes_def)

text \<open>
  No attribute of an item can ever be stored: starting from the attributes of a new item,
  every sequence of the setters, resets, removals and copies that passes the assertions ends
  in the empty attributes, so every getter returns its default whatever was set.
\<close>
theorem attributes_never_stored:
  assumes "list_all attr_op_ok ops"
  shows "attr_steps ops new_ItemAttributes = Some new_ItemAttributes"
  using assms by (induction ops) (simp_all add: attr_step_new)

theorem attributes_never_stored_witness:
  "attr_steps [OpSetActionId 4711, OpSetText [104, 105], OpSetCharges 5] new_ItemAttributes = Some new_ItemAttributes \<and>
   getActionId new_ItemAttributes = Some 0"
  using attributes_never_stored [of "[OpSetActionId 4711, OpSetText [104, 105], OpSetCharges 5]"]
  by (simp add: getters_new)

text \<open>
  The door id shares its bits with the charges and the fluid type: once either of these
  is present, adding a door id fails its assertion although no door id is present, and
  \<open>hasAttribute\<close> claims one.
\<close>
theorem doorid_bits_overlap:
  "\<exists>a. addAttr ATTR_ITEM_CHARGES (AInteger 5) new_ItemAttributes = Some a \<and>
     getAttr ATTR_ITEM_DOORID a = None \<and> hasAttribute ATTR_ITEM_DOORID a \<and>
     addAttr ATTR_ITEM_DOORID (AInteger 1) a = None"
  by (simp add: addAttr_def new_ItemAttributes_def getAttr_def hasAttribute_def)

end
