(* ===== verification/Positions.thy ===== *)
theory Positions
  imports Prelude
begin

text \<open>
  Map positions (\<^verbatim>\<open>Source/position.h\<close>, \<^verbatim>\<open>Source/position.cpp\<close>): the three unsigned 16-bit
  coordinates, the comparison operators, the range tests and the printed forms. The order
  is the one \<^verbatim>\<open>std::map<Position, ...>\<close> uses for the spectator cache of the map, so
  the type is made an instance of the library's linear orders with exactly that relation.
\<close>

datatype Direction = NORTH | EAST | SOUTH | WEST | SOUTHWEST | SOUTHEAST | NORTHWEST | NORTHEAST

datatype position = Position (px: u16) (py: u16) (pz: u16)

section \<open>Range tests\<close>

text \<open>
  The source computes \<^verbatim>\<open>std::abs(float(p1.x - p2.x))\<close>: the subtraction is on \<^verbatim>\<open>int\<close>
  after promotion and its result, below \<open>2 ^ 16\<close> in magnitude, is exact as a \<^verbatim>\<open>float\<close>.
\<close>

definition coord_diff :: "u16 \<Rightarrow> u16 \<Rightarrow> int" where
  "coord_diff a b = uint a - uint b"

definition areInRange3 :: "int \<Rightarrow> int \<Rightarrow> int \<Rightarrow> position \<Rightarrow> position \<Rightarrow> bool" where
  "areInRange3 deltax deltay deltaz p1 p2 =
     (if \<bar>coord_diff (px p1) (px p2)\<bar> > deltax \<or> \<bar>coord_diff (py p1) (py p2)\<bar> > deltay
         \<or> \<bar>coord_diff (pz p1) (pz p2)\<bar> > deltaz then False else True)"

definition areInRange2 :: "int \<Rightarrow> int \<Rightarrow> position \<Rightarrow> position \<Rightarrow> bool" where
  "areInRange2 deltax deltay p1 p2 =
     (if \<bar>coord_diff (px p1) (px p2)\<bar> > deltax \<or> \<bar>coord_diff (py p1) (py p2)\<bar> > deltay
      then False else True)"

section \<open>Comparison operators\<close>

definition pos_less :: "position \<Rightarrow> position \<Rightarrow> bool" where
  "pos_less s p =
     (if pz s < pz p then True else if pz s > pz p then False
      else if py s < py p then True else if py s > py p then False
      else if px s < px p then True else if px s > px p then False
      else False)"

definition pos_greater :: "position \<Rightarrow> position \<Rightarrow> bool" where
  "pos_greater s p = (\<not> pos_less s p)"

definition pos_eq :: "position \<Rightarrow> position \<Rightarrow> bool" where
  "pos_eq s p = (if px p = px s \<and> py p = py s \<and> pz p = pz s then True else False)"

definition pos_neq :: "position \<Rightarrow> position \<Rightarrow> bool" where
  "pos_neq s p = (if px p = px s \<and> py p = py s \<and> pz p = pz s then False else True)"

definition pos_minus :: "position \<Rightarrow> position \<Rightarrow> position" where
  "pos_minus s p1 = Position (px s - px p1) (py s - py p1) (pz s - pz p1)"

lemma pos_less_lex:
  "pos_less s p \<longleftrightarrow> pz s < pz p \<or> pz s = pz p \<and> (py s < py p \<or> py s = py p \<and> px s < px p)"
  by (auto simp: pos_less_def)

lemma pos_eq_iff [simp]: "pos_eq s p \<longleftrightarrow> s = p"
  by (cases s; cases p) (auto simp: pos_eq_def)

lemma pos_neq_iff [simp]: "pos_neq s p \<longleftrightarrow> s \<noteq> p"
  by (cases s; cases p) (auto simp: pos_neq_def)

instantiation position :: linorder
begin

definition less_position :: "position \<Rightarrow> position \<Rightarrow> bool" where
  "less_position = pos_less"

definition less_eq_position :: "position \<Rightarrow> position \<Rightarrow> bool" where
  "less_eq_position s p = (s = p \<or> pos_less s p)"

instance
proof
  fix s p q :: position
  show "s < p \<longleftrightarrow> s \<le> p \<and> \<not> p \<le> s"
    by (cases s; cases p) (auto simp: less_position_def less_eq_position_def pos_less_lex)
  show "s \<le> s" by (simp add: less_eq_position_def)
  show "s \<le> q" if "s \<le> p" "p \<le> q"
    using that by (auto simp: less_eq_position_def pos_less_lex)
  show "s = p" if "s \<le> p" "p \<le> s"
    using that by (auto simp: less_eq_position_def pos_less_lex)
  show "s \<le> p \<or> p \<le> s"
    by (cases s; cases p) (auto simp: less_eq_position_def pos_less_lex)
qed

end

section \<open>Positions with a stack index\<close>

record PositionEx =
  ex_pos :: position
  stackpos :: int

definition posex_eq :: "PositionEx \<Rightarrow> PositionEx \<Rightarrow> bool" where
  "posex_eq s p =
     (if px (ex_pos p) = px (ex_pos s) \<and> py (ex_pos p) = py (ex_pos s)
         \<and> pz (ex_pos p) = pz (ex_pos s) \<and> stackpos p = stackpos s then True else False)"

definition posex_neq :: "PositionEx \<Rightarrow> PositionEx \<Rightarrow> bool" where
  "posex_neq s p =
     (if px (ex_pos p) = px (ex_pos s) \<and> py (ex_pos p) = py (ex_pos s)
         \<and> pz (ex_pos p) = pz (ex_pos s) \<and> stackpos p \<noteq> stackpos s then False else True)"

section \<open>Printed forms\<close>

fun show_nat :: "nat \<Rightarrow> string" where
  "show_nat n = (if n < 10 then [char_of (48 + n)] else show_nat (n div 10) @ [char_of (48 + n mod 10)])"

declare show_nat.simps [simp del]

definition setw_fill0 :: "nat \<Rightarrow> string \<Rightarrow> string" where
  "setw_fill0 w s = replicate (w - length s) CHR ''0'' @ s"

definition print_position :: "position \<Rightarrow> string" where
  "print_position pos =
     ''( '' @ setw_fill0 5 (show_nat (unat (px pos))) @
     '' / '' @ setw_fill0 5 (show_nat (unat (py pos))) @
     '' / '' @ setw_fill0 3 (show_nat (unat (pz pos))) @ '' )''"

fun print_direction :: "Direction \<Rightarrow> string" where
  "print_direction NORTH = ''North''"
| "print_direction EAST = ''East''"
| "print_direction WEST = ''West''"
| "print_direction SOUTH = ''South''"
| "print_direction SOUTHWEST = ''South-West''"
| "print_direction SOUTHEAST = ''South-East''"
| "print_direction NORTHWEST = ''North-West''"
| "print_direction NORTHEAST = ''North-East''"

section \<open>Properties\<close>

lemma areInRange3_sym: "areInRange3 a b c p q = areInRange3 a b c q p"
  by (auto simp: areInRange3_def coord_diff_def)

lemma areInRange3_imp_2: "areInRange3 a b c p q \<Longrightarrow> areInRange2 a b p q"
  by (auto simp: areInRange3_def areInRange2_def split: if_splits)

lemma pos_minus_self: "pos_minus p p = Position 0 0 0"
  by (simp add: pos_minus_def)

text \<open>
  \<^verbatim>\<open>operator<\<close> of positions is a strict total order, so it is a valid key order for the
  ordered maps the server keeps by position; \<^verbatim>\<open>operator>\<close>, which is written as the
  negation of \<^verbatim>\<open>operator<\<close>, is not its converse: it holds between equal positions.
\<close>
theorem position_order:
  "\<not> pos_less p p \<and> (pos_less p q \<and> pos_less q r \<longrightarrow> pos_less p r) \<and>
   (pos_less p q \<or> p = q \<or> pos_less q p) \<and>
   (pos_greater p q \<longleftrightarrow> pos_less q p \<or> p = q)"
  by (cases p; cases q; cases r) (auto simp: pos_less_lex pos_greater_def)

theorem position_order_witness:
  "pos_less (Position 9 1 7) (Position 3 2 7) \<and> pos_less (Position 3 2 7) (Position 0 0 8)
   \<and> pos_less (Position 9 1 7) (Position 0 0 8)"
proof -
  have "pos_less (Position 9 1 7) (Position 3 2 7)" "pos_less (Position 3 2 7) (Position 0 0 8)"
    by (simp_all add: pos_less_def)
  then show ?thesis
    using position_order [of "Position 9 1 7" "Position 3 2 7" "Position 0 0 8"] by blast
qed

text \<open>
  The inequality of positions with a stack index is not the negation of their equality:
  it holds between a position and itself, and it fails exactly for positions that differ
  in the stack index only.
\<close>
theorem posex_neq_not_negation:
  "posex_neq p p \<and>
   (posex_neq p q \<longleftrightarrow> \<not> (ex_pos p = ex_pos q \<and> stackpos p \<noteq> stackpos q))"
  by (cases "ex_pos p"; cases "ex_pos q") (auto simp: posex_neq_def)

end
