(* ===== verification/NetMsg.thy ===== *)
theory NetMsg
  imports PropStreams Positions
begin

text \<open>
  The message buffer of the network protocol (\<^verbatim>\<open>Source/networkmessage.h\<close>,
  \<^verbatim>\<open>Source/networkmessage.cpp\<close>): a fixed array with one position used for reading and for
  writing, and a length. The reading functions set an overrun flag instead of failing, the
  writing functions drop what does not fit.

  The position and the length are \<open>int32_t\<close> in the source and \<open>int\<close> here; the buffer bounds
  keep them small. An access outside the array is \<open>None\<close>.
\<close>

abbreviation NETWORKMESSAGE_MAXSIZE :: int where "NETWORKMESSAGE_MAXSIZE \<equiv> 16768"

record NetworkMessage =
  m_MsgSize :: int
  m_ReadPos :: int
  m_overrun :: bool
  m_MsgBuf :: "u8 list"

definition Reset :: "NetworkMessage \<Rightarrow> NetworkMessage" where
  "Reset m = m\<lparr>m_overrun := False, m_MsgSize := 0, m_ReadPos := 4\<rparr>"

definition canAdd :: "int \<Rightarrow> NetworkMessage \<Rightarrow> bool" where
  "canAdd n m \<longleftrightarrow> n + m_ReadPos m < NETWORKMESSAGE_MAXSIZE - 16"

definition expectRead :: "int \<Rightarrow> NetworkMessage \<Rightarrow> bool \<times> NetworkMessage" where
  "expectRead n m =
     (if n \<ge> NETWORKMESSAGE_MAXSIZE - m_ReadPos m then (False, m\<lparr>m_overrun := True\<rparr>) else (True, m))"

section \<open>Reading\<close>

definition GetByte :: "NetworkMessage \<Rightarrow> (u8 \<times> NetworkMessage) option" where
  "GetByte m = map_option (\<lambda>bs. (le_value bs, m\<lparr>m_ReadPos := m_ReadPos m + 1\<rparr>))
     (read_at (m_ReadPos m) 1 (m_MsgBuf m))"

definition GetU16 :: "NetworkMessage \<Rightarrow> (u16 \<times> NetworkMessage) option" where
  "GetU16 m =
     (let (ok, m1) = expectRead 2 m in
      if \<not> ok then Some (0, m1)
      else map_option (\<lambda>bs. (le_value bs, m1\<lparr>m_ReadPos := m_ReadPos m1 + 2\<rparr>))
             (read_at (m_ReadPos m1) 2 (m_MsgBuf m1)))"

definition GetU32 :: "NetworkMessage \<Rightarrow> (u32 \<times> NetworkMessage) option" where
  "GetU32 m =
     (let (ok, m1) = expectRead 4 m in
      if \<not> ok then Some (0, m1)
      else map_option (\<lambda>bs. (le_value bs, m1\<lparr>m_ReadPos := m_ReadPos m1 + 4\<rparr>))
             (read_at (m_ReadPos m1) 4 (m_MsgBuf m1)))"

definition PeekU32 :: "NetworkMessage \<Rightarrow> (u32 \<times> NetworkMessage) option" where
  "PeekU32 m =
     (let (ok, m1) = expectRead 4 m in
      if \<not> ok then Some (0, m1)
      else map_option (\<lambda>bs. (le_value bs, m1)) (read_at (m_ReadPos m1) 4 (m_MsgBuf m1)))"

definition GetSpriteId :: "NetworkMessage \<Rightarrow> (u16 \<times> NetworkMessage) option" where
  "GetSpriteId m = GetU16 m"

text \<open>The tail common to \<open>GetString\<close> and \<open>GetRaw\<close>: a string of a given length, or the empty
  one when it cannot lie in the buffer.\<close>

definition get_chars :: "u16 \<Rightarrow> NetworkMessage \<Rightarrow> (u8 list \<times> NetworkMessage) option" where
  "get_chars stringlen m =
     (if uint stringlen \<ge> NETWORKMESSAGE_MAXSIZE - m_ReadPos m then Some ([], m)
      else map_option (\<lambda>bs. (bs, m\<lparr>m_ReadPos := m_ReadPos m + uint stringlen\<rparr>))
             (read_at (m_ReadPos m) (unat stringlen) (m_MsgBuf m)))"

definition GetString :: "NetworkMessage \<Rightarrow> (u8 list \<times> NetworkMessage) option" where
  "GetString m = (case GetU16 m of None \<Rightarrow> None | Some (stringlen, m1) \<Rightarrow> get_chars stringlen m1)"

definition GetRaw :: "NetworkMessage \<Rightarrow> (u8 list \<times> NetworkMessage) option" where
  "GetRaw m = get_chars (word_of_int (m_MsgSize m - m_ReadPos m)) m"

definition GetPosition :: "NetworkMessage \<Rightarrow> (position \<times> NetworkMessage) option" where
  "GetPosition m =
     (case GetU16 m of None \<Rightarrow> None
      | Some (x, m1) \<Rightarrow>
          (case GetU16 m1 of None \<Rightarrow> None
           | Some (y, m2) \<Rightarrow>
               (case GetByte m2 of None \<Rightarrow> None
                | Some (z, m3) \<Rightarrow> Some (Position x y (ucast z), m3))))"

definition SkipBytes :: "int \<Rightarrow> NetworkMessage \<Rightarrow> NetworkMessage" where
  "SkipBytes count m = m\<lparr>m_ReadPos := m_ReadPos m + count\<rparr>"

definition decodeHeader :: "NetworkMessage \<Rightarrow> int" where
  "decodeHeader m = uint (m_MsgBuf m ! 0) OR push_bit 8 (uint (m_MsgBuf m ! 1))"

section \<open>Writing\<close>

text \<open>The store common to the fixed-width additions.\<close>

definition net_append :: "u8 list \<Rightarrow> NetworkMessage \<Rightarrow> NetworkMessage option" where
  "net_append bs m = map_option
     (\<lambda>buf. m\<lparr>m_MsgBuf := buf, m_ReadPos := m_ReadPos m + int (length bs),
              m_MsgSize := m_MsgSize m + int (length bs)\<rparr>)
     (write_at (m_ReadPos m) bs (m_MsgBuf m))"

definition AddByte :: "u8 \<Rightarrow> NetworkMessage \<Rightarrow> NetworkMessage option" where
  "AddByte v m = (if canAdd 1 m then net_append (le_bytes 1 v) m else Some m)"

definition AddU16 :: "u16 \<Rightarrow> NetworkMessage \<Rightarrow> NetworkMessage option" where
  "AddU16 v m = (if canAdd 2 m then net_append (le_bytes 2 v) m else Some m)"

definition AddU32 :: "u32 \<Rightarrow> NetworkMessage \<Rightarrow> NetworkMessage option" where
  "AddU32 v m = (if canAdd 4 m then net_append (le_bytes 4 v) m else Some m)"

text \<open>\<open>strcpy\<close> stores the terminator as well; the next addition overwrites it.\<close>

definition AddString :: "u8 list \<Rightarrow> NetworkMessage \<Rightarrow> NetworkMessage option" where
  "AddString value m =
     (let cstr = takeWhile (\<lambda>c. c \<noteq> 0) value; stringlen = (word_of_nat (length cstr) :: u32) in
      if \<not> canAdd (sint (stringlen + 2)) m \<or> stringlen > 8192 then Some m
      else case AddU16 (ucast stringlen) m of None \<Rightarrow> None
        | Some m1 \<Rightarrow> map_option
            (\<lambda>buf. m1\<lparr>m_MsgBuf := buf, m_ReadPos := m_ReadPos m1 + uint stringlen,
                     m_MsgSize := m_MsgSize m1 + uint stringlen\<rparr>)
            (write_at (m_ReadPos m1) (cstr @ [0]) (m_MsgBuf m1)))"

definition AddBytes :: "u8 list \<Rightarrow> NetworkMessage \<Rightarrow> NetworkMessage option" where
  "AddBytes bytes m =
     (let n = (word_of_nat (length bytes) :: u32) in
      if \<not> canAdd (sint n) m \<or> n > 8192 then Some m else net_append bytes m)"

definition AddPaddingBytes :: "u32 \<Rightarrow> NetworkMessage \<Rightarrow> NetworkMessage option" where
  "AddPaddingBytes n m =
     (if \<not> canAdd (sint n) m then Some m
      else map_option (\<lambda>buf. m\<lparr>m_MsgBuf := buf, m_MsgSize := m_MsgSize m + uint n\<rparr>)
             (write_at (m_ReadPos m) (replicate (unat n) 0x33) (m_MsgBuf m)))"

definition AddPosition :: "position \<Rightarrow> NetworkMessage \<Rightarrow> NetworkMessage option" where
  "AddPosition p m =
     (case AddU16 (px p) m of None \<Rightarrow> None
      | Some m1 \<Rightarrow> (case AddU16 (py p) m1 of None \<Rightarrow> None
                    | Some m2 \<Rightarrow> AddByte (ucast (pz p)) m2))"

section \<open>The buffer as a sink of bytes\<close>

definition net_inv :: "NetworkMessage \<Rightarrow> bool" where
  "net_inv m \<longleftrightarrow> int (length (m_MsgBuf m)) = NETWORKMESSAGE_MAXSIZE \<and> 0 \<le> m_ReadPos m"

definition net_stored :: "NetworkMessage \<Rightarrow> u8 list" where
  "net_stored m = take (nat (m_ReadPos m)) (m_MsgBuf m)"

lemma net_append_ok:
  assumes "net_inv m" "nat (m_ReadPos m) + length bs \<le> 16768"
  shows "\<exists>m'. net_append bs m = Some m' \<and> net_inv m' \<and> net_stored m' = net_stored m @ bs
    \<and> m_ReadPos m' = m_ReadPos m + int (length bs) \<and> m_MsgSize m' = m_MsgSize m + int (length bs)
    \<and> m_overrun m' = m_overrun m"
proof -
  have l: "length (m_MsgBuf m) = 16768" "0 \<le> m_ReadPos m" using assms(1) by (auto simp: net_inv_def)
  have "nat (m_ReadPos m + int (length bs)) = nat (m_ReadPos m) + length bs" using l by linarith
  with l assms(2) show ?thesis
    by (simp add: net_append_def write_at_def net_inv_def net_stored_def)
qed

interpretation net: byte_sink net_append net_stored net_inv "\<lambda>m. nat (m_ReadPos m)" 16752 0
proof
  fix m :: NetworkMessage and bs :: "u8 list"
  assume m: "net_inv m" and b: "nat (m_ReadPos m) + length bs + 0 < 16752"
  then have "nat (m_ReadPos m) + length bs \<le> 16768" by simp
  from net_append_ok [OF m this] m
  show "\<exists>m'. net_append bs m = Some m' \<and> net_inv m' \<and> net_stored m' = net_stored m @ bs \<and>
      nat (m_ReadPos m') \<le> nat (m_ReadPos m) + length bs + 0"
    by (auto simp: net_inv_def)
qed

section \<open>Additions never leave the buffer\<close>

datatype msg_value = MByte u8 | MU16 u16 | MU32 u32 | MString "u8 list" | MBytes "u8 list" | MPosition position

fun msg_add :: "msg_value \<Rightarrow> NetworkMessage \<Rightarrow> NetworkMessage option" where
  "msg_add (MByte v) m = AddByte v m"
| "msg_add (MU16 v) m = AddU16 v m"
| "msg_add (MU32 v) m = AddU32 v m"
| "msg_add (MString s) m = AddString s m"
| "msg_add (MBytes s) m = AddBytes s m"
| "msg_add (MPosition p) m = AddPosition p m"

fun msg_add_all :: "msg_value list \<Rightarrow> NetworkMessage \<Rightarrow> NetworkMessage option" where
  "msg_add_all [] m = Some m"
| "msg_add_all (v # vs) m = (case msg_add v m of None \<Rightarrow> None | Some m1 \<Rightarrow> msg_add_all vs m1)"

text \<open>The bytes of a value on the wire, when it fits.\<close>

fun msg_bytes :: "msg_value \<Rightarrow> u8 list" where
  "msg_bytes (MByte v) = le_bytes 1 v"
| "msg_bytes (MU16 v) = le_bytes 2 v"
| "msg_bytes (MU32 v) = le_bytes 4 v"
| "msg_bytes (MString s) = le_bytes 2 (word_of_nat (length (takeWhile (\<lambda>c. c \<noteq> 0) s)) :: u16) @ takeWhile (\<lambda>c. c \<noteq> 0) s"
| "msg_bytes (MBytes s) = s"
| "msg_bytes (MPosition p) = le_bytes 2 (px p) @ le_bytes 2 (py p) @ le_bytes 1 (ucast (pz p) :: u8)"

text \<open>The lengths the 32-bit \<open>stringlen\<close> can express.\<close>

fun msg_value_ok :: "msg_value \<Rightarrow> bool" where
  "msg_value_ok (MString s) = (length s < 2 ^ 32)"
| "msg_value_ok (MBytes s) = (length s < 2 ^ 32)"
| "msg_value_ok _ = True"

text \<open>A step of the message: either nothing but the buffer's unused part changed, or bytes
  were appended. The read and write position and the length move together.\<close>

definition net_step :: "NetworkMessage \<Rightarrow> u8 list \<Rightarrow> NetworkMessage \<Rightarrow> bool" where
  "net_step m bs m' \<longleftrightarrow> net_inv m' \<and> net_stored m' = net_stored m @ bs \<and>
     m_ReadPos m' = m_ReadPos m + int (length bs) \<and> m_MsgSize m' = m_MsgSize m + int (length bs) \<and>
     m_overrun m' = m_overrun m"

lemma net_step_refl: "net_inv m \<Longrightarrow> net_step m [] m"
  by (simp add: net_step_def)

lemma net_step_trans: "net_step m a m1 \<Longrightarrow> net_step m1 b m2 \<Longrightarrow> net_step m (a @ b) m2"
  by (simp add: net_step_def)

lemma net_step_append:
  "net_inv m \<Longrightarrow> nat (m_ReadPos m) + length bs \<le> 16768 \<Longrightarrow> \<exists>m'. net_append bs m = Some m' \<and> net_step m bs m'"
  using net_append_ok [of m bs] by (auto simp: net_step_def)

text \<open>What the fixed-width additions have in common: the whole layout or nothing.\<close>

lemma net_guarded_append:
  assumes "net_inv m" "length bs = n"
  shows "\<exists>m'. (if canAdd (int n) m then net_append bs m else Some m) = Some m' \<and>
    net_step m (if m_ReadPos m + int n < 16752 then bs else []) m'"
proof (cases "canAdd (int n) m")
  case True
  with assms have "nat (m_ReadPos m) + length bs \<le> 16768" by (auto simp: canAdd_def net_inv_def)
  from net_step_append [OF assms(1) this] True show ?thesis by (auto simp: canAdd_def)
next
  case False
  with assms net_step_refl [of m] show ?thesis by (auto simp: canAdd_def)
qed

lemma AddByte_step:
  "net_inv m \<Longrightarrow> \<exists>m'. AddByte v m = Some m' \<and> net_step m (if m_ReadPos m + 1 < 16752 then le_bytes 1 v else []) m'"
  using net_guarded_append [of m "le_bytes 1 v" 1] by (simp add: AddByte_def del: le_bytes.simps One_nat_def)

lemma AddU16_step:
  "net_inv m \<Longrightarrow> \<exists>m'. AddU16 v m = Some m' \<and> net_step m (if m_ReadPos m + 2 < 16752 then le_bytes 2 v else []) m'"
  using net_guarded_append [of m "le_bytes 2 v" 2] by (simp add: AddU16_def)

lemma AddU32_step:
  "net_inv m \<Longrightarrow> \<exists>m'. AddU32 v m = Some m' \<and> net_step m (if m_ReadPos m + 4 < 16752 then le_bytes 4 v else []) m'"
  using net_guarded_append [of m "le_bytes 4 v" 4] by (simp add: AddU32_def)

lemma small_u32:
  assumes "n < 2 ^ 32" "\<not> (word_of_nat n :: u32) > 8192"
  shows "n \<le> 8192" "uint (word_of_nat n :: u32) = int n" "sint (word_of_nat n :: u32) = int n"
    "sint (word_of_nat n + 2 :: u32) = int n + 2"
proof -
  have u: "unat (word_of_nat n :: u32) = n" using assms(1) by (intro unat_of_nat_eq) simp
  then show n: "n \<le> 8192" using assms(2) by (simp add: word_less_nat_alt)
  from u show ui: "uint (word_of_nat n :: u32) = int n" by (metis uint_nat)
  with n show "sint (word_of_nat n :: u32) = int n" by (simp add: sint_u32)
  have "unat (word_of_nat n + 2 :: u32) = n + 2" using u n by (simp add: unat_word_ariths)
  then have "uint (word_of_nat n + 2 :: u32) = int n + 2" by (simp add: uint_nat)
  with n show "sint (word_of_nat n + 2 :: u32) = int n + 2" by (simp add: sint_u32)
qed

lemma AddBytes_step:
  assumes "net_inv m" "length s < 2 ^ 32"
  shows "\<exists>m'. AddBytes s m = Some m' \<and>
    net_step m (if m_ReadPos m + int (length s) < 16752 \<and> length s \<le> 8192 then s else []) m'"
proof (cases "(word_of_nat (length s) :: u32) > 8192")
  case True
  then have "length s > 8192" using assms(2) by (simp add: word_less_nat_alt unat_of_nat_eq)
  with True net_step_refl [OF assms(1)] show ?thesis by (simp add: AddBytes_def)
next
  case False
  from net_guarded_append [OF assms(1), of s "length s"] small_u32 [OF assms(2) False] False
  show ?thesis by (auto simp: AddBytes_def split: if_splits)
qed

lemma AddString_step:
  assumes inv: "net_inv m" and s: "length s < 2 ^ 32"
  defines "c \<equiv> takeWhile (\<lambda>c. c \<noteq> 0) s"
  shows "\<exists>m'. AddString s m = Some m' \<and>
    net_step m (if m_ReadPos m + int (length c) + 2 < 16752 \<and> length c \<le> 8192
                then msg_bytes (MString s) else []) m'"
proof -
  have cl: "length c < 2 ^ 32" using s length_takeWhile_le [of "\<lambda>c. c \<noteq> 0" s] by (simp add: c_def)
  show ?thesis
  proof (cases "(word_of_nat (length c) :: u32) > 8192")
    case True
    then have "length c > 8192" using cl by (simp add: word_less_nat_alt unat_of_nat_eq)
    with True net_step_refl [OF inv] show ?thesis by (simp add: AddString_def c_def Let_def)
  next
    case False
    note w = small_u32 [OF cl False]
    show ?thesis
    proof (cases "canAdd (int (length c) + 2) m")
      case no: False
      with w net_step_refl [OF inv] show ?thesis
        by (auto simp: AddString_def c_def Let_def canAdd_def)
    next
      case yes: True
      then have room: "m_ReadPos m + int (length c) + 2 < 16752" by (simp add: canAdd_def)
      define len :: u16 where "len = word_of_nat (length c)"
      have len: "ucast (word_of_nat (length c) :: u32) = len"
        using cl by (simp add: len_def unsigned_of_nat take_bit_nat_eq_self)
      from AddU16_step [OF inv, of len] room obtain m1 where
        m1: "AddU16 len m = Some m1" "net_step m (le_bytes 2 len) m1" by (auto split: if_splits)
      have p1: "m_ReadPos m1 = m_ReadPos m + 2" and inv1: "net_inv m1"
        using m1(2) by (auto simp: net_step_def)
      have fit: "nat (m_ReadPos m1) + length (c @ [0]) \<le> length (m_MsgBuf m1)" "0 \<le> m_ReadPos m1"
        using room p1 inv1 by (auto simp: net_inv_def)
      let ?buf = "take (nat (m_ReadPos m1)) (m_MsgBuf m1) @ (c @ [0]) @
          drop (nat (m_ReadPos m1) + length (c @ [0])) (m_MsgBuf m1)"
      let ?m2 = "m1\<lparr>m_MsgBuf := ?buf, m_ReadPos := m_ReadPos m1 + int (length c),
          m_MsgSize := m_MsgSize m1 + int (length c)\<rparr>"
      have "write_at (m_ReadPos m1) (c @ [0]) (m_MsgBuf m1) = Some ?buf"
        using fit by (simp add: write_at_def)
      then have "AddString s m = Some ?m2"
        using w False yes m1(1) len by (simp add: AddString_def Let_def flip: c_def)
      moreover have "net_step m1 c ?m2"
      proof -
        have "nat (m_ReadPos m1 + int (length c)) = nat (m_ReadPos m1) + length c" using fit(2) by linarith
        with fit inv1 show ?thesis by (simp add: net_step_def net_inv_def net_stored_def)
      qed
      ultimately show ?thesis
        using net_step_trans [OF m1(2)] room w(1) by (auto simp: len_def c_def)
    qed
  qed
qed

text \<open>The exact condition under which a value is added as a whole.\<close>

fun msg_fits :: "int \<Rightarrow> msg_value \<Rightarrow> bool" where
  "msg_fits p (MString s) \<longleftrightarrow> p + int (length (msg_bytes (MString s))) < 16752 \<and>
     length (takeWhile (\<lambda>c. c \<noteq> 0) s) \<le> 8192"
| "msg_fits p (MBytes s) \<longleftrightarrow> p + int (length s) < 16752 \<and> length s \<le> 8192"
| "msg_fits p v \<longleftrightarrow> p + int (length (msg_bytes v)) < 16752"

lemma AddPosition_step:
  assumes "net_inv m"
  shows "\<exists>m' bs. AddPosition p m = Some m' \<and> net_step m bs m' \<and>
    (m_ReadPos m + 5 < 16752 \<longrightarrow> bs = msg_bytes (MPosition p)) \<and>
    (bs = [] \<or> m_ReadPos m + int (length bs) < 16752)"
proof -
  from AddU16_step [OF assms, of "px p"] obtain m1 where
    m1: "AddU16 (px p) m = Some m1" "net_step m (if m_ReadPos m + 2 < 16752 then le_bytes 2 (px p) else []) m1"
    by blast
  then have inv1: "net_inv m1" by (simp add: net_step_def)
  from AddU16_step [OF inv1, of "py p"] obtain m2 where
    m2: "AddU16 (py p) m1 = Some m2" "net_step m1 (if m_ReadPos m1 + 2 < 16752 then le_bytes 2 (py p) else []) m2"
    by blast
  then have inv2: "net_inv m2" by (simp add: net_step_def)
  from AddByte_step [OF inv2, of "ucast (pz p)"] obtain m3 where
    m3: "AddByte (ucast (pz p)) m2 = Some m3"
      "net_step m2 (if m_ReadPos m2 + 1 < 16752 then le_bytes 1 (ucast (pz p) :: u8) else []) m3"
    by blast
  define a where "a = (if m_ReadPos m + 2 < 16752 then le_bytes 2 (px p) else [])"
  define b where "b = (if m_ReadPos m1 + 2 < 16752 then le_bytes 2 (py p) else [])"
  define c where "c = (if m_ReadPos m2 + 1 < 16752 then le_bytes 1 (ucast (pz p) :: u8) else [])"
  have r1: "m_ReadPos m1 = m_ReadPos m + int (length a)" using m1(2) by (simp add: net_step_def a_def)
  have r2: "m_ReadPos m2 = m_ReadPos m1 + int (length b)" using m2(2) by (simp add: net_step_def b_def)
  have "net_step m (a @ b @ c) m3"
    using net_step_trans [OF m1(2) net_step_trans [OF m2(2) m3(2)]] by (simp add: a_def b_def c_def)
  moreover have "AddPosition p m = Some m3" using m1 m2 m3 by (simp add: AddPosition_def)
  moreover have "m_ReadPos m + 5 < 16752 \<longrightarrow> a @ b @ c = msg_bytes (MPosition p)"
    using r1 r2 by (simp add: a_def b_def c_def)
  moreover have "a @ b @ c = [] \<or> m_ReadPos m + int (length (a @ b @ c)) < 16752"
    unfolding r1 r2 a_def b_def c_def by auto
  ultimately show ?thesis by blast
qed

lemma msg_add_step:
  assumes "net_inv m" "msg_value_ok v"
  shows "\<exists>m' bs. msg_add v m = Some m' \<and> net_step m bs m' \<and>
    (msg_fits (m_ReadPos m) v \<longrightarrow> bs = msg_bytes v) \<and>
    (bs = [] \<or> m_ReadPos m + int (length bs) < 16752)"
proof (cases v)
  case (MByte x)
  with AddByte_step [OF assms(1), of x] show ?thesis by (auto simp del: le_bytes.simps One_nat_def split: if_splits)
next
  case (MU16 x)
  with AddU16_step [OF assms(1), of x] show ?thesis by (auto split: if_splits)
next
  case (MU32 x)
  with AddU32_step [OF assms(1), of x] show ?thesis by (auto split: if_splits)
next
  case (MString s)
  with AddString_step [OF assms(1), of s] assms(2) show ?thesis
    by (auto split: if_splits)
next
  case (MBytes s)
  with AddBytes_step [OF assms(1), of s] assms(2) show ?thesis by (auto split: if_splits)
next
  case (MPosition p)
  with AddPosition_step [OF assms(1), of p] show ?thesis by auto
qed

lemma msg_add_all_step:
  assumes "net_inv m" "list_all msg_value_ok vs"
  shows "\<exists>m' bs. msg_add_all vs m = Some m' \<and> net_step m bs m' \<and>
    (bs = [] \<or> m_ReadPos m + int (length bs) < 16752)"
  using assms
proof (induction vs arbitrary: m)
  case Nil
  with net_step_refl show ?case by auto
next
  case (Cons v vs)
  then have "msg_value_ok v" by simp
  from msg_add_step [OF Cons.prems(1) this] obtain m1 a where
    a: "msg_add v m = Some m1" "net_step m a m1" "a = [] \<or> m_ReadPos m + int (length a) < 16752"
    by blast
  then have "net_inv m1" by (simp add: net_step_def)
  with Cons.IH [of m1] Cons.prems(2) obtain m2 b where
    b: "msg_add_all vs m1 = Some m2" "net_step m1 b m2" "b = [] \<or> m_ReadPos m1 + int (length b) < 16752"
    by auto
  have "m_ReadPos m1 = m_ReadPos m + int (length a)" using a(2) by (simp add: net_step_def)
  with a b net_step_trans [OF a(2) b(2)] show ?case by fastforce
qed

text \<open>
  C33. However many values are added to a message, of whatever size, the array is never written
  out of bounds: every addition is defined, what was stored before stays as a prefix, and the
  position and the message length advance by exactly the bytes appended, which end below the
  16 bytes kept free for the protocol's trailer.
\<close>
theorem additions_stay_in_buffer:
  assumes "length (m_MsgBuf m) = 16768" "0 \<le> m_ReadPos m" "list_all msg_value_ok vs"
  shows "\<exists>m' bs. msg_add_all vs m = Some m' \<and> length (m_MsgBuf m') = 16768 \<and>
    take (nat (m_ReadPos m')) (m_MsgBuf m') = take (nat (m_ReadPos m)) (m_MsgBuf m) @ bs \<and>
    m_ReadPos m' = m_ReadPos m + int (length bs) \<and> m_MsgSize m' = m_MsgSize m + int (length bs) \<and>
    (bs = [] \<or> m_ReadPos m' < NETWORKMESSAGE_MAXSIZE - 16)"
proof -
  have "net_inv m" using assms(1,2) by (simp add: net_inv_def)
  from msg_add_all_step [OF this assms(3)] show ?thesis
    by (fastforce simp: net_step_def net_inv_def net_stored_def)
qed

theorem additions_stay_in_buffer_witness:
  "\<exists>m' (bs :: u8 list). msg_add_all [MString (replicate 9000 65), MU16 7, MBytes (replicate 8000 1)]
        \<lparr>m_MsgSize = 0, m_ReadPos = 16000, m_overrun = False, m_MsgBuf = replicate 16768 0\<rparr> = Some m' \<and>
    length (m_MsgBuf m') = 16768 \<and> m_ReadPos m' = 16000 + int (length bs) \<and> m_MsgSize m' = int (length bs)"
  using additions_stay_in_buffer [of "\<lparr>m_MsgSize = 0, m_ReadPos = 16000, m_overrun = False, m_MsgBuf = replicate 16768 0\<rparr>"
      "[MString (replicate 9000 65), MU16 7, MBytes (replicate 8000 1)]"] by auto

section \<open>Reading back\<close>

datatype msg_type = TByte | TU16 | TU32 | TString | TPosition

fun msg_get :: "msg_type \<Rightarrow> NetworkMessage \<Rightarrow> (msg_value \<times> NetworkMessage) option" where
  "msg_get TByte m = map_option (apfst MByte) (GetByte m)"
| "msg_get TU16 m = map_option (apfst MU16) (GetU16 m)"
| "msg_get TU32 m = map_option (apfst MU32) (GetU32 m)"
| "msg_get TString m = map_option (apfst MString) (GetString m)"
| "msg_get TPosition m = map_option (apfst MPosition) (GetPosition m)"

fun msg_get_all :: "msg_type list \<Rightarrow> NetworkMessage \<Rightarrow> (msg_value list \<times> NetworkMessage) option" where
  "msg_get_all [] m = Some ([], m)"
| "msg_get_all (t # ts) m =
     (case msg_get t m of None \<Rightarrow> None
      | Some (v, m1) \<Rightarrow> (case msg_get_all ts m1 of None \<Rightarrow> None | Some (vs, m2) \<Rightarrow> Some (v # vs, m2)))"

text \<open>The values a reader can get back: strings without a NUL and not too long, floors that
  fit a byte.\<close>

fun readable :: "msg_value \<Rightarrow> msg_type \<Rightarrow> bool" where
  "readable (MByte v) TByte = True"
| "readable (MU16 v) TU16 = True"
| "readable (MU32 v) TU32 = True"
| "readable (MString s) TString = (length s \<le> 8192 \<and> list_all (\<lambda>c. c \<noteq> 0) s)"
| "readable (MPosition p) TPosition = (uint (pz p) < 256)"
| "readable _ _ = False"

definition net_at :: "NetworkMessage \<Rightarrow> int \<Rightarrow> u8 list \<Rightarrow> bool" where
  "net_at m p bs \<longleftrightarrow> length (m_MsgBuf m) = 16768 \<and> 0 \<le> p \<and> m_ReadPos m = p \<and>
     (\<exists>r. drop (nat p) (m_MsgBuf m) = bs @ r \<and> p + int (length bs) < 16752)"

lemma net_at_read:
  assumes "net_at m p (bs @ r)"
  shows "read_at (m_ReadPos m) (length bs) (m_MsgBuf m) = Some bs"
    "net_at (m\<lparr>m_ReadPos := m_ReadPos m + int (length bs)\<rparr>) (p + int (length bs)) r"
    "m_ReadPos m + int (length bs) < 16752"
proof -
  from assms obtain z where z: "length (m_MsgBuf m) = 16768" "0 \<le> p" "m_ReadPos m = p"
    "drop (nat p) (m_MsgBuf m) = bs @ r @ z" "p + int (length bs + length r) < 16752"
    by (auto simp: net_at_def)
  then show "m_ReadPos m + int (length bs) < 16752" by simp
  have "nat p + length bs \<le> 16768" using z(2,5) by linarith
  with z show "read_at (m_ReadPos m) (length bs) (m_MsgBuf m) = Some bs" by (simp add: read_at_def)
  have n: "nat (p + int (length bs)) = length bs + nat p" using z(2) by linarith
  have "drop (nat (p + int (length bs))) (m_MsgBuf m) = r @ z"
    unfolding n drop_drop [symmetric] z(4) by simp
  with z show "net_at (m\<lparr>m_ReadPos := m_ReadPos m + int (length bs)\<rparr>) (p + int (length bs)) r"
    by (auto simp: net_at_def)
qed

lemma GetByte_at:
  "net_at m p (le_bytes 1 v @ r) \<Longrightarrow>
    \<exists>m'. GetByte m = Some (v, m') \<and> net_at m' (p + 1) r \<and> m_overrun m' = m_overrun m"
  using net_at_read [of m p "le_bytes 1 v" r] wire8.dec_enc [of v] wire8.enc_length [of v]
  by (auto simp: GetByte_def simp del: le_bytes.simps One_nat_def)

lemma GetU16_at:
  "net_at m p (le_bytes 2 v @ r) \<Longrightarrow>
    \<exists>m'. GetU16 m = Some (v, m') \<and> net_at m' (p + 2) r \<and> m_overrun m' = m_overrun m"
  using net_at_read [of m p "le_bytes 2 v" r] wire16.dec_enc [of v]
  by (auto simp: GetU16_def expectRead_def)

lemma GetU32_at:
  "net_at m p (le_bytes 4 v @ r) \<Longrightarrow>
    \<exists>m'. GetU32 m = Some (v, m') \<and> net_at m' (p + 4) r \<and> m_overrun m' = m_overrun m"
  using net_at_read [of m p "le_bytes 4 v" r] wire32.dec_enc [of v]
  by (auto simp: GetU32_def expectRead_def)

lemma msg_get_at:
  assumes "readable v t" "net_at m p (msg_bytes v @ r)"
  shows "\<exists>m'. msg_get t m = Some (v, m') \<and> net_at m' (p + int (length (msg_bytes v))) r \<and> m_overrun m' = m_overrun m"
  using assms(1)
proof (cases "(v, t)" rule: readable.cases)
  case (4 s)
  then have s: "length s \<le> 8192" "takeWhile (\<lambda>c. c \<noteq> 0) s = s"
    using assms(1) by (auto simp: list_all_iff takeWhile_eq_all_conv)
  with 4 assms(2) have "net_at m p (le_bytes 2 (word_of_nat (length s) :: u16) @ s @ r)" by simp
  from GetU16_at [OF this] obtain m1 where
    m1: "GetU16 m = Some (word_of_nat (length s), m1)" "net_at m1 (p + 2) (s @ r)" "m_overrun m1 = m_overrun m"
    by blast
  have u: "unat (word_of_nat (length s) :: u16) = length s" using s by (intro unat_of_nat_eq) simp
  then have "uint (word_of_nat (length s) :: u16) = int (length s)" by (metis uint_nat)
  moreover have "length (msg_bytes v) = 2 + length s" using 4 by (simp add: s(2))
  ultimately show ?thesis
    using 4 m1 u s(1) net_at_read [OF m1(2)]
    by (simp add: GetString_def get_chars_def add.assoc del: msg_bytes.simps)
next
  case (5 q)
  have z: "ucast (ucast (pz q) :: u8) = pz q"
    using assms(1) 5 by (simp add: unsigned_ucast_eq unsigned_take_bit_eq word_uint_eq_iff take_bit_int_eq_self)
  from 5 assms(2) have "net_at m p (le_bytes 2 (px q) @ le_bytes 2 (py q) @ le_bytes 1 (ucast (pz q) :: u8) @ r)"
    by simp
  from GetU16_at [OF this] obtain m1 where
    m1: "GetU16 m = Some (px q, m1)" "net_at m1 (p + 2) (le_bytes 2 (py q) @ le_bytes 1 (ucast (pz q) :: u8) @ r)"
      "m_overrun m1 = m_overrun m" by blast
  from GetU16_at [OF m1(2)] obtain m2 where
    m2: "GetU16 m1 = Some (py q, m2)" "net_at m2 (p + 2 + 2) (le_bytes 1 (ucast (pz q) :: u8) @ r)"
      "m_overrun m2 = m_overrun m1" by blast
  from GetByte_at [OF m2(2)] m1 m2 5 z show ?thesis
    by (auto simp: GetPosition_def add.assoc)
qed (use assms GetByte_at [of m p] GetU16_at [of m p] GetU32_at [of m p] in
    \<open>auto simp del: le_bytes.simps One_nat_def\<close>)

lemma msg_get_all_at:
  assumes "list_all2 readable vs ts" "net_at m p (concat (map msg_bytes vs) @ r)"
  shows "\<exists>m'. msg_get_all ts m = Some (vs, m') \<and>
    net_at m' (p + int (length (concat (map msg_bytes vs)))) r \<and> m_overrun m' = m_overrun m"
  using assms
proof (induction vs arbitrary: ts m p)
  case Nil
  then show ?case by simp
next
  case (Cons v vs)
  from Cons.prems(1) obtain t us where ts: "ts = t # us" "readable v t" "list_all2 readable vs us"
    by (auto simp: list_all2_Cons1)
  from Cons.prems(2) have "net_at m p (msg_bytes v @ concat (map msg_bytes vs) @ r)" by simp
  from msg_get_at [OF ts(2) this] obtain m1 where
    m1: "msg_get t m = Some (v, m1)" "net_at m1 (p + int (length (msg_bytes v))) (concat (map msg_bytes vs) @ r)"
      "m_overrun m1 = m_overrun m" by blast
  from Cons.IH [OF ts(3) m1(2)] m1 ts(1) show ?case by (auto simp: add.assoc)
qed

lemma readable_ok: "readable v t \<Longrightarrow> msg_value_ok v"
  by (cases "(v, t)" rule: readable.cases) auto

lemma readable_fits:
  assumes "readable v t" "p + int (length (msg_bytes v)) < 16752"
  shows "msg_fits p v"
proof (cases "(v, t)" rule: readable.cases)
  case (4 s)
  with assms show ?thesis using length_takeWhile_le [of "\<lambda>c. c \<noteq> 0" s] by simp
qed (use assms in auto)

lemma msg_add_all_fits:
  assumes "list_all2 readable vs ts" "net_inv m" "m_ReadPos m + int (length (concat (map msg_bytes vs))) < 16752"
  shows "\<exists>m'. msg_add_all vs m = Some m' \<and> net_step m (concat (map msg_bytes vs)) m'"
  using assms
proof (induction vs arbitrary: ts m)
  case Nil
  with net_step_refl show ?case by simp
next
  case (Cons v vs)
  from Cons.prems(1) obtain t us where ts: "ts = t # us" "readable v t" "list_all2 readable vs us"
    by (auto simp: list_all2_Cons1)
  have "msg_fits (m_ReadPos m) v" using Cons.prems(3) by (intro readable_fits [OF ts(2)]) simp
  with msg_add_step [OF Cons.prems(2) readable_ok [OF ts(2)]] obtain m1 where
    m1: "msg_add v m = Some m1" "net_step m (msg_bytes v) m1" by blast
  then have "net_inv m1" "m_ReadPos m1 = m_ReadPos m + int (length (msg_bytes v))" by (simp_all add: net_step_def)
  with Cons.IH [OF ts(3), of m1] Cons.prems(3) obtain m2 where
    "msg_add_all vs m1 = Some m2" "net_step m1 (concat (map msg_bytes vs)) m2" by auto
  with m1 net_step_trans [OF m1(2)] show ?case by auto
qed

text \<open>
  C22. Round trip of a message: the values added to a reset message (strings without a NUL of
  at most 8192 bytes, floors below 256) are read back in order from the start of the body,
  without overrun, as long as their bytes end before the last 16 of the array; the message
  length is then the number of bytes read.
\<close>
theorem message_roundtrip:
  assumes "length (m_MsgBuf m) = 16768" "list_all2 readable vs ts"
    "4 + length (concat (map msg_bytes vs)) < 16752"
  shows "\<exists>w r. msg_add_all vs (Reset m) = Some w \<and>
    msg_get_all ts (w\<lparr>m_ReadPos := 4\<rparr>) = Some (vs, r) \<and> \<not> m_overrun r \<and> m_ReadPos r = 4 + m_MsgSize w"
proof -
  have inv: "net_inv (Reset m)" using assms(1) by (simp add: net_inv_def Reset_def)
  have p: "m_ReadPos (Reset m) = 4" "m_MsgSize (Reset m) = 0" by (simp_all add: Reset_def)
  have "m_ReadPos (Reset m) + int (length (concat (map msg_bytes vs))) < 16752"
    using p assms(3) by linarith
  from msg_add_all_fits [OF assms(2) inv this] obtain w where
    w: "msg_add_all vs (Reset m) = Some w" "net_step (Reset m) (concat (map msg_bytes vs)) w" by blast
  let ?bs = "concat (map msg_bytes vs)"
  have len: "length (m_MsgBuf w) = 16768" and st: "net_stored w = net_stored (Reset m) @ ?bs"
    and rp: "m_ReadPos w = 4 + int (length ?bs)" "m_MsgSize w = int (length ?bs)"
    using w(2) p by (auto simp: net_step_def net_inv_def)
  have "drop 4 (net_stored w) = ?bs" using st p assms(1) by (simp add: net_stored_def Reset_def)
  moreover have "m_MsgBuf w = net_stored w @ drop (nat (m_ReadPos w)) (m_MsgBuf w)"
    by (simp add: net_stored_def)
  moreover have "4 \<le> length (net_stored w)"
    using rp(1) len assms(3) by (simp add: net_stored_def)
  ultimately have "drop 4 (m_MsgBuf w) = ?bs @ drop (nat (m_ReadPos w)) (m_MsgBuf w)"
    by (metis drop_append append_eq_append_conv2 diff_is_0_eq drop0)
  then have at: "net_at (w\<lparr>m_ReadPos := 4\<rparr>) 4 (?bs @ [])"
    using len assms(3) by (auto simp: net_at_def)
  have ov: "\<not> m_overrun w" using w(2) by (simp add: net_step_def Reset_def)
  from msg_get_all_at [OF assms(2) at] ov w(1) rp show ?thesis
    by (auto simp: net_at_def)
qed

theorem message_roundtrip_witness:
  "\<exists>w r. msg_add_all [MU16 0xABCD, MString [104, 105], MPosition (Position 100 200 7), MByte 3]
        (Reset \<lparr>m_MsgSize = 9, m_ReadPos = 77, m_overrun = True, m_MsgBuf = replicate 16768 0xAA\<rparr>) = Some w \<and>
    msg_get_all [TU16, TString, TPosition, TByte] (w\<lparr>m_ReadPos := 4\<rparr>) =
      Some ([MU16 0xABCD, MString [104, 105], MPosition (Position 100 200 7), MByte 3], r) \<and>
    \<not> m_overrun r \<and> m_ReadPos r = 4 + m_MsgSize w"
  by (rule message_roundtrip) (simp_all only: length_replicate NetworkMessage.simps, simp_all)

lemma read_at_inv:
  "net_inv m \<Longrightarrow> m_ReadPos m + int n \<le> NETWORKMESSAGE_MAXSIZE \<Longrightarrow> \<exists>bs. read_at (m_ReadPos m) n (m_MsgBuf m) = Some bs"
  unfolding read_at_def net_inv_def by auto

lemma net_inv_pos: "net_inv m \<Longrightarrow> 0 \<le> d \<Longrightarrow> net_inv (m\<lparr>m_ReadPos := m_ReadPos m + d\<rparr>)"
  by (simp add: net_inv_def)

lemma GetU16_total: "net_inv m \<Longrightarrow> \<exists>v m'. GetU16 m = Some (v, m') \<and> net_inv m'"
  using read_at_inv [of m 2] net_inv_pos [of m 2]
  by (fastforce simp: GetU16_def expectRead_def net_inv_def)

lemma GetU32_total: "net_inv m \<Longrightarrow> \<exists>v m'. GetU32 m = Some (v, m') \<and> net_inv m'"
  using read_at_inv [of m 4] net_inv_pos [of m 4]
  by (fastforce simp: GetU32_def expectRead_def net_inv_def)

lemma PeekU32_total: "net_inv m \<Longrightarrow> \<exists>v m'. PeekU32 m = Some (v, m') \<and> net_inv m'"
  using read_at_inv [of m 4] by (fastforce simp: PeekU32_def expectRead_def net_inv_def)

lemma get_chars_total: "net_inv m \<Longrightarrow> \<exists>v m'. get_chars n m = Some (v, m') \<and> net_inv m'"
proof (cases "uint n \<ge> NETWORKMESSAGE_MAXSIZE - m_ReadPos m")
  case True
  then show "net_inv m \<Longrightarrow> ?thesis" by (simp add: get_chars_def)
next
  case False
  then have "m_ReadPos m + int (unat n) \<le> NETWORKMESSAGE_MAXSIZE" by (simp flip: uint_nat)
  moreover assume inv: "net_inv m"
  ultimately obtain bs where "read_at (m_ReadPos m) (unat n) (m_MsgBuf m) = Some bs"
    using read_at_inv by blast
  with False net_inv_pos [OF inv, of "uint n"] show ?thesis by (simp add: get_chars_def)
qed

lemma GetString_total: "net_inv m \<Longrightarrow> \<exists>v m'. GetString m = Some (v, m') \<and> net_inv m'"
  using GetU16_total [of m] get_chars_total by (fastforce simp: GetString_def)

text \<open>
  Reading from a position that is not negative: the integer and string accessors never
  read outside the array, whatever lengths the message claims, and keep the position
  non-negative; \<open>GetByte\<close>, which checks nothing, reads outside exactly when
  the position has reached the end of the array.
\<close>
theorem reads_stay_in_buffer:
  assumes "length (m_MsgBuf m) = 16768" "0 \<le> m_ReadPos m"
  shows "(\<exists>v m'. GetU16 m = Some (v, m') \<and> 0 \<le> m_ReadPos m') \<and>
    (\<exists>v m'. GetU32 m = Some (v, m') \<and> 0 \<le> m_ReadPos m') \<and>
    (\<exists>v m'. PeekU32 m = Some (v, m') \<and> 0 \<le> m_ReadPos m') \<and>
    (\<exists>v m'. GetString m = Some (v, m') \<and> 0 \<le> m_ReadPos m') \<and>
    (\<exists>v m'. GetRaw m = Some (v, m') \<and> 0 \<le> m_ReadPos m') \<and>
    (GetByte m = None \<longleftrightarrow> m_ReadPos m \<ge> NETWORKMESSAGE_MAXSIZE)"
proof -
  have inv: "net_inv m" using assms by (simp add: net_inv_def)
  have "GetByte m = None \<longleftrightarrow> m_ReadPos m \<ge> NETWORKMESSAGE_MAXSIZE"
    using assms by (auto simp: GetByte_def read_at_def)
  with GetU16_total [OF inv] GetU32_total [OF inv] PeekU32_total [OF inv] GetString_total [OF inv]
    get_chars_total [OF inv, of "word_of_int (m_MsgSize m - m_ReadPos m)"]
  show ?thesis unfolding GetRaw_def net_inv_def by blast
qed

theorem reads_stay_in_buffer_witness:
  "GetByte \<lparr>m_MsgSize = 0, m_ReadPos = 16768, m_overrun = False, m_MsgBuf = replicate 16768 0xFF\<rparr> = None \<and>
   (\<exists>v m'. GetString \<lparr>m_MsgSize = 0, m_ReadPos = 16760, m_overrun = False, m_MsgBuf = replicate 16768 0xFF\<rparr> = Some (v, m'))"
  using reads_stay_in_buffer [of "\<lparr>m_MsgSize = 0, m_ReadPos = 16768, m_overrun = False, m_MsgBuf = replicate 16768 0xFF\<rparr>"]
    reads_stay_in_buffer [of "\<lparr>m_MsgSize = 0, m_ReadPos = 16760, m_overrun = False, m_MsgBuf = replicate 16768 0xFF\<rparr>"]
  by auto

end
