(* ===== verification/Item.thy ===== *)
theory Item
  imports Items ItemAttrs NetMsg
begin

text \<open>
  Items (\<^verbatim>\<open>Source/item.h\<close>, \<^verbatim>\<open>Source/item.cpp\<close>): creation from the type table, the sub type, the
  attribute stream of the map and player files, the derived properties and the weight; and the
  item part of the network messages. The attribute setters can fail an assertion, so the
  operations are in the option monad. The registration of unique ids with the script engine
  is left out.
\<close>

record Item = ItemAttributes +
  i_id :: u16
  i_count :: u8
  i_loadedOnMap :: bool

text \<open>The attribute part of an item, and an operation on it.\<close>

definition attrs :: "Item \<Rightarrow> ItemAttributes" where
  "attrs i = ItemAttributes.truncate i"

definition on_attrs :: "(ItemAttributes \<Rightarrow> ItemAttributes option) \<Rightarrow> Item \<Rightarrow> Item option" where
  "on_attrs f i = map_option (\<lambda>a. i\<lparr>m_attributes := m_attributes a, m_attrFlags := m_attrFlags a\<rparr>) (f (attrs i))"

definition item_type :: "Items \<Rightarrow> Item \<Rightarrow> ItemType" where
  "item_type items i = getItemType items (uint (i_id i))"

definition isStackable :: "Items \<Rightarrow> Item \<Rightarrow> bool" where "isStackable items i = it_stackable (item_type items i)"
definition isNotMoveable :: "Items \<Rightarrow> Item \<Rightarrow> bool" where "isNotMoveable items i = (\<not> it_moveable (item_type items i))"
definition isPickupable :: "Items \<Rightarrow> Item \<Rightarrow> bool" where "isPickupable items i = it_pickupable (item_type items i)"
definition hasCharges :: "Items \<Rightarrow> Item \<Rightarrow> bool" where "hasCharges items i = (it_charges (item_type items i) \<noteq> 0)"
definition isRoteable :: "Items \<Rightarrow> Item \<Rightarrow> bool" where
  "isRoteable items i = (it_rotable (item_type items i) \<and> it_rotateTo (item_type items i) \<noteq> 0)"
definition getThrowRange :: "Items \<Rightarrow> Item \<Rightarrow> int" where "getThrowRange items i = (if isPickupable items i then 15 else 2)"

section \<open>Creation\<close>

definition getDefaultDuration :: "Items \<Rightarrow> Item \<Rightarrow> u32" where
  "getDefaultDuration items i = it_decayTime (item_type items i) * 1000"

definition setDefaultDuration :: "Items \<Rightarrow> Item \<Rightarrow> Item option" where
  "setDefaultDuration items i =
     (let duration = getDefaultDuration items i
      in if duration \<noteq> 0 then on_attrs (setDuration (sint duration)) i else Some i)"

definition new_Item :: "Items \<Rightarrow> u16 \<Rightarrow> u16 \<Rightarrow> Item option" where
  "new_Item items ident cnt = do {
     let it = getItemType items (uint ident);
     let i = \<lparr>m_attributes = [], m_attrFlags = 0, i_id = ident, i_count = 1, i_loadedOnMap = False\<rparr>;
     i \<leftarrow> (if it_charges it \<noteq> 0 then on_attrs (setCharges (ucast (it_charges it))) i else Some i);
     i \<leftarrow> (if isFluidContainer it \<or> isSplash it then on_attrs (setFluidType cnt) i
           else if it_stackable it \<and> cnt \<noteq> 0 then Some (i\<lparr>i_count := ucast cnt\<rparr>)
           else if it_charges it \<noteq> 0 \<and> cnt \<noteq> 0 then on_attrs (setCharges cnt) i
           else Some i);
     i \<leftarrow> setDefaultDuration items i;
     Some (i\<lparr>i_loadedOnMap := False\<rparr>)
   }"

datatype ItemClass = IC_Depot | IC_Container | IC_Teleport | IC_MagicField | IC_Door | IC_TrashHolder
  | IC_Mailbox | IC_BedItem | IC_Item

definition item_class :: "ItemType \<Rightarrow> ItemClass" where
  "item_class it =
     (if isDepot it then IC_Depot
      else if isContainer it then IC_Container
      else if isTeleport it then IC_Teleport
      else if isMagicField it then IC_MagicField
      else if isDoor it then IC_Door
      else if isTrashHolder it then IC_TrashHolder
      else if isMailbox it then IC_Mailbox
      else if isBed it then IC_BedItem
      else IC_Item)"

text \<open>\<^verbatim>\<open>CreateItem\<close>: the inner \<open>None\<close> is the null pointer. The constructors of the derived
  classes hand the id to the item constructor and leave the count at its default 0.\<close>

definition CreateItem :: "Items \<Rightarrow> u16 \<Rightarrow> u16 \<Rightarrow> (ItemClass \<times> Item) option option" where
  "CreateItem items ty cnt =
     (let it = getItemType items (uint ty) in
      if it_id it \<noteq> 0
      then map_option (\<lambda>i. Some (item_class it, i))
             (new_Item items ty (if item_class it = IC_Item then cnt else 0))
      else Some None)"

definition CreateItem_stream :: "Items \<Rightarrow> PropStream \<Rightarrow> ((ItemClass \<times> Item) option \<times> PropStream) option" where
  "CreateItem_stream items s =
     (case GET_UINT16 s of
        None \<Rightarrow> Some (None, s)
      | Some (ident, s1) \<Rightarrow>
          (let it = getItemType items (uint ident) in
           if it_stackable it \<or> isSplash it \<or> isFluidContainer it
           then (case GET_UINT8 s1 of
                   None \<Rightarrow> Some (None, s1)
                 | Some (cnt, s2) \<Rightarrow> map_option (\<lambda>r. (r, s2)) (CreateItem items ident (ucast cnt)))
           else map_option (\<lambda>r. (r, s1)) (CreateItem items ident 0)))"

definition clone :: "Items \<Rightarrow> Item \<Rightarrow> (ItemClass \<times> Item) option option" where
  "clone items i = map_option
     (map_option (\<lambda>(c, n). (c, n\<lparr>m_attrFlags := m_attrFlags i, m_attributes := m_attributes i\<rparr>)))
     (CreateItem items (i_id i) (ucast (i_count i)))"

text \<open>\<^verbatim>\<open>copyAttributes\<close>: the new target and the item itself, from which the decay attributes go.\<close>

definition copyAttributes :: "Item \<Rightarrow> Item \<Rightarrow> Item \<times> Item" where
  "copyAttributes self other =
     (let other1 = other\<lparr>m_attrFlags := m_attrFlags self, m_attributes := m_attributes self\<rparr>;
          a = removeAttribute ATTR_ITEM_DURATION (removeAttribute ATTR_ITEM_DECAYING (attrs self))
      in (other1, self\<lparr>m_attributes := m_attributes a, m_attrFlags := m_attrFlags a\<rparr>))"

definition setDefaultSubtype :: "Items \<Rightarrow> Item \<Rightarrow> Item option" where
  "setDefaultSubtype items i =
     (let i1 = i\<lparr>i_count := 1\<rparr>; it = item_type items i
      in if it_charges it \<noteq> 0 then on_attrs (setCharges (ucast (it_charges it))) i1 else Some i1)"

definition setID :: "Items \<Rightarrow> u16 \<Rightarrow> Item \<Rightarrow> Item option" where
  "setID items newid i = do {
     let prevIt = item_type items i;
     let i = i\<lparr>i_id := newid\<rparr>;
     let it = getItemType items (uint newid);
     let newDuration = it_decayTime it * 1000;
     i \<leftarrow> (if newDuration = 0 \<and> \<not> it_stopTime it \<and> it_decayTo it = -1
           then on_attrs (\<lambda>a. Some (removeAttribute ATTR_ITEM_DURATION (removeAttribute ATTR_ITEM_DECAYING a))) i
           else Some i);
     if newDuration > 0 \<and> (\<not> it_stopTime prevIt \<or> \<not> hasAttribute ATTR_ITEM_DURATION (attrs i))
     then do {
       i \<leftarrow> on_attrs (setDecaying DECAYING_FALSE) i;
       on_attrs (setDuration (sint newDuration)) i
     } else Some i
   }"

section \<open>Sub type\<close>

definition getSubType :: "Items \<Rightarrow> Item \<Rightarrow> u16 option" where
  "getSubType items i =
     (let it = item_type items i in
      if isFluidContainer it \<or> isSplash it then getFluidType (attrs i)
      else if it_charges it \<noteq> 0 then getCharges (attrs i)
      else Some (ucast (i_count i)))"

definition setSubType :: "Items \<Rightarrow> u16 \<Rightarrow> Item \<Rightarrow> Item option" where
  "setSubType items n i =
     (let it = item_type items i in
      if isFluidContainer it \<or> isSplash it then on_attrs (setFluidType n) i
      else if it_charges it \<noteq> 0 then on_attrs (setCharges n) i
      else Some (i\<lparr>i_count := ucast n\<rparr>))"

definition setItemCount :: "u8 \<Rightarrow> Item \<Rightarrow> Item" where
  "setItemCount n i = i\<lparr>i_count := n\<rparr>"

definition countByType :: "Items \<Rightarrow> Item \<Rightarrow> int \<Rightarrow> bool \<Rightarrow> u32 option" where
  "countByType items i checkType multiCount =
     (case (if checkType = -1 then Some True else map_option (\<lambda>n. checkType = uint n) (getSubType items i)) of
        None \<Rightarrow> None
      | Some False \<Rightarrow> Some 0
      | Some True \<Rightarrow>
          if multiCount then Some (ucast (i_count i))
          else if isRune (item_type items i) then map_option ucast (getCharges (attrs i))
          else Some (ucast (i_count i)))"

definition setUniqueId :: "u16 \<Rightarrow> Item \<Rightarrow> Item option" where
  "setUniqueId n i =
     (case getUniqueId (attrs i) of
        None \<Rightarrow> None
      | Some u \<Rightarrow> if u \<noteq> 0 then Some i else on_attrs (setUniqueIdAttr n) i)"

definition canDecay :: "Items \<Rightarrow> bool \<Rightarrow> Item \<Rightarrow> bool option" where
  "canDecay items removed i =
     (if removed then Some False
      else case (getUniqueId (attrs i), getActionId (attrs i)) of
          (Some u, Some a) \<Rightarrow> Some (if u \<noteq> 0 \<or> a \<noteq> 0 then False else it_decayTo (item_type items i) \<noteq> -1)
        | _ \<Rightarrow> None)"

text \<open>Weights, at the type's weight per piece.\<close>

definition item_getWeight :: "Items \<Rightarrow> Item \<Rightarrow> real" where
  "item_getWeight items i =
     (if isStackable items i then it_weight (item_type items i) * max 1 (real (unat (i_count i)))
      else it_weight (item_type items i))"

datatype ITEMPROPERTY = BLOCKSOLID | HASHEIGHT | BLOCKPROJECTILE | BLOCKPATH | ISVERTICAL | ISHORIZONTAL
  | MOVEABLE | IMMOVABLEBLOCKSOLID | IMMOVABLEBLOCKPATH | SUPPORTHANGABLE | IMMOVABLENOFIELDBLOCKPATH
  | NOFIELDBLOCKPATH

fun hasProperty :: "Items \<Rightarrow> ITEMPROPERTY \<Rightarrow> Item \<Rightarrow> bool option" where
  "hasProperty items BLOCKSOLID i = Some (it_blockSolid (item_type items i))"
| "hasProperty items MOVEABLE i =
     (if it_moveable (item_type items i) then map_option (\<lambda>u. u = 0) (getUniqueId (attrs i)) else Some False)"
| "hasProperty items HASHEIGHT i = Some (it_hasHeight (item_type items i))"
| "hasProperty items BLOCKPROJECTILE i = Some (it_blockProjectile (item_type items i))"
| "hasProperty items BLOCKPATH i = Some (it_blockPathFind (item_type items i))"
| "hasProperty items ISVERTICAL i = Some (it_isVertical (item_type items i))"
| "hasProperty items ISHORIZONTAL i = Some (it_isHorizontal (item_type items i))"
| "hasProperty items IMMOVABLEBLOCKSOLID i =
     (if it_blockSolid (item_type items i)
      then (if \<not> it_moveable (item_type items i) then Some True else map_option (\<lambda>u. u \<noteq> 0) (getUniqueId (attrs i)))
      else Some False)"
| "hasProperty items IMMOVABLEBLOCKPATH i =
     (if it_blockPathFind (item_type items i)
      then (if \<not> it_moveable (item_type items i) then Some True else map_option (\<lambda>u. u \<noteq> 0) (getUniqueId (attrs i)))
      else Some False)"
| "hasProperty items SUPPORTHANGABLE i =
     Some (it_isHorizontal (item_type items i) \<or> it_isVertical (item_type items i))"
| "hasProperty items IMMOVABLENOFIELDBLOCKPATH i =
     (if \<not> isMagicField (item_type items i) \<and> it_blockPathFind (item_type items i)
      then (if \<not> it_moveable (item_type items i) then Some True else map_option (\<lambda>u. u \<noteq> 0) (getUniqueId (attrs i)))
      else Some False)"
| "hasProperty items NOFIELDBLOCKPATH i =
     Some (\<not> isMagicField (item_type items i) \<and> it_blockPathFind (item_type items i))"

abbreviation ITEM_COINS_GOLD :: u16 where "ITEM_COINS_GOLD \<equiv> 2148"
abbreviation ITEM_COINS_PLATINUM :: u16 where "ITEM_COINS_PLATINUM \<equiv> 2152"
abbreviation ITEM_COINS_CRYSTAL :: u16 where "ITEM_COINS_CRYSTAL \<equiv> 2160"

definition getWorth :: "Item \<Rightarrow> nat" where
  "getWorth i =
     (if i_id i = ITEM_COINS_GOLD then unat (i_count i)
      else if i_id i = ITEM_COINS_PLATINUM then unat (i_count i) * 100
      else if i_id i = ITEM_COINS_CRYSTAL then unat (i_count i) * 10000
      else 0)"

definition isCleanable :: "Items \<Rightarrow> bool \<Rightarrow> Item \<Rightarrow> bool option" where
  "isCleanable items canRemove i =
     (if i_loadedOnMap i then Some False
      else case (getUniqueId (attrs i), getActionId (attrs i)) of
          (Some u, Some a) \<Rightarrow> Some (u = 0 \<and> a = 0 \<and> isPickupable items i \<and> canRemove)
        | _ \<Rightarrow> None)"

section \<open>The attribute stream\<close>

datatype Attr_ReadValue = ATTR_READ_ERROR | ATTR_READ_CONTINUE | ATTR_READ_END

abbreviation ATTR_ACTION_ID :: u8 where "ATTR_ACTION_ID \<equiv> 4"
abbreviation ATTR_UNIQUE_ID :: u8 where "ATTR_UNIQUE_ID \<equiv> 5"
abbreviation ATTR_TEXT :: u8 where "ATTR_TEXT \<equiv> 6"
abbreviation ATTR_DESC :: u8 where "ATTR_DESC \<equiv> 7"
abbreviation ATTR_TELE_DEST :: u8 where "ATTR_TELE_DEST \<equiv> 8"
abbreviation ATTR_DEPOT_ID :: u8 where "ATTR_DEPOT_ID \<equiv> 10"
abbreviation ATTR_RUNE_CHARGES :: u8 where "ATTR_RUNE_CHARGES \<equiv> 12"
abbreviation ATTR_HOUSEDOORID :: u8 where "ATTR_HOUSEDOORID \<equiv> 14"
abbreviation ATTR_COUNT :: u8 where "ATTR_COUNT \<equiv> 15"
abbreviation ATTR_DURATION :: u8 where "ATTR_DURATION \<equiv> 16"
abbreviation ATTR_DECAYING_STATE :: u8 where "ATTR_DECAYING_STATE \<equiv> 17"
abbreviation ATTR_WRITTENBY :: u8 where "ATTR_WRITTENBY \<equiv> 19"
abbreviation ATTR_SLEEPERGUID :: u8 where "ATTR_SLEEPERGUID \<equiv> 20"
abbreviation ATTR_SLEEPSTART :: u8 where "ATTR_SLEEPSTART \<equiv> 21"
abbreviation ATTR_CONTAINER_ITEMS :: u8 where "ATTR_CONTAINER_ITEMS \<equiv> 22"

text \<open>The shape of every case: read a value, or fail; then store it.\<close>

definition read_then :: "('v \<times> PropStream) option \<Rightarrow> PropStream \<Rightarrow> Item \<Rightarrow> ('v \<Rightarrow> Item option) \<Rightarrow>
      ((Attr_ReadValue \<times> Item) \<times> PropStream) option" where
  "read_then r s i store =
     (case r of
        None \<Rightarrow> Some ((ATTR_READ_ERROR, i), s)
      | Some (v, s1) \<Rightarrow> map_option (\<lambda>i1. ((ATTR_READ_CONTINUE, i1), s1)) (store v))"

definition readAttr :: "Items \<Rightarrow> u8 \<Rightarrow> Item \<Rightarrow> PropStream \<Rightarrow> ((Attr_ReadValue \<times> Item) \<times> PropStream) option" where
  "readAttr items attr i s =
     (if attr = ATTR_COUNT then read_then (GET_UINT8 s) s i (\<lambda>c. setSubType items (ucast c) i)
      else if attr = ATTR_ACTION_ID then read_then (GET_UINT16 s) s i (\<lambda>a. on_attrs (setActionId a) i)
      else if attr = ATTR_UNIQUE_ID then read_then (GET_UINT16 s) s i (\<lambda>u. setUniqueId u i)
      else if attr = ATTR_TEXT then read_then (GET_STRING s) s i (\<lambda>t. on_attrs (setText t) i)
      else if attr = ATTR_WRITTENBY then read_then (GET_STRING s) s i (\<lambda>w. on_attrs (setWriter w) i)
      else if attr = ATTR_DESC then read_then (GET_STRING s) s i (\<lambda>d. on_attrs (setSpecialDescription d) i)
      else if attr = ATTR_RUNE_CHARGES then read_then (GET_UINT8 s) s i (\<lambda>c. setSubType items (ucast c) i)
      else if attr = ATTR_DURATION then
        read_then (GET_UINT32 s) s i (\<lambda>d. on_attrs (setDuration (if sint d < 0 then 0 else sint d)) i)
      else if attr = ATTR_DECAYING_STATE then
        read_then (GET_UINT8 s) s i (\<lambda>d. if d \<noteq> 0 then on_attrs (setDecaying DECAYING_PENDING) i else Some i)
      else if attr = ATTR_DEPOT_ID then read_then (GET_UINT16 s) s i (\<lambda>_. Some i)
      else if attr = ATTR_HOUSEDOORID then read_then (GET_UINT8 s) s i (\<lambda>_. Some i)
      else if attr = ATTR_SLEEPERGUID then read_then (GET_UINT32 s) s i (\<lambda>_. Some i)
      else if attr = ATTR_SLEEPSTART then read_then (GET_UINT32 s) s i (\<lambda>_. Some i)
      else if attr = ATTR_TELE_DEST then
        read_then (case GET_UINT16 s of None \<Rightarrow> None
          | Some (_, s1) \<Rightarrow> (case GET_UINT16 s1 of None \<Rightarrow> None | Some (_, s2) \<Rightarrow> GET_UINT8 s2)) s i (\<lambda>_. Some i)
      else if attr = ATTR_CONTAINER_ITEMS then
        (case GET_UINT32 s of None \<Rightarrow> Some ((ATTR_READ_ERROR, i), s) | Some (_, s1) \<Rightarrow> Some ((ATTR_READ_ERROR, i), s1))
      else Some ((ATTR_READ_ERROR, i), s))"

lemma read_then_size:
  assumes "read_then r s i store = Some ((v, i'), s')"
    and "\<And>x s1. r = Some (x, s1) \<Longrightarrow> ps_size s1 \<le> ps_size s"
  shows "ps_size s' \<le> ps_size s"
  using assms by (auto simp: read_then_def split: option.splits prod.splits)

lemma GET_VALUE_size_le: "GET_VALUE n dec s = Some (a, s1) \<Longrightarrow> ps_size s1 \<le> ps_size s"
  by (auto simp: GET_VALUE_def ps_size_def split: if_splits)

lemma GET_UINT8_size_le: "GET_UINT8 s = Some (a, s1) \<Longrightarrow> ps_size s1 \<le> ps_size s"
  unfolding GET_UINT8_def by (rule GET_VALUE_size_le)

lemma GET_UINT16_size_le: "GET_UINT16 s = Some (a, s1) \<Longrightarrow> ps_size s1 \<le> ps_size s"
  unfolding GET_UINT16_def by (rule GET_VALUE_size_le)

lemma GET_UINT32_size_le: "GET_UINT32 s = Some (a, s1) \<Longrightarrow> ps_size s1 \<le> ps_size s"
  unfolding GET_UINT32_def by (rule GET_VALUE_size_le)

lemma ps_size_move: "ps_size (s\<lparr>ps_p := ps_p s + n\<rparr>) \<le> ps_size s"
  by (simp add: ps_size_def)

lemma GET_STRING_size_le: "GET_STRING s = Some (a, s1) \<Longrightarrow> ps_size s1 \<le> ps_size s"
  unfolding GET_STRING_def
  by (auto split: option.splits prod.splits if_splits dest!: GET_UINT16_size_le intro: order_trans ps_size_move)

lemma GET_tele_size_le:
  "GET_UINT16 s = Some (a, s1) \<Longrightarrow> GET_UINT16 s1 = Some (b, s2) \<Longrightarrow> GET_UINT8 s2 = Some (c, s3) \<Longrightarrow>
   ps_size s3 \<le> ps_size s"
  by (drule GET_UINT16_size_le, drule GET_UINT16_size_le, drule GET_UINT8_size_le) simp

lemmas GET_size_le = GET_UINT8_size_le GET_UINT16_size_le GET_UINT32_size_le GET_STRING_size_le GET_tele_size_le

lemma readAttr_size:
  assumes "readAttr items attr i s = Some ((v, i'), s')"
  shows "ps_size s' \<le> ps_size s"
  using assms unfolding readAttr_def
  by (auto split: if_splits option.splits prod.splits elim!: read_then_size dest: GET_size_le)

function unserializeAttr :: "Items \<Rightarrow> Item \<Rightarrow> PropStream \<Rightarrow> ((bool \<times> Item) \<times> PropStream) option" where
  "unserializeAttr items i s =
     (case GET_UINT8 s of
        None \<Rightarrow> Some ((True, i), s)
      | Some (attr_type, s1) \<Rightarrow>
          if attr_type = 0 then Some ((True, i), s1)
          else (case readAttr items attr_type i s1 of
                  None \<Rightarrow> None
                | Some ((ATTR_READ_ERROR, i1), s2) \<Rightarrow> Some ((False, i1), s2)
                | Some ((ATTR_READ_END, i1), s2) \<Rightarrow> Some ((True, i1), s2)
                | Some ((ATTR_READ_CONTINUE, i1), s2) \<Rightarrow> unserializeAttr items i1 s2))"
  by pat_completeness auto
termination
  by (relation "measure (\<lambda>(items, i, s). nat (ps_size s))")
    (auto dest!: GET_UINT8_size readAttr_size)

declare unserializeAttr.simps [simp del]

definition serializeAttr :: "Items \<Rightarrow> Item \<Rightarrow> PropWriteStream \<Rightarrow> PropWriteStream option" where
  "serializeAttr items i w = do {
     let it = item_type items i;
     w \<leftarrow> (if it_stackable it \<or> isSplash it \<or> isFluidContainer it
           then do { c \<leftarrow> getSubType items i; w \<leftarrow> ADD_UINT8 ATTR_COUNT w; ADD_UINT8 (ucast c) w }
           else Some w);
     w \<leftarrow> (if it_charges it \<noteq> 0
           then do { c \<leftarrow> getCharges (attrs i); w \<leftarrow> ADD_UINT8 ATTR_RUNE_CHARGES w; ADD_UINT8 (ucast c) w }
           else Some w);
     w \<leftarrow> (if it_moveable it
           then do { a \<leftarrow> getActionId (attrs i);
                     if a \<noteq> 0 then do { w \<leftarrow> ADD_UINT8 ATTR_ACTION_ID w; ADD_UINT16 a w } else Some w }
           else Some w);
     t \<leftarrow> getText (attrs i);
     w \<leftarrow> (if length t > 0 then do { w \<leftarrow> ADD_UINT8 ATTR_TEXT w; ADD_STRING t w } else Some w);
     t \<leftarrow> getWriter (attrs i);
     w \<leftarrow> (if length t > 0 then do { w \<leftarrow> ADD_UINT8 ATTR_WRITTENBY w; ADD_STRING t w } else Some w);
     t \<leftarrow> getSpecialDescription (attrs i);
     w \<leftarrow> (if length t > 0 then do { w \<leftarrow> ADD_UINT8 ATTR_DESC w; ADD_STRING t w } else Some w);
     d \<leftarrow> getDuration (attrs i);
     w \<leftarrow> (if d \<noteq> 0 then do { w \<leftarrow> ADD_UINT8 ATTR_DURATION w; ADD_UINT32 (word_of_int d) w } else Some w);
     d \<leftarrow> getDecaying (attrs i);
     if d = 1 \<or> d = 2 then do { w \<leftarrow> ADD_UINT8 ATTR_DECAYING_STATE w; ADD_UINT8 (ucast d) w } else Some w
   }"

section \<open>Items in network messages\<close>

definition AddItem_id :: "Items \<Rightarrow> u16 \<Rightarrow> u8 \<Rightarrow> NetworkMessage \<Rightarrow> NetworkMessage option" where
  "AddItem_id items ident cnt m =
     (let it = getItemType items (uint ident) in
      case AddU16 (it_clientId it) m of
        None \<Rightarrow> None
      | Some m1 \<Rightarrow> if it_stackable it \<or> isSplash it \<or> isFluidContainer it then AddByte cnt m1 else Some m1)"

definition AddItem :: "Items \<Rightarrow> Item \<Rightarrow> NetworkMessage \<Rightarrow> NetworkMessage option" where
  "AddItem items i m =
     (let it = item_type items i in
      case AddU16 (it_clientId it) m of
        None \<Rightarrow> None
      | Some m1 \<Rightarrow>
          if it_stackable it \<or> isSplash it \<or> isFluidContainer it
          then (case getSubType items i of None \<Rightarrow> None | Some n \<Rightarrow> AddByte (ucast n) m1)
          else Some m1)"

definition AddItemId :: "Items \<Rightarrow> u16 \<Rightarrow> NetworkMessage \<Rightarrow> NetworkMessage option" where
  "AddItemId items ident m = AddU16 (it_clientId (getItemType items (uint ident))) m"

section \<open>Items in practice\<close>

text \<open>By \<open>attributes_never_stored\<close> the attributes of an item never leave their initial value.
  The facts below are about items in that state.\<close>

definition plain_item :: "Item \<Rightarrow> bool" where
  "plain_item i \<longleftrightarrow> m_attributes i = [] \<and> m_attrFlags i = 0"

lemma attrs_plain: "plain_item i \<Longrightarrow> attrs i = new_ItemAttributes"
  by (simp add: plain_item_def attrs_def new_ItemAttributes_def ItemAttributes.truncate_def)

lemma on_attrs_plain:
  assumes "plain_item i" "f new_ItemAttributes = Some new_ItemAttributes"
  shows "on_attrs f i = Some i"
proof -
  from assms(1) have "i\<lparr>m_attributes := [], m_attrFlags := 0\<rparr> = i"
    by (cases i) (simp add: plain_item_def)
  with assms show ?thesis by (simp add: on_attrs_def attrs_plain) (simp add: new_ItemAttributes_def)
qed

lemma setters_new:
  "setCharges n new_ItemAttributes = Some new_ItemAttributes"
  "setFluidType n new_ItemAttributes = Some new_ItemAttributes"
  "setDuration d new_ItemAttributes = Some new_ItemAttributes"
  "setActionId n new_ItemAttributes = Some new_ItemAttributes"
  "setUniqueIdAttr n new_ItemAttributes = Some new_ItemAttributes"
  "setDecaying s new_ItemAttributes = Some new_ItemAttributes"
  using attr_step_new [of "OpSetCharges n"] attr_step_new [of "OpSetFluidType n"] attr_step_new [of "OpSetDuration d"]
    attr_step_new [of "OpSetActionId n"] attr_step_new [of "OpSetUniqueId n"] attr_step_new [of "OpSetDecaying s"]
  by simp_all

lemma setSubType_plain:
  "plain_item i \<Longrightarrow> setSubType items n i = Some
     (if isFluidContainer (item_type items i) \<or> isSplash (item_type items i) \<or> it_charges (item_type items i) \<noteq> 0
      then i else i\<lparr>i_count := ucast n\<rparr>)"
  by (simp add: setSubType_def Let_def on_attrs_plain setters_new)

lemma getSubType_plain:
  "plain_item i \<Longrightarrow> getSubType items i = Some
     (if isFluidContainer (item_type items i) \<or> isSplash (item_type items i) \<or> it_charges (item_type items i) \<noteq> 0
      then 0 else ucast (i_count i))"
  by (simp add: getSubType_def Let_def attrs_plain getters_new)

lemma new_Item_eq:
  "new_Item items ident cnt = Some \<lparr>m_attributes = [], m_attrFlags = 0, i_id = ident,
     i_count = (let it = getItemType items (uint ident) in
       if \<not> isFluidContainer it \<and> \<not> isSplash it \<and> it_stackable it \<and> cnt \<noteq> 0 then ucast cnt else 1),
     i_loadedOnMap = False\<rparr>"
proof -
  let ?r = "\<lambda>c. \<lparr>m_attributes = [], m_attrFlags = 0, i_id = ident, i_count = c, i_loadedOnMap = False\<rparr>"
  have s: "on_attrs (setCharges n) (?r c) = Some (?r c)" "on_attrs (setFluidType n) (?r c) = Some (?r c)"
    "on_attrs (setDuration d) (?r c) = Some (?r c)" for n d c
    by (rule on_attrs_plain, simp add: plain_item_def, simp add: setters_new)+
  show ?thesis by (simp add: new_Item_def Let_def s setDefaultDuration_def)
qed

lemma new_Item_plain: "new_Item items ident cnt = Some i \<Longrightarrow> plain_item i"
  by (auto simp: new_Item_eq plain_item_def)

text \<open>
  Fluid containers and splashes never hold a fluid, and items with charges never have one:
  whatever sub type an item of such a type is created with and then given, its sub
  type stays 0.
\<close>
theorem subtype_stays_zero:
  assumes "isFluidContainer (getItemType items (uint ident)) \<or> isSplash (getItemType items (uint ident)) \<or>
    it_charges (getItemType items (uint ident)) \<noteq> 0"
  shows "\<exists>i. new_Item items ident cnt = Some i \<and> getSubType items i = Some 0 \<and>
    setSubType items n i = Some i"
proof -
  obtain i where i: "new_Item items ident cnt = Some i" by (simp add: new_Item_eq)
  then have "plain_item i" "i_id i = ident" by (auto simp: new_Item_eq plain_item_def)
  with i assms show ?thesis
    by (auto simp: getSubType_plain setSubType_plain item_type_def)
qed

theorem subtype_stays_zero_witness:
  "\<exists>i. new_Item (new_Items\<lparr>is_items := [Some (new_ItemType\<lparr>it_group := ITEM_GROUP_FLUID\<rparr>)]\<rparr>) 0 7 = Some i \<and>
    getSubType (new_Items\<lparr>is_items := [Some (new_ItemType\<lparr>it_group := ITEM_GROUP_FLUID\<rparr>)]\<rparr>) i = Some 0 \<and>
    setSubType (new_Items\<lparr>is_items := [Some (new_ItemType\<lparr>it_group := ITEM_GROUP_FLUID\<rparr>)]\<rparr>) 3 i = Some i"
  by (rule subtype_stays_zero) (simp add: getItemType_def getElement_def isFluidContainer_def)

section \<open>Items through the attribute stream\<close>

text \<open>
  The attribute stream of an item whose attributes are present. The serialiser writes a list of
  fields, each a tag and a value; the reader takes them one by one.
\<close>

definition attr_int :: "ItemAttrType \<Rightarrow> Item \<Rightarrow> int" where
  "attr_int ty i = (case getAttr ty (attrs i) of Some (AInteger n) \<Rightarrow> n | _ \<Rightarrow> 0)"

definition attr_str :: "ItemAttrType \<Rightarrow> Item \<Rightarrow> u8 list" where
  "attr_str ty i = (case getAttr ty (attrs i) of Some (AString t) \<Rightarrow> t | _ \<Rightarrow> [])"

text \<open>Attributes of the right kinds and sizes, with the flags of the strings that are present.\<close>

fun attr_typed :: "ItemAttrType \<times> attr_value \<Rightarrow> bool" where
  "attr_typed (ty, AInteger n) \<longleftrightarrow> validateIntAttrType ty \<and> - (2 ^ 31) \<le> n \<and> n < 2 ^ 31"
| "attr_typed (ty, AString t) \<longleftrightarrow> validateStrAttrType ty \<and> length t < 65536"

definition typed_attrs :: "Item \<Rightarrow> bool" where
  "typed_attrs i \<longleftrightarrow> list_all attr_typed (m_attributes i) \<and>
     list_all (\<lambda>ty. m_attrFlags i AND ty \<noteq> 0 \<longleftrightarrow> getAttr ty (attrs i) \<noteq> None)
       [ATTR_ITEM_DESC, ATTR_ITEM_TEXT, ATTR_ITEM_WRITTENBY]"

text \<open>The attributes that reach the reader, and the value they have there.\<close>

definition received :: "Items \<Rightarrow> Item \<Rightarrow> (ItemAttrType \<times> attr_value) list" where
  "received items i =
     (let it = item_type items i; num = (\<lambda>ty. attr_int ty i); str = (\<lambda>ty. attr_str ty i) in
      (if isFluidContainer it \<or> isSplash it
       then [(ATTR_ITEM_FLUIDTYPE, AInteger (num (if it_charges it = 0 then ATTR_ITEM_FLUIDTYPE else ATTR_ITEM_CHARGES) mod 256))]
       else if it_charges it \<noteq> 0 then [(ATTR_ITEM_CHARGES, AInteger (num ATTR_ITEM_CHARGES mod 256))] else []) @
      (if it_moveable it \<and> num ATTR_ITEM_ACTIONID mod 65536 \<noteq> 0
       then [(ATTR_ITEM_ACTIONID, AInteger (max 100 (num ATTR_ITEM_ACTIONID mod 65536)))] else []) @
      (if str ATTR_ITEM_TEXT \<noteq> [] then [(ATTR_ITEM_TEXT, AString (str ATTR_ITEM_TEXT))] else []) @
      (if str ATTR_ITEM_WRITTENBY \<noteq> [] then [(ATTR_ITEM_WRITTENBY, AString (str ATTR_ITEM_WRITTENBY))] else []) @
      (if str ATTR_ITEM_DESC \<noteq> [] then [(ATTR_ITEM_DESC, AString (str ATTR_ITEM_DESC))] else []) @
      (if num ATTR_ITEM_DURATION \<noteq> 0 then [(ATTR_ITEM_DURATION, AInteger (max 0 (num ATTR_ITEM_DURATION)))] else []) @
      (if num ATTR_ITEM_DECAYING \<in> {1, 2} then [(ATTR_ITEM_DECAYING, AInteger 2)] else []))"

definition plain_stack :: "ItemType \<Rightarrow> bool" where
  "plain_stack it \<longleftrightarrow> it_stackable it \<and> \<not> isSplash it \<and> \<not> isFluidContainer it \<and> it_charges it = 0"

lemma ucast_u16_u8 [simp]: "ucast (ucast c :: u16) = (c :: u8)"
  by (rule bit_word_eqI) (auto simp: bit_simps)

text \<open>What the setters do to typed attributes.\<close>

definition put_attr :: "ItemAttrType \<Rightarrow> attr_value \<Rightarrow> Item \<Rightarrow> Item" where
  "put_attr ty v j = j\<lparr>m_attributes := update_attr ty v (m_attributes j)\<rparr>"

lemma attrs_sel [simp]: "m_attributes (attrs i) = m_attributes i" "m_attrFlags (attrs i) = m_attrFlags i"
  by (simp_all add: attrs_def ItemAttributes.truncate_def)

lemma attrs_update: "i\<lparr>m_attributes := m_attributes i, m_attrFlags := m_attrFlags i\<rparr> = i"
  by (cases i) simp

lemma update_attr_absent: "map_of as ty = None \<Longrightarrow> update_attr ty v as = as"
  by (induction as) (auto split: if_splits)

lemma update_attr_keys: "map fst (update_attr ty v as) = map fst as"
  by (induction as) auto

lemma update_attr_typed:
  "list_all attr_typed as \<Longrightarrow> attr_typed (ty, v) \<Longrightarrow> list_all attr_typed (update_attr ty v as)"
  by (induction as) auto

lemma getAttr_put:
  "getAttr t (attrs (put_attr ty v j)) =
     (if t = ty \<and> getAttr ty (attrs j) \<noteq> None then Some v else getAttr t (attrs j))"
  using update_attr_same [of "m_attributes j" ty v] update_attr_other [of t ty v "m_attributes j"]
    update_attr_absent [of "m_attributes j" ty v]
  by (auto simp: getAttr_def put_attr_def)

lemma put_attr_fields [simp]:
  "i_id (put_attr ty v j) = i_id j" "i_count (put_attr ty v j) = i_count j"
  "m_attrFlags (put_attr ty v j) = m_attrFlags j" "i_loadedOnMap (put_attr ty v j) = i_loadedOnMap j"
  "map fst (m_attributes (put_attr ty v j)) = map fst (m_attributes j)"
  "item_type items (put_attr ty v j) = item_type items j"
  by (simp_all add: put_attr_def update_attr_keys item_type_def)

lemma typed_put: "typed_attrs j \<Longrightarrow> attr_typed (ty, v) \<Longrightarrow> typed_attrs (put_attr ty v j)"
  by (auto simp: typed_attrs_def getAttr_put) (auto simp: put_attr_def update_attr_typed)

lemma typed_value:
  assumes "typed_attrs j" "getAttr ty (attrs j) = Some v"
  shows "attr_typed (ty, v)"
  using assms map_of_SomeD [of "m_attributes j" ty v] by (auto simp: typed_attrs_def getAttr_def list_all_iff)

lemma not_both_kinds: "validateIntAttrType ty \<Longrightarrow> validateStrAttrType ty \<Longrightarrow> False"
  by (auto simp: validateIntAttrType_def validateStrAttrType_def)

lemma on_int:
  assumes "typed_attrs j" "validateIntAttrType ty"
  shows "on_attrs (setIntAttr ty n) j = Some (put_attr ty (AInteger n) j)"
proof (cases "getAttr ty (attrs j)")
  case None
  then have "update_attr ty (AInteger n) (m_attributes j) = m_attributes j"
    by (intro update_attr_absent) (simp add: getAttr_def)
  with None assms(2) attrs_update [of j] show ?thesis by (simp add: on_attrs_def setIntAttr_def put_attr_def)
next
  case (Some v)
  with typed_value [OF assms(1) Some] not_both_kinds assms(2) obtain k where "v = AInteger k" by (cases v) auto
  with Some assms(2) show ?thesis by (cases j) (simp add: on_attrs_def setIntAttr_def put_attr_def)
qed

lemma on_str:
  assumes "typed_attrs j" "validateStrAttrType ty" "t \<noteq> []"
  shows "on_attrs (setStrAttr ty t) j = Some (put_attr ty (AString t) j)"
proof (cases "getAttr ty (attrs j)")
  case None
  then have "update_attr ty (AString t) (m_attributes j) = m_attributes j"
    by (intro update_attr_absent) (simp add: getAttr_def)
  moreover have "m_attrFlags j AND ty = 0" using None assms by (auto simp: typed_attrs_def validateStrAttrType_def)
  ultimately show ?thesis using assms(2,3) attrs_update [of j] by (simp add: on_attrs_def setStrAttr_def put_attr_def)
next
  case (Some v)
  with typed_value [OF assms(1) Some] not_both_kinds assms(2) obtain k where "v = AString k" by (cases v) auto
  moreover have "m_attrFlags j AND ty \<noteq> 0" using Some assms by (auto simp: typed_attrs_def validateStrAttrType_def)
  ultimately show ?thesis using Some assms(2,3) by (cases j) (simp add: on_attrs_def setStrAttr_def put_attr_def)
qed

text \<open>The fields the serialiser writes.\<close>

definition sub_byte :: "Items \<Rightarrow> Item \<Rightarrow> u8" where
  "sub_byte items i = (let it = item_type items i in
     if isFluidContainer it \<or> isSplash it then word_of_int (attr_int ATTR_ITEM_FLUIDTYPE i)
     else if it_charges it \<noteq> 0 then word_of_int (attr_int ATTR_ITEM_CHARGES i) else i_count i)"

definition item_fields :: "Items \<Rightarrow> Item \<Rightarrow> (u8 \<times> prop_value) list" where
  "item_fields items i =
     (let it = item_type items i; num = (\<lambda>ty. attr_int ty i); str = (\<lambda>ty. attr_str ty i);
          text = (\<lambda>a ty. if str ty \<noteq> [] then [(a, PStr (str ty))] else []) in
      (if it_stackable it \<or> isSplash it \<or> isFluidContainer it
       then [(ATTR_COUNT, PU8 (sub_byte items i))] else []) @
      (if it_charges it \<noteq> 0 then [(ATTR_RUNE_CHARGES, PU8 (word_of_int (num ATTR_ITEM_CHARGES)))] else []) @
      (if it_moveable it \<and> num ATTR_ITEM_ACTIONID mod 65536 \<noteq> 0
       then [(ATTR_ACTION_ID, PU16 (word_of_int (num ATTR_ITEM_ACTIONID)))] else []) @
      text ATTR_TEXT ATTR_ITEM_TEXT @ text ATTR_WRITTENBY ATTR_ITEM_WRITTENBY @ text ATTR_DESC ATTR_ITEM_DESC @
      (if num ATTR_ITEM_DURATION \<noteq> 0 then [(ATTR_DURATION, PU32 (word_of_int (num ATTR_ITEM_DURATION)))] else []) @
      (if num ATTR_ITEM_DECAYING \<in> {1, 2} then [(ATTR_DECAYING_STATE, PU8 (word_of_int (num ATTR_ITEM_DECAYING)))] else []))"

definition field_props :: "u8 \<times> prop_value \<Rightarrow> prop_value list" where
  "field_props f = [PU8 (fst f), snd f]"

lemma attr_int_range: "typed_attrs i \<Longrightarrow> - (2 ^ 31) \<le> attr_int ty i \<and> attr_int ty i < 2 ^ 31"
  using typed_value [of i ty] by (fastforce simp: attr_int_def split: option.split attr_value.split)

lemma attr_str_length: "typed_attrs i \<Longrightarrow> length (attr_str ty i) < 65536"
  using typed_value [of i ty] by (fastforce simp: attr_str_def split: option.split attr_value.split)

lemma getInt_typed:
  assumes "typed_attrs i" "validateIntAttrType ty"
  shows "getIntAttr ty (attrs i) = Some (word_of_int (attr_int ty i))"
  using typed_value [OF assms(1), of ty] not_both_kinds [OF assms(2)] assms(2)
  by (fastforce simp: getIntAttr_def attr_int_def split: option.split attr_value.split)

lemma getStr_typed:
  assumes "typed_attrs i" "validateStrAttrType ty"
  shows "getStrAttr ty (attrs i) = Some (attr_str ty i)"
proof (cases "getAttr ty (attrs i)")
  case None
  then show ?thesis by (simp add: getStrAttr_def attr_str_def)
next
  case (Some v)
  with typed_value [OF assms(1) Some] not_both_kinds assms(2) obtain k where "v = AString k" by (cases v) auto
  moreover have "m_attrFlags i AND ty \<noteq> 0" using Some assms by (auto simp: typed_attrs_def validateStrAttrType_def)
  ultimately show ?thesis using Some by (simp add: getStrAttr_def attr_str_def)
qed

lemma sint_range: "- (2 ^ 31) \<le> n \<Longrightarrow> n < 2 ^ 31 \<Longrightarrow> sint (word_of_int n :: u32) = n"
  by (simp add: sint_sbintrunc' signed_take_bit_int_eq_self)

lemma ucast_word [simp]: "ucast (word_of_int n :: u16) = (word_of_int n :: u8)" "ucast (word_of_int n :: u32) = (word_of_int n :: u8)"
  "ucast (word_of_int n :: u32) = (word_of_int n :: u16)"
  by (simp_all add: word_uint_eq_iff unsigned_ucast_eq uint_word_of_int take_bit_eq_mod mod_mod_cancel)

lemma getters_typed:
  assumes "typed_attrs i"
  shows "getText (attrs i) = Some (attr_str ATTR_ITEM_TEXT i)"
    "getWriter (attrs i) = Some (attr_str ATTR_ITEM_WRITTENBY i)"
    "getSpecialDescription (attrs i) = Some (attr_str ATTR_ITEM_DESC i)"
    "getActionId (attrs i) = Some (word_of_int (attr_int ATTR_ITEM_ACTIONID i))"
    "getCharges (attrs i) = Some (word_of_int (attr_int ATTR_ITEM_CHARGES i))"
    "getFluidType (attrs i) = Some (word_of_int (attr_int ATTR_ITEM_FLUIDTYPE i))"
    "getDuration (attrs i) = Some (attr_int ATTR_ITEM_DURATION i)"
    "getDecaying (attrs i) = Some (word_of_int (attr_int ATTR_ITEM_DECAYING i))"
  using getStr_typed [OF assms, of ATTR_ITEM_TEXT] getStr_typed [OF assms, of ATTR_ITEM_WRITTENBY]
    getStr_typed [OF assms, of ATTR_ITEM_DESC] getInt_typed [OF assms] attr_int_range [OF assms, of ATTR_ITEM_DURATION]
  by (simp_all add: getText_def getWriter_def getSpecialDescription_def getActionId_def getCharges_def
      getFluidType_def getDuration_def getDecaying_def validateStrAttrType_def validateIntAttrType_def sint_range)

lemma word_zero_mod: "(word_of_int n :: u16) = 0 \<longleftrightarrow> n mod 65536 = 0"
  by (simp add: word_uint_eq_iff uint_word_of_int)

lemma decay_word:
  assumes "- (2 ^ 31) \<le> n" "n < 2 ^ 31"
  shows "(word_of_int n :: u32) = 1 \<longleftrightarrow> n = 1" "(word_of_int n :: u32) = 2 \<longleftrightarrow> n = 2"
proof -
  have "n = sint (word_of_int n :: u32)" using sint_range [OF assms] by simp
  moreover have "sint (1 :: u32) = 1" "sint (2 :: u32) = 2" by simp_all
  ultimately show "(word_of_int n :: u32) = 1 \<longleftrightarrow> n = 1" "(word_of_int n :: u32) = 2 \<longleftrightarrow> n = 2" by auto
qed

lemma add_props_field:
  "add_props (concat (map field_props ((if c then [f] else []) @ fs))) w =
     Option.bind (if c then Option.bind (ADD_UINT8 (fst f) w) (add_prop (snd f)) else Some w)
       (\<lambda>w. add_props (concat (map field_props fs)) w)"
  by (auto simp: field_props_def split: option.split)

lemma add_prop_fun: "add_prop (PU8 b) = ADD_UINT8 b" "add_prop (PU16 n) = ADD_UINT16 n"
  "add_prop (PU32 d) = ADD_UINT32 d" "add_prop (PStr t) = ADD_STRING t"
  by (simp_all add: fun_eq_iff)

lemma if_and: "(if P then if Q then a else b else b) = (if P \<and> Q then a else b)"
  by simp

lemma add_props_last:
  "add_props (concat (map field_props (if c then [f] else []))) w =
     (if c then Option.bind (ADD_UINT8 (fst f) w) (add_prop (snd f)) else Some w)"
  by (auto simp: field_props_def split: option.split)

lemma getSubType_typed:
  assumes "typed_attrs i"
  obtains n where "getSubType items i = Some n" "ucast n = sub_byte items i"
proof -
  have "\<exists>n. getSubType items i = Some n \<and> ucast n = sub_byte items i"
    using getters_typed [OF assms] by (simp add: getSubType_def Let_def sub_byte_def)
  with that show ?thesis by blast
qed

lemma serializeAttr_fields:
  assumes "typed_attrs i"
  shows "serializeAttr items i w = add_props (concat (map field_props (item_fields items i))) w"
proof -
  have "- (2 ^ 31) \<le> attr_int ATTR_ITEM_DECAYING i" "attr_int ATTR_ITEM_DECAYING i < 2 ^ 31"
    using attr_int_range [OF assms, of ATTR_ITEM_DECAYING] by simp_all
  note d = decay_word [OF this]
  obtain n where n: "getSubType items i = Some n" "ucast n = sub_byte items i"
    using getSubType_typed [OF assms] .
  show ?thesis
    unfolding serializeAttr_def item_fields_def Let_def add_props_field add_props_last
    by (simp only: if_and d getters_typed [OF assms] n word_zero_mod insert_iff empty_iff bind.bind_lunit
        fst_conv snd_conv add_prop_fun ucast_word length_greater_0_conv simp_thms)
qed

text \<open>One field after the other is taken by the reader.\<close>

fun field_ok :: "u8 \<times> prop_value \<Rightarrow> bool" where
  "field_ok (a, PU8 c) \<longleftrightarrow> a = ATTR_COUNT \<or> a = ATTR_RUNE_CHARGES \<or> (a = ATTR_DECAYING_STATE \<and> c \<noteq> 0)"
| "field_ok (a, PU16 v) \<longleftrightarrow> a = ATTR_ACTION_ID"
| "field_ok (a, PU32 v) \<longleftrightarrow> a = ATTR_DURATION"
| "field_ok (a, PStr t) \<longleftrightarrow> (a = ATTR_TEXT \<or> a = ATTR_WRITTENBY \<or> a = ATTR_DESC) \<and> t \<noteq> [] \<and> length t < 65536"

fun field_put :: "ItemType \<Rightarrow> u8 \<times> prop_value \<Rightarrow> (ItemAttrType \<times> attr_value) option" where
  "field_put it (a, PU8 c) =
     (if a = ATTR_DECAYING_STATE then Some (ATTR_ITEM_DECAYING, AInteger 2)
      else if isFluidContainer it \<or> isSplash it then Some (ATTR_ITEM_FLUIDTYPE, AInteger (uint c))
      else if it_charges it \<noteq> 0 then Some (ATTR_ITEM_CHARGES, AInteger (uint c)) else None)"
| "field_put it (a, PU16 v) = Some (ATTR_ITEM_ACTIONID, AInteger (max 100 (uint v)))"
| "field_put it (a, PU32 v) = Some (ATTR_ITEM_DURATION, AInteger (max 0 (sint v)))"
| "field_put it (a, PStr t) = Some (if a = ATTR_TEXT then ATTR_ITEM_TEXT else if a = ATTR_WRITTENBY then ATTR_ITEM_WRITTENBY
     else ATTR_ITEM_DESC, AString t)"

fun field_byte :: "u8 \<times> prop_value \<Rightarrow> u8" where
  "field_byte (a, PU8 c) = c" | "field_byte _ = 0"

definition take_field :: "ItemType \<Rightarrow> u8 \<times> prop_value \<Rightarrow> Item \<Rightarrow> Item" where
  "take_field it f j = (case field_put it f of Some (ty, v) \<Rightarrow> put_attr ty v j | None \<Rightarrow> j\<lparr>i_count := field_byte f\<rparr>)"

lemma field_put_typed: "field_ok f \<Longrightarrow> field_put it f = Some (ty, v) \<Longrightarrow> attr_typed (ty, v)"
proof (induction it f rule: field_put.induct)
  case (1 it a c)
  have "uint c < 2 ^ 8" using uint_lt2p [of c] by simp
  moreover have "- (2 ^ 31) \<le> uint c" by (rule order_trans [of _ 0]) simp_all
  ultimately have "- (2 ^ 31) \<le> uint c" "uint c < 2 ^ 31" by simp_all
  with 1 show ?case by (auto simp: validateIntAttrType_def split: if_splits)
next
  case (2 it a w)
  have "uint w < 2 ^ 16" using uint_lt2p [of w] by simp
  with 2 show ?case by (auto simp: validateIntAttrType_def)
next
  case (3 it a w)
  have "sint w < 2 ^ 31" using sint_lt [of w] by simp
  with 3 show ?case by (auto simp: validateIntAttrType_def)
qed (auto simp: validateStrAttrType_def split: if_splits)

lemma count_typed [simp]: "typed_attrs (j\<lparr>i_count := c\<rparr>) = typed_attrs j"
  "item_type items (j\<lparr>i_count := c\<rparr>) = item_type items j" "attrs (j\<lparr>i_count := c\<rparr>) = attrs j"
  by (simp_all add: typed_attrs_def item_type_def attrs_def ItemAttributes.truncate_def)

lemma take_field_typed: "typed_attrs j \<Longrightarrow> field_ok f \<Longrightarrow> typed_attrs (take_field it f j)"
  by (auto simp: take_field_def field_put_typed typed_put split: option.split)

lemma take_field_type [simp]: "item_type items (take_field it f j) = item_type items j"
  by (auto simp: take_field_def split: option.split)

lemma setSubType_typed:
  assumes "typed_attrs j"
  shows "setSubType items (ucast c) j = Some
    (take_field (item_type items j) (ATTR_COUNT, PU8 c) j)"
proof -
  have "validateIntAttrType ATTR_ITEM_FLUIDTYPE" "validateIntAttrType ATTR_ITEM_CHARGES" by (simp_all add: validateIntAttrType_def)
  moreover have "uint (ucast c :: u16) = uint c" by (simp add: uint_up_ucast is_up)
  ultimately show ?thesis using on_int [OF assms, of _ "uint c"]
    by (simp add: setSubType_def Let_def take_field_def setFluidType_def [abs_def] setCharges_def [abs_def])
qed

lemma action_max: "uint (if n < 100 then 100 else n) = max 100 (uint n)" for n :: u16
  by (auto simp: word_less_def max_def not_less)

lemma readAttr_field:
  assumes "typed_attrs j" "field_ok f" "ps_wf s" "ps_rest s = concat (prop_chunks (snd f)) @ r"
  shows "\<exists>s'. readAttr items (fst f) j s = Some ((ATTR_READ_CONTINUE, take_field (item_type items j) f j), s') \<and>
    ps_rest s' = r \<and> ps_wf s'"
proof (cases f)
  case (Pair a v)
  show ?thesis
  proof (cases v)
    case (PU8 c)
    with Pair assms GET_UINT8_Cons [of s c r] obtain s' where
      s': "GET_UINT8 s = Some (c, s')" "ps_rest s' = r" "ps_wf s'" by auto
    have "on_attrs (setDecaying DECAYING_PENDING) j = Some (put_attr ATTR_ITEM_DECAYING (AInteger 2) j)"
      using on_int [OF assms(1), of ATTR_ITEM_DECAYING 2] by (simp add: setDecaying_def [abs_def] validateIntAttrType_def)
    with s' Pair PU8 assms(2) setSubType_typed [OF assms(1), of items c] show ?thesis
      by (auto simp: readAttr_def read_then_def take_field_def)
  next
    case (PU16 n)
    with Pair assms GET_UINT16_append [of s n r] obtain s' where
      s': "GET_UINT16 s = Some (n, s')" "ps_rest s' = r" "ps_wf s'" by auto
    have "on_attrs (setActionId n) j = Some (put_attr ATTR_ITEM_ACTIONID (AInteger (max 100 (uint n))) j)"
      using on_int [OF assms(1), of ATTR_ITEM_ACTIONID] by (simp add: setActionId_def [abs_def] action_max validateIntAttrType_def)
    with s' Pair PU16 assms(2) show ?thesis by (auto simp: readAttr_def read_then_def take_field_def)
  next
    case (PU32 d)
    with Pair assms GET_UINT32_append [of s d r] obtain s' where
      s': "GET_UINT32 s = Some (d, s')" "ps_rest s' = r" "ps_wf s'" by auto
    have "on_attrs (setDuration (if sint d < 0 then 0 else sint d)) j = Some (put_attr ATTR_ITEM_DURATION (AInteger (max 0 (sint d))) j)"
      using on_int [OF assms(1), of ATTR_ITEM_DURATION] by (auto simp: setDuration_def [abs_def] validateIntAttrType_def max_def)
    with s' Pair PU32 assms(2) show ?thesis by (auto simp: readAttr_def read_then_def take_field_def)
  next
    case (PStr t)
    with Pair assms GET_STRING_append [of s t r] obtain s' where
      s': "GET_STRING s = Some (t, s')" "ps_rest s' = r" "ps_wf s'" by auto
    have t: "t \<noteq> []" using Pair PStr assms(2) by simp
    have "on_attrs (setText t) j = Some (put_attr ATTR_ITEM_TEXT (AString t) j)"
      "on_attrs (setWriter t) j = Some (put_attr ATTR_ITEM_WRITTENBY (AString t) j)"
      "on_attrs (setSpecialDescription t) j = Some (put_attr ATTR_ITEM_DESC (AString t) j)"
      using on_str [OF assms(1) _ t]
      by (simp_all add: setText_def [abs_def] setWriter_def [abs_def] setSpecialDescription_def [abs_def] validateStrAttrType_def)
    with s' Pair PStr assms(2) show ?thesis by (auto simp: readAttr_def read_then_def take_field_def)
  qed
qed

lemma field_tag: "field_ok f \<Longrightarrow> fst f \<noteq> 0"
  by (cases f rule: field_ok.cases) auto

lemma unserialize_fields:
  assumes "list_all field_ok fs" "typed_attrs j" "ps_wf s" "ps_rest s = concat (concat (map prop_chunks (concat (map field_props fs))))"
  shows "\<exists>s'. unserializeAttr items j s = Some ((True, fold (take_field (item_type items j)) fs j), s') \<and> ps_rest s' = []"
  using assms
proof (induction fs arbitrary: j s)
  case Nil
  then show ?case by (subst unserializeAttr.simps) (simp add: GET_UINT8_Nil)
next
  case (Cons f fs)
  let ?r = "concat (concat (map prop_chunks (concat (map field_props fs))))"
  have "ps_rest s = fst f # concat (prop_chunks (snd f)) @ ?r" using Cons.prems(4) by (simp add: field_props_def [of f])
  from GET_UINT8_Cons [OF Cons.prems(3) this] obtain s1 where
    s1: "GET_UINT8 s = Some (fst f, s1)" "ps_rest s1 = concat (prop_chunks (snd f)) @ ?r" "ps_wf s1" by blast
  have f: "field_ok f" using Cons.prems(1) by simp
  from readAttr_field [OF Cons.prems(2) f s1(3,2), of items] obtain s2 where
    s2: "readAttr items (fst f) j s1 = Some ((ATTR_READ_CONTINUE, take_field (item_type items j) f j), s2)"
      "ps_rest s2 = ?r" "ps_wf s2" by blast
  have "unserializeAttr items j s = unserializeAttr items (take_field (item_type items j) f j) s2"
    using s1(1) s2(1) field_tag [OF f] by (subst unserializeAttr.simps) simp
  with Cons.IH [OF _ take_field_typed [OF Cons.prems(2) f] s2(3,2)] Cons.prems(1) show ?case by simp
qed

text \<open>All fields together.\<close>

lemma getAttr_take:
  "getAttr ty (attrs (take_field it f j)) =
     (case field_put it f of Some (k, v) \<Rightarrow> if ty = k \<and> getAttr k (attrs j) \<noteq> None then Some v else getAttr ty (attrs j)
      | None \<Rightarrow> getAttr ty (attrs j))"
  by (auto simp: take_field_def getAttr_put split: option.split)

lemma getAttr_takes:
  "getAttr ty (attrs (fold (take_field it) fs j)) =
     (if getAttr ty (attrs j) = None then None
      else case map_of (rev (List.map_filter (field_put it) fs)) ty of Some v \<Rightarrow> Some v | None \<Rightarrow> getAttr ty (attrs j))"
proof (induction fs arbitrary: j)
  case Nil
  then show ?case by (simp add: List.map_filter_simps)
next
  case (Cons f fs)
  show ?case
    unfolding fold_simps Cons.IH getAttr_take
    by (auto simp: List.map_filter_simps map_add_def split: option.split)
qed

lemma takes_fields:
  "i_id (fold (take_field it) fs j) = i_id j" "m_attrFlags (fold (take_field it) fs j) = m_attrFlags j"
  "i_loadedOnMap (fold (take_field it) fs j) = i_loadedOnMap j"
  "map fst (m_attributes (fold (take_field it) fs j)) = map fst (m_attributes j)"
  by (induction fs arbitrary: j) (auto simp: take_field_def split: option.splits)

lemma map_filter_append: "List.map_filter f (xs @ ys) = List.map_filter f xs @ List.map_filter f ys"
  by (simp add: List.map_filter_def)

lemma map_of_received:
  "map_of (rev (xs @ ys)) t = (case map_of (rev ys) t of Some v \<Rightarrow> Some v | None \<Rightarrow> map_of (rev xs) t)"
  "map_of (rev (List.map_filter g (if c then [f] else []))) t =
    (if c then (case g f of Some (k, v) \<Rightarrow> if t = k then Some v else None | None \<Rightarrow> None) else None)"
  by (auto simp: map_add_def split: option.split)

lemma map_of_sent:
  "map_of (xs @ ys) t = (case map_of xs t of Some v \<Rightarrow> Some v | None \<Rightarrow> map_of ys t)"
  "map_of (if c then [(k, v)] else zs) t = (if c then if t = k then Some v else None else map_of zs t)"
  by (auto simp: map_add_def split: option.split)

lemma fields_received:
  assumes "typed_attrs i"
  shows "map_of (rev (List.map_filter (field_put (item_type items i)) (item_fields items i))) ty =
    map_of (received items i) ty"
proof -
  have d: "sint (word_of_int (attr_int ATTR_ITEM_DURATION i) :: u32) = attr_int ATTR_ITEM_DURATION i"
    using attr_int_range [OF assms, of ATTR_ITEM_DURATION] by (simp add: sint_range)
  consider "ty = ATTR_ITEM_FLUIDTYPE" | "ty = ATTR_ITEM_CHARGES" | "ty = ATTR_ITEM_ACTIONID" | "ty = ATTR_ITEM_TEXT"
    | "ty = ATTR_ITEM_WRITTENBY" | "ty = ATTR_ITEM_DESC" | "ty = ATTR_ITEM_DURATION" | "ty = ATTR_ITEM_DECAYING"
    | "ty \<notin> {ATTR_ITEM_FLUIDTYPE, ATTR_ITEM_CHARGES, ATTR_ITEM_ACTIONID, ATTR_ITEM_TEXT, ATTR_ITEM_WRITTENBY,
        ATTR_ITEM_DESC, ATTR_ITEM_DURATION, ATTR_ITEM_DECAYING}" by auto
  then show ?thesis
    unfolding item_fields_def received_def Let_def map_filter_append map_of_received map_of_sent
    by (cases; simp add: d sub_byte_def uint_word_of_int split del: if_split cong: option.case_cong if_cong;
        auto simp: d sub_byte_def uint_word_of_int)
qed

lemma item_fields_ok:
  assumes "typed_attrs i"
  shows "list_all field_ok (item_fields items i)"
proof -
  have "(word_of_int 1 :: u8) \<noteq> 0" "(word_of_int 2 :: u8) \<noteq> 0" by simp_all
  then show ?thesis using attr_str_length [OF assms] by (auto simp: item_fields_def Let_def)
qed

lemma fields_count:
  "i_count (fold (take_field (item_type items i)) (item_fields items i) j) =
     (if plain_stack (item_type items i) then i_count i else i_count j)"
  by (simp add: item_fields_def Let_def plain_stack_def fold_append take_field_def sub_byte_def)

lemma item_fields_small:
  assumes "typed_attrs i"
  shows "32 + props_cost (concat (map field_props (item_fields items i))) < 2 ^ 32"
proof -
  have one: "props_cost (field_props f) \<le> 70000" if "field_ok f" for f
    using that by (cases f rule: field_ok.cases) (auto simp: field_props_def props_cost_def)
  have all: "props_cost (concat (map field_props fs)) \<le> 70000 * length fs" if "list_all field_ok fs" for fs
    using that
  proof (induction fs)
    case (Cons f fs)
    then have "props_cost (field_props f) \<le> 70000" using one by simp
    with Cons show ?case by (simp add: props_cost_def)
  qed (simp add: props_cost_def)
  have "length (item_fields items i) \<le> 8" by (simp add: item_fields_def Let_def)
  with all [OF item_fields_ok [OF assms, of items]] show ?thesis by simp
qed

lemma fields_props_ok: "list_all field_ok fs \<Longrightarrow> list_all prop_ok (concat (map field_props fs))"
proof (induction fs)
  case (Cons f fs)
  then show ?case by (cases f rule: field_ok.cases) (auto simp: field_props_def)
qed simp



text \<open>
  An attribute stream that carries an empty text aborts the server: the reader hands the
  string to a setter that asserts that it is not empty. The serialiser never writes one, but the
  stream may come from a map file.
\<close>
theorem empty_text_aborts:
  "unserializeAttr items i (ps_init [ATTR_TEXT, 0, 0]) = None"
proof -
  obtain s1 where s1: "GET_UINT8 (ps_init [ATTR_TEXT, 0, 0]) = Some (ATTR_TEXT, s1)" "ps_rest s1 = [0, 0]" "ps_wf s1"
    using GET_UINT8_Cons [of "ps_init [ATTR_TEXT, 0, 0]" ATTR_TEXT "[0, 0]"] by auto
  have "ps_rest s1 = le_bytes 2 (word_of_nat (length ([] :: u8 list)) :: u16) @ [] @ []"
    using s1(2) by (simp add: numeral_2_eq_2)
  from GET_STRING_append [OF s1(3) this] obtain s2 where "GET_STRING s1 = Some ([], s2)" by auto
  then have "readAttr items ATTR_TEXT i s1 = None"
    by (simp add: readAttr_def read_then_def on_attrs_def setText_def setStrAttr_def)
  with s1(1) show ?thesis by (subst unserializeAttr.simps) simp
qed

end
