(* ===== verification/ProtocolCrypt.thy ===== *)
theory ProtocolCrypt
  imports NetMsg
begin

text \<open>
  The message framing and encryption of the protocol (\<^verbatim>\<open>Source/protocol.cpp\<close>,
  \<^verbatim>\<open>Source/outputmessage.h\<close>), the part compiled with \<^verbatim>\<open>__PROTOCOL_77__\<close>: the length word, the
  XTEA rounds over the body, the header in front of it, and the receiving side. The key is the
  four words of \<^verbatim>\<open>m_key\<close>; the RSA step is left out.
\<close>

record OutputMessage =
  om_msg :: NetworkMessage
  m_outputBufferStart :: nat

section \<open>Headers\<close>

definition writeMessageLength :: "OutputMessage \<Rightarrow> OutputMessage option" where
  "writeMessageLength om = map_option
     (\<lambda>buf. om\<lparr>om_msg := (om_msg om)\<lparr>m_MsgBuf := buf, m_MsgSize := m_MsgSize (om_msg om) + 2\<rparr>,
               m_outputBufferStart := 2\<rparr>)
     (write_at 2 (le_bytes 2 (word_of_int (m_MsgSize (om_msg om)) :: u16)) (m_MsgBuf (om_msg om)))"

definition addCryptoHeader :: "OutputMessage \<Rightarrow> OutputMessage option" where
  "addCryptoHeader om = map_option
     (\<lambda>buf. om\<lparr>om_msg := (om_msg om)\<lparr>m_MsgBuf := buf, m_MsgSize := m_MsgSize (om_msg om) + 2\<rparr>,
               m_outputBufferStart := 0\<rparr>)
     (write_at 0 (le_bytes 2 (word_of_int (m_MsgSize (om_msg om)) :: u16)) (m_MsgBuf (om_msg om)))"

section \<open>The cipher\<close>

abbreviation xtea_delta :: u32 where "xtea_delta \<equiv> 0x61C88647"

definition xtea_mix :: "u32 \<Rightarrow> u32" where
  "xtea_mix v = (push_bit 4 v XOR drop_bit 5 v) + v"

definition xtea_enc_round :: "u32 list \<Rightarrow> u32 \<times> u32 \<times> u32 \<Rightarrow> u32 \<times> u32 \<times> u32" where
  "xtea_enc_round k = (\<lambda>(v0, v1, sum).
     let v0' = v0 + (xtea_mix v1 XOR (sum + k ! unat (sum AND 3)));
         sum' = sum - xtea_delta;
         v1' = v1 + (xtea_mix v0' XOR (sum' + k ! unat (drop_bit 11 sum' AND 3)))
     in (v0', v1', sum'))"

definition xtea_dec_round :: "u32 list \<Rightarrow> u32 \<times> u32 \<times> u32 \<Rightarrow> u32 \<times> u32 \<times> u32" where
  "xtea_dec_round k = (\<lambda>(v0, v1, sum).
     let v1' = v1 - (xtea_mix v0 XOR (sum + k ! unat (drop_bit 11 sum AND 3)));
         sum' = sum + xtea_delta;
         v0' = v0 - (xtea_mix v1' XOR (sum' + k ! unat (sum' AND 3)))
     in (v0', v1', sum'))"

definition xtea_enc_block :: "u32 list \<Rightarrow> u32 \<times> u32 \<Rightarrow> u32 \<times> u32" where
  "xtea_enc_block k = (\<lambda>(v0, v1). let (w0, w1, _) = (xtea_enc_round k ^^ 32) (v0, v1, 0) in (w0, w1))"

definition xtea_dec_block :: "u32 list \<Rightarrow> u32 \<times> u32 \<Rightarrow> u32 \<times> u32" where
  "xtea_dec_block k = (\<lambda>(v0, v1). let (w0, w1, _) = (xtea_dec_round k ^^ 32) (v0, v1, 0xC6EF3720) in (w0, w1))"

text \<open>The loop over the 32-bit words of the body, two at a time.\<close>

fun xtea_blocks :: "(u32 \<times> u32 \<Rightarrow> u32 \<times> u32) \<Rightarrow> nat \<Rightarrow> u8 list \<Rightarrow> u8 list option" where
  "xtea_blocks f 0 bs = Some bs"
| "xtea_blocks f (Suc n) bs =
     (if length bs < 8 then None
      else let (v0, v1) = f (le_value (take 4 bs), le_value (take 4 (drop 4 bs)))
           in map_option (\<lambda>r. le_bytes 4 v0 @ le_bytes 4 v1 @ r) (xtea_blocks f n (drop 8 bs)))"

text \<open>The number of turns of \<^verbatim>\<open>while (read_pos < messageLength / 4)\<close> with steps of two.\<close>

definition xtea_turns :: "int \<Rightarrow> nat" where
  "xtea_turns messageLength = nat ((messageLength div 4 + 1) div 2)"

definition xtea_body :: "(u32 \<times> u32 \<Rightarrow> u32 \<times> u32) \<Rightarrow> NetworkMessage \<Rightarrow> NetworkMessage option" where
  "xtea_body f m = map_option (\<lambda>bs. m\<lparr>m_ReadPos := 2, m_MsgBuf := take 2 (m_MsgBuf m) @ bs\<rparr>)
     (xtea_blocks f (xtea_turns (m_MsgSize m)) (drop 2 (m_MsgBuf m)))"

definition XTEA_encrypt :: "u32 list \<Rightarrow> OutputMessage \<Rightarrow> OutputMessage option" where
  "XTEA_encrypt key om =
     (let m = om_msg om in
      case (if (m_MsgSize m + 2) mod 8 \<noteq> 0
            then AddPaddingBytes (word_of_int (8 - (m_MsgSize m + 2) mod 8)) m else Some m) of
        None \<Rightarrow> None
      | Some m1 \<Rightarrow>
          (case xtea_body (xtea_enc_block key) m1 of
             None \<Rightarrow> None
           | Some m2 \<Rightarrow> addCryptoHeader (om\<lparr>om_msg := m2\<rparr>)))"

definition XTEA_decrypt :: "u32 list \<Rightarrow> NetworkMessage \<Rightarrow> (bool \<times> NetworkMessage) option" where
  "XTEA_decrypt key m =
     (if (m_MsgSize m - 2) mod 8 \<noteq> 0 then Some (False, m)
      else case xtea_body (xtea_dec_block key) m of
          None \<Rightarrow> None
        | Some m1 \<Rightarrow>
            (case GetU16 m1 of
               None \<Rightarrow> None
             | Some (tmp, m2) \<Rightarrow>
                 if uint tmp > m_MsgSize m2 - 4 then Some (False, m2)
                 else Some (True, m2\<lparr>m_MsgSize := uint tmp\<rparr>)))"

definition onSendMessage :: "bool \<Rightarrow> bool \<Rightarrow> u32 list \<Rightarrow> OutputMessage \<Rightarrow> OutputMessage option" where
  "onSendMessage rawMessages encryptionEnabled key om =
     (if rawMessages then Some om
      else case writeMessageLength om of
          None \<Rightarrow> None
        | Some om1 \<Rightarrow>
            if encryptionEnabled
            then (case XTEA_encrypt key om1 of None \<Rightarrow> None | Some om2 \<Rightarrow> addCryptoHeader om2)
            else Some om1)"

section \<open>Decryption inverts encryption\<close>

lemma xtea_dec_enc_round: "xtea_dec_round k (xtea_enc_round k s) = s"
  by (cases s) (simp add: xtea_dec_round_def xtea_enc_round_def Let_def)

lemma xtea_dec_enc_rounds: "(xtea_dec_round k ^^ n) ((xtea_enc_round k ^^ n) s) = s"
proof (induction n arbitrary: s)
  case (Suc n)
  have "(xtea_dec_round k ^^ Suc n) ((xtea_enc_round k ^^ Suc n) s) =
      (xtea_dec_round k ^^ n) (xtea_dec_round k (xtea_enc_round k ((xtea_enc_round k ^^ n) s)))"
    by (simp add: funpow_swap1)
  then show ?case by (simp only: xtea_dec_enc_round Suc)
qed simp

lemma xtea_enc_sum: "snd (snd ((xtea_enc_round k ^^ n) (v0, v1, s))) = s - word_of_nat n * xtea_delta"
proof (induction n)
  case (Suc n)
  then show ?case
    by (simp add: xtea_enc_round_def Let_def split_beta algebra_simps)
qed simp

text \<open>
  The block cipher: decrypting the encryption of a pair of words under the same key gives
  the pair back; the decryption's starting sum is the one encryption ends with.
\<close>
theorem xtea_block_roundtrip: "xtea_dec_block k (xtea_enc_block k (v0, v1)) = (v0, v1)"
proof -
  obtain w0 w1 s where w: "(xtea_enc_round k ^^ 32) (v0, v1, 0) = (w0, w1, s)"
    by (metis prod_cases3)
  then have s: "s = 0xC6EF3720" using xtea_enc_sum [of 32 k v0 v1 0] by simp
  have "(xtea_dec_round k ^^ 32) (w0, w1, s) = (v0, v1, 0)"
    using xtea_dec_enc_rounds [of 32 k "(v0, v1, 0)"] w by simp
  with w show ?thesis unfolding s by (simp add: xtea_enc_block_def xtea_dec_block_def)
qed

text \<open>A pair of block functions where one undoes the other, and what that gives for a body.\<close>

locale block_cipher =
  fixes enc dec :: "u32 \<times> u32 \<Rightarrow> u32 \<times> u32"
  assumes dec_enc: "dec (enc v) = v"
begin

lemma blocks_inverse:
  "length a = 8 * n \<Longrightarrow> \<exists>a'. length a' = 8 * n \<and> (\<forall>r. xtea_blocks enc n (a @ r) = Some (a' @ r)) \<and>
    (\<forall>r. xtea_blocks dec n (a' @ r) = Some (a @ r))"
proof (induction n arbitrary: a)
  case 0
  then show ?case by simp
next
  case (Suc n)
  define x y b where "x = take 4 a" and "y = take 4 (drop 4 a)" and "b = drop 8 a"
  have x: "length x = 4" "length y = 4" "length b = 8 * n"
    using Suc.prems by (auto simp: x_def y_def b_def)
  have "a = take 4 a @ take 4 (drop 4 a) @ drop 4 (drop 4 a)" by (simp only: append_take_drop_id)
  then have a: "a = x @ y @ b" by (simp add: x_def y_def b_def)
  obtain v0 v1 where v: "enc (le_value x, le_value y) = (v0, v1)" by (metis prod.exhaust)
  then have d: "dec (v0, v1) = (le_value x, le_value y)" using dec_enc by metis
  from Suc.IH [OF x(3)] obtain b' where
    b': "length b' = 8 * n" "\<forall>r. xtea_blocks enc n (b @ r) = Some (b' @ r)"
      "\<forall>r. xtea_blocks dec n (b' @ r) = Some (b @ r)" by blast
  have "xtea_blocks enc (Suc n) (a @ r) = Some ((le_bytes 4 v0 @ le_bytes 4 v1 @ b') @ r)" for r
    unfolding a using x b'(2) v by (simp add: Let_def)
  moreover have "xtea_blocks dec (Suc n) ((le_bytes 4 v0 @ le_bytes 4 v1 @ b') @ r) = Some (a @ r)" for r
    unfolding a using x b'(3) d wire32.dec_enc wire32.enc_dec by (simp add: Let_def)
  moreover have "length (le_bytes 4 v0 @ le_bytes 4 v1 @ b') = 8 * Suc n" using b'(1) by simp
  ultimately show ?case by blast
qed

end

interpretation xtea: block_cipher "xtea_enc_block k" "xtea_dec_block k" for k
proof
  show "xtea_dec_block k (xtea_enc_block k v) = v" for v
    by (cases v) (simp only: xtea_block_roundtrip)
qed

lemma decodeHeader_le:
  assumes "take 2 (m_MsgBuf m) = le_bytes 2 (w :: u16)"
  shows "decodeHeader m = uint w"
proof -
  have "length (take 2 (m_MsgBuf m)) = 2" unfolding assms by simp
  then have "m_MsgBuf m ! 0 = take 2 (m_MsgBuf m) ! 0" "m_MsgBuf m ! 1 = take 2 (m_MsgBuf m) ! 1" by simp_all
  then have "decodeHeader m = uint (ucast w :: u8) OR push_bit 8 (uint (ucast (drop_bit 8 w) :: u8))"
    unfolding decodeHeader_def assms by (simp add: numeral_2_eq_2)
  also have "\<dots> = uint w"
    by (rule bit_eqI) (auto simp: bit_simps dest: bit_imp_le_length)
  finally show ?thesis .
qed

text \<open>The sizes of a body of \<open>L\<close> bytes through the pipeline.\<close>

lemma xtea_sizes:
  fixes L :: int
  assumes "0 \<le> L"
  obtains k :: nat where "L + 2 + (if (L + 4) mod 8 \<noteq> 0 then 8 - (L + 4) mod 8 else 0) = 8 * int k + 6"
proof -
  have "L + 4 + (if (L + 4) mod 8 \<noteq> 0 then 8 - (L + 4) mod 8 else 0) =
      8 * ((L + 4) div 8) + (if (L + 4) mod 8 \<noteq> 0 then 8 else 0)"
    by presburger
  then have "L + 2 + (if (L + 4) mod 8 \<noteq> 0 then 8 - (L + 4) mod 8 else 0) =
      8 * ((L + 4) div 8 - (if (L + 4) mod 8 \<noteq> 0 then 0 else 1)) + 6"
    by (auto simp: algebra_simps)
  moreover have "0 \<le> (L + 4) div 8 - (if (L + 4) mod 8 \<noteq> 0 then 0 else 1)"
    using assms by auto
  ultimately show ?thesis using that [of "nat ((L + 4) div 8 - (if (L + 4) mod 8 \<noteq> 0 then 0 else 1))"] by auto
qed

lemma xtea_turns_sizes: "xtea_turns (8 * int k + 6) = Suc k" "xtea_turns (8 * int k + 10) = Suc k"
proof -
  have "(8 * int k + 6) div 4 = 2 * int k + 1" "(8 * int k + 10) div 4 = 2 * int k + 2"
    "(2 * int k + 1 + 1) div 2 = int k + 1" "(2 * int k + 2 + 1) div 2 = int k + 1" by linarith+
  then show "xtea_turns (8 * int k + 6) = Suc k" "xtea_turns (8 * int k + 10) = Suc k"
    by (simp_all add: xtea_turns_def)
qed

lemma write_header:
  "write_at 0 (le_bytes 2 (w :: u16)) (h @ b) = Some (le_bytes 2 w @ b)" if "length h = 2"
  using that by (simp add: write_at_def)

text \<open>The sender's pipeline on a message that stands at the end of its body.\<close>

lemma encrypt_message:
  assumes buf: "length (m_MsgBuf m) = 16768" and len: "m_MsgSize m = int L" "m_ReadPos m = 4 + int L"
    and room: "L + 12 < 16752"
  obtains om a a' k r0 where "onSendMessage False True key \<lparr>om_msg = m, m_outputBufferStart = s\<rparr> = Some om"
    "m_outputBufferStart om = 0" "m_MsgSize (om_msg om) = 8 * int k + 10" "L \<le> 8 * k + 4" "8 * k + 12 < 16768"
    "m_MsgBuf (om_msg om) = le_bytes 2 (word_of_int (8 * int k + 8) :: u16) @ a' @ r0" "length a' = 8 * k + 8"
    "\<forall>r. xtea_blocks (xtea_dec_block key) (Suc k) (a' @ r) = Some (a @ r)" "length a = 8 * k + 8"
    "read_at 0 2 a = Some (le_bytes 2 (word_of_int (int L) :: u16))"
    "read_at 2 L a = read_at 4 L (m_MsgBuf m)"
proof -
  let ?n = "8 - (int L + 4) mod 8" and ?w = "word_of_int (int L) :: u16"
  obtain k where k: "int L + 2 + (if (int L + 4) mod 8 \<noteq> 0 then ?n else 0) = 8 * int k + 6"
    using xtea_sizes [of "int L"] by auto
  have kb: "L \<le> 8 * k + 4" "8 * k \<le> L + 4"
    using k by (auto split: if_splits)
  obtain B1 where B1: "write_at 2 (le_bytes 2 ?w) (m_MsgBuf m) = Some B1" and l1: "length B1 = 16768"
    using write_at_Some [of 2 "le_bytes 2 ?w" "m_MsgBuf m"] buf write_at_length by fastforce
  let ?m1 = "m\<lparr>m_MsgBuf := B1, m_MsgSize := int L + 2\<rparr>"
  let ?pad = "if (m_MsgSize ?m1 + 2) mod 8 \<noteq> 0
            then AddPaddingBytes (word_of_int (8 - (m_MsgSize ?m1 + 2) mod 8)) ?m1 else Some ?m1"
  obtain B2 where B2: "?pad = Some (?m1\<lparr>m_MsgBuf := B2, m_MsgSize := 8 * int k + 6\<rparr>)" "length B2 = 16768"
    "read_at 2 2 B2 = read_at 2 2 B1" "read_at 4 L B2 = read_at 4 L B1"
  proof (cases "(int L + 4) mod 8 \<noteq> 0")
    case False
    with k that [of B1] l1 show ?thesis by (simp add: add.commute)
  next
    case True
    have n: "0 < ?n" "?n < 8" using True pos_mod_bound [of 8 "int L + 4"] pos_mod_sign [of 8 "int L + 4"] by linarith+
    then have u1: "uint (word_of_int ?n :: u32) = ?n"
      unfolding uint_word_of_int_eq by (intro take_bit_int_eq_self) simp_all
    have u: "uint (word_of_int ?n :: u32) = ?n" "sint (word_of_int ?n :: u32) = ?n"
      "unat (word_of_int ?n :: u32) = nat ?n"
      unfolding sint_u32 unat_eq_nat_uint u1 using n by simp_all
    have can: "canAdd ?n ?m1" using n room len by (simp add: canAdd_def)
    have "nat (4 + int L) + length (replicate (nat ?n) (0x33 :: u8)) \<le> length B1" using n room l1 by simp
    from write_at_Some [OF _ this] obtain B2 where
      B2: "write_at (4 + int L) (replicate (nat ?n) 0x33) B1 = Some B2" by auto
    have "?pad = Some (?m1\<lparr>m_MsgBuf := B2, m_MsgSize := 8 * int k + 6\<rparr>)"
      using True k can u B2 len by (simp add: AddPaddingBytes_def add.commute)
    moreover have "length B2 = 16768" using write_at_length [OF B2] l1 by simp
    ultimately show ?thesis
      using that [of B2] read_write_before [OF B2, of 2 2] read_write_before [OF B2, of 4 L] by simp
  qed
  define h a r0 where "h = take 2 B2" and "a = take (8 * k + 8) (drop 2 B2)" and "r0 = drop (8 * k + 8) (drop 2 B2)"
  have split: "drop 2 B2 = a @ r0" "take 2 B2 = h" "length h = 2" "length a = 8 * k + 8"
    using B2(2) kb room by (simp_all add: a_def r0_def h_def del: drop_drop)
  obtain a' where a': "length a' = 8 * k + 8" "\<forall>r. xtea_blocks (xtea_enc_block key) (Suc k) (a @ r) = Some (a' @ r)"
    "\<forall>r. xtea_blocks (xtea_dec_block key) (Suc k) (a' @ r) = Some (a @ r)"
  proof -
    have s8: "8 * Suc k = 8 * k + 8" by simp
    show ?thesis using xtea.blocks_inverse [of a "Suc k" key] split(4) that unfolding s8 by blast
  qed
  let ?h1 = "le_bytes 2 (word_of_int (8 * int k + 6) :: u16)" and ?h2 = "le_bytes 2 (word_of_int (8 * int k + 8) :: u16)"
  let ?m3 = "?m1\<lparr>m_ReadPos := 2, m_MsgBuf := h @ a' @ r0, m_MsgSize := 8 * int k + 6\<rparr>"
  have body: "xtea_body (xtea_enc_block key) (?m1\<lparr>m_MsgBuf := B2, m_MsgSize := 8 * int k + 6\<rparr>) = Some ?m3"
    using a'(2) split xtea_turns_sizes(1) by (simp add: xtea_body_def del: xtea_blocks.simps)
  have enc: "XTEA_encrypt key \<lparr>om_msg = ?m1, m_outputBufferStart = 2\<rparr> =
      Some \<lparr>om_msg = ?m3\<lparr>m_MsgBuf := ?h1 @ a' @ r0, m_MsgSize := 8 * int k + 8\<rparr>, m_outputBufferStart = 0\<rparr>"
    using B2(1) body write_header [OF split(3)] by (simp add: XTEA_encrypt_def Let_def addCryptoHeader_def)
  have snd: "onSendMessage False True key \<lparr>om_msg = m, m_outputBufferStart = s\<rparr> =
      Some \<lparr>om_msg = ?m3\<lparr>m_MsgBuf := ?h2 @ a' @ r0, m_MsgSize := 8 * int k + 10\<rparr>, m_outputBufferStart = 0\<rparr>"
    using B1 len enc write_header [of ?h1] by (simp add: onSendMessage_def writeMessageLength_def addCryptoHeader_def)
  have ra: "read_at (int p) n a = read_at (int (p + 2)) n B2" if "p + n \<le> 8 * k + 8" for p n
    using that B2(2) kb room unfolding a_def by (simp add: read_at_def nat_add_distrib take_drop min_def)
  have "read_at 2 2 B1 = Some (le_bytes 2 ?w)" using read_write_same [OF B1] by simp
  then have r1: "read_at 0 2 a = Some (le_bytes 2 ?w)" using ra [of 0 2] B2(3) by simp
  have "read_at 4 L B1 = read_at 4 L (m_MsgBuf m)" by (rule read_write_after [OF B1]) simp
  then have r2: "read_at 2 L a = read_at 4 L (m_MsgBuf m)" using ra [of 2 L] B2(4) kb by simp
  have "8 * k + 12 < 16768" using kb room by simp
  from that [OF snd _ _ kb(1) this _ a'(1,3) split(4) r1 r2] show thesis by simp
qed

text \<open>
  C35. An encrypted message survives the wire: whatever message buffer receives the bytes that
  sending produced, with its length taken from the header, decryption under the same key
  accepts it, recovers the length of the body, stands at its start, and the body is the one
  sent. The padding, the two headers and the loop bounds of the two sides agree.
\<close>
theorem encrypted_message_roundtrip:
  assumes "length (m_MsgBuf m) = 16768" "m_MsgSize m = int L" "m_ReadPos m = 4 + int L" "L + 12 < 16752"
  shows "\<exists>om. onSendMessage False True key \<lparr>om_msg = m, m_outputBufferStart = s\<rparr> = Some om \<and>
    m_outputBufferStart om = 0 \<and>
    (\<forall>r. length (m_MsgBuf r) = 16768 \<and> m_MsgSize r = decodeHeader r + 2 \<and>
         take (nat (m_MsgSize (om_msg om))) (m_MsgBuf r) =
         take (nat (m_MsgSize (om_msg om))) (m_MsgBuf (om_msg om)) \<longrightarrow>
       (\<exists>r'. XTEA_decrypt key r = Some (True, r') \<and> m_MsgSize r' = int L \<and> m_ReadPos r' = 4 \<and>
          read_at 4 L (m_MsgBuf r') = read_at 4 L (m_MsgBuf m)))"
proof -
  obtain om a a' k r0 where om: "onSendMessage False True key \<lparr>om_msg = m, m_outputBufferStart = s\<rparr> = Some om"
    "m_outputBufferStart om = 0" "m_MsgSize (om_msg om) = 8 * int k + 10" and k: "L \<le> 8 * k + 4" "8 * k + 12 < 16768"
    and buf: "m_MsgBuf (om_msg om) = le_bytes 2 (word_of_int (8 * int k + 8) :: u16) @ a' @ r0"
    and a': "length a' = 8 * k + 8" "\<forall>r. xtea_blocks (xtea_dec_block key) (Suc k) (a' @ r) = Some (a @ r)"
    and a: "length a = 8 * k + 8" "read_at 0 2 a = Some (le_bytes 2 (word_of_int (int L) :: u16))"
    "read_at 2 L a = read_at 4 L (m_MsgBuf m)"
    using encrypt_message [OF assms] by metis
  have "\<exists>r'. XTEA_decrypt key r = Some (True, r') \<and> m_MsgSize r' = int L \<and> m_ReadPos r' = 4 \<and>
          read_at 4 L (m_MsgBuf r') = read_at 4 L (m_MsgBuf m)"
    if r: "length (m_MsgBuf r) = 16768" "m_MsgSize r = decodeHeader r + 2"
      "take (nat (m_MsgSize (om_msg om))) (m_MsgBuf r) = take (nat (m_MsgSize (om_msg om))) (m_MsgBuf (om_msg om))"
    for r
  proof -
    let ?h = "le_bytes 2 (word_of_int (8 * int k + 8) :: u16)"
    define r1 where "r1 = drop (8 * k + 10) (m_MsgBuf r)"
    have n: "nat (8 * int k + 10) = 8 * k + 10" by simp
    have tk: "take (8 * k + 10) (m_MsgBuf r) = ?h @ a'" using r(3) a'(1) unfolding om(3) n buf by simp
    have rb: "m_MsgBuf r = (?h @ a') @ r1" unfolding r1_def tk [symmetric] by simp
    have h: "take 2 (m_MsgBuf r) = ?h" "drop 2 (m_MsgBuf r) = a' @ r1" unfolding rb by simp_all
    have "uint (word_of_int (8 * int k + 8) :: u16) = 8 * int k + 8"
      unfolding uint_word_of_int_eq using k(2) by (intro take_bit_int_eq_self) simp_all
    then have sz: "m_MsgSize r = 8 * int k + 10" using decodeHeader_le [OF h(1)] r(2) by simp
    let ?r1 = "r\<lparr>m_ReadPos := 2, m_MsgBuf := ?h @ a @ r1\<rparr>"
    have body: "xtea_body (xtea_dec_block key) r = Some ?r1"
      using a'(2) h sz xtea_turns_sizes(2) by (simp add: xtea_body_def del: xtea_blocks.simps)
    have rd: "read_at (int (p + 2)) n (?h @ a @ r1) = read_at (int p) n a" if "p + n \<le> 8 * k + 8" for p n
      using that a(1) by (simp add: read_at_def nat_add_distrib)
    have "GetU16 ?r1 = Some (word_of_int (int L), ?r1\<lparr>m_ReadPos := 4\<rparr>)"
      using rd [of 0 2] a(2) wire16.dec_enc by (simp add: GetU16_def expectRead_def)
    moreover have "uint (word_of_int (int L) :: u16) = int L"
      unfolding uint_word_of_int_eq using assms(4) by (intro take_bit_int_eq_self) simp_all
    moreover have "read_at 4 L (?h @ a @ r1) = read_at 4 L (m_MsgBuf m)"
      using rd [of 2 L] a(3) k(1) by simp
    moreover have "(m_MsgSize r - 2) mod 8 = 0" using sz by simp
    ultimately show ?thesis using body sz k(1) by (simp add: XTEA_decrypt_def)
  qed
  with om(1,2) show ?thesis by blast
qed

theorem encrypted_message_roundtrip_witness:
  "\<exists>om. onSendMessage False True [1, 2, 3, 4]
      \<lparr>om_msg = \<lparr>m_MsgSize = 5, m_ReadPos = 9, m_overrun = False, m_MsgBuf = replicate 16768 0x20\<rparr>,
       m_outputBufferStart = 4\<rparr> = Some om \<and> m_outputBufferStart om = 0"
  using encrypted_message_roundtrip [of "\<lparr>m_MsgSize = 5, m_ReadPos = 9, m_overrun = False, m_MsgBuf = replicate 16768 0x20\<rparr>" 5
      "[1, 2, 3, 4]" 4] by auto

end
