(* ===== verification/Scheduling.thy ===== *)
theory Scheduling
  imports Prelude "HOL-Library.Multiset"
begin

text \<open>
  The scheduler and the dispatcher (\<^verbatim>\<open>Source/scheduler.h\<close>, \<^verbatim>\<open>Source/scheduler.cpp\<close>,
  \<^verbatim>\<open>Source/tasks.h\<close>, \<^verbatim>\<open>Source/tasks.cpp\<close>): timed events with ids that can be stopped, a queue of
  tasks, and the two threads. The critical sections are atomic steps of a transition system;
  the closure of a task is a value of a type parameter, and the clock a natural number of
  milliseconds that does not go back. Ghost fields record what was stopped and handed over.
\<close>

datatype ThreadState = STATE_RUNNING | STATE_CLOSING | STATE_TERMINATED

section \<open>The scheduler\<close>

record 'w SchedulerTask =
  t_cycle :: nat
  t_eventid :: u32
  t_f :: 'w

abbreviation SCHEDULER_MINTICKS :: nat where "SCHEDULER_MINTICKS \<equiv> 50"

definition createSchedulerTask :: "nat \<Rightarrow> nat \<Rightarrow> 'w \<Rightarrow> 'w SchedulerTask option" where
  "createSchedulerTask now delay f =
     (if delay = 0 then None
      else let delay' = (if delay < SCHEDULER_MINTICKS then SCHEDULER_MINTICKS else delay)
           in Some \<lparr>t_cycle = now + delay', t_eventid = 0, t_f = f\<rparr>)"

text \<open>The order of the queue: the task with the earlier cycle is the greater one.\<close>

definition task_less :: "'w SchedulerTask \<Rightarrow> 'w SchedulerTask \<Rightarrow> bool" where
  "task_less a b \<longleftrightarrow> t_cycle a > t_cycle b"

definition is_top :: "'w SchedulerTask \<Rightarrow> 'w SchedulerTask multiset \<Rightarrow> bool" where
  "is_top t q \<longleftrightarrow> t \<in># q \<and> (\<forall>u \<in># q. \<not> task_less t u)"

record 'w Scheduler =
  sc_threadState :: ThreadState
  m_lastEventId :: u32
  m_eventList :: "'w SchedulerTask multiset"
  m_eventIds :: "u32 set"

definition new_Scheduler :: "'w Scheduler" where
  "new_Scheduler = \<lparr>sc_threadState = STATE_RUNNING, m_lastEventId = 0, m_eventList = {#}, m_eventIds = {}\<rparr>"

text \<open>\<^verbatim>\<open>addEvent\<close> returns the id and whether the thread is signalled: a pushed element
  reaches the top of the heap only past strictly smaller ones.\<close>

definition addEvent :: "'w SchedulerTask \<Rightarrow> 'w Scheduler \<Rightarrow> (u32 \<times> bool) \<times> 'w Scheduler" where
  "addEvent task s =
     (if sc_threadState s = STATE_RUNNING then
        let (task1, s1) =
              (if t_eventid task = 0
               then let last0 = (if m_lastEventId s \<ge> 0xFFFFFFFF then 0 else m_lastEventId s);
                        last1 = last0 + 1
                    in (task\<lparr>t_eventid := last1\<rparr>, s\<lparr>m_lastEventId := last1\<rparr>)
               else (task, s));
            do_signal = (\<forall>u \<in># m_eventList s1. task_less u task1)
        in ((t_eventid task1, do_signal),
            s1\<lparr>m_eventIds := insert (t_eventid task1) (m_eventIds s1),
               m_eventList := add_mset task1 (m_eventList s1)\<rparr>)
      else ((t_eventid task, False), s))"

definition stopEvent :: "u32 \<Rightarrow> 'w Scheduler \<Rightarrow> bool \<times> 'w Scheduler" where
  "stopEvent eventid s =
     (if eventid = 0 then (False, s)
      else if eventid \<in> m_eventIds s then (True, s\<lparr>m_eventIds := m_eventIds s - {eventid}\<rparr>)
      else (False, s))"

text \<open>One turn of the thread after its wait timed out, with the task on top of the queue: it
  is removed, and handed on unless it was stopped.\<close>

definition schedulerTurn :: "'w SchedulerTask \<Rightarrow> 'w Scheduler \<Rightarrow> bool \<times> 'w Scheduler" where
  "schedulerTurn task s =
     (let s1 = s\<lparr>m_eventList := m_eventList s - {#task#}\<rparr>
      in if t_eventid task \<in> m_eventIds s1
         then (True, s1\<lparr>m_eventIds := m_eventIds s1 - {t_eventid task}\<rparr>)
         else (False, s1))"

definition scheduler_stop :: "'w Scheduler \<Rightarrow> 'w Scheduler" where
  "scheduler_stop s = s\<lparr>sc_threadState := STATE_CLOSING\<rparr>"

definition scheduler_shutdown :: "'w Scheduler \<Rightarrow> 'w Scheduler" where
  "scheduler_shutdown s = s\<lparr>sc_threadState := STATE_TERMINATED, m_eventList := {#}, m_eventIds := {}\<rparr>"

section \<open>The dispatcher\<close>

record 'w Dispatcher =
  ds_threadState :: ThreadState
  m_taskList :: "'w list"

definition new_Dispatcher :: "'w Dispatcher" where
  "new_Dispatcher = \<lparr>ds_threadState = STATE_RUNNING, m_taskList = []\<rparr>"

definition addTask :: "'w \<Rightarrow> bool \<Rightarrow> 'w Dispatcher \<Rightarrow> bool \<times> 'w Dispatcher" where
  "addTask task push_front d =
     (if ds_threadState d = STATE_RUNNING
      then (m_taskList d = [],
            d\<lparr>m_taskList := (if push_front then task # m_taskList d else m_taskList d @ [task])\<rparr>)
      else (False, d))"

text \<open>The part of the thread's turn inside the lock; the task it takes is run after it.\<close>

definition takeTask :: "'w Dispatcher \<Rightarrow> 'w option \<times> 'w Dispatcher" where
  "takeTask d =
     (case m_taskList d of
        [] \<Rightarrow> (None, d)
      | task # tasks \<Rightarrow>
          if ds_threadState d \<noteq> STATE_TERMINATED then (Some task, d\<lparr>m_taskList := tasks\<rparr>) else (None, d))"

text \<open>\<^verbatim>\<open>flush\<close> runs every task left; \<open>run\<close> is the effect of a task and the output and
  spectator caches it is followed by. The lock is held, so no task can add another.\<close>

fun flush_tasks :: "('w \<Rightarrow> 'g \<Rightarrow> 'g) \<Rightarrow> 'w list \<Rightarrow> 'g \<Rightarrow> 'g" where
  "flush_tasks run [] g = g"
| "flush_tasks run (task # tasks) g = flush_tasks run tasks (run task g)"

definition dispatcher_stop :: "'w Dispatcher \<Rightarrow> 'w Dispatcher" where
  "dispatcher_stop d = d\<lparr>ds_threadState := STATE_CLOSING\<rparr>"

definition dispatcher_shutdown :: "('w \<Rightarrow> 'g \<Rightarrow> 'g) \<Rightarrow> 'w Dispatcher \<times> 'g \<Rightarrow> 'w Dispatcher \<times> 'g" where
  "dispatcher_shutdown run = (\<lambda>(d, g).
     (d\<lparr>ds_threadState := STATE_TERMINATED, m_taskList := []\<rparr>, flush_tasks run (m_taskList d) g))"

section \<open>The transition system\<close>

text \<open>Any number of threads create tasks, which read the clock, and add them to the queue when
  they get the lock, however much later; \<open>sy_created\<close> holds the tasks in between. The scheduler
  thread takes an event from the queue inside the lock, keeps it in its local variable \<open>task\<close>,
  here \<open>sy_hand\<close>, and hands it to the dispatcher after it has released the lock.\<close>

record 'w System =
  sy_now :: nat
  sy_sched :: "'w Scheduler"
  sy_disp :: "'w Dispatcher"
  sy_created :: "'w SchedulerTask multiset" \<comment> \<open>tasks created and not yet given to \<open>addEvent\<close>\<close>
  sy_hand :: "'w SchedulerTask option"      \<comment> \<open>the event the scheduler thread has taken\<close>
  sy_added :: nat                           \<comment> \<open>events given an id so far\<close>
  sy_late :: "u32 set"                      \<comment> \<open>ids of events whose time had passed when they were added\<close>
  sy_stopped :: "u32 set"                   \<comment> \<open>ids for which \<open>stopEvent\<close> returned true\<close>
  sy_handed :: "'w SchedulerTask list"      \<comment> \<open>events handed to the dispatcher\<close>

definition new_System :: "'w System" where
  "new_System = \<lparr>sy_now = 0, sy_sched = new_Scheduler, sy_disp = new_Dispatcher, sy_created = {#},
     sy_hand = None, sy_added = 0, sy_late = {}, sy_stopped = {}, sy_handed = []\<rparr>"

text \<open>The two steps of the scheduler thread: the part of its loop inside the lock after the wait
  timed out, and the part after the lock.\<close>

inductive thread_step :: "'w System \<Rightarrow> 'w System \<Rightarrow> bool" where
  Turn: "sy_hand s = None \<Longrightarrow> sc_threadState (sy_sched s) \<noteq> STATE_TERMINATED \<Longrightarrow>
    is_top t (m_eventList (sy_sched s)) \<Longrightarrow> t_cycle t \<le> sy_now s \<Longrightarrow>
    schedulerTurn t (sy_sched s) = (run, sc) \<Longrightarrow>
    thread_step s (s\<lparr>sy_sched := sc, sy_hand := (if run then Some t else None)\<rparr>)"
| Hand: "sy_hand s = Some t \<Longrightarrow>
    thread_step s (s\<lparr>sy_hand := None, sy_disp := snd (addTask (t_f t) False (sy_disp s)),
              sy_handed := sy_handed s @ [t]\<rparr>)"

inductive step :: "'w System \<Rightarrow> 'w System \<Rightarrow> bool" where
  Tick: "step s (s\<lparr>sy_now := sy_now s + n\<rparr>)"
| Create: "createSchedulerTask (sy_now s) delay f = Some t \<Longrightarrow>
    step s (s\<lparr>sy_created := add_mset t (sy_created s)\<rparr>)"
| Add: "t \<in># sy_created s \<Longrightarrow> addEvent t (sy_sched s) = ((i, signal), sc) \<Longrightarrow>
    step s (s\<lparr>sy_created := sy_created s - {#t#}, sy_sched := sc,
      sy_added := sy_added s + (if sc_threadState (sy_sched s) = STATE_RUNNING then 1 else 0),
      sy_late := (if t_cycle t < sy_now s then insert i (sy_late s) else sy_late s)\<rparr>)"
| Stop: "stopEvent i (sy_sched s) = (b, sc) \<Longrightarrow>
    step s (s\<lparr>sy_sched := sc, sy_stopped := (if b then insert i (sy_stopped s) else sy_stopped s)\<rparr>)"
| Thread: "thread_step s s' \<Longrightarrow> step s s'"
| Task: "takeTask (sy_disp s) = (Some f, d) \<Longrightarrow> step s (s\<lparr>sy_disp := d\<rparr>)"
| AddTask: "step s (s\<lparr>sy_disp := snd (addTask f front (sy_disp s))\<rparr>)"
| StopScheduler: "step s (s\<lparr>sy_sched := scheduler_stop (sy_sched s)\<rparr>)"
| ShutdownScheduler: "step s (s\<lparr>sy_sched := scheduler_shutdown (sy_sched s)\<rparr>)"
| StopDispatcher: "step s (s\<lparr>sy_disp := dispatcher_stop (sy_disp s)\<rparr>)"
| ShutdownDispatcher: "dispatcher_shutdown (\<lambda>_ _. ()) (sy_disp s, ()) = (d, u) \<Longrightarrow> step s (s\<lparr>sy_disp := d\<rparr>)"

inductive reachable :: "'w System \<Rightarrow> bool" where
  init: "reachable new_System"
| step: "reachable s \<Longrightarrow> step s s' \<Longrightarrow> reachable s'"

inductive_cases stepE: "step s s'"

lemmas step_elim = stepE [consumes 1, case_names Tick Create Add Stop Thread Task AddTask StopScheduler
  ShutdownScheduler StopDispatcher ShutdownDispatcher]

inductive_cases thread_stepE: "thread_step s s'"

lemmas thread_elim = thread_stepE [consumes 1, case_names Turn Hand]

text \<open>The events the thread has taken from the queue to run, in the order it took them.\<close>

definition taken :: "'w System \<Rightarrow> 'w SchedulerTask list" where
  "taken s = sy_handed s @ (case sy_hand s of None \<Rightarrow> [] | Some t \<Rightarrow> [t])"

lemma taken_updates [simp]:
  "taken (s\<lparr>sy_now := n\<rparr>) = taken s" "taken (s\<lparr>sy_sched := sc\<rparr>) = taken s" "taken (s\<lparr>sy_disp := d\<rparr>) = taken s"
  "taken (s\<lparr>sy_created := c\<rparr>) = taken s" "taken (s\<lparr>sy_added := a\<rparr>) = taken s" "taken (s\<lparr>sy_late := l\<rparr>) = taken s"
  "taken (s\<lparr>sy_stopped := st\<rparr>) = taken s"
  by (simp_all add: taken_def)

lemma taken_turn: "sy_hand s = None \<Longrightarrow> taken (s\<lparr>sy_hand := (if run then Some t else None)\<rparr>) = taken s @ (if run then [t] else [])"
  by (simp add: taken_def)

lemma taken_hand: "sy_hand s = Some t \<Longrightarrow> taken (s\<lparr>sy_hand := None, sy_disp := d, sy_handed := sy_handed s @ [t]\<rparr>) = taken s"
  by (simp add: taken_def)

section \<open>Ids, order and progress\<close>

abbreviation ids_of :: "'w SchedulerTask multiset \<Rightarrow> u32 set" where
  "ids_of q \<equiv> t_eventid ` set_mset q"

definition distinct_ids :: "'w SchedulerTask multiset \<Rightarrow> bool" where
  "distinct_ids q \<longleftrightarrow> (\<forall>t q'. q = add_mset t q' \<longrightarrow> t_eventid t \<notin> ids_of q')"

lemma distinct_ids_empty [simp]: "distinct_ids {#}"
  by (simp add: distinct_ids_def)

lemma distinct_ids_add:
  assumes "distinct_ids q" "t_eventid t \<notin> ids_of q"
  shows "distinct_ids (add_mset t q)"
  unfolding distinct_ids_def
proof (intro allI impI)
  fix u q'
  assume eq: "add_mset t q = add_mset u q'"
  show "t_eventid u \<notin> ids_of q'"
  proof (cases "u = t")
    case True
    with eq assms(2) show ?thesis by simp
  next
    case False
    then obtain r where "q = add_mset u r" "q' = add_mset t r"
      using eq by (metis add_eq_conv_ex)
    with assms show ?thesis by (auto simp: distinct_ids_def)
  qed
qed

lemma distinct_ids_remove:
  assumes "distinct_ids q" "t \<in># q"
  shows "distinct_ids (q - {#t#})" "t_eventid t \<notin> ids_of (q - {#t#})"
proof -
  obtain r where r: "q = add_mset t r" using assms(2) by (metis mset_add)
  with assms(1) show "t_eventid t \<notin> ids_of (q - {#t#})" by (auto simp: distinct_ids_def)
  show "distinct_ids (q - {#t#})"
    unfolding distinct_ids_def
  proof (intro allI impI)
    fix u q'
    assume "q - {#t#} = add_mset u q'"
    with r have "q = add_mset u (add_mset t q')" by (simp add: add_mset_commute)
    with assms(1) show "t_eventid u \<notin> ids_of q'" by (fastforce simp: distinct_ids_def)
  qed
qed

definition ids_inv :: "'w System \<Rightarrow> bool" where
  "ids_inv s \<longleftrightarrow>
     unat (m_lastEventId (sy_sched s)) = sy_added s \<and>
     (\<forall>t \<in># sy_created s. t_eventid t = 0) \<and>
     (\<forall>t \<in># m_eventList (sy_sched s). unat (t_eventid t) \<le> sy_added s) \<and>
     (\<forall>t \<in> set (taken s). unat (t_eventid t) \<le> sy_added s) \<and>
     (\<forall>i \<in> sy_stopped s. unat i \<le> sy_added s) \<and>
     m_eventIds (sy_sched s) \<subseteq> ids_of (m_eventList (sy_sched s)) \<and>
     distinct_ids (m_eventList (sy_sched s)) \<and>
     distinct (map t_eventid (taken s)) \<and>
     t_eventid ` set (taken s) \<inter> ids_of (m_eventList (sy_sched s)) = {} \<and>
     sy_stopped s \<inter> m_eventIds (sy_sched s) = {} \<and>
     sy_stopped s \<inter> t_eventid ` set (taken s) = {}"

lemma ids_invD:
  assumes "ids_inv s"
  shows "unat (m_lastEventId (sy_sched s)) = sy_added s"
    "t \<in># sy_created s \<Longrightarrow> t_eventid t = 0"
    "i \<in> ids_of (m_eventList (sy_sched s)) \<Longrightarrow> unat i \<le> sy_added s"
    "i \<in> t_eventid ` set (taken s) \<Longrightarrow> unat i \<le> sy_added s"
    "i \<in> sy_stopped s \<Longrightarrow> unat i \<le> sy_added s"
    "i \<in> m_eventIds (sy_sched s) \<Longrightarrow> i \<in> ids_of (m_eventList (sy_sched s))"
    "distinct_ids (m_eventList (sy_sched s))"
    "distinct (map t_eventid (taken s))"
    "i \<in> t_eventid ` set (taken s) \<Longrightarrow> i \<notin> ids_of (m_eventList (sy_sched s))"
    "i \<in> sy_stopped s \<Longrightarrow> i \<notin> m_eventIds (sy_sched s)"
    "i \<in> sy_stopped s \<Longrightarrow> i \<notin> t_eventid ` set (taken s)"
  using assms unfolding ids_inv_def disjoint_iff subset_iff by (elim conjE, fastforce)+

lemma ids_invI:
  assumes "unat (m_lastEventId (sy_sched s)) = sy_added s"
    "\<And>t. t \<in># sy_created s \<Longrightarrow> t_eventid t = 0"
    "\<And>i. i \<in> ids_of (m_eventList (sy_sched s)) \<Longrightarrow> unat i \<le> sy_added s"
    "\<And>i. i \<in> t_eventid ` set (taken s) \<Longrightarrow> unat i \<le> sy_added s"
    "\<And>i. i \<in> sy_stopped s \<Longrightarrow> unat i \<le> sy_added s"
    "\<And>i. i \<in> m_eventIds (sy_sched s) \<Longrightarrow> i \<in> ids_of (m_eventList (sy_sched s))"
    "distinct_ids (m_eventList (sy_sched s))"
    "distinct (map t_eventid (taken s))"
    "\<And>i. i \<in> t_eventid ` set (taken s) \<Longrightarrow> i \<notin> ids_of (m_eventList (sy_sched s))"
    "\<And>i. i \<in> sy_stopped s \<Longrightarrow> i \<notin> m_eventIds (sy_sched s)"
    "\<And>i. i \<in> sy_stopped s \<Longrightarrow> i \<notin> t_eventid ` set (taken s)"
  shows "ids_inv s"
  unfolding ids_inv_def disjoint_iff subset_iff using assms by (intro conjI) blast+

text \<open>An event comes in time after another one, or was late when it was added.\<close>

definition in_time :: "u32 set \<Rightarrow> 'w SchedulerTask \<Rightarrow> 'w SchedulerTask \<Rightarrow> bool" where
  "in_time late t u \<longleftrightarrow> t_cycle t \<le> t_cycle u \<or> t_eventid u \<in> late"

definition time_inv :: "'w System \<Rightarrow> bool" where
  "time_inv s \<longleftrightarrow> sorted_wrt (in_time (sy_late s)) (taken s) \<and>
     (\<forall>t \<in> set (taken s). t_cycle t \<le> sy_now s \<and> (\<forall>u \<in># m_eventList (sy_sched s). in_time (sy_late s) t u))"

lemma next_id:
  fixes l :: u32
  assumes "unat l < 2 ^ 32 - 1"
  shows "\<not> l \<ge> 0xFFFFFFFF" "unat (l + 1) = unat l + 1"
proof -
  from assms show "\<not> l \<ge> 0xFFFFFFFF" by (simp add: word_le_nat_alt)
  from assms show "unat (l + 1) = unat l + 1" by (simp add: unat_word_ariths)
qed

lemma addEvent_new:
  assumes "sc_threadState sc = STATE_RUNNING" "t_eventid t = 0" "unat (m_lastEventId sc) < 2 ^ 32 - 1"
  shows "snd (addEvent t sc) = sc\<lparr>m_lastEventId := m_lastEventId sc + 1,
    m_eventIds := insert (m_lastEventId sc + 1) (m_eventIds sc),
    m_eventList := add_mset (t\<lparr>t_eventid := m_lastEventId sc + 1\<rparr>) (m_eventList sc)\<rparr>"
  using assms next_id(1) [OF assms(3)] by (simp add: addEvent_def Let_def)

lemma schedulerTurn_cases:
  assumes "schedulerTurn t sc = (run, sc')"
  shows "run \<longleftrightarrow> t_eventid t \<in> m_eventIds sc"
    "m_eventList sc' = m_eventList sc - {#t#}" "m_lastEventId sc' = m_lastEventId sc"
    "m_eventIds sc' = m_eventIds sc - {t_eventid t}" "sc_threadState sc' = sc_threadState sc"
  using assms by (auto simp: schedulerTurn_def Let_def split: if_splits)

lemma ids_inv_turn:
  assumes inv: "ids_inv s" and hand: "sy_hand s = None" and t: "t \<in># m_eventList (sy_sched s)"
    and turn: "schedulerTurn t (sy_sched s) = (run, sc)"
  shows "ids_inv (s\<lparr>sy_sched := sc, sy_hand := (if run then Some t else None)\<rparr>)"
proof -
  note sc = schedulerTurn_cases [OF turn]
  have di: "distinct_ids (m_eventList (sy_sched s))" using inv by (simp add: ids_inv_def)
  note rm = distinct_ids_remove [OF di t]
  have sub: "m_eventIds (sy_sched s) - {t_eventid t} \<subseteq> ids_of (m_eventList (sy_sched s) - {#t#})"
  proof
    fix i
    assume i: "i \<in> m_eventIds (sy_sched s) - {t_eventid t}"
    with inv obtain u where u: "u \<in># m_eventList (sy_sched s)" "t_eventid u = i" by (auto simp: ids_inv_def)
    with i have "u \<noteq> t" by auto
    with u have "u \<in># m_eventList (sy_sched s) - {#t#}" by (auto simp: in_diff_count)
    with u(2) show "i \<in> ids_of (m_eventList (sy_sched s) - {#t#})" by blast
  qed
  have less: "set_mset (m_eventList (sy_sched s) - {#t#}) \<subseteq> set_mset (m_eventList (sy_sched s))"
    by (meson in_diffD subsetI)
  have h: "t_eventid t \<notin> t_eventid ` set (taken s)" using inv t by (auto simp: ids_inv_def)
  have st: "run \<Longrightarrow> t_eventid t \<notin> sy_stopped s" using inv sc(1) by (auto simp: ids_inv_def)
  have tk: "taken (s\<lparr>sy_sched := sc, sy_hand := (if run then Some t else None)\<rparr>) = taken s @ (if run then [t] else [])"
    using hand by (simp add: taken_def)
  show ?thesis
    using inv sc rm sub h st t subsetD [OF less] unfolding ids_inv_def tk
    by (auto simp: disjoint_iff split: if_splits)
qed

lemma ids_inv_add:
  assumes inv: "ids_inv s" and run: "sc_threadState (sy_sched s) = STATE_RUNNING"
    and t: "t \<in># sy_created s" and bound: "sy_added s < 2 ^ 32 - 1"
  shows "ids_inv (s\<lparr>sy_created := sy_created s - {#t#}, sy_sched := snd (addEvent t (sy_sched s)),
    sy_added := sy_added s + 1, sy_late := late\<rparr>)"
proof -
  let ?l = "m_lastEventId (sy_sched s)"
  note d = ids_invD [OF inv]
  have b: "unat ?l < 2 ^ 32 - 1" using d(1) bound by simp
  have n: "unat (?l + 1) = sy_added s + 1" using next_id(2) [OF b] d(1) by simp
  have new: "?l + 1 \<notin> ids_of (m_eventList (sy_sched s))" "?l + 1 \<notin> t_eventid ` set (taken s)" "?l + 1 \<notin> sy_stopped s"
    using d(3,4,5) [of "?l + 1"] n by linarith+
  show ?thesis
    unfolding addEvent_new [OF run d(2) [OF t] b]
  proof (rule ids_invI, goal_cases)
    case (2 u)
    then show ?case using d(2) by (auto dest: in_diffD)
  next
    case 7
    show ?case using distinct_ids_add [OF d(7)] new(1) by simp
  next
    case (9 i)
    then have i: "i \<in> t_eventid ` set (taken s)" by simp
    with new(2) have "i \<noteq> ?l + 1" by blast
    with d(9) [OF i] show ?case by simp
  next
    case (11 i)
    then show ?case using d(11) [of i] by simp
  qed (use d(1,3,4,5,6,8,10) n new in \<open>auto intro: le_SucI\<close>)
qed

lemma ids_inv_stop:
  assumes inv: "ids_inv s" and stop: "stopEvent i (sy_sched s) = (b, sc)"
  shows "ids_inv (s\<lparr>sy_sched := sc, sy_stopped := (if b then insert i (sy_stopped s) else sy_stopped s)\<rparr>)"
proof (cases "i \<noteq> 0 \<and> i \<in> m_eventIds (sy_sched s)")
  case True
  then have eq: "b = True" "sc = (sy_sched s)\<lparr>m_eventIds := m_eventIds (sy_sched s) - {i}\<rparr>"
    using stop by (auto simp: stopEvent_def)
  note d = ids_invD [OF inv]
  have i: "i \<in> ids_of (m_eventList (sy_sched s))" using d(6) True by blast
  have new: "unat i \<le> sy_added s" "i \<notin> t_eventid ` set (taken s)" using d(3) [OF i] d(9) i by blast+
  show ?thesis
    unfolding eq
  proof (rule ids_invI, goal_cases)
    case (11 j)
    then show ?case using d(11) [of j] new(2) by (cases "j = i") simp_all
  qed (use d(1-10) new in auto)
next
  case False
  then have "\<not> b" "sc = sy_sched s" using stop by (auto simp: stopEvent_def split: if_splits)
  with inv show ?thesis by simp
qed

lemma ids_inv_other:
  "ids_inv s \<Longrightarrow> ids_inv (s\<lparr>sy_now := n\<rparr>)" "ids_inv s \<Longrightarrow> ids_inv (s\<lparr>sy_disp := d\<rparr>)"
  "ids_inv s \<Longrightarrow> ids_inv (s\<lparr>sy_sched := scheduler_stop (sy_sched s)\<rparr>)"
  "ids_inv s \<Longrightarrow> ids_inv (s\<lparr>sy_sched := scheduler_shutdown (sy_sched s)\<rparr>)"
  "ids_inv s \<Longrightarrow> t_eventid t = 0 \<Longrightarrow> ids_inv (s\<lparr>sy_created := add_mset t (sy_created s)\<rparr>)"
  by (simp_all add: ids_inv_def scheduler_stop_def scheduler_shutdown_def)

lemma created_id: "createSchedulerTask now delay f = Some t \<Longrightarrow> t_eventid t = 0 \<and> now + 50 \<le> t_cycle t"
  by (auto simp: createSchedulerTask_def Let_def split: if_splits)

lemma addEvent_closed: "sc_threadState sc \<noteq> STATE_RUNNING \<Longrightarrow> addEvent t sc = ((t_eventid t, False), sc)"
  by (simp add: addEvent_def)

lemma thread_ids_inv:
  assumes "thread_step s s'" "ids_inv s"
  shows "ids_inv s'"
  using assms(1)
proof (cases rule: thread_elim)
  case (Turn t run sc)
  then show ?thesis using ids_inv_turn [OF assms(2) Turn(2) _ Turn(6)] by (simp add: is_top_def)
next
  case (Hand t)
  then show ?thesis using assms(2) unfolding ids_inv_def Hand(1) taken_hand [OF Hand(2)] by simp
qed

lemma step_ids_inv:
  assumes "step s s'" "ids_inv s" "sy_added s' < 2 ^ 32 - 1"
  shows "ids_inv s'"
  using assms(1)
proof (cases rule: step_elim)
  case (Add t i signal sc)
  show ?thesis
  proof (cases "sc_threadState (sy_sched s) = STATE_RUNNING")
    case True
    have "snd (addEvent t (sy_sched s)) = sc" using Add by simp
    with ids_inv_add [OF assms(2) True Add(2)] Add(1) True assms(3) show ?thesis by simp
  next
    case False
    have "\<forall>u \<in># sy_created s - {#t#}. t_eventid u = 0" using assms(2) by (meson ids_inv_def in_diffD)
    with Add assms(2) False show ?thesis by (simp add: addEvent_closed ids_inv_def)
  qed
next
  case (Create delay f t)
  then show ?thesis using ids_inv_other(5) [OF assms(2)] created_id [OF Create(2)] by simp
next
  case (Stop i b sc)
  then show ?thesis using ids_inv_stop [OF assms(2) Stop(2)] by simp
next
  case Thread
  then show ?thesis using thread_ids_inv assms(2) by blast
qed (use assms(2) ids_inv_other in auto)

lemma time_inv_turn:
  assumes inv: "time_inv s" and hand: "sy_hand s = None"
    and t: "is_top t (m_eventList (sy_sched s))" "t_cycle t \<le> sy_now s"
    and turn: "schedulerTurn t (sy_sched s) = (run, sc)"
  shows "time_inv (s\<lparr>sy_sched := sc, sy_hand := (if run then Some t else None)\<rparr>)"
proof -
  have less: "u \<in># m_eventList (sy_sched s)" if "u \<in># m_eventList (sy_sched s) - {#t#}" for u
    using that by (meson in_diffD)
  have top: "in_time late t u" if "u \<in># m_eventList (sy_sched s)" for u late
    using t(1) that by (auto simp: is_top_def task_less_def not_less in_time_def)
  have tk: "taken (s\<lparr>sy_sched := sc, sy_hand := (if run then Some t else None)\<rparr>) = taken s @ (if run then [t] else [])"
    using hand by (simp add: taken_def)
  have "t \<in># m_eventList (sy_sched s)" using t(1) by (simp add: is_top_def)
  with inv less top t(2) schedulerTurn_cases(2) [OF turn] show ?thesis
    unfolding time_inv_def tk by (auto simp: sorted_wrt_append)
qed

lemma thread_time_inv:
  assumes "thread_step s s'" "time_inv s"
  shows "time_inv s'"
  using assms(1)
proof (cases rule: thread_elim)
  case (Turn t run sc)
  then show ?thesis using time_inv_turn [OF assms(2) Turn(2,4,5,6)] by simp
next
  case (Hand t)
  then show ?thesis using assms(2) unfolding time_inv_def Hand(1) taken_hand [OF Hand(2)] by simp
qed

lemma in_time_mono: "in_time late t u \<Longrightarrow> late \<subseteq> late' \<Longrightarrow> in_time late' t u"
  by (auto simp: in_time_def)

text \<open>What \<open>addEvent\<close> puts in the queue is the task with the id it returns.\<close>

lemma addEvent_queue:
  assumes "addEvent t sc = ((i, signal), sc')" "u \<in># m_eventList sc'"
  shows "u \<in># m_eventList sc \<or> u = t\<lparr>t_eventid := i\<rparr>"
  using assms by (auto simp: addEvent_def Let_def split: if_splits)

lemma step_time_inv:
  assumes "step s s'" "time_inv s"
  shows "time_inv s'"
  using assms(1)
proof (cases rule: step_elim)
  case (Add t i signal sc)
  have tk: "taken s' = taken s" unfolding Add(1) by simp
  have late: "sy_late s \<subseteq> sy_late s'" "t_cycle t < sy_now s \<Longrightarrow> i \<in> sy_late s'" "sy_now s' = sy_now s"
    "m_eventList (sy_sched s') = m_eventList sc" unfolding Add(1) by auto
  have "in_time (sy_late s') v u" if "v \<in> set (taken s)" "u \<in># m_eventList sc" for u v
  proof -
    from addEvent_queue [OF Add(3) that(2)] show ?thesis
    proof
      assume "u \<in># m_eventList (sy_sched s)"
      with assms(2) that(1) late(1) show ?thesis unfolding time_inv_def using in_time_mono by blast
    next
      assume u: "u = t\<lparr>t_eventid := i\<rparr>"
      have "t_cycle v \<le> sy_now s" using assms(2) that(1) by (simp add: time_inv_def)
      with u late(2) show ?thesis by (cases "t_cycle t < sy_now s") (auto simp: in_time_def)
    qed
  qed
  moreover have "sorted_wrt (in_time (sy_late s')) (taken s)"
    using sorted_wrt_mono_rel [of "taken s" "in_time (sy_late s)" "in_time (sy_late s')"] assms(2) late(1)
    by (auto simp: time_inv_def intro: in_time_mono)
  ultimately show ?thesis using assms(2) late(3,4) unfolding time_inv_def tk by simp
next
  case Thread
  then show ?thesis using thread_time_inv assms(2) by blast
qed (use assms(2) in \<open>auto simp: time_inv_def stopEvent_def scheduler_stop_def scheduler_shutdown_def split: if_splits\<close>)

lemma thread_added: "thread_step s s' \<Longrightarrow> sy_added s' = sy_added s"
  by (erule thread_stepE) auto

lemma step_added: "step s s' \<Longrightarrow> sy_added s \<le> sy_added s'"
  by (erule stepE) (auto simp: thread_added)

lemma reachable_inv: "reachable s \<Longrightarrow> time_inv s \<and> (sy_added s < 2 ^ 32 - 1 \<longrightarrow> ids_inv s)"
proof (induction rule: reachable.induct)
  case init
  show ?case by (simp add: time_inv_def ids_inv_def taken_def new_System_def new_Scheduler_def)
next
  case (step s s')
  with step_time_inv step_ids_inv step_added show ?case by (meson le_less_trans)
qed


text \<open>An example: two events are created at time 0; the first one to become due is added only at
  time 100, when the other one has already been handed over.\<close>

definition ev :: "nat \<Rightarrow> u32 \<Rightarrow> nat \<Rightarrow> nat SchedulerTask" where
  "ev cycle i f = \<lparr>t_cycle = cycle, t_eventid = i, t_f = f\<rparr>"

definition example_due :: "nat System" where
  "example_due = \<lparr>sy_now = 100,
     sy_sched = \<lparr>sc_threadState = STATE_RUNNING, m_lastEventId = 1, m_eventList = {#ev 60 1 7#}, m_eventIds = {1}\<rparr>,
     sy_disp = new_Dispatcher, sy_created = {#ev 50 0 8#}, sy_hand = None, sy_added = 1, sy_late = {}, sy_stopped = {},
     sy_handed = []\<rparr>"

definition example_run :: "nat System" where
  "example_run = \<lparr>sy_now = 100,
     sy_sched = \<lparr>sc_threadState = STATE_RUNNING, m_lastEventId = 2, m_eventList = {#}, m_eventIds = {}\<rparr>,
     sy_disp = \<lparr>ds_threadState = STATE_RUNNING, m_taskList = [7, 8]\<rparr>, sy_created = {#}, sy_hand = None,
     sy_added = 2, sy_late = {2}, sy_stopped = {}, sy_handed = [ev 60 1 7, ev 50 2 8]\<rparr>"

lemma step_to: "step s s' \<Longrightarrow> s' = s'' \<Longrightarrow> reachable s \<Longrightarrow> reachable s''"
  using reachable.step by blast

lemmas example_defs = new_System_def new_Scheduler_def new_Dispatcher_def createSchedulerTask_def addEvent_def
  schedulerTurn_def addTask_def is_top_def task_less_def ev_def

lemma example_due_reachable: "reachable example_due"
proof -
  let ?s1 = "new_System\<lparr>sy_created := {#ev 50 0 8#}\<rparr> :: nat System"
  let ?s2 = "new_System\<lparr>sy_created := {#ev 60 0 7, ev 50 0 8#}\<rparr> :: nat System"
  let ?s3 = "example_due\<lparr>sy_now := 0\<rparr>"
  have "reachable ?s1"
    by (rule step_to [OF step.Create [of _ 50 8 "ev 50 0 8"] _ reachable.init]) (simp_all add: example_defs)
  then have "reachable ?s2"
    by (rule step_to [OF step.Create [of _ 60 7 "ev 60 0 7"], rotated 2]) (simp_all add: example_defs)
  then have "reachable ?s3"
    by (rule step_to [OF step.Add [of "ev 60 0 7" _ 1 True "sy_sched ?s3"], rotated 3])
      (simp_all add: example_defs example_due_def)
  then show ?thesis
    by (rule step_to [OF step.Tick [of _ 100], rotated]) (simp_all add: example_due_def)
qed

lemma example_reachable: "reachable example_run"
proof -
  let ?s1 = "example_due\<lparr>sy_sched := \<lparr>sc_threadState = STATE_RUNNING, m_lastEventId = 1, m_eventList = {#}, m_eventIds = {}\<rparr>,
      sy_hand := Some (ev 60 1 7)\<rparr>"
  let ?s2 = "?s1\<lparr>sy_hand := None, sy_disp := \<lparr>ds_threadState = STATE_RUNNING, m_taskList = [7]\<rparr>, sy_handed := [ev 60 1 7]\<rparr>"
  let ?s3 = "?s2\<lparr>sy_created := {#}, sy_added := 2, sy_late := {2}, sy_sched := \<lparr>sc_threadState = STATE_RUNNING,
      m_lastEventId = 2, m_eventList = {#ev 50 2 8#}, m_eventIds = {2}\<rparr>\<rparr>"
  let ?s4 = "?s3\<lparr>sy_sched := sy_sched example_run, sy_hand := Some (ev 50 2 8)\<rparr>"
  have "reachable ?s1"
    by (rule step_to [OF step.Thread [OF thread_step.Turn [of _ "ev 60 1 7" True "sy_sched ?s1"]] _ example_due_reachable])
      (simp_all add: example_defs example_due_def)
  then have "reachable ?s2"
    by (rule step_to [OF step.Thread [OF thread_step.Hand [of _ "ev 60 1 7"]], rotated 2])
      (simp_all add: example_defs example_due_def)
  then have "reachable ?s3"
    by (rule step_to [OF step.Add [of "ev 50 0 8" _ 2 True "sy_sched ?s3"], rotated 3])
      (simp_all add: example_defs example_due_def word_le_nat_alt)
  then have "reachable ?s4"
    by (rule step_to [OF step.Thread [OF thread_step.Turn [of _ "ev 50 2 8" True "sy_sched ?s4"]], rotated 6])
      (simp_all add: example_defs example_due_def example_run_def)
  then show ?thesis
    by (rule step_to [OF step.Thread [OF thread_step.Hand [of _ "ev 50 2 8"]], rotated 2])
      (simp_all add: example_defs example_due_def example_run_def)
qed

lemma late_event_is_overtaken:
  "reachable example_run \<and> \<not> sorted (map t_cycle (sy_handed example_run)) \<and> sy_late example_run = {2}"
  using example_reachable by (simp add: example_run_def ev_def)


lemma top_exists: "q \<noteq> {#} \<Longrightarrow> \<exists>t. is_top t q"
proof -
  assume "q \<noteq> {#}"
  then have "\<exists>t. t \<in># q \<and> (\<forall>u. u \<in># q \<longrightarrow> t_cycle t \<le> t_cycle u)"
    using ex_has_least_nat [of "\<lambda>t. t \<in># q" _ t_cycle] by (metis multiset_nonemptyE)
  then show ?thesis by (auto simp: is_top_def task_less_def not_less)
qed

text \<open>The thread first hands over the event it has taken, if any.\<close>

lemma empty_hand:
  assumes "ids_inv s"
  obtains s1 where "thread_step\<^sup>*\<^sup>* s s1" "sy_hand s1 = None" "sy_sched s1 = sy_sched s" "sy_now s1 = sy_now s"
    "ids_inv s1" "ds_threadState (sy_disp s1) = ds_threadState (sy_disp s)"
proof (cases "sy_hand s")
  case None
  with assms that [of s] show thesis by simp
next
  case (Some t)
  note st = thread_step.Hand [OF Some]
  show thesis
    by (rule that [OF r_into_rtranclp [of thread_step, OF st]]) (use thread_ids_inv [OF st assms] in \<open>simp_all add: addTask_def\<close>)
qed

definition handed_on :: "'w System \<Rightarrow> 'w SchedulerTask \<Rightarrow> 'w System \<Rightarrow> bool" where
  "handed_on s t s' \<longleftrightarrow> thread_step\<^sup>*\<^sup>* s s' \<and> t \<in> set (sy_handed s') \<and> sy_now s' = sy_now s \<and>
     (ds_threadState (sy_disp s) = STATE_RUNNING \<longrightarrow> t_f t \<in> set (m_taskList (sy_disp s')))"

lemma hand_over:
  assumes "ids_inv s" "sc_threadState (sy_sched s) \<noteq> STATE_TERMINATED" "t \<in># m_eventList (sy_sched s)"
    "t_eventid t \<in> m_eventIds (sy_sched s)" "t_cycle t \<le> sy_now s"
  shows "\<exists>s'. handed_on s t s'"
  using assms
proof (induction "size (m_eventList (sy_sched s))" arbitrary: s rule: less_induct)
  case less
  obtain s0 where s0: "thread_step\<^sup>*\<^sup>* s s0" "sy_hand s0 = None" "sy_sched s0 = sy_sched s" "sy_now s0 = sy_now s"
    "ids_inv s0" "ds_threadState (sy_disp s0) = ds_threadState (sy_disp s)"
    using empty_hand [OF less.prems(1)] by blast
  have "m_eventList (sy_sched s) \<noteq> {#}" using less.prems(3) by auto
  then obtain u where u: "is_top u (m_eventList (sy_sched s))" using top_exists by blast
  then have uq: "u \<in># m_eventList (sy_sched s)" and ut: "t_cycle u \<le> t_cycle t"
    using less.prems(3) by (auto simp: is_top_def task_less_def not_less)
  obtain run sc where turn: "schedulerTurn u (sy_sched s) = (run, sc)" by fastforce
  note sc = schedulerTurn_cases [OF turn]
  let ?s1 = "s0\<lparr>sy_sched := sc, sy_hand := (if run then Some u else None)\<rparr>"
  have st: "thread_step s0 ?s1"
    using thread_step.Turn [of s0 u run sc] s0 less.prems(2) u turn ut less.prems(5) by simp
  show ?case
  proof (cases "u = t")
    case True
    with sc(1) less.prems(4) have "sy_hand ?s1 = Some t" by simp
    note hand = thread_step.Hand [OF this]
    let ?s2 = "?s1\<lparr>sy_hand := None, sy_disp := snd (addTask (t_f t) False (sy_disp ?s1)), sy_handed := sy_handed ?s1 @ [t]\<rparr>"
    have "thread_step\<^sup>*\<^sup>* s ?s2"
      by (rule rtranclp.rtrancl_into_rtrancl [OF rtranclp.rtrancl_into_rtrancl [OF s0(1) st] hand])
    with s0 have "handed_on s t ?s2" by (simp add: handed_on_def addTask_def)
    then show ?thesis by blast
  next
    case False
    have "distinct_ids (m_eventList (sy_sched s))" using less.prems(1) by (simp add: ids_inv_def)
    note distinct_ids_remove(2) [OF this uq]
    moreover have tq: "t \<in># m_eventList (sy_sched s) - {#u#}" using less.prems(3) False by (auto simp: in_diff_count)
    ultimately have ne: "t_eventid t \<noteq> t_eventid u" using imageI [OF tq, of t_eventid] by metis
    have inv: "ids_inv ?s1" by (rule thread_ids_inv [OF st s0(5)])
    have sz: "size (m_eventList (sy_sched ?s1)) < size (m_eventList (sy_sched s))"
      using sc(2) uq by (simp add: size_Diff1_less)
    have "\<exists>s'. handed_on ?s1 t s'"
      by (rule less.hyps [OF sz inv]) (use sc tq ne less.prems s0 in auto)
    then obtain s' where s': "handed_on ?s1 t s'" ..
    have "thread_step\<^sup>*\<^sup>* s s'"
      using rtranclp_trans [OF rtranclp.rtrancl_into_rtrancl [OF s0(1) st]] s' by (simp add: handed_on_def)
    with s' s0 have "handed_on s t s'" by (simp add: handed_on_def)
    then show ?thesis by blast
  qed
qed

text \<open>
  C38. Scheduler progress: in every reachable state in which the scheduler is not terminated, an
  event in the queue that was not stopped and whose time has come is handed to the dispatcher by
  a run that consists of steps of the scheduler thread alone, however many events are in front
  of it; the clock does not move, and a running dispatcher then has its task in its list.
\<close>
theorem scheduler_progress:
  assumes "reachable s" "sy_added s < 2 ^ 32 - 1" "sc_threadState (sy_sched s) \<noteq> STATE_TERMINATED"
    and "t \<in># m_eventList (sy_sched s)" "t_eventid t \<in> m_eventIds (sy_sched s)" "t_cycle t \<le> sy_now s"
  shows "\<exists>s'. thread_step\<^sup>*\<^sup>* s s' \<and> t \<in> set (sy_handed s') \<and> sy_now s' = sy_now s \<and>
    (ds_threadState (sy_disp s) = STATE_RUNNING \<longrightarrow> t_f t \<in> set (m_taskList (sy_disp s')))"
  using hand_over [of s t] reachable_inv [OF assms(1)] assms by (auto simp: handed_on_def)

theorem scheduler_progress_witness:
  "\<exists>s'. thread_step\<^sup>*\<^sup>* example_due s' \<and> ev 60 1 7 \<in> set (sy_handed s') \<and> sy_now s' = 100 \<and>
    7 \<in> set (m_taskList (sy_disp s'))"
  using scheduler_progress [OF example_due_reachable, of "ev 60 1 7"]
  by (simp add: example_due_def ev_def new_Dispatcher_def)

text \<open>A run of the dispatcher: tasks added at the end, and turns.\<close>

fun dispatch :: "'w option list \<Rightarrow> 'w Dispatcher \<Rightarrow> 'w list \<times> 'w Dispatcher" where
  "dispatch [] d = ([], d)"
| "dispatch (Some task # es) d = dispatch es (snd (addTask task False d))"
| "dispatch (None # es) d =
     (let (r, d1) = takeTask d; (rs, d2) = dispatch es d1
      in ((case r of Some task \<Rightarrow> task # rs | None \<Rightarrow> rs), d2))"

text \<open>
  The running dispatcher loses, duplicates and reorders nothing: for every interleaving of
  additions (\<open>Some\<close>) and turns (\<open>None\<close>), the tasks run, followed by those still waiting, are the tasks
  that waited at the start followed by those added, in the order they were added.
\<close>
theorem dispatcher_fifo:
  assumes "ds_threadState d = STATE_RUNNING"
  shows "fst (dispatch es d) @ m_taskList (snd (dispatch es d)) = m_taskList d @ List.map_filter id es"
  using assms
proof (induction es d rule: dispatch.induct)
  case (1 d)
  then show ?case by (simp add: map_filter_simps)
next
  case (2 task es d)
  then show ?case by (simp add: addTask_def map_filter_simps)
next
  case (3 es d)
  show ?case
  proof (cases "m_taskList d")
    case Nil
    with 3 show ?thesis by (simp add: takeTask_def Let_def split_beta map_filter_simps)
  next
    case (Cons a as)
    with 3 show ?thesis by (simp add: takeTask_def Let_def split_beta map_filter_simps)
  qed
qed

theorem dispatcher_fifo_witness:
  "fst (dispatch [Some 3, None, Some 4, Some 5, None] (new_Dispatcher\<lparr>m_taskList := [1]\<rparr>)) @
   m_taskList (snd (dispatch [Some 3, None, Some 4, Some 5, None] (new_Dispatcher\<lparr>m_taskList := [1]\<rparr>))) = [1, 3, 4, 5 :: nat]"
  using dispatcher_fifo [of "new_Dispatcher\<lparr>m_taskList := [1 :: nat]\<rparr>" "[Some 3, None, Some 4, Some 5, None]"]
  by (simp add: new_Dispatcher_def map_filter_simps)

end
