(* ===== verification/MapTree.thy ===== *)
theory MapTree
  imports Positions
begin

text \<open>
  The tiles of the map (\<^verbatim>\<open>Source/map.h\<close>, \<^verbatim>\<open>Source/map.cpp\<close>): a tree with four children per
  node, indexed by the bits of the coordinates from bit 15 down, whose leaves hold the floors
  of an 8 by 8 block, the creatures on it, and links to the leaves of the block to the south
  and of the block to the east. Leaves are shared by the tree, the links and the tiles, so a leaf is a
  reference into a store of leaves that grows by one with each \<^verbatim>\<open>new\<close>.

  The main facts: the recursive and the iterative descent agree; a tile set on a free position is
  found there and nowhere else, and no other tile changes; the links of every map built
  with \<^verbatim>\<open>setTile\<close> are the neighbouring leaves.
\<close>

section \<open>Nodes, leaves and floors\<close>

abbreviation FLOOR_BITS :: u32 where "FLOOR_BITS \<equiv> 3"
abbreviation FLOOR_SIZE :: u32 where "FLOOR_SIZE \<equiv> 8"
abbreviation FLOOR_MASK :: u32 where "FLOOR_MASK \<equiv> 7"
abbreviation MAP_MAX_LAYERS :: u16 where "MAP_MAX_LAYERS \<equiv> 16"

text \<open>A \<^verbatim>\<open>QTreeNode*\<close>: null, a leaf by reference, or an inner node with \<^verbatim>\<open>m_child[4]\<close>.\<close>

datatype QTreeNode = QNull | QLeaf nat | QNode QTreeNode QTreeNode QTreeNode QTreeNode

type_synonym 't Floor = "'t option list list"

definition new_Floor :: "'t Floor" where
  "new_Floor = replicate 8 (replicate 8 None)"

record ('t, 'c) QTreeLeafNode =
  m_leafS :: "nat option"
  m_leafE :: "nat option"
  m_array :: "'t Floor option list"
  creature_list :: "'c list"

definition new_QTreeLeafNode :: "('t, 'c) QTreeLeafNode" where
  "new_QTreeLeafNode =
     \<lparr>m_leafS = None, m_leafE = None, m_array = replicate 16 None, creature_list = []\<rparr>"

definition new_QTreeNode :: QTreeNode where
  "new_QTreeNode = QNode QNull QNull QNull QNull"

definition child_index :: "u32 \<Rightarrow> u32 \<Rightarrow> u32" where
  "child_index x y = drop_bit 15 (x AND 0x8000) OR drop_bit 14 (y AND 0x8000)"

definition child_at :: "u32 \<Rightarrow> QTreeNode \<Rightarrow> QTreeNode \<Rightarrow> QTreeNode \<Rightarrow> QTreeNode \<Rightarrow> QTreeNode" where
  "child_at i a b c d = (if i = 0 then a else if i = 1 then b else if i = 2 then c else d)"

definition with_child :: "u32 \<Rightarrow> QTreeNode \<Rightarrow> QTreeNode \<Rightarrow> QTreeNode \<Rightarrow> QTreeNode \<Rightarrow> QTreeNode \<Rightarrow> QTreeNode" where
  "with_child i n a b c d =
     (if i = 0 then QNode n b c d else if i = 1 then QNode a n c d
      else if i = 2 then QNode a b n d else QNode a b c n)"

lemma size_child_at [termination_simp]: "size (child_at i a b c d) < Suc (size a + size b + size c + size d)"
  by (simp add: child_at_def)

section \<open>Descent\<close>

fun getLeaf :: "QTreeNode \<Rightarrow> u32 \<Rightarrow> u32 \<Rightarrow> nat option" where
  "getLeaf (QLeaf r) x y = Some r"
| "getLeaf (QNode a b c d) x y =
     (let child = child_at (child_index x y) a b c d
      in if child \<noteq> QNull then getLeaf child (x * 2) (y * 2) else None)"
| "getLeaf QNull x y = None"

text \<open>The loop of \<^verbatim>\<open>getLeafStatic\<close> over the current node and the shifted coordinates.\<close>

function getLeafStatic :: "QTreeNode \<Rightarrow> u32 \<Rightarrow> u32 \<Rightarrow> nat option" where
  "getLeafStatic currentNode currentX currentY =
     (case currentNode of
        QNull \<Rightarrow> None
      | QLeaf r \<Rightarrow> Some r
      | QNode a b c d \<Rightarrow>
          (if child_at (child_index currentX currentY) a b c d \<noteq> QNull
           then getLeafStatic (child_at (child_index currentX currentY) a b c d) (currentX * 2) (currentY * 2)
           else None))"
  by pat_completeness auto
termination
  by (relation "measure (\<lambda>(t, x, y). size t)") (auto simp: size_child_at)

declare getLeafStatic.simps [simp del]

text \<open>
  \<^verbatim>\<open>createLeaf\<close> over the store of leaves and the static flag \<^verbatim>\<open>newLeaf\<close>. A call on a null
  pointer is \<open>None\<close>; it does not happen. The level is unsigned and the recursion ends in a leaf
  from any level: each call goes down one existing node, or creates one and comes closer to
  level 3.
\<close>

fun node_weight :: "QTreeNode \<Rightarrow> nat" where
  "node_weight QNull = 0"
| "node_weight (QLeaf r) = 0"
| "node_weight (QNode a b c d) =
     (if a = QNull \<and> b = QNull \<and> c = QNull \<and> d = QNull then 1
      else 2 + node_weight a + node_weight b + node_weight c + node_weight d)"

lemma node_weight_child:
  "child_at i a b c d \<noteq> QNull \<Longrightarrow> node_weight (child_at i a b c d) < node_weight (QNode a b c d)"
  by (auto simp: child_at_def)

type_synonym ('t, 'c) leaf_store = "('t, 'c) QTreeLeafNode list \<times> bool"

function createLeaf :: "QTreeNode \<Rightarrow> u32 \<Rightarrow> u32 \<Rightarrow> u32 \<Rightarrow> ('t, 'c) leaf_store \<Rightarrow>
    (nat \<times> QTreeNode \<times> ('t, 'c) leaf_store) option" where
  "createLeaf QNull x y level st = None"
| "createLeaf (QLeaf r) x y level st = Some (r, QLeaf r, st)"
| "createLeaf (QNode a b c d) x y level st =
     (let index = child_index x y; child = child_at index a b c d
      in if child = QNull then
           (if level \<noteq> FLOOR_BITS then
              map_option (\<lambda>(r, child', st'). (r, with_child index child' a b c d, st'))
                (createLeaf new_QTreeNode (x * 2) (y * 2) (level - 1) st)
            else
              map_option (\<lambda>(r, child', st'). (r, with_child index child' a b c d, st'))
                (createLeaf (QLeaf (length (fst st))) (x * 2) (y * 2) (level - 1)
                   (fst st @ [new_QTreeLeafNode], True)))
         else
           map_option (\<lambda>(r, child', st'). (r, with_child index child' a b c d, st'))
             (createLeaf child (x * 2) (y * 2) (level - 1) st))"
  by pat_completeness auto

lemma level_down: "level \<noteq> (3 :: u32) \<Longrightarrow> unat (level - 1 - 3) < unat (level - 3)"
proof -
  assume "level \<noteq> 3"
  then have "level - 3 \<noteq> 0" by simp
  then have "unat (level - 3 - 1) < unat (level - 3)"
    by (metis measure_unat)
  moreover have "level - 3 - 1 = level - 1 - 3" by simp
  ultimately show ?thesis by metis
qed

termination createLeaf
proof (relation "measures [\<lambda>(t, x, y, level, st). node_weight t, \<lambda>(t, x, y, level, st). unat (level - 3)]", goal_cases)
  case 1 then show ?case by simp
next
  case (2 a b c d x y level st index child)
  then show ?case using level_down [of level] by (auto simp: new_QTreeNode_def)
next
  case (3 a b c d x y level st index child)
  then show ?case by auto
next
  case (4 a b c d x y level st index child)
  then show ?case using node_weight_child [of index a b c d] by auto
qed

section \<open>The map\<close>

text \<open>
  The part of the map that holds tiles and creatures. \<open>qt_node\<close> is the member of that name of each
  tile; the refresh list of a tile is the copy of its down items taken when it is set, with the time.
\<close>

record ('t, 'c, 'i) Map =
  map_root :: QTreeNode
  map_leaves :: "('t, 'c) QTreeLeafNode list"
  map_newLeaf :: bool
  qt_node :: "'t \<Rightarrow> nat option"
  refreshTileMap :: "'t \<Rightarrow> ('i list \<times> nat) option"

definition new_Map :: "('t, 'c, 'i) Map" where
  "new_Map = \<lparr>map_root = new_QTreeNode, map_leaves = [], map_newLeaf = False,
     qt_node = (\<lambda>_. None), refreshTileMap = (\<lambda>_. None)\<rparr>"

definition floor_tile :: "u16 \<Rightarrow> u16 \<Rightarrow> 't Floor \<Rightarrow> 't option" where
  "floor_tile x y fl = fl ! unat (ucast x AND FLOOR_MASK) ! unat (ucast y AND FLOOR_MASK)"

definition getTile :: "u16 \<Rightarrow> u16 \<Rightarrow> u16 \<Rightarrow> ('t, 'c, 'i) Map \<Rightarrow> 't option" where
  "getTile x y z m =
     (if z < MAP_MAX_LAYERS then
        (case getLeafStatic (map_root m) (ucast x) (ucast y) of
           Some leaf \<Rightarrow>
             (case m_array (map_leaves m ! leaf) ! unat z of
                Some fl \<Rightarrow> floor_tile x y fl
              | None \<Rightarrow> None)
         | None \<Rightarrow> None)
      else None)"

definition getTile_pos :: "position \<Rightarrow> ('t, 'c, 'i) Map \<Rightarrow> 't option" where
  "getTile_pos p m = getTile (px p) (py p) (pz p) m"

definition createFloor :: "u16 \<Rightarrow> ('t, 'c) QTreeLeafNode \<Rightarrow> ('t, 'c) QTreeLeafNode" where
  "createFloor z leaf =
     (if m_array leaf ! unat z = None
      then leaf\<lparr>m_array := (m_array leaf)[unat z := Some new_Floor]\<rparr> else leaf)"

definition update_leaf :: "nat \<Rightarrow> (('t, 'c) QTreeLeafNode \<Rightarrow> ('t, 'c) QTreeLeafNode) \<Rightarrow>
    ('t, 'c) QTreeLeafNode list \<Rightarrow> ('t, 'c) QTreeLeafNode list" where
  "update_leaf r f leaves = leaves[r := f (leaves ! r)]"

text \<open>The four updates after a leaf was created. The coordinates are 16 bits wide and promoted, so
  \<^verbatim>\<open>y - FLOOR_SIZE\<close> wraps to a large 32-bit value at the north edge.\<close>

definition link_leaf :: "QTreeNode \<Rightarrow> u32 \<Rightarrow> u32 \<Rightarrow> nat \<Rightarrow> ('t, 'c) QTreeLeafNode list \<Rightarrow>
    ('t, 'c) QTreeLeafNode list" where
  "link_leaf rt x y leaf ls =
     (let ls1 = (case getLeaf rt x (y - FLOOR_SIZE) of
                   Some northLeaf \<Rightarrow> update_leaf northLeaf (m_leafS_update (\<lambda>_. Some leaf)) ls | None \<Rightarrow> ls);
          ls2 = (case getLeaf rt (x - FLOOR_SIZE) y of
                   Some westLeaf \<Rightarrow> update_leaf westLeaf (m_leafE_update (\<lambda>_. Some leaf)) ls1 | None \<Rightarrow> ls1);
          ls3 = (case getLeaf rt x (y + FLOOR_SIZE) of
                   Some southLeaf \<Rightarrow> update_leaf leaf (m_leafS_update (\<lambda>_. Some southLeaf)) ls2 | None \<Rightarrow> ls2)
      in (case getLeaf rt (x + FLOOR_SIZE) y of
            Some eastLeaf \<Rightarrow> update_leaf leaf (m_leafE_update (\<lambda>_. Some eastLeaf)) ls3 | None \<Rightarrow> ls3))"

definition put_tile :: "u16 \<Rightarrow> u16 \<Rightarrow> 't \<Rightarrow> 't Floor \<Rightarrow> 't Floor" where
  "put_tile x y t fl =
     (let a = unat (ucast x AND FLOOR_MASK); b = unat (ucast y AND FLOOR_MASK)
      in fl[a := (fl ! a)[b := Some t]])"

definition setTile :: "u16 \<Rightarrow> u16 \<Rightarrow> u16 \<Rightarrow> 't \<Rightarrow> 'i list \<times> nat \<Rightarrow> ('t, 'c, 'i) Map \<Rightarrow> ('t, 'c, 'i) Map option" where
  "setTile x y z newtile rb m =
     (if z \<ge> MAP_MAX_LAYERS then Some m
      else case createLeaf (map_root m) (ucast x) (ucast y) 15 (map_leaves m, False) of
          None \<Rightarrow> None
        | Some (leaf, rt, ls, newLeaf) \<Rightarrow>
            (let ls1 = (if newLeaf then link_leaf rt (ucast x) (ucast y) leaf ls else ls);
                 ls2 = update_leaf leaf (createFloor z) ls1;
                 m1 = m\<lparr>map_root := rt, map_leaves := ls2, map_newLeaf := newLeaf\<rparr>;
                 fl = the (m_array (ls2 ! leaf) ! unat z);
                 m2 = (if floor_tile x y fl = None
                       then m1\<lparr>map_leaves := update_leaf leaf
                                 (\<lambda>l. l\<lparr>m_array := (m_array l)[unat z := Some (put_tile x y newtile fl)]\<rparr>) ls2,
                               qt_node := (qt_node m1)(newtile \<mapsto> leaf)\<rparr>
                       else m1)
             in Some (m2\<lparr>refreshTileMap := (refreshTileMap m2)(newtile \<mapsto> rb)\<rparr>)))"

section \<open>Paths of a descent\<close>

text \<open>The first \<open>n\<close> bits a descent inspects, from bit 15 down.\<close>

definition same_path :: "nat \<Rightarrow> u32 \<Rightarrow> u32 \<Rightarrow> bool" where
  "same_path n x x' \<longleftrightarrow> (\<forall>i<n. bit x (15 - i) = bit x' (15 - i))"

lemma same_path_0 [simp]: "same_path 0 x x'"
  by (simp add: same_path_def)

lemma bit_double: "0 < i \<Longrightarrow> i < 32 \<Longrightarrow> bit (x * 2 :: u32) i = bit x (i - 1)"
proof -
  assume "0 < i" "i < 32"
  moreover have "x * 2 = push_bit 1 x" by (simp add: push_bit_eq_mult mult.commute)
  moreover have "bit (push_bit 1 x) i \<longleftrightarrow> 1 \<le> i \<and> i < LENGTH(32) \<and> bit x (i - 1)"
    by (simp only: bit_push_bit_iff possible_bit_word conj_ac)
  ultimately show ?thesis by simp
qed

lemma same_path_Suc:
  assumes "n \<le> 14"
  shows "same_path (Suc n) x x' \<longleftrightarrow> bit x 15 = bit x' 15 \<and> same_path n (x * 2) (x' * 2)"
proof -
  have "bit (x * 2) (15 - i) = bit x (15 - Suc i)" "bit (x' * 2) (15 - i) = bit x' (15 - Suc i)" if "i < n" for i
    using that assms bit_double [of "15 - i"] by auto
  then have "same_path n (x * 2) (x' * 2) \<longleftrightarrow> (\<forall>i<n. bit x (15 - Suc i) = bit x' (15 - Suc i))"
    by (simp add: same_path_def)
  then show ?thesis
    by (simp add: same_path_def All_less_Suc2)
qed

lemma child_index_bits: "child_index x y = (if bit x 15 then 1 else 0) + (if bit y 15 then 2 else 0)"
proof -
  have mask: "(0x8000 :: u32) = push_bit 15 1" by (simp add: push_bit_eq_mult)
  have "bit (0x8000 :: u32) n \<longleftrightarrow> n = 15" for n
    unfolding mask by (simp only: bit_push_bit_iff bit_1_iff possible_bit_word) auto
  then have b: "bit (w AND 0x8000) n = bit (if bit w 15 then 0x8000 else 0 :: u32) n" for w :: u32 and n
    by (auto simp: bit_and_iff)
  have "w AND 0x8000 = (if bit w 15 then 0x8000 else 0)" for w :: u32
    by (rule bit_eqI) (rule b)
  then show ?thesis
    unfolding child_index_def by (cases "bit x 15"; cases "bit y 15") simp_all
qed

lemma child_index_eq: "child_index x y = child_index x' y' \<longleftrightarrow> bit x 15 = bit x' 15 \<and> bit y 15 = bit y' 15"
  by (simp add: child_index_bits split: if_splits)

lemma child_at_with_child:
  "with_child (child_index x y) n a b c d = QNode a' b' c' d' \<Longrightarrow>
   child_at (child_index x' y') a' b' c' d' =
     (if child_index x' y' = child_index x y then n else child_at (child_index x' y') a b c d)"
  by (auto simp: child_at_def with_child_def child_index_bits split: if_splits)

text \<open>A subtree whose leaves are \<open>n\<close> levels down.\<close>

fun wf_tree :: "nat \<Rightarrow> QTreeNode \<Rightarrow> bool" where
  "wf_tree 0 (QLeaf r) = True"
| "wf_tree (Suc n) (QNode a b c d) =
     ((a = QNull \<or> wf_tree n a) \<and> (b = QNull \<or> wf_tree n b) \<and> (c = QNull \<or> wf_tree n c) \<and>
      (d = QNull \<or> wf_tree n d))"
| "wf_tree n t = False"

lemma wf_tree_child: "wf_tree (Suc n) (QNode a b c d) \<Longrightarrow> child_at i a b c d = QNull \<or> wf_tree n (child_at i a b c d)"
  by (auto simp: child_at_def)

lemma wf_tree_with_child: "wf_tree (Suc n) (QNode a b c d) \<Longrightarrow> wf_tree n t \<Longrightarrow> wf_tree (Suc n) (with_child i t a b c d)"
  by (auto simp: with_child_def)

lemma wf_tree_SucE:
  assumes "wf_tree (Suc n) t"
  obtains a b c d where "t = QNode a b c d"
  using assms by (cases t) auto

lemma getLeaf_QNode: "getLeaf (QNode a b c d) x y = getLeaf (child_at (child_index x y) a b c d) (x * 2) (y * 2)"
  by (auto simp: Let_def)

lemma getLeafStatic_eq: "getLeafStatic t x y = getLeaf t x y"
proof (induction t x y rule: getLeaf.induct)
  case (2 a b c d x y)
  then show ?case by (subst getLeafStatic.simps) (simp add: Let_def)
qed (simp_all add: getLeafStatic.simps)

lemma getLeaf_cong:
  assumes "wf_tree n t" "n \<le> 15" "same_path n x x'" "same_path n y y'"
  shows "getLeaf t x y = getLeaf t x' y'"
  using assms
proof (induction n arbitrary: t x y x' y')
  case 0
  then show ?case by (cases t) auto
next
  case (Suc n)
  then obtain a b c d where t: "t = QNode a b c d" by (auto elim: wf_tree_SucE)
  have i: "child_index x' y' = child_index x y"
    using Suc.prems by (simp add: child_index_eq same_path_Suc)
  show ?case
  proof (cases "child_at (child_index x y) a b c d = QNull")
    case True
    then show ?thesis by (simp add: t i)
  next
    case False
    then have "wf_tree n (child_at (child_index x y) a b c d)"
      using Suc.prems(1) wf_tree_child unfolding t by blast
    with Suc.prems have "getLeaf (child_at (child_index x y) a b c d) (x * 2) (y * 2) =
        getLeaf (child_at (child_index x y) a b c d) (x' * 2) (y' * 2)"
      by (intro Suc.IH) (simp_all add: same_path_Suc)
    then show ?thesis by (simp only: t getLeaf_QNode i)
  qed
qed

text \<open>What \<open>createLeaf\<close> does to a well-formed subtree.\<close>

definition created :: "nat \<Rightarrow> QTreeNode \<Rightarrow> u32 \<Rightarrow> u32 \<Rightarrow> ('t, 'c) leaf_store \<Rightarrow>
    nat \<Rightarrow> QTreeNode \<Rightarrow> ('t, 'c) leaf_store \<Rightarrow> bool" where
  "created n t x y st r t' st' \<longleftrightarrow>
     wf_tree n t' \<and>
     (case getLeaf t x y of
        Some p \<Rightarrow> r = p \<and> st' = st
      | None \<Rightarrow> r = length (fst st) \<and> st' = (fst st @ [new_QTreeLeafNode], True)) \<and>
     (\<forall>x' y'. getLeaf t' x' y' =
        (if same_path n x x' \<and> same_path n y y' then Some r else getLeaf t x' y'))"

lemma created_parent:
  assumes wf: "wf_tree (Suc n) (QNode a b c d)" and n: "n \<le> 14"
    and ch: "ch = child_at (child_index x y) a b c d"
    and cr: "created n t0 (x * 2) (y * 2) st0 r t' st'"
    and same: "\<And>x' y'. getLeaf t0 x' y' = (if ch = QNull then getLeaf t0 x' y' else getLeaf ch x' y')"
    and nul: "ch = QNull \<Longrightarrow> (getLeaf t0 (x * 2) (y * 2) = None \<and> st0 = st \<and> (\<forall>x' y'. getLeaf t0 x' y' = None) \<or>
       getLeaf t0 (x * 2) (y * 2) = Some (length (fst st)) \<and> st0 = (fst st @ [new_QTreeLeafNode], True) \<and> n = 0)"
    and nn: "ch \<noteq> QNull \<Longrightarrow> st0 = st"
  shows "created (Suc n) (QNode a b c d) x y st r (with_child (child_index x y) t' a b c d) st'"
proof -
  have wf': "wf_tree n t'" using cr by (simp add: created_def)
  have look: "getLeaf (with_child (child_index x y) t' a b c d) x' y' =
      (if child_index x' y' = child_index x y then getLeaf t' (x' * 2) (y' * 2)
       else getLeaf (QNode a b c d) x' y')" for x' y'
  proof -
    have "\<exists>a' b' c' d'. with_child (child_index x y) t' a b c d = QNode a' b' c' d'"
      by (auto simp: with_child_def)
    then obtain a' b' c' d' where w: "with_child (child_index x y) t' a b c d = QNode a' b' c' d'" by blast
    show ?thesis
      unfolding w getLeaf_QNode child_at_with_child [OF w] by simp
  qed
  have old: "getLeaf (QNode a b c d) x' y' = getLeaf ch (x' * 2) (y' * 2)" if "child_index x' y' = child_index x y" for x' y'
    using that by (simp only: getLeaf_QNode ch)
  have t'l: "getLeaf t' x' y' = (if same_path n (x * 2) x' \<and> same_path n (y * 2) y' then Some r else getLeaf t0 x' y')" for x' y'
    using cr unfolding created_def by blast
  have "wf_tree (Suc n) (with_child (child_index x y) t' a b c d)"
    using wf wf' by (rule wf_tree_with_child)
  moreover have "case getLeaf (QNode a b c d) x y of Some p \<Rightarrow> r = p \<and> st' = st
      | None \<Rightarrow> r = length (fst st) \<and> st' = (fst st @ [new_QTreeLeafNode], True)"
  proof (cases "ch = QNull")
    case True
    then show ?thesis using nul [OF True] cr old [of x y] by (auto simp: created_def)
  next
    case False
    then show ?thesis using nn [OF False] cr old [of x y] same [of "x * 2" "y * 2"] unfolding created_def by auto
  qed
  moreover have "getLeaf (with_child (child_index x y) t' a b c d) x' y' =
      (if same_path (Suc n) x x' \<and> same_path (Suc n) y y' then Some r else getLeaf (QNode a b c d) x' y')" for x' y'
  proof (cases "child_index x' y' = child_index x y")
    case False
    then have "\<not> (same_path (Suc n) x x' \<and> same_path (Suc n) y y')"
      using n unfolding child_index_eq by (auto simp: same_path_Suc)
    then show ?thesis using False unfolding look by (simp only: if_False if_True simp_thms split: if_splits)
  next
    case True
    have "getLeaf t0 (x' * 2) (y' * 2) = getLeaf ch (x' * 2) (y' * 2)"
      if "\<not> (same_path n (x * 2) (x' * 2) \<and> same_path n (y * 2) (y' * 2))"
      using that nul same [of "x' * 2" "y' * 2"] by (cases "ch = QNull") auto
    moreover have "same_path (Suc n) x x' \<and> same_path (Suc n) y y' \<longleftrightarrow>
        same_path n (x * 2) (x' * 2) \<and> same_path n (y * 2) (y' * 2)"
      using True n by (auto simp: same_path_Suc child_index_eq)
    ultimately show ?thesis
      unfolding look t'l old [OF True] using True by (simp del: getLeaf.simps)
  qed
  ultimately show ?thesis unfolding created_def by blast
qed

lemma getLeaf_new: "getLeaf new_QTreeNode x y = None"
  by (simp add: new_QTreeNode_def child_at_def)

lemma createLeaf_created:
  assumes "wf_tree n t" "n \<le> 13"
  shows "\<exists>r t' st'. createLeaf t x y (2 + of_nat n) st = Some (r, t', st') \<and> created n t x y st r t' st'"
  using assms
proof (induction n arbitrary: t x y st)
  case 0
  then obtain r where "t = QLeaf r" by (cases t) auto
  then show ?case by (simp add: created_def)
next
  case (Suc n)
  then obtain a b c d where t: "t = QNode a b c d" by (auto elim: wf_tree_SucE)
  let ?ch = "child_at (child_index x y) a b c d"
  have lev: "(2 + of_nat (Suc n) :: u32) - 1 = 2 + of_nat n" by simp
  have lev3: "(2 + of_nat (Suc n) :: u32) = 3 \<longleftrightarrow> n = 0"
  proof -
    have "(2 + of_nat (Suc n) :: u32) = of_nat (n + 3)" by simp
    moreover have "unat (of_nat (n + 3) :: u32) = n + 3"
      using Suc.prems by (intro unat_of_nat_eq) simp
    ultimately show ?thesis by (simp add: word_unat_eq_iff)
  qed
  show ?case
  proof (cases "?ch = QNull")
    case False
    then have "wf_tree n ?ch" using Suc.prems(1) wf_tree_child unfolding t by blast
    with Suc obtain r t' st' where *: "createLeaf ?ch (x * 2) (y * 2) (2 + of_nat n) st = Some (r, t', st')"
        "created n ?ch (x * 2) (y * 2) st r t' st'" by (metis Suc_leD)
    have "created (Suc n) (QNode a b c d) x y st r (with_child (child_index x y) t' a b c d) st'"
      using Suc.prems False * by (intro created_parent [OF _ _ refl *(2)]) (auto simp: t)
    moreover have "createLeaf t x y (2 + of_nat (Suc n)) st =
        Some (r, with_child (child_index x y) t' a b c d, st')"
      using False *(1) lev by (simp add: t Let_def)
    ultimately show ?thesis unfolding t by blast
  next
    case True
    show ?thesis
    proof (cases "n = 0")
      case n0: True
      have c: "created n (QLeaf (length (fst st))) (x * 2) (y * 2) (fst st @ [new_QTreeLeafNode], True)
          (length (fst st)) (QLeaf (length (fst st))) (fst st @ [new_QTreeLeafNode], True)"
        by (simp add: created_def n0)
      have "created (Suc n) (QNode a b c d) x y st (length (fst st))
          (with_child (child_index x y) (QLeaf (length (fst st))) a b c d) (fst st @ [new_QTreeLeafNode], True)"
        using Suc.prems True by (intro created_parent [OF _ _ refl c]) (auto simp: t n0)
      moreover have "createLeaf t x y (2 + of_nat (Suc n)) st = Some (length (fst st),
          with_child (child_index x y) (QLeaf (length (fst st))) a b c d, (fst st @ [new_QTreeLeafNode], True))"
        using True n0 by (simp add: t Let_def)
      ultimately show ?thesis unfolding t by blast
    next
      case False
      have "wf_tree n new_QTreeNode" using False by (cases n) (simp_all add: new_QTreeNode_def)
      with Suc obtain r t' st' where *: "createLeaf new_QTreeNode (x * 2) (y * 2) (2 + of_nat n) st = Some (r, t', st')"
          "created n new_QTreeNode (x * 2) (y * 2) st r t' st'" by (metis Suc_leD)
      have "created (Suc n) (QNode a b c d) x y st r (with_child (child_index x y) t' a b c d) st'"
        using Suc.prems True * by (intro created_parent [OF _ _ refl *(2)]) (auto simp: t getLeaf_new)
      moreover have "createLeaf t x y (2 + of_nat (Suc n)) st =
          Some (r, with_child (child_index x y) t' a b c d, st')"
        using True False *(1) lev lev3 by (simp add: t Let_def)
      ultimately show ?thesis unfolding t by blast
    qed
  qed
qed

section \<open>Blocks\<close>

text \<open>The number of the 8 by 8 block of a coordinate, modulo the 8192 blocks of a 16-bit axis.\<close>

definition blk :: "u32 \<Rightarrow> nat" where
  "blk x = unat x div 8 mod 8192"

lemma blk_word: "blk x = unat (take_bit 13 (drop_bit 3 x))"
proof -
  have "unat (take_bit 13 (drop_bit 3 x)) = take_bit 13 (unat (drop_bit 3 x))"
    by (rule unsigned_take_bit_eq)
  also have "unat (drop_bit 3 x) = drop_bit 3 (unat x)"
    by (rule unat_drop_bit_eq)
  finally show ?thesis by (simp only: blk_def) (simp add: take_bit_eq_mod drop_bit_eq_div)
qed

lemma same_path_blk: "same_path 13 x x' \<longleftrightarrow> blk x = blk x'"
proof -
  have "blk x = blk x' \<longleftrightarrow> take_bit 13 (drop_bit 3 x) = take_bit 13 (drop_bit 3 x')"
    by (simp add: blk_word word_unat_eq_iff)
  also have "\<dots> \<longleftrightarrow> (\<forall>j<13. bit x (3 + j) = bit x' (3 + j))"
  proof
    assume *: "take_bit 13 (drop_bit 3 x) = take_bit 13 (drop_bit 3 x')"
    have "bit w (3 + j) = bit (take_bit 13 (drop_bit 3 w)) j" if "j < 13" for w :: u32 and j
      using that by (simp add: bit_take_bit_iff bit_drop_bit_eq)
    with * show "\<forall>j<13. bit x (3 + j) = bit x' (3 + j)" by metis
  next
    assume "\<forall>j<13. bit x (3 + j) = bit x' (3 + j)"
    then show "take_bit 13 (drop_bit 3 x) = take_bit 13 (drop_bit 3 x')"
      by (intro bit_eqI) (auto simp: bit_take_bit_iff bit_drop_bit_eq)
  qed
  also have "\<dots> \<longleftrightarrow> same_path 13 x x'"
  proof
    assume *: "\<forall>j<13. bit x (3 + j) = bit x' (3 + j)"
    have "bit x (15 - i) = bit x' (15 - i)" if "i < 13" for i
      using * [rule_format, of "12 - i"] that by simp
    then show "same_path 13 x x'" by (simp add: same_path_def)
  next
    assume *: "same_path 13 x x'"
    show "\<forall>j<13. bit x (3 + j) = bit x' (3 + j)"
    proof (intro allI impI)
      fix j :: nat
      assume "j < 13"
      then show "bit x (3 + j) = bit x' (3 + j)"
        using * [unfolded same_path_def, rule_format, of "12 - j"] by simp
    qed
  qed
  finally show ?thesis ..
qed

lemma blk_add: "blk (x + 8) = (blk x + 1) mod 8192"
proof -
  have "unat (x + 8) = (unat x + 8) mod (8 * 536870912)"
    by (simp add: unat_word_ariths)
  then have "unat (x + 8) div 8 = (unat x div 8 + 1) mod 536870912"
    by (simp only: mod_mult2_eq) (simp add: div_add_self2 [of 8 "unat x"])
  then have "blk (x + 8) = (unat x div 8 + 1) mod 536870912 mod 8192"
    by (simp add: blk_def)
  also have "\<dots> = (unat x div 8 + 1) mod 8192"
    by (rule mod_mod_cancel) simp
  finally show ?thesis by (simp add: blk_def mod_simps)
qed

lemma mod_Suc_inj: "a < n \<Longrightarrow> b < n \<Longrightarrow> (a + 1) mod n = (b + 1) mod n \<longleftrightarrow> a = (b :: nat)"
  by (cases "a + 1 = n"; cases "b + 1 = n") auto

lemma blk_less: "blk x < 8192"
  by (simp add: blk_def)

lemma blk_add_eq: "blk (x + 8) = blk (x' + 8) \<longleftrightarrow> blk x = blk x'"
  unfolding blk_add by (rule mod_Suc_inj) (rule blk_less)+

lemma blk_sub_eq: "blk x' = blk (x - 8) \<longleftrightarrow> blk (x' + 8) = blk x"
  using blk_add_eq [of x' "x - 8"] by simp

lemma blk_add_neq: "blk (x + 8) \<noteq> blk x" "blk (x - 8) \<noteq> blk x"
proof -
  show "blk (x + 8) \<noteq> blk x" for x
    using blk_less [of x] unfolding blk_add by (cases "blk x + 1 = 8192") auto
  from this [of "x - 8"] show "blk (x - 8) \<noteq> blk x" by simp
qed

lemma getLeaf_blk:
  assumes "wf_tree 13 t" "blk x = blk x'" "blk y = blk y'"
  shows "getLeaf t x y = getLeaf t x' y'"
  using assms getLeaf_cong [of 13 t x x' y y'] by (simp add: same_path_blk)

section \<open>The invariant of the map\<close>

definition floors_ok :: "('t, 'c) QTreeLeafNode \<Rightarrow> bool" where
  "floors_ok l \<longleftrightarrow> length (m_array l) = 16 \<and>
     (\<forall>fl. Some fl \<in> set (m_array l) \<longrightarrow> length fl = 8 \<and> (\<forall>row \<in> set fl. length row = 8))"

definition links_ok :: "(u32 \<Rightarrow> u32 \<Rightarrow> nat option) \<Rightarrow> ('t, 'c) QTreeLeafNode list \<Rightarrow> bool" where
  "links_ok look ls \<longleftrightarrow> (\<forall>x y p. look x y = Some p \<longrightarrow>
     m_leafS (ls ! p) = look x (y + 8) \<and> m_leafE (ls ! p) = look (x + 8) y)"

definition refs_ok :: "(u32 \<Rightarrow> u32 \<Rightarrow> nat option) \<Rightarrow> nat \<Rightarrow> bool" where
  "refs_ok look n \<longleftrightarrow>
     (\<forall>x y x' y'. blk x = blk x' \<longrightarrow> blk y = blk y' \<longrightarrow> look x y = look x' y') \<and>
     (\<forall>x y p. look x y = Some p \<longrightarrow> p < n) \<and>
     (\<forall>x y x' y' p. look x y = Some p \<longrightarrow> look x' y' = Some p \<longrightarrow> blk x = blk x' \<and> blk y = blk y')"

definition map_inv :: "('t, 'c, 'i) Map \<Rightarrow> bool" where
  "map_inv m \<longleftrightarrow> wf_tree 13 (map_root m) \<and> refs_ok (getLeaf (map_root m)) (length (map_leaves m)) \<and>
     (\<forall>l \<in> set (map_leaves m). floors_ok l) \<and> links_ok (getLeaf (map_root m)) (map_leaves m)"

lemma map_inv_new: "map_inv new_Map"
proof -
  have "wf_tree 13 new_QTreeNode" by (simp add: new_QTreeNode_def eval_nat_numeral)
  then show ?thesis
    by (simp add: map_inv_def new_Map_def refs_ok_def links_ok_def getLeaf_new)
qed

lemma floors_ok_new: "floors_ok new_QTreeLeafNode"
  by (simp add: floors_ok_def new_QTreeLeafNode_def)

lemma floors_ok_createFloor: "floors_ok l \<Longrightarrow> floors_ok (createFloor z l)"
  by (auto simp: floors_ok_def createFloor_def new_Floor_def dest!: set_update_subset_insert [THEN subsetD])

lemma length_update_leaf [simp]: "length (update_leaf r f ls) = length ls"
  by (simp add: update_leaf_def)

lemma nth_update_leaf: "p < length ls \<Longrightarrow> update_leaf r f ls ! p = (if p = r then f (ls ! p) else ls ! p)"
  by (auto simp: update_leaf_def nth_list_update)

lemma link_leaf_nth:
  assumes "\<forall>x y p. getLeaf rt x y = Some p \<longrightarrow> p < length ls" "leaf < length ls" "p < length ls"
    "getLeaf rt x (y - 8) \<noteq> Some leaf" "getLeaf rt (x - 8) y \<noteq> Some leaf"
  shows "m_leafS (link_leaf rt x y leaf ls ! p) =
      (if p = leaf then (case getLeaf rt x (y + 8) of Some s \<Rightarrow> Some s | None \<Rightarrow> m_leafS (ls ! p))
       else if getLeaf rt x (y - 8) = Some p then Some leaf else m_leafS (ls ! p))"
    and "m_leafE (link_leaf rt x y leaf ls ! p) =
      (if p = leaf then (case getLeaf rt (x + 8) y of Some s \<Rightarrow> Some s | None \<Rightarrow> m_leafE (ls ! p))
       else if getLeaf rt (x - 8) y = Some p then Some leaf else m_leafE (ls ! p))"
    and "m_array (link_leaf rt x y leaf ls ! p) = m_array (ls ! p)"
    and "creature_list (link_leaf rt x y leaf ls ! p) = creature_list (ls ! p)"
    and "length (link_leaf rt x y leaf ls) = length ls"
  using assms by (auto simp: link_leaf_def Let_def nth_update_leaf split: option.splits)

lemma links_ok_link:
  assumes L: "refs_ok L n" "links_ok L ls" "n = length ls" "L x y = None"
    and L': "\<And>x' y'. getLeaf rt x' y' = (if blk x = blk x' \<and> blk y = blk y' then Some n else L x' y')"
  shows "links_ok (getLeaf rt) (link_leaf rt x y n (ls @ [new_QTreeLeafNode]))"
proof -
  let ?ls = "ls @ [new_QTreeLeafNode]"
  have cong: "L x1 y1 = L x2 y2" if "blk x1 = blk x2" "blk y1 = blk y2" for x1 y1 x2 y2
    using L(1) that unfolding refs_ok_def by blast
  have bound: "p < n" if "L x1 y1 = Some p" for x1 y1 p
    using L(1) that unfolding refs_ok_def by blast
  have inj: "blk x1 = blk x2 \<and> blk y1 = blk y2" if "L x1 y1 = Some p" "L x2 y2 = Some p" for x1 y1 x2 y2 p
    using L(1) that unfolding refs_ok_def by blast
  have bnd: "p < length ?ls" if "getLeaf rt x1 y1 = Some p" for x1 y1 p
    using that L' bound L(3) by (auto split: if_splits intro: less_SucI)
  have nb: "getLeaf rt x (y - 8) = L x (y - 8)" "getLeaf rt (x - 8) y = L (x - 8) y"
    "getLeaf rt x (y + 8) = L x (y + 8)" "getLeaf rt (x + 8) y = L (x + 8) y"
    using blk_add_neq [of x] blk_add_neq [of y] by (simp_all add: L')
  have neq: "getLeaf rt x (y - 8) \<noteq> Some n" "getLeaf rt (x - 8) y \<noteq> Some n"
    using bound nb by force+
  note at = link_leaf_nth [where rt = rt, OF _ _ _ neq]
  have all: "\<forall>x1 y1 p. getLeaf rt x1 y1 = Some p \<longrightarrow> p < length ?ls" using bnd by blast
  show ?thesis
    unfolding links_ok_def
  proof (intro allI impI)
    fix x1 y1 p
    assume p: "getLeaf rt x1 y1 = Some p"
    then have pl: "p < length ?ls" and nl: "n < length ?ls" using bnd L(3) by auto
    show "m_leafS (link_leaf rt x y n ?ls ! p) = getLeaf rt x1 (y1 + 8) \<and>
          m_leafE (link_leaf rt x y n ?ls ! p) = getLeaf rt (x1 + 8) y1"
    proof (cases "p = n")
      case True
      with p have same: "blk x = blk x1" "blk y = blk y1" using L' bound by (force split: if_splits)+
      then have "L x1 (y1 + 8) = L x (y + 8)" "L (x1 + 8) y1 = L (x + 8) y"
        by (auto intro!: cong simp: blk_add)
      moreover have "getLeaf rt x1 (y1 + 8) = L x1 (y1 + 8)" "getLeaf rt (x1 + 8) y1 = L (x1 + 8) y1"
        using same blk_add_neq [of x1] blk_add_neq [of y1] by (simp_all add: L')
      ultimately show ?thesis
        using at(1,2) [OF all nl pl] True nb L(3)
        by (auto simp: new_QTreeLeafNode_def nth_append split: option.split)
    next
      case False
      with p have Lp: "L x1 y1 = Some p" and ns: "\<not> (blk x = blk x1 \<and> blk y = blk y1)"
        by (auto simp: L' split: if_splits)
      have pn: "p < n" using bound Lp .
      have S: "L x (y - 8) = Some p \<longleftrightarrow> blk x = blk x1 \<and> blk y = blk (y1 + 8)"
        using Lp inj [of x "y - 8" p x1 y1] cong [of x x1 "y - 8" y1] blk_sub_eq [of y1 y] by auto
      have E: "L (x - 8) y = Some p \<longleftrightarrow> blk x = blk (x1 + 8) \<and> blk y = blk y1"
        using Lp inj [of "x - 8" y p x1 y1] cong [of "x - 8" x1 y y1] blk_sub_eq [of x1 x] by auto
      have "m_leafS (ls ! p) = L x1 (y1 + 8)" "m_leafE (ls ! p) = L (x1 + 8) y1"
        using L(2) Lp unfolding links_ok_def by auto
      then show ?thesis
        using at(1,2) [OF all nl pl] False nb S E pn L(3) by (auto simp: L' nth_append)
    qed
  qed
qed

section \<open>Tiles\<close>

lemma links_ok_cong:
  assumes "links_ok L ls" "\<And>p. m_leafS (ls' ! p) = m_leafS (ls ! p)" "\<And>p. m_leafE (ls' ! p) = m_leafE (ls ! p)"
  shows "links_ok L ls'"
  using assms by (simp add: links_ok_def)

definition floor_at :: "QTreeNode \<Rightarrow> ('t, 'c) QTreeLeafNode list \<Rightarrow> u32 \<Rightarrow> u32 \<Rightarrow> nat \<Rightarrow> 't Floor option" where
  "floor_at rt ls x y z = (case getLeaf rt x y of Some p \<Rightarrow> m_array (ls ! p) ! z | None \<Rightarrow> None)"

lemma getTile_floor:
  "getTile x y z m = (if z < 16 then
     (case floor_at (map_root m) (map_leaves m) (ucast x) (ucast y) (unat z) of
        Some fl \<Rightarrow> floor_tile x y fl | None \<Rightarrow> None) else None)"
  by (auto simp: getTile_def floor_at_def getLeafStatic_eq split: option.split)

lemma refs_ok_grow:
  assumes L: "refs_ok L n"
    and L': "\<And>x' y'. L' x' y' = (if blk x = blk x' \<and> blk y = blk y' then Some n else L x' y')"
  shows "refs_ok L' (Suc n)"
  unfolding refs_ok_def
proof (intro conjI allI impI)
  fix x1 y1 x2 y2 p
  show "L' x1 y1 = L' x2 y2" if "blk x1 = blk x2" "blk y1 = blk y2"
    using L that unfolding refs_ok_def L' by metis
  have bound: "L x1 y1 = Some p \<Longrightarrow> p < n" for x1 y1 p
    using L unfolding refs_ok_def by blast
  show "p < Suc n" if "L' x1 y1 = Some p"
    using that bound [of x1 y1 p] by (auto simp: L' split: if_splits)
  assume p: "L' x1 y1 = Some p" "L' x2 y2 = Some p"
  have inj: "L x1 y1 = Some p \<Longrightarrow> L x2 y2 = Some p \<Longrightarrow> blk x1 = blk x2 \<and> blk y1 = blk y2"
    using L unfolding refs_ok_def by blast
  show "blk x1 = blk x2" "blk y1 = blk y2"
    using p bound [of x1 y1 p] bound [of x2 y2 p] inj by (auto simp: L' split: if_splits)
qed

text \<open>The state after the leaf was created, if need be, and linked.\<close>

lemma setTile_leaf:
  assumes inv: "map_inv m"
  obtains leaf rt ls nl ls1 where
    "createLeaf (map_root m) x y 15 (map_leaves m, False) = Some (leaf, rt, ls, nl)"
    "ls1 = (if nl then link_leaf rt x y leaf ls else ls)"
    "wf_tree 13 rt" "refs_ok (getLeaf rt) (length ls1)" "\<forall>l \<in> set ls1. floors_ok l" "links_ok (getLeaf rt) ls1"
    "getLeaf rt x y = Some leaf"
    "\<And>x' y' z. z < 16 \<Longrightarrow> floor_at rt ls1 x' y' z = floor_at (map_root m) (map_leaves m) x' y' z"
proof -
  let ?L = "getLeaf (map_root m)" and ?n = "length (map_leaves m)"
  from inv have wf: "wf_tree 13 (map_root m)" and refs: "refs_ok ?L ?n"
    and fl: "\<forall>l \<in> set (map_leaves m). floors_ok l" and li: "links_ok ?L (map_leaves m)"
    by (simp_all add: map_inv_def)
  from createLeaf_created [OF wf, of x y "(map_leaves m, False)"] obtain leaf rt ls nl where
    c: "createLeaf (map_root m) x y 15 (map_leaves m, False) = Some (leaf, rt, ls, nl)"
    and cr: "created 13 (map_root m) x y (map_leaves m, False) leaf rt (ls, nl)" by auto
  from cr have wf': "wf_tree 13 rt" by (simp add: created_def)
  have look: "getLeaf rt x' y' = (if blk x = blk x' \<and> blk y = blk y' then Some leaf else ?L x' y')" for x' y'
    using cr unfolding created_def same_path_blk by blast
  have self: "getLeaf rt x y = Some leaf" by (simp add: look)
  have bound: "?L x' y' = Some p \<Longrightarrow> p < ?n" for x' y' p
    using refs unfolding refs_ok_def by blast
  have cong: "blk x1 = blk x2 \<Longrightarrow> blk y1 = blk y2 \<Longrightarrow> ?L x1 y1 = ?L x2 y2" for x1 y1 x2 y2
    using refs unfolding refs_ok_def by blast
  have inj: "?L x1 y1 = Some p \<Longrightarrow> ?L x2 y2 = Some p \<Longrightarrow> blk x1 = blk x2 \<and> blk y1 = blk y2" for x1 y1 x2 y2 p
    using refs unfolding refs_ok_def by blast
  show ?thesis
  proof (cases "?L x y")
    case (Some p)
    with cr have s: "leaf = p" "ls = map_leaves m" "nl = False" by (auto simp: created_def)
    have "getLeaf rt x' y' = ?L x' y'" for x' y'
      using Some cong [of x x' y y'] by (simp add: look s)
    then have "getLeaf rt = ?L" by (intro ext)
    with that [OF c refl wf'] refs fl li self s show ?thesis by (simp add: floor_at_def)
  next
    case None
    with cr have s: "leaf = ?n" "ls = map_leaves m @ [new_QTreeLeafNode]" "nl = True" by (auto simp: created_def)
    let ?ls1 = "link_leaf rt x y leaf ls"
    have nb: "getLeaf rt x (y - 8) \<noteq> Some leaf" "getLeaf rt (x - 8) y \<noteq> Some leaf"
      using blk_add_neq [of x] blk_add_neq [of y] bound [of x "y - 8"] bound [of "x - 8" y]
      by (auto simp: look s)
    have bnd: "\<forall>x y p. getLeaf rt x y = Some p \<longrightarrow> p < length ls"
      using bound by (auto simp: look s split: if_splits intro: less_SucI)
    note at = link_leaf_nth [where rt = rt, OF bnd _ _ nb]
    have leaf: "leaf < length ls" by (simp add: s)
    have len: "length ?ls1 = Suc ?n" using at(5) [OF leaf leaf] by (simp add: s)
    have r: "refs_ok (getLeaf rt) (length ?ls1)"
      unfolding len by (rule refs_ok_grow [OF refs, of _ x y]) (simp add: look s)
    have arr: "m_array (?ls1 ! p) = m_array (ls ! p)" if "p < Suc ?n" for p
      using at(3) [OF leaf] that by (simp add: s)
    have "floors_ok (ls ! p)" if "p < Suc ?n" for p
      using that fl floors_ok_new by (auto simp: s nth_append less_Suc_eq)
    with arr have "floors_ok (?ls1 ! p)" if "p < Suc ?n" for p
      using that by (simp add: floors_ok_def)
    then have f: "\<forall>l \<in> set ?ls1. floors_ok l"
      by (metis in_set_conv_nth len)
    have lk: "links_ok (getLeaf rt) ?ls1"
      unfolding s by (rule links_ok_link [OF refs li refl None]) (simp add: look s)
    have "floor_at rt ?ls1 x' y' z = floor_at (map_root m) (map_leaves m) x' y' z" if "z < 16" for x' y' z
    proof (cases "blk x = blk x' \<and> blk y = blk y'")
      case True
      then have "?L x' y' = None" using cong [of x x' y y'] None by simp
      with True that show ?thesis
        using arr [of leaf] by (simp add: floor_at_def look s new_QTreeLeafNode_def nth_append)
    next
      case False
      with arr bound show ?thesis
        by (auto simp: floor_at_def look s nth_append less_SucI split: option.split)
    qed
    with that [OF c refl wf'] r f lk self s show ?thesis by simp
  qed
qed

lemma unat_mask7: "unat (ucast (x :: u16) AND 7 :: u32) = unat x mod 8"
proof -
  have "(ucast x AND 7 :: u32) = take_bit 3 (ucast x)"
    by (simp add: take_bit_eq_mask mask_eq_exp_minus_1)
  then have "unat (ucast x AND 7 :: u32) = take_bit 3 (unat (ucast x :: u32))"
    by (simp only: unsigned_take_bit_eq)
  then show ?thesis by (simp add: take_bit_eq_mod unsigned_ucast_eq mod_mod_cancel)
qed

lemma blk_ucast: "blk (ucast (x :: u16)) = unat x div 8"
proof -
  have "unat x div 8 < 8192" using unat_lt2p [of x] by simp
  then show ?thesis by (simp add: blk_def unsigned_ucast_eq take_bit_eq_mod)
qed

lemma coord_split: "blk (ucast x) = blk (ucast x') \<and> unat (ucast x AND 7 :: u32) = unat (ucast x' AND 7 :: u32) \<longleftrightarrow>
  (x :: u16) = x'"
  by (metis blk_ucast unat_mask7 div_mult_mod_eq word_unat_eq_iff)

lemma floor_tile_new: "floor_tile x y new_Floor = None"
proof -
  have "unat (ucast x AND 7 :: u32) < 8" "unat (ucast y AND 7 :: u32) < 8" by (simp_all add: unat_mask7)
  then show ?thesis by (simp add: floor_tile_def new_Floor_def)
qed

lemma floor_tile_put:
  assumes "length fl = 8" "\<forall>row \<in> set fl. length row = 8"
  shows "floor_tile x' y' (put_tile x y t fl) =
    (if unat (ucast x AND 7 :: u32) = unat (ucast x' AND 7 :: u32) \<and>
        unat (ucast y AND 7 :: u32) = unat (ucast y' AND 7 :: u32) then Some t else floor_tile x' y' fl)"
proof -
  have "unat (ucast x AND 7 :: u32) < length fl" "unat (ucast x' AND 7 :: u32) < length fl"
    "unat (ucast y AND 7 :: u32) < 8" "unat (ucast y' AND 7 :: u32) < 8"
    using assms(1) by (simp_all add: unat_mask7)
  then show ?thesis
    using assms(2) by (auto simp: floor_tile_def put_tile_def Let_def nth_list_update)
qed

lemma floor_put_ok:
  assumes "length fl = 8 \<and> (\<forall>row \<in> set fl. length row = 8)"
  shows "length (put_tile x y t fl) = 8 \<and> (\<forall>row \<in> set (put_tile x y t fl). length row = 8)"
proof -
  have "unat (ucast x AND 7 :: u32) < length fl" using assms by (simp add: unat_mask7)
  with assms show ?thesis
    by (auto simp: put_tile_def Let_def dest!: set_update_subset_insert [THEN subsetD])
qed

lemma setTile_inv:
  assumes inv: "map_inv m"
  shows "\<exists>m'. setTile x y z t rb m = Some m' \<and> map_inv m' \<and>
    (\<forall>x' y' z'. getTile x' y' z' m' =
      (if (x', y', z') = (x, y, z) \<and> z < 16 \<and> getTile x y z m = None then Some t else getTile x' y' z' m))"
proof (cases "z < 16")
  case False
  then show ?thesis using inv by (auto simp: setTile_def not_less)
next
  case True
  then have z: "unat z < 16" by (simp add: word_less_nat_alt)
  let ?x = "ucast x :: u32" and ?y = "ucast y :: u32"
  obtain leaf rt ls nl ls1 where
    c: "createLeaf (map_root m) ?x ?y 15 (map_leaves m, False) = Some (leaf, rt, ls, nl)"
    and ls1: "ls1 = (if nl then link_leaf rt ?x ?y leaf ls else ls)"
    and wf: "wf_tree 13 rt" and refs: "refs_ok (getLeaf rt) (length ls1)"
    and fok: "\<forall>l \<in> set ls1. floors_ok l" and lk: "links_ok (getLeaf rt) ls1"
    and self: "getLeaf rt ?x ?y = Some leaf"
    and same: "\<And>x' y' z. z < 16 \<Longrightarrow> floor_at rt ls1 x' y' z = floor_at (map_root m) (map_leaves m) x' y' z"
    using setTile_leaf [OF inv, of ?x ?y] by blast
  have leaf: "leaf < length ls1" using refs self unfolding refs_ok_def by blast
  let ?old = "m_array (ls1 ! leaf) ! unat z"
  define fl where "fl = (case ?old of Some f \<Rightarrow> f | None \<Rightarrow> new_Floor)"
  define fl' where "fl' = (if floor_tile x y fl = None then put_tile x y t fl else fl)"
  define ls2 where "ls2 = update_leaf leaf (createFloor z) ls1"
  define ls3 where "ls3 = (if floor_tile x y fl = None
      then update_leaf leaf (\<lambda>l. l\<lparr>m_array := (m_array l)[unat z := Some (put_tile x y t fl)]\<rparr>) ls2 else ls2)"
  have fokl: "floors_ok (ls1 ! leaf)" using fok leaf by simp
  then have len: "length (m_array (ls1 ! leaf)) = 16" by (simp add: floors_ok_def)
  have flok: "length fl = 8 \<and> (\<forall>row \<in> set fl. length row = 8)"
    using fokl len z by (auto simp: fl_def floors_ok_def new_Floor_def split: option.split) (metis nth_mem)+
  have arr2: "m_array (ls2 ! leaf) = (m_array (ls1 ! leaf))[unat z := Some fl]"
    using leaf list_update_id [of "m_array (ls1 ! leaf)" "unat z"]
    by (cases ?old) (simp_all add: ls2_def nth_update_leaf createFloor_def fl_def)
  have arr3: "m_array (ls3 ! leaf) = (m_array (ls1 ! leaf))[unat z := Some fl']"
    using leaf arr2 by (auto simp: ls3_def fl'_def nth_update_leaf ls2_def)
  have other: "ls3 ! p = ls1 ! p" if "p \<noteq> leaf" for p
    using that by (simp add: ls3_def ls2_def update_leaf_def)
  have len3: "length ls3 = length ls1" by (simp add: ls3_def ls2_def)
  have links3: "m_leafS (ls3 ! p) = m_leafS (ls1 ! p)" "m_leafE (ls3 ! p) = m_leafE (ls1 ! p)" for p
    using other [of p] leaf by (cases "p = leaf"; simp add: ls3_def ls2_def nth_update_leaf createFloor_def)+
  have fok3: "\<forall>l \<in> set ls3. floors_ok l"
  proof
    fix l
    assume "l \<in> set ls3"
    then obtain p where p: "p < length ls1" "l = ls3 ! p" by (metis in_set_conv_nth len3)
    show "floors_ok l"
    proof (cases "p = leaf")
      case False
      then show ?thesis using p fok other by simp
    next
      case True
      have "length fl' = 8 \<and> (\<forall>row \<in> set fl'. length row = 8)"
        using flok floor_put_ok [OF flok] by (simp add: fl'_def)
      with fokl p True arr3 show ?thesis
        by (auto simp: floors_ok_def dest!: set_update_subset_insert [THEN subsetD])
    qed
  qed
  have arrz: "the (m_array (ls2 ! leaf) ! unat z) = fl" using z len by (simp add: arr2)
  have "\<exists>m'. setTile x y z t rb m = Some m' \<and> map_root m' = rt \<and> map_leaves m' = ls3"
    unfolding setTile_def c option.case prod.case Let_def ls1 [symmetric] ls2_def [symmetric] arrz
    using True [THEN not_le [THEN iffD2]] by (simp add: ls3_def)
  then obtain m' where m': "setTile x y z t rb m = Some m'" "map_root m' = rt" "map_leaves m' = ls3" by blast
  have "map_inv m'"
    unfolding map_inv_def m' len3
    using wf refs fok3 links_ok_cong [OF lk links3] by simp
  moreover have "getTile x' y' z' m' =
      (if (x', y', z') = (x, y, z) \<and> z < 16 \<and> getTile x y z m = None then Some t else getTile x' y' z' m)" for x' y' z'
  proof (cases "z' < 16")
    case False
    then show ?thesis using True by (auto simp: getTile_floor)
  next
    case z': True
    then have zn': "unat z' < 16" by (simp add: word_less_nat_alt)
    let ?blk = "blk ?x = blk (ucast x') \<and> blk ?y = blk (ucast y')"
    have flz: "floor_at rt ls1 ?x ?y (unat z) = ?old" by (simp add: floor_at_def self)
    have free: "getTile x y z m = floor_tile x y fl"
      using True same [OF z, of ?x ?y] flz
      by (auto simp: getTile_floor fl_def floor_tile_new split: option.split)
    have old: "getTile x' y' z' m = (case floor_at rt ls1 (ucast x') (ucast y') (unat z') of Some f \<Rightarrow> floor_tile x' y' f | None \<Rightarrow> None)"
      using z' same [OF zn'] by (simp add: getTile_floor)
    have new: "getTile x' y' z' m' = (case floor_at rt ls3 (ucast x') (ucast y') (unat z') of Some f \<Rightarrow> floor_tile x' y' f | None \<Rightarrow> None)"
      using z' by (simp add: getTile_floor m')
    show ?thesis
    proof (cases "?blk \<and> z' = z")
      case False
      have "floor_at rt ls3 (ucast x') (ucast y') (unat z') = floor_at rt ls1 (ucast x') (ucast y') (unat z')"
      proof (cases "getLeaf rt (ucast x') (ucast y') = Some leaf")
        case True
        then have ?blk using refs self unfolding refs_ok_def by blast
        with False have "unat z' \<noteq> unat z" by (auto simp: word_unat_eq_iff)
        with True show ?thesis by (simp add: floor_at_def arr3)
      qed (auto simp: floor_at_def other split: option.split)
      with False show ?thesis by (auto simp: old new)
    next
      case True
      then have leaf': "getLeaf rt (ucast x') (ucast y') = Some leaf"
        using getLeaf_blk [OF wf, of ?x "ucast x'" ?y "ucast y'"] self by simp
      have n: "getTile x' y' z' m' = floor_tile x' y' fl'"
        using leaf' True z len unfolding new by (simp add: floor_at_def arr3)
      have o': "getTile x' y' z' m = floor_tile x' y' fl"
        using leaf' True unfolding old by (simp add: floor_at_def fl_def floor_tile_new split: option.split)
      have "x' = x \<and> y' = y \<longleftrightarrow> unat (?x AND 7) = unat (ucast x' AND 7 :: u32) \<and>
          unat (?y AND 7) = unat (ucast y' AND 7 :: u32)"
        using True coord_split [of x x'] coord_split [of y y'] by metis
      then show ?thesis
        unfolding n o' free using True \<open>z < 16\<close> flok by (auto simp: fl'_def floor_tile_put)
    qed
  qed
  ultimately show ?thesis using m'(1) by blast
qed

lemma setTile_ok: "map_inv m \<Longrightarrow> setTile x y z t rb m = Some (the (setTile x y z t rb m))"
  by (metis setTile_inv option.sel)

text \<open>Setting tiles one after the other, as the map loaders do.\<close>

fun setTiles :: "((u16 \<times> u16 \<times> u16) \<times> 't \<times> ('i list \<times> nat)) list \<Rightarrow> ('t, 'c, 'i) Map \<Rightarrow> ('t, 'c, 'i) Map option" where
  "setTiles [] m = Some m"
| "setTiles (((x, y, z), t, rb) # ts) m =
     (case setTile x y z t rb m of None \<Rightarrow> None | Some m1 \<Rightarrow> setTiles ts m1)"

interpretation tiles: keep_store "\<lambda>(x, y, z) m. getTile x y z m"
    "\<lambda>(x, y, z) t m. the (setTile x y z t (rb t) m)" map_inv "\<lambda>(x, y, z). z < 16"
  for rb :: "'t \<Rightarrow> 'i list \<times> nat"
proof (unfold_locales, goal_cases)
  case (1 m j t)
  obtain x y z where j: "j = (x, y, z)" by (cases j)
  show ?case using setTile_inv [OF 1(1), of x y z t "rb t"] by (auto simp: j)
next
  case (2 m j k t)
  obtain x y z x' y' z' where jk: "j = (x, y, z)" "k = (x', y', z')" by (cases j; cases k)
  obtain m' where m': "setTile x y z t (rb t) m = Some m'"
    "getTile x' y' z' m' =
      (if (x', y', z') = (x, y, z) \<and> z < 16 \<and> getTile x y z m = None then Some t else getTile x' y' z' m)"
    using setTile_inv [OF 2(1), of x y z t "rb t"] by blast
  show ?case using 2 m' by (auto simp: jk split: option.split)
qed

lemma setTiles_inv: "map_inv m \<Longrightarrow> \<exists>m'. setTiles ts m = Some m' \<and> map_inv m'"
proof (induction ts m rule: setTiles.induct)
  case (2 x y z t rb ts m)
  from setTile_inv [OF 2(2), of x y z t rb] obtain m1 where "setTile x y z t rb m = Some m1" "map_inv m1"
    by blast
  with 2(1) show ?case by simp
qed simp

lemma setTiles_getTile:
  "map_inv m \<Longrightarrow> setTiles ts m = Some m' \<Longrightarrow> z' < 16 \<Longrightarrow>
   getTile x' y' z' m' = (case getTile x' y' z' m of Some t \<Rightarrow> Some t
     | None \<Rightarrow> map_option fst (map_of ts (x', y', z')))"
proof (induction ts m arbitrary: m' rule: setTiles.induct)
  case (1 m)
  then show ?case by (simp split: option.split)
next
  case (2 x y z t rb ts m)
  obtain m1 where m1: "setTile x y z t rb m = Some m1" "map_inv m1"
    "getTile x' y' z' m1 =
      (if (x', y', z') = (x, y, z) \<and> z < 16 \<and> getTile x y z m = None then Some t else getTile x' y' z' m)"
    using setTile_inv [OF 2(2), of x y z t rb] by blast
  have "getTile x' y' z' m' = (case getTile x' y' z' m1 of Some t \<Rightarrow> Some t
      | None \<Rightarrow> map_option fst (map_of ts (x', y', z')))"
    using 2 m1 by (intro 2(1)) auto
  then show ?case using 2(4) unfolding m1(3) by (auto split: option.split)
qed

lemma getTile_new_Map [simp]: "getTile x y z new_Map = None"
  by (simp add: getTile_floor floor_at_def new_Map_def getLeaf_new)

text \<open>
  C13. Loading a map: any list of tiles set one after the other on a new map is accepted, and then
  a position holds the first tile the list sets there (a later tile for the same position is
  dropped); every other position on the sixteen floors is free, and above them there is no tile.
\<close>
theorem tiles_set_are_found:
  fixes ts :: "((u16 \<times> u16 \<times> u16) \<times> 't \<times> ('i list \<times> nat)) list"
  shows "\<exists>m :: ('t, 'c, 'i) Map. setTiles ts new_Map = Some m \<and>
    (\<forall>x y z. getTile x y z m = (if z < 16 then map_option fst (map_of ts (x, y, z)) else None))"
proof -
  obtain m :: "('t, 'c, 'i) Map" where m: "setTiles ts new_Map = Some m" "map_inv m"
    using setTiles_inv [OF map_inv_new] by blast
  with setTiles_getTile [OF map_inv_new m(1)] have "getTile x y z m = map_option fst (map_of ts (x, y, z))"
    if "z < 16" for x y z using that by simp
  moreover have "getTile x y z m = None" if "\<not> z < 16" for x y z using that by (simp add: getTile_def)
  ultimately show ?thesis using m(1) by (intro exI [of _ m]) simp
qed

lemma blk_ucast_add: "blk (ucast (v + 8 :: u16)) = blk (ucast v + 8)"
proof -
  have "unat (v + 8) = (unat v + 8) mod (8 * 8192)" by (simp add: unat_word_ariths)
  then have "unat (v + 8) div 8 = (unat v div 8 + 1) mod 8192"
    by (simp only: mod_mult2_eq) (simp add: div_add_self2 [of 8 "unat v"])
  then show ?thesis by (simp add: blk_add blk_ucast)
qed

lemma map_inv_links:
  assumes inv: "map_inv m" and l: "getLeaf (map_root m) (ucast (x :: u16)) (ucast (y :: u16)) = Some leaf"
  shows "m_leafS (map_leaves m ! leaf) = getLeaf (map_root m) (ucast x) (ucast (y + 8)) \<and>
    m_leafE (map_leaves m ! leaf) = getLeaf (map_root m) (ucast (x + 8)) (ucast y)"
proof -
  from inv have wf: "wf_tree 13 (map_root m)" and li: "links_ok (getLeaf (map_root m)) (map_leaves m)"
    by (simp_all add: map_inv_def)
  from li l have
    "m_leafS (map_leaves m ! leaf) = getLeaf (map_root m) (ucast x) (ucast y + 8)"
    "m_leafE (map_leaves m ! leaf) = getLeaf (map_root m) (ucast x + 8) (ucast y)"
    unfolding links_ok_def by blast+
  then show ?thesis
    using getLeaf_blk [OF wf refl blk_ucast_add] getLeaf_blk [OF wf blk_ucast_add refl] by simp
qed

text \<open>
  In every map built by setting tiles the link to the south of the leaf of a block is the
  leaf of the next block to the south, and it is null when that block has none; the same to the east. The
  blocks of the last row and column are linked to those of the first, because the coordinates wrap.
\<close>
theorem leaf_links_are_neighbours:
  assumes "setTiles ts new_Map = Some m" "getLeaf (map_root m) (ucast (x :: u16)) (ucast (y :: u16)) = Some leaf"
  shows "m_leafS (map_leaves m ! leaf) = getLeaf (map_root m) (ucast x) (ucast (y + 8)) \<and>
    m_leafE (map_leaves m ! leaf) = getLeaf (map_root m) (ucast (x + 8)) (ucast y)"
proof -
  have "map_inv m"
    using setTiles_inv [OF map_inv_new, of ts] assms(1) by (metis option.inject)
  then show ?thesis using assms(2) by (rule map_inv_links)
qed

definition example_tiles :: "((u16 \<times> u16 \<times> u16) \<times> nat \<times> (nat list \<times> nat)) list" where
  "example_tiles = [((100, 100, 7), 1, ([], 0)), ((100, 110, 7), 2, ([], 0)), ((105, 100, 7), 3, ([], 0))]"

theorem leaf_links_are_neighbours_witness:
  "\<exists>m :: (nat, nat, nat) Map. setTiles example_tiles new_Map = Some m \<and>
     (\<exists>l. getLeaf (map_root m) (ucast (100 :: u16)) (ucast (100 :: u16)) = Some l \<and>
       m_leafS (map_leaves m ! l) = getLeaf (map_root m) (ucast (100 :: u16)) (ucast (100 + 8 :: u16)))"
proof -
  obtain m :: "(nat, nat, nat) Map" where m: "setTiles example_tiles new_Map = Some m" "map_inv m"
    using setTiles_inv [OF map_inv_new] by blast
  have "getTile 100 100 7 m = Some 1"
    using setTiles_getTile [OF map_inv_new m(1), of 7 100 100] by (simp add: example_tiles_def)
  then obtain l where "getLeaf (map_root m) (ucast (100 :: u16)) (ucast (100 :: u16)) = Some l"
    by (auto simp: getTile_floor floor_at_def split: option.splits)
  with leaf_links_are_neighbours [OF m(1) this] m(1) show ?thesis by blast
qed

end
