(* ===== verification/Spectators.thy ===== *)
theory Spectators
  imports MapTree "HOL-Library.Multiset"
begin

text \<open>
  Who sees a position (\<^verbatim>\<open>Map::getSpectators\<close>, \<^verbatim>\<open>getSpectatorsInternal\<close> in \<^verbatim>\<open>Source/map.cpp\<close>), and the
  creature lists of the leaves it reads. The scan walks over the blocks of the visible
  rectangle along the links of the leaves; the main facts are that it visits the same leaves as a
  lookup of every block, and that on a map whose creatures are listed in the leaf of their
  position it finds exactly the creatures in range.

  The ranges and coordinates are \<^verbatim>\<open>int32_t\<close> and far below the bounds; they are \<^verbatim>\<open>int\<close> here. The
  position of a creature (\<^verbatim>\<open>getPosition\<close>) is a parameter.
\<close>

section \<open>The creatures of a leaf\<close>

definition leaf_addCreature :: "'c \<Rightarrow> ('t, 'c) QTreeLeafNode \<Rightarrow> ('t, 'c) QTreeLeafNode" where
  "leaf_addCreature c l = l\<lparr>creature_list := creature_list l @ [c]\<rparr>"

text \<open>The creature found is exchanged with the last one, which is removed. It is an error (a failing
  assertion) if it is not there.\<close>

fun find_creature :: "'c \<Rightarrow> 'c list \<Rightarrow> nat option" where
  "find_creature c [] = None"
| "find_creature c (d # ds) = (if d = c then Some 0 else map_option Suc (find_creature c ds))"

definition leaf_removeCreature :: "'c \<Rightarrow> ('t, 'c) QTreeLeafNode \<Rightarrow> ('t, 'c) QTreeLeafNode option" where
  "leaf_removeCreature c l =
     (let cs = creature_list l in
      case find_creature c cs of
        None \<Rightarrow> None
      | Some i \<Rightarrow> Some (l\<lparr>creature_list := butlast (cs[i := last cs, length cs - 1 := cs ! i])\<rparr>))"

section \<open>The scan\<close>

abbreviation maxViewportX :: int where "maxViewportX \<equiv> 11"
abbreviation maxViewportY :: int where "maxViewportY \<equiv> 11"
abbreviation maxClientViewportX :: int where "maxClientViewportX \<equiv> 8"
abbreviation maxClientViewportY :: int where "maxClientViewportY \<equiv> 6"

record Ranges =
  minRangeX :: int
  maxRangeX :: int
  minRangeY :: int
  maxRangeY :: int
  minRangeZ :: int
  maxRangeZ :: int

text \<open>The three tests before a creature is added to the list.\<close>

definition in_ranges :: "position \<Rightarrow> Ranges \<Rightarrow> position \<Rightarrow> bool" where
  "in_ranges centerPos r cpos =
     (let offsetZ = uint (pz centerPos) - uint (pz cpos) in
      if uint (pz cpos) < minRangeZ r \<or> uint (pz cpos) > maxRangeZ r then False
      else if uint (py cpos) < uint (py centerPos) + minRangeY r + offsetZ
              \<or> uint (py cpos) > uint (py centerPos) + maxRangeY r + offsetZ then False
      else if uint (px cpos) < uint (px centerPos) + minRangeX r + offsetZ
              \<or> uint (px cpos) > uint (px centerPos) + maxRangeX r + offsetZ then False
      else True)"

definition scan_leaf :: "('c \<Rightarrow> bool) \<Rightarrow> bool \<Rightarrow> 'c list \<Rightarrow> 'c list \<Rightarrow> 'c list" where
  "scan_leaf vis checkforduplicate cs list =
     fold (\<lambda>c list. if vis c then (if checkforduplicate then (if c \<notin> set list then list @ [c] else list)
                                  else list @ [c])
                    else list) cs list"

definition Map_getLeaf :: "int \<Rightarrow> int \<Rightarrow> ('t, 'c, 'i) Map \<Rightarrow> nat option" where
  "Map_getLeaf x y m = getLeaf (map_root m) (ucast (word_of_int x :: u16)) (ucast (word_of_int y :: u16))"

function scan_east :: "('t, 'c, 'i) Map \<Rightarrow> ('c \<Rightarrow> bool) \<Rightarrow> bool \<Rightarrow> int \<Rightarrow> int \<Rightarrow> int \<Rightarrow> nat option \<Rightarrow> 'c list \<Rightarrow> 'c list" where
  "scan_east m vis dup ny endx2 nx leafE list =
     (if nx \<le> endx2 then
        (case leafE of
           Some l \<Rightarrow> scan_east m vis dup ny endx2 (nx + 8) (m_leafE (map_leaves m ! l))
                       (scan_leaf vis dup (creature_list (map_leaves m ! l)) list)
         | None \<Rightarrow> scan_east m vis dup ny endx2 (nx + 8) (Map_getLeaf (nx + 8) ny m) list)
      else list)"
  by pat_completeness auto
termination
  by (relation "measure (\<lambda>(m, vis, dup, ny, endx2, nx, l, list). nat (endx2 + 8 - nx))") auto

declare scan_east.simps [simp del]

function scan_south :: "('t, 'c, 'i) Map \<Rightarrow> ('c \<Rightarrow> bool) \<Rightarrow> bool \<Rightarrow> int \<Rightarrow> int \<Rightarrow> int \<Rightarrow> int \<Rightarrow> nat option \<Rightarrow> 'c list \<Rightarrow> 'c list" where
  "scan_south m vis dup startx1 endx2 endy2 ny leafS list =
     (if ny \<le> endy2 then
        scan_south m vis dup startx1 endx2 endy2 (ny + 8)
          (case leafS of Some l \<Rightarrow> m_leafS (map_leaves m ! l) | None \<Rightarrow> Map_getLeaf startx1 (ny + 8) m)
          (scan_east m vis dup ny endx2 startx1 leafS list)
      else list)"
  by pat_completeness auto
termination
  by (relation "measure (\<lambda>(m, vis, dup, startx1, endx2, endy2, ny, l, list). nat (endy2 + 8 - ny))") auto

declare scan_south.simps [simp del]

definition clamp16 :: "int \<Rightarrow> int" where
  "clamp16 v = min 0xFFFF (max 0 v)"

definition getSpectatorsInternal :: "('t, 'c, 'i) Map \<Rightarrow> ('c \<Rightarrow> position) \<Rightarrow> 'c list \<Rightarrow> position \<Rightarrow> bool \<Rightarrow> Ranges \<Rightarrow> 'c list" where
  "getSpectatorsInternal m pos_of list centerPos checkforduplicate r =
     (let minoffset = uint (pz centerPos) - maxRangeZ r;
          x1 = clamp16 (uint (px centerPos) + minRangeX r + minoffset);
          y1 = clamp16 (uint (py centerPos) + minRangeY r + minoffset);
          maxoffset = uint (pz centerPos) - minRangeZ r;
          x2 = clamp16 (uint (px centerPos) + maxRangeX r + maxoffset);
          y2 = clamp16 (uint (py centerPos) + maxRangeY r + maxoffset);
          startx1 = x1 - x1 mod 8;
          starty1 = y1 - y1 mod 8;
          endx2 = x2 - x2 mod 8;
          endy2 = y2 - y2 mod 8;
          startLeaf = Map_getLeaf startx1 starty1 m
      in scan_south m (\<lambda>c. in_ranges centerPos r (pos_of c)) checkforduplicate startx1 endx2 endy2
           starty1 startLeaf list)"

section \<open>The public operations and the cache\<close>

text \<open>The floors that are visible from a floor.\<close>

definition multifloor_range :: "position \<Rightarrow> int \<times> int" where
  "multifloor_range centerPos =
     (let z = uint (pz centerPos) in
      if z > 7 then (max (z - 2) 0, min (z + 2) (16 - 1))
      else if z = 6 then (0, 8)
      else if z = 7 then (0, 9)
      else (0, 7))"

type_synonym 'c SpectatorCache = "position \<Rightarrow> 'c list option"

definition default_ranges :: "position \<Rightarrow> Ranges" where
  "default_ranges centerPos =
     \<lparr>minRangeX = - maxViewportX, maxRangeX = maxViewportX, minRangeY = - maxViewportY, maxRangeY = maxViewportY,
      minRangeZ = fst (multifloor_range centerPos), maxRangeZ = snd (multifloor_range centerPos)\<rparr>"

definition getSpectators_into :: "('t, 'c, 'i) Map \<Rightarrow> ('c \<Rightarrow> position) \<Rightarrow> 'c SpectatorCache \<Rightarrow> 'c list \<Rightarrow> position \<Rightarrow>
    bool \<Rightarrow> bool \<Rightarrow> int \<Rightarrow> int \<Rightarrow> int \<Rightarrow> int \<Rightarrow> 'c list \<times> 'c SpectatorCache" where
  "getSpectators_into m pos_of cache list centerPos checkforduplicate multifloor minX maxX minY maxY =
     (let cacheable = (minX = 0 \<and> maxX = 0 \<and> minY = 0 \<and> maxY = 0 \<and> multifloor \<and> \<not> checkforduplicate)
      in case (if cacheable then cache centerPos else None) of
           Some cached \<Rightarrow> (cached, cache)
         | None \<Rightarrow>
             (let (zmin, zmax) = (if multifloor then multifloor_range centerPos
                                  else (uint (pz centerPos), uint (pz centerPos)));
                  r = \<lparr>minRangeX = (if minX = 0 then - maxViewportX else - minX),
                       maxRangeX = (if maxX = 0 then maxViewportX else maxX),
                       minRangeY = (if minY = 0 then - maxViewportY else - minY),
                       maxRangeY = (if maxY = 0 then maxViewportY else maxY),
                       minRangeZ = zmin, maxRangeZ = zmax\<rparr>;
                  list' = getSpectatorsInternal m pos_of list centerPos True r
              in (list', if cacheable then cache(centerPos \<mapsto> list') else cache)))"

definition getSpectators :: "('t, 'c, 'i) Map \<Rightarrow> ('c \<Rightarrow> position) \<Rightarrow> 'c SpectatorCache \<Rightarrow> position \<Rightarrow>
    'c list \<times> 'c SpectatorCache" where
  "getSpectators m pos_of cache centerPos =
     (case cache centerPos of
        Some cached \<Rightarrow> (cached, cache)
      | None \<Rightarrow>
          (let list = getSpectatorsInternal m pos_of [] centerPos False (default_ranges centerPos)
           in (list, cache(centerPos \<mapsto> list))))"

definition clearSpectatorCache :: "'c SpectatorCache \<Rightarrow> 'c SpectatorCache" where
  "clearSpectatorCache cache = (\<lambda>_. None)"

section \<open>The scan visits every block of the rectangle\<close>

function block_range :: "int \<Rightarrow> int \<Rightarrow> int list" where
  "block_range a b = (if a \<le> b then a # block_range (a + 8) b else [])"
  by pat_completeness auto
termination
  by (relation "measure (\<lambda>(a, b). nat (b + 8 - a))") auto

declare block_range.simps [simp del]

lemma set_block_range: "x \<in> set (block_range a b) \<longleftrightarrow> a \<le> x \<and> x \<le> b \<and> (x - a) mod 8 = 0"
proof (induction a b rule: block_range.induct)
  case (1 a b)
  show ?case
  proof (cases "a \<le> b")
    case True
    have "x = a \<or> (a + 8 \<le> x \<and> x \<le> b \<and> (x - (a + 8)) mod 8 = 0) \<longleftrightarrow> a \<le> x \<and> x \<le> b \<and> (x - a) mod 8 = 0"
      using True by presburger
    with True 1 show ?thesis by (subst block_range.simps) auto
  qed (auto simp: block_range.simps)
qed

lemma distinct_block_range: "distinct (block_range a b)"
proof (induction a b rule: block_range.induct)
  case (1 a b)
  then show ?case by (subst block_range.simps) (auto simp: set_block_range)
qed

definition creatures_at :: "('t, 'c, 'i) Map \<Rightarrow> int \<Rightarrow> int \<Rightarrow> 'c list" where
  "creatures_at m x y =
     (case Map_getLeaf x y m of Some l \<Rightarrow> creature_list (map_leaves m ! l) | None \<Rightarrow> [])"

lemma scan_leaf_append: "scan_leaf vis dup (cs @ ds) list = scan_leaf vis dup ds (scan_leaf vis dup cs list)"
  by (simp add: scan_leaf_def)

lemma scan_leaf_Nil [simp]: "scan_leaf vis dup [] list = list"
  by (simp add: scan_leaf_def)

lemma Map_getLeaf_step:
  assumes "map_inv m" "Map_getLeaf x y m = Some l"
  shows "m_leafE (map_leaves m ! l) = Map_getLeaf (x + 8) y m" "m_leafS (map_leaves m ! l) = Map_getLeaf x (y + 8) m"
  using map_inv_links [OF assms(1), of "word_of_int x" "word_of_int y" l] assms(2)
  by (simp_all add: Map_getLeaf_def)

lemma scan_east_blocks:
  assumes "map_inv m" "leafE = Map_getLeaf nx ny m"
  shows "scan_east m vis dup ny endx2 nx leafE list =
    scan_leaf vis dup (concat (map (\<lambda>x. creatures_at m x ny) (block_range nx endx2))) list"
  using assms
proof (induction m vis dup ny endx2 nx leafE list rule: scan_east.induct)
  case (1 m vis dup ny endx2 nx leafE list)
  show ?case
  proof (cases "nx \<le> endx2")
    case False
    then show ?thesis by (simp add: scan_east.simps block_range.simps)
  next
    case True
    have br: "block_range nx endx2 = nx # block_range (nx + 8) endx2"
      using True by (subst block_range.simps) simp
    show ?thesis
    proof (cases leafE)
      case None
      with 1 True have "scan_east m vis dup ny endx2 (nx + 8) (Map_getLeaf (nx + 8) ny m) list =
          scan_leaf vis dup (concat (map (\<lambda>x. creatures_at m x ny) (block_range (nx + 8) endx2))) list"
        by simp
      with None True 1(4) show ?thesis
        by (subst scan_east.simps) (simp add: br creatures_at_def)
    next
      case (Some l)
      with 1 True have "scan_east m vis dup ny endx2 (nx + 8) (m_leafE (map_leaves m ! l))
            (scan_leaf vis dup (creature_list (map_leaves m ! l)) list) =
          scan_leaf vis dup (concat (map (\<lambda>x. creatures_at m x ny) (block_range (nx + 8) endx2)))
            (scan_leaf vis dup (creature_list (map_leaves m ! l)) list)"
        using Map_getLeaf_step(1) [OF 1(3), of nx ny l] by simp
      with Some True 1(4) show ?thesis
        by (subst scan_east.simps) (simp add: br creatures_at_def scan_leaf_append [symmetric])
    qed
  qed
qed

lemma scan_south_blocks:
  assumes "map_inv m" "leafS = Map_getLeaf startx1 ny m"
  shows "scan_south m vis dup startx1 endx2 endy2 ny leafS list =
    scan_leaf vis dup (concat (map (\<lambda>y. concat (map (\<lambda>x. creatures_at m x y) (block_range startx1 endx2)))
      (block_range ny endy2))) list"
  using assms
proof (induction m vis dup startx1 endx2 endy2 ny leafS list rule: scan_south.induct)
  case (1 m vis dup startx1 endx2 endy2 ny leafS list)
  show ?case
  proof (cases "ny \<le> endy2")
    case False
    then show ?thesis by (simp add: scan_south.simps block_range.simps)
  next
    case True
    have br: "block_range ny endy2 = ny # block_range (ny + 8) endy2"
      using True by (subst block_range.simps) simp
    have next_leaf: "(case leafS of Some l \<Rightarrow> m_leafS (map_leaves m ! l) | None \<Rightarrow> Map_getLeaf startx1 (ny + 8) m) =
        Map_getLeaf startx1 (ny + 8) m"
      using Map_getLeaf_step(2) [OF 1(2), of startx1 ny] 1(3) by (auto split: option.split)
    from 1 True next_leaf show ?thesis
      by (subst scan_south.simps) (simp add: br scan_leaf_append scan_east_blocks)
  qed
qed

definition spectator_blocks :: "('t, 'c, 'i) Map \<Rightarrow> position \<Rightarrow> Ranges \<Rightarrow> 'c list" where
  "spectator_blocks m centerPos r =
     (let x1 = clamp16 (uint (px centerPos) + minRangeX r + (uint (pz centerPos) - maxRangeZ r));
          y1 = clamp16 (uint (py centerPos) + minRangeY r + (uint (pz centerPos) - maxRangeZ r));
          x2 = clamp16 (uint (px centerPos) + maxRangeX r + (uint (pz centerPos) - minRangeZ r));
          y2 = clamp16 (uint (py centerPos) + maxRangeY r + (uint (pz centerPos) - minRangeZ r))
      in concat (map (\<lambda>y. concat (map (\<lambda>x. creatures_at m x y)
             (block_range (x1 - x1 mod 8) (x2 - x2 mod 8)))) (block_range (y1 - y1 mod 8) (y2 - y2 mod 8))))"

lemma getSpectatorsInternal_blocks:
  "map_inv m \<Longrightarrow> getSpectatorsInternal m pos_of list centerPos dup r =
    scan_leaf (\<lambda>c. in_ranges centerPos r (pos_of c)) dup (spectator_blocks m centerPos r) list"
  by (simp add: getSpectatorsInternal_def spectator_blocks_def scan_south_blocks Let_def)

lemma scan_leaf_all: "scan_leaf vis False cs list = list @ filter vis cs"
  by (induction cs arbitrary: list) (auto simp: scan_leaf_def)

lemma set_scan_leaf: "set (scan_leaf vis dup cs list) = set list \<union> {c \<in> set cs. vis c}"
  by (induction cs arbitrary: list) (auto simp: scan_leaf_def)

lemma distinct_scan_leaf: "distinct list \<Longrightarrow> distinct (scan_leaf vis True cs list)"
  by (induction cs arbitrary: list) (auto simp: scan_leaf_def)

section \<open>Creatures on the map\<close>

text \<open>Each leaf lists the creatures that stand in its block, each creature once.\<close>

definition creatures_placed :: "('t, 'c, 'i) Map \<Rightarrow> ('c \<Rightarrow> position) \<Rightarrow> 'c set \<Rightarrow> bool" where
  "creatures_placed m pos_of on_map \<longleftrightarrow>
     (\<forall>x y p. getLeaf (map_root m) (ucast (x :: u16)) (ucast (y :: u16)) = Some p \<longrightarrow>
        distinct (creature_list (map_leaves m ! p)) \<and>
        (\<forall>c \<in> set (creature_list (map_leaves m ! p)).
           blk (ucast (px (pos_of c))) = blk (ucast x) \<and> blk (ucast (py (pos_of c))) = blk (ucast y) \<and> c \<in> on_map)) \<and>
     (\<forall>c \<in> on_map. \<exists>p. getLeaf (map_root m) (ucast (px (pos_of c))) (ucast (py (pos_of c))) = Some p \<and>
        c \<in> set (creature_list (map_leaves m ! p)))"

lemma creatures_at_iff:
  assumes "map_inv m" "creatures_placed m pos_of S" "x mod 8 = 0" "0 \<le> x" "x < 65536" "y mod 8 = 0" "0 \<le> y" "y < 65536"
  shows "c \<in> set (creatures_at m x y) \<longleftrightarrow>
    c \<in> S \<and> uint (px (pos_of c)) div 8 = x div 8 \<and> uint (py (pos_of c)) div 8 = y div 8"
proof -
  have w: "blk (ucast v) = nat (uint v div 8)" for v :: u16
    by (simp add: blk_ucast nat_div_distrib)
  have eq: "blk (ucast v) = blk (ucast (word_of_int a :: u16)) \<longleftrightarrow> uint v div 8 = a div 8"
    if "0 \<le> a" "a < 65536" for v :: u16 and a
  proof -
    have "uint (word_of_int a :: u16) = a" using that by (simp only: uint_word_of_int) simp
    then have "blk (ucast v) = blk (ucast (word_of_int a :: u16)) \<longleftrightarrow> nat (uint v div 8) = nat (a div 8)"
      by (simp only: w)
    then show ?thesis using that by (simp add: eq_nat_nat_iff pos_imp_zdiv_nonneg_iff)
  qed
  show ?thesis
  proof
    assume "c \<in> set (creatures_at m x y)"
    then obtain l where "Map_getLeaf x y m = Some l" "c \<in> set (creature_list (map_leaves m ! l))"
      by (cases "Map_getLeaf x y m") (auto simp: creatures_at_def)
    with assms eq show "c \<in> S \<and> uint (px (pos_of c)) div 8 = x div 8 \<and> uint (py (pos_of c)) div 8 = y div 8"
      unfolding creatures_placed_def Map_getLeaf_def by blast
  next
    assume c: "c \<in> S \<and> uint (px (pos_of c)) div 8 = x div 8 \<and> uint (py (pos_of c)) div 8 = y div 8"
    with assms(2) obtain p where p: "getLeaf (map_root m) (ucast (px (pos_of c))) (ucast (py (pos_of c))) = Some p"
        "c \<in> set (creature_list (map_leaves m ! p))"
      unfolding creatures_placed_def by blast
    have "wf_tree 13 (map_root m)" using assms(1) by (simp add: map_inv_def)
    then have "Map_getLeaf x y m = Some p"
      unfolding Map_getLeaf_def p(1) [symmetric]
      using c assms eq [of x "px (pos_of c)"] eq [of y "py (pos_of c)"] by (intro getLeaf_blk) auto
    with p(2) show "c \<in> set (creatures_at m x y)" by (simp add: creatures_at_def)
  qed
qed

text \<open>
  The three places that change the lists: a creature is placed (\<^verbatim>\<open>Map::placeCreature\<close>), removed
  (\<^verbatim>\<open>Map::removeCreature\<close>), or moves to another tile (\<^verbatim>\<open>Tile::moveCreature\<close>, which changes the leaf only
  if the two tiles have different ones). The leaves are the \<^verbatim>\<open>qt_node\<close> members of the tiles.
\<close>

definition node_enter :: "nat \<Rightarrow> 'c \<Rightarrow> ('t, 'c, 'i) Map \<Rightarrow> ('t, 'c, 'i) Map" where
  "node_enter l c m = m\<lparr>map_leaves := update_leaf l (leaf_addCreature c) (map_leaves m)\<rparr>"

definition node_leave :: "nat \<Rightarrow> 'c \<Rightarrow> ('t, 'c, 'i) Map \<Rightarrow> ('t, 'c, 'i) Map option" where
  "node_leave l c m =
     (case leaf_removeCreature c (map_leaves m ! l) of
        None \<Rightarrow> None
      | Some l' \<Rightarrow> Some (m\<lparr>map_leaves := (map_leaves m)[l := l']\<rparr>))"

definition node_move :: "nat \<Rightarrow> nat \<Rightarrow> 'c \<Rightarrow> ('t, 'c, 'i) Map \<Rightarrow> ('t, 'c, 'i) Map option" where
  "node_move l toLeaf c m =
     (if l \<noteq> toLeaf then map_option (node_enter toLeaf c) (node_leave l c m) else Some m)"

lemma find_creature_nth: "find_creature c cs = Some i \<Longrightarrow> i < length cs \<and> cs ! i = c"
  by (induction cs arbitrary: i) (auto split: if_splits)

lemma find_creature_in: "c \<in> set cs \<Longrightarrow> \<exists>i. find_creature c cs = Some i"
  by (induction cs) auto

lemma leaf_removeCreature_in:
  assumes "c \<in> set (creature_list l)"
  obtains cs where "leaf_removeCreature c l = Some (l\<lparr>creature_list := cs\<rparr>)"
    "mset cs = mset (creature_list l) - {#c#}"
proof -
  let ?cs = "creature_list l"
  obtain i where i: "find_creature c ?cs = Some i" using find_creature_in [OF assms] by blast
  then have ic: "i < length ?cs" "?cs ! i = c" using find_creature_nth by metis+
  let ?n = "length ?cs - 1"
  let ?sw = "?cs[i := last ?cs, ?n := ?cs ! i]"
  have ne: "?cs \<noteq> []" using assms by auto
  have m: "mset ?sw = mset ?cs"
    using ic ne mset_swap [of ?n ?cs i] by (simp add: last_conv_nth)
  have "?sw \<noteq> []" using ne by simp
  moreover from this have "last ?sw = c"
    using ic ne by (simp add: last_conv_nth)
  ultimately have "mset (butlast ?sw) = mset ?cs - {#c#}"
    using m by (metis append_butlast_last_id add_mset_remove_trivial mset_append mset.simps union_commute union_mset_add_mset_left add_0)
  with that [of "butlast ?sw"] i show ?thesis by (simp add: leaf_removeCreature_def Let_def)
qed

lemma creatures_placed_leaf:
  assumes "map_inv m" "creatures_placed m pos_of S" "getLeaf (map_root m) (ucast (x :: u16)) (ucast (y :: u16)) = Some l"
  shows "l < length (map_leaves m)" "distinct (creature_list (map_leaves m ! l))"
    "c \<in> set (creature_list (map_leaves m ! l)) \<longleftrightarrow>
      c \<in> S \<and> getLeaf (map_root m) (ucast (px (pos_of c))) (ucast (py (pos_of c))) = Some l"
proof -
  have refs: "refs_ok (getLeaf (map_root m)) (length (map_leaves m))" using assms(1) by (simp add: map_inv_def)
  then show "l < length (map_leaves m)" using assms(3) unfolding refs_ok_def by blast
  show "distinct (creature_list (map_leaves m ! l))" using assms(2,3) unfolding creatures_placed_def by blast
  show "c \<in> set (creature_list (map_leaves m ! l)) \<longleftrightarrow>
      c \<in> S \<and> getLeaf (map_root m) (ucast (px (pos_of c))) (ucast (py (pos_of c))) = Some l"
  proof
    assume c: "c \<in> set (creature_list (map_leaves m ! l))"
    with assms(2,3) have "c \<in> S" "blk (ucast (px (pos_of c))) = blk (ucast x)" "blk (ucast (py (pos_of c))) = blk (ucast y)"
      unfolding creatures_placed_def by blast+
    then show "c \<in> S \<and> getLeaf (map_root m) (ucast (px (pos_of c))) (ucast (py (pos_of c))) = Some l"
      using refs assms(3) unfolding refs_ok_def by metis
  next
    assume "c \<in> S \<and> getLeaf (map_root m) (ucast (px (pos_of c))) (ucast (py (pos_of c))) = Some l"
    with assms(2) show "c \<in> set (creature_list (map_leaves m ! l))"
      unfolding creatures_placed_def by fastforce
  qed
qed

text \<open>The invariant says no more than the previous lemma.\<close>

lemma creatures_placedI:
  assumes "map_inv m"
    and "\<And>l x y. getLeaf (map_root m) (ucast (x :: u16)) (ucast (y :: u16)) = Some l \<Longrightarrow>
      distinct (creature_list (map_leaves m ! l)) \<and>
      (\<forall>c. c \<in> set (creature_list (map_leaves m ! l)) \<longleftrightarrow>
        c \<in> S \<and> getLeaf (map_root m) (ucast (px (pos_of c))) (ucast (py (pos_of c))) = Some l)"
    and "\<And>c. c \<in> S \<Longrightarrow> getLeaf (map_root m) (ucast (px (pos_of c))) (ucast (py (pos_of c))) \<noteq> None"
  shows "creatures_placed m pos_of S"
proof -
  have refs: "refs_ok (getLeaf (map_root m)) (length (map_leaves m))" using assms(1) by (simp add: map_inv_def)
  show ?thesis
    unfolding creatures_placed_def
  proof (intro conjI allI impI ballI)
    fix x y p
    assume p: "getLeaf (map_root m) (ucast (x :: u16)) (ucast (y :: u16)) = Some p"
    from assms(2) [OF p] show "distinct (creature_list (map_leaves m ! p))" by blast
    fix c
    assume "c \<in> set (creature_list (map_leaves m ! p))"
    with assms(2) [OF p] have c: "c \<in> S" "getLeaf (map_root m) (ucast (px (pos_of c))) (ucast (py (pos_of c))) = Some p"
      by blast+
    with p refs show "blk (ucast (px (pos_of c))) = blk (ucast x)" "blk (ucast (py (pos_of c))) = blk (ucast y)"
      unfolding refs_ok_def by blast+
    show "c \<in> S" by (rule c)
  next
    fix c
    assume "c \<in> S"
    with assms(2,3) show "\<exists>p. getLeaf (map_root m) (ucast (px (pos_of c))) (ucast (py (pos_of c))) = Some p \<and>
        c \<in> set (creature_list (map_leaves m ! p))" by fastforce
  qed
qed

lemma map_inv_creatures:
  assumes "map_inv m" "length ls = length (map_leaves m)"
    "\<And>p. p < length ls \<Longrightarrow> \<exists>cs. ls ! p = (map_leaves m ! p)\<lparr>creature_list := cs\<rparr>"
  shows "map_inv (m\<lparr>map_leaves := ls\<rparr>)"
proof -
  from assms(1) have refs: "refs_ok (getLeaf (map_root m)) (length (map_leaves m))"
    and links: "links_ok (getLeaf (map_root m)) (map_leaves m)" and fl: "\<forall>l \<in> set (map_leaves m). floors_ok l"
    by (simp_all add: map_inv_def)
  have "links_ok (getLeaf (map_root m)) ls"
    unfolding links_ok_def
  proof (intro allI impI)
    fix x y p
    assume p: "getLeaf (map_root m) x y = Some p"
    with refs assms(2) have "p < length ls" unfolding refs_ok_def by metis
    from assms(3) [OF this] p links show "m_leafS (ls ! p) = getLeaf (map_root m) x (y + 8) \<and>
        m_leafE (ls ! p) = getLeaf (map_root m) (x + 8) y"
      unfolding links_ok_def by auto
  qed
  moreover have "\<forall>l \<in> set ls. floors_ok l"
  proof
    fix l
    assume "l \<in> set ls"
    then obtain p where p: "p < length ls" "l = ls ! p" by (metis in_set_conv_nth)
    then have "floors_ok (map_leaves m ! p)" using fl assms(2) by simp
    with assms(3) [OF p(1)] p(2) show "floors_ok l" by (auto simp: floors_ok_def)
  qed
  ultimately show ?thesis using assms(1,2) by (simp add: map_inv_def)
qed

lemma node_enter_placed:
  assumes inv: "map_inv m" and pl: "creatures_placed m pos_of S" and c: "c \<notin> S"
    and l: "getLeaf (map_root m) (ucast (px p)) (ucast (py p)) = Some l"
  shows "map_inv (node_enter l c m)" "creatures_placed (node_enter l c m) (pos_of(c := p)) (insert c S)"
proof -
  have ll: "l < length (map_leaves m)" by (rule creatures_placed_leaf(1) [OF inv pl l])
  show inv': "map_inv (node_enter l c m)"
    unfolding node_enter_def
  proof (rule map_inv_creatures [OF inv])
    fix q
    assume "q < length (update_leaf l (leaf_addCreature c) (map_leaves m))"
    then show "\<exists>cs. update_leaf l (leaf_addCreature c) (map_leaves m) ! q = (map_leaves m ! q)\<lparr>creature_list := cs\<rparr>"
      by (cases "q = l") (auto simp: nth_update_leaf leaf_addCreature_def intro: exI [of _ "creature_list (map_leaves m ! q)"])
  qed simp
  show "creatures_placed (node_enter l c m) (pos_of(c := p)) (insert c S)"
  proof (rule creatures_placedI [OF inv'])
    fix l' and x y :: u16
    assume "getLeaf (map_root (node_enter l c m)) (ucast x) (ucast y) = Some l'"
    then have l': "getLeaf (map_root m) (ucast x) (ucast y) = Some l'" by (simp add: node_enter_def)
    note at = creatures_placed_leaf [OF inv pl l']
    have cl: "creature_list (map_leaves (node_enter l c m) ! l') =
        creature_list (map_leaves m ! l') @ (if l' = l then [c] else [])"
      using at(1) by (simp add: node_enter_def nth_update_leaf leaf_addCreature_def)
    have root: "map_root (node_enter l c m) = map_root m" by (simp add: node_enter_def)
    show "distinct (creature_list (map_leaves (node_enter l c m) ! l')) \<and>
      (\<forall>d. d \<in> set (creature_list (map_leaves (node_enter l c m) ! l')) \<longleftrightarrow>
        d \<in> insert c S \<and> getLeaf (map_root (node_enter l c m)) (ucast (px ((pos_of(c := p)) d)))
          (ucast (py ((pos_of(c := p)) d))) = Some l')"
      unfolding cl root using at(2,3) c l by auto
  next
    fix d
    assume "d \<in> insert c S"
    with pl l show "getLeaf (map_root (node_enter l c m)) (ucast (px ((pos_of(c := p)) d)))
        (ucast (py ((pos_of(c := p)) d))) \<noteq> None"
      unfolding creatures_placed_def by (auto simp: node_enter_def)
  qed
qed

lemma node_leave_placed:
  assumes inv: "map_inv m" and pl: "creatures_placed m pos_of S" and c: "c \<in> S"
    and l: "getLeaf (map_root m) (ucast (px (pos_of c))) (ucast (py (pos_of c))) = Some l"
  shows "\<exists>m'. node_leave l c m = Some m' \<and> map_root m' = map_root m \<and> map_inv m' \<and>
    creatures_placed m' pos_of (S - {c})"
proof -
  note at = creatures_placed_leaf [OF inv pl l]
  from at(3) c l have "c \<in> set (creature_list (map_leaves m ! l))" by blast
  then obtain cs where cs: "leaf_removeCreature c (map_leaves m ! l) = Some ((map_leaves m ! l)\<lparr>creature_list := cs\<rparr>)"
    "mset cs = mset (creature_list (map_leaves m ! l)) - {#c#}" by (rule leaf_removeCreature_in)
  define m' where "m' = m\<lparr>map_leaves := (map_leaves m)[l := (map_leaves m ! l)\<lparr>creature_list := cs\<rparr>]\<rparr>"
  have step: "node_leave l c m = Some m'" by (simp add: node_leave_def cs m'_def)
  have inv': "map_inv m'"
    unfolding m'_def
  proof (rule map_inv_creatures [OF inv])
    fix q
    show "\<exists>cs'. (map_leaves m)[l := (map_leaves m ! l)\<lparr>creature_list := cs\<rparr>] ! q = (map_leaves m ! q)\<lparr>creature_list := cs'\<rparr>"
      using at(1) by (cases "q = l") (auto intro: exI [of _ "creature_list (map_leaves m ! q)"])
  qed simp
  have distinct_cs: "distinct cs" "set cs = set (creature_list (map_leaves m ! l)) - {c}"
  proof -
    have "mset cs + {#c#} = mset (creature_list (map_leaves m ! l))"
      using cs(2) \<open>c \<in> set (creature_list (map_leaves m ! l))\<close> by simp
    then have eq: "mset (c # cs) = mset (creature_list (map_leaves m ! l))" by simp
    then have "distinct (c # cs)" using at(2) mset_eq_imp_distinct_iff by blast
    moreover have "set (c # cs) = set (creature_list (map_leaves m ! l))" by (rule mset_eq_setD [OF eq])
    ultimately show "distinct cs" "set cs = set (creature_list (map_leaves m ! l)) - {c}" by auto
  qed
  have "creatures_placed m' pos_of (S - {c})"
  proof (rule creatures_placedI [OF inv'])
    fix l' and x y :: u16
    assume "getLeaf (map_root m') (ucast x) (ucast y) = Some l'"
    then have l': "getLeaf (map_root m) (ucast x) (ucast y) = Some l'" by (simp add: m'_def)
    note at' = creatures_placed_leaf [OF inv pl l']
    have root: "map_root m' = map_root m" by (simp add: m'_def)
    have cl: "creature_list (map_leaves m' ! l') = (if l' = l then cs else creature_list (map_leaves m ! l'))"
      using at(1) by (simp add: m'_def)
    show "distinct (creature_list (map_leaves m' ! l')) \<and>
      (\<forall>d. d \<in> set (creature_list (map_leaves m' ! l')) \<longleftrightarrow>
        d \<in> S - {c} \<and> getLeaf (map_root m') (ucast (px (pos_of d))) (ucast (py (pos_of d))) = Some l')"
      unfolding cl root using at'(2,3) distinct_cs l by auto
  next
    fix d
    assume "d \<in> S - {c}"
    with pl show "getLeaf (map_root m') (ucast (px (pos_of d))) (ucast (py (pos_of d))) \<noteq> None"
      unfolding creatures_placed_def by (auto simp: m'_def)
  qed
  with step inv' show ?thesis by (auto simp: m'_def)
qed

section \<open>Placing, removing and moving\<close>

definition leaf_of :: "position \<Rightarrow> ('t, 'c, 'i) Map \<Rightarrow> nat option" where
  "leaf_of p m = getLeaf (map_root m) (ucast (px p)) (ucast (py p))"

lemma node_move_placed:
  assumes inv: "map_inv m" and pl: "creatures_placed m pos_of S" and c: "c \<in> S"
    and l: "leaf_of (pos_of c) m = Some l" and l': "leaf_of p m = Some toLeaf"
  shows "\<exists>m'. node_move l toLeaf c m = Some m' \<and> map_inv m' \<and> creatures_placed m' (pos_of(c := p)) S"
proof (cases "l = toLeaf")
  case True
  have "creatures_placed m (pos_of(c := p)) S"
  proof (rule creatures_placedI [OF inv])
    fix k and x y :: u16
    assume k: "getLeaf (map_root m) (ucast x) (ucast y) = Some k"
    note at = creatures_placed_leaf [OF inv pl k]
    show "distinct (creature_list (map_leaves m ! k)) \<and> (\<forall>d. d \<in> set (creature_list (map_leaves m ! k)) \<longleftrightarrow>
        d \<in> S \<and> getLeaf (map_root m) (ucast (px ((pos_of(c := p)) d))) (ucast (py ((pos_of(c := p)) d))) = Some k)"
      using at(2,3) l l' True by (auto simp: leaf_of_def)
  next
    fix d
    assume "d \<in> S"
    with pl l' show "getLeaf (map_root m) (ucast (px ((pos_of(c := p)) d))) (ucast (py ((pos_of(c := p)) d))) \<noteq> None"
      unfolding creatures_placed_def by (auto simp: leaf_of_def)
  qed
  with inv True show ?thesis by (simp add: node_move_def)
next
  case False
  obtain m1 where m1: "node_leave l c m = Some m1" "map_root m1 = map_root m" "map_inv m1" "creatures_placed m1 pos_of (S - {c})"
    using node_leave_placed [OF inv pl c] l unfolding leaf_of_def by blast
  have "getLeaf (map_root m1) (ucast (px p)) (ucast (py p)) = Some toLeaf" using l' m1(2) by (simp add: leaf_of_def)
  from node_enter_placed [OF m1(3,4) _ this, of c] c False m1(1) show ?thesis
    by (simp add: node_move_def insert_absorb)
qed

text \<open>A new tile, with or without a new leaf, leaves the lists alone.\<close>

lemma lists_update:
  "(\<And>l. creature_list (f l) = creature_list l) \<Longrightarrow> map creature_list (update_leaf r f ls) = map creature_list ls"
  by (cases "r < length ls") (simp_all add: update_leaf_def map_update list_update_beyond list_update_same_conv)

lemma lists_link: "map creature_list (link_leaf rt x y leaf ls) = map creature_list ls"
  unfolding link_leaf_def Let_def by (auto split: option.split simp: lists_update)

lemma setTile_lists:
  assumes "z < 16" "createLeaf (map_root m) (ucast x) (ucast y) 15 (map_leaves m, False) = Some (leaf, rt, ls, nl)"
    "setTile x y z t rb m = Some m'"
  shows "map_root m' = rt" "map creature_list (map_leaves m') = map creature_list ls"
proof -
  have z: "\<not> MAP_MAX_LAYERS \<le> z" using assms(1) by simp
  show "map_root m' = rt"
    using assms(3) unfolding setTile_def assms(2) option.case prod.case Let_def if_not_P [OF z] by (auto split: if_splits)
  show "map creature_list (map_leaves m') = map creature_list ls"
    using assms(3) unfolding setTile_def assms(2) option.case prod.case Let_def if_not_P [OF z]
    by (auto simp: lists_update lists_link createFloor_def split: if_splits)
qed

lemma setTile_placed:
  assumes inv: "map_inv m" and pl: "creatures_placed m pos_of S" and m': "setTile x y z t rb m = Some m'"
  shows "map_inv m'" "creatures_placed m' pos_of S"
proof -
  show inv': "map_inv m'" using setTile_inv [OF inv, of x y z t rb] m' by auto
  show "creatures_placed m' pos_of S"
  proof (cases "z < 16")
    case False
    then show ?thesis using m' pl by (auto simp: setTile_def not_less)
  next
    case True
    let ?L = "getLeaf (map_root m)" and ?n = "length (map_leaves m)"
    have wf: "wf_tree 13 (map_root m)" and refs: "refs_ok ?L ?n" using inv by (simp_all add: map_inv_def)
    from createLeaf_created [OF wf, of "ucast x" "ucast y" "(map_leaves m, False)"] obtain leaf rt ls nl where
      c: "createLeaf (map_root m) (ucast x) (ucast y) 15 (map_leaves m, False) = Some (leaf, rt, ls, nl)"
      and cr: "created 13 (map_root m) (ucast x) (ucast y) (map_leaves m, False) leaf rt (ls, nl)" by auto
    note cs = setTile_lists [OF True c m']
    have len: "length (map_leaves m') = length ls" using cs(2) by (metis length_map)
    have at: "creature_list (map_leaves m' ! k) = creature_list (ls ! k)" if "k < length ls" for k
      using cs(2) that len by (metis nth_map)
    have look: "getLeaf rt x' y' = (if blk (ucast x) = blk x' \<and> blk (ucast y) = blk y' then Some leaf else ?L x' y')" for x' y'
      using cr unfolding created_def same_path_blk by blast
    have cong: "blk x1 = blk x2 \<Longrightarrow> blk y1 = blk y2 \<Longrightarrow> ?L x1 y1 = ?L x2 y2" for x1 y1 x2 y2
      using refs unfolding refs_ok_def by blast
    have bound: "?L x' y' = Some k \<Longrightarrow> k < ?n" for x' y' k using refs unfolding refs_ok_def by blast
    have some: "?L (ucast (px (pos_of d))) (ucast (py (pos_of d))) \<noteq> None" if "d \<in> S" for d
      using pl that unfolding creatures_placed_def by fastforce
    show ?thesis
    proof (cases "?L (ucast x) (ucast y)")
      case (Some k)
      with cr have st: "leaf = k" "ls = map_leaves m" by (auto simp: created_def)
      have eq: "getLeaf rt x' y' = ?L x' y'" for x' y' using Some cong [of "ucast x" x' "ucast y" y'] by (simp add: look st)
      show ?thesis
      proof (rule creatures_placedI [OF inv'])
        fix l and x' y' :: u16
        assume "getLeaf (map_root m') (ucast x') (ucast y') = Some l"
        then have l: "?L (ucast x') (ucast y') = Some l" by (simp add: cs(1) eq)
        note old = creatures_placed_leaf [OF inv pl l]
        have cl: "creature_list (map_leaves m' ! l) = creature_list (map_leaves m ! l)" using at [of l] old(1) by (simp add: st)
        show "distinct (creature_list (map_leaves m' ! l)) \<and> (\<forall>d. d \<in> set (creature_list (map_leaves m' ! l)) \<longleftrightarrow>
            d \<in> S \<and> getLeaf (map_root m') (ucast (px (pos_of d))) (ucast (py (pos_of d))) = Some l)"
          unfolding cl cs(1) eq using old(2,3) by blast
      qed (use some in \<open>simp add: cs(1) eq\<close>)
    next
      case None
      with cr have st: "leaf = ?n" "ls = map_leaves m @ [new_QTreeLeafNode]" by (auto simp: created_def)
      have far: "\<not> (blk (ucast x) = blk (ucast (px (pos_of d))) \<and> blk (ucast y) = blk (ucast (py (pos_of d))))" if "d \<in> S" for d
        using some [OF that] cong [of "ucast x" "ucast (px (pos_of d))" "ucast y" "ucast (py (pos_of d))"] None by auto
      have same: "getLeaf rt (ucast (px (pos_of d))) (ucast (py (pos_of d))) = ?L (ucast (px (pos_of d))) (ucast (py (pos_of d)))"
        if "d \<in> S" for d using far [OF that] by (auto simp: look)
      show ?thesis
      proof (rule creatures_placedI [OF inv'])
        fix l and x' y' :: u16
        assume "getLeaf (map_root m') (ucast x') (ucast y') = Some l"
        then have l: "getLeaf rt (ucast x') (ucast y') = Some l" by (simp add: cs(1))
        show "distinct (creature_list (map_leaves m' ! l)) \<and> (\<forall>d. d \<in> set (creature_list (map_leaves m' ! l)) \<longleftrightarrow>
            d \<in> S \<and> getLeaf (map_root m') (ucast (px (pos_of d))) (ucast (py (pos_of d))) = Some l)"
        proof (cases "l = ?n")
          case True
          have "creature_list (map_leaves m' ! l) = []" using at [of l] True by (simp add: st nth_append new_QTreeLeafNode_def)
          moreover have "?L (ucast (px (pos_of d))) (ucast (py (pos_of d))) \<noteq> Some l" for d using bound True by blast
          ultimately show ?thesis using same by (auto simp: cs(1))
        next
          case False
          with l have l: "?L (ucast x') (ucast y') = Some l" by (auto simp: look st split: if_splits)
          note old = creatures_placed_leaf [OF inv pl l]
          have cl: "creature_list (map_leaves m' ! l) = creature_list (map_leaves m ! l)"
            using at [of l] old(1) by (simp add: st nth_append)
          show ?thesis unfolding cl cs(1) using old(2,3) same by auto
        qed
      qed (use some same in \<open>simp add: cs(1)\<close>)
    qed
  qed
qed

lemma clamp16_le: "v \<le> u \<Longrightarrow> 0 \<le> u \<Longrightarrow> clamp16 v \<le> u"
  and clamp16_ge: "u \<le> v \<Longrightarrow> u < 65536 \<Longrightarrow> u \<le> clamp16 v"
  by (simp_all add: clamp16_def)

lemma in_rangesD:
  assumes "in_ranges centerPos r p"
  shows "minRangeZ r \<le> uint (pz p)" "uint (pz p) \<le> maxRangeZ r"
    "uint (px centerPos) + minRangeX r + (uint (pz centerPos) - uint (pz p)) \<le> uint (px p)"
    "uint (px p) \<le> uint (px centerPos) + maxRangeX r + (uint (pz centerPos) - uint (pz p))"
    "uint (py centerPos) + minRangeY r + (uint (pz centerPos) - uint (pz p)) \<le> uint (py p)"
    "uint (py p) \<le> uint (py centerPos) + maxRangeY r + (uint (pz centerPos) - uint (pz p))"
  using assms by (simp_all add: in_ranges_def Let_def not_less split: if_splits)

lemma in_ranges_block:
  assumes "in_ranges centerPos r p"
    and "x1 = clamp16 (uint (px centerPos) + minRangeX r + (uint (pz centerPos) - maxRangeZ r))"
    and "x2 = clamp16 (uint (px centerPos) + maxRangeX r + (uint (pz centerPos) - minRangeZ r))"
    and "y1 = clamp16 (uint (py centerPos) + minRangeY r + (uint (pz centerPos) - maxRangeZ r))"
    and "y2 = clamp16 (uint (py centerPos) + maxRangeY r + (uint (pz centerPos) - minRangeZ r))"
  shows "x1 \<le> uint (px p)" "uint (px p) \<le> x2" "y1 \<le> uint (py p)" "uint (py p) \<le> y2"
proof -
  note d = in_rangesD [OF assms(1)]
  have u: "uint v < 65536" for v :: u16 using uint_lt2p [of v] by simp
  show "x1 \<le> uint (px p)" unfolding assms by (rule clamp16_le) (use d in linarith, simp)
  show "uint (px p) \<le> x2" unfolding assms by (rule clamp16_ge) (use d in linarith, rule u)
  show "y1 \<le> uint (py p)" unfolding assms by (rule clamp16_le) (use d in linarith, simp)
  show "uint (py p) \<le> y2" unfolding assms by (rule clamp16_ge) (use d in linarith, rule u)
qed

lemma clamp16_bounds: "0 \<le> clamp16 v" "clamp16 v < 65536"
  by (auto simp: clamp16_def)

lemma set_spectator_blocks:
  assumes "map_inv m" "creatures_placed m pos_of S" "in_ranges centerPos r (pos_of c)"
  shows "c \<in> set (spectator_blocks m centerPos r) \<longleftrightarrow> c \<in> S"
proof -
  define x1 where "x1 = clamp16 (uint (px centerPos) + minRangeX r + (uint (pz centerPos) - maxRangeZ r))"
  define x2 where "x2 = clamp16 (uint (px centerPos) + maxRangeX r + (uint (pz centerPos) - minRangeZ r))"
  define y1 where "y1 = clamp16 (uint (py centerPos) + minRangeY r + (uint (pz centerPos) - maxRangeZ r))"
  define y2 where "y2 = clamp16 (uint (py centerPos) + maxRangeY r + (uint (pz centerPos) - minRangeZ r))"
  note b = in_ranges_block [OF assms(3) x1_def x2_def y1_def y2_def]
  have "0 \<le> x1" "x2 < 65536" "0 \<le> y1" "y2 < 65536"
    by (simp_all add: x1_def x2_def y1_def y2_def clamp16_bounds)
  have base: "v - v mod 8 \<in> set (block_range (a - a mod 8) (b - b mod 8))" if "a \<le> v" "v \<le> b" for v a b :: int
    using that unfolding set_block_range by presburger
  have in_range: "x mod 8 = 0 \<and> 0 \<le> x \<and> x < 65536"
    if "x \<in> set (block_range (a - a mod 8) (b - b mod 8))" "0 \<le> a" "b < 65536" for x a b :: int
    using that unfolding set_block_range by presburger
  let ?X = "block_range (x1 - x1 mod 8) (x2 - x2 mod 8)" and ?Y = "block_range (y1 - y1 mod 8) (y2 - y2 mod 8)"
  have "c \<in> set (spectator_blocks m centerPos r) \<longleftrightarrow> (\<exists>y \<in> set ?Y. \<exists>x \<in> set ?X. c \<in> set (creatures_at m x y))"
    by (simp add: spectator_blocks_def Let_def x1_def x2_def y1_def y2_def)
  also have "\<dots> \<longleftrightarrow> (\<exists>y \<in> set ?Y. \<exists>x \<in> set ?X. c \<in> S \<and> uint (px (pos_of c)) div 8 = x div 8 \<and> uint (py (pos_of c)) div 8 = y div 8)"
    using in_range \<open>0 \<le> x1\<close> \<open>x2 < 65536\<close> \<open>0 \<le> y1\<close> \<open>y2 < 65536\<close>
    by (intro bex_cong refl creatures_at_iff [OF assms(1,2)]) blast+
  also have "\<dots> \<longleftrightarrow> c \<in> S"
  proof
    assume "c \<in> S"
    have d: "v div 8 = (v - v mod 8) div 8" for v :: int by presburger
    from \<open>c \<in> S\<close> base [OF b(1,2)] base [OF b(3,4)] d
    show "\<exists>y \<in> set ?Y. \<exists>x \<in> set ?X. c \<in> S \<and> uint (px (pos_of c)) div 8 = x div 8 \<and> uint (py (pos_of c)) div 8 = y div 8"
      by blast
  qed blast
  finally show ?thesis .
qed

lemma getSpectatorsInternal_complete:
  assumes "map_inv m" "creatures_placed m pos_of S"
  shows "set (getSpectatorsInternal m pos_of list centerPos dup r) = set list \<union> {c \<in> S. in_ranges centerPos r (pos_of c)}"
  using set_spectator_blocks [OF assms, of centerPos r]
  by (auto simp: getSpectatorsInternal_blocks [OF assms(1)] set_scan_leaf)

section \<open>The map with its cache\<close>

text \<open>
  The map, the cache of spectators, and the positions of the creatures on it. A tile that loses or gets a
  creature (\<^verbatim>\<open>Tile::__removeThing\<close>, \<^verbatim>\<open>__addThing\<close>, \<^verbatim>\<open>__internalAddThing\<close>) clears the cache; with the tile the
  creature gets its position. A creature is placed on, or moved to, a tile, whose \<^verbatim>\<open>qt_node\<close> is the leaf of the position;
  which tile that is (the search of \<^verbatim>\<open>placeCreature\<close> and the queries) is the business of the caller.
\<close>

record ('t, 'c, 'i) MapState =
  ms_map :: "('t, 'c, 'i) Map"
  ms_cache :: "'c SpectatorCache"
  ms_pos :: "'c \<Rightarrow> position"
  ms_creatures :: "'c set"

definition tile_loses :: "('t, 'c, 'i) MapState \<Rightarrow> ('t, 'c, 'i) MapState" where
  "tile_loses s = s\<lparr>ms_cache := clearSpectatorCache (ms_cache s)\<rparr>"

definition tile_gets :: "'c \<Rightarrow> position \<Rightarrow> ('t, 'c, 'i) MapState \<Rightarrow> ('t, 'c, 'i) MapState" where
  "tile_gets c p s = s\<lparr>ms_cache := clearSpectatorCache (ms_cache s), ms_pos := (ms_pos s)(c := p)\<rparr>"

definition map_placeCreature :: "'c \<Rightarrow> position \<Rightarrow> ('t, 'c, 'i) MapState \<Rightarrow> ('t, 'c, 'i) MapState option" where
  "map_placeCreature c p s =
     (case leaf_of p (ms_map s) of
        None \<Rightarrow> None
      | Some leaf \<Rightarrow>
          (let s1 = tile_gets c p s
           in Some (s1\<lparr>ms_map := node_enter leaf c (ms_map s1), ms_creatures := insert c (ms_creatures s1)\<rparr>)))"

definition map_removeCreature :: "'c \<Rightarrow> ('t, 'c, 'i) MapState \<Rightarrow> ('t, 'c, 'i) MapState option" where
  "map_removeCreature c s =
     (case leaf_of (ms_pos s c) (ms_map s) of
        None \<Rightarrow> None
      | Some leaf \<Rightarrow> (case node_leave leaf c (ms_map s) of
            None \<Rightarrow> None
          | Some m \<Rightarrow> Some (tile_loses (s\<lparr>ms_map := m, ms_creatures := ms_creatures s - {c}\<rparr>))))"

definition map_moveCreature :: "'c \<Rightarrow> position \<Rightarrow> ('t, 'c, 'i) MapState \<Rightarrow> ('t, 'c, 'i) MapState option" where
  "map_moveCreature c p s =
     (let s1 = tile_loses s
      in case (leaf_of (ms_pos s1 c) (ms_map s1), leaf_of p (ms_map s1)) of
           (Some leaf, Some toLeaf) \<Rightarrow> map_option (\<lambda>m. tile_gets c p (s1\<lparr>ms_map := m\<rparr>)) (node_move leaf toLeaf c (ms_map s1))
         | _ \<Rightarrow> None)"

text \<open>
  What happens to the map: tiles are set, by the loader or later; creatures are placed, move and are
  removed; both queries are asked and fill the cache; and the dispatcher clears it after each task. A query
  that does not look for duplicates is asked with an empty list, as all its callers do.
\<close>

inductive map_step :: "('t, 'c, 'i) MapState \<Rightarrow> ('t, 'c, 'i) MapState \<Rightarrow> bool" where
  set_tile: "setTile x y z t rb (ms_map s) = Some m \<Longrightarrow> map_step s (s\<lparr>ms_map := m\<rparr>)"
| place: "c \<notin> ms_creatures s \<Longrightarrow> map_placeCreature c p s = Some s' \<Longrightarrow> map_step s s'"
| remove: "c \<in> ms_creatures s \<Longrightarrow> map_removeCreature c s = Some s' \<Longrightarrow> map_step s s'"
| move: "c \<in> ms_creatures s \<Longrightarrow> map_moveCreature c p s = Some s' \<Longrightarrow> map_step s s'"
| query: "getSpectators (ms_map s) (ms_pos s) (ms_cache s) p = (list, cache) \<Longrightarrow> map_step s (s\<lparr>ms_cache := cache\<rparr>)"
| query_into: "dup \<or> list = [] \<Longrightarrow>
    getSpectators_into (ms_map s) (ms_pos s) (ms_cache s) list p dup multifloor minX maxX minY maxY = (list', cache) \<Longrightarrow>
    map_step s (s\<lparr>ms_cache := cache\<rparr>)"
| task_done: "map_step s (s\<lparr>ms_cache := clearSpectatorCache (ms_cache s)\<rparr>)"

inductive map_reachable :: "('t, 'c, 'i) MapState \<Rightarrow> bool" where
  empty: "map_reachable \<lparr>ms_map = new_Map, ms_cache = (\<lambda>_. None), ms_pos = pos_of, ms_creatures = {}\<rparr>"
| step: "map_reachable s \<Longrightarrow> map_step s s' \<Longrightarrow> map_reachable s'"

definition seen_from :: "('c \<Rightarrow> position) \<Rightarrow> 'c set \<Rightarrow> position \<Rightarrow> 'c set" where
  "seen_from pos_of S centerPos = {c \<in> S. in_ranges centerPos (default_ranges centerPos) (pos_of c)}"

definition cache_ok :: "('c \<Rightarrow> position) \<Rightarrow> 'c set \<Rightarrow> 'c SpectatorCache \<Rightarrow> bool" where
  "cache_ok pos_of S cache \<longleftrightarrow> (\<forall>p l. cache p = Some l \<longrightarrow> set l = seen_from pos_of S p)"

lemma cache_ok_clear [simp]: "cache_ok pos_of S (clearSpectatorCache cache)"
  by (simp add: cache_ok_def clearSpectatorCache_def)

definition map_state_ok :: "('t, 'c, 'i) MapState \<Rightarrow> bool" where
  "map_state_ok s \<longleftrightarrow> map_inv (ms_map s) \<and> creatures_placed (ms_map s) (ms_pos s) (ms_creatures s) \<and>
     cache_ok (ms_pos s) (ms_creatures s) (ms_cache s)"

text \<open>The ranges a query with its own list is asked for; 0 stands for the default.\<close>

definition asked_ranges :: "position \<Rightarrow> bool \<Rightarrow> int \<Rightarrow> int \<Rightarrow> int \<Rightarrow> int \<Rightarrow> Ranges" where
  "asked_ranges p multifloor minX maxX minY maxY =
     \<lparr>minRangeX = (if minX = 0 then - maxViewportX else - minX), maxRangeX = (if maxX = 0 then maxViewportX else maxX),
      minRangeY = (if minY = 0 then - maxViewportY else - minY), maxRangeY = (if maxY = 0 then maxViewportY else maxY),
      minRangeZ = (if multifloor then fst (multifloor_range p) else uint (pz p)),
      maxRangeZ = (if multifloor then snd (multifloor_range p) else uint (pz p))\<rparr>"

lemma asked_default [simp]: "asked_ranges p True 0 0 0 0 = default_ranges p"
  by (simp add: asked_ranges_def default_ranges_def)

lemma getSpectators_into_cases:
  "getSpectators_into m pos_of cache list p dup multifloor minX maxX minY maxY =
     (let cacheable = (minX = 0 \<and> maxX = 0 \<and> minY = 0 \<and> maxY = 0 \<and> multifloor \<and> \<not> dup);
          list' = getSpectatorsInternal m pos_of list p True (asked_ranges p multifloor minX maxX minY maxY)
      in case (if cacheable then cache p else None) of Some cached \<Rightarrow> (cached, cache)
         | None \<Rightarrow> (list', if cacheable then cache(p \<mapsto> list') else cache))"
  unfolding getSpectators_into_def asked_ranges_def Let_def
  by (cases multifloor; cases "cache p"; cases "multifloor_range p") simp_all

lemma map_state_okD:
  assumes "map_state_ok s"
  shows "map_inv (ms_map s)" "creatures_placed (ms_map s) (ms_pos s) (ms_creatures s)"
    "cache_ok (ms_pos s) (ms_creatures s) (ms_cache s)"
  using assms by (simp_all add: map_state_ok_def)

lemma fresh_seen:
  assumes "map_state_ok s"
  shows "set (getSpectatorsInternal (ms_map s) (ms_pos s) [] p dup (default_ranges p)) = seen_from (ms_pos s) (ms_creatures s) p"
  using getSpectatorsInternal_complete [OF map_state_okD(1,2) [OF assms]] by (simp add: seen_from_def)

lemma query_ok:
  assumes ok: "map_state_ok s" and q: "getSpectators (ms_map s) (ms_pos s) (ms_cache s) p = (list, cache)"
  shows "set list = seen_from (ms_pos s) (ms_creatures s) p" "cache_ok (ms_pos s) (ms_creatures s) cache"
proof -
  have c: "cache_ok (ms_pos s) (ms_creatures s) (ms_cache s)" using ok by (simp add: map_state_ok_def)
  show "set list = seen_from (ms_pos s) (ms_creatures s) p" "cache_ok (ms_pos s) (ms_creatures s) cache"
    using q c fresh_seen [OF ok, of p False]
    by (auto simp: getSpectators_def Let_def cache_ok_def split: option.splits if_splits)
qed

lemma query_into_ok:
  assumes ok: "map_state_ok s" and l: "dup \<or> list = []"
    and q: "getSpectators_into (ms_map s) (ms_pos s) (ms_cache s) list p dup multifloor minX maxX minY maxY = (list', cache)"
  shows "set list' = set list \<union> {c \<in> ms_creatures s. in_ranges p (asked_ranges p multifloor minX maxX minY maxY) (ms_pos s c)}"
    "cache_ok (ms_pos s) (ms_creatures s) cache"
proof -
  let ?ask = "minX = 0 \<and> maxX = 0 \<and> minY = 0 \<and> maxY = 0 \<and> multifloor \<and> \<not> dup"
  let ?r = "asked_ranges p multifloor minX maxX minY maxY"
  have c: "cache_ok (ms_pos s) (ms_creatures s) (ms_cache s)" using ok by (simp add: map_state_ok_def)
  have new: "set (getSpectatorsInternal (ms_map s) (ms_pos s) list p True ?r) =
      set list \<union> {c \<in> ms_creatures s. in_ranges p ?r (ms_pos s c)}"
    by (rule getSpectatorsInternal_complete [OF map_state_okD(1,2) [OF ok]])
  show "set list' = set list \<union> {c \<in> ms_creatures s. in_ranges p ?r (ms_pos s c)}"
    "cache_ok (ms_pos s) (ms_creatures s) cache"
    using q c new l unfolding getSpectators_into_cases Let_def
    by (auto simp: cache_ok_def seen_from_def split: option.splits if_splits)
qed

lemma map_step_ok: "map_step s s' \<Longrightarrow> map_state_ok s \<Longrightarrow> map_state_ok s'"
proof (induction rule: map_step.induct)
  case (set_tile x y z t rb s m)
  show ?case using setTile_placed [OF map_state_okD(1,2) [OF set_tile.prems] set_tile.hyps] map_state_okD(3) [OF set_tile.prems]
    by (simp add: map_state_ok_def)
next
  case (place c s p s')
  obtain l where l: "leaf_of p (ms_map s) = Some l" using place.hyps(2) by (auto simp: map_placeCreature_def split: option.splits)
  have "s' = s\<lparr>ms_cache := clearSpectatorCache (ms_cache s), ms_pos := (ms_pos s)(c := p), ms_map := node_enter l c (ms_map s),
      ms_creatures := insert c (ms_creatures s)\<rparr>"
    using place.hyps(2) l by (simp add: map_placeCreature_def tile_gets_def)
  then show ?case using node_enter_placed [OF map_state_okD(1,2) [OF place.prems] place.hyps(1) l [unfolded leaf_of_def]] by (simp add: map_state_ok_def)
next
  case (remove c s s')
  obtain l m where l: "leaf_of (ms_pos s c) (ms_map s) = Some l" "node_leave l c (ms_map s) = Some m"
    using remove.hyps(2) by (auto simp: map_removeCreature_def split: option.splits)
  have "s' = s\<lparr>ms_map := m, ms_creatures := ms_creatures s - {c}, ms_cache := clearSpectatorCache (ms_cache s)\<rparr>"
    using remove.hyps(2) l by (simp add: map_removeCreature_def tile_loses_def)
  moreover have "map_inv m \<and> creatures_placed m (ms_pos s) (ms_creatures s - {c})"
    using node_leave_placed [OF map_state_okD(1,2) [OF remove.prems] remove.hyps(1) l(1) [unfolded leaf_of_def]] l(2) by auto
  ultimately show ?case by (simp add: map_state_ok_def)
next
  case (move c s p s')
  obtain l k m where l: "leaf_of (ms_pos s c) (ms_map s) = Some l" "leaf_of p (ms_map s) = Some k"
      "node_move l k c (ms_map s) = Some m"
    using move.hyps(2) by (auto simp: map_moveCreature_def tile_loses_def Let_def split: option.splits)
  have "s' = s\<lparr>ms_cache := clearSpectatorCache (clearSpectatorCache (ms_cache s)), ms_map := m, ms_pos := (ms_pos s)(c := p)\<rparr>"
    using move.hyps(2) l by (auto simp: map_moveCreature_def tile_loses_def tile_gets_def)
  moreover have "map_inv m \<and> creatures_placed m ((ms_pos s)(c := p)) (ms_creatures s)"
    using node_move_placed [OF map_state_okD(1,2) [OF move.prems] move.hyps(1) l(1,2)] l(3) by auto
  ultimately show ?case by (simp add: map_state_ok_def)
next
  case (query s p list cache)
  then show ?case using query_ok(2) [OF query.prems query.hyps] by (simp add: map_state_ok_def)
next
  case (query_into dup list s p multifloor minX maxX minY maxY list' cache)
  then show ?case using query_into_ok(2) [OF query_into.prems query_into.hyps] by (simp add: map_state_ok_def)
next
  case (task_done s)
  then show ?case by (simp add: map_state_ok_def)
qed

lemma map_reachable_ok: "map_reachable s \<Longrightarrow> map_state_ok s"
proof (induction rule: map_reachable.induct)
  case (empty pos_of)
  have "creatures_placed new_Map pos_of {}"
    by (rule creatures_placedI [OF map_inv_new]) (simp_all add: new_Map_def getLeaf_new)
  then show ?case by (simp add: map_state_ok_def map_inv_new cache_ok_def)
qed (rule map_step_ok)

text \<open>
  C21. Whatever tiles were set, creatures placed, moved and removed and queries asked before, in any order
  and with or without the end of a task between them: a query for the spectators of a position, answered from the
  cache or not, returns exactly the creatures on the map that are in the visible range of the position, on the
  visible floors and shifted by the distance of the floors; and a query for other ranges adds exactly those in
  its ranges to the list.
\<close>
theorem spectators_complete:
  assumes "map_reachable s"
  shows "set (fst (getSpectators (ms_map s) (ms_pos s) (ms_cache s) p)) = seen_from (ms_pos s) (ms_creatures s) p \<and>
    set (fst (getSpectators_into (ms_map s) (ms_pos s) (ms_cache s) [] p False True 0 0 0 0)) = seen_from (ms_pos s) (ms_creatures s) p \<and>
    (dup \<or> list = [] \<longrightarrow>
      set (fst (getSpectators_into (ms_map s) (ms_pos s) (ms_cache s) list p dup multifloor minX maxX minY maxY)) =
        set list \<union> {c \<in> ms_creatures s. in_ranges p (asked_ranges p multifloor minX maxX minY maxY) (ms_pos s c)})"
proof -
  note ok = map_reachable_ok [OF assms]
  have "set (fst (getSpectators_into (ms_map s) (ms_pos s) (ms_cache s) list p dup multifloor minX maxX minY maxY)) =
      set list \<union> {c \<in> ms_creatures s. in_ranges p (asked_ranges p multifloor minX maxX minY maxY) (ms_pos s c)}"
    if "dup \<or> list = []" for list dup multifloor minX maxX minY maxY
    by (rule query_into_ok(1) [OF ok that prod.collapse [symmetric]])
  from this [of False "[]" True 0 0 0 0] this [of dup list multifloor minX maxX minY maxY] query_ok(1) [OF ok prod.collapse [symmetric], of p]
  show ?thesis by (simp add: seen_from_def)
qed

lemma set_tiles_reachable:
  "map_reachable s \<Longrightarrow> setTiles ts (ms_map s) = Some m \<Longrightarrow> map_reachable (s\<lparr>ms_map := m\<rparr>)"
proof (induction ts arbitrary: s)
  case Nil
  then have "ms_map s = m" by simp
  then have same: "s\<lparr>ms_map := m\<rparr> = s" by (intro MapState.equality) simp_all
  show ?case unfolding same by (rule Nil(1))
next
  case (Cons e ts)
  obtain x y z t rb where e: "e = ((x, y, z), t, rb)" by (metis prod_cases3 surj_pair)
  obtain m1 where m1: "setTile x y z t rb (ms_map s) = Some m1" "setTiles ts m1 = Some m"
    using Cons.prems(2) by (auto simp: e split: option.splits)
  have "map_reachable (s\<lparr>ms_map := m1\<rparr>)" by (rule map_reachable.step [OF Cons.prems(1) map_step.set_tile [OF m1(1)]])
  from Cons.IH [OF this] m1(2) show ?case by simp
qed

text \<open>The witness: a query leaves its answer in the cache, a second creature comes, and the next query sees both.\<close>

theorem spectators_complete_witness:
  "\<exists>s s' :: (nat, nat, nat) MapState. map_reachable s \<and> ms_cache s (Position 100 100 7) \<noteq> None \<and> map_step s s' \<and>
     set (fst (getSpectators (ms_map s) (ms_pos s) (ms_cache s) (Position 100 100 7))) = {5} \<and>
     set (fst (getSpectators (ms_map s') (ms_pos s') (ms_cache s') (Position 100 100 7))) = {5, 6}"
proof -
  let ?p = "Position 100 100 7"
  let ?s0 = "\<lparr>ms_map = new_Map, ms_cache = (\<lambda>_. None), ms_pos = (\<lambda>_. Position 0 0 0), ms_creatures = {}\<rparr> :: (nat, nat, nat) MapState"
  obtain m :: "(nat, nat, nat) Map" where m: "setTiles example_tiles new_Map = Some m" "map_inv m"
    using setTiles_inv [OF map_inv_new] by blast
  have "getTile 100 100 7 m = Some 1"
    using setTiles_getTile [OF map_inv_new m(1), of 7 100 100] by (simp add: example_tiles_def)
  then obtain l where l: "leaf_of ?p m = Some l"
    by (auto simp: getTile_floor floor_at_def leaf_of_def split: option.splits)
  define s1 where "s1 = ?s0\<lparr>ms_map := m\<rparr>"
  have "map_reachable ?s0" by (rule map_reachable.empty)
  from set_tiles_reachable [OF this, of example_tiles m] m(1) have r1: "map_reachable s1" by (simp add: s1_def)
  define s2 where "s2 = the (map_placeCreature 5 ?p s1)"
  have s2: "map_placeCreature 5 ?p s1 = Some s2" using l by (simp add: s2_def map_placeCreature_def s1_def Let_def)
  have r2: "map_reachable s2" by (rule map_reachable.step [OF r1 map_step.place [OF _ s2]]) (simp add: s1_def)
  have f2: "ms_creatures s2 = {5}" "ms_pos s2 5 = ?p" "ms_cache s2 ?p = None" "leaf_of ?p (ms_map s2) = Some l"
    using s2 l by (auto simp: map_placeCreature_def s1_def tile_gets_def clearSpectatorCache_def leaf_of_def node_enter_def)
  define s3 where "s3 = s2\<lparr>ms_cache := snd (getSpectators (ms_map s2) (ms_pos s2) (ms_cache s2) ?p)\<rparr>"
  have r3: "map_reachable s3" unfolding s3_def
    by (rule map_reachable.step [OF r2 map_step.query [OF prod.collapse [symmetric]]])
  have f3: "ms_creatures s3 = {5}" "ms_pos s3 5 = ?p" "ms_cache s3 ?p \<noteq> None" "leaf_of ?p (ms_map s3) = Some l"
    using f2 by (simp_all add: s3_def getSpectators_def Let_def)
  define s4 where "s4 = the (map_placeCreature 6 ?p s3)"
  have s4: "map_placeCreature 6 ?p s3 = Some s4" using f3(4) by (simp add: s4_def map_placeCreature_def Let_def)
  have st: "map_step s3 s4" by (rule map_step.place [OF _ s4]) (simp add: f3)
  have "s4 = (tile_gets 6 ?p s3)\<lparr>ms_map := node_enter l 6 (ms_map (tile_gets 6 ?p s3)),
      ms_creatures := insert 6 (ms_creatures (tile_gets 6 ?p s3))\<rparr>"
    using f3(4) by (simp add: s4_def map_placeCreature_def Let_def)
  then have f4: "ms_creatures s4 = {6, 5}" "ms_pos s4 5 = ?p" "ms_pos s4 6 = ?p"
    using f3(1,2) by (simp_all add: tile_gets_def)
  have here: "in_ranges ?p (default_ranges ?p) ?p"
    by (simp add: in_ranges_def default_ranges_def multifloor_range_def Let_def)
  have one: "{c \<in> {5}. P c} = {5}" if "P 5" for P :: "nat \<Rightarrow> bool" using that by auto
  have two: "{c \<in> {6, 5}. P c} = {5, 6}" if "P 5" "P 6" for P :: "nat \<Rightarrow> bool" using that by auto
  have "seen_from (ms_pos s3) (ms_creatures s3) ?p = {5}" "seen_from (ms_pos s4) (ms_creatures s4) ?p = {5, 6}"
    unfolding seen_from_def f3(1) f4(1) by (rule one, unfold f3(2), rule here, rule two, unfold f4(2,3), (rule here)+)
  then have "set (fst (getSpectators (ms_map s3) (ms_pos s3) (ms_cache s3) ?p)) = {5}"
    "set (fst (getSpectators (ms_map s4) (ms_pos s4) (ms_cache s4) ?p)) = {5, 6}"
    using conjunct1 [OF spectators_complete [OF r3, of ?p]]
      conjunct1 [OF spectators_complete [OF map_reachable.step [OF r3 st], of ?p]] by (simp_all only:)
  then show ?thesis using r3 f3(3) st by (intro exI conjI)
qed

section \<open>Waypoints\<close>

text \<open>The named positions of a map (\<^verbatim>\<open>Source/waypoints.h\<close>): \<^verbatim>\<open>std::map::insert\<close> keeps an entry that is there.\<close>

record Waypoint =
  wp_name :: string
  wp_pos :: position

type_synonym Waypoints = "string \<Rightarrow> Waypoint option"

definition addWaypoint :: "Waypoint \<Rightarrow> Waypoints \<Rightarrow> Waypoints" where
  "addWaypoint wp ws = (if ws (wp_name wp) = None then ws(wp_name wp \<mapsto> wp) else ws)"

definition getWaypointByName :: "string \<Rightarrow> Waypoints \<Rightarrow> Waypoint option" where
  "getWaypointByName name ws = ws name"

interpretation waypoints: keep_store "\<lambda>n ws. map_option wp_pos (getWaypointByName n ws)"
    "\<lambda>n p. addWaypoint \<lparr>wp_name = n, wp_pos = p\<rparr>" "\<lambda>_. True" "\<lambda>_. True"
  by unfold_locales (auto simp: getWaypointByName_def addWaypoint_def)

end
