(* ===== verification/SightLine.thy ===== *)
theory SightLine
  imports MapTree
begin

text \<open>
  Lines of sight (\<^verbatim>\<open>canThrowObjectTo\<close>, \<^verbatim>\<open>checkSightLine\<close>, \<^verbatim>\<open>isSightClear\<close> in \<^verbatim>\<open>Source/map.cpp\<close>). The ray is a digital
  line in three dimensions: the coordinates are exchanged so that the longest extent is the first one, the
  loop advances it by one and the others when their error term says so.

  The main fact is that the loop ends and looks at the points of the ray given in
  closed form, coordinate by coordinate: after \<open>k\<close> of \<open>n\<close> steps a coordinate of extent \<open>d\<close> has
  moved by \<open>k * d / n\<close> rounded to the nearest number. The map's tiles and whether a
  tile blocks projectiles are parameters.
\<close>

section \<open>The program\<close>

type_synonym coords = "int \<times> int \<times> int"

definition pos_coords :: "position \<Rightarrow> coords" where
  "pos_coords p = (uint (px p), uint (py p), uint (pz p))"

text \<open>The tile at three \<^verbatim>\<open>int\<close> values, which are converted to 16 bits.\<close>

definition tile_at :: "(u16 \<Rightarrow> u16 \<Rightarrow> u16 \<Rightarrow> 't option) \<Rightarrow> coords \<Rightarrow> 't option" where
  "tile_at tiles = (\<lambda>(x, y, z). tiles (word_of_int x) (word_of_int y) (word_of_int z))"

text \<open>The exchange of the coordinates; it is its own inverse.\<close>

definition exchange :: "nat \<Rightarrow> coords \<Rightarrow> coords" where
  "exchange dir = (\<lambda>(x, y, z). if dir = 1 then (y, x, z) else if dir = 2 then (z, y, x) else (x, y, z))"

record Ray =
  ray_dir :: nat
  ray_dx :: int
  ray_dy :: int
  ray_dz :: int
  ray_sx :: int
  ray_sy :: int
  ray_sz :: int
  ray_endx :: int

definition setup_ray :: "position \<Rightarrow> position \<Rightarrow> Ray \<times> coords" where
  "setup_ray fromPos toPos =
     (let (sx0, sy0, sz0) = pos_coords fromPos; (ex0, ey0, ez0) = pos_coords toPos;
          dx = \<bar>sx0 - ex0\<bar>; dy = \<bar>sy0 - ey0\<bar>; dz = \<bar>sz0 - ez0\<bar>;
          (max1, dir1) = (if dy > dx then (dy, 1) else (dx, 0));
          dir = (if dz > max1 then 2 else dir1);
          (dx, dy, dz) = exchange dir (dx, dy, dz);
          (startx, starty, startz) = exchange dir (sx0, sy0, sz0);
          (endx, endy, endz) = exchange dir (ex0, ey0, ez0)
      in (\<lparr>ray_dir = dir, ray_dx = dx, ray_dy = dy, ray_dz = dz,
           ray_sx = (if startx < endx then 1 else - 1),
           ray_sy = (if starty < endy then 1 else - 1),
           ray_sz = (if startz < endz then 1 else - 1),
           ray_endx = endx\<rparr>, (startx, starty, startz)))"

text \<open>The loop: the coordinates, the two error terms, the last point looked at.\<close>

partial_function (option) sight_loop :: "(u16 \<Rightarrow> u16 \<Rightarrow> u16 \<Rightarrow> 't option) \<Rightarrow> ('t \<Rightarrow> bool) \<Rightarrow> position \<Rightarrow> position \<Rightarrow> Ray \<Rightarrow>
    coords \<Rightarrow> int \<Rightarrow> int \<Rightarrow> coords \<Rightarrow> bool option" where
  "sight_loop tiles blocks fromPos toPos r c ey ez lastr =
     (let (x, y, z) = c in
      if x \<noteq> ray_endx r + ray_sx r then
        (let (rx, ry, rz) = exchange (ray_dir r) (x, y, z);
             (lastrx, lastry, lastrz) = lastr;
             interior = (pos_coords toPos \<noteq> (rx, ry, rz) \<and> pos_coords fromPos \<noteq> (rx, ry, rz))
         in if interior \<and> lastrz \<noteq> rz \<and> tile_at tiles (lastrx, lastry, min lastrz rz) \<noteq> None then Some False
            else if interior \<and> (case tile_at tiles (rx, ry, rz) of Some t \<Rightarrow> blocks t | None \<Rightarrow> False) then Some False
            else
              (let lastr' = (if interior then (rx, ry, rz) else lastr);
                   ey1 = ey + ray_dy r;
                   ez1 = ez + ray_dz r;
                   (y', ey') = (if 2 * ey1 \<ge> ray_dx r then (y + ray_sy r, ey1 - ray_dx r) else (y, ey1));
                   (z', ez') = (if 2 * ez1 \<ge> ray_dx r then (z + ray_sz r, ez1 - ray_dx r) else (z, ez1))
               in sight_loop tiles blocks fromPos toPos r (x + ray_sx r, y', z') ey' ez' lastr'))
      else Some True)"

text \<open>The last point starts as \<^verbatim>\<open>(x, y, z)\<close>, which are the exchanged coordinates of the start.\<close>

definition checkSightLine :: "(u16 \<Rightarrow> u16 \<Rightarrow> u16 \<Rightarrow> 't option) \<Rightarrow> ('t \<Rightarrow> bool) \<Rightarrow> position \<Rightarrow> position \<Rightarrow> bool option" where
  "checkSightLine tiles blocks fromPos toPos =
     (let (r, start) = setup_ray fromPos toPos
      in sight_loop tiles blocks fromPos toPos r start 0 0 start)"

definition isSightClear :: "(u16 \<Rightarrow> u16 \<Rightarrow> u16 \<Rightarrow> 't option) \<Rightarrow> ('t \<Rightarrow> bool) \<Rightarrow> position \<Rightarrow> position \<Rightarrow> bool \<Rightarrow> bool option" where
  "isSightClear tiles blocks fromPos toPos floorCheck =
     (if floorCheck \<and> pz fromPos \<noteq> pz toPos then Some False
      else case checkSightLine tiles blocks fromPos toPos of
          None \<Rightarrow> None
        | Some True \<Rightarrow> Some True
        | Some False \<Rightarrow> checkSightLine tiles blocks toPos fromPos)"

definition canThrowObjectTo :: "(u16 \<Rightarrow> u16 \<Rightarrow> u16 \<Rightarrow> 't option) \<Rightarrow> ('t \<Rightarrow> bool) \<Rightarrow> position \<Rightarrow> position \<Rightarrow>
    bool \<Rightarrow> int \<Rightarrow> int \<Rightarrow> bool option" where
  "canThrowObjectTo tiles blocks fromPos toPos checkLineOfSight rangex rangey =
     (if pz fromPos \<ge> 8 \<and> pz toPos < 8 \<or> pz toPos \<ge> 8 \<and> pz fromPos < 8 then Some False
      else if uint (pz fromPos) - uint (pz fromPos) > 2 then Some False
      else
        let deltax = \<bar>uint (px fromPos) - uint (px toPos)\<bar>;
            deltay = \<bar>uint (py fromPos) - uint (py toPos)\<bar>;
            deltaz = \<bar>uint (pz fromPos) - uint (pz toPos)\<bar>
        in if deltax - deltaz > rangex \<or> deltay - deltaz > rangey then Some False
           else if \<not> checkLineOfSight then Some True
           else isSightClear tiles blocks fromPos toPos False)"

section \<open>The ray in closed form\<close>

definition ray_len :: "position \<Rightarrow> position \<Rightarrow> int" where
  "ray_len p q = max \<bar>uint (px p) - uint (px q)\<bar> (max \<bar>uint (py p) - uint (py q)\<bar> \<bar>uint (pz p) - uint (pz q)\<bar>)"

definition along :: "int \<Rightarrow> int \<Rightarrow> int \<Rightarrow> int \<Rightarrow> int" where
  "along n a b k = a + (if a < b then 1 else - 1) * ((2 * k * \<bar>a - b\<bar> + n) div (2 * n))"

definition ray_point :: "position \<Rightarrow> position \<Rightarrow> int \<Rightarrow> coords" where
  "ray_point p q k =
     (along (ray_len p q) (uint (px p)) (uint (px q)) k,
      along (ray_len p q) (uint (py p)) (uint (py q)) k,
      along (ray_len p q) (uint (pz p)) (uint (pz q)) k)"

text \<open>What is required of the points of a ray, in order: no projectile is blocked at a point between the ends, and
  where the floor changes the upper of the two floors has no tile at the previous point.\<close>

fun clear_points :: "(u16 \<Rightarrow> u16 \<Rightarrow> u16 \<Rightarrow> 't option) \<Rightarrow> ('t \<Rightarrow> bool) \<Rightarrow> position \<Rightarrow> position \<Rightarrow> coords \<Rightarrow> coords list \<Rightarrow> bool" where
  "clear_points tiles blocks fromPos toPos lastr [] = True"
| "clear_points tiles blocks fromPos toPos lastr (c # cs) =
     (if pos_coords toPos = c \<or> pos_coords fromPos = c then clear_points tiles blocks fromPos toPos lastr cs
      else (snd (snd lastr) = snd (snd c) \<or>
            tile_at tiles (fst lastr, fst (snd lastr), min (snd (snd lastr)) (snd (snd c))) = None) \<and>
           (case tile_at tiles c of Some t \<Rightarrow> \<not> blocks t | None \<Rightarrow> True) \<and>
           clear_points tiles blocks fromPos toPos c cs)"

definition ray_points :: "position \<Rightarrow> position \<Rightarrow> coords list" where
  "ray_points p q = map (ray_point p q) [0..ray_len p q]"

text \<open>The point the first floor change is compared with: the start, but in the exchanged coordinates.\<close>

definition first_last :: "position \<Rightarrow> position \<Rightarrow> coords" where
  "first_last p q = snd (setup_ray p q)"

section \<open>The loop follows the closed form\<close>

lemma digital_step:
  fixes n d k :: int
  assumes n: "0 < n" "0 \<le> d" "d \<le> n" and m: "m = (2 * k * d + n) div (2 * n)"
  shows "(2 * (k + 1) * d + n) div (2 * n) = (if 2 * (k * d - m * n + d) \<ge> n then m + 1 else m)"
proof -
  define r where "r = (2 * k * d + n) mod (2 * n)"
  have r: "0 \<le> r" "r < 2 * n" unfolding r_def using n(1) by simp_all
  have a: "2 * (k * d) + n = 2 * (n * m) + r"
    unfolding r_def m using mult_div_mod_eq [of "2 * n" "2 * k * d + n"] by (simp add: mult.assoc)
  have new: "2 * (k + 1) * d + n = 2 * (n * m) + (r + 2 * d)"
    using a by (simp add: algebra_simps)
  have "2 * (k * d - m * n + d) = r + 2 * d - n"
    using a by (simp add: algebra_simps)
  then have cond: "2 * (k * d - m * n + d) \<ge> n \<longleftrightarrow> r + 2 * d \<ge> 2 * n" by linarith
  show ?thesis
  proof (cases "r + 2 * d \<ge> 2 * n")
    case True
    have "2 * (k + 1) * d + n = (2 * n) * (m + 1) + (r + 2 * d - 2 * n)"
      using new by (simp add: algebra_simps)
    then have "(2 * (k + 1) * d + n) div (2 * n) = m + 1"
      by (rule int_div_pos_eq) (use True r n in auto)
    with True cond show ?thesis by simp
  next
    case False
    have "2 * (k + 1) * d + n = (2 * n) * m + (r + 2 * d)"
      using new by (simp add: algebra_simps)
    then have "(2 * (k + 1) * d + n) div (2 * n) = m"
      by (rule int_div_pos_eq) (use False r n in auto)
    with False cond show ?thesis by simp
  qed
qed

text \<open>The state of the loop after \<open>k\<close> steps, in the exchanged coordinates.\<close>

definition steps_done :: "int \<Rightarrow> int \<Rightarrow> int \<Rightarrow> int" where
  "steps_done n d k = (2 * k * d + n) div (2 * n)"

lemma steps_done_0: "0 \<le> n \<Longrightarrow> steps_done n d 0 = 0"
  by (cases "n = 0") (auto simp: steps_done_def)

lemma steps_done_self: "0 < n \<Longrightarrow> steps_done n n k = k"
  by (simp add: steps_done_def, rule int_div_pos_eq [of _ _ _ n]) (auto simp: algebra_simps)

lemma steps_done_Suc:
  assumes "0 < n" "0 \<le> d" "d \<le> n" "e = k * d - steps_done n d k * n"
  shows "(if 2 * (e + d) \<ge> n then (v + s, e + d - n) else (v, e + d)) = 
    (v + s * (steps_done n d (k + 1) - steps_done n d k), (k + 1) * d - steps_done n d (k + 1) * n)"
proof -
  have "steps_done n d (k + 1) = (if 2 * (e + d) \<ge> n then steps_done n d k + 1 else steps_done n d k)"
    using digital_step [OF assms(1-3) refl, of k] assms(4) by (simp add: steps_done_def)
  then show ?thesis using assms(4) by (auto simp: algebra_simps)
qed

definition ray_ok :: "Ray \<Rightarrow> coords \<Rightarrow> bool" where
  "ray_ok r start \<longleftrightarrow> 0 \<le> ray_dx r \<and> 0 \<le> ray_dy r \<and> ray_dy r \<le> ray_dx r \<and> 0 \<le> ray_dz r \<and> ray_dz r \<le> ray_dx r \<and>
     (ray_sx r = 1 \<or> ray_sx r = - 1) \<and> ray_endx r = fst start + ray_sx r * ray_dx r"

definition ray_at :: "Ray \<Rightarrow> coords \<Rightarrow> int \<Rightarrow> coords" where
  "ray_at r start k =
     (fst start + ray_sx r * k,
      fst (snd start) + ray_sy r * steps_done (ray_dx r) (ray_dy r) k,
      snd (snd start) + ray_sz r * steps_done (ray_dx r) (ray_dz r) k)"

lemma upto_step: "k \<le> n \<Longrightarrow> [k..n] = k # [k + 1..n :: int]"
  by (rule upto_rec1)

lemma sight_loop_clear:
  assumes ok: "ray_ok r start" and k: "0 \<le> k" "k \<le> ray_dx r + 1"
    and ey: "ey = k * ray_dy r - steps_done (ray_dx r) (ray_dy r) k * ray_dx r"
    and ez: "ez = k * ray_dz r - steps_done (ray_dx r) (ray_dz r) k * ray_dx r"
    and pos: "0 < ray_dx r"
  shows "sight_loop tiles blocks p q r (ray_at r start k) ey ez lastr =
    Some (clear_points tiles blocks p q lastr (map (\<lambda>k. exchange (ray_dir r) (ray_at r start k)) [k..ray_dx r]))"
  using k ey ez
proof (induction "nat (ray_dx r + 1 - k)" arbitrary: k ey ez lastr)
  case 0
  then have "k = ray_dx r + 1" by simp
  with ok show ?case
    by (subst sight_loop.simps) (simp add: ray_at_def ray_ok_def algebra_simps)
next
  case (Suc i)
  let ?n = "ray_dx r"
  have kn: "k \<le> ?n" using Suc.hyps(2) by simp
  have neq: "fst start + ray_sx r * k \<noteq> ray_endx r + ray_sx r"
    using ok kn by (auto simp: ray_ok_def)
  have dy: "0 \<le> ray_dy r" "ray_dy r \<le> ?n" and dz: "0 \<le> ray_dz r" "ray_dz r \<le> ?n"
    using ok by (simp_all add: ray_ok_def)
  note y = steps_done_Suc [OF pos dy Suc.prems(3), of "fst (snd start) + ray_sy r * steps_done ?n (ray_dy r) k" "ray_sy r"]
  note z = steps_done_Suc [OF pos dz Suc.prems(4), of "snd (snd start) + ray_sz r * steps_done ?n (ray_dz r) k" "ray_sz r"]
  obtain rx ry rz where c: "exchange (ray_dir r) (ray_at r start k) = (rx, ry, rz)" by (metis prod_cases3)
  obtain lx ly lz where l: "lastr = (lx, ly, lz)" by (metis prod_cases3)
  have at: "ray_at r start (k + 1) = (fst start + ray_sx r * k + ray_sx r,
      fst (snd start) + ray_sy r * steps_done ?n (ray_dy r) k + ray_sy r * (steps_done ?n (ray_dy r) (k + 1) - steps_done ?n (ray_dy r) k),
      snd (snd start) + ray_sz r * steps_done ?n (ray_dz r) k + ray_sz r * (steps_done ?n (ray_dz r) (k + 1) - steps_done ?n (ray_dz r) k))"
    by (simp add: ray_at_def algebra_simps)
  have IH: "sight_loop tiles blocks p q r (ray_at r start (k + 1))
      ((k + 1) * ray_dy r - steps_done ?n (ray_dy r) (k + 1) * ?n)
      ((k + 1) * ray_dz r - steps_done ?n (ray_dz r) (k + 1) * ?n) lastr' =
    Some (clear_points tiles blocks p q lastr' (map (\<lambda>k. exchange (ray_dir r) (ray_at r start k)) [k + 1..?n]))" for lastr'
    by (rule Suc.hyps(1)) (use Suc.hyps(2) Suc.prems kn in auto)
  have body: "sight_loop tiles blocks p q r (ray_at r start k) ey ez lastr =
      (let interior = (pos_coords q \<noteq> (rx, ry, rz) \<and> pos_coords p \<noteq> (rx, ry, rz)) in
       if interior \<and> lz \<noteq> rz \<and> tile_at tiles (lx, ly, min lz rz) \<noteq> None then Some False
       else if interior \<and> (case tile_at tiles (rx, ry, rz) of Some t \<Rightarrow> blocks t | None \<Rightarrow> False) then Some False
       else sight_loop tiles blocks p q r (ray_at r start (k + 1))
          ((k + 1) * ray_dy r - steps_done ?n (ray_dy r) (k + 1) * ?n)
          ((k + 1) * ray_dz r - steps_done ?n (ray_dz r) (k + 1) * ?n)
          (if interior then (rx, ry, rz) else lastr))"
    using c [unfolded ray_at_def] neq
    by (subst sight_loop.simps) (simp add: ray_at_def [of r start k] Let_def l y z at del: distrib_left_numeral)
  show ?case
    unfolding body Let_def IH upto_step [OF kn]
    by (auto simp: c l split: option.splits)
qed

lemma exchange_exchange [simp]: "exchange d (exchange d c) = c"
  by (cases c) (simp add: exchange_def)

lemma setup_ray_cases:
  assumes "setup_ray p q = (r, start)"
  shows "ray_ok r start" "ray_dx r = ray_len p q" "exchange (ray_dir r) start = pos_coords p"
    "0 < ray_len p q \<Longrightarrow> exchange (ray_dir r) (ray_at r start k) = ray_point p q k"
proof -
  let ?dx = "\<bar>uint (px p) - uint (px q)\<bar>" and ?dy = "\<bar>uint (py p) - uint (py q)\<bar>" and ?dz = "\<bar>uint (pz p) - uint (pz q)\<bar>"
  consider (x) "?dy \<le> ?dx" "?dz \<le> ?dx" | (y) "?dx < ?dy" "?dz \<le> ?dy" | (z) "?dx < ?dz" "?dy < ?dz"
    by linarith
  then have "ray_ok r start \<and> ray_dx r = ray_len p q \<and> exchange (ray_dir r) start = pos_coords p \<and>
    (0 < ray_len p q \<longrightarrow> exchange (ray_dir r) (ray_at r start k) = ray_point p q k)"
  proof cases
    case x
    have n: "ray_len p q = ?dx" using x by (simp add: ray_len_def)
    have r: "r = \<lparr>ray_dir = 0, ray_dx = ?dx, ray_dy = ?dy, ray_dz = ?dz,
        ray_sx = (if uint (px p) < uint (px q) then 1 else - 1), ray_sy = (if uint (py p) < uint (py q) then 1 else - 1),
        ray_sz = (if uint (pz p) < uint (pz q) then 1 else - 1), ray_endx = uint (px q)\<rparr>"
      "start = (uint (px p), uint (py p), uint (pz p))"
      using assms x by (simp_all add: setup_ray_def pos_coords_def exchange_def not_less Let_def)
    show ?thesis
      unfolding r n using x
      by (auto simp: ray_ok_def ray_at_def exchange_def ray_point_def n along_def pos_coords_def
        steps_done_def [symmetric] steps_done_self)
  next
    case y
    have n: "ray_len p q = ?dy" using y by (simp add: ray_len_def)
    have r: "r = \<lparr>ray_dir = 1, ray_dx = ?dy, ray_dy = ?dx, ray_dz = ?dz,
        ray_sx = (if uint (py p) < uint (py q) then 1 else - 1), ray_sy = (if uint (px p) < uint (px q) then 1 else - 1),
        ray_sz = (if uint (pz p) < uint (pz q) then 1 else - 1), ray_endx = uint (py q)\<rparr>"
      "start = (uint (py p), uint (px p), uint (pz p))"
      using assms y by (simp_all add: setup_ray_def pos_coords_def exchange_def not_less Let_def)
    show ?thesis
      unfolding r n using y
      by (auto simp: ray_ok_def ray_at_def exchange_def ray_point_def n along_def pos_coords_def
        steps_done_def [symmetric] steps_done_self)
  next
    case z
    have n: "ray_len p q = ?dz" using z by (simp add: ray_len_def)
    have r: "r = \<lparr>ray_dir = 2, ray_dx = ?dz, ray_dy = ?dy, ray_dz = ?dx,
        ray_sx = (if uint (pz p) < uint (pz q) then 1 else - 1), ray_sy = (if uint (py p) < uint (py q) then 1 else - 1),
        ray_sz = (if uint (px p) < uint (px q) then 1 else - 1), ray_endx = uint (pz q)\<rparr>"
      "start = (uint (pz p), uint (py p), uint (px p))"
      using assms z by (simp_all add: setup_ray_def pos_coords_def exchange_def Let_def split: if_splits)
    show ?thesis
      unfolding r n using z
      by (auto simp: ray_ok_def ray_at_def exchange_def ray_point_def n along_def pos_coords_def
        steps_done_def [symmetric] steps_done_self)
  qed
  then show "ray_ok r start" "ray_dx r = ray_len p q" "exchange (ray_dir r) start = pos_coords p"
    "0 < ray_len p q \<Longrightarrow> exchange (ray_dir r) (ray_at r start k) = ray_point p q k" by blast+
qed

lemma ray_len_0: "0 \<le> ray_len p q" "ray_len p q = 0 \<longleftrightarrow> p = q"
proof -
  show "0 \<le> ray_len p q" by (simp add: ray_len_def)
  show "ray_len p q = 0 \<longleftrightarrow> p = q"
    by (cases p; cases q) (auto simp: ray_len_def max_def word_uint_eq_iff)
qed

lemma ray_len_sym: "ray_len p q = ray_len q p"
  by (simp add: ray_len_def abs_minus_commute)

text \<open>
  C36. The line of sight loop always ends, and its result is that of the closed form: the points it
  looks at are those of the digital line, each coordinate rounded to the nearest number.
\<close>
theorem checkSightLine_digital_line:
  "checkSightLine tiles blocks p q =
    Some (clear_points tiles blocks p q (first_last p q) (ray_points p q))"
proof -
  obtain r start where s: "setup_ray p q = (r, start)" by (cases "setup_ray p q")
  note c = setup_ray_cases [OF s]
  have start: "start = first_last p q" by (simp add: first_last_def s)
  show ?thesis
  proof (cases "p = q")
    case False
    then have n: "0 < ray_len p q" using ray_len_0 [of p q] by linarith
    have at0: "ray_at r start 0 = start" using n by (cases start) (simp add: ray_at_def steps_done_0 c(2))
    have "sight_loop tiles blocks p q r (ray_at r start 0) 0 0 start =
        Some (clear_points tiles blocks p q start (map (\<lambda>k. exchange (ray_dir r) (ray_at r start k)) [0..ray_dx r]))"
      using n by (intro sight_loop_clear [OF c(1)]) (simp_all add: c(2) steps_done_0)
    then show ?thesis
      using n by (simp add: checkSightLine_def s at0 [unfolded start] c(2) c(4) [unfolded start] ray_points_def start)
  next
    case True
    then have n: "ray_len p q = 0" using ray_len_0 [of p q] by simp
    obtain x y z where st: "start = (x, y, z)" by (metis prod_cases3)
    have ex: "exchange (ray_dir r) (x, y, z) = pos_coords p" using c(3) st by simp
    have "ray_endx r = x" "ray_sx r \<noteq> 0" using c(1,2) n st by (auto simp: ray_ok_def)
    then have "sight_loop tiles blocks p q r start 0 0 start = Some True"
      using c(1,2) n ex unfolding st
      by (subst sight_loop.simps, subst sight_loop.simps) (simp add: Let_def True ray_ok_def split: prod.split)
    moreover have "ray_points p q = [pos_coords p]"
      by (simp add: ray_points_def n ray_point_def along_def pos_coords_def)
    ultimately show ?thesis using True s by (simp add: checkSightLine_def)
  qed
qed

lemma clear_points_floor:
  assumes "\<And>c. c \<in> set cs \<Longrightarrow> snd (snd c) = z" "snd (snd lastr) = z"
  shows "clear_points tiles blocks p q lastr cs \<longleftrightarrow>
    (\<forall>c \<in> set cs. c \<noteq> pos_coords p \<and> c \<noteq> pos_coords q \<longrightarrow> (\<forall>t. tile_at tiles c = Some t \<longrightarrow> \<not> blocks t))"
  using assms by (induction cs arbitrary: lastr) (auto split: option.splits)

definition ray_free :: "(u16 \<Rightarrow> u16 \<Rightarrow> u16 \<Rightarrow> 't option) \<Rightarrow> ('t \<Rightarrow> bool) \<Rightarrow> position \<Rightarrow> position \<Rightarrow> bool" where
  "ray_free tiles blocks p q \<longleftrightarrow> (\<forall>c \<in> set (ray_points p q). c \<noteq> pos_coords p \<and> c \<noteq> pos_coords q \<longrightarrow>
     (\<forall>t. tile_at tiles c = Some t \<longrightarrow> \<not> blocks t))"

lemma ray_points_floor:
  assumes "pz p = pz q" "c \<in> set (ray_points p q)"
  shows "snd (snd c) = uint (pz p)"
proof -
  have "ray_len p q div (2 * ray_len p q) = 0" using ray_len_0(1) [of p q] by (cases "ray_len p q = 0") auto
  with assms show ?thesis by (auto simp: ray_points_def ray_point_def along_def)
qed

lemma checkSightLine_floor:
  assumes "pz p = pz q"
  shows "checkSightLine tiles blocks p q = Some (ray_free tiles blocks p q)"
proof -
  have "snd (snd (first_last p q)) = uint (pz p)"
    using assms by (simp add: first_last_def setup_ray_def pos_coords_def exchange_def Let_def)
  then show ?thesis
    using clear_points_floor [of "ray_points p q" "uint (pz p)" "first_last p q"] ray_points_floor [OF assms]
    unfolding checkSightLine_digital_line ray_free_def by auto
qed

text \<open>
  On one floor a position is in sight exactly if one of the two rays between the positions, the one
  drawn from the first or the one drawn from the second, meets no tile that blocks projectiles strictly between them;
  so sight is symmetric there, whatever the floor check asks for.
\<close>
theorem sight_on_a_floor:
  assumes "pz p = pz q"
  shows "isSightClear tiles blocks p q floorCheck =
      Some (ray_free tiles blocks p q \<or> ray_free tiles blocks q p) \<and>
    isSightClear tiles blocks q p floorCheck = isSightClear tiles blocks p q floorCheck"
  using assms checkSightLine_floor [of p q tiles blocks] checkSightLine_floor [of q p tiles blocks]
  by (auto simp: isSightClear_def split: bool.split)

definition wall_at :: "u16 \<Rightarrow> u16 \<Rightarrow> u16 \<Rightarrow> u16 \<Rightarrow> bool option" where
  "wall_at wx wy x y = (if x = wx \<and> y = wy then Some True else if x < 200 then Some False else None)"

theorem sight_on_a_floor_witness:
  "isSightClear (\<lambda>x y z. wall_at 102 100 x y) id (Position 100 100 7) (Position 104 100 7) True = Some False \<and>
   isSightClear (\<lambda>x y z. wall_at 102 100 x y) id (Position 104 100 7) (Position 100 100 7) True = Some False"
proof -
  have up: "[0..4] = [0, 1, 2, 3, 4 :: int]" by (simp add: upto_rec1)
  have "\<not> ray_free (\<lambda>x y z. wall_at 102 100 x y) id (Position 100 100 7) (Position 104 100 7)"
    "\<not> ray_free (\<lambda>x y z. wall_at 102 100 x y) id (Position 104 100 7) (Position 100 100 7)"
    by (simp_all add: ray_free_def ray_points_def ray_len_def up ray_point_def along_def pos_coords_def tile_at_def wall_at_def ex_bool_eq)
  then show ?thesis
    using sight_on_a_floor [of "Position 100 100 7" "Position 104 100 7" "\<lambda>x y z. wall_at 102 100 x y" id True] by simp
qed

text \<open>
  Looking straight down two floors from floor 5, the loop should ask for a tile between the floors at the
  position itself. It asks for the tile at the exchanged coordinates instead: column 5 (the floor number of the start),
  floor \<open>min x 6\<close>.
\<close>
theorem first_floor_change_exchanged:
  "checkSightLine tiles blocks (Position x y 5) (Position x y 7) =
    Some ((x = 6 \<or> tiles 5 y (min x 6) = None) \<and> (case tiles x y 6 of Some t \<Rightarrow> \<not> blocks t | None \<Rightarrow> True))"
proof -
  have up: "[0..2] = [0, 1, 2 :: int]" by (simp add: upto_rec1)
  have pts: "ray_points (Position x y 5) (Position x y 7) =
      [(uint x, uint y, 5), (uint x, uint y, 6), (uint x, uint y, 7)]"
    by (simp add: ray_points_def ray_len_def up ray_point_def along_def)
  have fl: "first_last (Position x y 5) (Position x y 7) = (5, uint y, uint x)"
    by (simp add: first_last_def setup_ray_def pos_coords_def exchange_def)
  have m: "word_of_int (min (uint x) 6) = min x 6"
    by (auto simp: min_def word_le_def)
  have six: "uint x = 6 \<longleftrightarrow> x = 6" by (simp add: word_uint_eq_iff)
  show ?thesis
    unfolding checkSightLine_digital_line pts fl
    by (simp add: pos_coords_def tile_at_def m six split: option.split)
qed

text \<open>
  The number of floors between the two positions is never limited: an object can be thrown without a
  sight check over any number of floors above ground, or below ground, as long as the
  distance allows it.
\<close>
theorem throw_ignores_floors:
  assumes "pz p < 8 \<longleftrightarrow> pz q < 8"
  shows "canThrowObjectTo tiles blocks p q False rangex rangey =
    Some (\<bar>uint (px p) - uint (px q)\<bar> - \<bar>uint (pz p) - uint (pz q)\<bar> \<le> rangex \<and>
          \<bar>uint (py p) - uint (py q)\<bar> - \<bar>uint (pz p) - uint (pz q)\<bar> \<le> rangey)"
  using assms by (auto simp: canThrowObjectTo_def Let_def not_less)

theorem throw_ignores_floors_witness:
  "canThrowObjectTo (\<lambda>x y z. wall_at 102 100 x y) id (Position 100 100 0) (Position 107 100 7) False 0 0 = Some True"
  using throw_ignores_floors [of "Position 100 100 0" "Position 107 100 7" "\<lambda>x y z. wall_at 102 100 x y" id 0 0] by simp

end
