(* ===== verification/PathSearch.thy ===== *)
theory PathSearch
  imports Positions
begin

text \<open>
  Path search (\<^verbatim>\<open>Map::getPathTo\<close>, \<^verbatim>\<open>Map::getPathMatching\<close> and the class \<^verbatim>\<open>AStarNodes\<close> in \<^verbatim>\<open>Source/map.cpp\<close>): a best first
  search over at most 512 nodes, kept in an array with one bit per node that says
  whether it is open, each node with a reference to the node it was reached from.

  Whether a creature can walk to a position, and the extra cost of a tile, are parameters (\<^verbatim>\<open>canWalkTo\<close>
  and \<^verbatim>\<open>getTileWalkCost\<close> are modelled over the queries they make). The main facts: both searches end for every map, and a path
  they return leads where it should over positions the creature can walk to.

  The used part of the array is a list that grows; a node that was just created holds no meaningful
  values, and both callers fill it before anything reads it.
\<close>

abbreviation MAX_NODES :: nat where "MAX_NODES \<equiv> 512"
abbreviation MAP_NORMALWALKCOST :: int where "MAP_NORMALWALKCOST \<equiv> 10"
abbreviation MAP_DIAGONALWALKCOST :: int where "MAP_DIAGONALWALKCOST \<equiv> 25"

section \<open>Nodes\<close>

record AStarNode =
  an_x :: int
  an_y :: int
  an_parent :: "nat option"
  an_f :: int
  an_g :: int
  an_h :: int

record AStarNodes =
  as_nodes :: "AStarNode list"
  openNodes :: "bool list"

definition new_AStarNodes :: AStarNodes where
  "new_AStarNodes = \<lparr>as_nodes = [], openNodes = []\<rparr>"

definition createOpenNode :: "AStarNodes \<Rightarrow> (nat \<times> AStarNodes) option" where
  "createOpenNode ns =
     (if length (as_nodes ns) \<ge> MAX_NODES then None
      else Some (length (as_nodes ns),
        ns\<lparr>as_nodes := as_nodes ns @ [\<lparr>an_x = 0, an_y = 0, an_parent = None, an_f = 0, an_g = 0, an_h = 0\<rparr>],
           openNodes := openNodes ns @ [True]\<rparr>))"

fun best_from :: "nat \<Rightarrow> AStarNode list \<Rightarrow> bool list \<Rightarrow> int \<Rightarrow> nat option \<Rightarrow> nat option" where
  "best_from i (n # ns) (b # bs) best_node_f best =
     (if an_f n < best_node_f \<and> b then best_from (i + 1) ns bs (an_f n) (Some i)
      else best_from (i + 1) ns bs best_node_f best)"
| "best_from i ns bs best_node_f best = best"

definition getBestNode :: "AStarNodes \<Rightarrow> nat option" where
  "getBestNode ns = best_from 0 (as_nodes ns) (openNodes ns) 100000 None"

definition closeNode :: "nat \<Rightarrow> AStarNodes \<Rightarrow> AStarNodes" where
  "closeNode i ns = ns\<lparr>openNodes := (openNodes ns)[i := False]\<rparr>"

definition openNode :: "nat \<Rightarrow> AStarNodes \<Rightarrow> AStarNodes" where
  "openNode i ns = ns\<lparr>openNodes := (openNodes ns)[i := True]\<rparr>"

definition countClosedNodes :: "AStarNodes \<Rightarrow> nat" where
  "countClosedNodes ns = length (filter Not (openNodes ns))"

definition countOpenNodes :: "AStarNodes \<Rightarrow> nat" where
  "countOpenNodes ns = length (filter id (openNodes ns))"

fun node_index :: "nat \<Rightarrow> int \<Rightarrow> int \<Rightarrow> AStarNode list \<Rightarrow> nat option" where
  "node_index i x y [] = None"
| "node_index i x y (n # ns) = (if an_x n = x \<and> an_y n = y then Some i else node_index (i + 1) x y ns)"

definition getNodeInList :: "int \<Rightarrow> int \<Rightarrow> AStarNodes \<Rightarrow> nat option" where
  "getNodeInList x y ns = node_index 0 x y (as_nodes ns)"

definition isInList :: "int \<Rightarrow> int \<Rightarrow> AStarNodes \<Rightarrow> bool" where
  "isInList x y ns = (\<exists>n \<in> set (as_nodes ns). an_x n = x \<and> an_y n = y)"

definition getMapWalkCost :: "AStarNode \<Rightarrow> position \<Rightarrow> int" where
  "getMapWalkCost n p =
     (if \<bar>an_x n - uint (px p)\<bar> = \<bar>an_y n - uint (py p)\<bar> then MAP_DIAGONALWALKCOST else MAP_NORMALWALKCOST)"

text \<open>A tile with creatures, and one with a field the creature is not immune to, cost three steps more.\<close>

definition getTileWalkCost :: "('t \<Rightarrow> bool) \<Rightarrow> ('t \<Rightarrow> bool) \<Rightarrow> 't \<Rightarrow> int" where
  "getTileWalkCost has_creatures harmful_field tile =
     (if has_creatures tile then MAP_NORMALWALKCOST * 3 else 0) +
     (if harmful_field tile then MAP_NORMALWALKCOST * 3 else 0)"

definition getEstimatedDistance :: "int \<Rightarrow> int \<Rightarrow> int \<Rightarrow> int \<Rightarrow> int" where
  "getEstimatedDistance x y xGoal yGoal =
     (let h_diagonal = min \<bar>x - xGoal\<bar> \<bar>y - yGoal\<bar>;
          h_straight = \<bar>x - xGoal\<bar> + \<bar>y - yGoal\<bar>
      in MAP_DIAGONALWALKCOST * h_diagonal + MAP_NORMALWALKCOST * (h_straight - 2 * h_diagonal))"

text \<open>\<^verbatim>\<open>Map::canWalkTo\<close>: the walk cache of the creature (0 no, 1 yes, else unknown), the tile of a position, the creature's
  own tile, and the query whether the tile takes the creature.\<close>

definition canWalkTo :: "(position \<Rightarrow> int) \<Rightarrow> (position \<Rightarrow> 't option) \<Rightarrow> 't option \<Rightarrow> ('t \<Rightarrow> bool) \<Rightarrow> position \<Rightarrow> 't option" where
  "canWalkTo walkCache tile_of own_tile queryAdd p =
     (if walkCache p = 0 then None
      else if walkCache p = 1 then tile_of p
      else
        let tile = tile_of p in
        if own_tile \<noteq> tile then
          (case tile of None \<Rightarrow> None | Some t \<Rightarrow> if \<not> queryAdd t then None else tile)
        else tile)"

section \<open>Directions\<close>

fun getNextPosition :: "Direction \<Rightarrow> position \<Rightarrow> position" where
  "getNextPosition NORTH (Position x y z) = Position x (y - 1) z"
| "getNextPosition SOUTH (Position x y z) = Position x (y + 1) z"
| "getNextPosition WEST (Position x y z) = Position (x - 1) y z"
| "getNextPosition EAST (Position x y z) = Position (x + 1) y z"
| "getNextPosition SOUTHWEST (Position x y z) = Position (x - 1) (y + 1) z"
| "getNextPosition NORTHWEST (Position x y z) = Position (x - 1) (y - 1) z"
| "getNextPosition SOUTHEAST (Position x y z) = Position (x + 1) (y + 1) z"
| "getNextPosition NORTHEAST (Position x y z) = Position (x + 1) (y - 1) z"

text \<open>The direction a difference of coordinates stands for; none if the positions are not adjacent in the map.\<close>

definition delta_direction :: "int \<Rightarrow> int \<Rightarrow> Direction option" where
  "delta_direction dx dy =
     (if dx = - 1 \<and> dy = - 1 then Some NORTHWEST
      else if dx = 1 \<and> dy = - 1 then Some NORTHEAST
      else if dx = - 1 \<and> dy = 1 then Some SOUTHWEST
      else if dx = 1 \<and> dy = 1 then Some SOUTHEAST
      else if dx = - 1 then Some WEST
      else if dx = 1 then Some EAST
      else if dy = - 1 then Some NORTH
      else if dy = 1 then Some SOUTH
      else None)"

definition neighbourOrderList :: "(int \<times> int) list" where
  "neighbourOrderList = [(- 1, 0), (0, 1), (1, 0), (0, - 1), (- 1, - 1), (1, - 1), (1, 1), (- 1, 1)]"

definition neighbour_pos :: "u16 \<Rightarrow> AStarNode \<Rightarrow> int \<times> int \<Rightarrow> position" where
  "neighbour_pos z n d = Position (word_of_int (an_x n + fst d)) (word_of_int (an_y n + snd d)) z"

section \<open>The search for a position\<close>

text \<open>
  The part the two searches have in common: a neighbour that is not in the list gets a new node; one that
  is there is opened again, unless it is already at least as cheap. The node is then filled. \<open>None\<close> if the nodes ran out.
\<close>

definition relax_node :: "(AStarNode \<Rightarrow> int) \<Rightarrow> (AStarNode \<Rightarrow> AStarNode) \<Rightarrow> int \<Rightarrow> position \<Rightarrow> AStarNodes \<Rightarrow> AStarNodes option" where
  "relax_node key fill newkey p ns =
     (case getNodeInList (uint (px p)) (uint (py p)) ns of
        Some j \<Rightarrow>
          if key (as_nodes ns ! j) \<le> newkey then Some ns
          else Some ((openNode j ns)\<lparr>as_nodes := (as_nodes ns)[j := fill (as_nodes ns ! j)]\<rparr>)
      | None \<Rightarrow>
          (case createOpenNode ns of
             None \<Rightarrow> None
           | Some (j, ns1) \<Rightarrow> Some (ns1\<lparr>as_nodes := (as_nodes ns1)[j := fill (as_nodes ns1 ! j)]\<rparr>)))"

definition fill_to :: "nat \<Rightarrow> position \<Rightarrow> int \<Rightarrow> position \<Rightarrow> AStarNode \<Rightarrow> AStarNode" where
  "fill_to n p newg endPos node =
     (let h = getEstimatedDistance (uint (px p)) (uint (py p)) (uint (px endPos)) (uint (py endPos))
      in \<lparr>an_x = uint (px p), an_y = uint (py p), an_parent = Some n, an_f = newg + h, an_g = newg, an_h = h\<rparr>)"

text \<open>One neighbour of the node \<open>n\<close>: skipped, or (re)opened with \<open>n\<close> as its parent.\<close>

definition visit_to :: "(position \<Rightarrow> 't option) \<Rightarrow> ('t \<Rightarrow> bool) \<Rightarrow> ('t \<Rightarrow> bool) \<Rightarrow> position \<Rightarrow> int \<Rightarrow> nat \<Rightarrow> int \<times> int \<Rightarrow> AStarNodes \<Rightarrow> AStarNodes option" where
  "visit_to walk hc hf endPos maxSearchDist n d ns =
     (let node = as_nodes ns ! n;
          p = neighbour_pos (pz endPos) node d;
          outOfRange = (maxSearchDist \<noteq> - 1 \<and> (\<bar>uint (px endPos) - uint (px p)\<bar> > maxSearchDist
                                               \<or> \<bar>uint (py endPos) - uint (py p)\<bar> > maxSearchDist))
      in if outOfRange then Some ns
         else case walk p of
             None \<Rightarrow> Some ns
           | Some tile \<Rightarrow>
               (let newg = an_g node + (getMapWalkCost node p + getTileWalkCost hc hf tile)
                in relax_node an_g (fill_to n p newg endPos) newg p ns))"

text \<open>The neighbours in order; the first component is false if the nodes ran out, and then the rest is left out.\<close>

fun visit_all :: "(int \<times> int \<Rightarrow> AStarNodes \<Rightarrow> AStarNodes option) \<Rightarrow> (int \<times> int) list \<Rightarrow> AStarNodes \<Rightarrow> bool \<times> AStarNodes" where
  "visit_all visit [] ns = (True, ns)"
| "visit_all visit (d # ds) ns = (case visit d ns of None \<Rightarrow> (False, ns) | Some ns1 \<Rightarrow> visit_all visit ds ns1)"

text \<open>The main loop; the result is the node found, or \<open>None\<close> when the search gave up (no open node, no free node, or
  a hundred closed nodes without a distance limit). In all three cases the list is empty and the result false.\<close>

partial_function (option) search_to :: "(position \<Rightarrow> 't option) \<Rightarrow> ('t \<Rightarrow> bool) \<Rightarrow> ('t \<Rightarrow> bool) \<Rightarrow> position \<Rightarrow> int \<Rightarrow> AStarNodes \<Rightarrow> (nat option \<times> AStarNodes) option" where
  "search_to walk hc hf endPos maxSearchDist ns =
     (if maxSearchDist \<noteq> - 1 \<or> countClosedNodes ns < 100 then
        (case getBestNode ns of
           None \<Rightarrow> Some (None, ns)
         | Some n \<Rightarrow>
             if an_x (as_nodes ns ! n) = uint (px endPos) \<and> an_y (as_nodes ns ! n) = uint (py endPos)
             then Some (Some n, ns)
             else (case visit_all (visit_to walk hc hf endPos maxSearchDist n) neighbourOrderList ns of
                     (complete, ns1) \<Rightarrow>
                       if \<not> complete then Some (None, ns1)
                       else search_to walk hc hf endPos maxSearchDist (closeNode n ns1)))
      else Some (None, ns))"

partial_function (option) collect_to :: "AStarNode list \<Rightarrow> nat option \<Rightarrow> int \<Rightarrow> int \<Rightarrow> Direction list \<Rightarrow> Direction list option" where
  "collect_to nodes found prevx prevy listDir =
     (case found of
        None \<Rightarrow> Some listDir
      | Some i \<Rightarrow>
          (let x = uint (word_of_int (an_x (nodes ! i)) :: u16); y = uint (word_of_int (an_y (nodes ! i)) :: u16)
           in collect_to nodes (an_parent (nodes ! i)) x y
                (listDir @ (case delta_direction (x - prevx) (y - prevy) of Some d \<Rightarrow> [d] | None \<Rightarrow> []))))"

definition getPathTo :: "(position \<Rightarrow> 't option) \<Rightarrow> ('t \<Rightarrow> bool) \<Rightarrow> ('t \<Rightarrow> bool) \<Rightarrow> position \<Rightarrow> position \<Rightarrow> Direction list \<Rightarrow> int \<Rightarrow> (bool \<times> Direction list) option" where
  "getPathTo walk hc hf creaturePos destPos listDir maxSearchDist =
     (if walk destPos = None then Some (False, listDir)
      else if pz destPos \<noteq> pz creaturePos then Some (False, [])
      else
        let startPos = destPos; endPos = creaturePos;
            h = getEstimatedDistance (uint (px startPos)) (uint (py startPos)) (uint (px endPos)) (uint (py endPos));
            startNode = \<lparr>an_x = uint (px startPos), an_y = uint (py startPos), an_parent = None, an_f = 0 + h, an_g = 0, an_h = h\<rparr>
        in case search_to walk hc hf endPos maxSearchDist \<lparr>as_nodes = [startNode], openNodes = [True]\<rparr> of
             None \<Rightarrow> None
           | Some (found, ns) \<Rightarrow>
               (case collect_to (as_nodes ns) found (uint (px endPos)) (uint (py endPos)) [] of
                  None \<Rightarrow> None
                | Some dirs \<Rightarrow> Some (dirs \<noteq> [], dirs)))"

section \<open>The search for a position that satisfies a condition\<close>

record FindPathParams =
  fullPathSearch :: bool
  clearSight :: bool
  allowDiagonal :: bool
  keepDistance :: bool
  fpp_maxSearchDist :: int
  minTargetDist :: int
  maxTargetDist :: int

definition new_FindPathParams :: FindPathParams where
  "new_FindPathParams = \<lparr>fullPathSearch = True, clearSight = True, allowDiagonal = True, keepDistance = False,
     fpp_maxSearchDist = - 1, minTargetDist = - 1, maxTargetDist = - 1\<rparr>"

definition isInRange :: "position \<Rightarrow> position \<Rightarrow> position \<Rightarrow> FindPathParams \<Rightarrow> bool" where
  "isInRange targetPos startPos testPos fpp =
     (let tx = uint (px targetPos); ty = uint (py targetPos); sx = uint (px startPos); sy = uint (py startPos);
          dxMin = (if fullPathSearch fpp \<or> sx - tx \<le> 0 then maxTargetDist fpp else 0);
          dxMax = (if fullPathSearch fpp \<or> sx - tx \<ge> 0 then maxTargetDist fpp else 0);
          dyMin = (if fullPathSearch fpp \<or> sy - ty \<le> 0 then maxTargetDist fpp else 0);
          dyMax = (if fullPathSearch fpp \<or> sy - ty \<ge> 0 then maxTargetDist fpp else 0)
      in if uint (px testPos) > tx + dxMax \<or> uint (px testPos) < tx - dxMin then False
         else if uint (py testPos) > ty + dyMax \<or> uint (py testPos) < ty - dyMin then False
         else True)"

text \<open>The condition; the second component is \<^verbatim>\<open>bestMatchDist\<close> after the call. \<open>clear\<close> is \<^verbatim>\<open>isSightClear\<close>.\<close>

definition pathCondition :: "(position \<Rightarrow> position \<Rightarrow> bool) \<Rightarrow> position \<Rightarrow> FindPathParams \<Rightarrow> position \<Rightarrow> position \<Rightarrow> int \<Rightarrow> bool \<times> int" where
  "pathCondition clear targetPos fpp startPos testPos bestMatchDist =
     (if \<not> isInRange targetPos startPos testPos fpp then (False, bestMatchDist)
      else if clearSight fpp \<and> \<not> clear testPos targetPos then (False, bestMatchDist)
      else
        let testDist = max \<bar>uint (px targetPos) - uint (px testPos)\<bar> \<bar>uint (py targetPos) - uint (py testPos)\<bar>
        in if maxTargetDist fpp = 1 then
             (if testDist < minTargetDist fpp \<or> testDist > maxTargetDist fpp then (False, bestMatchDist)
              else (True, bestMatchDist))
           else if testDist \<le> maxTargetDist fpp then
             (if testDist < minTargetDist fpp then (False, bestMatchDist)
              else if testDist = maxTargetDist fpp then (True, 0)
              else if testDist > bestMatchDist then (True, testDist)
              else (False, bestMatchDist))
           else (False, bestMatchDist))"

definition fill_match :: "nat \<Rightarrow> position \<Rightarrow> int \<Rightarrow> AStarNode \<Rightarrow> AStarNode" where
  "fill_match n p newf node =
     node\<lparr>an_x := uint (px p), an_y := uint (py p), an_parent := Some n, an_f := newf\<rparr>"

definition visit_match :: "(position \<Rightarrow> 't option) \<Rightarrow> ('t \<Rightarrow> bool) \<Rightarrow> ('t \<Rightarrow> bool) \<Rightarrow> (position \<Rightarrow> bool) \<Rightarrow> FindPathParams \<Rightarrow> position \<Rightarrow> nat \<Rightarrow>
    int \<times> int \<Rightarrow> AStarNodes \<Rightarrow> AStarNodes option" where
  "visit_match walk hc hf near fpp startPos n d ns =
     (let node = as_nodes ns ! n;
          p = neighbour_pos (pz startPos) node d;
          inRange = (if fpp_maxSearchDist fpp \<noteq> - 1 \<and> (\<bar>uint (px startPos) - uint (px p)\<bar> > fpp_maxSearchDist fpp
                          \<or> \<bar>uint (py startPos) - uint (py p)\<bar> > fpp_maxSearchDist fpp) then False
                     else if keepDistance fpp \<and> \<not> near p then False else True)
      in if \<not> inRange then Some ns
         else case walk p of
             None \<Rightarrow> Some ns
           | Some tile \<Rightarrow>
               (let newf = an_f node + (getMapWalkCost node p + getTileWalkCost hc hf tile)
                in relax_node an_f (fill_match n p newf) newf p ns))"

text \<open>The loop carries the node found so far and the best match. The result is \<open>None\<close> in the first component when the function
  returns false with an empty list.\<close>

partial_function (option) search_match :: "(position \<Rightarrow> 't option) \<Rightarrow> ('t \<Rightarrow> bool) \<Rightarrow> ('t \<Rightarrow> bool) \<Rightarrow> (position \<Rightarrow> int \<Rightarrow> bool \<times> int) \<Rightarrow> (position \<Rightarrow> bool) \<Rightarrow>
    FindPathParams \<Rightarrow> position \<Rightarrow> nat option \<Rightarrow> int \<Rightarrow> AStarNodes \<Rightarrow> (nat option \<times> AStarNodes) option" where
  "search_match walk hc hf cond near fpp startPos found bestMatch ns =
     (if fpp_maxSearchDist fpp \<noteq> - 1 \<or> countClosedNodes ns < 100 then
        (case getBestNode ns of
           None \<Rightarrow> Some (found, ns)
         | Some n \<Rightarrow>
             (let (matches, bestMatch1) = cond (Position (word_of_int (an_x (as_nodes ns ! n)))
                                                (word_of_int (an_y (as_nodes ns ! n))) (pz startPos)) bestMatch;
                  found1 = (if matches then Some n else found)
              in if matches \<and> bestMatch1 = 0 then Some (found1, ns)
                 else
                   (case visit_all (visit_match walk hc hf near fpp startPos n)
                           (if allowDiagonal fpp then neighbourOrderList else take 4 neighbourOrderList) ns of
                      (complete, ns1) \<Rightarrow>
                        if \<not> complete \<and> found1 = None then Some (None, ns1)
                        else search_match walk hc hf cond near fpp startPos found1 bestMatch1 (closeNode n ns1))))
      else Some (found, ns))"

partial_function (option) collect_match :: "AStarNode list \<Rightarrow> nat option \<Rightarrow> int \<Rightarrow> int \<Rightarrow> Direction list \<Rightarrow> Direction list option" where
  "collect_match nodes found prevx prevy dirList =
     (case found of
        None \<Rightarrow> Some dirList
      | Some i \<Rightarrow>
          (let x = uint (word_of_int (an_x (nodes ! i)) :: u16); y = uint (word_of_int (an_y (nodes ! i)) :: u16)
           in collect_match nodes (an_parent (nodes ! i)) x y
                ((case delta_direction (prevx - x) (prevy - y) of Some d \<Rightarrow> [d] | None \<Rightarrow> []) @ dirList)))"

text \<open>\<^verbatim>\<open>endPos\<close> is the position of the node found, which no longer changes.\<close>

definition getPathMatching :: "(position \<Rightarrow> 't option) \<Rightarrow> ('t \<Rightarrow> bool) \<Rightarrow> ('t \<Rightarrow> bool) \<Rightarrow> (position \<Rightarrow> position \<Rightarrow> bool) \<Rightarrow> position \<Rightarrow> position \<Rightarrow>
    FindPathParams \<Rightarrow> (bool \<times> Direction list) option" where
  "getPathMatching walk hc hf clear creaturePos targetPos fpp =
     (let startPos = creaturePos;
          startNode = \<lparr>an_x = uint (px startPos), an_y = uint (py startPos), an_parent = None, an_f = 0, an_g = 0, an_h = 0\<rparr>
      in case search_match walk hc hf (pathCondition clear targetPos fpp startPos)
                (\<lambda>p. isInRange targetPos startPos p fpp) fpp startPos None 0 \<lparr>as_nodes = [startNode], openNodes = [True]\<rparr> of
           None \<Rightarrow> None
         | Some (None, ns) \<Rightarrow> Some (False, [])
         | Some (Some i, ns) \<Rightarrow>
             map_option (Pair True)
               (collect_match (as_nodes ns) (an_parent (as_nodes ns ! i))
                  (uint (word_of_int (an_x (as_nodes ns ! i)) :: u16)) (uint (word_of_int (an_y (as_nodes ns ! i)) :: u16)) []))"

section \<open>The search tree\<close>

definition xy :: "AStarNode \<Rightarrow> int \<times> int" where
  "xy n = (an_x n, an_y n)"

definition node_pos :: "u16 \<Rightarrow> AStarNode \<Rightarrow> position" where
  "node_pos z n = Position (word_of_int (an_x n)) (word_of_int (an_y n)) z"

text \<open>A node was reached from a cheaper one, one step away, and the creature can walk to it.\<close>

definition reached :: "(AStarNode \<Rightarrow> int) \<Rightarrow> (position \<Rightarrow> bool) \<Rightarrow> u16 \<Rightarrow> AStarNode list \<Rightarrow> nat \<Rightarrow> bool" where
  "reached key ok z nodes i \<longleftrightarrow> (\<exists>j < length nodes. an_parent (nodes ! i) = Some j \<and>
     key (nodes ! j) + 10 \<le> key (nodes ! i) \<and>
     (\<exists>d \<in> set neighbourOrderList. node_pos z (nodes ! i) = neighbour_pos z (nodes ! j) d) \<and> ok (node_pos z (nodes ! i)))"

definition tree_inv :: "(AStarNode \<Rightarrow> int) \<Rightarrow> (position \<Rightarrow> bool) \<Rightarrow> position \<Rightarrow> AStarNodes \<Rightarrow> bool" where
  "tree_inv key ok start ns \<longleftrightarrow>
     0 < length (as_nodes ns) \<and> length (as_nodes ns) \<le> 512 \<and> length (openNodes ns) = length (as_nodes ns) \<and>
     distinct (map xy (as_nodes ns)) \<and>
     (\<forall>n \<in> set (as_nodes ns). 0 \<le> key n \<and> (\<exists>p :: position. xy n = (uint (px p), uint (py p)))) \<and>
     xy (as_nodes ns ! 0) = (uint (px start), uint (py start)) \<and> an_parent (as_nodes ns ! 0) = None \<and>
     key (as_nodes ns ! 0) = 0 \<and>
     (\<forall>i. 0 < i \<and> i < length (as_nodes ns) \<longrightarrow> reached key ok (pz start) (as_nodes ns) i)"

definition advances :: "(AStarNode \<Rightarrow> int) \<Rightarrow> AStarNodes \<Rightarrow> AStarNodes \<Rightarrow> bool" where
  "advances key ns ns' \<longleftrightarrow> length (as_nodes ns) \<le> length (as_nodes ns') \<and>
     (\<forall>i < length (as_nodes ns). xy (as_nodes ns' ! i) = xy (as_nodes ns ! i)) \<and>
     (ns' = ns \<or> length (as_nodes ns) < length (as_nodes ns') \<or>
      length (as_nodes ns) = length (as_nodes ns') \<and> (\<Sum>n\<leftarrow>as_nodes ns'. key n) < (\<Sum>n\<leftarrow>as_nodes ns. key n))"

lemma advances_refl [simp]: "advances key ns ns"
  by (simp add: advances_def)

lemma advances_trans: "advances key a b \<Longrightarrow> advances key b c \<Longrightarrow> advances key a c"
proof -
  assume ab: "advances key a b" and bc: "advances key b c"
  have len: "length (as_nodes a) \<le> length (as_nodes b)" "length (as_nodes b) \<le> length (as_nodes c)"
    using ab bc by (simp_all add: advances_def)
  have "xy (as_nodes c ! i) = xy (as_nodes a ! i)" if "i < length (as_nodes a)" for i
    using ab bc that len(1) by (simp add: advances_def)
  moreover have "c = a \<or> length (as_nodes a) < length (as_nodes c) \<or>
      length (as_nodes a) = length (as_nodes c) \<and> (\<Sum>n\<leftarrow>as_nodes c. key n) < (\<Sum>n\<leftarrow>as_nodes a. key n)"
  proof -
    consider "b = a" | "c = b" | "length (as_nodes a) < length (as_nodes c)"
      | "length (as_nodes a) = length (as_nodes b)" "length (as_nodes b) = length (as_nodes c)"
        "(\<Sum>n\<leftarrow>as_nodes b. key n) < (\<Sum>n\<leftarrow>as_nodes a. key n)" "(\<Sum>n\<leftarrow>as_nodes c. key n) < (\<Sum>n\<leftarrow>as_nodes b. key n)"
      using ab bc len unfolding advances_def by linarith
    then show ?thesis
    proof cases
      case 1
      then show ?thesis using bc by (simp add: advances_def)
    next
      case 2
      then show ?thesis using ab by (simp add: advances_def)
    next
      case 3
      then show ?thesis by blast
    next
      case 4
      then show ?thesis by linarith
    qed
  qed
  ultimately show ?thesis using len unfolding advances_def by simp
qed

lemma node_index_Some: "node_index i x y ns = Some j \<Longrightarrow> i \<le> j \<and> j - i < length ns \<and> xy (ns ! (j - i)) = (x, y)"
proof (induction ns arbitrary: i)
  case (Cons n ns)
  show ?case
  proof (cases "an_x n = x \<and> an_y n = y")
    case False
    with Cons have "i + 1 \<le> j \<and> j - (i + 1) < length ns \<and> xy (ns ! (j - (i + 1))) = (x, y)"
      by (intro Cons.IH) simp
    then show ?thesis by (auto simp: nth_Cons' )
  qed (use Cons.prems in \<open>auto simp: xy_def\<close>)
qed simp

lemma node_index_None: "node_index i x y ns = None \<Longrightarrow> n \<in> set ns \<Longrightarrow> xy n \<noteq> (x, y)"
  by (induction ns arbitrary: i) (auto simp: xy_def split: if_splits)

lemma best_from_Some:
  "best_from i ns bs f best = Some k \<Longrightarrow>
   best = Some k \<or> (i \<le> k \<and> k - i < length ns \<and> k - i < length bs \<and> bs ! (k - i))"
proof (induction i ns bs f best rule: best_from.induct)
  case (1 i n ns b bs f best)
  show ?case
  proof (cases "an_f n < f \<and> b")
    case True
    with 1 have "Some i = Some k \<or> (i + 1 \<le> k \<and> k - (i + 1) < length ns \<and> k - (i + 1) < length bs \<and> bs ! (k - (i + 1)))"
      by (intro 1(1)) simp_all
    with True show ?thesis by (auto simp: nth_Cons')
  next
    case False
    with 1 have "best = Some k \<or> (i + 1 \<le> k \<and> k - (i + 1) < length ns \<and> k - (i + 1) < length bs \<and> bs ! (k - (i + 1)))"
      by (intro 1(2)) auto
    then show ?thesis by (auto simp: nth_Cons')
  qed
qed simp_all

lemma getBestNode_open: "getBestNode ns = Some n \<Longrightarrow> n < length (as_nodes ns) \<and> n < length (openNodes ns) \<and> openNodes ns ! n"
  unfolding getBestNode_def by (drule best_from_Some) auto

lemma neighbour_pos_xy: "xy n = xy m \<Longrightarrow> neighbour_pos z n d = neighbour_pos z m d"
  by (simp add: xy_def neighbour_pos_def)

lemma node_pos_xy: "xy n = xy m \<Longrightarrow> node_pos z n = node_pos z m"
  by (simp add: xy_def node_pos_def)

lemma node_pos_uint: "xy n = (uint (px p), uint (py p)) \<Longrightarrow> node_pos (pz p) n = p"
  by (cases p) (simp add: xy_def node_pos_def)

lemma sum_list_update_less:
  fixes key :: "'n \<Rightarrow> int"
  shows "i < length xs \<Longrightarrow> key m < key (xs ! i) \<Longrightarrow> (\<Sum>n\<leftarrow>xs[i := m]. key n) < (\<Sum>n\<leftarrow>xs. key n)"
proof (induction xs arbitrary: i)
  case (Cons x xs)
  then show ?case by (cases i) auto
qed simp

lemma reached_mono:
  assumes "reached key ok z nodes i" "i < length nodes" "length nodes \<le> length nodes'"
    "nodes' ! i = nodes ! i"
    "\<And>k. k < length nodes \<Longrightarrow> xy (nodes' ! k) = xy (nodes ! k) \<and> key (nodes' ! k) \<le> key (nodes ! k)"
  shows "reached key ok z nodes' i"
proof -
  obtain j d where j: "j < length nodes" "an_parent (nodes ! i) = Some j" "key (nodes ! j) + 10 \<le> key (nodes ! i)"
    "d \<in> set neighbourOrderList" "node_pos z (nodes ! i) = neighbour_pos z (nodes ! j) d" "ok (node_pos z (nodes ! i))"
    using assms(1) unfolding reached_def by blast
  have "neighbour_pos z (nodes' ! j) d = neighbour_pos z (nodes ! j) d"
    using assms(5) [OF j(1)] by (intro neighbour_pos_xy) simp
  with j assms(3,4) assms(5) [OF j(1)] show ?thesis
    unfolding reached_def by (intro exI [of _ j]) (auto intro!: bexI [of _ d])
qed

lemma reached_from:
  assumes "n < length nodes" "i < length nodes" "an_parent (nodes ! i) = Some n"
    "key (nodes ! i) = key (nodes ! n) + c" "10 \<le> c"
    "xy (nodes ! i) = (uint (px p), uint (py p))" "p = neighbour_pos z (nodes ! n) d" "d \<in> set neighbourOrderList" "ok p"
  shows "reached key ok z nodes i"
proof -
  have "pz p = z" using assms(7) by (simp add: neighbour_pos_def)
  with node_pos_uint [OF assms(6)] have "node_pos z (nodes ! i) = p" by simp
  with assms show ?thesis unfolding reached_def by (intro exI [of _ n]) auto
qed

lemma tree_inv_relax:
  assumes inv: "tree_inv key ok start ns" and n: "n < length (as_nodes ns)" and j: "j < length (as_nodes ns)"
    and p: "p = neighbour_pos (pz start) (as_nodes ns ! n) d" "d \<in> set neighbourOrderList" "ok p"
    and m: "an_parent m = Some n" "xy m = (uint (px p), uint (py p))" "key m = key (as_nodes ns ! n) + c" "10 \<le> c"
    and jm: "xy (as_nodes ns ! j) = (uint (px p), uint (py p))" "key m < key (as_nodes ns ! j)"
    and ns': "as_nodes ns' = (as_nodes ns)[j := m]" "length (openNodes ns') = length (as_nodes ns)"
  shows "tree_inv key ok start ns' \<and> advances key ns ns'"
proof -
  let ?N = "as_nodes ns" and ?N' = "(as_nodes ns)[j := m]"
  have key0: "0 \<le> key (?N ! i)" if "i < length ?N" for i
    using inv that unfolding tree_inv_def by (metis nth_mem)
  have keym: "0 < key m" using key0 [OF n] m by simp
  have j0: "j \<noteq> 0" using inv jm(2) keym unfolding tree_inv_def by (metis less_asym)
  have nj: "n \<noteq> j" using jm(2) m by auto
  have xys: "xy (?N' ! k) = xy (?N ! k)" if "k < length ?N" for k
    using that m(2) jm(1) j by (auto simp: nth_list_update)
  have keys: "key (?N' ! k) \<le> key (?N ! k)" if "k < length ?N" for k
    using that jm(2) j by (auto simp: nth_list_update)
  have maps: "map xy ?N' = map xy ?N"
    by (rule nth_equalityI) (auto simp: xys)
  have "reached key ok (pz start) ?N' i" if i: "0 < i" "i < length ?N" for i
  proof (cases "i = j")
    case False
    have "reached key ok (pz start) ?N i" using inv i unfolding tree_inv_def by blast
    moreover have "?N' ! i = ?N ! i" using False by simp
    ultimately show ?thesis using i(2) xys keys reached_mono [of key ok "pz start" ?N i ?N'] by simp
  next
    case True
    have at: "?N' ! j = m" "?N' ! n = ?N ! n" "n < length ?N'" "j < length ?N'" using n nj j by simp_all
    show ?thesis
      unfolding True
      by (rule reached_from [where key = key and ok = ok and c = c, OF at(3,4), unfolded at, OF m(1,3,4,2) p])
  qed
  moreover have "\<forall>x \<in> set ?N'. 0 \<le> key x \<and> (\<exists>p :: position. xy x = (uint (px p), uint (py p)))"
    using inv keym m(2) unfolding tree_inv_def
    by (auto dest!: set_update_subset_insert [THEN subsetD])
  ultimately have "tree_inv key ok start ns'"
    using inv ns' j0 maps unfolding tree_inv_def by simp
  moreover have "advances key ns ns'"
    using ns' xys sum_list_update_less [OF j jm(2)] by (simp add: advances_def)
  ultimately show ?thesis by blast
qed

lemma tree_inv_extend:
  assumes inv: "tree_inv key ok start ns" and n: "n < length (as_nodes ns)" and room: "length (as_nodes ns) < 512"
    and p: "p = neighbour_pos (pz start) (as_nodes ns ! n) d" "d \<in> set neighbourOrderList" "ok p"
    and m: "an_parent m = Some n" "xy m = (uint (px p), uint (py p))" "key m = key (as_nodes ns ! n) + c" "10 \<le> c"
    and new: "\<And>x. x \<in> set (as_nodes ns) \<Longrightarrow> xy x \<noteq> (uint (px p), uint (py p))"
    and ns': "as_nodes ns' = as_nodes ns @ [m]" "length (openNodes ns') = length (as_nodes ns) + 1"
  shows "tree_inv key ok start ns' \<and> advances key ns ns'"
proof -
  let ?N = "as_nodes ns" and ?N' = "as_nodes ns @ [m]"
  have key0: "0 \<le> key (?N ! n)" using inv n unfolding tree_inv_def by (metis nth_mem)
  have "reached key ok (pz start) ?N' i" if i: "0 < i" "i < length ?N'" for i
  proof (cases "i = length ?N")
    case False
    then have il: "i < length ?N" using i by simp
    have "reached key ok (pz start) ?N i" using inv i il unfolding tree_inv_def by blast
    then show ?thesis
      by (rule reached_mono) (use il in \<open>simp_all add: nth_append\<close>)
  next
    case True
    have at: "?N' ! length ?N = m" "?N' ! n = ?N ! n" "n < length ?N'" "length ?N < length ?N'"
      using n by (simp_all add: nth_append)
    show ?thesis
      unfolding True
      by (rule reached_from [where key = key and ok = ok and c = c, OF at(3,4), unfolded at, OF m(1,3,4,2) p])
  qed
  moreover have "distinct (map xy ?N')" using inv new m(2) unfolding tree_inv_def by auto
  ultimately have "tree_inv key ok start ns'"
    using inv ns' room m key0 unfolding tree_inv_def by (auto simp: nth_append)
  moreover have "advances key ns ns'" using ns' by (simp add: advances_def nth_append)
  ultimately show ?thesis by blast
qed

section \<open>What both searches share\<close>

lemma filter_close: "i < length bs \<Longrightarrow> bs ! i \<Longrightarrow> length (filter id (bs[i := False])) < length (filter id bs)"
proof (induction bs arbitrary: i)
  case (Cons b bs)
  then show ?case by (cases i) auto
qed simp

text \<open>
  The contract of a neighbour step: from an open node of a well-formed tree it leaves a well-formed tree that is the
  same, has more nodes, or has a node with a smaller key.
\<close>

locale node_search =
  fixes key :: "AStarNode \<Rightarrow> int"
    and ok :: "position \<Rightarrow> bool"
    and start :: position
    and visit :: "nat \<Rightarrow> int \<times> int \<Rightarrow> AStarNodes \<Rightarrow> AStarNodes option"
  assumes visit_ok: "tree_inv key ok start ns \<Longrightarrow> n < length (as_nodes ns) \<Longrightarrow> d \<in> set neighbourOrderList \<Longrightarrow>
    visit n d ns = Some ns' \<Longrightarrow> tree_inv key ok start ns' \<and> advances key ns ns'"
begin

lemma visit_all_ok:
  "tree_inv key ok start ns \<Longrightarrow> n < length (as_nodes ns) \<Longrightarrow> set ds \<subseteq> set neighbourOrderList \<Longrightarrow>
   visit_all (visit n) ds ns = (b, ns') \<Longrightarrow> tree_inv key ok start ns' \<and> advances key ns ns'"
proof (induction ds arbitrary: ns)
  case (Cons d ds)
  show ?case
  proof (cases "visit n d ns")
    case (Some ns1)
    have 1: "tree_inv key ok start ns1 \<and> advances key ns ns1"
      using Cons.prems Some by (intro visit_ok) auto
    moreover have "tree_inv key ok start ns' \<and> advances key ns1 ns'"
      using Cons.prems Some 1 by (intro Cons.IH) (auto simp: advances_def)
    ultimately show ?thesis using advances_trans by blast
  qed (use Cons.prems in auto)
qed auto

definition search_measure :: "(AStarNodes \<times> AStarNodes) set" where
  "search_measure = measures [\<lambda>ns. 512 - length (as_nodes ns), \<lambda>ns. nat (\<Sum>n\<leftarrow>as_nodes ns. key n), countOpenNodes]"

lemma wf_search_measure: "wf search_measure"
  by (simp add: search_measure_def)

lemma tree_inv_close: "tree_inv key ok start ns \<Longrightarrow> tree_inv key ok start (closeNode n ns)"
  by (simp add: tree_inv_def closeNode_def)

text \<open>A turn of the main loop is closer to the end: the node it takes is open, and is closed at the end of the turn.\<close>

lemma turn_decreases:
  assumes inv: "tree_inv key ok start ns" and n: "getBestNode ns = Some n"
    and turn: "visit_all (visit n) ds ns = (b, ns1)" "set ds \<subseteq> set neighbourOrderList"
  shows "(closeNode n ns1, ns) \<in> search_measure" "tree_inv key ok start (closeNode n ns1)" "advances key ns ns1"
proof -
  from getBestNode_open [OF n] have o: "n < length (as_nodes ns)" "n < length (openNodes ns)" "openNodes ns ! n" by auto
  have s: "tree_inv key ok start ns1" "advances key ns ns1"
    using visit_all_ok [OF inv o(1) turn(2,1)] by auto
  show "tree_inv key ok start (closeNode n ns1)" using s(1) by (rule tree_inv_close)
  show "advances key ns ns1" by (rule s(2))
  have le: "length (as_nodes ns1) \<le> 512" using s(1) by (simp add: tree_inv_def)
  have key0: "0 \<le> (\<Sum>x\<leftarrow>as_nodes ns1. key x)"
    using s(1) by (intro sum_list_nonneg) (auto simp: tree_inv_def)
  show "(closeNode n ns1, ns) \<in> search_measure"
  proof (cases "ns1 = ns")
    case True
    then show ?thesis
      using filter_close [OF o(2,3)] by (simp add: search_measure_def closeNode_def countOpenNodes_def)
  next
    case False
    then show ?thesis
      using s(2) le key0 by (auto simp: search_measure_def closeNode_def advances_def)
  qed
qed

end

lemma walk_cost: "10 \<le> getMapWalkCost n p + getTileWalkCost hc hf t"
  by (simp add: getMapWalkCost_def getTileWalkCost_def)

text \<open>A step that relaxes the node at a position, or adds one, with the parent \<open>n\<close> and a key at least 10 larger.\<close>

lemma visit_step:
  assumes inv: "tree_inv key ok start ns" and n: "n < length (as_nodes ns)"
    and p: "p = neighbour_pos (pz start) (as_nodes ns ! n) d" "d \<in> set neighbourOrderList" "ok p"
    and m: "\<And>n'. an_parent (fill n') = Some n" "\<And>n'. xy (fill n') = (uint (px p), uint (py p))"
      "\<And>n'. key (fill n') = newkey"
    and k: "newkey = key (as_nodes ns ! n) + c" "10 \<le> c"
    and r: "relax_node key fill newkey p ns = Some ns'"
  shows "tree_inv key ok start ns' \<and> advances key ns ns'"
proof (cases "getNodeInList (uint (px p)) (uint (py p)) ns")
  case (Some j)
  then have j: "j < length (as_nodes ns)" "xy (as_nodes ns ! j) = (uint (px p), uint (py p))"
    using node_index_Some unfolding getNodeInList_def by fastforce+
  show ?thesis
  proof (cases "key (as_nodes ns ! j) \<le> newkey")
    case True
    with r Some have "ns' = ns" by (simp add: relax_node_def)
    with inv show ?thesis by simp
  next
    case False
    with r Some have ns': "ns' = (openNode j ns)\<lparr>as_nodes := (as_nodes ns)[j := fill (as_nodes ns ! j)]\<rparr>" by (simp add: relax_node_def)
    have len: "length (openNodes ns) = length (as_nodes ns)" using inv by (simp add: tree_inv_def)
    show ?thesis
      using False k m len
      by (intro tree_inv_relax [where m = "fill (as_nodes ns ! j)" and c = c and p = p, OF inv n j(1) p _ _ _ _ j(2)])
        (simp_all add: ns' openNode_def)
  qed
next
  case None
  then have new: "x \<in> set (as_nodes ns) \<Longrightarrow> xy x \<noteq> (uint (px p), uint (py p))" for x
    using node_index_None unfolding getNodeInList_def by blast
  from r None obtain j ns1 where c: "createOpenNode ns = Some (j, ns1)"
    and ns': "ns' = ns1\<lparr>as_nodes := (as_nodes ns1)[j := fill (as_nodes ns1 ! j)]\<rparr>"
    by (auto simp: relax_node_def split: option.splits)
  from c have room: "length (as_nodes ns) < 512" and j: "j = length (as_nodes ns)"
    and o: "openNodes ns1 = openNodes ns @ [True]" and a: "\<exists>z. as_nodes ns1 = as_nodes ns @ [z]"
    by (auto simp: createOpenNode_def split: if_splits)
  from a obtain z where z: "as_nodes ns1 = as_nodes ns @ [z]" by blast
  have len: "length (openNodes ns) = length (as_nodes ns)" using inv by (simp add: tree_inv_def)
  show ?thesis
    using k m len
    by (intro tree_inv_extend [where m = "fill z" and c = c and p = p, OF inv n room p _ _ _ _ new])
      (simp_all add: ns' z j o)
qed

interpretation search_for: node_search an_g "\<lambda>p. walk p \<noteq> None" "Position sx sy (pz endPos)"
    "visit_to walk hc hf endPos maxSearchDist"
  for walk :: "position \<Rightarrow> 't option" and hc hf sx sy endPos maxSearchDist
proof
  fix ns n d ns'
  let ?start = "Position sx sy (pz endPos)"
  assume inv: "tree_inv an_g (\<lambda>p. walk p \<noteq> None) ?start ns" and n: "n < length (as_nodes ns)"
    and d: "d \<in> set neighbourOrderList" and v: "visit_to walk hc hf endPos maxSearchDist n d ns = Some ns'"
  define p where "p = neighbour_pos (pz ?start) (as_nodes ns ! n) d"
  show "tree_inv an_g (\<lambda>p. walk p \<noteq> None) ?start ns' \<and> advances an_g ns ns'"
  proof (cases "ns' = ns")
    case False
    with v obtain t where t: "walk p = Some t"
      "relax_node an_g (fill_to n p (an_g (as_nodes ns ! n) + (getMapWalkCost (as_nodes ns ! n) p + getTileWalkCost hc hf t)) endPos)
        (an_g (as_nodes ns ! n) + (getMapWalkCost (as_nodes ns ! n) p + getTileWalkCost hc hf t)) p ns = Some ns'"
      by (auto simp: visit_to_def Let_def p_def split: if_splits option.splits)
    show ?thesis
      by (rule visit_step [OF inv n p_def d _ _ _ _ refl walk_cost t(2)]) (simp_all add: t(1) xy_def fill_to_def Let_def)
  qed (use inv in simp)
qed

interpretation search_matching: node_search an_f "\<lambda>p. walk p \<noteq> None" startPos
    "visit_match walk hc hf near fpp startPos"
  for walk :: "position \<Rightarrow> 't option" and hc hf near fpp startPos
proof
  fix ns n d ns'
  assume inv: "tree_inv an_f (\<lambda>p. walk p \<noteq> None) startPos ns" and n: "n < length (as_nodes ns)"
    and d: "d \<in> set neighbourOrderList" and v: "visit_match walk hc hf near fpp startPos n d ns = Some ns'"
  define p where "p = neighbour_pos (pz startPos) (as_nodes ns ! n) d"
  show "tree_inv an_f (\<lambda>p. walk p \<noteq> None) startPos ns' \<and> advances an_f ns ns'"
  proof (cases "ns' = ns")
    case False
    with v obtain t where t: "walk p = Some t"
      "relax_node an_f (fill_match n p (an_f (as_nodes ns ! n) + (getMapWalkCost (as_nodes ns ! n) p + getTileWalkCost hc hf t)))
        (an_f (as_nodes ns ! n) + (getMapWalkCost (as_nodes ns ! n) p + getTileWalkCost hc hf t)) p ns = Some ns'"
      by (auto simp: visit_match_def Let_def p_def split: if_splits option.splits)
    show ?thesis
      by (rule visit_step [OF inv n p_def d _ _ _ _ refl walk_cost t(2)]) (simp_all add: t(1) xy_def fill_match_def)
  qed (use inv in simp)
qed

section \<open>The searches end\<close>

lemma tree_inv_start:
  "xy n = (uint (px p), uint (py p)) \<Longrightarrow> an_parent n = None \<Longrightarrow> key n = 0 \<Longrightarrow>
   tree_inv key ok p \<lparr>as_nodes = [n], openNodes = [True]\<rparr>"
  by (auto simp: tree_inv_def)

lemma search_to_result:
  assumes "tree_inv an_g (\<lambda>p. walk p \<noteq> None) (Position sx sy (pz endPos)) ns"
  shows "\<exists>found ns'. search_to walk hc hf endPos maxSearchDist ns = Some (found, ns') \<and>
    tree_inv an_g (\<lambda>p. walk p \<noteq> None) (Position sx sy (pz endPos)) ns' \<and>
    (\<forall>i. found = Some i \<longrightarrow> i < length (as_nodes ns') \<and> xy (as_nodes ns' ! i) = (uint (px endPos), uint (py endPos)))"
  using search_for.wf_search_measure assms
proof (induction ns rule: wf_induct_rule)
  case (less ns)
  note inv = less.prems
  show ?case
  proof (cases "maxSearchDist \<noteq> - 1 \<or> countClosedNodes ns < 100")
    case False
    then show ?thesis using inv by (subst search_to.simps) simp
  next
    case more: True
    show ?thesis
    proof (cases "getBestNode ns")
      case None
      then show ?thesis using inv by (subst search_to.simps) simp
    next
      case (Some n)
      have n: "n < length (as_nodes ns)" using getBestNode_open [OF Some] by simp
      show ?thesis
      proof (cases "an_x (as_nodes ns ! n) = uint (px endPos) \<and> an_y (as_nodes ns ! n) = uint (py endPos)")
        case True
        then show ?thesis using inv more Some n by (subst search_to.simps) (simp add: xy_def)
      next
        case False
        obtain b ns1 where v: "visit_all (visit_to walk hc hf endPos maxSearchDist n) neighbourOrderList ns = (b, ns1)"
          by fastforce
        note t = search_for.turn_decreases [OF inv Some v subset_refl]
        have inv1: "tree_inv an_g (\<lambda>p. walk p \<noteq> None) (Position sx sy (pz endPos)) ns1"
          using search_for.visit_all_ok [OF inv n subset_refl v] by blast
        have step: "search_to walk hc hf endPos maxSearchDist ns =
            (if \<not> b then Some (None, ns1) else search_to walk hc hf endPos maxSearchDist (closeNode n ns1))"
          using more Some False v by (subst search_to.simps) auto
        show ?thesis
          unfolding step using less.IH [OF t(1,2)] inv1 by auto
      qed
    qed
  qed
qed

lemma search_match_result:
  fixes found :: "nat option"
  assumes "tree_inv an_f (\<lambda>p. walk p \<noteq> None) startPos ns"
    and "\<And>i. found = Some i \<Longrightarrow> i < length (as_nodes ns) \<and> good (node_pos (pz startPos) (as_nodes ns ! i))"
    and cond: "\<And>q b. fst (cond q b) \<Longrightarrow> good q"
  shows "\<exists>found' ns'. search_match walk hc hf cond near fpp startPos found best ns = Some (found', ns') \<and>
    tree_inv an_f (\<lambda>p. walk p \<noteq> None) startPos ns' \<and>
    (\<forall>i. found' = Some i \<longrightarrow> i < length (as_nodes ns') \<and> good (node_pos (pz startPos) (as_nodes ns' ! i)))"
  using search_matching.wf_search_measure assms(1,2)
proof (induction ns arbitrary: found best rule: wf_induct_rule)
  case (less ns)
  note inv = less.prems(1) and found = less.prems(2)
  show ?case
  proof (cases "fpp_maxSearchDist fpp \<noteq> - 1 \<or> countClosedNodes ns < 100")
    case False
    then show ?thesis using inv found by (subst search_match.simps) simp
  next
    case more: True
    show ?thesis
    proof (cases "getBestNode ns")
      case None
      then show ?thesis using inv found by (subst search_match.simps) simp
    next
      case (Some n)
      have n: "n < length (as_nodes ns)" using getBestNode_open [OF Some] by simp
      let ?q = "node_pos (pz startPos) (as_nodes ns ! n)"
      obtain ma bm where c: "cond ?q best = (ma, bm)" by fastforce
      define found1 where "found1 = (if ma then Some n else found)"
      have found1: "i < length (as_nodes ns) \<and> good (node_pos (pz startPos) (as_nodes ns ! i))" if "found1 = Some i" for i
        using that found n cond [of ?q best] c by (auto simp: found1_def split: if_splits)
      let ?ds = "if allowDiagonal fpp then neighbourOrderList else take 4 neighbourOrderList"
      obtain b ns1 where v: "visit_all (visit_match walk hc hf near fpp startPos n) ?ds ns = (b, ns1)"
        by fastforce
      have sub: "set ?ds \<subseteq> set neighbourOrderList" by (simp add: set_take_subset)
      note t = search_matching.turn_decreases [OF inv Some v sub]
      have found2: "i < length (as_nodes (closeNode n ns1)) \<and> good (node_pos (pz startPos) (as_nodes (closeNode n ns1) ! i))"
        if "found1 = Some i" for i
      proof -
        have "xy (as_nodes ns1 ! i) = xy (as_nodes ns ! i)" "length (as_nodes ns) \<le> length (as_nodes ns1)"
          using found1 [OF that] t(3) by (simp_all add: advances_def)
        then show ?thesis using found1 [OF that] node_pos_xy [of "as_nodes ns1 ! i"] by (simp add: closeNode_def)
      qed
      have inv1: "tree_inv an_f (\<lambda>p. walk p \<noteq> None) startPos ns1"
        using search_matching.visit_all_ok [OF inv n sub v] by blast
      have step: "search_match walk hc hf cond near fpp startPos found best ns =
          (if ma \<and> bm = 0 then Some (found1, ns)
           else if \<not> b \<and> found1 = None then Some (None, ns1)
           else search_match walk hc hf cond near fpp startPos found1 bm (closeNode n ns1))"
        using more Some c v
        by (subst search_match.simps) (simp add: found1_def node_pos_def Let_def)
      show ?thesis
        unfolding step using less.IH [OF t(1,2), of found1 bm, OF found2] inv found1 inv1 by auto
    qed
  qed
qed

section \<open>The paths\<close>

fun route :: "position \<Rightarrow> Direction list \<Rightarrow> position list" where
  "route p [] = []"
| "route p (d # ds) = getNextPosition d p # route (getNextPosition d p) ds"

lemma route_append: "route p (ds @ es) = route p ds @ route (last (p # route p ds)) es"
  by (induction ds arbitrary: p) auto

text \<open>Away from the edges of the coordinates.\<close>

definition inner :: "position \<Rightarrow> bool" where
  "inner p \<longleftrightarrow> 0 < px p \<and> px p < 65535 \<and> 0 < py p \<and> py p < 65535"

lemma uint_step:
  assumes "0 < a" "a < (65535 :: u16)"
  shows "uint (a + 1) = uint a + 1" "uint (a - 1) = uint a - 1"
proof -
  have "0 < uint a" "uint a < 65535" using assms by (simp_all add: word_less_def)
  then show "uint (a + 1) = uint a + 1" "uint (a - 1) = uint a - 1"
    by (simp_all add: uint_word_ariths)
qed

lemma neighbour_direction:
  assumes q: "q = neighbour_pos z n d" "d \<in> set neighbourOrderList" "inner q" and r: "r = node_pos z n"
  shows "\<exists>D. delta_direction (uint (px r) - uint (px q)) (uint (py r) - uint (py q)) = Some D \<and> getNextPosition D q = r"
    and "\<exists>D. delta_direction (uint (px q) - uint (px r)) (uint (py q) - uint (py r)) = Some D \<and> getNextPosition D r = q"
proof -
  have qr: "px q = px r + word_of_int (fst d)" "py q = py r + word_of_int (snd d)" "pz q = z" "pz r = z"
    using q(1) r by (simp_all add: neighbour_pos_def node_pos_def)
  have rx: "px r = px q - word_of_int (fst d)" "py r = py q - word_of_int (snd d)" using qr by simp_all
  have in_x: "0 < px q" "px q < 65535" and in_y: "0 < py q" "py q < 65535" using q(3) by (simp_all add: inner_def)
  note u = uint_step [OF in_x] uint_step [OF in_y]
  obtain qx qy where Q: "q = Position qx qy z" using qr by (cases q) simp
  have R: "r = Position (qx - word_of_int (fst d)) (qy - word_of_int (snd d)) z" using rx qr Q by (cases r) simp
  show "\<exists>D. delta_direction (uint (px r) - uint (px q)) (uint (py r) - uint (py q)) = Some D \<and> getNextPosition D q = r"
    using q(2) u unfolding R Q neighbourOrderList_def by (auto simp: delta_direction_def)
  show "\<exists>D. delta_direction (uint (px q) - uint (px r)) (uint (py q) - uint (py r)) = Some D \<and> getNextPosition D r = q"
    using q(2) u unfolding R Q neighbourOrderList_def by (auto simp: delta_direction_def)
qed

lemma tree_inv_node:
  assumes "tree_inv key ok start ns" "i < length (as_nodes ns)"
  shows "an_x (as_nodes ns ! i) = uint (px (node_pos z (as_nodes ns ! i)))"
    "an_y (as_nodes ns ! i) = uint (py (node_pos z (as_nodes ns ! i)))"
proof -
  have "as_nodes ns ! i \<in> set (as_nodes ns)" using assms(2) by simp
  with assms(1) obtain p :: position where "xy (as_nodes ns ! i) = (uint (px p), uint (py p))" "0 \<le> key (as_nodes ns ! i)"
    unfolding tree_inv_def by blast
  then show "an_x (as_nodes ns ! i) = uint (px (node_pos z (as_nodes ns ! i)))"
    "an_y (as_nodes ns ! i) = uint (py (node_pos z (as_nodes ns ! i)))"
    by (simp_all add: xy_def node_pos_def)
qed

lemma tree_inv_key: "tree_inv key ok start ns \<Longrightarrow> i < length (as_nodes ns) \<Longrightarrow> 0 \<le> key (as_nodes ns ! i)"
  unfolding tree_inv_def by (metis nth_mem)

text \<open>From any node the references lead back to the start in finitely many steps; each step is a direction.\<close>

lemma tree_inv_cases:
  assumes "tree_inv key ok start ns" "i < length (as_nodes ns)"
  obtains (start) "i = 0" "an_parent (as_nodes ns ! i) = None" "node_pos (pz start) (as_nodes ns ! i) = start"
  | (step) j d where "j < length (as_nodes ns)" "an_parent (as_nodes ns ! i) = Some j"
      "key (as_nodes ns ! j) + 10 \<le> key (as_nodes ns ! i)" "d \<in> set neighbourOrderList"
      "node_pos (pz start) (as_nodes ns ! i) = neighbour_pos (pz start) (as_nodes ns ! j) d"
      "ok (node_pos (pz start) (as_nodes ns ! i))"
proof (cases i)
  case 0
  then show ?thesis using assms start node_pos_uint [of "as_nodes ns ! 0" start] by (simp add: tree_inv_def)
next
  case (Suc k)
  then have "reached key ok (pz start) (as_nodes ns) i" using assms unfolding tree_inv_def by blast
  then show ?thesis using step unfolding reached_def by blast
qed

lemma collect_to_route:
  assumes inv: "tree_inv key ok start ns" and i: "i < length (as_nodes ns)" and inner: "\<And>p. ok p \<Longrightarrow> inner p"
    and q: "q = node_pos (pz start) (as_nodes ns ! i)"
  shows "\<exists>dirs. collect_to (as_nodes ns) (an_parent (as_nodes ns ! i)) (uint (px q)) (uint (py q)) acc = Some (acc @ dirs) \<and>
    last (q # route q dirs) = start \<and> (\<forall>p \<in> set (route q dirs). p = start \<or> ok p)"
  using i q
proof (induction "nat (key (as_nodes ns ! i))" arbitrary: i q acc rule: less_induct)
  case less
  from inv less.prems(1) show ?case
  proof (cases rule: tree_inv_cases)
    case start
    then show ?thesis using less.prems(2) by (subst collect_to.simps) (auto intro: exI [of _ "[]"])
  next
    case (step j d)
    define r where "r = node_pos (pz start) (as_nodes ns ! j)"
    note xyj = tree_inv_node [OF inv step(1), of "pz start", folded r_def]
    obtain D where D: "delta_direction (uint (px r) - uint (px q)) (uint (py r) - uint (py q)) = Some D"
      "getNextPosition D q = r"
      using neighbour_direction(1) [of q "pz start" "as_nodes ns ! j" d r] step inner less.prems(2) r_def by auto
    have "nat (key (as_nodes ns ! j)) < nat (key (as_nodes ns ! i))"
      using step(3) tree_inv_key [OF inv step(1)] by simp
    from less.hyps [OF this step(1) r_def, of "acc @ [D]"] obtain dirs where dirs:
      "collect_to (as_nodes ns) (an_parent (as_nodes ns ! j)) (uint (px r)) (uint (py r)) (acc @ [D]) = Some ((acc @ [D]) @ dirs)"
      "last (r # route r dirs) = start" "\<forall>p \<in> set (route r dirs). p = start \<or> ok p" by blast
    have rok: "r = start \<or> ok r"
      using inv step(1) by (cases rule: tree_inv_cases) (auto simp: r_def)
    have "collect_to (as_nodes ns) (an_parent (as_nodes ns ! i)) (uint (px q)) (uint (py q)) acc = Some (acc @ D # dirs)"
      using D(1) dirs(1) step(2) xyj(1,2) by (subst collect_to.simps) (simp add: Let_def)
    with D(2) dirs rok show ?thesis by (intro exI [of _ "D # dirs"]) auto
  qed
qed

lemma collect_match_route:
  assumes inv: "tree_inv key ok start ns" and i: "i < length (as_nodes ns)" and inner: "\<And>p. ok p \<Longrightarrow> inner p"
    and q: "q = node_pos (pz start) (as_nodes ns ! i)"
  shows "\<exists>dirs. collect_match (as_nodes ns) (an_parent (as_nodes ns ! i)) (uint (px q)) (uint (py q)) acc = Some (dirs @ acc) \<and>
    last (start # route start dirs) = q \<and> (\<forall>p \<in> set (route start dirs). ok p)"
  using i q
proof (induction "nat (key (as_nodes ns ! i))" arbitrary: i q acc rule: less_induct)
  case less
  from inv less.prems(1) show ?case
  proof (cases rule: tree_inv_cases)
    case start
    then show ?thesis using less.prems(2) by (subst collect_match.simps) (auto intro: exI [of _ "[]"])
  next
    case (step j d)
    define r where "r = node_pos (pz start) (as_nodes ns ! j)"
    note xyj = tree_inv_node [OF inv step(1), of "pz start", folded r_def]
    obtain D where D: "delta_direction (uint (px q) - uint (px r)) (uint (py q) - uint (py r)) = Some D"
      "getNextPosition D r = q"
      using neighbour_direction(2) [of q "pz start" "as_nodes ns ! j" d r] step inner less.prems(2) r_def by auto
    have "nat (key (as_nodes ns ! j)) < nat (key (as_nodes ns ! i))"
      using step(3) tree_inv_key [OF inv step(1)] by simp
    from less.hyps [OF this step(1) r_def, of "[D] @ acc"] obtain dirs where dirs:
      "collect_match (as_nodes ns) (an_parent (as_nodes ns ! j)) (uint (px r)) (uint (py r)) ([D] @ acc) = Some (dirs @ [D] @ acc)"
      "last (start # route start dirs) = r" "\<forall>p \<in> set (route start dirs). ok p" by blast
    have "collect_match (as_nodes ns) (an_parent (as_nodes ns ! i)) (uint (px q)) (uint (py q)) acc = Some ((dirs @ [D]) @ acc)"
      using D(1) dirs(1) step(2) xyj(1,2) by (subst collect_match.simps) (simp add: Let_def)
    moreover have "route start (dirs @ [D]) = route start dirs @ [q]"
      using dirs(2) D(2) by (simp add: route_append)
    ultimately show ?thesis
      using dirs(3) step(6) less.prems(2) by (intro exI [of _ "dirs @ [D]"]) auto
  qed
qed

text \<open>
  C11. \<^verbatim>\<open>getPathTo\<close> always ends. If it returns true, its list of directions is not empty and, from
  the creature's position, leads to the destination over positions the creature can walk to, provided that
  the creature cannot walk on the outermost rows and columns of the 16-bit coordinates.
\<close>
theorem getPathTo_leads_there:
  assumes "\<forall>p t. walk p = Some t \<longrightarrow> inner p"
  shows "\<exists>found dirs. getPathTo walk hc hf creaturePos destPos listDir maxSearchDist = Some (found, dirs) \<and>
    (found \<longrightarrow> dirs \<noteq> [] \<and> last (route creaturePos dirs) = destPos \<and> (\<forall>p \<in> set (route creaturePos dirs). walk p \<noteq> None))"
proof (cases "walk destPos = None \<or> pz destPos \<noteq> pz creaturePos")
  case True
  then show ?thesis by (auto simp: getPathTo_def)
next
  case False
  then have dest: "walk destPos \<noteq> None" "Position (px destPos) (py destPos) (pz creaturePos) = destPos"
    by (cases destPos, simp)+
  define startNode where "startNode = (let h = getEstimatedDistance (uint (px destPos)) (uint (py destPos)) (uint (px creaturePos)) (uint (py creaturePos))
      in \<lparr>an_x = uint (px destPos), an_y = uint (py destPos), an_parent = None, an_f = 0 + h, an_g = 0, an_h = h\<rparr>)"
  have "tree_inv an_g (\<lambda>p. walk p \<noteq> None) destPos \<lparr>as_nodes = [startNode], openNodes = [True]\<rparr>"
    by (rule tree_inv_start) (simp_all add: startNode_def xy_def Let_def)
  with search_to_result [of walk "px destPos" "py destPos" creaturePos, unfolded dest(2)] obtain found ns where
    s: "search_to walk hc hf creaturePos maxSearchDist \<lparr>as_nodes = [startNode], openNodes = [True]\<rparr> = Some (found, ns)"
    and inv: "tree_inv an_g (\<lambda>p. walk p \<noteq> None) destPos ns"
    and at: "\<forall>i. found = Some i \<longrightarrow> i < length (as_nodes ns) \<and> xy (as_nodes ns ! i) = (uint (px creaturePos), uint (py creaturePos))"
    by blast
  have g: "getPathTo walk hc hf creaturePos destPos listDir maxSearchDist =
      (case collect_to (as_nodes ns) found (uint (px creaturePos)) (uint (py creaturePos)) [] of
         None \<Rightarrow> None | Some dirs \<Rightarrow> Some (dirs \<noteq> [], dirs))"
    using False s by (auto simp: getPathTo_def startNode_def Let_def)
  show ?thesis
  proof (cases found)
    case None
    then show ?thesis unfolding g by (subst collect_to.simps) auto
  next
    case (Some i)
    then have i: "i < length (as_nodes ns)" and xyi: "xy (as_nodes ns ! i) = (uint (px creaturePos), uint (py creaturePos))"
      using at by auto
    have q: "creaturePos = node_pos (pz destPos) (as_nodes ns ! i)"
      using node_pos_uint [OF xyi] False by simp
    have inner: "\<And>p. walk p \<noteq> None \<Longrightarrow> inner p" using assms by blast
    obtain dirs where dirs:
      "collect_to (as_nodes ns) (an_parent (as_nodes ns ! i)) (uint (px creaturePos)) (uint (py creaturePos)) [] = Some ([] @ dirs)"
      "last (creaturePos # route creaturePos dirs) = destPos" "\<forall>p \<in> set (route creaturePos dirs). p = destPos \<or> walk p \<noteq> None"
      using collect_to_route [OF inv i inner q] by blast
    have "collect_to (as_nodes ns) found (uint (px creaturePos)) (uint (py creaturePos)) [] = Some dirs"
      using dirs(1) xyi by (subst collect_to.simps) (simp add: Some xy_def Let_def delta_direction_def)
    moreover have "last (route creaturePos dirs) = destPos" if "dirs \<noteq> []"
      using dirs(2) that by (cases dirs) auto
    ultimately show ?thesis using dirs(3) dest(1) unfolding g by auto
  qed
qed

text \<open>
  \<^verbatim>\<open>getPathMatching\<close> always ends. If it returns true, its list of directions leads from the creature's position, over
  positions the creature can walk to, to a position in the range of the condition, in sight of the target if that is asked for.
\<close>
theorem getPathMatching_leads_there:
  assumes "\<forall>p t. walk p = Some t \<longrightarrow> inner p"
  shows "\<exists>found dirs. getPathMatching walk hc hf clear creaturePos targetPos fpp = Some (found, dirs) \<and>
    (found \<longrightarrow> (\<forall>p \<in> set (route creaturePos dirs). walk p \<noteq> None) \<and>
      isInRange targetPos creaturePos (last (creaturePos # route creaturePos dirs)) fpp \<and>
      (clearSight fpp \<longrightarrow> clear (last (creaturePos # route creaturePos dirs)) targetPos))"
proof -
  define startNode where "startNode = \<lparr>an_x = uint (px creaturePos), an_y = uint (py creaturePos), an_parent = None, an_f = 0, an_g = 0, an_h = 0\<rparr>"
  let ?good = "\<lambda>q. isInRange targetPos creaturePos q fpp \<and> (clearSight fpp \<longrightarrow> clear q targetPos)"
  have "tree_inv an_f (\<lambda>p. walk p \<noteq> None) creaturePos \<lparr>as_nodes = [startNode], openNodes = [True]\<rparr>"
    by (rule tree_inv_start) (simp_all add: startNode_def xy_def)
  moreover have "?good q" if "fst (pathCondition clear targetPos fpp creaturePos q b)" for q b
    using that by (auto simp: pathCondition_def split: if_splits)
  ultimately obtain found ns where
    s: "search_match walk hc hf (pathCondition clear targetPos fpp creaturePos) (\<lambda>p. isInRange targetPos creaturePos p fpp)
        fpp creaturePos None 0 \<lparr>as_nodes = [startNode], openNodes = [True]\<rparr> = Some (found, ns)"
    and inv: "tree_inv an_f (\<lambda>p. walk p \<noteq> None) creaturePos ns"
    and at: "\<forall>i. found = Some i \<longrightarrow> i < length (as_nodes ns) \<and> ?good (node_pos (pz creaturePos) (as_nodes ns ! i))"
    using search_match_result [of walk creaturePos _ None ?good] by blast
  show ?thesis
  proof (cases found)
    case None
    then show ?thesis using s by (auto simp: getPathMatching_def startNode_def)
  next
    case (Some i)
    define q where "q = node_pos (pz creaturePos) (as_nodes ns ! i)"
    have i: "i < length (as_nodes ns)" and good: "?good q" using at Some by (auto simp: q_def)
    have inner: "\<And>p. walk p \<noteq> None \<Longrightarrow> inner p" using assms by blast
    note xyi = tree_inv_node [OF inv i, of "pz creaturePos", folded q_def]
    obtain dirs where dirs:
      "collect_match (as_nodes ns) (an_parent (as_nodes ns ! i)) (uint (px q)) (uint (py q)) [] = Some (dirs @ [])"
      "last (creaturePos # route creaturePos dirs) = q" "\<forall>p \<in> set (route creaturePos dirs). walk p \<noteq> None"
      using collect_match_route [OF inv i inner q_def] by blast
    have "getPathMatching walk hc hf clear creaturePos targetPos fpp = Some (True, dirs)"
      using s Some dirs(1) xyi by (simp add: getPathMatching_def startNode_def)
    with dirs good show ?thesis by auto
  qed
qed

declare search_to.simps [code] collect_to.simps [code] search_match.simps [code] collect_match.simps [code]

definition corridor :: "position \<Rightarrow> nat option" where
  "corridor p = (if py p = 100 \<and> pz p = 7 \<and> 99 < px p \<and> px p < 103 then Some 1 else None)"

lemma corridor_inner: "\<forall>p t. corridor p = Some t \<longrightarrow> inner p"
proof (intro allI impI)
  fix p t
  assume "corridor p = Some t"
  then have c: "py p = 100" "99 < px p" "px p < 103" by (auto simp: corridor_def split: if_splits)
  then have "0 < px p" "px p < 65535" by (auto simp: word_less_def)
  with c show "inner p" by (simp add: inner_def)
qed

lemma corridor_path:
  "getPathTo corridor (\<lambda>_. False) (\<lambda>_. False) (Position 100 100 7) (Position 102 100 7) [] 10 = Some (True, [EAST, EAST])"
  by code_simp

theorem getPathTo_leads_there_witness:
  "last (route (Position 100 100 7) [EAST, EAST]) = Position 102 100 7 \<and>
   list_all (\<lambda>p. corridor p \<noteq> None) (route (Position 100 100 7) [EAST, EAST])"
  using getPathTo_leads_there [OF corridor_inner, of "\<lambda>_. False" "\<lambda>_. False" "Position 100 100 7" "Position 102 100 7" "[]" 10]
  unfolding corridor_path by (auto simp: list_all_iff)

lemma corridor_match:
  "getPathMatching corridor (\<lambda>_. False) (\<lambda>_. False) (\<lambda>_ _. True) (Position 100 100 7) (Position 103 100 7)
     (new_FindPathParams\<lparr>fpp_maxSearchDist := 10, minTargetDist := 1, maxTargetDist := 1\<rparr>) = Some (True, [EAST, EAST])"
  by code_simp

theorem getPathMatching_leads_there_witness:
  "list_all (\<lambda>p. corridor p \<noteq> None) (route (Position 100 100 7) [EAST, EAST]) \<and>
    isInRange (Position 103 100 7) (Position 100 100 7) (Position 102 100 7)
      (new_FindPathParams\<lparr>fpp_maxSearchDist := 10, minTargetDist := 1, maxTargetDist := 1\<rparr>)"
  using getPathMatching_leads_there [OF corridor_inner, of "\<lambda>_. False" "\<lambda>_. False" "\<lambda>_ _. True" "Position 100 100 7" "Position 103 100 7"
      "new_FindPathParams\<lparr>fpp_maxSearchDist := 10, minTargetDist := 1, maxTargetDist := 1\<rparr>"]
  unfolding corridor_match by (auto simp: list_all_iff)

end
