(* ===== verification/Party.thy ===== *)
theory Party
  imports Prelude "HOL-Library.Monad_Syntax"
begin

text \<open>
  Parties (\<^verbatim>\<open>party.h\<close>, \<^verbatim>\<open>party.cpp\<close>), the party part of a player (\<^verbatim>\<open>player.cpp\<close>) and
  the requests of the game that work on them (\<^verbatim>\<open>game.cpp\<close>).  Parties and players refer to each
  other by pointers and a party deletes itself, so both live in explicit heaps: a map from
  addresses to objects, an access of a free address being the failure \<^term>\<open>None\<close>.  The
  pointers the server hands to these functions are never null, so their null checks are left out.
  What is sent to the clients is appended to a log.
\<close>

section \<open>State\<close>

datatype PartyShield = SHIELD_NONE | SHIELD_WHITEYELLOW | SHIELD_WHITEBLUE | SHIELD_BLUE | SHIELD_YELLOW

record Party =
  leader :: "nat option"
  memberList :: "nat list"
  inviteList :: "nat list"

record PartyPlayer =
  pl_name :: string
  pl_female :: bool
  pl_removed :: bool
  pl_infight :: bool
  pl_party :: "nat option"
  invitePartyList :: "nat list"

datatype party_event = SentText nat string | SentShield nat nat PartyShield

record PartyState =
  parties :: "nat \<Rightarrow> Party option"
  nextParty :: nat
  players :: "nat \<Rightarrow> PartyPlayer option"
  sees :: "nat \<Rightarrow> nat \<Rightarrow> bool"
  sent :: "party_event list"

section \<open>Accesses of the heaps\<close>

definition getLeader :: "nat \<Rightarrow> PartyState \<Rightarrow> nat option" where
  "getLeader P s = do { r \<leftarrow> parties s P; leader r }"

definition setParty :: "nat option \<Rightarrow> nat \<Rightarrow> PartyState \<Rightarrow> PartyState option" where
  "setParty P p s = do { pl \<leftarrow> players s p; Some (s\<lparr>players := (players s)(p \<mapsto> pl\<lparr>pl_party := P\<rparr>)\<rparr>) }"

definition put_party :: "nat \<Rightarrow> (Party \<Rightarrow> Party) \<Rightarrow> PartyState \<Rightarrow> PartyState option" where
  "put_party P f s = do { r \<leftarrow> parties s P; Some (s\<lparr>parties := (parties s)(P \<mapsto> f r)\<rparr>) }"

definition setLeader :: "nat option \<Rightarrow> nat \<Rightarrow> PartyState \<Rightarrow> PartyState option" where
  "setLeader l P = put_party P (\<lambda>r. r\<lparr>leader := l\<rparr>)"

definition isPlayerMember :: "nat \<Rightarrow> nat \<Rightarrow> PartyState \<Rightarrow> bool option" where
  "isPlayerMember P p s = do { r \<leftarrow> parties s P; Some (p \<in> set (memberList r)) }"

definition isPlayerInvited :: "nat \<Rightarrow> nat \<Rightarrow> PartyState \<Rightarrow> bool option" where
  "isPlayerInvited P p s = do { r \<leftarrow> parties s P; Some (p \<in> set (inviteList r)) }"

definition disbandParty :: "nat \<Rightarrow> PartyState \<Rightarrow> bool option" where
  "disbandParty P s = do { r \<leftarrow> parties s P; Some (memberList r = [] \<and> inviteList r = []) }"

section \<open>What a player knows of parties\<close>

definition isInviting :: "nat \<Rightarrow> nat \<Rightarrow> PartyState \<Rightarrow> bool option" where
  "isInviting p q s = do {
     pl \<leftarrow> players s p;
     case pl_party pl of
       None \<Rightarrow> Some False
     | Some P \<Rightarrow> do {
         r \<leftarrow> parties s P;
         if leader r \<noteq> Some p then Some False else isPlayerInvited P q s } }"

definition isPartner :: "nat \<Rightarrow> nat \<Rightarrow> PartyState \<Rightarrow> bool option" where
  "isPartner p q s = do {
     pl \<leftarrow> players s p;
     ql \<leftarrow> players s q;
     Some (pl_party pl \<noteq> None \<and> pl_party ql \<noteq> None \<and> pl_party pl = pl_party ql) }"

definition getPartyShield :: "nat \<Rightarrow> nat \<Rightarrow> PartyState \<Rightarrow> PartyShield option" where
  "getPartyShield v x s = do {
     pl \<leftarrow> players s v;
     case pl_party pl of
       Some P \<Rightarrow> do {
         r \<leftarrow> parties s P;
         member \<leftarrow> isPlayerMember P x s;
         if leader r = Some x then Some SHIELD_YELLOW
         else if member then Some SHIELD_BLUE
         else do { i \<leftarrow> isInviting v x s; Some (if i then SHIELD_WHITEBLUE else SHIELD_NONE) } }
     | None \<Rightarrow> do { i \<leftarrow> isInviting x v s; Some (if i then SHIELD_WHITEYELLOW else SHIELD_NONE) } }"

definition addPartyInvitation :: "nat \<Rightarrow> nat \<Rightarrow> PartyState \<Rightarrow> (bool \<times> PartyState) option" where
  "addPartyInvitation P p s = do {
     pl \<leftarrow> players s p;
     if P \<in> set (invitePartyList pl) then Some (False, s)
     else Some (True, s\<lparr>players := (players s)(p \<mapsto> pl\<lparr>invitePartyList := invitePartyList pl @ [P]\<rparr>)\<rparr>) }"

definition removePartyInvitation :: "nat \<Rightarrow> nat \<Rightarrow> PartyState \<Rightarrow> (bool \<times> PartyState) option" where
  "removePartyInvitation P p s = do {
     pl \<leftarrow> players s p;
     if P \<in> set (invitePartyList pl)
     then Some (True, s\<lparr>players := (players s)(p \<mapsto> pl\<lparr>invitePartyList := remove1 P (invitePartyList pl)\<rparr>)\<rparr>)
     else Some (False, s) }"

section \<open>Messages to the clients\<close>

definition sendTextMessage :: "nat \<Rightarrow> string \<Rightarrow> PartyState \<Rightarrow> PartyState option" where
  "sendTextMessage p msg s = do { _ \<leftarrow> players s p; Some (s\<lparr>sent := sent s @ [SentText p msg]\<rparr>) }"

definition sendCreatureShield :: "nat \<Rightarrow> nat \<Rightarrow> PartyState \<Rightarrow> PartyState option" where
  "sendCreatureShield v x s = do {
     _ \<leftarrow> players s v;
     _ \<leftarrow> players s x;
     if sees s v x
     then do { shield \<leftarrow> getPartyShield v x s; Some (s\<lparr>sent := sent s @ [SentShield v x shield]\<rparr>) }
     else Some s }"

definition sendPlayerPartyIcons :: "nat \<Rightarrow> nat \<Rightarrow> PartyState \<Rightarrow> PartyState option" where
  "sendPlayerPartyIcons v x s = sendCreatureShield v x s"

fun for_each :: "('a \<Rightarrow> PartyState \<Rightarrow> PartyState option) \<Rightarrow> 'a list \<Rightarrow> PartyState \<Rightarrow> PartyState option" where
  "for_each f [] s = Some s"
| "for_each f (x # xs) s = do { s \<leftarrow> f x s; for_each f xs s }"

definition icons_both_ways :: "nat \<Rightarrow> nat \<Rightarrow> PartyState \<Rightarrow> PartyState option" where
  "icons_both_ways p m s = do { s \<leftarrow> sendPlayerPartyIcons m p s; sendPlayerPartyIcons p m s }"

definition updatePartyIcons :: "nat \<Rightarrow> nat \<Rightarrow> PartyState \<Rightarrow> PartyState option" where
  "updatePartyIcons P p s = do {
     r \<leftarrow> parties s P;
     s \<leftarrow> for_each (icons_both_ways p) (memberList r) s;
     l \<leftarrow> getLeader P s;
     s \<leftarrow> icons_both_ways p l s;
     sendPlayerPartyIcons p p s }"

definition updateInvitationIcons :: "nat \<Rightarrow> nat \<Rightarrow> PartyState \<Rightarrow> PartyState option" where
  "updateInvitationIcons P p s = do { r \<leftarrow> parties s P; for_each (icons_both_ways p) (inviteList r) s }"

definition broadcastPartyMessage :: "nat \<Rightarrow> string \<Rightarrow> bool \<Rightarrow> PartyState \<Rightarrow> PartyState option" where
  "broadcastPartyMessage P msg sendToInvitations s = do {
     r \<leftarrow> parties s P;
     s \<leftarrow> for_each (\<lambda>m. sendTextMessage m msg) (memberList r) s;
     l \<leftarrow> getLeader P s;
     s \<leftarrow> sendTextMessage l msg s;
     if sendToInvitations then for_each (\<lambda>i. sendTextMessage i msg) (inviteList r) s else Some s }"

section \<open>Operations of a party\<close>

definition her_or_his :: "PartyPlayer \<Rightarrow> string" where
  "her_or_his pl = (if pl_female pl then ''her'' else ''his'')"

definition new_Party :: "nat \<Rightarrow> PartyState \<Rightarrow> (nat \<times> PartyState) option" where
  "new_Party l s = (let P = nextParty s in do {
     s \<leftarrow> Some (s\<lparr>parties := (parties s)(P \<mapsto> \<lparr>leader = None, memberList = [], inviteList = []\<rparr>), nextParty := Suc P\<rparr>);
     s \<leftarrow> setLeader (Some l) P s;
     s \<leftarrow> setParty (Some P) l s;
     s \<leftarrow> sendPlayerPartyIcons l l s;
     Some (P, s) })"

definition disband :: "nat \<Rightarrow> PartyState \<Rightarrow> PartyState option" where
  "disband P s = do {
     l \<leftarrow> getLeader P s;
     s \<leftarrow> sendTextMessage l ''The party has been disbanded.'' s;
     s \<leftarrow> setParty None l s;
     s \<leftarrow> sendPlayerPartyIcons l l s;
     s \<leftarrow> setLeader None P s;
     r \<leftarrow> parties s P;
     s \<leftarrow> for_each (\<lambda>i s. do { (_, s) \<leftarrow> removePartyInvitation P i s; Some s }) (inviteList r) s;
     s \<leftarrow> put_party P (\<lambda>r. r\<lparr>inviteList := []\<rparr>) s;
     s \<leftarrow> for_each (setParty None) (memberList r) s;
     s \<leftarrow> put_party P (\<lambda>r. r\<lparr>memberList := []\<rparr>) s;
     Some (s\<lparr>parties := (parties s)(P := None)\<rparr>) }"

definition invitePlayer :: "nat \<Rightarrow> nat \<Rightarrow> PartyState \<Rightarrow> (bool \<times> PartyState) option" where
  "invitePlayer P p s = do {
     pl \<leftarrow> players s p;
     if pl_removed pl then Some (False, s) else do {
       r \<leftarrow> parties s P;
       if p \<in> set (inviteList r) then Some (False, s) else do {
         l \<leftarrow> getLeader P s;
         s \<leftarrow> sendTextMessage l (pl_name pl @ '' has been invited.'') s;
         s \<leftarrow> put_party P (\<lambda>r. r\<lparr>inviteList := inviteList r @ [p]\<rparr>) s;
         s \<leftarrow> sendPlayerPartyIcons l p s;
         s \<leftarrow> sendPlayerPartyIcons p l s;
         (_, s) \<leftarrow> addPartyInvitation P p s;
         ll \<leftarrow> players s l;
         s \<leftarrow> sendTextMessage p (pl_name ll @ '' has invited you to '' @ her_or_his ll @ '' party.'') s;
         Some (True, s) } } }"

definition joinParty :: "nat \<Rightarrow> nat \<Rightarrow> PartyState \<Rightarrow> (bool \<times> PartyState) option" where
  "joinParty P p s = do {
     pl \<leftarrow> players s p;
     if pl_removed pl then Some (False, s) else do {
       s \<leftarrow> broadcastPartyMessage P (pl_name pl @ '' has joined the party.'') False s;
       s \<leftarrow> put_party P (\<lambda>r. r\<lparr>memberList := memberList r @ [p]\<rparr>) s;
       s \<leftarrow> setParty (Some P) p s;
       s \<leftarrow> put_party P (\<lambda>r. r\<lparr>inviteList := remove1 p (inviteList r)\<rparr>) s;
       (_, s) \<leftarrow> removePartyInvitation P p s;
       s \<leftarrow> updatePartyIcons P p s;
       l \<leftarrow> getLeader P s;
       ll \<leftarrow> players s l;
       s \<leftarrow> sendTextMessage p (''You have joined '' @ pl_name ll @ [CHR 0x27] @ ''s party.'') s;
       Some (True, s) } }"

definition removeInvite :: "nat \<Rightarrow> nat \<Rightarrow> PartyState \<Rightarrow> (bool \<times> PartyState) option" where
  "removeInvite P p s = do {
     pl \<leftarrow> players s p;
     if pl_removed pl then Some (False, s) else do {
       invited \<leftarrow> isPlayerInvited P p s;
       if \<not> invited then Some (False, s) else do {
         s \<leftarrow> put_party P (\<lambda>r. r\<lparr>inviteList := remove1 p (inviteList r)\<rparr>) s;
         (_, s) \<leftarrow> removePartyInvitation P p s;
         l \<leftarrow> getLeader P s;
         s \<leftarrow> sendCreatureShield l p s;
         s \<leftarrow> sendCreatureShield p l s;
         empty \<leftarrow> disbandParty P s;
         s \<leftarrow> (if empty then disband P s else Some s);
         Some (True, s) } } }"

definition revokeInvitation :: "nat \<Rightarrow> nat \<Rightarrow> PartyState \<Rightarrow> (bool \<times> PartyState) option" where
  "revokeInvitation P p s = do {
     l \<leftarrow> getLeader P s;
     ll \<leftarrow> players s l;
     s \<leftarrow> sendTextMessage p (pl_name ll @ '' has revoked '' @ her_or_his ll @ '' invitation.'') s;
     pl \<leftarrow> players s p;
     s \<leftarrow> sendTextMessage l (''Invitation for '' @ pl_name pl @ '' has been revoked.'') s;
     (_, s) \<leftarrow> removeInvite P p s;
     Some (True, s) }"

definition passPartyLeadership :: "nat \<Rightarrow> nat \<Rightarrow> PartyState \<Rightarrow> (bool \<times> PartyState) option" where
  "passPartyLeadership P p s = do {
     r \<leftarrow> parties s P;
     if leader r = Some p \<or> p \<notin> set (memberList r) then Some (False, s) else do {
       s \<leftarrow> put_party P (\<lambda>r. r\<lparr>memberList := remove1 p (memberList r)\<rparr>) s;
       pl \<leftarrow> players s p;
       s \<leftarrow> broadcastPartyMessage P (pl_name pl @ '' is now the leader of the party.'') True s;
       oldLeader \<leftarrow> getLeader P s;
       s \<leftarrow> setLeader (Some p) P s;
       s \<leftarrow> put_party P (\<lambda>r. r\<lparr>memberList := oldLeader # memberList r\<rparr>) s;
       s \<leftarrow> updateInvitationIcons P oldLeader s;
       s \<leftarrow> updateInvitationIcons P p s;
       s \<leftarrow> updatePartyIcons P oldLeader s;
       s \<leftarrow> updatePartyIcons P p s;
       s \<leftarrow> sendTextMessage p ''You are now the leader of the party.'' s;
       Some (True, s) } }"

definition leaveParty :: "nat \<Rightarrow> nat \<Rightarrow> PartyState \<Rightarrow> (bool \<times> PartyState) option" where
  "leaveParty P p s = do {
     r \<leftarrow> parties s P;
     if p \<notin> set (memberList r) \<and> leader r \<noteq> Some p then Some (False, s) else do {
       (hasNoLeader, s) \<leftarrow>
         (if leader r = Some p
          then if memberList r \<noteq> []
               then do { (_, s) \<leftarrow> passPartyLeadership P (hd (memberList r)) s; Some (False, s) }
               else Some (True, s)
          else Some (False, s));
       s \<leftarrow> put_party P (\<lambda>r. r\<lparr>memberList := remove1 p (memberList r)\<rparr>) s;
       s \<leftarrow> put_party P (\<lambda>r. r\<lparr>inviteList := remove1 p (inviteList r)\<rparr>) s;
       s \<leftarrow> sendTextMessage p ''You have left the party.'' s;
       s \<leftarrow> setParty None p s;
       s \<leftarrow> updatePartyIcons P p s;
       s \<leftarrow> updateInvitationIcons P p s;
       pl \<leftarrow> players s p;
       s \<leftarrow> broadcastPartyMessage P (pl_name pl @ '' has left the party.'') False s;
       empty \<leftarrow> disbandParty P s;
       s \<leftarrow> (if hasNoLeader \<or> empty then disband P s else Some s);
       Some (True, s) } }"

section \<open>Requests of the clients\<close>

definition getPlayerByID :: "nat \<Rightarrow> PartyState \<Rightarrow> nat option" where
  "getPlayerByID p s =
     (if p = 0 then None
      else case players s p of None \<Rightarrow> None | Some pl \<Rightarrow> if pl_removed pl then None else Some p)"

definition isLeader :: "nat \<Rightarrow> nat \<Rightarrow> PartyState \<Rightarrow> bool option" where
  "isLeader P p s = do { r \<leftarrow> parties s P; Some (leader r = Some p) }"

definition playerInviteToParty :: "nat \<Rightarrow> nat \<Rightarrow> PartyState \<Rightarrow> (bool \<times> PartyState) option" where
  "playerInviteToParty playerId invitedId s = (
     case getPlayerByID playerId s of None \<Rightarrow> Some (False, s) | Some p \<Rightarrow>
     case getPlayerByID invitedId s of None \<Rightarrow> Some (False, s) | Some q \<Rightarrow> do {
       back \<leftarrow> isInviting q p s;
       if back then Some (False, s) else do {
         ql \<leftarrow> players s q;
         if pl_party ql \<noteq> None then do {
           s \<leftarrow> sendTextMessage p (pl_name ql @ '' is already in a party.'') s;
           Some (False, s) }
         else do {
           pl \<leftarrow> players s p;
           case pl_party pl of
             None \<Rightarrow> do { (P, s) \<leftarrow> new_Party p s; invitePlayer P q s }
           | Some P \<Rightarrow> do {
               leads \<leftarrow> isLeader P p s;
               if \<not> leads then Some (False, s) else invitePlayer P q s } } } })"

definition playerJoinParty :: "nat \<Rightarrow> nat \<Rightarrow> PartyState \<Rightarrow> (bool \<times> PartyState) option" where
  "playerJoinParty playerId leaderId s = (
     case getPlayerByID playerId s of None \<Rightarrow> Some (False, s) | Some p \<Rightarrow>
     case getPlayerByID leaderId s of None \<Rightarrow> Some (False, s) | Some l \<Rightarrow> do {
       invites \<leftarrow> isInviting l p s;
       if \<not> invites then Some (False, s) else do {
         ll \<leftarrow> players s l;
         case pl_party ll of None \<Rightarrow> Some (False, s) | Some P \<Rightarrow> do {
           leads \<leftarrow> isLeader P l s;
           if \<not> leads then Some (False, s) else do {
             pl \<leftarrow> players s p;
             if pl_party pl \<noteq> None then do {
               s \<leftarrow> sendTextMessage p ''You are already in a party.'' s;
               Some (False, s) }
             else joinParty P p s } } } })"

definition playerRevokePartyInvitation :: "nat \<Rightarrow> nat \<Rightarrow> PartyState \<Rightarrow> (bool \<times> PartyState) option" where
  "playerRevokePartyInvitation playerId invitedId s = (
     case getPlayerByID playerId s of None \<Rightarrow> Some (False, s) | Some p \<Rightarrow> do {
       pl \<leftarrow> players s p;
       case pl_party pl of None \<Rightarrow> Some (False, s) | Some P \<Rightarrow> do {
         leads \<leftarrow> isLeader P p s;
         if \<not> leads then Some (False, s) else
         case getPlayerByID invitedId s of None \<Rightarrow> Some (False, s) | Some q \<Rightarrow> do {
           invites \<leftarrow> isInviting p q s;
           if \<not> invites then Some (False, s) else revokeInvitation P q s } } })"

definition playerPassPartyLeadership :: "nat \<Rightarrow> nat \<Rightarrow> PartyState \<Rightarrow> (bool \<times> PartyState) option" where
  "playerPassPartyLeadership playerId newLeaderId s = (
     case getPlayerByID playerId s of None \<Rightarrow> Some (False, s) | Some p \<Rightarrow> do {
       pl \<leftarrow> players s p;
       case pl_party pl of None \<Rightarrow> Some (False, s) | Some P \<Rightarrow> do {
         leads \<leftarrow> isLeader P p s;
         if \<not> leads then Some (False, s) else
         case getPlayerByID newLeaderId s of None \<Rightarrow> Some (False, s) | Some q \<Rightarrow> do {
           partner \<leftarrow> isPartner p q s;
           if \<not> partner then Some (False, s) else passPartyLeadership P q s } } })"

definition playerLeaveParty :: "nat \<Rightarrow> PartyState \<Rightarrow> (bool \<times> PartyState) option" where
  "playerLeaveParty playerId s = (
     case getPlayerByID playerId s of None \<Rightarrow> Some (False, s) | Some p \<Rightarrow> do {
       pl \<leftarrow> players s p;
       case pl_party pl of None \<Rightarrow> Some (False, s) | Some P \<Rightarrow>
         if pl_infight pl then Some (False, s) else leaveParty P p s })"

definition clearPartyInvitations :: "nat \<Rightarrow> PartyState \<Rightarrow> PartyState option" where
  "clearPartyInvitations p s = do {
     pl \<leftarrow> players s p;
     let invited = invitePartyList pl;
     for_each (\<lambda>P s. do { (_, s) \<leftarrow> removeInvite P p s; Some s }) invited
       (s\<lparr>players := (players s)(p \<mapsto> pl\<lparr>invitePartyList := []\<rparr>)\<rparr>) }"

definition leave_world :: "nat \<Rightarrow> PartyState \<Rightarrow> PartyState option" where
  "leave_world p s = do {
     s \<leftarrow> clearPartyInvitations p s;
     pl \<leftarrow> players s p;
     case pl_party pl of None \<Rightarrow> Some s | Some P \<Rightarrow> do { (_, s) \<leftarrow> leaveParty P p s; Some s } }"

section \<open>Running an operation\<close>

text \<open>
  \<^term>\<open>yields m Q\<close> says that a computation succeeds with a result in \<^term>\<open>Q\<close>.  The messages only
  extend the log, so two states are compared without it, and the conditions on a state are
  stated on its heaps.
\<close>

definition yields :: "'a option \<Rightarrow> ('a \<Rightarrow> bool) \<Rightarrow> bool" where
  "yields m Q \<longleftrightarrow> (\<exists>x. m = Some x \<and> Q x)"

definition same :: "PartyState \<Rightarrow> PartyState \<Rightarrow> bool" where
  "same t s \<longleftrightarrow> parties t = parties s \<and> nextParty t = nextParty s \<and> players t = players s \<and> sees t = sees s"

definition no_dangling :: "(nat \<Rightarrow> Party option) \<Rightarrow> (nat \<Rightarrow> PartyPlayer option) \<Rightarrow> bool" where
  "no_dangling ps pls \<longleftrightarrow> (\<forall>q ql P. pls q = Some ql \<and> pl_party ql = Some P \<longrightarrow> ps P \<noteq> None)"

definition all_exist :: "(nat \<Rightarrow> Party option) \<Rightarrow> (nat \<Rightarrow> PartyPlayer option) \<Rightarrow> nat \<Rightarrow> bool" where
  "all_exist ps pls P \<longleftrightarrow> (\<exists>r l. ps P = Some r \<and> leader r = Some l \<and>
     (\<forall>q \<in> insert l (set (memberList r) \<union> set (inviteList r)). pls q \<noteq> None))"

lemma yields_bind [simp]: "yields (m \<bind> g) Q \<longleftrightarrow> yields m (\<lambda>x. yields (g x) Q)"
  by (auto simp: yields_def Option.bind_eq_Some_conv)

lemma yields_Some [simp]: "yields (Some x) Q \<longleftrightarrow> Q x"
  by (simp add: yields_def)

lemma yields_mono: "yields m Q \<Longrightarrow> (\<And>x. Q x \<Longrightarrow> R x) \<Longrightarrow> yields m R"
  by (auto simp: yields_def)

lemma yields_obtain:
  assumes "yields m Q"
  obtains x where "m = Some x" "Q x"
  using assms by (auto simp: yields_def)

lemma quiet_text: "players s p \<noteq> None \<Longrightarrow> yields (sendTextMessage p msg s) (\<lambda>t. same t s)"
  by (auto simp: sendTextMessage_def same_def)

lemma isInviting_defined:
  "no_dangling (parties s) (players s) \<Longrightarrow> players s p \<noteq> None \<Longrightarrow> isInviting p q s \<noteq> None"
  by (fastforce simp: isInviting_def isPlayerInvited_def no_dangling_def split: option.splits)

lemma getPartyShield_defined:
  assumes "no_dangling (parties s) (players s)" "players s v \<noteq> None" "players s x \<noteq> None"
  shows "getPartyShield v x s \<noteq> None"
proof -
  obtain pl where pl: "players s v = Some pl" using assms by auto
  obtain i j where "isInviting v x s = Some i" "isInviting x v s = Some j"
    using assms isInviting_defined by fastforce
  moreover have "parties s P \<noteq> None" if "pl_party pl = Some P" for P
    using assms(1) pl that by (auto simp: no_dangling_def)
  ultimately show ?thesis
    using pl by (cases "pl_party pl") (fastforce simp: getPartyShield_def isPlayerMember_def)+
qed

lemma quiet_shield:
  assumes "no_dangling (parties s) (players s)" "players s v \<noteq> None" "players s x \<noteq> None"
  shows "yields (sendCreatureShield v x s) (\<lambda>t. same t s)"
  using assms getPartyShield_defined [OF assms] by (auto simp: sendCreatureShield_def same_def)

lemma quiet_icons:
  "no_dangling (parties s) (players s) \<Longrightarrow> players s v \<noteq> None \<Longrightarrow> players s x \<noteq> None \<Longrightarrow>
    yields (sendPlayerPartyIcons v x s) (\<lambda>t. same t s)"
  using quiet_shield by (simp add: sendPlayerPartyIcons_def)

lemma quiet_for_each:
  assumes "\<And>x t. x \<in> set xs \<Longrightarrow> same t s \<Longrightarrow> yields (f x t) (\<lambda>u. same u t)"
  shows "yields (for_each f xs s) (\<lambda>t. same t s)"
  using assms
proof (induction xs arbitrary: s)
  case (Cons x xs)
  have "yields (for_each f xs t) (\<lambda>u. same u s)" if "same t s" for t
  proof -
    have "yields (for_each f xs t) (\<lambda>u. same u t)"
      using that by (intro Cons.IH Cons.prems) (auto simp: same_def)
    with that show ?thesis by (auto simp: same_def elim!: yields_mono)
  qed
  moreover have "yields (f x s) (\<lambda>t. same t s)" using Cons.prems [of x s] by (simp add: same_def)
  ultimately show ?case by (auto elim!: yields_mono)
qed (simp add: same_def)

text \<open>The same facts as rules that run a computation: what is sent leaves the heaps alone.\<close>

lemma quiet_step:
  assumes "yields m (\<lambda>t. same t s)"
    and "\<And>t. parties t = parties s \<Longrightarrow> nextParty t = nextParty s \<Longrightarrow> players t = players s \<Longrightarrow> sees t = sees s \<Longrightarrow> Q t"
  shows "yields m Q"
  using assms(1) by (rule yields_mono) (simp add: same_def assms(2))

lemmas text_step = quiet_step [OF quiet_text]
lemmas shield_step = quiet_step [OF quiet_shield]
lemmas icons_step = quiet_step [OF quiet_icons]

lemma quiet_both_ways:
  "no_dangling (parties s) (players s) \<Longrightarrow> players s p \<noteq> None \<Longrightarrow> players s m \<noteq> None \<Longrightarrow>
    yields (icons_both_ways p m s) (\<lambda>t. same t s)"
  by (auto simp: icons_both_ways_def same_def intro!: icons_step)

lemmas both_ways_step = quiet_step [OF quiet_both_ways]

lemma texts_step:
  assumes "\<And>q. q \<in> set xs \<Longrightarrow> players s q \<noteq> None"
    and "\<And>t. parties t = parties s \<Longrightarrow> nextParty t = nextParty s \<Longrightarrow> players t = players s \<Longrightarrow> sees t = sees s \<Longrightarrow> Q t"
  shows "yields (for_each (\<lambda>m. sendTextMessage m msg) xs s) Q"
  using assms by (intro quiet_step [OF quiet_for_each]) (auto simp: same_def intro!: text_step)

lemma all_icons_step:
  assumes "no_dangling (parties s) (players s)" "players s p \<noteq> None" "\<And>q. q \<in> set xs \<Longrightarrow> players s q \<noteq> None"
    and "\<And>t. parties t = parties s \<Longrightarrow> nextParty t = nextParty s \<Longrightarrow> players t = players s \<Longrightarrow> sees t = sees s \<Longrightarrow> Q t"
  shows "yields (for_each (icons_both_ways p) xs s) Q"
  using assms by (intro quiet_step [OF quiet_for_each]) (auto simp: same_def intro!: both_ways_step)

lemma quiet_updatePartyIcons:
  assumes "no_dangling (parties s) (players s)" "all_exist (parties s) (players s) P" "players s p \<noteq> None"
  shows "yields (updatePartyIcons P p s) (\<lambda>t. same t s)"
  using assms by (auto simp: updatePartyIcons_def all_exist_def getLeader_def same_def
      intro!: all_icons_step both_ways_step icons_step)

lemma quiet_updateInvitationIcons:
  assumes "no_dangling (parties s) (players s)" "all_exist (parties s) (players s) P" "players s p \<noteq> None"
  shows "yields (updateInvitationIcons P p s) (\<lambda>t. same t s)"
  using assms by (auto simp: updateInvitationIcons_def all_exist_def same_def intro!: all_icons_step)

lemma quiet_broadcast:
  assumes "all_exist (parties s) (players s) P"
  shows "yields (broadcastPartyMessage P msg wide s) (\<lambda>t. same t s)"
  using assms by (auto simp: broadcastPartyMessage_def all_exist_def getLeader_def same_def
      intro!: texts_step text_step)

lemmas party_icons_step = quiet_step [OF quiet_updatePartyIcons]
lemmas invitation_icons_step = quiet_step [OF quiet_updateInvitationIcons]
lemmas broadcast_step = quiet_step [OF quiet_broadcast]


section \<open>Effect of the operations of a party\<close>

lemma put_party_yields [simp]:
  "parties s P = Some r \<Longrightarrow> yields (put_party P f s) Q \<longleftrightarrow> Q (s\<lparr>parties := (parties s)(P \<mapsto> f r)\<rparr>)"
  by (simp add: put_party_def)

lemma setParty_yields [simp]:
  "players s p = Some pl \<Longrightarrow> yields (setParty P p s) Q \<longleftrightarrow> Q (s\<lparr>players := (players s)(p \<mapsto> pl\<lparr>pl_party := P\<rparr>)\<rparr>)"
  by (simp add: setParty_def)

lemma removePartyInvitation_yields [simp]:
  "players s p = Some pl \<Longrightarrow> yields (removePartyInvitation P p s) Q \<longleftrightarrow>
    (if P \<in> set (invitePartyList pl)
     then Q (True, s\<lparr>players := (players s)(p \<mapsto> pl\<lparr>invitePartyList := remove1 P (invitePartyList pl)\<rparr>)\<rparr>)
     else Q (False, s))"
  by (simp add: removePartyInvitation_def)

lemma getLeader_yields [simp]:
  "parties s P = Some r \<Longrightarrow> leader r = Some l \<Longrightarrow> yields (getLeader P s) Q \<longleftrightarrow> Q l"
  by (simp add: getLeader_def)

lemma no_dangling_party [intro]: "no_dangling ps pls \<Longrightarrow> no_dangling (ps(P \<mapsto> r)) pls"
  by (auto simp: no_dangling_def)

lemma no_dangling_player [intro]:
  "no_dangling ps pls \<Longrightarrow> (\<And>Q. pl_party pl = Some Q \<Longrightarrow> ps Q \<noteq> None) \<Longrightarrow> no_dangling ps (pls(p \<mapsto> pl))"
  by (auto simp: no_dangling_def)

lemma no_danglingD: "no_dangling ps pls \<Longrightarrow> pls p = Some pl \<Longrightarrow> pl_party pl = Some Q \<Longrightarrow> ps Q \<noteq> None"
  by (auto simp: no_dangling_def)

lemma all_exist_player [intro]: "all_exist ps pls P \<Longrightarrow> all_exist ps (pls(p \<mapsto> pl)) P"
  by (fastforce simp: all_exist_def)

lemma all_exist_party [intro]:
  assumes "all_exist ps pls P" "ps P = Some r"
    and "\<And>q. leader r' = Some q \<or> q \<in> set (memberList r') \<or> q \<in> set (inviteList r') \<Longrightarrow>
      leader r = Some q \<or> q \<in> set (memberList r) \<or> q \<in> set (inviteList r) \<or> pls q \<noteq> None"
    and "leader r' \<noteq> None"
  shows "all_exist (ps(P \<mapsto> r')) pls P"
  using assms by (fastforce simp: all_exist_def)

lemma all_exist_leader: "all_exist ps pls P \<Longrightarrow> ps P = Some r \<Longrightarrow> \<exists>l. leader r = Some l \<and> pls l \<noteq> None"
  by (auto simp: all_exist_def)

lemma joinParty_effect:
  assumes ok: "no_dangling (parties s) (players s)" "all_exist (parties s) (players s) P"
    and "parties s P = Some r" "players s p = Some pl" "\<not> pl_removed pl" "P \<in> set (invitePartyList pl)"
  shows "yields (joinParty P p s) (\<lambda>(b, t). b \<and>
    same t (s\<lparr>parties := (parties s)(P \<mapsto> r\<lparr>memberList := memberList r @ [p], inviteList := remove1 p (inviteList r)\<rparr>),
             players := (players s)(p \<mapsto> pl\<lparr>pl_party := Some P, invitePartyList := remove1 P (invitePartyList pl)\<rparr>)\<rparr>))"
proof -
  obtain l ll where l: "leader r = Some l" "players s l = Some ll" using all_exist_leader [OF ok(2)] assms(3) by auto
  have x: "all_exist ((parties s)(P \<mapsto> r\<lparr>memberList := memberList r @ [p], inviteList := remove1 p (inviteList r)\<rparr>)) (players s) P"
    using ok assms(3,4) l set_remove1_subset [of p "inviteList r"] by (intro all_exist_party) auto
  show ?thesis using assms l x
    by (auto simp: joinParty_def same_def intro!: broadcast_step party_icons_step text_step
        no_dangling_party no_dangling_player all_exist_player)
qed

lemma uninvite_all:
  assumes "distinct xs" "\<And>q. q \<in> set xs \<Longrightarrow> players s q \<noteq> None"
  shows "yields (for_each (\<lambda>i s. do { (_, s) \<leftarrow> removePartyInvitation P i s; Some s }) xs s) (\<lambda>t.
    same t (s\<lparr>players := (\<lambda>q. if q \<in> set xs
      then map_option (\<lambda>pl. pl\<lparr>invitePartyList := remove1 P (invitePartyList pl)\<rparr>) (players s q) else players s q)\<rparr>))"
  using assms
proof (induction xs arbitrary: s)
  case (Cons x xs)
  obtain pl where pl: "players s x = Some pl" using Cons.prems by force
  define s1 where "s1 = s\<lparr>players := (players s)(x \<mapsto> pl\<lparr>invitePartyList := remove1 P (invitePartyList pl)\<rparr>)\<rparr>"
  have unchanged: "same s s1" if "P \<notin> set (invitePartyList pl)"
    using that pl by (auto simp: same_def s1_def remove1_idem)
  have step: "yields (removePartyInvitation P x s) (\<lambda>(b, t). same t s1)"
    using pl unchanged by (auto simp: s1_def same_def)
  have rest: "yields (for_each (\<lambda>i s. do { (_, s) \<leftarrow> removePartyInvitation P i s; Some s }) xs t) (\<lambda>u.
    same u (t\<lparr>players := (\<lambda>q. if q \<in> set xs
      then map_option (\<lambda>pl. pl\<lparr>invitePartyList := remove1 P (invitePartyList pl)\<rparr>) (players t q) else players t q)\<rparr>))"
    if "same t s1" for t
    using Cons.prems that by (intro Cons.IH) (auto simp: same_def s1_def)
  have "yields (for_each (\<lambda>i s. do { (_, s) \<leftarrow> removePartyInvitation P i s; Some s }) xs t) (\<lambda>t.
    same t (s\<lparr>players := (\<lambda>q. if q \<in> set (x # xs)
      then map_option (\<lambda>pl. pl\<lparr>invitePartyList := remove1 P (invitePartyList pl)\<rparr>) (players s q) else players s q)\<rparr>))"
    if "same t s1" for t
    using rest [OF that] that Cons.prems(1) pl by (auto simp: same_def s1_def fun_eq_iff elim!: yields_mono)
  with step show ?case by (auto elim!: yields_mono split: prod.splits)
qed (simp add: same_def)

lemma unparty_all:
  assumes "\<And>q. q \<in> set xs \<Longrightarrow> players s q \<noteq> None"
  shows "yields (for_each (setParty None) xs s) (\<lambda>t.
    same t (s\<lparr>players := (\<lambda>q. if q \<in> set xs then map_option (\<lambda>pl. pl\<lparr>pl_party := None\<rparr>) (players s q) else players s q)\<rparr>))"
  using assms
proof (induction xs arbitrary: s)
  case (Cons x xs)
  obtain pl where pl: "players s x = Some pl" using Cons.prems by force
  have "yields (for_each (setParty None) xs t) (\<lambda>u.
    same u (t\<lparr>players := (\<lambda>q. if q \<in> set xs then map_option (\<lambda>pl. pl\<lparr>pl_party := None\<rparr>) (players t q) else players t q)\<rparr>))"
    if "t = s\<lparr>players := (players s)(x \<mapsto> pl\<lparr>pl_party := None\<rparr>)\<rparr>" for t
    using Cons.prems that by (intro Cons.IH) auto
  with pl show ?case by (auto simp: same_def fun_eq_iff elim!: yields_mono)
qed (simp add: same_def)

definition disbanded :: "nat \<Rightarrow> Party \<Rightarrow> nat \<Rightarrow> PartyPlayer \<Rightarrow> PartyPlayer" where
  "disbanded P r q pl = pl\<lparr>
     pl_party := (if leader r = Some q \<or> q \<in> set (memberList r) then None else pl_party pl),
     invitePartyList := (if q \<in> set (inviteList r) then remove1 P (invitePartyList pl) else invitePartyList pl)\<rparr>"

lemma disband_effect:
  assumes ok: "no_dangling (parties s) (players s)" "all_exist (parties s) (players s) P"
    and r: "parties s P = Some r" "distinct (inviteList r)"
  shows "yields (disband P s) (\<lambda>t. same t (s\<lparr>parties := (parties s)(P := None),
    players := (\<lambda>q. map_option (disbanded P r q) (players s q))\<rparr>))"
proof -
  obtain l ll where l: "leader r = Some l" "players s l = Some ll" using all_exist_leader [OF ok(2) r(1)] by auto
  have ex: "\<And>q. q \<in> set (memberList r) \<Longrightarrow> players s q \<noteq> None" "\<And>q. q \<in> set (inviteList r) \<Longrightarrow> players s q \<noteq> None"
    using ok r by (auto simp: all_exist_def)
  note uninvite = quiet_step [OF uninvite_all]
  note unparty = quiet_step [OF unparty_all]
  show ?thesis
    using ok r l ex
    by (auto simp: disband_def setLeader_def same_def intro!: text_step icons_step uninvite unparty no_dangling_player)
      (auto simp: fun_eq_iff disbanded_def map_option_case split: option.splits)
qed

lemma invitePlayer_effect:
  assumes ok: "no_dangling (parties s) (players s)" "all_exist (parties s) (players s) P"
    and r: "parties s P = Some r" "players s p = Some pl" "\<not> pl_removed pl" "p \<notin> set (inviteList r)" "P \<notin> set (invitePartyList pl)"
  shows "yields (invitePlayer P p s) (\<lambda>(b, t). b \<and>
    same t (s\<lparr>parties := (parties s)(P \<mapsto> r\<lparr>inviteList := inviteList r @ [p]\<rparr>),
             players := (players s)(p \<mapsto> pl\<lparr>invitePartyList := invitePartyList pl @ [P]\<rparr>)\<rparr>))"
proof -
  obtain l ll where l: "leader r = Some l" "players s l = Some ll" using all_exist_leader [OF ok(2) r(1)] by auto
  then show ?thesis using ok r
    by (auto simp: invitePlayer_def addPartyInvitation_def same_def intro!: text_step icons_step no_dangling_party)
qed

text \<open>A party that has lost its last member and invitation is disbanded.\<close>

definition if_empty_disband :: "nat \<Rightarrow> Party \<Rightarrow> PartyState \<Rightarrow> PartyState" where
  "if_empty_disband P r s = (if memberList r = [] \<and> inviteList r = []
     then s\<lparr>parties := (parties s)(P := None), players := (\<lambda>q. map_option (disbanded P r q) (players s q))\<rparr>
     else s\<lparr>parties := (parties s)(P \<mapsto> r)\<rparr>)"

lemma removeInvite_effect:
  assumes ok: "no_dangling (parties s) (players s)" "all_exist (parties s) (players s) P"
    and r: "parties s P = Some r" "players s p = Some pl" "\<not> pl_removed pl" "p \<in> set (inviteList r)" "distinct (inviteList r)"
  shows "yields (removeInvite P p s) (\<lambda>(b, t). b \<and>
    same t (if_empty_disband P (r\<lparr>inviteList := remove1 p (inviteList r)\<rparr>)
      (s\<lparr>players := (players s)(p \<mapsto> pl\<lparr>invitePartyList := remove1 P (invitePartyList pl)\<rparr>)\<rparr>)))"
proof -
  obtain l ll where l: "leader r = Some l" "players s l = Some ll" using all_exist_leader [OF ok(2) r(1)] by auto
  define r' where "r' = r\<lparr>inviteList := remove1 p (inviteList r)\<rparr>"
  define pl' where "pl' = pl\<lparr>invitePartyList := remove1 P (invitePartyList pl)\<rparr>"
  define s1 where "s1 = s\<lparr>parties := (parties s)(P \<mapsto> r'), players := (players s)(p \<mapsto> pl')\<rparr>"
  have step: "yields (removePartyInvitation P p (s\<lparr>parties := (parties s)(P \<mapsto> r')\<rparr>)) (\<lambda>(b, t). same t s1)"
    using r by (auto simp: s1_def same_def pl'_def remove1_idem)
  have ok1: "no_dangling (parties s1) (players s1)" "all_exist (parties s1) (players s1) P" 
    "parties s1 P = Some r'" "leader r' = Some l" "players s1 l \<noteq> None" "players s1 p = Some pl'" "distinct (inviteList r')"
    using ok r l set_remove1_subset [of p "inviteList r"]
    by (auto simp: s1_def r'_def pl'_def intro!: no_dangling_party no_dangling_player all_exist_player all_exist_party dest: no_danglingD)
  have dis: "yields (disband P t) (\<lambda>u. same u (if_empty_disband P r' (s\<lparr>players := (players s)(p \<mapsto> pl')\<rparr>)))"
    if "same t s1" "memberList r' = []" "inviteList r' = []" for t
    using that ok1 by (intro yields_mono [OF disband_effect [of t P r']]) (auto simp: same_def if_empty_disband_def s1_def)
  have rest: "yields (do { l \<leftarrow> getLeader P t; t \<leftarrow> sendCreatureShield l p t; t \<leftarrow> sendCreatureShield p l t;
        empty \<leftarrow> disbandParty P t; t \<leftarrow> (if empty then disband P t else Some t); Some (True, t) })
      (\<lambda>(b, u). b \<and> same u (if_empty_disband P r' (s\<lparr>players := (players s)(p \<mapsto> pl')\<rparr>)))" if "same t s1" for t
    using ok1 dis that
    by (auto simp: same_def disbandParty_def if_empty_disband_def s1_def intro!: shield_step)
  show ?thesis
    using r step rest
    by (auto simp: removeInvite_def isPlayerInvited_def simp flip: r'_def pl'_def
        simp del: removePartyInvitation_yields elim!: yields_mono)
qed

lemma passPartyLeadership_effect:
  assumes ok: "no_dangling (parties s) (players s)" "all_exist (parties s) (players s) P"
    and r: "parties s P = Some r" "leader r = Some l" "p \<in> set (memberList r)" "l \<noteq> p"
  shows "yields (passPartyLeadership P p s) (\<lambda>(b, t). b \<and>
    same t (s\<lparr>parties := (parties s)(P \<mapsto> r\<lparr>leader := Some p, memberList := l # remove1 p (memberList r)\<rparr>)\<rparr>))"
proof -
  have ex: "players s p \<noteq> None" "players s l \<noteq> None" using ok r by (auto simp: all_exist_def)
  have "all_exist ((parties s)(P \<mapsto> r\<lparr>memberList := remove1 p (memberList r)\<rparr>)) (players s) P"
    "all_exist ((parties s)(P \<mapsto> r\<lparr>leader := Some p, memberList := l # remove1 p (memberList r)\<rparr>)) (players s) P"
    using ok r ex set_remove1_subset [of p "memberList r"] by (auto intro!: all_exist_party)
  then show ?thesis using ok r ex
    by (auto simp: passPartyLeadership_def setLeader_def same_def
        intro!: broadcast_step invitation_icons_step party_icons_step text_step no_dangling_party)
qed

definition left_party :: "nat \<Rightarrow> Party \<Rightarrow> Party" where
  "left_party p r = r\<lparr>
     leader := (if leader r = Some p \<and> memberList r \<noteq> [] then Some (hd (memberList r)) else leader r),
     memberList := (if leader r = Some p then tl (memberList r) else remove1 p (memberList r))\<rparr>"

definition after_leave :: "nat \<Rightarrow> nat \<Rightarrow> Party \<Rightarrow> PartyState \<Rightarrow> PartyState" where
  "after_leave P p r s = (let r' = left_party p r in
     if memberList r' = [] \<and> (inviteList r' = [] \<or> leader r' = Some p)
     then s\<lparr>parties := (parties s)(P := None), players := (\<lambda>q. map_option (disbanded P r' q) (players s q))\<rparr>
     else s\<lparr>parties := (parties s)(P \<mapsto> r')\<rparr>)"

lemma passed_front:
  assumes ok: "no_dangling (parties s) (players s)" "all_exist (parties s) (players s) P"
    and r: "parties s P = Some r" "leader r = Some l" "distinct (l # memberList r)" "p = l \<or> p \<in> set (memberList r)"
  shows "yields (if leader r = Some p
          then if memberList r \<noteq> []
               then do { (_, s) \<leftarrow> passPartyLeadership P (hd (memberList r)) s; Some (False, s) }
               else Some (True, s)
          else Some (False, s))
    (\<lambda>(h, t). (h \<longleftrightarrow> l = p \<and> memberList r = []) \<and> (\<exists>r1. same t (s\<lparr>parties := (parties s)(P \<mapsto> r1)\<rparr>) \<and>
      r1\<lparr>memberList := remove1 p (memberList r1)\<rparr> = left_party p r \<and> inviteList r1 = inviteList r))"
proof (cases "l = p \<and> memberList r \<noteq> []")
  case False
  then have "r\<lparr>memberList := remove1 p (memberList r)\<rparr> = left_party p r"
    using r by (auto simp: left_party_def)
  moreover have "(parties s)(P \<mapsto> r) = parties s" using r(1) by auto
  ultimately have "same s (s\<lparr>parties := (parties s)(P \<mapsto> r)\<rparr>)" "r\<lparr>memberList := remove1 p (memberList r)\<rparr> = left_party p r"
    by (simp_all add: same_def)
  then show ?thesis using r False by auto
next
  case True
  then obtain h ms where ms: "memberList r = h # ms" by (cases "memberList r") auto
  have "yields (passPartyLeadership P h s) (\<lambda>(b, t). b \<and>
    same t (s\<lparr>parties := (parties s)(P \<mapsto> r\<lparr>leader := Some h, memberList := p # remove1 h (memberList r)\<rparr>)\<rparr>))"
    using True r ms by (intro passPartyLeadership_effect [OF ok]) auto
  then show ?thesis using True r ms
    by (auto simp: left_party_def elim!: yields_mono intro!: exI [of _ "r\<lparr>leader := Some h, memberList := p # ms\<rparr>"])
qed

lemma leaveParty_effect:
  assumes ok: "no_dangling (parties s) (players s)" "all_exist (parties s) (players s) P"
    and r: "parties s P = Some r" "leader r = Some l" "distinct (l # memberList r)" "p = l \<or> p \<in> set (memberList r)"
      "distinct (inviteList r)" "p \<notin> set (inviteList r)" "players s p = Some pl"
  shows "yields (leaveParty P p s) (\<lambda>(b, t). b \<and>
    same t (after_leave P p r (s\<lparr>players := (players s)(p \<mapsto> pl\<lparr>pl_party := None\<rparr>)\<rparr>)))"
proof -
  define r' where "r' = left_party p r"
  define pls where "pls = (players s)(p \<mapsto> pl\<lparr>pl_party := None\<rparr>)"
  have inv: "inviteList r' = inviteList r" by (simp add: r'_def left_party_def)
  have "set (memberList r') \<subseteq> set (memberList r)" "leader r' = Some l \<or> (\<exists>h \<in> set (memberList r). leader r' = Some h)"
    using r by (cases "memberList r"; auto simp: r'_def left_party_def dest: notin_set_remove1)+
  then have ok': "no_dangling ((parties s)(P \<mapsto> r')) pls" "all_exist ((parties s)(P \<mapsto> r')) pls P" "all_exist ((parties s)(P \<mapsto> r')) (players s) P"
    using ok r inv by (auto simp: pls_def intro!: no_dangling_player no_dangling_party all_exist_player all_exist_party)
  have dis: "yields (disband P t) (\<lambda>u. same u (s\<lparr>parties := (parties s)(P := None), players := (\<lambda>q. map_option (disbanded P r' q) (pls q))\<rparr>))"
    if "same t (s\<lparr>parties := (parties s)(P \<mapsto> r'), players := pls\<rparr>)" for t
    using that ok' inv r by (intro yields_mono [OF disband_effect [of t P r']]) (auto simp: same_def)
  define final where "final = after_leave P p r (s\<lparr>players := pls\<rparr>)"
  define last where "last \<longleftrightarrow> memberList r' = [] \<and> (inviteList r' = [] \<or> leader r' = Some p)"
  have last: "last \<longleftrightarrow> (l = p \<and> memberList r = []) \<or> (memberList r' = [] \<and> inviteList r' = [])"
    using r by (auto simp: last_def r'_def left_party_def)
  have ends: "yields (if last then disband P t else Some t) (\<lambda>u. same u final)"
    if "same t (s\<lparr>parties := (parties s)(P \<mapsto> r'), players := pls\<rparr>)" for t
    using that dis [OF that]
    by (cases last) (auto simp: final_def after_leave_def Let_def last_def same_def simp flip: r'_def elim!: yields_mono)
  have rest: "yields (do {
       t \<leftarrow> put_party P (\<lambda>r. r\<lparr>memberList := remove1 p (memberList r)\<rparr>) t;
       t \<leftarrow> put_party P (\<lambda>r. r\<lparr>inviteList := remove1 p (inviteList r)\<rparr>) t;
       t \<leftarrow> sendTextMessage p ''You have left the party.'' t;
       t \<leftarrow> setParty None p t;
       t \<leftarrow> updatePartyIcons P p t;
       t \<leftarrow> updateInvitationIcons P p t;
       pl \<leftarrow> players t p;
       t \<leftarrow> broadcastPartyMessage P (pl_name pl @ '' has left the party.'') False t;
       empty \<leftarrow> disbandParty P t;
       t \<leftarrow> (if h \<or> empty then disband P t else Some t);
       Some (True, t) })
      (\<lambda>(b, u). b \<and> same u final)"
    if t: "same t (s\<lparr>parties := (parties s)(P \<mapsto> r1)\<rparr>)" "r1\<lparr>memberList := remove1 p (memberList r1)\<rparr> = r'"
      "inviteList r1 = inviteList r" and h: "h \<longleftrightarrow> l = p \<and> memberList r = []" for t r1 h
  proof -
    have r1: "r1\<lparr>memberList := remove1 p (memberList r1), inviteList := remove1 p (inviteList r)\<rparr> = r'"
      by (rule Party.Party.equality) (use t(2,3) r(6) in \<open>auto simp: remove1_idem\<close>)
    have heaps: "yields (if last then disband P u else Some u) (\<lambda>u. same u final)"
      if "parties u = (parties s)(P \<mapsto> r')" "nextParty u = nextParty s" "players u = pls" "sees u = sees s" for u
      using that by (intro ends) (simp add: same_def)
    have emptied: "(h \<or> memberList r' = [] \<and> inviteList r' = []) \<longleftrightarrow> last" using last h by blast
    have t': "parties t = (parties s)(P \<mapsto> r1)" "nextParty t = nextParty s" "players t = players s" "sees t = sees s"
      using t(1) by (auto simp: same_def)
    show ?thesis
      by (auto simp: t' t(3) r(7) r1 ok' [unfolded pls_def] emptied disbandParty_def split del: if_split
          intro!: text_step party_icons_step invitation_icons_step broadcast_step heaps [unfolded pls_def])
  qed
  show ?thesis
    using r rest passed_front [OF ok r(1-4)]
    by (auto simp: leaveParty_def simp flip: r'_def pls_def final_def elim!: yields_mono simp del: put_party_yields setParty_yields split del: if_split)
qed

lemma new_Party_effect:
  assumes "no_dangling (parties s) (players s)" "players s l = Some pl"
  shows "yields (new_Party l s) (\<lambda>(P, t). P = nextParty s \<and>
    same t (s\<lparr>parties := (parties s)(P \<mapsto> \<lparr>leader = Some l, memberList = [], inviteList = []\<rparr>), nextParty := Suc P,
             players := (players s)(l \<mapsto> pl\<lparr>pl_party := Some P\<rparr>)\<rparr>))"
  using assms by (auto simp: new_Party_def setLeader_def Let_def same_def no_dangling_def intro!: icons_step)

section \<open>The invariant of parties\<close>

text \<open>
  A party has a leader and members, all different, who are the players that point to it; its
  invitations are the players that hold one of it, none of whom is in the party.
\<close>

definition belongs :: "(nat \<Rightarrow> PartyPlayer option) \<Rightarrow> nat \<Rightarrow> nat \<Rightarrow> bool" where
  "belongs pls q P \<longleftrightarrow> (case pls q of None \<Rightarrow> False | Some ql \<Rightarrow> pl_party ql = Some P)"

definition invited_by :: "(nat \<Rightarrow> PartyPlayer option) \<Rightarrow> nat \<Rightarrow> nat \<Rightarrow> bool" where
  "invited_by pls q P \<longleftrightarrow> (case pls q of None \<Rightarrow> False | Some ql \<Rightarrow> P \<in> set (invitePartyList ql))"

definition party_ok :: "(nat \<Rightarrow> PartyPlayer option) \<Rightarrow> nat \<Rightarrow> Party \<Rightarrow> bool" where
  "party_ok pls P r \<longleftrightarrow> (\<exists>l. leader r = Some l \<and> distinct (l # memberList r) \<and> distinct (inviteList r) \<and>
     (\<forall>q. belongs pls q P \<longleftrightarrow> q = l \<or> q \<in> set (memberList r)) \<and>
     (\<forall>q. invited_by pls q P \<longleftrightarrow> q \<in> set (inviteList r)) \<and>
     set (l # memberList r) \<inter> set (inviteList r) = {})"

definition player_ok :: "(nat \<Rightarrow> Party option) \<Rightarrow> PartyPlayer \<Rightarrow> bool" where
  "player_ok ps pl \<longleftrightarrow> distinct (invitePartyList pl) \<and> (\<forall>P \<in> set (invitePartyList pl). ps P \<noteq> None) \<and>
     (\<forall>P. pl_party pl = Some P \<longrightarrow> ps P \<noteq> None) \<and> (pl_removed pl \<longrightarrow> pl_party pl = None \<and> invitePartyList pl = [])"

definition parties_inv :: "PartyState \<Rightarrow> bool" where
  "parties_inv s \<longleftrightarrow>
     (\<forall>P r. parties s P = Some r \<longrightarrow> P < nextParty s \<and> party_ok (players s) P r \<and> (memberList r \<noteq> [] \<or> inviteList r \<noteq> [])) \<and>
     (\<forall>p pl. players s p = Some pl \<longrightarrow> player_ok (parties s) pl)"

lemma parties_inv_same: "same t s \<Longrightarrow> parties_inv t = parties_inv s"
  by (simp add: same_def parties_inv_def)

lemma parties_invD:
  assumes "parties_inv s"
  shows "parties s P = Some r \<Longrightarrow> P < nextParty s" "parties s P = Some r \<Longrightarrow> party_ok (players s) P r"
    "parties s P = Some r \<Longrightarrow> memberList r \<noteq> [] \<or> inviteList r \<noteq> []"
    "players s p = Some pl \<Longrightarrow> player_ok (parties s) pl"
  using assms by (auto simp: parties_inv_def)

lemma inv_no_dangling: "parties_inv s \<Longrightarrow> no_dangling (parties s) (players s)"
  by (fastforce simp: parties_inv_def player_ok_def no_dangling_def)

lemma belongs_upd [simp]:
  "belongs (pls(p \<mapsto> pl)) q P \<longleftrightarrow> (if q = p then pl_party pl = Some P else belongs pls q P)"
  "invited_by (pls(p \<mapsto> pl)) q P \<longleftrightarrow> (if q = p then P \<in> set (invitePartyList pl) else invited_by pls q P)"
  by (auto simp: belongs_def invited_by_def)

lemma belongs_Some:
  "pls p = Some pl \<Longrightarrow> belongs pls p P \<longleftrightarrow> pl_party pl = Some P"
  "pls p = Some pl \<Longrightarrow> invited_by pls p P \<longleftrightarrow> P \<in> set (invitePartyList pl)"
  by (auto simp: belongs_def invited_by_def)

lemma belongsD: "belongs pls q P \<Longrightarrow> pls q \<noteq> None" "invited_by pls q P \<Longrightarrow> pls q \<noteq> None"
  by (auto simp: belongs_def invited_by_def split: option.splits)

lemma party_ok_exist:
  assumes "party_ok (players s) P r" "parties s P = Some r"
  shows "all_exist (parties s) (players s) P"
proof -
  obtain l where l: "leader r = Some l" "\<And>q. belongs (players s) q P \<longleftrightarrow> q = l \<or> q \<in> set (memberList r)"
    "\<And>q. invited_by (players s) q P \<longleftrightarrow> q \<in> set (inviteList r)" using assms(1) by (auto simp: party_ok_def)
  have "players s q \<noteq> None" if "q = l \<or> q \<in> set (memberList r) \<or> q \<in> set (inviteList r)" for q
    using that l(2,3) [of q] belongsD [of "players s" q P] by blast
  with l(1) assms(2) show ?thesis by (auto simp: all_exist_def)
qed

lemma inv_all_exist: "parties_inv s \<Longrightarrow> parties s P = Some r \<Longrightarrow> all_exist (parties s) (players s) P"
  by (blast intro: party_ok_exist parties_invD)

text \<open>A party is not concerned by a player whose relation to it stays as it is.\<close>

lemma party_ok_other:
  assumes "party_ok pls P r" "pls p = Some pl"
    and "pl_party pl' = Some P \<longleftrightarrow> pl_party pl = Some P" "P \<in> set (invitePartyList pl') \<longleftrightarrow> P \<in> set (invitePartyList pl)"
  shows "party_ok (pls(p \<mapsto> pl')) P r"
proof -
  have "belongs (pls(p \<mapsto> pl')) q P = belongs pls q P" "invited_by (pls(p \<mapsto> pl')) q P = invited_by pls q P" for q
    using assms(2-4) by (auto simp: belongs_Some)
  with assms(1) show ?thesis by (simp only: party_ok_def)
qed

lemma player_ok_more: "player_ok ps pl \<Longrightarrow> player_ok (ps(P \<mapsto> r)) pl"
  by (auto simp: player_ok_def)

text \<open>One party and one of the players change together.\<close>

lemma inv_update:
  assumes inv: "parties_inv s" and P: "parties s P \<noteq> None" and p: "players s p = Some pl"
    and r': "party_ok ((players s)(p \<mapsto> pl')) P r'" "memberList r' \<noteq> [] \<or> inviteList r' \<noteq> []"
    and pl': "player_ok ((parties s)(P \<mapsto> r')) pl'"
    and others: "\<And>Q. Q \<noteq> P \<Longrightarrow> pl_party pl' = Some Q \<longleftrightarrow> pl_party pl = Some Q"
      "\<And>Q. Q \<noteq> P \<Longrightarrow> Q \<in> set (invitePartyList pl') \<longleftrightarrow> Q \<in> set (invitePartyList pl)"
  shows "parties_inv (s\<lparr>parties := (parties s)(P \<mapsto> r'), players := (players s)(p \<mapsto> pl')\<rparr>)"
proof -
  have "party_ok ((players s)(p \<mapsto> pl')) Q r" if "parties s Q = Some r" "Q \<noteq> P" for Q r
    using parties_invD(2) [OF inv] p that others by (blast intro: party_ok_other)
  then show ?thesis using inv P r' pl' by (auto simp: parties_inv_def player_ok_more)
qed

lemma inv_invite:
  assumes inv: "parties_inv s" and r: "parties s P = Some r"
    and p: "players s p = Some pl" "\<not> pl_removed pl" "p \<notin> set (inviteList r)" "pl_party pl = None"
  shows "P \<notin> set (invitePartyList pl)"
    "parties_inv (s\<lparr>parties := (parties s)(P \<mapsto> r\<lparr>inviteList := inviteList r @ [p]\<rparr>),
       players := (players s)(p \<mapsto> pl\<lparr>invitePartyList := invitePartyList pl @ [P]\<rparr>)\<rparr>)"
proof -
  note ok = parties_invD(2) [OF inv r]
  then show new: "P \<notin> set (invitePartyList pl)" using p by (auto simp: party_ok_def belongs_Some(2) [of "players s", OF p(1)])
  have out: "\<not> belongs (players s) p P" using p by (simp add: belongs_Some)
  have "player_ok (parties s) pl" using inv p(1) by (rule parties_invD)
  then show "parties_inv (s\<lparr>parties := (parties s)(P \<mapsto> r\<lparr>inviteList := inviteList r @ [p]\<rparr>),
       players := (players s)(p \<mapsto> pl\<lparr>invitePartyList := invitePartyList pl @ [P]\<rparr>)\<rparr>)"
    using ok p new r out by (intro inv_update [OF inv]) (auto simp: party_ok_def player_ok_def)
qed

lemma inv_join:
  assumes inv: "parties_inv s" and r: "parties s P = Some r"
    and p: "players s p = Some pl" "\<not> pl_removed pl" "p \<in> set (inviteList r)" "pl_party pl = None"
  shows "parties_inv (s\<lparr>parties := (parties s)(P \<mapsto> r\<lparr>memberList := memberList r @ [p], inviteList := remove1 p (inviteList r)\<rparr>),
       players := (players s)(p \<mapsto> pl\<lparr>pl_party := Some P, invitePartyList := remove1 P (invitePartyList pl)\<rparr>)\<rparr>)"
proof -
  note ok = parties_invD(2) [OF inv r]
  have out: "\<not> belongs (players s) p P" using p by (simp add: belongs_Some)
  have "player_ok (parties s) pl" using inv p(1) by (rule parties_invD)
  then show ?thesis
    using ok p r out by (intro inv_update [OF inv]) (auto simp: party_ok_def player_ok_def set_remove1_eq)
qed

text \<open>The invariant while one party may be about to be disbanded.\<close>

definition parties_inv_but :: "nat \<Rightarrow> PartyState \<Rightarrow> bool" where
  "parties_inv_but P s \<longleftrightarrow>
     (\<forall>Q r. Q \<noteq> P \<longrightarrow> parties s Q = Some r \<longrightarrow> Q < nextParty s \<and> party_ok (players s) Q r \<and> (memberList r \<noteq> [] \<or> inviteList r \<noteq> [])) \<and>
     (\<forall>p pl. players s p = Some pl \<longrightarrow> player_ok (parties s) pl)"

lemma parties_inv_but_self:
  "parties_inv_but P s \<Longrightarrow> parties s P = Some r \<Longrightarrow> P < nextParty s \<Longrightarrow> party_ok (players s) P r \<Longrightarrow>
    memberList r \<noteq> [] \<or> inviteList r \<noteq> [] \<Longrightarrow> parties_inv s"
  unfolding parties_inv_but_def parties_inv_def by (metis option.inject)

lemma inv_but_update:
  assumes inv: "parties_inv s" and P: "parties s P \<noteq> None" and p: "players s p = Some pl"
    and pl': "player_ok ((parties s)(P \<mapsto> r')) pl'"
    and others: "\<And>Q. Q \<noteq> P \<Longrightarrow> pl_party pl' = Some Q \<longleftrightarrow> pl_party pl = Some Q"
      "\<And>Q. Q \<noteq> P \<Longrightarrow> Q \<in> set (invitePartyList pl') \<longleftrightarrow> Q \<in> set (invitePartyList pl)"
  shows "parties_inv_but P (s\<lparr>players := (players s)(p \<mapsto> pl'), parties := (parties s)(P \<mapsto> r')\<rparr>)"
proof -
  have "party_ok ((players s)(p \<mapsto> pl')) Q r" if "parties s Q = Some r" "Q \<noteq> P" for Q r
    using parties_invD(2) [OF inv] p that others by (blast intro: party_ok_other)
  then show ?thesis using inv P pl' by (auto simp: parties_inv_def parties_inv_but_def player_ok_more)
qed

lemma inv_disband:
  assumes inv: "parties_inv_but P s" and r: "parties s P = Some r"
    and in_P: "\<And>q. belongs (players s) q P \<Longrightarrow> leader r = Some q \<or> q \<in> set (memberList r)"
    and only_P: "\<And>q Q. leader r = Some q \<or> q \<in> set (memberList r) \<Longrightarrow> belongs (players s) q Q \<Longrightarrow> Q = P"
    and inv_P: "\<And>q. invited_by (players s) q P \<Longrightarrow> q \<in> set (inviteList r)"
  shows "parties_inv (s\<lparr>parties := (parties s)(P := None), players := (\<lambda>q. map_option (disbanded P r q) (players s q))\<rparr>)"
proof -
  let ?pls = "\<lambda>q. map_option (disbanded P r q) (players s q)"
  have ok: "player_ok (parties s) pl" if "players s q = Some pl" for q pl using inv that by (auto simp: parties_inv_but_def)
  have b: "belongs ?pls q Q = belongs (players s) q Q" if "Q \<noteq> P" for q Q
    using only_P [of q Q] that by (cases "players s q") (auto simp: belongs_def disbanded_def)
  have i: "invited_by ?pls q Q = invited_by (players s) q Q" if "Q \<noteq> P" for q Q
    using that by (cases "players s q") (auto simp: invited_by_def disbanded_def)
  have "party_ok ?pls Q r'" if "parties s Q = Some r'" "Q \<noteq> P" for Q r'
    using inv that b i by (simp add: parties_inv_but_def party_ok_def)
  moreover have "player_ok ((parties s)(P := None)) (disbanded P r q pl)" if "players s q = Some pl" for q pl
  proof -
    have "Q \<noteq> P" if "pl_party (disbanded P r q pl) = Some Q" for Q
      using that in_P [of q] \<open>players s q = Some pl\<close> by (auto simp: disbanded_def belongs_def split: if_splits)
    moreover have "Q \<noteq> P" if "Q \<in> set (invitePartyList (disbanded P r q pl))" for Q
      using that inv_P [of q] ok [OF \<open>players s q = Some pl\<close>] \<open>players s q = Some pl\<close>
      by (auto simp: disbanded_def invited_by_def player_ok_def split: if_splits)
    ultimately show ?thesis using ok [OF that]
      by (auto simp: player_ok_def disbanded_def split: if_splits dest: notin_set_remove1)
  qed
  ultimately show ?thesis using inv by (auto simp: parties_inv_but_def parties_inv_def)
qed

lemma belongs_unique: "belongs pls q P \<Longrightarrow> belongs pls q Q \<Longrightarrow> Q = P"
  by (auto simp: belongs_def split: option.splits)

lemma inv_disband_ok:
  assumes inv: "parties_inv_but P s" and r: "parties s P = Some r" and ok: "party_ok (players s) P r"
  shows "parties_inv (s\<lparr>parties := (parties s)(P := None), players := (\<lambda>q. map_option (disbanded P r q) (players s q))\<rparr>)"
proof (rule inv_disband [OF inv r])
  show "Q = P" if "leader r = Some q \<or> q \<in> set (memberList r)" "belongs (players s) q Q" for q Q
    using ok that belongs_unique [of "players s" q P Q] by (auto simp: party_ok_def)
qed (use ok in \<open>auto simp: party_ok_def\<close>)

lemma inv_uninvite:
  assumes inv: "parties_inv s" and r: "parties s P = Some r"
    and p: "players s p = Some pl" "p \<in> set (inviteList r)"
  shows "parties_inv (if_empty_disband P (r\<lparr>inviteList := remove1 p (inviteList r)\<rparr>)
      (s\<lparr>players := (players s)(p \<mapsto> pl\<lparr>invitePartyList := remove1 P (invitePartyList pl)\<rparr>)\<rparr>))"
proof -
  define r' where "r' = r\<lparr>inviteList := remove1 p (inviteList r)\<rparr>"
  define pl' where "pl' = pl\<lparr>invitePartyList := remove1 P (invitePartyList pl)\<rparr>"
  define s1 where "s1 = s\<lparr>players := (players s)(p \<mapsto> pl'), parties := (parties s)(P \<mapsto> r')\<rparr>"
  note ok = parties_invD(2) [OF inv r]
  have pl: "player_ok (parties s) pl" using inv p(1) by (rule parties_invD)
  have out: "pl_party pl \<noteq> Some P"
    using ok p(2) belongs_Some(1) [of "players s", OF p(1), of P] by (auto simp: party_ok_def)
  have ok': "party_ok (players s1) P r'"
    using ok pl p out by (auto simp: party_ok_def s1_def r'_def pl'_def player_ok_def)
  have but: "parties_inv_but P s1"
    using pl r p unfolding s1_def
    by (intro inv_but_update [OF inv]) (auto simp: pl'_def player_ok_def dest: notin_set_remove1)
  have "parties_inv s1" if "memberList r' \<noteq> [] \<or> inviteList r' \<noteq> []"
    using parties_inv_but_self [OF but] ok' that parties_invD(1) [OF inv r] by (simp add: s1_def)
  moreover have "parties_inv (s1\<lparr>parties := (parties s1)(P := None), players := (\<lambda>q. map_option (disbanded P r' q) (players s1 q))\<rparr>)"
    using ok' by (intro inv_disband_ok [OF but]) (simp_all add: s1_def)
  ultimately show ?thesis
    unfolding if_empty_disband_def r'_def [symmetric] pl'_def [symmetric] by (simp add: s1_def)
qed

lemma inv_pass:
  assumes inv: "parties_inv s" and r: "parties s P = Some r" "leader r = Some l" and p: "p \<in> set (memberList r)"
  shows "parties_inv (s\<lparr>parties := (parties s)(P \<mapsto> r\<lparr>leader := Some p, memberList := l # remove1 p (memberList r)\<rparr>)\<rparr>)"
proof -
  have "party_ok (players s) P (r\<lparr>leader := Some p, memberList := l # remove1 p (memberList r)\<rparr>)"
    using parties_invD(2) [OF inv r(1)] r p by (auto simp: party_ok_def)
  then show ?thesis using inv r by (auto simp: parties_inv_def player_ok_more)
qed

lemma inv_leave:
  assumes inv: "parties_inv s" and r: "parties s P = Some r"
    and p: "players s p = Some pl" "pl_party pl = Some P"
  shows "parties_inv (after_leave P p r (s\<lparr>players := (players s)(p \<mapsto> pl\<lparr>pl_party := None\<rparr>)\<rparr>))"
proof -
  define r' where "r' = left_party p r"
  define pl' where "pl' = pl\<lparr>pl_party := None\<rparr>"
  define s1 where "s1 = s\<lparr>players := (players s)(p \<mapsto> pl'), parties := (parties s)(P \<mapsto> r')\<rparr>"
  note ok = parties_invD(2) [OF inv r]
  then obtain l where l: "leader r = Some l" by (auto simp: party_ok_def)
  have pl: "player_ok (parties s) pl" using inv p(1) by (rule parties_invD)
  have in_r: "p = l \<or> p \<in> set (memberList r)"
    using ok l p(2) belongs_Some(1) [of "players s", OF p(1), of P] by (auto simp: party_ok_def)
  have but: "parties_inv_but P s1"
    using pl r p unfolding s1_def by (intro inv_but_update [OF inv]) (auto simp: pl'_def player_ok_def)
  have ok': "party_ok (players s1) P r'" if "leader r' \<noteq> Some p"
    using ok l in_r that belongs_Some(2) [of "players s", OF p(1), of P]
    by (cases "memberList r") (auto simp: party_ok_def s1_def r'_def pl'_def left_party_def split: if_splits)
  have "parties_inv s1" if "leader r' \<noteq> Some p" "memberList r' \<noteq> [] \<or> inviteList r' \<noteq> []"
    using parties_inv_but_self [OF but] ok' that parties_invD(1) [OF inv r] by (simp add: s1_def)
  moreover have "memberList r' = []" if "leader r' = Some p"
    using that ok l in_r by (cases "memberList r") (auto simp: r'_def left_party_def party_ok_def split: if_splits)
  moreover have "parties_inv (s1\<lparr>parties := (parties s1)(P := None), players := (\<lambda>q. map_option (disbanded P r' q) (players s1 q))\<rparr>)"
  proof (cases "leader r' = Some p")
    case False
    with ok' show ?thesis by (intro inv_disband_ok [OF but]) (simp_all add: s1_def)
  next
    case True
    then have "l = p" "memberList r = []" "r' = r"
      using ok l in_r by (cases "memberList r"; auto simp: r'_def left_party_def party_ok_def split: if_splits)+
    then show ?thesis using ok l belongs_Some(2) [of "players s", OF p(1), of P]
      by (intro inv_disband [OF but]) (auto simp: s1_def party_ok_def pl'_def  belongs_Some split: if_splits)
  qed
  ultimately show ?thesis
    unfolding after_leave_def Let_def r'_def [symmetric] pl'_def [symmetric] by (auto simp: s1_def)
qed

section \<open>The invitations of a player who leaves the game\<close>

definition with_invitations :: "nat \<Rightarrow> nat list \<Rightarrow> PartyState \<Rightarrow> PartyState" where
  "with_invitations p Ps s = s\<lparr>players := (players s)(p := map_option (\<lambda>pl. pl\<lparr>invitePartyList := Ps\<rparr>) (players s p))\<rparr>"

lemma removeInvites_inv:
  assumes "players s p = Some pl" "invitePartyList pl = []" "\<not> pl_removed pl" "parties_inv (with_invitations p Ps s)"
  shows "yields (for_each (\<lambda>P s. do { (_, s) \<leftarrow> removeInvite P p s; Some s }) Ps s) (\<lambda>t. parties_inv t \<and> players t p = Some pl)"
  using assms
proof (induction Ps arbitrary: s)
  case Nil
  have "with_invitations p [] s = s" using Nil.prems by (simp add: with_invitations_def fun_upd_idem)
  with Nil show ?case by simp
next
  case (Cons P Ps)
  let ?g = "with_invitations p (P # Ps) s"
  let ?plg = "pl\<lparr>invitePartyList := P # Ps\<rparr>"
  have g: "players ?g p = Some ?plg" "parties ?g = parties s" using Cons.prems(1) by (simp_all add: with_invitations_def)
  have okg: "player_ok (parties s) ?plg" using parties_invD(4) [OF Cons.prems(4) g(1)] g by simp
  then obtain r where r: "parties s P = Some r" by (auto simp: player_ok_def)
  have ok: "party_ok (players ?g) P r" using parties_invD(2) [OF Cons.prems(4)] g r by simp
  then obtain l where l: "leader r = Some l" by (auto simp: party_ok_def)
  have p_in: "p \<in> set (inviteList r)" "p \<notin> set (memberList r)" "p \<noteq> l" "distinct (inviteList r)"
    using ok l belongs_Some(2) [of "players ?g", OF g(1), of P] by (auto simp: party_ok_def)
  define r' where "r' = r\<lparr>inviteList := remove1 p (inviteList r)\<rparr>"
  have nd0: "no_dangling (parties s) (players ?g)" using inv_no_dangling [OF Cons.prems(4)] g(2) by simp
  have nd: "no_dangling (parties s) (players s)"
    unfolding no_dangling_def
  proof (intro allI impI, elim conjE)
    fix q ql Q
    assume "players s q = Some ql" "pl_party ql = Some Q"
    then show "parties s Q \<noteq> None"
      using no_danglingD [OF nd0, of q] Cons.prems(1) by (cases "q = p") (auto simp: with_invitations_def)
  qed
  have ae: "all_exist (parties s) (players s) P"
    using inv_all_exist [OF Cons.prems(4), of P r] Cons.prems(1) g(2) r by (auto simp: all_exist_def with_invitations_def split: if_splits)
  have pl': "pl\<lparr>invitePartyList := remove1 P (invitePartyList pl)\<rparr> = pl" using Cons.prems(2) by simp
  have eff: "yields (removeInvite P p s) (\<lambda>(b, t). same t (if_empty_disband P r' s))"
    using removeInvite_effect [OF nd ae r Cons.prems(1,3) p_in(1,4)] Cons.prems(1) pl'
    by (auto simp: r'_def fun_upd_idem elim!: yields_mono)
  have inv': "parties_inv (if_empty_disband P r' (with_invitations p Ps s))"
    using inv_uninvite [OF Cons.prems(4) _ g(1) p_in(1), of P] r g Cons.prems(1)
    by (simp add: r'_def with_invitations_def)
  have keep: "players (if_empty_disband P r' s) p = Some pl"
    using Cons.prems(1) p_in l by (auto simp: if_empty_disband_def disbanded_def r'_def)
  have "same (with_invitations p Ps (if_empty_disband P r' s)) (if_empty_disband P r' (with_invitations p Ps s))"
    using Cons.prems(1) p_in l
    by (auto simp: same_def if_empty_disband_def with_invitations_def disbanded_def r'_def fun_eq_iff)
  then have inv'': "parties_inv (with_invitations p Ps (if_empty_disband P r' s))"
    using inv' parties_inv_same by blast
  have "yields (for_each (\<lambda>P s. do { (_, s) \<leftarrow> removeInvite P p s; Some s }) Ps t) (\<lambda>t. parties_inv t \<and> players t p = Some pl)"
    if t: "same t (if_empty_disband P r' s)" for t
  proof (rule Cons.IH)
    show "players t p = Some pl" using t keep by (simp add: same_def)
    show "parties_inv (with_invitations p Ps t)"
      using inv'' t by (subst parties_inv_same) (auto simp: same_def with_invitations_def)
  qed (use Cons.prems in simp_all)
  with eff show ?case by (auto elim!: yields_mono)
qed

lemma clearPartyInvitations_inv:
  assumes "parties_inv s" "players s p = Some pl" "\<not> pl_removed pl"
  shows "yields (clearPartyInvitations p s) (\<lambda>t. parties_inv t \<and> players t p = Some (pl\<lparr>invitePartyList := []\<rparr>))"
proof -
  have "same (with_invitations p (invitePartyList pl) (s\<lparr>players := (players s)(p \<mapsto> pl\<lparr>invitePartyList := []\<rparr>)\<rparr>)) s"
    using assms(2) by (simp add: same_def with_invitations_def fun_upd_idem)
  then have "parties_inv (with_invitations p (invitePartyList pl) (s\<lparr>players := (players s)(p \<mapsto> pl\<lparr>invitePartyList := []\<rparr>)\<rparr>))"
    using assms(1) parties_inv_same by blast
  then show ?thesis
    using assms by (simp add: clearPartyInvitations_def removeInvites_inv)
qed

lemma leaveParty_inv:
  assumes inv: "parties_inv s" and p: "players s p = Some pl" "pl_party pl = Some P"
  shows "yields (leaveParty P p s) (\<lambda>(b, t). b \<and> parties_inv t \<and> (\<exists>r. parties s P = Some r \<and>
    same t (after_leave P p r (s\<lparr>players := (players s)(p \<mapsto> pl\<lparr>pl_party := None\<rparr>)\<rparr>))))"
proof -
  obtain r where r: "parties s P = Some r" using no_danglingD [OF inv_no_dangling [OF inv] p] by auto
  note ok = parties_invD(2) [OF inv r]
  then obtain l where l: "leader r = Some l" by (auto simp: party_ok_def)
  have "p = l \<or> p \<in> set (memberList r)" "p \<notin> set (inviteList r)"
    using ok l p(2) belongs_Some [of "players s", OF p(1), of P] by (auto simp: party_ok_def)
  then have "yields (leaveParty P p s) (\<lambda>(b, t). b \<and>
    same t (after_leave P p r (s\<lparr>players := (players s)(p \<mapsto> pl\<lparr>pl_party := None\<rparr>)\<rparr>)))"
    using ok l p by (intro leaveParty_effect [OF inv_no_dangling [OF inv] inv_all_exist [OF inv r] r l]) (auto simp: party_ok_def)
  then show ?thesis
    using inv_leave [OF inv r p] parties_inv_same r by (auto elim!: yields_mono)
qed

lemma leave_world_inv:
  assumes "parties_inv s" "players s p = Some pl" "\<not> pl_removed pl"
  shows "yields (leave_world p s) (\<lambda>t. parties_inv t \<and>
    (\<exists>pl'. players t p = Some pl' \<and> pl_party pl' = None \<and> invitePartyList pl' = []))"
proof -
  have "yields (case pl_party pl of None \<Rightarrow> Some t | Some P \<Rightarrow> do { (_, t) \<leftarrow> leaveParty P p t; Some t })
      (\<lambda>t. parties_inv t \<and> (\<exists>pl'. players t p = Some pl' \<and> pl_party pl' = None \<and> invitePartyList pl' = []))"
    if "parties_inv t" "players t p = Some (pl\<lparr>invitePartyList := []\<rparr>)" for t
  proof (cases "pl_party pl")
    case (Some P)
    have "\<exists>pl'. players u p = Some pl' \<and> pl_party pl' = None \<and> invitePartyList pl' = []"
      if "same u (after_leave P p r (t\<lparr>players := (players t)(p \<mapsto> pl\<lparr>invitePartyList := [], pl_party := None\<rparr>)\<rparr>))" for u r
      using that by (auto simp: same_def after_leave_def Let_def disbanded_def)
    with leaveParty_inv [OF that(1,2)] Some show ?thesis by (auto elim!: yields_mono)
  qed (use that in simp)
  then show ?thesis using clearPartyInvitations_inv [OF assms] by (auto simp: leave_world_def elim!: yields_mono)
qed

section \<open>The requests keep the invariant\<close>

lemma getPlayerByID_Some:
  "getPlayerByID p s = Some q \<longleftrightarrow> p \<noteq> 0 \<and> q = p \<and> (\<exists>pl. players s p = Some pl \<and> \<not> pl_removed pl)"
  by (auto simp: getPlayerByID_def split: option.splits)

lemma yields_total: "m \<noteq> None \<Longrightarrow> (\<And>x. m = Some x \<Longrightarrow> Q x) \<Longrightarrow> yields m Q"
  by (auto simp: yields_def)

lemma inv_member:
  assumes "parties_inv s" "players s p = Some pl" "pl_party pl = Some P"
  obtains r where "parties s P = Some r" "leader r = Some p \<or> p \<in> set (memberList r)"
proof -
  obtain r where r: "parties s P = Some r" using no_danglingD [OF inv_no_dangling [OF assms(1)] assms(2,3)] by auto
  have "leader r = Some p \<or> p \<in> set (memberList r)"
    using parties_invD(2) [OF assms(1) r] belongs_Some(1) [of "players s", OF assms(2), of P] assms(3)
    by (auto simp: party_ok_def)
  with r that show ?thesis by blast
qed

lemma invitePlayer_inv:
  assumes inv: "parties_inv s" and r: "parties s P = Some r" and p: "players s p = Some pl" "pl_party pl = None"
  shows "yields (invitePlayer P p s) (\<lambda>(b, t). parties_inv t)"
proof (cases "pl_removed pl \<or> p \<in> set (inviteList r)")
  case True
  then show ?thesis using inv r p by (auto simp: invitePlayer_def)
next
  case False
  note i = inv_invite [OF inv r p(1) _ _ p(2)]
  have "parties_inv t" if "same t (s\<lparr>parties := (parties s)(P \<mapsto> r\<lparr>inviteList := inviteList r @ [p]\<rparr>),
             players := (players s)(p \<mapsto> pl\<lparr>invitePartyList := invitePartyList pl @ [P]\<rparr>)\<rparr>)" for t
    using that i(2) False parties_inv_same by blast
  then show ?thesis
    using False p i(1)
    by (auto intro!: yields_mono [OF invitePlayer_effect [OF inv_no_dangling [OF inv] inv_all_exist [OF inv r] r]])
qed

lemma removeInvite_inv:
  assumes inv: "parties_inv s" and r: "parties s P = Some r" and p: "players s p = Some pl"
  shows "yields (removeInvite P p s) (\<lambda>(b, t). parties_inv t)"
proof (cases "pl_removed pl \<or> p \<notin> set (inviteList r)")
  case True
  then show ?thesis using inv r p by (auto simp: removeInvite_def isPlayerInvited_def)
next
  case False
  have "distinct (inviteList r)" using parties_invD(2) [OF inv r] by (auto simp: party_ok_def)
  moreover have "parties_inv t" if "same t (if_empty_disband P (r\<lparr>inviteList := remove1 p (inviteList r)\<rparr>)
      (s\<lparr>players := (players s)(p \<mapsto> pl\<lparr>invitePartyList := remove1 P (invitePartyList pl)\<rparr>)\<rparr>))" for t
    using that inv_uninvite [OF inv r p] False parties_inv_same by blast
  ultimately show ?thesis
    using False p
    by (auto intro!: yields_mono [OF removeInvite_effect [OF inv_no_dangling [OF inv] inv_all_exist [OF inv r] r]])
qed

lemma revokeInvitation_inv:
  assumes inv: "parties_inv s" and r: "parties s P = Some r" and p: "players s p = Some pl"
  shows "yields (revokeInvitation P p s) (\<lambda>(b, t). parties_inv t)"
proof -
  obtain l ll where l: "leader r = Some l" "players s l = Some ll"
    using all_exist_leader [OF inv_all_exist [OF inv r] r] by auto
  have rest: "yields (removeInvite P p t) (\<lambda>(b, u). parties_inv u)" if "parties t = parties s" "nextParty t = nextParty s" "players t = players s" "sees t = sees s" for t
    using inv r p that parties_inv_same [of t s] by (intro removeInvite_inv) (auto simp: same_def)
  show ?thesis
    using r l p rest
    by (auto simp: revokeInvitation_def split_def intro!: text_step)
qed

lemma joinParty_inv:
  assumes inv: "parties_inv s" and r: "parties s P = Some r"
    and p: "players s p = Some pl" "\<not> pl_removed pl" "p \<in> set (inviteList r)" "pl_party pl = None"
  shows "yields (joinParty P p s) (\<lambda>(b, t). parties_inv t)"
proof -
  have "P \<in> set (invitePartyList pl)"
    using parties_invD(2) [OF inv r] p belongs_Some(2) [of "players s", OF p(1), of P] by (auto simp: party_ok_def)
  moreover note inv_join [OF inv r p]
  ultimately show ?thesis
    using p parties_inv_same
    by (fastforce intro!: yields_mono [OF joinParty_effect [OF inv_no_dangling [OF inv] inv_all_exist [OF inv r] r]])
qed

lemma passPartyLeadership_inv:
  assumes inv: "parties_inv s" and r: "parties s P = Some r"
  shows "yields (passPartyLeadership P p s) (\<lambda>(b, t). parties_inv t)"
proof (cases "leader r = Some p \<or> p \<notin> set (memberList r)")
  case True
  then show ?thesis using inv r by (auto simp: passPartyLeadership_def)
next
  case False
  obtain l where l: "leader r = Some l" using parties_invD(2) [OF inv r] by (auto simp: party_ok_def)
  with False have "p \<in> set (memberList r)" "l \<noteq> p" by auto
  note inv_pass [OF inv r l this(1)]
    and passPartyLeadership_effect [OF inv_no_dangling [OF inv] inv_all_exist [OF inv r] r l this]
  then show ?thesis using parties_inv_same by (fastforce elim!: yields_mono)
qed

lemma new_Party_invite_inv:
  assumes inv: "parties_inv s" and p: "players s p = Some pl" "pl_party pl = None" "\<not> pl_removed pl"
    and q: "players s q = Some ql" "pl_party ql = None" "\<not> pl_removed ql" "q \<noteq> p"
  shows "yields (do { (P, s) \<leftarrow> new_Party p s; invitePlayer P q s }) (\<lambda>(b, t). parties_inv t)"
proof -
  let ?P = "nextParty s"
  have fresh: "parties s ?P = None" using parties_invD(1) [OF inv, of ?P] by (cases "parties s ?P") auto
  have nobody: "\<not> belongs (players s) x ?P" "\<not> invited_by (players s) x ?P" for x
    using fresh parties_invD(4) [OF inv, of x "the (players s x)"]
    by (cases "players s x"; auto simp: belongs_def invited_by_def player_ok_def)+
  let ?r = "\<lparr>leader = Some p, memberList = [], inviteList = []\<rparr>"
  have okp: "player_ok (parties s) pl" "player_ok (parties s) ql" using inv p(1) q(1) by (auto intro: parties_invD)
  have nq: "?P \<notin> set (invitePartyList ql)" "?P \<notin> set (invitePartyList pl)" using okp fresh by (auto simp: player_ok_def)
  let ?s1 = "s\<lparr>parties := (parties s)(?P \<mapsto> ?r), nextParty := Suc ?P, players := (players s)(p \<mapsto> pl\<lparr>pl_party := Some ?P\<rparr>)\<rparr>"
  let ?s2 = "s\<lparr>parties := (parties s)(?P \<mapsto> ?r\<lparr>inviteList := [q]\<rparr>), nextParty := Suc ?P,
    players := (players s)(p \<mapsto> pl\<lparr>pl_party := Some ?P\<rparr>, q \<mapsto> ql\<lparr>invitePartyList := invitePartyList ql @ [?P]\<rparr>)\<rparr>"
  have nd: "no_dangling (parties ?s1) (players ?s1)" "all_exist (parties ?s1) (players ?s1) ?P"
    using inv_no_dangling [OF inv] by (auto simp: no_dangling_def all_exist_def)
  have step2: "yields (invitePlayer ?P q t) (\<lambda>(b, u). b \<and> same u ?s2)" if t: "same t ?s1" for t
    using t nd q nq invitePlayer_effect [of t ?P ?r q ql]
    by (auto simp: same_def elim!: yields_mono)
  have inv2: "parties_inv ?s2"
  proof -
    have others: "party_ok (players ?s2) Q r" if "parties s Q = Some r" "Q \<noteq> ?P" for Q r
    proof -
      have "party_ok ((players s)(p \<mapsto> pl\<lparr>pl_party := Some ?P\<rparr>)) Q r"
        using parties_invD(2) [OF inv that(1)] p that by (intro party_ok_other) auto
      then show ?thesis using q that by (auto intro!: party_ok_other)
    qed
    have "party_ok (players ?s2) ?P (?r\<lparr>inviteList := [q]\<rparr>)"
      using q(4) p q nq nobody by (auto simp: party_ok_def)
    moreover have "player_ok (parties ?s2) x" if "players ?s2 y = Some x" for y x
      using that okp p q nq inv fresh
      by (auto simp: player_ok_def parties_inv_def split: if_splits)
    moreover have "Q < ?P" if "parties s Q = Some r" for Q r using parties_invD(1) [OF inv that] .
    moreover have "memberList r \<noteq> [] \<or> inviteList r \<noteq> []" if "parties s Q = Some r" for Q r
      using parties_invD(3) [OF inv that] .
    ultimately show ?thesis
      unfolding parties_inv_def using others by (auto split: if_splits intro: less_SucI)
  qed
  have step1: "yields (new_Party p s) (\<lambda>(P, t). P = ?P \<and> same t ?s1)"
    using new_Party_effect [OF inv_no_dangling [OF inv] p(1)] by (rule yields_mono) auto
  have "yields (invitePlayer ?P q t) (\<lambda>(b, u). parties_inv u)" if "same t ?s1" for t
    using step2 [OF that] by (rule yields_mono) (use inv2 parties_inv_same in blast)
  then show ?thesis using step1 by (auto elim!: yields_mono)
qed

text \<open>
  A sequence of requests, with players that enter the world, start or stop fighting, and leave it;
  the object of a player who left is released later, by \<^verbatim>\<open>Game::cleanup\<close>.
\<close>

datatype party_request =
    PlayerEnters nat string bool
  | PlayerFights nat bool
  | InviteToParty nat nat
  | JoinParty nat nat
  | RevokeInvitation nat nat
  | PassLeadership nat nat
  | LeaveParty nat
  | PlayerDisappears nat
  | ReleaseRemoved

definition update_player :: "nat \<Rightarrow> (PartyPlayer \<Rightarrow> PartyPlayer) \<Rightarrow> PartyState \<Rightarrow> PartyState" where
  "update_player p f s = s\<lparr>players := (players s)(p := map_option f (players s p))\<rparr>"

definition new_PartyPlayer :: "string \<Rightarrow> bool \<Rightarrow> PartyPlayer" where
  "new_PartyPlayer name female = \<lparr>pl_name = name, pl_female = female, pl_removed = False, pl_infight = False,
     pl_party = None, invitePartyList = []\<rparr>"

fun request :: "party_request \<Rightarrow> PartyState \<Rightarrow> PartyState option" where
  "request (PlayerEnters p name female) s =
     Some (if players s p \<noteq> None then s else s\<lparr>players := (players s)(p \<mapsto> new_PartyPlayer name female)\<rparr>)"
| "request (PlayerFights p b) s = Some (update_player p (\<lambda>pl. pl\<lparr>pl_infight := b\<rparr>) s)"
| "request (InviteToParty p q) s = map_option snd (playerInviteToParty p q s)"
| "request (JoinParty p l) s = map_option snd (playerJoinParty p l s)"
| "request (RevokeInvitation p q) s = map_option snd (playerRevokePartyInvitation p q s)"
| "request (PassLeadership p q) s = map_option snd (playerPassPartyLeadership p q s)"
| "request (LeaveParty p) s = map_option snd (playerLeaveParty p s)"
| "request (PlayerDisappears p) s = (case getPlayerByID p s of
     None \<Rightarrow> Some s
   | Some q \<Rightarrow> map_option (update_player q (\<lambda>pl. pl\<lparr>pl_removed := True\<rparr>)) (leave_world q s))"
| "request ReleaseRemoved s = Some (s\<lparr>players := (\<lambda>q. case players s q of
     Some pl \<Rightarrow> if pl_removed pl then None else Some pl
   | None \<Rightarrow> None)\<rparr>)"

fun requests :: "party_request list \<Rightarrow> PartyState \<Rightarrow> PartyState option" where
  "requests [] s = Some s"
| "requests (x # xs) s = do { s \<leftarrow> request x s; requests xs s }"

definition no_parties :: "(nat \<Rightarrow> nat \<Rightarrow> bool) \<Rightarrow> PartyState" where
  "no_parties can_see = \<lparr>parties = (\<lambda>_. None), nextParty = 0, players = (\<lambda>_. None), sees = can_see, sent = []\<rparr>"

fun self_invitation :: "party_request \<Rightarrow> bool" where
  "self_invitation (InviteToParty p q) = (p = q)"
| "self_invitation _ = False"

lemma yields_map_option [simp]: "yields (map_option f m) Q \<longleftrightarrow> yields m (\<lambda>x. Q (f x))"
  by (auto simp: yields_def)

lemma isInviting_Some_True:
  "isInviting p q s = Some True \<Longrightarrow> \<exists>pl P r. players s p = Some pl \<and> pl_party pl = Some P \<and> parties s P = Some r \<and>
    leader r = Some p \<and> q \<in> set (inviteList r)"
  by (auto simp: isInviting_def isPlayerInvited_def Option.bind_eq_Some_conv split: option.splits if_splits)

lemma inv_text:
  assumes "parties_inv s" "players s p \<noteq> None"
  shows "yields (sendTextMessage p msg s) parties_inv"
  using quiet_text [OF assms(2), of msg] by (rule yields_mono) (use assms parties_inv_same in blast)

lemma inv_invited:
  assumes inv: "parties_inv s" and pq: "p \<noteq> q"
  shows "yields (playerInviteToParty p q s) (\<lambda>(b, t). parties_inv t)"
proof (cases "getPlayerByID p s = None \<or> getPlayerByID q s = None")
  case True
  then show ?thesis using inv by (auto simp: playerInviteToParty_def split: option.splits)
next
  case False
  then obtain pl ql where p: "players s p = Some pl" "\<not> pl_removed pl" and q: "players s q = Some ql" "\<not> pl_removed ql"
    and ids: "getPlayerByID p s = Some p" "getPlayerByID q s = Some q"
    by (auto simp: getPlayerByID_Some)
  obtain b where b: "isInviting q p s = Some b"
    using isInviting_defined [OF inv_no_dangling [OF inv], of q p] q by auto
  have leads: "\<exists>r. parties s P = Some r" if "pl_party pl = Some P" for P
    using inv_member [OF inv p(1) that] by blast
  show ?thesis
    using p q ids b inv invitePlayer_inv [OF inv] new_Party_invite_inv [OF inv p(1) _ p(2) q(1) _ q(2)] inv_text [OF inv] leads pq
    by (auto simp: playerInviteToParty_def isLeader_def split_def split: option.split)
qed

lemma inv_joined:
  assumes inv: "parties_inv s"
  shows "yields (playerJoinParty p l s) (\<lambda>(b, t). parties_inv t)"
proof (cases "getPlayerByID p s = None \<or> getPlayerByID l s = None")
  case True
  then show ?thesis using inv by (auto simp: playerJoinParty_def split: option.splits)
next
  case False
  then obtain pl ll where p: "players s p = Some pl" "\<not> pl_removed pl" and l: "players s l = Some ll" "\<not> pl_removed ll"
    and ids: "getPlayerByID p s = Some p" "getPlayerByID l s = Some l"
    by (auto simp: getPlayerByID_Some)
  obtain b where b: "isInviting l p s = Some b"
    using isInviting_defined [OF inv_no_dangling [OF inv], of l p] l by auto
  show ?thesis
  proof (cases b)
    case True
    then obtain P r where r: "pl_party ll = Some P" "parties s P = Some r" "leader r = Some l" "p \<in> set (inviteList r)"
      using isInviting_Some_True b l by fastforce
    show ?thesis
      using p l ids b r True inv joinParty_inv [OF inv r(2) p r(4)] inv_text [OF inv, of p]
      by (auto simp: playerJoinParty_def isLeader_def split_def split: option.split)
  qed (use ids b inv in \<open>simp add: playerJoinParty_def\<close>)
qed

lemma inv_revoked:
  assumes inv: "parties_inv s"
  shows "yields (playerRevokePartyInvitation p q s) (\<lambda>(b, t). parties_inv t)"
proof (cases "getPlayerByID p s")
  case None
  then show ?thesis using inv by (simp add: playerRevokePartyInvitation_def)
next
  case (Some p')
  then obtain pl where p: "players s p = Some pl" "\<not> pl_removed pl" "p' = p" by (auto simp: getPlayerByID_Some)
  show ?thesis
  proof (cases "pl_party pl")
    case None
    then show ?thesis using Some p inv by (simp add: playerRevokePartyInvitation_def)
  next
    case (Some P)
    obtain r where r: "parties s P = Some r" using inv_member [OF inv p(1) Some] by blast
    show ?thesis
    proof (cases "getPlayerByID q s")
      case None
      then show ?thesis
        using \<open>getPlayerByID p s = Some p'\<close> Some p r inv by (simp add: playerRevokePartyInvitation_def isLeader_def)
    next
      case (Some q')
      then obtain ql where q: "q' = q" "players s q = Some ql" by (auto simp: getPlayerByID_Some)
      obtain b where "isInviting p q s = Some b" using isInviting_defined [OF inv_no_dangling [OF inv], of p q] p by auto
      then show ?thesis
        using \<open>getPlayerByID p s = Some p'\<close> \<open>pl_party pl = Some P\<close> Some p q r inv revokeInvitation_inv [OF inv r q(2)]
        by (auto simp: playerRevokePartyInvitation_def isLeader_def split_def)
    qed
  qed
qed

lemma inv_passed:
  assumes inv: "parties_inv s"
  shows "yields (playerPassPartyLeadership p q s) (\<lambda>(b, t). parties_inv t)"
proof (cases "getPlayerByID p s")
  case None
  then show ?thesis using inv by (simp add: playerPassPartyLeadership_def)
next
  case (Some p')
  then obtain pl where p: "players s p = Some pl" "\<not> pl_removed pl" "p' = p" by (auto simp: getPlayerByID_Some)
  have "\<exists>r. parties s P = Some r" if "pl_party pl = Some P" for P using inv_member [OF inv p(1) that] by blast
  then show ?thesis
    using Some p inv passPartyLeadership_inv [OF inv]
    by (auto simp: playerPassPartyLeadership_def isLeader_def isPartner_def getPlayerByID_Some split_def split: option.split)
qed

lemma inv_left:
  assumes inv: "parties_inv s"
  shows "yields (playerLeaveParty p s) (\<lambda>(b, t). parties_inv t)"
proof (cases "getPlayerByID p s")
  case None
  then show ?thesis using inv by (simp add: playerLeaveParty_def)
next
  case (Some p')
  then obtain pl where p: "players s p = Some pl" "p' = p" by (auto simp: getPlayerByID_Some)
  then show ?thesis
    using Some inv leaveParty_inv [OF inv p(1)]
    by (auto simp: playerLeaveParty_def split: option.split elim!: yields_mono)
qed

lemma inv_update_player:
  assumes inv: "parties_inv s" and p: "players s p = Some pl"
    and f: "player_ok (parties s) (f pl)" "pl_party (f pl) = pl_party pl" "invitePartyList (f pl) = invitePartyList pl"
  shows "parties_inv (update_player p f s)"
  using inv p f by (auto simp: parties_inv_def update_player_def intro: party_ok_other)

lemma inv_enters:
  assumes inv: "parties_inv s" and p: "players s p = None"
  shows "parties_inv (s\<lparr>players := (players s)(p \<mapsto> new_PartyPlayer name female)\<rparr>)"
proof -
  have "belongs ((players s)(p \<mapsto> new_PartyPlayer name female)) q P = belongs (players s) q P"
    "invited_by ((players s)(p \<mapsto> new_PartyPlayer name female)) q P = invited_by (players s) q P" for q P
    using p by (auto simp: belongs_def invited_by_def new_PartyPlayer_def)
  then have "party_ok ((players s)(p \<mapsto> new_PartyPlayer name female)) = party_ok (players s)"
    by (simp add: party_ok_def fun_eq_iff)
  then show ?thesis using inv by (auto simp: parties_inv_def player_ok_def new_PartyPlayer_def)
qed

lemma inv_released:
  assumes inv: "parties_inv s"
  shows "parties_inv (s\<lparr>players := (\<lambda>q. case players s q of Some pl \<Rightarrow> if pl_removed pl then None else Some pl | None \<Rightarrow> None)\<rparr>)"
proof -
  let ?pls = "\<lambda>q. case players s q of Some pl \<Rightarrow> if pl_removed pl then None else Some pl | None \<Rightarrow> None"
  have "belongs ?pls q P = belongs (players s) q P" "invited_by ?pls q P = invited_by (players s) q P" for q P
    using parties_invD(4) [OF inv, of q "the (players s q)"]
    by (cases "players s q"; auto simp: belongs_def invited_by_def player_ok_def)+
  then have "party_ok ?pls = party_ok (players s)" by (simp add: party_ok_def fun_eq_iff)
  then show ?thesis using inv by (auto simp: parties_inv_def split: option.splits if_splits)
qed

lemma request_inv:
  assumes inv: "parties_inv s" and x: "\<not> self_invitation x"
  shows "yields (request x s) parties_inv"
proof (cases x)
  case (PlayerFights p b)
  show ?thesis
  proof (cases "players s p")
    case (Some pl)
    have "player_ok (parties s) pl" using inv Some by (rule parties_invD)
    then show ?thesis
      using inv_update_player [OF inv Some, of "\<lambda>pl. pl\<lparr>pl_infight := b\<rparr>"] PlayerFights by (simp add: player_ok_def)
  qed (use PlayerFights inv in \<open>simp add: update_player_def fun_upd_idem\<close>)
next
  case (PlayerDisappears p)
  show ?thesis
  proof (cases "getPlayerByID p s")
    case (Some q)
    then obtain pl where p: "players s p = Some pl" "\<not> pl_removed pl" "q = p" by (auto simp: getPlayerByID_Some)
    have "parties_inv (update_player p (\<lambda>pl. pl\<lparr>pl_removed := True\<rparr>) t)"
      if "parties_inv t" "players t p = Some pl'" "pl_party pl' = None" "invitePartyList pl' = []" for t pl'
      using that by (intro inv_update_player) (auto simp: player_ok_def)
    then show ?thesis
      using leave_world_inv [OF inv p(1,2)] Some p PlayerDisappears by (auto elim!: yields_mono)
  qed (use PlayerDisappears inv in simp)
qed (use x inv inv_enters inv_invited inv_joined inv_revoked inv_passed inv_left inv_released in \<open>auto elim!: yields_mono simp: split_def\<close>)

lemma requests_inv:
  assumes "parties_inv s" "list_all (\<lambda>x. \<not> self_invitation x) xs"
  shows "yields (requests xs s) parties_inv"
  using assms by (induction xs arbitrary: s) (auto intro: yields_mono [OF request_inv])

lemma inv_no_parties: "parties_inv (no_parties can_see)"
  by (simp add: parties_inv_def no_parties_def)

section \<open>Properties\<close>

text \<open>
  C6. Whatever the clients request, as long as nobody invites himself, no request reads a party
  or a player that was freed, and afterwards every party has a leader and members who are exactly
  the players that point to it, its invitations are exactly the invitations the players hold,
  nobody in a party is invited to it, and no party without members and invitations is left over.
\<close>
theorem party_requests_are_sound:
  "yields (requests (filter (\<lambda>x. \<not> self_invitation x) xs) (no_parties can_see)) parties_inv"
  by (rule requests_inv [OF inv_no_parties]) (simp add: list_all_iff)

text \<open>
  A client may name himself in an invitation: the request is granted, his party is disbanded
  when he leaves it, but the invitation stays with him, and when he leaves the game it is
  followed to the freed party.
\<close>
theorem own_invitation_dangles:
  "\<not> Option.is_none (requests [PlayerEnters 1 ''Gm'' False, InviteToParty 1 1, LeaveParty 1] (no_parties (\<lambda>_ _. True))) \<and>
   Option.is_none (requests [PlayerEnters 1 ''Gm'' False, InviteToParty 1 1, LeaveParty 1, PlayerDisappears 1]
     (no_parties (\<lambda>_ _. True)))"
  by code_simp

text \<open>
  Two players see each other's party shield, yellow for the leader and blue for a member,
  exactly when they are in the same party.
\<close>
theorem shield_tells_partners:
  assumes "parties_inv s" "players s v \<noteq> None" "players s x \<noteq> None"
  shows "getPartyShield v x s \<in> {Some SHIELD_YELLOW, Some SHIELD_BLUE} \<longleftrightarrow> isPartner v x s = Some True"
proof -
  obtain vl xl where v: "players s v = Some vl" and x: "players s x = Some xl" using assms by auto
  show ?thesis
  proof (cases "pl_party vl")
    case None
    moreover obtain b where "isInviting x v s = Some b"
      using isInviting_defined [OF inv_no_dangling [OF assms(1)] assms(3)] by blast
    ultimately show ?thesis using v x by (auto simp: getPartyShield_def isPartner_def)
  next
    case (Some P)
    obtain r where r: "parties s P = Some r" using inv_member [OF assms(1) v Some] by blast
    have "leader r = Some x \<or> x \<in> set (memberList r) \<longleftrightarrow> pl_party xl = Some P"
      using parties_invD(2) [OF assms(1) r] belongs_Some(1) [of "players s", OF x, of P] by (auto simp: party_ok_def)
    moreover obtain b where "isInviting v x s = Some b"
      using isInviting_defined [OF inv_no_dangling [OF assms(1)] assms(2)] by blast
    ultimately show ?thesis using v x Some r
      by (auto simp: getPartyShield_def isPartner_def isPlayerMember_def)
  qed
qed

theorem shield_tells_partners_witness:
  "\<exists>s. requests [PlayerEnters 1 ''Ann'' True, PlayerEnters 2 ''Bob'' False, InviteToParty 1 2, JoinParty 2 1]
       (no_parties (\<lambda>_ _. True)) = Some s \<and>
     getPartyShield 1 2 s = Some SHIELD_BLUE \<and> isPartner 1 2 s = Some True"
proof -
  let ?xs = "[PlayerEnters 1 ''Ann'' True, PlayerEnters 2 ''Bob'' False, InviteToParty 1 2, JoinParty 2 1]"
  obtain s where s: "requests ?xs (no_parties (\<lambda>_ _. True)) = Some s" "parties_inv s"
    using requests_inv [OF inv_no_parties, of ?xs] by (force simp: yields_def simp del: requests.simps)
  have "map_option (\<lambda>s. (Option.is_none (players s 1), Option.is_none (players s 2), getPartyShield 1 2 s))
      (requests ?xs (no_parties (\<lambda>_ _. True))) = Some (False, False, Some SHIELD_BLUE)"
    by code_simp
  with s(1) have "players s 1 \<noteq> None" "players s 2 \<noteq> None" "getPartyShield 1 2 s = Some SHIELD_BLUE"
    by (auto simp: Option.is_none_def)
  with shield_tells_partners [OF s(2), of 1 2] s show ?thesis by auto
qed

end
