(* ===== verification/LoginGuard.thy ===== *)
theory LoginGuard
  imports Prelude
begin

text \<open>
  What a client passes before it enters the game: the counters of failed logins and of connections
  per address (\<^verbatim>\<open>BanManager\<close> in \<^verbatim>\<open>ban.h\<close>, \<^verbatim>\<open>ban.cpp\<close>) and the waiting list of a full server
  (\<^verbatim>\<open>WaitingList.h\<close>, \<^verbatim>\<open>WaitingList.cpp\<close>).  The clocks are arguments: \<^verbatim>\<open>std::time\<close> cut to 32 bits for
  the logins, \<^verbatim>\<open>OTSYS_TIME\<close> in milliseconds for the rest.  The comparison of names that ignores
  the case (\<^verbatim>\<open>boost::iequals\<close>) is a parameter.
\<close>

section \<open>Failed logins and connections\<close>

record LoginBlock =
  lastLoginTime :: u32
  numberOfLogins :: u32

record BanManager =
  ipLoginMap :: "u32 \<Rightarrow> LoginBlock option"
  ipConnectMap :: "u32 \<Rightarrow> u64 option"
  loginTimeout :: u32
  maxLoginTries :: u32
  retryTimeout :: u32

definition isIpDisabled :: "u32 \<Rightarrow> u32 \<Rightarrow> BanManager \<Rightarrow> bool" where
  "isIpDisabled currentTime clientip b =
     (if maxLoginTries b = 0 then False
      else if clientip \<noteq> 0 then
        (case ipLoginMap b clientip of
           None \<Rightarrow> False
         | Some lb \<Rightarrow> maxLoginTries b \<le> numberOfLogins lb \<and> currentTime < lastLoginTime lb + loginTimeout b)
      else False)"

definition acceptConnection :: "u64 \<Rightarrow> u32 \<Rightarrow> BanManager \<Rightarrow> bool \<times> BanManager" where
  "acceptConnection currentTime clientip b =
     (if clientip = 0 then (False, b)
      else case ipConnectMap b clientip of
        None \<Rightarrow> (True, b\<lparr>ipConnectMap := (ipConnectMap b)(clientip \<mapsto> currentTime)\<rparr>)
      | Some lastConnection \<Rightarrow>
          if currentTime - lastConnection < 1000 then (False, b)
          else (True, b\<lparr>ipConnectMap := (ipConnectMap b)(clientip \<mapsto> currentTime)\<rparr>))"

definition login_block :: "u32 \<Rightarrow> BanManager \<Rightarrow> LoginBlock" where
  "login_block clientip b = (case ipLoginMap b clientip of
     None \<Rightarrow> \<lparr>lastLoginTime = 0, numberOfLogins = 0\<rparr> | Some lb \<Rightarrow> lb)"

definition addLoginAttempt :: "u32 \<Rightarrow> u32 \<Rightarrow> bool \<Rightarrow> BanManager \<Rightarrow> BanManager" where
  "addLoginAttempt currentTime clientip isSuccess b =
     (if clientip \<noteq> 0 then
        (let lb = login_block clientip b;
             n = (if maxLoginTries b \<le> numberOfLogins lb then 0 else numberOfLogins lb);
             n = (if \<not> isSuccess \<or> currentTime < lastLoginTime lb + retryTimeout b then n + 1 else 0)
         in b\<lparr>ipLoginMap := (ipLoginMap b)(clientip \<mapsto> \<lparr>lastLoginTime = currentTime, numberOfLogins = n\<rparr>)\<rparr>)
      else b)"

text \<open>A sequence of logins: the address, the time, and whether the password was right.\<close>

fun login_run :: "(u32 \<times> u32 \<times> bool) list \<Rightarrow> BanManager \<Rightarrow> BanManager" where
  "login_run [] b = b"
| "login_run ((ip, t, isSuccess) # es) b = login_run es (addLoginAttempt t ip isSuccess b)"

section \<open>The waiting list\<close>

record WaitingClient =
  wc_acc :: u32
  wc_ip :: u32
  wc_name :: string
  wc_premium :: bool
  wc_timeout :: int

record LoginPlayer =
  lp_always :: bool
  lp_acc :: u32
  lp_ip :: u32
  lp_name :: string
  lp_premium :: bool

definition is_waiting :: "(string \<Rightarrow> string \<Rightarrow> bool) \<Rightarrow> LoginPlayer \<Rightarrow> WaitingClient \<Rightarrow> bool" where
  "is_waiting iequals p c \<longleftrightarrow> wc_acc c = lp_acc p \<and> wc_ip c = lp_ip p \<and> iequals (wc_name c) (lp_name p)"

fun findClient :: "(string \<Rightarrow> string \<Rightarrow> bool) \<Rightarrow> LoginPlayer \<Rightarrow> WaitingClient list \<Rightarrow> nat \<Rightarrow> nat option \<times> nat" where
  "findClient iequals p [] slot = (None, slot)"
| "findClient iequals p (c # cs) slot =
     (if is_waiting iequals p c then (Some (slot - 1), slot) else findClient iequals p cs (slot + 1))"

definition getTime :: "nat \<Rightarrow> int" where
  "getTime slot = (if slot < 5 then 5 else if slot < 10 then 10 else if slot < 20 then 20 else if slot < 50 then 60 else 120)"

definition getTimeOut :: "nat \<Rightarrow> int" where
  "getTimeOut slot = getTime slot + 15"

definition timed_out :: "int \<Rightarrow> WaitingClient \<Rightarrow> bool" where
  "timed_out now c \<longleftrightarrow> wc_timeout c - now \<le> 0"

text \<open>
  The loop erases from the vector it walks over but keeps the position and the end it started
  with: after an erasure the next client has moved to the current position and is skipped, and
  the loop runs to the old end, where reading a client is out of bounds (\<^term>\<open>None\<close>).
\<close>

definition erase_at :: "nat \<Rightarrow> 'a list \<Rightarrow> 'a list" where
  "erase_at i xs = take i xs @ drop (Suc i) xs"

function clean_from :: "int \<Rightarrow> nat \<Rightarrow> nat \<Rightarrow> WaitingClient list \<Rightarrow> WaitingClient list option" where
  "clean_from now i n cs =
     (if n \<le> i then Some cs
      else if length cs \<le> i then None
      else if timed_out now (cs ! i) then clean_from now (i + 1) n (erase_at i cs)
      else clean_from now (i + 1) n cs)"
  by pat_completeness auto
termination
  by (relation "measure (\<lambda>(now, i, n, cs). n - i)") auto

definition clean_wait_list :: "int \<Rightarrow> WaitingClient list \<Rightarrow> WaitingClient list option" where
  "clean_wait_list now cs = clean_from now 0 (length cs) cs"

definition clientLogin ::
  "(string \<Rightarrow> string \<Rightarrow> bool) \<Rightarrow> int \<Rightarrow> nat \<Rightarrow> nat \<Rightarrow> LoginPlayer \<Rightarrow> WaitingClient list \<Rightarrow> (bool \<times> WaitingClient list) option" where
  "clientLogin iequals now online max_online p cs =
     (if lp_always p then Some (True, cs)
      else if cs = [] \<and> online < max_online then Some (True, cs)
      else case clean_wait_list now cs of
        None \<Rightarrow> None
      | Some cs \<Rightarrow>
          (case findClient iequals p cs 1 of
             (Some i, slot) \<Rightarrow>
               if online + slot \<le> max_online then Some (True, erase_at i cs)
               else Some (False, cs[i := (cs ! i)\<lparr>wc_timeout := now + getTimeOut slot * 1000\<rparr>])
           | (None, _) \<Rightarrow>
               Some (False, cs @ [\<lparr>wc_acc = lp_acc p, wc_ip = lp_ip p, wc_name = lp_name p, wc_premium = lp_premium p,
                 wc_timeout = now + getTimeOut (length cs) * 1000\<rparr>])))"

definition getClientSlot :: "(string \<Rightarrow> string \<Rightarrow> bool) \<Rightarrow> LoginPlayer \<Rightarrow> WaitingClient list \<Rightarrow> int" where
  "getClientSlot iequals p cs = (case findClient iequals p cs 1 of (Some _, slot) \<Rightarrow> int slot | (None, _) \<Rightarrow> -1)"

section \<open>The waiting list\<close>

declare clean_from.simps [simp del]

lemma length_erase_at [simp]: "i < length xs \<Longrightarrow> length (erase_at i xs) = length xs - 1"
  by (simp add: erase_at_def)

lemma clean_from_shrunk: "length cs < n \<Longrightarrow> i < n \<Longrightarrow> clean_from now i n cs = None"
proof (induction now i n cs rule: clean_from.induct)
  case (1 now i n cs)
  then show ?case
    by (subst clean_from.simps) (cases "Suc i < n"; auto simp: not_le)
qed

lemma clean_from_whole:
  "length cs = n \<Longrightarrow> i \<le> n \<Longrightarrow> clean_from now i n cs =
    (if list_all (\<lambda>c. \<not> timed_out now c) (butlast (drop i cs))
     then Some (take i cs @ filter (\<lambda>c. \<not> timed_out now c) (drop i cs)) else None)"
proof (induction now i n cs rule: clean_from.induct)
  case (1 now i n cs)
  show ?case
  proof (cases "i < n")
    case False
    with 1 show ?thesis by (subst clean_from.simps) simp
  next
    case True
    have d: "drop i cs = cs ! i # drop (Suc i) cs" using True 1(3) by (simp add: Cons_nth_drop_Suc)
    have t: "take (Suc i) cs = take i cs @ [cs ! i]" using True 1(3) by (simp add: take_Suc_conv_app_nth)
    show ?thesis
    proof (cases "timed_out now (cs ! i)")
      case False
      then show ?thesis using 1(2) [OF _ _ False] 1(3) True d t by (subst clean_from.simps) auto
    next
      case out: True
      show ?thesis
      proof (cases "Suc i < n")
        case True
        then have "clean_from now (i + 1) n (erase_at i cs) = None"
          using 1(3) by (intro clean_from_shrunk) auto
        moreover have "drop (Suc i) cs \<noteq> []" using True 1(3) by simp
        ultimately show ?thesis using out True 1(3) d by (subst clean_from.simps) auto
      next
        case False
        then have "drop (Suc i) cs = []" "n = Suc i" using 1(3) \<open>i < n\<close> by auto
        then show ?thesis using out 1(3) d
          by (subst clean_from.simps, subst clean_from.simps) (auto simp: erase_at_def)
      qed
    qed
  qed
qed

text \<open>
  Cleaning the waiting list succeeds only when no client but the last has timed out; then it
  removes exactly the clients that timed out.  Otherwise the loop reads past the end of the vector.
\<close>
theorem clean_wait_list_result:
  "clean_wait_list now cs =
    (if list_all (\<lambda>c. \<not> timed_out now c) (butlast cs) then Some (filter (\<lambda>c. \<not> timed_out now c) cs) else None)"
  by (simp add: clean_wait_list_def clean_from_whole)

lemma findClient_found:
  "findClient iequals p cs n = (Some i, slot) \<Longrightarrow> 0 < n \<Longrightarrow>
    \<exists>ahead c behind. cs = ahead @ c # behind \<and> is_waiting iequals p c \<and> list_all (\<lambda>c. \<not> is_waiting iequals p c) ahead \<and>
      slot = n + length ahead \<and> i = n - 1 + length ahead"
proof (induction cs arbitrary: n)
  case (Cons c cs)
  show ?case
  proof (cases "is_waiting iequals p c")
    case True
    with Cons.prems show ?thesis by (intro exI [of _ "[]"]) auto
  next
    case False
    then obtain ahead d behind where "cs = ahead @ d # behind" "is_waiting iequals p d"
      "list_all (\<lambda>c. \<not> is_waiting iequals p c) ahead" "slot = n + 1 + length ahead" "i = n + 1 - 1 + length ahead"
      using Cons.IH [of "n + 1"] Cons.prems by auto
    with False Cons.prems(2) show ?thesis by (intro exI [of _ "c # ahead"] exI [of _ d] exI [of _ behind]) auto
  qed
qed simp

lemma findClient_none: "findClient iequals p cs n = (None, slot) \<Longrightarrow> list_all (\<lambda>c. \<not> is_waiting iequals p c) cs"
  by (induction cs arbitrary: n) (auto split: if_splits)

text \<open>What a call that returns does, for a player without the privilege to enter.\<close>

lemma clientLogin_returns:
  assumes "\<not> lp_always p" "clientLogin iequals now online max_online p cs = Some (admitted, cs')"
  defines "ws \<equiv> filter (\<lambda>c. \<not> timed_out now c) cs"
  shows "admitted \<and> cs = [] \<and> cs' = [] \<and> online < max_online \<or>
    (\<exists>ahead c behind. ws = ahead @ c # behind \<and> is_waiting iequals p c \<and> list_all (\<lambda>c. \<not> is_waiting iequals p c) ahead \<and>
      (if admitted then cs' = ahead @ behind \<and> online + 1 + length ahead \<le> max_online
       else cs' = ahead @ c\<lparr>wc_timeout := now + getTimeOut (1 + length ahead) * 1000\<rparr> # behind \<and> max_online < online + 1 + length ahead)) \<or>
    \<not> admitted \<and> list_all (\<lambda>c. \<not> is_waiting iequals p c) ws \<and>
      (\<exists>c. cs' = ws @ [c] \<and> wc_acc c = lp_acc p \<and> wc_ip c = lp_ip p \<and> wc_name c = lp_name p \<and>
        wc_timeout c = now + getTimeOut (length ws) * 1000)"
proof (cases "cs = [] \<and> online < max_online")
  case True
  with assms show ?thesis by (auto simp: clientLogin_def)
next
  case False
  have clean: "clean_wait_list now cs = Some ws"
    using assms False by (auto simp: clientLogin_def clean_wait_list_result ws_def split: if_splits)
  obtain found slot where f: "findClient iequals p ws 1 = (found, slot)" by force
  show ?thesis
  proof (cases found)
    case None
    with findClient_none f have "list_all (\<lambda>c. \<not> is_waiting iequals p c) ws" by metis
    with None show ?thesis using assms(1,2) False clean f by (auto simp: clientLogin_def)
  next
    case (Some i)
    then obtain ahead c behind where ws: "ws = ahead @ c # behind" "is_waiting iequals p c" "slot = 1 + length ahead" "i = length ahead"
      "list_all (\<lambda>c. \<not> is_waiting iequals p c) ahead"
      using findClient_found f by fastforce
    have out: "(admitted, cs') = (if online + slot \<le> max_online then (True, erase_at i ws)
        else (False, ws[i := (ws ! i)\<lparr>wc_timeout := now + getTimeOut slot * 1000\<rparr>]))"
      using assms(1,2) False clean f Some by (auto simp: clientLogin_def split: if_splits)
    have "erase_at i ws = ahead @ behind" "ws[i := d] = ahead @ d # behind" "ws ! i = c" for d
      using ws by (simp_all add: erase_at_def)
    with out ws have "is_waiting iequals p c \<and> list_all (\<lambda>c. \<not> is_waiting iequals p c) ahead \<and>
      (if admitted then cs' = ahead @ behind \<and> online + 1 + length ahead \<le> max_online
       else cs' = ahead @ c\<lparr>wc_timeout := now + getTimeOut (1 + length ahead) * 1000\<rparr> # behind \<and> max_online < online + 1 + length ahead)"
      by (auto split: if_splits)
    then show ?thesis using ws(1) by blast
  qed
qed

lemma clientLogin_undefined:
  "clientLogin iequals now online max_online p cs = None \<longleftrightarrow>
    \<not> lp_always p \<and> \<not> (cs = [] \<and> online < max_online) \<and> (\<exists>c\<in>set (butlast cs). timed_out now c)"
  by (auto simp: clientLogin_def clean_wait_list_result list_all_iff split: prod.splits option.splits if_splits)



section \<open>Failed logins\<close>

text \<open>
  A login counts if it failed, or if it came within \<^verbatim>\<open>retryTimeout\<close> seconds of the one before; \<open>streak\<close>
  is how many of the last logins of an address count without one in between that does not.
\<close>

fun counting :: "u32 \<Rightarrow> u32 \<Rightarrow> (u32 \<times> bool) list \<Rightarrow> bool list" where
  "counting retry last_time [] = []"
| "counting retry last_time ((t, isSuccess) # es) = (\<not> isSuccess \<or> t < last_time + retry) # counting retry t es"

definition streak :: "bool list \<Rightarrow> nat" where
  "streak bs = length (takeWhile (\<lambda>c. c) (rev bs))"

definition logins_of :: "u32 \<Rightarrow> (u32 \<times> u32 \<times> bool) list \<Rightarrow> (u32 \<times> bool) list" where
  "logins_of ip es = map snd (filter (\<lambda>e. fst e = ip) es)"

definition count_on :: "nat \<Rightarrow> nat \<Rightarrow> bool \<Rightarrow> nat" where
  "count_on m n c = (if c then (if m \<le> n then 0 else n) + 1 else 0)"

lemma streak_snoc: "streak (bs @ [c]) = (if c then Suc (streak bs) else 0)"
  by (simp add: streak_def)

lemma count_streak:
  assumes "0 < m"
  shows "foldl (count_on m) 0 bs = (if streak bs = 0 then 0 else (streak bs - 1) mod m + 1)"
proof (induction bs rule: rev_induct)
  case (snoc c bs)
  show ?case
  proof (cases c)
    case True
    have "m \<le> (k - 1) mod m + 1 \<longleftrightarrow> k mod m = 0" "\<not> m \<le> (k - 1) mod m + 1 \<Longrightarrow> k mod m = (k - 1) mod m + 1" if "0 < k" for k
    proof -
      obtain j where k: "k = Suc j" using \<open>0 < k\<close> gr0_implies_Suc by blast
      have "j mod m < m" using assms by simp
      then show "m \<le> (k - 1) mod m + 1 \<longleftrightarrow> k mod m = 0" "\<not> m \<le> (k - 1) mod m + 1 \<Longrightarrow> k mod m = (k - 1) mod m + 1"
        by (auto simp: k mod_Suc)
    qed
    with True snoc assms show ?thesis by (auto simp: streak_snoc count_on_def)
  next
    case False
    then show ?thesis by (simp add: streak_snoc count_on_def)
  qed
qed (simp add: streak_def)

lemma addLoginAttempt_other: "i \<noteq> ip \<Longrightarrow> login_block ip (addLoginAttempt t i ok b) = login_block ip b"
  by (simp add: addLoginAttempt_def login_block_def Let_def)

lemma addLoginAttempt_frame [simp]:
  "maxLoginTries (addLoginAttempt t ip ok b) = maxLoginTries b" "loginTimeout (addLoginAttempt t ip ok b) = loginTimeout b"
  "retryTimeout (addLoginAttempt t ip ok b) = retryTimeout b"
  by (simp_all add: addLoginAttempt_def Let_def)

lemma addLoginAttempt_count:
  assumes "ip \<noteq> 0" "maxLoginTries b \<noteq> 0" "numberOfLogins (login_block ip b) \<le> maxLoginTries b"
  shows "lastLoginTime (login_block ip (addLoginAttempt t ip ok b)) = t"
    "numberOfLogins (login_block ip (addLoginAttempt t ip ok b)) \<le> maxLoginTries b"
    "unat (numberOfLogins (login_block ip (addLoginAttempt t ip ok b))) =
      count_on (unat (maxLoginTries b)) (unat (numberOfLogins (login_block ip b)))
        (\<not> ok \<or> t < lastLoginTime (login_block ip b) + retryTimeout b)"
proof -
  let ?n = "numberOfLogins (login_block ip b)" and ?m = "maxLoginTries b"
  show "lastLoginTime (login_block ip (addLoginAttempt t ip ok b)) = t"
    using assms(1) by (simp add: addLoginAttempt_def login_block_def Let_def)
  have m: "0 < unat ?m" using assms(2) by (simp add: unat_gt_0)
  have up: "unat (?n + 1) = unat ?n + 1" if "\<not> ?m \<le> ?n"
    using that unat_lt2p [of ?m] by (simp add: word_le_nat_alt unat_word_ariths)
  show c: "unat (numberOfLogins (login_block ip (addLoginAttempt t ip ok b))) =
      count_on (unat ?m) (unat ?n) (\<not> ok \<or> t < lastLoginTime (login_block ip b) + retryTimeout b)"
    using assms(1) up by (auto simp: addLoginAttempt_def login_block_def Let_def count_on_def word_le_nat_alt)
  show "numberOfLogins (login_block ip (addLoginAttempt t ip ok b)) \<le> ?m"
    unfolding word_le_nat_alt c using m by (auto simp: count_on_def)
qed

lemma login_run_frame [simp]:
  "maxLoginTries (login_run es b) = maxLoginTries b" "loginTimeout (login_run es b) = loginTimeout b"
  by (induction es b rule: login_run.induct) auto

lemma login_run_count:
  assumes "ip \<noteq> 0" "maxLoginTries b \<noteq> 0" "numberOfLogins (login_block ip b) \<le> maxLoginTries b"
  shows "unat (numberOfLogins (login_block ip (login_run es b))) =
      foldl (count_on (unat (maxLoginTries b))) (unat (numberOfLogins (login_block ip b)))
        (counting (retryTimeout b) (lastLoginTime (login_block ip b)) (logins_of ip es)) \<and>
    lastLoginTime (login_block ip (login_run es b)) =
      (if logins_of ip es = [] then lastLoginTime (login_block ip b) else fst (last (logins_of ip es)))"
  using assms
proof (induction es b rule: login_run.induct)
  case (2 i t ok es b)
  show ?case
  proof (cases "i = ip")
    case True
    note a = addLoginAttempt_count [OF 2(2-4), of t ok]
    from 2(1) 2(2-4) a True show ?thesis by (simp add: logins_of_def)
  next
    case False
    with 2 show ?thesis by (simp add: logins_of_def addLoginAttempt_other)
  qed
qed (simp add: logins_of_def)



end
