(* ===== verification/Containers.thy ===== *)
theory Containers
  imports Item
begin

text \<open>
  Containers (\<^verbatim>\<open>container.h\<close>, \<^verbatim>\<open>container.cpp\<close>) and the walk to the top parent (\<^verbatim>\<open>thing.cpp\<close>).
  An object is an item, where it is, and for a container its contents.  Contents and parents are
  addresses in a heap, and reading a free address fails with \<^term>\<open>None\<close>.  Weights are real numbers, so the
  rounding of the \<^verbatim>\<open>double\<close> additions is left out; so are the messages to the spectators.
\<close>

section \<open>Objects\<close>

datatype Holder = InContainer nat | OnTile nat | OnCreature nat

record ContainerBody =
  maxSize :: u32
  total_weight :: real
  itemlist :: "nat list"
  serializationCount :: u32

record Object =
  o_item :: Item
  o_parent :: "Holder option"
  o_body :: "ContainerBody option"

type_synonym Heap = "nat \<Rightarrow> Object option"

datatype Thing = ItemThing nat | CreatureThing nat

datatype ReturnValue = RET_NOERROR | RET_NOTPOSSIBLE | RET_NOTENOUGHROOM | RET_NOTMOVEABLE
  | RET_CONTAINERNOTENOUGHROOM | RET_NOTENOUGHCAPACITY | RET_CANNOTPICKUP | RET_THISISIMPOSSIBLE
  | RET_NEEDEXCHANGE | RET_PLAYERISPZLOCKED | RET_PLAYERISPZLOCKEDENTERPVPZONE | RET_PLAYERISPZLOCKEDLEAVEPVPZONE
  | RET_OTHER nat

abbreviation INDEX_WHEREEVER :: int where "INDEX_WHEREEVER \<equiv> -1"
abbreviation FLAG_NOLIMIT :: u32 where "FLAG_NOLIMIT \<equiv> 1"
abbreviation FLAG_CHILDISOWNER :: u32 where "FLAG_CHILDISOWNER \<equiv> 8"
abbreviation FLAG_IGNORENOTMOVEABLE :: u32 where "FLAG_IGNORENOTMOVEABLE \<equiv> 64"

unbundle bit_operations_syntax

definition hasFlags :: "u32 \<Rightarrow> u32 \<Rightarrow> bool" where
  "hasFlags flags f \<longleftrightarrow> flags AND f = f"

definition new_Container :: "Items \<Rightarrow> Item \<Rightarrow> Object" where
  "new_Container items i = \<lparr>o_item = i, o_parent = None,
     o_body = Some \<lparr>maxSize = ucast (it_maxItems (item_type items i)), total_weight = 0, itemlist = [], serializationCount = 0\<rparr>\<rparr>"

definition getWeight :: "Items \<Rightarrow> Object \<Rightarrow> real" where
  "getWeight items ob = item_getWeight items (o_item ob) + (case o_body ob of None \<Rightarrow> 0 | Some c \<Rightarrow> total_weight c)"

definition set_parent :: "Holder option \<Rightarrow> nat \<Rightarrow> Heap \<Rightarrow> Heap option" where
  "set_parent p b h = do { ob \<leftarrow> h b; Some (h(b \<mapsto> ob\<lparr>o_parent := p\<rparr>)) }"

definition get_body :: "nat \<Rightarrow> Heap \<Rightarrow> ContainerBody option" where
  "get_body a h = do { ob \<leftarrow> h a; o_body ob }"

definition put_body :: "nat \<Rightarrow> (ContainerBody \<Rightarrow> ContainerBody) \<Rightarrow> Heap \<Rightarrow> Heap option" where
  "put_body a f h = do { ob \<leftarrow> h a; c \<leftarrow> o_body ob; Some (h(a \<mapsto> ob\<lparr>o_body := Some (f c)\<rparr>)) }"

definition set_item :: "nat \<Rightarrow> Item \<Rightarrow> Heap \<Rightarrow> Heap option" where
  "set_item b i h = do { ob \<leftarrow> h b; Some (h(b \<mapsto> ob\<lparr>o_item := i\<rparr>)) }"

section \<open>Parents\<close>

definition getParent :: "nat \<Rightarrow> Heap \<Rightarrow> Holder option option" where
  "getParent a h = do { ob \<leftarrow> h a; Some (o_parent ob) }"

definition getParentContainer :: "nat \<Rightarrow> Heap \<Rightarrow> nat option option" where
  "getParentContainer a h = do {
     ob \<leftarrow> h a;
     case o_parent ob of
       Some (InContainer p) \<Rightarrow> do { pb \<leftarrow> h p; Some (if o_body pb = None then None else Some p) }
     | _ \<Rightarrow> Some None }"

partial_function (option) updateItemWeight :: "real \<Rightarrow> nat \<Rightarrow> Heap \<Rightarrow> Heap option" where
  "updateItemWeight diff a h = do {
     h \<leftarrow> put_body a (\<lambda>c. c\<lparr>total_weight := total_weight c + diff\<rparr>) h;
     p \<leftarrow> getParentContainer a h;
     case p of None \<Rightarrow> Some h | Some p \<Rightarrow> updateItemWeight diff p h }"

definition update_parent_weight :: "real \<Rightarrow> nat \<Rightarrow> Heap \<Rightarrow> Heap option" where
  "update_parent_weight diff a h = do {
     p \<leftarrow> getParentContainer a h;
     case p of None \<Rightarrow> Some h | Some p \<Rightarrow> updateItemWeight diff p h }"

text \<open>The parent of a container's holder: a tile has none, a creature stands on a tile or nowhere.\<close>

definition holder_parent :: "(nat \<Rightarrow> nat option) \<Rightarrow> Holder \<Rightarrow> Heap \<Rightarrow> Holder option option" where
  "holder_parent creature_tile p h = (case p of
     InContainer a \<Rightarrow> getParent a h
   | OnTile t \<Rightarrow> Some None
   | OnCreature c \<Rightarrow> Some (map_option OnTile (creature_tile c)))"

partial_function (option) top_from :: "(nat \<Rightarrow> nat option) \<Rightarrow> Holder \<Rightarrow> Holder \<Rightarrow> Heap \<Rightarrow> Holder option" where
  "top_from creature_tile aux prevaux h = do {
     p \<leftarrow> holder_parent creature_tile aux h;
     case p of None \<Rightarrow> Some prevaux | Some up \<Rightarrow> top_from creature_tile up aux h }"

definition getTopParent :: "(nat \<Rightarrow> nat option) \<Rightarrow> nat \<Rightarrow> Heap \<Rightarrow> Holder option" where
  "getTopParent creature_tile a h = do {
     p \<leftarrow> getParent a h;
     case p of None \<Rightarrow> Some (InContainer a) | Some up \<Rightarrow> top_from creature_tile up (InContainer a) h }"

partial_function (option) has_parent :: "nat \<Rightarrow> Holder option \<Rightarrow> Heap \<Rightarrow> bool option" where
  "has_parent b p h = (case p of
     Some (InContainer a) \<Rightarrow> if a = b then Some True else do { p \<leftarrow> getParent a h; has_parent b p h }
   | _ \<Rightarrow> Some False)"

section \<open>Queries\<close>

definition size_of :: "ContainerBody \<Rightarrow> u32" where
  "size_of c = word_of_nat (length (itemlist c))"

definition capacity :: "ContainerBody \<Rightarrow> u32" where
  "capacity c = maxSize c"

definition queryAdd ::
  "Items \<Rightarrow> (nat \<Rightarrow> nat option) \<Rightarrow> (Holder \<Rightarrow> nat \<Rightarrow> u32 \<Rightarrow> u32 \<Rightarrow> Heap \<Rightarrow> ReturnValue) \<Rightarrow> nat \<Rightarrow> int \<Rightarrow> Thing \<Rightarrow> u32 \<Rightarrow> u32 \<Rightarrow>
    Heap \<Rightarrow> ReturnValue option" where
  "queryAdd items creature_tile owner_query a index thing count flags h =
     (if hasFlags flags FLAG_CHILDISOWNER then Some RET_NOERROR
      else case thing of CreatureThing _ \<Rightarrow> Some RET_NOTPOSSIBLE
      | ItemThing b \<Rightarrow> do {
          ob \<leftarrow> h b;
          if \<not> isPickupable items (o_item ob) then Some RET_CANNOTPICKUP
          else if b = a then Some RET_THISISIMPOSSIBLE
          else do {
            up \<leftarrow> getParent a h;
            inside \<leftarrow> has_parent b up h;
            if inside then Some RET_THISISIMPOSSIBLE
            else do {
              c \<leftarrow> get_body a h;
              if index = INDEX_WHEREEVER \<and> \<not> hasFlags flags FLAG_NOLIMIT \<and> capacity c \<le> size_of c
              then Some RET_CONTAINERNOTENOUGHROOM
              else do {
                top \<leftarrow> getTopParent creature_tile a h;
                if top \<noteq> InContainer a
                then (case top of
                    InContainer _ \<Rightarrow> Some RET_NOERROR
                  | _ \<Rightarrow> Some (owner_query top b count (flags OR FLAG_CHILDISOWNER) h))
                else Some RET_NOERROR } } } })"

definition getThing :: "u32 \<Rightarrow> ContainerBody \<Rightarrow> nat option" where
  "getThing index c =
     (if size_of c < index then None
      else if unat index < length (itemlist c) then Some (itemlist c ! unat index) else None)"

definition freeSlots :: "ContainerBody \<Rightarrow> int" where
  "freeSlots c = max (sint (capacity c - size_of c)) 0"

definition queryMaxCount :: "Items \<Rightarrow> nat \<Rightarrow> int \<Rightarrow> Thing \<Rightarrow> u32 \<Rightarrow> u32 \<Rightarrow> Heap \<Rightarrow> (ReturnValue \<times> u32) option" where
  "queryMaxCount items a index thing count flags h = (case thing of
     CreatureThing _ \<Rightarrow> Some (RET_NOTPOSSIBLE, 0)
   | ItemThing b \<Rightarrow>
       if hasFlags flags FLAG_NOLIMIT then Some (RET_NOERROR, max 1 count)
       else do {
         c \<leftarrow> get_body a h;
         ob \<leftarrow> h b;
         if isStackable items (o_item ob) then do {
           n \<leftarrow> (if index \<noteq> INDEX_WHEREEVER
             then (case getThing (word_of_int index) c of
                 None \<Rightarrow> Some 0
               | Some d \<Rightarrow> do {
                   db \<leftarrow> h d;
                   Some (if i_id (o_item db) = i_id (o_item ob) then 100 - ucast (i_count (o_item db)) else 0) })
             else Some 0);
           let m = word_of_int (freeSlots c * 100) + n;
           Some (if m < count then RET_CONTAINERNOTENOUGHROOM else RET_NOERROR, m) }
         else let m = word_of_int (freeSlots c) in
           Some (if m = 0 then RET_CONTAINERNOTENOUGHROOM else RET_NOERROR, m) })"

fun index_from :: "'a \<Rightarrow> 'a list \<Rightarrow> nat \<Rightarrow> int" where
  "index_from x [] n = -1"
| "index_from x (y # ys) n = (if y = x then int n else index_from x ys (n + 1))"

definition getIndexOfThing :: "Thing \<Rightarrow> ContainerBody \<Rightarrow> int" where
  "getIndexOfThing thing c = (case thing of CreatureThing _ \<Rightarrow> -1 | ItemThing b \<Rightarrow> index_from b (itemlist c) 0)"

definition queryRemove :: "Items \<Rightarrow> nat \<Rightarrow> Thing \<Rightarrow> u32 \<Rightarrow> u32 \<Rightarrow> Heap \<Rightarrow> ReturnValue option" where
  "queryRemove items a thing count flags h = do {
     c \<leftarrow> get_body a h;
     if getIndexOfThing thing c = -1 then Some RET_NOTPOSSIBLE
     else case thing of CreatureThing _ \<Rightarrow> Some RET_NOTPOSSIBLE
     | ItemThing b \<Rightarrow> do {
         ob \<leftarrow> h b;
         if count = 0 \<or> (isStackable items (o_item ob) \<and> ucast (i_count (o_item ob)) < count) then Some RET_NOTPOSSIBLE
         else if isNotMoveable items (o_item ob) \<and> \<not> hasFlags flags FLAG_IGNORENOTMOVEABLE then Some RET_NOTMOVEABLE
         else Some RET_NOERROR } }"

text \<open>The result is the cylinder, the index in it and the item at the destination.\<close>

definition queryDestination :: "nat \<Rightarrow> int \<Rightarrow> nat option \<Rightarrow> Heap \<Rightarrow> (nat \<times> int \<times> nat option) option" where
  "queryDestination a index destItem h = (
     if index = 254 then do {
       up \<leftarrow> getParentContainer a h;
       Some (case up of Some p \<Rightarrow> p | None \<Rightarrow> a, INDEX_WHEREEVER, None) }
     else if index = 255 then Some (a, INDEX_WHEREEVER, None)
     else do {
       c \<leftarrow> get_body a h;
       let index = (if sint (capacity c) \<le> index then INDEX_WHEREEVER else index);
       if index = INDEX_WHEREEVER then Some (a, index, destItem)
       else do {
         let dest = (case getThing (word_of_int index) c of Some d \<Rightarrow> Some d | None \<Rightarrow> destItem);
         case dest of
           None \<Rightarrow> Some (a, index, None)
         | Some d \<Rightarrow> do {
             db \<leftarrow> h d;
             Some (if o_body db \<noteq> None then (d, INDEX_WHEREEVER, None) else (a, index, Some d)) } } })"

section \<open>Changes of the contents\<close>

definition addItem :: "nat \<Rightarrow> nat \<Rightarrow> Heap \<Rightarrow> Heap option" where
  "addItem a b h = do {
     h \<leftarrow> put_body a (\<lambda>c. c\<lparr>itemlist := itemlist c @ [b]\<rparr>) h;
     set_parent (Some (InContainer a)) b h }"

definition internalAddThing :: "Items \<Rightarrow> nat \<Rightarrow> Thing \<Rightarrow> Heap \<Rightarrow> Heap option" where
  "internalAddThing items a thing h = (case thing of CreatureThing _ \<Rightarrow> Some h
   | ItemThing b \<Rightarrow> do {
       h \<leftarrow> set_parent (Some (InContainer a)) b h;
       h \<leftarrow> put_body a (\<lambda>c. c\<lparr>itemlist := b # itemlist c\<rparr>) h;
       ob \<leftarrow> h b;
       h \<leftarrow> put_body a (\<lambda>c. c\<lparr>total_weight := total_weight c + getWeight items ob\<rparr>) h;
       ob \<leftarrow> h b;
       update_parent_weight (getWeight items ob) a h })"

definition addThing :: "Items \<Rightarrow> nat \<Rightarrow> int \<Rightarrow> Thing \<Rightarrow> Heap \<Rightarrow> Heap option" where
  "addThing items a index thing h = do {
     c \<leftarrow> get_body a h;
     if sint (capacity c) \<le> index then Some h else internalAddThing items a thing h }"

definition updateThing :: "Items \<Rightarrow> nat \<Rightarrow> Thing \<Rightarrow> u16 \<Rightarrow> u32 \<Rightarrow> Heap \<Rightarrow> Heap option" where
  "updateThing items a thing itemId count h = do {
     c \<leftarrow> get_body a h;
     if getIndexOfThing thing c = -1 then Some h
     else case thing of CreatureThing _ \<Rightarrow> Some h
     | ItemThing b \<Rightarrow> do {
         ob \<leftarrow> h b;
         let old_weight = getWeight items ob;
         i \<leftarrow> setID items itemId (o_item ob);
         i \<leftarrow> setSubType items (ucast count) i;
         h \<leftarrow> set_item b i h;
         ob \<leftarrow> h b;
         let diff_weight = - old_weight + getWeight items ob;
         h \<leftarrow> put_body a (\<lambda>c. c\<lparr>total_weight := total_weight c + diff_weight\<rparr>) h;
         update_parent_weight diff_weight a h } }"

definition replaceThing :: "Items \<Rightarrow> nat \<Rightarrow> u32 \<Rightarrow> Thing \<Rightarrow> Heap \<Rightarrow> Heap option" where
  "replaceThing items a index thing h = (case thing of CreatureThing _ \<Rightarrow> Some h
   | ItemThing b \<Rightarrow> do {
       c \<leftarrow> get_body a h;
       if length (itemlist c) \<le> unat index then Some h
       else do {
         let d = itemlist c ! unat index;
         db \<leftarrow> h d;
         ob \<leftarrow> h b;
         h \<leftarrow> put_body a (\<lambda>c. c\<lparr>total_weight := total_weight c - getWeight items db + getWeight items ob\<rparr>) h;
         db \<leftarrow> h d;
         ob \<leftarrow> h b;
         h \<leftarrow> update_parent_weight (- getWeight items db + getWeight items ob) a h;
         h \<leftarrow> put_body a (\<lambda>c. c\<lparr>itemlist := (itemlist c)[unat index := b]\<rparr>) h;
         h \<leftarrow> set_parent (Some (InContainer a)) b h;
         set_parent None d h } })"

definition removeThing :: "Items \<Rightarrow> nat \<Rightarrow> Thing \<Rightarrow> u32 \<Rightarrow> Heap \<Rightarrow> Heap option" where
  "removeThing items a thing count h = (case thing of CreatureThing _ \<Rightarrow> Some h
   | ItemThing b \<Rightarrow> do {
       c \<leftarrow> get_body a h;
       if getIndexOfThing thing c = -1 then Some h
       else do {
         ob \<leftarrow> h b;
         if isStackable items (o_item ob) \<and> count \<noteq> ucast (i_count (o_item ob)) then do {
           let newCount = (word_of_int (max 0 (sint (ucast (i_count (o_item ob)) - count))) :: u8);
           let old_weight = - getWeight items ob;
           h \<leftarrow> set_item b (setItemCount newCount (o_item ob)) h;
           ob \<leftarrow> h b;
           let diff_weight = old_weight + getWeight items ob;
           h \<leftarrow> put_body a (\<lambda>c. c\<lparr>total_weight := total_weight c + diff_weight\<rparr>) h;
           update_parent_weight diff_weight a h }
         else do {
           h \<leftarrow> update_parent_weight (- getWeight items ob) a h;
           ob \<leftarrow> h b;
           h \<leftarrow> put_body a (\<lambda>c. c\<lparr>total_weight := total_weight c - getWeight items ob\<rparr>) h;
           h \<leftarrow> set_parent None b h;
           put_body a (\<lambda>c. c\<lparr>itemlist := remove1 b (itemlist c)\<rparr>) h } } })"

definition count_units :: "Items \<Rightarrow> bool \<Rightarrow> Item \<Rightarrow> u32 option" where
  "count_units items itemCount i =
     (if itemCount \<or> \<not> isRune (item_type items i) then Some (ucast (i_count i)) else map_option ucast (getCharges (attrs i)))"

fun getItemTypeCount :: "Items \<Rightarrow> u16 \<Rightarrow> int \<Rightarrow> bool \<Rightarrow> nat list \<Rightarrow> Heap \<Rightarrow> u32 option" where
  "getItemTypeCount items itemId subType itemCount [] h = Some 0"
| "getItemTypeCount items itemId subType itemCount (b # bs) h = do {
     ob \<leftarrow> h b;
     st \<leftarrow> (if i_id (o_item ob) = itemId \<and> subType \<noteq> -1 then map_option uint (getSubType items (o_item ob)) else Some subType);
     n \<leftarrow> (if i_id (o_item ob) = itemId \<and> subType = st then count_units items itemCount (o_item ob) else Some 0);
     m \<leftarrow> getItemTypeCount items itemId subType itemCount bs h;
     Some (n + m) }"

fun getAllItemTypeCount :: "Items \<Rightarrow> bool \<Rightarrow> nat list \<Rightarrow> Heap \<Rightarrow> (u32 \<Rightarrow> u32 option) \<Rightarrow> (u32 \<Rightarrow> u32 option) option" where
  "getAllItemTypeCount items itemCount [] h countMap = Some countMap"
| "getAllItemTypeCount items itemCount (b # bs) h countMap = do {
     ob \<leftarrow> h b;
     n \<leftarrow> count_units items itemCount (o_item ob);
     let k = ucast (i_id (o_item ob));
     let old = (case countMap k of None \<Rightarrow> 0 | Some m \<Rightarrow> m);
     getAllItemTypeCount items itemCount bs h (countMap(k \<mapsto> old + n)) }"

section \<open>Walking over a container\<close>

text \<open>
  A \<^verbatim>\<open>ContainerIterator\<close> holds the queue of containers still to be walked over and the place in the
  first of them, here the items that remain there.
\<close>

record ContainerIterator =
  over :: "nat list"
  rest :: "nat list"

definition iter_begin :: "nat \<Rightarrow> Heap \<Rightarrow> ContainerIterator option" where
  "iter_begin a h = do {
     c \<leftarrow> get_body a h;
     Some (if itemlist c \<noteq> [] then \<lparr>over = [a], rest = itemlist c\<rparr> else \<lparr>over = [], rest = []\<rparr>) }"

definition iter_at_end :: "ContainerIterator \<Rightarrow> bool" where
  "iter_at_end it \<longleftrightarrow> over it = []"

definition iter_item :: "ContainerIterator \<Rightarrow> nat option" where
  "iter_item it = (case rest it of [] \<Rightarrow> None | b # _ \<Rightarrow> Some b)"

definition iter_next :: "Heap \<Rightarrow> ContainerIterator \<Rightarrow> ContainerIterator option" where
  "iter_next h it = (case rest it of [] \<Rightarrow> None
   | b # bs \<Rightarrow> do {
       ob \<leftarrow> h b;
       let q = (case o_body ob of None \<Rightarrow> over it | Some c \<Rightarrow> if itemlist c \<noteq> [] then over it @ [b] else over it);
       if bs \<noteq> [] then Some \<lparr>over = q, rest = bs\<rparr>
       else case tl q of
         [] \<Rightarrow> Some \<lparr>over = [], rest = []\<rparr>
       | d # q \<Rightarrow> do { c \<leftarrow> get_body d h; Some \<lparr>over = d # q, rest = itemlist c\<rparr> } })"

partial_function (option) count_items :: "Heap \<Rightarrow> ContainerIterator \<Rightarrow> u32 \<Rightarrow> u32 option" where
  "count_items h it counter = (if iter_at_end it then Some counter
     else do { it \<leftarrow> iter_next h it; count_items h it (counter + 1) })"

definition getItemHoldingCount :: "nat \<Rightarrow> Heap \<Rightarrow> u32 option" where
  "getItemHoldingCount a h = do { it \<leftarrow> iter_begin a h; count_items h it 0 }"

partial_function (option) holds_from :: "nat \<Rightarrow> Heap \<Rightarrow> ContainerIterator \<Rightarrow> bool option" where
  "holds_from item h it = (if iter_at_end it then Some False
     else do {
       b \<leftarrow> iter_item it;
       if b = item then Some True else do { it \<leftarrow> iter_next h it; holds_from item h it } })"

definition isHoldingItem :: "nat \<Rightarrow> nat \<Rightarrow> Heap \<Rightarrow> bool option" where
  "isHoldingItem a item h = do { it \<leftarrow> iter_begin a h; holds_from item h it }"

section \<open>The shape of the heap\<close>

text \<open>
  The shape is everything but the weights: which objects there are, what they are, who holds them
  and, for containers, their contents.
\<close>

definition shape :: "Heap \<Rightarrow> Heap" where
  "shape h = (\<lambda>x. map_option (\<lambda>ob. ob\<lparr>o_body := map_option (\<lambda>c. c\<lparr>total_weight := 0\<rparr>) (o_body ob)\<rparr>) (h x))"

definition parent_of :: "Heap \<Rightarrow> nat \<Rightarrow> nat option" where
  "parent_of h b = (case h b of None \<Rightarrow> None | Some ob \<Rightarrow>
     (case o_parent ob of Some (InContainer p) \<Rightarrow> Some p | _ \<Rightarrow> None))"

definition contents :: "Heap \<Rightarrow> nat \<Rightarrow> nat list option" where
  "contents h a = map_option itemlist (get_body a h)"

definition weight_of :: "Items \<Rightarrow> Heap \<Rightarrow> nat \<Rightarrow> real" where
  "weight_of items h b = (case h b of None \<Rightarrow> 0 | Some ob \<Rightarrow> getWeight items ob)"

inductive rooted :: "(nat \<Rightarrow> nat option) \<Rightarrow> nat \<Rightarrow> bool" for par where
  root: "par a = None \<Longrightarrow> rooted par a"
| inside: "par a = Some p \<Longrightarrow> rooted par p \<Longrightarrow> rooted par a"

inductive above :: "(nat \<Rightarrow> nat option) \<Rightarrow> nat \<Rightarrow> nat \<Rightarrow> bool" for par where
  here: "above par a a"
| up: "par a = Some p \<Longrightarrow> above par p b \<Longrightarrow> above par a b"

definition links :: "(nat \<Rightarrow> nat list option) \<Rightarrow> (nat \<Rightarrow> nat option) \<Rightarrow> bool" where
  "links con par \<longleftrightarrow>
     (\<forall>a xs. con a = Some xs \<longrightarrow> distinct xs \<and> (\<forall>b. b \<in> set xs \<longleftrightarrow> par b = Some a)) \<and>
     (\<forall>b p. par b = Some p \<longrightarrow> con p \<noteq> None) \<and>
     (\<forall>a. rooted par a)"

definition links_ok :: "Heap \<Rightarrow> bool" where
  "links_ok h \<longleftrightarrow> links (contents h) (parent_of h)"

definition weights_off :: "Items \<Rightarrow> Heap \<Rightarrow> (nat \<Rightarrow> real) \<Rightarrow> bool" where
  "weights_off items h e \<longleftrightarrow>
     (\<forall>a c. get_body a h = Some c \<longrightarrow> total_weight c + e a = (\<Sum>b \<leftarrow> itemlist c. weight_of items h b))"

definition container_inv :: "Items \<Rightarrow> Heap \<Rightarrow> bool" where
  "container_inv items h \<longleftrightarrow> links_ok h \<and> weights_off items h (\<lambda>_. 0)"

lemma parent_of_shape: "parent_of h = (\<lambda>x. case shape h x of None \<Rightarrow> None | Some ob \<Rightarrow>
    (case o_parent ob of Some (InContainer p) \<Rightarrow> Some p | _ \<Rightarrow> None))"
  by (auto simp: fun_eq_iff parent_of_def shape_def split: option.split)

lemma contents_shape: "contents h = (\<lambda>x. case shape h x of None \<Rightarrow> None | Some ob \<Rightarrow> map_option itemlist (o_body ob))"
  by (auto simp: fun_eq_iff contents_def get_body_def shape_def option.map_comp comp_def split: option.split)

lemma shape_parent: "shape h' = shape h \<Longrightarrow> parent_of h' = parent_of h"
  by (simp add: parent_of_shape)

lemma shape_contents: "shape h' = shape h \<Longrightarrow> contents h' = contents h"
  by (simp add: contents_shape)

lemma shape_links: "shape h' = shape h \<Longrightarrow> links_ok h' = links_ok h"
  using shape_parent [of h' h] shape_contents [of h' h] by (simp add: links_ok_def links_def)

lemma put_body_Some:
  "get_body a h = Some c \<Longrightarrow> \<exists>ob. h a = Some ob \<and> o_body ob = Some c \<and> put_body a f h = Some (h(a \<mapsto> ob\<lparr>o_body := Some (f c)\<rparr>))"
  by (auto simp: get_body_def put_body_def Option.bind_eq_Some_conv)

lemma contents_Some: "contents h a = Some xs \<longleftrightarrow> (\<exists>c. get_body a h = Some c \<and> itemlist c = xs)"
  by (auto simp: contents_def)

lemma getParentContainer_parent:
  assumes "links_ok h" "h a = Some ob"
  shows "getParentContainer a h = Some (parent_of h a)"
proof (cases "parent_of h a")
  case None
  then show ?thesis using assms(2) by (auto simp: parent_of_def getParentContainer_def split: option.splits Holder.splits)
next
  case (Some p)
  then have "contents h p \<noteq> None" using assms(1) by (auto simp: links_ok_def links_def)
  then show ?thesis using Some assms(2)
    by (auto simp: parent_of_def getParentContainer_def contents_def get_body_def Option.bind_eq_Some_conv
        split: option.splits Holder.splits)
qed

lemma sum_change:
  fixes f g :: "'a \<Rightarrow> real"
  assumes "distinct xs" "\<And>x. x \<noteq> b \<Longrightarrow> g x = f x"
  shows "(\<Sum>x \<leftarrow> xs. g x) = (\<Sum>x \<leftarrow> xs. f x) + (if b \<in> set xs then g b - f b else 0)"
  using assms(1)
proof (induction xs)
  case (Cons x xs)
  then show ?case using assms(2) by (cases "x = b") auto
qed simp

text \<open>An object whose own weight changes disturbs the sum of its holder only.\<close>

lemma weights_off_change:
  assumes links: "links_ok h" and off: "weights_off items h e"
    and others: "\<And>x. x \<noteq> b \<Longrightarrow> h' x = h x" and same: "shape h' = shape h \<or> contents h' = contents h \<and> parent_of h' = parent_of h"
    and own: "\<And>c. get_body b h = Some c \<Longrightarrow> \<exists>c'. get_body b h' = Some c' \<and> total_weight c' = total_weight c + d"
  shows "weights_off items h' (\<lambda>x. e x - (if x = b then d else 0) +
    (if parent_of h b = Some x then weight_of items h' b - weight_of items h b else 0))"
  unfolding weights_off_def
proof (intro allI impI)
  fix a c'
  assume c': "get_body a h' = Some c'"
  have cont: "contents h' = contents h" "parent_of h' = parent_of h" using same shape_contents shape_parent by blast+
  then have "contents h a = Some (itemlist c')" using c' by (metis contents_Some)
  then obtain c where c: "get_body a h = Some c" "itemlist c = itemlist c'" by (auto simp: contents_Some)
  have xs: "distinct (itemlist c')" "b \<in> set (itemlist c') \<longleftrightarrow> parent_of h b = Some a"
    using links \<open>contents h a = _\<close> by (auto simp: links_ok_def links_def)
  have "(\<Sum>x \<leftarrow> itemlist c'. weight_of items h' x) = (\<Sum>x \<leftarrow> itemlist c'. weight_of items h x) +
      (if b \<in> set (itemlist c') then weight_of items h' b - weight_of items h b else 0)"
    using xs(1) others by (intro sum_change) (auto simp: weight_of_def)
  moreover have "total_weight c' = total_weight c + (if a = b then d else 0)"
    using own [of c] c c' others [of a] by (auto simp: get_body_def)
  moreover have "total_weight c + e a = (\<Sum>x \<leftarrow> itemlist c'. weight_of items h x)"
    using off c by (auto simp: weights_off_def)
  ultimately show "total_weight c' + (e a - (if a = b then d else 0) +
      (if parent_of h b = Some a then weight_of items h' b - weight_of items h b else 0)) =
      (\<Sum>b \<leftarrow> itemlist c'. weight_of items h' b)"
    using xs(2) by auto
qed

lemma add_weight:
  assumes links: "links_ok h" and off: "weights_off items h e" and c: "get_body a h = Some c"
  shows "\<exists>h'. put_body a (\<lambda>c. c\<lparr>total_weight := total_weight c + d\<rparr>) h = Some h' \<and> shape h' = shape h \<and> h' a \<noteq> None \<and>
    weights_off items h' (\<lambda>x. e x - (if x = a then d else 0) + (if parent_of h a = Some x then d else 0)) \<and>
    (\<forall>x. x \<noteq> a \<longrightarrow> h' x = h x)"
proof -
  obtain ob where ob: "h a = Some ob" "o_body ob = Some c"
    "put_body a (\<lambda>c. c\<lparr>total_weight := total_weight c + d\<rparr>) h = Some (h(a \<mapsto> ob\<lparr>o_body := Some (c\<lparr>total_weight := total_weight c + d\<rparr>)\<rparr>))"
    using put_body_Some [OF c] by blast
  let ?h = "h(a \<mapsto> ob\<lparr>o_body := Some (c\<lparr>total_weight := total_weight c + d\<rparr>)\<rparr>)"
  have "shape ?h = shape h" using ob by (auto simp: shape_def)
  moreover have "weight_of items ?h a - weight_of items h a = d" using ob by (simp add: weight_of_def getWeight_def)
  moreover have "weights_off items ?h (\<lambda>x. e x - (if x = a then d else 0) +
      (if parent_of h a = Some x then weight_of items ?h a - weight_of items h a else 0))"
    using ob c calculation(1) by (intro weights_off_change [OF links off]) (auto simp: get_body_def)
  ultimately show ?thesis using ob by (simp only: fun_upd_same) auto
qed

lemma updateItemWeight_total:
  assumes "rooted par a" "parent_of h = par" "links_ok h" "weights_off items h e" "get_body a h = Some c"
  shows "\<exists>h'. updateItemWeight d a h = Some h' \<and> shape h' = shape h \<and> weights_off items h' (e(a := e a - d)) \<and>
    (\<forall>x. \<not> above par a x \<longrightarrow> h' x = h x)"
  using assms
proof (induction arbitrary: h e c rule: rooted.induct)
  case (root a)
  obtain h' where h': "put_body a (\<lambda>c. c\<lparr>total_weight := total_weight c + d\<rparr>) h = Some h'" "shape h' = shape h" "h' a \<noteq> None"
    "weights_off items h' (\<lambda>x. e x - (if x = a then d else 0) + (if parent_of h a = Some x then d else 0))"
    "\<And>x. x \<noteq> a \<Longrightarrow> h' x = h x"
    using add_weight [OF root(3,4,5)] by blast
  have "links_ok h'" "parent_of h' a = None" using h'(2) root shape_links shape_parent by metis+
  then have "getParentContainer a h' = Some None" using getParentContainer_parent h'(3) by fastforce
  moreover have "(\<lambda>x. e x - (if x = a then d else 0) + (if parent_of h a = Some x then d else 0)) = e(a := e a - d)"
    using root(1,2) by auto
  moreover have "h' x = h x" if "\<not> above par a x" for x using that h'(5) [of x] above.here by blast
  ultimately show ?case using h' by (subst updateItemWeight.simps) simp
next
  case (inside a p)
  obtain h' where h': "put_body a (\<lambda>c. c\<lparr>total_weight := total_weight c + d\<rparr>) h = Some h'" "shape h' = shape h" "h' a \<noteq> None"
    "weights_off items h' (\<lambda>x. e x - (if x = a then d else 0) + (if parent_of h a = Some x then d else 0))"
    "\<And>x. x \<noteq> a \<Longrightarrow> h' x = h x"
    using add_weight [OF inside(5,6,7)] by blast
  have l: "links_ok h'" "parent_of h' = parent_of h" using h'(2) inside(5) shape_links shape_parent by metis+
  then have up: "getParentContainer a h' = Some (Some p)" using getParentContainer_parent h'(3) inside(1,4) by fastforce
  have "contents h' p \<noteq> None" using l inside(1,4) by (metis links_ok_def links_def)
  then obtain c' where "get_body p h' = Some c'" by (auto simp: contents_def)
  from inside(3) [OF trans [OF l(2) inside(4)] l(1) h'(4) this]
  obtain h2 where h2: "updateItemWeight d p h' = Some h2" "shape h2 = shape h'"
    "weights_off items h2 ((\<lambda>x. e x - (if x = a then d else 0) + (if parent_of h a = Some x then d else 0))
       (p := (\<lambda>x. e x - (if x = a then d else 0) + (if parent_of h a = Some x then d else 0)) p - d))"
    "\<And>x. \<not> above par p x \<Longrightarrow> h2 x = h' x"
    by blast
  have "(\<lambda>x. e x - (if x = a then d else 0) + (if parent_of h a = Some x then d else 0))
       (p := (\<lambda>x. e x - (if x = a then d else 0) + (if parent_of h a = Some x then d else 0)) p - d) = e(a := e a - d)"
    using inside(1,4) by auto
  moreover have "h2 x = h x" if "\<not> above par a x" for x
    using that h'(5) [of x] h2(4) [of x] above.here above.up inside(1) by metis
  ultimately show ?case using h' h2 up by (subst updateItemWeight.simps) simp
qed

section \<open>Putting in and taking out\<close>

lemma rooted_upd:
  assumes "rooted par a" "\<not> above par a b"
  shows "rooted (par(b := q)) a"
  using assms
proof (induction rule: rooted.induct)
  case (root a)
  then have "a \<noteq> b" using above.here by auto
  with root(1) show ?case by (auto intro: rooted.root)
next
  case (inside a p)
  then have "a \<noteq> b" "\<not> above par p b" using above.here above.up by auto
  with inside show ?case by (auto intro: rooted.inside)
qed

lemma rooted_add:
  assumes "rooted par x" "rooted (par(b \<mapsto> a)) a"
  shows "rooted (par(b \<mapsto> a)) x"
  using assms(1)
proof (induction rule: rooted.induct)
  case (root x)
  show ?case
  proof (cases "x = b")
    case True
    show ?thesis by (rule rooted.inside [OF _ assms(2)]) (simp add: True)
  qed (rule rooted.root, simp add: root)
next
  case (inside x p)
  show ?case
  proof (cases "x = b")
    case True
    show ?thesis by (rule rooted.inside [OF _ assms(2)]) (simp add: True)
  qed (rule rooted.inside [OF _ inside(3)], simp add: inside)
qed

lemma rooted_remove:
  assumes "rooted par x"
  shows "rooted (par(b := None)) x"
  using assms
proof (induction rule: rooted.induct)
  case (root x)
  then show ?case by (intro rooted.root) simp
next
  case (inside x p)
  show ?case
  proof (cases "x = b")
    case True
    then show ?thesis by (intro rooted.root) simp
  qed (rule rooted.inside [OF _ inside(3)], simp add: inside)
qed

lemma linksD:
  assumes "links con par"
  shows "con a = Some xs \<Longrightarrow> distinct xs" "con a = Some xs \<Longrightarrow> b \<in> set xs \<longleftrightarrow> par b = Some a"
    "par b = Some p \<Longrightarrow> con p \<noteq> None" "rooted par x"
  using assms unfolding links_def by blast+

lemma links_add:
  assumes l: "links con par" and a: "con a = Some xs" and b: "par b = None" "\<not> above par a b"
    and ys: "distinct ys" "set ys = insert b (set xs)"
  shows "links (con(a \<mapsto> ys)) (par(b \<mapsto> a))"
proof -
  have "rooted (par(b \<mapsto> a)) x" for x
    by (rule rooted_add [OF linksD(4) [OF l] rooted_upd [OF linksD(4) [OF l] b(2)]])
  moreover have "y \<in> set zs \<longleftrightarrow> (par(b \<mapsto> a)) y = Some c" if "(con(a \<mapsto> ys)) c = Some zs" for c zs y
  proof (cases "c = a")
    case True
    then show ?thesis using that ys linksD(2) [OF l a, of y] by auto
  next
    case False
    then have "y \<in> set zs \<longleftrightarrow> par y = Some c" using that linksD(2) [OF l, of c zs y] by simp
    then show ?thesis using b(1) False by auto
  qed
  moreover have "distinct zs" if "(con(a \<mapsto> ys)) c = Some zs" for c zs
    using that linksD(1) [OF l, of c] ys(1) by (cases "c = a") auto
  moreover have "(con(a \<mapsto> ys)) q \<noteq> None" if "(par(b \<mapsto> a)) y = Some q" for y q
    using that linksD(3) [OF l, of y q] by (cases "y = b") auto
  ultimately show ?thesis unfolding links_def by blast
qed

lemma links_remove:
  assumes l: "links con par" and a: "con a = Some xs" "b \<in> set xs" and ys: "distinct ys" "set ys = set xs - {b}"
  shows "links (con(a \<mapsto> ys)) (par(b := None))"
proof -
  have p: "par b = Some a" using linksD(2) [OF l a(1)] a(2) by blast
  have "rooted (par(b := None)) x" for x by (rule rooted_remove [OF linksD(4) [OF l]])
  moreover have "y \<in> set zs \<longleftrightarrow> (par(b := None)) y = Some c" if "(con(a \<mapsto> ys)) c = Some zs" for c zs y
  proof (cases "c = a")
    case True
    then show ?thesis using that ys linksD(2) [OF l a(1), of y] by auto
  next
    case False
    then have "y \<in> set zs \<longleftrightarrow> par y = Some c" using that linksD(2) [OF l, of c zs y] by simp
    then show ?thesis using p False by auto
  qed
  moreover have "distinct zs" if "(con(a \<mapsto> ys)) c = Some zs" for c zs
    using that linksD(1) [OF l, of c] ys(1) by (cases "c = a") auto
  moreover have "(con(a \<mapsto> ys)) q \<noteq> None" if "(par(b := None)) y = Some q" for y q
    using that linksD(3) [OF l, of y q] by (cases "y = b") auto
  ultimately show ?thesis unfolding links_def by blast
qed

text \<open>New contents for one container, the weights as they were.\<close>

definition same_weights :: "Items \<Rightarrow> Heap \<Rightarrow> Heap \<Rightarrow> bool" where
  "same_weights items h' h \<longleftrightarrow> weight_of items h' = weight_of items h \<and>
     (\<forall>x. map_option total_weight (get_body x h') = map_option total_weight (get_body x h))"

lemma relink_weights:
  assumes off: "weights_off items h e" and w: "same_weights items h' h"
    and a: "contents h a = Some xs" and c: "contents h' = (contents h)(a \<mapsto> ys)"
  shows "weights_off items h' (e(a := e a + (\<Sum>b \<leftarrow> ys. weight_of items h b) - (\<Sum>b \<leftarrow> xs. weight_of items h b)))"
  unfolding weights_off_def
proof (intro allI impI)
  fix x c'
  assume c': "get_body x h' = Some c'"
  have cx: "contents h' x = Some (itemlist c')" using c' by (simp add: contents_def)
  obtain d where d: "get_body x h = Some d" "total_weight d = total_weight c'"
    using w c' by (metis (no_types, lifting) map_option_eq_Some same_weights_def)
  have "total_weight d + e x = (\<Sum>b \<leftarrow> itemlist d. weight_of items h b)" using off d(1) unfolding weights_off_def by blast
  moreover have "contents h x = Some (itemlist d)" using d by (simp add: contents_def)
  moreover have "weight_of items h' = weight_of items h" using w by (simp add: same_weights_def)
  ultimately show "total_weight c' + (e(a := e a + (\<Sum>b \<leftarrow> ys. weight_of items h b) - (\<Sum>b \<leftarrow> xs. weight_of items h b))) x =
      (\<Sum>b \<leftarrow> itemlist c'. weight_of items h' b)"
    using cx c a d(2) by (auto split: if_splits)
qed

lemma add_then_update:
  "(put_body a (\<lambda>c. c\<lparr>total_weight := total_weight c + d\<rparr>) h \<bind> update_parent_weight d a) = updateItemWeight d a h"
  by (subst updateItemWeight.simps) (simp add: update_parent_weight_def [abs_def])

lemma update_then_add:
  assumes links: "links_ok h" and off: "weights_off items h e" and c: "get_body a h = Some c"
  shows "\<exists>h' h2. update_parent_weight d a h = Some h' \<and> put_body a (\<lambda>c. c\<lparr>total_weight := total_weight c + d\<rparr>) h' = Some h2 \<and>
    shape h2 = shape h \<and> weights_off items h2 (e(a := e a - d)) \<and>
    (\<forall>x. \<not> above (parent_of h) a x \<longrightarrow> h' x = h x)"
proof -
  obtain ob where ob: "h a = Some ob" using c by (auto simp: get_body_def Option.bind_eq_Some_conv)
  have up: "getParentContainer a h = Some (parent_of h a)" by (rule getParentContainer_parent [OF links ob])
  obtain h' e' where h': "update_parent_weight d a h = Some h'" "shape h' = shape h" "weights_off items h' e'"
    "e' = (\<lambda>x. e x - (if parent_of h a = Some x then d else 0))" "\<And>x. \<not> above (parent_of h) a x \<Longrightarrow> h' x = h x"
  proof (cases "parent_of h a")
    case None
    with that up off show ?thesis by (simp add: update_parent_weight_def)
  next
    case (Some p)
    then have "contents h p \<noteq> None" using linksD(3) [OF links [unfolded links_ok_def]] by blast
    then obtain cp where "get_body p h = Some cp" by (auto simp: contents_def)
    moreover have "rooted (parent_of h) p" by (rule linksD(4) [OF links [unfolded links_ok_def]])
    ultimately obtain h' where "updateItemWeight d p h = Some h'" "shape h' = shape h" "weights_off items h' (e(p := e p - d))"
      "\<And>x. \<not> above (parent_of h) p x \<Longrightarrow> h' x = h x"
      using updateItemWeight_total links off by blast
    moreover have "e(p := e p - d) = (\<lambda>x. e x - (if parent_of h a = Some x then d else 0))" using Some by auto
    ultimately show ?thesis using that up Some above.up by (simp add: update_parent_weight_def) metis
  qed
  note sh = shape_links [OF h'(2)] shape_contents [OF h'(2)] shape_parent [OF h'(2)]
  have l': "links_ok h'" "contents h' a \<noteq> None" "parent_of h' = parent_of h"
    using sh links c by (simp_all add: contents_def [of h])
  then obtain c' where "get_body a h' = Some c'" by (auto simp: contents_def)
  from add_weight [OF l'(1) h'(3) this, of d] obtain h2 where h2:
    "put_body a (\<lambda>c. c\<lparr>total_weight := total_weight c + d\<rparr>) h' = Some h2" "shape h2 = shape h'"
    "weights_off items h2 (\<lambda>x. e' x - (if x = a then d else 0) + (if parent_of h' a = Some x then d else 0))"
    by blast
  moreover have "(\<lambda>x. e' x - (if x = a then d else 0) + (if parent_of h' a = Some x then d else 0)) = e(a := e a - d)"
    using h'(4) l'(3) by auto
  ultimately show ?thesis using h'(1,2,5) by auto
qed

lemma rooted_no_cycle: "rooted par a \<Longrightarrow> above par a b \<Longrightarrow> par b \<noteq> Some a"
proof (induction arbitrary: b rule: rooted.induct)
  case (root a)
  then show ?case by (auto elim: above.cases)
next
  case (inside a p)
  show ?case
  proof
    assume b: "par b = Some a"
    have "above par p a"
    proof (cases "b = a")
      case True
      with b inside(1) show ?thesis by (auto intro: above.here)
    next
      case False
      then have "above par p b" using inside(1,4) by (auto elim: above.cases)
      then show ?thesis using b by (induction rule: above.induct) (auto intro: above.intros)
    qed
    with inside(1,3) show False by blast
  qed
qed

section \<open>The operations keep the invariant\<close>

lemma inv_container:
  assumes "container_inv items h"
  shows "links_ok h" "weights_off items h (\<lambda>_. 0)" "links (contents h) (parent_of h)"
  using assms by (simp_all add: container_inv_def links_ok_def)

lemma set_parent_facts:
  assumes "set_parent q b h = Some h'"
  shows "contents h' = contents h" "same_weights items h' h" "parent_of h' = (parent_of h)(b := (case q of Some (InContainer p) \<Rightarrow> Some p | _ \<Rightarrow> None))"
    "\<And>x. (h' x = None) = (h x = None)"
proof -
  obtain ob where ob: "h b = Some ob" "h' = h(b \<mapsto> ob\<lparr>o_parent := q\<rparr>)"
    using assms by (auto simp: set_parent_def Option.bind_eq_Some_conv)
  have body: "get_body x h' = get_body x h" for x using ob by (simp add: get_body_def)
  then show "contents h' = contents h" by (simp add: contents_def fun_eq_iff)
  have "weight_of items h' x = weight_of items h x" for x using ob by (simp add: weight_of_def getWeight_def)
  then show "same_weights items h' h" using body by (simp add: same_weights_def fun_eq_iff)
  show "parent_of h' = (parent_of h)(b := (case q of Some (InContainer p) \<Rightarrow> Some p | _ \<Rightarrow> None))"
    using ob by (auto simp: parent_of_def)
  show "\<And>x. (h' x = None) = (h x = None)" using ob by simp
qed

lemma put_list_facts:
  assumes "put_body a (\<lambda>c. c\<lparr>itemlist := f (itemlist c)\<rparr>) h = Some h'" "contents h a = Some xs"
  shows "contents h' = (contents h)(a \<mapsto> f xs)" "same_weights items h' h" "parent_of h' = parent_of h"
    "\<And>x. (h' x = None) = (h x = None)"
proof -
  obtain ob c where ob: "h a = Some ob" "o_body ob = Some c" "itemlist c = xs"
    "h' = h(a \<mapsto> ob\<lparr>o_body := Some (c\<lparr>itemlist := f xs\<rparr>)\<rparr>)"
    using assms by (auto simp: put_body_def Option.bind_eq_Some_conv contents_def get_body_def)
  show "contents h' = (contents h)(a \<mapsto> f xs)" using ob by (auto simp: contents_def get_body_def)
  have "weight_of items h' x = weight_of items h x" for x using ob by (simp add: weight_of_def getWeight_def)
  moreover have "map_option total_weight (get_body x h') = map_option total_weight (get_body x h)" for x
    using ob by (simp add: get_body_def)
  ultimately show "same_weights items h' h" by (simp add: same_weights_def fun_eq_iff)
  show "parent_of h' = parent_of h" using ob by (auto simp: parent_of_def)
  show "\<And>x. (h' x = None) = (h x = None)" using ob by simp
qed

lemma same_weights_trans: "same_weights items h2 h1 \<Longrightarrow> same_weights items h1 h \<Longrightarrow> same_weights items h2 h"
  by (simp add: same_weights_def)

lemma set_parent_defined: "h b \<noteq> None \<Longrightarrow> \<exists>h'. set_parent q b h = Some h'"
  by (auto simp: set_parent_def)

lemma put_list_defined: "contents h a \<noteq> None \<Longrightarrow> \<exists>h'. put_body a f h = Some h'"
  by (auto simp: put_body_def contents_def get_body_def Option.bind_eq_Some_conv)

lemma weight_of_Some: "h b = Some ob \<Longrightarrow> weight_of items h b = getWeight items ob"
  by (simp add: weight_of_def)

lemma internalAddThing_inv:
  assumes inv: "container_inv items h" and a: "contents h a = Some xs" and b: "h b \<noteq> None" "parent_of h b = None" "\<not> above (parent_of h) a b"
  shows "\<exists>h'. internalAddThing items a (ItemThing b) h = Some h' \<and> container_inv items h' \<and>
    contents h' = (contents h)(a \<mapsto> b # xs) \<and> parent_of h' = (parent_of h)(b \<mapsto> a)"
proof -
  obtain h1 where h1: "set_parent (Some (InContainer a)) b h = Some h1" using set_parent_defined b(1) by blast
  note f1 = set_parent_facts [OF h1]
  have a1: "contents h1 a = Some xs" using a f1(1) by simp
  then obtain h2 where h2: "put_body a (\<lambda>c. c\<lparr>itemlist := b # itemlist c\<rparr>) h1 = Some h2" using put_list_defined by blast
  note f2 = put_list_facts [OF h2 a1]
  have con: "contents h2 = (contents h)(a \<mapsto> b # xs)" and par: "parent_of h2 = (parent_of h)(b \<mapsto> a)"
    using f1 f2 by simp_all
  have w: "same_weights items h2 h" using f1(2) f2(2) same_weights_trans by blast
  obtain ob where ob: "h2 b = Some ob" using b(1) f1(4) f2(4) by fastforce
  have wb: "getWeight items ob = weight_of items h b"
    using weight_of_Some [of h2 b ob items] ob w by (simp add: same_weights_def)
  have nb: "b \<notin> set xs" using linksD(2) [OF inv_container(3) [OF inv] a] b(2) by simp
  have l2: "links_ok h2" unfolding links_ok_def con par
    using linksD(1) [OF inv_container(3) [OF inv] a] nb by (intro links_add [OF inv_container(3) [OF inv] a b(2,3)]) auto
  have off2: "weights_off items h2 ((\<lambda>_. 0)(a := getWeight items ob))"
    using relink_weights [OF inv_container(2) [OF inv] w a con] wb by simp
  obtain c where c: "get_body a h2 = Some c" using fun_cong [OF con, of a] by (auto simp: contents_Some)
  obtain h3 where h3: "updateItemWeight (getWeight items ob) a h2 = Some h3" "shape h3 = shape h2"
    "weights_off items h3 (((\<lambda>_. 0)(a := getWeight items ob))(a := getWeight items ob - getWeight items ob))"
    using updateItemWeight_total [OF linksD(4) [OF l2 [unfolded links_ok_def]] refl l2 off2 c, of "getWeight items ob"] by auto
  have "a \<noteq> b" using b(3) above.here by blast
  then have ob': "put_body a f h2 = Some h' \<Longrightarrow> h' b = Some ob" for f h'
    using ob by (auto simp: put_body_def Option.bind_eq_Some_conv)
  obtain h2' where h2': "put_body a (\<lambda>c. c\<lparr>total_weight := total_weight c + getWeight items ob\<rparr>) h2 = Some h2'"
    using put_list_defined [of h2 a] con by fastforce
  have "update_parent_weight (getWeight items ob) a h2' = Some h3"
    using h3(1) add_then_update [of a "getWeight items ob" h2] h2' by simp
  then have "internalAddThing items a (ItemThing b) h = Some h3"
    by (simp add: internalAddThing_def h1 h2 ob h2' ob' [OF h2'])
  moreover have "weights_off items h3 (\<lambda>_. 0)"
    using h3(3) by (rule back_subst [where P = "weights_off items h3"]) auto
  ultimately show ?thesis
    using shape_links [OF h3(2)] shape_contents [OF h3(2)] shape_parent [OF h3(2)] l2 con par
    by (auto simp: container_inv_def)
qed

lemma removeThing_inv:
  assumes inv: "container_inv items h" and a: "contents h a = Some xs" and b: "b \<in> set xs" "h b = Some ob"
    and all: "\<not> isStackable items (o_item ob) \<or> count = ucast (i_count (o_item ob))"
  shows "\<exists>h'. removeThing items a (ItemThing b) count h = Some h' \<and> container_inv items h' \<and>
    contents h' = (contents h)(a \<mapsto> remove1 b xs) \<and> parent_of h' = (parent_of h)(b := None)"
proof -
  let ?w = "getWeight items ob"
  obtain c where c: "get_body a h = Some c" "itemlist c = xs" using a by (auto simp: contents_Some)
  have found: "getIndexOfThing (ItemThing b) c \<noteq> -1"
  proof -
    have "b \<in> set ys \<Longrightarrow> index_from b ys n \<noteq> -1" for ys n by (induction ys arbitrary: n) auto
    then show ?thesis using b(1) c(2) by (simp add: getIndexOfThing_def)
  qed
  have pb: "parent_of h b = Some a" using linksD(2) [OF inv_container(3) [OF inv] a] b(1) by blast
  have nb: "\<not> above (parent_of h) a b"
    using rooted_no_cycle [OF linksD(4) [OF inv_container(3) [OF inv]]] pb by blast
  obtain h1 h2 where h2: "update_parent_weight (- ?w) a h = Some h1"
    "put_body a (\<lambda>c. c\<lparr>total_weight := total_weight c + - ?w\<rparr>) h1 = Some h2" "shape h2 = shape h"
    "weights_off items h2 ((\<lambda>_. 0)(a := 0 - - ?w))" "\<And>x. \<not> above (parent_of h) a x \<Longrightarrow> h1 x = h x"
    using update_then_add [OF inv_container(1) [OF inv] inv_container(2) [OF inv] c(1), of "- ?w"] by blast
  have h1b: "h1 b = Some ob" using h2(5) [OF nb] b(2) by simp
  note sh = shape_links [OF h2(3)] shape_contents [OF h2(3)] shape_parent [OF h2(3)]
  have a2: "contents h2 a = Some xs" and l2: "links (contents h2) (parent_of h2)"
    using sh a inv_container(3) [OF inv] by simp_all
  have b2: "h2 b \<noteq> None" using fun_cong [OF h2(3), of b] b(2) by (auto simp: shape_def)
  obtain h3 where h3: "set_parent None b h2 = Some h3" using set_parent_defined b2 by blast
  note f3 = set_parent_facts [OF h3]
  have a3: "contents h3 a = Some xs" using a2 f3(1) by simp
  then obtain h4 where h4: "put_body a (\<lambda>c. c\<lparr>itemlist := remove1 b (itemlist c)\<rparr>) h3 = Some h4" using put_list_defined by blast
  note f4 = put_list_facts [OF h4 a3]
  have con: "contents h4 = (contents h2)(a \<mapsto> remove1 b xs)" and par: "parent_of h4 = (parent_of h2)(b := None)"
    using f3 f4 by simp_all
  have w: "same_weights items h4 h2" using f3(2) f4(2) same_weights_trans by blast
  have d: "distinct xs" using linksD(1) [OF l2 a2] .
  have "a \<noteq> b" using nb above.here by blast
  have h2b: "h2 b = Some ob" using h2(2) h1b \<open>a \<noteq> b\<close> by (auto simp: put_body_def Option.bind_eq_Some_conv)
  have wb: "weight_of items h2 b = ?w" using h2b by (simp add: weight_of_def)
  have l4: "links_ok h4" unfolding links_ok_def con par
    using d b(1) by (intro links_remove [OF l2 a2]) (auto simp: set_remove1_eq)
  have "(\<Sum>x \<leftarrow> remove1 b xs. weight_of items h2 x) = (\<Sum>x \<leftarrow> xs. weight_of items h2 x) - weight_of items h2 b"
    using b(1) by (induction xs) auto
  then have "weights_off items h4 (\<lambda>_. 0)"
    using relink_weights [OF h2(4) w a2 con] wb by (auto elim!: back_subst [where P = "weights_off items h4"])
  moreover have "removeThing items a (ItemThing b) count h = Some h4"
    using c(1) found b(2) all h2(1,2) h1b h3 h4 by (auto simp: removeThing_def)
  ultimately show ?thesis using l4 con par sh by (simp add: container_inv_def)
qed

lemma item_change:
  fixes i :: Item
  assumes inv: "container_inv items h" and p: "parent_of h b = Some a" and b: "h b = Some ob"
  defines "h1 \<equiv> h(b \<mapsto> ob\<lparr>o_item := i\<rparr>)" and "d \<equiv> getWeight items (ob\<lparr>o_item := i\<rparr>) - getWeight items ob"
  shows "\<exists>h'. (put_body a (\<lambda>c. c\<lparr>total_weight := total_weight c + d\<rparr>) h1 \<bind> update_parent_weight d a) = Some h' \<and>
    container_inv items h' \<and> contents h' = contents h \<and> parent_of h' = parent_of h"
proof -
  have same: "contents h1 = contents h" "parent_of h1 = parent_of h"
    using b by (auto simp: h1_def contents_def get_body_def parent_of_def)
  have l1: "links_ok h1" using inv_container(3) [OF inv] by (simp add: links_ok_def same)
  have dw: "weight_of items h1 b - weight_of items h b = d" using b by (simp add: h1_def d_def weight_of_def)
  have "weights_off items h1 (\<lambda>x. 0 - (if x = b then 0 else 0) +
      (if parent_of h b = Some x then weight_of items h1 b - weight_of items h b else 0))"
    using same b by (intro weights_off_change [OF inv_container(1) [OF inv] inv_container(2) [OF inv]])
      (auto simp: h1_def get_body_def)
  then have off1: "weights_off items h1 ((\<lambda>_. 0)(a := d))"
    unfolding dw p by (auto elim!: back_subst [where P = "weights_off items h1"])
  have "contents h1 a \<noteq> None" using linksD(3) [OF inv_container(3) [OF inv] p] same by simp
  then obtain c where "get_body a h1 = Some c" by (auto simp: contents_def)
  from updateItemWeight_total [OF linksD(4) [OF l1 [unfolded links_ok_def]] refl l1 off1 this, of d]
  obtain h' where h': "updateItemWeight d a h1 = Some h'" "shape h' = shape h1"
    "weights_off items h' (((\<lambda>_. 0)(a := d))(a := ((\<lambda>_. 0)(a := d)) a - d))"
    by blast
  have "weights_off items h' (\<lambda>_. 0)"
    using h'(3) by (auto elim!: back_subst [where P = "weights_off items h'"])
  then show ?thesis
    using h'(1) shape_links [OF h'(2)] shape_contents [OF h'(2)] shape_parent [OF h'(2)] l1 same
    by (simp add: add_then_update container_inv_def)
qed

lemma found_in: "b \<in> set ys \<Longrightarrow> index_from b ys n \<noteq> -1"
  by (induction ys arbitrary: n) auto

lemma updateThing_inv:
  assumes inv: "container_inv items h" and a: "contents h a = Some xs" and b: "b \<in> set xs" "h b = Some ob"
    and i: "setID items itemId (o_item ob) = Some j" "setSubType items (ucast count) j = Some i"
  shows "\<exists>h'. updateThing items a (ItemThing b) itemId count h = Some h' \<and> container_inv items h' \<and>
    contents h' = contents h \<and> parent_of h' = parent_of h"
proof -
  obtain c where c: "get_body a h = Some c" "itemlist c = xs" using a by (auto simp: contents_Some)
  have "parent_of h b = Some a" using linksD(2) [OF inv_container(3) [OF inv] a] b(1) by blast
  from item_change [OF inv this b(2), of i] show ?thesis
    using c b i found_in [of b xs 0] by (simp add: updateThing_def getIndexOfThing_def set_item_def Let_def)
qed

lemma removeSome_inv:
  assumes inv: "container_inv items h" and a: "contents h a = Some xs" and b: "b \<in> set xs" "h b = Some ob"
    and part: "isStackable items (o_item ob)" "count \<noteq> ucast (i_count (o_item ob))"
  shows "\<exists>h'. removeThing items a (ItemThing b) count h = Some h' \<and> container_inv items h' \<and>
    contents h' = contents h \<and> parent_of h' = parent_of h"
proof -
  obtain c where c: "get_body a h = Some c" "itemlist c = xs" using a by (auto simp: contents_Some)
  have "parent_of h b = Some a" using linksD(2) [OF inv_container(3) [OF inv] a] b(1) by blast
  from item_change [OF inv this b(2), of "setItemCount (word_of_int (max 0 (sint (ucast (i_count (o_item ob)) - count)))) (o_item ob)"]
  show ?thesis
    using c b part found_in [of b xs 0] by (simp add: removeThing_def getIndexOfThing_def set_item_def Let_def)
qed

text \<open>The walk over the parents finds out whether one thing contains another.\<close>

lemma has_parent_above:
  assumes "links_ok h" "rooted par a" "par = parent_of h" "h a = Some ob"
  shows "has_parent b (o_parent ob) h = Some (\<exists>p. par a = Some p \<and> above par p b)"
  using assms(2,1,3,4)
proof (induction arbitrary: ob rule: rooted.induct)
  case (root a)
  then show ?case by (subst has_parent.simps) (auto simp: parent_of_def split: option.splits Holder.splits)
next
  case (inside a p)
  then have up: "o_parent ob = Some (InContainer p)" by (auto simp: parent_of_def split: option.splits Holder.splits)
  have "contents h p \<noteq> None" using inside by (auto simp: links_ok_def links_def)
  then obtain pb where pb: "h p = Some pb" by (auto simp: contents_def get_body_def Option.bind_eq_Some_conv)
  show ?case
    using inside.IH [OF inside.prems(1,2) pb] up pb inside.hyps(1)
    by (subst has_parent.simps) (auto simp: getParent_def intro: above.intros elim: above.cases)
qed

lemma above_remove: "above (par(d := None)) x y \<Longrightarrow> above par x y"
  by (induction rule: above.induct) (auto intro: above.intros split: if_splits)

lemma sum_list_update:
  fixes f :: "'a \<Rightarrow> real"
  shows "i < length xs \<Longrightarrow> (\<Sum>x \<leftarrow> xs[i := b]. f x) = (\<Sum>x \<leftarrow> xs. f x) - f (xs ! i) + f b"
  by (induction xs arbitrary: i) (auto simp: nth_Cons split: nat.splits)

lemma replaceThing_inv:
  assumes inv: "container_inv items h" and a: "contents h a = Some xs" and i: "unat index < length xs"
    and b: "h b \<noteq> None" "parent_of h b = None" "\<not> above (parent_of h) a b"
  shows "\<exists>h'. replaceThing items a index (ItemThing b) h = Some h' \<and> container_inv items h' \<and>
    contents h' = (contents h)(a \<mapsto> xs[unat index := b]) \<and> parent_of h' = (parent_of h)(xs ! unat index := None, b \<mapsto> a)"
proof -
  define d where "d = xs ! unat index"
  note l = inv_container(3) [OF inv]
  have d_in: "d \<in> set xs" using i by (simp add: d_def)
  then have pd: "parent_of h d = Some a" using linksD(2) [OF l a] by blast
  then have nd: "\<not> above (parent_of h) a d" using rooted_no_cycle [OF linksD(4) [OF l]] by blast
  have nb: "b \<notin> set xs" "d \<noteq> b" using linksD(2) [OF l a] b(2) pd by auto
  obtain db ob where db: "h d = Some db" and ob: "h b = Some ob" using pd b(1) by (auto simp: parent_of_def split: option.splits)
  obtain c where c: "get_body a h = Some c" "itemlist c = xs" using a by (auto simp: contents_Some)
  let ?w = "- getWeight items db + getWeight items ob"
  have "rooted (parent_of h) a" by (rule linksD(4) [OF l])
  from updateItemWeight_total [OF this refl inv_container(1) [OF inv] inv_container(2) [OF inv] c(1), of ?w]
  obtain h3 where h3: "updateItemWeight ?w a h = Some h3" "shape h3 = shape h"
    "weights_off items h3 ((\<lambda>_. 0)(a := - ?w))" "\<And>x. \<not> above (parent_of h) a x \<Longrightarrow> h3 x = h x"
    by auto
  note sh = shape_contents [OF h3(2)] shape_parent [OF h3(2)]
  have w3: "h3 d = Some db" "h3 b = Some ob" using h3(4) nd b(3) db ob by simp_all
  obtain h2 where h2: "put_body a (\<lambda>c. c\<lparr>total_weight := total_weight c + ?w\<rparr>) h = Some h2"
    using put_list_defined a by blast
  have "a \<noteq> b" "a \<noteq> d" using b(3) nd above.here by blast+
  then have w2: "h2 d = Some db" "h2 b = Some ob"
    using h2 db ob by (auto simp: put_body_def Option.bind_eq_Some_conv)
  have up: "update_parent_weight ?w a h2 = Some h3" using add_then_update [of a ?w h] h2 h3(1) by simp
  have a3: "contents h3 a = Some xs" using sh a by simp
  then obtain h4 where h4: "put_body a (\<lambda>c. c\<lparr>itemlist := (itemlist c)[unat index := b]\<rparr>) h3 = Some h4" using put_list_defined by blast
  note f4 = put_list_facts [OF h4 a3]
  obtain h5 where h5: "set_parent (Some (InContainer a)) b h4 = Some h5" using set_parent_defined [of h4 b] f4(4) w3 by auto
  note f5 = set_parent_facts [OF h5]
  obtain h6 where h6: "set_parent None d h5 = Some h6" using set_parent_defined [of h5 d] f4(4) f5(4) w3 by fastforce
  note f6 = set_parent_facts [OF h6]
  have con: "contents h6 = (contents h)(a \<mapsto> xs[unat index := b])" using f4 f5 f6 sh by simp
  have par: "parent_of h6 = (parent_of h)(d := None, b \<mapsto> a)" using f4 f5 f6 sh nb(2) by (simp add: fun_upd_twist)
  have w: "same_weights items h6 h3" using f4(2) f5(2) f6(2) same_weights_trans by blast
  have dist: "distinct xs" by (rule linksD(1) [OF l a])
  have "links ((contents h)(a \<mapsto> remove1 d xs)) ((parent_of h)(d := None))"
    using dist d_in by (intro links_remove [OF l a]) (auto simp: set_remove1_eq)
  then have "links ((contents h)(a \<mapsto> remove1 d xs, a \<mapsto> xs[unat index := b])) ((parent_of h)(d := None, b \<mapsto> a))"
  proof (rule links_add)
    show "\<not> above ((parent_of h)(d := None)) a b" using b(3) above_remove by blast
    show "distinct (xs[unat index := b])" using dist nb(1) by (intro distinct_list_update) auto
    show "set (xs[unat index := b]) = insert b (set (remove1 d xs))"
      using dist i by (simp add: set_update_distinct d_def set_remove1_eq)
  qed (use b(2) in simp_all)
  then have l6: "links_ok h6" by (simp add: links_ok_def con par)
  have "(\<Sum>x \<leftarrow> xs[unat index := b]. weight_of items h3 x) = (\<Sum>x \<leftarrow> xs. weight_of items h3 x) + ?w"
    using i w3 by (simp add: sum_list_update weight_of_def d_def)
  moreover have "contents h6 = (contents h3)(a \<mapsto> xs[unat index := b])" using con sh by simp
  ultimately have "weights_off items h6 (\<lambda>_. 0)"
    using relink_weights [OF h3(3) w a3, of "xs[unat index := b]"] by (auto elim!: back_subst [where P = "weights_off items h6"])
  moreover have e: "(\<lambda>c. c\<lparr>total_weight := total_weight c - getWeight items db + getWeight items ob\<rparr>) =
      (\<lambda>c. c\<lparr>total_weight := total_weight c + ?w\<rparr>)"
    by (simp add: fun_eq_iff algebra_simps)
  have "put_body a (\<lambda>c. c\<lparr>total_weight := total_weight c - getWeight items db + getWeight items ob\<rparr>) h = Some h2"
    by (simp only: e h2)
  then have "replaceThing items a index (ItemThing b) h = Some h6"
    using up w2 h4 h5 h6 i c db ob by (simp add: replaceThing_def Let_def d_def)
  ultimately show ?thesis using l6 con par by (simp add: container_inv_def d_def)
qed

section \<open>Sequences of operations\<close>

text \<open>
  The game adds an item only after the query allows it, and only an item that is nowhere; it
  removes, replaces and changes items that are in the container.
\<close>

datatype container_op =
    OpAdd nat nat int
  | OpUpdate nat nat u16 u32
  | OpReplace nat u32 nat
  | OpRemove nat nat u32

definition loose :: "nat \<Rightarrow> Heap \<Rightarrow> bool" where
  "loose b h = (case h b of None \<Rightarrow> False | Some ob \<Rightarrow> o_parent ob = None)"

definition allowed :: "Items \<Rightarrow> nat \<Rightarrow> nat \<Rightarrow> Heap \<Rightarrow> bool" where
  "allowed items a b h \<longleftrightarrow> loose b h \<and> get_body a h \<noteq> None \<and>
     queryAdd items (\<lambda>_. None) (\<lambda>_ _ _ _ _. RET_NOERROR) a INDEX_WHEREEVER (ItemThing b) 1 0 h = Some RET_NOERROR"

definition holds :: "nat \<Rightarrow> nat \<Rightarrow> Heap \<Rightarrow> bool" where
  "holds a b h = (case get_body a h of None \<Rightarrow> False | Some c \<Rightarrow> getIndexOfThing (ItemThing b) c \<noteq> -1)"

fun container_step :: "Items \<Rightarrow> container_op \<Rightarrow> Heap \<Rightarrow> Heap option" where
  "container_step items (OpAdd a b index) h =
     (if allowed items a b h then addThing items a index (ItemThing b) h else Some h)"
| "container_step items (OpUpdate a b itemId count) h =
     (if holds a b h \<and> Option.bind (h b) (\<lambda>ob. Option.bind (setID items itemId (o_item ob)) (setSubType items (ucast count))) \<noteq> None
      then updateThing items a (ItemThing b) itemId count h else Some h)"
| "container_step items (OpReplace a index b) h =
     (if allowed items a b h then replaceThing items a index (ItemThing b) h else Some h)"
| "container_step items (OpRemove a b count) h =
     (if holds a b h then removeThing items a (ItemThing b) count h else Some h)"

fun container_run :: "Items \<Rightarrow> container_op list \<Rightarrow> Heap \<Rightarrow> Heap option" where
  "container_run items [] h = Some h"
| "container_run items (x # xs) h = do { h \<leftarrow> container_step items x h; container_run items xs h }"

text \<open>At first every object is nowhere and every container is empty.\<close>

definition all_loose :: "Heap \<Rightarrow> bool" where
  "all_loose h \<longleftrightarrow> (\<forall>a ob. h a = Some ob \<longrightarrow> o_parent ob = None \<and>
     (\<forall>c. o_body ob = Some c \<longrightarrow> itemlist c = [] \<and> total_weight c = 0))"

lemma all_loose_inv: "all_loose h \<Longrightarrow> container_inv items h"
proof -
  assume l: "all_loose h"
  then have p: "parent_of h = (\<lambda>_. None)" by (auto simp: all_loose_def parent_of_def fun_eq_iff split: option.splits)
  have c: "xs = []" if "contents h a = Some xs" for a xs
    using that l by (auto simp: all_loose_def contents_def get_body_def Option.bind_eq_Some_conv)
  have d: "distinct xs" "set xs = {}" if "contents h a = Some xs" for a xs using c [OF that] by auto
  have "links_ok h" unfolding links_ok_def links_def p by (auto simp: d intro: rooted.root)
  moreover have "weights_off items h (\<lambda>_. 0)"
    using l by (auto simp: weights_off_def all_loose_def get_body_def Option.bind_eq_Some_conv)
  ultimately show ?thesis by (simp add: container_inv_def)
qed

lemma allowed_facts:
  assumes inv: "container_inv items h" and ok: "allowed items a b h"
  obtains xs where "contents h a = Some xs" "h b \<noteq> None" "parent_of h b = None" "\<not> above (parent_of h) a b"
proof -
  obtain c where c: "get_body a h = Some c" using ok by (auto simp: allowed_def)
  then obtain oa where oa: "h a = Some oa" by (auto simp: get_body_def Option.bind_eq_Some_conv)
  have b: "h b \<noteq> None" "parent_of h b = None" using ok by (auto simp: allowed_def loose_def parent_of_def split: option.splits)
  have up: "has_parent b (o_parent oa) h = Some (\<exists>p. parent_of h a = Some p \<and> above (parent_of h) p b)"
    by (rule has_parent_above [OF inv_container(1) [OF inv] linksD(4) [OF inv_container(3) [OF inv]] refl oa])
  have "\<not> (\<exists>p. parent_of h a = Some p \<and> above (parent_of h) p b)" "b \<noteq> a"
    using ok up oa by (auto simp: allowed_def queryAdd_def hasFlags_def getParent_def Option.bind_eq_Some_conv split: if_splits)
  then have "\<not> above (parent_of h) a b" by (auto elim: above.cases)
  with that c b show ?thesis by (auto simp: contents_def)
qed

lemma holds_facts:
  assumes inv: "container_inv items h" and ok: "holds a b h"
  obtains xs ob where "contents h a = Some xs" "b \<in> set xs" "h b = Some ob"
proof -
  obtain c where c: "get_body a h = Some c" "getIndexOfThing (ItemThing b) c \<noteq> -1"
    using ok by (auto simp: holds_def split: option.splits)
  have "index_from b ys n \<noteq> -1 \<Longrightarrow> b \<in> set ys" for ys n by (induction ys arbitrary: n) (auto split: if_splits)
  then have "b \<in> set (itemlist c)" using c(2) by (simp add: getIndexOfThing_def)
  moreover have a: "contents h a = Some (itemlist c)" using c by (simp add: contents_def)
  ultimately have "parent_of h b = Some a" using linksD(2) [OF inv_container(3) [OF inv]] by blast
  then obtain ob where "h b = Some ob" by (auto simp: parent_of_def split: option.splits)
  with that a \<open>b \<in> set (itemlist c)\<close> show ?thesis by blast
qed

lemma container_step_inv:
  assumes inv: "container_inv items h"
  shows "\<exists>h'. container_step items x h = Some h' \<and> container_inv items h'"
proof (cases x)
  case (OpAdd a b index)
  show ?thesis
  proof (cases "allowed items a b h")
    case True
    then obtain xs where xs: "contents h a = Some xs" "h b \<noteq> None" "parent_of h b = None" "\<not> above (parent_of h) a b"
      using allowed_facts [OF inv] by blast
    then obtain c where "get_body a h = Some c" by (auto simp: contents_def)
    moreover obtain h' where "internalAddThing items a (ItemThing b) h = Some h'" "container_inv items h'"
      using internalAddThing_inv [OF inv xs] by blast
    ultimately show ?thesis using OpAdd True inv by (simp add: addThing_def)
  qed (use inv OpAdd in simp)
next
  case (OpUpdate a b itemId count)
  show ?thesis
  proof (cases "holds a b h \<and> Option.bind (h b) (\<lambda>ob. Option.bind (setID items itemId (o_item ob)) (setSubType items (ucast count))) \<noteq> None")
    case True
    then obtain xs ob where "contents h a = Some xs" "b \<in> set xs" "h b = Some ob" using holds_facts [OF inv] by blast
    with True show ?thesis
      using updateThing_inv [OF inv] OpUpdate by (fastforce simp: Option.bind_eq_Some_conv)
  qed (use inv OpUpdate in auto)
next
  case (OpReplace a index b)
  show ?thesis
  proof (cases "allowed items a b h")
    case True
    then obtain xs where xs: "contents h a = Some xs" "h b \<noteq> None" "parent_of h b = None" "\<not> above (parent_of h) a b"
      using allowed_facts [OF inv] by blast
    moreover then obtain c where "get_body a h = Some c" "itemlist c = xs" by (auto simp: contents_def)
    ultimately show ?thesis
      using replaceThing_inv [OF inv xs(1) _ xs(2-4), of index] OpReplace True inv
      by (cases "unat index < length xs") (auto simp: replaceThing_def not_less)
  qed (use inv OpReplace in simp)
next
  case (OpRemove a b count)
  show ?thesis
  proof (cases "holds a b h")
    case True
    then obtain xs ob where "contents h a = Some xs" "b \<in> set xs" "h b = Some ob" using holds_facts [OF inv] by blast
    with True show ?thesis using removeThing_inv [OF inv] removeSome_inv [OF inv] OpRemove by fastforce
  qed (use inv OpRemove in simp)
qed

lemma container_run_inv: "container_inv items h \<Longrightarrow> \<exists>h'. container_run items xs h = Some h' \<and> container_inv items h'"
proof (induction xs arbitrary: h)
  case (Cons x xs)
  obtain h1 where "container_step items x h = Some h1" "container_inv items h1"
    using container_step_inv [OF Cons.prems] by blast
  with Cons.IH show ?case by auto
qed simp

text \<open>
  C9. After any sequence of additions the query allows, removals, replacements and changes of
  items, every container weighs what it holds: its recorded weight is the sum of the weights of its contents, which
  for a container among them includes its own contents.  Contents and parents agree, no item is in two places,
  and no container is inside itself.
\<close>
theorem container_weights_add_up:
  assumes "all_loose h"
  shows "\<exists>h'. container_run items ops h = Some h' \<and> links_ok h' \<and>
    (\<forall>a c. get_body a h' = Some c \<longrightarrow> total_weight c = (\<Sum>b \<leftarrow> itemlist c. weight_of items h' b))"
  using container_run_inv [OF all_loose_inv [OF assms], of items ops]
  by (auto simp: container_inv_def weights_off_def)

text \<open>
  An item added by \<^verbatim>\<open>addItem\<close>, as when a container is loaded or cloned, is in the container
  without being weighed: the recorded weight does not change, and taking the item out again
  leaves an empty container with a negative weight.
\<close>
theorem loaded_item_not_weighed:
  assumes "h a = Some oa" "o_body oa = Some c" "itemlist c = []" "total_weight c = 0" "o_parent oa = None"
    and "h b = Some ob" "a \<noteq> b" "\<not> isStackable items (o_item ob)"
  shows "\<exists>h1 h2 c1 c2. addItem a b h = Some h1 \<and> get_body a h1 = Some c1 \<and> itemlist c1 = [b] \<and> total_weight c1 = 0 \<and>
    removeThing items a (ItemThing b) 1 h1 = Some h2 \<and> get_body a h2 = Some c2 \<and> itemlist c2 = [] \<and>
    total_weight c2 = - weight_of items h b"
  using assms
  by (simp add: addItem_def put_body_def set_parent_def removeThing_def get_body_def getIndexOfThing_def
      update_parent_weight_def getParentContainer_def weight_of_def getWeight_def)

definition example_types :: Items where
  "example_types = \<lparr>is_items = [Some (new_ItemType\<lparr>it_pickupable := True, it_weight := 10\<rparr>)], is_reverse = (\<lambda>_. None),
     is_dwMajorVersion = 0, is_dwMinorVersion = 0, is_dwBuildNumber = 0\<rparr>"

definition example_item :: Item where
  "example_item = \<lparr>m_attributes = [], m_attrFlags = 0, i_id = 0, i_count = 1, i_loadedOnMap = False\<rparr>"

definition example_heap :: Heap where
  "example_heap = (\<lambda>_. None)(1 \<mapsto> new_Container example_types example_item, 2 \<mapsto> \<lparr>o_item = example_item, o_parent = None, o_body = None\<rparr>)"

lemma example_loose: "all_loose example_heap"
  by (auto simp: all_loose_def example_heap_def new_Container_def)

lemmas example_defs = new_Container_def example_item_def example_types_def item_type_def getItemType_def getElement_def
  new_ItemType_def isPickupable_def isStackable_def item_getWeight_def

theorem container_weights_add_up_witness:
  "\<exists>h'. container_run example_types [OpAdd 1 2 0] example_heap = Some h' \<and> links_ok h' \<and>
    get_body 1 h' = Some \<lparr>maxSize = 8, total_weight = 10, itemlist = [2], serializationCount = 0\<rparr>"
proof -
  obtain h' where h': "container_run example_types [OpAdd 1 2 0] example_heap = Some h'" "links_ok h'"
    using container_weights_add_up [OF example_loose, of example_types "[OpAdd 1 2 0]"] by blast
  moreover have "get_body 1 h' = Some \<lparr>maxSize = 8, total_weight = 10, itemlist = [2], serializationCount = 0\<rparr>"
    using h'(1) by (auto simp: allowed_def loose_def queryAdd_def hasFlags_def getParent_def has_parent.simps get_body_def
        getTopParent_def addThing_def internalAddThing_def set_parent_def put_body_def update_parent_weight_def
        getParentContainer_def getWeight_def size_of_def capacity_def example_heap_def example_defs split: if_splits)
  ultimately show ?thesis by blast
qed

theorem loaded_item_not_weighed_witness:
  "\<exists>h1 h2 c2. addItem 1 2 example_heap = Some h1 \<and> removeThing example_types 1 (ItemThing 2) 1 h1 = Some h2 \<and>
    get_body 1 h2 = Some c2 \<and> total_weight c2 = - 10"
proof -
  have h: "example_heap 1 = Some (new_Container example_types example_item)"
    "example_heap 2 = Some \<lparr>o_item = example_item, o_parent = None, o_body = None\<rparr>" by (simp_all add: example_heap_def)
  have w: "weight_of example_types example_heap 2 = 10" by (simp add: weight_of_def h(2) getWeight_def example_defs)
  from loaded_item_not_weighed [OF h(1) _ _ _ _ h(2), of _ example_types] w show ?thesis
    by (simp add: new_Container_def) (auto simp: isStackable_def item_type_def example_types_def example_item_def
        getItemType_def getElement_def new_ItemType_def)
qed

section \<open>The iterator visits what a container holds\<close>

definition inside_of :: "(nat \<Rightarrow> nat option) \<Rightarrow> nat set \<Rightarrow> nat set" where
  "inside_of par Y = {x. \<exists>p y. par x = Some p \<and> y \<in> Y \<and> above par p y}"

definition apart :: "(nat \<Rightarrow> nat option) \<Rightarrow> nat set \<Rightarrow> bool" where
  "apart par X \<longleftrightarrow> (\<forall>x \<in> X. \<forall>y \<in> X. above par x y \<longrightarrow> x = y)"

lemma inside_of_Un: "inside_of par (X \<union> Y) = inside_of par X \<union> inside_of par Y"
  by (auto simp: inside_of_def)

lemma above_last: "above par p d \<Longrightarrow> p = d \<or> (\<exists>z. par z = Some d \<and> above par p z)"
  by (induction rule: above.induct) (auto intro: above.intros)

lemma above_trans: "above par x y \<Longrightarrow> above par y z \<Longrightarrow> above par x z"
  by (induction rule: above.induct) (auto intro: above.intros)

lemma inside_of_one:
  assumes "links con par"
  shows "con d = Some xs \<Longrightarrow> inside_of par {d} = set xs \<union> inside_of par (set xs)" "con d = None \<Longrightarrow> inside_of par {d} = {}"
proof -
  show "inside_of par {d} = set xs \<union> inside_of par (set xs)" if "con d = Some xs"
  proof
    show "inside_of par {d} \<subseteq> set xs \<union> inside_of par (set xs)"
    proof
      fix x assume "x \<in> inside_of par {d}"
      then obtain p where p: "par x = Some p" "above par p d" by (auto simp: inside_of_def)
      from above_last [OF p(2)] show "x \<in> set xs \<union> inside_of par (set xs)"
        using p(1) linksD(2) [OF assms that] by (auto simp: inside_of_def)
    qed
    show "set xs \<union> inside_of par (set xs) \<subseteq> inside_of par {d}"
    proof
      fix x assume "x \<in> set xs \<union> inside_of par (set xs)"
      moreover have "x \<in> inside_of par {d}" if "x \<in> set xs"
        using that linksD(2) [OF assms \<open>con d = Some xs\<close>] by (auto simp: inside_of_def intro: above.here)
      moreover have "x \<in> inside_of par {d}" if "par x = Some p" "y \<in> set xs" "above par p y" for p y
      proof -
        have "above par y d" using that(2) linksD(2) [OF assms \<open>con d = Some xs\<close>] above.up above.here by blast
        with that show ?thesis by (auto simp: inside_of_def intro: above_trans)
      qed
      ultimately show "x \<in> inside_of par {d}" by (auto simp: inside_of_def [of par "set xs"])
    qed
  qed
  show "inside_of par {d} = {}" if "con d = None"
  proof (rule ccontr)
    assume "inside_of par {d} \<noteq> {}"
    then obtain x p where p: "par x = Some p" "above par p d" by (auto simp: inside_of_def)
    from above_last [OF p(2)] p(1) linksD(3) [OF assms] that show False by fastforce
  qed
qed

lemma apart_not_inside:
  assumes "links con par" "apart par X" "x \<in> X"
  shows "x \<notin> inside_of par X"
proof
  assume "x \<in> inside_of par X"
  then obtain p y where p: "par x = Some p" "y \<in> X" "above par p y" by (auto simp: inside_of_def)
  then have "x = y" using assms by (auto simp: apart_def intro: above.up)
  then show False using p rooted_no_cycle [OF linksD(4) [OF assms(1)], of p x] by blast
qed

lemma apart_subset: "apart par X \<Longrightarrow> Y \<subseteq> X \<Longrightarrow> apart par Y"
  by (auto simp: apart_def)

lemma apart_open:
  assumes l: "links con par" and X: "apart par X" "d \<in> X" and d: "con d = Some xs"
  shows "apart par ((X - {d}) \<union> set xs)" "set xs \<inter> X = {}"
proof -
  have up: "par z = Some d" if "z \<in> set xs" for z using linksD(2) [OF l d] that by blast
  have nd: "\<not> above par d z" if "z \<in> set xs" for z
    using rooted_no_cycle [OF linksD(4) [OF l], of d z] up [OF that] by blast
  show "set xs \<inter> X = {}" using X up nd above.here above.up unfolding apart_def by blast
  have "x = y" if "x \<in> (X - {d}) \<union> set xs" "y \<in> (X - {d}) \<union> set xs" "above par x y" for x y
  proof (cases "x \<in> set xs")
    case True
    then have "x = y \<or> above par d y" using up [OF True] that(3) by (auto elim: above.cases)
    then show ?thesis using that(2) nd X unfolding apart_def by blast
  next
    case False
    show ?thesis
    proof (cases "y \<in> set xs")
      case True
      then have "above par x d" using that(3) up above_trans above.up above.here by metis
      then show ?thesis using that(1) False X unfolding apart_def by blast
    qed (use that False X in \<open>auto simp: apart_def\<close>)
  qed
  then show "apart par ((X - {d}) \<union> set xs)" by (auto simp: apart_def)
qed

definition iter_inv :: "Heap \<Rightarrow> ContainerIterator \<Rightarrow> bool" where
  "iter_inv h it \<longleftrightarrow> (if over it = [] then rest it = []
     else rest it \<noteq> [] \<and> distinct (rest it @ tl (over it)) \<and> apart (parent_of h) (set (rest it) \<union> set (tl (over it))) \<and>
       (\<forall>b \<in> set (rest it). h b \<noteq> None) \<and>
       (\<forall>d \<in> set (tl (over it)). \<exists>xs. contents h d = Some xs \<and> xs \<noteq> []))"

definition to_visit :: "Heap \<Rightarrow> ContainerIterator \<Rightarrow> nat set" where
  "to_visit h it = set (rest it) \<union> inside_of (parent_of h) (set (rest it) \<union> set (tl (over it)))"

lemma contents_exist: "links_ok h \<Longrightarrow> contents h a = Some xs \<Longrightarrow> b \<in> set xs \<Longrightarrow> h b \<noteq> None"
  using linksD(2) [of "contents h" "parent_of h" a xs b] by (auto simp: links_ok_def parent_of_def split: option.splits)

lemma iter_next_step:
  assumes l: "links_ok h" and inv: "iter_inv h it" and more: "over it \<noteq> []"
  obtains it' b where "iter_next h it = Some it'" "iter_item it = Some b" "iter_inv h it'"
    "to_visit h it = insert b (to_visit h it')" "b \<notin> to_visit h it'"
proof -
  let ?par = "parent_of h"
  note lk = l [unfolded links_ok_def]
  obtain b bs where bs: "rest it = b # bs" using inv more by (cases "rest it") (auto simp: iter_inv_def)
  define T where "T = tl (over it)"
  have i: "distinct (b # bs @ T)" "apart ?par (insert b (set bs \<union> set T))" "\<And>x. x \<in> insert b (set bs) \<Longrightarrow> h x \<noteq> None"
    "\<And>d. d \<in> set T \<Longrightarrow> \<exists>xs. contents h d = Some xs \<and> xs \<noteq> []"
    using inv more bs by (auto simp: iter_inv_def T_def)
  obtain ob where ob: "h b = Some ob" using i(3) by auto
  define q where "q = (case o_body ob of None \<Rightarrow> T | Some c \<Rightarrow> if itemlist c \<noteq> [] then T @ [b] else T)"
  have tlq: "tl (case o_body ob of None \<Rightarrow> over it | Some c \<Rightarrow> if itemlist c \<noteq> [] then over it @ [b] else over it) = q"
    using more by (auto simp: q_def T_def split: option.splits)
  have cb: "contents h b = map_option itemlist (o_body ob)" using ob by (simp add: contents_def get_body_def)
  have inb: "inside_of ?par {b} = {}" if "q = T"
    using that cb inside_of_one [OF lk, of b] by (auto simp: q_def inside_of_def split: option.splits if_splits)
  have q: "q = T \<or> q = T @ [b] \<and> (\<exists>xs. contents h b = Some xs \<and> xs \<noteq> [])"
    using cb by (auto simp: q_def split: option.splits)
  have inq: "inside_of ?par (insert b (set bs \<union> set T)) = inside_of ?par (set bs \<union> set q)"
    using q
  proof
    assume "q = T"
    then show ?thesis using inb inside_of_Un [of ?par "{b}" "set bs \<union> set T"] by simp
  next
    assume "q = T @ [b] \<and> (\<exists>xs. contents h b = Some xs \<and> xs \<noteq> [])"
    then have "insert b (set bs \<union> set T) = set bs \<union> set q" by auto
    then show ?thesis by simp
  qed
  have all: "to_visit h it = insert b (set bs \<union> inside_of ?par (set bs \<union> set q))"
    using inq by (simp add: to_visit_def bs T_def)
  have nb: "b \<notin> set bs \<union> inside_of ?par (set bs \<union> set q)"
    using i(1) apart_not_inside [OF lk i(2), of b] inq by auto
  have iq: "distinct (bs @ q)" "apart ?par (set bs \<union> set q)" "\<And>d. d \<in> set q \<Longrightarrow> \<exists>xs. contents h d = Some xs \<and> xs \<noteq> []"
    using q i apart_subset [OF i(2), of "set bs \<union> set T"] by (auto simp: insert_commute)
  show ?thesis
  proof (cases "bs = []")
    case False
    obtain o1 where o1: "over it = o1 # T" using more by (cases "over it") (auto simp: T_def)
    define it' where "it' = \<lparr>over = o1 # q, rest = bs\<rparr>"
    have "iter_next h it = Some it'"
      using ob False bs o1 by (auto simp: iter_next_def it'_def q_def Let_def split: option.splits)
    moreover have "iter_inv h it'" using False iq i(3) by (simp add: iter_inv_def it'_def)
    moreover have "to_visit h it' = set bs \<union> inside_of ?par (set bs \<union> set q)" by (simp add: to_visit_def it'_def)
    ultimately show ?thesis using that all nb bs by (simp add: iter_item_def)
  next
    case True
    show ?thesis
    proof (cases q)
      case Nil
      have "iter_next h it = Some \<lparr>over = [], rest = []\<rparr>"
        using ob True bs tlq Nil by (simp add: iter_next_def Let_def)
      moreover have "to_visit h \<lparr>over = [], rest = []\<rparr> = set bs \<union> inside_of ?par (set bs \<union> set q)"
        using True Nil by (simp add: to_visit_def)
      ultimately show ?thesis using that [of _ b] all nb bs by (simp add: iter_item_def iter_inv_def)
    next
      case (Cons d q')
      then obtain xs where xs: "contents h d = Some xs" "xs \<noteq> []" using iq(3) by auto
      then obtain c where c: "get_body d h = Some c" "itemlist c = xs" by (auto simp: contents_Some)
      define it' where "it' = \<lparr>over = d # q', rest = xs\<rparr>"
      have "iter_next h it = Some it'"
        using ob True bs tlq Cons c by (simp add: iter_next_def Let_def it'_def)
      moreover have "set q = insert d (set q')" "d \<notin> set q'" using Cons iq(1) by auto
      moreover have "apart ?par (set xs \<union> set q')" "set xs \<inter> set q = {}"
        using apart_open [OF lk, of "set q" d xs] iq(2) True xs(1) calculation(2,3) by (auto simp: Un_commute)
      moreover have "distinct xs" using linksD(1) [OF lk xs(1)] .
      moreover have "\<And>x. x \<in> set xs \<Longrightarrow> h x \<noteq> None" using contents_exist [OF l xs(1)] .
      ultimately have "iter_next h it = Some it'" "iter_inv h it'" using iq Cons xs(2) by (auto simp: iter_inv_def it'_def)
      moreover have "to_visit h it' = set bs \<union> inside_of ?par (set bs \<union> set q)"
        using True Cons inside_of_one(1) [OF lk xs(1)] inside_of_Un [of ?par "{d}" "set q'"] inside_of_Un [of ?par "set xs" "set q'"]
        by (auto simp: to_visit_def it'_def)
      ultimately show ?thesis using that all nb bs by (simp add: iter_item_def)
    qed
  qed
qed

lemma iter_end_empty: "iter_inv h it \<Longrightarrow> over it = [] \<Longrightarrow> to_visit h it = {}"
  by (simp add: iter_inv_def to_visit_def inside_of_def)

lemma count_items_result:
  assumes l: "links_ok h"
  shows "iter_inv h it \<Longrightarrow> finite (to_visit h it) \<Longrightarrow> count_items h it n = Some (n + word_of_nat (card (to_visit h it)))"
proof (induction "card (to_visit h it)" arbitrary: it n rule: less_induct)
  case less
  show ?case
  proof (cases "over it = []")
    case True
    then show ?thesis using iter_end_empty [OF less.prems(1)] by (subst count_items.simps) (simp add: iter_at_end_def)
  next
    case False
    obtain it' b where s: "iter_next h it = Some it'" "iter_inv h it'" "to_visit h it = insert b (to_visit h it')" "b \<notin> to_visit h it'"
      using iter_next_step [OF l less.prems(1) False] by blast
    then have "finite (to_visit h it')" "card (to_visit h it) = Suc (card (to_visit h it'))" using less.prems(2) by auto
    then show ?thesis using less.hyps [of it'] s False
      by (subst count_items.simps) (simp add: iter_at_end_def ac_simps)
  qed
qed

lemma holds_from_result:
  assumes l: "links_ok h"
  shows "iter_inv h it \<Longrightarrow> finite (to_visit h it) \<Longrightarrow> holds_from x h it = Some (x \<in> to_visit h it)"
proof (induction "card (to_visit h it)" arbitrary: it rule: less_induct)
  case less
  show ?case
  proof (cases "over it = []")
    case True
    then show ?thesis using iter_end_empty [OF less.prems(1)] by (subst holds_from.simps) (simp add: iter_at_end_def)
  next
    case False
    obtain it' b where s: "iter_next h it = Some it'" "iter_item it = Some b" "iter_inv h it'"
      "to_visit h it = insert b (to_visit h it')" "b \<notin> to_visit h it'"
      using iter_next_step [OF l less.prems(1) False] by blast
    then have "finite (to_visit h it')" "card (to_visit h it) = Suc (card (to_visit h it'))" using less.prems(2) by auto
    then show ?thesis using less.hyps [of it'] s False
      by (subst holds_from.simps) (auto simp: iter_at_end_def)
  qed
qed

lemma iter_begin_inv:
  assumes l: "links_ok h" and c: "get_body a h = Some c"
  obtains it where "iter_begin a h = Some it" "iter_inv h it" "to_visit h it = inside_of (parent_of h) {a}"
proof -
  note lk = l [unfolded links_ok_def]
  have con: "contents h a = Some (itemlist c)" using c by (simp add: contents_def)
  have ins: "inside_of (parent_of h) {a} = set (itemlist c) \<union> inside_of (parent_of h) (set (itemlist c))"
    by (rule inside_of_one(1) [OF lk con])
  define it where "it = (if itemlist c \<noteq> [] then \<lparr>over = [a], rest = itemlist c\<rparr> else \<lparr>over = [], rest = []\<rparr>)"
  have "apart (parent_of h) {a}" by (simp add: apart_def)
  from apart_open(1) [OF lk this _ con] have "apart (parent_of h) (set (itemlist c))" by simp
  then have "iter_inv h it"
    using linksD(1) [OF lk con] contents_exist [OF l con] by (simp add: iter_inv_def it_def)
  moreover have "to_visit h it = inside_of (parent_of h) {a}" by (simp add: to_visit_def it_def ins)
  moreover have "iter_begin a h = Some it" by (simp add: iter_begin_def c it_def)
  ultimately show ?thesis using that by blast
qed

text \<open>
  C31. Walking over a container terminates and meets everything that is in it at any depth once:
  \<^verbatim>\<open>isHoldingItem\<close> says whether the container is above the item, and \<^verbatim>\<open>getItemHoldingCount\<close> is the
  number of such items.
\<close>
theorem container_walk_complete:
  assumes "links_ok h" "finite (dom h)" "get_body a h = Some c"
  shows "isHoldingItem a x h = Some (x \<in> inside_of (parent_of h) {a}) \<and>
    getItemHoldingCount a h = Some (word_of_nat (card (inside_of (parent_of h) {a})))"
proof -
  obtain it where it: "iter_begin a h = Some it" "iter_inv h it" "to_visit h it = inside_of (parent_of h) {a}"
    using iter_begin_inv [OF assms(1,3)] by blast
  have "inside_of (parent_of h) {a} \<subseteq> dom h" by (auto simp: inside_of_def parent_of_def split: option.splits)
  then have "finite (to_visit h it)" using assms(2) it(3) finite_subset by metis
  then show ?thesis
    using it holds_from_result [OF assms(1) it(2)] count_items_result [OF assms(1) it(2)]
    by (simp add: isHoldingItem_def getItemHoldingCount_def)
qed

theorem container_walk_complete_witness:
  "\<exists>h. container_run example_types [OpAdd 1 2 0] example_heap = Some h \<and> isHoldingItem 1 2 h = Some True"
proof -
  obtain h where h: "container_run example_types [OpAdd 1 2 0] example_heap = Some h" "container_inv example_types h"
    using container_run_inv [OF all_loose_inv [OF example_loose], of example_types "[OpAdd 1 2 0]"] by blast
  have "finite (dom h) \<and> (\<exists>c. get_body 1 h = Some c) \<and> parent_of h 2 = Some 1"
    using h(1) by (auto simp: allowed_def loose_def queryAdd_def hasFlags_def getParent_def has_parent.simps get_body_def
        getTopParent_def addThing_def internalAddThing_def set_parent_def put_body_def update_parent_weight_def
        getParentContainer_def getWeight_def size_of_def capacity_def example_heap_def example_defs parent_of_def split: if_splits)
  then obtain c where "finite (dom h)" "get_body 1 h = Some c" "2 \<in> inside_of (parent_of h) {1}"
    by (auto simp: inside_of_def intro: above.here)
  with container_walk_complete [OF inv_container(1) [OF h(2)], of 1 c 2] h(1) show ?thesis by auto
qed

end
