(* ===== verification/Digests.thy ===== *)
theory Digests
  imports Prelude
begin

text \<open>
  The message digests: the class \<^verbatim>\<open>SHA1\<close> (\<^verbatim>\<open>sha1.h\<close>, \<^verbatim>\<open>sha1.cpp\<close>), the functions of \<^verbatim>\<open>md5.cpp\<close> and the
  comparison of passwords with stored digests (\<^verbatim>\<open>passwordTest\<close> in \<^verbatim>\<open>tools.cpp\<close>).  Both digests are
  compared with the published algorithms, which pad the whole message first and then compress it
  block by block.  A message block is a list of 64 bytes; its contents before the first input is a
  parameter, since the code leaves it uninitialised.
\<close>

unbundle bit_operations_syntax

section \<open>The class SHA1\<close>

record SHA1 =
  H :: "u32 list"
  Length_Low :: u32
  Length_High :: u32
  Message_Block :: "u8 list"
  Message_Block_Index :: nat
  Computed :: bool
  Corrupted :: bool

definition sha1_Reset :: "SHA1 \<Rightarrow> SHA1" where
  "sha1_Reset s = s\<lparr>Length_Low := 0, Length_High := 0, Message_Block_Index := 0,
     H := [0x67452301, 0xEFCDAB89, 0x98BADCFE, 0x10325476, 0xC3D2E1F0], Computed := False, Corrupted := False\<rparr>"

definition new_SHA1 :: "u8 list \<Rightarrow> SHA1" where
  "new_SHA1 junk = sha1_Reset \<lparr>H = [], Length_Low = 0, Length_High = 0, Message_Block = junk, Message_Block_Index = 0,
     Computed = False, Corrupted = False\<rparr>"

definition CircularShift :: "nat \<Rightarrow> u32 \<Rightarrow> u32" where
  "CircularShift bits w = push_bit bits w OR drop_bit (32 - bits) w"

fun first_words :: "u8 list \<Rightarrow> nat \<Rightarrow> u32 list" where
  "first_words blk 0 = []"
| "first_words blk (Suc t) = first_words blk t @
     [push_bit 24 (ucast (blk ! (t * 4))) OR push_bit 16 (ucast (blk ! (t * 4 + 1))) OR
      push_bit 8 (ucast (blk ! (t * 4 + 2))) OR ucast (blk ! (t * 4 + 3))]"

fun more_words :: "u32 list \<Rightarrow> nat \<Rightarrow> u32 list" where
  "more_words W 0 = W"
| "more_words W (Suc n) = (let W = more_words W n; t = length W in
     W @ [CircularShift 1 (W ! (t - 3) XOR W ! (t - 8) XOR W ! (t - 14) XOR W ! (t - 16))])"

type_synonym quintet = "u32 \<times> u32 \<times> u32 \<times> u32 \<times> u32"

definition sha1_step :: "(u32 \<Rightarrow> u32 \<Rightarrow> u32 \<Rightarrow> u32) \<Rightarrow> u32 \<Rightarrow> u32 list \<Rightarrow> nat \<Rightarrow> quintet \<Rightarrow> quintet" where
  "sha1_step f K W t = (\<lambda>(A, B, C, D, E).
     let temp = CircularShift 5 A + f B C D + E + W ! t + K
     in (temp, A, CircularShift 30 B, C, D))"

definition ProcessMessageBlock :: "SHA1 \<Rightarrow> SHA1" where
  "ProcessMessageBlock s =
     (let W = more_words (first_words (Message_Block s) 16) 64;
          r0 = (H s ! 0, H s ! 1, H s ! 2, H s ! 3, H s ! 4);
          r1 = fold (sha1_step (\<lambda>B C D. (B AND C) OR (NOT B AND D)) 0x5A827999 W) [0..<20] r0;
          r2 = fold (sha1_step (\<lambda>B C D. B XOR C XOR D) 0x6ED9EBA1 W) [20..<40] r1;
          r3 = fold (sha1_step (\<lambda>B C D. (B AND C) OR (B AND D) OR (C AND D)) 0x8F1BBCDC W) [40..<60] r2;
          (A, B, C, D, E) = fold (sha1_step (\<lambda>B C D. B XOR C XOR D) 0xCA62C1D6 W) [60..<80] r3
      in s\<lparr>H := [H s ! 0 + A, H s ! 1 + B, H s ! 2 + C, H s ! 3 + D, H s ! 4 + E], Message_Block_Index := 0\<rparr>)"

definition sha1_put :: "u8 \<Rightarrow> SHA1 \<Rightarrow> SHA1" where
  "sha1_put b s = s\<lparr>Message_Block := (Message_Block s)[Message_Block_Index s := b],
     Message_Block_Index := Message_Block_Index s + 1\<rparr>"

definition sha1_byte :: "u8 \<Rightarrow> SHA1 \<Rightarrow> SHA1" where
  "sha1_byte b s =
     (let s = sha1_put b s;
          s = s\<lparr>Length_Low := Length_Low s + 8\<rparr>;
          s = (if Length_Low s = 0
               then let s = s\<lparr>Length_High := Length_High s + 1\<rparr>
                    in if Length_High s = 0 then s\<lparr>Corrupted := True\<rparr> else s
               else s)
      in if Message_Block_Index s = 64 then ProcessMessageBlock s else s)"

fun sha1_bytes :: "u8 list \<Rightarrow> SHA1 \<Rightarrow> SHA1" where
  "sha1_bytes [] s = s"
| "sha1_bytes (b # bs) s = (if Corrupted s then s else sha1_bytes bs (sha1_byte b s))"

definition sha1_Input :: "u8 list \<Rightarrow> SHA1 \<Rightarrow> SHA1" where
  "sha1_Input msg s =
     (if msg = [] then s
      else if Computed s \<or> Corrupted s then s\<lparr>Corrupted := True\<rparr>
      else sha1_bytes msg s)"

fun sha1_zeros :: "nat \<Rightarrow> SHA1 \<Rightarrow> SHA1" where
  "sha1_zeros 0 s = s"
| "sha1_zeros (Suc n) s = sha1_zeros n (sha1_put 0 s)"

definition be32 :: "u32 \<Rightarrow> u8 list" where
  "be32 w = [ucast (drop_bit 24 w), ucast (drop_bit 16 w), ucast (drop_bit 8 w), ucast w]"

definition PadMessage :: "SHA1 \<Rightarrow> SHA1" where
  "PadMessage s =
     (let s = (if Message_Block_Index s > 55
               then let s = sha1_put 0x80 s;
                        s = ProcessMessageBlock (sha1_zeros (64 - Message_Block_Index s) s)
                    in sha1_zeros (56 - Message_Block_Index s) s
               else let s = sha1_put 0x80 s in sha1_zeros (56 - Message_Block_Index s) s);
          s = s\<lparr>Message_Block := take 56 (Message_Block s) @ be32 (Length_High s) @ be32 (Length_Low s)\<rparr>
      in ProcessMessageBlock s)"

definition sha1_Result :: "SHA1 \<Rightarrow> u32 list option \<times> SHA1" where
  "sha1_Result s =
     (if Corrupted s then (None, s)
      else let s = (if Computed s then s else (PadMessage s)\<lparr>Computed := True\<rparr>)
           in (Some (H s), s))"

section \<open>Hashing by blocks\<close>

text \<open>The published scheme: cut the padded message into blocks of 64 bytes and compress them in order.\<close>

function digest_blocks :: "(u8 list \<Rightarrow> 'h \<Rightarrow> 'h) \<Rightarrow> u8 list \<Rightarrow> 'h \<Rightarrow> 'h" where
  "digest_blocks compress m h =
     (if length m < 64 then h else digest_blocks compress (drop 64 m) (compress (take 64 m) h))"
  by pat_completeness auto
termination
  by (relation "measure (\<lambda>(c, m, h). length m)") auto

declare digest_blocks.simps [simp del]

lemma digest_blocks_short [simp]: "length m < 64 \<Longrightarrow> digest_blocks compress m h = h"
  by (simp add: digest_blocks.simps)

lemma digest_blocks_block: "length m = 64 \<Longrightarrow> digest_blocks compress m h = compress m h"
  by (simp add: digest_blocks.simps)

lemma digest_blocks_append:
  "length m mod 64 = 0 \<Longrightarrow> digest_blocks compress (m @ x) h = digest_blocks compress x (digest_blocks compress m h)"
proof (induction compress m h rule: digest_blocks.induct)
  case (1 compress m h)
  show ?case
  proof (cases "length m < 64")
    case True
    with 1(2) have "m = []" by auto
    then show ?thesis by simp
  next
    case False
    then have "length (drop 64 m) mod 64 = 0" using 1(2) by (simp add: le_mod_geq)
    then show ?thesis using 1(1) False
      by (subst (1 3) digest_blocks.simps) simp
  qed
qed

text \<open>
  A buffered hash takes the bytes one at a time: it fills a block, compresses it when it is full
  and starts over.
\<close>

locale block_buffer =
  fixes compress :: "u8 list \<Rightarrow> 'h \<Rightarrow> 'h"
    and chain :: "'st \<Rightarrow> 'h" and buffer :: "'st \<Rightarrow> u8 list" and idx :: "'st \<Rightarrow> nat"
    and put :: "u8 \<Rightarrow> 'st \<Rightarrow> 'st"
  assumes put_buffer: "length (buffer s) = 64 \<Longrightarrow> idx s < 64 \<Longrightarrow> buffer (put b s) = (buffer s)[idx s := b]"
    and put_full: "length (buffer s) = 64 \<Longrightarrow> idx s = 63 \<Longrightarrow>
      chain (put b s) = compress ((buffer s)[63 := b]) (chain s) \<and> idx (put b s) = 0"
    and put_free: "length (buffer s) = 64 \<Longrightarrow> idx s < 63 \<Longrightarrow> chain (put b s) = chain s \<and> idx (put b s) = idx s + 1"
begin

definition absorbed :: "'h \<Rightarrow> u8 list \<Rightarrow> 'st \<Rightarrow> bool" where
  "absorbed h m s \<longleftrightarrow> length (buffer s) = 64 \<and> idx s = length m mod 64 \<and> chain s = digest_blocks compress m h \<and>
     take (idx s) (buffer s) = drop (length m - idx s) m"

lemma absorbed_start: "length (buffer s) = 64 \<Longrightarrow> idx s = 0 \<Longrightarrow> absorbed (chain s) [] s"
  by (simp add: absorbed_def)

lemma absorbed_more:
  assumes "absorbed h m s"
  shows "digest_blocks compress (m @ x) h = digest_blocks compress (take (idx s) (buffer s) @ x) (chain s)"
proof -
  define i where "i = idx s"
  have i: "i = length m mod 64" and c: "chain s = digest_blocks compress m h" and len: "length (buffer s) = 64"
    and pre: "take i (buffer s) = drop (length m - i) m" using assms by (auto simp: absorbed_def i_def)
  have split: "m = take (length m - i) m @ take i (buffer s)" using pre by simp
  have mult: "length (take (length m - i) m) mod 64 = 0" using i(1) by (simp add: minus_mod_eq_mult_div)
  have "digest_blocks compress m h = digest_blocks compress (take (length m - i) m) h"
    using digest_blocks_append [OF mult, of compress "take i (buffer s)" h] split i len by simp
  moreover have "digest_blocks compress (m @ x) h =
      digest_blocks compress (take i (buffer s) @ x) (digest_blocks compress (take (length m - i) m) h)"
    using digest_blocks_append [OF mult, of compress "take i (buffer s) @ x" h] split by (metis append.assoc)
  ultimately show ?thesis using c by (simp add: i_def)
qed

lemma absorb_put:
  assumes "absorbed h m s"
  shows "absorbed h (m @ [b]) (put b s)"
proof -
  define i where "i = idx s"
  have i: "i = length m mod 64" "i < 64" and len: "length (buffer s) = 64" and c: "chain s = digest_blocks compress m h"
    and pre: "take i (buffer s) = drop (length m - i) m"
    using assms by (auto simp: absorbed_def i_def)
  have il: "i \<le> length m" using i by simp
  have chain: "digest_blocks compress (m @ x) h = digest_blocks compress (take i (buffer s) @ x) (chain s)" for x
    using absorbed_more [OF assms] by (simp add: i_def)
  have buf: "buffer (put b s) = (buffer s)[i := b]" using put_buffer len i(2) by (simp add: i_def)
  have tk: "take (Suc i) ((buffer s)[i := b]) = take i (buffer s) @ [b]"
    using i(2) len by (simp add: take_Suc_conv_app_nth)
  show ?thesis
  proof (cases "i = 63")
    case True
    then have "(buffer s)[63 := b] = take i (buffer s) @ [b]" using tk len by simp
    moreover have "(length m + 1) mod 64 = 0" using True i(1) by (simp add: mod_Suc)
    ultimately show ?thesis
      using put_full [of s b] True len buf chain [of "[b]"] by (simp add: absorbed_def i_def digest_blocks_block)
  next
    case False
    then have "idx s < 63" using i(2) by (simp add: i_def)
    moreover have "(length m + 1) mod 64 = i + 1" using False i by (simp add: mod_Suc)
    moreover have "length (take i (buffer s) @ [b]) < 64" using \<open>idx s < 63\<close> len by (simp add: i_def)
    ultimately show ?thesis
      using put_free [of s b] len buf tk pre il chain [of "[b]"] by (simp add: absorbed_def i_def [symmetric])
  qed
qed

lemma absorb_all: "absorbed h m s \<Longrightarrow> absorbed h (m @ x) (fold put x s)"
proof (induction x arbitrary: m s)
  case (Cons b x)
  from Cons.IH [OF absorb_put [OF Cons.prems], of b] show ?case by simp
qed simp

end

section \<open>The published SHA-1\<close>

definition be_word :: "u8 list \<Rightarrow> u32" where
  "be_word = foldl (\<lambda>w b. 256 * w + ucast b) 0"

fun sha1_W :: "u8 list \<Rightarrow> nat \<Rightarrow> u32" where
  "sha1_W blk t =
     (if t < 16 then be_word (take 4 (drop (4 * t) blk))
      else word_rotl 1 (sha1_W blk (t - 3) XOR sha1_W blk (t - 8) XOR sha1_W blk (t - 14) XOR sha1_W blk (t - 16)))"

definition sha1_f :: "nat \<Rightarrow> u32 \<Rightarrow> u32 \<Rightarrow> u32 \<Rightarrow> u32" where
  "sha1_f t x y z =
     (if t < 20 then (x AND y) XOR (NOT x AND z)
      else if 40 \<le> t \<and> t < 60 then (x AND y) XOR (x AND z) XOR (y AND z)
      else x XOR y XOR z)"

definition sha1_K :: "nat \<Rightarrow> u32" where
  "sha1_K t = (if t < 20 then 0x5A827999 else if t < 40 then 0x6ED9EBA1 else if t < 60 then 0x8F1BBCDC else 0xCA62C1D6)"

definition sha1_round :: "u8 list \<Rightarrow> nat \<Rightarrow> quintet \<Rightarrow> quintet" where
  "sha1_round blk t = (\<lambda>(a, b, c, d, e).
     (word_rotl 5 a + sha1_f t b c d + e + sha1_K t + sha1_W blk t, a, word_rotl 30 b, c, d))"

definition sha1_compress :: "u8 list \<Rightarrow> u32 list \<Rightarrow> u32 list" where
  "sha1_compress blk h =
     (let (a, b, c, d, e) = fold (sha1_round blk) [0..<80] (h ! 0, h ! 1, h ! 2, h ! 3, h ! 4)
      in [a + h ! 0, b + h ! 1, c + h ! 2, d + h ! 3, e + h ! 4])"

definition pad_zeros :: "nat \<Rightarrow> nat" where
  "pad_zeros n = (119 - n mod 64) mod 64"

definition sha1_padded :: "u8 list \<Rightarrow> u8 list" where
  "sha1_padded m = m @ [0x80] @ replicate (pad_zeros (length m)) 0 @ rev (le_bytes 8 (word_of_nat (8 * length m) :: u64))"

definition sha1_digest :: "u8 list \<Rightarrow> u32 list" where
  "sha1_digest m = digest_blocks sha1_compress (sha1_padded m) [0x67452301, 0xEFCDAB89, 0x98BADCFE, 0x10325476, 0xC3D2E1F0]"

declare sha1_W.simps [simp del]

section \<open>The class computes SHA-1\<close>

lemma CircularShift_rotl:
  assumes "0 < n" "n < 32"
  shows "CircularShift n w = word_rotl n w"
proof (rule bit_word_eqI)
  fix k
  assume k: "k < LENGTH(32)"
  show "bit (CircularShift n w) k = bit (word_rotl n w) k"
  proof (cases "n \<le> k")
    case True
    then have "(k + 32 - n) mod 32 = k - n" using k assms by (simp add: le_mod_geq)
    moreover have "\<not> bit w (32 - n + k)" using True assms bit_imp_le_length [of w "32 - n + k"] by auto
    ultimately show ?thesis using True k assms by (auto simp: CircularShift_def bit_simps)
  next
    case False
    then have "(k + 32 - n) mod 32 = 32 - n + k" using k assms by simp
    then show ?thesis using False k assms by (auto simp: CircularShift_def bit_simps)
  qed
qed

lemma choice_xor: "((x :: u32) AND y) OR (NOT x AND z) = (x AND y) XOR (NOT x AND z)"
  by (rule bit_word_eqI) (auto simp: bit_simps)

lemma majority_xor: "((x :: u32) AND y) OR (x AND z) OR (y AND z) = (x AND y) XOR (x AND z) XOR (y AND z)"
  by (rule bit_word_eqI) (auto simp: bit_simps)

lemma times_256_plus: "256 * w + ucast (b :: u8) = (push_bit 8 w OR ucast b :: u32)"
proof -
  have "push_bit 8 w AND ucast b = (0 :: u32)"
    by (rule bit_word_eqI) (auto simp: bit_simps dest: bit_imp_le_length)
  then show ?thesis by (simp add: push_bit_eq_mult mult.commute flip: disjunctive_add_eq_or)
qed

lemma be_word_4:
  "be_word [a, b, c, d] = push_bit 24 (ucast a) OR push_bit 16 (ucast b) OR push_bit 8 (ucast c) OR ucast d"
  by (simp add: be_word_def times_256_plus push_bit_or or.assoc)

lemma length_first_words [simp]: "length (first_words blk n) = n"
  by (induction n) simp_all

lemma length_more_words [simp]: "length (more_words W n) = length W + n"
  by (induction n) (simp_all add: Let_def)

lemma drop_4: "length blk = 64 \<Longrightarrow> t < 16 \<Longrightarrow> take 4 (drop (4 * t) blk) = [blk ! (t * 4), blk ! (t * 4 + 1), blk ! (t * 4 + 2), blk ! (t * 4 + 3)]"
  by (rule nth_equalityI) (auto simp: less_Suc_eq nth_Cons' numeral_eq_Suc mult.commute)

lemma first_words_nth: "length blk = 64 \<Longrightarrow> n \<le> 16 \<Longrightarrow> t < n \<Longrightarrow> first_words blk n ! t = sha1_W blk t"
  by (induction n) (auto simp: nth_append less_Suc_eq sha1_W.simps [of blk t] drop_4 be_word_4)

lemma more_words_nth:
  assumes "length blk = 64"
  shows "t < 16 + n \<Longrightarrow> more_words (first_words blk 16) n ! t = sha1_W blk t"
proof (induction n arbitrary: t)
  case 0
  then show ?case using first_words_nth [OF assms] by simp
next
  case (Suc n)
  show ?case
  proof (cases "t < 16 + n")
    case True
    then show ?thesis using Suc.IH [OF True] by (simp add: Let_def nth_append)
  next
    case False
    then have t: "t = 16 + n" using Suc.prems by simp
    have "more_words (first_words blk 16) n ! (t - k) = sha1_W blk (t - k)" if "0 < k" "k \<le> 16" for k
      using that t by (intro Suc.IH) auto
    from this [of 3] this [of 8] this [of 14] this [of 16]
    show ?thesis using t by (simp add: Let_def nth_append sha1_W.simps [of blk "16 + n"] CircularShift_rotl)
  qed
qed

lemma sha1_step_round:
  assumes "length blk = 64" "t < 80" "\<And>x y z. f x y z = sha1_f t x y z" "K = sha1_K t"
  shows "sha1_step f K (more_words (first_words blk 16) 64) t = sha1_round blk t"
  using assms more_words_nth [OF assms(1), of t 64]
  by (auto simp: fun_eq_iff sha1_step_def sha1_round_def CircularShift_rotl Let_def ac_simps)

lemma ProcessMessageBlock_compress:
  assumes "length (Message_Block s) = 64"
  shows "ProcessMessageBlock s = s\<lparr>H := sha1_compress (Message_Block s) (H s), Message_Block_Index := 0\<rparr>"
proof -
  let ?blk = "Message_Block s" and ?W = "more_words (first_words (Message_Block s) 16) 64"
  have f: "fold (sha1_step f K ?W) [i..<j] r = fold (sha1_round ?blk) [i..<j] r"
    if "\<And>t x y z. i \<le> t \<Longrightarrow> t < j \<Longrightarrow> f x y z = sha1_f t x y z \<and> K = sha1_K t" "j \<le> 80" for f K i j r
    using that assms by (intro fold_cong sha1_step_round) auto
  have u: "[0..<80] = [0..<20] @ [20..<40] @ [40..<60] @ [60..<80]"
    using upt_add_eq_append [of 0 20 60] upt_add_eq_append [of 20 40 40] upt_add_eq_append [of 40 60 20] by simp
  define r0 where "r0 = (H s ! 0, H s ! 1, H s ! 2, H s ! 3, H s ! 4)"
  have "fold (sha1_round ?blk) [0..<80] r0 =
      fold (sha1_round ?blk) [60..<80] (fold (sha1_round ?blk) [40..<60] (fold (sha1_round ?blk) [20..<40]
        (fold (sha1_round ?blk) [0..<20] r0)))"
    unfolding u fold_append comp_apply ..
  also have "... = fold (sha1_step (\<lambda>B C D. B XOR C XOR D) 0xCA62C1D6 ?W) [60..<80]
      (fold (sha1_step (\<lambda>B C D. (B AND C) OR (B AND D) OR (C AND D)) 0x8F1BBCDC ?W) [40..<60]
        (fold (sha1_step (\<lambda>B C D. B XOR C XOR D) 0x6ED9EBA1 ?W) [20..<40]
          (fold (sha1_step (\<lambda>B C D. (B AND C) OR (NOT B AND D)) 0x5A827999 ?W) [0..<20] r0)))"
    by (simp add: f sha1_f_def sha1_K_def choice_xor majority_xor del: upt_rec_numeral)
  finally show ?thesis
    unfolding ProcessMessageBlock_def sha1_compress_def r0_def Let_def
    by (simp add: add.commute split: prod.split del: upt_rec_numeral)
qed

definition sha1_feed :: "u8 \<Rightarrow> SHA1 \<Rightarrow> SHA1" where
  "sha1_feed b s = (let s = sha1_put b s in if Message_Block_Index s = 64 then ProcessMessageBlock s else s)"

lemma length_sha1_put [simp]: "length (Message_Block (sha1_put b s)) = length (Message_Block s)"
  by (simp add: sha1_put_def)

interpretation sha1: block_buffer sha1_compress H Message_Block Message_Block_Index sha1_byte
  by unfold_locales (auto simp: sha1_byte_def sha1_put_def Let_def ProcessMessageBlock_compress)

definition sha1_count :: "nat \<Rightarrow> SHA1 \<Rightarrow> bool" where
  "sha1_count n s \<longleftrightarrow> Length_Low s = word_of_nat (8 * n) \<and> Length_High s = word_of_nat (8 * n div 2 ^ 32) \<and>
     \<not> Corrupted s \<and> \<not> Computed s"

lemma sha1_count_process [simp]:
  "length (Message_Block s) = 64 \<Longrightarrow> sha1_count n (ProcessMessageBlock s) \<longleftrightarrow> sha1_count n s"
  by (simp add: ProcessMessageBlock_compress sha1_count_def)

lemma carry_cases:
  fixes n m :: nat
  assumes "m = 8 * n + 8"
  shows "(word_of_nat m :: u32) = 0 \<Longrightarrow> m div 2 ^ 32 = Suc (8 * n div 2 ^ 32)"
    and "(word_of_nat m :: u32) \<noteq> 0 \<Longrightarrow> m div 2 ^ 32 = 8 * n div 2 ^ 32"
proof -
  have dvd: "(word_of_nat m :: u32) = 0 \<longleftrightarrow> 2 ^ 32 dvd m" by (simp add: word_of_nat_eq_0_iff)
  {
    assume "(word_of_nat m :: u32) = 0"
    then obtain q where q: "m = 2 ^ 32 * q" using dvd by (auto elim: dvdE)
    with assms have "0 < q" by (cases q) auto
    then have "8 * n div 2 ^ 32 = q - 1" using q assms by (intro div_nat_eqI) auto
    then show "m div 2 ^ 32 = Suc (8 * n div 2 ^ 32)" using q \<open>0 < q\<close> by simp
  next
    assume "(word_of_nat m :: u32) \<noteq> 0"
    then have nd: "m mod 2 ^ 32 \<noteq> 0" using dvd by (auto simp: dvd_eq_mod_eq_0)
    have "m = 2 ^ 32 * (m div 2 ^ 32) + m mod 2 ^ 32" "m mod 2 ^ 32 < 2 ^ 32" by simp_all
    moreover from this(1) have "8 dvd m mod 2 ^ 32" using assms by (simp add: dvd_mod_iff)
    with nd have "8 \<le> m mod 2 ^ 32" by (auto simp: dvd_def)
    ultimately have "8 * n div 2 ^ 32 = m div 2 ^ 32" using assms by (intro div_nat_eqI) (unfold mult_Suc_right, linarith+)
    then show "m div 2 ^ 32 = 8 * n div 2 ^ 32" ..
  }
qed

lemma sha1_byte_fields:
  assumes "length (Message_Block s) = 64"
  shows "Length_Low (sha1_byte b s) = Length_Low s + 8"
    and "Length_High (sha1_byte b s) = (if Length_Low s + 8 = 0 then Length_High s + 1 else Length_High s)"
    and "Corrupted (sha1_byte b s) \<longleftrightarrow> Corrupted s \<or> Length_Low s + 8 = 0 \<and> Length_High s + 1 = 0"
    and "Computed (sha1_byte b s) = Computed s"
    and "length (Message_Block (sha1_byte b s)) = 64"
  using assms by (auto simp: sha1_byte_def Let_def sha1_put_def ProcessMessageBlock_compress)

lemma sha1_count_byte:
  assumes c: "sha1_count n s" and m: "8 * (n + 1) < (2 :: nat) ^ 64" and len: "length (Message_Block s) = 64"
  shows "sha1_count (n + 1) (sha1_byte b s)"
proof -
  define m where "m = 8 * n + 8"
  define h where "h = 8 * n div 2 ^ 32"
  have low: "Length_Low s + 8 = word_of_nat m" and h1: "Length_High s = word_of_nat h"
    using c by (simp_all add: sha1_count_def m_def h_def)
  have high: "m div 2 ^ 32 < 2 ^ 32" using assms(2) by (simp add: m_def)
  have h2: "Length_High s + 1 = word_of_nat (Suc h)" by (simp add: h1)
  have m1: "8 * (n + 1) = m" by (simp add: m_def)
  have flags: "\<not> Corrupted s" "\<not> Computed s" using c by (auto simp: sha1_count_def)
  show ?thesis
  proof (cases "(word_of_nat m :: u32) = 0")
    case True
    then have "m div 2 ^ 32 = Suc h" using carry_cases(1) [OF m_def] by (simp only: h_def)
    moreover from this high have "(word_of_nat (Suc h) :: u32) \<noteq> 0"
      unfolding word_of_nat_eq_0_iff by (auto dest!: dvd_imp_le)
    ultimately show ?thesis
      unfolding sha1_count_def sha1_byte_fields [OF len] low h2 m1 using True flags by (simp del: of_nat_Suc)
  next
    case False
    then have "m div 2 ^ 32 = h" unfolding h_def by (rule carry_cases(2) [OF m_def])
    then show ?thesis
      unfolding sha1_count_def sha1_byte_fields [OF len] low h2 m1 using False flags h1 by simp
  qed
qed

lemma sha1_bytes_fold:
  "sha1_count n s \<Longrightarrow> 8 * (n + length bs) < 2 ^ 64 \<Longrightarrow> length (Message_Block s) = 64 \<Longrightarrow>
   sha1_bytes bs s = fold sha1_byte bs s \<and> sha1_count (n + length bs) (fold sha1_byte bs s)"
proof (induction bs arbitrary: n s)
  case (Cons b bs)
  have "sha1_count (n + 1) (sha1_byte b s)" "\<not> Corrupted s"
    using Cons.prems sha1_count_byte [of n s b] by (auto simp: sha1_count_def)
  moreover have "length (Message_Block (sha1_byte b s)) = 64"
    using Cons.prems by (simp add: sha1_byte_fields)
  ultimately show ?case using Cons.IH [of "n + 1" "sha1_byte b s"] Cons.prems by simp
qed simp

lemma sha1_zeros_fill:
  "length (Message_Block s) = 64 \<Longrightarrow> Message_Block_Index s + n \<le> 64 \<Longrightarrow>
   sha1_zeros n s = s\<lparr>Message_Block := take (Message_Block_Index s) (Message_Block s) @ replicate n 0 @
     drop (Message_Block_Index s + n) (Message_Block s), Message_Block_Index := Message_Block_Index s + n\<rparr>"
proof (induction n arbitrary: s)
  case (Suc n)
  have "(Message_Block s)[Message_Block_Index s := 0] = take (Message_Block_Index s) (Message_Block s) @ 0 #
      drop (Suc (Message_Block_Index s)) (Message_Block s)"
    using Suc.prems by (simp add: upd_conv_take_nth_drop)
  moreover have "min (Message_Block_Index s) 64 = Message_Block_Index s" using Suc.prems by simp
  ultimately show ?case using Suc.IH [of "sha1_put 0 s"] Suc.prems
    by (simp add: sha1_put_def add.commute)
qed simp

lemma be32_rev_le_bytes:
  "be32 (word_of_nat (k div 2 ^ 32)) @ be32 (word_of_nat k) = rev (le_bytes 8 (word_of_nat k :: u64))"
proof -
  have bytes: "be32 (ucast (drop_bit 32 L)) @ be32 (ucast L) = rev (le_bytes 8 L)" for L :: u64
    by (simp add: be32_def numeral_eq_Suc) (intro conjI bit_word_eqI; auto simp: bit_simps)
  have half: "bit (k div 4294967296) i = bit k (32 + i)" for i
    by (simp add: bit_iff_odd power_add div_mult2_eq)
  have high: "(word_of_nat (k div 2 ^ 32) :: u32) = ucast (drop_bit 32 (word_of_nat k :: u64))"
    by (rule bit_word_eqI) (simp add: bit_simps half)
  have low: "(word_of_nat k :: u32) = ucast (word_of_nat k :: u64)"
    by (rule bit_word_eqI) (auto simp: bit_simps)
  show ?thesis unfolding high low by (rule bytes)
qed

lemma put_at_index:
  "length (Message_Block s) = 64 \<Longrightarrow> Message_Block_Index s < 64 \<Longrightarrow>
   sha1_put b s = s\<lparr>Message_Block := take (Message_Block_Index s) (Message_Block s) @ b #
     drop (Suc (Message_Block_Index s)) (Message_Block s), Message_Block_Index := Suc (Message_Block_Index s)\<rparr>"
  by (simp add: sha1_put_def upd_conv_take_nth_drop)

lemma PadMessage_blocks:
  assumes len: "length (Message_Block s) = 64" and i: "Message_Block_Index s < 64"
  shows "H (PadMessage s) = digest_blocks sha1_compress
    (take (Message_Block_Index s) (Message_Block s) @ [0x80] @ replicate (pad_zeros (Message_Block_Index s)) 0 @
      be32 (Length_High s) @ be32 (Length_Low s)) (H s)"
proof -
  define p where "p = take (Message_Block_Index s) (Message_Block s)"
  have p: "length p = Message_Block_Index s" using len i by (simp add: p_def)
  have be: "length (be32 w) = 4" for w by (simp add: be32_def)
  show ?thesis
  proof (cases "Message_Block_Index s > 55")
    case True
    then have z: "pad_zeros (Message_Block_Index s) = (63 - Message_Block_Index s) + 56"
      using i by (simp add: pad_zeros_def le_mod_geq)
    have rep: "replicate (pad_zeros (Message_Block_Index s)) (0 :: u8) = replicate (63 - Message_Block_Index s) 0 @ replicate 56 0"
      by (simp only: z replicate_add)
    have "H (PadMessage s) = sha1_compress (replicate 56 0 @ be32 (Length_High s) @ be32 (Length_Low s))
        (sha1_compress (p @ 0x80 # replicate (63 - Message_Block_Index s) 0) (H s))"
      using True len i p
      by (simp add: PadMessage_def Let_def put_at_index sha1_zeros_fill ProcessMessageBlock_compress be p_def [symmetric])
    then show ?thesis
      using digest_blocks_append [of "p @ 0x80 # replicate (63 - Message_Block_Index s) 0" sha1_compress
          "replicate 56 0 @ be32 (Length_High s) @ be32 (Length_Low s)" "H s"] True i p
      by (simp add: rep digest_blocks_block be p_def del: replicate.simps)
  next
    case False
    then have z: "pad_zeros (Message_Block_Index s) = 55 - Message_Block_Index s"
      by (simp add: pad_zeros_def le_mod_geq)
    have Suc: "56 - Message_Block_Index s = Suc (55 - Message_Block_Index s)" using False by simp
    have "H (PadMessage s) = sha1_compress (p @ 0x80 # replicate (55 - Message_Block_Index s) 0 @
        be32 (Length_High s) @ be32 (Length_Low s)) (H s)"
      using False len i p
      by (simp add: Suc PadMessage_def Let_def put_at_index sha1_zeros_fill ProcessMessageBlock_compress be p_def [symmetric])
    then show ?thesis using False i p by (simp add: z digest_blocks_block be p_def)
  qed
qed

lemma pad_zeros_mod [simp]: "pad_zeros (n mod 64) = pad_zeros n"
  by (simp add: pad_zeros_def)

definition sha1_reads :: "u8 list \<Rightarrow> SHA1 \<Rightarrow> bool" where
  "sha1_reads m s \<longleftrightarrow> sha1_count (length m) s \<and>
     sha1.absorbed [0x67452301, 0xEFCDAB89, 0x98BADCFE, 0x10325476, 0xC3D2E1F0] m s"

lemma sha1_reads_new: "length junk = 64 \<Longrightarrow> sha1_reads [] (new_SHA1 junk)"
  using sha1.absorbed_start [of "new_SHA1 junk"] by (simp add: sha1_reads_def new_SHA1_def sha1_Reset_def sha1_count_def)

lemma sha1_reads_Input:
  assumes "sha1_reads m s" "8 * (length m + length x) < 2 ^ 64"
  shows "sha1_reads (m @ x) (sha1_Input x s)"
  using assms sha1_bytes_fold [of "length m" s x] sha1.absorb_all [of _ m s x]
  by (auto simp: sha1_reads_def sha1_Input_def sha1_count_def sha1.absorbed_def [of _ m])

lemma sha1_reads_Result:
  assumes "sha1_reads m s"
  shows "fst (sha1_Result s) = Some (sha1_digest m)"
proof -
  define IV :: "u32 list" where "IV = [0x67452301, 0xEFCDAB89, 0x98BADCFE, 0x10325476, 0xC3D2E1F0]"
  from assms have c: "sha1_count (length m) s" and a: "sha1.absorbed IV m s" by (simp_all add: sha1_reads_def IV_def)
  then have f: "length (Message_Block s) = 64" "Message_Block_Index s = length m mod 64" by (simp_all add: sha1.absorbed_def)
  have "sha1_digest m = H (PadMessage s)"
    unfolding sha1_digest_def sha1_padded_def IV_def [symmetric] sha1.absorbed_more [OF a]
    using PadMessage_blocks [OF f(1)] f(2) c be32_rev_le_bytes [of "8 * length m"] by (simp add: sha1_count_def)
  then show ?thesis using c by (simp add: sha1_Result_def sha1_count_def)
qed

lemma sha1_reads_inputs:
  "sha1_reads m s \<Longrightarrow> 8 * (length m + length (concat ms)) < 2 ^ 64 \<Longrightarrow> sha1_reads (m @ concat ms) (fold sha1_Input ms s)"
proof (induction ms arbitrary: m s)
  case (Cons x ms)
  have "sha1_reads (m @ x) (sha1_Input x s)" using Cons.prems by (intro sha1_reads_Input) auto
  from Cons.IH [OF this] Cons.prems show ?case by simp
qed simp

text \<open>
  C25. Whatever pieces a message of less than 2 to the 64 bits is given in, the class returns the
  SHA-1 digest of the whole message, and never reports it as corrupted.
\<close>
theorem sha1_class_computes_sha1:
  assumes "length junk = 64" "8 * length (concat ms) < 2 ^ 64"
  shows "fst (sha1_Result (fold sha1_Input ms (new_SHA1 junk))) = Some (sha1_digest (concat ms))"
  using sha1_reads_inputs [OF sha1_reads_new [OF assms(1)]] assms(2) by (simp add: sha1_reads_Result)

theorem sha1_class_computes_sha1_witness:
  "fst (sha1_Result (fold sha1_Input [[0x61, 0x62], [], [0x63]] (new_SHA1 (replicate 64 0)))) = Some (sha1_digest [0x61, 0x62, 0x63])"
  using sha1_class_computes_sha1 [of "replicate 64 0" "[[0x61, 0x62], [], [0x63]]"] by simp

section \<open>md5.cpp\<close>

record MD5_CTX =
  i0 :: u32
  i1 :: u32
  buf :: "u32 list"
  inbuf :: "u8 list"
  digest :: "u8 list"

type_synonym quad = "u32 \<times> u32 \<times> u32 \<times> u32"

definition MD5_F :: "u32 \<Rightarrow> u32 \<Rightarrow> u32 \<Rightarrow> u32" where "MD5_F x y z = (x AND y) OR (NOT x AND z)"
definition MD5_G :: "u32 \<Rightarrow> u32 \<Rightarrow> u32 \<Rightarrow> u32" where "MD5_G x y z = (x AND z) OR (y AND NOT z)"
definition MD5_H :: "u32 \<Rightarrow> u32 \<Rightarrow> u32 \<Rightarrow> u32" where "MD5_H x y z = x XOR y XOR z"
definition MD5_I :: "u32 \<Rightarrow> u32 \<Rightarrow> u32 \<Rightarrow> u32" where "MD5_I x y z = y XOR (x OR NOT z)"

definition ROTATE_LEFT :: "u32 \<Rightarrow> nat \<Rightarrow> u32" where
  "ROTATE_LEFT x n = (push_bit n x AND 0xFFFFFFFF) OR drop_bit (32 - n) x"

text \<open>The macros MD5_FF to MD5_II differ in the function; they assign their first argument.\<close>

definition MD5_step :: "(u32 \<Rightarrow> u32 \<Rightarrow> u32 \<Rightarrow> u32) \<Rightarrow> u32 \<Rightarrow> nat \<Rightarrow> u32 \<Rightarrow> u32 \<Rightarrow> u32 \<Rightarrow> u32 \<Rightarrow> u32 \<Rightarrow> u32" where
  "MD5_step f x s ac a b c d =
     (let a = a + (f b c d + x + ac);
          a = ROTATE_LEFT a s
      in a + b)"

fun set_a :: "(u32 \<Rightarrow> u32 \<Rightarrow> u32 \<Rightarrow> u32 \<Rightarrow> u32) \<Rightarrow> quad \<Rightarrow> quad" where "set_a st (a, b, c, d) = (st a b c d, b, c, d)"
fun set_b :: "(u32 \<Rightarrow> u32 \<Rightarrow> u32 \<Rightarrow> u32 \<Rightarrow> u32) \<Rightarrow> quad \<Rightarrow> quad" where "set_b st (a, b, c, d) = (a, st b c d a, c, d)"
fun set_c :: "(u32 \<Rightarrow> u32 \<Rightarrow> u32 \<Rightarrow> u32 \<Rightarrow> u32) \<Rightarrow> quad \<Rightarrow> quad" where "set_c st (a, b, c, d) = (a, b, st c d a b, d)"
fun set_d :: "(u32 \<Rightarrow> u32 \<Rightarrow> u32 \<Rightarrow> u32 \<Rightarrow> u32) \<Rightarrow> quad \<Rightarrow> quad" where "set_d st (a, b, c, d) = (a, b, c, st d a b c)"

definition md5_round1 :: "u32 list \<Rightarrow> quad \<Rightarrow> quad" where
  "md5_round1 inp q = (let
     q = set_a (MD5_step MD5_F (inp ! 0) 7 3614090360) q;
     q = set_d (MD5_step MD5_F (inp ! 1) 12 3905402710) q;
     q = set_c (MD5_step MD5_F (inp ! 2) 17 606105819) q;
     q = set_b (MD5_step MD5_F (inp ! 3) 22 3250441966) q;
     q = set_a (MD5_step MD5_F (inp ! 4) 7 4118548399) q;
     q = set_d (MD5_step MD5_F (inp ! 5) 12 1200080426) q;
     q = set_c (MD5_step MD5_F (inp ! 6) 17 2821735955) q;
     q = set_b (MD5_step MD5_F (inp ! 7) 22 4249261313) q;
     q = set_a (MD5_step MD5_F (inp ! 8) 7 1770035416) q;
     q = set_d (MD5_step MD5_F (inp ! 9) 12 2336552879) q;
     q = set_c (MD5_step MD5_F (inp ! 10) 17 4294925233) q;
     q = set_b (MD5_step MD5_F (inp ! 11) 22 2304563134) q;
     q = set_a (MD5_step MD5_F (inp ! 12) 7 1804603682) q;
     q = set_d (MD5_step MD5_F (inp ! 13) 12 4254626195) q;
     q = set_c (MD5_step MD5_F (inp ! 14) 17 2792965006) q;
     q = set_b (MD5_step MD5_F (inp ! 15) 22 1236535329) q
   in q)"

definition md5_round2 :: "u32 list \<Rightarrow> quad \<Rightarrow> quad" where
  "md5_round2 inp q = (let
     q = set_a (MD5_step MD5_G (inp ! 1) 5 4129170786) q;
     q = set_d (MD5_step MD5_G (inp ! 6) 9 3225465664) q;
     q = set_c (MD5_step MD5_G (inp ! 11) 14 643717713) q;
     q = set_b (MD5_step MD5_G (inp ! 0) 20 3921069994) q;
     q = set_a (MD5_step MD5_G (inp ! 5) 5 3593408605) q;
     q = set_d (MD5_step MD5_G (inp ! 10) 9 38016083) q;
     q = set_c (MD5_step MD5_G (inp ! 15) 14 3634488961) q;
     q = set_b (MD5_step MD5_G (inp ! 4) 20 3889429448) q;
     q = set_a (MD5_step MD5_G (inp ! 9) 5 568446438) q;
     q = set_d (MD5_step MD5_G (inp ! 14) 9 3275163606) q;
     q = set_c (MD5_step MD5_G (inp ! 3) 14 4107603335) q;
     q = set_b (MD5_step MD5_G (inp ! 8) 20 1163531501) q;
     q = set_a (MD5_step MD5_G (inp ! 13) 5 2850285829) q;
     q = set_d (MD5_step MD5_G (inp ! 2) 9 4243563512) q;
     q = set_c (MD5_step MD5_G (inp ! 7) 14 1735328473) q;
     q = set_b (MD5_step MD5_G (inp ! 12) 20 2368359562) q
   in q)"

definition md5_round3 :: "u32 list \<Rightarrow> quad \<Rightarrow> quad" where
  "md5_round3 inp q = (let
     q = set_a (MD5_step MD5_H (inp ! 5) 4 4294588738) q;
     q = set_d (MD5_step MD5_H (inp ! 8) 11 2272392833) q;
     q = set_c (MD5_step MD5_H (inp ! 11) 16 1839030562) q;
     q = set_b (MD5_step MD5_H (inp ! 14) 23 4259657740) q;
     q = set_a (MD5_step MD5_H (inp ! 1) 4 2763975236) q;
     q = set_d (MD5_step MD5_H (inp ! 4) 11 1272893353) q;
     q = set_c (MD5_step MD5_H (inp ! 7) 16 4139469664) q;
     q = set_b (MD5_step MD5_H (inp ! 10) 23 3200236656) q;
     q = set_a (MD5_step MD5_H (inp ! 13) 4 681279174) q;
     q = set_d (MD5_step MD5_H (inp ! 0) 11 3936430074) q;
     q = set_c (MD5_step MD5_H (inp ! 3) 16 3572445317) q;
     q = set_b (MD5_step MD5_H (inp ! 6) 23 76029189) q;
     q = set_a (MD5_step MD5_H (inp ! 9) 4 3654602809) q;
     q = set_d (MD5_step MD5_H (inp ! 12) 11 3873151461) q;
     q = set_c (MD5_step MD5_H (inp ! 15) 16 530742520) q;
     q = set_b (MD5_step MD5_H (inp ! 2) 23 3299628645) q
   in q)"

definition md5_round4 :: "u32 list \<Rightarrow> quad \<Rightarrow> quad" where
  "md5_round4 inp q = (let
     q = set_a (MD5_step MD5_I (inp ! 0) 6 4096336452) q;
     q = set_d (MD5_step MD5_I (inp ! 7) 10 1126891415) q;
     q = set_c (MD5_step MD5_I (inp ! 14) 15 2878612391) q;
     q = set_b (MD5_step MD5_I (inp ! 5) 21 4237533241) q;
     q = set_a (MD5_step MD5_I (inp ! 12) 6 1700485571) q;
     q = set_d (MD5_step MD5_I (inp ! 3) 10 2399980690) q;
     q = set_c (MD5_step MD5_I (inp ! 10) 15 4293915773) q;
     q = set_b (MD5_step MD5_I (inp ! 1) 21 2240044497) q;
     q = set_a (MD5_step MD5_I (inp ! 8) 6 1873313359) q;
     q = set_d (MD5_step MD5_I (inp ! 15) 10 4264355552) q;
     q = set_c (MD5_step MD5_I (inp ! 6) 15 2734768916) q;
     q = set_b (MD5_step MD5_I (inp ! 13) 21 1309151649) q;
     q = set_a (MD5_step MD5_I (inp ! 4) 6 4149444226) q;
     q = set_d (MD5_step MD5_I (inp ! 11) 10 3174756917) q;
     q = set_c (MD5_step MD5_I (inp ! 2) 15 718787259) q;
     q = set_b (MD5_step MD5_I (inp ! 9) 21 3951481745) q
   in q)"

definition MD5_Transform :: "u32 list \<Rightarrow> u32 list \<Rightarrow> u32 list" where
  "MD5_Transform bf inp =
     (let q = (bf ! 0, bf ! 1, bf ! 2, bf ! 3);
          q = md5_round1 inp q;
          q = md5_round2 inp q;
          q = md5_round3 inp q;
          (a, b, c, d) = md5_round4 inp q
      in [bf ! 0 + a, bf ! 1 + b, bf ! 2 + c, bf ! 3 + d])"

definition MD5Init :: "u64 \<Rightarrow> MD5_CTX \<Rightarrow> MD5_CTX" where
  "MD5Init pseudoRandomNumber ctx = ctx\<lparr>i0 := 0, i1 := 0,
     buf := [ucast (0x67452301 + pseudoRandomNumber * 11), ucast (0xefcdab89 + pseudoRandomNumber * 71),
             ucast (0x98badcfe + pseudoRandomNumber * 37), ucast (0x10325476 + pseudoRandomNumber * 97)]\<rparr>"

fun md5_words :: "u8 list \<Rightarrow> nat \<Rightarrow> u32 list" where
  "md5_words blk 0 = []"
| "md5_words blk (Suc i) = md5_words blk i @
     [push_bit 24 (ucast (blk ! (i * 4 + 3))) OR push_bit 16 (ucast (blk ! (i * 4 + 2))) OR
      push_bit 8 (ucast (blk ! (i * 4 + 1))) OR ucast (blk ! (i * 4))]"

definition md5_put :: "u8 \<Rightarrow> MD5_CTX \<times> nat \<Rightarrow> MD5_CTX \<times> nat" where
  "md5_put b = (\<lambda>(ctx, mdi).
     let ctx = ctx\<lparr>inbuf := (inbuf ctx)[mdi := b]\<rparr>;
         mdi = mdi + 1
     in if mdi = 64 then (ctx\<lparr>buf := MD5_Transform (buf ctx) (md5_words (inbuf ctx) 16)\<rparr>, 0) else (ctx, mdi))"

definition md5_mdi :: "MD5_CTX \<Rightarrow> nat" where
  "md5_mdi ctx = unat (drop_bit 3 (i0 ctx) AND 0x3F)"

definition MD5Update :: "u8 list \<Rightarrow> u32 \<Rightarrow> MD5_CTX \<Rightarrow> MD5_CTX" where
  "MD5Update inBuf inLen ctx =
     (let mdi = md5_mdi ctx;
          ctx = (if i0 ctx + push_bit 3 inLen < i0 ctx then ctx\<lparr>i1 := i1 ctx + 1\<rparr> else ctx);
          ctx = ctx\<lparr>i0 := i0 ctx + push_bit 3 inLen\<rparr>;
          ctx = ctx\<lparr>i1 := i1 ctx + drop_bit 29 inLen\<rparr>
      in fst (fold md5_put (take (unat inLen) inBuf) (ctx, mdi)))"

definition MD5_PADDING :: "u8 list" where "MD5_PADDING = 0x80 # replicate 63 0"

definition MD5Final :: "MD5_CTX \<Rightarrow> MD5_CTX" where
  "MD5Final ctx =
     (let in14 = i0 ctx; in15 = i1 ctx;
          mdi = md5_mdi ctx;
          padLen = (if mdi < 56 then 56 - mdi else 120 - mdi);
          ctx = MD5Update MD5_PADDING (word_of_nat padLen) ctx;
          ctx = ctx\<lparr>buf := MD5_Transform (buf ctx) (md5_words (inbuf ctx) 14 @ [in14, in15])\<rparr>
      in ctx\<lparr>digest := concat (map (le_bytes 4) (buf ctx))\<rparr>)"

section \<open>The published MD5\<close>

text \<open>Step \<open>t\<close> of the 64 takes word \<open>md5_k t\<close> of the block, constant \<open>t\<close> of the sine table and a shift.\<close>

definition md5_T :: "u32 list" where
  "md5_T = [
    3614090360, 3905402710, 606105819, 3250441966, 4118548399, 1200080426, 2821735955, 4249261313,
    1770035416, 2336552879, 4294925233, 2304563134, 1804603682, 4254626195, 2792965006, 1236535329,
    4129170786, 3225465664, 643717713, 3921069994, 3593408605, 38016083, 3634488961, 3889429448,
    568446438, 3275163606, 4107603335, 1163531501, 2850285829, 4243563512, 1735328473, 2368359562,
    4294588738, 2272392833, 1839030562, 4259657740, 2763975236, 1272893353, 4139469664, 3200236656,
    681279174, 3936430074, 3572445317, 76029189, 3654602809, 3873151461, 530742520, 3299628645,
    4096336452, 1126891415, 2878612391, 4237533241, 1700485571, 2399980690, 4293915773, 2240044497,
    1873313359, 4264355552, 2734768916, 1309151649, 4149444226, 3174756917, 718787259, 3951481745]"

definition md5_k :: "nat \<Rightarrow> nat" where
  "md5_k t = (if t < 16 then t else if t < 32 then (5 * t + 1) mod 16 else if t < 48 then (3 * t + 5) mod 16 else (7 * t) mod 16)"

definition md5_s :: "nat \<Rightarrow> nat" where
  "md5_s t = [[7, 12, 17, 22], [5, 9, 14, 20], [4, 11, 16, 23], [6, 10, 15, 21]] ! (t div 16) ! (t mod 4)"

definition md5_f :: "nat \<Rightarrow> u32 \<Rightarrow> u32 \<Rightarrow> u32 \<Rightarrow> u32" where
  "md5_f t x y z =
     (if t < 16 then (x AND y) OR (NOT x AND z) else if t < 32 then (x AND z) OR (y AND NOT z)
      else if t < 48 then x XOR y XOR z else y XOR (x OR NOT z))"

definition md5_round :: "u8 list \<Rightarrow> nat \<Rightarrow> quad \<Rightarrow> quad" where
  "md5_round blk t = (\<lambda>(a, b, c, d).
     (d, b + word_rotl (md5_s t) (a + md5_f t b c d + le_value (take 4 (drop (4 * md5_k t) blk)) + md5_T ! t), b, c))"

definition md5_compress :: "u8 list \<Rightarrow> u32 list \<Rightarrow> u32 list" where
  "md5_compress blk h =
     (let (a, b, c, d) = fold (md5_round blk) [0..<64] (h ! 0, h ! 1, h ! 2, h ! 3)
      in [a + h ! 0, b + h ! 1, c + h ! 2, d + h ! 3])"

definition md5_padded :: "u8 list \<Rightarrow> u8 list" where
  "md5_padded m = m @ [0x80] @ replicate (pad_zeros (length m)) 0 @ le_bytes 8 (word_of_nat (8 * length m) :: u64)"

definition md5_digest :: "u8 list \<Rightarrow> u8 list" where
  "md5_digest m = concat (map (le_bytes 4)
     (digest_blocks md5_compress (md5_padded m) [0x67452301, 0xEFCDAB89, 0x98BADCFE, 0x10325476]))"

section \<open>The functions compute MD5\<close>

lemma all_ones: "(0xFFFFFFFF :: u32) = - 1"
  by simp

lemma ROTATE_LEFT_rotl: "0 < n \<Longrightarrow> n < 32 \<Longrightarrow> ROTATE_LEFT x n = word_rotl n x"
  using CircularShift_rotl [of n x] unfolding ROTATE_LEFT_def CircularShift_def all_ones by simp

lemma upt_16: "[0..<16] = [0, 1, 2, 3, 4, 5, 6, 7, 8, 9, 10, 11, 12, 13, 14, 15]"
  by code_simp

lemma length_md5_words [simp]: "length (md5_words blk n) = n"
  by (induction n) simp_all

lemma le_value_4: "le_value [a, b, c, d] = (push_bit 24 (ucast d) OR push_bit 16 (ucast c) OR push_bit 8 (ucast b) OR ucast a :: u32)"
  by (simp add: push_bit_or ac_simps)

lemma md5_words_nth: "length blk = 64 \<Longrightarrow> n \<le> 16 \<Longrightarrow> t < n \<Longrightarrow> md5_words blk n ! t = le_value (take 4 (drop (4 * t) blk))"
  by (induction n) (auto simp: nth_append less_Suc_eq drop_4 le_value_4 simp del: le_value.simps)

definition md5_round_f :: "(u32 \<Rightarrow> u32 \<Rightarrow> u32 \<Rightarrow> u32) \<Rightarrow> u32 \<Rightarrow> nat \<Rightarrow> u32 \<Rightarrow> quad \<Rightarrow> quad" where
  "md5_round_f f x s T = (\<lambda>(a, b, c, d). (d, b + word_rotl s (a + f b c d + x + T), b, c))"

lemma md5_four_rounds:
  assumes "0 < s1" "s1 < 32" "0 < s2" "s2 < 32" "0 < s3" "s3 < 32" "0 < s4" "s4 < 32"
  shows "md5_round_f f x4 s4 T4 (md5_round_f f x3 s3 T3 (md5_round_f f x2 s2 T2 (md5_round_f f x1 s1 T1 q))) =
    set_b (MD5_step f x4 s4 T4) (set_c (MD5_step f x3 s3 T3) (set_d (MD5_step f x2 s2 T2) (set_a (MD5_step f x1 s1 T1) q)))"
  using assms by (cases q) (simp add: md5_round_f_def MD5_step_def ROTATE_LEFT_rotl ac_simps Let_def)

lemma md5_round_alt:
  assumes "length blk = 64" "md5_k t < 16"
  shows "md5_round blk t = md5_round_f (md5_f t) (md5_words blk 16 ! md5_k t) (md5_s t) (md5_T ! t)"
  using assms by (simp add: md5_round_def md5_round_f_def md5_words_nth)

lemma md5_f_cases:
  "t < 16 \<Longrightarrow> md5_f t = MD5_F"
  "16 \<le> t \<Longrightarrow> t < 32 \<Longrightarrow> md5_f t = MD5_G"
  "32 \<le> t \<Longrightarrow> t < 48 \<Longrightarrow> md5_f t = MD5_H"
  "48 \<le> t \<Longrightarrow> md5_f t = MD5_I"
  by (auto simp: fun_eq_iff md5_f_def MD5_F_def MD5_G_def MD5_H_def MD5_I_def)

lemma md5_round1_fold:
  "length blk = 64 \<Longrightarrow> md5_round1 (md5_words blk 16) q = fold (md5_round blk) [0..<16] q"
  by (simp add: upt_16 md5_round1_def Let_def md5_round_alt md5_f_cases md5_k_def md5_s_def md5_T_def md5_four_rounds)

lemma md5_round2_fold:
  "length blk = 64 \<Longrightarrow> md5_round2 (md5_words blk 16) q = fold (md5_round blk) [16..<32] q"
  by (simp add: md5_round2_def Let_def md5_round_alt md5_f_cases md5_k_def md5_s_def md5_T_def md5_four_rounds)

lemma md5_round3_fold:
  "length blk = 64 \<Longrightarrow> md5_round3 (md5_words blk 16) q = fold (md5_round blk) [32..<48] q"
  by (simp add: md5_round3_def Let_def md5_round_alt md5_f_cases md5_k_def md5_s_def md5_T_def md5_four_rounds)

lemma md5_round4_fold:
  "length blk = 64 \<Longrightarrow> md5_round4 (md5_words blk 16) q = fold (md5_round blk) [48..<64] q"
  by (simp add: md5_round4_def Let_def md5_round_alt md5_f_cases md5_k_def md5_s_def md5_T_def md5_four_rounds)

lemma MD5_Transform_compress:
  assumes "length blk = 64"
  shows "MD5_Transform h (md5_words blk 16) = md5_compress blk h"
proof -
  have u: "[0..<64] = [0..<16] @ [16..<32] @ [32..<48] @ [48..<64]"
    using upt_add_eq_append [of 0 16 48] upt_add_eq_append [of 16 32 32] upt_add_eq_append [of 32 48 16] by simp
  show ?thesis
    unfolding MD5_Transform_def md5_compress_def u fold_append comp_apply Let_def
      md5_round1_fold [OF assms] md5_round2_fold [OF assms] md5_round3_fold [OF assms] md5_round4_fold [OF assms]
    by (simp add: add.commute split: prod.split del: upt_rec_numeral)
qed

interpretation md5: block_buffer md5_compress "\<lambda>(c, i). buf c" "\<lambda>(c, i). inbuf c" snd md5_put
  by unfold_locales (auto simp: md5_put_def Let_def MD5_Transform_compress split: prod.splits)

definition md5_bits :: "nat \<Rightarrow> MD5_CTX \<Rightarrow> bool" where
  "md5_bits n c \<longleftrightarrow> i0 c = word_of_nat (8 * n) \<and> i1 c = word_of_nat (8 * n div 2 ^ 32)"

definition md5_reads :: "u8 list \<Rightarrow> MD5_CTX \<Rightarrow> bool" where
  "md5_reads m c \<longleftrightarrow> md5_bits (length m) c \<and>
     md5.absorbed [0x67452301, 0xEFCDAB89, 0x98BADCFE, 0x10325476] m (c, length m mod 64)"

lemma unat_drop: "unat (drop_bit k (w :: u32)) = unat w div 2 ^ k"
  unfolding drop_bit_eq_div [symmetric] by (rule unat_drop_bit_eq)

lemma md5_mdi_bits:
  assumes "md5_bits n c"
  shows "md5_mdi c = n mod 64"
proof -
  have "unat (i0 c) = 8 * n mod 2 ^ 32" using assms unfolding md5_bits_def by (simp only: unat_of_nat) simp
  moreover have "unat (drop_bit 3 (i0 c)) = unat (i0 c) div 8" using unat_drop [of 3 "i0 c"] by simp
  moreover have "drop_bit 3 (i0 c) AND 0x3F = take_bit 6 (drop_bit 3 (i0 c))" by (simp add: take_bit_eq_mask mask_numeral)
  ultimately have "md5_mdi c = 8 * n mod 2 ^ 32 div 8 mod 64"
    by (simp add: md5_mdi_def) (simp add: take_bit_eq_mod unat_mod)
  also have "... = n mod 64" by (simp add: mod_mult2_eq [of "8 * n" 8 "2 ^ 29", simplified] mod_mod_cancel)
  finally show ?thesis .
qed

lemma md5_bits_carry:
  fixes n L :: nat and l :: u32
  assumes L: "L < 2 ^ 32" and l: "l = word_of_nat (8 * n)"
  shows "l + push_bit 3 (word_of_nat L) = word_of_nat (8 * (n + L))"
    and "word_of_nat (8 * (n + L) div 2 ^ 32) =
      (word_of_nat (8 * n div 2 ^ 32) + (if l + push_bit 3 (word_of_nat L) < l then 1 else 0) + drop_bit 29 (word_of_nat L) :: u32)"
proof -
  define x y where "x = 8 * n mod 2 ^ 32" and "y = 8 * L mod (2 :: nat) ^ 32"
  have s: "l + push_bit 3 (word_of_nat L) = word_of_nat (8 * (n + L))"
    by (simp add: l push_bit_eq_mult distrib_left mult.commute)
  then show "l + push_bit 3 (word_of_nat L) = word_of_nat (8 * (n + L))" .
  have ux: "unat l = x" unfolding l unat_of_nat by (simp add: x_def)
  have us: "unat (l + push_bit 3 (word_of_nat L)) = (x + y) mod 2 ^ 32"
    unfolding s unat_of_nat x_def y_def distrib_left mod_add_eq by simp
  have less: "x < 2 ^ 32" "y < 2 ^ 32" by (simp_all add: x_def y_def)
  have carry: "l + push_bit 3 (word_of_nat L) < l \<longleftrightarrow> (x + y) div 2 ^ 32 = 1"
    using less by (auto simp: word_less_nat_alt ux us mod_if div_if)
  have "(x + y) div 2 ^ 32 < 2" using less by (intro less_mult_imp_div_less) simp
  with carry have c: "(x + y) div 2 ^ 32 = (if l + push_bit 3 (word_of_nat L) < l then 1 else 0)" by auto
  have d: "drop_bit 29 (word_of_nat L :: u32) = word_of_nat (8 * L div 2 ^ 32)"
    using L unfolding word_unat_eq_iff unat_drop unat_of_nat by simp
  have "8 * (n + L) div 2 ^ 32 = 8 * n div 2 ^ 32 + 8 * L div 2 ^ 32 + (x + y) div 2 ^ 32"
    unfolding x_def y_def distrib_left by (rule div_add1_eq)
  then show "word_of_nat (8 * (n + L) div 2 ^ 32) =
      (word_of_nat (8 * n div 2 ^ 32) + (if l + push_bit 3 (word_of_nat L) < l then 1 else 0) + drop_bit 29 (word_of_nat L) :: u32)"
    unfolding d c by (cases "l + push_bit 3 (word_of_nat L) < l") (simp_all only: if_True if_False of_nat_add of_nat_0 of_nat_1 add_0_left ac_simps)
qed

lemma md5_put_bits: "i0 (fst (fold md5_put bs s)) = i0 (fst s) \<and> i1 (fst (fold md5_put bs s)) = i1 (fst s)"
  by (induction bs arbitrary: s) (auto simp: md5_put_def Let_def split: prod.splits)

lemma le_bytes_halves:
  "take 4 (le_bytes 8 (word_of_nat k :: u64)) = le_bytes 4 (word_of_nat k :: u32)"
  "drop 4 (le_bytes 8 (word_of_nat k :: u64)) = le_bytes 4 (word_of_nat (k div 2 ^ 32) :: u32)"
proof -
  have be: "be32 w = rev (le_bytes 4 w)" for w by (simp add: be32_def numeral_eq_Suc)
  from arg_cong [OF be32_rev_le_bytes [of k], of rev]
  have "le_bytes 8 (word_of_nat k :: u64) = le_bytes 4 (word_of_nat k :: u32) @ le_bytes 4 (word_of_nat (k div 2 ^ 32) :: u32)"
    unfolding be rev_append rev_rev_ident ..
  then show "take 4 (le_bytes 8 (word_of_nat k :: u64)) = le_bytes 4 (word_of_nat k :: u32)"
    and "drop 4 (le_bytes 8 (word_of_nat k :: u64)) = le_bytes 4 (word_of_nat (k div 2 ^ 32) :: u32)" by simp_all
qed

lemma le_value_le_bytes_4: "le_value (le_bytes 4 w) = (w :: u32)"
  by (simp add: le_value_le_bytes)

lemma md5_reads_Update:
  assumes r: "md5_reads m c" and L: "inLen = word_of_nat L" "L < 2 ^ 32" "L \<le> length x"
  shows "md5_reads (m @ take L x) (MD5Update x inLen c)"
proof -
  define c' where "c' = c\<lparr>i0 := i0 c + push_bit 3 inLen,
    i1 := i1 c + (if i0 c + push_bit 3 inLen < i0 c then 1 else 0) + drop_bit 29 inLen\<rparr>"
  from r have b: "md5_bits (length m) c" by (simp add: md5_reads_def)
  then have b': "md5_bits (length m + L) c'"
    using md5_bits_carry [OF L(2), of "i0 c" "length m"] unfolding md5_bits_def c'_def L(1) by simp
  have a: "md5.absorbed [0x67452301, 0xEFCDAB89, 0x98BADCFE, 0x10325476] m (c', length m mod 64)"
    using r by (simp add: md5_reads_def md5.absorbed_def c'_def)
  obtain c'' i where f: "fold md5_put (take L x) (c', length m mod 64) = (c'', i)" by (cases "fold md5_put (take L x) (c', length m mod 64)")
  have up: "MD5Update x inLen c = c''"
    using L f by (cases "i0 c + push_bit 3 inLen < i0 c")
      (auto simp: MD5Update_def Let_def md5_mdi_bits [OF b] c'_def unat_of_nat)
  have "i0 c'' = i0 c' \<and> i1 c'' = i1 c'" using f md5_put_bits [of "take L x" "(c', length m mod 64)"] by simp
  moreover have "md5.absorbed [0x67452301, 0xEFCDAB89, 0x98BADCFE, 0x10325476] (m @ take L x) (c'', i)"
    using md5.absorb_all [OF a, of "take L x"] f by simp
  moreover from this have "i = length (m @ take L x) mod 64" by (simp add: md5.absorbed_def)
  ultimately show ?thesis using up b' L(3) by (simp add: md5_reads_def md5_bits_def)
qed

lemma md5_words_prefix: "n \<le> 14 \<Longrightarrow> take 56 a = take 56 b \<Longrightarrow> length a = 64 \<Longrightarrow> length b = 64 \<Longrightarrow> md5_words a n = md5_words b n"
proof (induction n)
  case (Suc n)
  have "a ! k = b ! k" if "k < 56" for k using Suc.prems(2) that by (metis nth_take)
  with Suc show ?case by simp
qed simp

lemma md5_words_16: "length blk = 64 \<Longrightarrow> md5_words blk 16 = md5_words blk 14 @ [le_value (take 4 (drop 56 blk)), le_value (take 4 (drop 60 blk))]"
  using md5_words_nth [of blk 16 14] md5_words_nth [of blk 16 15]
  by (intro nth_equalityI) (auto simp: nth_append md5_words_nth less_Suc_eq numeral_eq_Suc simp del: le_value.simps)

lemma pad_zeros_length: "(n + Suc (pad_zeros n)) mod 64 = 56"
proof -
  have "(n mod 64 + Suc (pad_zeros n)) mod 64 = 56"
  proof (cases "n mod 64 < 56")
    case True
    then have "119 - n mod 64 = 64 + (55 - n mod 64)" by simp
    then have "pad_zeros n = 55 - n mod 64" using True unfolding pad_zeros_def by (simp only: mod_add_self1) simp
    then show ?thesis using True by simp
  next
    case False
    then have "pad_zeros n = 119 - n mod 64" "n mod 64 < 64" by (simp_all add: pad_zeros_def)
    then show ?thesis by simp
  qed
  then show ?thesis by (simp only: mod_add_left_eq)
qed

lemma md5_reads_Final:
  assumes "md5_reads m c"
  shows "digest (MD5Final c) = md5_digest m"
proof -
  define p where "p = (if length m mod 64 < 56 then 56 - length m mod 64 else 120 - length m mod 64)"
  define IV :: "u32 list" where "IV = [0x67452301, 0xEFCDAB89, 0x98BADCFE, 0x10325476]"
  define c' where "c' = MD5Update MD5_PADDING (word_of_nat p) c"
  have p: "p = Suc (pad_zeros (length m))" "p \<le> 64" by (auto simp: p_def pad_zeros_def le_mod_geq)
  have b: "md5_bits (length m) c" using assms by (simp add: md5_reads_def)
  have pad: "take p MD5_PADDING = 0x80 # replicate (pad_zeros (length m)) 0" using p by (simp add: MD5_PADDING_def take_Cons')
  have r: "md5_reads (m @ take p MD5_PADDING) c'"
    unfolding c'_def using p by (intro md5_reads_Update [OF assms]) (auto simp: MD5_PADDING_def)
  define M where "M = m @ take p MD5_PADDING"
  define L where "L = (word_of_nat (8 * length m) :: u64)"
  have M56: "length M mod 64 = 56" using pad_zeros_length [of "length m"] by (simp add: M_def pad)
  have a: "md5.absorbed IV M (c', length M mod 64)" using r by (simp add: md5_reads_def M_def IV_def)
  then have len: "length (inbuf c') = 64" by (simp add: md5.absorbed_def)
  define blk where "blk = take 56 (inbuf c') @ le_bytes 8 L"
  have blk: "length blk = 64" using len by (simp add: blk_def)
  have D: "digest_blocks md5_compress (md5_padded m) IV = md5_compress blk (buf c')"
    using md5.absorbed_more [OF a, of "le_bytes 8 L"] M56 blk
    by (simp add: md5_padded_def M_def pad L_def blk_def digest_blocks_block)
  have halves: "take 4 (le_bytes 8 L) = le_bytes 4 (i0 c)" "drop 4 (le_bytes 8 L) = le_bytes 4 (i1 c)"
    using b le_bytes_halves [of "8 * length m"] unfolding md5_bits_def L_def by simp_all
  have "md5_words (inbuf c') 14 @ [i0 c, i1 c] = md5_words blk 16"
    using md5_words_prefix [of 14 "inbuf c'" blk] len blk halves
    by (simp add: md5_words_16 blk_def le_value_le_bytes_4)
  then have "buf (MD5Final c) = md5_compress blk (buf c')"
    using md5_mdi_bits [OF b] blk by (simp add: MD5Final_def Let_def p_def [symmetric] c'_def [symmetric] MD5_Transform_compress)
  then show ?thesis using D by (simp add: MD5Final_def md5_digest_def Let_def IV_def)
qed

definition md5_ctx :: "u8 list \<Rightarrow> MD5_CTX" where
  "md5_ctx junk = \<lparr>i0 = 0, i1 = 0, buf = [], inbuf = junk, digest = []\<rparr>"

lemma md5_reads_Init: "length (inbuf c) = 64 \<Longrightarrow> md5_reads [] (MD5Init 0 c)"
  using md5.absorbed_start [of "(MD5Init 0 c, 0)"] by (simp add: md5_reads_def MD5Init_def md5_bits_def)

lemma md5_reads_Updates:
  "md5_reads m c \<Longrightarrow> list_all (\<lambda>x. length x < 2 ^ 32) ms \<Longrightarrow>
   md5_reads (m @ concat ms) (fold (\<lambda>x. MD5Update x (word_of_nat (length x))) ms c)"
proof (induction ms arbitrary: m c)
  case (Cons x ms)
  have "md5_reads (m @ x) (MD5Update x (word_of_nat (length x)) c)"
    using md5_reads_Update [OF Cons.prems(1), of _ "length x" x] Cons.prems(2) by simp
  from Cons.IH [OF this] Cons.prems(2) show ?case by simp
qed simp

text \<open>
  C26. Whatever pieces of less than 2 to the 32 bytes a message is given in, of any length
  altogether, the functions of md5.cpp leave the MD5 digest of the whole message.
\<close>
theorem md5_functions_compute_md5:
  assumes "length (inbuf c) = 64" "list_all (\<lambda>x. length x < 2 ^ 32) ms"
  shows "digest (MD5Final (fold (\<lambda>x. MD5Update x (word_of_nat (length x))) ms (MD5Init 0 c))) = md5_digest (concat ms)"
  using md5_reads_Updates [OF md5_reads_Init [OF assms(1)] assms(2)] by (simp add: md5_reads_Final)

theorem md5_functions_compute_md5_witness:
  "digest (MD5Final (fold (\<lambda>x. MD5Update x (word_of_nat (length x))) [[0x61, 0x62], [0x63]] (MD5Init 0 (md5_ctx (replicate 64 0))))) =
    md5_digest [0x61, 0x62, 0x63]"
  using md5_functions_compute_md5 [of "md5_ctx (replicate 64 0)" "[[0x61, 0x62], [0x63]]"] by (simp add: md5_ctx_def)

section \<open>Testing a password\<close>

definition upchar :: "u8 \<Rightarrow> u8" where
  "upchar c = (if (97 \<le> sint c \<and> sint c \<le> 122) \<or> (sint c \<le> - 1 \<and> - 32 \<le> sint c) then c - 32 else c)"

definition hex_digit :: "nat \<Rightarrow> u8" where
  "hex_digit n = word_of_nat (if n < 10 then 48 + n else 55 + n)"

fun hex_digits :: "nat \<Rightarrow> u8 list" where
  "hex_digits n = (if n < 16 then [hex_digit n] else hex_digits (n div 16) @ [hex_digit (n mod 16)])"

declare hex_digits.simps [simp del]

definition setw :: "nat \<Rightarrow> u8 list \<Rightarrow> u8 list" where
  "setw w s = replicate (w - length s) 48 @ s"

datatype passwordType_t = PASSWORD_TYPE_PLAIN | PASSWORD_TYPE_MD5 | PASSWORD_TYPE_SHA1

text \<open>The local objects start uninitialised: \<open>junk\<close> is their 64 byte block, \<open>sha1Hash\<close> the five words of the result.\<close>

definition passwordTest :: "u8 list \<Rightarrow> u32 list \<Rightarrow> passwordType_t \<Rightarrow> u8 list \<Rightarrow> u8 list \<Rightarrow> bool \<times> u8 list" where
  "passwordTest junk sha1Hash type plain hash = (case type of
     PASSWORD_TYPE_PLAIN \<Rightarrow> (plain = hash, hash)
   | PASSWORD_TYPE_MD5 \<Rightarrow>
       (let m_md5 = MD5Init 0 \<lparr>i0 = 0, i1 = 0, buf = [], inbuf = junk, digest = []\<rparr>;
            m_md5 = MD5Update plain (word_of_nat (length plain)) m_md5;
            m_md5 = MD5Final m_md5;
            hexStream = concat (map (\<lambda>b. setw 2 (hex_digits (unat b))) (digest m_md5));
            hash = map upchar hash
        in (hexStream = hash, hash))
   | PASSWORD_TYPE_SHA1 \<Rightarrow>
       (let sha1 = sha1_Input (take (unat (word_of_nat (length plain) :: u32)) plain) (new_SHA1 junk);
            sha1Hash = (case fst (sha1_Result sha1) of Some h \<Rightarrow> h | None \<Rightarrow> sha1Hash);
            hexStream = concat (map (\<lambda>w. setw 8 (hex_digits (unat w))) sha1Hash);
            hash = map upchar hash
        in (hexStream = hash, hash)))"

definition hex_digest :: "passwordType_t \<Rightarrow> u8 list \<Rightarrow> u8 list" where
  "hex_digest type plain = (case type of
     PASSWORD_TYPE_PLAIN \<Rightarrow> plain
   | PASSWORD_TYPE_MD5 \<Rightarrow> concat (map (\<lambda>b. setw 2 (hex_digits (unat b))) (md5_digest plain))
   | PASSWORD_TYPE_SHA1 \<Rightarrow> concat (map (\<lambda>w. setw 8 (hex_digits (unat w))) (sha1_digest plain)))"

lemma md5_one:
  "length junk = 64 \<Longrightarrow> length m < 2 ^ 32 \<Longrightarrow>
   digest (MD5Final (MD5Update m (word_of_nat (length m)) (MD5Init 0 \<lparr>i0 = 0, i1 = 0, buf = [], inbuf = junk, digest = []\<rparr>))) = md5_digest m"
  using md5_reads_Updates [OF md5_reads_Init, of _ "[m]"] by (simp add: md5_reads_Final)

lemma sha1_one:
  "length junk = 64 \<Longrightarrow> length m < 2 ^ 32 \<Longrightarrow> fst (sha1_Result (sha1_Input m (new_SHA1 junk))) = Some (sha1_digest m)"
  using sha1_reads_inputs [OF sha1_reads_new, of junk "[m]"] by (simp add: sha1_reads_Result)

text \<open>
  Testing a password compares the stored text, in upper case, with the published digest of the
  password in upper-case hexadecimal digits; plain passwords are compared as they are.  The stored text
  itself is left in upper case.
\<close>
theorem passwordTest_compares_digests:
  assumes "length junk = 64" "length plain < 2 ^ 32"
  shows "passwordTest junk w type plain hash =
    (let stored = (if type = PASSWORD_TYPE_PLAIN then hash else map upchar hash)
     in (hex_digest type plain = stored, stored))"
  using assms by (cases type) (simp_all add: passwordTest_def hex_digest_def Let_def md5_one sha1_one unat_of_nat)

theorem passwordTest_compares_digests_witness:
  "passwordTest (replicate 64 0) [] PASSWORD_TYPE_SHA1 [0x61] [0x62] =
    (hex_digest PASSWORD_TYPE_SHA1 [0x61] = [0x42], [0x42])"
  using passwordTest_compares_digests [of "replicate 64 0" "[0x61]" "[]" PASSWORD_TYPE_SHA1 "[0x62]"]
  by (simp add: Let_def upchar_def)

end
