(* ===== verification/Tiles.thy ===== *)
theory Tiles
  imports Containers Positions
begin

text \<open>
  Tiles (\<^verbatim>\<open>tile.h\<close>, \<^verbatim>\<open>tile.cpp\<close>): the ground, the items always on top, the creatures and the other items
  of a tile, its flags, the queries before a move and the operations that change it.  Items and
  creatures are addresses in two stores.  The stores are total: a tile holds a reference to what lies on
  it, and what the game is told to release (\<^verbatim>\<open>FreeThing\<close>) is an event, as are the notifications of the
  spectators.  The unique id of an item is read from its attributes, where it is always found (by
  \<^verbatim>\<open>attributes_never_stored\<close> in ItemAttrs), so that a failing assertion there counts as "no".
\<close>

section \<open>The state\<close>

datatype TileEvent = AddTileItem nat | UpdateTileItem int nat nat | RemoveTileItem int nat | UpdateTile
  | FreeThing nat | ClearSpectatorCache

record TileObject =
  t_item :: Item
  t_class :: ItemClass
  t_parent :: "Holder option"

datatype CreatureKind = IsPlayer | IsMonster | IsNpc

record TileCreature =
  c_kind :: CreatureKind
  c_tile :: "nat option"
  c_direction :: Direction
  c_pushable :: bool
  c_master :: "CreatureKind option"
  c_canPushCreatures :: bool
  c_canPushItems :: bool
  c_immune :: "u32 \<Rightarrow> bool"
  c_afflicted :: "u32 \<Rightarrow> bool"
  c_pzLocked :: bool

record Tile =
  this :: nat
  ground :: "nat option"
  topItems :: "nat list"
  creatures :: "nat list"
  downItems :: "nat list"
  thingCount :: u32
  tilePos :: position
  m_flags :: u32
  objs :: "nat \<Rightarrow> TileObject"
  crts :: "nat \<Rightarrow> TileCreature"
  events :: "TileEvent list"

abbreviation TILESTATE_PROTECTIONZONE :: u32 where "TILESTATE_PROTECTIONZONE \<equiv> push_bit 0 1"
abbreviation TILESTATE_NOPVPZONE :: u32 where "TILESTATE_NOPVPZONE \<equiv> push_bit 2 1"
abbreviation TILESTATE_NOLOGOUT :: u32 where "TILESTATE_NOLOGOUT \<equiv> push_bit 3 1"
abbreviation TILESTATE_PVPZONE :: u32 where "TILESTATE_PVPZONE \<equiv> push_bit 4 1"
abbreviation TILESTATE_HOUSE :: u32 where "TILESTATE_HOUSE \<equiv> push_bit 6 1"
abbreviation TILESTATE_FLOORCHANGE :: u32 where "TILESTATE_FLOORCHANGE \<equiv> push_bit 7 1"
abbreviation TILESTATE_FLOORCHANGE_DOWN :: u32 where "TILESTATE_FLOORCHANGE_DOWN \<equiv> push_bit 8 1"
abbreviation TILESTATE_FLOORCHANGE_NORTH :: u32 where "TILESTATE_FLOORCHANGE_NORTH \<equiv> push_bit 9 1"
abbreviation TILESTATE_FLOORCHANGE_SOUTH :: u32 where "TILESTATE_FLOORCHANGE_SOUTH \<equiv> push_bit 10 1"
abbreviation TILESTATE_FLOORCHANGE_EAST :: u32 where "TILESTATE_FLOORCHANGE_EAST \<equiv> push_bit 11 1"
abbreviation TILESTATE_FLOORCHANGE_WEST :: u32 where "TILESTATE_FLOORCHANGE_WEST \<equiv> push_bit 12 1"
abbreviation TILESTATE_POSITIONCHANGE :: u32 where "TILESTATE_POSITIONCHANGE \<equiv> push_bit 13 1"
abbreviation TILESTATE_MAGICFIELD :: u32 where "TILESTATE_MAGICFIELD \<equiv> push_bit 14 1"
abbreviation TILESTATE_BLOCKSOLID :: u32 where "TILESTATE_BLOCKSOLID \<equiv> push_bit 15 1"
abbreviation TILESTATE_BLOCKPATH :: u32 where "TILESTATE_BLOCKPATH \<equiv> push_bit 16 1"
abbreviation TILESTATE_IMMOVABLEBLOCKSOLID :: u32 where "TILESTATE_IMMOVABLEBLOCKSOLID \<equiv> push_bit 17 1"
abbreviation TILESTATE_IMMOVABLEBLOCKPATH :: u32 where "TILESTATE_IMMOVABLEBLOCKPATH \<equiv> push_bit 18 1"
abbreviation TILESTATE_IMMOVABLENOFIELDBLOCKPATH :: u32 where "TILESTATE_IMMOVABLENOFIELDBLOCKPATH \<equiv> push_bit 19 1"
abbreviation TILESTATE_NOFIELDBLOCKPATH :: u32 where "TILESTATE_NOFIELDBLOCKPATH \<equiv> push_bit 20 1"

definition hasFlag :: "u32 \<Rightarrow> Tile \<Rightarrow> bool" where "hasFlag f s \<longleftrightarrow> m_flags s AND f = f"
definition setFlag :: "u32 \<Rightarrow> Tile \<Rightarrow> Tile" where "setFlag f s = s\<lparr>m_flags := m_flags s OR f\<rparr>"
definition resetFlag :: "u32 \<Rightarrow> Tile \<Rightarrow> Tile" where "resetFlag f s = s\<lparr>m_flags := m_flags s AND NOT f\<rparr>"

definition positionChange :: "Tile \<Rightarrow> bool" where "positionChange s = hasFlag TILESTATE_POSITIONCHANGE s"
definition floorChange :: "Tile \<Rightarrow> bool" where "floorChange s = hasFlag TILESTATE_FLOORCHANGE s"
definition floorChangeDown :: "Tile \<Rightarrow> bool" where "floorChangeDown s = hasFlag TILESTATE_FLOORCHANGE_DOWN s"

definition floorChangeTo :: "Direction \<Rightarrow> Tile \<Rightarrow> bool" where
  "floorChangeTo d s = (case d of
     NORTH \<Rightarrow> hasFlag TILESTATE_FLOORCHANGE_NORTH s
   | SOUTH \<Rightarrow> hasFlag TILESTATE_FLOORCHANGE_SOUTH s
   | EAST \<Rightarrow> hasFlag TILESTATE_FLOORCHANGE_EAST s
   | WEST \<Rightarrow> hasFlag TILESTATE_FLOORCHANGE_WEST s
   | _ \<Rightarrow> False)"

definition isHouseTile :: "Tile \<Rightarrow> bool" where "isHouseTile s = hasFlag TILESTATE_HOUSE s"

definition new_Tile :: "nat \<Rightarrow> position \<Rightarrow> (nat \<Rightarrow> TileObject) \<Rightarrow> (nat \<Rightarrow> TileCreature) \<Rightarrow> Tile" where
  "new_Tile t pos os cs = \<lparr>this = t, ground = None, topItems = [], creatures = [], downItems = [], thingCount = 0,
     tilePos = pos, m_flags = 0, objs = os, crts = cs, events = []\<rparr>"

definition has_prop :: "Items \<Rightarrow> ITEMPROPERTY \<Rightarrow> Item \<Rightarrow> bool" where
  "has_prop items p i \<longleftrightarrow> hasProperty items p i = Some True"

definition item_at :: "Tile \<Rightarrow> nat \<Rightarrow> Item" where "item_at s a = t_item (objs s a)"
definition type_at :: "Items \<Rightarrow> Tile \<Rightarrow> nat \<Rightarrow> ItemType" where "type_at items s a = item_type items (item_at s a)"
definition class_at :: "Tile \<Rightarrow> nat \<Rightarrow> ItemClass" where "class_at s a = t_class (objs s a)"

definition put_obj :: "nat \<Rightarrow> (TileObject \<Rightarrow> TileObject) \<Rightarrow> Tile \<Rightarrow> Tile" where
  "put_obj a f s = s\<lparr>objs := (objs s)(a := f (objs s a))\<rparr>"

definition setParent :: "Holder option \<Rightarrow> nat \<Rightarrow> Tile \<Rightarrow> Tile" where
  "setParent p a s = put_obj a (\<lambda>ob. ob\<lparr>t_parent := p\<rparr>) s"

definition emit :: "TileEvent \<Rightarrow> Tile \<Rightarrow> Tile" where
  "emit e s = s\<lparr>events := events s @ [e]\<rparr>"

section \<open>Looking at a tile\<close>

definition tile_hasProperty :: "Items \<Rightarrow> ITEMPROPERTY \<Rightarrow> Tile \<Rightarrow> bool" where
  "tile_hasProperty items prop s =
     (if (case ground s of Some g \<Rightarrow> has_prop items prop (item_at s g) | None \<Rightarrow> False) then True
      else if list_ex (\<lambda>a. has_prop items prop (item_at s a)) (topItems s) then True
      else list_ex (\<lambda>a. has_prop items prop (item_at s a)) (downItems s))"

definition hasProperty_except :: "Items \<Rightarrow> nat \<Rightarrow> ITEMPROPERTY \<Rightarrow> Tile \<Rightarrow> bool" where
  "hasProperty_except items exclude prop s =
     (if (case ground s of Some g \<Rightarrow> exclude \<noteq> g \<and> has_prop items prop (item_at s g) | None \<Rightarrow> False) then True
      else if list_ex (\<lambda>a. a \<noteq> exclude \<and> has_prop items prop (item_at s a)) (topItems s) then True
      else list_ex (\<lambda>a. a \<noteq> exclude \<and> has_prop items prop (item_at s a)) (downItems s))"

definition tile_getThing :: "u32 \<Rightarrow> Tile \<Rightarrow> Thing option" where
  "tile_getThing index s =
     (if ground s \<noteq> None \<and> index = 0 then map_option ItemThing (ground s)
      else let index = (if ground s \<noteq> None then index - 1 else index) in
        if unat index < length (topItems s) then Some (ItemThing (topItems s ! unat index))
        else let index = index - word_of_nat (length (topItems s)) in
          if unat index < length (creatures s) then Some (CreatureThing (creatures s ! unat index))
          else let index = index - word_of_nat (length (creatures s)) in
            if unat index < length (downItems s) then Some (ItemThing (downItems s ! unat index))
            else None)"

fun scan :: "'a \<Rightarrow> 'a list \<Rightarrow> int \<Rightarrow> int + int" where
  "scan x [] n = Inr n"
| "scan x (y # ys) n = (let n = n + 1 in if y = x then Inl n else scan x ys n)"

definition tile_getIndexOfThing :: "Thing \<Rightarrow> Tile \<Rightarrow> int" where
  "tile_getIndexOfThing th s =
     (let n = - 1 in
      if map_option ItemThing (ground s) = Some th then 0
      else let n = (if ground s \<noteq> None then n + 1 else n) in
        case scan th (map ItemThing (topItems s)) n of Inl k \<Rightarrow> k
        | Inr n \<Rightarrow>
          (case scan th (map CreatureThing (creatures s)) n of Inl k \<Rightarrow> k
           | Inr n \<Rightarrow>
             (case scan th (map ItemThing (downItems s)) n of Inl k \<Rightarrow> k | Inr n \<Rightarrow> - 1)))"

text \<open>The loops over the things of a tile: \<open>for (uint32_t i = 0; i < getThingCount(); ++i)\<close>.\<close>

definition things :: "Tile \<Rightarrow> Thing option list" where
  "things s = map (\<lambda>i. tile_getThing (word_of_nat i) s) [0..<unat (thingCount s)]"

fun items_of :: "Tile \<Rightarrow> Thing option list \<Rightarrow> nat list option" where
  "items_of s [] = Some []"
| "items_of s (None # ts) = None"
| "items_of s (Some (ItemThing a) # ts) = map_option (Cons a) (items_of s ts)"
| "items_of s (Some (CreatureThing c) # ts) = items_of s ts"

fun height_from :: "Items \<Rightarrow> u32 option \<Rightarrow> u32 \<Rightarrow> Thing option list \<Rightarrow> Tile \<Rightarrow> (bool \<times> u32) option" where
  "height_from items n height [] s = Some (False, height)"
| "height_from items n height (None # ts) s = None"
| "height_from items n height (Some th # ts) s =
     (let height = (case th of ItemThing a \<Rightarrow> if has_prop items HASHEIGHT (item_at s a) then height + 1 else height
                    | CreatureThing c \<Rightarrow> height)
      in if n = Some height then Some (True, height) else height_from items n height ts s)"

definition hasHeight :: "Items \<Rightarrow> u32 \<Rightarrow> Tile \<Rightarrow> bool option" where
  "hasHeight items n s = map_option fst (height_from items (Some n) 0 (things s) s)"

definition getHeight :: "Items \<Rightarrow> Tile \<Rightarrow> u32 option" where
  "getHeight items s = map_option snd (height_from items None 0 (things s) s)"

definition getTeleportItem :: "Tile \<Rightarrow> nat option" where
  "getTeleportItem s = find (\<lambda>a. class_at s a = IC_Teleport) (topItems s)"

definition getFieldItem :: "Tile \<Rightarrow> nat option" where
  "getFieldItem s = (if \<not> hasFlag TILESTATE_MAGICFIELD s then None
     else find (\<lambda>a. class_at s a = IC_MagicField) (downItems s))"

definition find_item :: "(nat \<Rightarrow> bool) \<Rightarrow> Tile \<Rightarrow> nat option option" where
  "find_item p s = map_option (find p) (items_of s (things s))"

definition getTrashHolder :: "Tile \<Rightarrow> nat option option" where
  "getTrashHolder s =
     (case ground s of
        Some g \<Rightarrow> if class_at s g = IC_TrashHolder then Some (Some g) else find_item (\<lambda>a. class_at s a = IC_TrashHolder) s
      | None \<Rightarrow> find_item (\<lambda>a. class_at s a = IC_TrashHolder) s)"

definition getMailbox :: "Tile \<Rightarrow> nat option option" where
  "getMailbox s = find_item (\<lambda>a. class_at s a = IC_Mailbox) s"

definition getBedItem :: "Tile \<Rightarrow> nat option option" where
  "getBedItem s = find_item (\<lambda>a. class_at s a = IC_BedItem) s"

definition getTopCreature :: "Tile \<Rightarrow> nat option" where
  "getTopCreature s = (if creatures s \<noteq> [] then Some (hd (creatures s)) else None)"

definition getTopDownItem :: "Tile \<Rightarrow> nat option" where
  "getTopDownItem s = (if downItems s \<noteq> [] then Some (hd (downItems s)) else None)"

definition getItemByTopOrder :: "Items \<Rightarrow> u32 \<Rightarrow> Tile \<Rightarrow> nat option" where
  "getItemByTopOrder items topOrder s = find (\<lambda>a. it_alwaysOnTopOrder (type_at items s a) = sint topOrder) (rev (topItems s))"

definition getTopTopItem :: "Tile \<Rightarrow> nat option" where
  "getTopTopItem s = (if topItems s \<noteq> [] then Some (last (topItems s)) else None)"

definition getTopThing :: "Tile \<Rightarrow> Thing option" where
  "getTopThing s =
     (case getTopCreature s of Some c \<Rightarrow> Some (CreatureThing c)
      | None \<Rightarrow> (case getTopDownItem s of Some a \<Rightarrow> Some (ItemThing a)
      | None \<Rightarrow> (case getTopTopItem s of Some a \<Rightarrow> Some (ItemThing a)
      | None \<Rightarrow> (case ground s of Some g \<Rightarrow> Some (ItemThing g) | None \<Rightarrow> None))))"

fun tile_count_items :: "Items \<Rightarrow> u16 \<Rightarrow> int \<Rightarrow> bool \<Rightarrow> Tile \<Rightarrow> nat list \<Rightarrow> u32 \<Rightarrow> u32 option" where
  "tile_count_items items itemId subType itemCount s [] count = Some count"
| "tile_count_items items itemId subType itemCount s (a # as) count =
     (let i = item_at s a in
      case (if i_id i = itemId
            then (if subType = - 1 then Some True else map_option (\<lambda>n. subType = uint n) (getSubType items i))
            else Some False) of
        None \<Rightarrow> None
      | Some False \<Rightarrow> tile_count_items items itemId subType itemCount s as count
      | Some True \<Rightarrow>
          (case (if itemCount then Some (ucast (i_count i))
                 else if isRune (item_type items i) then map_option ucast (getCharges (attrs i))
                 else Some (ucast (i_count i))) of
             None \<Rightarrow> None
           | Some n \<Rightarrow> tile_count_items items itemId subType itemCount s as (count + n)))"

definition tile_getItemTypeCount :: "Items \<Rightarrow> u16 \<Rightarrow> int \<Rightarrow> bool \<Rightarrow> Tile \<Rightarrow> u32 option" where
  "tile_getItemTypeCount items itemId subType itemCount s =
     (case items_of s (things s) of None \<Rightarrow> None
      | Some as \<Rightarrow> tile_count_items items itemId subType itemCount s as 0)"

section \<open>The flags of a tile\<close>

definition floor_flags :: "ItemType \<Rightarrow> Tile \<Rightarrow> Tile" where
  "floor_flags it s =
     (let s = (if it_floorChangeDown it then setFlag TILESTATE_FLOORCHANGE_DOWN (setFlag TILESTATE_FLOORCHANGE s) else s);
          s = (if it_floorChangeNorth it then setFlag TILESTATE_FLOORCHANGE_NORTH (setFlag TILESTATE_FLOORCHANGE s) else s);
          s = (if it_floorChangeSouth it then setFlag TILESTATE_FLOORCHANGE_SOUTH (setFlag TILESTATE_FLOORCHANGE s) else s);
          s = (if it_floorChangeEast it then setFlag TILESTATE_FLOORCHANGE_EAST (setFlag TILESTATE_FLOORCHANGE s) else s)
      in if it_floorChangeWest it then setFlag TILESTATE_FLOORCHANGE_WEST (setFlag TILESTATE_FLOORCHANGE s) else s)"

definition added_flags :: "Items \<Rightarrow> nat \<Rightarrow> Tile \<Rightarrow> Tile" where
  "added_flags items a s =
     (let i = item_at s a; c = class_at s a;
          s = (if \<not> hasFlag TILESTATE_FLOORCHANGE s then floor_flags (type_at items s a) s else s);
          s = (if c = IC_Teleport then setFlag TILESTATE_POSITIONCHANGE s else s);
          s = (if c = IC_MagicField then setFlag TILESTATE_MAGICFIELD s else s);
          s = (if has_prop items BLOCKSOLID i then setFlag TILESTATE_BLOCKSOLID s else s);
          s = (if has_prop items IMMOVABLEBLOCKSOLID i then setFlag TILESTATE_IMMOVABLEBLOCKSOLID s else s);
          s = (if has_prop items BLOCKPATH i then setFlag TILESTATE_BLOCKPATH s else s);
          s = (if has_prop items NOFIELDBLOCKPATH i then setFlag TILESTATE_NOFIELDBLOCKPATH s else s)
      in if has_prop items IMMOVABLENOFIELDBLOCKPATH i then setFlag TILESTATE_IMMOVABLENOFIELDBLOCKPATH s else s)"

definition lost_prop :: "Items \<Rightarrow> ITEMPROPERTY \<Rightarrow> u32 \<Rightarrow> nat \<Rightarrow> Tile \<Rightarrow> Tile" where
  "lost_prop items prop f a s =
     (if has_prop items prop (item_at s a) \<and> \<not> hasProperty_except items a prop s then resetFlag f s else s)"

definition removed_flags :: "Items \<Rightarrow> nat \<Rightarrow> Tile \<Rightarrow> Tile" where
  "removed_flags items a s =
     (let it = type_at items s a; c = class_at s a;
          s = (if it_floorChangeDown it then resetFlag TILESTATE_FLOORCHANGE_DOWN (resetFlag TILESTATE_FLOORCHANGE s) else s);
          s = (if it_floorChangeNorth it then resetFlag TILESTATE_FLOORCHANGE_NORTH (resetFlag TILESTATE_FLOORCHANGE s) else s);
          s = (if it_floorChangeSouth it then resetFlag TILESTATE_FLOORCHANGE_SOUTH (resetFlag TILESTATE_FLOORCHANGE s) else s);
          s = (if it_floorChangeEast it then resetFlag TILESTATE_FLOORCHANGE_EAST (resetFlag TILESTATE_FLOORCHANGE s) else s);
          s = (if it_floorChangeWest it then resetFlag TILESTATE_FLOORCHANGE_WEST (resetFlag TILESTATE_FLOORCHANGE s) else s);
          s = (if c = IC_Teleport then resetFlag TILESTATE_POSITIONCHANGE s else s);
          s = (if c = IC_MagicField then resetFlag TILESTATE_MAGICFIELD s else s);
          s = lost_prop items BLOCKSOLID TILESTATE_BLOCKSOLID a s;
          s = lost_prop items IMMOVABLEBLOCKSOLID TILESTATE_IMMOVABLEBLOCKSOLID a s;
          s = lost_prop items BLOCKPATH TILESTATE_BLOCKPATH a s;
          s = lost_prop items NOFIELDBLOCKPATH TILESTATE_NOFIELDBLOCKPATH a s;
          s = lost_prop items IMMOVABLEBLOCKPATH TILESTATE_IMMOVABLEBLOCKPATH a s
      in lost_prop items IMMOVABLENOFIELDBLOCKPATH TILESTATE_IMMOVABLENOFIELDBLOCKPATH a s)"

definition updateTileFlags :: "Items \<Rightarrow> nat \<Rightarrow> bool \<Rightarrow> Tile \<Rightarrow> Tile" where
  "updateTileFlags items a removing s = (if \<not> removing then added_flags items a s else removed_flags items a s)"

definition onAddTileItem :: "Items \<Rightarrow> nat \<Rightarrow> Tile \<Rightarrow> Tile" where
  "onAddTileItem items a s = emit (AddTileItem a) (updateTileFlags items a False s)"

definition onUpdateTileItem :: "Items \<Rightarrow> int \<Rightarrow> nat \<Rightarrow> nat \<Rightarrow> Tile \<Rightarrow> Tile" where
  "onUpdateTileItem items index oldItem newItem s =
     (let s = updateTileFlags items oldItem True s;
          s = updateTileFlags items newItem False s
      in emit (UpdateTileItem index oldItem newItem) s)"

definition onRemoveTileItem :: "Items \<Rightarrow> int \<Rightarrow> nat \<Rightarrow> Tile \<Rightarrow> Tile" where
  "onRemoveTileItem items index a s = emit (RemoveTileItem index a) (updateTileFlags items a True s)"

definition onUpdateTile :: "Tile \<Rightarrow> Tile" where
  "onUpdateTile s = emit UpdateTile s"

section \<open>Changing a tile\<close>

definition isAlwaysOnTop :: "Items \<Rightarrow> nat \<Rightarrow> Tile \<Rightarrow> bool" where
  "isAlwaysOnTop items a s = it_alwaysOnTop (type_at items s a)"

definition put_on_tile :: "nat option \<Rightarrow> nat \<Rightarrow> Tile \<Rightarrow> Tile" where
  "put_on_tile t c s = s\<lparr>crts := (crts s)(c := (crts s c)\<lparr>c_tile := t\<rparr>)\<rparr>"

definition remove_item :: "Items \<Rightarrow> nat \<Rightarrow> u32 \<Rightarrow> Tile \<Rightarrow> Tile" where
  "remove_item items a count s =
     (let index = tile_getIndexOfThing (ItemThing a) s in
      if index = - 1 then s
      else if ground s = Some a then
        onRemoveTileItem items index a ((setParent None a s)\<lparr>ground := None, thingCount := thingCount s - 1\<rparr>)
      else if isAlwaysOnTop items a s then
        (if a \<in> set (topItems s)
         then onRemoveTileItem items index a ((setParent None a s)\<lparr>topItems := remove1 a (topItems s), thingCount := thingCount s - 1\<rparr>)
         else s)
      else if a \<in> set (downItems s) then
        (if isStackable items (item_at s a) \<and> count \<noteq> ucast (i_count (item_at s a))
         then let newCount = (word_of_int (max 0 (sint (ucast (i_count (item_at s a)) - count))) :: u8);
                  s = put_obj a (\<lambda>ob. ob\<lparr>t_item := setItemCount newCount (t_item ob)\<rparr>) s
              in onUpdateTileItem items index a a s
         else onRemoveTileItem items index a ((setParent None a s)\<lparr>downItems := remove1 a (downItems s), thingCount := thingCount s - 1\<rparr>))
      else s)"

definition tile_removeThing :: "Items \<Rightarrow> Thing \<Rightarrow> u32 \<Rightarrow> Tile \<Rightarrow> Tile" where
  "tile_removeThing items th count s = (case th of
     CreatureThing c \<Rightarrow>
       (if c \<notin> set (creatures s) then s
        else (emit ClearSpectatorCache s)\<lparr>creatures := remove1 c (creatures s), thingCount := thingCount s - 1\<rparr>)
   | ItemThing a \<Rightarrow> remove_item items a count s)"

text \<open>Inserting before the first item whose order passes a test.\<close>

fun insert_before :: "('a \<Rightarrow> bool) \<Rightarrow> 'a \<Rightarrow> 'a list \<Rightarrow> 'a list" where
  "insert_before p x [] = [x]"
| "insert_before p x (y # ys) = (if p y then x # y # ys else y # insert_before p x ys)"

definition release :: "nat \<Rightarrow> Tile \<Rightarrow> Tile" where
  "release a s = emit (FreeThing a) (setParent None a s)"

definition add_ground :: "Items \<Rightarrow> nat \<Rightarrow> Tile \<Rightarrow> Tile" where
  "add_ground items a s = (case ground s of
     None \<Rightarrow> onAddTileItem items a (s\<lparr>ground := Some a, thingCount := thingCount s + 1\<rparr>)
   | Some oldGround \<Rightarrow>
       (let index = tile_getIndexOfThing (ItemThing oldGround) s;
            s = release oldGround s;
            s = s\<lparr>ground := Some a\<rparr>
        in onUpdateTileItem items index oldGround a s))"

definition add_top :: "Items \<Rightarrow> nat \<Rightarrow> Tile \<Rightarrow> Tile" where
  "add_top items a s =
     (let s = (if isSplash (type_at items s a)
               then (case find (\<lambda>b. isSplash (type_at items s b)) (topItems s) of
                       Some oldSplash \<Rightarrow> release oldSplash (remove_item items oldSplash 1 s)
                     | None \<Rightarrow> s)
               else s);
          s = s\<lparr>topItems := insert_before
                 (\<lambda>b. it_alwaysOnTopOrder (type_at items s a) \<le> it_alwaysOnTopOrder (type_at items s b)) a (topItems s),
                thingCount := thingCount s + 1\<rparr>
      in onAddTileItem items a s)"

definition add_down :: "Items \<Rightarrow> nat \<Rightarrow> Tile \<Rightarrow> Tile" where
  "add_down items a s =
     (case (if isMagicField (type_at items s a)
            then (case find (\<lambda>b. class_at s b = IC_MagicField) (downItems s) of
                    Some oldField \<Rightarrow>
                      if it_replaceable (type_at items s oldField)
                      then (True, release oldField (remove_item items oldField 1 s))
                      else (False, release a s)
                  | None \<Rightarrow> (True, s))
            else (True, s)) of
        (False, s) \<Rightarrow> s
      | (True, s) \<Rightarrow> onAddTileItem items a (s\<lparr>downItems := a # downItems s, thingCount := thingCount s + 1\<rparr>))"

definition tile_addThing :: "Items \<Rightarrow> Thing \<Rightarrow> Tile \<Rightarrow> Tile" where
  "tile_addThing items th s = (case th of
     CreatureThing c \<Rightarrow>
       (let s = put_on_tile (Some (this s)) c (emit ClearSpectatorCache s)
        in s\<lparr>creatures := c # creatures s, thingCount := thingCount s + 1\<rparr>)
   | ItemThing a \<Rightarrow>
       (let s = setParent (Some (OnTile (this s))) a s in
        if isGroundTile (type_at items s a) then add_ground items a s
        else if isAlwaysOnTop items a s then add_top items a s
        else add_down items a s))"

definition tile_internalAddThing :: "Items \<Rightarrow> Thing \<Rightarrow> Tile \<Rightarrow> Tile" where
  "tile_internalAddThing items th s = (case th of
     CreatureThing c \<Rightarrow>
       (let s = emit ClearSpectatorCache (put_on_tile (Some (this s)) c s)
        in s\<lparr>creatures := c # creatures s, thingCount := thingCount s + 1\<rparr>)
   | ItemThing a \<Rightarrow>
       (let s = setParent (Some (OnTile (this s))) a s;
            s = (if isGroundTile (type_at items s a)
                 then (if ground s = None then s\<lparr>ground := Some a, thingCount := thingCount s + 1\<rparr> else s)
                 else if isAlwaysOnTop items a s
                 then s\<lparr>topItems := insert_before
                        (\<lambda>b. it_alwaysOnTopOrder (type_at items s b) > it_alwaysOnTopOrder (type_at items s a)) a (topItems s),
                        thingCount := thingCount s + 1\<rparr>
                 else s\<lparr>downItems := a # downItems s, thingCount := thingCount s + 1\<rparr>)
        in updateTileFlags items a False s))"

definition tile_updateThing :: "Items \<Rightarrow> Thing \<Rightarrow> u16 \<Rightarrow> u32 \<Rightarrow> Tile \<Rightarrow> Tile option" where
  "tile_updateThing items th itemId count s =
     (let index = tile_getIndexOfThing th s in
      if index = - 1 then Some s
      else (case th of
          CreatureThing c \<Rightarrow> Some s
        | ItemThing a \<Rightarrow>
            (let s = updateTileFlags items a True s in
             case setID items itemId (item_at s a) of None \<Rightarrow> None
             | Some i \<Rightarrow> (case setSubType items (ucast count) i of None \<Rightarrow> None
             | Some i \<Rightarrow> Some (onUpdateTileItem items index a a (put_obj a (\<lambda>ob. ob\<lparr>t_item := i\<rparr>) s))))))"

definition replaced :: "Items \<Rightarrow> u32 \<Rightarrow> nat \<Rightarrow> nat \<Rightarrow> Tile \<Rightarrow> Tile" where
  "replaced items index oldItem a s =
     (let s = setParent (Some (OnTile (this s))) a s;
          s = onUpdateTileItem items (sint index) oldItem a s
      in setParent None oldItem s)"

text \<open>A negative position, an index of at least two to the 31, is outside the vector: \<^term>\<open>None\<close>.\<close>

definition tile_replaceThing :: "Items \<Rightarrow> u32 \<Rightarrow> Thing \<Rightarrow> Tile \<Rightarrow> Tile option" where
  "tile_replaceThing items index th s = (case th of
     CreatureThing c \<Rightarrow> Some s
   | ItemThing a \<Rightarrow>
       (let pos = sint index in
        case (if pos = 0 then ground s else None) of
          Some oldItem \<Rightarrow> Some (replaced items index oldItem a (s\<lparr>ground := Some a\<rparr>))
        | None \<Rightarrow>
            (let pos = (if ground s \<noteq> None then pos - 1 else pos) in
             if pos < int (length (topItems s)) then
               (if pos < 0 then None
                else Some (replaced items index (topItems s ! nat pos) a (s\<lparr>topItems := (topItems s)[nat pos := a]\<rparr>)))
             else let pos = pos - int (length (topItems s)) in
               if pos < int (length (creatures s)) then Some s
               else let pos = pos - int (length (creatures s)) in
                 if pos < int (length (downItems s))
                 then Some (replaced items index (downItems s ! nat pos) a (s\<lparr>downItems := (downItems s)[nat pos := a]\<rparr>))
                 else Some s)))"

section \<open>Queries\<close>

abbreviation FLAG_IGNOREBLOCKITEM :: u32 where "FLAG_IGNOREBLOCKITEM \<equiv> 2"
abbreviation FLAG_IGNOREBLOCKCREATURE :: u32 where "FLAG_IGNOREBLOCKCREATURE \<equiv> 4"
abbreviation FLAG_PATHFINDING :: u32 where "FLAG_PATHFINDING \<equiv> 16"
abbreviation FLAG_IGNOREFIELDDAMAGE :: u32 where "FLAG_IGNOREFIELDDAMAGE \<equiv> 32"

text \<open>The loop over the things of the tile that may block a creature.\<close>

fun blocking_items :: "Items \<Rightarrow> u32 \<Rightarrow> Tile \<Rightarrow> Thing option list \<Rightarrow> ReturnValue option" where
  "blocking_items items flags s [] = Some RET_NOERROR"
| "blocking_items items flags s (None # ts) = None"
| "blocking_items items flags s (Some (CreatureThing c) # ts) = blocking_items items flags s ts"
| "blocking_items items flags s (Some (ItemThing a) # ts) =
     (if it_blockSolid (type_at items s a) then
        (if hasFlags flags FLAG_IGNOREBLOCKITEM then
           (if \<not> it_moveable (type_at items s a) \<or> getUniqueId (attrs (item_at s a)) \<noteq> Some 0 then Some RET_NOTPOSSIBLE
            else blocking_items items flags s ts)
         else Some RET_NOTENOUGHROOM)
      else blocking_items items flags s ts)"

definition pushes_all :: "Tile \<Rightarrow> bool" where
  "pushes_all s = list_all (\<lambda>c. let cr = crts s c in
     c_kind cr = IsMonster \<and> c_pushable cr \<and> c_master cr \<noteq> Some IsPlayer) (creatures s)"

definition field_entry :: "Items \<Rightarrow> (u16 \<Rightarrow> u32) \<Rightarrow> TileCreature \<Rightarrow> u32 \<Rightarrow> Tile \<Rightarrow> ReturnValue option" where
  "field_entry items combatType cr flags s =
     (if \<not> hasFlag TILESTATE_MAGICFIELD s then Some RET_NOERROR
      else case getFieldItem s of None \<Rightarrow> None
      | Some field \<Rightarrow>
          if it_blockSolid (type_at items s field) then Some RET_NOERROR
          else let combatType = combatType (i_id (item_at s field)) in
            if c_immune cr combatType then Some RET_NOERROR
            else if hasFlags flags FLAG_IGNOREFIELDDAMAGE
            then (if c_canPushItems cr \<or> c_afflicted cr combatType then Some RET_NOERROR else Some RET_NOTPOSSIBLE)
            else Some RET_NOTPOSSIBLE)"

definition query_monster :: "Items \<Rightarrow> (u16 \<Rightarrow> u32) \<Rightarrow> TileCreature \<Rightarrow> u32 \<Rightarrow> Tile \<Rightarrow> ReturnValue option" where
  "query_monster items combatType cr flags s =
     (if hasFlag TILESTATE_PROTECTIONZONE s then Some RET_NOTPOSSIBLE
      else if floorChange s \<or> positionChange s then Some RET_NOTPOSSIBLE
      else if c_canPushCreatures cr \<and> c_master cr = None \<and> \<not> pushes_all s then Some RET_NOTPOSSIBLE
      else if \<not> (c_canPushCreatures cr \<and> c_master cr = None) \<and> creatures s \<noteq> [] then Some RET_NOTENOUGHROOM
      else if hasFlag TILESTATE_IMMOVABLEBLOCKSOLID s then Some RET_NOTPOSSIBLE
      else if hasFlags flags FLAG_PATHFINDING \<and> hasFlag TILESTATE_IMMOVABLENOFIELDBLOCKPATH s then Some RET_NOTPOSSIBLE
      else if (hasFlag TILESTATE_BLOCKSOLID s \<or> (hasFlags flags FLAG_PATHFINDING \<and> hasFlag TILESTATE_NOFIELDBLOCKPATH s)) \<and>
              \<not> (c_canPushItems cr \<or> hasFlags flags FLAG_IGNOREBLOCKITEM) then Some RET_NOTPOSSIBLE
      else field_entry items combatType cr flags s)"

text \<open>The flags of the tile a player stands on; a player who is pz-locked and nowhere is a null tile.\<close>

definition query_player :: "Items \<Rightarrow> (nat \<Rightarrow> u32) \<Rightarrow> TileCreature \<Rightarrow> u32 \<Rightarrow> Tile \<Rightarrow> ReturnValue option" where
  "query_player items tile_flags cr flags s =
     (if creatures s \<noteq> [] \<and> \<not> hasFlags flags FLAG_IGNOREBLOCKCREATURE then Some RET_NOTENOUGHROOM
      else if c_tile cr = None \<and> hasFlag TILESTATE_NOLOGOUT s then Some RET_NOTPOSSIBLE
      else if c_pzLocked cr \<and> c_tile cr = None then None
      else if c_pzLocked cr \<and> \<not> hasFlags (tile_flags (the (c_tile cr))) TILESTATE_PVPZONE \<and> hasFlag TILESTATE_PVPZONE s
      then Some RET_PLAYERISPZLOCKEDENTERPVPZONE
      else if c_pzLocked cr \<and> hasFlags (tile_flags (the (c_tile cr))) TILESTATE_PVPZONE \<and> \<not> hasFlag TILESTATE_PVPZONE s
      then Some RET_PLAYERISPZLOCKEDLEAVEPVPZONE
      else if hasFlag TILESTATE_NOPVPZONE s \<and> c_pzLocked cr then Some RET_PLAYERISPZLOCKED
      else if hasFlag TILESTATE_PROTECTIONZONE s \<and> c_pzLocked cr then Some RET_PLAYERISPZLOCKED
      else blocking_items items flags s (things s))"

definition query_creature :: "Items \<Rightarrow> (u16 \<Rightarrow> u32) \<Rightarrow> (nat \<Rightarrow> u32) \<Rightarrow> TileCreature \<Rightarrow> u32 \<Rightarrow> Tile \<Rightarrow> ReturnValue option" where
  "query_creature items combatType tile_flags cr flags s =
     (if hasFlags flags FLAG_NOLIMIT then Some RET_NOERROR
      else if hasFlags flags FLAG_PATHFINDING \<and> (floorChange s \<or> positionChange s) then Some RET_NOTPOSSIBLE
      else if ground s = None then Some RET_NOTPOSSIBLE
      else case c_kind cr of
        IsMonster \<Rightarrow> query_monster items combatType cr flags s
      | IsPlayer \<Rightarrow> query_player items tile_flags cr flags s
      | IsNpc \<Rightarrow>
          if creatures s \<noteq> [] \<and> \<not> hasFlags flags FLAG_IGNOREBLOCKCREATURE then Some RET_NOTENOUGHROOM
          else blocking_items items flags s (things s))"

text \<open>
  The loop over the things that may block an item: \<open>item_z\<close> is the floor the item comes from; the
  result holds whether there is something hanging and something to hang it on.
\<close>

fun blocking_item :: "Items \<Rightarrow> Item \<Rightarrow> u16 \<Rightarrow> Tile \<Rightarrow> Thing option list \<Rightarrow> bool \<Rightarrow> bool \<Rightarrow> (ReturnValue + bool \<times> bool) option" where
  "blocking_item items i item_z s [] hasHangable supportHangable = Some (Inr (hasHangable, supportHangable))"
| "blocking_item items i item_z s (None # ts) hasHangable supportHangable = None"
| "blocking_item items i item_z s (Some (CreatureThing c) # ts) hasHangable supportHangable =
     blocking_item items i item_z s ts hasHangable supportHangable"
| "blocking_item items i item_z s (Some (ItemThing a) # ts) hasHangable supportHangable =
     (let iiType = type_at items s a;
          hasHangable = (hasHangable \<or> it_isHangable iiType);
          supportHangable = (supportHangable \<or> it_isHorizontal iiType \<or> it_isVertical iiType)
      in if it_isHangable (item_type items i) \<and> (it_isHorizontal iiType \<or> it_isVertical iiType)
         then blocking_item items i item_z s ts hasHangable supportHangable
         else if it_blockSolid iiType then
           (if isPickupable items i \<or> (it_moveable (item_type items i) \<and> pz (tilePos s) \<noteq> item_z) then
              (if it_allowPickupable iiType then blocking_item items i item_z s ts hasHangable supportHangable
               else if \<not> it_hasHeight iiType \<or> it_pickupable iiType \<or> isBed iiType then Some (Inl RET_NOTENOUGHROOM)
               else blocking_item items i item_z s ts hasHangable supportHangable)
            else Some (Inl RET_NOTENOUGHROOM))
         else blocking_item items i item_z s ts hasHangable supportHangable)"

definition query_item :: "Items \<Rightarrow> Item \<Rightarrow> u16 \<Rightarrow> u32 \<Rightarrow> Tile \<Rightarrow> ReturnValue option" where
  "query_item items i item_z flags s =
     (if hasFlags flags FLAG_NOLIMIT then Some RET_NOERROR
      else if ground s = None \<and> \<not> it_isHangable (item_type items i) then Some RET_NOTPOSSIBLE
      else if creatures s \<noteq> [] \<and> it_blockSolid (item_type items i) \<and> \<not> hasFlags flags FLAG_IGNOREBLOCKCREATURE
      then Some RET_NOTENOUGHROOM
      else case blocking_item items i item_z s (things s) False False of
        None \<Rightarrow> None
      | Some (Inl r) \<Rightarrow> Some r
      | Some (Inr (hasHangable, supportHangable)) \<Rightarrow>
          if it_isHangable (item_type items i) \<and> hasHangable \<and> supportHangable then Some RET_NEEDEXCHANGE
          else Some RET_NOERROR)"

definition tile_queryAdd :: "Items \<Rightarrow> (u16 \<Rightarrow> u32) \<Rightarrow> (nat \<Rightarrow> u32) \<Rightarrow> u16 \<Rightarrow> Thing \<Rightarrow> u32 \<Rightarrow> Tile \<Rightarrow> ReturnValue option" where
  "tile_queryAdd items combatType tile_flags item_z th flags s = (case th of
     CreatureThing c \<Rightarrow> query_creature items combatType tile_flags (crts s c) flags s
   | ItemThing a \<Rightarrow> query_item items (item_at s a) item_z flags s)"

definition tile_queryMaxCount :: "u32 \<Rightarrow> u32" where
  "tile_queryMaxCount count = max 1 count"

definition tile_queryRemove :: "Items \<Rightarrow> Thing \<Rightarrow> u32 \<Rightarrow> u32 \<Rightarrow> Tile \<Rightarrow> ReturnValue" where
  "tile_queryRemove items th count flags s =
     (if tile_getIndexOfThing th s = - 1 then RET_NOTPOSSIBLE
      else case th of
        CreatureThing c \<Rightarrow> RET_NOTPOSSIBLE
      | ItemThing a \<Rightarrow>
          if count = 0 \<or> (isStackable items (item_at s a) \<and> count > ucast (i_count (item_at s a))) then RET_NOTPOSSIBLE
          else if isNotMoveable items (item_at s a) \<and> \<not> hasFlags flags FLAG_IGNORENOTMOVEABLE then RET_NOTMOVEABLE
          else RET_NOERROR)"

text \<open>The tile a thing falls or climbs to; \<open>getTile\<close> is the lookup of the map.\<close>

definition tile_queryDestination :: "(int \<Rightarrow> int \<Rightarrow> int \<Rightarrow> Tile option) \<Rightarrow> u32 \<Rightarrow> Tile \<Rightarrow> Tile \<times> nat option \<times> u32" where
  "tile_queryDestination getTile flags s =
     (let x = uint (px (tilePos s)); y = uint (py (tilePos s)); z = uint (pz (tilePos s));
          destTile =
            (if floorChangeDown s then
               (let dz = z + 1 in
                case getTile x y dz of None \<Rightarrow> None
                | Some downTile \<Rightarrow>
                    (let dx = x; dy = y;
                         dy = (if floorChangeTo NORTH downTile then dy + 1 else dy);
                         dy = (if floorChangeTo SOUTH downTile then dy - 1 else dy);
                         dx = (if floorChangeTo EAST downTile then dx - 1 else dx);
                         dx = (if floorChangeTo WEST downTile then dx + 1 else dx)
                     in getTile dx dy dz))
             else if floorChange s then
               (let dx = x; dy = y; dz = z - 1;
                    dy = (if floorChangeTo NORTH s then dy - 1 else dy);
                    dy = (if floorChangeTo SOUTH s then dy + 1 else dy);
                    dx = (if floorChangeTo EAST s then dx + 1 else dx);
                    dx = (if floorChangeTo WEST s then dx - 1 else dx)
                in getTile dx dy dz)
             else None);
          (destTile, flags) = (case destTile of None \<Rightarrow> (s, flags) | Some d \<Rightarrow> (d, flags OR FLAG_NOLIMIT))
      in (destTile, getTopDownItem destTile, flags))"

section \<open>Moving a creature between tiles\<close>

definition turned :: "position \<Rightarrow> position \<Rightarrow> Direction \<Rightarrow> Direction" where
  "turned fromPos toPos d =
     (let d = (if py fromPos > py toPos then NORTH else if py fromPos < py toPos then SOUTH else d)
      in if px fromPos < px toPos then EAST else if px fromPos > px toPos then WEST else d)"

text \<open>
  The part of \<^verbatim>\<open>moveCreature\<close> that changes the two tiles and the creature; the result holds the stack
  positions told to the spectators.  The stores of the two tiles are one: the store of the first is handed on.
\<close>

definition moveCreature :: "Items \<Rightarrow> nat \<Rightarrow> bool \<Rightarrow> Tile \<Rightarrow> Tile \<Rightarrow> Tile \<times> Tile \<times> int \<times> int" where
  "moveCreature items c teleport from to =
     (let oldStackPos = tile_getIndexOfThing (CreatureThing c) from;
          from = tile_removeThing items (CreatureThing c) 0 from;
          to = tile_addThing items (CreatureThing c) (to\<lparr>objs := objs from, crts := crts from\<rparr>);
          newStackPos = tile_getIndexOfThing (CreatureThing c) to;
          to = (if teleport then to
                else to\<lparr>crts := (crts to)(c := (crts to c)\<lparr>c_direction := turned (tilePos from) (tilePos to) (c_direction (crts to c))\<rparr>)\<rparr>)
      in (from\<lparr>crts := crts to\<rparr>, to, oldStackPos, newStackPos))"

section \<open>The stack of a tile\<close>

text \<open>The things of a tile as the client sees them, from the ground up.\<close>

definition stack :: "Tile \<Rightarrow> Thing list" where
  "stack s = (case ground s of None \<Rightarrow> [] | Some g \<Rightarrow> [ItemThing g]) @ map ItemThing (topItems s) @
     map CreatureThing (creatures s) @ map ItemThing (downItems s)"

definition first_index :: "'a \<Rightarrow> 'a list \<Rightarrow> nat" where
  "first_index x xs = length (takeWhile (\<lambda>y. y \<noteq> x) xs)"

lemma first_index_nth: "x \<in> set xs \<Longrightarrow> first_index x xs < length xs \<and> xs ! first_index x xs = x"
  unfolding first_index_def by (induction xs) auto

lemma first_index_append:
  "first_index x (xs @ ys) = (if x \<in> set xs then first_index x xs else length xs + first_index x ys)"
  unfolding first_index_def by (induction xs) auto

lemma first_index_distinct: "distinct xs \<Longrightarrow> i < length xs \<Longrightarrow> first_index (xs ! i) xs = i"
  using first_index_nth [of "xs ! i" xs] nth_eq_iff_index_eq [of xs "first_index (xs ! i) xs" i] by simp

lemma first_index_single: "first_index x [x] = 0"
  by (simp add: first_index_def)

lemma scan_first_index:
  "scan x xs n = (if x \<in> set xs then Inl (n + 1 + int (first_index x xs)) else Inr (n + int (length xs)))"
  unfolding first_index_def by (induction xs arbitrary: n) (auto simp: Let_def)

lemma getIndexOfThing_stack:
  "tile_getIndexOfThing th s = (if th \<in> set (stack s) then int (first_index th (stack s)) else - 1)"
  unfolding tile_getIndexOfThing_def stack_def Let_def scan_first_index
  by (auto simp: first_index_append first_index_single split: option.splits)

lemma getThing_stack:
  assumes "length (stack s) < 2 ^ 32"
  shows "tile_getThing i s = (if unat i < length (stack s) then Some (stack s ! unat i) else None)"
proof -
  have minus: "unat (j - word_of_nat n) = unat j - n" if "\<not> unat j < n" "n < 2 ^ 32" for j :: u32 and n
  proof -
    have n: "unat (word_of_nat n :: u32) = n" using that(2) by (simp add: unat_of_nat)
    with that(1) have "word_of_nat n \<le> j" by (simp add: word_le_nat_alt)
    then show ?thesis using n by (simp add: unat_sub)
  qed
  have one: "unat (j - 1) = unat j - 1" if "j \<noteq> 0" for j :: u32
    using minus [of j 1] that by (simp add: unat_gt_0)
  have parts: "length (topItems s) < 2 ^ 32" "length (creatures s) < 2 ^ 32" "length (downItems s) < 2 ^ 32"
    using assms by (auto simp: stack_def split: option.splits)
  define rest where "rest = map ItemThing (topItems s) @ map CreatureThing (creatures s) @ map ItemThing (downItems s)"
  define look where "look = (\<lambda>j :: u32. if unat j < length (topItems s) then Some (ItemThing (topItems s ! unat j))
        else let j = j - word_of_nat (length (topItems s)) in
          if unat j < length (creatures s) then Some (CreatureThing (creatures s ! unat j))
          else let j = j - word_of_nat (length (creatures s)) in
            if unat j < length (downItems s) then Some (ItemThing (downItems s ! unat j)) else None)"
  have look: "look j = (if unat j < length rest then Some (rest ! unat j) else None)" for j
    unfolding look_def rest_def Let_def using parts
    by (auto simp: nth_append minus)
  have gt: "tile_getThing i s = (if ground s \<noteq> None \<and> i = 0 then map_option ItemThing (ground s)
      else look (if ground s \<noteq> None then i - 1 else i))"
    unfolding tile_getThing_def look_def Let_def by simp
  have "unat i = 0 \<longleftrightarrow> i = 0" by (simp add: unat_eq_zero)
  then show ?thesis
    unfolding gt look using one [of i]
    by (cases "ground s") (auto simp: stack_def rest_def [symmetric] nth_Cons')
qed

definition counted :: "Tile \<Rightarrow> bool" where
  "counted s \<longleftrightarrow> length (stack s) < 2 ^ 31 \<and> thingCount s = word_of_nat (length (stack s))"

lemma things_stack: "counted s \<Longrightarrow> things s = map Some (stack s)"
  unfolding things_def counted_def
  by (rule nth_equalityI) (auto simp: unat_of_nat getThing_stack)

section \<open>Single flags\<close>

lemma hasFlag_bit:
  assumes "n < 32"
  shows "hasFlag (push_bit n 1) s \<longleftrightarrow> bit (m_flags s) n"
proof
  assume "hasFlag (push_bit n 1) s"
  then have "bit (m_flags s AND push_bit n 1) n" using assms by (simp add: hasFlag_def bit_simps)
  then show "bit (m_flags s) n" by (simp add: bit_simps)
next
  assume "bit (m_flags s) n"
  then have "m_flags s AND push_bit n 1 = push_bit n 1" using assms by (intro bit_word_eqI) (auto simp: bit_simps)
  then show "hasFlag (push_bit n 1) s" by (simp add: hasFlag_def)
qed

lemma when_set: "(if b then setFlag f s else s) = s\<lparr>m_flags := (if b then m_flags s OR f else m_flags s)\<rparr>"
  by (simp add: setFlag_def)

lemma when_reset: "(if b then resetFlag f s else s) = s\<lparr>m_flags := (if b then m_flags s AND NOT f else m_flags s)\<rparr>"
  by (simp add: resetFlag_def)

lemma set_bit_flag: "n < 32 \<Longrightarrow> k < 32 \<Longrightarrow> bit ((w :: u32) OR push_bit n 1) k \<longleftrightarrow> bit w k \<or> k = n"
  by (auto simp: bit_simps)

lemma reset_bit_flag: "n < 32 \<Longrightarrow> k < 32 \<Longrightarrow> bit ((w :: u32) AND NOT (push_bit n 1)) k \<longleftrightarrow> bit w k \<and> k \<noteq> n"
  by (auto simp: bit_simps)

text \<open>The flags that follow a property of the items, and their bits.\<close>

definition tracked :: "(ITEMPROPERTY \<times> nat) list" where
  "tracked = [(BLOCKSOLID, 15), (BLOCKPATH, 16), (IMMOVABLEBLOCKSOLID, 17), (IMMOVABLENOFIELDBLOCKPATH, 19), (NOFIELDBLOCKPATH, 20)]"

definition unflagged :: "Tile \<Rightarrow> Tile" where "unflagged s = s\<lparr>m_flags := 0\<rparr>"

lemma unflagged_steps:
  "unflagged (if b then setFlag f s else s) = unflagged s"
  "unflagged (if b then resetFlag f s else s) = unflagged s"
  "unflagged (setFlag f s) = unflagged s" "unflagged (resetFlag f s) = unflagged s"
  "unflagged (lost_prop items p f a s) = unflagged s"
  by (simp_all add: unflagged_def setFlag_def resetFlag_def lost_prop_def)

lemma setFlag_setFlag: "setFlag f (setFlag g s) = setFlag (g OR f) s"
  by (simp add: setFlag_def or.assoc)

lemma resetFlag_resetFlag: "resetFlag f (resetFlag g s) = resetFlag (g OR f) s"
  by (simp add: resetFlag_def and.assoc)

lemma unflagged_floor: "unflagged (floor_flags it s) = unflagged s"
  by (simp only: floor_flags_def Let_def setFlag_setFlag unflagged_steps)

lemma unflagged_added: "unflagged (added_flags items a s) = unflagged s"
  by (simp only: added_flags_def Let_def unflagged_steps) (simp add: unflagged_floor)

lemma unflagged_removed: "unflagged (removed_flags items a s) = unflagged s"
  by (simp only: removed_flags_def Let_def resetFlag_resetFlag unflagged_steps)

lemma unflagged_eq: "unflagged s = unflagged t \<Longrightarrow> s = t\<lparr>m_flags := m_flags s\<rparr>"
  by (cases s; cases t) (simp add: unflagged_def)

lemma updateTileFlags_alt: "updateTileFlags items a r s = s\<lparr>m_flags := m_flags (updateTileFlags items a r s)\<rparr>"
  by (rule unflagged_eq) (simp add: updateTileFlags_def unflagged_added unflagged_removed)

lemma same_items:
  assumes "unflagged s = unflagged t"
  shows "item_at s a = item_at t a" "type_at items s a = type_at items t a" "class_at s a = class_at t a"
    "hasProperty_except items a p s = hasProperty_except items a p t"
proof -
  obtain w where "s = t\<lparr>m_flags := w\<rparr>" using unflagged_eq [OF assms] by blast
  then have f: "ground s = ground t" "topItems s = topItems t" "downItems s = downItems t" "objs s = objs t" by simp_all
  then have i: "item_at s = item_at t" by (simp add: item_at_def fun_eq_iff)
  with f show "item_at s a = item_at t a" "type_at items s a = type_at items t a" "class_at s a = class_at t a"
    "hasProperty_except items a p s = hasProperty_except items a p t"
    by (simp_all add: type_at_def class_at_def hasProperty_except_def cong: option.case_cong)
qed

lemma flag_steps:
  "bit (m_flags (if b then setFlag f s else s)) k \<longleftrightarrow> bit (m_flags s) k \<or> (b \<and> bit f k)"
  "bit (m_flags (if b then resetFlag f s else s)) k \<longleftrightarrow> bit (m_flags s) k \<and> \<not> (b \<and> bit f k)"
  "bit (m_flags (setFlag f s)) k \<longleftrightarrow> bit (m_flags s) k \<or> bit f k"
  "bit (m_flags (resetFlag f s)) k \<longleftrightarrow> bit (m_flags s) k \<and> \<not> bit f k"
  by (auto simp: setFlag_def resetFlag_def bit_simps dest: bit_imp_le_length)

lemma lost_prop_bit:
  "bit (m_flags (lost_prop items p f a s)) k \<longleftrightarrow>
    bit (m_flags s) k \<and> \<not> ((has_prop items p (item_at s a) \<and> \<not> hasProperty_except items a p s) \<and> bit f k)"
  unfolding lost_prop_def by (rule flag_steps(2))

lemma single_bit: "n < 32 \<Longrightarrow> bit (push_bit n 1 :: u32) k \<longleftrightarrow> k = n"
  by (auto simp: bit_simps)

lemma single_bits:
  "bit (push_bit 7 1 :: u32) k \<longleftrightarrow> k = 7"
  "bit (push_bit 8 1 :: u32) k \<longleftrightarrow> k = 8"
  "bit (push_bit 9 1 :: u32) k \<longleftrightarrow> k = 9"
  "bit (push_bit 10 1 :: u32) k \<longleftrightarrow> k = 10"
  "bit (push_bit 11 1 :: u32) k \<longleftrightarrow> k = 11"
  "bit (push_bit 12 1 :: u32) k \<longleftrightarrow> k = 12"
  "bit (push_bit 13 1 :: u32) k \<longleftrightarrow> k = 13"
  "bit (push_bit 14 1 :: u32) k \<longleftrightarrow> k = 14"
  "bit (push_bit 15 1 :: u32) k \<longleftrightarrow> k = 15"
  "bit (push_bit 16 1 :: u32) k \<longleftrightarrow> k = 16"
  "bit (push_bit 17 1 :: u32) k \<longleftrightarrow> k = 17"
  "bit (push_bit 18 1 :: u32) k \<longleftrightarrow> k = 18"
  "bit (push_bit 19 1 :: u32) k \<longleftrightarrow> k = 19"
  "bit (push_bit 20 1 :: u32) k \<longleftrightarrow> k = 20"
  by (rule single_bit, simp)+

lemma floor_flags_high: "12 < k \<Longrightarrow> bit (m_flags (floor_flags it s)) k \<longleftrightarrow> bit (m_flags s) k"
  unfolding floor_flags_def Let_def setFlag_setFlag flag_steps bit_or_iff single_bits by simp

lemma added_tracked:
  assumes "(p, k) \<in> set tracked"
  shows "bit (m_flags (added_flags items a s)) k \<longleftrightarrow> bit (m_flags s) k \<or> has_prop items p (item_at s a)"
proof -
  have "12 < k" using assms by (auto simp: tracked_def)
  then have f: "bit (m_flags (if \<not> hasFlag f s then floor_flags (type_at items s a) s else s)) k \<longleftrightarrow> bit (m_flags s) k" for f
    by (simp add: floor_flags_high)
  from assms show ?thesis
    unfolding added_flags_def Let_def flag_steps f
    by (simp only: tracked_def set_simps) (elim insertE emptyE; simp add: single_bits)
qed

lemma removed_tracked:
  assumes "(p, k) \<in> set tracked"
  shows "bit (m_flags (removed_flags items a s)) k \<longleftrightarrow>
    bit (m_flags s) k \<and> \<not> (has_prop items p (item_at s a) \<and> \<not> hasProperty_except items a p s)"
proof -
  note same = same_items [OF unflagged_steps(1)] same_items [OF unflagged_steps(2)] same_items [OF unflagged_steps(5)]
  from assms show ?thesis
    unfolding removed_flags_def Let_def resetFlag_resetFlag lost_prop_bit flag_steps bit_or_iff same
    by (simp only: tracked_def set_simps) (elim insertE emptyE; simp add: single_bits)
qed

lemma added_field: "bit (m_flags (added_flags items a s)) 14 \<longleftrightarrow> bit (m_flags s) 14 \<or> class_at s a = IC_MagicField"
proof -
  have f: "bit (m_flags (if \<not> hasFlag f s then floor_flags (type_at items s a) s else s)) 14 \<longleftrightarrow> bit (m_flags s) 14" for f
    by (simp add: floor_flags_high)
  show ?thesis unfolding added_flags_def Let_def flag_steps f by (simp add: single_bits)
qed

lemma added_18: "bit (m_flags (added_flags items a s)) 18 \<longleftrightarrow> bit (m_flags s) 18"
proof -
  have f: "bit (m_flags (if \<not> hasFlag f s then floor_flags (type_at items s a) s else s)) 18 \<longleftrightarrow> bit (m_flags s) 18" for f
    by (simp add: floor_flags_high)
  show ?thesis unfolding added_flags_def Let_def flag_steps f by (simp add: single_bits)
qed

lemma removed_field: "bit (m_flags (removed_flags items a s)) 14 \<longleftrightarrow> bit (m_flags s) 14 \<and> class_at s a \<noteq> IC_MagicField"
  unfolding removed_flags_def Let_def resetFlag_resetFlag lost_prop_bit flag_steps bit_or_iff by (simp add: single_bits)

lemma removed_18: "bit (m_flags (removed_flags items a s)) 18 \<Longrightarrow> bit (m_flags s) 18"
  unfolding removed_flags_def Let_def resetFlag_resetFlag lost_prop_bit flag_steps bit_or_iff by (simp add: single_bits)

definition held :: "Tile \<Rightarrow> nat set" where
  "held s = {a. ItemThing a \<in> set (stack s)}"

lemma held_iff: "a \<in> held s \<longleftrightarrow> ground s = Some a \<or> a \<in> set (topItems s) \<or> a \<in> set (downItems s)"
  by (auto simp: held_def stack_def split: option.splits)

lemma tile_hasProperty_held: "tile_hasProperty items p s \<longleftrightarrow> (\<exists>a\<in>held s. has_prop items p (item_at s a))"
  by (auto simp: tile_hasProperty_def held_iff list_ex_iff split: option.splits if_splits)

lemma hasProperty_except_held: "hasProperty_except items a p s \<longleftrightarrow> (\<exists>b\<in>held s - {a}. has_prop items p (item_at s b))"
  by (auto simp: hasProperty_except_def held_iff list_ex_iff split: option.splits if_splits)

text \<open>The flags are right for a set of items.\<close>

definition flags_for :: "Items \<Rightarrow> nat set \<Rightarrow> Tile \<Rightarrow> bool" where
  "flags_for items G s \<longleftrightarrow>
     (\<forall>(p, k) \<in> set tracked. bit (m_flags s) k \<longleftrightarrow> (\<exists>a\<in>G. has_prop items p (item_at s a))) \<and>
     (bit (m_flags s) 14 \<longrightarrow> (\<exists>a\<in>G. class_at s a = IC_MagicField)) \<and> \<not> bit (m_flags s) 18"

lemma flags_for_cong:
  "m_flags s = m_flags t \<Longrightarrow> (\<And>a. a \<in> G \<Longrightarrow> item_at s a = item_at t a \<and> class_at s a = class_at t a) \<Longrightarrow>
   flags_for items G s = flags_for items G t"
  by (simp add: flags_for_def)

lemma flags_for_tracked: "flags_for items G s \<Longrightarrow> (p, k) \<in> set tracked \<Longrightarrow> bit (m_flags s) k = (\<exists>a\<in>G. has_prop items p (item_at s a))"
  unfolding flags_for_def by blast

lemma update_fields [simp]:
  "ground (updateTileFlags items a r s) = ground s" "topItems (updateTileFlags items a r s) = topItems s"
  "creatures (updateTileFlags items a r s) = creatures s" "downItems (updateTileFlags items a r s) = downItems s"
  "thingCount (updateTileFlags items a r s) = thingCount s" "this (updateTileFlags items a r s) = this s"
  "tilePos (updateTileFlags items a r s) = tilePos s" "objs (updateTileFlags items a r s) = objs s"
  "crts (updateTileFlags items a r s) = crts s" "events (updateTileFlags items a r s) = events s"
  by (subst updateTileFlags_alt, simp)+

lemma update_items [simp]:
  "item_at (updateTileFlags items a r s) b = item_at s b" "class_at (updateTileFlags items a r s) b = class_at s b"
  "type_at items (updateTileFlags items a r s) b = type_at items s b"
  by (simp_all add: item_at_def class_at_def type_at_def)

lemma flags_forI:
  assumes "\<And>p k. (p, k) \<in> set tracked \<Longrightarrow> bit (m_flags s) k = (\<exists>a\<in>G. has_prop items p (item_at s a))"
    "bit (m_flags s) 14 \<Longrightarrow> \<exists>a\<in>G. class_at s a = IC_MagicField" "\<not> bit (m_flags s) 18"
  shows "flags_for items G s"
  using assms unfolding flags_for_def by blast

lemma flags_forD:
  assumes "flags_for items G s"
  shows "bit (m_flags s) 14 \<Longrightarrow> \<exists>a\<in>G. class_at s a = IC_MagicField" "\<not> bit (m_flags s) 18"
  using assms unfolding flags_for_def by blast+

lemma added_bits:
  "(p, k) \<in> set tracked \<Longrightarrow> bit (m_flags (updateTileFlags items a False s)) k \<longleftrightarrow> bit (m_flags s) k \<or> has_prop items p (item_at s a)"
  "bit (m_flags (updateTileFlags items a False s)) 14 \<longleftrightarrow> bit (m_flags s) 14 \<or> class_at s a = IC_MagicField"
  "bit (m_flags (updateTileFlags items a False s)) 18 \<longleftrightarrow> bit (m_flags s) 18"
  by (simp_all add: updateTileFlags_def added_tracked added_field added_18)

lemma removed_bits:
  "(p, k) \<in> set tracked \<Longrightarrow> bit (m_flags (updateTileFlags items a True s)) k \<longleftrightarrow> bit (m_flags s) k \<and>
     \<not> (has_prop items p (item_at s a) \<and> \<not> (\<exists>b\<in>held s - {a}. has_prop items p (item_at s b)))"
  "bit (m_flags (updateTileFlags items a True s)) 14 \<longleftrightarrow> bit (m_flags s) 14 \<and> class_at s a \<noteq> IC_MagicField"
  "bit (m_flags (updateTileFlags items a True s)) 18 \<Longrightarrow> bit (m_flags s) 18"
  by (simp_all add: updateTileFlags_def removed_tracked removed_field removed_18 hasProperty_except_held)

lemma flags_added:
  assumes "flags_for items G s"
  shows "flags_for items (insert a G) (updateTileFlags items a False s)"
  by (rule flags_forI)
    (use flags_for_tracked [OF assms] flags_forD [OF assms] in \<open>auto simp: added_bits\<close>)

lemma flags_removed:
  assumes "flags_for items G s" and held: "held s - {a} = G - {a}"
  shows "flags_for items (G - {a}) (updateTileFlags items a True s)"
proof (rule flags_forI)
  fix p k
  assume t: "(p, k) \<in> set tracked"
  show "bit (m_flags (updateTileFlags items a True s)) k =
      (\<exists>b\<in>G - {a}. has_prop items p (item_at (updateTileFlags items a True s) b))"
    unfolding removed_bits(1) [OF t] held flags_for_tracked [OF assms(1) t] update_items by blast
qed (use flags_forD [OF assms(1)] in \<open>auto simp: removed_bits dest: removed_bits(3)\<close>)

lemma flags_replaced:
  assumes "flags_for items G s" "a \<in> G" and held: "held s - {a} = insert n (G - {a})"
  shows "flags_for items (insert n (G - {a})) (updateTileFlags items n False (updateTileFlags items a True s))"
proof (rule flags_forI)
  fix p k
  assume t: "(p, k) \<in> set tracked"
  show "bit (m_flags (updateTileFlags items n False (updateTileFlags items a True s))) k =
      (\<exists>b\<in>insert n (G - {a}). has_prop items p (item_at (updateTileFlags items n False (updateTileFlags items a True s)) b))"
    unfolding added_bits(1) [OF t] removed_bits(1) [OF t] held flags_for_tracked [OF assms(1) t] update_items
    using assms(2) by blast
qed (use flags_forD [OF assms(1)] in \<open>auto simp: added_bits removed_bits dest: removed_bits(3)\<close>)

section \<open>Well-formed tiles\<close>

text \<open>Where an item belongs: 0 the ground, 1 always on top, 2 the other items.\<close>

definition layer :: "ItemType \<Rightarrow> nat" where
  "layer it = (if isGroundTile it then 0 else if it_alwaysOnTop it then 1 else 2)"

definition field_ok :: "Items \<Rightarrow> TileObject \<Rightarrow> bool" where
  "field_ok items ob \<longleftrightarrow> (t_class ob = IC_MagicField \<longrightarrow>
     layer (item_type items (t_item ob)) = 2 \<and> \<not> isStackable items (t_item ob))"

text \<open>The ground is of a ground type and nothing else is, and the items on top are in their order.\<close>

definition kinds_right :: "Items \<Rightarrow> Tile \<Rightarrow> bool" where
  "kinds_right items s \<longleftrightarrow> (\<forall>g. ground s = Some g \<longrightarrow> isGroundTile (type_at items s g)) \<and>
     (\<forall>a\<in>set (topItems s) \<union> set (downItems s). \<not> isGroundTile (type_at items s a)) \<and>
     sorted (map (\<lambda>a. it_alwaysOnTopOrder (type_at items s a)) (topItems s))"

lemma kinds_rightI:
  assumes "kinds_right items s" "\<And>g. ground t = Some g \<Longrightarrow> isGroundTile (type_at items t g)"
    "\<And>a. a \<in> set (topItems t) \<union> set (downItems t) \<Longrightarrow> \<not> isGroundTile (type_at items t a)"
    "map (\<lambda>a. it_alwaysOnTopOrder (type_at items t a)) (topItems t) = map (\<lambda>a. it_alwaysOnTopOrder (type_at items s a)) (topItems s)"
  shows "kinds_right items t"
  unfolding kinds_right_def assms(4) using assms(1-3) by (simp add: kinds_right_def)

lemma kinds_right_same:
  assumes k: "kinds_right items s" and t: "ground t = ground s" "topItems t = topItems s" "downItems t = downItems s"
    and g: "\<And>a. a \<in> held s \<Longrightarrow> isGroundTile (type_at items t a) = isGroundTile (type_at items s a)"
    and o: "\<And>a. a \<in> held s \<Longrightarrow> it_alwaysOnTopOrder (type_at items t a) = it_alwaysOnTopOrder (type_at items s a)"
  shows "kinds_right items t"
proof (rule kinds_rightI [OF k])
  show "map (\<lambda>a. it_alwaysOnTopOrder (type_at items t a)) (topItems t) = map (\<lambda>a. it_alwaysOnTopOrder (type_at items s a)) (topItems s)"
    unfolding t(2) by (rule map_cong [OF refl]) (rule o, simp add: held_iff)
  show "isGroundTile (type_at items t a)" if "ground t = Some a" for a
  proof -
    have "a \<in> held s" "isGroundTile (type_at items s a)" using that k by (simp_all add: t held_iff kinds_right_def)
    with g show ?thesis by simp
  qed
  show "\<not> isGroundTile (type_at items t a)" if "a \<in> set (topItems t) \<union> set (downItems t)" for a
  proof -
    have "a \<in> held s" using that by (auto simp: t held_iff)
    moreover have "\<not> isGroundTile (type_at items s a)" using that k unfolding t kinds_right_def by blast
    ultimately show ?thesis using g by simp
  qed
qed

text \<open>With \<open>keep\<close> also what holds only when no transformation has changed the kind of an item.\<close>

definition tile_core :: "Items \<Rightarrow> bool \<Rightarrow> Tile \<Rightarrow> bool" where
  "tile_core items keep s \<longleftrightarrow> counted s \<and> distinct (stack s) \<and>
     (\<forall>a\<in>held s. t_parent (objs s a) = Some (OnTile (this s)) \<and> field_ok items (objs s a)) \<and>
     (\<forall>c\<in>set (creatures s). c_tile (crts s c) = Some (this s)) \<and>
     (\<forall>a\<in>set (topItems s). it_alwaysOnTop (type_at items s a)) \<and>
     (\<forall>a\<in>set (downItems s). \<not> it_alwaysOnTop (type_at items s a)) \<and>
     (\<forall>a\<in>held s. class_at s a = IC_MagicField \<longrightarrow> a \<in> set (downItems s)) \<and>
     (keep \<longrightarrow> kinds_right items s)"

definition tile_ok :: "Items \<Rightarrow> bool \<Rightarrow> Tile \<Rightarrow> bool" where
  "tile_ok items keep s \<longleftrightarrow> tile_core items keep s \<and> flags_for items (held s) s"

lemma stack_cong: "ground s = ground t \<Longrightarrow> topItems s = topItems t \<Longrightarrow> creatures s = creatures t \<Longrightarrow> downItems s = downItems t \<Longrightarrow> stack s = stack t"
  by (simp add: stack_def)

lemma core_cong:
  assumes "ground s = ground t" "topItems s = topItems t" "creatures s = creatures t" "downItems s = downItems t"
    "thingCount s = thingCount t" "this s = this t" "objs s = objs t" "crts s = crts t"
  shows "tile_core items keep s = tile_core items keep t" "held s = held t"
proof -
  have st: "stack s = stack t" using assms by (intro stack_cong)
  then show "held s = held t" by (simp add: held_def)
  have "type_at items s = type_at items t" "class_at s = class_at t"
    using assms by (simp_all add: type_at_def item_at_def class_at_def fun_eq_iff)
  then show "tile_core items keep s = tile_core items keep t"
    using assms st by (simp add: tile_core_def kinds_right_def counted_def held_def)
qed

lemma core_frame [simp]:
  "tile_core items keep (updateTileFlags items a r s) = tile_core items keep s" "held (updateTileFlags items a r s) = held s"
  "tile_core items keep (emit e s) = tile_core items keep s" "held (emit e s) = held s"
  by (rule core_cong; simp add: emit_def)+

lemma flags_emit [simp]: "flags_for items G (emit e s) = flags_for items G s"
  by (rule flags_for_cong) (simp_all add: emit_def item_at_def class_at_def)

text \<open>Taking an item off its list.\<close>

definition drop_item :: "nat \<Rightarrow> Tile \<Rightarrow> Tile" where
  "drop_item a s = s\<lparr>ground := (if ground s = Some a then None else ground s), topItems := remove1 a (topItems s),
     downItems := remove1 a (downItems s), thingCount := thingCount s - 1\<rparr>"

lemma stack_distinct:
  "distinct (stack s) \<longleftrightarrow> distinct (topItems s) \<and> distinct (creatures s) \<and> distinct (downItems s) \<and>
     set (topItems s) \<inter> set (downItems s) = {} \<and> (\<forall>g. ground s = Some g \<longrightarrow> g \<notin> set (topItems s) \<and> g \<notin> set (downItems s))"
  by (auto simp: stack_def distinct_map inj_on_def split: option.splits)

lemma stack_length: "length (stack s) = (if ground s = None then 0 else 1) + length (topItems s) + length (creatures s) + length (downItems s)"
  by (simp add: stack_def split: option.splits)

lemma drop_held: "distinct (stack s) \<Longrightarrow> held (drop_item a s) = held s - {a}"
  by (auto simp: held_iff drop_item_def stack_distinct split: if_splits)

lemma drop_length:
  "distinct (stack s) \<Longrightarrow> a \<in> held s \<Longrightarrow> length (stack s) = Suc (length (stack (drop_item a s)))"
  unfolding stack_length held_iff stack_distinct
  by (auto simp: drop_item_def length_remove1 remove1_idem dest: length_pos_if_in_set)

lemma sorted_remove1_map: "sorted (map f xs) \<Longrightarrow> sorted (map f (remove1 a xs))"
  by (induction xs) (auto dest: notin_set_remove1)

lemma set_remove1_sub: "x \<in> set (remove1 a xs) \<Longrightarrow> x \<in> set xs"
  using set_remove1_subset by fastforce

lemma drop_core:
  assumes c: "tile_core items keep s" and a: "a \<in> held s"
  shows "tile_core items keep (drop_item a (setParent None a s))"
proof -
  let ?s = "drop_item a (setParent None a s)"
  have d: "distinct (stack s)" using c by (simp add: tile_core_def)
  have sp: "stack (setParent None a s) = stack s" by (simp add: stack_def setParent_def put_obj_def)
  have h: "held ?s = held s - {a}" using drop_held [of "setParent None a s" a] d sp by (simp add: held_def)
  have l: "length (stack s) = Suc (length (stack ?s))"
    using drop_length [of "setParent None a s" a] d a by (simp add: sp held_def)
  have n: "thingCount ?s = thingCount s - 1" by (simp add: drop_item_def setParent_def put_obj_def)
  have "counted s" using c by (simp add: tile_core_def)
  then have "counted ?s" using l unfolding counted_def n by simp
  moreover have "distinct (stack ?s)" using d unfolding stack_distinct
    by (auto simp: drop_item_def setParent_def put_obj_def dest: set_remove1_sub)
  moreover have t: "type_at items ?s = type_at items s"
    by (simp add: type_at_def item_at_def drop_item_def setParent_def put_obj_def fun_eq_iff)
  moreover have k: "class_at ?s = class_at s"
    by (simp add: class_at_def drop_item_def setParent_def put_obj_def fun_eq_iff)
  moreover have o: "objs ?s b = objs s b" if "b \<noteq> a" for b using that by (simp add: drop_item_def setParent_def put_obj_def)
  moreover have f: "this ?s = this s" "creatures ?s = creatures s" "crts ?s = crts s"
      "topItems ?s = remove1 a (topItems s)" "downItems ?s = remove1 a (downItems s)"
      "ground ?s = (if ground s = Some a then None else ground s)"
    by (simp_all add: drop_item_def setParent_def put_obj_def)
  ultimately show ?thesis
    using c unfolding tile_core_def kinds_right_def h t f k
    by (simp add: sorted_remove1_map o) (auto dest: set_remove1_sub)
qed

definition in_part :: "Items \<Rightarrow> nat \<Rightarrow> u32 \<Rightarrow> Tile \<Rightarrow> bool" where
  "in_part items a count s \<longleftrightarrow> a \<in> set (downItems s) \<and> isStackable items (item_at s a) \<and> count \<noteq> ucast (i_count (item_at s a))"

lemma index_held: "tile_getIndexOfThing (ItemThing a) s = - 1 \<longleftrightarrow> a \<notin> held s"
  by (auto simp: getIndexOfThing_stack held_def)

lemma remove_item_free: "a \<notin> held s \<Longrightarrow> remove_item items a count s = s"
  by (simp add: remove_item_def index_held Let_def)

lemma layer_simps:
  "layer it = 0 \<longleftrightarrow> isGroundTile it" "layer it = Suc 0 \<longleftrightarrow> \<not> isGroundTile it \<and> it_alwaysOnTop it"
  "layer it = 2 \<longleftrightarrow> \<not> isGroundTile it \<and> \<not> it_alwaysOnTop it"
  by (simp_all add: layer_def)

lemma remove_item_whole:
  assumes c: "tile_core items keep s" and a: "a \<in> held s" and p: "\<not> in_part items a count s"
  shows "remove_item items a count s = onRemoveTileItem items (tile_getIndexOfThing (ItemThing a) s) a (drop_item a (setParent None a s))"
proof -
  have d: "distinct (stack s)" using c by (simp add: tile_core_def)
  have l: "a \<in> set (topItems s) \<Longrightarrow> isAlwaysOnTop items a s" "a \<in> set (downItems s) \<Longrightarrow> \<not> isAlwaysOnTop items a s"
    using c by (auto simp: tile_core_def isAlwaysOnTop_def)
  consider "ground s = Some a" "a \<notin> set (topItems s)" "a \<notin> set (downItems s)"
    | "ground s \<noteq> Some a" "a \<in> set (topItems s)" "a \<notin> set (downItems s)"
    | "ground s \<noteq> Some a" "a \<notin> set (topItems s)" "a \<in> set (downItems s)"
    using a d by (auto simp: held_iff stack_distinct)
  then show ?thesis
  proof cases
    case 1
    then show ?thesis using a by (simp add: remove_item_def index_held Let_def drop_item_def remove1_idem setParent_def put_obj_def)
  next
    case 2
    then have "isAlwaysOnTop items a s" using l by simp
    with 2 a show ?thesis
      by (simp add: remove_item_def index_held Let_def drop_item_def remove1_idem setParent_def put_obj_def)
  next
    case 3
    then have "\<not> isAlwaysOnTop items a s" using l by simp
    with 3 a p show ?thesis
      by (auto simp add: in_part_def remove_item_def index_held Let_def drop_item_def remove1_idem setParent_def put_obj_def)
  qed
qed

definition new_count :: "nat \<Rightarrow> u32 \<Rightarrow> Tile \<Rightarrow> u8" where
  "new_count a count s = word_of_int (max 0 (sint (ucast (i_count (item_at s a)) - count)))"

lemma remove_item_part:
  assumes c: "tile_core items keep s" and p: "in_part items a count s"
  shows "remove_item items a count s = onUpdateTileItem items (tile_getIndexOfThing (ItemThing a) s) a a
    (put_obj a (\<lambda>ob. ob\<lparr>t_item := setItemCount (new_count a count s) (t_item ob)\<rparr>) s)"
proof -
  have d: "distinct (stack s)" using c by (simp add: tile_core_def)
  have a: "a \<in> set (downItems s)" "a \<in> held s" using p by (auto simp: in_part_def held_iff)
  have "ground s \<noteq> Some a" "\<not> isAlwaysOnTop items a s"
    using a d c by (auto simp: stack_distinct isAlwaysOnTop_def tile_core_def)
  then show ?thesis using a p
    by (simp add: in_part_def remove_item_def index_held Let_def new_count_def)
qed

lemma has_prop_count [simp]: "has_prop items p (setItemCount n i) = has_prop items p i"
proof -
  have "hasProperty items p (setItemCount n i) = hasProperty items p i"
    by (cases p) (simp_all add: setItemCount_def item_type_def attrs_def ItemAttributes.truncate_def)
  then show ?thesis by (simp add: has_prop_def)
qed

text \<open>Changing one object in place, when it keeps its place.\<close>

definition same_kind :: "ItemType \<Rightarrow> ItemType \<Rightarrow> bool" where
  "same_kind it it' \<longleftrightarrow> isGroundTile it = isGroundTile it' \<and> it_alwaysOnTopOrder it = it_alwaysOnTopOrder it'"

lemma put_obj_core:
  assumes c: "tile_core items keep s"
    and f: "a \<in> held s \<Longrightarrow> t_parent (f (objs s a)) = t_parent (objs s a) \<and> t_class (f (objs s a)) = t_class (objs s a) \<and>
      field_ok items (f (objs s a)) \<and>
      it_alwaysOnTop (item_type items (t_item (f (objs s a)))) = it_alwaysOnTop (type_at items s a) \<and>
      (keep \<longrightarrow> same_kind (item_type items (t_item (f (objs s a)))) (type_at items s a))"
  shows "tile_core items keep (put_obj a f s)" "held (put_obj a f s) = held s"
proof -
  have st: "stack (put_obj a f s) = stack s" by (simp add: stack_def put_obj_def)
  then show h: "held (put_obj a f s) = held s" by (simp add: held_def)
  have same: "this (put_obj a f s) = this s" "creatures (put_obj a f s) = creatures s" "crts (put_obj a f s) = crts s"
    "topItems (put_obj a f s) = topItems s" "downItems (put_obj a f s) = downItems s" "ground (put_obj a f s) = ground s"
    "thingCount (put_obj a f s) = thingCount s" by (simp_all add: put_obj_def)
  have o: "objs (put_obj a f s) b = (if b = a then f (objs s a) else objs s b)" for b by (simp add: put_obj_def)
  have top: "it_alwaysOnTop (type_at items (put_obj a f s) b) = it_alwaysOnTop (type_at items s b)"
    "class_at (put_obj a f s) b = class_at s b" if "b \<in> held s" for b
    using f that by (auto simp: type_at_def item_at_def class_at_def put_obj_def)
  have kind: "isGroundTile (type_at items (put_obj a f s) b) = isGroundTile (type_at items s b)"
    "it_alwaysOnTopOrder (type_at items (put_obj a f s) b) = it_alwaysOnTopOrder (type_at items s b)" if "keep" "b \<in> held s" for b
    using f that by (auto simp: same_kind_def type_at_def item_at_def put_obj_def)
  have "kinds_right items (put_obj a f s)" if k: "keep"
    by (rule kinds_right_same [of items s]) (use c k kind [OF k] in \<open>simp_all add: tile_core_def same\<close>)
  then show "tile_core items keep (put_obj a f s)"
    using c f top unfolding tile_core_def counted_def st h same o
    by (auto simp: held_iff)
qed

lemma remove_item_ok:
  assumes ok: "tile_ok items keep s"
  shows "tile_ok items keep (remove_item items a count s)"
proof -
  have c: "tile_core items keep s" and fl: "flags_for items (held s) s" using ok by (simp_all add: tile_ok_def)
  have d: "distinct (stack s)" using c by (simp add: tile_core_def)
  consider "a \<notin> held s" | "a \<in> held s" "in_part items a count s" | "a \<in> held s" "\<not> in_part items a count s" by blast
  then show ?thesis
  proof cases
    case 1
    then show ?thesis using ok by (simp add: remove_item_free)
  next
    case 2
    let ?f = "\<lambda>ob. ob\<lparr>t_item := setItemCount (new_count a count s) (t_item ob)\<rparr>"
    let ?s = "put_obj a ?f s"
    have "t_parent (?f (objs s a)) = t_parent (objs s a) \<and> t_class (?f (objs s a)) = t_class (objs s a) \<and>
      field_ok items (?f (objs s a)) \<and>
      it_alwaysOnTop (item_type items (t_item (?f (objs s a)))) = it_alwaysOnTop (type_at items s a) \<and>
      (keep \<longrightarrow> same_kind (item_type items (t_item (?f (objs s a)))) (type_at items s a))"
      using c 2(1) by (auto simp: tile_core_def field_ok_def setItemCount_def item_type_def type_at_def item_at_def isStackable_def same_kind_def)
    note core = put_obj_core [where f = "?f" and a = a, OF c this]
    have cls: "class_at ?s = class_at s" by (simp add: class_at_def put_obj_def fun_eq_iff)
    have mf: "m_flags ?s = m_flags s" by (simp add: put_obj_def)
    have props: "has_prop items p (item_at ?s b) = has_prop items p (item_at s b)" for p b
      by (simp add: item_at_def put_obj_def)
    have "flags_for items (held s) ?s"
      using fl unfolding flags_for_def cls props mf .
    then have "flags_for items (held s - {a}) (updateTileFlags items a True ?s)"
      using core(2) by (intro flags_removed) auto
    then have "flags_for items (insert a (held s - {a})) (updateTileFlags items a False (updateTileFlags items a True ?s))"
      by (rule flags_added)
    moreover have "insert a (held s - {a}) = held s" using 2(1) by blast
    ultimately show ?thesis using core
      by (simp add: tile_ok_def remove_item_part [OF c 2(2)] onUpdateTileItem_def Let_def)
  next
    case 3
    let ?s = "drop_item a (setParent None a s)"
    have sp: "stack (setParent None a s) = stack s" by (simp add: stack_def setParent_def put_obj_def)
    have h: "held ?s = held s - {a}" using drop_held [of "setParent None a s" a] d sp by (simp add: held_def)
    have "item_at ?s b = item_at s b \<and> class_at ?s b = class_at s b" for b
      by (simp add: item_at_def class_at_def drop_item_def setParent_def put_obj_def)
    then have "flags_for items (held s) ?s"
      using fl flags_for_cong [of ?s s "held s" items] by (simp add: drop_item_def setParent_def put_obj_def)
    then have "flags_for items (held s - {a}) (updateTileFlags items a True ?s)"
      using h by (intro flags_removed) auto
    then show ?thesis using drop_core [OF c 3(1)] h
      by (simp add: tile_ok_def remove_item_whole [OF c 3] onRemoveTileItem_def)
  qed
qed

lemma remove_item_frame:
  assumes c: "tile_core items keep s"
  shows "this (remove_item items a count s) = this s" "creatures (remove_item items a count s) = creatures s"
    "crts (remove_item items a count s) = crts s" "b \<noteq> a \<Longrightarrow> objs (remove_item items a count s) b = objs s b"
    "held (remove_item items a count s) = (if in_part items a count s then held s else held s - {a})"
    "length (stack (remove_item items a count s)) \<le> length (stack s)"
proof -
  have d: "distinct (stack s)" using c by (simp add: tile_core_def)
  have sp: "stack (setParent None a s) = stack s" by (simp add: stack_def setParent_def put_obj_def)
  consider "a \<notin> held s" | "a \<in> held s" "in_part items a count s" | "a \<in> held s" "\<not> in_part items a count s" by blast
  then have "this (remove_item items a count s) = this s \<and> creatures (remove_item items a count s) = creatures s \<and>
    crts (remove_item items a count s) = crts s \<and> (b \<noteq> a \<longrightarrow> objs (remove_item items a count s) b = objs s b) \<and>
    held (remove_item items a count s) = (if in_part items a count s then held s else held s - {a}) \<and>
    length (stack (remove_item items a count s)) \<le> length (stack s)"
  proof cases
    case 1
    then show ?thesis by (auto simp: remove_item_free in_part_def held_iff)
  next
    case 2
    then show ?thesis using 2
      by (simp add: remove_item_part [OF c 2(2)] onUpdateTileItem_def Let_def put_obj_def emit_def held_def stack_def)
  next
    case 3
    have "held (drop_item a (setParent None a s)) = held s - {a}"
      using drop_held [of "setParent None a s" a] d sp by (simp add: held_def)
    moreover have "length (stack (drop_item a (setParent None a s))) \<le> length (stack s)"
      using drop_length [of "setParent None a s" a] d sp 3(1) by (simp add: held_def)
    ultimately show ?thesis using 3(2)
      by (simp add: remove_item_whole [OF c 3] onRemoveTileItem_def held_def stack_def)
        (simp add: emit_def drop_item_def setParent_def put_obj_def)
  qed
  then show "this (remove_item items a count s) = this s" "creatures (remove_item items a count s) = creatures s"
    "crts (remove_item items a count s) = crts s" "b \<noteq> a \<Longrightarrow> objs (remove_item items a count s) b = objs s b"
    "held (remove_item items a count s) = (if in_part items a count s then held s else held s - {a})"
    "length (stack (remove_item items a count s)) \<le> length (stack s)" by blast+
qed

lemma set_insert_before [simp]: "set (insert_before p x xs) = insert x (set xs)"
  by (induction xs) auto

lemma length_insert_before [simp]: "length (insert_before p x xs) = Suc (length xs)"
  by (induction xs) auto

lemma distinct_insert_before [simp]: "distinct (insert_before p x xs) \<longleftrightarrow> x \<notin> set xs \<and> distinct xs"
  by (induction xs) auto

lemma sorted_insert_before:
  "sorted (map f xs) \<Longrightarrow> (\<And>b. p b \<Longrightarrow> f x \<le> f b) \<Longrightarrow> (\<And>b. \<not> p b \<Longrightarrow> f b \<le> f x) \<Longrightarrow> sorted (map f (insert_before p x xs))"
  by (induction xs) (auto intro: order_trans)

definition may_hold :: "Items \<Rightarrow> nat \<Rightarrow> Tile \<Rightarrow> bool" where
  "may_hold items a s \<longleftrightarrow> t_parent (objs s a) = Some (OnTile (this s)) \<and> field_ok items (objs s a)"

lemma tile_coreD:
  assumes "tile_core items keep s"
  shows "counted s" "distinct (stack s)" "\<And>a. a \<in> held s \<Longrightarrow> may_hold items a s"
    "\<And>c. c \<in> set (creatures s) \<Longrightarrow> c_tile (crts s c) = Some (this s)"
    "\<And>a. a \<in> set (topItems s) \<Longrightarrow> it_alwaysOnTop (type_at items s a)"
    "\<And>a. a \<in> set (downItems s) \<Longrightarrow> \<not> it_alwaysOnTop (type_at items s a)"
    "\<And>a. a \<in> held s \<Longrightarrow> class_at s a = IC_MagicField \<Longrightarrow> a \<in> set (downItems s)"
    "keep \<Longrightarrow> kinds_right items s"
  using assms unfolding tile_core_def may_hold_def by blast+

lemma tile_coreI:
  assumes "counted s" "distinct (stack s)" "\<And>a. a \<in> held s \<Longrightarrow> may_hold items a s"
    "\<And>c. c \<in> set (creatures s) \<Longrightarrow> c_tile (crts s c) = Some (this s)"
    "\<And>a. a \<in> set (topItems s) \<Longrightarrow> it_alwaysOnTop (type_at items s a)"
    "\<And>a. a \<in> set (downItems s) \<Longrightarrow> \<not> it_alwaysOnTop (type_at items s a)"
    "\<And>a. a \<in> held s \<Longrightarrow> class_at s a = IC_MagicField \<Longrightarrow> a \<in> set (downItems s)"
    "keep \<Longrightarrow> kinds_right items s"
  shows "tile_core items keep s"
  using assms unfolding tile_core_def may_hold_def by blast

lemma counted_push:
  "counted s \<Longrightarrow> length (stack s) + 1 < 2 ^ 31 \<Longrightarrow> length (stack t) = Suc (length (stack s)) \<Longrightarrow>
   thingCount t = thingCount s + 1 \<Longrightarrow> counted t"
  by (simp add: counted_def)

lemma push_ground:
  assumes c: "tile_core items keep s" and a: "a \<notin> held s" "may_hold items a s" "length (stack s) + 1 < 2 ^ 31"
    and l: "layer (type_at items s a) = 0" "ground s = None"
  defines "t \<equiv> s\<lparr>ground := Some a, thingCount := thingCount s + 1\<rparr>"
  shows "tile_core items keep t" "held t = insert a (held s)"
proof -
  show h: "held t = insert a (held s)" using l by (auto simp: held_iff t_def)
  have ty: "type_at items t = type_at items s" by (simp add: t_def type_at_def item_at_def fun_eq_iff)
  have cl: "class_at t = class_at s" by (simp add: t_def class_at_def fun_eq_iff)
  have mh: "may_hold items b t = may_hold items b s" for b by (simp add: t_def may_hold_def)
  have nf: "class_at s a \<noteq> IC_MagicField"
    using a(2) l by (auto simp: may_hold_def field_ok_def class_at_def type_at_def item_at_def)
  note D = tile_coreD [OF c]
  show "tile_core items keep t"
  proof (rule tile_coreI)
    show "counted t" by (rule counted_push [OF D(1) a(3)]) (use l in \<open>simp_all add: t_def stack_length\<close>)
    show "distinct (stack t)" using a(1) D(2) l by (auto simp: t_def stack_distinct held_iff)
    show "may_hold items b t" if "b \<in> held t" for b using that a(2) D(3) unfolding h mh by blast
    show "c_tile (crts t b) = Some (this t)" if "b \<in> set (creatures t)" for b using that D(4) by (simp add: t_def)
    show "it_alwaysOnTop (type_at items t b)" if "b \<in> set (topItems t)" for b unfolding ty using that l D(5) by (auto simp: t_def layer_simps)
    show "\<not> it_alwaysOnTop (type_at items t b)" if "b \<in> set (downItems t)" for b unfolding ty using that l D(6) by (auto simp: t_def layer_simps)
    show "b \<in> set (downItems t)" if "b \<in> held t" "class_at t b = IC_MagicField" for b
      using that D(7) nf unfolding h cl by (auto simp: t_def)
    show "kinds_right items t" if keep
      using D(8) [OF that] l unfolding kinds_right_def ty by (auto simp: t_def layer_simps)
  qed
qed

lemma push_top:
  assumes c: "tile_core items keep s" and a: "a \<notin> held s" "may_hold items a s" "length (stack s) + 1 < 2 ^ 31"
    and l: "layer (type_at items s a) = 1"
    and p: "\<And>b. p b \<Longrightarrow> it_alwaysOnTopOrder (type_at items s a) \<le> it_alwaysOnTopOrder (type_at items s b)"
      "\<And>b. \<not> p b \<Longrightarrow> it_alwaysOnTopOrder (type_at items s b) \<le> it_alwaysOnTopOrder (type_at items s a)"
  defines "t \<equiv> s\<lparr>topItems := insert_before p a (topItems s), thingCount := thingCount s + 1\<rparr>"
  shows "tile_core items keep t" "held t = insert a (held s)"
proof -
  show h: "held t = insert a (held s)" by (auto simp: held_iff t_def)
  have ty: "type_at items t = type_at items s" by (simp add: t_def type_at_def item_at_def fun_eq_iff)
  have cl: "class_at t = class_at s" by (simp add: t_def class_at_def fun_eq_iff)
  have mh: "may_hold items b t = may_hold items b s" for b by (simp add: t_def may_hold_def)
  have nf: "class_at s a \<noteq> IC_MagicField"
    using a(2) l by (auto simp: may_hold_def field_ok_def class_at_def type_at_def item_at_def)
  note D = tile_coreD [OF c]
  show "tile_core items keep t"
  proof (rule tile_coreI)
    show "counted t" by (rule counted_push [OF D(1) a(3)]) (use l in \<open>simp_all add: t_def stack_length\<close>)
    show "distinct (stack t)" using a(1) D(2) l by (auto simp: t_def stack_distinct held_iff)
    show "may_hold items b t" if "b \<in> held t" for b using that a(2) D(3) unfolding h mh by blast
    show "c_tile (crts t b) = Some (this t)" if "b \<in> set (creatures t)" for b using that D(4) by (simp add: t_def)
    show "it_alwaysOnTop (type_at items t b)" if "b \<in> set (topItems t)" for b unfolding ty using that l D(5) by (auto simp: t_def layer_simps)
    show "\<not> it_alwaysOnTop (type_at items t b)" if "b \<in> set (downItems t)" for b unfolding ty using that l D(6) by (auto simp: t_def layer_simps)
    show "b \<in> set (downItems t)" if "b \<in> held t" "class_at t b = IC_MagicField" for b
      using that D(7) nf unfolding h cl by (auto simp: t_def)
    show "kinds_right items t" if keep
      using D(8) [OF that] l p unfolding kinds_right_def ty by (auto simp: t_def layer_simps sorted_insert_before)
  qed
qed

lemma push_down:
  assumes c: "tile_core items keep s" and a: "a \<notin> held s" "may_hold items a s" "length (stack s) + 1 < 2 ^ 31"
    and l: "layer (type_at items s a) = 2"
  defines "t \<equiv> s\<lparr>downItems := a # downItems s, thingCount := thingCount s + 1\<rparr>"
  shows "tile_core items keep t" "held t = insert a (held s)"
proof -
  show h: "held t = insert a (held s)" by (auto simp: held_iff t_def)
  have ty: "type_at items t = type_at items s" by (simp add: t_def type_at_def item_at_def fun_eq_iff)
  have cl: "class_at t = class_at s" by (simp add: t_def class_at_def fun_eq_iff)
  have mh: "may_hold items b t = may_hold items b s" for b by (simp add: t_def may_hold_def)
  note D = tile_coreD [OF c]
  show "tile_core items keep t"
  proof (rule tile_coreI)
    show "counted t" by (rule counted_push [OF D(1) a(3)]) (use l in \<open>simp_all add: t_def stack_length\<close>)
    show "distinct (stack t)" using a(1) D(2) l by (auto simp: t_def stack_distinct held_iff)
    show "may_hold items b t" if "b \<in> held t" for b using that a(2) D(3) unfolding h mh by blast
    show "c_tile (crts t b) = Some (this t)" if "b \<in> set (creatures t)" for b using that D(4) by (simp add: t_def)
    show "it_alwaysOnTop (type_at items t b)" if "b \<in> set (topItems t)" for b unfolding ty using that l D(5) by (auto simp: t_def layer_simps)
    show "\<not> it_alwaysOnTop (type_at items t b)" if "b \<in> set (downItems t)" for b unfolding ty using that l D(6) by (auto simp: t_def layer_simps)
    show "b \<in> set (downItems t)" if "b \<in> held t" "class_at t b = IC_MagicField" for b
      using that D(7)  unfolding h cl by (auto simp: t_def)
    show "kinds_right items t" if keep
      using D(8) [OF that] l unfolding kinds_right_def ty by (auto simp: t_def layer_simps)
  qed
qed

text \<open>A well-formed tile with one more item, and its flags brought up to date.\<close>

lemma pushed_ok:
  assumes "tile_core items keep t" "held t = insert a (held s)" "flags_for items (held s) s"
    "m_flags t = m_flags s" "objs t = objs s"
  shows "tile_ok items keep (updateTileFlags items a False t)"
proof -
  have "flags_for items (held s) t"
    using assms(3) flags_for_cong [of t s "held s" items] assms(4,5) by (simp add: item_at_def class_at_def)
  from flags_added [OF this, of a] show ?thesis using assms(1,2) by (simp add: tile_ok_def)
qed

lemma setParent_outside:
  assumes "tile_ok items keep s" "a \<notin> held s"
  shows "tile_ok items keep (setParent p a s)" "held (setParent p a s) = held s"
proof -
  have c: "tile_core items keep s" "flags_for items (held s) s" using assms(1) by (simp_all add: tile_ok_def)
  have n: "a \<in> held s \<Longrightarrow> P" for P using assms(2) by simp
  show h: "held (setParent p a s) = held s" by (simp add: held_def stack_def setParent_def put_obj_def)
  have "flags_for items (held s) (setParent p a s)"
    using c(2) flags_for_cong [of "setParent p a s" s "held s" items]
    by (simp add: item_at_def class_at_def setParent_def put_obj_def)
  then show "tile_ok items keep (setParent p a s)"
    using put_obj_core(1) [OF c(1) n, of a "\<lambda>ob. ob\<lparr>t_parent := p\<rparr>"] h by (simp add: tile_ok_def setParent_def)
qed

lemma tile_okD: "tile_ok items keep s \<Longrightarrow> tile_core items keep s" "tile_ok items keep s \<Longrightarrow> flags_for items (held s) s"
  by (simp_all add: tile_ok_def)

lemma emit_ok [simp]: "tile_ok items keep (emit e s) = tile_ok items keep s"
  by (simp add: tile_ok_def)

lemma release_frame [simp]:
  "held (release a s) = held s" "stack (release a s) = stack s" "ground (release a s) = ground s" "topItems (release a s) = topItems s"
  "creatures (release a s) = creatures s" "downItems (release a s) = downItems s" "this (release a s) = this s" "m_flags (release a s) = m_flags s"
  "thingCount (release a s) = thingCount s" "crts (release a s) = crts s"
  "item_at (release a s) b = item_at s b" "class_at (release a s) b = class_at s b" "type_at items (release a s) b = type_at items s b"
  "b \<noteq> a \<Longrightarrow> objs (release a s) b = objs s b"
  by (simp_all add: release_def emit_def setParent_def put_obj_def held_def stack_def item_at_def class_at_def type_at_def)

lemma release_ok: "tile_ok items keep s \<Longrightarrow> a \<notin> held s \<Longrightarrow> tile_ok items keep (release a s)"
  unfolding release_def using setParent_outside by simp

lemma emit_frame [simp]:
  "ground (emit e s) = ground s" "topItems (emit e s) = topItems s" "creatures (emit e s) = creatures s"
  "downItems (emit e s) = downItems s" "this (emit e s) = this s" "objs (emit e s) = objs s" "crts (emit e s) = crts s"
  "m_flags (emit e s) = m_flags s" "thingCount (emit e s) = thingCount s" "stack (emit e s) = stack s"
  "item_at (emit e s) a = item_at s a" "class_at (emit e s) a = class_at s a" "type_at items (emit e s) a = type_at items s a"
  by (simp_all add: emit_def stack_def item_at_def class_at_def type_at_def)

lemma add_ground_ok:
  assumes ok: "tile_ok items keep s" and a: "a \<notin> held s" "may_hold items a s" "length (stack s) + 1 < 2 ^ 31"
    and l: "layer (type_at items s a) = 0"
  shows "tile_ok items keep (add_ground items a s)"
proof (cases "ground s")
  case None
  define t where "t = s\<lparr>ground := Some a, thingCount := thingCount s + 1\<rparr>"
  have "tile_core items keep t" "held t = insert a (held s)"
    unfolding t_def using push_ground [OF tile_okD(1) [OF ok] a l None] by auto
  then have "tile_ok items keep (updateTileFlags items a False t)"
    by (rule pushed_ok) (use tile_okD(2) [OF ok] in \<open>simp_all add: t_def\<close>)
  then show ?thesis by (simp add: add_ground_def None onAddTileItem_def t_def [symmetric])
next
  case (Some g)
  define t where "t = (release g s)\<lparr>ground := Some a\<rparr>"
  note D = tile_coreD [OF tile_okD(1) [OF ok]]
  have g: "g \<in> held s" "g \<noteq> a" using Some a(1) by (auto simp: held_iff)
  have gt: "g \<notin> set (topItems s)" "g \<notin> set (downItems s)" using D(2) Some by (auto simp: stack_distinct)
  have h: "held t = insert a (held s - {g})" using Some gt by (auto simp: t_def held_iff)
  have o: "objs t b = objs s b" if "b \<noteq> g" for b using that by (simp add: t_def)
  have it: "item_at t b = item_at s b" "class_at t b = class_at s b" "type_at items t b = type_at items s b" for b
    by (simp_all add: t_def item_at_def class_at_def type_at_def release_def emit_def setParent_def put_obj_def)
  have mh: "may_hold items b t = may_hold items b s" if "b \<noteq> g" for b using that o by (simp add: may_hold_def t_def)
  have "tile_core items keep t"
  proof (rule tile_coreI)
    have "length (stack t) = length (stack s)" "thingCount t = thingCount s" using Some by (simp_all add: t_def stack_length)
    then show "counted t" using D(1) by (simp add: counted_def)
    show "distinct (stack t)" using a(1) D(2) by (auto simp: t_def stack_distinct held_iff)
    show "may_hold items b t" if "b \<in> held t" for b using that a(2) D(3) h mh g by auto
    show "c_tile (crts t b) = Some (this t)" if "b \<in> set (creatures t)" for b using that D(4) by (simp add: t_def)
    show "it_alwaysOnTop (type_at items t b)" if "b \<in> set (topItems t)" for b using that D(5) it by (simp add: t_def)
    show "\<not> it_alwaysOnTop (type_at items t b)" if "b \<in> set (downItems t)" for b using that D(6) it by (simp add: t_def)
    have "class_at s a \<noteq> IC_MagicField"
      using a(2) l by (auto simp: may_hold_def field_ok_def class_at_def type_at_def item_at_def)
    then show "b \<in> set (downItems t)" if "b \<in> held t" "class_at t b = IC_MagicField" for b
      using that(2) D(7) that(1) [unfolded h] it by (auto simp: t_def)
    show "kinds_right items t" if keep using D(8) [OF that] l it by (simp add: kinds_right_def t_def layer_simps)
  qed
  moreover have "flags_for items (held s) t"
    using tile_okD(2) [OF ok] flags_for_cong [of t s "held s" items] it by (simp add: t_def)
  then have "flags_for items (insert a (held s - {g})) (updateTileFlags items a False (updateTileFlags items g True t))"
    using g h a(1) by (intro flags_replaced) auto
  ultimately show ?thesis using h
    by (simp add: add_ground_def Some tile_ok_def onUpdateTileItem_def Let_def t_def [symmetric])
qed

lemma add_top_ok:
  assumes ok: "tile_ok items keep s" and a: "a \<notin> held s" "may_hold items a s" "length (stack s) + 1 < 2 ^ 31"
    and l: "layer (type_at items s a) = 1"
  shows "tile_ok items keep (add_top items a s)"
proof -
  define u where "u = (if isSplash (type_at items s a)
     then (case find (\<lambda>b. isSplash (type_at items s b)) (topItems s) of
             Some oldSplash \<Rightarrow> release oldSplash (remove_item items oldSplash 1 s) | None \<Rightarrow> s) else s)"
  note D = tile_coreD [OF tile_okD(1) [OF ok]]
  have "tile_ok items keep u \<and> held u \<subseteq> held s \<and> length (stack u) \<le> length (stack s) \<and> this u = this s \<and> objs u a = objs s a"
  proof (cases "isSplash (type_at items s a) \<and> find (\<lambda>b. isSplash (type_at items s b)) (topItems s) \<noteq> None")
    case True
    then obtain b where f: "find (\<lambda>b. isSplash (type_at items s b)) (topItems s) = Some b" by auto
    then have b: "b \<in> set (topItems s)" using find_member by fastforce
    then have "b \<noteq> a" "b \<notin> set (downItems s)" using a(1) D(2) by (auto simp: held_iff stack_distinct)
    then have np: "\<not> in_part items b 1 s" by (simp add: in_part_def)
    note R = remove_item_frame [OF tile_okD(1) [OF ok], where a = b and count = 1]
    have "tile_ok items keep (release b (remove_item items b 1 s))"
      using remove_item_ok [OF ok] R(5) np by (intro release_ok) auto
    then show ?thesis using True f R np \<open>b \<noteq> a\<close> by (auto simp: u_def)
  next
    case False
    then have "u = s" by (auto simp: u_def split: option.splits)
    then show ?thesis using ok by simp
  qed
  then have u: "tile_ok items keep u" "held u \<subseteq> held s" "length (stack u) \<le> length (stack s)" "this u = this s" "objs u a = objs s a" by auto
  define t where "t = u\<lparr>topItems := insert_before
     (\<lambda>b. it_alwaysOnTopOrder (type_at items u a) \<le> it_alwaysOnTopOrder (type_at items u b)) a (topItems u), thingCount := thingCount u + 1\<rparr>"
  have "tile_core items keep t" "held t = insert a (held u)"
    unfolding t_def using push_top [OF tile_okD(1) [OF u(1)], of a
        "\<lambda>b. it_alwaysOnTopOrder (type_at items u a) \<le> it_alwaysOnTopOrder (type_at items u b)"] u a l
    by (auto simp: may_hold_def type_at_def item_at_def)
  then have "tile_ok items keep (updateTileFlags items a False t)"
    by (rule pushed_ok) (use tile_okD(2) [OF u(1)] in \<open>simp_all add: t_def\<close>)
  then show ?thesis
    unfolding add_top_def u_def [symmetric] Let_def t_def [symmetric] by (simp add: onAddTileItem_def)
qed

lemma add_down_ok:
  assumes ok: "tile_ok items keep s" and a: "a \<notin> held s" "may_hold items a s" "length (stack s) + 1 < 2 ^ 31"
    and l: "layer (type_at items s a) = 2"
  shows "tile_ok items keep (add_down items a s)"
proof -
  have step: "tile_ok items keep (onAddTileItem items a (u\<lparr>downItems := a # downItems u, thingCount := thingCount u + 1\<rparr>))"
    if u: "tile_ok items keep u" "held u \<subseteq> held s" "length (stack u) \<le> length (stack s)" "this u = this s" "objs u a = objs s a" for u
  proof -
    define t where "t = u\<lparr>downItems := a # downItems u, thingCount := thingCount u + 1\<rparr>"
    have "tile_core items keep t" "held t = insert a (held u)"
      unfolding t_def using push_down [OF tile_okD(1) [OF u(1)], of a] u a l
      by (auto simp: may_hold_def type_at_def item_at_def)
    then have "tile_ok items keep (updateTileFlags items a False t)"
      by (rule pushed_ok) (use tile_okD(2) [OF u(1)] in \<open>simp_all add: t_def\<close>)
    then show ?thesis by (simp add: onAddTileItem_def t_def)
  qed
  note D = tile_coreD [OF tile_okD(1) [OF ok]]
  show ?thesis
  proof (cases "isMagicField (type_at items s a) \<and> find (\<lambda>b. class_at s b = IC_MagicField) (downItems s) \<noteq> None")
    case True
    then obtain b where f: "find (\<lambda>b. class_at s b = IC_MagicField) (downItems s) = Some b" by auto
    then have b: "b \<in> set (downItems s)" "class_at s b = IC_MagicField" using find_member by fastforce+
    then have ba: "b \<noteq> a" "b \<in> held s" using a(1) by (auto simp: held_iff)
    then have "\<not> isStackable items (item_at s b)" using D(3) b(2) by (auto simp: may_hold_def field_ok_def class_at_def item_at_def)
    then have np: "\<not> in_part items b 1 s" by (simp add: in_part_def)
    note R = remove_item_frame [OF tile_okD(1) [OF ok], where a = b and count = 1]
    have "tile_ok items keep (release b (remove_item items b 1 s))"
      using remove_item_ok [OF ok] R(5) np by (intro release_ok) auto
    then have "tile_ok items keep (onAddTileItem items a ((release b (remove_item items b 1 s))\<lparr>downItems := a # downItems (release b (remove_item items b 1 s)),
        thingCount := thingCount (release b (remove_item items b 1 s)) + 1\<rparr>))"
      using R np ba by (intro step) auto
    moreover have "tile_ok items keep (release a s)" using ok a(1) by (rule release_ok)
    ultimately show ?thesis using True f by (simp add: add_down_def)
  next
    case False
    then have "add_down items a s = onAddTileItem items a (s\<lparr>downItems := a # downItems s, thingCount := thingCount s + 1\<rparr>)"
      by (auto simp: add_down_def split: option.splits)
    then show ?thesis using step [OF ok] by simp
  qed
qed

text \<open>The place of an item is taken from its type, so any item that may lie there can be added.\<close>

lemma setParent_may_hold:
  assumes "field_ok items (objs s a)"
  shows "may_hold items a (setParent (Some (OnTile (this s))) a s)"
  using assms by (simp add: may_hold_def setParent_def put_obj_def field_ok_def)

lemma setParent_frame [simp]:
  "stack (setParent p a s) = stack s" "held (setParent p a s) = held s" "this (setParent p a s) = this s"
  "ground (setParent p a s) = ground s" "topItems (setParent p a s) = topItems s" "creatures (setParent p a s) = creatures s"
  "downItems (setParent p a s) = downItems s" "thingCount (setParent p a s) = thingCount s" "crts (setParent p a s) = crts s"
  "m_flags (setParent p a s) = m_flags s" "item_at (setParent p a s) b = item_at s b" "class_at (setParent p a s) b = class_at s b"
  "type_at items (setParent p a s) b = type_at items s b"
  by (simp_all add: setParent_def put_obj_def stack_def held_def item_at_def class_at_def type_at_def)

lemma addThing_item_ok:
  assumes ok: "tile_ok items keep s" and a: "a \<notin> held s" "field_ok items (objs s a)" "length (stack s) + 1 < 2 ^ 31"
  shows "tile_ok items keep (tile_addThing items (ItemThing a) s)"
proof -
  let ?s = "setParent (Some (OnTile (this s))) a s"
  have s: "tile_ok items keep ?s" "a \<notin> held ?s" "may_hold items a ?s" "length (stack ?s) + 1 < 2 ^ 31"
    using setParent_outside [OF ok a(1)] setParent_may_hold [OF a(2)] a by simp_all
  show ?thesis
    using add_ground_ok [OF s] add_top_ok [OF s] add_down_ok [OF s]
    by (simp add: tile_addThing_def isAlwaysOnTop_def layer_def Let_def)
qed

lemma internalAddThing_item_ok:
  assumes ok: "tile_ok items keep s" and a: "a \<notin> held s" "field_ok items (objs s a)" "length (stack s) + 1 < 2 ^ 31"
    and g: "isGroundTile (type_at items s a) \<Longrightarrow> ground s = None"
  shows "tile_ok items keep (tile_internalAddThing items (ItemThing a) s)"
proof -
  let ?s = "setParent (Some (OnTile (this s))) a s"
  have s: "tile_ok items keep ?s" "a \<notin> held ?s" "may_hold items a ?s" "length (stack ?s) + 1 < 2 ^ 31"
    using setParent_outside [OF ok a(1)] setParent_may_hold [OF a(2)] a by simp_all
  have push: "tile_ok items keep (updateTileFlags items a False t)"
    if "tile_core items keep t" "held t = insert a (held ?s)" "m_flags t = m_flags ?s" "objs t = objs ?s" for t
    using that(1,2) tile_okD(2) [OF s(1)] that(3,4) by (rule pushed_ok)
  consider "layer (type_at items s a) = 0" | "layer (type_at items s a) = 1" | "layer (type_at items s a) = 2"
    by (cases "isGroundTile (type_at items s a)"; cases "it_alwaysOnTop (type_at items s a)") (simp_all add: layer_def)
  then show ?thesis
  proof cases
    case 1
    then have "ground ?s = None" using g by (simp add: layer_simps)
    with 1 push push_ground [OF tile_okD(1) [OF s(1)] s(2-4)] show ?thesis
      by (simp add: tile_internalAddThing_def Let_def layer_simps)
  next
    case 2
    with push push_top [OF tile_okD(1) [OF s(1)] s(2-4), of "\<lambda>b. it_alwaysOnTopOrder (type_at items ?s b) > it_alwaysOnTopOrder (type_at items ?s a)"]
    show ?thesis by (simp add: tile_internalAddThing_def Let_def layer_simps isAlwaysOnTop_def)
  next
    case 3
    with push push_down [OF tile_okD(1) [OF s(1)] s(2-4)] show ?thesis
      by (simp add: tile_internalAddThing_def Let_def layer_simps isAlwaysOnTop_def)
  qed
qed

text \<open>Creatures come and go without touching the items.\<close>

lemma creatures_ok:
  assumes ok: "tile_ok items keep s" and t: "ground t = ground s" "topItems t = topItems s" "downItems t = downItems s"
    "objs t = objs s" "m_flags t = m_flags s" "this t = this s"
    and c: "distinct (creatures t)" "counted t" "\<And>c. c \<in> set (creatures t) \<Longrightarrow> c_tile (crts t c) = Some (this t)"
  shows "tile_ok items keep t"
proof -
  note D = tile_coreD [OF tile_okD(1) [OF ok]]
  have h: "held t = held s" using t by (auto simp: held_iff)
  have it: "type_at items t = type_at items s" "item_at t = item_at s" "class_at t = class_at s"
    using t by (simp_all add: type_at_def item_at_def class_at_def fun_eq_iff)
  have "tile_core items keep t"
  proof (rule tile_coreI)
    show "distinct (stack t)" using D(2) c(1) t by (simp add: stack_distinct)
    show "may_hold items b t" if "b \<in> held t" for b using that D(3) t h by (simp add: may_hold_def)
    show "a \<in> set (downItems t)" if "a \<in> held t" "class_at t a = IC_MagicField" for a
      using that D(7) unfolding h it t by blast
    show "kinds_right items t" if keep using D(8) [OF that] by (simp add: kinds_right_def it t)
  qed (use D c t it in auto)
  moreover have "flags_for items (held t) t"
    using tile_okD(2) [OF ok] flags_for_cong [of t s "held s" items] t it h by simp
  ultimately show ?thesis by (simp add: tile_ok_def)
qed

lemma addThing_creature_ok:
  assumes ok: "tile_ok items keep s" and c: "c \<notin> set (creatures s)" "length (stack s) + 1 < 2 ^ 31"
  shows "tile_ok items keep (tile_addThing items (CreatureThing c) s)" "tile_ok items keep (tile_internalAddThing items (CreatureThing c) s)"
proof -
  note D = tile_coreD [OF tile_okD(1) [OF ok]]
  have dc: "distinct (creatures s)" using D(2) by (simp add: stack_distinct)
  show "tile_ok items keep (tile_addThing items (CreatureThing c) s)"
  proof (rule creatures_ok [OF ok])
    show "counted (tile_addThing items (CreatureThing c) s)"
      by (rule counted_push [OF D(1) c(2)]) (simp_all add: tile_addThing_def put_on_tile_def Let_def stack_length)
  qed (use c dc D in \<open>auto simp: tile_addThing_def put_on_tile_def Let_def\<close>)
  show "tile_ok items keep (tile_internalAddThing items (CreatureThing c) s)"
  proof (rule creatures_ok [OF ok])
    show "counted (tile_internalAddThing items (CreatureThing c) s)"
      by (rule counted_push [OF D(1) c(2)]) (simp_all add: tile_internalAddThing_def put_on_tile_def Let_def stack_length)
  qed (use c dc D in \<open>auto simp: tile_internalAddThing_def put_on_tile_def Let_def\<close>)
qed

lemma counted_pop:
  "counted s \<Longrightarrow> length (stack s) = Suc (length (stack t)) \<Longrightarrow> thingCount t = thingCount s - 1 \<Longrightarrow> counted t"
  by (simp add: counted_def)

lemma removeThing_ok:
  assumes ok: "tile_ok items keep s"
  shows "tile_ok items keep (tile_removeThing items th count s)"
proof (cases th)
  case (ItemThing a)
  then show ?thesis using remove_item_ok [OF ok] by (simp add: tile_removeThing_def)
next
  case (CreatureThing c)
  note D = tile_coreD [OF tile_okD(1) [OF ok]]
  show ?thesis
  proof (cases "c \<in> set (creatures s)")
    case True
    let ?t = "(emit ClearSpectatorCache s)\<lparr>creatures := remove1 c (creatures s), thingCount := thingCount s - 1\<rparr>"
    have "length (stack s) = Suc (length (stack ?t))"
      using True length_pos_if_in_set [OF True] by (simp add: stack_length length_remove1)
    then have "counted ?t" by (rule counted_pop [OF D(1)]) simp
    moreover have "distinct (creatures s)" using D(2) by (simp add: stack_distinct)
    ultimately have "tile_ok items keep ?t"
      by (intro creatures_ok [OF ok]) (use D(4) in \<open>auto dest: set_remove1_sub\<close>)
    then show ?thesis using CreatureThing True by (simp add: tile_removeThing_def)
  qed (simp add: CreatureThing tile_removeThing_def ok)
qed

definition swap_item :: "nat \<Rightarrow> nat \<Rightarrow> Tile \<Rightarrow> Tile" where
  "swap_item b a s = s\<lparr>ground := (if ground s = Some b then Some a else ground s),
     topItems := map (\<lambda>x. if x = b then a else x) (topItems s), downItems := map (\<lambda>x. if x = b then a else x) (downItems s)\<rparr>"

lemma list_update_map: "distinct xs \<Longrightarrow> n < length xs \<Longrightarrow> xs[n := a] = map (\<lambda>x. if x = xs ! n then a else x) xs"
  by (rule nth_equalityI) (auto simp: nth_list_update nth_eq_iff_index_eq)

lemma map_no_change: "b \<notin> set xs \<Longrightarrow> map (\<lambda>x. if x = b then a else x) xs = xs"
  by (induction xs) auto

lemma swap_held: "b \<in> held s \<Longrightarrow> held (swap_item b a s) = insert a (held s - {b})"
  by (auto simp: held_iff swap_item_def split: if_splits)

lemma replaceThing_swap:
  assumes c: "tile_core items keep s" and i: "unat index < length (stack s)" "stack s ! unat index = ItemThing b"
  shows "tile_replaceThing items index (ItemThing a) s = Some (replaced items index b a (swap_item b a s))"
proof -
  have D: "counted s" "distinct (stack s)" using tile_coreD [OF c] by auto
  have small: "unat index < 2 ^ 31" using i(1) D(1) by (simp add: counted_def)
  have si: "sint index = int (unat index)"
  proof -
    have u: "uint index = int (unat index)" by simp
    have "int (unat index) < 2 ^ 31" using small by (metis of_nat_less_iff of_nat_numeral of_nat_power)
    then show ?thesis unfolding sint_u32 u by presburger
  qed
  define g where "g = (if ground s = None then 0 else 1 :: nat)"
  define n where "n = unat index"
  have zero: "sint index = 0 \<longleftrightarrow> n = 0" unfolding si n_def by (rule of_nat_eq_0_iff)
  have st: "stack s = (case ground s of None \<Rightarrow> [] | Some g \<Rightarrow> [ItemThing g]) @ map ItemThing (topItems s) @
     map CreatureThing (creatures s) @ map ItemThing (downItems s)" by (simp add: stack_def)
  have lg: "length (case ground s of None \<Rightarrow> [] | Some g \<Rightarrow> [ItemThing g]) = g" by (simp add: g_def split: option.splits)
  show ?thesis
  proof (cases "n < g")
    case True
    then have gr: "n = 0" "ground s = Some b" using i(2) unfolding st n_def [symmetric] by (auto simp: g_def split: if_splits option.splits)
    then have "b \<notin> set (topItems s)" "b \<notin> set (downItems s)" using D(2) by (auto simp: stack_distinct)
    then have "swap_item b a s = s\<lparr>ground := Some a\<rparr>" using gr by (simp add: swap_item_def map_no_change)
    then show ?thesis using gr zero by (simp add: tile_replaceThing_def)
  next
    case ng: False
    define m where "m = n - g"
    have pos: "(if ground s \<noteq> None then sint index - 1 else sint index) = int m"
      using ng by (auto simp: si m_def g_def n_def [symmetric] of_nat_diff)
    have no_ground: "(if sint index = 0 then ground s else None) = None" using ng zero by (auto simp: g_def split: if_splits)
    have at: "(map ItemThing (topItems s) @ map CreatureThing (creatures s) @ map ItemThing (downItems s)) ! m = ItemThing b"
      using i(2) ng unfolding st n_def [symmetric] by (simp add: nth_append lg m_def)
    show ?thesis
    proof (cases "m < length (topItems s)")
      case True
      then have b: "topItems s ! m = b" using at by (simp add: nth_append)
      then have "b \<in> set (topItems s)" using True by auto
      then have "b \<notin> set (downItems s)" "ground s \<noteq> Some b" "distinct (topItems s)" using D(2) by (auto simp: stack_distinct)
      then have "swap_item b a s = s\<lparr>topItems := (topItems s)[m := a]\<rparr>"
        using b True by (simp add: swap_item_def map_no_change list_update_map)
      then show ?thesis using True b unfolding tile_replaceThing_def Let_def pos no_ground by simp
    next
      case nt: False
      have at2: "(map CreatureThing (creatures s) @ map ItemThing (downItems s)) ! (m - length (topItems s)) = ItemThing b"
        using at nt by (simp add: nth_append)
      define k where "k = m - length (topItems s)"
      have kc: "\<not> k < length (creatures s)" using at2 by (auto simp: nth_append k_def)
      define j where "j = k - length (creatures s)"
      have j: "j < length (downItems s)" "downItems s ! j = b"
      proof -
        have "n < g + length (topItems s) + length (creatures s) + length (downItems s)"
          using i(1) by (simp add: n_def g_def stack_length split: if_splits)
        then show j: "j < length (downItems s)" using kc nt ng by (simp add: j_def k_def m_def)
        show "downItems s ! j = b" using at2 kc j by (simp add: nth_append j_def k_def)
      qed
      then have "b \<in> set (downItems s)" by auto
      then have "b \<notin> set (topItems s)" "ground s \<noteq> Some b" "distinct (downItems s)" using D(2) by (auto simp: stack_distinct)
      then have "swap_item b a s = s\<lparr>downItems := (downItems s)[j := a]\<rparr>"
        using j by (simp add: swap_item_def map_no_change list_update_map)
      moreover have "int m - int (length (topItems s)) = int k" "int k - int (length (creatures s)) = int j"
        using nt kc by (simp_all add: k_def j_def of_nat_diff)
      ultimately show ?thesis using nt kc j unfolding tile_replaceThing_def Let_def pos no_ground by simp
    qed
  qed
qed

lemma swap_ok:
  assumes ok: "tile_ok items keep s" and a: "a \<notin> held s" "field_ok items (objs s a)" and b: "b \<in> held s"
    and same: "it_alwaysOnTop (type_at items s a) = it_alwaysOnTop (type_at items s b)"
      "keep \<Longrightarrow> same_kind (type_at items s a) (type_at items s b)"
    and f: "class_at s a = IC_MagicField \<Longrightarrow> ground s \<noteq> Some b"
  shows "tile_ok items keep (replaced items index b a (swap_item b a s))"
proof -
  note D = tile_coreD [OF tile_okD(1) [OF ok]]
  define t where "t = setParent (Some (OnTile (this s))) a (swap_item b a s)"
  have ab: "a \<noteq> b" using a(1) b by blast
  have o: "objs t x = objs s x" if "x \<noteq> a" for x using that by (simp add: t_def setParent_def put_obj_def swap_item_def)
  have it: "item_at t x = item_at s x" "class_at t x = class_at s x" "type_at items t x = type_at items s x" for x
    by (simp_all add: t_def item_at_def class_at_def type_at_def setParent_def put_obj_def swap_item_def)
  have th: "this t = this s" "this (swap_item b a s) = this s" by (simp_all add: t_def swap_item_def)
  have h: "held t = insert a (held s - {b})" using swap_held [OF b, of a] by (simp add: t_def)
  have may: "may_hold items a t" using a(2) by (simp add: may_hold_def t_def setParent_def put_obj_def field_ok_def swap_item_def)
  have "tile_core items keep t"
  proof (rule tile_coreI)
    have "length (stack t) = length (stack s)" "thingCount t = thingCount s" by (simp_all add: t_def stack_length swap_item_def)
    then show "counted t" using D(1) by (simp add: counted_def)
    have inj: "inj_on (\<lambda>x. if x = b then a else x) (set xs)" if "a \<notin> set xs" for xs using that by (auto simp: inj_on_def)
    show "distinct (stack t)" using D(2) a(1) unfolding stack_distinct
      by (auto simp: t_def swap_item_def distinct_map held_iff inj split: if_splits)
    show "may_hold items x t" if "x \<in> held t" for x
      using that may D(3) h o th by (cases "x = a") (auto simp: may_hold_def)
    show "c_tile (crts t c) = Some (this t)" if "c \<in> set (creatures t)" for c using that D(4) by (simp add: t_def swap_item_def)
    show "it_alwaysOnTop (type_at items t x)" if "x \<in> set (topItems t)" for x
      unfolding it using that D(5) same(1) by (auto simp: t_def swap_item_def split: if_splits)
    show "\<not> it_alwaysOnTop (type_at items t x)" if "x \<in> set (downItems t)" for x
      unfolding it using that D(6) same(1) by (auto simp: t_def swap_item_def split: if_splits)
    show "x \<in> set (downItems t)" if "x \<in> held t" "class_at t x = IC_MagicField" for x
    proof (cases "x = a")
      case True
      then have fa: "class_at s a = IC_MagicField" using that it by simp
      then have "\<not> it_alwaysOnTop (type_at items s a)"
        using a(2) by (auto simp: field_ok_def class_at_def type_at_def item_at_def layer_simps)
      then have "b \<in> set (downItems s)" using b f [OF fa] D(5) same(1) by (auto simp: held_iff)
      with True show ?thesis by (force simp: t_def swap_item_def)
    next
      case False
      with that h it have "x \<in> set (downItems s)" "x \<noteq> b" using D(7) by auto
      then show ?thesis by (force simp: t_def swap_item_def)
    qed
    show "kinds_right items t" if k: keep
    proof -
      note sk = same(2) [OF k] and K = D(8) [OF k]
      have "map (\<lambda>x. it_alwaysOnTopOrder (type_at items s x)) (topItems t) = map (\<lambda>x. it_alwaysOnTopOrder (type_at items s x)) (topItems s)"
        using sk by (simp add: same_kind_def t_def swap_item_def)
      moreover have "isGroundTile (type_at items s x)" if "ground t = Some x" for x
        using that K sk by (auto simp: kinds_right_def same_kind_def t_def swap_item_def split: if_splits)
      moreover have "\<not> isGroundTile (type_at items s x)" if "x \<in> set (topItems t) \<union> set (downItems t)" for x
        using that K sk by (auto simp: kinds_right_def same_kind_def t_def swap_item_def split: if_splits)
      ultimately show ?thesis by (intro kinds_rightI [OF K]) (simp_all add: it)
    qed
  qed
  moreover have "flags_for items (held s) t"
    using tile_okD(2) [OF ok] flags_for_cong [of t s "held s" items] it by (simp add: t_def swap_item_def)
  then have "flags_for items (insert a (held s - {b})) (updateTileFlags items a False (updateTileFlags items b True t))"
    using b h ab a(1) by (intro flags_replaced) auto
  ultimately have "tile_ok items keep (onUpdateTileItem items (sint index) b a t)"
    using h by (simp add: tile_ok_def onUpdateTileItem_def Let_def)
  moreover have "b \<notin> held (onUpdateTileItem items (sint index) b a t)" using h ab by (simp add: onUpdateTileItem_def Let_def)
  ultimately show ?thesis
    unfolding replaced_def Let_def th t_def [symmetric] by (rule setParent_outside)
qed

lemma updateThing_ok:
  assumes ok: "tile_ok items keep s" and a: "a \<in> held s"
    and i: "setID items itemId (item_at s a) = Some i'" "setSubType items (ucast count) i' = Some i"
    and same: "it_alwaysOnTop (item_type items i) = it_alwaysOnTop (type_at items s a)"
      "keep \<Longrightarrow> same_kind (item_type items i) (type_at items s a)"
      "field_ok items ((objs s a)\<lparr>t_item := i\<rparr>)"
  shows "\<exists>s'. tile_updateThing items (ItemThing a) itemId count s = Some s' \<and> tile_ok items keep s'"
proof -
  define r where "r = updateTileFlags items a True s"
  define t where "t = put_obj a (\<lambda>ob. ob\<lparr>t_item := i\<rparr>) r"
  have r: "tile_core items keep r" "flags_for items (held s - {a}) r" "held r = held s"
    using tile_okD [OF ok] flags_removed [of items "held s" s a] by (simp_all add: r_def)
  have t: "tile_core items keep t" "held t = held s"
    using put_obj_core [OF r(1), of a "\<lambda>ob. ob\<lparr>t_item := i\<rparr>"] same r(3) by (simp_all add: t_def r_def)
  have "flags_for items (held s - {a}) t"
    using r(2) flags_for_cong [of t r "held s - {a}" items] by (simp add: t_def put_obj_def item_at_def class_at_def)
  then have "flags_for items (held s - {a} - {a}) (updateTileFlags items a True t)"
    by (rule flags_removed) (simp add: t(2))
  then have "flags_for items (insert a (held s - {a} - {a})) (updateTileFlags items a False (updateTileFlags items a True t))"
    by (rule flags_added)
  moreover have "insert a (held s - {a} - {a}) = held s" using a by blast
  ultimately have "tile_ok items keep (onUpdateTileItem items (tile_getIndexOfThing (ItemThing a) s) a a t)"
    using t by (simp add: tile_ok_def onUpdateTileItem_def Let_def)
  then show ?thesis using i a by (simp add: tile_updateThing_def index_held Let_def r_def t_def)
qed

section \<open>Everything that happens to a tile\<close>

definition room :: "Tile \<Rightarrow> bool" where "room s \<longleftrightarrow> length (stack s) + 1 < 2 ^ 31"

text \<open>
  The steps: the operations of the tile, a change of the zone flags by the map loader, and any change
  of the stores that leaves the things on the tile alone.  A thing is added or put in only if it is not on the
  tile.  A replacement or a change of type keeps the place of the item; all that \<^verbatim>\<open>Game::transformItem\<close>
  compares before it asks for one is whether both types are always on top, and that is what the steps demand.
  With \<open>keep\<close> they also demand what the code does not look at: that a ground item stays one, that the others
  become none, and that the order on top stays the same.  About the data it is taken for granted that
  the type of a magic field (\<open>field_ok\<close>) is no ground, not on top and cannot be stacked, and that no ground item
  is turned into a field.  (The loader's \<^verbatim>\<open>__internalAddThing\<close> is only sound for the first ground item.)
\<close>

inductive tile_step :: "Items \<Rightarrow> bool \<Rightarrow> Tile \<Rightarrow> Tile \<Rightarrow> bool" for items keep where
  add_item: "a \<notin> held s \<Longrightarrow> field_ok items (objs s a) \<Longrightarrow> room s \<Longrightarrow> tile_step items keep s (tile_addThing items (ItemThing a) s)"
| add_creature: "c \<notin> set (creatures s) \<Longrightarrow> room s \<Longrightarrow> tile_step items keep s (tile_addThing items (CreatureThing c) s)"
| internal_item: "a \<notin> held s \<Longrightarrow> field_ok items (objs s a) \<Longrightarrow> room s \<Longrightarrow>
    (isGroundTile (type_at items s a) \<Longrightarrow> ground s = None) \<Longrightarrow> tile_step items keep s (tile_internalAddThing items (ItemThing a) s)"
| internal_creature: "c \<notin> set (creatures s) \<Longrightarrow> room s \<Longrightarrow> tile_step items keep s (tile_internalAddThing items (CreatureThing c) s)"
| remove: "tile_step items keep s (tile_removeThing items th count s)"
| replace: "tile_getThing index s = Some (ItemThing b) \<Longrightarrow> a \<notin> held s \<Longrightarrow> field_ok items (objs s a) \<Longrightarrow>
    (class_at s a = IC_MagicField \<Longrightarrow> ground s \<noteq> Some b) \<Longrightarrow>
    it_alwaysOnTop (type_at items s a) = it_alwaysOnTop (type_at items s b) \<Longrightarrow>
    (keep \<Longrightarrow> same_kind (type_at items s a) (type_at items s b)) \<Longrightarrow>
    tile_replaceThing items index (ItemThing a) s = Some s' \<Longrightarrow> tile_step items keep s s'"
| update: "a \<in> held s \<Longrightarrow> setID items itemId (item_at s a) = Some i' \<Longrightarrow> setSubType items (ucast count) i' = Some i \<Longrightarrow>
    it_alwaysOnTop (item_type items i) = it_alwaysOnTop (type_at items s a) \<Longrightarrow>
    (keep \<Longrightarrow> same_kind (item_type items i) (type_at items s a)) \<Longrightarrow>
    field_ok items ((objs s a)\<lparr>t_item := i\<rparr>) \<Longrightarrow> tile_updateThing items (ItemThing a) itemId count s = Some s' \<Longrightarrow> tile_step items keep s s'"
| zones: "f AND 0x7F = f \<Longrightarrow> tile_step items keep s (setFlag f s)"
| elsewhere: "(\<And>a. a \<in> held s \<Longrightarrow> os a = objs s a) \<Longrightarrow> (\<And>c. c \<in> set (creatures s) \<Longrightarrow> c_tile (cs c) = c_tile (crts s c)) \<Longrightarrow>
    tile_step items keep s (s\<lparr>objs := os, crts := cs\<rparr>)"

inductive tile_run :: "Items \<Rightarrow> bool \<Rightarrow> Tile \<Rightarrow> bool" for items keep where
  new: "tile_run items keep (new_Tile t pos os cs)"
| step: "tile_run items keep s \<Longrightarrow> tile_step items keep s s' \<Longrightarrow> tile_run items keep s'"

text \<open>The tiles the program can produce, and those it produces when transformations keep the kind of an item.\<close>

abbreviation tile_reach :: "Items \<Rightarrow> Tile \<Rightarrow> bool" where "tile_reach items \<equiv> tile_run items False"
abbreviation tile_kept :: "Items \<Rightarrow> Tile \<Rightarrow> bool" where "tile_kept items \<equiv> tile_run items True"

lemma new_Tile_ok: "tile_ok items keep (new_Tile t pos os cs)"
  by (simp add: tile_ok_def tile_core_def kinds_right_def counted_def stack_def held_def flags_for_def new_Tile_def tracked_def)

lemma zone_flags_ok:
  assumes ok: "tile_ok items keep s" and f: "f AND 0x7F = f"
  shows "tile_ok items keep (setFlag f s)"
proof -
  have low: "\<not> bit f k" if "7 \<le> k" for k
  proof -
    have "f = take_bit 7 f" using f by (simp add: take_bit_eq_mask mask_numeral)
    then show ?thesis using that by (metis bit_take_bit_iff not_le)
  qed
  have h: "held (setFlag f s) = held s" by (simp add: held_def stack_def setFlag_def)
  have it: "item_at (setFlag f s) = item_at s" "class_at (setFlag f s) = class_at s" by (simp_all add: item_at_def class_at_def setFlag_def fun_eq_iff)
  have b: "bit (m_flags (setFlag f s)) k = bit (m_flags s) k" if "7 \<le> k" for k using low [OF that] by (simp add: flag_steps)
  have "tile_core items keep (setFlag f s)" using core_cong(1) [of "setFlag f s" s items] tile_okD(1) [OF ok] by (simp add: setFlag_def)
  moreover have "flags_for items (held s) (setFlag f s)"
  proof (rule flags_forI)
    fix p k
    assume t: "(p, k) \<in> set tracked"
    then have "7 \<le> k" by (auto simp: tracked_def)
    then show "bit (m_flags (setFlag f s)) k = (\<exists>a\<in>held s. has_prop items p (item_at (setFlag f s) a))"
      using b flags_for_tracked [OF tile_okD(2) [OF ok] t] it by simp
  qed (use flags_forD [OF tile_okD(2) [OF ok]] b it in auto)
  ultimately show ?thesis by (simp add: tile_ok_def h)
qed

lemma elsewhere_ok:
  assumes ok: "tile_ok items keep s" and os: "\<And>a. a \<in> held s \<Longrightarrow> os a = objs s a"
    and cs: "\<And>c. c \<in> set (creatures s) \<Longrightarrow> c_tile (cs c) = c_tile (crts s c)"
  shows "tile_ok items keep (s\<lparr>objs := os, crts := cs\<rparr>)"
proof -
  let ?t = "s\<lparr>objs := os, crts := cs\<rparr>"
  note D = tile_coreD [OF tile_okD(1) [OF ok]]
  have st: "stack ?t = stack s" by (simp add: stack_def)
  then have h: "held ?t = held s" by (simp add: held_def)
  have it: "item_at ?t a = item_at s a" "class_at ?t a = class_at s a" "type_at items ?t a = type_at items s a" if "a \<in> held s" for a
    using os that by (simp_all add: item_at_def class_at_def type_at_def)
  have "tile_core items keep ?t"
  proof (rule tile_coreI)
    show "counted ?t" using D(1) by (simp add: counted_def st)
    show "distinct (stack ?t)" using D(2) by (simp add: st)
    show "may_hold items a ?t" if "a \<in> held ?t" for a using that D(3) [of a] os [of a] h by (simp add: may_hold_def)
    show "c_tile (crts ?t c) = Some (this ?t)" if "c \<in> set (creatures ?t)" for c using that D(4) cs by simp
    show "it_alwaysOnTop (type_at items ?t a)" if "a \<in> set (topItems ?t)" for a using that D(5) it(3) [of a] by (simp add: held_iff)
    show "\<not> it_alwaysOnTop (type_at items ?t a)" if "a \<in> set (downItems ?t)" for a using that D(6) it(3) [of a] by (simp add: held_iff)
    show "a \<in> set (downItems ?t)" if "a \<in> held ?t" "class_at ?t a = IC_MagicField" for a using that D(7) it(2) [of a] h by simp
    show "kinds_right items ?t" if keep
      by (rule kinds_right_same [OF D(8) [OF that]]) (simp_all add: it(3))
  qed
  moreover have "flags_for items (held s) ?t"
    using tile_okD(2) [OF ok] flags_for_cong [of ?t s "held s" items] it by simp
  ultimately show ?thesis by (simp add: tile_ok_def h)
qed

lemma tile_step_ok: "tile_step items keep s s' \<Longrightarrow> tile_ok items keep s \<Longrightarrow> tile_ok items keep s'"
proof (induction rule: tile_step.induct)
  case (replace index s b a s')
  have D: "counted s" "distinct (stack s)" using tile_coreD [OF tile_okD(1) [OF replace.prems]] by auto
  then have g: "unat index < length (stack s)" "stack s ! unat index = ItemThing b"
    using replace.hyps(1) by (auto simp: getThing_stack counted_def split: if_splits)
  then have "b \<in> held s" by (metis held_def mem_Collect_eq nth_mem)
  with replace.hyps replace.prems have "tile_ok items keep (replaced items index b a (swap_item b a s))"
    by (intro swap_ok) auto
  then show ?case using replaceThing_swap [OF tile_okD(1) [OF replace.prems] g, of a] replace.hyps(7) by simp
next
  case (update a s itemId i' count i s')
  then show ?case using updateThing_ok [of items keep s a itemId i' count i] by auto
qed (auto intro: addThing_item_ok addThing_creature_ok internalAddThing_item_ok removeThing_ok zone_flags_ok elsewhere_ok
    simp: room_def)

lemma tile_run_is_ok: "tile_run items keep s \<Longrightarrow> tile_ok items keep s"
  by (induction rule: tile_run.induct) (auto intro: new_Tile_ok tile_step_ok)

lemmas tile_reach_is_ok = tile_run_is_ok [where keep = False]

lemma flag_bits:
  "hasFlag TILESTATE_PROTECTIONZONE s \<longleftrightarrow> bit (m_flags s) 0"
  "hasFlag TILESTATE_FLOORCHANGE s \<longleftrightarrow> bit (m_flags s) 7"
  "hasFlag TILESTATE_FLOORCHANGE_DOWN s \<longleftrightarrow> bit (m_flags s) 8"
  "hasFlag TILESTATE_POSITIONCHANGE s \<longleftrightarrow> bit (m_flags s) 13"
  "hasFlag TILESTATE_MAGICFIELD s \<longleftrightarrow> bit (m_flags s) 14"
  "hasFlag TILESTATE_BLOCKSOLID s \<longleftrightarrow> bit (m_flags s) 15"
  "hasFlag TILESTATE_BLOCKPATH s \<longleftrightarrow> bit (m_flags s) 16"
  "hasFlag TILESTATE_IMMOVABLEBLOCKSOLID s \<longleftrightarrow> bit (m_flags s) 17"
  "hasFlag TILESTATE_IMMOVABLEBLOCKPATH s \<longleftrightarrow> bit (m_flags s) 18"
  "hasFlag TILESTATE_IMMOVABLENOFIELDBLOCKPATH s \<longleftrightarrow> bit (m_flags s) 19"
  "hasFlag TILESTATE_NOFIELDBLOCKPATH s \<longleftrightarrow> bit (m_flags s) 20"
  by (rule hasFlag_bit, simp)+

lemma field_found:
  assumes ok: "tile_ok items keep s" and f: "hasFlag TILESTATE_MAGICFIELD s"
  shows "\<exists>a\<in>set (downItems s). getFieldItem s = Some a \<and> class_at s a = IC_MagicField"
proof -
  note D = tile_coreD [OF tile_okD(1) [OF ok]] and G = flags_forD [OF tile_okD(2) [OF ok]]
  obtain a where a: "a \<in> held s" "class_at s a = IC_MagicField" using G(1) f unfolding flag_bits by auto
  then have "a \<in> set (downItems s)" by (rule D(7))
  then obtain b where "find (\<lambda>b. class_at s b = IC_MagicField) (downItems s) = Some b"
    using a(2) by (cases "find (\<lambda>b. class_at s b = IC_MagicField) (downItems s)") (auto simp: find_None_iff)
  then show ?thesis using f find_member by (fastforce simp: getFieldItem_def)
qed

lemma position_found:
  assumes "tile_ok items keep s" and th: "th \<in> set (stack s)"
  shows "tile_getThing (word_of_int (tile_getIndexOfThing th s)) s = Some th"
proof -
  have len: "length (stack s) < 2 ^ 32" using tile_coreD(1) [OF tile_okD(1) [OF assms(1)]] by (simp add: counted_def)
  have f: "first_index th (stack s) < length (stack s)" "stack s ! first_index th (stack s) = th"
    using first_index_nth [OF th] by auto
  then have "unat (word_of_nat (first_index th (stack s)) :: u32) = first_index th (stack s)"
    using len by (simp add: unat_of_nat)
  then show ?thesis using f th len by (simp add: getIndexOfThing_stack getThing_stack)
qed

section \<open>Properties\<close>


text \<open>
  C17. The stack positions told to clients are right: a thing is found at its position, the position of
  the thing at a place is that place, and position -1 means that the thing is not on the tile.
\<close>
theorem stack_positions_agree:
  assumes "tile_reach items s"
  shows "(tile_getIndexOfThing th s = - 1 \<longleftrightarrow> th \<notin> set (stack s)) \<and>
    (th \<in> set (stack s) \<longrightarrow> tile_getThing (word_of_int (tile_getIndexOfThing th s)) s = Some th) \<and>
    (unat i < length (stack s) \<longrightarrow> tile_getThing i s = Some (stack s ! unat i) \<and> tile_getIndexOfThing (stack s ! unat i) s = int (unat i))"
proof -
  note D = tile_coreD [OF tile_okD(1) [OF tile_reach_is_ok [OF assms]]]
  have len: "length (stack s) < 2 ^ 32" using D(1) by (simp add: counted_def)
  have "tile_getThing (word_of_int (tile_getIndexOfThing th s)) s = Some th" if "th \<in> set (stack s)"
    using position_found [OF tile_reach_is_ok [OF assms] that] .
  moreover have "tile_getIndexOfThing (stack s ! unat i) s = int (unat i)" if "unat i < length (stack s)"
    using that first_index_distinct [OF D(2) that] by (simp add: getIndexOfThing_stack)
  ultimately show ?thesis using len by (auto simp: getIndexOfThing_stack getThing_stack)
qed

text \<open>
  C19. The flags that block movement are exact: each is set just when an item on the tile has the
  property; except the one for immovable items that block the path, which nothing ever sets.  A magic-field
  flag means that a field lies on the tile.
\<close>
theorem blocking_flags_exact:
  assumes "tile_reach items s"
  shows "hasFlag TILESTATE_BLOCKSOLID s = tile_hasProperty items BLOCKSOLID s \<and>
    hasFlag TILESTATE_BLOCKPATH s = tile_hasProperty items BLOCKPATH s \<and>
    hasFlag TILESTATE_IMMOVABLEBLOCKSOLID s = tile_hasProperty items IMMOVABLEBLOCKSOLID s \<and>
    hasFlag TILESTATE_NOFIELDBLOCKPATH s = tile_hasProperty items NOFIELDBLOCKPATH s \<and>
    hasFlag TILESTATE_IMMOVABLENOFIELDBLOCKPATH s = tile_hasProperty items IMMOVABLENOFIELDBLOCKPATH s \<and>
    \<not> hasFlag TILESTATE_IMMOVABLEBLOCKPATH s \<and>
    (hasFlag TILESTATE_MAGICFIELD s \<longrightarrow> (\<exists>a\<in>set (downItems s). getFieldItem s = Some a \<and> class_at s a = IC_MagicField))"
proof -
  note ok = tile_reach_is_ok [OF assms]
  note D = tile_coreD [OF tile_okD(1) [OF ok]]
  note F = flags_for_tracked [OF tile_okD(2) [OF ok]] and G = flags_forD [OF tile_okD(2) [OF ok]]
  have "\<exists>a\<in>set (downItems s). getFieldItem s = Some a \<and> class_at s a = IC_MagicField" if "hasFlag TILESTATE_MAGICFIELD s"
    using field_found [OF ok that] .
  note this [unfolded flag_bits]
  then show ?thesis
    using F G(2) unfolding tile_hasProperty_held flag_bits tracked_def by (simp del: push_bit_of_1)
qed

text \<open>
  C20. A query before a move never follows a null pointer: it always has an answer, for any item and any
  creature that is somewhere when it is locked out of protection zones.
\<close>
theorem query_always_answers:
  assumes "tile_reach items s"
    and "\<And>c. th = CreatureThing c \<Longrightarrow> c_pzLocked (crts s c) \<Longrightarrow> c_tile (crts s c) \<noteq> None"
  shows "\<exists>r. tile_queryAdd items combatType tile_flags item_z th flags s = Some r"
proof -
  note ok = tile_reach_is_ok [OF assms(1)]
  have t: "things s = map Some (stack s)" using tile_coreD(1) [OF tile_okD(1) [OF ok]] by (rule things_stack)
  have b: "\<exists>r. blocking_items items flags s (map Some ts) = Some r" for ts
  proof (induction ts)
    case (Cons x ts)
    then show ?case by (cases x) auto
  qed simp
  have i: "\<exists>r. blocking_item items i z s (map Some ts) h h' = Some r" for i z ts h h'
  proof (induction ts arbitrary: h h')
    case (Cons x ts)
    then show ?case by (cases x) (auto simp: Let_def)
  qed simp
  have f: "\<exists>r. field_entry items combatType cr flags s = Some r" for cr
    using field_found [OF ok] by (auto simp: field_entry_def Let_def)
  have "\<exists>r. query_creature items combatType tile_flags (crts s c) flags s = Some r" if "th = CreatureThing c" for c
    using assms(2) [OF that] b [of "stack s"] f [of "crts s c"]
    by (cases "c_kind (crts s c)") (auto simp: query_creature_def query_player_def query_monster_def t)
  moreover have "\<exists>r. query_item items i item_z flags s = Some r" for i
  proof -
    obtain r where "blocking_item items i item_z s (things s) False False = Some r" using i [of i item_z "stack s" False False] t by auto
    then show ?thesis by (cases r) (auto simp: query_item_def)
  qed
  ultimately show ?thesis by (cases th) (auto simp: tile_queryAdd_def)
qed

lemma blocking_items_free:
  "blocking_items items 0 s (map Some ts) = Some RET_NOERROR \<longleftrightarrow> (\<forall>a. ItemThing a \<in> set ts \<longrightarrow> \<not> it_blockSolid (type_at items s a))"
proof (induction ts)
  case (Cons x ts)
  then show ?case by (cases x) (auto simp: hasFlags_def)
qed simp

lemma solid_flag:
  assumes "tile_ok items keep s"
  shows "hasFlag TILESTATE_BLOCKSOLID s \<longleftrightarrow> (\<exists>a. ItemThing a \<in> set (stack s) \<and> it_blockSolid (type_at items s a))"
  unfolding flag_bits using flags_for_tracked [OF tile_okD(2) [OF assms], of BLOCKSOLID 15]
  by (auto simp: tracked_def held_def has_prop_def type_at_def)

text \<open>
  C23. A player walks onto a tile just when there is ground, no creature and nothing solid on it, and, while he
  is locked after a fight, it is no zone without fights and his crossing is not into or out of a fighting zone.
\<close>
theorem player_may_walk_in:
  assumes "tile_reach items s" "c_kind (crts s c) = IsPlayer" "c_tile (crts s c) = Some t"
  shows "tile_queryAdd items combatType tile_flags item_z (CreatureThing c) 0 s = Some RET_NOERROR \<longleftrightarrow>
    ground s \<noteq> None \<and> creatures s = [] \<and> \<not> hasFlag TILESTATE_BLOCKSOLID s \<and>
    (c_pzLocked (crts s c) \<longrightarrow> \<not> hasFlag TILESTATE_NOPVPZONE s \<and> \<not> hasFlag TILESTATE_PROTECTIONZONE s \<and>
       (hasFlags (tile_flags t) TILESTATE_PVPZONE \<longleftrightarrow> hasFlag TILESTATE_PVPZONE s))"
proof -
  note ok = tile_reach_is_ok [OF assms(1)]
  have "things s = map Some (stack s)" using tile_coreD(1) [OF tile_okD(1) [OF ok]] by (rule things_stack)
  then have b: "blocking_items items 0 s (things s) = Some RET_NOERROR \<longleftrightarrow> \<not> hasFlag TILESTATE_BLOCKSOLID s"
    unfolding solid_flag [OF ok] by (simp add: blocking_items_free)
  show ?thesis
    using b assms(2,3) by (auto simp: tile_queryAdd_def query_creature_def query_player_def hasFlags_def)
qed

lemma removed_floor:
  assumes "it_floorChangeDown (type_at items s a)"
  shows "\<not> bit (m_flags (updateTileFlags items a True s)) 7" "\<not> bit (m_flags (updateTileFlags items a True s)) 8"
proof -
  have e: "updateTileFlags items a True s = removed_flags items a s" by (simp add: updateTileFlags_def)
  show "\<not> bit (m_flags (updateTileFlags items a True s)) 7" "\<not> bit (m_flags (updateTileFlags items a True s)) 8"
    using assms unfolding e removed_flags_def Let_def resetFlag_resetFlag lost_prop_bit flag_steps bit_or_iff single_bits
    by simp_all
qed

text \<open>
  The floor-change flags are not exact: when one of two items that lead down is taken away, the tile no
  longer leads down, although the other item is still there.
\<close>
theorem second_stairs_forgotten:
  assumes "tile_reach items s" "a \<in> held s" "b \<in> held s" "a \<noteq> b" "\<not> in_part items a count s"
    "it_floorChangeDown (type_at items s a)" "it_floorChangeDown (type_at items s b)"
  shows "ItemThing b \<in> set (stack (tile_removeThing items (ItemThing a) count s)) \<and>
    it_floorChangeDown (type_at items (tile_removeThing items (ItemThing a) count s) b) \<and>
    \<not> floorChange (tile_removeThing items (ItemThing a) count s) \<and> \<not> floorChangeDown (tile_removeThing items (ItemThing a) count s)"
proof -
  note c = tile_okD(1) [OF tile_reach_is_ok [OF assms(1)]]
  let ?t = "drop_item a (setParent None a s)"
  note R = remove_item_frame [OF c, where a = a and count = count]
  have o: "objs (remove_item items a count s) b = objs s b" using R(4) assms(4) by auto
  have d: "it_floorChangeDown (type_at items ?t a)"
    using assms(6) by (simp add: type_at_def item_at_def drop_item_def setParent_def put_obj_def)
  have "b \<in> held (remove_item items a count s)" using R(5) assms(3-5) by simp
  then have "ItemThing b \<in> set (stack (remove_item items a count s))" by (simp add: held_def)
  moreover have "\<not> floorChange (remove_item items a count s) \<and> \<not> floorChangeDown (remove_item items a count s)"
    using removed_floor [OF d] unfolding floorChange_def floorChangeDown_def flag_bits
    by (simp add: remove_item_whole [OF c assms(2,5)] onRemoveTileItem_def)
  ultimately show ?thesis using o assms(7) by (simp add: tile_removeThing_def type_at_def item_at_def)
qed

text \<open>
  Moving a creature from one tile to another leaves two well-formed tiles: the creature is off the one and
  first on the other, its tile and, unless it is teleported, its direction are set, the items and flags are
  untouched, and the positions told to the clients are the ones where it stood and where it stands.
\<close>
theorem creature_moves_over:
  assumes "tile_reach items s" "tile_reach items t" "this s \<noteq> this t" "objs s = objs t" "crts s = crts t"
    "c \<in> set (creatures s)" "c \<notin> set (creatures t)" "room t"
    "moveCreature items c teleport s t = (s', t', old, new)"
  shows "tile_reach items s' \<and> tile_reach items t' \<and> objs s' = objs t' \<and> crts s' = crts t' \<and>
    creatures s' = remove1 c (creatures s) \<and> creatures t' = c # creatures t \<and> c_tile (crts t' c) = Some (this t) \<and>
    c_direction (crts t' c) = (if teleport then c_direction (crts t c) else turned (tilePos s) (tilePos t) (c_direction (crts t c))) \<and>
    held s' = held s \<and> held t' = held t \<and> m_flags s' = m_flags s \<and> m_flags t' = m_flags t \<and>
    tile_getThing (word_of_int old) s = Some (CreatureThing c) \<and> tile_getThing (word_of_int new) t' = Some (CreatureThing c)"
proof -
  note okS = tile_reach_is_ok [OF assms(1)] and okT = tile_reach_is_ok [OF assms(2)]
  note DS = tile_coreD [OF tile_okD(1) [OF okS]]
  define s1 where "s1 = tile_removeThing items (CreatureThing c) 0 s"
  define t0 where "t0 = t\<lparr>objs := objs s1, crts := crts s1\<rparr>"
  define t1 where "t1 = tile_addThing items (CreatureThing c) t0"
  have s1: "objs s1 = objs s" "crts s1 = crts s" "creatures s1 = remove1 c (creatures s)" "held s1 = held s"
      "m_flags s1 = m_flags s" "tilePos s1 = tilePos s" "this s1 = this s"
    using assms(6) by (simp_all add: s1_def tile_removeThing_def held_def stack_def emit_def) (auto split: option.splits)
  have t0: "t0 = t" using assms(4,5) s1 by (simp add: t0_def)
  have r1: "tile_reach items s1" unfolding s1_def by (rule tile_run.step [OF assms(1) tile_step.remove])
  have r2: "tile_reach items t1"
    unfolding t1_def t0 by (rule tile_run.step [OF assms(2) tile_step.add_creature [OF assms(7,8)]])
  have t1: "objs t1 = objs t" "creatures t1 = c # creatures t" "held t1 = held t" "m_flags t1 = m_flags t"
      "tilePos t1 = tilePos t" "this t1 = this t" "crts t1 = (crts t)(c := (crts t c)\<lparr>c_tile := Some (this t)\<rparr>)"
    by (auto simp: t1_def t0 tile_addThing_def put_on_tile_def emit_def held_def stack_def split: option.splits)
  define cs where "cs = (if teleport then crts t1
     else (crts t1)(c := (crts t1 c)\<lparr>c_direction := turned (tilePos s1) (tilePos t1) (c_direction (crts t1 c))\<rparr>))"
  have t': "t' = t1\<lparr>objs := objs t1, crts := cs\<rparr>" and s': "s' = s1\<lparr>objs := objs s1, crts := cs\<rparr>"
    and old: "old = tile_getIndexOfThing (CreatureThing c) s" and new: "new = tile_getIndexOfThing (CreatureThing c) t1"
    using assms(9) by (auto simp: moveCreature_def Let_def s1_def [symmetric] t0_def [symmetric] t1_def [symmetric] cs_def)
  have rt: "tile_reach items t'"
    unfolding t' by (rule tile_run.step [OF r2 tile_step.elsewhere]) (auto simp: cs_def)
  have "distinct (creatures s)" using DS(2) by (simp add: stack_distinct)
  then have rs: "tile_reach items s'"
    unfolding s' using assms(5) s1 t1
    by (intro tile_run.step [OF r1 tile_step.elsewhere]) (auto simp: cs_def)
  have inS: "CreatureThing c \<in> set (stack s)" and inT: "CreatureThing c \<in> set (stack t')" and st: "stack t' = stack t1"
    using assms(6) t1(2) by (auto simp: stack_def t')
  have pos: "tile_getThing (word_of_int (tile_getIndexOfThing th u)) u = Some th" if "tile_reach items u" "th \<in> set (stack u)" for th u
    using position_found [OF tile_reach_is_ok [OF that(1)] that(2)] .
  have "tile_getIndexOfThing (CreatureThing c) t1 = tile_getIndexOfThing (CreatureThing c) t'" using st by (simp add: getIndexOfThing_stack)
  then have "tile_getThing (word_of_int old) s = Some (CreatureThing c) \<and> tile_getThing (word_of_int new) t' = Some (CreatureThing c)"
    using pos [OF assms(1) inS] pos [OF rt inT] by (simp add: old new)
  then show ?thesis
    using rt rs s1 t1 assms(4,5) by (simp add: s' t' cs_def held_def stack_def)
qed

section \<open>Witnesses\<close>

definition sample_object :: TileObject where
  "sample_object = \<lparr>t_item = \<lparr>m_attributes = [], m_attrFlags = 0, i_id = 100, i_count = 1, i_loadedOnMap = False\<rparr>,
     t_class = IC_Item, t_parent = None\<rparr>"

definition sample_player :: TileCreature where
  "sample_player = \<lparr>c_kind = IsPlayer, c_tile = Some 9, c_direction = SOUTH, c_pushable = True, c_master = None,
     c_canPushCreatures = False, c_canPushItems = False, c_immune = (\<lambda>_. False), c_afflicted = (\<lambda>_. False), c_pzLocked = False\<rparr>"

definition sample_tile :: "nat \<Rightarrow> Tile" where
  "sample_tile n = new_Tile n (Position (word_of_nat n) 100 7) (\<lambda>_. sample_object) (\<lambda>_. sample_player)"

definition two_items :: Tile where
  "two_items = tile_addThing new_Items (ItemThing 6) (tile_addThing new_Items (ItemThing 5) (sample_tile 1))"

lemma sample_type [simp]: "item_type new_Items (t_item sample_object) = new_ItemType"
  by (simp add: item_type_def getItemType_def getElement_def new_Items_def sample_object_def)

lemma new_type [simp]:
  "\<not> isGroundTile new_ItemType" "\<not> it_alwaysOnTop new_ItemType" "\<not> isMagicField new_ItemType" "\<not> isSplash new_ItemType"
  "it_floorChangeDown new_ItemType" "\<not> it_stackable new_ItemType" "\<not> it_blockSolid new_ItemType"
  by (simp_all add: isGroundTile_def isMagicField_def isSplash_def new_ItemType_def)

lemma sample_reach: "tile_reach items (sample_tile n)"
  unfolding sample_tile_def by (rule tile_run.new)

lemma sample_frame [simp]:
  "held (sample_tile n) = {}" "objs (sample_tile n) a = sample_object" "room (sample_tile n)" "this (sample_tile n) = n"
  "crts (sample_tile n) c = sample_player" "creatures (sample_tile n) = []" "ground (sample_tile n) = None"
  "stack (sample_tile n) = []" "downItems (sample_tile n) = []" "t_class sample_object = IC_Item"
  by (auto simp: sample_tile_def new_Tile_def held_def stack_def room_def sample_object_def)

lemma sample_field [simp]: "field_ok items (sample_object\<lparr>t_parent := p\<rparr>)" "field_ok items sample_object"
  by (simp_all add: field_ok_def sample_object_def)

lemma add_sample:
  assumes "t_item (objs s a) = t_item sample_object" "t_class (objs s a) = IC_Item"
  shows "held (tile_addThing new_Items (ItemThing a) s) = insert a (held s)" "downItems (tile_addThing new_Items (ItemThing a) s) = a # downItems s"
    "b \<noteq> a \<Longrightarrow> objs (tile_addThing new_Items (ItemThing a) s) b = objs s b"
    "t_item (objs (tile_addThing new_Items (ItemThing a) s) a) = t_item sample_object"
    "length (stack (tile_addThing new_Items (ItemThing a) s)) = Suc (length (stack s))"
  using assms
  by (auto simp: tile_addThing_def Let_def type_at_def item_at_def isAlwaysOnTop_def add_down_def onAddTileItem_def held_iff
      setParent_def put_obj_def stack_length)

lemma two_items_reach: "tile_reach new_Items two_items"
proof -
  let ?u = "tile_addThing new_Items (ItemThing 5) (sample_tile 1)"
  have u: "tile_reach new_Items ?u"
    by (rule tile_run.step [OF sample_reach tile_step.add_item]) simp_all
  have p: "t_item (objs (sample_tile 1) 5) = t_item sample_object" "t_class (objs (sample_tile 1) 5) = IC_Item" by simp_all
  note f = add_sample [OF p]
  show ?thesis unfolding two_items_def
    by (rule tile_run.step [OF u tile_step.add_item])
      (use f in \<open>simp_all add: room_def\<close>)
qed

lemma two_items_frame:
  "held two_items = {5, 6}" "downItems two_items = [6, 5]"
  "t_item (objs two_items 5) = t_item sample_object" "t_item (objs two_items 6) = t_item sample_object"
proof -
  let ?u = "tile_addThing new_Items (ItemThing 5) (sample_tile 1)"
  have p: "t_item (objs (sample_tile 1) 5) = t_item sample_object" "t_class (objs (sample_tile 1) 5) = IC_Item" by simp_all
  have u: "t_item (objs ?u 6) = t_item sample_object" "t_class (objs ?u 6) = IC_Item" "held ?u = {5}" "downItems ?u = [5]"
      "t_item (objs ?u 5) = t_item sample_object"
    using add_sample [OF p] by simp_all
  show "held two_items = {5, 6}" "downItems two_items = [6, 5]"
    "t_item (objs two_items 5) = t_item sample_object" "t_item (objs two_items 6) = t_item sample_object"
    using add_sample [OF u(1,2)] u by (auto simp: two_items_def)
qed

text \<open>Two items on top, and what becomes of them when the first is turned into one of a later order.\<close>

definition top_type :: "int \<Rightarrow> ItemType" where
  "top_type n = new_ItemType\<lparr>it_alwaysOnTop := True, it_alwaysOnTopOrder := n\<rparr>"

definition top_items :: Items where
  "top_items = new_Items\<lparr>is_items := [Some (top_type 1), Some (top_type 2), Some (top_type 3)]\<rparr>"

definition top_object :: "nat \<Rightarrow> TileObject" where
  "top_object a = sample_object\<lparr>t_item := (t_item sample_object)\<lparr>i_id := (if a = 5 then 0 else 1)\<rparr>\<rparr>"

definition no_tops :: Tile where
  "no_tops = new_Tile 1 (Position 100 100 7) top_object (\<lambda>_. sample_player)"

definition two_tops :: Tile where
  "two_tops = tile_addThing top_items (ItemThing 6) (tile_addThing top_items (ItemThing 5) no_tops)"

lemma top_type_simps [simp]:
  "isGroundTile (top_type n) = False" "it_alwaysOnTop (top_type n)" "it_alwaysOnTopOrder (top_type n) = n"
  "isSplash (top_type n) = False" "isMagicField (top_type n) = False"
  by (simp_all add: top_type_def isGroundTile_def isSplash_def isMagicField_def new_ItemType_def)

lemma top_items_type [simp]:
  "i_id i = 0 \<Longrightarrow> item_type top_items i = top_type 1" "i_id i = 1 \<Longrightarrow> item_type top_items i = top_type 2"
  "i_id i = 2 \<Longrightarrow> item_type top_items i = top_type 3"
  by (simp_all add: item_type_def getItemType_def getElement_def top_items_def)

lemma two_tops_frame:
  "topItems two_tops = [5, 6]" "held two_tops = {5, 6}" "t_item (objs two_tops 5) = t_item (top_object 5)"
  "t_item (objs two_tops 6) = t_item (top_object 6)" "t_class (objs two_tops 5) = IC_Item"
  by (auto simp: two_tops_def no_tops_def new_Tile_def tile_addThing_def Let_def type_at_def item_at_def isAlwaysOnTop_def
      add_top_def onAddTileItem_def held_iff setParent_def put_obj_def top_object_def)

lemma two_tops_kept: "tile_run top_items keep two_tops"
proof -
  have f: "field_ok top_items (objs no_tops a)" for a by (simp add: field_ok_def no_tops_def new_Tile_def top_object_def)
  have r: "tile_run top_items keep no_tops" unfolding no_tops_def by (rule tile_run.new)
  let ?u = "tile_addThing top_items (ItemThing 5) no_tops"
  have u: "tile_run top_items keep ?u"
    by (rule tile_run.step [OF r tile_step.add_item])
      (use f in \<open>simp_all add: room_def no_tops_def new_Tile_def stack_def held_iff\<close>)
  have "held ?u = {5}" "objs ?u 6 = objs no_tops 6" "length (stack ?u) = 1"
    by (auto simp: no_tops_def new_Tile_def tile_addThing_def Let_def type_at_def item_at_def isAlwaysOnTop_def
      add_top_def onAddTileItem_def held_iff setParent_def put_obj_def top_object_def stack_length)
  with f show ?thesis unfolding two_tops_def
    by (intro tile_run.step [OF u tile_step.add_item]) (simp_all add: room_def)
qed

lemma turned_top:
  "setID top_items 2 (t_item (top_object 5)) = Some ((t_item (top_object 5))\<lparr>i_id := 2\<rparr>)"
  "setSubType top_items 1 ((t_item (top_object 5))\<lparr>i_id := 2\<rparr>) = Some ((t_item (top_object 5))\<lparr>i_id := 2\<rparr>)"
proof -
  have t: "getItemType top_items 2 = top_type 3" by (simp add: getItemType_def getElement_def top_items_def)
  show "setID top_items 2 (t_item (top_object 5)) = Some ((t_item (top_object 5))\<lparr>i_id := 2\<rparr>)"
    by (simp add: setID_def t Let_def top_object_def sample_object_def on_attrs_def attrs_def removeAttribute_def hasAttribute_def
        ItemAttributes.defs top_type_def new_ItemType_def)
  show "setSubType top_items 1 ((t_item (top_object 5))\<lparr>i_id := 2\<rparr>) = Some ((t_item (top_object 5))\<lparr>i_id := 2\<rparr>)"
    by (simp add: setSubType_def Let_def top_object_def sample_object_def top_type_def new_ItemType_def isFluidContainer_def isSplash_def)
qed

lemma transformation_unsorts:
  "\<exists>s. tile_reach top_items s \<and> \<not> sorted (map (\<lambda>a. it_alwaysOnTopOrder (type_at top_items s a)) (topItems s))"
proof -
  let ?i = "(t_item (top_object 5))\<lparr>i_id := 2\<rparr>"
  have i: "item_at two_tops 5 = t_item (top_object 5)" using two_tops_frame(3) by (simp add: item_at_def)
  have n: "tile_getIndexOfThing (ItemThing 5) two_tops \<noteq> - 1" using two_tops_frame(2) by (simp add: index_held)
  obtain s where s: "tile_updateThing top_items (ItemThing 5) 2 1 two_tops = Some s" "topItems s = [5, 6]"
      "t_item (objs s 5) = ?i" "t_item (objs s 6) = t_item (top_object 6)"
    using n two_tops_frame turned_top
    by (simp add: tile_updateThing_def Let_def i onUpdateTileItem_def put_obj_def)
  have "tile_reach top_items s"
    by (rule tile_run.step [OF two_tops_kept tile_step.update [of 5 two_tops top_items 2 ?i 1 ?i, OF _ _ _ _ _ _ s(1)]])
      (use turned_top in \<open>simp_all add: two_tops_frame i type_at_def field_ok_def top_object_def\<close>)
  then show ?thesis using s(2-4) by (intro exI [of _ s]) (simp add: type_at_def item_at_def top_object_def)
qed


theorem stack_positions_agree_witness: "tile_getThing (word_of_int (tile_getIndexOfThing (ItemThing 5) two_items)) two_items = Some (ItemThing 5)"
  using stack_positions_agree [OF two_items_reach, of "ItemThing 5"] two_items_frame(1) by (auto simp: held_def)

theorem blocking_flags_exact_witness: "hasFlag TILESTATE_BLOCKSOLID two_items = tile_hasProperty new_Items BLOCKSOLID two_items"
  using blocking_flags_exact [OF two_items_reach] by blast

theorem query_always_answers_witness:
  "tile_queryAdd new_Items (\<lambda>_. 0) (\<lambda>_. 0) 7 (ItemThing 5) 0 (sample_tile 1) \<noteq> None"
  using query_always_answers [OF sample_reach, of "ItemThing 5" 1] by fastforce

theorem player_may_walk_in_witness:
  "tile_queryAdd new_Items (\<lambda>_. 0) (\<lambda>_. 0) 7 (CreatureThing 3) 0 (sample_tile 1) \<noteq> Some RET_NOERROR"
  using player_may_walk_in [OF sample_reach, of 1 3 9 new_Items] by (simp add: sample_player_def)

theorem second_stairs_forgotten_witness:
  "ItemThing 5 \<in> set (stack (tile_removeThing new_Items (ItemThing 6) 1 two_items)) \<and> \<not> floorChange (tile_removeThing new_Items (ItemThing 6) 1 two_items)"
  using second_stairs_forgotten [OF two_items_reach, of 6 5 1] two_items_frame
  by (simp add: in_part_def isStackable_def item_at_def type_at_def)

definition player_on_tile :: Tile where
  "player_on_tile = tile_addThing new_Items (CreatureThing 3) (sample_tile 1)"

theorem creature_moves_over_witness:
  "creatures (fst (snd (moveCreature new_Items 3 False player_on_tile (new_Tile 2 (Position 101 100 7) (objs player_on_tile) (crts player_on_tile))))) = [3]"
proof -
  let ?t = "new_Tile 2 (Position 101 100 7) (objs player_on_tile) (crts player_on_tile)"
  obtain s' t' old new where m: "moveCreature new_Items 3 False player_on_tile ?t = (s', t', old, new)" by (cases "moveCreature new_Items 3 False player_on_tile ?t")
  have r: "tile_reach new_Items player_on_tile"
    unfolding player_on_tile_def by (rule tile_run.step [OF sample_reach tile_step.add_creature]) simp_all
  have p: "this player_on_tile = 1" "creatures player_on_tile = [3]"
    by (simp_all add: player_on_tile_def tile_addThing_def put_on_tile_def Let_def)
  show ?thesis
    using creature_moves_over [OF r tile_run.new [of new_Items False 2 "Position 101 100 7" "objs player_on_tile" "crts player_on_tile"] _ _ _ _ _ _ m] p m
    by (simp add: new_Tile_def room_def stack_def)
qed

end
