(* ===== verification/Conditions.thy ===== *)
theory Conditions
  imports Complex_Main Prelude
begin

text \<open>
  The conditions of a creature (\<^verbatim>\<open>condition.h\<close>, \<^verbatim>\<open>condition.cpp\<close>, the condition list in \<^verbatim>\<open>creature.cpp\<close> and
  \<^verbatim>\<open>player.cpp\<close>), as compiled with \<^verbatim>\<open>__PROTOCOL_76__\<close>: poison, haste, light
  and the like, each with an end and with effects on the creature that are taken back when it ends.

  A condition is the fields of the base class and the part of its own class; a virtual function
  is a case on that part, and a \<^verbatim>\<open>static_cast\<close> to the wrong class is \<^term>\<open>None\<close>, as are a division by zero and an
  index outside an array.  The fields of type \<^verbatim>\<open>int32_t\<close> are \<open>int\<close>, far from their bounds; a \<^verbatim>\<open>float\<close>
  is its bit pattern, and is computed with as the real number it stands for, without rounding.  What combat, the client
  and the clock answer comes from a \<open>World\<close>; what is sent is logged.
\<close>

unbundle bit_operations_syntax

section \<open>Data\<close>

abbreviation CONDITION_NONE :: u32 where "CONDITION_NONE \<equiv> 0"
abbreviation CONDITION_POISON :: u32 where "CONDITION_POISON \<equiv> 1"
abbreviation CONDITION_FIRE :: u32 where "CONDITION_FIRE \<equiv> 2"
abbreviation CONDITION_ENERGY :: u32 where "CONDITION_ENERGY \<equiv> 4"
abbreviation CONDITION_HASTE :: u32 where "CONDITION_HASTE \<equiv> 16"
abbreviation CONDITION_PARALYZE :: u32 where "CONDITION_PARALYZE \<equiv> 32"
abbreviation CONDITION_OUTFIT :: u32 where "CONDITION_OUTFIT \<equiv> 64"
abbreviation CONDITION_INVISIBLE :: u32 where "CONDITION_INVISIBLE \<equiv> 128"
abbreviation CONDITION_LIGHT :: u32 where "CONDITION_LIGHT \<equiv> 256"
abbreviation CONDITION_MANASHIELD :: u32 where "CONDITION_MANASHIELD \<equiv> 512"
abbreviation CONDITION_INFIGHT :: u32 where "CONDITION_INFIGHT \<equiv> 1024"
abbreviation CONDITION_DRUNK :: u32 where "CONDITION_DRUNK \<equiv> 2048"
abbreviation CONDITION_YELL :: u32 where "CONDITION_YELL \<equiv> 4096"
abbreviation CONDITION_REGENERATION :: u32 where "CONDITION_REGENERATION \<equiv> 8192"
abbreviation CONDITION_SOUL :: u32 where "CONDITION_SOUL \<equiv> 16384"
abbreviation CONDITION_MUTED :: u32 where "CONDITION_MUTED \<equiv> 32768"
abbreviation CONDITION_ATTRIBUTES :: u32 where "CONDITION_ATTRIBUTES \<equiv> 65536"
abbreviation CONDITION_EXHAUST_COMBAT :: u32 where "CONDITION_EXHAUST_COMBAT \<equiv> 131072"
abbreviation CONDITION_EXHAUST_HEAL :: u32 where "CONDITION_EXHAUST_HEAL \<equiv> 262144"
abbreviation CONDITION_TRADE_MUTED :: u32 where "CONDITION_TRADE_MUTED \<equiv> 524288"

abbreviation CONDITIONID_DEFAULT :: int where "CONDITIONID_DEFAULT \<equiv> - 1"
abbreviation CONDITIONID_COMBAT :: int where "CONDITIONID_COMBAT \<equiv> 0"

datatype ConditionEnd_t = CONDITIONEND_CLEANUP | CONDITIONEND_DIE | CONDITIONEND_TICKS | CONDITIONEND_ABORT

record IntervalInfo =
  iv_timeLeft :: int
  iv_value :: int
  iv_interval :: int

record Outfit_t =
  lookType :: u32
  lookTypeEx :: u32
  lookHead :: u32
  lookBody :: u32
  lookLegs :: u32
  lookFeet :: u32

record LightInfo =
  light_level :: u32
  light_color :: u32

text \<open>The skills are fist, club, sword, axe, distance, shield and fishing; the stats hit points, mana, soul and magic.\<close>

abbreviation SKILLS :: nat where "SKILLS \<equiv> 7"
abbreviation STATS :: nat where "STATS \<equiv> 4"

record ConditionAttributes =
  ca_skills :: "int list"
  ca_skillsPercent :: "int list"
  ca_stats :: "int list"
  ca_statsPercent :: "int list"
  ca_currentSkill :: nat
  ca_currentStat :: nat

record ConditionRegeneration =
  internalHealthTicks :: u32
  internalManaTicks :: u32
  healthTicks :: u32
  manaTicks :: u32
  healthGain :: u32
  manaGain :: u32

record ConditionSoul =
  internalSoulTicks :: u32
  soulTicks :: u32
  soulGain :: u32

record ConditionDamage =
  maxDamage :: int
  minDamage :: int
  startDamage :: int
  periodDamage :: int
  periodDamageTick :: int
  tickInterval :: int
  forceUpdate :: bool
  delayed :: bool
  cd_owner :: u32
  damageList :: "IntervalInfo list"

record ConditionSpeed =
  speedDelta :: int
  mina :: u32
  minb :: u32
  maxa :: u32
  maxb :: u32

record ConditionLight =
  lightInfo :: LightInfo
  internalLightTicks :: u32
  lightChangeInterval :: u32

datatype ConditionClass = Generic | ManaShield | Invisible
  | Attributes ConditionAttributes | Regeneration ConditionRegeneration | Soul ConditionSoul
  | Damage ConditionDamage | Speed ConditionSpeed | OutfitC "Outfit_t list" | Light ConditionLight

record Condition =
  cd_id :: int
  cd_ticks :: int
  cd_endTime :: int
  cd_type :: u32
  cd_class :: ConditionClass

subsection \<open>Constructors\<close>

definition new_ConditionAttributes :: ConditionAttributes where
  "new_ConditionAttributes = \<lparr>ca_skills = replicate SKILLS 0, ca_skillsPercent = replicate SKILLS 0,
     ca_stats = replicate STATS 0, ca_statsPercent = replicate STATS 0, ca_currentSkill = 0, ca_currentStat = 0\<rparr>"

definition new_ConditionRegeneration :: ConditionRegeneration where
  "new_ConditionRegeneration = \<lparr>internalHealthTicks = 0, internalManaTicks = 0, healthTicks = 1000, manaTicks = 1000,
     healthGain = 0, manaGain = 0\<rparr>"

definition new_ConditionSoul :: ConditionSoul where
  "new_ConditionSoul = \<lparr>internalSoulTicks = 0, soulTicks = 0, soulGain = 0\<rparr>"

definition new_ConditionDamage :: ConditionDamage where
  "new_ConditionDamage = \<lparr>maxDamage = 0, minDamage = 0, startDamage = 0, periodDamage = 0, periodDamageTick = 0,
     tickInterval = 2000, forceUpdate = False, delayed = False, cd_owner = 0, damageList = []\<rparr>"

definition new_ConditionSpeed :: "int \<Rightarrow> ConditionSpeed" where
  "new_ConditionSpeed changeSpeed = \<lparr>speedDelta = changeSpeed, mina = 0, minb = 0, maxa = 0, maxb = 0\<rparr>"

definition new_ConditionLight :: "u32 \<Rightarrow> u32 \<Rightarrow> ConditionLight" where
  "new_ConditionLight lightlevel lightcolor =
     \<lparr>lightInfo = \<lparr>light_level = lightlevel, light_color = lightcolor\<rparr>, internalLightTicks = 0, lightChangeInterval = 0\<rparr>"

text \<open>The class that \<^verbatim>\<open>createCondition\<close> chooses for a type, and the ticks its constructor sets: a
  damage condition starts with none.\<close>

definition class_for :: "u32 \<Rightarrow> int \<Rightarrow> ConditionClass option" where
  "class_for ty param =
     (if ty = CONDITION_POISON \<or> ty = CONDITION_FIRE \<or> ty = CONDITION_ENERGY then Some (Damage new_ConditionDamage)
      else if ty = CONDITION_HASTE \<or> ty = CONDITION_PARALYZE then Some (Speed (new_ConditionSpeed param))
      else if ty = CONDITION_INVISIBLE then Some Invisible
      else if ty = CONDITION_OUTFIT then Some (OutfitC [])
      else if ty = CONDITION_LIGHT
      then Some (Light (new_ConditionLight (word_of_int param AND 0xFF) (drop_bit 8 (word_of_int param AND 0xFF00))))
      else if ty = CONDITION_REGENERATION then Some (Regeneration new_ConditionRegeneration)
      else if ty = CONDITION_SOUL then Some (Soul new_ConditionSoul)
      else if ty = CONDITION_MANASHIELD then Some ManaShield
      else if ty = CONDITION_ATTRIBUTES then Some (Attributes new_ConditionAttributes)
      else if ty \<in> {CONDITION_INFIGHT, CONDITION_DRUNK, CONDITION_YELL, CONDITION_EXHAUST_COMBAT,
                    CONDITION_EXHAUST_HEAL, CONDITION_MUTED, CONDITION_TRADE_MUTED} then Some Generic
      else None)"

definition createCondition :: "int \<Rightarrow> u32 \<Rightarrow> int \<Rightarrow> int \<Rightarrow> Condition option" where
  "createCondition cid ty ticks param = map_option
     (\<lambda>cl. \<lparr>cd_id = cid, cd_ticks = (case cl of Damage _ \<Rightarrow> 0 | _ \<Rightarrow> ticks), cd_endTime = 0, cd_type = ty, cd_class = cl\<rparr>)
     (class_for ty param)"

definition isPersistent :: "Condition \<Rightarrow> bool" where
  "isPersistent c \<longleftrightarrow> cd_ticks c \<noteq> - 1 \<and> (cd_id c = CONDITIONID_DEFAULT \<or> cd_id c = CONDITIONID_COMBAT)"

definition canBeAggressive :: "u32 \<Rightarrow> bool" where
  "canBeAggressive ty \<longleftrightarrow>
     ty \<notin> {CONDITION_NONE, CONDITION_HASTE, CONDITION_INVISIBLE, CONDITION_LIGHT, CONDITION_REGENERATION}"

definition setTicks :: "int \<Rightarrow> int \<Rightarrow> Condition \<Rightarrow> Condition" where
  "setTicks now newTicks c = c\<lparr>cd_ticks := newTicks, cd_endTime := newTicks + now\<rparr>"

definition getIcons_generic :: "u32 \<Rightarrow> u32" where
  "getIcons_generic ty = (if ty = CONDITION_MANASHIELD then 16 else if ty = CONDITION_INFIGHT then 128
     else if ty = CONDITION_DRUNK then 8 else 0)"

definition getIcons_damage :: "u32 \<Rightarrow> u32" where
  "getIcons_damage ty = (if ty = CONDITION_FIRE then 2 else if ty = CONDITION_ENERGY then 4
     else if ty = CONDITION_POISON then 1 else 0)"

definition getIcons_speed :: "u32 \<Rightarrow> u32" where
  "getIcons_speed ty = (if ty = CONDITION_HASTE then 64 else if ty = CONDITION_PARALYZE then 32 else 0)"

definition getIcons :: "Condition \<Rightarrow> u32" where
  "getIcons c = (case cd_class c of
     Damage _ \<Rightarrow> getIcons_damage (cd_type c)
   | Speed _ \<Rightarrow> getIcons_speed (cd_type c)
   | OutfitC _ \<Rightarrow> 0
   | Light _ \<Rightarrow> 0
   | _ \<Rightarrow> getIcons_generic (cd_type c))"

subsection \<open>Parameters\<close>

datatype ConditionParam_t = CONDITIONPARAM_OWNER | CONDITIONPARAM_TICKS | CONDITIONPARAM_HEALTHGAIN
  | CONDITIONPARAM_HEALTHTICKS | CONDITIONPARAM_MANAGAIN | CONDITIONPARAM_MANATICKS | CONDITIONPARAM_DELAYED
  | CONDITIONPARAM_SPEED | CONDITIONPARAM_LIGHT_LEVEL | CONDITIONPARAM_LIGHT_COLOR | CONDITIONPARAM_SOULGAIN
  | CONDITIONPARAM_SOULTICKS | CONDITIONPARAM_MINVALUE | CONDITIONPARAM_MAXVALUE | CONDITIONPARAM_STARTVALUE
  | CONDITIONPARAM_TICKINTERVAL | CONDITIONPARAM_FORCEUPDATE | CONDITIONPARAM_PERIODICDAMAGE
  | CONDITIONPARAM_SKILL_MELEE | CONDITIONPARAM_SKILL_FIST | CONDITIONPARAM_SKILL_CLUB | CONDITIONPARAM_SKILL_SWORD
  | CONDITIONPARAM_SKILL_AXE | CONDITIONPARAM_SKILL_DISTANCE | CONDITIONPARAM_SKILL_SHIELD | CONDITIONPARAM_SKILL_FISHING
  | CONDITIONPARAM_SKILL_MELEEPERCENT | CONDITIONPARAM_SKILL_FISTPERCENT | CONDITIONPARAM_SKILL_CLUBPERCENT
  | CONDITIONPARAM_SKILL_SWORDPERCENT | CONDITIONPARAM_SKILL_AXEPERCENT | CONDITIONPARAM_SKILL_DISTANCEPERCENT
  | CONDITIONPARAM_SKILL_SHIELDPERCENT | CONDITIONPARAM_SKILL_FISHINGPERCENT
  | CONDITIONPARAM_STAT_MAXHITPOINTS | CONDITIONPARAM_STAT_MAXMANAPOINTS | CONDITIONPARAM_STAT_SOULPOINTS
  | CONDITIONPARAM_STAT_MAGICPOINTS | CONDITIONPARAM_STAT_MAXHITPOINTSPERCENT | CONDITIONPARAM_STAT_MAXMANAPOINTSPERCENT
  | CONDITIONPARAM_STAT_SOULPOINTSPERCENT | CONDITIONPARAM_STAT_MAGICPOINTSPERCENT

text \<open>Each class calls the function of its base class, which may set the ticks, and then answers by its own
  table: only the generic conditions and light report that the ticks were set, light by answering no.\<close>

definition setParam_base :: "ConditionParam_t \<Rightarrow> int \<Rightarrow> Condition \<Rightarrow> Condition \<times> bool" where
  "setParam_base param value c =
     (if param = CONDITIONPARAM_TICKS then (c\<lparr>cd_ticks := value\<rparr>, True) else (c, False))"

definition set_skills :: "nat list \<Rightarrow> int \<Rightarrow> ConditionAttributes \<Rightarrow> ConditionAttributes" where
  "set_skills is v a = a\<lparr>ca_skills := fold (\<lambda>i xs. xs[i := v]) is (ca_skills a)\<rparr>"

definition set_skillsPercent :: "nat list \<Rightarrow> int \<Rightarrow> ConditionAttributes \<Rightarrow> ConditionAttributes" where
  "set_skillsPercent is v a = a\<lparr>ca_skillsPercent := fold (\<lambda>i xs. xs[i := v]) is (ca_skillsPercent a)\<rparr>"

definition set_stat :: "nat \<Rightarrow> int \<Rightarrow> ConditionAttributes \<Rightarrow> ConditionAttributes" where
  "set_stat i v a = a\<lparr>ca_stats := (ca_stats a)[i := v]\<rparr>"

definition set_statPercent :: "nat \<Rightarrow> int \<Rightarrow> ConditionAttributes \<Rightarrow> ConditionAttributes" where
  "set_statPercent i v a = a\<lparr>ca_statsPercent := (ca_statsPercent a)[i := max 0 v]\<rparr>"

fun attributes_param :: "ConditionParam_t \<Rightarrow> int \<Rightarrow> ConditionAttributes \<Rightarrow> ConditionAttributes option" where
  "attributes_param CONDITIONPARAM_SKILL_MELEE v a = Some (set_skills [1, 3, 2] v a)"
| "attributes_param CONDITIONPARAM_SKILL_MELEEPERCENT v a = Some (set_skillsPercent [1, 3, 2] v a)"
| "attributes_param CONDITIONPARAM_SKILL_FIST v a = Some (set_skills [0] v a)"
| "attributes_param CONDITIONPARAM_SKILL_FISTPERCENT v a = Some (set_skillsPercent [0] v a)"
| "attributes_param CONDITIONPARAM_SKILL_CLUB v a = Some (set_skills [1] v a)"
| "attributes_param CONDITIONPARAM_SKILL_CLUBPERCENT v a = Some (set_skillsPercent [1] v a)"
| "attributes_param CONDITIONPARAM_SKILL_SWORD v a = Some (set_skills [2] v a)"
| "attributes_param CONDITIONPARAM_SKILL_SWORDPERCENT v a = Some (set_skillsPercent [2] v a)"
| "attributes_param CONDITIONPARAM_SKILL_AXE v a = Some (set_skills [3] v a)"
| "attributes_param CONDITIONPARAM_SKILL_AXEPERCENT v a = Some (set_skillsPercent [3] v a)"
| "attributes_param CONDITIONPARAM_SKILL_DISTANCE v a = Some (set_skills [4] v a)"
| "attributes_param CONDITIONPARAM_SKILL_DISTANCEPERCENT v a = Some (set_skillsPercent [4] v a)"
| "attributes_param CONDITIONPARAM_SKILL_SHIELD v a = Some (set_skills [5] v a)"
| "attributes_param CONDITIONPARAM_SKILL_SHIELDPERCENT v a = Some (set_skillsPercent [5] v a)"
| "attributes_param CONDITIONPARAM_SKILL_FISHING v a = Some (set_skills [6] v a)"
| "attributes_param CONDITIONPARAM_SKILL_FISHINGPERCENT v a = Some (set_skillsPercent [6] v a)"
| "attributes_param CONDITIONPARAM_STAT_MAXHITPOINTS v a = Some (set_stat 0 v a)"
| "attributes_param CONDITIONPARAM_STAT_MAXMANAPOINTS v a = Some (set_stat 1 v a)"
| "attributes_param CONDITIONPARAM_STAT_SOULPOINTS v a = Some (set_stat 2 v a)"
| "attributes_param CONDITIONPARAM_STAT_MAGICPOINTS v a = Some (set_stat 3 v a)"
| "attributes_param CONDITIONPARAM_STAT_MAXHITPOINTSPERCENT v a = Some (set_statPercent 0 v a)"
| "attributes_param CONDITIONPARAM_STAT_MAXMANAPOINTSPERCENT v a = Some (set_statPercent 1 v a)"
| "attributes_param CONDITIONPARAM_STAT_SOULPOINTSPERCENT v a = Some (set_statPercent 2 v a)"
| "attributes_param CONDITIONPARAM_STAT_MAGICPOINTSPERCENT v a = Some (set_statPercent 3 v a)"
| "attributes_param _ v a = None"

fun regeneration_param :: "ConditionParam_t \<Rightarrow> int \<Rightarrow> ConditionRegeneration \<Rightarrow> ConditionRegeneration option" where
  "regeneration_param CONDITIONPARAM_HEALTHGAIN v r = Some (r\<lparr>healthGain := word_of_int v\<rparr>)"
| "regeneration_param CONDITIONPARAM_HEALTHTICKS v r = Some (r\<lparr>healthTicks := word_of_int v\<rparr>)"
| "regeneration_param CONDITIONPARAM_MANAGAIN v r = Some (r\<lparr>manaGain := word_of_int v\<rparr>)"
| "regeneration_param CONDITIONPARAM_MANATICKS v r = Some (r\<lparr>manaTicks := word_of_int v\<rparr>)"
| "regeneration_param _ v r = None"

fun soul_param :: "ConditionParam_t \<Rightarrow> int \<Rightarrow> ConditionSoul \<Rightarrow> ConditionSoul option" where
  "soul_param CONDITIONPARAM_SOULGAIN v r = Some (r\<lparr>soulGain := word_of_int v\<rparr>)"
| "soul_param CONDITIONPARAM_SOULTICKS v r = Some (r\<lparr>soulTicks := word_of_int v\<rparr>)"
| "soul_param _ v r = None"

text \<open>A damage condition answers yes for three of its parameters, and no for the others that it sets.\<close>

fun damage_param :: "ConditionParam_t \<Rightarrow> int \<Rightarrow> ConditionDamage \<Rightarrow> ConditionDamage \<times> bool" where
  "damage_param CONDITIONPARAM_OWNER v d = (d\<lparr>cd_owner := word_of_int v\<rparr>, True)"
| "damage_param CONDITIONPARAM_FORCEUPDATE v d = (d\<lparr>forceUpdate := (v \<noteq> 0)\<rparr>, True)"
| "damage_param CONDITIONPARAM_DELAYED v d = (d\<lparr>delayed := (v \<noteq> 0)\<rparr>, True)"
| "damage_param CONDITIONPARAM_MAXVALUE v d = (d\<lparr>maxDamage := \<bar>v\<bar>\<rparr>, False)"
| "damage_param CONDITIONPARAM_MINVALUE v d = (d\<lparr>minDamage := \<bar>v\<bar>\<rparr>, False)"
| "damage_param CONDITIONPARAM_STARTVALUE v d = (d\<lparr>startDamage := \<bar>v\<bar>\<rparr>, False)"
| "damage_param CONDITIONPARAM_TICKINTERVAL v d = (d\<lparr>tickInterval := \<bar>v\<bar>\<rparr>, False)"
| "damage_param CONDITIONPARAM_PERIODICDAMAGE v d = (d\<lparr>periodDamage := v\<rparr>, False)"
| "damage_param _ v d = (d, False)"

definition setParam_speed :: "ConditionParam_t \<Rightarrow> int \<Rightarrow> ConditionSpeed \<Rightarrow> Condition \<Rightarrow> Condition \<times> bool" where
  "setParam_speed param val v c =
     (if param = CONDITIONPARAM_SPEED
      then (c\<lparr>cd_class := Speed (v\<lparr>speedDelta := val\<rparr>),
              cd_type := (if val > 0 then CONDITION_HASTE else CONDITION_PARALYZE)\<rparr>, True)
      else (c, False))"

definition setParam_light :: "bool \<Rightarrow> ConditionParam_t \<Rightarrow> int \<Rightarrow> ConditionLight \<Rightarrow> Condition \<Rightarrow> Condition \<times> bool" where
  "setParam_light ret param val l c =
     (if ret then (c, False)
      else if param = CONDITIONPARAM_LIGHT_LEVEL
      then (c\<lparr>cd_class := Light (l\<lparr>lightInfo := (lightInfo l)\<lparr>light_level := word_of_int val\<rparr>\<rparr>)\<rparr>, True)
      else if param = CONDITIONPARAM_LIGHT_COLOR
      then (c\<lparr>cd_class := Light (l\<lparr>lightInfo := (lightInfo l)\<lparr>light_color := word_of_int val\<rparr>\<rparr>)\<rparr>, True)
      else (c, False))"

definition setParam :: "ConditionParam_t \<Rightarrow> int \<Rightarrow> Condition \<Rightarrow> Condition \<times> bool" where
  "setParam param val c0 =
     (let (c, ret) = setParam_base param val c0 in
      case cd_class c of
        Attributes a \<Rightarrow> (case attributes_param param val a of
            Some a' \<Rightarrow> (c\<lparr>cd_class := Attributes a'\<rparr>, True) | None \<Rightarrow> (c, False))
      | Regeneration r \<Rightarrow> (case regeneration_param param val r of
            Some r' \<Rightarrow> (c\<lparr>cd_class := Regeneration r'\<rparr>, True) | None \<Rightarrow> (c, False))
      | Soul r \<Rightarrow> (case soul_param param val r of
            Some r' \<Rightarrow> (c\<lparr>cd_class := Soul r'\<rparr>, True) | None \<Rightarrow> (c, False))
      | Damage d \<Rightarrow> (case damage_param param val d of (d', ok) \<Rightarrow> (c\<lparr>cd_class := Damage d'\<rparr>, ok))
      | Speed v \<Rightarrow> setParam_speed param val v c
      | Light l \<Rightarrow> setParam_light ret param val l c
      | _ \<Rightarrow> (c, ret))"

section \<open>Damage\<close>

text \<open>
  \<^verbatim>\<open>random_range\<close> with the uniform distribution, the 32 random bits of \<^verbatim>\<open>rand24b\<close> an argument.
\<close>

definition random_range :: "u32 \<Rightarrow> int \<Rightarrow> int \<Rightarrow> int" where
  "random_range r lowest_number highest_number =
     (if highest_number = lowest_number then lowest_number
      else let lo = min lowest_number highest_number; hi = max lowest_number highest_number
           in lo + uint r mod (hi - lo + 1))"

text \<open>
  The damage list descends from the first damage to 1, and repeats each value while that brings the sum
  closer to its share of the amount.  The code compares the quotients of the two sums and the share
  as floating point numbers; their rounding decides only where both sums are equally far from the share, and there
  the argument \<open>tie\<close> decides.  (With a share of 0 both quotients are infinite.)
\<close>

definition closer :: "(int \<Rightarrow> int \<Rightarrow> bool) \<Rightarrow> int \<Rightarrow> int \<Rightarrow> int \<Rightarrow> bool" where
  "closer tie i med tot \<longleftrightarrow> med \<noteq> 0 \<and>
     (if \<bar>med - (tot + i)\<bar> = \<bar>med - tot\<bar> then tie tot med else \<bar>med - (tot + i)\<bar> < \<bar>med - tot\<bar>)"

text \<open>The inner loop, for a value above 0, with the new tot.\<close>

function damage_round :: "(int \<Rightarrow> int \<Rightarrow> bool) \<Rightarrow> int \<Rightarrow> int \<Rightarrow> int \<Rightarrow> int list \<times> int" where
  "damage_round tie i med tot =
     (let tot' = tot + i in
      if 0 < i \<and> closer tie i med tot'
      then (case damage_round tie i med tot' of (xs, s) \<Rightarrow> (i # xs, s))
      else ([i], tot'))"
  by pat_completeness auto

termination
  by (relation "measure (\<lambda>(tie, i, med, tot). nat (med - tot))")
     (auto simp: closer_def split: if_splits)

declare damage_round.simps [simp del]

fun damage_rounds :: "(int \<Rightarrow> int \<Rightarrow> bool) \<Rightarrow> int \<Rightarrow> int \<Rightarrow> nat \<Rightarrow> int \<Rightarrow> int list" where
  "damage_rounds tie amount start 0 tot = []"
| "damage_rounds tie amount start (Suc k) tot =
     (let i = int (Suc k);
          n = start + 1 - i;
          med = (n * amount) div start
      in case damage_round tie i med tot of (xs, s) \<Rightarrow> xs @ damage_rounds tie amount start k s)"

definition generateDamageList :: "(int \<Rightarrow> int \<Rightarrow> bool) \<Rightarrow> int \<Rightarrow> int \<Rightarrow> int list" where
  "generateDamageList tie amount start = damage_rounds tie \<bar>amount\<bar> start (nat start) 0"

section \<open>The creature\<close>

datatype CreatureEvent = SendStats | SendSkills | SendIcons u32 | CreatureHealth | ChangeSpeed int
  | StopEventWalk | AddEventWalk | ChangeLight LightInfo | ChangeOutfit Outfit_t | ChangeVisible bool
  | CombatHit u32 u32 int | CombatConditionText u32 | IdleStatus

record World =
  w_now :: int
  w_rand :: u32
  w_tie :: "int \<Rightarrow> int \<Rightarrow> bool"
  w_field :: "u32 option"   \<comment> \<open>the combat type of the magic field on the creature's tile\<close>
  w_protection :: bool
  w_blockHit :: "u32 \<Rightarrow> int \<Rightarrow> bool \<times> int"
  w_changeHealth :: "u32 \<Rightarrow> int \<Rightarrow> bool"

record Creature =
  conditions :: "Condition list"
  cr_isPlayer :: bool
  baseSpeed :: int
  varSpeed :: int
  hasSteps :: bool   \<comment> \<open>\<^verbatim>\<open>listWalkDir\<close> is not empty\<close>
  skillLevels :: "int list"
  varSkills :: "int list"
  varStats :: "int list"
  cr_health :: int
  healthMax :: int
  cr_mana :: int
  manaMax :: int
  cr_soul :: int
  soulMax :: int
  cr_magLevel :: int
  conditionSuppressions :: u32
  internalLight :: LightInfo
  itemsLight :: LightInfo
  currentOutfit :: Outfit_t
  defaultOutfit :: Outfit_t
  pzLocked :: bool
  cr_events :: "CreatureEvent list"

definition cr_emit :: "CreatureEvent \<Rightarrow> Creature \<Rightarrow> Creature" where
  "cr_emit e s = s\<lparr>cr_events := cr_events s @ [e]\<rparr>"

definition getMaxHealth :: "Creature \<Rightarrow> int" where
  "getMaxHealth s = (if cr_isPlayer s then max 1 (healthMax s + varStats s ! 0) else healthMax s)"

definition getMaxMana :: "Creature \<Rightarrow> int" where
  "getMaxMana s = (if cr_isPlayer s then max 0 (manaMax s + varStats s ! 1) else manaMax s)"

definition soulInfo :: "Creature \<Rightarrow> int" where
  "soulInfo s = max 0 (cr_soul s + varStats s ! 2)"

definition getMagicLevel :: "Creature \<Rightarrow> int" where
  "getMagicLevel s = max 0 (cr_magLevel s + varStats s ! 3)"

definition getSkill :: "nat \<Rightarrow> Creature \<Rightarrow> int" where
  "getSkill i s = max 0 (skillLevels s ! i + varSkills s ! i)"

definition getSpeed :: "Creature \<Rightarrow> int" where
  "getSpeed s = baseSpeed s + varSpeed s"

definition Creature_changeHealth :: "int \<Rightarrow> Creature \<Rightarrow> Creature" where
  "Creature_changeHealth d s = cr_emit CreatureHealth
     (if d > 0 then s\<lparr>cr_health := cr_health s + min d (getMaxHealth s - cr_health s)\<rparr>
      else s\<lparr>cr_health := max 0 (cr_health s + d)\<rparr>)"

definition Creature_changeMana :: "int \<Rightarrow> Creature \<Rightarrow> Creature" where
  "Creature_changeMana d s =
     (if d > 0 then s\<lparr>cr_mana := cr_mana s + min d (getMaxMana s - cr_mana s)\<rparr>
      else s\<lparr>cr_mana := max 0 (cr_mana s + d)\<rparr>)"

definition changeHealth :: "int \<Rightarrow> Creature \<Rightarrow> Creature" where
  "changeHealth d s =
     (if cr_isPlayer s then cr_emit SendStats (Creature_changeHealth d s) else Creature_changeHealth d s)"

definition changeMana :: "int \<Rightarrow> Creature \<Rightarrow> Creature" where
  "changeMana d s =
     (if cr_isPlayer s then cr_emit SendStats (Creature_changeMana d s) else Creature_changeMana d s)"

definition changeSoul :: "int \<Rightarrow> Creature \<Rightarrow> Creature" where
  "changeSoul d s = cr_emit SendStats
     (if d > 0 then s\<lparr>cr_soul := cr_soul s + min d (soulMax s - cr_soul s)\<rparr>
      else s\<lparr>cr_soul := max 0 (cr_soul s + d)\<rparr>)"

definition setVarSkill :: "nat \<Rightarrow> int \<Rightarrow> Creature \<Rightarrow> Creature" where
  "setVarSkill i modifier s = s\<lparr>varSkills := (varSkills s)[i := varSkills s ! i + modifier]\<rparr>"

definition setVarStats :: "nat \<Rightarrow> int \<Rightarrow> Creature \<Rightarrow> Creature" where
  "setVarStats i modifier s0 =
     (let s = s0\<lparr>varStats := (varStats s0)[i := varStats s0 ! i + modifier]\<rparr> in
      if i = 0 then (if cr_health s > getMaxHealth s then Creature_changeHealth (getMaxHealth s - cr_health s) s
                     else cr_emit CreatureHealth s)
      else if i = 1 then (if cr_mana s > getMaxMana s then Creature_changeMana (getMaxMana s - cr_mana s) s else s)
      else s)"

definition setSpeed :: "int \<Rightarrow> Creature \<Rightarrow> Creature" where
  "setSpeed varSpeedDelta s0 =
     (let oldSpeed = getSpeed s0; s = s0\<lparr>varSpeed := varSpeedDelta\<rparr> in
      if getSpeed s \<le> 0 then cr_emit StopEventWalk s
      else if oldSpeed \<le> 0 \<and> hasSteps s then cr_emit AddEventWalk s
      else s)"

definition changeSpeed :: "int \<Rightarrow> Creature \<Rightarrow> Creature" where
  "changeSpeed varSpeedDelta s =
     (let s = setSpeed (getSpeed s - baseSpeed s + varSpeedDelta) s in cr_emit (ChangeSpeed (getSpeed s)) s)"

definition isSuppress :: "u32 \<Rightarrow> Creature \<Rightarrow> bool" where
  "isSuppress ty s \<longleftrightarrow> conditionSuppressions s AND ty = ty"

definition hasCondition :: "World \<Rightarrow> u32 \<Rightarrow> bool \<Rightarrow> Creature \<Rightarrow> bool" where
  "hasCondition w ty checkTime s \<longleftrightarrow> \<not> isSuppress ty s \<and>
     list_ex (\<lambda>c. cd_type c = ty \<and> (\<not> checkTime \<or> cd_endTime c = 0 \<or> cd_endTime c \<ge> w_now w)) (conditions s)"

definition isInvisible :: "World \<Rightarrow> Creature \<Rightarrow> bool" where
  "isInvisible w s \<longleftrightarrow> hasCondition w CONDITION_INVISIBLE True s"

definition getCreatureLight :: "Creature \<Rightarrow> LightInfo" where
  "getCreatureLight s =
     (if cr_isPlayer s then (if light_level (internalLight s) > light_level (itemsLight s) then internalLight s
                             else itemsLight s)
      else internalLight s)"

definition setCreatureLight :: "LightInfo \<Rightarrow> Creature \<Rightarrow> Creature" where
  "setCreatureLight l s = s\<lparr>internalLight := l\<rparr>"

definition setNormalCreatureLight :: "Creature \<Rightarrow> Creature" where
  "setNormalCreatureLight s = s\<lparr>internalLight := \<lparr>light_level = 0, light_color = 0\<rparr>\<rparr>"

definition changeLight :: "Creature \<Rightarrow> Creature" where
  "changeLight s = cr_emit (ChangeLight (getCreatureLight s)) s"

definition internalCreatureChangeOutfit :: "World \<Rightarrow> Outfit_t \<Rightarrow> Creature \<Rightarrow> Creature" where
  "internalCreatureChangeOutfit w outfit s0 =
     (let s = s0\<lparr>currentOutfit := outfit\<rparr> in if isInvisible w s then s else cr_emit (ChangeOutfit outfit) s)"

definition internalCreatureChangeVisible :: "bool \<Rightarrow> Creature \<Rightarrow> Creature" where
  "internalCreatureChangeVisible visible s = cr_emit (ChangeVisible visible) s"

definition sendIcons :: "Creature \<Rightarrow> Creature" where
  "sendIcons s = cr_emit (SendIcons (fold (\<lambda>c icons. if isSuppress (cd_type c) s then icons else icons OR getIcons c)
     (conditions s) 0)) s"

text \<open>Whether the damage of a burning creature is used up while it stands in a field: not if it is the field's own.\<close>

definition onTickCondition :: "World \<Rightarrow> u32 \<Rightarrow> bool \<Rightarrow> bool" where
  "onTickCondition w ty bRemove = (case w_field w of
     None \<Rightarrow> bRemove
   | Some combatType \<Rightarrow>
       (if ty = CONDITION_FIRE then combatType \<noteq> 8
        else if ty = CONDITION_ENERGY then combatType \<noteq> 2
        else if ty = CONDITION_POISON then combatType \<noteq> 4
        else bRemove))"

definition ConditionToDamageType :: "u32 \<Rightarrow> u32" where
  "ConditionToDamageType ty =
     (if ty = CONDITION_FIRE then 8 else if ty = CONDITION_ENERGY then 2 else if ty = CONDITION_POISON then 4 else 0)"

definition DamageToConditionType :: "u32 \<Rightarrow> u32" where
  "DamageToConditionType ty =
     (if ty = 8 then CONDITION_FIRE else if ty = 2 then CONDITION_ENERGY else if ty = 4 then CONDITION_POISON
      else CONDITION_NONE)"

definition onEndCondition :: "u32 \<Rightarrow> Creature \<Rightarrow> Creature" where
  "onEndCondition ty s =
     (if cr_isPlayer s
      then let s = sendIcons s in if ty = CONDITION_INFIGHT then (cr_emit IdleStatus s)\<lparr>pzLocked := False\<rparr> else s
      else s)"

section \<open>What each class does to the creature\<close>

subsection \<open>Attributes\<close>

text \<open>A percentage of a value above 100 percent, cut towards zero.\<close>

definition percent_change :: "int \<Rightarrow> int \<Rightarrow> int" where
  "percent_change x p = (let y = x * (p - 100) in sgn y * (\<bar>y\<bar> div 100))"

definition statValue :: "nat \<Rightarrow> Creature \<Rightarrow> int" where
  "statValue i s = (if i = 0 then getMaxHealth s else if i = 1 then getMaxMana s else if i = 2 then soulInfo s
                    else getMagicLevel s)"

definition updatePercentStats :: "Creature \<Rightarrow> ConditionAttributes \<Rightarrow> ConditionAttributes" where
  "updatePercentStats s a = a\<lparr>ca_stats := map (\<lambda>i. if ca_statsPercent a ! i = 0 then ca_stats a ! i
     else percent_change (statValue i s) (ca_statsPercent a ! i)) [0..<STATS]\<rparr>"

definition updatePercentSkills :: "Creature \<Rightarrow> ConditionAttributes \<Rightarrow> ConditionAttributes" where
  "updatePercentSkills s a = a\<lparr>ca_skills := map (\<lambda>i. if ca_skillsPercent a ! i = 0 then ca_skills a ! i
     else percent_change (getSkill i s) (ca_skillsPercent a ! i)) [0..<SKILLS]\<rparr>"

definition updateStats :: "ConditionAttributes \<Rightarrow> Creature \<Rightarrow> Creature" where
  "updateStats a s =
     (let is = filter (\<lambda>i. ca_stats a ! i \<noteq> 0) [0..<STATS];
          s = fold (\<lambda>i. setVarStats i (ca_stats a ! i)) is s
      in if is = [] then s else cr_emit SendStats s)"

definition updateSkills :: "ConditionAttributes \<Rightarrow> Creature \<Rightarrow> Creature" where
  "updateSkills a s =
     (let is = filter (\<lambda>i. ca_skills a ! i \<noteq> 0) [0..<SKILLS];
          s = fold (\<lambda>i. setVarSkill i (ca_skills a ! i)) is s
      in if is = [] then s else cr_emit SendSkills s)"

definition applyAttributes :: "ConditionAttributes \<Rightarrow> Creature \<Rightarrow> ConditionAttributes \<times> Creature" where
  "applyAttributes a s =
     (if cr_isPlayer s
      then let a = updatePercentSkills s a; s = updateSkills a s; a = updatePercentStats s a in (a, updateStats a s)
      else (a, s))"

definition endAttributes :: "ConditionAttributes \<Rightarrow> Creature \<Rightarrow> Creature" where
  "endAttributes a s =
     (if cr_isPlayer s
      then let is = filter (\<lambda>i. ca_skills a ! i \<noteq> 0 \<or> ca_skillsPercent a ! i \<noteq> 0) [0..<SKILLS];
               s = fold (\<lambda>i. setVarSkill i (- (ca_skills a ! i))) is s;
               s = (if is = [] then s else cr_emit SendSkills s);
               js = filter (\<lambda>i. ca_stats a ! i \<noteq> 0) [0..<STATS];
               s = fold (\<lambda>i. setVarStats i (- (ca_stats a ! i))) js s
           in if js = [] then s else cr_emit SendStats s
      else s)"

subsection \<open>Damage over time\<close>

definition addDamage :: "int \<Rightarrow> int \<Rightarrow> int \<Rightarrow> int \<Rightarrow> ConditionDamage \<times> int \<times> int \<Rightarrow> (ConditionDamage \<times> int \<times> int) \<times> bool" where
  "addDamage now rounds time val = (\<lambda>(d, ticks, endTime).
     if rounds = - 1 then ((d\<lparr>periodDamage := val, tickInterval := \<bar>time\<bar>\<rparr>, - 1, endTime), True)
     else if periodDamage d > 0 then ((d, ticks, endTime), False)
     else (fold (\<lambda>_ (d, ticks, endTime).
             (d\<lparr>damageList := damageList d @ [\<lparr>iv_timeLeft = time, iv_value = val, iv_interval = time\<rparr>]\<rparr>,
              if ticks \<noteq> - 1 then ticks + time else ticks, if ticks \<noteq> - 1 then ticks + time + now else endTime))
           [0..<nat rounds] (d, ticks, endTime), True))"

text \<open>The first damage is a twentieth of the amount, rounded up, unless it was set.\<close>

definition first_damage :: "int \<Rightarrow> ConditionDamage \<Rightarrow> int" where
  "first_damage amount d = (if startDamage d > maxDamage d then maxDamage d
     else if startDamage d = 0 then max 1 (- ((- amount) div 20)) else startDamage d)"

definition damage_init :: "World \<Rightarrow> ConditionDamage \<times> int \<times> int \<Rightarrow> (ConditionDamage \<times> int \<times> int) \<times> bool" where
  "damage_init w = (\<lambda>(d, ticks, endTime).
     if periodDamage d \<noteq> 0 then ((d, ticks, endTime), True)
     else let (d, ticks, endTime) =
       (if damageList d = []
        then let amount = random_range (w_rand w) (minDamage d) (maxDamage d) in
          if amount \<noteq> 0
          then let d = d\<lparr>startDamage := first_damage amount d\<rparr>
               in fold (\<lambda>x st. fst (addDamage (w_now w) 1 (tickInterval d) (- x) st))
                    (generateDamageList (w_tie w) amount (startDamage d)) (d, 0, w_now w)
          else (d, 0, w_now w)
        else (d, ticks, endTime))
      in ((d, ticks, endTime), damageList d \<noteq> []))"

definition getNextDamage :: "int \<Rightarrow> ConditionDamage \<Rightarrow> int option \<times> ConditionDamage" where
  "getNextDamage ticks d =
     (if periodDamage d \<noteq> 0 then (Some (periodDamage d), d)
      else case damageList d of
        [] \<Rightarrow> (None, d)
      | i # is \<Rightarrow> (Some (iv_value i), if ticks \<noteq> - 1 then d\<lparr>damageList := is\<rparr> else d))"

definition doDamage :: "World \<Rightarrow> u32 \<Rightarrow> u32 \<Rightarrow> int \<Rightarrow> Creature \<Rightarrow> Creature \<times> bool" where
  "doDamage w ty owner damage s =
     (if isSuppress ty s then (s, True)
      else let combatType = ConditionToDamageType ty; (blocked, damage) = w_blockHit w combatType damage in
        if blocked then (s, False)
        else (cr_emit (CombatHit combatType owner damage) s, w_changeHealth w combatType damage))"

definition getTotalDamage :: "ConditionDamage \<Rightarrow> int" where
  "getTotalDamage d = \<bar>if damageList d \<noteq> [] then (\<Sum>i\<leftarrow>damageList d. iv_value i)
     else let x = maxDamage d - minDamage d in maxDamage d + sgn x * (\<bar>x\<bar> div 2)\<bar>"

subsection \<open>Speed\<close>

text \<open>The number that a bit pattern of a \<^verbatim>\<open>float\<close> stands for (the patterns of infinities and the like are not used).\<close>

definition float_value :: "u32 \<Rightarrow> real" where
  "float_value b = (let e = unat (drop_bit 23 b AND 0xFF); m = unat (b AND 0x7FFFFF) in
     (if bit b 31 then - 1 else 1) * (if e = 0 then real m / 2 ^ 149 else real (m + 2 ^ 23) * 2 ^ e / 2 ^ 150))"

definition getFormulaValues :: "int \<Rightarrow> ConditionSpeed \<Rightarrow> int \<times> int" where
  "getFormulaValues var v = (\<lceil>real_of_int var * float_value (mina v) + float_value (minb v)\<rceil>,
                             \<lceil>real_of_int var * float_value (maxa v) + float_value (maxb v)\<rceil>)"

definition speed_drawn :: "World \<Rightarrow> Creature \<Rightarrow> ConditionSpeed \<Rightarrow> ConditionSpeed" where
  "speed_drawn w s v =
     (if speedDelta v = 0
      then case getFormulaValues (baseSpeed s) v of (mn, mx) \<Rightarrow> v\<lparr>speedDelta := random_range (w_rand w) mn mx\<rparr>
      else v)"

subsection \<open>Outfits and light\<close>

definition changeOutfit :: "World \<Rightarrow> Outfit_t list \<Rightarrow> Creature \<Rightarrow> Creature" where
  "changeOutfit w outfits s =
     (if outfits = [] then s
      else internalCreatureChangeOutfit w
             (outfits ! nat (random_range (w_rand w) 0 (int (length outfits) - 1))) s)"

definition light_started :: "int \<Rightarrow> ConditionLight \<Rightarrow> ConditionLight option" where
  "light_started ticks l =
     (if light_level (lightInfo l) = 0 then None
      else Some (l\<lparr>internalLightTicks := 0, lightChangeInterval := word_of_int ticks div light_level (lightInfo l)\<rparr>))"

section \<open>The virtual functions\<close>

definition startCondition_base :: "World \<Rightarrow> Condition \<Rightarrow> Condition" where
  "startCondition_base w c = (if cd_ticks c > 0 then c\<lparr>cd_endTime := cd_ticks c + w_now w\<rparr> else c)"

definition executeCondition_base :: "World \<Rightarrow> int \<Rightarrow> Condition \<Rightarrow> Condition \<times> bool" where
  "executeCondition_base w interval c =
     (if cd_ticks c \<noteq> - 1
      then (c\<lparr>cd_ticks := max 0 (cd_ticks c - interval)\<rparr>, cd_endTime c \<ge> w_now w)
      else (c, True))"

definition updateCondition :: "World \<Rightarrow> Condition \<Rightarrow> Condition \<Rightarrow> bool" where
  "updateCondition w add c \<longleftrightarrow> \<not> (cd_type c \<noteq> cd_type add
     \<or> (cd_ticks c = - 1 \<and> cd_ticks add > 0)
     \<or> (cd_ticks add \<ge> 0 \<and> cd_endTime c > w_now w + cd_ticks add))"

definition updateCondition_damage :: "ConditionDamage \<Rightarrow> int \<Rightarrow> ConditionDamage \<Rightarrow> int \<Rightarrow> bool" where
  "updateCondition_damage add addTicks d ticks \<longleftrightarrow> forceUpdate add \<or>
     \<not> ((ticks = - 1 \<and> addTicks > 0) \<or> addTicks \<le> ticks \<or> getTotalDamage add < getTotalDamage d
        \<or> periodDamage add < periodDamage d)"

text \<open>The damage part of a condition with its ticks and end time, which the functions above work on.\<close>

definition put_damage :: "ConditionDamage \<times> int \<times> int \<Rightarrow> Condition \<Rightarrow> Condition" where
  "put_damage st c = (case st of (d, ticks, endTime) \<Rightarrow>
     c\<lparr>cd_class := Damage d, cd_ticks := ticks, cd_endTime := endTime\<rparr>)"

definition startDamageCondition :: "World \<Rightarrow> ConditionDamage \<Rightarrow> Condition \<Rightarrow> Creature \<Rightarrow> Condition \<times> Creature \<times> bool" where
  "startDamageCondition w d c s =
     (let (st, ok) = damage_init w (d, cd_ticks c, cd_endTime c); c = put_damage st c; d = fst st in
      if \<not> ok then (c, s, False)
      else if delayed d then (c, s, True)
      else case getNextDamage (cd_ticks c) d of
        (None, _) \<Rightarrow> (c, s, True)
      | (Some damage, d') \<Rightarrow>
          (case doDamage w (cd_type c) (cd_owner d') damage s of
             (s, ok) \<Rightarrow> (c\<lparr>cd_class := Damage d'\<rparr>, s, ok)))"

definition startAttributes :: "ConditionAttributes \<Rightarrow> Condition \<Rightarrow> Creature \<Rightarrow> (Condition \<times> Creature \<times> bool) option" where
  "startAttributes a c s = (case applyAttributes a s of (a, s) \<Rightarrow> Some (c\<lparr>cd_class := Attributes a\<rparr>, s, True))"

definition startInvisible :: "Condition \<Rightarrow> Creature \<Rightarrow> (Condition \<times> Creature \<times> bool) option" where
  "startInvisible c s = Some (c, internalCreatureChangeVisible False s, True)"

definition startSpeed :: "World \<Rightarrow> ConditionSpeed \<Rightarrow> Condition \<Rightarrow> Creature \<Rightarrow> (Condition \<times> Creature \<times> bool) option" where
  "startSpeed w v c s = (let v = speed_drawn w s v in
     Some (c\<lparr>cd_class := Speed v\<rparr>, changeSpeed (speedDelta v) s, True))"

definition startOutfit :: "World \<Rightarrow> Outfit_t list \<Rightarrow> Condition \<Rightarrow> Creature \<Rightarrow> (Condition \<times> Creature \<times> bool) option" where
  "startOutfit w outfits c s = Some (c, changeOutfit w outfits s, True)"

definition startLight :: "ConditionLight \<Rightarrow> Condition \<Rightarrow> Creature \<Rightarrow> (Condition \<times> Creature \<times> bool) option" where
  "startLight l c s = map_option (\<lambda>l. (c\<lparr>cd_class := Light l\<rparr>, changeLight (setCreatureLight (lightInfo l) s), True))
     (light_started (cd_ticks c) l)"

definition startCondition :: "World \<Rightarrow> Condition \<Rightarrow> Creature \<Rightarrow> (Condition \<times> Creature \<times> bool) option" where
  "startCondition w c0 s =
     (let c = startCondition_base w c0 in
      case cd_class c of
        Attributes a \<Rightarrow> startAttributes a c s
      | Invisible \<Rightarrow> startInvisible c s
      | Damage d \<Rightarrow> Some (startDamageCondition w d c s)
      | Speed v \<Rightarrow> startSpeed w v c s
      | OutfitC outfits \<Rightarrow> startOutfit w outfits c s
      | Light l \<Rightarrow> startLight l c s
      | _ \<Rightarrow> Some (c, s, True))"

lemmas startCondition_defs = startCondition_def startAttributes_def startInvisible_def startSpeed_def startOutfit_def
  startLight_def

definition executeDamageCondition ::
    "World \<Rightarrow> int \<Rightarrow> ConditionDamage \<Rightarrow> Condition \<Rightarrow> Creature \<Rightarrow> (Condition \<times> bool) \<times> Creature" where
  "executeDamageCondition w interval d c s =
     (if periodDamage d \<noteq> 0
      then let t = periodDamageTick d + interval in
        if t \<ge> tickInterval d
        then (executeCondition_base w interval (c\<lparr>cd_class := Damage (d\<lparr>periodDamageTick := 0\<rparr>)\<rparr>),
              fst (doDamage w (cd_type c) (cd_owner d) (periodDamage d) s))
        else (executeCondition_base w interval (c\<lparr>cd_class := Damage (d\<lparr>periodDamageTick := t\<rparr>)\<rparr>), s)
      else case damageList d of
        [] \<Rightarrow> (executeCondition_base w interval c, s)
      | i # is \<Rightarrow>
          (let bRemove = onTickCondition w (cd_type c) (cd_ticks c \<noteq> - 1);
               left = iv_timeLeft i - interval;
               d' = d\<lparr>damageList := (if left \<le> 0 then (if bRemove then is else i\<lparr>iv_timeLeft := iv_interval i\<rparr> # is)
                                     else i\<lparr>iv_timeLeft := left\<rparr> # is)\<rparr>;
               s = (if left \<le> 0 then fst (doDamage w (cd_type c) (cd_owner d) (iv_value i) s) else s);
               c = c\<lparr>cd_class := Damage d'\<rparr>
           in if bRemove then (executeCondition_base w interval c, s)
              else (executeCondition_base w 0
                      (if cd_ticks c > 0 then c\<lparr>cd_endTime := cd_endTime c + interval\<rparr> else c), s)))"

definition executeRegeneration :: "World \<Rightarrow> u32 \<Rightarrow> ConditionRegeneration \<Rightarrow> Creature \<Rightarrow> ConditionRegeneration \<times> Creature" where
  "executeRegeneration w interval r s =
     (let r = r\<lparr>internalHealthTicks := internalHealthTicks r + interval,
                internalManaTicks := internalManaTicks r + interval\<rparr> in
      if w_protection w then (r, s)
      else let (r, s) = (if internalHealthTicks r \<ge> healthTicks r
                         then (r\<lparr>internalHealthTicks := 0\<rparr>, changeHealth (sint (healthGain r)) s) else (r, s))
           in if internalManaTicks r \<ge> manaTicks r
              then (r\<lparr>internalManaTicks := 0\<rparr>, changeMana (sint (manaGain r)) s) else (r, s))"

definition executeSoul :: "World \<Rightarrow> u32 \<Rightarrow> ConditionSoul \<Rightarrow> Creature \<Rightarrow> ConditionSoul \<times> Creature" where
  "executeSoul w interval r s =
     (let r = r\<lparr>internalSoulTicks := internalSoulTicks r + interval\<rparr> in
      if cr_isPlayer s \<and> \<not> w_protection w \<and> internalSoulTicks r \<ge> soulTicks r
      then (r\<lparr>internalSoulTicks := 0\<rparr>, changeSoul (sint (soulGain r)) s) else (r, s))"

definition executeLight :: "u32 \<Rightarrow> ConditionLight \<Rightarrow> Creature \<Rightarrow> ConditionLight \<times> Creature" where
  "executeLight interval l s =
     (let l = l\<lparr>internalLightTicks := internalLightTicks l + interval\<rparr> in
      if internalLightTicks l \<ge> lightChangeInterval l
      then let l = l\<lparr>internalLightTicks := 0\<rparr>; creatureLight = getCreatureLight s in
        if light_level creatureLight > 0
        then (l, changeLight (setCreatureLight (creatureLight\<lparr>light_level := light_level creatureLight - 1\<rparr>) s))
        else (l, s)
      else (l, s))"

definition executeCondition :: "World \<Rightarrow> u32 \<Rightarrow> Condition \<Rightarrow> Creature \<Rightarrow> (Condition \<times> bool) \<times> Creature" where
  "executeCondition w interval c s = (case cd_class c of
     Damage d \<Rightarrow> executeDamageCondition w (sint interval) d c s
   | Regeneration r \<Rightarrow> (case executeRegeneration w interval r s of (r, s) \<Rightarrow>
        (executeCondition_base w (sint interval) (c\<lparr>cd_class := Regeneration r\<rparr>), s))
   | Soul r \<Rightarrow> (case executeSoul w interval r s of (r, s) \<Rightarrow>
        (executeCondition_base w (sint interval) (c\<lparr>cd_class := Soul r\<rparr>), s))
   | Light l \<Rightarrow> (case executeLight interval l s of (l, s) \<Rightarrow>
        (executeCondition_base w (sint interval) (c\<lparr>cd_class := Light l\<rparr>), s))
   | _ \<Rightarrow> (executeCondition_base w (sint interval) c, s))"

definition endInvisible :: "World \<Rightarrow> Creature \<Rightarrow> Creature" where
  "endInvisible w s = (if isInvisible w s then s else internalCreatureChangeVisible True s)"

definition endSpeed :: "ConditionSpeed \<Rightarrow> Creature \<Rightarrow> Creature" where
  "endSpeed v s = changeSpeed (- speedDelta v) s"

definition endOutfit :: "World \<Rightarrow> Creature \<Rightarrow> Creature" where
  "endOutfit w s = internalCreatureChangeOutfit w (defaultOutfit s) s"

definition endLight :: "Creature \<Rightarrow> Creature" where
  "endLight s = changeLight (setNormalCreatureLight s)"

definition endCondition :: "World \<Rightarrow> Condition \<Rightarrow> Creature \<Rightarrow> Creature" where
  "endCondition w c s = (case cd_class c of
     Attributes a \<Rightarrow> endAttributes a s
   | Invisible \<Rightarrow> endInvisible w s
   | Speed v \<Rightarrow> endSpeed v s
   | OutfitC _ \<Rightarrow> endOutfit w s
   | Light _ \<Rightarrow> endLight s
   | _ \<Rightarrow> s)"

lemmas endCondition_defs = endCondition_def endInvisible_def endSpeed_def endOutfit_def endLight_def

text \<open>A condition meets another one of its type and id: \<open>c\<close> is kept and takes over what it needs from \<open>add\<close>.\<close>

definition mergeDamage ::
    "World \<Rightarrow> ConditionDamage \<Rightarrow> int \<Rightarrow> ConditionDamage \<Rightarrow> Condition \<Rightarrow> Creature \<Rightarrow> Condition \<times> Creature" where
  "mergeDamage w add addTicks d c s =
     (if updateCondition_damage add addTicks d (cd_ticks c)
      then let nextTimeLeft = (case damageList d of [] \<Rightarrow> tickInterval add | i # _ \<Rightarrow> iv_timeLeft i);
               d = d\<lparr>cd_owner := cd_owner add, maxDamage := maxDamage add, minDamage := minDamage add,
                     startDamage := startDamage add, tickInterval := tickInterval add,
                     periodDamage := periodDamage add, damageList := damageList add\<rparr>;
               (st, ok) = damage_init w (d, addTicks, addTicks + w_now w)
           in if \<not> ok then (put_damage st c, s)
              else let (d, ticks, endTime) = st;
                       d = (case damageList d of [] \<Rightarrow> d
                            | i # is \<Rightarrow> d\<lparr>damageList := i\<lparr>iv_timeLeft := nextTimeLeft\<rparr> # is\<rparr>);
                       c = put_damage (d, ticks, endTime) c
                   in if delayed d then (c, s)
                      else case getNextDamage ticks d of
                        (None, _) \<Rightarrow> (c, s)
                      | (Some damage, d') \<Rightarrow>
                          (c\<lparr>cd_class := Damage d'\<rparr>, fst (doDamage w (cd_type c) (cd_owner d') damage s))
      else (c, s))"

text \<open>\<open>taken_over\<close> is the kept condition with the ticks of the new one.\<close>

abbreviation taken_over :: "World \<Rightarrow> Condition \<Rightarrow> Condition \<Rightarrow> Condition" where
  "taken_over w add c \<equiv> setTicks (w_now w) (cd_ticks add) c"

definition mergeGeneric :: "World \<Rightarrow> Condition \<Rightarrow> Condition \<Rightarrow> Creature \<Rightarrow> (Condition \<times> Creature) option" where
  "mergeGeneric w add c s = Some (if updateCondition w add c then taken_over w add c else c, s)"

definition mergeAttributes :: "World \<Rightarrow> ConditionAttributes \<Rightarrow> Condition \<Rightarrow> Condition \<Rightarrow> Creature \<Rightarrow> (Condition \<times> Creature) option" where
  "mergeAttributes w a add c s =
     (if updateCondition w add c
      then (case cd_class add of
          Attributes b \<Rightarrow>
            (let s = endAttributes a s;
                 a = a\<lparr>ca_skills := ca_skills b, ca_skillsPercent := ca_skillsPercent b,
                       ca_stats := ca_stats b, ca_statsPercent := ca_statsPercent b\<rparr>;
                 (a, s) = applyAttributes a s
             in Some ((taken_over w add c)\<lparr>cd_class := Attributes a\<rparr>, s))
        | _ \<Rightarrow> None)
      else Some (c, s))"

definition mergeRegeneration :: "World \<Rightarrow> ConditionRegeneration \<Rightarrow> Condition \<Rightarrow> Condition \<Rightarrow> Creature \<Rightarrow> (Condition \<times> Creature) option" where
  "mergeRegeneration w r add c s =
     (if updateCondition w add c
      then (case cd_class add of
          Regeneration q \<Rightarrow> Some ((taken_over w add c)\<lparr>cd_class := Regeneration (r\<lparr>healthTicks := healthTicks q,
            manaTicks := manaTicks q, healthGain := healthGain q, manaGain := manaGain q\<rparr>)\<rparr>, s)
        | _ \<Rightarrow> None)
      else Some (c, s))"

definition mergeSoul :: "World \<Rightarrow> ConditionSoul \<Rightarrow> Condition \<Rightarrow> Condition \<Rightarrow> Creature \<Rightarrow> (Condition \<times> Creature) option" where
  "mergeSoul w r add c s =
     (if updateCondition w add c
      then (case cd_class add of
          Soul q \<Rightarrow> Some ((taken_over w add c)\<lparr>cd_class := Soul (r\<lparr>soulTicks := soulTicks q, soulGain := soulGain q\<rparr>)\<rparr>, s)
        | _ \<Rightarrow> None)
      else Some (c, s))"

definition mergeSpeed :: "World \<Rightarrow> ConditionSpeed \<Rightarrow> Condition \<Rightarrow> Condition \<Rightarrow> Creature \<Rightarrow> (Condition \<times> Creature) option" where
  "mergeSpeed w v add c s =
     (if cd_type c \<noteq> cd_type add \<or> (cd_ticks c = - 1 \<and> cd_ticks add > 0) then Some (c, s)
      else (case cd_class add of
          Speed q \<Rightarrow>
            (let v' = speed_drawn w s (v\<lparr>speedDelta := speedDelta q, mina := mina q, maxa := maxa q,
                                       minb := minb q, maxb := maxb q\<rparr>);
                 newSpeedChange = speedDelta v' - speedDelta v
             in Some ((taken_over w add c)\<lparr>cd_class := Speed v'\<rparr>,
                      if newSpeedChange \<noteq> 0 then changeSpeed newSpeedChange s else s))
        | _ \<Rightarrow> None))"

definition mergeOutfit :: "World \<Rightarrow> Condition \<Rightarrow> Condition \<Rightarrow> Creature \<Rightarrow> (Condition \<times> Creature) option" where
  "mergeOutfit w add c s =
     (if updateCondition w add c
      then (case cd_class add of
          OutfitC outfits \<Rightarrow> Some ((taken_over w add c)\<lparr>cd_class := OutfitC outfits\<rparr>, changeOutfit w outfits s)
        | _ \<Rightarrow> None)
      else Some (c, s))"

definition mergeLight :: "World \<Rightarrow> ConditionLight \<Rightarrow> Condition \<Rightarrow> Condition \<Rightarrow> Creature \<Rightarrow> (Condition \<times> Creature) option" where
  "mergeLight w l add c s =
     (if updateCondition w add c
      then (case cd_class add of
          Light q \<Rightarrow> map_option
            (\<lambda>l. ((taken_over w add c)\<lparr>cd_class := Light l\<rparr>, changeLight (setCreatureLight (lightInfo l) s)))
            (light_started (cd_ticks add) (l\<lparr>lightInfo := lightInfo q\<rparr>))
        | _ \<Rightarrow> None)
      else Some (c, s))"

definition addCondition_to :: "World \<Rightarrow> Condition \<Rightarrow> Condition \<Rightarrow> Creature \<Rightarrow> (Condition \<times> Creature) option" where
  "addCondition_to w add c s = (case cd_class c of
     Attributes a \<Rightarrow> mergeAttributes w a add c s
   | Regeneration r \<Rightarrow> mergeRegeneration w r add c s
   | Soul r \<Rightarrow> mergeSoul w r add c s
   | Damage d \<Rightarrow>
       (if cd_type add = cd_type c
        then (case cd_class add of
            Damage q \<Rightarrow> Some (mergeDamage w q (cd_ticks add) d c s)
          | _ \<Rightarrow> None)
        else Some (c, s))
   | Speed v \<Rightarrow> mergeSpeed w v add c s
   | OutfitC _ \<Rightarrow> mergeOutfit w add c s
   | Light l \<Rightarrow> mergeLight w l add c s
   | _ \<Rightarrow> mergeGeneric w add c s)"

lemmas addCondition_to_defs = addCondition_to_def mergeGeneric_def mergeAttributes_def mergeRegeneration_def mergeSoul_def
  mergeSpeed_def mergeOutfit_def mergeLight_def

section \<open>The list of conditions\<close>

definition getCondition :: "u32 \<Rightarrow> int \<Rightarrow> Creature \<Rightarrow> Condition option" where
  "getCondition ty cid s = find (\<lambda>c. cd_type c = ty \<and> cd_id c = cid) (conditions s)"

definition getConditionOfType :: "u32 \<Rightarrow> Creature \<Rightarrow> Condition option" where
  "getConditionOfType ty s = find (\<lambda>c. cd_type c = ty) (conditions s)"

text \<open>The loops that remove conditions: those passed already, and those to come; while one ends it is no
  longer in the list.\<close>

fun removing :: "World \<Rightarrow> (Condition \<Rightarrow> bool) \<Rightarrow> Condition list \<Rightarrow> Condition list \<Rightarrow> Creature \<Rightarrow> Creature" where
  "removing w p passed [] s = s\<lparr>conditions := passed\<rparr>"
| "removing w p passed (c # cs) s =
     (if p c then removing w p passed cs (onEndCondition (cd_type c) (endCondition w c (s\<lparr>conditions := passed @ cs\<rparr>)))
      else removing w p (passed @ [c]) cs s)"

definition removeCondition :: "World \<Rightarrow> u32 \<Rightarrow> Creature \<Rightarrow> Creature" where
  "removeCondition w ty s = removing w (\<lambda>c. cd_type c = ty) [] (conditions s) s"

definition removeCondition_id :: "World \<Rightarrow> u32 \<Rightarrow> int \<Rightarrow> Creature \<Rightarrow> Creature" where
  "removeCondition_id w ty cid s = removing w (\<lambda>c. cd_type c = ty \<and> cd_id c = cid) [] (conditions s) s"

text \<open>Removal of one condition, given by its place in the list.\<close>

definition removeCondition_at :: "World \<Rightarrow> nat \<Rightarrow> Creature \<Rightarrow> Creature" where
  "removeCondition_at w k s =
     (if k < length (conditions s)
      then let c = conditions s ! k;
               s = s\<lparr>conditions := take k (conditions s) @ drop (Suc k) (conditions s)\<rparr>
           in onEndCondition (cd_type c) (endCondition w c s)
      else s)"

definition onAddCondition :: "World \<Rightarrow> u32 \<Rightarrow> Creature \<Rightarrow> Creature" where
  "onAddCondition w ty s0 =
     (let s = (if ty = CONDITION_PARALYZE \<and> hasCondition w CONDITION_HASTE True s0
               then removeCondition w CONDITION_HASTE s0
               else if ty = CONDITION_HASTE \<and> hasCondition w CONDITION_PARALYZE True s0
               then removeCondition w CONDITION_PARALYZE s0 else s0)
      in if cr_isPlayer s then sendIcons s else s)"

text \<open>The first condition of the type and id is changed in place.\<close>

fun change_first :: "('a \<Rightarrow> bool) \<Rightarrow> 'a \<Rightarrow> 'a list \<Rightarrow> 'a list" where
  "change_first p y [] = []"
| "change_first p y (x # xs) = (if p x then y # xs else x # change_first p y xs)"

definition addCondition :: "World \<Rightarrow> Condition \<Rightarrow> Creature \<Rightarrow> (Creature \<times> bool) option" where
  "addCondition w c s = (case getCondition (cd_type c) (cd_id c) s of
     Some prevCond \<Rightarrow> map_option
       (\<lambda>(c', s). (s\<lparr>conditions := change_first (\<lambda>x. cd_type x = cd_type c \<and> cd_id x = cd_id c) c' (conditions s)\<rparr>, True))
       (addCondition_to w c prevCond s)
   | None \<Rightarrow> map_option
       (\<lambda>(c, s, ok). if ok then (onAddCondition w (cd_type c) (s\<lparr>conditions := conditions s @ [c]\<rparr>), True) else (s, False))
       (startCondition w c s))"

definition addCombatCondition :: "World \<Rightarrow> Condition \<Rightarrow> Creature \<Rightarrow> (Creature \<times> bool) option" where
  "addCombatCondition w c s = map_option
     (\<lambda>(s, ok). (if ok \<and> cr_isPlayer s \<and> cd_type c \<in> {CONDITION_POISON, CONDITION_PARALYZE, CONDITION_DRUNK}
                 then cr_emit (CombatConditionText (cd_type c)) s else s, ok))
     (addCondition w c s)"

fun executing :: "World \<Rightarrow> u32 \<Rightarrow> Condition list \<Rightarrow> Condition list \<Rightarrow> Creature \<Rightarrow> Creature" where
  "executing w interval passed [] s = s\<lparr>conditions := passed\<rparr>"
| "executing w interval passed (c # cs) s =
     (case executeCondition w interval c (s\<lparr>conditions := passed @ c # cs\<rparr>) of
        ((c', ok), s) \<Rightarrow>
          if ok then executing w interval (passed @ [c']) cs s
          else executing w interval passed cs
                 (onEndCondition (cd_type c') (endCondition w c' (s\<lparr>conditions := passed @ cs\<rparr>))))"

definition executeConditions :: "World \<Rightarrow> u32 \<Rightarrow> Creature \<Rightarrow> Creature" where
  "executeConditions w interval s = executing w interval [] (conditions s) s"

text \<open>A player who dies loses the conditions that would be saved.\<close>

definition die_conditions :: "World \<Rightarrow> Creature \<Rightarrow> Creature" where
  "die_conditions w s = removing w isPersistent [] (conditions s) s"

definition end_all :: "World \<Rightarrow> Creature \<Rightarrow> Creature" where
  "end_all w s = (fold (endCondition w) (conditions s) s)\<lparr>conditions := []\<rparr>"

definition isMuted :: "bool \<Rightarrow> Creature \<Rightarrow> int" where
  "isMuted cannotBeMuted s =
     (if cannotBeMuted then 0
      else fold (\<lambda>c t. if cd_type c = CONDITION_MUTED \<and> cd_ticks c > t then cd_ticks c else t) (conditions s) 0 div 1000)"

text \<open>The conditions stored with a player are added when the player enters the game.\<close>

fun add_stored :: "World \<Rightarrow> Condition list \<Rightarrow> Creature \<Rightarrow> Creature option" where
  "add_stored w [] s = Some s"
| "add_stored w (c # cs) s = (case addCondition w c s of None \<Rightarrow> None | Some (s, _) \<Rightarrow> add_stored w cs s)"

section \<open>Damage lists\<close>

lemma closer_below: "closer tie i med tot \<Longrightarrow> 0 < i \<Longrightarrow> tot < med \<and> i \<le> 2 * (med - tot)"
  by (auto simp: closer_def split: if_splits)

lemma not_closer_near: "\<not> closer tie i med tot \<Longrightarrow> 0 < i \<Longrightarrow> 0 < med \<Longrightarrow> 2 * (med - tot) \<le> i"
  by (auto simp: closer_def split: if_splits)

text \<open>A round that can start without passing its share ends within half its value of it.\<close>

lemma damage_round_near:
  assumes "damage_round tie i med tot = (xs, tot')" "0 < i" "0 < med" "2 * tot + i \<le> 2 * med"
  shows "tot' = tot + sum_list xs \<and> 2 * med - i \<le> 2 * tot' \<and> 2 * tot' \<le> 2 * med + i
    \<and> xs \<noteq> [] \<and> set xs = {i}"
  using assms
proof (induction tie i med tot arbitrary: xs tot' rule: damage_round.induct)
  case (1 tie i med tot)
  show ?case
  proof (cases "closer tie i med (tot + i)")
    case True
    obtain ys t where r: "damage_round tie i med (tot + i) = (ys, t)" by force
    from closer_below [OF True "1.prems"(2)] have "2 * (tot + i) + i \<le> 2 * med" by simp
    with "1.IH" [OF refl _ r] True "1.prems" have
      "t = tot + i + sum_list ys \<and> 2 * med - i \<le> 2 * t \<and> 2 * t \<le> 2 * med + i \<and> ys \<noteq> [] \<and> set ys = {i}"
      by simp
    moreover have "xs = i # ys" "tot' = t"
      using True r "1.prems"(1,2) by (simp_all add: damage_round.simps [of tie i med tot])
    ultimately show ?thesis by simp
  next
    case False
    then have "xs = [i]" "tot' = tot + i"
      using "1.prems"(1) by (simp_all add: damage_round.simps [of tie i med tot])
    then show ?thesis using not_closer_near [OF False "1.prems"(2,3)] "1.prems"(4) by simp
  qed
qed

text \<open>All rounds: at the beginning of the round for \<open>i\<close> the sum is within half of \<open>i + 1\<close> of its share.\<close>

lemma share_grows:
  assumes "0 < start" "start * start \<le> amount" "0 \<le> (n::int)"
  shows "(n * amount) div start + start \<le> ((n + 1) * amount) div start"
proof -
  have "(n * amount) div start + start = (n * amount + start * start) div start"
    using assms by simp
  also have "\<dots> \<le> ((n + 1) * amount) div start"
    using assms by (intro zdiv_mono1) (auto simp: algebra_simps)
  finally show ?thesis .
qed

lemma damage_rounds_spec:
  assumes "0 < start" "start * start \<le> amount" "int k \<le> start" "0 < k"
    and "2 * tot \<le> 2 * (((start - int k) * amount) div start) + (if int k = start then 0 else int k + 1)"
  shows "tot + sum_list (damage_rounds tie amount start k tot) = amount
    \<and> sorted_wrt (\<ge>) (damage_rounds tie amount start k tot)
    \<and> set (damage_rounds tie amount start k tot) = {1..int k}"
  using assms
proof (induction k arbitrary: tot)
  case (Suc k)
  define i where "i = int (Suc k)"
  define med where "med = ((start + 1 - i) * amount) div start"
  have i: "0 < i" "i \<le> start" using Suc.prems by (auto simp: i_def)
  have grow: "((start - i) * amount) div start + start \<le> med"
    using share_grows [of start amount "start - i"] Suc.prems i by (simp add: med_def algebra_simps)
  have med0: "0 \<le> ((start - i) * amount) div start"
    using i Suc.prems(1) order_trans [OF zero_le_square [of start] Suc.prems(2)]
    by (intro pos_imp_zdiv_nonneg_iff [THEN iffD2] mult_nonneg_nonneg) auto
  then have med: "0 < med" using grow Suc.prems(1) by linarith
  have pre: "2 * tot + i \<le> 2 * med"
    using Suc.prems(5) grow med0 i by (auto simp: i_def split: if_splits)
  obtain xs t where r: "damage_round tie i med tot = (xs, t)" by force
  note near = damage_round_near [OF r i(1) med pre]
  have rounds: "damage_rounds tie amount start (Suc k) tot = xs @ damage_rounds tie amount start k t"
    using r by (simp add: i_def med_def)
  show ?case
  proof (cases "k = 0")
    case True
    then have "med = amount" using Suc.prems(1) by (simp add: med_def i_def)
    with near True have "t = amount" by (simp add: i_def)
    moreover have "sorted_wrt (\<ge>) xs" using near by (simp add: sorted_wrt_iff_nth_less) (metis nth_mem less_trans order_refl singletonD)
    ultimately show ?thesis using near True rounds by (simp add: i_def)
  next
    case False
    have "((start - int k) * amount) div start = med" by (simp add: med_def i_def algebra_simps)
    with Suc.IH [of t] near False Suc.prems have IH:
      "t + sum_list (damage_rounds tie amount start k t) = amount"
      "sorted_wrt (\<ge>) (damage_rounds tie amount start k t)"
      "set (damage_rounds tie amount start k t) = {1..int k}"
      by (auto simp: i_def)
    have "sorted_wrt (\<ge>) xs" using near by (simp add: sorted_wrt_iff_nth_less) (metis nth_mem less_trans order_refl singletonD)
    then show ?thesis
      using IH near rounds i by (auto simp: sorted_wrt_append i_def)
  qed
qed simp

lemma damage_round_values:
  assumes "damage_round tie i med tot = (xs, tot')"
  shows "set xs = {i} \<and> (0 \<le> i \<longrightarrow> i \<le> sum_list xs)"
  using assms
proof (induction tie i med tot arbitrary: xs tot' rule: damage_round.induct)
  case (1 tie i med tot)
  show ?case
  proof (cases "0 < i \<and> closer tie i med (tot + i)")
    case True
    obtain ys t where r: "damage_round tie i med (tot + i) = (ys, t)" by force
    have "set ys = {i} \<and> (0 \<le> i \<longrightarrow> i \<le> sum_list ys)" by (rule "1.IH" [OF refl True r])
    moreover have "xs = i # ys" using True r "1.prems" by (simp add: damage_round.simps [of tie i med tot])
    ultimately show ?thesis by auto
  next
    case False
    then have "xs = [i]" using "1.prems" by (auto simp: damage_round.simps [of tie i med tot] Let_def)
    then show ?thesis by simp
  qed
qed

text \<open>Whatever the amount, every value from the first down to 1 comes at least once.\<close>

lemma damage_rounds_values:
  "sorted_wrt (\<ge>) (damage_rounds tie amount start k tot) \<and> set (damage_rounds tie amount start k tot) = {1..int k} \<and>
   int k * (int k + 1) \<le> 2 * sum_list (damage_rounds tie amount start k tot)"
proof (induction k arbitrary: tot)
  case (Suc k)
  let ?med = "((start + 1 - int (Suc k)) * amount) div start"
  obtain xs t where r: "damage_round tie (int (Suc k)) ?med tot = (xs, t)" by force
  note xs = damage_round_values [OF r]
  have rounds: "damage_rounds tie amount start (Suc k) tot = xs @ damage_rounds tie amount start k t"
    using r by (simp add: Let_def)
  have "sorted_wrt (\<ge>) xs" using xs by (simp add: sorted_wrt_iff_nth_less) (metis nth_mem less_trans order_refl singletonD)
  then have "sorted_wrt (\<ge>) (damage_rounds tie amount start (Suc k) tot)"
    unfolding rounds using Suc.IH [of t] xs by (auto simp: sorted_wrt_append)
  moreover have "set (damage_rounds tie amount start (Suc k) tot) = {1..int (Suc k)}"
    unfolding rounds using Suc.IH [of t] xs by auto
  moreover have "int (Suc k) * (int (Suc k) + 1) \<le> 2 * sum_list (damage_rounds tie amount start (Suc k) tot)"
  proof -
    have "int (Suc k) \<le> sum_list xs" using xs by simp
    moreover have "int k * (int k + 1) \<le> 2 * sum_list (damage_rounds tie amount start k t)" using Suc.IH by blast
    ultimately show ?thesis unfolding rounds by (simp add: algebra_simps)
  qed
  ultimately show ?case by blast
qed simp

lemma generated_values:
  assumes "0 < start"
  shows "sorted_wrt (\<ge>) (generateDamageList tie amount start) \<and> set (generateDamageList tie amount start) = {1..start} \<and>
    start * (start + 1) \<le> 2 * sum_list (generateDamageList tie amount start)"
  using damage_rounds_values [of tie "\<bar>amount\<bar>" start "nat start" 0] assms by (simp add: generateDamageList_def)

text \<open>A poisoning of 1000 points whose first damage is not given does at least 1275 points.\<close>

lemma poisoning_of_1000:
  "first_damage 1000 (new_ConditionDamage\<lparr>minDamage := 1000, maxDamage := 1000\<rparr>) = 50"
  "1275 \<le> sum_list (generateDamageList tie 1000 50)"
proof -
  show "first_damage 1000 (new_ConditionDamage\<lparr>minDamage := 1000, maxDamage := 1000\<rparr>) = 50"
    by (simp add: first_damage_def new_ConditionDamage_def)
  show "1275 \<le> sum_list (generateDamageList tie 1000 50)" using generated_values [of 50 tie 1000] by simp
qed



section \<open>Effects are taken back\<close>

text \<open>
  The three kinds of numbers that conditions change and give back: the speed, the skills and the stats.
  \<open>held\<close> is what the creature has of it, \<open>gives\<close> what a condition of a player (of another creature)
  has added to it.
\<close>

datatype bonus = BSpeed | BSkill nat | BStat nat

fun bonus_ok :: "bonus \<Rightarrow> bool" where
  "bonus_ok BSpeed = True"
| "bonus_ok (BSkill i) = (i < SKILLS)"
| "bonus_ok (BStat i) = (i < STATS)"

fun held :: "bonus \<Rightarrow> Creature \<Rightarrow> int" where
  "held BSpeed s = varSpeed s"
| "held (BSkill i) s = varSkills s ! i"
| "held (BStat i) s = varStats s ! i"

definition gives :: "bool \<Rightarrow> bonus \<Rightarrow> Condition \<Rightarrow> int" where
  "gives player b c = (case cd_class c of
     Speed v \<Rightarrow> (case b of BSpeed \<Rightarrow> speedDelta v | _ \<Rightarrow> 0)
   | Attributes a \<Rightarrow> (if player then (case b of BSpeed \<Rightarrow> 0 | BSkill i \<Rightarrow> ca_skills a ! i | BStat i \<Rightarrow> ca_stats a ! i) else 0)
   | _ \<Rightarrow> 0)"

definition own :: "bonus \<Rightarrow> Creature \<Rightarrow> int" where
  "own b s = held b s - (\<Sum>c\<leftarrow>conditions s. gives (cr_isPlayer s) b c)"

definition attributes_ok :: "ConditionAttributes \<Rightarrow> bool" where
  "attributes_ok a \<longleftrightarrow> length (ca_skills a) = SKILLS \<and> length (ca_skillsPercent a) = SKILLS
     \<and> length (ca_stats a) = STATS \<and> length (ca_statsPercent a) = STATS"

definition lists_ok :: "Creature \<Rightarrow> bool" where
  "lists_ok s \<longleftrightarrow> length (varSkills s) = SKILLS \<and> length (varStats s) = STATS"

text \<open>What all steps inside a class leave alone.\<close>

definition same_frame :: "Creature \<Rightarrow> Creature \<Rightarrow> bool" where
  "same_frame s s' \<longleftrightarrow> conditions s' = conditions s \<and> cr_isPlayer s' = cr_isPlayer s \<and> (lists_ok s \<longrightarrow> lists_ok s')"

definition same_held :: "Creature \<Rightarrow> Creature \<Rightarrow> bool" where
  "same_held s s' \<longleftrightarrow> same_frame s s' \<and> varSpeed s' = varSpeed s \<and> varSkills s' = varSkills s \<and> varStats s' = varStats s"

lemma same_frame_refl [simp]: "same_frame s s" "same_held s s"
  by (simp_all add: same_frame_def same_held_def)

lemma same_frame_trans: "same_frame s s' \<Longrightarrow> same_frame s' s'' \<Longrightarrow> same_frame s s''"
  by (auto simp: same_frame_def)

lemma same_held_trans: "same_held s s' \<Longrightarrow> same_held s' s'' \<Longrightarrow> same_held s s''"
  using same_frame_trans by (auto simp: same_held_def)

lemma same_held_D: "same_held s s' \<Longrightarrow> same_frame s s'" "same_held s s' \<Longrightarrow> held b s' = held b s"
  by (cases b; simp add: same_held_def)+

named_theorems keeps_held

lemma emit_keeps [keeps_held]: "same_held s (cr_emit e s)"
  by (simp add: cr_emit_def same_held_def same_frame_def lists_ok_def)

lemma emit_keeps' [keeps_held]: "same_held s s' \<Longrightarrow> same_held s (cr_emit e s')"
  using emit_keeps same_held_trans by blast

lemma health_keeps [keeps_held]:
  "same_held s (Creature_changeHealth d s)" "same_held s (Creature_changeMana d s)" "same_held s (changeSoul d s)"
  by (simp_all add: Creature_changeHealth_def Creature_changeMana_def changeSoul_def cr_emit_def same_held_def
      same_frame_def lists_ok_def)

lemma player_health_keeps [keeps_held]: "same_held s (changeHealth d s)" "same_held s (changeMana d s)"
  by (simp_all add: changeHealth_def changeMana_def keeps_held)

lemma light_keeps [keeps_held]:
  "same_held s (changeLight s)" "same_held s (changeLight (setCreatureLight l s))"
  "same_held s (changeLight (setNormalCreatureLight s))"
  by (simp_all add: changeLight_def setCreatureLight_def setNormalCreatureLight_def cr_emit_def same_held_def
      same_frame_def lists_ok_def)

lemma look_keeps [keeps_held]:
  "same_held s (internalCreatureChangeVisible v s)" "same_held s (internalCreatureChangeOutfit w out s)"
  "same_held s (sendIcons s)"
  by (simp_all add: internalCreatureChangeVisible_def internalCreatureChangeOutfit_def sendIcons_def cr_emit_def
      same_held_def same_frame_def lists_ok_def Let_def)

lemma changeOutfit_keeps [keeps_held]: "same_held s (changeOutfit w outfits s)"
  by (simp add: changeOutfit_def keeps_held)

lemma doDamage_keeps [keeps_held]: "same_held s (fst (doDamage w ty ow damage s))"
  by (simp add: doDamage_def keeps_held Let_def split: prod.split)

lemma onEndCondition_keeps [keeps_held]: "same_held s (onEndCondition ty s)"
proof -
  have "same_held s (x\<lparr>pzLocked := False\<rparr>)" if "same_held s x" for x
    using that by (simp add: same_held_def same_frame_def lists_ok_def)
  then show ?thesis by (simp add: onEndCondition_def keeps_held Let_def)
qed

subsection \<open>Speed, skills and stats\<close>

lemma changeSpeed_held:
  "same_frame s (changeSpeed d s)" "held b (changeSpeed d s) = held b s + (if b = BSpeed then d else 0)"
  by (cases b; simp add: changeSpeed_def setSpeed_def getSpeed_def cr_emit_def same_frame_def lists_ok_def Let_def)+

lemma setVarSkill_frame: "same_frame s (setVarSkill i d s)"
  by (simp add: setVarSkill_def same_frame_def lists_ok_def)

lemma setVarSkill_held:
  "lists_ok s \<Longrightarrow> i < SKILLS \<Longrightarrow> bonus_ok b \<Longrightarrow>
   held b (setVarSkill i d s) = held b s + (if b = BSkill i then d else 0)"
  by (cases b) (auto simp: setVarSkill_def nth_list_update lists_ok_def)

lemma setVarStats_shape:
  "same_held (s\<lparr>varStats := (varStats s)[i := varStats s ! i + d]\<rparr>) (setVarStats i d s)"
  by (simp add: setVarStats_def Let_def keeps_held)

lemma setVarStats_frame: "same_frame s (setVarStats i d s)"
  using setVarStats_shape [of s i d] by (auto simp: same_held_def same_frame_def lists_ok_def)

lemma setVarStats_held:
  "lists_ok s \<Longrightarrow> i < STATS \<Longrightarrow> bonus_ok b \<Longrightarrow>
   held b (setVarStats i d s) = held b s + (if b = BStat i then d else 0)"
  using setVarStats_shape [of s i d] by (cases b) (auto simp: same_held_def nth_list_update lists_ok_def)

lemma fold_held:
  assumes "\<And>i s. same_frame s (f i s)"
    and "\<And>i s. i \<in> set is \<Longrightarrow> lists_ok s \<Longrightarrow> held b (f i s) = held b s + g i"
    and "lists_ok s"
  shows "same_frame s (fold f is s) \<and> held b (fold f is s) = held b s + sum_list (map g is)"
  using assms(2,3)
proof (induction "is" arbitrary: s)
  case (Cons i "is")
  have fr: "same_frame s (f i s)" by (rule assms(1))
  with Cons.prems(2) have "lists_ok (f i s)" by (simp add: same_frame_def)
  with Cons.IH [of "f i s"] Cons.prems fr show ?case
    by (auto intro: same_frame_trans)
qed simp

lemma sum_at:
  "distinct is \<Longrightarrow> (\<Sum>i\<leftarrow>is. if j = i then f i else 0) = (if j \<in> set is then f j else (0::int))"
  by (induction "is") auto

lemma fold_skills:
  assumes "lists_ok s" "bonus_ok b"
  shows "same_frame s (fold (\<lambda>i. setVarSkill i (f i)) (filter P [0..<SKILLS]) s)
    \<and> held b (fold (\<lambda>i. setVarSkill i (f i)) (filter P [0..<SKILLS]) s)
      = held b s + (case b of BSkill i \<Rightarrow> if P i then f i else 0 | _ \<Rightarrow> 0)"
proof -
  have "(\<Sum>i\<leftarrow>filter P [0..<SKILLS]. if b = BSkill i then f i else 0)
      = (case b of BSkill i \<Rightarrow> if P i then f i else 0 | _ \<Rightarrow> 0)"
  proof (cases b)
    case (BSkill j)
    then have "(\<Sum>i\<leftarrow>filter P [0..<SKILLS]. if b = BSkill i then f i else 0)
        = (\<Sum>i\<leftarrow>filter P [0..<SKILLS]. if j = i then f i else 0)" by simp
    also have "\<dots> = (if j \<in> set (filter P [0..<SKILLS]) then f j else 0)" by (rule sum_at) simp
    finally show ?thesis using BSkill assms(2) by simp
  qed simp_all
  with fold_held [of "\<lambda>i. setVarSkill i (f i)" "filter P [0..<SKILLS]" b "\<lambda>i. if b = BSkill i then f i else 0" s]
  show ?thesis using assms setVarSkill_frame setVarSkill_held by simp
qed

lemma fold_stats:
  assumes "lists_ok s" "bonus_ok b"
  shows "same_frame s (fold (\<lambda>i. setVarStats i (f i)) (filter P [0..<STATS]) s)
    \<and> held b (fold (\<lambda>i. setVarStats i (f i)) (filter P [0..<STATS]) s)
      = held b s + (case b of BStat i \<Rightarrow> if P i then f i else 0 | _ \<Rightarrow> 0)"
proof -
  have "(\<Sum>i\<leftarrow>filter P [0..<STATS]. if b = BStat i then f i else 0)
      = (case b of BStat i \<Rightarrow> if P i then f i else 0 | _ \<Rightarrow> 0)"
  proof (cases b)
    case (BStat j)
    then have "(\<Sum>i\<leftarrow>filter P [0..<STATS]. if b = BStat i then f i else 0)
        = (\<Sum>i\<leftarrow>filter P [0..<STATS]. if j = i then f i else 0)" by simp
    also have "\<dots> = (if j \<in> set (filter P [0..<STATS]) then f j else 0)" by (rule sum_at) simp
    finally show ?thesis using BStat assms(2) by simp
  qed simp_all
  with fold_held [of "\<lambda>i. setVarStats i (f i)" "filter P [0..<STATS]" b "\<lambda>i. if b = BStat i then f i else 0" s]
  show ?thesis using assms setVarStats_frame setVarStats_held by simp
qed

subsection \<open>Well-formed conditions\<close>

text \<open>The class of a condition is the one its type stands for, and light has a level.\<close>

fun class_no :: "ConditionClass \<Rightarrow> nat" where
  "class_no Generic = 0"
| "class_no ManaShield = 1"
| "class_no Invisible = 2"
| "class_no (Attributes a) = 3"
| "class_no (Regeneration r) = 4"
| "class_no (Soul r) = 5"
| "class_no (Damage d) = 6"
| "class_no (Speed v) = 7"
| "class_no (OutfitC fs) = 8"
| "class_no (Light l) = 9"

fun class_ok :: "ConditionClass \<Rightarrow> bool" where
  "class_ok (Attributes a) = attributes_ok a"
| "class_ok (Light l) = (light_level (lightInfo l) \<noteq> 0)"
| "class_ok _ = True"

definition well_typed :: "Condition \<Rightarrow> bool" where
  "well_typed c \<longleftrightarrow> (\<exists>cl. class_for (cd_type c) 0 = Some cl \<and> class_no cl = class_no (cd_class c)) \<and> class_ok (cd_class c)"

definition creature_ok :: "Creature \<Rightarrow> bool" where
  "creature_ok s \<longleftrightarrow> lists_ok s \<and> list_all well_typed (conditions s)"

lemma well_typed_class:
  "well_typed c \<Longrightarrow> cd_type c' = cd_type c \<Longrightarrow>
   class_no (cd_class c') = class_no (cd_class c) \<Longrightarrow> class_ok (cd_class c') \<Longrightarrow> well_typed c'"
  by (simp add: well_typed_def)

lemma well_typed_fields [simp]:
  "well_typed (c\<lparr>cd_ticks := t\<rparr>) = well_typed c" "well_typed (c\<lparr>cd_endTime := t\<rparr>) = well_typed c"
  "well_typed (c\<lparr>cd_class := cl, cd_ticks := t\<rparr>) = well_typed (c\<lparr>cd_class := cl\<rparr>)"
  "well_typed (c\<lparr>cd_class := cl, cd_endTime := t\<rparr>) = well_typed (c\<lparr>cd_class := cl\<rparr>)"
  "well_typed (setTicks now t c) = well_typed c"
  by (simp_all add: well_typed_def setTicks_def)

lemma gives_fields [simp]:
  "gives p b (c\<lparr>cd_ticks := t\<rparr>) = gives p b c" "gives p b (c\<lparr>cd_endTime := t\<rparr>) = gives p b c"
  "gives p b (setTicks now t c) = gives p b c"
  by (simp_all add: gives_def setTicks_def)

lemma well_typed_put:
  assumes "well_typed c"
  shows
    "cd_class c = Attributes a \<Longrightarrow> attributes_ok a' \<Longrightarrow> well_typed (c\<lparr>cd_class := Attributes a'\<rparr>)"
    "cd_class c = Regeneration r \<Longrightarrow> well_typed (c\<lparr>cd_class := Regeneration r'\<rparr>)"
    "cd_class c = Soul q \<Longrightarrow> well_typed (c\<lparr>cd_class := Soul q'\<rparr>)"
    "cd_class c = Damage d \<Longrightarrow> well_typed (c\<lparr>cd_class := Damage d'\<rparr>)"
    "cd_class c = Speed v \<Longrightarrow> well_typed (c\<lparr>cd_class := Speed v'\<rparr>)"
    "cd_class c = OutfitC fs \<Longrightarrow> well_typed (c\<lparr>cd_class := OutfitC fs'\<rparr>)"
    "cd_class c = Light l \<Longrightarrow> light_level (lightInfo l') \<noteq> 0 \<Longrightarrow> well_typed (c\<lparr>cd_class := Light l'\<rparr>)"
  using assms by (simp_all add: well_typed_def)

lemma well_typed_attributes: "well_typed c \<Longrightarrow> cd_class c = Attributes a \<Longrightarrow> attributes_ok a"
  by (simp add: well_typed_def)

lemma well_typed_light: "well_typed c \<Longrightarrow> cd_class c = Light l \<Longrightarrow> light_level (lightInfo l) \<noteq> 0"
  by (simp add: well_typed_def)

text \<open>Two well-formed conditions of the same type are of the same class, so the casts are right.\<close>

lemma well_typed_same:
  assumes "well_typed c" "well_typed d" "cd_type c = cd_type d"
  shows "class_no (cd_class c) = class_no (cd_class d)"
  using assms by (auto simp: well_typed_def)

subsection \<open>Starting and ending\<close>

lemma applyAttributes_spec:
  assumes "applyAttributes a s = (a', s')" "attributes_ok a" "lists_ok s" "bonus_ok b"
  shows "attributes_ok a' \<and> same_frame s s'
    \<and> held b s' = held b s + gives (cr_isPlayer s) b (c\<lparr>cd_class := Attributes a'\<rparr>)"
proof (cases "cr_isPlayer s")
  case False
  with assms show ?thesis by (simp add: applyAttributes_def gives_def)
next
  case True
  define a1 where "a1 = updatePercentSkills s a"
  define s1 where "s1 = updateSkills a1 s"
  have a1: "attributes_ok a1" using assms(2) by (simp add: a1_def updatePercentSkills_def attributes_ok_def)
  have s1: "same_frame s s1" "held b s1 = held b s + (case b of BSkill i \<Rightarrow> ca_skills a1 ! i | _ \<Rightarrow> 0)"
    using fold_skills [OF assms(3,4), of "\<lambda>i. ca_skills a1 ! i" "\<lambda>i. ca_skills a1 ! i \<noteq> 0"]
    by (auto simp: s1_def updateSkills_def Let_def same_held_D [OF emit_keeps]
        intro: same_frame_trans same_held_D(1) [OF emit_keeps] split: bonus.splits)
  have a': "a' = updatePercentStats s1 a1" "s' = updateStats a' s1"
    using assms(1) True by (auto simp: applyAttributes_def a1_def s1_def Let_def)
  have lists: "lists_ok s1" using s1(1) assms(3) by (simp add: same_frame_def)
  have s': "same_frame s1 s'" "held b s' = held b s1 + (case b of BStat i \<Rightarrow> ca_stats a' ! i | _ \<Rightarrow> 0)"
    using fold_stats [OF lists assms(4), of "\<lambda>i. ca_stats a' ! i" "\<lambda>i. ca_stats a' ! i \<noteq> 0"]
    by (auto simp: a'(2) updateStats_def Let_def same_held_D [OF emit_keeps]
        intro: same_frame_trans same_held_D(1) [OF emit_keeps] split: bonus.splits)
  have "ca_skills a' = ca_skills a1" by (simp add: a'(1) updatePercentStats_def)
  moreover have "attributes_ok a'" using a1 by (simp add: a'(1) updatePercentStats_def attributes_ok_def)
  ultimately show ?thesis
    using s1 s' True by (auto simp: gives_def intro: same_frame_trans split: bonus.splits)
qed

lemma endAttributes_spec:
  assumes "lists_ok s" "bonus_ok b"
  shows "same_frame s (endAttributes a s)
    \<and> held b (endAttributes a s) = held b s - gives (cr_isPlayer s) b (c\<lparr>cd_class := Attributes a\<rparr>)"
proof (cases "cr_isPlayer s")
  case False
  then show ?thesis by (simp add: endAttributes_def gives_def)
next
  case True
  define P where "P = (\<lambda>i. ca_skills a ! i \<noteq> 0 \<or> ca_skillsPercent a ! i \<noteq> 0)"
  define s1 where "s1 = fold (\<lambda>i. setVarSkill i (- (ca_skills a ! i))) (filter P [0..<SKILLS]) s"
  define s2 where "s2 = (if filter P [0..<SKILLS] = [] then s1 else cr_emit SendSkills s1)"
  have s1: "same_frame s s1" "held b s1 = held b s + (case b of BSkill i \<Rightarrow> - (ca_skills a ! i) | _ \<Rightarrow> 0)"
    using fold_skills [OF assms, of "\<lambda>i. - (ca_skills a ! i)" P]
    by (auto simp: s1_def P_def split: bonus.splits)
  have s2: "same_frame s s2" "held b s2 = held b s1"
    using s1(1) by (auto simp: s2_def same_held_D [OF emit_keeps] intro: same_frame_trans same_held_D(1) [OF emit_keeps])
  have lists: "lists_ok s2" using s2(1) assms(1) by (simp add: same_frame_def)
  define s3 where "s3 = fold (\<lambda>i. setVarStats i (- (ca_stats a ! i))) (filter (\<lambda>i. ca_stats a ! i \<noteq> 0) [0..<STATS]) s2"
  have s3: "same_frame s2 s3" "held b s3 = held b s2 + (case b of BStat i \<Rightarrow> - (ca_stats a ! i) | _ \<Rightarrow> 0)"
    using fold_stats [OF lists assms(2), of "\<lambda>i. - (ca_stats a ! i)" "\<lambda>i. ca_stats a ! i \<noteq> 0"]
    by (auto simp: s3_def split: bonus.splits)
  have "endAttributes a s = (if filter (\<lambda>i. ca_stats a ! i \<noteq> 0) [0..<STATS] = [] then s3 else cr_emit SendStats s3)"
    using True unfolding endAttributes_def s3_def s2_def s1_def P_def Let_def by (simp only: if_True)
  then have "same_frame s3 (endAttributes a s)" "held b (endAttributes a s) = held b s3"
    by (auto simp: same_held_D [OF emit_keeps] intro: same_held_D(1) [OF emit_keeps])
  with s1 s2 s3 True show ?thesis
    by (auto simp: gives_def intro: same_frame_trans split: bonus.splits)
qed

lemma gives_same: "cd_class c = cd_class c' \<Longrightarrow> gives p b c = gives p b c'"
  by (simp add: gives_def)

lemma endCondition_spec:
  assumes "lists_ok s" "bonus_ok b"
  shows "same_frame s (endCondition w c s)
    \<and> held b (endCondition w c s) = held b s - gives (cr_isPlayer s) b c"
proof -
  have *: "same_held s (endCondition w c s) \<Longrightarrow> gives (cr_isPlayer s) b c = 0 \<Longrightarrow> ?thesis"
    using same_held_D by auto
  show ?thesis
  proof (cases "cd_class c")
    case (Attributes a)
    with endAttributes_spec [OF assms, of a c] show ?thesis
      by (simp add: endCondition_defs gives_def)
  next
    case (Speed v)
    then show ?thesis
      by (cases b) (use changeSpeed_held(1) [of s "- speedDelta v"] changeSpeed_held(2) [of b "- speedDelta v" s] in
        \<open>auto simp: endCondition_defs gives_def\<close>)
  qed (rule *; simp add: endCondition_defs gives_def keeps_held)+
qed

text \<open>Damage conditions: whatever happens to them, they stay what they are and hold nothing.\<close>

definition is_damage_of :: "Condition \<Rightarrow> Condition \<Rightarrow> bool" where
  "is_damage_of c c' \<longleftrightarrow> cd_type c' = cd_type c \<and> (\<exists>d. cd_class c' = Damage d)"

lemma is_damage_ofI [intro]: "cd_type c' = cd_type c \<Longrightarrow> cd_class c' = Damage d \<Longrightarrow> is_damage_of c c'"
  by (auto simp: is_damage_of_def)

lemma is_damage_put [simp]: "is_damage_of c (put_damage st c)"
  by (auto simp: put_damage_def is_damage_of_def split: prod.split)

lemma is_damage_gives:
  "is_damage_of c c' \<Longrightarrow> gives p b c' = 0"
  "is_damage_of c c' \<Longrightarrow> well_typed c \<Longrightarrow> cd_class c = Damage d \<Longrightarrow> well_typed c'"
  by (auto simp: is_damage_of_def gives_def well_typed_def)

lemma startDamageCondition_spec:
  assumes "startDamageCondition w d c s = (c', s', ok)"
  shows "is_damage_of c c' \<and> same_held s s'"
proof -
  obtain st okI where i: "damage_init w (d, cd_ticks c, cd_endTime c) = (st, okI)" by (metis surj_pair)
  define c1 where "c1 = put_damage st c"
  have c1: "is_damage_of c c1" by (simp add: c1_def)
  obtain dmg d' where n: "getNextDamage (cd_ticks c1) (fst st) = (dmg, d')" by (metis surj_pair)
  obtain s2 ok2 where h: "doDamage w (cd_type c1) (cd_owner d') (the dmg) s = (s2, ok2)" by (metis surj_pair)
  from doDamage_keeps [of s w "cd_type c1" "cd_owner d'" "the dmg"] h have s2: "same_held s s2" by simp
  show ?thesis
    using assms i n h s2 c1 unfolding startDamageCondition_def Let_def c1_def [symmetric]
    by (auto simp: c1_def [symmetric] is_damage_of_def split: if_splits option.splits prod.splits)
qed

lemma mergeDamage_spec:
  assumes "mergeDamage w q t d c s = (c', s')" "cd_class c = Damage d0"
  shows "is_damage_of c c' \<and> same_held s s'"
proof -
  have c: "is_damage_of c c" using assms(2) by auto
  show ?thesis
    using assms c doDamage_keeps unfolding mergeDamage_def Let_def
    by (auto simp: is_damage_of_def put_damage_def split: if_splits option.splits prod.splits list.splits)
qed

lemma executeCondition_base_spec:
  "executeCondition_base w i c = (c', ok) \<Longrightarrow> cd_class c' = cd_class c \<and> cd_type c' = cd_type c \<and> cd_id c' = cd_id c"
  by (auto simp: executeCondition_base_def split: if_splits)

lemma executeDamageCondition_spec:
  assumes "executeDamageCondition w i d c s = ((c', ok), s')" "cd_class c = Damage d"
  shows "is_damage_of c c' \<and> same_held s s'"
  using assms doDamage_keeps unfolding executeDamageCondition_def Let_def
  by (auto simp: is_damage_of_def split: if_splits list.splits dest!: executeCondition_base_spec)

subsection \<open>Starting\<close>

lemma startCondition_base_same [simp]:
  "cd_class (startCondition_base w c) = cd_class c" "cd_type (startCondition_base w c) = cd_type c"
  "cd_id (startCondition_base w c) = cd_id c" "well_typed (startCondition_base w c) = well_typed c"
  "gives p b (startCondition_base w c) = gives p b c"
  by (simp_all add: startCondition_base_def)

lemma light_started_spec:
  "light_level (lightInfo l) \<noteq> 0 \<Longrightarrow> \<exists>l'. light_started t l = Some l' \<and> lightInfo l' = lightInfo l"
  by (simp add: light_started_def)

lemma startCondition_spec:
  assumes "well_typed c" "lists_ok s" "bonus_ok b"
  shows "\<exists>c' s' ok. startCondition w c s = Some (c', s', ok) \<and> well_typed c' \<and> cd_type c' = cd_type c
    \<and> same_frame s s' \<and> held b s' = held b s + gives (cr_isPlayer s) b c' \<and> (\<not> ok \<longrightarrow> gives (cr_isPlayer s) b c' = 0)"
proof -
  define c0 where "c0 = startCondition_base w c"
  have c0: "cd_class c0 = cd_class c" "cd_type c0 = cd_type c" "well_typed c0"
    using assms(1) by (simp_all add: c0_def)
  have keep: "?thesis" if "startCondition w c s = Some (c', s', ok)" "same_held s s'" "well_typed c'"
      "cd_type c' = cd_type c" "gives (cr_isPlayer s) b c' = 0" for c' s' ok
    using that same_held_D by auto
  show ?thesis
  proof (cases "cd_class c")
    case (Attributes a)
    obtain a' s' where ap: "applyAttributes a s = (a', s')" by force
    from well_typed_attributes [OF assms(1) Attributes] applyAttributes_spec [OF ap _ assms(2,3), of c0]
    have sp: "attributes_ok a'" "same_frame s s'"
      "held b s' = held b s + gives (cr_isPlayer s) b (c0\<lparr>cd_class := Attributes a'\<rparr>)" by auto
    have "startCondition w c s = Some (c0\<lparr>cd_class := Attributes a'\<rparr>, s', True)"
      using Attributes ap by (simp add: startCondition_defs Let_def c0_def)
    with sp well_typed_put(1) [OF c0(3)] c0 Attributes show ?thesis by auto
  next
    case (Speed v)
    define v' where "v' = speed_drawn w s v"
    have "startCondition w c s = Some (c0\<lparr>cd_class := Speed v'\<rparr>, changeSpeed (speedDelta v') s, True)"
      using Speed by (simp add: startCondition_defs Let_def c0_def v'_def)
    moreover have "gives (cr_isPlayer s) b (c0\<lparr>cd_class := Speed v'\<rparr>) = (if b = BSpeed then speedDelta v' else 0)"
      by (cases b) (simp_all add: gives_def)
    ultimately show ?thesis
      using changeSpeed_held(1) changeSpeed_held(2) [of b "speedDelta v'" s] well_typed_put(5) [OF c0(3)] c0 Speed
      by auto
  next
    case (Damage d)
    obtain c' s' ok where st: "startDamageCondition w d c0 s = (c', s', ok)" by (metis prod_cases3)
    from startDamageCondition_spec [OF st] is_damage_gives [of c0 c'] c0 Damage
    show ?thesis
      by (intro keep [of c' s' ok]) (simp_all add: startCondition_defs Let_def c0_def [symmetric] st is_damage_of_def)
  next
    case (Light l)
    from light_started_spec [OF well_typed_light [OF assms(1) Light]]
    obtain l' where l': "light_started (cd_ticks c0) l = Some l'" "lightInfo l' = lightInfo l" by blast
    show ?thesis
      by (rule keep [of "c0\<lparr>cd_class := Light l'\<rparr>" "changeLight (setCreatureLight (lightInfo l') s)" True])
        (use Light l' c0 well_typed_put(7) [OF c0(3)] well_typed_light [OF assms(1) Light] in
          \<open>simp_all add: startCondition_defs Let_def c0_def [symmetric] keeps_held, simp add: gives_def\<close>)
  next
    case Generic
    then show ?thesis using c0 by (intro keep [of c0 s True]) (simp_all add: startCondition_defs c0_def gives_def assms(1))
  next
    case ManaShield
    then show ?thesis using c0 by (intro keep [of c0 s True]) (simp_all add: startCondition_defs c0_def gives_def assms(1))
  next
    case (Regeneration r)
    then show ?thesis using c0 by (intro keep [of c0 s True]) (simp_all add: startCondition_defs c0_def gives_def assms(1))
  next
    case (Soul r)
    then show ?thesis using c0 by (intro keep [of c0 s True]) (simp_all add: startCondition_defs c0_def gives_def assms(1))
  next
    case Invisible
    then show ?thesis using c0
      by (intro keep [of c0 "internalCreatureChangeVisible False s" True])
        (simp_all add: startCondition_defs c0_def gives_def keeps_held assms(1))
  next
    case (OutfitC fs)
    then show ?thesis using c0
      by (intro keep [of c0 "changeOutfit w fs s" True])
        (simp_all add: startCondition_defs c0_def gives_def keeps_held assms(1))
  qed
qed

subsection \<open>Meeting and executing\<close>

text \<open>How a condition and the creature change together.\<close>

definition carried :: "bonus \<Rightarrow> Condition \<Rightarrow> Creature \<Rightarrow> Condition \<Rightarrow> Creature \<Rightarrow> bool" where
  "carried b c s c' s' \<longleftrightarrow> well_typed c' \<and> cd_type c' = cd_type c \<and> same_frame s s'
     \<and> held b s' - gives (cr_isPlayer s) b c' = held b s - gives (cr_isPlayer s) b c"

lemma carried_keeps:
  "well_typed c' \<Longrightarrow> cd_type c' = cd_type c \<Longrightarrow> same_held s s' \<Longrightarrow>
   gives (cr_isPlayer s) b c' = gives (cr_isPlayer s) b c \<Longrightarrow> carried b c s c' s'"
  by (simp add: carried_def same_held_D)

lemma setTicks_same [simp]:
  "cd_class (setTicks now t c) = cd_class c" "cd_type (setTicks now t c) = cd_type c" "cd_id (setTicks now t c) = cd_id c"
  by (simp_all add: setTicks_def)

lemma gives_none:
  "cd_class c \<in> {Generic, ManaShield, Invisible} \<or> (\<exists>r. cd_class c = Regeneration r) \<or> (\<exists>r. cd_class c = Soul r)
   \<or> (\<exists>d. cd_class c = Damage d) \<or> (\<exists>fs. cd_class c = OutfitC fs) \<or> (\<exists>l. cd_class c = Light l) \<Longrightarrow> gives p b c = 0"
  by (auto simp: gives_def)

lemma addCondition_to_attributes:
  assumes "well_typed c" "cd_class c = Attributes a" "cd_class add = Attributes q" "attributes_ok q"
    and "lists_ok s" "bonus_ok b" "updateCondition w add c"
  shows "\<exists>c' s'. addCondition_to w add c s = Some (c', s') \<and> carried b c s c' s'"
proof -
  define s1 where "s1 = endAttributes a s"
  define a1 where "a1 = a\<lparr>ca_skills := ca_skills q, ca_skillsPercent := ca_skillsPercent q,
                          ca_stats := ca_stats q, ca_statsPercent := ca_statsPercent q\<rparr>"
  obtain a2 s2 where ap: "applyAttributes a1 s1 = (a2, s2)" by force
  define c1 where "c1 = (setTicks (w_now w) (cd_ticks add) c)\<lparr>cd_class := Attributes a2\<rparr>"
  have e: "same_frame s s1" "held b s1 = held b s - gives (cr_isPlayer s) b c"
    using endAttributes_spec [OF assms(5,6), of a c] assms(2) by (auto simp: s1_def gives_def)
  have "attributes_ok a1" using assms(4) by (simp add: a1_def attributes_ok_def)
  moreover have "lists_ok s1" using e(1) assms(5) by (simp add: same_frame_def)
  ultimately have ap': "attributes_ok a2" "same_frame s1 s2"
    "held b s2 = held b s1 + gives (cr_isPlayer s1) b (setTicks (w_now w) (cd_ticks add) c\<lparr>cd_class := Attributes a2\<rparr>)"
    using applyAttributes_spec [OF ap _ _ assms(6)] by auto
  have "addCondition_to w add c s = Some (c1, s2)"
    using assms(2,3,7) ap by (simp add: addCondition_to_defs Let_def a1_def s1_def c1_def)
  moreover have "well_typed c1"
    using ap'(1) assms(1,2) by (simp add: c1_def well_typed_put(1))
  moreover have "cr_isPlayer s1 = cr_isPlayer s" using e(1) by (simp add: same_frame_def)
  ultimately show ?thesis
    using e ap' by (auto simp: carried_def c1_def intro: same_frame_trans)
qed

lemma addCondition_to_spec:
  assumes "well_typed c" "well_typed add" "cd_type add = cd_type c" "lists_ok s" "bonus_ok b"
  shows "\<exists>c' s'. addCondition_to w add c s = Some (c', s') \<and> carried b c s c' s'"
proof -
  note cl = well_typed_same [OF assms(2,1,3)]
  define t where "t = setTicks (w_now w) (cd_ticks add) c"
  have t: "well_typed t" "cd_class t = cd_class c" "cd_type t = cd_type c" using assms(1) by (simp_all add: t_def)
  have no: "?thesis" if "addCondition_to w add c s = Some (c, s)"
    using that assms(1) by (auto intro!: carried_keeps)
  have keep: "?thesis" if "addCondition_to w add c s = Some (c', s')" "well_typed c'" "cd_type c' = cd_type c"
      "same_held s s'" "gives (cr_isPlayer s) b c' = gives (cr_isPlayer s) b c" for c' s'
    using that carried_keeps by blast
  have plain: "?thesis" if "cd_class c \<in> {Generic, ManaShield, Invisible}"
  proof (cases "updateCondition w add c")
    case True
    then show ?thesis using that t
      by (intro keep [of t s]) (auto simp: addCondition_to_defs Let_def t_def [symmetric] gives_none)
  next
    case False
    then show ?thesis using that by (intro no) (auto simp: addCondition_to_defs Let_def)
  qed
  show ?thesis
  proof (cases "cd_class c")
    case (Attributes a)
    then obtain q where q: "cd_class add = Attributes q" using cl by (cases "cd_class add") auto
    show ?thesis
    proof (cases "updateCondition w add c")
      case True
      then show ?thesis
        using addCondition_to_attributes [OF assms(1) Attributes q well_typed_attributes [OF assms(2) q] assms(4,5)] by simp
    next
      case False
      then show ?thesis using Attributes by (intro no) (simp add: addCondition_to_defs Let_def)
    qed
  next
    case (Speed v)
    then obtain q where q: "cd_class add = Speed q" using cl by (cases "cd_class add") auto
    show ?thesis
    proof (cases "cd_ticks c = - 1 \<and> cd_ticks add > 0")
      case True
      then show ?thesis using Speed by (intro no) (simp add: addCondition_to_defs Let_def)
    next
      case False
      define v' where "v' = speed_drawn w s (v\<lparr>speedDelta := speedDelta q, mina := mina q, maxa := maxa q,
                                               minb := minb q, maxb := maxb q\<rparr>)"
      define s' where "s' = (if speedDelta v' - speedDelta v \<noteq> 0 then changeSpeed (speedDelta v' - speedDelta v) s else s)"
      have "addCondition_to w add c s = Some (t\<lparr>cd_class := Speed v'\<rparr>, s')"
        using Speed q False assms(3) by (auto simp: addCondition_to_defs Let_def t_def v'_def s'_def)
      moreover have "same_frame s s'" using changeSpeed_held(1) by (simp add: s'_def)
      moreover have "held b s' = held b s + (if b = BSpeed then speedDelta v' - speedDelta v else 0)"
        using changeSpeed_held(2) [of b "speedDelta v' - speedDelta v" s] by (cases b) (auto simp: s'_def)
      ultimately show ?thesis
        using Speed t well_typed_put(5) [OF t(1)] by (cases b) (auto simp: carried_def gives_def)
    qed
  next
    case (Damage d)
    then obtain q where q: "cd_class add = Damage q" using cl by (cases "cd_class add") auto
    obtain c' s' where m: "mergeDamage w q (cd_ticks add) d c s = (c', s')" by force
    from mergeDamage_spec [OF m Damage] is_damage_gives [of c c'] assms(1) Damage
    show ?thesis
      by (intro keep [of c' s'])
        (simp_all add: addCondition_to_defs Let_def q assms(3) m is_damage_of_def gives_none)
  next
    case (Regeneration r)
    then obtain q where q: "cd_class add = Regeneration q" using cl by (cases "cd_class add") auto
    show ?thesis
    proof (cases "updateCondition w add c")
      case True
      then show ?thesis using Regeneration q t well_typed_put(2) [OF t(1)]
        by (intro keep [of "t\<lparr>cd_class := Regeneration (r\<lparr>healthTicks := healthTicks q, manaTicks := manaTicks q,
              healthGain := healthGain q, manaGain := manaGain q\<rparr>)\<rparr>" s])
          (simp_all add: addCondition_to_defs Let_def t_def gives_none)
    next
      case False
      then show ?thesis using Regeneration by (intro no) (simp add: addCondition_to_defs Let_def)
    qed
  next
    case (Soul r)
    then obtain q where q: "cd_class add = Soul q" using cl by (cases "cd_class add") auto
    show ?thesis
    proof (cases "updateCondition w add c")
      case True
      then show ?thesis using Soul q t well_typed_put(3) [OF t(1)]
        by (intro keep [of "t\<lparr>cd_class := Soul (r\<lparr>soulTicks := soulTicks q, soulGain := soulGain q\<rparr>)\<rparr>" s])
          (simp_all add: addCondition_to_defs Let_def t_def gives_none)
    next
      case False
      then show ?thesis using Soul by (intro no) (simp add: addCondition_to_defs Let_def)
    qed
  next
    case (OutfitC fs)
    then obtain fs' where q: "cd_class add = OutfitC fs'" using cl by (cases "cd_class add") auto
    show ?thesis
    proof (cases "updateCondition w add c")
      case True
      then show ?thesis using OutfitC q t well_typed_put(6) [OF t(1)]
        by (intro keep [of "t\<lparr>cd_class := OutfitC fs'\<rparr>" "changeOutfit w fs' s"])
          (simp_all add: addCondition_to_defs Let_def t_def gives_none keeps_held)
    next
      case False
      then show ?thesis using OutfitC by (intro no) (simp add: addCondition_to_defs Let_def)
    qed
  next
    case (Light l)
    then obtain q where q: "cd_class add = Light q" using cl by (cases "cd_class add") auto
    show ?thesis
    proof (cases "updateCondition w add c")
      case True
      from well_typed_light [OF assms(2) q] light_started_spec [of "l\<lparr>lightInfo := lightInfo q\<rparr>" "cd_ticks add"]
      obtain l' where l': "light_started (cd_ticks add) (l\<lparr>lightInfo := lightInfo q\<rparr>) = Some l'"
          "light_level (lightInfo l') \<noteq> 0" by auto
      show ?thesis
        by (rule keep [of "t\<lparr>cd_class := Light l'\<rparr>" "changeLight (setCreatureLight (lightInfo l') s)"])
          (use True Light q t l' well_typed_put(7) [OF t(1)] in
            \<open>simp_all add: addCondition_to_defs Let_def t_def gives_none keeps_held\<close>)
    next
      case False
      then show ?thesis using Light by (intro no) (simp add: addCondition_to_defs Let_def)
    qed
  qed (rule plain, simp)+
qed

lemma executeCondition_spec:
  assumes "well_typed c" "executeCondition w i c s = ((c', ok), s')"
  shows "carried b c s c' s' \<and> same_held s s'"
proof -
  have keep: "?thesis" if "same_held s s'" "cd_type c' = cd_type c" "well_typed c'"
      "gives (cr_isPlayer s) b c' = gives (cr_isPlayer s) b c"
    using that by (simp add: carried_keeps)
  have plain: "?thesis" if e: "executeCondition_base w (sint i) c1 = (c', ok)" and "same_held s s'"
      "cd_type c1 = cd_type c" "well_typed c1" "gives (cr_isPlayer s) b c1 = gives (cr_isPlayer s) b c" for c1
    using executeCondition_base_spec [OF e] that well_typed_class [of c1 c'] gives_same [of c' c1]
    by (intro keep) (simp_all add: well_typed_def)
  show ?thesis
  proof (cases "cd_class c")
    case (Damage d)
    with assms(2) have "executeDamageCondition w (sint i) d c s = ((c', ok), s')" by (simp add: executeCondition_def)
    from executeDamageCondition_spec [OF this Damage] is_damage_gives [of c c'] assms(1) Damage
    show ?thesis by (intro keep) (simp_all add: is_damage_of_def gives_none)
  next
    case (Regeneration r)
    obtain r' s1 where r: "executeRegeneration w i r s = (r', s1)" by force
    then have "same_held s s1"
      by (auto simp: executeRegeneration_def Let_def keeps_held split: if_splits prod.splits
          intro: same_held_trans [OF player_health_keeps(1) player_health_keeps(2)])
    with r Regeneration assms well_typed_put(2) [OF assms(1)] show ?thesis
      by (intro plain [of "c\<lparr>cd_class := Regeneration r'\<rparr>"]) (simp_all add: executeCondition_def gives_none)
  next
    case (Soul r)
    obtain r' s1 where r: "executeSoul w i r s = (r', s1)" by force
    then have "same_held s s1"
      by (auto simp: executeSoul_def Let_def keeps_held split: if_splits)
    with r Soul assms well_typed_put(3) [OF assms(1)] show ?thesis
      by (intro plain [of "c\<lparr>cd_class := Soul r'\<rparr>"]) (simp_all add: executeCondition_def gives_none)
  next
    case (Light l)
    obtain l' s1 where l: "executeLight i l s = (l', s1)" by force
    then have "same_held s s1" "lightInfo l' = lightInfo l"
      by (auto simp: executeLight_def Let_def keeps_held split: if_splits)
    with l Light assms well_typed_put(7) [OF assms(1)] well_typed_light [OF assms(1)] show ?thesis
      by (intro plain [of "c\<lparr>cd_class := Light l'\<rparr>"]) (simp_all add: executeCondition_def gives_none)
  qed (use assms in \<open>(intro plain [of c]; simp add: executeCondition_def)+\<close>)
qed

subsection \<open>The list of conditions\<close>

abbreviation total :: "bonus \<Rightarrow> bool \<Rightarrow> Condition list \<Rightarrow> int" where
  "total b p cs \<equiv> (\<Sum>c\<leftarrow>cs. gives p b c)"

lemma with_conditions [simp]:
  "held b (s\<lparr>conditions := cs\<rparr>) = held b s" "lists_ok (s\<lparr>conditions := cs\<rparr>) = lists_ok s"
  by (cases b; simp add: lists_ok_def)+

lemma same_frame_D: "same_frame s s' \<Longrightarrow> lists_ok s \<Longrightarrow> lists_ok s'"
  "same_frame s s' \<Longrightarrow> cr_isPlayer s' = cr_isPlayer s" "same_frame s s' \<Longrightarrow> conditions s' = conditions s"
  by (simp_all add: same_frame_def)

lemma end_one:
  assumes "lists_ok s" "bonus_ok b"
  shows "same_frame s (onEndCondition ty (endCondition w c s))
    \<and> held b (onEndCondition ty (endCondition w c s)) = held b s - gives (cr_isPlayer s) b c"
  using endCondition_spec [OF assms, of w c] onEndCondition_keeps [of "endCondition w c s" ty]
  by (metis same_frame_trans same_held_D)

lemma removing_spec:
  assumes "lists_ok s" "bonus_ok b"
  shows "conditions (removing w p passed cs s) = passed @ filter (\<lambda>c. \<not> p c) cs
    \<and> cr_isPlayer (removing w p passed cs s) = cr_isPlayer s \<and> lists_ok (removing w p passed cs s)
    \<and> held b (removing w p passed cs s) = held b s - total b (cr_isPlayer s) (filter p cs)"
  using assms(1)
proof (induction cs arbitrary: passed s)
  case (Cons c cs)
  show ?case
  proof (cases "p c")
    case True
    define s1 where "s1 = onEndCondition (cd_type c) (endCondition w c (s\<lparr>conditions := passed @ cs\<rparr>))"
    from end_one [of "s\<lparr>conditions := passed @ cs\<rparr>" b "cd_type c" w c] Cons.prems assms(2)
    have s1: "same_frame (s\<lparr>conditions := passed @ cs\<rparr>) s1" "held b s1 = held b s - gives (cr_isPlayer s) b c"
      by (simp_all add: s1_def)
    with Cons.prems have "lists_ok s1" "cr_isPlayer s1 = cr_isPlayer s"
      using same_frame_D(1,2) by fastforce+
    with Cons.IH [of s1 passed] s1 True show ?thesis by (simp add: s1_def)
  next
    case False
    then show ?thesis using Cons.IH [of s "passed @ [c]"] Cons.prems by simp
  qed
qed (simp add: assms(2))

lemma total_filter: "total b p cs = total b p (filter q cs) + total b p (filter (\<lambda>c. \<not> q c) cs)"
  by (induction cs) auto

text \<open>The step relation of the theorems: well-formedness is kept and nothing is left behind or lost.\<close>

definition fair :: "bonus \<Rightarrow> Creature \<Rightarrow> Creature \<Rightarrow> bool" where
  "fair b s s' \<longleftrightarrow> creature_ok s' \<and> own b s' = own b s"

lemma fairI:
  "lists_ok s' \<Longrightarrow> list_all well_typed (conditions s') \<Longrightarrow> cr_isPlayer s' = cr_isPlayer s \<Longrightarrow>
   held b s' - total b (cr_isPlayer s) (conditions s') = held b s - total b (cr_isPlayer s) (conditions s) \<Longrightarrow> fair b s s'"
  by (simp add: fair_def creature_ok_def own_def)

lemma removing_fair:
  assumes "creature_ok s" "bonus_ok b"
  shows "fair b s (removing w p [] (conditions s) s)"
  using removing_spec [of s b w p "[]" "conditions s"] assms total_filter [of "cr_isPlayer s" b "conditions s" p]
  by (intro fairI) (auto simp: creature_ok_def list_all_iff)

lemma remove_at_fair:
  assumes "creature_ok s" "bonus_ok b"
  shows "fair b s (removeCondition_at w k s)"
proof (cases "k < length (conditions s)")
  case False
  then show ?thesis using assms by (simp add: removeCondition_at_def fair_def)
next
  case True
  define c where "c = conditions s ! k"
  define s0 where "s0 = s\<lparr>conditions := take k (conditions s) @ drop (Suc k) (conditions s)\<rparr>"
  define s1 where "s1 = onEndCondition (cd_type c) (endCondition w c s0)"
  have split: "conditions s = take k (conditions s) @ c # drop (Suc k) (conditions s)"
    using True by (simp add: c_def id_take_nth_drop)
  have s0: "lists_ok s0" "cr_isPlayer s0 = cr_isPlayer s" "held b s0 = held b s"
    using assms(1) by (simp_all add: s0_def creature_ok_def)
  from end_one [OF s0(1) assms(2), of "cd_type c" w c]
  have s1: "same_frame s0 s1" "held b s1 = held b s - gives (cr_isPlayer s) b c"
    using s0 by (simp_all add: s1_def)
  have sum: "total b (cr_isPlayer s) (conditions s)
      = total b (cr_isPlayer s) (conditions s0) + gives (cr_isPlayer s) b c"
    by (subst split) (simp add: s0_def)
  have wt: "list_all well_typed (conditions s0)"
    using assms(1) by (subst (asm) creature_ok_def) (subst (asm) split, simp add: s0_def)
  have "fair b s s1"
    using same_frame_D [OF s1(1)] s0 s1(2) wt sum by (intro fairI) simp_all
  then show ?thesis using True by (simp add: removeCondition_at_def Let_def s1_def s0_def c_def)
qed

lemma executing_spec:
  assumes "lists_ok s" "bonus_ok b" "list_all well_typed cs"
  shows "\<exists>cs'. conditions (executing w i passed cs s) = passed @ cs' \<and> list_all well_typed cs'
    \<and> cr_isPlayer (executing w i passed cs s) = cr_isPlayer s \<and> lists_ok (executing w i passed cs s)
    \<and> held b (executing w i passed cs s) - total b (cr_isPlayer s) cs' = held b s - total b (cr_isPlayer s) cs"
  using assms(1,3)
proof (induction cs arbitrary: passed s)
  case (Cons c cs)
  define s0 where "s0 = s\<lparr>conditions := passed @ c # cs\<rparr>"
  obtain c' ok s1 where e: "executeCondition w i c s0 = ((c', ok), s1)" by (metis surj_pair)
  from executeCondition_spec [OF _ e, of b] Cons.prems(2)
  have s1: "carried b c s0 c' s1" "same_held s0 s1" by simp_all
  then have s1': "lists_ok s1" "cr_isPlayer s1 = cr_isPlayer s" "well_typed c'" "held b s1 = held b s"
      "gives (cr_isPlayer s) b c' = gives (cr_isPlayer s) b c"
    using Cons.prems(1) same_frame_D [OF same_held_D(1) [OF s1(2)]] same_held_D(2) [OF s1(2), of b]
    by (simp_all add: carried_def s0_def)
  show ?case
  proof (cases ok)
    case True
    then have "executing w i passed (c # cs) s = executing w i (passed @ [c']) cs s1"
      using e by (simp add: s0_def)
    moreover obtain cs' where "conditions (executing w i (passed @ [c']) cs s1) = passed @ c' # cs' \<and> list_all well_typed cs'
        \<and> cr_isPlayer (executing w i (passed @ [c']) cs s1) = cr_isPlayer s \<and> lists_ok (executing w i (passed @ [c']) cs s1)
        \<and> held b (executing w i (passed @ [c']) cs s1) - total b (cr_isPlayer s) cs' = held b s - total b (cr_isPlayer s) cs"
      using Cons.IH [of s1 "passed @ [c']"] Cons.prems(2) s1' by auto
    ultimately show ?thesis using s1' by (intro exI [of _ "c' # cs'"]) simp
  next
    case False
    define s2 where "s2 = onEndCondition (cd_type c') (endCondition w c' (s1\<lparr>conditions := passed @ cs\<rparr>))"
    from end_one [of "s1\<lparr>conditions := passed @ cs\<rparr>" b "cd_type c'" w c'] s1' assms(2)
    have s2: "same_frame (s1\<lparr>conditions := passed @ cs\<rparr>) s2" "held b s2 = held b s - gives (cr_isPlayer s) b c"
      by (simp_all add: s2_def)
    have "lists_ok s2" "cr_isPlayer s2 = cr_isPlayer s"
      using same_frame_D(1,2) [OF s2(1)] s1' by simp_all
    moreover have "executing w i passed (c # cs) s = executing w i passed cs s2"
      using e False by (simp add: s0_def s2_def)
    ultimately show ?thesis using Cons.IH [of s2 passed] Cons.prems(2) s2(2) by auto
  qed
qed (simp add: assms(2))

lemma executing_fair:
  assumes "creature_ok s" "bonus_ok b"
  shows "fair b s (executeConditions w i s)"
proof -
  from assms(1) have "lists_ok s" "list_all well_typed (conditions s)" by (simp_all add: creature_ok_def)
  from executing_spec [OF this(1) assms(2) this(2), of w i "[]"] obtain cs' where
    "conditions (executeConditions w i s) = cs'" "list_all well_typed cs'"
    "cr_isPlayer (executeConditions w i s) = cr_isPlayer s" "lists_ok (executeConditions w i s)"
    "held b (executeConditions w i s) - total b (cr_isPlayer s) cs' = held b s - total b (cr_isPlayer s) (conditions s)"
    by (auto simp: executeConditions_def)
  then show ?thesis by (intro fairI) simp_all
qed

lemma end_all_spec:
  assumes "lists_ok s" "bonus_ok b"
  shows "cr_isPlayer (fold (endCondition w) cs s) = cr_isPlayer s \<and> lists_ok (fold (endCondition w) cs s)
    \<and> held b (fold (endCondition w) cs s) = held b s - total b (cr_isPlayer s) cs"
  using assms(1)
proof (induction cs arbitrary: s)
  case (Cons c cs)
  from endCondition_spec [OF Cons.prems assms(2), of w c] have
    e: "same_frame s (endCondition w c s)" "held b (endCondition w c s) = held b s - gives (cr_isPlayer s) b c" by auto
  from Cons.IH [OF same_frame_D(1) [OF e(1) Cons.prems]] same_frame_D(2) [OF e(1)] e(2) show ?case by simp
qed simp

lemma end_all_fair:
  assumes "creature_ok s" "bonus_ok b"
  shows "fair b s (end_all w s)"
  using assms end_all_spec [of s b w "conditions s"] by (intro fairI) (simp_all add: end_all_def creature_ok_def)

lemma fair_refl: "creature_ok s \<Longrightarrow> fair b s s"
  by (simp add: fair_def)

lemma fair_trans: "fair b s s' \<Longrightarrow> fair b s' s'' \<Longrightarrow> fair b s s''"
  by (simp add: fair_def)

lemma fair_ok: "fair b s s' \<Longrightarrow> creature_ok s'"
  by (simp add: fair_def)

lemma same_held_fair: "creature_ok s \<Longrightarrow> same_held s s' \<Longrightarrow> fair b s s'"
  using same_held_D [of s s'] same_frame_D [of s s'] by (intro fairI) (simp_all add: creature_ok_def)

lemma removeCondition_fair:
  "creature_ok s \<Longrightarrow> bonus_ok b \<Longrightarrow> fair b s (removeCondition w ty s)"
  "creature_ok s \<Longrightarrow> bonus_ok b \<Longrightarrow> fair b s (removeCondition_id w ty cid s)"
  "creature_ok s \<Longrightarrow> bonus_ok b \<Longrightarrow> fair b s (die_conditions w s)"
  by (simp_all add: removeCondition_def removeCondition_id_def die_conditions_def removing_fair)

lemma onAddCondition_fair:
  assumes "creature_ok s" "bonus_ok b"
  shows "fair b s (onAddCondition w ty s)"
proof -
  define s1 where "s1 = (if ty = CONDITION_PARALYZE \<and> hasCondition w CONDITION_HASTE True s
      then removeCondition w CONDITION_HASTE s
      else if ty = CONDITION_HASTE \<and> hasCondition w CONDITION_PARALYZE True s
      then removeCondition w CONDITION_PARALYZE s else s)"
  have s1: "fair b s s1" using assms by (simp add: s1_def removeCondition_fair fair_refl)
  have "fair b s1 (sendIcons s1)" using fair_ok [OF s1] by (intro same_held_fair look_keeps)
  with s1 show ?thesis
    unfolding onAddCondition_def Let_def s1_def [symmetric] by (simp add: fair_trans)
qed

lemma change_first_total:
  assumes "find p cs = Some c"
  shows "total b pl (change_first p c' cs) = total b pl cs - gives pl b c + gives pl b c'"
  using assms by (induction cs) (auto split: if_splits)

lemma change_first_all:
  "list_all P cs \<Longrightarrow> P c' \<Longrightarrow> list_all P (change_first p c' cs)"
  by (induction cs) auto

lemma addCondition_fair:
  assumes "creature_ok s" "well_typed c" "bonus_ok b"
  shows "\<exists>s' ok. addCondition w c s = Some (s', ok) \<and> fair b s s'"
proof (cases "getCondition (cd_type c) (cd_id c) s")
  case (Some prev)
  then have prev: "prev \<in> set (conditions s)" "cd_type prev = cd_type c"
    using find_member by (fastforce simp: getCondition_def)+
  then have wt: "well_typed prev" using assms(1) by (auto simp: creature_ok_def list_all_iff)
  have lists: "lists_ok s" using assms(1) by (simp add: creature_ok_def)
  from addCondition_to_spec [OF wt assms(2) prev(2) [symmetric] lists assms(3), of w] obtain c' s1 where
    a: "addCondition_to w c prev s = Some (c', s1)" "carried b prev s c' s1" by blast
  define s' where "s' = s1\<lparr>conditions := change_first (\<lambda>x. cd_type x = cd_type c \<and> cd_id x = cd_id c) c' (conditions s1)\<rparr>"
  from a(2) have s1: "conditions s1 = conditions s" "lists_ok s1" "cr_isPlayer s1 = cr_isPlayer s" "well_typed c'"
    "held b s1 - gives (cr_isPlayer s) b c' = held b s - gives (cr_isPlayer s) b prev"
    using lists same_frame_D by (auto simp: carried_def)
  have "fair b s s'"
    using s1 Some change_first_total [of _ "conditions s" prev] assms(1)
    by (intro fairI) (auto simp: s'_def getCondition_def creature_ok_def change_first_all)
  then show ?thesis using Some a(1)
    by (intro exI [of _ s'] exI [of _ True]) (simp add: addCondition_def s'_def)
next
  case None
  have lists: "lists_ok s" using assms(1) by (simp add: creature_ok_def)
  from startCondition_spec [OF assms(2) lists assms(3), of w] obtain c' s1 ok where
    a: "startCondition w c s = Some (c', s1, ok)" "well_typed c'" "same_frame s s1"
      "held b s1 = held b s + gives (cr_isPlayer s) b c'" "\<not> ok \<longrightarrow> gives (cr_isPlayer s) b c' = 0"
    by blast
  note s1 = same_frame_D [OF a(3)]
  show ?thesis
  proof (cases ok)
    case True
    have "fair b s (s1\<lparr>conditions := conditions s1 @ [c']\<rparr>)"
      using s1 lists a assms(1) by (intro fairI) (auto simp: creature_ok_def)
    with onAddCondition_fair [OF fair_ok [OF this] assms(3)] True None a(1) show ?thesis
      by (auto simp: addCondition_def intro: fair_trans)
  next
    case False
    then have "fair b s s1"
      using s1 lists a assms(1) by (intro fairI) (auto simp: creature_ok_def)
    then show ?thesis using False None a(1)
      by (intro exI [of _ s1] exI [of _ False]) (simp add: addCondition_def)
  qed
qed

lemma addCombatCondition_fair:
  assumes "creature_ok s" "well_typed c" "bonus_ok b"
  shows "\<exists>s' ok. addCombatCondition w c s = Some (s', ok) \<and> fair b s s'"
proof -
  from addCondition_fair [OF assms, of w] obtain s1 ok where s1: "addCondition w c s = Some (s1, ok)" "fair b s s1"
    by blast
  have "fair b s1 (cr_emit e s1)" for e using fair_ok [OF s1(2)] by (intro same_held_fair emit_keeps)
  with s1 show ?thesis by (auto simp: addCombatCondition_def intro: fair_trans)
qed

section \<open>Sequences of operations\<close>

datatype ConditionOp = AddCondition World Condition | AddCombatCondition World Condition | RemoveCondition World u32
  | RemoveConditionId World u32 int | RemoveConditionAt World nat | ExecuteConditions World u32
  | DieConditions World | EndAll World

fun condition_op :: "ConditionOp \<Rightarrow> Creature \<Rightarrow> Creature option" where
  "condition_op (AddCondition w c) s = map_option fst (addCondition w c s)"
| "condition_op (AddCombatCondition w c) s = map_option fst (addCombatCondition w c s)"
| "condition_op (RemoveCondition w ty) s = Some (removeCondition w ty s)"
| "condition_op (RemoveConditionId w ty cid) s = Some (removeCondition_id w ty cid s)"
| "condition_op (RemoveConditionAt w k) s = Some (removeCondition_at w k s)"
| "condition_op (ExecuteConditions w i) s = Some (executeConditions w i s)"
| "condition_op (DieConditions w) s = Some (die_conditions w s)"
| "condition_op (EndAll w) s = Some (end_all w s)"

fun condition_ops :: "ConditionOp list \<Rightarrow> Creature \<Rightarrow> Creature option" where
  "condition_ops [] s = Some s"
| "condition_ops (x # xs) s = (case condition_op x s of None \<Rightarrow> None | Some s \<Rightarrow> condition_ops xs s)"

fun op_ok :: "ConditionOp \<Rightarrow> bool" where
  "op_ok (AddCondition w c) = well_typed c"
| "op_ok (AddCombatCondition w c) = well_typed c"
| "op_ok _ = True"

lemma condition_op_fair:
  assumes "creature_ok s" "op_ok x" "bonus_ok b"
  shows "\<exists>s'. condition_op x s = Some s' \<and> fair b s s'"
proof (cases x)
  case (AddCondition w c)
  with addCondition_fair [OF assms(1) _ assms(3), of c w] assms(2) show ?thesis by auto
next
  case (AddCombatCondition w c)
  with addCombatCondition_fair [OF assms(1) _ assms(3), of c w] assms(2) show ?thesis by auto
qed (use assms in \<open>simp_all add: removeCondition_fair remove_at_fair executing_fair end_all_fair\<close>)

lemma condition_ops_fair:
  "creature_ok s \<Longrightarrow> list_all op_ok xs \<Longrightarrow> bonus_ok b \<Longrightarrow> \<exists>s'. condition_ops xs s = Some s' \<and> fair b s s'"
proof (induction xs arbitrary: s)
  case Nil
  then show ?case by (simp add: fair_refl)
next
  case (Cons x xs)
  from condition_op_fair [OF Cons.prems(1) _ Cons.prems(3), of x] Cons.prems(2) obtain s1 where
    s1: "condition_op x s = Some s1" "fair b s s1" by auto
  from Cons.IH [OF fair_ok [OF s1(2)] _ Cons.prems(3)] Cons.prems(2) obtain s2 where
    "condition_ops xs s1 = Some s2" "fair b s1 s2" by auto
  with s1 show ?case by (auto intro: fair_trans)
qed

text \<open>A world in which nothing hits, and a player of level 8 without conditions, for the examples.\<close>

definition calm_world :: "int \<Rightarrow> World" where
  "calm_world now = \<lparr>w_now = now, w_rand = 0, w_tie = (\<lambda>a b. False), w_field = None, w_protection = False,
     w_blockHit = (\<lambda>ty d. (False, d)), w_changeHealth = (\<lambda>ty d. True)\<rparr>"

definition no_outfit :: Outfit_t where
  "no_outfit = \<lparr>lookType = 0, lookTypeEx = 0, lookHead = 0, lookBody = 0, lookLegs = 0, lookFeet = 0\<rparr>"

definition plain_player :: Creature where
  "plain_player = \<lparr>conditions = [], cr_isPlayer = True, baseSpeed = 234, varSpeed = 0, hasSteps = False,
     skillLevels = replicate SKILLS 10, varSkills = replicate SKILLS 0, varStats = replicate STATS 0,
     cr_health = 185, healthMax = 185, cr_mana = 35, manaMax = 35, cr_soul = 100, soulMax = 100, cr_magLevel = 0,
     conditionSuppressions = 0, internalLight = \<lparr>light_level = 0, light_color = 0\<rparr>,
     itemsLight = \<lparr>light_level = 0, light_color = 0\<rparr>, currentOutfit = no_outfit, defaultOutfit = no_outfit,
     pzLocked = False, cr_events = []\<rparr>"

definition haste :: "int \<Rightarrow> int \<Rightarrow> Condition" where
  "haste ticks d = \<lparr>cd_id = 0, cd_ticks = ticks, cd_endTime = 0, cd_type = CONDITION_HASTE,
     cd_class = Speed (new_ConditionSpeed d)\<rparr>"

lemma example_ok: "creature_ok plain_player" "well_typed (haste t d)"
  by (simp_all add: creature_ok_def plain_player_def lists_ok_def haste_def well_typed_def class_for_def)

text \<open>
  C14. Conditions stay well typed: from a creature whose conditions are of the class their type
  stands for, every sequence of operations that adds such conditions (and light with a level) succeeds, so no cast of a condition to the
  class of another goes wrong and nothing is divided by zero, and all its conditions are of the class of their type again.
\<close>
theorem conditions_stay_typed:
  assumes "creature_ok s" "list_all op_ok xs"
  shows "\<exists>s'. condition_ops xs s = Some s' \<and> creature_ok s'"
  using condition_ops_fair [OF assms, of BSpeed] fair_ok by auto

text \<open>
  C7. Effects are taken back: whatever conditions a creature gets, meets again, outlives or loses, in any order, its speed,
  skills and stats without what the present conditions have added to them never change.
\<close>
theorem effects_are_taken_back:
  assumes "creature_ok s" "list_all op_ok xs" "condition_ops xs s = Some s'"
  shows "own BSpeed s' = own BSpeed s
    \<and> (\<forall>i\<in>{0..<SKILLS}. own (BSkill i) s' = own (BSkill i) s)
    \<and> (\<forall>i\<in>{0..<STATS}. own (BStat i) s' = own (BStat i) s)"
  using condition_ops_fair [OF assms(1,2)] assms(3) by (auto simp: fair_def)

theorem conditions_stay_typed_witness:
  "\<exists>s'. condition_ops [AddCondition (calm_world 1) (haste 5000 40), ExecuteConditions (calm_world 2) 1000,
       RemoveCondition (calm_world 2) CONDITION_HASTE] plain_player = Some s' \<and> creature_ok s'"
  using conditions_stay_typed [of plain_player "[AddCondition (calm_world 1) (haste 5000 40),
       ExecuteConditions (calm_world 2) 1000, RemoveCondition (calm_world 2) CONDITION_HASTE]"]
  by (simp only: example_ok list.pred_inject op_ok.simps simp_thms)

definition example_ops :: "ConditionOp list" where
  "example_ops = [AddCondition (calm_world 1) (haste 5000 40), AddCondition (calm_world 2) (haste 5000 60),
     ExecuteConditions (calm_world 3) 1000]"

lemma example_ops_run:
  "map_option (\<lambda>s. (varSpeed s, map cd_ticks (conditions s))) (condition_ops example_ops plain_player) = Some (60, [4000])"
  by (simp add: example_ops_def addCondition_def addCondition_to_defs startCondition_defs startCondition_base_def getCondition_def
      plain_player_def haste_def calm_world_def new_ConditionSpeed_def speed_drawn_def changeSpeed_def setSpeed_def
      getSpeed_def cr_emit_def onAddCondition_def hasCondition_def sendIcons_def isSuppress_def Let_def
      setTicks_def executeConditions_def executeCondition_def executeCondition_base_def)

theorem effects_are_taken_back_witness:
  "own BSpeed (the (condition_ops example_ops plain_player)) = 0
    \<and> varSpeed (the (condition_ops example_ops plain_player)) = 60
    \<and> own (BSkill 2) (the (condition_ops example_ops plain_player)) = 0"
proof -
  obtain s where s: "condition_ops example_ops plain_player = Some s" "varSpeed s = 60"
    using example_ops_run by auto
  have "list_all op_ok example_ops" by (simp add: example_ops_def example_ok)
  from effects_are_taken_back [OF example_ok(1) this s(1)] s show ?thesis
    by (simp add: own_def plain_player_def)
qed

section \<open>Meeting conditions, and light\<close>

subsection \<open>A permanent condition that is not seen\<close>

text \<open>
  A condition that has an end and then meets a permanent one of its type and id becomes permanent, and
  no later turn ends it; but its end time is set to the moment before the meeting, so that the creature is not seen to have
  the condition from then on.
\<close>
theorem permanent_condition_not_seen:
  assumes "cd_class c \<in> {Generic, ManaShield, Invisible}" "cd_type add = cd_type c" "cd_ticks add = - 1"
    and "1 < w_now w" "w_now w \<le> w_now w'"
  shows "\<exists>c'. addCondition_to w add c s = Some (c', s) \<and> snd (fst (executeCondition w' i c' s))
    \<and> \<not> hasCondition w' (cd_type c) True (s\<lparr>conditions := [c']\<rparr>)"
proof -
  have "updateCondition w add c" using assms(2,3) by (simp add: updateCondition_def)
  then have "addCondition_to w add c s = Some (setTicks (w_now w) (- 1) c, s)"
    using assms(1,3) by (auto simp: addCondition_to_defs Let_def)
  moreover have "snd (fst (executeCondition w' i (setTicks (w_now w) (- 1) c) s))"
    using assms(1) by (auto simp: executeCondition_def executeCondition_base_def setTicks_def)
  moreover have "\<not> hasCondition w' (cd_type c) True (s\<lparr>conditions := [setTicks (w_now w) (- 1) c]\<rparr>)"
    using assms(4,5) by (simp add: hasCondition_def setTicks_def)
  ultimately show ?thesis by blast
qed

definition shield :: "int \<Rightarrow> int \<Rightarrow> Condition" where
  "shield ticks endTime = \<lparr>cd_id = 0, cd_ticks = ticks, cd_endTime = endTime, cd_type = CONDITION_MANASHIELD,
     cd_class = ManaShield\<rparr>"

theorem permanent_condition_not_seen_witness:
  "\<exists>c'. addCondition_to (calm_world 1000) (shield (- 1) 0) (shield 200 1200) plain_player = Some (c', plain_player)
    \<and> snd (fst (executeCondition (calm_world 2000) 1000 c' plain_player))
    \<and> \<not> hasCondition (calm_world 2000) CONDITION_MANASHIELD True (plain_player\<lparr>conditions := [c']\<rparr>)"
  using permanent_condition_not_seen [of "shield 200 1200" "shield (- 1) 0" "calm_world 1000" "calm_world 2000"
      plain_player 1000]
  by (simp add: shield_def calm_world_def)

subsection \<open>Light that grows back\<close>

text \<open>
  When the light of a spell fades and the player carries a stronger light, the fading is computed from
  the stronger one: the light of the spell becomes that of the carried item less one, so it can grow.
\<close>
theorem fading_light_grows:
  assumes "cr_isPlayer s" "light_level (internalLight s) < light_level (itemsLight s) - 1"
    and "0 < light_level (itemsLight s)" "lightChangeInterval l \<le> internalLightTicks l + i"
  shows "internalLight (snd (executeLight i l s)) = (itemsLight s)\<lparr>light_level := light_level (itemsLight s) - 1\<rparr>
    \<and> light_level (internalLight s) < light_level (internalLight (snd (executeLight i l s)))"
proof -
  have "light_level (itemsLight s) - 1 < light_level (itemsLight s)"
    unfolding word_less_nat_alt using assms(3) by (intro measure_unat) auto
  then have "\<not> light_level (itemsLight s) < light_level (internalLight s)"
    using assms(2) by (meson not_less_iff_gr_or_eq order.strict_trans)
  with assms show ?thesis
    by (simp add: executeLight_def Let_def getCreatureLight_def changeLight_def setCreatureLight_def cr_emit_def)
qed

theorem fading_light_grows_witness:
  "light_level (internalLight (snd (executeLight 1000 (new_ConditionLight 6 215)
     (plain_player\<lparr>internalLight := \<lparr>light_level = 5, light_color = 215\<rparr>,
                    itemsLight := \<lparr>light_level = 8, light_color = 206\<rparr>\<rparr>)))) = 7"
  using fading_light_grows [of "plain_player\<lparr>internalLight := \<lparr>light_level = 5, light_color = 215\<rparr>,
      itemsLight := \<lparr>light_level = 8, light_color = 206\<rparr>\<rparr>" "new_ConditionLight 6 215" 1000]
  by (simp add: plain_player_def new_ConditionLight_def)

subsection \<open>The later end wins\<close>

text \<open>
  Two conditions of the same type and id that meet: unless they are damage or haste, the present one takes over the
  end of the new one if that is not earlier, and else keeps its own; a permanent one is never given an end by one that lasts.
\<close>
theorem later_end_wins:
  assumes "well_typed c" "well_typed add" "cd_type add = cd_type c" "0 < cd_ticks add"
    and "class_no (cd_class c) \<notin> {6, 7}" "addCondition_to w add c s = Some (c', s')"
  shows "(if cd_ticks c = - 1 \<or> cd_endTime c > w_now w + cd_ticks add
          then c' = c \<and> s' = s
          else cd_ticks c' = cd_ticks add \<and> cd_endTime c' = w_now w + cd_ticks add)
    \<and> (cd_ticks c \<noteq> - 1 \<longrightarrow> cd_endTime c \<le> cd_endTime c')"
proof -
  have upd: "updateCondition w add c \<longleftrightarrow> \<not> (cd_ticks c = - 1 \<or> cd_endTime c > w_now w + cd_ticks add)"
    using assms(3,4) by (auto simp: updateCondition_def)
  have no: "c' = c \<and> s' = s" if "\<not> updateCondition w add c"
    using assms(5,6) that by (cases "cd_class c") (auto simp: addCondition_to_defs Let_def)
  have yes: "cd_ticks c' = cd_ticks add \<and> cd_endTime c' = w_now w + cd_ticks add" if "updateCondition w add c"
    using assms(5,6) that
    by (cases "cd_class c"; cases "cd_class add")
      (auto simp: addCondition_to_defs Let_def setTicks_def split: prod.splits)
  show ?thesis using upd no yes by auto
qed

theorem later_end_wins_witness:
  "addCondition_to (calm_world 1000) (shield 500 0) (shield 200 1200) plain_player
     = Some (shield 500 1500, plain_player)
   \<and> (1200::int) \<le> 1500"
proof -
  have "addCondition_to (calm_world 1000) (shield 500 0) (shield 200 1200) plain_player
     = Some (shield 500 1500, plain_player)"
    by (simp add: addCondition_to_defs updateCondition_def setTicks_def shield_def calm_world_def Let_def)
  moreover from later_end_wins [OF _ _ _ _ _ this] have "cd_endTime (shield 200 1200) \<le> cd_endTime (shield 500 1500)"
    by (simp add: shield_def well_typed_def class_for_def)
  ultimately show ?thesis by (simp add: shield_def)
qed

end
