(* ===== verification/ConditionStore.thy ===== *)
theory ConditionStore
  imports Conditions PropStreams "HOL-Library.Monad_Syntax"
begin

text \<open>
  The stored form of the conditions (\<^verbatim>\<open>serialize\<close>, \<^verbatim>\<open>unserialize\<close> and \<^verbatim>\<open>createCondition\<close> in \<^verbatim>\<open>condition.cpp\<close>, the
  loops that save and load a player's conditions in \<^verbatim>\<open>ioplayer.cpp\<close>): an attribute is a byte and a value,
  and a condition ends with a mark.

  The main fact is that what is saved is loaded again, class by class, except for attribute conditions, which
  are read past the end of an array.
\<close>

unbundle bit_operations_syntax

section \<open>The stored form\<close>

abbreviation CONDITIONATTR_TYPE :: u8 where "CONDITIONATTR_TYPE \<equiv> 1"
abbreviation CONDITIONATTR_ID :: u8 where "CONDITIONATTR_ID \<equiv> 2"
abbreviation CONDITIONATTR_TICKS :: u8 where "CONDITIONATTR_TICKS \<equiv> 3"
abbreviation CONDITIONATTR_END :: u8 where "CONDITIONATTR_END \<equiv> 254"

text \<open>What \<^verbatim>\<open>serialize\<close> adds to the stream, value by value; \<^verbatim>\<open>ADD_INT32\<close> and \<^verbatim>\<open>ADD_FLOAT\<close> add the 32 bits of their argument.\<close>

abbreviation PI32 :: "int \<Rightarrow> prop_value" where "PI32 v \<equiv> PU32 (word_of_int v)"

definition serialize_base :: "Condition \<Rightarrow> prop_value list" where
  "serialize_base c = [PU8 1, PU32 (cd_type c), PU8 2, PI32 (cd_id c), PU8 3, PI32 (cd_ticks c)]"

definition serialize_attributes :: "ConditionAttributes \<Rightarrow> prop_value list" where
  "serialize_attributes a = concat (map (\<lambda>v. [PU8 22, PI32 v]) (ca_skills a))
     @ concat (map (\<lambda>v. [PU8 26, PI32 v]) (ca_skillsPercent a)) @ concat (map (\<lambda>v. [PU8 23, PI32 v]) (ca_stats a))"

definition serialize_regeneration :: "ConditionRegeneration \<Rightarrow> prop_value list" where
  "serialize_regeneration r = [PU8 4, PU32 (healthTicks r), PU8 5, PU32 (healthGain r), PU8 6, PU32 (manaTicks r),
     PU8 7, PU32 (manaGain r)]"

definition serialize_soul :: "ConditionSoul \<Rightarrow> prop_value list" where
  "serialize_soul r = [PU8 21, PU32 (soulGain r), PU8 20, PU32 (soulTicks r)]"

definition serialize_damage :: "ConditionDamage \<Rightarrow> prop_value list" where
  "serialize_damage d =
     [PU8 8, PU8 (if delayed d then 1 else 0), PU8 25, PI32 (periodDamage d), PU8 9, PU32 (cd_owner d)]
     @ concat (map (\<lambda>i. [PU8 10, PI32 (iv_timeLeft i), PI32 (iv_value i), PI32 (iv_interval i)]) (damageList d))"

definition serialize_speed :: "ConditionSpeed \<Rightarrow> prop_value list" where
  "serialize_speed v = [PU8 11, PI32 (speedDelta v), PU8 12, PU32 (mina v), PU8 13, PU32 (minb v), PU8 14, PU32 (maxa v),
     PU8 15, PU32 (maxb v)]"

definition serialize_outfits :: "Outfit_t list \<Rightarrow> prop_value list" where
  "serialize_outfits outfits = concat (map (\<lambda>out. [PU8 24, PU32 (lookType out), PU32 (lookTypeEx out), PU32 (lookHead out),
     PU32 (lookBody out), PU32 (lookLegs out), PU32 (lookFeet out)]) outfits)"

definition serialize_light :: "ConditionLight \<Rightarrow> prop_value list" where
  "serialize_light l = [PU8 16, PU32 (light_color (lightInfo l)), PU8 17, PU32 (light_level (lightInfo l)),
     PU8 18, PU32 (internalLightTicks l), PU8 19, PU32 (lightChangeInterval l)]"

definition serialize_class :: "ConditionClass \<Rightarrow> prop_value list" where
  "serialize_class cl = (case cl of
     Attributes a \<Rightarrow> serialize_attributes a
   | Regeneration r \<Rightarrow> serialize_regeneration r
   | Soul r \<Rightarrow> serialize_soul r
   | Damage d \<Rightarrow> serialize_damage d
   | Speed v \<Rightarrow> serialize_speed v
   | OutfitC outfits \<Rightarrow> serialize_outfits outfits
   | Light l \<Rightarrow> serialize_light l
   | _ \<Rightarrow> [])"

lemmas serialize_class_defs = serialize_class_def serialize_attributes_def serialize_regeneration_def serialize_soul_def
  serialize_damage_def serialize_speed_def serialize_outfits_def serialize_light_def

definition serialize :: "Condition \<Rightarrow> prop_value list" where
  "serialize c = serialize_base c @ serialize_class (cd_class c)"

definition save_conditions :: "Condition list \<Rightarrow> PropWriteStream option" where
  "save_conditions cs =
     add_props (concat (map (\<lambda>c. if isPersistent c then serialize c @ [PU8 CONDITIONATTR_END] else []) cs)) pw_new"

text \<open>
  Reading one attribute.  The answer says whether the attribute was read, and comes with the condition
  and the stream as they are then; \<^term>\<open>None\<close> is a write outside an array.
\<close>

definition get_into ::
    "(PropStream \<Rightarrow> ('v \<times> PropStream) option) \<Rightarrow> ('v \<Rightarrow> Condition option) \<Rightarrow> Condition \<Rightarrow> PropStream \<Rightarrow>
     (bool \<times> Condition \<times> PropStream) option" where
  "get_into rd upd c s = (case rd s of
     None \<Rightarrow> Some (False, c, s)
   | Some (v, s') \<Rightarrow> map_option (\<lambda>c'. (True, c', s')) (upd v))"

definition unserializeProp_base :: "u8 \<Rightarrow> Condition \<Rightarrow> PropStream \<Rightarrow> (bool \<times> Condition \<times> PropStream) option" where
  "unserializeProp_base attr c s =
     (if attr = CONDITIONATTR_TYPE then get_into GET_UINT32 (\<lambda>v. Some (c\<lparr>cd_type := v\<rparr>)) c s
      else if attr = CONDITIONATTR_ID then get_into GET_INT32 (\<lambda>v. Some (c\<lparr>cd_id := v\<rparr>)) c s
      else if attr = CONDITIONATTR_TICKS then get_into GET_INT32 (\<lambda>v. Some (c\<lparr>cd_ticks := v\<rparr>)) c s
      else Some (attr = CONDITIONATTR_END, c, s))"

definition put_skill :: "ConditionAttributes \<Rightarrow> int \<Rightarrow> ConditionAttributes option" where
  "put_skill a v = (if ca_currentSkill a < length (ca_skills a)
     then Some (a\<lparr>ca_skills := (ca_skills a)[ca_currentSkill a := v], ca_currentSkill := ca_currentSkill a + 1\<rparr>)
     else None)"

definition put_stat :: "ConditionAttributes \<Rightarrow> int \<Rightarrow> ConditionAttributes option" where
  "put_stat a v = (if ca_currentStat a < length (ca_stats a)
     then Some (a\<lparr>ca_stats := (ca_stats a)[ca_currentStat a := v], ca_currentStat := ca_currentStat a + 1\<rparr>)
     else None)"

text \<open>The three numbers of an interval: those before a missing one have been consumed.\<close>

definition get_interval :: "PropStream \<Rightarrow> IntervalInfo option \<times> PropStream" where
  "get_interval s = (case GET_INT32 s of
     None \<Rightarrow> (None, s)
   | Some (t, s) \<Rightarrow> (case GET_INT32 s of
       None \<Rightarrow> (None, s)
     | Some (v, s) \<Rightarrow> (case GET_INT32 s of
         None \<Rightarrow> (None, s)
       | Some (i, s) \<Rightarrow> (Some \<lparr>iv_timeLeft = t, iv_value = v, iv_interval = i\<rparr>, s))))"

definition push_interval :: "int \<Rightarrow> IntervalInfo \<Rightarrow> ConditionDamage \<Rightarrow> Condition \<Rightarrow> Condition" where
  "push_interval now i d c0 =
     (let c = c0\<lparr>cd_class := Damage (d\<lparr>damageList := damageList d @ [i]\<rparr>)\<rparr>
      in if cd_ticks c \<noteq> - 1 then setTicks now (cd_ticks c + iv_interval i) c else c)"

fun get_words :: "nat \<Rightarrow> PropStream \<Rightarrow> u32 list option \<times> PropStream" where
  "get_words 0 s = (Some [], s)"
| "get_words (Suc n) s = (case GET_UINT32 s of
     None \<Rightarrow> (None, s)
   | Some (v, s) \<Rightarrow> (case get_words n s of (None, s) \<Rightarrow> (None, s) | (Some vs, s) \<Rightarrow> (Some (v # vs), s)))"

definition get_outfit :: "PropStream \<Rightarrow> Outfit_t option \<times> PropStream" where
  "get_outfit s = (case get_words 6 s of
     (None, s) \<Rightarrow> (None, s)
   | (Some ws, s) \<Rightarrow> (Some \<lparr>lookType = ws ! 0, lookTypeEx = ws ! 1, lookHead = ws ! 2, lookBody = ws ! 3,
       lookLegs = ws ! 4, lookFeet = ws ! 5\<rparr>, s))"

abbreviation put_class :: "Condition \<Rightarrow> ConditionClass \<Rightarrow> Condition option" where
  "put_class c cl \<equiv> Some (c\<lparr>cd_class := cl\<rparr>)"

definition unserialize_attributes :: "ConditionAttributes \<Rightarrow> u8 \<Rightarrow> Condition \<Rightarrow> PropStream \<Rightarrow> (bool \<times> Condition \<times> PropStream) option" where
  "unserialize_attributes a attr c s =
     (if attr = 22 \<or> attr = 26
      then get_into GET_INT32 (\<lambda>v. Option.bind (put_skill a v) (\<lambda>a. put_class c (Attributes a))) c s
      else if attr = 23 then get_into GET_INT32 (\<lambda>v. Option.bind (put_stat a v) (\<lambda>a. put_class c (Attributes a))) c s
      else unserializeProp_base attr c s)"

definition unserialize_regeneration :: "ConditionRegeneration \<Rightarrow> u8 \<Rightarrow> Condition \<Rightarrow> PropStream \<Rightarrow> (bool \<times> Condition \<times> PropStream) option" where
  "unserialize_regeneration r attr c s =
     (if attr = 4 then get_into GET_UINT32 (\<lambda>v. put_class c (Regeneration (r\<lparr>healthTicks := v\<rparr>))) c s
      else if attr = 5 then get_into GET_UINT32 (\<lambda>v. put_class c (Regeneration (r\<lparr>healthGain := v\<rparr>))) c s
      else if attr = 6 then get_into GET_UINT32 (\<lambda>v. put_class c (Regeneration (r\<lparr>manaTicks := v\<rparr>))) c s
      else if attr = 7 then get_into GET_UINT32 (\<lambda>v. put_class c (Regeneration (r\<lparr>manaGain := v\<rparr>))) c s
      else unserializeProp_base attr c s)"

definition unserialize_soul :: "ConditionSoul \<Rightarrow> u8 \<Rightarrow> Condition \<Rightarrow> PropStream \<Rightarrow> (bool \<times> Condition \<times> PropStream) option" where
  "unserialize_soul r attr c s =
     (if attr = 21 then get_into GET_UINT32 (\<lambda>v. put_class c (Soul (r\<lparr>soulGain := v\<rparr>))) c s
      else if attr = 20 then get_into GET_UINT32 (\<lambda>v. put_class c (Soul (r\<lparr>soulTicks := v\<rparr>))) c s
      else unserializeProp_base attr c s)"

definition unserialize_damage :: "int \<Rightarrow> ConditionDamage \<Rightarrow> u8 \<Rightarrow> Condition \<Rightarrow> PropStream \<Rightarrow> (bool \<times> Condition \<times> PropStream) option" where
  "unserialize_damage now d attr c s =
     (if attr = 8 then get_into GET_UINT8 (\<lambda>v. put_class c (Damage (d\<lparr>delayed := (v \<noteq> 0)\<rparr>))) c s
      else if attr = 25 then get_into GET_INT32 (\<lambda>v. put_class c (Damage (d\<lparr>periodDamage := v\<rparr>))) c s
      else if attr = 9 then get_into GET_UINT32 (\<lambda>v. put_class c (Damage (d\<lparr>cd_owner := v\<rparr>))) c s
      else if attr = 10
      then (case get_interval s of
          (None, s) \<Rightarrow> Some (False, c, s)
        | (Some i, s) \<Rightarrow> Some (True, push_interval now i d c, s))
      else unserializeProp_base attr c s)"

definition unserialize_speed :: "ConditionSpeed \<Rightarrow> u8 \<Rightarrow> Condition \<Rightarrow> PropStream \<Rightarrow> (bool \<times> Condition \<times> PropStream) option" where
  "unserialize_speed v attr c s =
     (if attr = 11 then get_into GET_INT32 (\<lambda>x. put_class c (Speed (v\<lparr>speedDelta := x\<rparr>))) c s
      else if attr = 12 then get_into GET_UINT32 (\<lambda>x. put_class c (Speed (v\<lparr>mina := x\<rparr>))) c s
      else if attr = 13 then get_into GET_UINT32 (\<lambda>x. put_class c (Speed (v\<lparr>minb := x\<rparr>))) c s
      else if attr = 14 then get_into GET_UINT32 (\<lambda>x. put_class c (Speed (v\<lparr>maxa := x\<rparr>))) c s
      else if attr = 15 then get_into GET_UINT32 (\<lambda>x. put_class c (Speed (v\<lparr>maxb := x\<rparr>))) c s
      else unserializeProp_base attr c s)"

definition unserialize_outfits :: "Outfit_t list \<Rightarrow> u8 \<Rightarrow> Condition \<Rightarrow> PropStream \<Rightarrow> (bool \<times> Condition \<times> PropStream) option" where
  "unserialize_outfits outfits attr c s =
     (if attr = 24
      then (case get_outfit s of
          (None, s) \<Rightarrow> Some (False, c, s)
        | (Some out, s) \<Rightarrow> Some (True, c\<lparr>cd_class := OutfitC (outfits @ [out])\<rparr>, s))
      else unserializeProp_base attr c s)"

definition unserialize_light :: "ConditionLight \<Rightarrow> u8 \<Rightarrow> Condition \<Rightarrow> PropStream \<Rightarrow> (bool \<times> Condition \<times> PropStream) option" where
  "unserialize_light l attr c s =
     (if attr = 16
      then get_into GET_UINT32 (\<lambda>v. put_class c (Light (l\<lparr>lightInfo := (lightInfo l)\<lparr>light_color := v\<rparr>\<rparr>))) c s
      else if attr = 17
      then get_into GET_UINT32 (\<lambda>v. put_class c (Light (l\<lparr>lightInfo := (lightInfo l)\<lparr>light_level := v\<rparr>\<rparr>))) c s
      else if attr = 18 then get_into GET_UINT32 (\<lambda>v. put_class c (Light (l\<lparr>internalLightTicks := v\<rparr>))) c s
      else if attr = 19 then get_into GET_UINT32 (\<lambda>v. put_class c (Light (l\<lparr>lightChangeInterval := v\<rparr>))) c s
      else unserializeProp_base attr c s)"

definition unserializeProp :: "int \<Rightarrow> u8 \<Rightarrow> Condition \<Rightarrow> PropStream \<Rightarrow> (bool \<times> Condition \<times> PropStream) option" where
  "unserializeProp now attr c s = (case cd_class c of
     Attributes a \<Rightarrow> unserialize_attributes a attr c s
   | Regeneration r \<Rightarrow> unserialize_regeneration r attr c s
   | Soul r \<Rightarrow> unserialize_soul r attr c s
   | Damage d \<Rightarrow> unserialize_damage now d attr c s
   | Speed v \<Rightarrow> unserialize_speed v attr c s
   | OutfitC outfits \<Rightarrow> unserialize_outfits outfits attr c s
   | Light l \<Rightarrow> unserialize_light l attr c s
   | _ \<Rightarrow> unserializeProp_base attr c s)"

lemmas reads = unserializeProp_def unserialize_attributes_def unserialize_regeneration_def unserialize_soul_def
  unserialize_damage_def unserialize_speed_def unserialize_outfits_def unserialize_light_def

text \<open>Reading never moves the stream back.\<close>

lemma get_size_le:
  "GET_UINT32 s = Some (u, s') \<Longrightarrow> ps_size s' \<le> ps_size s"
  "GET_INT32 s = Some (v, s') \<Longrightarrow> ps_size s' \<le> ps_size s"
  "GET_UINT8 s = Some (b, s') \<Longrightarrow> ps_size s' \<le> ps_size s"
  by (auto simp: GET_UINT32_def GET_INT32_def GET_UINT8_def GET_VALUE_def ps_size_def split: if_splits)

lemma get_into_size:
  assumes "get_into rd upd c s = Some (ok, c', s')" "\<And>v s'. rd s = Some (v, s') \<Longrightarrow> ps_size s' \<le> ps_size s"
  shows "ps_size s' \<le> ps_size s"
  using assms by (auto simp: get_into_def split: option.splits)

lemma get_interval_size: "get_interval s = (r, s') \<Longrightarrow> ps_size s' \<le> ps_size s"
  by (auto simp: get_interval_def split: option.splits prod.splits dest!: get_size_le(2))

lemma get_words_size: "get_words n s = (r, s') \<Longrightarrow> ps_size s' \<le> ps_size s"
proof (induction n arbitrary: r s s')
  case (Suc n)
  then show ?case
    by (auto split: option.splits prod.splits dest!: get_size_le(1)) (meson order_trans)+
qed simp

lemma get_outfit_size: "get_outfit s = (r, s') \<Longrightarrow> ps_size s' \<le> ps_size s"
  by (auto simp: get_outfit_def split: option.splits prod.splits dest!: get_words_size)

lemma unserializeProp_base_size:
  "unserializeProp_base attr c s = Some (ok, c', s') \<Longrightarrow> ps_size s' \<le> ps_size s"
  by (auto simp: unserializeProp_base_def split: if_splits elim!: get_into_size intro: get_size_le)

lemma unserializeProp_size:
  assumes "unserializeProp now attr c s = Some (ok, c', s')"
  shows "ps_size s' \<le> ps_size s"
  using assms unserializeProp_base_size [of attr c s ok c' s'] get_interval_size [of s] get_outfit_size [of s]
  unfolding reads
  by (auto split: ConditionClass.splits if_splits option.splits prod.splits elim!: get_into_size intro: get_size_le)

text \<open>Reading the attributes of one condition, to the end mark or the end of the stream.\<close>

function unserialize :: "int \<Rightarrow> Condition \<Rightarrow> PropStream \<Rightarrow> (bool \<times> Condition \<times> PropStream) option" where
  "unserialize now c s = (case GET_UINT8 s of
     None \<Rightarrow> Some (True, c, s)
   | Some (attr_type, s1) \<Rightarrow>
       if attr_type = CONDITIONATTR_END then Some (True, c, s1)
       else (case unserializeProp now attr_type c s1 of
           None \<Rightarrow> None
         | Some (ok, c', s2) \<Rightarrow> if ok then unserialize now c' s2 else Some (False, c', s2)))"
  by pat_completeness auto

termination
proof (relation "measure (\<lambda>(now, c, s). nat (ps_size s))", goal_cases)
  case (2 now c s x attr s1 y ok z c' s2)
  then have "ps_size s1 < ps_size s \<and> 0 \<le> ps_size s1" using GET_UINT8_size by auto
  moreover from 2 have "ps_size s2 \<le> ps_size s1" using unserializeProp_size by auto
  ultimately show ?case by auto
qed simp

declare unserialize.simps [simp del]

lemma unserialize_size: "unserialize now c s = Some (ok, c', s') \<Longrightarrow> ps_size s' \<le> ps_size s"
proof (induction now c s arbitrary: ok c' s' rule: unserialize.induct)
  case (1 now c s)
  show ?case
  proof (cases "GET_UINT8 s")
    case None
    then show ?thesis using "1.prems" by (simp add: unserialize.simps [of now c s])
  next
    case (Some p)
    obtain attr s1 where p: "p = (attr, s1)" by force
    with Some have s1: "ps_size s1 \<le> ps_size s" using get_size_le(3) by blast
    show ?thesis
    proof (cases "attr = CONDITIONATTR_END")
      case True
      with Some p s1 show ?thesis using "1.prems" by (simp add: unserialize.simps [of now c s])
    next
      case False
      then obtain ok1 c1 s2 where u: "unserializeProp now attr c s1 = Some (ok1, c1, s2)"
        using "1.prems" Some p by (auto simp: unserialize.simps [of now c s] split: option.splits)
      then have "ps_size s2 \<le> ps_size s1" by (rule unserializeProp_size)
      then show ?thesis
        using "1.prems" Some p False u s1 "1.IH" [OF Some p [symmetric] False u]
        by (cases ok1) (fastforce simp: unserialize.simps [of now c s])+
    qed
  qed
qed

text \<open>A condition starts with its type, its id and its ticks.\<close>

definition createCondition_from :: "PropStream \<Rightarrow> (Condition \<times> PropStream) option" where
  "createCondition_from s = do {
     (attr, s) \<leftarrow> GET_UINT8 s;
     (ty, s) \<leftarrow> (if attr = CONDITIONATTR_TYPE then GET_UINT32 s else None);
     (attr, s) \<leftarrow> GET_UINT8 s;
     (cid, s) \<leftarrow> (if attr = CONDITIONATTR_ID then GET_INT32 s else None);
     (attr, s) \<leftarrow> GET_UINT8 s;
     (ticks, s) \<leftarrow> (if attr = CONDITIONATTR_TICKS then GET_INT32 s else None);
     c \<leftarrow> createCondition cid ty ticks 0;
     Some (c, s) }"

lemma createCondition_from_size:
  assumes "createCondition_from s = Some (c, s')"
  shows "ps_size s' < ps_size s \<and> 0 \<le> ps_size s'"
  using assms
  by (auto simp: createCondition_from_def bind_eq_Some_conv GET_UINT8_def GET_UINT32_def GET_INT32_def GET_VALUE_def
      ps_size_def split: if_splits)

text \<open>Loading the conditions of a player.\<close>

function load_conditions :: "int \<Rightarrow> PropStream \<Rightarrow> Condition list option" where
  "load_conditions now s = (case createCondition_from s of
     None \<Rightarrow> Some []
   | Some (c, s1) \<Rightarrow> (case unserialize now c s1 of
       None \<Rightarrow> None
     | Some (ok, c', s2) \<Rightarrow> map_option (\<lambda>cs. if ok then c' # cs else cs) (load_conditions now s2)))"
  by pat_completeness auto

termination
proof (relation "measure (\<lambda>(now, s). nat (ps_size s))", goal_cases)
  case (2 now s x c s1 y ok z c' s2)
  then have "ps_size s1 < ps_size s \<and> 0 \<le> ps_size s1" using createCondition_from_size by auto
  moreover from 2 have "ps_size s2 \<le> ps_size s1" using unserialize_size by auto
  ultimately show ?case by auto
qed simp

declare load_conditions.simps [simp del]

section \<open>Saving and loading\<close>

text \<open>A stream that is about to deliver given values.\<close>

definition prop_bytes :: "prop_value list \<Rightarrow> u8 list" where
  "prop_bytes vs = concat (concat (map prop_chunks vs))"

definition delivers :: "PropStream \<Rightarrow> prop_value list \<Rightarrow> bool" where
  "delivers s vs \<longleftrightarrow> ps_wf s \<and> ps_rest s = prop_bytes vs"

lemma delivers_u8: "delivers s (PU8 x # vs) \<Longrightarrow> \<exists>s'. GET_UINT8 s = Some (x, s') \<and> delivers s' vs"
  using GET_UINT8_Cons [of s x "prop_bytes vs"] by (auto simp: delivers_def prop_bytes_def)

lemma delivers_u32: "delivers s (PU32 x # vs) \<Longrightarrow> \<exists>s'. GET_UINT32 s = Some (x, s') \<and> delivers s' vs"
  using GET_UINT32_append [of s x "prop_bytes vs"] by (auto simp: delivers_def prop_bytes_def)

definition int32_ok :: "int \<Rightarrow> bool" where
  "int32_ok x \<longleftrightarrow> - (2 ^ 31) \<le> x \<and> x < 2 ^ 31"

lemma sint_int32: "int32_ok x \<Longrightarrow> sint (word_of_int x :: u32) = x"
  by (simp add: int32_ok_def sint_sbintrunc' signed_take_bit_int_eq_self)

lemma delivers_i32:
  assumes "delivers s (PI32 x # vs)" "int32_ok x"
  shows "\<exists>s'. GET_INT32 s = Some (x, s') \<and> delivers s' vs"
proof -
  from GET_VALUE_append [of s "le_bytes 4 (word_of_int x :: u32)" "prop_bytes vs" 4 "\<lambda>bs. sint (le_value bs :: u32)"] assms
  show ?thesis by (auto simp: delivers_def prop_bytes_def GET_INT32_def le_value_le_bytes sint_int32)
qed

text \<open>Reading takes a list of values in: it goes on with another condition behind them.\<close>

definition absorbs :: "int \<Rightarrow> prop_value list \<Rightarrow> Condition \<Rightarrow> Condition \<Rightarrow> bool" where
  "absorbs now vs c c' \<longleftrightarrow> (\<forall>s tail. delivers s (vs @ tail) \<longrightarrow>
     (\<exists>s'. delivers s' tail \<and> unserialize now c s = unserialize now c' s'))"

lemma absorbs_nil [intro]: "absorbs now [] c c"
  by (auto simp: absorbs_def)

lemma absorbs_append:
  assumes "absorbs now vs c c1" "absorbs now ws c1 c2"
  shows "absorbs now (vs @ ws) c c2"
proof -
  have "\<exists>s'. delivers s' tail \<and> unserialize now c s = unserialize now c2 s'"
    if s: "delivers s ((vs @ ws) @ tail)" for s tail
  proof -
    from assms(1) s obtain s1 where s1: "delivers s1 (ws @ tail)" "unserialize now c s = unserialize now c1 s1"
      unfolding absorbs_def by (metis append_assoc)
    with assms(2) show ?thesis unfolding absorbs_def by metis
  qed
  then show ?thesis by (simp add: absorbs_def)
qed

lemma absorbs_step:
  assumes "t \<noteq> CONDITIONATTR_END"
    and "\<And>s tail. delivers s (vs @ tail) \<Longrightarrow> \<exists>s'. unserializeProp now t c s = Some (True, c', s') \<and> delivers s' tail"
  shows "absorbs now (PU8 t # vs) c c'"
  unfolding absorbs_def
proof (intro allI impI)
  fix s tail
  assume "delivers s ((PU8 t # vs) @ tail)"
  then obtain s1 where s1: "GET_UINT8 s = Some (t, s1)" "delivers s1 (vs @ tail)"
    using delivers_u8 by fastforce
  from assms(2) [OF s1(2)] obtain s2 where "unserializeProp now t c s1 = Some (True, c', s2)" "delivers s2 tail" by blast
  with s1(1) assms(1) show "\<exists>s'. delivers s' tail \<and> unserialize now c s = unserialize now c' s'"
    by (intro exI [of _ s2]) (simp add: unserialize.simps [of now c s])
qed

lemma absorbs_u8:
  assumes "t \<noteq> CONDITIONATTR_END" "\<And>s. unserializeProp now t c s = get_into GET_UINT8 upd c s" "upd x = Some c'"
  shows "absorbs now [PU8 t, PU8 x] c c'"
  by (rule absorbs_step [OF assms(1)]) (use delivers_u8 assms(2,3) in \<open>fastforce simp: get_into_def\<close>)

lemma absorbs_u32:
  assumes "t \<noteq> CONDITIONATTR_END" "\<And>s. unserializeProp now t c s = get_into GET_UINT32 upd c s" "upd x = Some c'"
  shows "absorbs now [PU8 t, PU32 x] c c'"
  by (rule absorbs_step [OF assms(1)]) (use delivers_u32 assms(2,3) in \<open>fastforce simp: get_into_def\<close>)

lemma absorbs_i32:
  assumes "t \<noteq> CONDITIONATTR_END" "\<And>s. unserializeProp now t c s = get_into GET_INT32 upd c s" "upd x = Some c'" "int32_ok x"
  shows "absorbs now [PU8 t, PI32 x] c c'"
  by (rule absorbs_step [OF assms(1)]) (use delivers_i32 [OF _ assms(4)] assms(2,3) in \<open>fastforce simp: get_into_def\<close>)

lemma get_words_delivers:
  "delivers s (map PU32 ws @ tail) \<Longrightarrow> \<exists>s'. get_words (length ws) s = (Some ws, s') \<and> delivers s' tail"
proof (induction ws arbitrary: s)
  case (Cons x ws)
  from Cons.prems delivers_u32 [of s x "map PU32 ws @ tail"] obtain s1 where
    s1: "GET_UINT32 s = Some (x, s1)" "delivers s1 (map PU32 ws @ tail)" by auto
  from Cons.IH [OF s1(2)] s1(1) show ?case by auto
qed auto

lemma get_outfit_delivers:
  assumes "delivers s ([PU32 (lookType out), PU32 (lookTypeEx out), PU32 (lookHead out), PU32 (lookBody out),
    PU32 (lookLegs out), PU32 (lookFeet out)] @ tail)"
  shows "\<exists>s'. get_outfit s = (Some out, s') \<and> delivers s' tail"
proof -
  let ?ws = "[lookType out, lookTypeEx out, lookHead out, lookBody out, lookLegs out, lookFeet out]"
  from get_words_delivers [of s ?ws tail] assms obtain s' where
    "get_words 6 s = (Some ?ws, s')" "delivers s' tail" by (auto simp: numeral_eq_Suc)
  then show ?thesis by (simp add: get_outfit_def)
qed

lemma get_interval_delivers:
  assumes "delivers s ([PI32 (iv_timeLeft i), PI32 (iv_value i), PI32 (iv_interval i)] @ tail)"
    and "int32_ok (iv_timeLeft i)" "int32_ok (iv_value i)" "int32_ok (iv_interval i)"
  shows "\<exists>s'. get_interval s = (Some i, s') \<and> delivers s' tail"
proof -
  from assms delivers_i32 [of s "iv_timeLeft i"] obtain s1 where
    s1: "GET_INT32 s = Some (iv_timeLeft i, s1)" "delivers s1 (PI32 (iv_value i) # PI32 (iv_interval i) # tail)" by auto
  from delivers_i32 [OF s1(2) assms(3)] obtain s2 where
    s2: "GET_INT32 s1 = Some (iv_value i, s2)" "delivers s2 (PI32 (iv_interval i) # tail)" by auto
  from delivers_i32 [OF s2(2) assms(4)] s1 s2 show ?thesis by (auto simp: get_interval_def)
qed

text \<open>What loading makes of a saved condition: the counters within a period start anew, and the ticks of a
  damage condition are the sum of its intervals.\<close>

fun restored_class :: "ConditionClass \<Rightarrow> ConditionClass" where
  "restored_class (Regeneration r) = Regeneration (r\<lparr>internalHealthTicks := 0, internalManaTicks := 0\<rparr>)"
| "restored_class (Soul r) = Soul (r\<lparr>internalSoulTicks := 0\<rparr>)"
| "restored_class (Damage d) = Damage (new_ConditionDamage\<lparr>delayed := delayed d, periodDamage := periodDamage d,
     cd_owner := cd_owner d, damageList := damageList d\<rparr>)"
| "restored_class cl = cl"

fun restored_ticks :: "ConditionClass \<Rightarrow> int \<Rightarrow> int" where
  "restored_ticks (Damage d) t = (\<Sum>i\<leftarrow>damageList d. iv_interval i)"
| "restored_ticks cl t = t"

fun restored_end :: "int \<Rightarrow> ConditionClass \<Rightarrow> int" where
  "restored_end now (Damage d) = (if damageList d = [] then 0 else (\<Sum>i\<leftarrow>damageList d. iv_interval i) + now)"
| "restored_end now cl = 0"

definition restored :: "int \<Rightarrow> Condition \<Rightarrow> Condition" where
  "restored now c = c\<lparr>cd_class := restored_class (cd_class c), cd_ticks := restored_ticks (cd_class c) (cd_ticks c),
     cd_endTime := restored_end now (cd_class c)\<rparr>"

fun class_storable :: "ConditionClass \<Rightarrow> bool" where
  "class_storable (Attributes a) = False"
| "class_storable (Damage d) = (int32_ok (periodDamage d) \<and> list_all (\<lambda>i. int32_ok (iv_timeLeft i) \<and> int32_ok (iv_value i)
     \<and> int32_ok (iv_interval i) \<and> 0 \<le> iv_interval i) (damageList d))"
| "class_storable (Speed v) = int32_ok (speedDelta v)"
| "class_storable _ = True"

definition storable :: "Condition \<Rightarrow> bool" where
  "storable c \<longleftrightarrow> well_typed c \<and> int32_ok (cd_id c) \<and> int32_ok (cd_ticks c) \<and> class_storable (cd_class c)"

lemma absorbs_intervals:
  assumes "list_all (\<lambda>i. int32_ok (iv_timeLeft i) \<and> int32_ok (iv_value i) \<and> int32_ok (iv_interval i) \<and> 0 \<le> iv_interval i) is"
    and "cd_class c = Damage d" "0 \<le> cd_ticks c"
  shows "absorbs now (concat (map (\<lambda>i. [PU8 10, PI32 (iv_timeLeft i), PI32 (iv_value i), PI32 (iv_interval i)]) is)) c
    (if is = [] then c else c\<lparr>cd_class := Damage (d\<lparr>damageList := damageList d @ is\<rparr>),
       cd_ticks := cd_ticks c + (\<Sum>i\<leftarrow>is. iv_interval i),
       cd_endTime := cd_ticks c + (\<Sum>i\<leftarrow>is. iv_interval i) + now\<rparr>)"
  using assms
proof (induction "is" arbitrary: c d)
  case (Cons i "is")
  define c1 where "c1 = push_interval now i d c"
  have c1: "cd_class c1 = Damage (d\<lparr>damageList := damageList d @ [i]\<rparr>)" "cd_ticks c1 = cd_ticks c + iv_interval i"
    "cd_endTime c1 = cd_ticks c + iv_interval i + now"
    using Cons.prems(3) by (simp_all add: c1_def push_interval_def setTicks_def Let_def)
  have head: "absorbs now (PU8 10 # [PI32 (iv_timeLeft i), PI32 (iv_value i), PI32 (iv_interval i)]) c c1"
  proof (rule absorbs_step)
    fix s tail
    assume "delivers s ([PI32 (iv_timeLeft i), PI32 (iv_value i), PI32 (iv_interval i)] @ tail)"
    with get_interval_delivers [of s i tail] Cons.prems(1)
    obtain s' where "get_interval s = (Some i, s')" "delivers s' tail" by auto
    then show "\<exists>s'. unserializeProp now 10 c s = Some (True, c1, s') \<and> delivers s' tail"
      by (simp add: reads Cons.prems(2) Let_def c1_def)
  qed simp
  have rest: "absorbs now (concat (map (\<lambda>i. [PU8 10, PI32 (iv_timeLeft i), PI32 (iv_value i), PI32 (iv_interval i)]) is)) c1
    (if is = [] then c1 else c1\<lparr>cd_class := Damage (d\<lparr>damageList := damageList d @ [i]\<rparr>\<lparr>damageList := damageList (d\<lparr>damageList := damageList d @ [i]\<rparr>) @ is\<rparr>),
       cd_ticks := cd_ticks c1 + (\<Sum>i\<leftarrow>is. iv_interval i),
       cd_endTime := cd_ticks c1 + (\<Sum>i\<leftarrow>is. iv_interval i) + now\<rparr>)"
    by (rule Cons.IH [OF _ c1(1)]) (use Cons.prems(1,3) c1(2) in auto)
  have "c1 = c\<lparr>cd_class := cd_class c1, cd_ticks := cd_ticks c1, cd_endTime := cd_endTime c1\<rparr>"
    using Cons.prems(3) by (simp add: c1_def push_interval_def setTicks_def Let_def)
  then have eq: "(if is = [] then c1 else c1\<lparr>cd_class := Damage (d\<lparr>damageList := damageList d @ [i]\<rparr>\<lparr>damageList := damageList (d\<lparr>damageList := damageList d @ [i]\<rparr>) @ is\<rparr>),
       cd_ticks := cd_ticks c1 + (\<Sum>i\<leftarrow>is. iv_interval i),
       cd_endTime := cd_ticks c1 + (\<Sum>i\<leftarrow>is. iv_interval i) + now\<rparr>) =
     c\<lparr>cd_class := Damage (d\<lparr>damageList := damageList d @ i # is\<rparr>),
       cd_ticks := cd_ticks c + (\<Sum>i\<leftarrow>i # is. iv_interval i),
       cd_endTime := cd_ticks c + (\<Sum>i\<leftarrow>i # is. iv_interval i) + now\<rparr>"
    unfolding c1 by (cases "is") (simp_all add: algebra_simps)
  show ?case using absorbs_append [OF head rest [unfolded eq]] by simp
qed auto

text \<open>One value after the other, for a condition given by its class.\<close>

lemma absorbs_class:
  assumes "t \<noteq> CONDITIONATTR_END"
  shows
    "(\<And>s. unserializeProp now t (c\<lparr>cd_class := cl\<rparr>) s = get_into GET_UINT32 (\<lambda>v. Some (c\<lparr>cd_class := f v\<rparr>)) (c\<lparr>cd_class := cl\<rparr>) s) \<Longrightarrow>
     absorbs now vs (c\<lparr>cd_class := f x\<rparr>) c2 \<Longrightarrow> absorbs now (PU8 t # PU32 x # vs) (c\<lparr>cd_class := cl\<rparr>) c2"
    "(\<And>s. unserializeProp now t (c\<lparr>cd_class := cl\<rparr>) s = get_into GET_UINT8 (\<lambda>v. Some (c\<lparr>cd_class := g v\<rparr>)) (c\<lparr>cd_class := cl\<rparr>) s) \<Longrightarrow>
     absorbs now vs (c\<lparr>cd_class := g b\<rparr>) c2 \<Longrightarrow> absorbs now (PU8 t # PU8 b # vs) (c\<lparr>cd_class := cl\<rparr>) c2"
    "(\<And>s. unserializeProp now t (c\<lparr>cd_class := cl\<rparr>) s = get_into GET_INT32 (\<lambda>v. Some (c\<lparr>cd_class := h v\<rparr>)) (c\<lparr>cd_class := cl\<rparr>) s) \<Longrightarrow>
     int32_ok n \<Longrightarrow> absorbs now vs (c\<lparr>cd_class := h n\<rparr>) c2 \<Longrightarrow> absorbs now (PU8 t # PI32 n # vs) (c\<lparr>cd_class := cl\<rparr>) c2"
proof -
  show "(\<And>s. unserializeProp now t (c\<lparr>cd_class := cl\<rparr>) s = get_into GET_UINT32 (\<lambda>v. Some (c\<lparr>cd_class := f v\<rparr>)) (c\<lparr>cd_class := cl\<rparr>) s) \<Longrightarrow>
     absorbs now vs (c\<lparr>cd_class := f x\<rparr>) c2 \<Longrightarrow> absorbs now (PU8 t # PU32 x # vs) (c\<lparr>cd_class := cl\<rparr>) c2"
    by (rule absorbs_append [OF absorbs_u32 [OF assms], simplified]) auto
  show "(\<And>s. unserializeProp now t (c\<lparr>cd_class := cl\<rparr>) s = get_into GET_UINT8 (\<lambda>v. Some (c\<lparr>cd_class := g v\<rparr>)) (c\<lparr>cd_class := cl\<rparr>) s) \<Longrightarrow>
     absorbs now vs (c\<lparr>cd_class := g b\<rparr>) c2 \<Longrightarrow> absorbs now (PU8 t # PU8 b # vs) (c\<lparr>cd_class := cl\<rparr>) c2"
    by (rule absorbs_append [OF absorbs_u8 [OF assms], simplified]) auto
  show "(\<And>s. unserializeProp now t (c\<lparr>cd_class := cl\<rparr>) s = get_into GET_INT32 (\<lambda>v. Some (c\<lparr>cd_class := h v\<rparr>)) (c\<lparr>cd_class := cl\<rparr>) s) \<Longrightarrow>
     int32_ok n \<Longrightarrow> absorbs now vs (c\<lparr>cd_class := h n\<rparr>) c2 \<Longrightarrow> absorbs now (PU8 t # PI32 n # vs) (c\<lparr>cd_class := cl\<rparr>) c2"
    by (rule absorbs_append [OF absorbs_i32 [OF assms], simplified]) auto
qed


lemma absorbs_regeneration:
  "absorbs now (serialize_class (Regeneration r)) (c\<lparr>cd_class := Regeneration new_ConditionRegeneration\<rparr>)
     (c\<lparr>cd_class := restored_class (Regeneration r)\<rparr>)"
proof -
  have *: "restored_class (Regeneration r) = Regeneration (new_ConditionRegeneration\<lparr>healthTicks := healthTicks r,
      healthGain := healthGain r, manaTicks := manaTicks r, manaGain := manaGain r\<rparr>)"
    by (cases r) (simp add: new_ConditionRegeneration_def)
  show ?thesis
    unfolding serialize_class_defs ConditionClass.case *
    by (rule absorbs_class(1) [where f = "\<lambda>v. Regeneration (new_ConditionRegeneration\<lparr>healthTicks := v\<rparr>)"], simp, simp add: reads,
        rule absorbs_class(1) [where f = "\<lambda>v. Regeneration (new_ConditionRegeneration\<lparr>healthTicks := healthTicks r, healthGain := v\<rparr>)"],
        simp, simp add: reads,
        rule absorbs_class(1) [where f = "\<lambda>v. Regeneration (new_ConditionRegeneration\<lparr>healthTicks := healthTicks r,
          healthGain := healthGain r, manaTicks := v\<rparr>)"], simp, simp add: reads,
        rule absorbs_class(1) [where f = "\<lambda>v. Regeneration (new_ConditionRegeneration\<lparr>healthTicks := healthTicks r,
          healthGain := healthGain r, manaTicks := manaTicks r, manaGain := v\<rparr>)"], simp, simp add: reads, rule absorbs_nil)
qed

lemma absorbs_soul:
  "absorbs now (serialize_class (Soul r)) (c\<lparr>cd_class := Soul new_ConditionSoul\<rparr>) (c\<lparr>cd_class := restored_class (Soul r)\<rparr>)"
proof -
  have *: "restored_class (Soul r) = Soul (new_ConditionSoul\<lparr>soulGain := soulGain r, soulTicks := soulTicks r\<rparr>)"
    by (cases r) (simp add: new_ConditionSoul_def)
  show ?thesis
    unfolding serialize_class_defs ConditionClass.case *
    by (rule absorbs_class(1) [where f = "\<lambda>v. Soul (new_ConditionSoul\<lparr>soulGain := v\<rparr>)"], simp, simp add: reads,
        rule absorbs_class(1) [where f = "\<lambda>v. Soul (new_ConditionSoul\<lparr>soulGain := soulGain r, soulTicks := v\<rparr>)"],
        simp, simp add: reads, rule absorbs_nil)
qed

lemma absorbs_speed:
  assumes "int32_ok (speedDelta v)"
  shows "absorbs now (serialize_class (Speed v)) (c\<lparr>cd_class := Speed (new_ConditionSpeed 0)\<rparr>) (c\<lparr>cd_class := Speed v\<rparr>)"
proof -
  let ?n = "new_ConditionSpeed 0"
  have *: "Speed v = Speed (?n\<lparr>speedDelta := speedDelta v, mina := mina v, minb := minb v, maxa := maxa v, maxb := maxb v\<rparr>)"
    by (cases v) (simp add: new_ConditionSpeed_def)
  show ?thesis
    unfolding serialize_class_defs ConditionClass.case
    by (rule absorbs_class(3) [where h = "\<lambda>x. Speed (?n\<lparr>speedDelta := x\<rparr>)"], simp, simp add: reads, rule assms,
        rule absorbs_class(1) [where f = "\<lambda>x. Speed (?n\<lparr>speedDelta := speedDelta v, mina := x\<rparr>)"], simp, simp add: reads,
        rule absorbs_class(1) [where f = "\<lambda>x. Speed (?n\<lparr>speedDelta := speedDelta v, mina := mina v, minb := x\<rparr>)"],
        simp, simp add: reads,
        rule absorbs_class(1) [where f = "\<lambda>x. Speed (?n\<lparr>speedDelta := speedDelta v, mina := mina v, minb := minb v,
          maxa := x\<rparr>)"], simp, simp add: reads,
        rule absorbs_class(1) [where f = "\<lambda>x. Speed (?n\<lparr>speedDelta := speedDelta v, mina := mina v, minb := minb v,
          maxa := maxa v, maxb := x\<rparr>)"], simp, simp add: reads, subst *, rule absorbs_nil)
qed

lemma absorbs_light:
  "absorbs now (serialize_class (Light l)) (c\<lparr>cd_class := Light (new_ConditionLight 0 0)\<rparr>) (c\<lparr>cd_class := Light l\<rparr>)"
proof -
  let ?n = "new_ConditionLight 0 0"
  let ?color = "(lightInfo ?n)\<lparr>light_color := light_color (lightInfo l)\<rparr>"
  let ?info = "?color\<lparr>light_level := light_level (lightInfo l)\<rparr>"
  have *: "Light l = Light (?n\<lparr>lightInfo := ?info, internalLightTicks := internalLightTicks l,
      lightChangeInterval := lightChangeInterval l\<rparr>)"
    by (cases l, cases "lightInfo l") (simp add: new_ConditionLight_def)
  show ?thesis
    unfolding serialize_class_defs ConditionClass.case
    by (rule absorbs_class(1) [where f = "\<lambda>v. Light (?n\<lparr>lightInfo := (lightInfo ?n)\<lparr>light_color := v\<rparr>\<rparr>)"], simp, simp add: reads,
        rule absorbs_class(1) [where f = "\<lambda>v. Light (?n\<lparr>lightInfo := ?color\<lparr>light_level := v\<rparr>\<rparr>)"], simp, simp add: reads,
        rule absorbs_class(1) [where f = "\<lambda>v. Light (?n\<lparr>lightInfo := ?info, internalLightTicks := v\<rparr>)"], simp, simp add: reads,
        rule absorbs_class(1) [where f = "\<lambda>v. Light (?n\<lparr>lightInfo := ?info, internalLightTicks := internalLightTicks l,
          lightChangeInterval := v\<rparr>)"], simp, simp add: reads, subst *, rule absorbs_nil)
qed

lemma absorbs_outfits:
  "absorbs now (concat (map (\<lambda>out. [PU8 24, PU32 (lookType out), PU32 (lookTypeEx out), PU32 (lookHead out),
       PU32 (lookBody out), PU32 (lookLegs out), PU32 (lookFeet out)]) outs))
     (c\<lparr>cd_class := OutfitC fs\<rparr>) (c\<lparr>cd_class := OutfitC (fs @ outs)\<rparr>)"
proof (induction outs arbitrary: fs)
  case (Cons out outs)
  have "absorbs now (PU8 24 # [PU32 (lookType out), PU32 (lookTypeEx out), PU32 (lookHead out), PU32 (lookBody out),
      PU32 (lookLegs out), PU32 (lookFeet out)]) (c\<lparr>cd_class := OutfitC fs\<rparr>) (c\<lparr>cd_class := OutfitC (fs @ [out])\<rparr>)"
    by (rule absorbs_step) (use get_outfit_delivers in \<open>fastforce simp: reads\<close>)+
  from absorbs_append [OF this Cons.IH [of "fs @ [out]"]] show ?case by simp
qed auto

lemma absorbs_damage:
  assumes "class_storable (Damage d)" "cd_ticks c = 0" "cd_endTime c = 0"
  shows "absorbs now (serialize_class (Damage d)) (c\<lparr>cd_class := Damage new_ConditionDamage\<rparr>)
     (c\<lparr>cd_class := restored_class (Damage d), cd_ticks := restored_ticks (Damage d) 0, cd_endTime := restored_end now (Damage d)\<rparr>)"
proof -
  let ?n = new_ConditionDamage
  let ?b = "if delayed d then 1 else (0 :: u8)"
  let ?d1 = "?n\<lparr>delayed := delayed d, periodDamage := periodDamage d, cd_owner := cd_owner d\<rparr>"
  let ?ivs = "concat (map (\<lambda>i. [PU8 10, PI32 (iv_timeLeft i), PI32 (iv_value i), PI32 (iv_interval i)]) (damageList d))"
  let ?c2 = "c\<lparr>cd_class := restored_class (Damage d), cd_ticks := restored_ticks (Damage d) 0,
      cd_endTime := restored_end now (Damage d)\<rparr>"
  have end_eq: "(if damageList d = [] then c\<lparr>cd_class := Damage ?d1\<rparr>
      else (c\<lparr>cd_class := Damage ?d1\<rparr>)\<lparr>cd_class := Damage (?d1\<lparr>damageList := damageList ?d1 @ damageList d\<rparr>),
        cd_ticks := cd_ticks (c\<lparr>cd_class := Damage ?d1\<rparr>) + (\<Sum>i\<leftarrow>damageList d. iv_interval i),
        cd_endTime := cd_ticks (c\<lparr>cd_class := Damage ?d1\<rparr>) + (\<Sum>i\<leftarrow>damageList d. iv_interval i) + now\<rparr>) = ?c2"
    using assms(2,3) by (cases c) (auto simp: new_ConditionDamage_def)
  have ivs: "absorbs now ?ivs (c\<lparr>cd_class := Damage ?d1\<rparr>) ?c2"
    using absorbs_intervals [of "damageList d" "c\<lparr>cd_class := Damage ?d1\<rparr>" ?d1 now] assms unfolding end_eq by simp
  have bit: "(?b \<noteq> 0) = delayed d" by simp
  have *: "serialize_class (Damage d) = PU8 8 # PU8 ?b # PU8 25 # PI32 (periodDamage d) # PU8 9 # PU32 (cd_owner d) # ?ivs"
    by (simp add: serialize_class_defs)
  show ?thesis
    unfolding *
    by (rule absorbs_class(2) [where g = "\<lambda>v. Damage (?n\<lparr>delayed := (v \<noteq> 0)\<rparr>)"], simp, simp add: reads, unfold bit,
        rule absorbs_class(3) [where h = "\<lambda>v. Damage (?n\<lparr>delayed := delayed d, periodDamage := v\<rparr>)"], simp, simp add: reads,
        use assms(1) in simp,
        rule absorbs_class(1) [where f = "\<lambda>v. Damage (?n\<lparr>delayed := delayed d, periodDamage := periodDamage d, cd_owner := v\<rparr>)"],
        simp, simp add: reads, rule ivs)
qed

text \<open>What a type is created with.\<close>

lemma class_for_new:
  assumes "class_for ty 0 = Some cl"
  shows "cl \<in> {Generic, ManaShield, Invisible, Attributes new_ConditionAttributes, Regeneration new_ConditionRegeneration,
    Soul new_ConditionSoul, Damage new_ConditionDamage, Speed (new_ConditionSpeed 0), OutfitC [], Light (new_ConditionLight 0 0)}"
  using assms by (auto simp: class_for_def split: if_splits)

lemma absorbs_restored:
  assumes "storable c"
  shows "\<exists>c0. createCondition (cd_id c) (cd_type c) (cd_ticks c) 0 = Some c0
    \<and> absorbs now (serialize_class (cd_class c)) c0 (restored now c)"
proof -
  from assms obtain cl where cl: "class_for (cd_type c) 0 = Some cl" "class_no cl = class_no (cd_class c)"
    by (auto simp: storable_def well_typed_def)
  define c0 where "c0 = \<lparr>cd_id = cd_id c, cd_ticks = (case cl of Damage _ \<Rightarrow> 0 | _ \<Rightarrow> cd_ticks c), cd_endTime = 0,
      cd_type = cd_type c, cd_class = cl\<rparr>"
  have create: "createCondition (cd_id c) (cd_type c) (cd_ticks c) 0 = Some c0"
    by (simp add: createCondition_def cl c0_def)
  have c0: "c0 = c0\<lparr>cd_class := cl\<rparr>" "cd_endTime c0 = 0" by (simp_all add: c0_def)
  have bk: "restored now c = c0\<lparr>cd_class := restored_class (cd_class c), cd_ticks := restored_ticks (cd_class c) (cd_ticks c),
      cd_endTime := restored_end now (cd_class c)\<rparr>"
    by (cases c) (simp add: restored_def c0_def)
  have same: "restored now c = c0\<lparr>cd_class := restored_class (cd_class c)\<rparr>" if "class_no (cd_class c) \<noteq> 6"
  proof -
    have "restored_ticks (cd_class c) (cd_ticks c) = cd_ticks c0" "restored_end now (cd_class c) = cd_endTime c0"
      using that cl(2) by (cases "cd_class c"; cases cl; simp add: c0_def)+
    then show ?thesis unfolding bk by (cases c0) simp
  qed
  note new = class_for_new [OF cl(1)]
  have "absorbs now (serialize_class (cd_class c)) (c0\<lparr>cd_class := cl\<rparr>) (restored now c)"
  proof (cases "cd_class c")
    case (Attributes a)
    then show ?thesis using assms by (simp add: storable_def)
  next
    case (Regeneration r)
    then have "cl = Regeneration new_ConditionRegeneration" using new cl(2) by auto
    then show ?thesis using absorbs_regeneration [of now r c0] same Regeneration by simp
  next
    case (Soul r)
    then have "cl = Soul new_ConditionSoul" using new cl(2) by auto
    then show ?thesis using absorbs_soul [of now r c0] same Soul by simp
  next
    case (Speed v)
    then have "cl = Speed (new_ConditionSpeed 0)" using new cl(2) by auto
    then show ?thesis using absorbs_speed [of v now c0] same Speed assms by (simp add: storable_def)
  next
    case (Light l)
    then have "cl = Light (new_ConditionLight 0 0)" using new cl(2) by auto
    then show ?thesis using absorbs_light [of now l c0] same Light by simp
  next
    case (OutfitC outs)
    then have "cl = OutfitC []" using new cl(2) by auto
    then show ?thesis using absorbs_outfits [of now outs "[]" c0] same OutfitC by (simp add: serialize_class_defs)
  next
    case (Damage d)
    then have k: "cl = Damage new_ConditionDamage" using new cl(2) by auto
    then have "cd_ticks c0 = 0" by (simp add: c0_def)
    from absorbs_damage [OF _ this c0(2), of d now] assms Damage k show ?thesis
      unfolding bk by (simp add: storable_def)
  next
    case Generic
    then have "cl = Generic" using new cl(2) by auto
    then show ?thesis using absorbs_nil [of now "c0\<lparr>cd_class := Generic\<rparr>"] same Generic by (simp add: serialize_class_defs)
  next
    case ManaShield
    then have "cl = ManaShield" using new cl(2) by auto
    then show ?thesis using absorbs_nil [of now "c0\<lparr>cd_class := ManaShield\<rparr>"] same ManaShield by (simp add: serialize_class_defs)
  next
    case Invisible
    then have "cl = Invisible" using new cl(2) by auto
    then show ?thesis using absorbs_nil [of now "c0\<lparr>cd_class := Invisible\<rparr>"] same Invisible by (simp add: serialize_class_defs)
  qed
  with create c0(1) show ?thesis by metis
qed

lemma createCondition_from_delivers:
  assumes "delivers s (serialize_base c @ tail)" "int32_ok (cd_id c)" "int32_ok (cd_ticks c)"
  shows "\<exists>s'. delivers s' tail \<and> createCondition_from s =
    map_option (\<lambda>c0. (c0, s')) (createCondition (cd_id c) (cd_type c) (cd_ticks c) 0)"
proof -
  from assms(1) have "delivers s (PU8 1 # PU32 (cd_type c) # PU8 2 # PI32 (cd_id c) # PU8 3 # PI32 (cd_ticks c) # tail)"
    by (simp add: serialize_base_def)
  from delivers_u8 [OF this] obtain s1 where s1: "GET_UINT8 s = Some (1, s1)"
    "delivers s1 (PU32 (cd_type c) # PU8 2 # PI32 (cd_id c) # PU8 3 # PI32 (cd_ticks c) # tail)" by blast
  from delivers_u32 [OF s1(2)] obtain s2 where s2: "GET_UINT32 s1 = Some (cd_type c, s2)"
    "delivers s2 (PU8 2 # PI32 (cd_id c) # PU8 3 # PI32 (cd_ticks c) # tail)" by blast
  from delivers_u8 [OF s2(2)] obtain s3 where s3: "GET_UINT8 s2 = Some (2, s3)"
    "delivers s3 (PI32 (cd_id c) # PU8 3 # PI32 (cd_ticks c) # tail)" by blast
  from delivers_i32 [OF s3(2) assms(2)] obtain s4 where s4: "GET_INT32 s3 = Some (cd_id c, s4)"
    "delivers s4 (PU8 3 # PI32 (cd_ticks c) # tail)" by blast
  from delivers_u8 [OF s4(2)] obtain s5 where s5: "GET_UINT8 s4 = Some (3, s5)" "delivers s5 (PI32 (cd_ticks c) # tail)"
    by blast
  from delivers_i32 [OF s5(2) assms(3)] obtain s6 where s6: "GET_INT32 s5 = Some (cd_ticks c, s6)" "delivers s6 tail" by blast
  show ?thesis
    by (intro exI [of _ s6])
      (use s1 s2 s3 s4 s5 s6 in \<open>cases "createCondition (cd_id c) (cd_type c) (cd_ticks c) 0"; simp add: createCondition_from_def\<close>)
qed

definition saved_values :: "Condition list \<Rightarrow> prop_value list" where
  "saved_values cs = concat (map (\<lambda>c. if isPersistent c then serialize c @ [PU8 CONDITIONATTR_END] else []) cs)"

lemma load_delivers:
  assumes "list_all storable cs" "delivers s (saved_values cs)"
  shows "load_conditions now s = Some (map (restored now) (filter isPersistent cs))"
  using assms
proof (induction cs arbitrary: s)
  case Nil
  then have "ps_wf s" "ps_rest s = []" by (simp_all add: delivers_def prop_bytes_def saved_values_def)
  then have "createCondition_from s = None" by (simp add: createCondition_from_def GET_UINT8_Nil)
  then show ?case by (simp add: load_conditions.simps)
next
  case (Cons c cs)
  show ?case
  proof (cases "isPersistent c")
    case False
    then show ?thesis using Cons by (simp add: saved_values_def)
  next
    case True
    have c: "storable c" "int32_ok (cd_id c)" "int32_ok (cd_ticks c)" using Cons.prems(1) by (simp_all add: storable_def)
    have "delivers s (serialize_base c @ serialize_class (cd_class c) @ PU8 CONDITIONATTR_END # saved_values cs)"
      using Cons.prems(2) True by (simp add: saved_values_def serialize_def)
    from createCondition_from_delivers [OF this c(2,3)] absorbs_restored [OF c(1), of now] obtain c0 s1 where
      s1: "createCondition_from s = Some (c0, s1)"
        "delivers s1 (serialize_class (cd_class c) @ PU8 CONDITIONATTR_END # saved_values cs)"
        "absorbs now (serialize_class (cd_class c)) c0 (restored now c)" by auto
    then obtain s2 where s2: "delivers s2 (PU8 CONDITIONATTR_END # saved_values cs)"
        "unserialize now c0 s1 = unserialize now (restored now c) s2" unfolding absorbs_def by blast
    from delivers_u8 [OF s2(1)] obtain s3 where s3: "GET_UINT8 s2 = Some (CONDITIONATTR_END, s3)" "delivers s3 (saved_values cs)"
      by blast
    have "unserialize now c0 s1 = Some (True, restored now c, s3)"
      using s2(2) s3(1) by (simp add: unserialize.simps [of now "restored now c" s2])
    with Cons.IH [OF _ s3(2)] Cons.prems(1) s1(1) True show ?thesis
      by (simp add: load_conditions.simps [of now s])
  qed
qed

lemma no_strings: "list_all prop_ok (saved_values cs)"
  by (auto simp: saved_values_def serialize_def serialize_base_def serialize_class_defs list_all_iff
      split: ConditionClass.splits if_splits)

text \<open>
  What loading keeps of a condition, class by class.  Of a damage condition it keeps the delay, the periodic damage, the owner and the
  list of damages that are left; its ticks are the sum of the intervals of that list, its end time is reckoned from now, and
  the minimal, maximal and first damage, the tick interval and the counters are those of a new condition.  Every other
  condition keeps its ticks and its effects; its end time is 0 until it is started, and the counters within a period of a
  regeneration start anew.
\<close>

fun kept_class :: "ConditionClass \<Rightarrow> ConditionClass \<Rightarrow> bool" where
  "kept_class (Damage d) cl \<longleftrightarrow> (\<exists>e. cl = Damage e \<and> damageList e = damageList d \<and> delayed e = delayed d \<and>
     periodDamage e = periodDamage d \<and> cd_owner e = cd_owner d \<and>
     minDamage e = 0 \<and> maxDamage e = 0 \<and> startDamage e = 0 \<and> tickInterval e = 2000 \<and> periodDamageTick e = 0 \<and> \<not> forceUpdate e)"
| "kept_class (Regeneration r) cl \<longleftrightarrow> (\<exists>q. cl = Regeneration q \<and> healthGain q = healthGain r \<and> healthTicks q = healthTicks r \<and>
     manaGain q = manaGain r \<and> manaTicks q = manaTicks r \<and> internalHealthTicks q = 0 \<and> internalManaTicks q = 0)"
| "kept_class (Soul r) cl \<longleftrightarrow> (\<exists>q. cl = Soul q \<and> soulGain q = soulGain r \<and> soulTicks q = soulTicks r \<and> internalSoulTicks q = 0)"
| "kept_class k cl \<longleftrightarrow> cl = k"

definition kept :: "int \<Rightarrow> Condition \<Rightarrow> Condition \<Rightarrow> bool" where
  "kept now c r \<longleftrightarrow> cd_type r = cd_type c \<and> cd_id r = cd_id c \<and> kept_class (cd_class c) (cd_class r) \<and>
     (case cd_class c of
        Damage d \<Rightarrow> cd_ticks r = (\<Sum>i\<leftarrow>damageList d. iv_interval i) \<and> cd_endTime r = (if damageList d = [] then 0 else cd_ticks r + now)
      | _ \<Rightarrow> cd_ticks r = cd_ticks c \<and> cd_endTime r = 0)"

lemma restored_kept: "kept now c (restored now c)"
  by (cases "cd_class c") (simp_all add: kept_def restored_def new_ConditionDamage_def)


text \<open>The witness saves a haste, a permanent haste, which is left out, and a poisoning with two damages left.\<close>

definition poison :: Condition where
  "poison = \<lparr>cd_id = 0, cd_ticks = 3500, cd_endTime = 9, cd_type = CONDITION_POISON,
     cd_class = Damage (new_ConditionDamage\<lparr>startDamage := 5, tickInterval := 4000, damageList :=
       [\<lparr>iv_timeLeft = 500, iv_value = - 2, iv_interval = 4000\<rparr>, \<lparr>iv_timeLeft = 4000, iv_value = - 1, iv_interval = 4000\<rparr>]\<rparr>)\<rparr>"

lemma poison_ok: "well_typed poison"
  by (simp add: well_typed_def poison_def class_for_def)


subsection \<open>Attributes are not read back\<close>

lemma absorbs_skills:
  assumes "list_all int32_ok vs" "length vs + ca_currentSkill a \<le> length (ca_skills a)"
  shows "\<exists>a'. absorbs now (concat (map (\<lambda>v. [PU8 22, PI32 v]) vs)) (c\<lparr>cd_class := Attributes a\<rparr>) (c\<lparr>cd_class := Attributes a'\<rparr>)
    \<and> ca_currentSkill a' = ca_currentSkill a + length vs \<and> length (ca_skills a') = length (ca_skills a)"
  using assms
proof (induction vs arbitrary: a)
  case (Cons v vs)
  define b where "b = a\<lparr>ca_skills := (ca_skills a)[ca_currentSkill a := v], ca_currentSkill := ca_currentSkill a + 1\<rparr>"
  have put: "put_skill a v = Some b" using Cons.prems(2) by (simp add: put_skill_def b_def)
  have one: "absorbs now [PU8 22, PI32 v] (c\<lparr>cd_class := Attributes a\<rparr>) (c\<lparr>cd_class := Attributes b\<rparr>)"
    by (rule absorbs_i32 [where upd = "\<lambda>v. Option.bind (put_skill a v) (\<lambda>a. Some (c\<lparr>cd_class := Attributes a\<rparr>))"])
      (use Cons.prems(1) put in \<open>simp_all add: reads\<close>)
  from Cons.IH [of b] Cons.prems obtain a' where
    "absorbs now (concat (map (\<lambda>v. [PU8 22, PI32 v]) vs)) (c\<lparr>cd_class := Attributes b\<rparr>) (c\<lparr>cd_class := Attributes a'\<rparr>)"
    "ca_currentSkill a' = ca_currentSkill b + length vs" "length (ca_skills a') = length (ca_skills b)"
    by (auto simp: b_def)
  with absorbs_append [OF one] show ?case by (intro exI [of _ a']) (auto simp: b_def)
qed auto

text \<open>
  C40. A saved attribute condition cannot be read back: its skill percentages are read into the list of its skills, behind
  the seven skills that are already there, which is outside the array.
\<close>
theorem saved_attributes_overrun:
  assumes "well_typed c" "cd_class c = Attributes a" "isPersistent c" "int32_ok (cd_id c)" "int32_ok (cd_ticks c)"
    and "list_all int32_ok (ca_skills a)" "list_all int32_ok (ca_skillsPercent a)"
    and "delivers s (saved_values (c # cs))"
  shows "load_conditions now s = None"
proof -
  have ok: "attributes_ok a" by (rule well_typed_attributes [OF assms(1,2)])
  from assms(1,2) obtain cl where cl: "class_for (cd_type c) 0 = Some cl" "class_no cl = 3"
    by (auto simp: well_typed_def)
  then have k: "cl = Attributes new_ConditionAttributes" using class_for_new [OF cl(1)] by auto
  obtain p ps where ps: "ca_skillsPercent a = p # ps" using ok by (cases "ca_skillsPercent a") (auto simp: attributes_ok_def)
  obtain rest where "delivers s (serialize_base c @ concat (map (\<lambda>v. [PU8 22, PI32 v]) (ca_skills a))
      @ PU8 26 # PI32 p # rest)"
    using assms(2,3,8) ps by (simp add: saved_values_def serialize_def serialize_class_defs)
  from createCondition_from_delivers [OF this assms(4,5)] cl(1) k obtain s1 where
    s1: "delivers s1 (concat (map (\<lambda>v. [PU8 22, PI32 v]) (ca_skills a)) @ PU8 26 # PI32 p # rest)"
      "createCondition_from s = Some (\<lparr>cd_id = cd_id c, cd_ticks = cd_ticks c, cd_endTime = 0, cd_type = cd_type c,
         cd_class = Attributes new_ConditionAttributes\<rparr>, s1)"
    by (auto simp: createCondition_def)
  define c0 where "c0 = \<lparr>cd_id = cd_id c, cd_ticks = cd_ticks c, cd_endTime = 0, cd_type = cd_type c,
         cd_class = Attributes new_ConditionAttributes\<rparr>"
  have c0: "c0 = c0\<lparr>cd_class := Attributes new_ConditionAttributes\<rparr>" by (simp add: c0_def)
  from absorbs_skills [OF assms(6), of new_ConditionAttributes now c0] ok obtain a' where
    a': "absorbs now (concat (map (\<lambda>v. [PU8 22, PI32 v]) (ca_skills a))) c0 (c0\<lparr>cd_class := Attributes a'\<rparr>)"
      "ca_currentSkill a' = SKILLS" "length (ca_skills a') = SKILLS"
    using c0 by (auto simp: new_ConditionAttributes_def attributes_ok_def)
  with s1(1) obtain s2 where s2: "delivers s2 (PU8 26 # PI32 p # rest)"
    "unserialize now c0 s1 = unserialize now (c0\<lparr>cd_class := Attributes a'\<rparr>) s2" unfolding absorbs_def by blast
  from delivers_u8 [OF s2(1)] obtain s3 where s3: "GET_UINT8 s2 = Some (26, s3)" "delivers s3 (PI32 p # rest)" by blast
  from delivers_i32 [OF s3(2)] assms(7) ps obtain s4 where "GET_INT32 s3 = Some (p, s4)" by auto
  then have "unserializeProp now 26 (c0\<lparr>cd_class := Attributes a'\<rparr>) s3 = None"
    using a' by (simp add: reads get_into_def put_skill_def)
  with s2(2) s3(1) have "unserialize now c0 s1 = None"
    by (simp add: unserialize.simps [of now "c0\<lparr>cd_class := Attributes a'\<rparr>" s2])
  with s1(2) show ?thesis by (simp add: load_conditions.simps [of now s] c0_def)
qed

definition strength :: Condition where
  "strength = \<lparr>cd_id = 0, cd_ticks = 5000, cd_endTime = 0, cd_type = CONDITION_ATTRIBUTES,
     cd_class = Attributes (set_skills [1, 3, 2] 5 new_ConditionAttributes)\<rparr>"

theorem saved_attributes_overrun_witness:
  "load_conditions 7 (ps_init (prop_bytes (saved_values [strength, haste 5000 40]))) = None"
proof (rule saved_attributes_overrun [where c = strength and cs = "[haste 5000 40]"
      and a = "set_skills [1, 3, 2] 5 new_ConditionAttributes"])
  show "well_typed strength"
    by (simp add: well_typed_def strength_def class_for_def attributes_ok_def set_skills_def new_ConditionAttributes_def)
  show "delivers (ps_init (prop_bytes (saved_values [strength, haste 5000 40]))) (saved_values [strength, haste 5000 40])"
    by (simp add: delivers_def)
qed (simp_all add: strength_def isPersistent_def int32_ok_def set_skills_def new_ConditionAttributes_def numeral_eq_Suc)

end
