(* ===== verification/ClientRequests.thy ===== *)
theory ClientRequests
  imports NetMsg Conditions
begin

text \<open>
  What a client of the game may ask for: \<^verbatim>\<open>ProtocolGame::parsePacket\<close> and the functions \<^verbatim>\<open>parse...\<close>
  of \<^verbatim>\<open>protocolgame.cpp\<close>, compiled with \<^verbatim>\<open>__PROTOCOL_77__\<close>.  They read the fields of a request from the
  message and queue one call of the game as a task of the dispatcher.  A task is a value of
  \<open>GameTask\<close> with the name and the arguments of that call; the identifier of the player, which every
  call has, is left out.  The test for players that flood the server is modelled as it stands without
  \<^verbatim>\<open>__SERVER_PROTECTION__\<close>, which the source forbids to define.
\<close>

section \<open>Tasks and state\<close>

datatype chaseMode_t = CHASEMODE_STANDSTILL | CHASEMODE_FOLLOW

datatype fightMode_t = FIGHTMODE_ATTACK | FIGHTMODE_BALANCED | FIGHTMODE_DEFENSE

datatype PlayerSex_t = PLAYERSEX_FEMALE | PLAYERSEX_MALE | PLAYERSEX_OLDMALE

datatype GameTask =
    LogoutTask | ReceivePing
  | CreatePrivateChannel | ChannelInvite "u8 list" | ChannelExclude "u8 list" | RequestChannels
  | OpenChannel u16 | CloseChannel u16 | OpenPrivateChannel "u8 list"
  | ProcessRuleViolation "u8 list" | CloseRuleViolation "u8 list" | CancelRuleViolation
  | CancelAttackAndFollow | AutoWalk "Direction list" | StopAutoWalk | MovePlayer Direction | TurnPlayer Direction
  | RequestOutfit | ChangePlayerOutfit Outfit_t
  | UseItem position u8 u8 u16 | UseItemEx position u8 u16 position u8 u16 | UseBattleWindow position u8 u32 u16
  | CloseContainer u8 | MoveUpContainer u8 | UpdateContainer u8
  | MoveThing position u16 u8 position u8 | LookAt position u16 u8
  | Say u16 u8 "u8 list" "u8 list" | SetFightModes fightMode_t chaseMode_t bool
  | SetAttackedCreature u32 | FollowCreature u32
  | InviteToParty u32 | JoinParty u32 | RevokePartyInvitation u32 | PassPartyLeadership u32 | LeaveParty
  | WriteItem u32 "u8 list" | UpdateHouseWindow u8 u32 "u8 list"
  | RequestTrade position u8 u32 u16 | AcceptTrade | LookInTrade bool u8 | CloseTrade
  | AddVip "u8 list" | RemoveVip u32 | RotateItem position u8 u16
  | BugReport "u8 list" | ViolationWindow "u8 list" u8 "u8 list" u8 bool

text \<open>The part of the protocol object that the requests change, with the tasks it has queued, the
  assertions it has written to the file and whether it has kicked its player.\<close>

record ProtocolGame =
  pg_player :: bool
  m_acceptPackets :: bool
  m_now :: int
  m_nextTask :: int
  m_nextPing :: int
  m_messageCount :: int
  m_rejectCount :: int
  m_debugAssertSent :: bool
  pg_tasks :: "GameTask list"
  pg_assertions :: "u8 list list"
  pg_kicked :: bool

text \<open>What the requests read elsewhere: the state of the game, the clock, the configuration and the player.\<close>

record ClientEnv =
  ce_shutdown :: bool
  ce_time :: int
  ce_save_assertions :: bool
  ce_removed :: bool
  ce_health :: int
  ce_sex :: PlayerSex_t
  ce_premium :: bool

definition new_ProtocolGame :: ProtocolGame where
  "new_ProtocolGame = \<lparr>pg_player = False, m_acceptPackets = False, m_now = 0, m_nextTask = 0, m_nextPing = 0,
     m_messageCount = 0, m_rejectCount = 0, m_debugAssertSent = False, pg_tasks = [], pg_assertions = [],
     pg_kicked = False\<rparr>"

definition add_task :: "GameTask \<Rightarrow> ProtocolGame \<Rightarrow> ProtocolGame" where
  "add_task t pg = pg\<lparr>pg_tasks := pg_tasks pg @ [t]\<rparr>"

definition addGameTask :: "GameTask \<Rightarrow> ProtocolGame \<Rightarrow> ProtocolGame" where
  "addGameTask t pg =
     (if m_now pg > m_nextTask pg \<or> m_messageCount pg < 5
      then (add_task t pg)\<lparr>m_nextTask := m_now pg + (- 1)\<rparr>
      else pg\<lparr>m_rejectCount := m_rejectCount pg + 1\<rparr>)"

section \<open>Readers\<close>

text \<open>A reader takes what it needs from the message and leaves the rest; the message's accessors are readers.\<close>

type_synonym 'a net_reader = "NetworkMessage \<Rightarrow> ('a \<times> NetworkMessage) option"

definition net_return :: "'a \<Rightarrow> 'a net_reader" where
  "net_return x m = Some (x, m)"

definition net_bind :: "'a net_reader \<Rightarrow> ('a \<Rightarrow> 'b net_reader) \<Rightarrow> 'b net_reader" where
  "net_bind r k m = (case r m of None \<Rightarrow> None | Some (x, m1) \<Rightarrow> k x m1)"

section \<open>The requests\<close>

subsection \<open>Leaving, keeping alive, channels and reports\<close>

definition parseLogout :: "ProtocolGame \<Rightarrow> ProtocolGame net_reader" where
  "parseLogout pg = net_return (add_task LogoutTask pg)"

definition parseCreatePrivateChannel :: "ProtocolGame \<Rightarrow> ProtocolGame net_reader" where
  "parseCreatePrivateChannel pg = net_return (addGameTask CreatePrivateChannel pg)"

definition parseChannelInvite :: "ProtocolGame \<Rightarrow> ProtocolGame net_reader" where
  "parseChannelInvite pg = net_bind GetString (\<lambda>name. net_return (addGameTask (ChannelInvite name) pg))"

definition parseChannelExclude :: "ProtocolGame \<Rightarrow> ProtocolGame net_reader" where
  "parseChannelExclude pg = net_bind GetString (\<lambda>name. net_return (addGameTask (ChannelExclude name) pg))"

definition parseGetChannels :: "ProtocolGame \<Rightarrow> ProtocolGame net_reader" where
  "parseGetChannels pg = net_return (addGameTask RequestChannels pg)"

definition parseOpenChannel :: "ProtocolGame \<Rightarrow> ProtocolGame net_reader" where
  "parseOpenChannel pg = net_bind GetU16 (\<lambda>channelId. net_return (addGameTask (OpenChannel channelId) pg))"

definition parseCloseChannel :: "ProtocolGame \<Rightarrow> ProtocolGame net_reader" where
  "parseCloseChannel pg = net_bind GetU16 (\<lambda>channelId. net_return (addGameTask (CloseChannel channelId) pg))"

definition parseOpenPriv :: "ProtocolGame \<Rightarrow> ProtocolGame net_reader" where
  "parseOpenPriv pg = net_bind GetString (\<lambda>receiver. net_return (addGameTask (OpenPrivateChannel receiver) pg))"

definition parseProcessRuleViolation :: "ProtocolGame \<Rightarrow> ProtocolGame net_reader" where
  "parseProcessRuleViolation pg = net_bind GetString (\<lambda>reporter. net_return (addGameTask (ProcessRuleViolation reporter) pg))"

definition parseCloseRuleViolation :: "ProtocolGame \<Rightarrow> ProtocolGame net_reader" where
  "parseCloseRuleViolation pg = net_bind GetString (\<lambda>reporter. net_return (addGameTask (CloseRuleViolation reporter) pg))"

definition parseCancelRuleViolation :: "ProtocolGame \<Rightarrow> ProtocolGame net_reader" where
  "parseCancelRuleViolation pg = net_return (addGameTask CancelRuleViolation pg)"

definition parseCancelMove :: "ProtocolGame \<Rightarrow> ProtocolGame net_reader" where
  "parseCancelMove pg = net_return (addGameTask CancelAttackAndFollow pg)"

definition parseRecievePing :: "ProtocolGame \<Rightarrow> ProtocolGame net_reader" where
  "parseRecievePing pg = net_return
     (if m_now pg > m_nextPing pg then (add_task ReceivePing pg)\<lparr>m_nextPing := m_now pg + 2000\<rparr> else pg)"

subsection \<open>Walking\<close>

definition raw_direction :: "u8 \<Rightarrow> Direction option" where
  "raw_direction rawdir =
     (if rawdir = 1 then Some EAST else if rawdir = 2 then Some NORTHEAST else if rawdir = 3 then Some NORTH
      else if rawdir = 4 then Some NORTHWEST else if rawdir = 5 then Some WEST else if rawdir = 6 then Some SOUTHWEST
      else if rawdir = 7 then Some SOUTH else if rawdir = 8 then Some SOUTHEAST else None)"

fun read_path :: "nat \<Rightarrow> Direction list \<Rightarrow> Direction list net_reader" where
  "read_path 0 path = net_return path"
| "read_path (Suc n) path = net_bind GetByte (\<lambda>rawdir.
     read_path n (case raw_direction rawdir of None \<Rightarrow> path | Some dir \<Rightarrow> path @ [dir]))"

definition parseAutoWalk :: "ProtocolGame \<Rightarrow> ProtocolGame net_reader" where
  "parseAutoWalk pg = net_bind GetByte (\<lambda>numdirs. net_bind (read_path (unat numdirs) []) (\<lambda>path.
     net_return (addGameTask (AutoWalk path) pg)))"

definition parseStopAutoWalk :: "ProtocolGame \<Rightarrow> ProtocolGame net_reader" where
  "parseStopAutoWalk pg = net_return (addGameTask StopAutoWalk pg)"

definition parseMove :: "Direction \<Rightarrow> ProtocolGame \<Rightarrow> ProtocolGame net_reader" where
  "parseMove dir pg = net_return (addGameTask (MovePlayer dir) pg)"

definition parseTurn :: "Direction \<Rightarrow> ProtocolGame \<Rightarrow> ProtocolGame net_reader" where
  "parseTurn dir pg = net_return (addGameTask (TurnPlayer dir) pg)"

subsection \<open>Outfits\<close>

definition parseRequestOutfit :: "ProtocolGame \<Rightarrow> ProtocolGame net_reader" where
  "parseRequestOutfit pg = net_return (addGameTask RequestOutfit pg)"

definition may_wear :: "ClientEnv \<Rightarrow> u16 \<Rightarrow> bool" where
  "may_wear e ty =
     (let lastFemaleOutfit = (if ce_sex e = PLAYERSEX_FEMALE \<and> ce_premium e then 0x8E else 0x8B);
          lastMaleOutfit = (if ce_sex e \<noteq> PLAYERSEX_FEMALE \<and> ce_sex e = PLAYERSEX_MALE \<and> ce_premium e then 0x86 else 0x83)
      in ce_sex e = PLAYERSEX_FEMALE \<and> 0x88 \<le> ty \<and> ty \<le> lastFemaleOutfit \<or>
         ce_sex e = PLAYERSEX_MALE \<and> 0x80 \<le> ty \<and> ty \<le> lastMaleOutfit)"

definition default_outfit :: Outfit_t where
  "default_outfit = \<lparr>lookType = 0, lookTypeEx = 0, lookHead = 0, lookBody = 0, lookLegs = 0, lookFeet = 0\<rparr>"

definition parseSetOutfit :: "ClientEnv \<Rightarrow> ProtocolGame \<Rightarrow> ProtocolGame net_reader" where
  "parseSetOutfit e pg = net_bind GetU16 (\<lambda>ty.
     if may_wear e ty then
       net_bind GetByte (\<lambda>head. net_bind GetByte (\<lambda>body. net_bind GetByte (\<lambda>legs. net_bind GetByte (\<lambda>feet.
         net_return (addGameTask (ChangePlayerOutfit (default_outfit\<lparr>lookType := ucast ty, lookHead := ucast head,
           lookBody := ucast body, lookLegs := ucast legs, lookFeet := ucast feet\<rparr>)) pg)))))
     else net_return (addGameTask (ChangePlayerOutfit default_outfit) pg))"

subsection \<open>Items and containers\<close>

definition parseUseItem :: "ProtocolGame \<Rightarrow> ProtocolGame net_reader" where
  "parseUseItem pg = net_bind GetPosition (\<lambda>pos. net_bind GetSpriteId (\<lambda>spriteId. net_bind GetByte (\<lambda>sp.
     net_bind GetByte (\<lambda>index. net_return (addGameTask (UseItem pos sp index spriteId) pg)))))"

definition parseUseItemEx :: "ProtocolGame \<Rightarrow> ProtocolGame net_reader" where
  "parseUseItemEx pg = net_bind GetPosition (\<lambda>fromPos. net_bind GetSpriteId (\<lambda>fromSpriteId.
     net_bind GetByte (\<lambda>fromStackPos. net_bind GetPosition (\<lambda>toPos. net_bind GetU16 (\<lambda>toSpriteId.
     net_bind GetByte (\<lambda>toStackPos.
       net_return (addGameTask (UseItemEx fromPos fromStackPos fromSpriteId toPos toStackPos toSpriteId) pg)))))))"

definition parseBattleWindow :: "ProtocolGame \<Rightarrow> ProtocolGame net_reader" where
  "parseBattleWindow pg = net_bind GetPosition (\<lambda>fromPos. net_bind GetSpriteId (\<lambda>spriteId.
     net_bind GetByte (\<lambda>fromStackPos. net_bind GetU32 (\<lambda>creatureId.
       net_return (addGameTask (UseBattleWindow fromPos fromStackPos creatureId spriteId) pg)))))"

definition parseCloseContainer :: "ProtocolGame \<Rightarrow> ProtocolGame net_reader" where
  "parseCloseContainer pg = net_bind GetByte (\<lambda>cid. net_return (addGameTask (CloseContainer cid) pg))"

definition parseUpArrowContainer :: "ProtocolGame \<Rightarrow> ProtocolGame net_reader" where
  "parseUpArrowContainer pg = net_bind GetByte (\<lambda>cid. net_return (addGameTask (MoveUpContainer cid) pg))"

definition parseUpdateTile :: "ProtocolGame \<Rightarrow> ProtocolGame net_reader" where
  "parseUpdateTile pg = net_bind GetPosition (\<lambda>pos. net_return pg)"

definition parseUpdateContainer :: "ProtocolGame \<Rightarrow> ProtocolGame net_reader" where
  "parseUpdateContainer pg = net_bind GetByte (\<lambda>cid. net_return (addGameTask (UpdateContainer cid) pg))"

definition parseThrow :: "ProtocolGame \<Rightarrow> ProtocolGame net_reader" where
  "parseThrow pg = net_bind GetPosition (\<lambda>fromPos. net_bind GetSpriteId (\<lambda>spriteId. net_bind GetByte (\<lambda>fromStackpos.
     net_bind GetPosition (\<lambda>toPos. net_bind GetByte (\<lambda>count.
       net_return (if pos_neq toPos fromPos
         then addGameTask (MoveThing fromPos spriteId fromStackpos toPos count) pg else pg))))))"

definition parseLookAt :: "ProtocolGame \<Rightarrow> ProtocolGame net_reader" where
  "parseLookAt pg = net_bind GetPosition (\<lambda>pos. net_bind GetSpriteId (\<lambda>spriteId. net_bind GetByte (\<lambda>sp.
     net_return (addGameTask (LookAt pos spriteId sp) pg))))"

definition parseRotateItem :: "ProtocolGame \<Rightarrow> ProtocolGame net_reader" where
  "parseRotateItem pg = net_bind GetPosition (\<lambda>pos. net_bind GetSpriteId (\<lambda>spriteId. net_bind GetByte (\<lambda>sp.
     net_return (addGameTask (RotateItem pos sp spriteId) pg))))"

subsection \<open>Speech and fights\<close>

abbreviation SPEAK_PRIVATE :: u8 where "SPEAK_PRIVATE \<equiv> 0x04"
abbreviation SPEAK_CHANNEL_Y :: u8 where "SPEAK_CHANNEL_Y \<equiv> 0x05"
abbreviation SPEAK_RVR_ANSWER :: u8 where "SPEAK_RVR_ANSWER \<equiv> 0x07"
abbreviation SPEAK_CHANNEL_R1 :: u8 where "SPEAK_CHANNEL_R1 \<equiv> 0x0A"
abbreviation SPEAK_PRIVATE_RED :: u8 where "SPEAK_PRIVATE_RED \<equiv> 0x0B"
abbreviation SPEAK_CHANNEL_R2 :: u8 where "SPEAK_CHANNEL_R2 \<equiv> 0x0E"

definition speaks_to_player :: "u8 \<Rightarrow> bool" where
  "speaks_to_player ty \<longleftrightarrow> ty = SPEAK_PRIVATE \<or> ty = SPEAK_PRIVATE_RED \<or> ty = SPEAK_RVR_ANSWER"

definition speaks_in_channel :: "u8 \<Rightarrow> bool" where
  "speaks_in_channel ty \<longleftrightarrow> ty = SPEAK_CHANNEL_Y \<or> ty = SPEAK_CHANNEL_R1 \<or> ty = SPEAK_CHANNEL_R2"

definition parseSay :: "ProtocolGame \<Rightarrow> ProtocolGame net_reader" where
  "parseSay pg = net_bind GetByte (\<lambda>ty.
     if speaks_to_player ty then
       net_bind GetString (\<lambda>receiver. net_bind GetString (\<lambda>msg. net_return (addGameTask (Say 0 ty receiver msg) pg)))
     else if speaks_in_channel ty then
       net_bind GetU16 (\<lambda>channelId. net_bind GetString (\<lambda>msg. net_return (addGameTask (Say channelId ty [] msg) pg)))
     else net_bind GetString (\<lambda>msg. net_return (addGameTask (Say 0 ty [] msg) pg)))"

definition parseFightModes :: "ProtocolGame \<Rightarrow> ProtocolGame net_reader" where
  "parseFightModes pg = net_bind GetByte (\<lambda>rawFightMode. net_bind GetByte (\<lambda>rawChaseMode. net_bind GetByte (\<lambda>rawSafeMode.
     let safeMode = (rawSafeMode = 1);
         chaseMode = (if rawChaseMode = 0 then CHASEMODE_STANDSTILL else if rawChaseMode = 1 then CHASEMODE_FOLLOW
                      else CHASEMODE_STANDSTILL);
         fightMode = (if rawFightMode = 1 then FIGHTMODE_ATTACK else if rawFightMode = 2 then FIGHTMODE_BALANCED
                      else if rawFightMode = 3 then FIGHTMODE_DEFENSE else FIGHTMODE_ATTACK)
     in net_return (addGameTask (SetFightModes fightMode chaseMode safeMode) pg))))"

definition parseAttack :: "ProtocolGame \<Rightarrow> ProtocolGame net_reader" where
  "parseAttack pg = net_bind GetU32 (\<lambda>creatureId. net_return (addGameTask (SetAttackedCreature creatureId) pg))"

definition parseFollow :: "ProtocolGame \<Rightarrow> ProtocolGame net_reader" where
  "parseFollow pg = net_bind GetU32 (\<lambda>creatureId. net_return (addGameTask (FollowCreature creatureId) pg))"

subsection \<open>Parties\<close>

definition parseInviteToParty :: "ProtocolGame \<Rightarrow> ProtocolGame net_reader" where
  "parseInviteToParty pg = net_bind GetU32 (\<lambda>creatureId. net_return (addGameTask (InviteToParty creatureId) pg))"

definition parseJoinParty :: "ProtocolGame \<Rightarrow> ProtocolGame net_reader" where
  "parseJoinParty pg = net_bind GetU32 (\<lambda>creatureId. net_return (addGameTask (JoinParty creatureId) pg))"

definition parseRevokePartyInvitation :: "ProtocolGame \<Rightarrow> ProtocolGame net_reader" where
  "parseRevokePartyInvitation pg = net_bind GetU32 (\<lambda>creatureId. net_return (addGameTask (RevokePartyInvitation creatureId) pg))"

definition parsePassPartyLeadership :: "ProtocolGame \<Rightarrow> ProtocolGame net_reader" where
  "parsePassPartyLeadership pg = net_bind GetU32 (\<lambda>creatureId. net_return (addGameTask (PassPartyLeadership creatureId) pg))"

definition parseLeaveParty :: "ProtocolGame \<Rightarrow> ProtocolGame net_reader" where
  "parseLeaveParty pg = net_return (addGameTask LeaveParty pg)"

subsection \<open>Windows, trades and the list of friends\<close>

definition parseTextWindow :: "ProtocolGame \<Rightarrow> ProtocolGame net_reader" where
  "parseTextWindow pg = net_bind GetU32 (\<lambda>windowTextId. net_bind GetString (\<lambda>newText.
     net_return (addGameTask (WriteItem windowTextId newText) pg)))"

definition parseHouseWindow :: "ProtocolGame \<Rightarrow> ProtocolGame net_reader" where
  "parseHouseWindow pg = net_bind GetByte (\<lambda>doorId. net_bind GetU32 (\<lambda>i. net_bind GetString (\<lambda>msg.
     net_return (addGameTask (UpdateHouseWindow doorId i msg) pg))))"

definition parseRequestTrade :: "ProtocolGame \<Rightarrow> ProtocolGame net_reader" where
  "parseRequestTrade pg = net_bind GetPosition (\<lambda>pos. net_bind GetSpriteId (\<lambda>spriteId. net_bind GetByte (\<lambda>sp.
     net_bind GetU32 (\<lambda>playerId. net_return (addGameTask (RequestTrade pos sp playerId spriteId) pg)))))"

definition parseAcceptTrade :: "ProtocolGame \<Rightarrow> ProtocolGame net_reader" where
  "parseAcceptTrade pg = net_return (addGameTask AcceptTrade pg)"

definition parseLookInTrade :: "ProtocolGame \<Rightarrow> ProtocolGame net_reader" where
  "parseLookInTrade pg = net_bind GetByte (\<lambda>c. net_bind GetByte (\<lambda>index.
     net_return (addGameTask (LookInTrade (c = 0x01) index) pg)))"

definition parseCloseTrade :: "ProtocolGame \<Rightarrow> ProtocolGame net_reader" where
  "parseCloseTrade pg = net_return (addGameTask CloseTrade pg)"

definition parseAddVip :: "ProtocolGame \<Rightarrow> ProtocolGame net_reader" where
  "parseAddVip pg = net_bind GetString (\<lambda>name.
     net_return (if length name > 32 then pg else addGameTask (AddVip name) pg))"

definition parseRemoveVip :: "ProtocolGame \<Rightarrow> ProtocolGame net_reader" where
  "parseRemoveVip pg = net_bind GetU32 (\<lambda>guid. net_return (addGameTask (RemoveVip guid) pg))"

subsection \<open>Reports\<close>

definition parseBugReport :: "ProtocolGame \<Rightarrow> ProtocolGame net_reader" where
  "parseBugReport pg = net_bind GetString (\<lambda>report. net_return (addGameTask (BugReport report) pg))"

definition parseViolationWindow :: "ProtocolGame \<Rightarrow> ProtocolGame net_reader" where
  "parseViolationWindow pg = net_bind GetString (\<lambda>name. net_bind GetByte (\<lambda>reason. net_bind GetByte (\<lambda>action.
     net_bind GetString (\<lambda>comment. net_bind GetU16 (\<lambda>statementId. net_bind GetU16 (\<lambda>channelId. net_bind GetByte (\<lambda>b.
       net_return (addGameTask (ViolationWindow name reason comment action (b = 0x01)) pg))))))))"

text \<open>The report goes to a file, printed as a C string.\<close>

definition c_str :: "u8 list \<Rightarrow> u8 list" where
  "c_str s = takeWhile (\<lambda>c. c \<noteq> 0) s"

definition parseDebugAssert :: "ClientEnv \<Rightarrow> ProtocolGame \<Rightarrow> ProtocolGame net_reader" where
  "parseDebugAssert e pg =
     (if \<not> ce_save_assertions e then net_return pg
      else if m_debugAssertSent pg then net_return pg
      else net_bind GetString (\<lambda>assertLine. net_bind GetString (\<lambda>date. net_bind GetString (\<lambda>description.
        net_bind GetString (\<lambda>comment. net_return (pg\<lparr>m_debugAssertSent := True,
          pg_assertions := pg_assertions pg @ [c_str assertLine, c_str date, c_str description, c_str comment]\<rparr>))))))"

section \<open>The dispatch\<close>

text \<open>The cases of the switch; no entry is the branch of an unknown header.\<close>

definition request_parsers :: "ClientEnv \<Rightarrow> (u8 \<times> (ProtocolGame \<Rightarrow> ProtocolGame net_reader)) list" where
  "request_parsers e = [
     (0x14, parseLogout), (0x1E, parseRecievePing), (0x64, parseAutoWalk), (0x65, parseMove NORTH),
     (0x66, parseMove EAST), (0x67, parseMove SOUTH), (0x68, parseMove WEST), (0x69, parseStopAutoWalk),
     (0x6A, parseMove NORTHEAST), (0x6B, parseMove SOUTHEAST), (0x6C, parseMove SOUTHWEST),
     (0x6D, parseMove NORTHWEST), (0x6F, parseTurn NORTH), (0x70, parseTurn EAST), (0x71, parseTurn SOUTH),
     (0x72, parseTurn WEST), (0x78, parseThrow), (0x7D, parseRequestTrade), (0x7E, parseLookInTrade),
     (0x7F, parseAcceptTrade), (0x80, parseCloseTrade), (0x82, parseUseItem), (0x83, parseUseItemEx),
     (0x84, parseBattleWindow), (0x85, parseRotateItem), (0x87, parseCloseContainer), (0x88, parseUpArrowContainer),
     (0x89, parseTextWindow), (0x8A, parseHouseWindow), (0x8C, parseLookAt), (0x96, parseSay),
     (0x97, parseGetChannels), (0x98, parseOpenChannel), (0x99, parseCloseChannel), (0x9A, parseOpenPriv),
     (0x9B, parseProcessRuleViolation), (0x9C, parseCloseRuleViolation), (0x9D, parseCancelRuleViolation),
     (0xA0, parseFightModes), (0xA1, parseAttack), (0xA2, parseFollow), (0xA3, parseInviteToParty),
     (0xA4, parseJoinParty), (0xA5, parseRevokePartyInvitation), (0xA6, parsePassPartyLeadership),
     (0xA7, parseLeaveParty), (0xAA, parseCreatePrivateChannel), (0xAB, parseChannelInvite),
     (0xAC, parseChannelExclude), (0xBE, parseCancelMove), (0xC9, parseUpdateTile), (0xCA, parseUpdateContainer),
     (0xD2, parseRequestOutfit), (0xD3, parseSetOutfit e), (0xDC, parseAddVip), (0xDD, parseRemoveVip),
     (0xE6, parseBugReport), (0xE7, parseViolationWindow), (0xE8, parseDebugAssert e)]"

definition request_parser :: "ClientEnv \<Rightarrow> u8 \<Rightarrow> (ProtocolGame \<Rightarrow> ProtocolGame net_reader) option" where
  "request_parser e recvbyte = map_of (request_parsers e) recvbyte"

definition parse_request :: "ClientEnv \<Rightarrow> u8 \<Rightarrow> ProtocolGame \<Rightarrow> (ProtocolGame \<times> bool) net_reader" where
  "parse_request e recvbyte pg = (case request_parser e recvbyte of
     None \<Rightarrow> net_return (pg, True)
   | Some p \<Rightarrow> net_bind (p pg) (\<lambda>pg. net_return (pg, False)))"

definition parsePacket :: "ClientEnv \<Rightarrow> ProtocolGame \<Rightarrow> ProtocolGame net_reader" where
  "parsePacket e pg m =
     (if \<not> pg_player pg \<or> \<not> m_acceptPackets pg \<or> ce_shutdown e \<or> m_MsgSize m \<le> 0 then Some (pg, m)
      else let pg = pg\<lparr>m_now := ce_time e\<rparr> in
        net_bind GetByte (\<lambda>recvbyte.
          if (ce_removed e \<or> ce_health e \<le> 0) \<and> recvbyte \<noteq> 0x14 then net_return pg
          else net_bind (parse_request e recvbyte pg) (\<lambda>(pg, kickPlayer) m.
            let kickPlayer = (kickPlayer \<or> m_overrun m)
            in Some (if kickPlayer then pg\<lparr>pg_kicked := True\<rparr> else pg, m))) m)"

lemmas request_defs = parseLogout_def parseCreatePrivateChannel_def parseChannelInvite_def parseChannelExclude_def
  parseGetChannels_def parseOpenChannel_def parseCloseChannel_def parseOpenPriv_def parseProcessRuleViolation_def
  parseCloseRuleViolation_def parseCancelRuleViolation_def parseCancelMove_def parseRecievePing_def
  parseAutoWalk_def parseStopAutoWalk_def parseMove_def parseTurn_def parseRequestOutfit_def parseSetOutfit_def
  parseUseItem_def parseUseItemEx_def parseBattleWindow_def parseCloseContainer_def parseUpArrowContainer_def
  parseUpdateTile_def parseUpdateContainer_def parseThrow_def parseLookAt_def parseRotateItem_def parseSay_def
  parseFightModes_def parseAttack_def parseFollow_def parseInviteToParty_def parseJoinParty_def
  parseRevokePartyInvitation_def parsePassPartyLeadership_def parseLeaveParty_def parseTextWindow_def
  parseHouseWindow_def parseRequestTrade_def parseAcceptTrade_def parseLookInTrade_def parseCloseTrade_def
  parseAddVip_def parseRemoveVip_def parseBugReport_def parseViolationWindow_def parseDebugAssert_def Let_def

section \<open>Reading a request\<close>

named_theorems request_intros \<open>what the accessors read\<close>

text \<open>The reader \<open>r\<close> takes exactly the values \<open>vs\<close> from the front of the message and answers \<open>x\<close>.\<close>

definition reads_as :: "'a net_reader \<Rightarrow> msg_value list \<Rightarrow> 'a \<Rightarrow> bool" where
  "reads_as r vs x \<longleftrightarrow> (\<forall>m p rest. net_at m p (concat (map msg_bytes vs) @ rest) \<longrightarrow>
     (\<exists>m'. r m = Some (x, m') \<and> net_at m' (p + int (length (concat (map msg_bytes vs)))) rest \<and> m_overrun m' = m_overrun m))"

lemma reads_as_return [request_intros]: "x = y \<Longrightarrow> reads_as (net_return x) [] y"
  by (auto simp: reads_as_def net_return_def)

lemma reads_as_bind:
  assumes "reads_as r [v] x" "reads_as (k x) vs y"
  shows "reads_as (net_bind r k) (v # vs) y"
  unfolding reads_as_def
proof (intro allI impI)
  fix m p rest assume at: "net_at m p (concat (map msg_bytes (v # vs)) @ rest)"
  then have "net_at m p (concat (map msg_bytes [v]) @ concat (map msg_bytes vs) @ rest)" by simp
  with assms(1) obtain m1 where m1: "r m = Some (x, m1)"
    "net_at m1 (p + int (length (concat (map msg_bytes [v])))) (concat (map msg_bytes vs) @ rest)"
    "m_overrun m1 = m_overrun m" by (fastforce simp: reads_as_def)
  from assms(2) m1(2) obtain m2 where "k x m1 = Some (y, m2)"
    "net_at m2 (p + int (length (concat (map msg_bytes [v]))) + int (length (concat (map msg_bytes vs)))) rest"
    "m_overrun m2 = m_overrun m1" by (fastforce simp: reads_as_def)
  with m1 show "\<exists>m'. net_bind r k m = Some (y, m') \<and>
      net_at m' (p + int (length (concat (map msg_bytes (v # vs))))) rest \<and> m_overrun m' = m_overrun m"
    by (auto simp: net_bind_def add.assoc)
qed

lemma reads_as_get:
  assumes "readable v t" "\<And>m. msg_get t m = map_option (apfst f) (r m)" "f x = v" "inj f"
  shows "reads_as r [v] x"
  unfolding reads_as_def
proof (intro allI impI)
  fix m p rest assume "net_at m p (concat (map msg_bytes [v]) @ rest)"
  with msg_get_at [OF assms(1), of m p rest] obtain m' where "msg_get t m = Some (v, m')"
    "net_at m' (p + int (length (msg_bytes v))) rest" "m_overrun m' = m_overrun m" by auto
  with assms(2-4) show "\<exists>m'. r m = Some (x, m') \<and> net_at m' (p + int (length (concat (map msg_bytes [v])))) rest \<and>
      m_overrun m' = m_overrun m"
    by (auto simp: apfst_def map_prod_def inj_eq)
qed

lemma reads_as_values:
  "reads_as GetByte [MByte b] b" "reads_as GetU16 [MU16 w] w" "reads_as GetSpriteId [MU16 w] w" "reads_as GetU32 [MU32 d] d"
  "list_all (\<lambda>c. c \<noteq> 0) s \<Longrightarrow> length s \<le> 8192 \<Longrightarrow> reads_as GetString [MString s] s"
  "uint (pz q) < 256 \<Longrightarrow> reads_as GetPosition [MPosition q] q"
  by (rule reads_as_get [of _ TByte MByte], simp_all add: inj_def)
     (rule reads_as_get [of _ TU16 MU16], simp_all add: inj_def,
      rule reads_as_get [of _ TU16 MU16], simp_all add: inj_def GetSpriteId_def [abs_def],
      rule reads_as_get [of _ TU32 MU32], simp_all add: inj_def,
      rule reads_as_get [of _ TString MString], simp_all add: inj_def,
      rule reads_as_get [of _ TPosition MPosition], simp_all add: inj_def)

lemmas reads_as_fields [request_intros] = reads_as_values [THEN reads_as_bind]

section \<open>The requests as a client sends them\<close>

definition direction_byte :: "Direction \<Rightarrow> u8" where
  "direction_byte d = (case d of EAST \<Rightarrow> 1 | NORTHEAST \<Rightarrow> 2 | NORTH \<Rightarrow> 3 | NORTHWEST \<Rightarrow> 4 | WEST \<Rightarrow> 5
     | SOUTHWEST \<Rightarrow> 6 | SOUTH \<Rightarrow> 7 | SOUTHEAST \<Rightarrow> 8)"

definition move_byte :: "Direction \<Rightarrow> u8" where
  "move_byte d = (case d of NORTH \<Rightarrow> 0x65 | EAST \<Rightarrow> 0x66 | SOUTH \<Rightarrow> 0x67 | WEST \<Rightarrow> 0x68
     | NORTHEAST \<Rightarrow> 0x6A | SOUTHEAST \<Rightarrow> 0x6B | SOUTHWEST \<Rightarrow> 0x6C | NORTHWEST \<Rightarrow> 0x6D)"

definition turn_byte :: "Direction \<Rightarrow> u8" where
  "turn_byte d = (case d of EAST \<Rightarrow> 0x70 | SOUTH \<Rightarrow> 0x71 | WEST \<Rightarrow> 0x72 | _ \<Rightarrow> 0x6F)"

definition fight_byte :: "fightMode_t \<Rightarrow> u8" where
  "fight_byte f = (case f of FIGHTMODE_ATTACK \<Rightarrow> 1 | FIGHTMODE_BALANCED \<Rightarrow> 2 | FIGHTMODE_DEFENSE \<Rightarrow> 3)"

definition chase_byte :: "chaseMode_t \<Rightarrow> u8" where
  "chase_byte c = (case c of CHASEMODE_STANDSTILL \<Rightarrow> 0 | CHASEMODE_FOLLOW \<Rightarrow> 1)"

fun client_message :: "GameTask \<Rightarrow> u8 \<times> msg_value list" where
  "client_message LogoutTask = (0x14, [])"
| "client_message ReceivePing = (0x1E, [])"
| "client_message CreatePrivateChannel = (0xAA, [])"
| "client_message (ChannelInvite name) = (0xAB, [MString name])"
| "client_message (ChannelExclude name) = (0xAC, [MString name])"
| "client_message RequestChannels = (0x97, [])"
| "client_message (OpenChannel c) = (0x98, [MU16 c])"
| "client_message (CloseChannel c) = (0x99, [MU16 c])"
| "client_message (OpenPrivateChannel name) = (0x9A, [MString name])"
| "client_message (ProcessRuleViolation name) = (0x9B, [MString name])"
| "client_message (CloseRuleViolation name) = (0x9C, [MString name])"
| "client_message CancelRuleViolation = (0x9D, [])"
| "client_message CancelAttackAndFollow = (0xBE, [])"
| "client_message (AutoWalk path) = (0x64, MByte (word_of_nat (length path)) # map (\<lambda>d. MByte (direction_byte d)) path)"
| "client_message StopAutoWalk = (0x69, [])"
| "client_message (MovePlayer d) = (move_byte d, [])"
| "client_message (TurnPlayer d) = (turn_byte d, [])"
| "client_message RequestOutfit = (0xD2, [])"
| "client_message (ChangePlayerOutfit out) = (0xD3, [MU16 (ucast (lookType out)), MByte (ucast (lookHead out)),
     MByte (ucast (lookBody out)), MByte (ucast (lookLegs out)), MByte (ucast (lookFeet out))])"
| "client_message (UseItem pos sp index sprite) = (0x82, [MPosition pos, MU16 sprite, MByte sp, MByte index])"
| "client_message (UseItemEx pos sp sprite pos' sp' sprite') =
     (0x83, [MPosition pos, MU16 sprite, MByte sp, MPosition pos', MU16 sprite', MByte sp'])"
| "client_message (UseBattleWindow pos sp cid sprite) = (0x84, [MPosition pos, MU16 sprite, MByte sp, MU32 cid])"
| "client_message (CloseContainer cid) = (0x87, [MByte cid])"
| "client_message (MoveUpContainer cid) = (0x88, [MByte cid])"
| "client_message (UpdateContainer cid) = (0xCA, [MByte cid])"
| "client_message (MoveThing pos sprite sp pos' n) = (0x78, [MPosition pos, MU16 sprite, MByte sp, MPosition pos', MByte n])"
| "client_message (LookAt pos sprite sp) = (0x8C, [MPosition pos, MU16 sprite, MByte sp])"
| "client_message (Say channel ty receiver msg) = (0x96, MByte ty #
     (if speaks_to_player ty then [MString receiver] else if speaks_in_channel ty then [MU16 channel] else []) @ [MString msg])"
| "client_message (SetFightModes fight chase safe) =
     (0xA0, [MByte (fight_byte fight), MByte (chase_byte chase), MByte (if safe then 1 else 0)])"
| "client_message (SetAttackedCreature cid) = (0xA1, [MU32 cid])"
| "client_message (FollowCreature cid) = (0xA2, [MU32 cid])"
| "client_message (InviteToParty cid) = (0xA3, [MU32 cid])"
| "client_message (JoinParty cid) = (0xA4, [MU32 cid])"
| "client_message (RevokePartyInvitation cid) = (0xA5, [MU32 cid])"
| "client_message (PassPartyLeadership cid) = (0xA6, [MU32 cid])"
| "client_message LeaveParty = (0xA7, [])"
| "client_message (WriteItem win txt) = (0x89, [MU32 win, MString txt])"
| "client_message (UpdateHouseWindow door win txt) = (0x8A, [MByte door, MU32 win, MString txt])"
| "client_message (RequestTrade pos sp pid sprite) = (0x7D, [MPosition pos, MU16 sprite, MByte sp, MU32 pid])"
| "client_message AcceptTrade = (0x7F, [])"
| "client_message (LookInTrade counter index) = (0x7E, [MByte (if counter then 1 else 0), MByte index])"
| "client_message CloseTrade = (0x80, [])"
| "client_message (AddVip name) = (0xDC, [MString name])"
| "client_message (RemoveVip guid) = (0xDD, [MU32 guid])"
| "client_message (RotateItem pos sp sprite) = (0x85, [MPosition pos, MU16 sprite, MByte sp])"
| "client_message (BugReport report) = (0xE6, [MString report])"
| "client_message (ViolationWindow name reason comment action ip) =
     (0xE7, [MString name, MByte reason, MByte action, MString comment, MU16 0, MU16 0, MByte (if ip then 1 else 0)])"

text \<open>The requests that fit their fields: strings that a message carries, positions of the map, an outfit the
  player may wear, at most 255 steps.\<close>

definition wire_string :: "u8 list \<Rightarrow> bool" where
  "wire_string s \<longleftrightarrow> list_all (\<lambda>c. c \<noteq> 0) s \<and> length s \<le> 8192"

definition wire_pos :: "position \<Rightarrow> bool" where
  "wire_pos p \<longleftrightarrow> uint (pz p) < 256"

fun sendable :: "ClientEnv \<Rightarrow> ProtocolGame \<Rightarrow> GameTask \<Rightarrow> bool" where
  "sendable e pg ReceivePing = (ce_time e > m_nextPing pg)"
| "sendable e pg (ChannelInvite name) = wire_string name"
| "sendable e pg (ChannelExclude name) = wire_string name"
| "sendable e pg (OpenPrivateChannel name) = wire_string name"
| "sendable e pg (ProcessRuleViolation name) = wire_string name"
| "sendable e pg (CloseRuleViolation name) = wire_string name"
| "sendable e pg (AutoWalk path) = (length path < 256)"
| "sendable e pg (TurnPlayer d) = (d \<in> {NORTH, EAST, SOUTH, WEST})"
| "sendable e pg (ChangePlayerOutfit out) =
     (lookType out < 2 ^ 16 \<and> lookTypeEx out = 0 \<and> may_wear e (ucast (lookType out)) \<and> lookHead out < 256 \<and> lookBody out < 256
      \<and> lookLegs out < 256 \<and> lookFeet out < 256)"
| "sendable e pg (UseItem pos sp index sprite) = wire_pos pos"
| "sendable e pg (UseItemEx pos sp sprite pos' sp' sprite') = (wire_pos pos \<and> wire_pos pos')"
| "sendable e pg (UseBattleWindow pos sp cid sprite) = wire_pos pos"
| "sendable e pg (MoveThing pos sprite sp pos' n) = (wire_pos pos \<and> wire_pos pos' \<and> pos \<noteq> pos')"
| "sendable e pg (LookAt pos sprite sp) = wire_pos pos"
| "sendable e pg (Say channel ty receiver msg) =
     (wire_string msg \<and> (if speaks_to_player ty then wire_string receiver else receiver = [])
      \<and> (speaks_to_player ty \<or> \<not> speaks_in_channel ty \<longrightarrow> channel = 0))"
| "sendable e pg (WriteItem win txt) = wire_string txt"
| "sendable e pg (UpdateHouseWindow door win txt) = wire_string txt"
| "sendable e pg (RequestTrade pos sp pid sprite) = wire_pos pos"
| "sendable e pg (AddVip name) = (wire_string name \<and> length name \<le> 32)"
| "sendable e pg (RotateItem pos sp sprite) = wire_pos pos"
| "sendable e pg (BugReport report) = wire_string report"
| "sendable e pg (ViolationWindow name reason comment action ip) = (wire_string name \<and> wire_string comment)"
| "sendable e pg _ = True"


lemma direction_byte_read [simp]: "raw_direction (direction_byte d) = Some d"
  by (cases d) (simp_all add: raw_direction_def direction_byte_def)

lemma reads_as_path:
  "reads_as (read_path (length path) acc) (map (\<lambda>d. MByte (direction_byte d)) path) (acc @ path)"
proof (induction path arbitrary: acc)
  case Nil
  show ?case by (simp add: request_intros)
next
  case (Cons d path)
  have "reads_as (net_bind GetByte (\<lambda>rawdir. read_path (length path) (case raw_direction rawdir of None \<Rightarrow> acc | Some dir \<Rightarrow> acc @ [dir])))
      (MByte (direction_byte d) # map (\<lambda>d. MByte (direction_byte d)) path) (acc @ d # path)"
    using Cons.IH [of "acc @ [d]"] by (intro request_intros) simp
  then show ?case by simp
qed

lemma reads_as_bind_many:
  assumes "reads_as r us x" "reads_as (k x) vs y"
  shows "reads_as (net_bind r k) (us @ vs) y"
  unfolding reads_as_def
proof (intro allI impI)
  fix m p rest assume "net_at m p (concat (map msg_bytes (us @ vs)) @ rest)"
  then have "net_at m p (concat (map msg_bytes us) @ concat (map msg_bytes vs) @ rest)" by simp
  with assms(1) obtain m1 where m1: "r m = Some (x, m1)"
    "net_at m1 (p + int (length (concat (map msg_bytes us)))) (concat (map msg_bytes vs) @ rest)"
    "m_overrun m1 = m_overrun m" unfolding reads_as_def by blast
  from assms(2) m1(2) obtain m2 where "k x m1 = Some (y, m2)"
    "net_at m2 (p + int (length (concat (map msg_bytes us))) + int (length (concat (map msg_bytes vs)))) rest"
    "m_overrun m2 = m_overrun m1" unfolding reads_as_def by blast
  with m1 show "\<exists>m'. net_bind r k m = Some (y, m') \<and>
      net_at m' (p + int (length (concat (map msg_bytes (us @ vs))))) rest \<and> m_overrun m' = m_overrun m"
    by (auto simp: net_bind_def add.assoc)
qed

text \<open>The task is queued at the end, whatever else changes in the protocol object.\<close>

definition queues :: "GameTask \<Rightarrow> ProtocolGame \<Rightarrow> ProtocolGame \<Rightarrow> bool" where
  "queues t pg pg' \<longleftrightarrow> pg_tasks pg' = pg_tasks pg @ [t] \<and> pg_kicked pg' = pg_kicked pg"

lemma addGameTask_queues: "m_messageCount pg < 5 \<Longrightarrow> queues t pg (addGameTask t pg)"
  by (simp add: queues_def addGameTask_def add_task_def)

lemma ucast_small:
  "w < 256 \<Longrightarrow> ucast (ucast (w :: u32) :: u8) = w" "w < 2 ^ 16 \<Longrightarrow> ucast (ucast (w :: u32) :: u16) = w"
  by (simp_all add: word_uint_eq_iff unsigned_ucast_eq unsigned_take_bit_eq take_bit_int_eq_self word_less_def)

lemma request_parsers:
  "request_parser e (move_byte d) = Some (parseMove d)"
  "d \<in> {NORTH, EAST, SOUTH, WEST} \<Longrightarrow> request_parser e (turn_byte d) = Some (parseTurn d)"
  by (cases d; simp add: request_parser_def request_parsers_def move_byte_def)
     (cases d; simp add: request_parser_def request_parsers_def turn_byte_def)

lemma request_read:
  assumes "sendable e pg t" "client_message t = (h, vs)" "m_messageCount pg < 5" "m_now pg = ce_time e"
  shows "\<exists>f pg'. request_parser e h = Some f \<and> reads_as (f pg) vs pg' \<and> queues t pg pg'"
proof -
  let ?q = "addGameTask t pg"
  have q: "queues t pg ?q" by (rule addGameTask_queues) fact
  have l: "queues t pg (add_task t pg)" "queues t pg ((add_task t pg)\<lparr>m_nextPing := n\<rparr>)" for n
    by (simp_all add: queues_def add_task_def)
  have via: ?thesis if "request_parser e h = Some f" "reads_as (f pg) vs ?q" for f
    using that q by blast
  have via': ?thesis if "case request_parser e h of None \<Rightarrow> False | Some f \<Rightarrow> reads_as (f pg) vs ?q"
    using that via by (auto split: option.splits)
  show ?thesis
  proof (cases t)
    case LogoutTask
    then show ?thesis using assms(2) l
      by (auto simp: request_parser_def request_parsers_def parseLogout_def intro!: exI [of _ "add_task t pg"] request_intros)
  next
    case ReceivePing
    then have "reads_as (parseRecievePing pg) vs ((add_task ReceivePing pg)\<lparr>m_nextPing := m_now pg + 2000\<rparr>)"
      using assms by (auto simp: parseRecievePing_def intro!: request_intros)
    then show ?thesis using ReceivePing assms(2) l by (auto simp: request_parser_def request_parsers_def)
  next
    case (AutoWalk path)
    have "unat (word_of_nat (length path) :: u8) = length path"
      using assms(1) AutoWalk by (intro unat_of_nat_eq) simp
    then have "reads_as (net_bind (read_path (unat (word_of_nat (length path) :: u8)) []) (\<lambda>path. net_return (addGameTask (AutoWalk path) pg)))
        (map (\<lambda>d. MByte (direction_byte d)) path @ []) ?q"
      using reads_as_path [of path "[]"] AutoWalk by (intro reads_as_bind_many request_intros) simp_all
    then show ?thesis using AutoWalk assms(2)
      by (intro via [of parseAutoWalk]) (auto simp: request_parser_def request_parsers_def parseAutoWalk_def intro!: request_intros)
  next
    case (MovePlayer d)
    then show ?thesis using assms(2)
      by (intro via [of "parseMove d"]) (auto simp: request_parsers parseMove_def intro!: request_intros)
  next
    case (TurnPlayer d)
    then show ?thesis using assms
      by (intro via [of "parseTurn d"]) (auto simp: request_parsers parseTurn_def intro!: request_intros)
  next
    case (ChangePlayerOutfit out)
    then show ?thesis using assms
      by (intro via [of "parseSetOutfit e"]; cases out)
         (auto simp: request_parser_def request_parsers_def parseSetOutfit_def default_outfit_def ucast_small intro!: request_intros)
  qed ((rule via', insert assms(1,2), auto simp: request_parser_def request_parsers_def request_defs wire_string_def wire_pos_def
        fight_byte_def chase_byte_def split: fightMode_t.splits chaseMode_t.splits if_splits intro!: request_intros; fail)[1])+
qed

text \<open>
  C8. Round trip of a request: when a living player of a running game, whose protocol accepts packets,
  sends a request with fields that fit, the packet is taken apart into exactly that request, which is queued
  as one task with its arguments in their places; the player is not kicked.
\<close>
theorem requests_roundtrip:
  assumes "pg_player pg" "m_acceptPackets pg" "m_messageCount pg < 5" "\<not> ce_shutdown e" "\<not> ce_removed e" "0 < ce_health e"
    and "sendable e pg t" "client_message t = (h, vs)"
    and "net_at m p (concat (map msg_bytes (MByte h # vs)))" "0 < m_MsgSize m" "\<not> m_overrun m"
  shows "\<exists>pg' m'. parsePacket e pg m = Some (pg', m') \<and> pg_tasks pg' = pg_tasks pg @ [t] \<and> pg_kicked pg' = pg_kicked pg"
proof -
  let ?pg = "pg\<lparr>m_now := ce_time e\<rparr>"
  have "sendable e ?pg t" using assms(7) by (cases t) simp_all
  with assms(3,8) obtain f pg' where f: "request_parser e h = Some f" "reads_as (f ?pg) vs pg'" "queues t ?pg pg'"
    using request_read [of e ?pg t h vs] by auto
  have "reads_as (net_bind (f ?pg) (\<lambda>pg. net_return (pg, False))) (vs @ []) (pg', False)"
    using f(2) by (rule reads_as_bind_many) (intro request_intros, simp)
  then have r: "reads_as (parse_request e h ?pg) vs (pg', False)"
    by (simp add: parse_request_def [abs_def] f(1))
  have "net_at m p (msg_bytes (MByte h) @ concat (map msg_bytes vs) @ [])" using assms(9) by simp
  then obtain m1 where m1: "GetByte m = Some (h, m1)" "net_at m1 (p + 1) (concat (map msg_bytes vs) @ [])" "\<not> m_overrun m1"
    using GetByte_at [of m p h] assms(11) by auto
  from r m1(2,3) obtain m2 where m2: "parse_request e h ?pg m1 = Some ((pg', False), m2)" "\<not> m_overrun m2"
    unfolding reads_as_def by blast
  have "parsePacket e pg m = Some (pg', m2)"
    using assms(1,2,4-6,10) m1(1) m2 by (simp add: parsePacket_def net_bind_def Let_def)
  with f(3) show ?thesis by (auto simp: queues_def)
qed

section \<open>Every packet\<close>

definition all_results :: "'a net_reader \<Rightarrow> ('a \<Rightarrow> bool) \<Rightarrow> bool" where
  "all_results r P \<longleftrightarrow> (\<forall>m x m'. r m = Some (x, m') \<longrightarrow> P x)"

lemma all_results_return: "P x \<Longrightarrow> all_results (net_return x) P"
  by (simp add: all_results_def net_return_def)

lemma all_results_bind: "(\<And>x. all_results (k x) P) \<Longrightarrow> all_results (net_bind r k) P"
  by (auto simp: all_results_def net_bind_def split: option.splits)

lemma all_results_if: "all_results a P \<Longrightarrow> all_results b P \<Longrightarrow> all_results (if c then a else b) P"
  by simp

lemmas all_results_intros = all_results_return all_results_bind all_results_if

text \<open>What one request may change.\<close>

definition one_request :: "ProtocolGame \<Rightarrow> ProtocolGame \<Rightarrow> bool" where
  "one_request pg pg' \<longleftrightarrow> (\<exists>ts. pg_tasks pg' = pg_tasks pg @ ts \<and> length ts \<le> 1) \<and>
     pg_player pg' = pg_player pg \<and> m_acceptPackets pg' = m_acceptPackets pg \<and> m_now pg' = m_now pg \<and>
     m_messageCount pg' = m_messageCount pg \<and> m_rejectCount pg' = m_rejectCount pg \<and> pg_kicked pg' = pg_kicked pg"

lemma one_request_intros:
  "one_request pg pg"
  "one_request pg (add_task t pg)"
  "one_request pg ((add_task t pg)\<lparr>m_nextPing := n\<rparr>)"
  "m_messageCount pg < 5 \<Longrightarrow> one_request pg (addGameTask t pg)"
  "one_request pg (pg\<lparr>m_debugAssertSent := True, pg_assertions := as\<rparr>)"
  by (simp_all add: one_request_def add_task_def addGameTask_def)

lemma request_parser_in: "request_parser e h = Some f \<Longrightarrow> (h, f) \<in> set (request_parsers e)"
  unfolding request_parser_def by (rule map_of_SomeD)

lemma parser_one_request:
  assumes "request_parser e h = Some f" "m_messageCount pg < 5"
  shows "all_results (f pg) (one_request pg)"
proof -
  have "list_all (\<lambda>(h, f). all_results (f pg) (one_request pg)) (request_parsers e)"
    unfolding request_parsers_def list.pred_inject prod.case
    by (intro conjI; (simp only: request_defs)?; (intro all_results_intros)?; (simp add: one_request_intros assms(2))?)
  with request_parser_in [OF assms(1)] show ?thesis by (auto simp: list_all_iff)
qed

lemma logout_request: "all_results (parseLogout pg) (\<lambda>pg'. pg' = add_task LogoutTask pg)"
  by (auto simp: parseLogout_def intro!: all_results_intros)

definition listens :: "ClientEnv \<Rightarrow> ProtocolGame \<Rightarrow> NetworkMessage \<Rightarrow> bool" where
  "listens e pg m \<longleftrightarrow> pg_player pg \<and> m_acceptPackets pg \<and> \<not> ce_shutdown e \<and> 0 < m_MsgSize m"

lemma parsePacket_deaf: "\<not> listens e pg m \<Longrightarrow> parsePacket e pg m = Some (pg, m)"
  by (auto simp: parsePacket_def listens_def)

lemma parsePacket_listens:
  assumes "listens e pg m" "GetByte m = Some (h, m1)"
  shows "parsePacket e pg m =
    (if (ce_removed e \<or> ce_health e \<le> 0) \<and> h \<noteq> 0x14 then Some (pg\<lparr>m_now := ce_time e\<rparr>, m1)
     else case parse_request e h (pg\<lparr>m_now := ce_time e\<rparr>) m1 of None \<Rightarrow> None
       | Some ((pg', bad), m2) \<Rightarrow> Some (if bad \<or> m_overrun m2 then pg'\<lparr>pg_kicked := True\<rparr> else pg', m2))"
proof -
  have "\<not> (\<not> pg_player pg \<or> \<not> m_acceptPackets pg \<or> ce_shutdown e \<or> m_MsgSize m \<le> 0)"
    using assms(1) by (auto simp: listens_def)
  then show ?thesis unfolding parsePacket_def Let_def net_bind_def net_return_def assms(2)
    by (auto split: option.splits)
qed

lemma parse_request_one:
  assumes "m_messageCount pg < 5" "parse_request e h pg m = Some ((pg', bad), m')"
  shows "one_request pg pg'" "bad \<longleftrightarrow> request_parser e h = None"
    "h = 0x14 \<Longrightarrow> pg' = add_task LogoutTask pg"
proof -
  show "one_request pg pg'"
  proof (cases "request_parser e h")
    case None
    with assms(2) show ?thesis by (simp add: parse_request_def net_return_def one_request_intros)
  next
    case (Some f)
    with assms(2) obtain m1 where "f pg m = Some (pg', m1)"
      by (auto simp: parse_request_def net_bind_def net_return_def split: option.splits)
    with parser_one_request [OF Some assms(1)] show ?thesis by (auto simp: all_results_def)
  qed
  show "bad \<longleftrightarrow> request_parser e h = None"
    using assms(2) by (auto simp: parse_request_def net_bind_def net_return_def split: option.splits)
  show "pg' = add_task LogoutTask pg" if "h = 0x14"
    using assms(2) that by (simp add: parse_request_def request_parser_def request_parsers_def parseLogout_def
        net_bind_def net_return_def)
qed

text \<open>
  One packet, one request: whatever a packet holds, it queues at most one task, and never one that the
  counter of messages refuses; a protocol without a player, or one that does not yet accept packets, a shut
  down server and an empty packet change nothing; a dead or removed player can only log out; and the player is
  kicked exactly for an unknown header or for a field read past the end of the buffer.
\<close>
theorem one_task_per_packet:
  assumes "m_messageCount pg < 5" "parsePacket e pg m = Some (pg', m')"
  shows "(\<exists>ts. pg_tasks pg' = pg_tasks pg @ ts \<and> length ts \<le> 1 \<and>
        (ce_removed e \<or> ce_health e \<le> 0 \<longrightarrow> set ts \<subseteq> {LogoutTask})) \<and>
    m_messageCount pg' = m_messageCount pg \<and> m_rejectCount pg' = m_rejectCount pg \<and>
    (\<not> listens e pg m \<longrightarrow> pg' = pg) \<and>
    (pg_kicked pg' \<longleftrightarrow> pg_kicked pg \<or> listens e pg m \<and>
      (\<exists>h m1. GetByte m = Some (h, m1) \<and> (ce_removed e \<or> ce_health e \<le> 0 \<longrightarrow> h = 0x14) \<and>
        (request_parser e h = None \<or> m_overrun m')))"
proof (cases "listens e pg m")
  case False
  with assms(2) show ?thesis by (auto simp: parsePacket_deaf)
next
  case True
  from assms(2) True obtain h m1 where g: "GetByte m = Some (h, m1)"
    by (cases "GetByte m") (auto simp: parsePacket_def listens_def net_bind_def)
  let ?pg = "pg\<lparr>m_now := ce_time e\<rparr>" and ?dead = "(ce_removed e \<or> ce_health e \<le> 0) \<and> h \<noteq> 0x14"
  show ?thesis
  proof (cases ?dead)
    case True
    with assms(2) parsePacket_listens [OF \<open>listens e pg m\<close> g] g have "pg' = ?pg" by simp
    with True g \<open>listens e pg m\<close> show ?thesis by simp
  next
    case False
    with assms(2) parsePacket_listens [OF True g] obtain q bad where
      q: "parse_request e h ?pg m1 = Some ((q, bad), m')"
      "pg' = (if bad \<or> m_overrun m' then q\<lparr>pg_kicked := True\<rparr> else q)"
      by (auto simp del: split_paired_Ex split: option.splits)
    have c: "m_messageCount ?pg < 5" using assms(1) by simp
    note one = parse_request_one [OF c q(1)]
    from one(1) obtain ts where ts: "pg_tasks q = pg_tasks pg @ ts" "length ts \<le> 1"
      by (auto simp: one_request_def)
    have "set ts \<subseteq> {LogoutTask}" if "ce_removed e \<or> ce_health e \<le> 0"
      using that False one(3) ts(1) by (auto simp: add_task_def)
    with ts q(2) one(1) have "(\<exists>ts. pg_tasks pg' = pg_tasks pg @ ts \<and> length ts \<le> 1 \<and>
        (ce_removed e \<or> ce_health e \<le> 0 \<longrightarrow> set ts \<subseteq> {LogoutTask})) \<and>
      m_messageCount pg' = m_messageCount pg \<and> m_rejectCount pg' = m_rejectCount pg"
      by (auto simp: one_request_def)
    moreover have "pg_kicked pg' \<longleftrightarrow> pg_kicked pg \<or> request_parser e h = None \<or> m_overrun m'"
      using q(2) one(1,2) by (auto simp: one_request_def)
    ultimately show ?thesis using True False g by auto
  qed
qed

section \<open>Reading inside the array\<close>

text \<open>\<open>moves_on n r\<close>: with \<open>n\<close> bytes left the reader \<open>r\<close> succeeds and moves by at most \<open>n\<close>;
  \<open>stays_inside n r\<close>: with \<open>n\<close> bytes left it succeeds and ends inside the array.\<close>

definition moves_on :: "nat \<Rightarrow> 'a net_reader \<Rightarrow> bool" where
  "moves_on n r \<longleftrightarrow> (\<forall>m. net_inv m \<and> m_ReadPos m + int n \<le> NETWORKMESSAGE_MAXSIZE \<longrightarrow>
     (\<exists>x m'. r m = Some (x, m') \<and> net_inv m' \<and> m_ReadPos m' \<le> m_ReadPos m + int n))"

definition stays_inside :: "nat \<Rightarrow> 'a net_reader \<Rightarrow> bool" where
  "stays_inside n r \<longleftrightarrow> (\<forall>m. net_inv m \<and> m_ReadPos m + int n \<le> NETWORKMESSAGE_MAXSIZE \<longrightarrow>
     (\<exists>x m'. r m = Some (x, m') \<and> net_inv m' \<and> m_ReadPos m' \<le> NETWORKMESSAGE_MAXSIZE))"

lemma moves_on_inside: "moves_on n r \<Longrightarrow> stays_inside n r"
  by (fastforce simp: moves_on_def stays_inside_def)

lemma inside_mono: "stays_inside n r \<Longrightarrow> n \<le> n' \<Longrightarrow> stays_inside n' r"
  by (auto simp: stays_inside_def)

lemma moves_on_mono:
  assumes "moves_on n r" "n \<le> n'"
  shows "moves_on n' r"
  unfolding moves_on_def
proof (intro allI impI, elim conjE)
  fix m assume m: "net_inv m" "m_ReadPos m + int n' \<le> NETWORKMESSAGE_MAXSIZE"
  then have "m_ReadPos m + int n \<le> NETWORKMESSAGE_MAXSIZE" using assms(2) by linarith
  with assms(1) m(1) obtain x m' where "r m = Some (x, m')" "net_inv m'" "m_ReadPos m' \<le> m_ReadPos m + int n"
    unfolding moves_on_def by blast
  then show "\<exists>x m'. r m = Some (x, m') \<and> net_inv m' \<and> m_ReadPos m' \<le> m_ReadPos m + int n'"
    using assms(2) by fastforce
qed

lemma moves_on_bind:
  assumes "moves_on n r" "\<And>x. moves_on k (g x)"
  shows "moves_on (n + k) (net_bind r g)"
  unfolding moves_on_def
proof (intro allI impI, elim conjE)
  fix m assume m: "net_inv m" "m_ReadPos m + int (n + k) \<le> NETWORKMESSAGE_MAXSIZE"
  then obtain x m1 where m1: "r m = Some (x, m1)" "net_inv m1" "m_ReadPos m1 \<le> m_ReadPos m + int n"
    using assms(1) unfolding moves_on_def by fastforce
  moreover have "m_ReadPos m1 + int k \<le> NETWORKMESSAGE_MAXSIZE" using m(2) m1(3) by simp
  ultimately obtain y m2 where "g x m1 = Some (y, m2)" "net_inv m2" "m_ReadPos m2 \<le> m_ReadPos m1 + int k"
    using assms(2) [of x] unfolding moves_on_def by blast
  with m1 show "\<exists>x m'. net_bind r g m = Some (x, m') \<and> net_inv m' \<and> m_ReadPos m' \<le> m_ReadPos m + int (n + k)"
    by (auto simp: net_bind_def)
qed

lemma inside_bind:
  assumes "moves_on n r" "\<And>x. stays_inside k (g x)"
  shows "stays_inside (n + k) (net_bind r g)"
  unfolding stays_inside_def
proof (intro allI impI, elim conjE)
  fix m assume m: "net_inv m" "m_ReadPos m + int (n + k) \<le> NETWORKMESSAGE_MAXSIZE"
  then obtain x m1 where m1: "r m = Some (x, m1)" "net_inv m1" "m_ReadPos m1 \<le> m_ReadPos m + int n"
    using assms(1) unfolding moves_on_def by fastforce
  moreover have "m_ReadPos m1 + int k \<le> NETWORKMESSAGE_MAXSIZE" using m(2) m1(3) by simp
  ultimately show "\<exists>x m'. net_bind r g m = Some (x, m') \<and> net_inv m' \<and> m_ReadPos m' \<le> NETWORKMESSAGE_MAXSIZE"
    using assms(2) [of x] by (simp add: net_bind_def stays_inside_def)
qed

text \<open>A string may end anywhere in the array, so that only readers that check for the end can follow it.\<close>

lemma inside_bind_any:
  assumes "stays_inside n r" "\<And>x. stays_inside 0 (g x)"
  shows "stays_inside n (net_bind r g)"
  unfolding stays_inside_def
proof (intro allI impI, elim conjE)
  fix m assume m: "net_inv m" "m_ReadPos m + int n \<le> NETWORKMESSAGE_MAXSIZE"
  then obtain x m1 where "r m = Some (x, m1)" "net_inv m1" "m_ReadPos m1 \<le> NETWORKMESSAGE_MAXSIZE"
    using assms(1) unfolding stays_inside_def by blast
  with assms(2) [of x] show "\<exists>x m'. net_bind r g m = Some (x, m') \<and> net_inv m' \<and> m_ReadPos m' \<le> NETWORKMESSAGE_MAXSIZE"
    by (simp add: net_bind_def stays_inside_def)
qed

lemma GetPosition_bind:
  "GetPosition = net_bind GetU16 (\<lambda>x. net_bind GetU16 (\<lambda>y. net_bind GetByte (\<lambda>z. net_return (Position x y (ucast z)))))"
  by (rule ext) (simp add: GetPosition_def net_bind_def net_return_def split: option.splits)

lemma moves_on_fields:
  "moves_on 0 (net_return x)" "moves_on 1 GetByte" "moves_on 2 GetU16" "moves_on 2 GetSpriteId" "moves_on 4 GetU32"
proof -
  show "moves_on 0 (net_return x)" by (simp add: moves_on_def net_return_def)
  show "moves_on 1 GetByte"
    unfolding moves_on_def GetByte_def using read_at_inv [of _ 1] by (fastforce simp: net_inv_def)
  show u: "moves_on 2 GetU16"
    unfolding moves_on_def GetU16_def expectRead_def using read_at_inv [of _ 2] by (fastforce simp: net_inv_def)
  then show "moves_on 2 GetSpriteId" by (simp add: GetSpriteId_def [abs_def])
  show "moves_on 4 GetU32"
    unfolding moves_on_def GetU32_def expectRead_def using read_at_inv [of _ 4] by (fastforce simp: net_inv_def)
qed

lemma moves_on_GetPosition: "moves_on 5 GetPosition"
proof -
  have "moves_on (2 + (2 + (1 + 0))) GetPosition"
    unfolding GetPosition_bind by (intro moves_on_bind moves_on_fields)
  then show ?thesis by simp
qed

lemma inside_checked: "stays_inside 0 GetU16" "stays_inside 0 GetU32" "stays_inside 0 GetString"
proof -
  show u: "stays_inside 0 GetU16"
    unfolding stays_inside_def GetU16_def expectRead_def using read_at_inv [of _ 2] by (fastforce simp: net_inv_def)
  show "stays_inside 0 GetU32"
    unfolding stays_inside_def GetU32_def expectRead_def using read_at_inv [of _ 4] by (fastforce simp: net_inv_def)
  have "stays_inside 0 (get_chars n)" for n
    unfolding stays_inside_def
  proof (intro allI impI, elim conjE)
    fix m assume m: "net_inv m" "m_ReadPos m + int 0 \<le> NETWORKMESSAGE_MAXSIZE"
    show "\<exists>x m'. get_chars n m = Some (x, m') \<and> net_inv m' \<and> m_ReadPos m' \<le> NETWORKMESSAGE_MAXSIZE"
      using get_chars_total [OF m(1), of n] m by (auto simp: get_chars_def split: if_splits)
  qed
  moreover have "GetString = net_bind GetU16 get_chars"
    by (rule ext) (simp add: GetString_def net_bind_def)
  ultimately show "stays_inside 0 GetString" by (metis inside_bind_any [OF u])
qed


lemma moves_on_path: "moves_on n (read_path n path)"
proof (induction n arbitrary: path)
  case 0
  show ?case by (simp add: moves_on_fields)
next
  case (Suc n)
  have "moves_on (1 + n) (read_path (Suc n) path)"
    unfolding read_path.simps by (intro moves_on_bind moves_on_fields Suc)
  then show ?case by simp
qed

lemma inside_AutoWalk: "stays_inside 256 (parseAutoWalk pg)"
proof -
  have "moves_on 255 (read_path (unat (n :: u8)) [])" for n
    using unat_lt2p [of n] by (intro moves_on_mono [OF moves_on_path]) simp
  then have "stays_inside (1 + (255 + 0)) (parseAutoWalk pg)"
    unfolding parseAutoWalk_def by (intro inside_bind moves_on_fields moves_on_inside)
  then show ?thesis by simp
qed

text \<open>The bytes a reader of fixed fields needs are the sum of the widths.\<close>

lemma inside_fields:
  "stays_inside n (net_return x)"
  "1 \<le> n \<Longrightarrow> (\<And>x. stays_inside (n - 1) (f1 x)) \<Longrightarrow> stays_inside n (net_bind GetByte f1)"
  "2 \<le> n \<Longrightarrow> (\<And>x. stays_inside (n - 2) (f2 x)) \<Longrightarrow> stays_inside n (net_bind GetSpriteId f2)"
  "5 \<le> n \<Longrightarrow> (\<And>x. stays_inside (n - 5) (f5 x)) \<Longrightarrow> stays_inside n (net_bind GetPosition f5)"
  "2 \<le> n \<Longrightarrow> (\<And>x. stays_inside (n - 2) (f3 x)) \<Longrightarrow> stays_inside n (net_bind GetU16 f3)"
  "4 \<le> n \<Longrightarrow> (\<And>x. stays_inside (n - 4) (f4 x)) \<Longrightarrow> stays_inside n (net_bind GetU32 f4)"
  "(\<And>x. stays_inside 0 (f0 x)) \<Longrightarrow> stays_inside n (net_bind GetString f0)"
proof -
  show "stays_inside n (net_return x)" by (rule inside_mono [OF moves_on_inside [OF moves_on_fields(1)]]) simp
  show "1 \<le> n \<Longrightarrow> (\<And>x. stays_inside (n - 1) (f1 x)) \<Longrightarrow> stays_inside n (net_bind GetByte f1)"
    using inside_bind [OF moves_on_fields(2), of "n - 1" f1] by (simp only: le_add_diff_inverse)
  show "2 \<le> n \<Longrightarrow> (\<And>x. stays_inside (n - 2) (f2 x)) \<Longrightarrow> stays_inside n (net_bind GetSpriteId f2)"
    using inside_bind [OF moves_on_fields(4), of "n - 2" f2] by (simp only: le_add_diff_inverse)
  show "5 \<le> n \<Longrightarrow> (\<And>x. stays_inside (n - 5) (f5 x)) \<Longrightarrow> stays_inside n (net_bind GetPosition f5)"
    using inside_bind [OF moves_on_GetPosition, of "n - 5" f5] by (simp only: le_add_diff_inverse)
  show "2 \<le> n \<Longrightarrow> (\<And>x. stays_inside (n - 2) (f3 x)) \<Longrightarrow> stays_inside n (net_bind GetU16 f3)"
    using inside_bind [OF moves_on_fields(3), of "n - 2" f3] by (simp only: le_add_diff_inverse)
  show "4 \<le> n \<Longrightarrow> (\<And>x. stays_inside (n - 4) (f4 x)) \<Longrightarrow> stays_inside n (net_bind GetU32 f4)"
    using inside_bind [OF moves_on_fields(5), of "n - 4" f4] by (simp only: le_add_diff_inverse)
  show "(\<And>x. stays_inside 0 (f0 x)) \<Longrightarrow> stays_inside n (net_bind GetString f0)"
    using inside_mono [OF inside_bind_any [OF inside_checked(3), of f0], of n] by simp
qed

lemma inside_if: "stays_inside n a \<Longrightarrow> stays_inside n b \<Longrightarrow> stays_inside n (if c then a else b)"
  by simp

lemma parser_inside:
  assumes "request_parser e h = Some f" "h \<noteq> 0xE7"
  shows "stays_inside 256 (f pg)"
proof -
  have "list_all (\<lambda>(h, f). h \<noteq> 0xE7 \<longrightarrow> stays_inside 256 (f pg)) (request_parsers e)"
    unfolding request_parsers_def list.pred_inject prod.case
    by (intro conjI impI inside_AutoWalk; (simp only: request_defs)?; (intro inside_fields inside_if)?; simp)
  with request_parser_in [OF assms(1)] assms(2) show ?thesis by (auto simp: list_all_iff)
qed


text \<open>The violation window has fields of fixed width behind a string, read without a check.\<close>

definition violation_rest :: "ProtocolGame \<Rightarrow> u8 list \<Rightarrow> ProtocolGame net_reader" where
  "violation_rest pg name = net_bind GetByte (\<lambda>reason. net_bind GetByte (\<lambda>action.
     net_bind GetString (\<lambda>comment. net_bind GetU16 (\<lambda>statementId. net_bind GetU16 (\<lambda>channelId. net_bind GetByte (\<lambda>b.
       net_return (addGameTask (ViolationWindow name reason comment action (b = 0x01)) pg)))))))"

lemma parseViolationWindow_rest: "parseViolationWindow pg = net_bind GetString (violation_rest pg)"
  by (simp add: parseViolationWindow_def violation_rest_def [abs_def])

text \<open>The checked accessors never reach the end of the array from a position before it.\<close>

definition keeps_below :: "'a net_reader \<Rightarrow> bool" where
  "keeps_below r \<longleftrightarrow> (\<forall>m. net_inv m \<and> m_ReadPos m < NETWORKMESSAGE_MAXSIZE \<longrightarrow>
     (\<exists>x m'. r m = Some (x, m') \<and> net_inv m' \<and> m_ReadPos m' < NETWORKMESSAGE_MAXSIZE))"

lemma below_bind: "keeps_below r \<Longrightarrow> (\<And>x. keeps_below (g x)) \<Longrightarrow> keeps_below (net_bind r g)"
  unfolding keeps_below_def net_bind_def by (fastforce split: option.splits)

lemma below_checked: "keeps_below GetU16" "keeps_below (get_chars n)" "keeps_below GetString"
proof -
  show u: "keeps_below GetU16"
    unfolding keeps_below_def GetU16_def expectRead_def using read_at_inv [of _ 2] by (fastforce simp: net_inv_def)
  show c: "keeps_below (get_chars n)" for n
    unfolding keeps_below_def
  proof (intro allI impI, elim conjE)
    fix m assume m: "net_inv m" "m_ReadPos m < NETWORKMESSAGE_MAXSIZE"
    show "\<exists>x m'. get_chars n m = Some (x, m') \<and> net_inv m' \<and> m_ReadPos m' < NETWORKMESSAGE_MAXSIZE"
      using get_chars_total [OF m(1), of n] m by (auto simp: get_chars_def split: if_splits)
  qed
  have "GetString = net_bind GetU16 get_chars"
    by (rule ext) (simp add: GetString_def net_bind_def)
  then show "keeps_below GetString" by (metis below_bind [OF u] c)
qed

lemma GetByte_at_end:
  assumes "net_inv m"
  shows "GetByte m = None \<longleftrightarrow> m_ReadPos m \<ge> NETWORKMESSAGE_MAXSIZE"
    "m_ReadPos m < NETWORKMESSAGE_MAXSIZE \<Longrightarrow>
      \<exists>b. GetByte m = Some (b, m\<lparr>m_ReadPos := m_ReadPos m + 1\<rparr>) \<and> net_inv (m\<lparr>m_ReadPos := m_ReadPos m + 1\<rparr>)"
  using assms by (auto simp: GetByte_def read_at_def net_inv_def)

lemma checked_at_end:
  assumes "net_inv m" "m_ReadPos m = NETWORKMESSAGE_MAXSIZE"
  shows "GetU16 m = Some (0, m\<lparr>m_overrun := True\<rparr>)" "GetString m = Some ([], m\<lparr>m_overrun := True\<rparr>)"
  using assms by (simp_all add: GetU16_def expectRead_def GetString_def get_chars_def)

lemma violation_rest_inside:
  assumes "net_inv m" "m_ReadPos m < NETWORKMESSAGE_MAXSIZE"
  shows "violation_rest pg name m = None \<longleftrightarrow> NETWORKMESSAGE_MAXSIZE - 2 \<le> m_ReadPos m"
proof -
  obtain b1 where b1: "GetByte m = Some (b1, m\<lparr>m_ReadPos := m_ReadPos m + 1\<rparr>)" and i1: "net_inv (m\<lparr>m_ReadPos := m_ReadPos m + 1\<rparr>)"
    using GetByte_at_end(2) [OF assms] by blast
  let ?m1 = "m\<lparr>m_ReadPos := m_ReadPos m + 1\<rparr>"
  show ?thesis
  proof (cases "m_ReadPos ?m1 < NETWORKMESSAGE_MAXSIZE")
    case False
    then have "GetByte ?m1 = None" using GetByte_at_end(1) [OF i1] by simp
    with b1 False show ?thesis by (simp add: violation_rest_def net_bind_def)
  next
    case True
    then obtain b2 where b2: "GetByte ?m1 = Some (b2, ?m1\<lparr>m_ReadPos := m_ReadPos ?m1 + 1\<rparr>)"
      and i2: "net_inv (?m1\<lparr>m_ReadPos := m_ReadPos ?m1 + 1\<rparr>)"
      using GetByte_at_end(2) [OF i1] by blast
    let ?m2 = "?m1\<lparr>m_ReadPos := m_ReadPos ?m1 + 1\<rparr>"
    show ?thesis
    proof (cases "m_ReadPos ?m2 < NETWORKMESSAGE_MAXSIZE")
      case False
      then have e: "m_ReadPos ?m2 = NETWORKMESSAGE_MAXSIZE" using True by simp
      let ?m3 = "?m2\<lparr>m_overrun := True\<rparr>"
      have i3: "net_inv ?m3" "m_ReadPos ?m3 = NETWORKMESSAGE_MAXSIZE" using i2 e by (auto simp: net_inv_def)
      have "GetByte ?m3 = None" using GetByte_at_end(1) [OF i3(1)] i3(2) by simp
      with b1 b2 checked_at_end [OF i2 e] checked_at_end(1) [OF i3] False show ?thesis
        by (simp add: violation_rest_def net_bind_def)
    next
      case True
      have "keeps_below (net_bind GetString (\<lambda>comment. net_bind GetU16 (\<lambda>statementId. net_bind GetU16 (\<lambda>channelId.
          net_return comment))))"
        by (intro below_bind below_checked) (simp add: keeps_below_def net_return_def)
      with i2 True obtain x m3 where "net_bind GetString (\<lambda>comment. net_bind GetU16 (\<lambda>statementId. net_bind GetU16 (\<lambda>channelId.
          net_return comment))) ?m2 = Some (x, m3)" "net_inv m3" "m_ReadPos m3 < NETWORKMESSAGE_MAXSIZE"
        unfolding keeps_below_def by blast
      moreover obtain b3 where "GetByte m3 = Some (b3, m3\<lparr>m_ReadPos := m_ReadPos m3 + 1\<rparr>)"
        using GetByte_at_end(2) [OF \<open>net_inv m3\<close> \<open>m_ReadPos m3 < NETWORKMESSAGE_MAXSIZE\<close>] by blast
      ultimately have "violation_rest pg name m \<noteq> None" using b1 b2
        by (auto simp: violation_rest_def net_bind_def net_return_def split: option.splits)
      with True show ?thesis by simp
    qed
  qed
qed


text \<open>
  C28. No request reads outside the message array, whatever its bytes say, as long as 257 bytes of the array are
  left before its header, with one exception: a violation window whose name ends at one of the last two places
  of the array, after which the unchecked \<^verbatim>\<open>GetByte\<close> runs over the end.
\<close>
theorem requests_stay_in_buffer:
  assumes "length (m_MsgBuf m) = 16768" "0 \<le> m_ReadPos m" "m_ReadPos m + 257 \<le> 16768"
  shows "parsePacket e pg m = None \<longleftrightarrow> listens e pg m \<and> \<not> ce_removed e \<and> 0 < ce_health e \<and>
    (\<exists>m1 name m2. GetByte m = Some (0xE7, m1) \<and> GetString m1 = Some (name, m2) \<and> 16766 \<le> m_ReadPos m2)"
proof (cases "listens e pg m")
  case False
  then show ?thesis by (simp add: parsePacket_deaf)
next
  case True
  have inv: "net_inv m" using assms by (simp add: net_inv_def)
  with assms(3) obtain h where h: "GetByte m = Some (h, m\<lparr>m_ReadPos := m_ReadPos m + 1\<rparr>)"
    and inv1: "net_inv (m\<lparr>m_ReadPos := m_ReadPos m + 1\<rparr>)" using GetByte_at_end(2) [OF inv] by auto
  let ?m1 = "m\<lparr>m_ReadPos := m_ReadPos m + 1\<rparr>" and ?pg = "pg\<lparr>m_now := ce_time e\<rparr>"
  have room: "m_ReadPos ?m1 + int 256 \<le> NETWORKMESSAGE_MAXSIZE" using assms(3) by simp
  have none: "parsePacket e pg m = None \<longleftrightarrow>
      ((ce_removed e \<or> ce_health e \<le> 0) \<longrightarrow> h = 0x14) \<and> parse_request e h ?pg ?m1 = None"
    unfolding parsePacket_listens [OF True h] by (auto split: option.splits)
  show ?thesis
  proof (cases "h = 0xE7")
    case False
    have "parse_request e h ?pg ?m1 \<noteq> None"
    proof (cases "request_parser e h")
      case (Some f)
      with parser_inside [OF Some False, of ?pg] inv1 room show ?thesis
        by (fastforce simp: parse_request_def stays_inside_def net_bind_def net_return_def)
    qed (simp add: parse_request_def net_return_def)
    with none False h show ?thesis by simp
  next
    case violation: True
    have "m_ReadPos ?m1 < NETWORKMESSAGE_MAXSIZE" using assms(3) by simp
    with inv1 below_checked(3) obtain name m2 where
      name: "GetString ?m1 = Some (name, m2)" "net_inv m2" "m_ReadPos m2 < NETWORKMESSAGE_MAXSIZE"
      unfolding keeps_below_def by blast
    have "parse_request e h ?pg ?m1 = None \<longleftrightarrow> violation_rest ?pg name m2 = None"
      using violation name(1) by (simp add: parse_request_def request_parser_def request_parsers_def
          parseViolationWindow_rest net_bind_def net_return_def case_prod_beta split: option.split)
    with none violation_rest_inside [OF name(2,3)] True h name(1) violation show ?thesis
      by auto
  qed
qed

section \<open>What the length of a packet means\<close>

definition blind :: "'a net_reader \<Rightarrow> bool" where
  "blind r \<longleftrightarrow> (\<forall>m n. r (m\<lparr>m_MsgSize := n\<rparr>) = map_option (apsnd (\<lambda>m. m\<lparr>m_MsgSize := n\<rparr>)) (r m))"

lemma blind_bind: "blind r \<Longrightarrow> (\<And>x. blind (g x)) \<Longrightarrow> blind (net_bind r g)"
  unfolding blind_def net_bind_def by (auto split: option.splits)

lemma size_then_pos: "(m\<lparr>m_MsgSize := n\<rparr>)\<lparr>m_ReadPos := p\<rparr> = (m\<lparr>m_ReadPos := p\<rparr>)\<lparr>m_MsgSize := n\<rparr>"
  by (cases m) simp

lemma blind_fields: "blind (net_return x)" "blind GetByte" "blind GetU16" "blind GetSpriteId" "blind GetU32"
proof -
  show "blind (net_return x)" "blind GetByte"
    by (auto simp: blind_def net_return_def GetByte_def option.map_comp comp_def size_then_pos)
  show u: "blind GetU16"
    by (auto simp: blind_def GetU16_def expectRead_def option.map_comp comp_def size_then_pos)
  then show "blind GetSpriteId" by (simp add: GetSpriteId_def [abs_def])
  show "blind GetU32"
    by (auto simp: blind_def GetU32_def expectRead_def option.map_comp comp_def size_then_pos)
qed

lemma blind_GetString: "blind GetString"
proof -
  have "blind (get_chars n)" for n
    by (auto simp: blind_def get_chars_def option.map_comp comp_def size_then_pos)
  moreover have "GetString = net_bind GetU16 get_chars"
    by (rule ext) (simp add: GetString_def net_bind_def)
  ultimately show ?thesis by (metis blind_bind [OF blind_fields(3)])
qed

lemma blind_GetPosition: "blind GetPosition"
  unfolding GetPosition_bind by (intro blind_bind blind_fields)

lemma blind_path: "blind (read_path n path)"
  by (induction n arbitrary: path) (simp_all add: blind_fields blind_bind)

lemma blind_if: "blind a \<Longrightarrow> blind b \<Longrightarrow> blind (if c then a else b)"
  by simp

lemmas blind_intros = blind_fields blind_GetString blind_GetPosition blind_path blind_bind blind_if

lemma parser_blind:
  assumes "request_parser e h = Some f"
  shows "blind (f pg)"
proof -
  have "list_all (\<lambda>(h, f). blind (f pg)) (request_parsers e)"
    unfolding request_parsers_def list.pred_inject prod.case
    by (intro conjI; (simp only: request_defs)?; (intro blind_intros)?; simp?)
  with request_parser_in [OF assms(1)] show ?thesis by (auto simp: list_all_iff)
qed

text \<open>
  C39. The length of a packet is not looked at after it is seen to be positive: the answer to a packet is the
  same for every positive length, so the fields missing at the end of a truncated request are read
  from what an earlier packet left in the array, and the request is carried out.
\<close>
theorem truncated_request_reads_leftovers:
  assumes "0 < m_MsgSize m" "0 < n"
  shows "parsePacket e pg (m\<lparr>m_MsgSize := n\<rparr>) = map_option (apsnd (\<lambda>m. m\<lparr>m_MsgSize := n\<rparr>)) (parsePacket e pg m)"
proof -
  have req: "blind (parse_request e h q)" for h q
  proof (cases "request_parser e h")
    case (Some f)
    then have "parse_request e h q = net_bind (f q) (\<lambda>pg. net_return (pg, False))" by (simp add: parse_request_def [abs_def])
    with parser_blind [OF Some, of q] show ?thesis by (simp add: blind_intros)
  qed (simp add: parse_request_def [abs_def] blind_fields)
  have "listens e pg (m\<lparr>m_MsgSize := n\<rparr>) = listens e pg m" using assms by (simp add: listens_def)
  moreover have "GetByte (m\<lparr>m_MsgSize := n\<rparr>) = map_option (apsnd (\<lambda>m. m\<lparr>m_MsgSize := n\<rparr>)) (GetByte m)"
    using blind_fields(2) by (simp add: blind_def)
  ultimately show ?thesis
  proof (cases "listens e pg m")
    case True
    show ?thesis
    proof (cases "GetByte m")
      case None
      with True assms show ?thesis
        by (simp add: parsePacket_def listens_def net_bind_def \<open>GetByte (m\<lparr>m_MsgSize := n\<rparr>) = _\<close>)
    next
      case (Some hm)
      obtain h m1 where hm: "hm = (h, m1)" by (cases hm)
      have g: "GetByte m = Some (h, m1)" "GetByte (m\<lparr>m_MsgSize := n\<rparr>) = Some (h, m1\<lparr>m_MsgSize := n\<rparr>)"
        using Some hm \<open>GetByte (m\<lparr>m_MsgSize := n\<rparr>) = _\<close> by simp_all
      have r: "parse_request e h (pg\<lparr>m_now := ce_time e\<rparr>) (m1\<lparr>m_MsgSize := n\<rparr>) =
          map_option (apsnd (\<lambda>m. m\<lparr>m_MsgSize := n\<rparr>)) (parse_request e h (pg\<lparr>m_now := ce_time e\<rparr>) m1)"
        using req by (simp add: blind_def)
      show ?thesis
        using True \<open>listens e pg (m\<lparr>m_MsgSize := n\<rparr>) = listens e pg m\<close>
        by (auto simp: parsePacket_listens [OF _ g(1)] parsePacket_listens [OF _ g(2)] r split: option.splits)
    qed
  qed (simp add: parsePacket_deaf)
qed


section \<open>Examples\<close>

text \<open>A living player of a running game, and a buffer that starts with given bytes.\<close>

definition example_env :: ClientEnv where
  "example_env = \<lparr>ce_shutdown = False, ce_time = 5000, ce_save_assertions = True, ce_removed = False, ce_health = 150,
     ce_sex = PLAYERSEX_MALE, ce_premium = False\<rparr>"

definition example_client :: ProtocolGame where
  "example_client = new_ProtocolGame\<lparr>pg_player := True, m_acceptPackets := True\<rparr>"

definition example_message :: "int \<Rightarrow> u8 list \<Rightarrow> NetworkMessage" where
  "example_message n bs = \<lparr>m_MsgSize = n, m_ReadPos = 4, m_overrun = False,
     m_MsgBuf = [0, 0, 0, 0] @ bs @ replicate (16764 - length bs) 0\<rparr>"

lemma example_at: "length bs < 16748 \<Longrightarrow> net_at (example_message n bs) 4 bs"
  by (auto simp: net_at_def example_message_def)

lemma example_client_simps [simp]:
  "pg_player example_client" "m_acceptPackets example_client" "m_messageCount example_client = 0"
  "pg_tasks example_client = []" "\<not> pg_kicked example_client" "\<not> ce_shutdown example_env"
  "\<not> ce_removed example_env" "ce_health example_env = 150" "\<not> m_overrun (example_message n bs)"
  "m_MsgSize (example_message n bs) = n" "m_ReadPos (example_message n bs) = 4"
  by (simp_all add: example_client_def example_env_def example_message_def new_ProtocolGame_def)

lemma le_bytes_numerals:
  "le_bytes 1 w = [ucast w]" "le_bytes 2 w = [ucast w, ucast (drop_bit 8 w)]"
  by (simp_all add: numeral_2_eq_2)

theorem requests_roundtrip_witness:
  "\<exists>pg' m'. parsePacket example_env example_client (example_message 9 [0x8C, 100, 0, 200, 0, 7, 0x34, 0x12, 2]) = Some (pg', m') \<and>
     pg_tasks pg' = [LookAt (Position 100 200 7) 0x1234 2] \<and> \<not> pg_kicked pg'"
proof -
  let ?vs = "[MPosition (Position 100 200 7), MU16 0x1234, MByte 2]"
  have b: "concat (map msg_bytes (MByte 0x8C # ?vs)) = [0x8C, 100, 0, 200, 0, 7, 0x34, 0x12, 2]"
    by (simp add: le_bytes_numerals)
  have "net_at (example_message 9 [0x8C, 100, 0, 200, 0, 7, 0x34, 0x12, 2]) 4 (concat (map msg_bytes (MByte 0x8C # ?vs)))"
    unfolding b by (rule example_at) simp
  from requests_roundtrip [OF _ _ _ _ _ _ _ _ this, of example_client example_env "LookAt (Position 100 200 7) 0x1234 2"]
  show ?thesis by (simp add: wire_pos_def)
qed

lemma example_header: "GetByte (example_message n (b # bs)) = Some (b, (example_message n (b # bs))\<lparr>m_ReadPos := 5\<rparr>)"
  by (simp add: GetByte_def read_at_def example_message_def drop_Cons' take_Cons')

theorem one_task_per_packet_witness:
  "\<exists>pg' m'. parsePacket example_env example_client (example_message 1 [0xFF]) = Some (pg', m') \<and> pg_kicked pg' \<and>
     (\<exists>ts. pg_tasks pg' = ts \<and> length ts \<le> 1)"
proof -
  have none: "request_parser example_env 0xFF = None" by (simp add: request_parser_def request_parsers_def)
  have l: "listens example_env example_client (example_message 1 [0xFF])" by (simp add: listens_def)
  obtain pg' m' where p: "parsePacket example_env example_client (example_message 1 [0xFF]) = Some (pg', m')"
    using parsePacket_listens [OF l example_header] by (simp add: none parse_request_def net_return_def)
  from one_task_per_packet [OF _ p] l none example_header have "pg_kicked pg'" "\<exists>ts. pg_tasks pg' = ts \<and> length ts \<le> 1"
    by auto
  with p show ?thesis by blast
qed

theorem requests_stay_in_buffer_witness:
  "parsePacket example_env example_client (example_message 3 [0xE7, 0x77, 0x41]) = None \<and>
   parsePacket example_env example_client (example_message 3 [0xE7, 0x76, 0x41]) \<noteq> None"
proof -
  let ?m = "\<lambda>b. example_message 3 [0xE7, b, 0x41]"
  have len: "length (m_MsgBuf (?m b)) = 16768" for b by (simp add: example_message_def)
  have r: "read_at 5 2 (m_MsgBuf (?m b)) = Some [b, 0x41]" for b
    by (simp add: read_at_def example_message_def drop_Cons' take_Cons')
  have s: "GetString ((?m b)\<lparr>m_ReadPos := 5\<rparr>) = map_option (\<lambda>bs. (bs, (?m b)\<lparr>m_ReadPos := 7 + uint (le_value [b, 0x41] :: u16)\<rparr>))
      (read_at 7 (unat (le_value [b, 0x41] :: u16)) (m_MsgBuf (?m b)))" if "uint (le_value [b, 0x41] :: u16) < 16761" for b
    using that by (simp add: GetString_def GetU16_def expectRead_def get_chars_def r option.map_comp comp_def)
  have l: "listens example_env example_client (?m b)" for b by (simp add: listens_def)
  note law = requests_stay_in_buffer [OF len, of _ example_env example_client]
  have pos: "0 \<le> m_ReadPos (?m b)" "m_ReadPos (?m b) + 257 \<le> 16768" for b by simp_all
  have "\<exists>name m2. GetString ((?m 0x77)\<lparr>m_ReadPos := 5\<rparr>) = Some (name, m2) \<and> 16766 \<le> m_ReadPos m2"
    by (subst s) (simp_all add: read_at_def len)
  moreover have "\<not> (\<exists>name m2. GetString ((?m 0x76)\<lparr>m_ReadPos := 5\<rparr>) = Some (name, m2) \<and> 16766 \<le> m_ReadPos m2)"
    by (subst s) (auto simp: read_at_def len)
  ultimately show ?thesis using law [OF pos] l example_header by auto
qed

theorem truncated_request_reads_leftovers_witness:
  "parsePacket example_env example_client (example_message 1 [0xA1, 0x15, 0xCD, 0x5B, 0x07]) =
     map_option (apsnd (\<lambda>m. m\<lparr>m_MsgSize := 1\<rparr>)) (parsePacket example_env example_client (example_message 5 [0xA1, 0x15, 0xCD, 0x5B, 0x07]))"
proof -
  have "example_message 1 bs = (example_message 5 bs)\<lparr>m_MsgSize := 1\<rparr>" for bs by (simp add: example_message_def)
  then show ?thesis
    using truncated_request_reads_leftovers [of "example_message 5 [0xA1, 0x15, 0xCD, 0x5B, 0x07]" 1] by simp
qed

end
