(* ===== verification/ClientView.thy ===== *)
theory ClientView
  imports Tiles ClientRequests
begin

text \<open>
  What the server shows a client: the second half of \<^verbatim>\<open>protocolgame.cpp\<close>, compiled with \<^verbatim>\<open>__PROTOCOL_77__\<close>.
  No function here looks at the message it writes to, so each is modelled by the values it adds,
  in order; \<open>msg_add_all\<close> of these values is the call on a message.  The tiles of the map, the
  creatures and the list of creatures the client knows are arguments, the list is returned changed.
  The client's side is modelled where a property needs it: the reader of a map description and its own
  set of creatures.
\<close>

section \<open>What there is to see\<close>

text \<open>A creature as the player sees it: the skull and the party shield depend on the player, the step speed,
  the light and the outfit are those the class of the creature reports.\<close>

record SeenCreature =
  sc_id :: u32
  sc_name :: "u8 list"
  sc_health :: int
  sc_maxHealth :: int
  sc_direction :: Direction
  sc_invisible :: bool
  sc_outfit :: Outfit_t
  sc_light :: LightInfo
  sc_speed :: int
  sc_skull :: u8
  sc_shield :: u8
  sc_position :: position
  sc_removed :: bool

text \<open>The player at the other end: its position and rights, and the game around it.  Creatures on tiles are addresses,
  \<open>vi_byID\<close> is the lookup of the game.\<close>

record Viewer =
  vi_items :: Items
  vi_pos :: position
  vi_seesInvisible :: bool
  vi_tile :: "int \<Rightarrow> int \<Rightarrow> int \<Rightarrow> Tile option"
  vi_creature :: "nat \<Rightarrow> SeenCreature"
  vi_byID :: "u32 \<Rightarrow> nat option"

section \<open>Sight\<close>

definition canSee :: "Viewer \<Rightarrow> int \<Rightarrow> int \<Rightarrow> int \<Rightarrow> bool" where
  "canSee v x y z =
     (let mx = uint (px (vi_pos v)); my = uint (py (vi_pos v)); mz = uint (pz (vi_pos v)) in
      if mz \<le> 7 \<and> z > 7 then False
      else if mz \<ge> 8 \<and> \<bar>mz - z\<bar> > 2 then False
      else let offsetz = mz - z in
        x \<ge> mx - 8 + offsetz \<and> x \<le> mx + 9 + offsetz \<and> y \<ge> my - 6 + offsetz \<and> y \<le> my + 7 + offsetz)"

definition canSeePos :: "Viewer \<Rightarrow> position \<Rightarrow> bool" where
  "canSeePos v p = canSee v (uint (px p)) (uint (py p)) (uint (pz p))"

definition canSeeCreature :: "Viewer \<Rightarrow> SeenCreature \<Rightarrow> bool" where
  "canSeeCreature v c = (if sc_removed c then False else canSeePos v (sc_position c))"

section \<open>The creatures a client knows\<close>

definition in_sight :: "Viewer \<Rightarrow> u32 \<Rightarrow> bool" where
  "in_sight v i = (case vi_byID v i of None \<Rightarrow> False | Some a \<Rightarrow> canSeeCreature v (vi_creature v a))"

fun find_forgettable :: "(u32 \<Rightarrow> bool) \<Rightarrow> nat \<Rightarrow> u32 option \<Rightarrow> u32 list \<Rightarrow> u32 option \<times> u32 list" where
  "find_forgettable sees 0 r ks = (r, ks)"
| "find_forgettable sees (Suc n) r ks =
     (if \<not> sees (hd ks) then (Some (hd ks), ks) else find_forgettable sees n (Some (hd ks)) (tl ks @ [hd ks]))"

text \<open>The answer is whether the creature was known, which creature to forget (unset for a known one), and the new list.\<close>

definition checkCreatureAsKnown :: "Viewer \<Rightarrow> u32 \<Rightarrow> u32 list \<Rightarrow> bool \<times> u32 option \<times> u32 list" where
  "checkCreatureAsKnown v i ks =
     (if i \<in> set ks then (True, None, remove1 i ks @ [i])
      else let ks = ks @ [i] in
        if length ks > 150 then
          (let (r, ks) = find_forgettable (in_sight v) 150 None ks in (False, r, tl ks))
        else (False, Some 0, ks))"

section \<open>Things\<close>

definition AddItem_values :: "Items \<Rightarrow> Item \<Rightarrow> msg_value list option" where
  "AddItem_values items i =
     (let it = item_type items i in
      if it_stackable it \<or> isSplash it \<or> isFluidContainer it
      then do { n \<leftarrow> getSubType items i; Some [MU16 (it_clientId it), MByte (ucast n)] }
      else Some [MU16 (it_clientId it)])"

definition AddItemId_value :: "Items \<Rightarrow> u16 \<Rightarrow> msg_value" where
  "AddItemId_value items ident = MU16 (it_clientId (getItemType items (uint ident)))"

definition direction_no :: "Direction \<Rightarrow> u8" where
  "direction_no d = (case d of NORTH \<Rightarrow> 0 | EAST \<Rightarrow> 1 | SOUTH \<Rightarrow> 2 | WEST \<Rightarrow> 3 | SOUTHWEST \<Rightarrow> 4 | SOUTHEAST \<Rightarrow> 5
     | NORTHWEST \<Rightarrow> 6 | NORTHEAST \<Rightarrow> 7)"

text \<open>The ceiling of \<^verbatim>\<open>health * 100 / max(maxHealth, 1)\<close>, without the rounding of \<^verbatim>\<open>float\<close>.\<close>

definition health_percent :: "SeenCreature \<Rightarrow> u8" where
  "health_percent c = word_of_int (- ((- (sc_health c * 100)) div max (sc_maxHealth c) 1))"

definition AddCreatureOutfit :: "Viewer \<Rightarrow> Outfit_t \<Rightarrow> msg_value list" where
  "AddCreatureOutfit v outfit = MU16 (ucast (lookType outfit)) #
     (if lookType outfit \<noteq> 0 then [MByte (ucast (lookHead outfit)), MByte (ucast (lookBody outfit)),
        MByte (ucast (lookLegs outfit)), MByte (ucast (lookFeet outfit))]
      else [AddItemId_value (vi_items v) (ucast (lookTypeEx outfit))])"

definition AddCreatureInvisible :: "Viewer \<Rightarrow> SeenCreature \<Rightarrow> msg_value list" where
  "AddCreatureInvisible v c = (if vi_seesInvisible v then AddCreatureOutfit v (sc_outfit c) else [MU16 0, MU16 0])"

definition AddCreature :: "Viewer \<Rightarrow> SeenCreature \<Rightarrow> bool \<Rightarrow> u32 \<Rightarrow> msg_value list" where
  "AddCreature v c known remove =
     (if known then [MU16 0x62, MU32 (sc_id c)]
      else [MU16 0x61, MU32 remove, MU32 (sc_id c), MString (sc_name c)]) @
     [MByte (health_percent c), MByte (direction_no (sc_direction c))] @
     (if \<not> sc_invisible c then AddCreatureOutfit v (sc_outfit c) else AddCreatureInvisible v c) @
     [MByte (ucast (light_level (sc_light c))), MByte (ucast (light_color (sc_light c))),
      MU16 (word_of_int (sc_speed c)), MByte (sc_skull c), MByte (sc_shield c)]"

definition show_creature :: "Viewer \<Rightarrow> SeenCreature \<Rightarrow> u32 list \<Rightarrow> msg_value list \<times> u32 list" where
  "show_creature v c ks =
     (let (known, removedKnown, ks) = checkCreatureAsKnown v (sc_id c) ks
      in (AddCreature v c known (case removedKnown of None \<Rightarrow> 0 | Some r \<Rightarrow> r), ks))"

section \<open>Tiles, floors and the map\<close>

text \<open>The loops over the items and over the creatures of a tile stop after ten things in all.\<close>

fun describe_items :: "Items \<Rightarrow> Item list \<Rightarrow> nat \<Rightarrow> (msg_value list \<times> nat) option" where
  "describe_items items [] cnt = Some ([], cnt)"
| "describe_items items (i # is) cnt =
     (if cnt < 10 then do {
        d \<leftarrow> AddItem_values items i;
        (vs, cnt) \<leftarrow> describe_items items is (cnt + 1);
        Some (d @ vs, cnt) }
      else Some ([], cnt))"

fun describe_creatures :: "Viewer \<Rightarrow> nat list \<Rightarrow> nat \<Rightarrow> u32 list \<Rightarrow> msg_value list \<times> nat \<times> u32 list" where
  "describe_creatures v [] cnt ks = ([], cnt, ks)"
| "describe_creatures v (c # cs) cnt ks =
     (if cnt < 10 then
        (let (d, ks) = show_creature v (vi_creature v c) ks; (vs, cnt, ks) = describe_creatures v cs (cnt + 1) ks
         in (d @ vs, cnt, ks))
      else ([], cnt, ks))"

definition GetTileDescription :: "Viewer \<Rightarrow> Tile \<Rightarrow> u32 list \<Rightarrow> (msg_value list \<times> u32 list) option" where
  "GetTileDescription v t ks = do {
     (g, cnt) \<leftarrow> (case ground t of None \<Rightarrow> Some ([], 0) | Some a \<Rightarrow> do {
        d \<leftarrow> AddItem_values (vi_items v) (item_at t a); Some (d, 1) });
     (top, cnt) \<leftarrow> describe_items (vi_items v) (map (item_at t) (topItems t)) cnt;
     (crs, cnt, ks) \<leftarrow> Some (describe_creatures v (creatures t) cnt ks);
     (down, cnt) \<leftarrow> describe_items (vi_items v) (map (item_at t) (downItems t)) cnt;
     Some (g @ top @ crs @ down, ks) }"

definition skip_marker :: "int \<Rightarrow> msg_value list" where
  "skip_marker skip = (if skip \<ge> 0 then [MByte (word_of_int skip), MByte 0xFF] else [])"

text \<open>The body of the two loops of \<open>GetFloorDescription\<close>, over the positions in the order of the loops.\<close>

fun describe_cells :: "Viewer \<Rightarrow> (int \<times> int \<times> int) list \<Rightarrow> int \<Rightarrow> u32 list \<Rightarrow> (msg_value list \<times> int \<times> u32 list) option" where
  "describe_cells v [] skip ks = Some ([], skip, ks)"
| "describe_cells v ((x, y, z) # ps) skip ks =
     (case vi_tile v x y z of
        Some t \<Rightarrow> do {
          (d, ks) \<leftarrow> GetTileDescription v t ks;
          (vs, s, ks) \<leftarrow> describe_cells v ps 0 ks;
          Some (skip_marker skip @ d @ vs, s, ks) }
      | None \<Rightarrow>
          (let skip = skip + 1 in
           if skip = 0xFF then do {
             (vs, s, ks) \<leftarrow> describe_cells v ps (-1) ks;
             Some ([MByte 0xFF, MByte 0xFF] @ vs, s, ks) }
           else describe_cells v ps skip ks))"

definition floor_cells :: "int \<Rightarrow> int \<Rightarrow> int \<Rightarrow> int \<Rightarrow> int \<Rightarrow> int \<Rightarrow> (int \<times> int \<times> int) list" where
  "floor_cells x y z width height offset =
     concat (map (\<lambda>nx. map (\<lambda>ny. (x + nx + offset, y + ny + offset, z)) [0..height - 1]) [0..width - 1])"

definition GetFloorDescription ::
  "Viewer \<Rightarrow> int \<Rightarrow> int \<Rightarrow> int \<Rightarrow> int \<Rightarrow> int \<Rightarrow> int \<Rightarrow> int \<Rightarrow> u32 list \<Rightarrow> (msg_value list \<times> int \<times> u32 list) option" where
  "GetFloorDescription v x y z width height offset skip ks = describe_cells v (floor_cells x y z width height offset) skip ks"

text \<open>The loop from \<open>startz\<close> in steps until one past \<open>endz\<close>; for a floor from 19 on it starts behind that end and never meets it.\<close>

definition map_floors :: "u8 \<Rightarrow> int list option" where
  "map_floors z =
     (if z > 7 then (if z > 18 then None else Some [uint z - 2..min (16 - 1) (uint z + 2)])
      else Some (rev [0..7]))"

fun describe_floors :: "Viewer \<Rightarrow> int \<Rightarrow> int \<Rightarrow> int \<Rightarrow> int list \<Rightarrow> int \<Rightarrow> int \<Rightarrow> int \<Rightarrow> u32 list \<Rightarrow>
    (msg_value list \<times> int \<times> u32 list) option" where
  "describe_floors v x y z [] width height skip ks = Some ([], skip, ks)"
| "describe_floors v x y z (nz # nzs) width height skip ks = do {
     (d, skip, ks) \<leftarrow> GetFloorDescription v x y nz width height (z - nz) skip ks;
     (vs, skip, ks) \<leftarrow> describe_floors v x y z nzs width height skip ks;
     Some (d @ vs, skip, ks) }"

definition GetMapDescription ::
  "Viewer \<Rightarrow> u16 \<Rightarrow> u16 \<Rightarrow> u8 \<Rightarrow> int \<Rightarrow> int \<Rightarrow> u32 list \<Rightarrow> (msg_value list \<times> u32 list) option" where
  "GetMapDescription v x y z width height ks = do {
     nzs \<leftarrow> map_floors z;
     (vs, skip, ks) \<leftarrow> describe_floors v (uint x) (uint y) (uint z) nzs width height (-1) ks;
     Some (vs @ skip_marker skip, ks) }"

definition AddMapDescription :: "Viewer \<Rightarrow> position \<Rightarrow> u32 list \<Rightarrow> (msg_value list \<times> u32 list) option" where
  "AddMapDescription v pos ks = do {
     (vs, ks) \<leftarrow> GetMapDescription v (px pos - 8) (py pos - 6) (ucast (pz pos)) 18 14 ks;
     Some ([MByte 0x64, MPosition (vi_pos v)] @ vs, ks) }"

section \<open>The two lists of known creatures\<close>

lemma find_forgettable_all:
  "\<forall>x \<in> set xs. sees x \<Longrightarrow>
    find_forgettable sees (length xs) r (xs @ ys) = (if xs = [] then r else Some (last xs), ys @ xs)"
proof (induction xs arbitrary: r ys)
  case (Cons x xs)
  then show ?case using Cons.IH [of "Some x" "ys @ [x]"] by simp
qed simp

lemma find_forgettable_one:
  "\<forall>x \<in> set as. sees x \<Longrightarrow> \<not> sees b \<Longrightarrow> length as < n \<Longrightarrow>
    find_forgettable sees n r (as @ b # ys) = (Some b, b # ys @ as)"
proof (induction as arbitrary: n r ys)
  case Nil
  then show ?case by (cases n) auto
next
  case (Cons a as)
  then obtain k where "n = Suc k" "length as < k" by (cases n) auto
  with Cons show ?case using Cons.IH [of k "Some a" "ys @ [a]"] by simp
qed

text \<open>What the client makes of the answer: a new creature replaces the one to be forgotten, if that is not zero.\<close>

definition client_knows :: "u32 \<Rightarrow> bool \<times> u32 option \<times> u32 list \<Rightarrow> u32 set \<Rightarrow> u32 set" where
  "client_knows i answer C = (let (known, removedKnown, _) = answer in
     if known then C else insert i (C - {case removedKnown of None \<Rightarrow> 0 | Some r \<Rightarrow> r}))"

lemma known_full:
  assumes "length ks = 150" "i \<notin> set ks"
  shows "(\<forall>k \<in> set ks. in_sight v k) \<Longrightarrow> checkCreatureAsKnown v i ks = (False, Some (last ks), ks)"
    and "k \<in> set ks \<Longrightarrow> \<not> in_sight v k \<Longrightarrow> \<exists>as b bs. ks = as @ b # bs \<and> (\<forall>x \<in> set as. in_sight v x) \<and> \<not> in_sight v b \<and>
      checkCreatureAsKnown v i ks = (False, Some b, bs @ i # as)"
proof -
  assume all: "\<forall>k \<in> set ks. in_sight v k"
  have "ks \<noteq> []" using assms(1) by auto
  with find_forgettable_all [of ks "in_sight v" None "[i]"] all assms show "checkCreatureAsKnown v i ks = (False, Some (last ks), ks)"
    by (simp add: checkCreatureAsKnown_def)
next
  assume "k \<in> set ks" "\<not> in_sight v k"
  then obtain as b bs where s: "ks = as @ b # bs" "\<not> in_sight v b" "\<forall>x \<in> set as. in_sight v x"
    using split_list_first_prop [of ks "\<lambda>k. \<not> in_sight v k"] by blast
  then have "find_forgettable (in_sight v) 150 None (ks @ [i]) = (Some b, b # (bs @ [i]) @ as)"
    using find_forgettable_one [of as "in_sight v" b 150 None "bs @ [i]"] assms(1) by simp
  with s assms show "\<exists>as b bs. ks = as @ b # bs \<and> (\<forall>x \<in> set as. in_sight v x) \<and> \<not> in_sight v b \<and>
      checkCreatureAsKnown v i ks = (False, Some b, bs @ i # as)"
    by (auto simp: checkCreatureAsKnown_def)
qed

text \<open>
  C18. The list of known creatures stays without repetition and within 150 entries, a creature is called known
  exactly when it is in the list, and the client's own set stays equal to it, as long as some creature of a
  full list is out of sight; the creature the client is told to forget is out of sight.  When all 150 are in
  sight the two part: the client forgets one of them and learns the new creature, but the server's list is as
  before.
\<close>
theorem known_lists_agree:
  assumes "distinct ks" "length ks \<le> 150" "i \<noteq> 0" "0 \<notin> set ks" "checkCreatureAsKnown v i ks = (known, r, ks')"
  shows "distinct ks' \<and> length ks' \<le> 150 \<and> 0 \<notin> set ks' \<and> (known \<longleftrightarrow> i \<in> set ks) \<and>
    (if i \<in> set ks \<or> length ks < 150 \<or> (\<exists>k \<in> set ks. \<not> in_sight v k)
     then set ks' = client_knows i (known, r, ks') (set ks) \<and> i \<in> set ks' \<and>
       (\<forall>k \<in> set ks - set ks'. \<not> in_sight v k)
     else ks' = ks \<and> client_knows i (known, r, ks') (set ks) = insert i (set ks - {last ks}))"
proof -
  consider (old) "i \<in> set ks" | (room) "i \<notin> set ks" "length ks < 150"
    | (full) "i \<notin> set ks" "length ks = 150" "\<exists>k \<in> set ks. \<not> in_sight v k"
    | (stuck) "i \<notin> set ks" "length ks = 150" "\<forall>k \<in> set ks. in_sight v k"
    using assms(2) by fastforce
  then show ?thesis
  proof cases
    case old
    with assms have "known" "ks' = remove1 i ks @ [i]" by (auto simp: checkCreatureAsKnown_def)
    with old assms show ?thesis
      by (auto simp: client_knows_def set_remove1_eq length_remove1 intro: length_pos_if_in_set)
  next
    case room
    with assms have "\<not> known" "r = Some 0" "ks' = ks @ [i]" by (auto simp: checkCreatureAsKnown_def Let_def)
    with room assms show ?thesis by (auto simp: client_knows_def)
  next
    case full
    then obtain k where "k \<in> set ks" "\<not> in_sight v k" by blast
    from known_full(2) [OF full(2,1) this] assms(5) obtain as b bs where
      "ks = as @ b # bs" "\<not> in_sight v b" "\<not> known" "r = Some b" "ks' = bs @ i # as" by auto
    with full assms show ?thesis by (auto simp: client_knows_def)
  next
    case stuck
    from known_full(1) [OF stuck(2,1,3)] assms(5) have "\<not> known" "r = Some (last ks)" "ks' = ks" by auto
    with stuck assms show ?thesis by (auto simp: client_knows_def)
  qed
qed

section \<open>Reading a description\<close>

text \<open>The client's readers take what they need from the front of a list of bytes.\<close>

fun take_value :: "msg_type \<Rightarrow> u8 list \<Rightarrow> (msg_value \<times> u8 list) option" where
  "take_value TByte bs = (if length bs < 1 then None else Some (MByte (le_value (take 1 bs)), drop 1 bs))"
| "take_value TU16 bs = (if length bs < 2 then None else Some (MU16 (le_value (take 2 bs)), drop 2 bs))"
| "take_value TU32 bs = (if length bs < 4 then None else Some (MU32 (le_value (take 4 bs)), drop 4 bs))"
| "take_value TString bs = (if length bs < 2 then None else
     let n = unat (le_value (take 2 bs) :: u16) in
     if length (drop 2 bs) < n then None else Some (MString (take n (drop 2 bs)), drop n (drop 2 bs)))"
| "take_value TPosition bs = (if length bs < 5 then None else
     Some (MPosition (Position (le_value (take 2 bs)) (le_value (take 2 (drop 2 bs))) (ucast (le_value (take 1 (drop 4 bs)) :: u8))), drop 5 bs))"

lemma take_value_bytes:
  assumes "readable v t"
  shows "take_value t (msg_bytes v @ bs) = Some (v, bs)"
proof (cases "(v, t)" rule: readable.cases)
  case (4 s)
  with assms have s: "length s \<le> 8192" "takeWhile (\<lambda>c. c \<noteq> 0) s = s"
    by (auto simp: list_all_iff takeWhile_eq_all_conv)
  have "unat (word_of_nat (length s) :: u16) = length s" using s by (intro unat_of_nat_eq) simp
  moreover have "msg_bytes (MString s) = le_bytes 2 (word_of_nat (length s) :: u16) @ s" by (simp only: msg_bytes.simps s(2))
  moreover have "v = MString s" "t = TString" using 4 by simp_all
  ultimately show ?thesis by (simp add: wire16.dec_enc Let_def del: msg_bytes.simps)
next
  case (5 q)
  have z: "ucast (ucast (pz q) :: u8) = pz q"
    using assms 5 by (simp add: unsigned_ucast_eq unsigned_take_bit_eq word_uint_eq_iff take_bit_int_eq_self)
  have "take 1 (le_bytes 1 (ucast (pz q) :: u8) @ bs) = le_bytes 1 (ucast (pz q) :: u8)" by simp
  with 5 z show ?thesis by (simp add: wire16.dec_enc wire8.dec_enc del: le_bytes.simps One_nat_def)
qed (use assms in \<open>auto simp: wire8.dec_enc wire16.dec_enc wire32.dec_enc simp del: le_bytes.simps One_nat_def\<close>)


fun take_values :: "msg_type list \<Rightarrow> u8 list \<Rightarrow> (msg_value list \<times> u8 list) option" where
  "take_values [] bs = Some ([], bs)"
| "take_values (t # ts) bs = do { (v, bs) \<leftarrow> take_value t bs; (vs, bs) \<leftarrow> take_values ts bs; Some (v # vs, bs) }"

abbreviation wire :: "msg_value list \<Rightarrow> u8 list" where
  "wire vs \<equiv> concat (map msg_bytes vs)"

lemma take_values_wire: "list_all2 readable vs ts \<Longrightarrow> take_values ts (wire vs @ bs) = Some (vs, bs)"
  by (induction vs ts rule: list_all2_induct) (simp_all add: take_value_bytes)

text \<open>The look of a creature, and a thing: a creature starts with one of two codes, anything else is an item, with a
  count for the kinds of items that the client's own table marks.\<close>

definition take_look :: "u8 list \<Rightarrow> (msg_value list \<times> u8 list) option" where
  "take_look bs = do {
     (a, bs) \<leftarrow> take_values [TByte, TByte, TU16] bs;
     (b, bs) \<leftarrow> take_values (if last a = MU16 0 then [TU16] else [TByte, TByte, TByte, TByte]) bs;
     (c, bs) \<leftarrow> take_values [TByte, TByte, TU16, TByte, TByte] bs;
     Some (a @ b @ c, bs) }"

definition take_thing :: "(u16 \<Rightarrow> bool) \<Rightarrow> u8 list \<Rightarrow> (msg_value list \<times> u8 list) option" where
  "take_thing sized bs = do {
     (a, bs) \<leftarrow> take_values [TU16] bs;
     if a = [MU16 0x61] then do { (b, bs) \<leftarrow> take_values [TU32, TU32, TString] bs; (c, bs) \<leftarrow> take_look bs; Some (a @ b @ c, bs) }
     else if a = [MU16 0x62] then do { (b, bs) \<leftarrow> take_values [TU32] bs; (c, bs) \<leftarrow> take_look bs; Some (a @ b @ c, bs) }
     else do {
       (b, bs) \<leftarrow> take_values (if (case a of [MU16 i] \<Rightarrow> sized i | _ \<Rightarrow> False) then [TByte] else []) bs;
       Some (a @ b, bs) } }"

text \<open>What the server may show: item types within the range of the client's codes, names that a message carries.\<close>

definition showable_item :: "Items \<Rightarrow> (u16 \<Rightarrow> bool) \<Rightarrow> Item \<Rightarrow> bool" where
  "showable_item items sized i = (let it = item_type items i in
     0x63 < it_clientId it \<and> it_clientId it < 0xFF00 \<and>
     (sized (it_clientId it) \<longleftrightarrow> it_stackable it \<or> isSplash it \<or> isFluidContainer it))"

definition showable_creature :: "SeenCreature \<Rightarrow> bool" where
  "showable_creature c \<longleftrightarrow> wire_string (sc_name c) \<and> lookType (sc_outfit c) < 2 ^ 16"

lemma take_thing_item:
  assumes "AddItem_values items i = Some vs" "showable_item items sized i"
  shows "take_thing sized (wire vs @ bs) = Some (vs, bs)"
proof -
  let ?it = "item_type items i"
  have one: "take_values [TU16] (wire [MU16 w] @ r) = Some ([MU16 w], r)" for w r
    by (rule take_values_wire) simp
  have two: "take_values [TByte] (wire [MByte w] @ r) = Some ([MByte w], r)" for w r
    by (rule take_values_wire) simp
  have c: "it_clientId ?it \<noteq> 0x61" "it_clientId ?it \<noteq> 0x62" using assms(2) by (auto simp: showable_item_def Let_def)
  show ?thesis
  proof (cases "it_stackable ?it \<or> isSplash ?it \<or> isFluidContainer ?it")
    case True
    with assms(1) obtain n :: u16 where vs: "vs = [MU16 (it_clientId ?it), MByte (ucast n)]"
      by (auto simp: AddItem_values_def Let_def bind_eq_Some_conv)
    have "wire vs @ bs = wire [MU16 (it_clientId ?it)] @ wire [MByte (ucast n)] @ bs" by (simp add: vs)
    with one two [of "ucast n" bs] c True assms(2) vs show ?thesis
      by (simp add: take_thing_def showable_item_def Let_def del: take_values.simps msg_bytes.simps)
  next
    case False
    with assms(1) have vs: "vs = [MU16 (it_clientId ?it)]" by (simp add: AddItem_values_def Let_def)
    with one [of "it_clientId ?it" bs] c False assms(2) show ?thesis
      by (simp add: take_thing_def showable_item_def Let_def del: take_values.simps(2) msg_bytes.simps)
  qed
qed

lemma take_look_creature:
  assumes "lookType (sc_outfit c) < 2 ^ 16"
  shows "take_look (wire ([MByte h, MByte d] @
      (if \<not> sc_invisible c then AddCreatureOutfit v (sc_outfit c) else AddCreatureInvisible v c) @
      [MByte l1, MByte l2, MU16 s, MByte k1, MByte k2]) @ bs) =
    Some ([MByte h, MByte d] @ (if \<not> sc_invisible c then AddCreatureOutfit v (sc_outfit c) else AddCreatureInvisible v c) @
      [MByte l1, MByte l2, MU16 s, MByte k1, MByte k2], bs)"
proof -
  let ?look = "if \<not> sc_invisible c then AddCreatureOutfit v (sc_outfit c) else AddCreatureInvisible v c"
  have z: "(ucast (lookType (sc_outfit c)) :: u16) = 0 \<longleftrightarrow> lookType (sc_outfit c) = 0"
    using assms by (metis ucast_small(2) unsigned_0)
  obtain w r where look: "?look = MU16 w # r" "list_all2 readable r (if w = 0 then [TU16] else [TByte, TByte, TByte, TByte])"
    using z by (cases "sc_invisible c"; cases "vi_seesInvisible v"; cases "lookType (sc_outfit c) = 0")
      (auto simp: AddCreatureOutfit_def AddCreatureInvisible_def AddItemId_value_def)
  let ?a = "[MByte h, MByte d, MU16 w]" and ?c = "[MByte l1, MByte l2, MU16 s, MByte k1, MByte k2]"
  have e: "wire ([MByte h, MByte d] @ ?look @ ?c) @ bs = wire ?a @ wire r @ wire ?c @ bs"
    unfolding look(1) by simp
  have "take_values [TByte, TByte, TU16] (wire ?a @ wire r @ wire ?c @ bs) = Some (?a, wire r @ wire ?c @ bs)"
    by (rule take_values_wire) simp
  moreover have "take_values (if w = 0 then [TU16] else [TByte, TByte, TByte, TByte]) (wire r @ wire ?c @ bs) = Some (r, wire ?c @ bs)"
    by (rule take_values_wire) (rule look(2))
  moreover have "take_values [TByte, TByte, TU16, TByte, TByte] (wire ?c @ bs) = Some (?c, bs)"
    by (rule take_values_wire) simp
  ultimately show ?thesis unfolding e look(1) take_look_def
    by (simp del: take_values.simps msg_bytes.simps)
qed

lemma take_thing_creature:
  assumes "showable_creature c"
  shows "take_thing sized (wire (AddCreature v c known r) @ bs) = Some (AddCreature v c known r, bs)"
proof -
  let ?look = "[MByte (health_percent c), MByte (direction_no (sc_direction c))] @
     (if \<not> sc_invisible c then AddCreatureOutfit v (sc_outfit c) else AddCreatureInvisible v c) @
     [MByte (ucast (light_level (sc_light c))), MByte (ucast (light_color (sc_light c))),
      MU16 (word_of_int (sc_speed c)), MByte (sc_skull c), MByte (sc_shield c)]"
  have look: "take_look (wire ?look @ bs) = Some (?look, bs)"
    by (rule take_look_creature) (use assms in \<open>simp add: showable_creature_def\<close>)
  show ?thesis
  proof (cases known)
    case True
    have c: "AddCreature v c known r = [MU16 0x62] @ [MU32 (sc_id c)] @ ?look" using True by (simp add: AddCreature_def)
    have w: "wire (AddCreature v c known r) @ bs = wire [MU16 0x62] @ wire [MU32 (sc_id c)] @ wire ?look @ bs"
      unfolding c by simp
    have "take_values [TU16] (wire [MU16 0x62] @ wire [MU32 (sc_id c)] @ wire ?look @ bs) = Some ([MU16 0x62], wire [MU32 (sc_id c)] @ wire ?look @ bs)"
      by (rule take_values_wire) simp
    moreover have "take_values [TU32] (wire [MU32 (sc_id c)] @ wire ?look @ bs) = Some ([MU32 (sc_id c)], wire ?look @ bs)"
      by (rule take_values_wire) simp
    ultimately show ?thesis using look unfolding w unfolding c take_thing_def
      by (simp del: take_values.simps msg_bytes.simps)
  next
    case False
    have c: "AddCreature v c known r = [MU16 0x61] @ [MU32 r, MU32 (sc_id c), MString (sc_name c)] @ ?look" using False by (simp add: AddCreature_def)
    have w: "wire (AddCreature v c known r) @ bs = wire [MU16 0x61] @ wire [MU32 r, MU32 (sc_id c), MString (sc_name c)] @ wire ?look @ bs"
      unfolding c by simp
    have "take_values [TU16] (wire [MU16 0x61] @ wire [MU32 r, MU32 (sc_id c), MString (sc_name c)] @ wire ?look @ bs) =
        Some ([MU16 0x61], wire [MU32 r, MU32 (sc_id c), MString (sc_name c)] @ wire ?look @ bs)"
      by (rule take_values_wire) simp
    moreover have "take_values [TU32, TU32, TString] (wire [MU32 r, MU32 (sc_id c), MString (sc_name c)] @ wire ?look @ bs) =
        Some ([MU32 r, MU32 (sc_id c), MString (sc_name c)], wire ?look @ bs)"
      by (rule take_values_wire) (use assms in \<open>simp add: showable_creature_def wire_string_def\<close>)
    ultimately show ?thesis using look unfolding w unfolding c take_thing_def
      by (simp del: take_values.simps msg_bytes.simps)
  qed
qed


section \<open>The description of a tile\<close>

text \<open>The things of a stack one by one.\<close>

fun show_things :: "Viewer \<Rightarrow> Tile \<Rightarrow> Thing list \<Rightarrow> u32 list \<Rightarrow> (msg_value list list \<times> u32 list) option" where
  "show_things v t [] ks = Some ([], ks)"
| "show_things v t (ItemThing a # r) ks = do {
     d \<leftarrow> AddItem_values (vi_items v) (item_at t a);
     (ds, ks) \<leftarrow> show_things v t r ks;
     Some (d # ds, ks) }"
| "show_things v t (CreatureThing c # r) ks = do {
     (d, ks) \<leftarrow> Some (show_creature v (vi_creature v c) ks);
     (ds, ks) \<leftarrow> show_things v t r ks;
     Some (d # ds, ks) }"

lemma show_things_append:
  "show_things v t (xs @ ys) ks = do {
     (as, ks) \<leftarrow> show_things v t xs ks;
     (bs, ks) \<leftarrow> show_things v t ys ks;
     Some (as @ bs, ks) }"
proof (induction xs arbitrary: ks)
  case Nil
  show ?case by (cases "show_things v t ys ks") auto
next
  case (Cons x xs)
  show ?case
  proof (cases x)
    case (ItemThing a)
    with Cons show ?thesis by (cases "AddItem_values (vi_items v) (item_at t a)") (auto split: bind_splits)
  next
    case (CreatureThing c)
    obtain d ks' where "show_creature v (vi_creature v c) ks = (d, ks')" by (cases "show_creature v (vi_creature v c) ks")
    with CreatureThing Cons show ?thesis by (auto split: bind_splits)
  qed
qed

lemma describe_items_things:
  "cnt \<le> 10 \<Longrightarrow> case show_things v t (take (10 - cnt) (map ItemThing as)) ks of
      None \<Rightarrow> describe_items (vi_items v) (map (item_at t) as) cnt = None
    | Some (ds, ks') \<Rightarrow> ks' = ks \<and> describe_items (vi_items v) (map (item_at t) as) cnt = Some (concat ds, min 10 (cnt + length as))"
proof (induction as arbitrary: cnt)
  case (Cons a as)
  show ?case
  proof (cases "cnt < 10")
    case True
    then have s: "10 - cnt = Suc (10 - (cnt + 1))" "cnt + 1 \<le> 10" by auto
    from Cons.IH [OF s(2)] True show ?thesis
      by (cases "AddItem_values (vi_items v) (item_at t a)";
          cases "show_things v t (take (10 - (cnt + 1)) (map ItemThing as)) ks")
         (auto simp: s(1))
  next
    case False
    with Cons.prems show ?thesis by simp
  qed
qed simp

lemma describe_creatures_things:
  "cnt \<le> 10 \<Longrightarrow> \<exists>ds ks'. show_things v t (take (10 - cnt) (map CreatureThing cs)) ks = Some (ds, ks') \<and>
    describe_creatures v cs cnt ks = (concat ds, min 10 (cnt + length cs), ks')"
proof (induction cs arbitrary: cnt ks)
  case (Cons c cs)
  show ?case
  proof (cases "cnt < 10")
    case True
    then have s: "10 - cnt = Suc (10 - (cnt + 1))" "cnt + 1 \<le> 10" by auto
    obtain d ks1 where d: "show_creature v (vi_creature v c) ks = (d, ks1)" by (cases "show_creature v (vi_creature v c) ks")
    from Cons.IH [OF s(2), of ks1] obtain ds ks2 where
      "show_things v t (take (10 - (cnt + 1)) (map CreatureThing cs)) ks1 = Some (ds, ks2)"
      "describe_creatures v cs (cnt + 1) ks1 = (concat ds, min 10 (cnt + 1 + length cs), ks2)" by blast
    with d True show ?thesis by (simp add: s(1))
  next
    case False
    with Cons.prems show ?thesis by simp
  qed
qed simp

lemma tile_description_things:
  "GetTileDescription v t ks = map_option (apfst concat) (show_things v t (take 10 (stack t)) ks)"
proof -
  let ?g = "case ground t of None \<Rightarrow> [] | Some g \<Rightarrow> [ItemThing g]"
  let ?n1 = "length ?g" and ?top = "topItems t" and ?crs = "creatures t" and ?down = "downItems t"
  let ?n2 = "min 10 (?n1 + length ?top)"
  let ?n3 = "min 10 (?n2 + length ?crs)"
  have n1: "?n1 \<le> 1" by (simp split: option.split)
  have cut: "take 10 (stack t) = ?g @ take (10 - ?n1) (map ItemThing ?top) @ take (10 - ?n2) (map CreatureThing ?crs) @
      take (10 - ?n3) (map ItemThing ?down)"
  proof -
    have m: "10 - min 10 (k :: nat) = 10 - k" "10 - (min 10 (k :: nat) + c) = 10 - (k + c)" for k c
      by (simp_all add: min_def)
    show ?thesis using n1 by (simp add: stack_def m)
  qed
  have g: "(case ground t of None \<Rightarrow> Some ([], 0) | Some a \<Rightarrow> do {
        d \<leftarrow> AddItem_values (vi_items v) (item_at t a); Some (d, 1 :: nat) }) =
      map_option (\<lambda>(ds, _). (concat ds, ?n1)) (show_things v t ?g ks)" for ks
    by (cases "ground t"; cases "AddItem_values (vi_items v) (item_at t (the (ground t)))") auto
  have g_ks: "show_things v t ?g ks = Some (ds, ks') \<Longrightarrow> ks' = ks" for ds ks'
    by (cases "ground t") (auto simp: bind_eq_Some_conv)
  show ?thesis
  proof (cases "show_things v t ?g ks")
    case None
    then show ?thesis unfolding GetTileDescription_def g [of ks] cut by (simp add: show_things_append)
  next
    case (Some gd)
    then obtain d0 where d0: "show_things v t ?g ks = Some (d0, ks)" using g_ks by (cases gd) auto
    have n1': "?n1 \<le> 10" using n1 by simp
    show ?thesis
    proof (cases "show_things v t (take (10 - ?n1) (map ItemThing ?top)) ks")
      case None
      with describe_items_things [OF n1', of v t ?top ks] d0 show ?thesis
        unfolding GetTileDescription_def g [of ks] cut by (simp add: show_things_append)
    next
      case (Some td)
      then obtain d1 where d1: "show_things v t (take (10 - ?n1) (map ItemThing ?top)) ks = Some (d1, ks)"
        "describe_items (vi_items v) (map (item_at t) ?top) ?n1 = Some (concat d1, ?n2)"
        using describe_items_things [OF n1', of v t ?top ks] by (cases td) auto
      have n2: "?n2 \<le> 10" by simp
      from describe_creatures_things [OF n2, of v t ?crs ks] obtain d2 ks2 where
        d2: "show_things v t (take (10 - ?n2) (map CreatureThing ?crs)) ks = Some (d2, ks2)"
        "describe_creatures v ?crs ?n2 ks = (concat d2, ?n3, ks2)" by blast
      have n3: "?n3 \<le> 10" by simp
      show ?thesis
        using describe_items_things [OF n3, of v t ?down ks2] d0 d1 d2
        unfolding GetTileDescription_def g [of ks] cut
        by (cases "show_things v t (take (10 - ?n3) (map ItemThing ?down)) ks2") (auto simp: show_things_append)
    qed
  qed
qed


section \<open>The description of cells\<close>

text \<open>What each position shows, in order; a position without a tile shows nothing.\<close>

fun show_cells :: "Viewer \<Rightarrow> (int \<times> int \<times> int) list \<Rightarrow> u32 list \<Rightarrow> (msg_value list list list \<times> u32 list) option" where
  "show_cells v [] ks = Some ([], ks)"
| "show_cells v ((x, y, z) # ps) ks = do {
     (c, ks) \<leftarrow> (case vi_tile v x y z of None \<Rightarrow> Some ([], ks) | Some t \<Rightarrow> show_things v t (take 10 (stack t)) ks);
     (cs, ks) \<leftarrow> show_cells v ps ks;
     Some (c # cs, ks) }"

text \<open>The client reads the things of a cell up to a marker, whose second byte no code of a thing has.\<close>

function take_things :: "(u16 \<Rightarrow> bool) \<Rightarrow> u8 list \<Rightarrow> msg_value list list \<times> u8 list" where
  "take_things sized bs =
     (case bs of
        lo # hi # _ \<Rightarrow>
          if hi = 0xFF then ([], bs)
          else (case take_thing sized bs of
              None \<Rightarrow> ([], bs)
            | Some (d, r) \<Rightarrow> if length r < length bs then (let (ds, r) = take_things sized r in (d # ds, r)) else ([], bs))
      | _ \<Rightarrow> ([], bs))"
  by pat_completeness auto
termination
  by (relation "measure (\<lambda>(s, bs). length bs)") auto

declare take_things.simps [simp del]

function take_cells :: "(u16 \<Rightarrow> bool) \<Rightarrow> nat \<Rightarrow> u8 list \<Rightarrow> (msg_value list list list \<times> u8 list) option" where
  "take_cells sized n bs =
     (if n = 0 then Some ([], bs)
      else case take_things sized bs of
          (c, k # hi # r) \<Rightarrow>
            if hi = 0xFF \<and> unat k < n
            then do { (cs, r) \<leftarrow> take_cells sized (n - (unat k + 1)) r; Some (c # replicate (unat k) [] @ cs, r) }
            else None
        | _ \<Rightarrow> None)"
  by pat_completeness auto
termination
  by (relation "measure (\<lambda>(s, n, bs). n)") auto

declare take_cells.simps [simp del]

text \<open>A thing as the reader expects it: at least two bytes, the second not the marker.\<close>

definition thing_wire :: "(u16 \<Rightarrow> bool) \<Rightarrow> msg_value list \<Rightarrow> bool" where
  "thing_wire sized d \<longleftrightarrow> (\<exists>lo hi r. wire d = lo # hi # r \<and> hi \<noteq> 0xFF) \<and>
     (\<forall>bs. take_thing sized (wire d @ bs) = Some (d, bs))"

lemma take_things_done: "take_things sized [] = ([], [])" "take_things sized (k # 0xFF # bs) = ([], k # 0xFF # bs)"
  by (subst take_things.simps, simp)+

lemma take_things_more:
  assumes "thing_wire sized d"
  shows "take_things sized (wire d @ bs) = (let (ds, r) = take_things sized bs in (d # ds, r))"
proof -
  from assms obtain lo hi r where w: "wire d = lo # hi # r" "hi \<noteq> 0xFF" "take_thing sized (wire d @ bs) = Some (d, bs)"
    by (auto simp: thing_wire_def)
  then show ?thesis by (subst take_things.simps) simp
qed

lemma take_things_all:
  "list_all (thing_wire sized) ds \<Longrightarrow> take_things sized (wire (concat ds) @ k # 0xFF # bs) = (ds, k # 0xFF # bs)"
proof (induction ds)
  case Nil
  show ?case by (simp add: take_things_done)
next
  case (Cons d ds)
  then show ?case using take_things_more [of sized d "wire (concat ds) @ k # 0xFF # bs"] by simp
qed

lemma take_cells_cell:
  assumes "list_all (thing_wire sized) ds" "k < n" "k < 256"
  shows "take_cells sized n (wire (concat ds) @ word_of_nat k # 0xFF # bs) =
    map_option (apfst (\<lambda>cs. ds # replicate k [] @ cs)) (take_cells sized (n - (k + 1)) bs)"
proof -
  have "unat (word_of_nat k :: u8) = k" using assms(3) by (intro unat_of_nat_eq) simp
  with assms show ?thesis
    by (subst take_cells.simps) (auto simp: take_things_all split: bind_splits)
qed

lemma wire_marker: "0 \<le> skip \<Longrightarrow> wire (skip_marker skip) = [word_of_int skip, 0xFF]"
  by (simp add: skip_marker_def)

lemma take_cells_0: "take_cells sized 0 bs = Some ([], bs)"
  by (subst take_cells.simps) simp

text \<open>Two situations at the start of a run of cells: nothing pending, or a cell with the things \<open>c\<close> and \<open>skip\<close> empty
  cells behind it.  In both, the bytes \<open>w\<close> are read as the next \<open>n\<close> cells \<open>cs\<close>.\<close>

definition reads_on :: "(u16 \<Rightarrow> bool) \<Rightarrow> int \<Rightarrow> nat \<Rightarrow> u8 list \<Rightarrow> msg_value list list list \<Rightarrow> bool" where
  "reads_on sized skip n w cs \<longleftrightarrow>
     (if skip = -1 then take_cells sized n w = Some (cs, [])
      else \<forall>c. list_all (thing_wire sized) c \<longrightarrow>
        take_cells sized (n + 1 + nat skip) (wire (concat c) @ w) = Some (c # replicate (nat skip) [] @ cs, []))"

lemma reads_marker:
  assumes "0 \<le> skip" "skip < 256" "list_all (thing_wire sized) c"
  shows "take_cells sized (n + 1 + nat skip) (wire (concat c) @ wire (skip_marker skip) @ w) =
    map_option (apfst (\<lambda>cs. c # replicate (nat skip) [] @ cs)) (take_cells sized n w)"
proof -
  have "word_of_int skip = (word_of_nat (nat skip) :: u8)" using assms(1) by simp
  moreover have "nat skip < n + 1 + nat skip" "nat skip < 256" using assms by auto
  ultimately show ?thesis
    using take_cells_cell [OF assms(3), of "nat skip" "n + 1 + nat skip" w] assms(1) by (simp add: wire_marker)
qed

lemma reads_on_end: "-1 \<le> s \<Longrightarrow> s < 255 \<Longrightarrow> reads_on sized s 0 (wire (skip_marker s)) []"
  using reads_marker [of s sized _ 0 "[]"]
  by (cases "s = -1") (auto simp: reads_on_def skip_marker_def take_cells_0 simp del: append_Nil2)

lemma reads_on_gap:
  assumes "-1 \<le> skip" "reads_on sized (skip + 1) n w cs"
  shows "reads_on sized skip (n + 1) w ([] # cs)"
proof (cases "skip = -1")
  case True
  with assms(2) show ?thesis by (auto simp: reads_on_def dest!: spec [of _ "[]"])
next
  case False
  with assms(1) have k: "nat (skip + 1) = Suc (nat skip)" by simp
  have e: "replicate (nat skip) [] @ [] # cs = [] # replicate (nat skip) [] @ cs"
    by (metis append_Cons replicate_app_Cons_same)
  have "n + 1 + 1 + nat skip = n + 1 + nat (skip + 1)" using k by simp
  with assms False show ?thesis by (auto simp: reads_on_def k e)
qed

lemma reads_on_full: "reads_on sized (-1) n w cs \<Longrightarrow> reads_on sized 254 (n + 1) ([0xFF, 0xFF] @ w) ([] # cs)"
proof -
  assume r: "reads_on sized (-1) n w cs"
  have e: "replicate 255 [] = replicate 254 [] @ [[] :: msg_value list list]"
    by (metis replicate_append_same replicate_Suc numeral_eq_Suc pred_numeral_simps(3) BitM.simps)
  have "take_cells sized (n + 1 + 1 + nat 254) (wire (concat c) @ [0xFF, 0xFF] @ w) =
      Some (c # replicate (nat 254) [] @ [] # cs, [])" if c: "list_all (thing_wire sized) c" for c
  proof -
    have "n + 1 + 1 + nat 254 = n + 1 + nat 255" by simp
    then have "take_cells sized (n + 1 + 1 + nat 254) (wire (concat c) @ [0xFF, 0xFF] @ w) = Some (c # replicate 255 [] @ cs, [])"
      using reads_marker [of 255 sized c n w, OF _ _ c] r by (simp add: wire_marker reads_on_def)
    then show ?thesis by (simp add: e)
  qed
  then show ?thesis by (simp add: reads_on_def)
qed

lemma reads_on_tile:
  assumes "-1 \<le> skip" "skip < 255" "list_all (thing_wire sized) ds" "reads_on sized 0 n w cs"
  shows "reads_on sized skip (n + 1) (wire (skip_marker skip) @ wire (concat ds) @ w) (ds # cs)"
proof -
  from assms(3,4) have ds: "take_cells sized (n + 1) (wire (concat ds) @ w) = Some (ds # cs, [])"
    by (auto simp: reads_on_def)
  show ?thesis
  proof (cases "skip = -1")
    case True
    with ds show ?thesis by (simp add: reads_on_def skip_marker_def)
  next
    case False
    with assms reads_marker [of skip sized _ "n + 1" "wire (concat ds) @ w"] ds
    show ?thesis by (auto simp: reads_on_def)
  qed
qed


definition showable :: "Viewer \<Rightarrow> (u16 \<Rightarrow> bool) \<Rightarrow> Tile \<Rightarrow> bool" where
  "showable v sized t \<longleftrightarrow> list_all (\<lambda>x. case x of
      ItemThing a \<Rightarrow> showable_item (vi_items v) sized (item_at t a)
    | CreatureThing c \<Rightarrow> showable_creature (vi_creature v c)) (take 10 (stack t))"

lemma wire_u16: "wire (MU16 w # vs) = ucast w # ucast (drop_bit 8 w) # wire vs"
  by (simp add: numeral_2_eq_2)

lemma high_byte:
  assumes "w < (0xFF00 :: u16)"
  shows "(ucast (drop_bit 8 w) :: u8) \<noteq> 0xFF"
proof
  assume "(ucast (drop_bit 8 w) :: u8) = 0xFF"
  then have "uint (drop_bit 8 w) mod 2 ^ 8 = 0xFF" by (simp add: word_uint_eq_iff unsigned_ucast_eq take_bit_eq_mod unsigned_take_bit_eq)
  moreover have "uint (drop_bit 8 w) = uint w div 2 ^ 8" by (simp add: drop_bit_eq_div uint_div)
  moreover have "uint w < 0xFF00" using assms by (simp add: word_less_def)
  ultimately have d: "uint w div 256 mod 256 = 255" "uint w < 0xFF00" by simp_all
  have "uint w div 256 \<le> 65279 div 256" using d(2) by (intro zdiv_mono1) simp_all
  then have "uint w div 256 \<le> 254" by simp
  moreover have "0 \<le> uint w div 256" by (intro pos_imp_zdiv_nonneg_iff [THEN iffD2]) simp_all
  ultimately have "uint w div 256 mod 256 = uint w div 256" by (intro mod_pos_pos_trivial) linarith+
  with d(1) \<open>uint w div 256 \<le> 254\<close> show False by linarith
qed

lemma thing_wire_values:
  "AddItem_values items i = Some d \<Longrightarrow> showable_item items sized i \<Longrightarrow> thing_wire sized d"
  "showable_creature c \<Longrightarrow> thing_wire sized (AddCreature v c known r)"
proof -
  assume d: "AddItem_values items i = Some d" and s: "showable_item items sized i"
  obtain vs where vs: "d = MU16 (it_clientId (item_type items i)) # vs"
    using d by (auto simp: AddItem_values_def Let_def bind_eq_Some_conv split: if_splits)
  have "(ucast (drop_bit 8 (it_clientId (item_type items i))) :: u8) \<noteq> 0xFF"
    using s by (intro high_byte) (simp add: showable_item_def Let_def)
  then have "\<exists>lo hi r. wire d = lo # hi # r \<and> hi \<noteq> 0xFF" unfolding vs wire_u16 by blast
  with take_thing_item [OF d s] show "thing_wire sized d" by (simp add: thing_wire_def)
next
  assume c: "showable_creature c"
  obtain w vs where "AddCreature v c known r = MU16 w # vs" "w = 0x61 \<or> w = 0x62"
    by (cases known) (auto simp: AddCreature_def)
  moreover from this(2) have "(ucast (drop_bit 8 w) :: u8) \<noteq> 0xFF" by (intro high_byte) auto
  ultimately have "\<exists>lo hi rs. wire (AddCreature v c known r) = lo # hi # rs \<and> hi \<noteq> 0xFF" by (metis wire_u16)
  with take_thing_creature [OF c] show "thing_wire sized (AddCreature v c known r)" by (simp add: thing_wire_def)
qed

lemma show_things_wire:
  assumes "show_things v t xs ks = Some (ds, ks')"
    "list_all (\<lambda>x. case x of ItemThing a \<Rightarrow> showable_item (vi_items v) sized (item_at t a)
      | CreatureThing c \<Rightarrow> showable_creature (vi_creature v c)) xs"
  shows "list_all (thing_wire sized) ds"
  using assms
proof (induction v t xs ks arbitrary: ds ks' rule: show_things.induct)
  case (2 v t a r ks)
  then show ?case by (auto simp: bind_eq_Some_conv intro: thing_wire_values(1))
next
  case (3 v t c r ks)
  then show ?case by (auto simp: bind_eq_Some_conv show_creature_def Let_def split: prod.splits intro: thing_wire_values(2))
qed simp

lemma describe_cells_read:
  assumes "describe_cells v ps skip ks = Some (vs, s, ks')" "-1 \<le> skip" "skip < 255"
    and "\<forall>(x, y, z) \<in> set ps. \<forall>t. vi_tile v x y z = Some t \<longrightarrow> showable v sized t"
  shows "-1 \<le> s \<and> s < 255 \<and> (\<exists>cs. show_cells v ps ks = Some (cs, ks') \<and>
    reads_on sized skip (length ps) (wire (vs @ skip_marker s)) cs)"
  using assms
proof (induction v ps skip ks arbitrary: vs s ks' rule: describe_cells.induct)
  case (1 v skip ks)
  then show ?case using reads_on_end [of skip sized] by auto
next
  case (2 v x y z ps skip ks)
  have ok: "\<forall>(x, y, z) \<in> set ps. \<forall>t. vi_tile v x y z = Some t \<longrightarrow> showable v sized t" using "2.prems"(4) by simp
  show ?case
  proof (cases "vi_tile v x y z")
    case None
    show ?thesis
    proof (cases "skip + 1 = 0xFF")
      case True
      with "2.prems"(1) None obtain us where us: "describe_cells v ps (-1) ks = Some (us, s, ks')"
        "vs = [MByte 0xFF, MByte 0xFF] @ us" by (auto simp: Let_def bind_eq_Some_conv)
      from "2.IH"(1) [OF None refl True us(1) _ _ ok] obtain cs where
        cs: "-1 \<le> s" "s < 255" "show_cells v ps ks = Some (cs, ks')" "reads_on sized (-1) (length ps) (wire (us @ skip_marker s)) cs"
        by auto
      have "skip = 254" using True by simp
      with reads_on_full [OF cs(4)] have "reads_on sized skip (length ((x, y, z) # ps)) (wire (vs @ skip_marker s)) ([] # cs)"
        unfolding us(2) by simp
      with cs(1-3) None show ?thesis by auto
    next
      case False
      then have k: "-1 \<le> skip + 1" "skip + 1 < 255" using "2.prems"(2,3) by auto
      from "2.prems"(1) None False have "describe_cells v ps (skip + 1) ks = Some (vs, s, ks')" by (simp add: Let_def)
      from "2.IH"(2) [OF None refl False this k ok] obtain cs where
        cs: "-1 \<le> s" "s < 255" "show_cells v ps ks = Some (cs, ks')" "reads_on sized (skip + 1) (length ps) (wire (vs @ skip_marker s)) cs"
        by auto
      with reads_on_gap [OF "2.prems"(2) cs(4)] None show ?thesis by auto
    qed
  next
    case (Some t)
    with "2.prems"(1) obtain d ks1 us where d: "GetTileDescription v t ks = Some (d, ks1)"
      and us: "describe_cells v ps 0 ks1 = Some (us, s, ks')" and vs: "vs = skip_marker skip @ d @ us"
      by (auto simp: bind_eq_Some_conv)
    from d obtain ds where ds: "show_things v t (take 10 (stack t)) ks = Some (ds, ks1)" "d = concat ds"
      by (auto simp: tile_description_things)
    have "showable v sized t" using "2.prems"(4) Some by simp
    with ds(1) have w: "list_all (thing_wire sized) ds" unfolding showable_def by (rule show_things_wire)
    from "2.IH"(3) [OF Some d refl us _ _ ok] obtain cs where
      cs: "-1 \<le> s" "s < 255" "show_cells v ps ks1 = Some (cs, ks')" "reads_on sized 0 (length ps) (wire (us @ skip_marker s)) cs"
      by auto
    from reads_on_tile [OF "2.prems"(2,3) w cs(4)]
    have "reads_on sized skip (length ((x, y, z) # ps)) (wire (vs @ skip_marker s)) (ds # cs)" by (simp add: vs ds(2))
    with cs(1-3) ds(1) Some show ?thesis by auto
  qed
qed


section \<open>The description of the map\<close>

lemma describe_cells_append:
  "describe_cells v (ps @ qs) skip ks = do {
     (d, skip, ks) \<leftarrow> describe_cells v ps skip ks;
     (vs, skip, ks) \<leftarrow> describe_cells v qs skip ks;
     Some (d @ vs, skip, ks) }"
proof (induction v ps skip ks rule: describe_cells.induct)
  case (1 v skip ks)
  show ?case by (cases "describe_cells v qs skip ks") auto
next
  case (2 v x y z ps skip ks)
  show ?case
  proof (cases "vi_tile v x y z")
    case None
    with 2 show ?thesis by (cases "skip + 1 = 0xFF") (auto simp: Let_def split: bind_splits)
  next
    case (Some t)
    show ?thesis
    proof (cases "GetTileDescription v t ks")
      case (Some dk)
      obtain d ks1 where dk: "dk = (d, ks1)" by (cases dk)
      show ?thesis using \<open>vi_tile v x y z = Some t\<close> Some "2.IH"(3) [OF \<open>vi_tile v x y z = Some t\<close> Some dk [symmetric]]
        by (auto simp: dk split: bind_splits)
    qed (use \<open>vi_tile v x y z = Some t\<close> in simp)
  qed
qed

text \<open>All positions of a description, floor by floor.\<close>

definition map_cells :: "int \<Rightarrow> int \<Rightarrow> int \<Rightarrow> int list \<Rightarrow> int \<Rightarrow> int \<Rightarrow> (int \<times> int \<times> int) list" where
  "map_cells x y z nzs width height = concat (map (\<lambda>nz. floor_cells x y nz width height (z - nz)) nzs)"

lemma describe_floors_cells:
  "describe_floors v x y z nzs width height skip ks = describe_cells v (map_cells x y z nzs width height) skip ks"
  by (induction v x y z nzs width height skip ks rule: describe_floors.induct)
     (auto simp: map_cells_def describe_cells_append GetFloorDescription_def split: bind_splits)

text \<open>
  C3. The description of a part of the map says exactly what there is: a client that reads its bytes finds,
  for every position of the part, floor by floor and column by column, the first ten things of the stack of the
  tile there, item by item and creature by creature as they were added, and nothing where there is no tile; the
  markers of skipped positions, which the floors share, leave no byte unread.
\<close>
theorem map_description_decodes:
  assumes "GetMapDescription v x y z width height ks = Some (vs, ks')" "map_floors z = Some nzs"
    and "\<forall>(x, y, z) \<in> set (map_cells (uint x) (uint y) (uint z) nzs width height). \<forall>t. vi_tile v x y z = Some t \<longrightarrow> showable v sized t"
  shows "\<exists>cs. show_cells v (map_cells (uint x) (uint y) (uint z) nzs width height) ks = Some (cs, ks') \<and>
    take_cells sized (length (map_cells (uint x) (uint y) (uint z) nzs width height)) (concat (map msg_bytes vs)) = Some (cs, [])"
proof -
  from assms(1,2) obtain us s where us: "describe_cells v (map_cells (uint x) (uint y) (uint z) nzs width height) (-1) ks = Some (us, s, ks')"
    "vs = us @ skip_marker s"
    by (auto simp: GetMapDescription_def describe_floors_cells bind_eq_Some_conv)
  from describe_cells_read [OF us(1) _ _ assms(3)] us(2) show ?thesis by (auto simp: reads_on_def)
qed

section \<open>Sight and description\<close>

text \<open>
  What a client is told of the map when it enters is what \<open>canSee\<close> later takes it to see: the described positions
  are the visible ones on the floors that exist, for a player with room for the view around it on a floor
  of the map.
\<close>
theorem description_is_what_canSee:
  assumes "8 \<le> px (vi_pos v)" "6 \<le> py (vi_pos v)" "pz (vi_pos v) < 16"
  shows "map_floors (ucast (pz (vi_pos v))) = Some nzs \<Longrightarrow>
    set (map_cells (uint (px (vi_pos v) - 8)) (uint (py (vi_pos v) - 6)) (uint (ucast (pz (vi_pos v)) :: u8)) nzs 18 14) =
    {(x, y, z). canSee v x y z \<and> 0 \<le> z \<and> z < 16}"
proof -
  assume nzs: "map_floors (ucast (pz (vi_pos v))) = Some nzs"
  define X Y Z where "X = uint (px (vi_pos v))" and "Y = uint (py (vi_pos v))" and "Z = uint (pz (vi_pos v))"
  have x: "uint (px (vi_pos v) - 8) = X - 8" using assms(1) by (simp add: X_def uint_minus_simple_alt)
  have y: "uint (py (vi_pos v) - 6) = Y - 6" using assms(2) by (simp add: Y_def uint_minus_simple_alt)
  have Z: "0 \<le> Z" "Z < 16" using assms(3) by (auto simp: Z_def word_less_def)
  have z: "uint (ucast (pz (vi_pos v)) :: u8) = Z"
    using Z by (simp add: Z_def unsigned_ucast_eq take_bit_int_eq_self)
  have gt: "(ucast (pz (vi_pos v)) :: u8) > 7 \<longleftrightarrow> Z > 7" "\<not> (ucast (pz (vi_pos v)) :: u8) > 18"
    using Z z by (auto simp: word_less_def)
  have floors: "set nzs = (if Z > 7 then {Z - 2..min 15 (Z + 2)} else {0..7})"
    using nzs gt z by (auto simp: map_floors_def split: if_splits)
  have "canSee v a b c \<and> 0 \<le> c \<and> c < 16 \<longleftrightarrow> c \<in> set nzs \<and> a \<in> {X - 8 + (Z - c)..X + 9 + (Z - c)} \<and> b \<in> {Y - 6 + (Z - c)..Y + 7 + (Z - c)}" for a b c
    using Z unfolding canSee_def Let_def X_def [symmetric] Y_def [symmetric] Z_def [symmetric] floors by auto
  moreover have "(a, b, c) \<in> set (map_cells (X - 8) (Y - 6) Z nzs 18 14) \<longleftrightarrow>
      c \<in> set nzs \<and> a \<in> {X - 8 + (Z - c)..X + 9 + (Z - c)} \<and> b \<in> {Y - 6 + (Z - c)..Y + 7 + (Z - c)}" for a b c
  proof -
    have "(\<exists>nx \<in> {0..17}. a = X - 8 + nx + (Z - c)) \<longleftrightarrow> a \<in> {X - 8 + (Z - c)..X + 9 + (Z - c)}" 
      by (auto intro!: bexI [of _ "a - (X - 8) - (Z - c)"])
    moreover have "(\<exists>ny \<in> {0..13}. b = Y - 6 + ny + (Z - c)) \<longleftrightarrow> b \<in> {Y - 6 + (Z - c)..Y + 7 + (Z - c)}"
      by (auto intro!: bexI [of _ "b - (Y - 6) - (Z - c)"])
    moreover have "(a, b, c) \<in> set (map_cells (X - 8) (Y - 6) Z nzs 18 14) \<longleftrightarrow>
        c \<in> set nzs \<and> (\<exists>nx \<in> {0..17}. a = X - 8 + nx + (Z - c)) \<and> (\<exists>ny \<in> {0..13}. b = Y - 6 + ny + (Z - c))"
      by (auto simp: map_cells_def floor_cells_def)
    ultimately show ?thesis by blast
  qed
  ultimately show ?thesis unfolding x y z by auto
qed

section \<open>The messages of a walking player\<close>

definition RemoveTileItem_values :: "position \<Rightarrow> nat \<Rightarrow> msg_value list" where
  "RemoveTileItem_values pos sp = (if sp < 10 then [MByte 0x6C, MPosition pos, MByte (word_of_nat sp)] else [])"

text \<open>Calls of \<open>GetFloorDescription\<close> for a screen at a corner, one for each floor and offset, with one counter of
  skipped positions, and the marker written at the end.\<close>

fun floor_calls :: "Viewer \<Rightarrow> int \<Rightarrow> int \<Rightarrow> (int \<times> int) list \<Rightarrow> int \<Rightarrow> u32 list \<Rightarrow> (msg_value list \<times> int \<times> u32 list) option" where
  "floor_calls v x y [] skip ks = Some ([], skip, ks)"
| "floor_calls v x y ((z, offset) # fs) skip ks = do {
     (d, skip, ks) \<leftarrow> GetFloorDescription v x y z 18 14 offset skip ks;
     (vs, skip, ks) \<leftarrow> floor_calls v x y fs skip ks;
     Some (d @ vs, skip, ks) }"

definition floors_and_marker :: "Viewer \<Rightarrow> int \<Rightarrow> int \<Rightarrow> (int \<times> int) list \<Rightarrow> u32 list \<Rightarrow> (msg_value list \<times> u32 list) option" where
  "floors_and_marker v x y fs ks = do {
     (vs, skip, ks) \<leftarrow> floor_calls v x y fs (-1) ks;
     Some (vs @ skip_marker skip, ks) }"

definition MoveUpCreature :: "Viewer \<Rightarrow> position \<Rightarrow> position \<Rightarrow> u32 list \<Rightarrow> (msg_value list \<times> u32 list) option" where
  "MoveUpCreature v newPos oldPos ks =
     (let x = uint (px oldPos) - 8; y = uint (py oldPos) - 6; newz = ucast (pz newPos) in do {
       (fl, ks) \<leftarrow>
         (if pz newPos = 7 then floors_and_marker v x y [(5, 3), (4, 4), (3, 5), (2, 6), (1, 7), (0, 8)] ks
          else if pz newPos > 7 then floors_and_marker v x y [(uint (pz oldPos) - 3, 3)] ks
          else Some ([], ks));
       (west, ks) \<leftarrow> GetMapDescription v (px oldPos - 8) (py oldPos + 1 - 6) newz 1 14 ks;
       (north, ks) \<leftarrow> GetMapDescription v (px oldPos - 8) (py oldPos - 6) newz 18 1 ks;
       Some ([MByte 0xBE] @ fl @ [MByte 0x68] @ west @ [MByte 0x65] @ north, ks) })"

definition MoveDownCreature :: "Viewer \<Rightarrow> position \<Rightarrow> position \<Rightarrow> u32 list \<Rightarrow> (msg_value list \<times> u32 list) option" where
  "MoveDownCreature v newPos oldPos ks =
     (let x = uint (px oldPos) - 8; y = uint (py oldPos) - 6; z = uint (pz newPos); newz = ucast (pz newPos) in do {
       (fl, ks) \<leftarrow>
         (if pz newPos = 8 then floors_and_marker v x y [(z, -1), (z + 1, -2), (z + 2, -3)] ks
          else if pz newPos > pz oldPos \<and> pz newPos > 8 \<and> pz newPos < 14 then floors_and_marker v x y [(z + 2, -3)] ks
          else Some ([], ks));
       (east, ks) \<leftarrow> GetMapDescription v (px oldPos + 9) (py oldPos - 1 - 6) newz 1 14 ks;
       (south, ks) \<leftarrow> GetMapDescription v (px oldPos - 8) (py oldPos + 7) newz 18 1 ks;
       Some ([MByte 0xBF] @ fl @ [MByte 0x66] @ east @ [MByte 0x67] @ south, ks) })"

text \<open>The row and the column that come into sight by a step on one floor.\<close>

definition row_described :: "Viewer \<Rightarrow> position \<Rightarrow> position \<Rightarrow> u32 list \<Rightarrow> (msg_value list \<times> u32 list) option" where
  "row_described v newPos oldPos ks =
     (if py oldPos > py newPos then do {
        (d, ks) \<leftarrow> GetMapDescription v (px oldPos - 8) (py newPos - 6) (ucast (pz newPos)) 18 1 ks;
        Some (MByte 0x65 # d, ks) }
      else if py oldPos < py newPos then do {
        (d, ks) \<leftarrow> GetMapDescription v (px oldPos - 8) (py newPos + 7) (ucast (pz newPos)) 18 1 ks;
        Some (MByte 0x67 # d, ks) }
      else Some ([], ks))"

definition column_described :: "Viewer \<Rightarrow> position \<Rightarrow> position \<Rightarrow> u32 list \<Rightarrow> (msg_value list \<times> u32 list) option" where
  "column_described v newPos oldPos ks =
     (if px oldPos < px newPos then do {
        (d, ks) \<leftarrow> GetMapDescription v (px newPos + 9) (py newPos - 6) (ucast (pz newPos)) 1 14 ks;
        Some (MByte 0x66 # d, ks) }
      else if px oldPos > px newPos then do {
        (d, ks) \<leftarrow> GetMapDescription v (px newPos - 8) (py newPos - 6) (ucast (pz newPos)) 1 14 ks;
        Some (MByte 0x68 # d, ks) }
      else Some ([], ks))"

text \<open>The branch of \<open>sendMoveCreature\<close> for the player itself.\<close>

definition sendMovePlayer :: "Viewer \<Rightarrow> position \<Rightarrow> position \<Rightarrow> nat \<Rightarrow> bool \<Rightarrow> u32 list \<Rightarrow> (msg_value list \<times> u32 list) option" where
  "sendMovePlayer v newPos oldPos oldStackPos teleport ks =
     (if teleport \<or> oldStackPos \<ge> 10 then do {
        (vs, ks) \<leftarrow> AddMapDescription v newPos ks;
        Some (RemoveTileItem_values oldPos oldStackPos @ vs, ks) }
      else do {
        hd \<leftarrow> Some (if pz oldPos = 7 \<and> pz newPos \<ge> 8 then RemoveTileItem_values oldPos oldStackPos
           else [MByte 0x6D, MPosition oldPos, MByte (word_of_nat oldStackPos), MPosition newPos]);
        (fl, ks) \<leftarrow>
          (if pz newPos > pz oldPos then MoveDownCreature v newPos oldPos ks
           else if pz newPos < pz oldPos then MoveUpCreature v newPos oldPos ks
           else Some ([], ks));
        (row, ks) \<leftarrow> row_described v newPos oldPos ks;
        (column, ks) \<leftarrow> column_described v newPos oldPos ks;
        Some (hd @ fl @ row @ column, ks) })"

section \<open>What a walking player is shown\<close>

text \<open>A message as a sequence of plain values and descriptions of positions.\<close>

datatype view_part = Raw "msg_value list" | Cells "(int \<times> int \<times> int) list"

fun write_parts :: "Viewer \<Rightarrow> view_part list \<Rightarrow> u32 list \<Rightarrow> (msg_value list \<times> u32 list) option" where
  "write_parts v [] ks = Some ([], ks)"
| "write_parts v (Raw d # ps) ks = do { (vs, ks) \<leftarrow> write_parts v ps ks; Some (d @ vs, ks) }"
| "write_parts v (Cells c # ps) ks = do {
     (d, skip, ks) \<leftarrow> describe_cells v c (-1) ks;
     (vs, ks) \<leftarrow> write_parts v ps ks;
     Some (d @ skip_marker skip @ vs, ks) }"

fun part_cells :: "view_part \<Rightarrow> (int \<times> int \<times> int) set" where
  "part_cells (Raw d) = {}"
| "part_cells (Cells c) = set c"

definition shown :: "view_part list \<Rightarrow> (int \<times> int \<times> int) set" where
  "shown ps = (\<Union>p \<in> set ps. part_cells p)"

lemma shown_simps [simp]:
  "shown [] = {}" "shown (Raw d # ps) = shown ps" "shown (Cells c # ps) = set c \<union> shown ps" "shown (ps @ qs) = shown ps \<union> shown qs"
  by (auto simp: shown_def)

lemma write_parts_append:
  "write_parts v (ps @ qs) ks = do { (a, ks) \<leftarrow> write_parts v ps ks; (b, ks) \<leftarrow> write_parts v qs ks; Some (a @ b, ks) }"
  by (induction v ps ks rule: write_parts.induct) (auto split: bind_splits)

text \<open>\<open>writes f ps\<close>: whatever the list of creatures, \<open>f\<close> writes the parts \<open>ps\<close>.\<close>

definition writes :: "Viewer \<Rightarrow> (u32 list \<Rightarrow> (msg_value list \<times> u32 list) option) \<Rightarrow> view_part list \<Rightarrow> bool" where
  "writes v f ps \<longleftrightarrow> (\<forall>ks. f ks = write_parts v ps ks)"

lemma writes_nothing: "writes v (\<lambda>ks. Some ([], ks)) []"
  by (simp add: writes_def)

lemma writes_seq:
  assumes "writes v f ps" "writes v g qs"
  shows "writes v (\<lambda>ks. do { (a, ks) \<leftarrow> f ks; (b, ks) \<leftarrow> g ks; Some (a @ b, ks) }) (ps @ qs)"
  using assms by (auto simp: writes_def write_parts_append)

lemma writes_raw: "writes v f ps \<Longrightarrow> writes v (\<lambda>ks. do { (a, ks) \<leftarrow> f ks; Some (d @ a, ks) }) (Raw d # ps)"
  by (simp add: writes_def)

lemma writes_map:
  "map_floors z = Some nzs \<Longrightarrow> writes v (GetMapDescription v x y z width height) [Cells (map_cells (uint x) (uint y) (uint z) nzs width height)]"
  by (auto simp: writes_def GetMapDescription_def describe_floors_cells split: bind_splits)

lemma floor_calls_cells:
  "floor_calls v x y fs skip ks = describe_cells v (concat (map (\<lambda>(z, offset). floor_cells x y z 18 14 offset) fs)) skip ks"
  by (induction v x y fs skip ks rule: floor_calls.induct)
     (auto simp: describe_cells_append GetFloorDescription_def split: bind_splits)

lemma writes_floors:
  "writes v (floors_and_marker v x y fs) [Cells (concat (map (\<lambda>(z, offset). floor_cells x y z 18 14 offset) fs))]"
  by (auto simp: writes_def floors_and_marker_def floor_calls_cells split: bind_splits)

lemma map_cells_mem:
  "(a, b, c) \<in> set (map_cells x y z nzs width height) \<longleftrightarrow>
    c \<in> set nzs \<and> x + (z - c) \<le> a \<and> a < x + (z - c) + width \<and> y + (z - c) \<le> b \<and> b < y + (z - c) + height"
proof -
  have "(\<exists>nx \<in> {0..width - 1}. a = x + nx + (z - c)) \<longleftrightarrow> x + (z - c) \<le> a \<and> a < x + (z - c) + width"
    by (auto intro!: bexI [of _ "a - x - (z - c)"])
  moreover have "(\<exists>ny \<in> {0..height - 1}. b = y + ny + (z - c)) \<longleftrightarrow> y + (z - c) \<le> b \<and> b < y + (z - c) + height"
    by (auto intro!: bexI [of _ "b - y - (z - c)"])
  moreover have "(a, b, c) \<in> set (map_cells x y z nzs width height) \<longleftrightarrow>
      c \<in> set nzs \<and> (\<exists>nx \<in> {0..width - 1}. a = x + nx + (z - c)) \<and> (\<exists>ny \<in> {0..height - 1}. b = y + ny + (z - c))"
    by (auto simp: map_cells_def floor_cells_def)
  ultimately show ?thesis by blast
qed

lemma floor_cells_mem:
  "(a, b, c) \<in> set (floor_cells x y z width height offset) \<longleftrightarrow>
    c = z \<and> x + offset \<le> a \<and> a < x + offset + width \<and> y + offset \<le> b \<and> b < y + offset + height"
proof -
  have "(\<exists>nx \<in> {0..width - 1}. a = x + nx + offset) \<longleftrightarrow> x + offset \<le> a \<and> a < x + offset + width"
    by (auto intro!: bexI [of _ "a - x - offset"])
  moreover have "(\<exists>ny \<in> {0..height - 1}. b = y + ny + offset) \<longleftrightarrow> y + offset \<le> b \<and> b < y + offset + height"
    by (auto intro!: bexI [of _ "b - y - offset"])
  moreover have "(a, b, c) \<in> set (floor_cells x y z width height offset) \<longleftrightarrow>
      c = z \<and> (\<exists>nx \<in> {0..width - 1}. a = x + nx + offset) \<and> (\<exists>ny \<in> {0..height - 1}. b = y + ny + offset)"
    by (auto simp: floor_cells_def)
  ultimately show ?thesis by blast
qed


text \<open>The positions seen from a place, on the floors that exist.\<close>

definition view_at :: "Viewer \<Rightarrow> position \<Rightarrow> (int \<times> int \<times> int) set" where
  "view_at v p = {(x, y, z). canSee (v\<lparr>vi_pos := p\<rparr>) x y z \<and> 0 \<le> z \<and> z < 16}"

definition seen_floors :: "int \<Rightarrow> int set" where
  "seen_floors z = (if z > 7 then {z - 2..min 15 (z + 2)} else {0..7})"

text \<open>Places with room for the view around them.\<close>

definition roomy :: "position \<Rightarrow> bool" where
  "roomy p \<longleftrightarrow> 9 \<le> uint (px p) \<and> uint (px p) \<le> 65526 \<and> 7 \<le> uint (py p) \<and> uint (py p) \<le> 65528 \<and> uint (pz p) < 16"

lemma view_at_mem:
  "uint (pz p) < 16 \<Longrightarrow> (a, b, c) \<in> view_at v p \<longleftrightarrow> c \<in> seen_floors (uint (pz p)) \<and>
    uint (px p) - 8 + (uint (pz p) - c) \<le> a \<and> a \<le> uint (px p) + 9 + (uint (pz p) - c) \<and>
    uint (py p) - 6 + (uint (pz p) - c) \<le> b \<and> b \<le> uint (py p) + 7 + (uint (pz p) - c)"
  unfolding view_at_def canSee_def Let_def seen_floors_def using uint_lt2p [of "pz p"] by auto

lemma map_floors_seen:
  assumes "uint z < 16"
  obtains nzs where "map_floors (ucast (z :: u16)) = Some nzs" "set nzs = seen_floors (uint z)" "uint (ucast z :: u8) = uint z"
proof -
  have u: "uint (ucast z :: u8) = uint z" using assms by (simp add: unsigned_ucast_eq take_bit_int_eq_self)
  with assms have "(ucast z :: u8) > 7 \<longleftrightarrow> uint z > 7" "\<not> (ucast z :: u8) > 18" by (auto simp: word_less_def)
  with u show thesis
    by (intro that [of "if uint z > 7 then [uint z - 2..min 15 (uint z + 2)] else rev [0..7]"]) (auto simp: map_floors_def seen_floors_def)
qed

lemma u16_ops:
  "uint (n :: u16) \<le> uint w \<Longrightarrow> uint (w - n) = uint w - uint n"
  "uint w + uint (n :: u16) < 65536 \<Longrightarrow> uint (w + n) = uint w + uint n"
proof -
  show "uint n \<le> uint w \<Longrightarrow> uint (w - n) = uint w - uint n"
    by (metis uint_minus_simple_alt word_le_def)
  show "uint w + uint n < 65536 \<Longrightarrow> uint (w + n) = uint w + uint n"
    using no_olen_add [of w n] uint_plus_simple_iff [of w n] by simp
qed

lemma describe_part:
  assumes "uint (z :: u16) < 16" "uint x = X" "uint y = Y"
  shows "\<exists>c. (\<forall>ks. GetMapDescription v x y (ucast z) width height ks = write_parts v [Cells c] ks) \<and>
    (\<forall>i j k. (i, j, k) \<in> set c \<longleftrightarrow> k \<in> seen_floors (uint z) \<and> X + (uint z - k) \<le> i \<and> i < X + (uint z - k) + width \<and>
      Y + (uint z - k) \<le> j \<and> j < Y + (uint z - k) + height)"
proof -
  obtain nzs where nzs: "map_floors (ucast z) = Some nzs" "set nzs = seen_floors (uint z)" "uint (ucast z :: u8) = uint z"
    using map_floors_seen [OF assms(1)] by blast
  have "GetMapDescription v x y (ucast z) width height ks = write_parts v [Cells (map_cells X Y (uint z) nzs width height)] ks" for ks
    using writes_map [OF nzs(1), of v x y width height] assms(2,3) nzs(3) by (simp add: writes_def)
  with nzs(2) map_cells_mem show ?thesis by blast
qed

lemma MoveUp_parts:
  assumes "roomy old" "uint (pz new) = uint (pz old) - 1" "0 \<le> uint (pz new)"
  shows "\<exists>ps. (\<forall>ks. MoveUpCreature v new old ks = write_parts v ps ks) \<and>
    view_at v (Position (px old) (py old) (pz new)) \<subseteq> view_at v old \<union> shown ps"
proof -
  define X Y Z where "X = uint (px old)" and "Y = uint (py old)" and "Z = uint (pz new)"
  have r: "9 \<le> X" "X \<le> 65526" "7 \<le> Y" "Y \<le> 65528" "uint (pz old) = Z + 1" "Z < 15" "0 \<le> Z"
    using assms by (auto simp: roomy_def X_def Y_def Z_def)
  have z: "uint (pz new) < 16" using r by (simp add: Z_def)
  have cx: "uint (px old - 8) = X - 8" using r by (subst u16_ops(1)) (simp_all add: X_def)
  have cy: "uint (py old + 1 - 6) = Y - 5" "uint (py old - 6) = Y - 6"
    using r u16_ops(1) [of 6 "py old + 1"] u16_ops(2) [of "py old" 1] u16_ops(1) [of 6 "py old"] by (simp_all add: Y_def)
  obtain cw where cw: "\<And>ks. GetMapDescription v (px old - 8) (py old + 1 - 6) (ucast (pz new)) 1 14 ks = write_parts v [Cells cw] ks"
    "\<And>i j k. (i, j, k) \<in> set cw \<longleftrightarrow> k \<in> seen_floors Z \<and> X - 8 + (Z - k) \<le> i \<and> i < X - 8 + (Z - k) + 1 \<and>
      Y - 5 + (Z - k) \<le> j \<and> j < Y - 5 + (Z - k) + 14"
    using describe_part [OF z cx cy(1), of v 1 14] unfolding Z_def by blast
  obtain cn where cn: "\<And>ks. GetMapDescription v (px old - 8) (py old - 6) (ucast (pz new)) 18 1 ks = write_parts v [Cells cn] ks"
    "\<And>i j k. (i, j, k) \<in> set cn \<longleftrightarrow> k \<in> seen_floors Z \<and> X - 8 + (Z - k) \<le> i \<and> i < X - 8 + (Z - k) + 18 \<and>
      Y - 6 + (Z - k) \<le> j \<and> j < Y - 6 + (Z - k) + 1"
    using describe_part [OF z cx cy(2), of v 18 1] unfolding Z_def by blast
  define fs where "fs = (if Z = 7 then [(5, 3), (4, 4), (3, 5), (2, 6), (1, 7), (0, 8)] else if Z > 7 then [(Z - 2, 3)] else ([] :: (int \<times> int) list))"
  define cf where "cf = concat (map (\<lambda>(z, offset). floor_cells (X - 8) (Y - 6) z 18 14 offset) fs)"
  have cases: "pz new = 7 \<longleftrightarrow> Z = 7" "pz new > 7 \<longleftrightarrow> Z > 7"
    by (simp_all add: Z_def word_uint_eq_iff word_less_def)
  have fl: "(if pz new = 7 then floors_and_marker v (X - 8) (Y - 6) [(5, 3), (4, 4), (3, 5), (2, 6), (1, 7), (0, 8)] ks
          else if pz new > 7 then floors_and_marker v (X - 8) (Y - 6) [(uint (pz old) - 3, 3)] ks
          else Some ([], ks)) = write_parts v (if fs = [] then [] else [Cells cf]) ks" for ks
    using writes_floors [of v "X - 8" "Y - 6" fs] r(5) by (auto simp: writes_def cases fs_def cf_def)
  let ?ps = "Raw [MByte 0xBE] # (if fs = [] then [] else [Cells cf]) @ [Raw [MByte 0x68], Cells cw, Raw [MByte 0x65], Cells cn]"
  have "MoveUpCreature v new old ks = write_parts v ?ps ks" for ks
    unfolding MoveUpCreature_def Let_def X_def [symmetric] Y_def [symmetric] fl cw(1) cn(1)
    by (auto simp: write_parts_append split: bind_splits)
  moreover have "view_at v (Position (px old) (py old) (pz new)) \<subseteq> view_at v old \<union> shown ?ps"
  proof
    fix p assume p: "p \<in> view_at v (Position (px old) (py old) (pz new))"
    obtain a b c where abc: "p = (a, b, c)" by (cases p)
    have "(a, b, c) \<in> view_at v (Position (px old) (py old) (pz new)) \<longleftrightarrow> c \<in> seen_floors Z \<and>
        X - 8 + (Z - c) \<le> a \<and> a \<le> X + 9 + (Z - c) \<and> Y - 6 + (Z - c) \<le> b \<and> b \<le> Y + 7 + (Z - c)"
      using view_at_mem [of "Position (px old) (py old) (pz new)" a b c v] z by (simp add: X_def Y_def Z_def)
    with p abc have s: "c \<in> seen_floors Z" "X - 8 + (Z - c) \<le> a" "a \<le> X + 9 + (Z - c)" "Y - 6 + (Z - c) \<le> b" "b \<le> Y + 7 + (Z - c)" by auto
    have old: "(a, b, c) \<in> view_at v old \<longleftrightarrow> c \<in> seen_floors (Z + 1) \<and>
        X - 8 + (Z + 1 - c) \<le> a \<and> a \<le> X + 9 + (Z + 1 - c) \<and> Y - 6 + (Z + 1 - c) \<le> b \<and> b \<le> Y + 7 + (Z + 1 - c)"
      using view_at_mem [of old a b c v] r(5,6) by (simp add: X_def Y_def)
    have sh: "(a, b, c) \<in> shown ?ps" if "(a, b, c) \<in> set cf \<and> fs \<noteq> [] \<or> (a, b, c) \<in> set cw \<or> (a, b, c) \<in> set cn"
      using that by auto
    have cfm: "(a, b, c) \<in> set cf \<longleftrightarrow> (\<exists>(z, offset) \<in> set fs. c = z \<and> X - 8 + offset \<le> a \<and> a < X - 8 + offset + 18 \<and>
        Y - 6 + offset \<le> b \<and> b < Y - 6 + offset + 14)"
      by (auto simp: cf_def floor_cells_mem)
    show "p \<in> view_at v old \<union> shown ?ps"
    proof (cases "a = X - 8 + (Z - c) \<or> b = Y - 6 + (Z - c)")
      case True
      then have "(a, b, c) \<in> set cw \<or> (a, b, c) \<in> set cn" using s by (auto simp: cw(2) cn(2))
      with sh abc show ?thesis by blast
    next
      case False
      show ?thesis
      proof (cases "c \<in> seen_floors (Z + 1)")
        case True
        with False s have "(a, b, c) \<in> view_at v old" unfolding old by linarith
        with abc show ?thesis by blast
      next
        case new: False
        have "(c, Z + 1 - c) \<in> set fs"
        proof (cases "Z > 7")
          case True
          with new s(1) r(6) have "c = Z - 2" by (auto simp: seen_floors_def)
          with True show ?thesis by (simp add: fs_def)
        next
          case False
          with new s(1) r(7) have "Z = 7" "0 \<le> c" "c \<le> 5" by (auto simp: seen_floors_def split: if_splits)
          moreover from this have "c = 0 \<or> c = 1 \<or> c = 2 \<or> c = 3 \<or> c = 4 \<or> c = 5" by linarith
          ultimately show ?thesis by (auto simp: fs_def)
        qed
        then have "(a, b, c) \<in> set cf \<and> fs \<noteq> []"
          unfolding cfm using False s by (auto intro!: bexI [of _ "(c, Z + 1 - c)"])
        with sh abc show ?thesis by blast
      qed
    qed
  qed
  ultimately show ?thesis by blast
qed


lemma view_cell:
  assumes "uint (pz p) < 16" "uint (px p) = X" "uint (py p) = Y" "uint (pz p) = Z"
  shows "(a, b, c) \<in> view_at v p \<longleftrightarrow> c \<in> seen_floors Z \<and>
    X - 8 + (Z - c) \<le> a \<and> a \<le> X + 9 + (Z - c) \<and> Y - 6 + (Z - c) \<le> b \<and> b \<le> Y + 7 + (Z - c)"
  using view_at_mem [OF assms(1), of a b c v] assms(2-4) by simp

lemma MoveDown_parts:
  assumes "roomy old" "uint (pz new) = uint (pz old) + 1" "uint (pz new) < 16"
  shows "\<exists>ps. (\<forall>ks. MoveDownCreature v new old ks = write_parts v ps ks) \<and>
    view_at v (Position (px old) (py old) (pz new)) \<subseteq> view_at v old \<union> shown ps"
proof -
  define X Y Z where "X = uint (px old)" and "Y = uint (py old)" and "Z = uint (pz new)"
  have r: "9 \<le> X" "X \<le> 65526" "7 \<le> Y" "Y \<le> 65528" "uint (pz old) = Z - 1" "Z < 16" "1 \<le> Z"
    using assms by (auto simp: roomy_def X_def Y_def Z_def)
  have z: "uint (pz new) < 16" using r by (simp add: Z_def)
  have cx: "uint (px old + 9) = X + 9" "uint (px old - 8) = X - 8"
    using r u16_ops(2) [of "px old" 9] u16_ops(1) [of 8 "px old"] by (simp_all add: X_def)
  have cy: "uint (py old - 1 - 6) = Y - 7" "uint (py old + 7) = Y + 7"
    using r u16_ops(1) [of 6 "py old - 1"] u16_ops(1) [of 1 "py old"] u16_ops(2) [of "py old" 7] by (simp_all add: Y_def)
  obtain ce where ce: "\<And>ks. GetMapDescription v (px old + 9) (py old - 1 - 6) (ucast (pz new)) 1 14 ks = write_parts v [Cells ce] ks"
    "\<And>i j k. (i, j, k) \<in> set ce \<longleftrightarrow> k \<in> seen_floors Z \<and> X + 9 + (Z - k) \<le> i \<and> i < X + 9 + (Z - k) + 1 \<and>
      Y - 7 + (Z - k) \<le> j \<and> j < Y - 7 + (Z - k) + 14"
    using describe_part [OF z cx(1) cy(1), of v 1 14] unfolding Z_def by blast
  obtain cs where cs: "\<And>ks. GetMapDescription v (px old - 8) (py old + 7) (ucast (pz new)) 18 1 ks = write_parts v [Cells cs] ks"
    "\<And>i j k. (i, j, k) \<in> set cs \<longleftrightarrow> k \<in> seen_floors Z \<and> X - 8 + (Z - k) \<le> i \<and> i < X - 8 + (Z - k) + 18 \<and>
      Y + 7 + (Z - k) \<le> j \<and> j < Y + 7 + (Z - k) + 1"
    using describe_part [OF z cx(2) cy(2), of v 18 1] unfolding Z_def by blast
  define fs where "fs = (if Z = 8 then [(Z, -1), (Z + 1, -2), (Z + 2, -3)] else if Z > 8 \<and> Z < 14 then [(Z + 2, -3)] else ([] :: (int \<times> int) list))"
  define cf where "cf = concat (map (\<lambda>(z, offset). floor_cells (X - 8) (Y - 6) z 18 14 offset) fs)"
  have cases: "pz new = 8 \<longleftrightarrow> Z = 8" "pz new > pz old \<and> pz new > 8 \<and> pz new < 14 \<longleftrightarrow> Z > 8 \<and> Z < 14"
    using r(5) by (auto simp: Z_def word_uint_eq_iff word_less_def)
  have fl: "(if pz new = 8 then floors_and_marker v (X - 8) (Y - 6) [(Z, -1), (Z + 1, -2), (Z + 2, -3)] ks
          else if pz new > pz old \<and> pz new > 8 \<and> pz new < 14 then floors_and_marker v (X - 8) (Y - 6) [(Z + 2, -3)] ks
          else Some ([], ks)) = write_parts v (if fs = [] then [] else [Cells cf]) ks" for ks
    unfolding cases using writes_floors [of v "X - 8" "Y - 6" fs] by (auto simp: writes_def fs_def cf_def)
  let ?ps = "Raw [MByte 0xBF] # (if fs = [] then [] else [Cells cf]) @ [Raw [MByte 0x66], Cells ce, Raw [MByte 0x67], Cells cs]"
  have "MoveDownCreature v new old ks = write_parts v ?ps ks" for ks
    unfolding MoveDownCreature_def Let_def X_def [symmetric] Y_def [symmetric] Z_def [symmetric] fl ce(1) cs(1)
    by (auto simp: write_parts_append split: bind_splits)
  moreover have "view_at v (Position (px old) (py old) (pz new)) \<subseteq> view_at v old \<union> shown ?ps"
  proof
    fix p assume p: "p \<in> view_at v (Position (px old) (py old) (pz new))"
    obtain a b c where abc: "p = (a, b, c)" by (cases p)
    from p abc have s: "c \<in> seen_floors Z" "X - 8 + (Z - c) \<le> a" "a \<le> X + 9 + (Z - c)" "Y - 6 + (Z - c) \<le> b" "b \<le> Y + 7 + (Z - c)"
      using view_cell [of "Position (px old) (py old) (pz new)" X Y Z a b c v] z by (auto simp: X_def Y_def Z_def)
    have old: "(a, b, c) \<in> view_at v old \<longleftrightarrow> c \<in> seen_floors (Z - 1) \<and>
        X - 8 + (Z - 1 - c) \<le> a \<and> a \<le> X + 9 + (Z - 1 - c) \<and> Y - 6 + (Z - 1 - c) \<le> b \<and> b \<le> Y + 7 + (Z - 1 - c)"
      using view_cell [of old X Y "Z - 1" a b c v] r(5,6) by (simp add: X_def Y_def)
    have sh: "(a, b, c) \<in> shown ?ps" if "(a, b, c) \<in> set cf \<and> fs \<noteq> [] \<or> (a, b, c) \<in> set ce \<or> (a, b, c) \<in> set cs"
      using that by auto
    have cfm: "(a, b, c) \<in> set cf \<longleftrightarrow> (\<exists>(z, offset) \<in> set fs. c = z \<and> X - 8 + offset \<le> a \<and> a < X - 8 + offset + 18 \<and>
        Y - 6 + offset \<le> b \<and> b < Y - 6 + offset + 14)"
      by (auto simp: cf_def floor_cells_mem)
    show "p \<in> view_at v old \<union> shown ?ps"
    proof (cases "a = X + 9 + (Z - c) \<or> b = Y + 7 + (Z - c)")
      case True
      then have "(a, b, c) \<in> set ce \<or> (a, b, c) \<in> set cs" using s by (auto simp: ce(2) cs(2))
      with sh abc show ?thesis by blast
    next
      case False
      show ?thesis
      proof (cases "c \<in> seen_floors (Z - 1)")
        case True
        with False s have "(a, b, c) \<in> view_at v old" unfolding old by linarith
        with abc show ?thesis by blast
      next
        case new: False
        have "(c, Z - 1 - c) \<in> set fs"
        proof (cases "Z > 8")
          case True
          with new s(1) r(6) have "c = Z + 2" "Z < 14" by (auto simp: seen_floors_def)
          with True show ?thesis by (simp add: fs_def)
        next
          case False
          with new s(1) r(7) have "Z = 8" "8 \<le> c" "c \<le> 10" by (auto simp: seen_floors_def split: if_splits)
          moreover from this have "c = 8 \<or> c = 9 \<or> c = 10" by linarith
          ultimately show ?thesis by (auto simp: fs_def)
        qed
        then have "(a, b, c) \<in> set cf \<and> fs \<noteq> []"
          unfolding cfm using False s by (auto intro!: bexI [of _ "(c, Z - 1 - c)"])
        with sh abc show ?thesis by blast
      qed
    qed
  qed
  ultimately show ?thesis by blast
qed

lemma row_parts:
  assumes "roomy old" "roomy new" "\<bar>uint (py new) - uint (py old)\<bar> \<le> 1"
  shows "\<exists>ps. (\<forall>ks. row_described v new old ks = write_parts v ps ks) \<and>
    view_at v (Position (px old) (py new) (pz new)) \<subseteq> view_at v (Position (px old) (py old) (pz new)) \<union> shown ps"
proof -
  define X Y Y' Z where "X = uint (px old)" and "Y = uint (py old)" and "Y' = uint (py new)" and "Z = uint (pz new)"
  have r: "9 \<le> X" "7 \<le> Y'" "Y' \<le> 65528" "\<bar>Y' - Y\<bar> \<le> 1" and z: "uint (pz new) < 16"
    using assms by (auto simp: roomy_def X_def Y_def Y'_def)
  have cx: "uint (px old - 8) = X - 8" using r u16_ops(1) [of 8 "px old"] by (simp add: X_def)
  have cy: "uint (py new - 6) = Y' - 6" "uint (py new + 7) = Y' + 7"
    using r u16_ops(1) [of 6 "py new"] u16_ops(2) [of "py new" 7] by (simp_all add: Y'_def)
  have cmp: "py old > py new \<longleftrightarrow> Y > Y'" "py old < py new \<longleftrightarrow> Y < Y'" by (simp_all add: Y_def Y'_def word_less_def)
  have view: "(a, b, c) \<in> view_at v (Position (px old) (py new) (pz new)) \<longleftrightarrow> c \<in> seen_floors Z \<and>
      X - 8 + (Z - c) \<le> a \<and> a \<le> X + 9 + (Z - c) \<and> Y' - 6 + (Z - c) \<le> b \<and> b \<le> Y' + 7 + (Z - c)"
    "(a, b, c) \<in> view_at v (Position (px old) (py old) (pz new)) \<longleftrightarrow> c \<in> seen_floors Z \<and>
      X - 8 + (Z - c) \<le> a \<and> a \<le> X + 9 + (Z - c) \<and> Y - 6 + (Z - c) \<le> b \<and> b \<le> Y + 7 + (Z - c)" for a b c
    using z by (simp_all add: view_cell [of _ X _ Z] X_def Y_def Y'_def Z_def)
  consider (north) "Y > Y'" | (south) "Y < Y'" | (none) "Y = Y'" by linarith
  then show ?thesis
  proof cases
    case north
    obtain cs where "\<And>ks. GetMapDescription v (px old - 8) (py new - 6) (ucast (pz new)) 18 1 ks = write_parts v [Cells cs] ks"
      and m: "\<And>i j k. (i, j, k) \<in> set cs \<longleftrightarrow> k \<in> seen_floors Z \<and> X - 8 + (Z - k) \<le> i \<and> i < X - 8 + (Z - k) + 18 \<and>
        Y' - 6 + (Z - k) \<le> j \<and> j < Y' - 6 + (Z - k) + 1"
      using describe_part [OF z cx cy(1), of v 18 1] unfolding Z_def by blast
    with north have "row_described v new old ks = write_parts v [Raw [MByte 0x65], Cells cs] ks" for ks
      by (auto simp: row_described_def cmp split: bind_splits)
    moreover have "view_at v (Position (px old) (py new) (pz new)) \<subseteq> view_at v (Position (px old) (py old) (pz new)) \<union> shown [Raw [MByte 0x65], Cells cs]"
      using north r(4) by (auto simp: view m)
    ultimately show ?thesis by blast
  next
    case south
    obtain cs where "\<And>ks. GetMapDescription v (px old - 8) (py new + 7) (ucast (pz new)) 18 1 ks = write_parts v [Cells cs] ks"
      and m: "\<And>i j k. (i, j, k) \<in> set cs \<longleftrightarrow> k \<in> seen_floors Z \<and> X - 8 + (Z - k) \<le> i \<and> i < X - 8 + (Z - k) + 18 \<and>
        Y' + 7 + (Z - k) \<le> j \<and> j < Y' + 7 + (Z - k) + 1"
      using describe_part [OF z cx cy(2), of v 18 1] unfolding Z_def by blast
    with south have "row_described v new old ks = write_parts v [Raw [MByte 0x67], Cells cs] ks" for ks
      by (auto simp: row_described_def cmp split: bind_splits)
    moreover have "view_at v (Position (px old) (py new) (pz new)) \<subseteq> view_at v (Position (px old) (py old) (pz new)) \<union> shown [Raw [MByte 0x67], Cells cs]"
      using south r(4) by (auto simp: view m)
    ultimately show ?thesis by blast
  next
    case none
    then have "row_described v new old ks = write_parts v [] ks" for ks by (simp add: row_described_def cmp)
    moreover have "py new = py old" using none by (simp add: Y_def Y'_def word_uint_eq_iff)
    ultimately show ?thesis by (intro exI [of _ "[]"]) simp
  qed
qed

lemma column_parts:
  assumes "roomy old" "roomy new" "\<bar>uint (px new) - uint (px old)\<bar> \<le> 1"
  shows "\<exists>ps. (\<forall>ks. column_described v new old ks = write_parts v ps ks) \<and>
    view_at v new \<subseteq> view_at v (Position (px old) (py new) (pz new)) \<union> shown ps"
proof -
  define X X' Y Z where "X = uint (px old)" and "X' = uint (px new)" and "Y = uint (py new)" and "Z = uint (pz new)"
  have r: "9 \<le> X'" "X' \<le> 65526" "7 \<le> Y" "\<bar>X' - X\<bar> \<le> 1" and z: "uint (pz new) < 16"
    using assms by (auto simp: roomy_def X_def Y_def X'_def)
  have cx: "uint (px new - 8) = X' - 8" "uint (px new + 9) = X' + 9"
    using r u16_ops(1) [of 8 "px new"] u16_ops(2) [of "px new" 9] by (simp_all add: X'_def)
  have cy: "uint (py new - 6) = Y - 6" using r u16_ops(1) [of 6 "py new"] by (simp add: Y_def)
  have cmp: "px old < px new \<longleftrightarrow> X < X'" "px old > px new \<longleftrightarrow> X > X'" by (simp_all add: X_def X'_def word_less_def)
  have view: "(a, b, c) \<in> view_at v new \<longleftrightarrow> c \<in> seen_floors Z \<and>
      X' - 8 + (Z - c) \<le> a \<and> a \<le> X' + 9 + (Z - c) \<and> Y - 6 + (Z - c) \<le> b \<and> b \<le> Y + 7 + (Z - c)"
    "(a, b, c) \<in> view_at v (Position (px old) (py new) (pz new)) \<longleftrightarrow> c \<in> seen_floors Z \<and>
      X - 8 + (Z - c) \<le> a \<and> a \<le> X + 9 + (Z - c) \<and> Y - 6 + (Z - c) \<le> b \<and> b \<le> Y + 7 + (Z - c)" for a b c
    using z by (simp_all add: view_cell [of _ _ Y Z] X_def X'_def Y_def Z_def)
  consider (east) "X < X'" | (west) "X > X'" | (none) "X = X'" by linarith
  then show ?thesis
  proof cases
    case east
    obtain cs where "\<And>ks. GetMapDescription v (px new + 9) (py new - 6) (ucast (pz new)) 1 14 ks = write_parts v [Cells cs] ks"
      and m: "\<And>i j k. (i, j, k) \<in> set cs \<longleftrightarrow> k \<in> seen_floors Z \<and> X' + 9 + (Z - k) \<le> i \<and> i < X' + 9 + (Z - k) + 1 \<and>
        Y - 6 + (Z - k) \<le> j \<and> j < Y - 6 + (Z - k) + 14"
      using describe_part [OF z cx(2) cy, of v 1 14] unfolding Z_def by blast
    with east have "column_described v new old ks = write_parts v [Raw [MByte 0x66], Cells cs] ks" for ks
      by (auto simp: column_described_def cmp split: bind_splits)
    moreover have "view_at v new \<subseteq> view_at v (Position (px old) (py new) (pz new)) \<union> shown [Raw [MByte 0x66], Cells cs]"
      using east r(4) by (auto simp: view m)
    ultimately show ?thesis by blast
  next
    case west
    obtain cs where "\<And>ks. GetMapDescription v (px new - 8) (py new - 6) (ucast (pz new)) 1 14 ks = write_parts v [Cells cs] ks"
      and m: "\<And>i j k. (i, j, k) \<in> set cs \<longleftrightarrow> k \<in> seen_floors Z \<and> X' - 8 + (Z - k) \<le> i \<and> i < X' - 8 + (Z - k) + 1 \<and>
        Y - 6 + (Z - k) \<le> j \<and> j < Y - 6 + (Z - k) + 14"
      using describe_part [OF z cx(1) cy, of v 1 14] unfolding Z_def by blast
    with west have "column_described v new old ks = write_parts v [Raw [MByte 0x68], Cells cs] ks" for ks
      by (auto simp: column_described_def cmp split: bind_splits)
    moreover have "view_at v new \<subseteq> view_at v (Position (px old) (py new) (pz new)) \<union> shown [Raw [MByte 0x68], Cells cs]"
      using west r(4) by (auto simp: view m)
    ultimately show ?thesis by blast
  next
    case none
    then have "column_described v new old ks = write_parts v [] ks" for ks by (simp add: column_described_def cmp)
    moreover have "Position (px old) (py new) (pz new) = new" using none by (cases new) (simp add: X_def X'_def word_uint_eq_iff)
    ultimately show ?thesis by (intro exI [of _ "[]"]) simp
  qed
qed

text \<open>
  C5. A client always has the whole view: after a step of at most one square in each direction, floors included, or
  after any teleport, every position the player now sees was in its view before or is described in the message sent for
  the move.  The message is its plain values and descriptions of positions, in one sequence.
\<close>
theorem walking_shows_the_view:
  assumes "roomy old" "roomy new" "sendMovePlayer v new old sp teleport ks = Some (vs, ks')"
    and "teleport \<or> 10 \<le> sp \<or> \<bar>uint (px new) - uint (px old)\<bar> \<le> 1 \<and> \<bar>uint (py new) - uint (py old)\<bar> \<le> 1 \<and>
      \<bar>uint (pz new) - uint (pz old)\<bar> \<le> 1"
  shows "\<exists>ps. write_parts v ps ks = Some (vs, ks') \<and> view_at v new \<subseteq> view_at v old \<union> shown ps"
proof (cases "teleport \<or> sp \<ge> 10")
  case True
  have z: "uint (pz new) < 16" and c: "uint (px new - 8) = uint (px new) - 8" "uint (py new - 6) = uint (py new) - 6"
    using assms(2) u16_ops(1) [of 8 "px new"] u16_ops(1) [of 6 "py new"] by (simp_all add: roomy_def)
  obtain cs where cs: "\<And>ks. GetMapDescription v (px new - 8) (py new - 6) (ucast (pz new)) 18 14 ks = write_parts v [Cells cs] ks"
    and m: "\<And>i j k. (i, j, k) \<in> set cs \<longleftrightarrow> k \<in> seen_floors (uint (pz new)) \<and>
      uint (px new) - 8 + (uint (pz new) - k) \<le> i \<and> i < uint (px new) - 8 + (uint (pz new) - k) + 18 \<and>
      uint (py new) - 6 + (uint (pz new) - k) \<le> j \<and> j < uint (py new) - 6 + (uint (pz new) - k) + 14"
    using describe_part [OF z c, of v 18 14] by blast
  let ?ps = "[Raw (RemoveTileItem_values old sp @ [MByte 0x64, MPosition (vi_pos v)]), Cells cs]"
  have "sendMovePlayer v new old sp teleport ks = write_parts v ?ps ks"
    using True unfolding sendMovePlayer_def AddMapDescription_def cs by (auto split: bind_splits)
  moreover have "view_at v new \<subseteq> shown ?ps" using z by (auto simp: view_at_mem m)
  ultimately show ?thesis using assms(3) by (intro exI [of _ ?ps]) auto
next
  case False
  then have d: "\<bar>uint (px new) - uint (px old)\<bar> \<le> 1" "\<bar>uint (py new) - uint (py old)\<bar> \<le> 1" "\<bar>uint (pz new) - uint (pz old)\<bar> \<le> 1"
    using assms(4) by auto
  let ?head = "if pz old = 7 \<and> pz new \<ge> 8 then RemoveTileItem_values old sp
    else [MByte 0x6D, MPosition old, MByte (word_of_nat sp), MPosition new]"
  let ?fl = "\<lambda>ks. if pz new > pz old then MoveDownCreature v new old ks
    else if pz new < pz old then MoveUpCreature v new old ks else Some ([], ks)"
  have "\<exists>fs. (\<forall>ks. ?fl ks = write_parts v fs ks) \<and> view_at v (Position (px old) (py old) (pz new)) \<subseteq> view_at v old \<union> shown fs"
  proof -
    consider (down) "pz new > pz old" | (up) "pz new < pz old" | (level) "pz new = pz old" by (metis neqE)
    then show ?thesis
    proof cases
      case down
      then have "uint (pz new) = uint (pz old) + 1" using d(3) by (simp add: word_less_def)
      moreover have "uint (pz new) < 16" using assms(2) by (simp add: roomy_def)
      ultimately show ?thesis using MoveDown_parts [OF assms(1), of new v] down by simp
    next
      case up
      then have "uint (pz new) = uint (pz old) - 1" "\<not> pz new > pz old" using d(3) by (auto simp: word_less_def)
      then show ?thesis using MoveUp_parts [OF assms(1) _ uint_ge_0, of new v] up by simp
    next
      case level
      then show ?thesis by (intro exI [of _ "[]"]) (cases old; simp)
    qed
  qed
  then obtain fs where fs: "\<And>ks. ?fl ks = write_parts v fs ks"
    "view_at v (Position (px old) (py old) (pz new)) \<subseteq> view_at v old \<union> shown fs" by blast
  obtain rs where rs: "\<And>ks. row_described v new old ks = write_parts v rs ks"
    "view_at v (Position (px old) (py new) (pz new)) \<subseteq> view_at v (Position (px old) (py old) (pz new)) \<union> shown rs"
    using row_parts [OF assms(1,2) d(2)] by blast
  obtain cs where cs: "\<And>ks. column_described v new old ks = write_parts v cs ks"
    "view_at v new \<subseteq> view_at v (Position (px old) (py new) (pz new)) \<union> shown cs"
    using column_parts [OF assms(1,2) d(1)] by blast
  have "sendMovePlayer v new old sp teleport ks = write_parts v (Raw ?head # fs @ rs @ cs) ks"
    using False unfolding sendMovePlayer_def fs(1) rs(1) cs(1)
    by (auto simp: write_parts_append split: bind_splits)
  then show ?thesis
    using assms(3) fs(2) rs(2) cs(2) by (intro exI [of _ "Raw ?head # fs @ rs @ cs"]) auto
qed


section \<open>The other messages about the world\<close>

definition AddMagicEffect :: "position \<Rightarrow> u8 \<Rightarrow> msg_value list" where
  "AddMagicEffect pos ty = [MByte 0x83, MPosition pos, MByte (ty + 1)]"

definition AddDistanceShoot :: "position \<Rightarrow> position \<Rightarrow> u8 \<Rightarrow> msg_value list" where
  "AddDistanceShoot fromPos toPos ty = [MByte 0x85, MPosition fromPos, MPosition toPos, MByte (ty + 1)]"

definition AddAnimatedText :: "position \<Rightarrow> u8 \<Rightarrow> u8 list \<Rightarrow> msg_value list" where
  "AddAnimatedText pos color txt = [MByte 0x84, MPosition pos, MByte color, MString txt]"

definition AddTextMessage :: "u8 \<Rightarrow> u8 list \<Rightarrow> msg_value list" where
  "AddTextMessage mclass message = [MByte 0xB4, MByte mclass, MString message]"

definition AddWorldLight :: "LightInfo \<Rightarrow> msg_value list" where
  "AddWorldLight l = [MByte 0x82, MByte (ucast (light_level l)), MByte (ucast (light_color l))]"

definition AddCreatureLight :: "SeenCreature \<Rightarrow> msg_value list" where
  "AddCreatureLight c = [MByte 0x8D, MU32 (sc_id c), MByte (ucast (light_level (sc_light c))), MByte (ucast (light_color (sc_light c)))]"

definition AddCreatureHealth :: "SeenCreature \<Rightarrow> msg_value list" where
  "AddCreatureHealth c = [MByte 0x8C, MU32 (sc_id c), MByte (health_percent c)]"

definition speaker_name :: "u8 \<Rightarrow> SeenCreature \<Rightarrow> u8 list" where
  "speaker_name ty c =
     (if ty \<noteq> SPEAK_CHANNEL_R2 then
        (if ty \<noteq> SPEAK_RVR_ANSWER then sc_name c else [0x47, 0x61, 0x6D, 0x65, 0x6D, 0x61, 0x73, 0x74, 0x65, 0x72])
      else [])"

definition AddCreatureSpeak :: "int \<Rightarrow> SeenCreature \<Rightarrow> u8 \<Rightarrow> u8 list \<Rightarrow> u16 \<Rightarrow> u32 \<Rightarrow> msg_value list" where
  "AddCreatureSpeak now c ty txt channelId time =
     [MByte 0xAA, MU32 0, MString (speaker_name ty c), MByte ty] @
     (if ty \<in> {0x01, 0x02, 0x03, 0x10, 0x11} then [MPosition (sc_position c)]
      else if ty \<in> {SPEAK_CHANNEL_Y, SPEAK_CHANNEL_R1, SPEAK_CHANNEL_R2, 0x0C} then [MU16 channelId]
      else if ty = 0x06 then [MU32 (word_of_int (now div 1000) - time)]
      else []) @
     [MString txt]"

definition AddTileItem_values :: "Viewer \<Rightarrow> position \<Rightarrow> Item \<Rightarrow> msg_value list option" where
  "AddTileItem_values v pos i = do { d \<leftarrow> AddItem_values (vi_items v) i; Some ([MByte 0x6A, MPosition pos] @ d) }"

definition AddTileCreature :: "Viewer \<Rightarrow> position \<Rightarrow> SeenCreature \<Rightarrow> u32 list \<Rightarrow> msg_value list \<times> u32 list" where
  "AddTileCreature v pos c ks = (let (d, ks) = show_creature v c ks in ([MByte 0x6A, MPosition pos] @ d, ks))"

definition UpdateTileItem_values :: "Viewer \<Rightarrow> position \<Rightarrow> nat \<Rightarrow> Item \<Rightarrow> msg_value list option" where
  "UpdateTileItem_values v pos sp i =
     (if sp < 10 then do { d \<leftarrow> AddItem_values (vi_items v) i; Some ([MByte 0x6B, MPosition pos, MByte (word_of_nat sp)] @ d) }
      else Some [])"

definition if_seen :: "Viewer \<Rightarrow> position \<Rightarrow> msg_value list option \<Rightarrow> msg_value list option" where
  "if_seen v pos d = (if canSeePos v pos then d else Some [])"

definition sendAddTileItem :: "Viewer \<Rightarrow> position \<Rightarrow> Item \<Rightarrow> msg_value list option" where
  "sendAddTileItem v pos i = if_seen v pos (AddTileItem_values v pos i)"

definition sendUpdateTileItem :: "Viewer \<Rightarrow> position \<Rightarrow> nat \<Rightarrow> Item \<Rightarrow> msg_value list option" where
  "sendUpdateTileItem v pos sp i = if_seen v pos (UpdateTileItem_values v pos sp i)"

definition sendRemoveTileItem :: "Viewer \<Rightarrow> position \<Rightarrow> nat \<Rightarrow> msg_value list option" where
  "sendRemoveTileItem v pos sp = if_seen v pos (Some (RemoveTileItem_values pos sp))"

definition sendUpdateTile :: "Viewer \<Rightarrow> Tile option \<Rightarrow> position \<Rightarrow> u32 list \<Rightarrow> (msg_value list \<times> u32 list) option" where
  "sendUpdateTile v tile pos ks =
     (if canSeePos v pos then
        (case tile of
           Some t \<Rightarrow> do {
             (d, ks) \<leftarrow> GetTileDescription v t ks;
             Some ([MByte 0x69, MPosition pos] @ d @ [MByte 0, MByte 0xFF], ks) }
         | None \<Rightarrow> Some ([MByte 0x69, MPosition pos, MByte 0x01, MByte 0xFF], ks))
      else Some ([], ks))"

definition sendCreatureTurn :: "Viewer \<Rightarrow> SeenCreature \<Rightarrow> nat \<Rightarrow> msg_value list" where
  "sendCreatureTurn v c sp =
     (if sp < 10 \<and> canSeeCreature v c then
        [MByte 0x6B, MPosition (sc_position c), MByte (word_of_nat sp), MU16 0x63, MU32 (sc_id c), MByte (direction_no (sc_direction c))]
      else [])"

definition sendRemoveCreature :: "Viewer \<Rightarrow> position \<Rightarrow> nat \<Rightarrow> bool \<Rightarrow> msg_value list" where
  "sendRemoveCreature v pos sp isLogout =
     (if canSeePos v pos then RemoveTileItem_values pos sp @ (if isLogout then AddMagicEffect pos 0x02 else []) else [])"

text \<open>The branches of \<open>sendAddCreature\<close> and \<open>sendMoveCreature\<close> for a creature other than the player.\<close>

definition sendAddOther :: "Viewer \<Rightarrow> SeenCreature \<Rightarrow> bool \<Rightarrow> u32 list \<Rightarrow> msg_value list \<times> u32 list" where
  "sendAddOther v c isLogin ks =
     (if canSeePos v (sc_position c) then
        (let (d, ks) = AddTileCreature v (sc_position c) c ks
         in (d @ (if isLogin then AddMagicEffect (sc_position c) 0x0A else []), ks))
      else ([], ks))"

definition sendMoveOther :: "Viewer \<Rightarrow> SeenCreature \<Rightarrow> position \<Rightarrow> position \<Rightarrow> nat \<Rightarrow> bool \<Rightarrow> u32 list \<Rightarrow> msg_value list \<times> u32 list" where
  "sendMoveOther v c newPos oldPos oldStackPos teleport ks =
     (if canSeePos v oldPos \<and> canSeePos v (sc_position c) then
        (if teleport \<or> (pz oldPos = 7 \<and> pz newPos \<ge> 8) \<or> oldStackPos \<ge> 10 then
           (let (d, ks) = sendAddOther v c False ks in (sendRemoveCreature v oldPos oldStackPos False @ d, ks))
         else ([MByte 0x6D, MPosition oldPos, MByte (word_of_nat oldStackPos), MPosition newPos], ks))
      else if canSeePos v oldPos then (sendRemoveCreature v oldPos oldStackPos False, ks)
      else if canSeePos v (sc_position c) then sendAddOther v c False ks
      else ([], ks))"


section \<open>The messages about the player\<close>

text \<open>The free capacity is the value after the conversion to \<^verbatim>\<open>int32_t\<close>.\<close>

record PlayerStats =
  ps_health :: int
  ps_maxHealth :: int
  ps_freeCapacity :: int
  ps_experience :: u32
  ps_level :: int
  ps_levelPercent :: int
  ps_mana :: int
  ps_maxMana :: int
  ps_magicLevel :: int
  ps_magicLevelPercent :: int
  ps_soul :: int
  ps_skills :: "(int \<times> int) list"

definition AddPlayerStats :: "PlayerStats \<Rightarrow> msg_value list" where
  "AddPlayerStats p =
     [MByte 0xA0, MU16 (word_of_int (ps_health p)), MU16 (word_of_int (ps_maxHealth p)), MU16 (word_of_int (ps_freeCapacity p)),
      (if ps_experience p \<le> 0x7FFFFFFF then MU32 (ps_experience p) else MU32 0x00),
      MU16 (word_of_int (ps_level p)), MByte (word_of_int (ps_levelPercent p)), MU16 (word_of_int (ps_mana p)),
      MU16 (word_of_int (ps_maxMana p)), MByte (word_of_int (ps_magicLevel p)), MByte (word_of_int (ps_magicLevelPercent p)),
      MByte (word_of_int (ps_soul p))]"

text \<open>The seven skills in the order of their numbers, each with its level and its percentage.\<close>

definition AddPlayerSkills :: "PlayerStats \<Rightarrow> msg_value list" where
  "AddPlayerSkills p = MByte 0xA1 #
     concat (map (\<lambda>(level, percent). [MByte (word_of_int level), MByte (word_of_int percent)]) (take 7 (ps_skills p)))"

definition AddInventoryItem :: "Viewer \<Rightarrow> u8 \<Rightarrow> Item option \<Rightarrow> msg_value list option" where
  "AddInventoryItem v slot item = (case item of
     None \<Rightarrow> Some [MByte 0x79, MByte slot]
   | Some i \<Rightarrow> do { d \<leftarrow> AddItem_values (vi_items v) i; Some ([MByte 0x78, MByte slot] @ d) })"

definition UpdateInventoryItem :: "Viewer \<Rightarrow> u8 \<Rightarrow> Item option \<Rightarrow> msg_value list option" where
  "UpdateInventoryItem v slot item = (case item of
     None \<Rightarrow> Some [MByte 0x79, MByte slot]
   | Some i \<Rightarrow> do { d \<leftarrow> AddItem_values (vi_items v) i; Some ([MByte 0x78, MByte slot] @ d) })"

definition RemoveInventoryItem :: "u8 \<Rightarrow> msg_value list" where
  "RemoveInventoryItem slot = [MByte 0x79, MByte slot]"

definition AddContainerItem :: "Viewer \<Rightarrow> u8 \<Rightarrow> Item \<Rightarrow> msg_value list option" where
  "AddContainerItem v cid i = do { d \<leftarrow> AddItem_values (vi_items v) i; Some ([MByte 0x70, MByte cid] @ d) }"

definition UpdateContainerItem :: "Viewer \<Rightarrow> u8 \<Rightarrow> u8 \<Rightarrow> Item \<Rightarrow> msg_value list option" where
  "UpdateContainerItem v cid slot i = do { d \<leftarrow> AddItem_values (vi_items v) i; Some ([MByte 0x71, MByte cid, MByte slot] @ d) }"

definition RemoveContainerItem :: "u8 \<Rightarrow> u8 \<Rightarrow> msg_value list" where
  "RemoveContainerItem cid slot = [MByte 0x72, MByte cid, MByte slot]"

text \<open>A container's window: its own item, name and capacity, and the items in it.\<close>

fun add_items :: "Items \<Rightarrow> Item list \<Rightarrow> nat \<Rightarrow> msg_value list option" where
  "add_items items [] i = Some []"
| "add_items items (it # its) i =
     (if i < 255 then do { d \<leftarrow> AddItem_values items it; ds \<leftarrow> add_items items its (i + 1); Some (d @ ds) } else Some [])"

definition sendContainer :: "Viewer \<Rightarrow> u32 \<Rightarrow> Item \<Rightarrow> u8 list \<Rightarrow> u32 \<Rightarrow> Item list \<Rightarrow> bool \<Rightarrow> msg_value list option" where
  "sendContainer v cid container name cap its hasParent = do {
     ds \<leftarrow> add_items (vi_items v) its 0;
     Some ([MByte 0x6E, MByte (ucast cid), AddItemId_value (vi_items v) (i_id container), MString name, MByte (ucast cap),
       MByte (if hasParent then 0x01 else 0x00), (if length its > 255 then MByte 255 else MByte (word_of_nat (length its)))] @ ds) }"

definition sendTextWindow_item :: "Viewer \<Rightarrow> u32 \<Rightarrow> Item \<Rightarrow> u16 \<Rightarrow> bool \<Rightarrow> u8 list \<Rightarrow> u8 list \<Rightarrow> msg_value list" where
  "sendTextWindow_item v windowTextId item maxlen canWrite txt writer =
     [MByte 0x96, MU32 windowTextId, AddItemId_value (vi_items v) (i_id item),
      (if canWrite then MU16 maxlen else MU16 (word_of_nat (length txt))), MString txt,
      (if length writer > 0 then MString writer else MString [])]"

definition sendTextWindow_id :: "Viewer \<Rightarrow> u32 \<Rightarrow> u32 \<Rightarrow> u8 list \<Rightarrow> msg_value list" where
  "sendTextWindow_id v windowTextId itemId txt =
     [MByte 0x96, MU32 windowTextId, AddItemId_value (vi_items v) (ucast itemId), MU16 (word_of_nat (length txt)), MString txt, MString []]"

definition sendHouseWindow :: "u32 \<Rightarrow> u8 list \<Rightarrow> msg_value list" where
  "sendHouseWindow windowTextId txt = [MByte 0x97, MByte 0, MU32 windowTextId, MString txt]"

definition sendOutfitWindow :: "Viewer \<Rightarrow> ClientEnv \<Rightarrow> Outfit_t \<Rightarrow> msg_value list" where
  "sendOutfitWindow v e out = MByte 0xC8 # AddCreatureOutfit v out @
     (case ce_sex e of
        PLAYERSEX_FEMALE \<Rightarrow> [MU16 0x88, (if ce_premium e then MU16 0x8E else MU16 0x8B)]
      | PLAYERSEX_MALE \<Rightarrow> [MU16 0x80, (if ce_premium e then MU16 0x86 else MU16 0x83)]
      | PLAYERSEX_OLDMALE \<Rightarrow> [MU16 160, MU16 160])"

text \<open>The slots head, necklace, backpack, armor, right, left, legs, feet, ring and ammunition.\<close>

fun inventory_values :: "Viewer \<Rightarrow> (u8 \<Rightarrow> Item option) \<Rightarrow> u8 list \<Rightarrow> msg_value list option" where
  "inventory_values v slots [] = Some []"
| "inventory_values v slots (s # ss) = do { d \<leftarrow> AddInventoryItem v s (slots s); ds \<leftarrow> inventory_values v slots ss; Some (d @ ds) }"

text \<open>The branch of \<open>sendAddCreature\<close> for the player itself, up to the light; what follows are texts of the login and
  the list of friends.\<close>

definition sendAddSelf :: "Viewer \<Rightarrow> SeenCreature \<Rightarrow> PlayerStats \<Rightarrow> int \<Rightarrow> (u8 \<Rightarrow> Item option) \<Rightarrow> LightInfo \<Rightarrow> bool \<Rightarrow> u32 list \<Rightarrow>
    (msg_value list \<times> u32 list) option" where
  "sendAddSelf v self p access slots world isLogin ks =
     (if canSeePos v (sc_position self) then do {
        (m, ks) \<leftarrow> AddMapDescription v (vi_pos v) ks;
        i \<leftarrow> inventory_values v slots [1, 2, 3, 4, 5, 6, 7, 8, 9, 10];
        Some ([MByte 0x0A, MU32 (sc_id self), MByte 0x32, MByte 0x00, (if access > 1 then MByte 0x01 else MByte 0x00)] @
          (if access > 1 then MByte 0x0B # replicate 32 (MByte 0xFF) else []) @ m @
          (if isLogin then AddMagicEffect (vi_pos v) 0x0A else []) @ i @
          AddPlayerStats p @ AddPlayerSkills p @ AddWorldLight world @ AddCreatureLight self, ks) }
      else Some ([], ks))"

section \<open>What is offered is accepted\<close>

text \<open>
  Outfits: the range of outfits offered in the window of a man or a woman is exactly what a later request to
  change the outfit may ask for; the single outfit offered to the third sex is never accepted.
\<close>
theorem outfits_offered_are_accepted:
  "\<exists>lo hi. (\<exists>ds. sendOutfitWindow v e out = ds @ [MU16 lo, MU16 hi]) \<and>
    (\<forall>ty. may_wear e ty \<longleftrightarrow> ce_sex e \<noteq> PLAYERSEX_OLDMALE \<and> lo \<le> ty \<and> ty \<le> hi) \<and> lo \<le> hi"
proof (cases "ce_sex e")
  case PLAYERSEX_FEMALE
  then show ?thesis
    by (intro exI [of _ "0x88"] exI [of _ "if ce_premium e then 0x8E else 0x8B"])
       (auto simp: sendOutfitWindow_def may_wear_def Let_def)
next
  case PLAYERSEX_MALE
  then show ?thesis
    by (intro exI [of _ "0x80"] exI [of _ "if ce_premium e then 0x86 else 0x83"])
       (auto simp: sendOutfitWindow_def may_wear_def Let_def)
next
  case PLAYERSEX_OLDMALE
  then show ?thesis
    by (intro exI [of _ "160"]) (auto simp: sendOutfitWindow_def may_wear_def Let_def)
qed


section \<open>An example of a view\<close>

text \<open>A player next to a tile with one creature and one item, and nothing else around.\<close>

definition seen_rook :: SeenCreature where
  "seen_rook = \<lparr>sc_id = 7, sc_name = [0x52, 0x6F, 0x6F, 0x6B], sc_health = 30, sc_maxHealth = 90, sc_direction = SOUTH,
     sc_invisible = False, sc_outfit = default_outfit\<lparr>lookType := 0x80, lookHead := 1\<rparr>, sc_light = \<lparr>light_level = 0, light_color = 0\<rparr>,
     sc_speed = 220, sc_skull = 0, sc_shield = 0, sc_position = Position 100 100 7, sc_removed = False\<rparr>"

definition seen_tile :: Tile where
  "seen_tile = (new_Tile 1 (Position 100 100 7) (\<lambda>_. sample_object\<lparr>t_item := example_item\<rparr>) (\<lambda>_. sample_player))
     \<lparr>creatures := [1], downItems := [5]\<rparr>"

definition example_viewer :: Viewer where
  "example_viewer = \<lparr>vi_items = \<lparr>is_items = [Some (new_ItemType\<lparr>it_clientId := 102\<rparr>)], is_reverse = (\<lambda>_. None),
       is_dwMajorVersion = 0, is_dwMinorVersion = 0, is_dwBuildNumber = 0\<rparr>,
     vi_pos = Position 101 100 7, vi_seesInvisible = False,
     vi_tile = (\<lambda>x y z. if x = 100 \<and> y = 100 \<and> z = 7 then Some seen_tile else None), vi_creature = (\<lambda>_. seen_rook),
     vi_byID = (\<lambda>i. if i = 7 then Some 1 else None)\<rparr>"

theorem known_lists_agree_witness:
  "checkCreatureAsKnown example_viewer 7 [5, 6] = (False, Some 0, [5, 6, 7]) \<and> distinct [5, 6, 7 :: u32] \<and>
   {5, 6, 7} = client_knows 7 (False, Some 0, [5, 6, 7]) {5, 6}"
proof -
  have c: "checkCreatureAsKnown example_viewer 7 [5, 6] = (False, Some 0, [5, 6, 7])"
    by (simp add: checkCreatureAsKnown_def)
  from known_lists_agree [OF _ _ _ _ c] c show ?thesis by simp
qed

lemma example_items:
  "item_type (vi_items example_viewer) example_item = new_ItemType\<lparr>it_clientId := 102\<rparr>"
  "vi_creature example_viewer n = seen_rook"
  "vi_tile example_viewer 100 100 7 = Some seen_tile"
  "x \<noteq> 100 \<Longrightarrow> vi_tile example_viewer x y z = None"
  by (simp_all add: example_viewer_def item_type_def getItemType_def getElement_def example_item_def)

lemma seen_tile_stack: "stack seen_tile = [CreatureThing 1, ItemThing 5]" "item_at seen_tile a = example_item"
  by (simp_all add: seen_tile_def stack_def new_Tile_def item_at_def sample_object_def)

lemma example_floors: "map_floors 7 = Some [7, 6, 5, 4, 3, 2, 1, 0]"
  by (simp add: map_floors_def upto.simps)

lemma example_cells: "map_cells 100 100 7 [7, 6, 5, 4, 3, 2, 1, 0] 1 1 =
   [(100, 100, 7), (101, 101, 6), (102, 102, 5), (103, 103, 4), (104, 104, 3), (105, 105, 2), (106, 106, 1), (107, 107, 0)]"
  by (simp add: map_cells_def floor_cells_def)

theorem map_description_decodes_witness:
  "\<exists>vs cs. GetMapDescription example_viewer 100 100 7 1 1 [] = Some (vs, [7]) \<and>
    take_cells (\<lambda>_. False) 8 (concat (map msg_bytes vs)) = Some (cs, []) \<and> length cs = 8 \<and> length (hd cs) = 2"
proof -
  have shown: "show_things example_viewer seen_tile (take 10 (stack seen_tile)) [] =
      Some ([AddCreature example_viewer seen_rook False 0, [MU16 102]], [7])"
    by (simp add: seen_tile_stack example_items show_creature_def checkCreatureAsKnown_def seen_rook_def AddItem_values_def
        isSplash_def isFluidContainer_def new_ItemType_def)
  then have d: "\<exists>vs. GetMapDescription example_viewer 100 100 7 1 1 [] = Some (vs, [7])"
    by (simp add: GetMapDescription_def example_floors describe_floors_cells example_cells example_items tile_description_things)
  then obtain vs where vs: "GetMapDescription example_viewer 100 100 7 1 1 [] = Some (vs, [7])" by blast
  have "showable example_viewer (\<lambda>_. False) seen_tile"
    by (simp add: showable_def seen_tile_stack example_items showable_item_def showable_creature_def seen_rook_def wire_string_def
        default_outfit_def isSplash_def isFluidContainer_def new_ItemType_def)
  then have "\<forall>(x, y, z) \<in> set (map_cells 100 100 7 [7, 6, 5, 4, 3, 2, 1, 0] 1 1). \<forall>t. vi_tile example_viewer x y z = Some t \<longrightarrow>
      showable example_viewer (\<lambda>_. False) t"
    by (simp add: example_cells example_items)
  then obtain cs where cs: "show_cells example_viewer (map_cells 100 100 7 [7, 6, 5, 4, 3, 2, 1, 0] 1 1) [] = Some (cs, [7])"
    "take_cells (\<lambda>_. False) (length (map_cells 100 100 7 [7, 6, 5, 4, 3, 2, 1, 0] 1 1)) (concat (map msg_bytes vs)) = Some (cs, [])"
    using map_description_decodes [OF vs example_floors, of "\<lambda>_. False"] by auto
  have "length (map_cells 100 100 7 [7, 6, 5, 4, 3, 2, 1, 0] 1 1) = 8" by (simp add: example_cells)
  moreover have "length cs = 8" "length (hd cs) = 2" using cs(1) shown by (auto simp: example_cells example_items)
  ultimately show ?thesis using vs cs(2) by metis
qed

theorem description_is_what_canSee_witness:
  "set (map_cells 93 94 7 [7, 6, 5, 4, 3, 2, 1, 0] 18 14) = {(x, y, z). canSee example_viewer x y z \<and> 0 \<le> z \<and> z < 16}"
  using description_is_what_canSee [of example_viewer "[7, 6, 5, 4, 3, 2, 1, 0]"] example_floors
  by (simp add: example_viewer_def)

definition empty_viewer :: Viewer where
  "empty_viewer = example_viewer\<lparr>vi_tile := (\<lambda>_ _ _. None)\<rparr>"

lemma describe_cells_empty: "\<exists>vs s. describe_cells empty_viewer ps skip ks = Some (vs, s, ks)"
proof (induction ps arbitrary: skip)
  case (Cons p ps)
  obtain x y z where "p = (x, y, z)" by (cases p)
  moreover obtain us s vs u where "describe_cells empty_viewer ps (-1) ks = Some (us, s, ks)"
    "describe_cells empty_viewer ps (skip + 1) ks = Some (vs, u, ks)" using Cons by blast
  ultimately show ?case by (auto simp: empty_viewer_def Let_def)
qed simp

lemma GetMapDescription_empty:
  "map_floors z = Some nzs \<Longrightarrow> \<exists>vs. GetMapDescription empty_viewer x y z width height ks = Some (vs, ks)"
  using describe_cells_empty [of "map_cells (uint x) (uint y) (uint z) nzs width height" "-1" ks]
  by (auto simp: GetMapDescription_def describe_floors_cells)

theorem walking_shows_the_view_witness:
  "\<exists>vs ks ps. sendMovePlayer empty_viewer (Position 102 101 7) (Position 101 100 7) 1 False [] = Some (vs, ks) \<and>
    write_parts empty_viewer ps [] = Some (vs, ks) \<and>
    view_at empty_viewer (Position 102 101 7) \<subseteq> view_at empty_viewer (Position 101 100 7) \<union> shown ps"
proof -
  obtain r c where "GetMapDescription empty_viewer 93 108 7 18 1 [] = Some (r, [])" "GetMapDescription empty_viewer 111 95 7 1 14 [] = Some (c, [])"
    using GetMapDescription_empty [OF example_floors] by blast
  then obtain vs where vs: "sendMovePlayer empty_viewer (Position 102 101 7) (Position 101 100 7) 1 False [] = Some (vs, [])"
    by (simp add: sendMovePlayer_def row_described_def column_described_def)
  from walking_shows_the_view [OF _ _ vs] obtain ps where "write_parts empty_viewer ps [] = Some (vs, [])"
    "view_at empty_viewer (Position 102 101 7) \<subseteq> view_at empty_viewer (Position 101 100 7) \<union> shown ps"
    by (auto simp: roomy_def)
  with vs show ?thesis by blast
qed

end
