(* ===== verification/ItemMoves.thy ===== *)
theory ItemMoves
  imports Containers
begin

text \<open>
  The movement of items by the game (\<^verbatim>\<open>internalMoveItem\<close>, \<^verbatim>\<open>internalAddItem\<close> and \<^verbatim>\<open>internalRemoveItem\<close> of \<^verbatim>\<open>game.cpp\<close>)
  over the abstract class \<^verbatim>\<open>Cylinder\<close> (\<^verbatim>\<open>cylinder.h\<close>).  The virtual functions of a cylinder are a record of functions, called
  with the name of the cylinder; the contract the game relies on is the locale \<open>cylinder_laws\<close>, inside which the moves
  are shown to keep every unit of every item.  \<^verbatim>\<open>operator new\<close> is the argument \<open>alloc\<close>; what \<^verbatim>\<open>FreeThing\<close> hands over for
  deletion stays in the heap without a parent.
\<close>

section \<open>The world of things\<close>

text \<open>What a player wears and carries, and the capacity that is checked.\<close>

record PlayerInv =
  inventory :: "int \<Rightarrow> nat option"
  inv_capacity :: real
  inventoryWeight :: real
  tradeItem :: "nat option"
  infinite_capacity :: bool
  cannot_pickup :: bool

record GameWorld =
  heap :: Heap
  invs :: "nat \<Rightarrow> PlayerInv"

definition item_of :: "GameWorld \<Rightarrow> nat \<Rightarrow> Item option" where
  "item_of w b = map_option o_item (heap w b)"

definition holder_of :: "GameWorld \<Rightarrow> nat \<Rightarrow> Holder option" where
  "holder_of w b = Option.bind (heap w b) o_parent"

section \<open>The interface\<close>

text \<open>
  The virtual functions of \<^verbatim>\<open>Cylinder\<close>, each with the cylinder it is called on.  A destination query
  answers with the cylinder, the index, the item there and the flags.
\<close>

record Cylinders =
  cyl_queryDestination :: "Holder \<Rightarrow> int \<Rightarrow> nat \<Rightarrow> nat option \<Rightarrow> u32 \<Rightarrow> GameWorld \<Rightarrow> (Holder \<times> int \<times> nat option \<times> u32) option"
  cyl_queryAdd :: "Holder \<Rightarrow> int \<Rightarrow> nat \<Rightarrow> u32 \<Rightarrow> u32 \<Rightarrow> GameWorld \<Rightarrow> ReturnValue option"
  cyl_queryMaxCount :: "Holder \<Rightarrow> int \<Rightarrow> nat \<Rightarrow> u32 \<Rightarrow> u32 \<Rightarrow> GameWorld \<Rightarrow> (ReturnValue \<times> u32) option"
  cyl_queryRemove :: "Holder \<Rightarrow> nat \<Rightarrow> u32 \<Rightarrow> u32 \<Rightarrow> GameWorld \<Rightarrow> ReturnValue option"
  cyl_addThing :: "Holder \<Rightarrow> int \<Rightarrow> nat \<Rightarrow> GameWorld \<Rightarrow> GameWorld option"
  cyl_updateThing :: "Holder \<Rightarrow> nat \<Rightarrow> u16 \<Rightarrow> u32 \<Rightarrow> GameWorld \<Rightarrow> GameWorld option"
  cyl_removeThing :: "Holder \<Rightarrow> nat \<Rightarrow> u32 \<Rightarrow> GameWorld \<Rightarrow> GameWorld option"
  cyl_getIndexOfThing :: "Holder \<Rightarrow> nat \<Rightarrow> GameWorld \<Rightarrow> int option"
  cyl_isRemoved :: "Holder \<Rightarrow> GameWorld \<Rightarrow> bool option"
  cyl_postAdd :: "Holder \<Rightarrow> nat \<Rightarrow> Holder option \<Rightarrow> int \<Rightarrow> GameWorld \<Rightarrow> GameWorld option"
  cyl_postRemove :: "Holder \<Rightarrow> nat \<Rightarrow> Holder option \<Rightarrow> int \<Rightarrow> bool \<Rightarrow> GameWorld \<Rightarrow> GameWorld option"

section \<open>Moving an item\<close>

definition object_of :: "Items \<Rightarrow> ItemClass \<Rightarrow> Item \<Rightarrow> Object" where
  "object_of items cls i =
     (if cls = IC_Container \<or> cls = IC_Depot then new_Container items i else \<lparr>o_item = i, o_parent = None, o_body = None\<rparr>)"

definition new_object :: "Items \<Rightarrow> (Heap \<Rightarrow> nat) \<Rightarrow> u16 \<Rightarrow> u16 \<Rightarrow> GameWorld \<Rightarrow> (nat option \<times> GameWorld) option" where
  "new_object items alloc itemId count w = do {
     r \<leftarrow> CreateItem items itemId count;
     Some (case r of None \<Rightarrow> (None, w)
       | Some (cls, i) \<Rightarrow> (Some (alloc (heap w)), w\<lparr>heap := (heap w)(alloc (heap w) \<mapsto> object_of items cls i)\<rparr>)) }"

text \<open>The loop asks at most \<^verbatim>\<open>MAP_MAX_LAYERS\<close> cylinders.\<close>

fun find_destination :: "Cylinders \<Rightarrow> nat \<Rightarrow> Holder \<Rightarrow> int \<Rightarrow> nat \<Rightarrow> nat option \<Rightarrow> u32 \<Rightarrow> GameWorld \<Rightarrow>
    (Holder \<times> int \<times> nat option \<times> u32) option" where
  "find_destination C 0 toCyl index item toItem flags w = Some (toCyl, index, toItem, flags)"
| "find_destination C (Suc n) toCyl index item toItem flags w = do {
     (subCyl, index, toItem, flags) \<leftarrow> cyl_queryDestination C toCyl index item toItem flags w;
     if subCyl = toCyl then Some (toCyl, index, toItem, flags)
     else find_destination C n subCyl index item toItem 0 w }"

definition item_count :: "nat \<Rightarrow> GameWorld \<Rightarrow> u32 option" where
  "item_count b w = map_option (\<lambda>i. ucast (i_count i)) (item_of w b)"

definition notify_removed :: "Cylinders \<Rightarrow> Holder \<Rightarrow> nat \<Rightarrow> Holder option \<Rightarrow> int \<Rightarrow> bool \<Rightarrow> GameWorld \<Rightarrow> GameWorld option" where
  "notify_removed C c b newParent index gone w =
     (if index \<noteq> -1 then cyl_postRemove C c b newParent index gone w else Some w)"

definition notify_added :: "Cylinders \<Rightarrow> Holder \<Rightarrow> nat option \<Rightarrow> Holder option \<Rightarrow> GameWorld \<Rightarrow> GameWorld option" where
  "notify_added C c moved oldParent w = (case moved of None \<Rightarrow> Some w
   | Some b \<Rightarrow> do {
       index \<leftarrow> cyl_getIndexOfThing C c b w;
       if index \<noteq> -1 then cyl_postAdd C c b oldParent index w else Some w })"

text \<open>
  The exchange of the two items.  The result is a return value that ends the move, or the
  return value and the item at the destination with which the move goes on.
\<close>

definition exchange_items :: "Cylinders \<Rightarrow> Holder \<Rightarrow> Holder \<Rightarrow> int \<Rightarrow> nat \<Rightarrow> nat option \<Rightarrow> u32 \<Rightarrow> u32 \<Rightarrow> GameWorld \<Rightarrow>
    ((ReturnValue + ReturnValue \<times> nat option) \<times> GameWorld) option" where
  "exchange_items C fromCyl toCyl index item toItem count flags w = do {
     fromIndex \<leftarrow> cyl_getIndexOfThing C fromCyl item w;
     t \<leftarrow> toItem;
     k \<leftarrow> item_count t w;
     ret \<leftarrow> cyl_queryAdd C fromCyl fromIndex t k 0 w;
     if ret \<noteq> RET_NOERROR then Some (Inr (ret, toItem), w)
     else do {
       (retMax, maxCount) \<leftarrow> cyl_queryMaxCount C fromCyl (-1) t k 0 w;
       if retMax \<noteq> RET_NOERROR \<and> maxCount = 0 then Some (Inl retMax, w)
       else do {
         canRemove \<leftarrow> cyl_queryRemove C toCyl t k flags w;
         if canRemove = RET_NOERROR
         then do {
           oldIndex \<leftarrow> cyl_getIndexOfThing C toCyl t w;
           w \<leftarrow> cyl_removeThing C toCyl t k w;
           w \<leftarrow> cyl_addThing C fromCyl 0 t w;
           w \<leftarrow> notify_removed C toCyl t (Some fromCyl) oldIndex True w;
           w \<leftarrow> notify_added C fromCyl (Some t) (Some toCyl) w;
           ret \<leftarrow> cyl_queryAdd C toCyl index item count flags w;
           Some (Inr (ret, None), w) }
         else Some (Inr (ret, toItem), w) } } }"

text \<open>A stack at the destination takes what fits into it: how much that is, and which item was changed.\<close>

definition merge_into :: "Cylinders \<Rightarrow> Holder \<Rightarrow> nat option \<Rightarrow> nat \<Rightarrow> u32 \<Rightarrow> GameWorld \<Rightarrow> (u32 \<times> nat option \<times> GameWorld) option" where
  "merge_into C toCyl toItem item m w = (case toItem of None \<Rightarrow> Some (0, None, w)
   | Some t \<Rightarrow> do {
       ti \<leftarrow> item_of w t;
       i \<leftarrow> item_of w item;
       if i_id ti = i_id i
       then (let n = min (100 - ucast (i_count ti)) m in do {
         w \<leftarrow> cyl_updateThing C toCyl t (i_id ti) (ucast (i_count ti) + n) w;
         Some (n, Some t, w) })
       else Some (0, None, w) })"

definition put_items :: "Items \<Rightarrow> (Heap \<Rightarrow> nat) \<Rightarrow> Cylinders \<Rightarrow> Holder \<Rightarrow> int \<Rightarrow> nat option \<Rightarrow> nat \<Rightarrow> u32 \<Rightarrow> GameWorld \<Rightarrow>
    (nat option \<times> nat option \<times> GameWorld) option" where
  "put_items items alloc C toCyl index toItem item m w = do {
     i \<leftarrow> item_of w item;
     (updateItem, moveItem, w) \<leftarrow>
       (if isStackable items i then do {
          (n, updateItem, w) \<leftarrow> merge_into C toCyl toItem item m w;
          (moveItem, w) \<leftarrow> (if m - n > 0 then new_object items alloc (i_id i) (ucast (m - n)) w else Some (None, w));
          Some (updateItem, moveItem, w) }
        else Some (None, Some item, w));
     w \<leftarrow> (case moveItem of None \<Rightarrow> Some w | Some b \<Rightarrow> cyl_addThing C toCyl index b w);
     Some (updateItem, moveItem, w) }"

text \<open>The part of \<^verbatim>\<open>internalMoveItem\<close> after the queries of the destination.\<close>

definition carry_item :: "Items \<Rightarrow> (Heap \<Rightarrow> nat) \<Rightarrow> Cylinders \<Rightarrow> Holder \<Rightarrow> Holder \<Rightarrow> int \<Rightarrow> nat \<Rightarrow> nat option \<Rightarrow> u32 \<Rightarrow> u32 \<Rightarrow> GameWorld \<Rightarrow>
    (ReturnValue \<times> nat option \<times> GameWorld) option" where
  "carry_item items alloc C fromCyl toCyl index item toItem count flags w = do {
     (retMax, maxCount) \<leftarrow> cyl_queryMaxCount C toCyl index item count flags w;
     if retMax \<noteq> RET_NOERROR \<and> maxCount = 0 then Some (retMax, None, w)
     else do {
       i \<leftarrow> item_of w item;
       m \<leftarrow> Some (if isStackable items i then min count maxCount else maxCount);
       ret \<leftarrow> cyl_queryRemove C fromCyl item m flags w;
       if ret \<noteq> RET_NOERROR then Some (ret, None, w)
       else do {
         itemIndex \<leftarrow> cyl_getIndexOfThing C fromCyl item w;
         w \<leftarrow> cyl_removeThing C fromCyl item m w;
         gone \<leftarrow> (case holder_of w item of None \<Rightarrow> Some True | Some c \<Rightarrow> cyl_isRemoved C c w);
         (updateItem, moveItem, w) \<leftarrow> put_items items alloc C toCyl index toItem item m w;
         w \<leftarrow> notify_removed C fromCyl item (Some toCyl) itemIndex gone w;
         w \<leftarrow> notify_added C toCyl moveItem (Some fromCyl) w;
         w \<leftarrow> notify_added C toCyl updateItem (Some fromCyl) w;
         Some (if isStackable items i \<and> maxCount < count then retMax else ret,
               Some (case moveItem of None \<Rightarrow> item | Some b \<Rightarrow> b), w) } } }"

definition internalMoveItem :: "Items \<Rightarrow> (Heap \<Rightarrow> nat) \<Rightarrow> Cylinders \<Rightarrow> Holder \<Rightarrow> Holder option \<Rightarrow> int \<Rightarrow> nat \<Rightarrow> u32 \<Rightarrow> u32 \<Rightarrow> GameWorld \<Rightarrow>
    (ReturnValue \<times> nat option \<times> GameWorld) option" where
  "internalMoveItem items alloc C fromCyl toCylinder index item count flags w = (case toCylinder of
     None \<Rightarrow> Some (RET_NOTPOSSIBLE, None, w)
   | Some toCyl \<Rightarrow> do {
       (toCyl, index, toItem, flags) \<leftarrow> find_destination C 16 toCyl index item None flags w;
       if toItem = Some item then Some (RET_NOERROR, None, w)
       else do {
         ret \<leftarrow> cyl_queryAdd C toCyl index item count flags w;
         (r, w) \<leftarrow> (if ret = RET_NEEDEXCHANGE then exchange_items C fromCyl toCyl index item toItem count flags w
                    else Some (Inr (ret, toItem), w));
         case r of Inl ret \<Rightarrow> Some (ret, None, w)
         | Inr (ret, toItem) \<Rightarrow>
             if ret \<noteq> RET_NOERROR then Some (ret, None, w)
             else carry_item items alloc C fromCyl toCyl index item toItem count flags w } })"

definition place_items :: "Items \<Rightarrow> (Heap \<Rightarrow> nat) \<Rightarrow> Cylinders \<Rightarrow> Holder \<Rightarrow> int \<Rightarrow> nat option \<Rightarrow> nat \<Rightarrow> u32 \<Rightarrow> u32 \<Rightarrow> GameWorld \<Rightarrow>
    (nat option \<times> GameWorld) option" where
  "place_items items alloc C toCyl index toItem item count m w = do {
     i \<leftarrow> item_of w item;
     (moveItem, w) \<leftarrow>
       (if isStackable items i then do {
          (n, _, w) \<leftarrow> merge_into C toCyl toItem item m w;
          if m - n > 0
          then (if m - n \<noteq> count then new_object items alloc (i_id i) (ucast (m - n)) w else Some (Some item, w))
          else Some (None, w) }
        else Some (Some item, w));
     w \<leftarrow> (case moveItem of None \<Rightarrow> Some w | Some b \<Rightarrow> cyl_addThing C toCyl index b w);
     Some (moveItem, w) }"

text \<open>\<^verbatim>\<open>internalAddItem\<close>: the item is nowhere yet.  The \<^verbatim>\<open>else\<close> branch tells the cylinder of an item merged away.\<close>

definition internalAddItem :: "Items \<Rightarrow> (Heap \<Rightarrow> nat) \<Rightarrow> Cylinders \<Rightarrow> Holder option \<Rightarrow> nat \<Rightarrow> int \<Rightarrow> u32 \<Rightarrow> bool \<Rightarrow> GameWorld \<Rightarrow>
    (ReturnValue \<times> GameWorld) option" where
  "internalAddItem items alloc C toCylinder item index flags test w = (case toCylinder of
     None \<Rightarrow> Some (RET_NOTPOSSIBLE, w)
   | Some toCyl \<Rightarrow> do {
       (toCyl, index, toItem, flags) \<leftarrow> cyl_queryDestination C toCyl index item None flags w;
       i \<leftarrow> item_of w item;
       let count = (ucast (i_count i) :: u32);
       ret \<leftarrow> cyl_queryAdd C toCyl index item count flags w;
       if ret \<noteq> RET_NOERROR then Some (ret, w)
       else do {
         (ret, maxCount) \<leftarrow> cyl_queryMaxCount C toCyl index item count flags w;
         if ret \<noteq> RET_NOERROR then Some (ret, w)
         else if test then Some (RET_NOERROR, w)
         else do {
           m \<leftarrow> Some (if isStackable items i then min count maxCount else maxCount);
           (moveItem, w) \<leftarrow> place_items items alloc C toCyl index toItem item count m w;
           w \<leftarrow> notify_added C toCyl (Some (case moveItem of None \<Rightarrow> item | Some b \<Rightarrow> b)) None w;
           Some (RET_NOERROR, w) } } })"

definition internalRemoveItem :: "(Item \<Rightarrow> bool) \<Rightarrow> Cylinders \<Rightarrow> nat \<Rightarrow> int \<Rightarrow> bool \<Rightarrow> u32 \<Rightarrow> GameWorld \<Rightarrow> (ReturnValue \<times> GameWorld) option" where
  "internalRemoveItem canRemove C item count test flags w = do {
     i \<leftarrow> item_of w item;
     case holder_of w item of None \<Rightarrow> Some (RET_NOTPOSSIBLE, w)
     | Some c \<Rightarrow> do {
         let n = (if count = -1 then ucast (i_count i) else word_of_int count :: u32);
         ret \<leftarrow> cyl_queryRemove C c item n (flags OR FLAG_IGNORENOTMOVEABLE) w;
         if ret \<noteq> RET_NOERROR then Some (ret, w)
         else if \<not> canRemove i then Some (RET_NOTPOSSIBLE, w)
         else if test then Some (RET_NOERROR, w)
         else do {
           index \<leftarrow> cyl_getIndexOfThing C c item w;
           w \<leftarrow> cyl_removeThing C c item n w;
           gone \<leftarrow> (case holder_of w item of None \<Rightarrow> Some True | Some c \<Rightarrow> cyl_isRemoved C c w);
           w \<leftarrow> cyl_postRemove C c item None index gone w;
           Some (RET_NOERROR, w) } } }"


lemma dom_item_of: "dom (item_of w) = dom (heap w)"
  by (auto simp: item_of_def dom_def)

text \<open>Counts have 8 bits in an item, 16 in its constructor and 32 in the queries.\<close>

lemma count_wide [simp]: "unat (ucast (n :: u8) :: u32) = unat n"
proof -
  have "unat n < 2 ^ 32" using unat_lt2p [of n] by simp
  then show ?thesis by (simp add: unsigned_ucast_eq unsigned_take_bit_eq take_bit_nat_eq_self_iff)
qed

lemma count_narrow: "unat (m :: u32) \<le> 100 \<Longrightarrow> unat (ucast m :: u16) = unat m" "unat (m :: u32) \<le> 100 \<Longrightarrow> unat (ucast m :: u8) = unat m"
  by (simp_all add: unsigned_ucast_eq unsigned_take_bit_eq take_bit_nat_eq_self_iff)

section \<open>What there is of an item\<close>

text \<open>The units of an item type among the things that lie somewhere: a stack counts with its number.\<close>

definition item_units :: "Items \<Rightarrow> u16 \<Rightarrow> Item \<Rightarrow> nat" where
  "item_units items itemId i = (if i_id i = itemId then (if isStackable items i then unat (i_count i) else 1) else 0)"

definition units_in :: "Items \<Rightarrow> u16 \<Rightarrow> (nat \<Rightarrow> Item option) \<Rightarrow> (nat \<Rightarrow> Holder option) \<Rightarrow> nat" where
  "units_in items itemId its hold = (\<Sum>b\<in>dom hold. case its b of None \<Rightarrow> 0 | Some i \<Rightarrow> item_units items itemId i)"

definition kept_units :: "Items \<Rightarrow> u16 \<Rightarrow> GameWorld \<Rightarrow> nat" where
  "kept_units items itemId w = units_in items itemId (item_of w) (holder_of w)"

lemma units_out:
  assumes "finite (dom hold)" "hold b \<noteq> None" "its b = Some i"
  shows "units_in items itemId its hold = units_in items itemId its (hold(b := None)) + item_units items itemId i"
proof -
  have "b \<in> dom hold" "dom (hold(b := None)) = dom hold - {b}" using assms(2) by auto
  then show ?thesis using assms(1,3) by (simp add: units_in_def sum.remove)
qed

lemma units_put:
  assumes "finite (dom hold)" "hold b = None" "its b = Some i"
  shows "units_in items itemId its (hold(b \<mapsto> c)) = units_in items itemId its hold + item_units items itemId i"
  using units_out [of "hold(b \<mapsto> c)" b its i items itemId] assms by (simp add: fun_upd_idem)

lemma units_loose: "hold b = None \<Longrightarrow> units_in items itemId (its(b := j)) hold = units_in items itemId its hold"
  unfolding units_in_def by (rule sum.cong) (auto simp: dom_def)

lemma units_change:
  assumes "finite (dom hold)" "hold b \<noteq> None" "its b = Some i"
  shows "units_in items itemId (its(b \<mapsto> j)) hold + item_units items itemId i = units_in items itemId its hold + item_units items itemId j"
  using units_out [of hold b its i items itemId] units_out [of hold b "its(b \<mapsto> j)" j items itemId] assms
    units_loose [of "hold(b := None)" b items itemId its "Some j"] by simp

lemma kept_out:
  assumes "finite (dom (holder_of w))" "holder_of w b \<noteq> None" "item_of w b = Some i" "holder_of w' = (holder_of w)(b := None)" "item_of w' = item_of w"
  shows "kept_units items k w = kept_units items k w' + item_units items k i"
  using units_out [of "holder_of w" b "item_of w" i items k] assms by (simp add: kept_units_def)

lemma kept_put:
  assumes "finite (dom (holder_of w))" "holder_of w b = None" "item_of w b = Some i" "holder_of w' = (holder_of w)(b \<mapsto> c)" "item_of w' = item_of w"
  shows "kept_units items k w' = kept_units items k w + item_units items k i"
  using units_put [of "holder_of w" b "item_of w" i items k c] assms by (simp add: kept_units_def)

lemma kept_change:
  assumes "finite (dom (holder_of w))" "holder_of w b \<noteq> None" "item_of w b = Some i" "holder_of w' = holder_of w" "item_of w' = (item_of w)(b \<mapsto> j)"
  shows "kept_units items k w' + item_units items k i = kept_units items k w + item_units items k j"
  using units_change [of "holder_of w" b "item_of w" i items k j] assms by (simp add: kept_units_def)

section \<open>The contract of a cylinder\<close>

definition plain_flags :: "u32 \<Rightarrow> bool" where
  "plain_flags flags \<longleftrightarrow> \<not> hasFlags flags FLAG_NOLIMIT \<and> \<not> hasFlags flags FLAG_CHILDISOWNER"

text \<open>What \<^verbatim>\<open>items.otb\<close> says of stackable types: they are plain items, without charges, contents or decay.\<close>

definition stack_types :: "Items \<Rightarrow> bool" where
  "stack_types items \<longleftrightarrow> (\<forall>itemId. let it = getItemType items (uint (itemId :: u16)) in it_stackable it \<longrightarrow>
     it_id it \<noteq> 0 \<and> item_class it = IC_Item \<and> it_charges it = 0 \<and> it_decayTime it = 0 \<and> \<not> isFluidContainer it \<and> \<not> isSplash it)"

definition free_room :: "nat option \<Rightarrow> u16 \<Rightarrow> GameWorld \<Rightarrow> nat" where
  "free_room t itemId w = (case t of None \<Rightarrow> 0 | Some d \<Rightarrow>
     (case item_of w d of None \<Rightarrow> 0 | Some k \<Rightarrow> if i_id k = itemId then 100 - unat (i_count k) else 0))"

text \<open>
  What the game relies on.  \<open>ok\<close> is the invariant, \<open>cyl\<close> says that there is such a cylinder, \<open>target\<close> which item lies
  at an index, \<open>room\<close> that a thing can be added at an index, \<open>apart\<close> that the cylinder is not inside the thing, \<open>fits\<close>
  that a thing may come there by a move and \<open>takes\<close> that a new thing of a type may; a \<open>slotted\<close> cylinder has
  one place for each index.  A \<open>stable\<close> change takes away none of this.
\<close>

locale cylinder_laws =
  fixes items :: Items and C :: Cylinders and ok :: "GameWorld \<Rightarrow> bool" and cyl :: "Holder \<Rightarrow> GameWorld \<Rightarrow> bool"
    and target :: "Holder \<Rightarrow> int \<Rightarrow> nat option \<Rightarrow> GameWorld \<Rightarrow> bool" and room :: "Holder \<Rightarrow> int \<Rightarrow> GameWorld \<Rightarrow> bool"
    and apart :: "Holder \<Rightarrow> nat \<Rightarrow> GameWorld \<Rightarrow> bool" and fits :: "Holder \<Rightarrow> int \<Rightarrow> nat \<Rightarrow> u32 \<Rightarrow> GameWorld \<Rightarrow> bool"
    and takes :: "Holder \<Rightarrow> int \<Rightarrow> u16 \<Rightarrow> GameWorld \<Rightarrow> bool" and slotted :: "Holder \<Rightarrow> bool"
    and stable :: "GameWorld \<Rightarrow> GameWorld \<Rightarrow> bool"
  assumes types: "stack_types items"
    and stable_trans: "stable w w1 \<Longrightarrow> stable w1 w2 \<Longrightarrow> stable w w2"
    and stable_refl: "stable w w"
    and stable_keeps: "stable w w1 \<Longrightarrow> cyl c w \<Longrightarrow> cyl c w1"
      "stable w w1 \<Longrightarrow> cyl c w \<Longrightarrow> room c i w \<Longrightarrow> room c i w1"
      "stable w w1 \<Longrightarrow> cyl c w \<Longrightarrow> apart c b w \<Longrightarrow> apart c b w1"
      "stable w w1 \<Longrightarrow> cyl c w \<Longrightarrow> takes c i kk w \<Longrightarrow> takes c i kk w1"
    and ok_finite: "ok w \<Longrightarrow> finite (dom (holder_of w))"
    and ok_counts: "ok w \<Longrightarrow> item_of w b = Some j \<Longrightarrow> 1 \<le> unat (i_count j) \<and> (isStackable items j \<longrightarrow> unat (i_count j) \<le> 100)"
    and destination: "ok w \<Longrightarrow> cyl c w \<Longrightarrow> item_of w b \<noteq> None \<Longrightarrow>
      \<exists>c' i' t f'. cyl_queryDestination C c i b None f w = Some (c', i', t, f') \<and> cyl c' w \<and> target c' i' t w \<and>
        (c' \<noteq> c \<longrightarrow> t = None) \<and> (plain_flags f \<longrightarrow> plain_flags f')"
    and target_held: "ok w \<Longrightarrow> target c i (Some d) w \<Longrightarrow> holder_of w d = Some c"
    and slot_taken: "slotted c \<Longrightarrow> target c i (Some d) w \<Longrightarrow> \<not> room c i w"
    and add_answers: "ok w \<Longrightarrow> cyl c w \<Longrightarrow> item_of w b \<noteq> None \<Longrightarrow> \<exists>r. cyl_queryAdd C c i b n f w = Some r"
    and add_allows: "ok w \<Longrightarrow> cyl c w \<Longrightarrow> item_of w b \<noteq> None \<Longrightarrow> target c i t w \<Longrightarrow> plain_flags f \<Longrightarrow>
      cyl_queryAdd C c i b n f w = Some RET_NOERROR \<Longrightarrow> apart c b w \<and> fits c i b n w"
    and add_exchange: "ok w \<Longrightarrow> cyl c w \<Longrightarrow> item_of w b = Some j \<Longrightarrow> target c i t w \<Longrightarrow>
      cyl_queryAdd C c i b n f w = Some RET_NEEDEXCHANGE \<Longrightarrow>
      slotted c \<and> (\<exists>d k. t = Some d \<and> item_of w d = Some k \<and> \<not> (isStackable items k \<and> i_id k = i_id j))"
    and max_answers: "ok w \<Longrightarrow> cyl c w \<Longrightarrow> item_of w b \<noteq> None \<Longrightarrow> \<exists>r q. cyl_queryMaxCount C c i b n f w = Some (r, q)"
    and max_room: "ok w \<Longrightarrow> cyl c w \<Longrightarrow> item_of w b = Some j \<Longrightarrow> target c i t w \<Longrightarrow> plain_flags f \<Longrightarrow>
      cyl_queryMaxCount C c i b n f w = Some (r, q) \<Longrightarrow> \<not> room c i w \<Longrightarrow>
      (if isStackable items j then unat q \<le> free_room t (i_id j) w else q = 0 \<and> (n \<noteq> 0 \<longrightarrow> r \<noteq> RET_NOERROR))"
    and remove_answers: "ok w \<Longrightarrow> cyl c w \<Longrightarrow> item_of w b \<noteq> None \<Longrightarrow> \<exists>r. cyl_queryRemove C c b n f w = Some r"
    and index_answers: "ok w \<Longrightarrow> cyl c w \<Longrightarrow> \<exists>i. cyl_getIndexOfThing C c b w = Some i"
    and removed_answers: "ok w \<Longrightarrow> cyl c w \<Longrightarrow> \<exists>r. cyl_isRemoved C c w = Some r"
    and remove_allows: "ok w \<Longrightarrow> cyl c w \<Longrightarrow> item_of w b = Some j \<Longrightarrow> cyl_queryRemove C c b n f w = Some RET_NOERROR \<Longrightarrow>
      holder_of w b = Some c \<and> n \<noteq> 0 \<and> (isStackable items j \<longrightarrow> n \<le> ucast (i_count j))"
    and remove_some: "ok w \<Longrightarrow> cyl c w \<Longrightarrow> holder_of w b = Some c \<Longrightarrow> item_of w b = Some j \<Longrightarrow> isStackable items j \<Longrightarrow>
      n \<noteq> 0 \<Longrightarrow> n < ucast (i_count j) \<Longrightarrow>
      \<exists>w'. cyl_removeThing C c b n w = Some w' \<and> ok w' \<and> stable w w' \<and> holder_of w' = holder_of w \<and>
        item_of w' = (item_of w)(b \<mapsto> j\<lparr>i_count := i_count j - ucast n\<rparr>)"
    and remove_all: "ok w \<Longrightarrow> cyl c w \<Longrightarrow> holder_of w b = Some c \<Longrightarrow> item_of w b = Some j \<Longrightarrow>
      \<not> isStackable items j \<or> n = ucast (i_count j) \<Longrightarrow>
      \<exists>w'. cyl_removeThing C c b n w = Some w' \<and> ok w' \<and> stable w w' \<and> holder_of w' = (holder_of w)(b := None) \<and>
        item_of w' = item_of w \<and> (\<forall>c' i k. cyl c' w \<longrightarrow> fits c' i b k w \<longrightarrow> takes c' i (i_id j) w') \<and>
        (\<forall>i. slotted c \<longrightarrow> target c i (Some b) w \<longrightarrow> target c i None w')"
    and fits_part: "ok w \<Longrightarrow> cyl c w \<Longrightarrow> item_of w b = Some j \<Longrightarrow> isStackable items j \<Longrightarrow> fits c i b n w \<Longrightarrow> room c i w \<Longrightarrow>
      cyl_queryMaxCount C c i b n f w = Some (r, q) \<Longrightarrow> min n q < ucast (i_count j) \<Longrightarrow> takes c i (i_id j) w"
    and fits_loose: "ok w \<Longrightarrow> cyl c w \<Longrightarrow> item_of w b = Some j \<Longrightarrow> holder_of w b = None \<Longrightarrow> fits c i b n w \<Longrightarrow> takes c i (i_id j) w"
    and max_enough: "ok w \<Longrightarrow> cyl c w \<Longrightarrow> item_of w b = Some j \<Longrightarrow> isStackable items j \<Longrightarrow> unat n \<le> 100 \<Longrightarrow>
      cyl_queryMaxCount C c i b n f w = Some (RET_NOERROR, q) \<Longrightarrow> plain_flags f \<Longrightarrow> n \<le> q"
    and update: "ok w \<Longrightarrow> cyl c w \<Longrightarrow> holder_of w b = Some c \<Longrightarrow> item_of w b = Some j \<Longrightarrow> isStackable items j \<Longrightarrow>
      1 \<le> unat n \<Longrightarrow> unat n \<le> 100 \<Longrightarrow>
      \<exists>w' k. cyl_updateThing C c b (i_id j) n w = Some w' \<and> ok w' \<and> stable w w' \<and> holder_of w' = holder_of w \<and>
        item_of w' = (item_of w)(b \<mapsto> k) \<and> i_id k = i_id j \<and> unat (i_count k) = unat n"
    and put: "ok w \<Longrightarrow> cyl c w \<Longrightarrow> holder_of w b = None \<Longrightarrow> item_of w b = Some j \<Longrightarrow> apart c b w \<Longrightarrow> room c i w \<Longrightarrow>
      takes c i (i_id j) w \<Longrightarrow>
      \<exists>w'. cyl_addThing C c i b w = Some w' \<and> ok w' \<and> holder_of w' = (holder_of w)(b \<mapsto> c) \<and> item_of w' = item_of w \<and>
        (\<forall>c'. cyl c' w \<longrightarrow> cyl c' w') \<and> (\<forall>c' i t. c' \<noteq> c \<longrightarrow> target c' i t w \<longrightarrow> target c' i t w')"
    and create: "ok w \<Longrightarrow> heap w d = None \<Longrightarrow> 1 \<le> unat (i_count j) \<Longrightarrow> unat (i_count j) \<le> 100 \<Longrightarrow>
      w' = w\<lparr>heap := (heap w)(d \<mapsto> \<lparr>o_item = j, o_parent = None, o_body = None\<rparr>)\<rparr> \<Longrightarrow>
      ok w' \<and> stable w w' \<and> (\<forall>c. cyl c w \<longrightarrow> apart c d w')"
    and told: "ok w \<Longrightarrow> cyl c w \<Longrightarrow>
      (\<exists>w'. cyl_postAdd C c b old i w = Some w' \<and> heap w' = heap w \<and> ok w' \<and> stable w w' \<and> (\<forall>c i t. target c i t w \<longrightarrow> target c i t w')) \<and>
      (\<exists>w'. cyl_postRemove C c b old i g w = Some w' \<and> heap w' = heap w \<and> ok w' \<and> stable w w' \<and> (\<forall>c i t. target c i t w \<longrightarrow> target c i t w'))"
    and exchange_back: "ok w \<Longrightarrow> cyl c w \<Longrightarrow> item_of w b = Some j \<Longrightarrow> item_of w d = Some k \<Longrightarrow>
      \<not> (isStackable items k \<and> i_id k = i_id j) \<Longrightarrow> cyl_getIndexOfThing C c b w = Some i \<Longrightarrow>
      cyl_queryAdd C c i d (ucast (i_count k)) 0 w = Some RET_NOERROR \<Longrightarrow>
      cyl_queryMaxCount C c (-1) d (ucast (i_count k)) 0 w = Some (r, q) \<Longrightarrow> r = RET_NOERROR \<or> q \<noteq> 0 \<Longrightarrow>
      apart c d w \<and> room c 0 w \<and> takes c 0 (i_id k) w \<and> \<not> slotted c"
begin

text \<open>A chain of destinations ends in a cylinder with what lies at the index.\<close>

lemma find_destination_ends:
  assumes "ok w" "item_of w b \<noteq> None"
  shows "cyl c w \<Longrightarrow> plain_flags f \<Longrightarrow>
    \<exists>c' i' t f'. find_destination C (Suc n) c i b None f w = Some (c', i', t, f') \<and> cyl c' w \<and> target c' i' t w \<and> plain_flags f'"
proof (induction n arbitrary: c i f)
  case 0
  obtain c' i' t f' where d: "cyl_queryDestination C c i b None f w = Some (c', i', t, f')" "cyl c' w" "target c' i' t w"
    "c' \<noteq> c \<Longrightarrow> t = None" "plain_flags f \<Longrightarrow> plain_flags f'"
    using destination [OF assms(1) 0(1) assms(2), of i f] by blast
  then show ?case using 0 by (cases "c' = c") (auto simp: plain_flags_def hasFlags_def)
next
  case (Suc n)
  obtain c' i' t f' where d: "cyl_queryDestination C c i b None f w = Some (c', i', t, f')" "cyl c' w" "target c' i' t w"
    "c' \<noteq> c \<Longrightarrow> t = None" "plain_flags f \<Longrightarrow> plain_flags f'"
    using destination [OF assms(1) Suc.prems(1) assms(2), of i f] by blast
  show ?case
  proof (cases "c' = c")
    case True
    with d Suc.prems show ?thesis by (subst find_destination.simps) simp
  next
    case False
    have "plain_flags 0" by (simp add: plain_flags_def hasFlags_def)
    from Suc.IH [OF d(2) this, of i'] d(1,4) False show ?thesis by (subst find_destination.simps) simp
  qed
qed

lemma notifications:
  assumes "ok w" "cyl c w"
  shows "\<exists>w'. notify_removed C c b q i g w = Some w' \<and> heap w' = heap w \<and> ok w' \<and> stable w w' \<and> (\<forall>c i t. target c i t w \<longrightarrow> target c i t w')"
    and "\<exists>w'. notify_added C c m q w = Some w' \<and> heap w' = heap w \<and> ok w' \<and> stable w w' \<and> (\<forall>c i t. target c i t w \<longrightarrow> target c i t w')"
proof -
  show "\<exists>w'. notify_removed C c b q i g w = Some w' \<and> heap w' = heap w \<and> ok w' \<and> stable w w' \<and> (\<forall>c i t. target c i t w \<longrightarrow> target c i t w')"
    using told [OF assms, of b q i g] stable_refl by (auto simp: notify_removed_def assms(1))
  show "\<exists>w'. notify_added C c m q w = Some w' \<and> heap w' = heap w \<and> ok w' \<and> stable w w' \<and> (\<forall>c i t. target c i t w \<longrightarrow> target c i t w')"
  proof (cases m)
    case (Some b)
    obtain j where "cyl_getIndexOfThing C c b w = Some j" using index_answers [OF assms] by blast
    then show ?thesis using Some told [OF assms, of b q j g] stable_refl by (auto simp: notify_added_def assms(1))
  qed (auto simp: notify_added_def assms(1) stable_refl)
qed

lemma same_heap: "heap w' = heap w \<Longrightarrow> item_of w' = item_of w" "heap w' = heap w \<Longrightarrow> holder_of w' = holder_of w"
  by (simp_all add: item_of_def [abs_def] holder_of_def [abs_def])

lemma units_same_heap: "heap w' = heap w \<Longrightarrow> kept_units items k w' = kept_units items k w"
  using same_heap [of w' w] by (simp add: kept_units_def)

lemma exchange_ok:
  assumes ok: "ok w" and cyls: "cyl fromCyl w" "cyl toCyl w" and j: "item_of w b = Some j" and t: "target toCyl i t w"
    and flags: "plain_flags f" and need: "cyl_queryAdd C toCyl i b n f w = Some RET_NEEDEXCHANGE"
  shows "\<exists>r w'. exchange_items C fromCyl toCyl i b t n f w = Some (r, w') \<and> ok w' \<and> cyl fromCyl w' \<and> cyl toCyl w' \<and>
    item_of w' = item_of w \<and> (\<forall>k. kept_units items k w' = kept_units items k w) \<and>
    (\<forall>t'. r = Inr (RET_NOERROR, t') \<longrightarrow> target toCyl i t' w' \<and> (t' = t \<or> t' = None) \<and>
      (apart toCyl b w' \<and> fits toCyl i b n w' \<or> \<not> room toCyl i w' \<and> (isStackable items j \<longrightarrow> free_room t' (i_id j) w' = 0)))"
proof -
  obtain d k where d: "slotted toCyl" "t = Some d" "item_of w d = Some k" "\<not> (isStackable items k \<and> i_id k = i_id j)"
    using add_exchange [OF ok cyls(2) j t need] by blast
  let ?n = "ucast (i_count k) :: u32"
  obtain fi where fi: "cyl_getIndexOfThing C fromCyl b w = Some fi" using index_answers [OF ok cyls(1)] by blast
  obtain r where r: "cyl_queryAdd C fromCyl fi d ?n 0 w = Some r" using add_answers [OF ok cyls(1)] d(3) by blast
  obtain rm q where rm: "cyl_queryMaxCount C fromCyl (-1) d ?n 0 w = Some (rm, q)" using max_answers [OF ok cyls(1)] d(3) by blast
  obtain rr where rr: "cyl_queryRemove C toCyl d ?n f w = Some rr" using remove_answers [OF ok cyls(2)] d(3) by blast
  have k: "item_count d w = Some ?n" using d(3) by (simp add: item_count_def)
  note start = exchange_items_def fi d(2) k r rm rr
  consider (refused) "r \<noteq> RET_NOERROR" | (full) "r = RET_NOERROR" "rm \<noteq> RET_NOERROR" "q = 0"
    | (stuck) "r = RET_NOERROR" "rm = RET_NOERROR \<or> q \<noteq> 0" "rr \<noteq> RET_NOERROR"
    | (swap) "r = RET_NOERROR" "rm = RET_NOERROR \<or> q \<noteq> 0" "rr = RET_NOERROR" by blast
  then show ?thesis
  proof cases
    case stuck
    have "isStackable items j \<longrightarrow> free_room t (i_id j) w = 0"
      using d(2-4) by (auto simp: free_room_def isStackable_def item_type_def)
    then show ?thesis using stuck start ok cyls t d(2) slot_taken [OF d(1)] by auto
  next
    case swap
    have home: "apart fromCyl d w" "room fromCyl 0 w" "takes fromCyl 0 (i_id k) w" "\<not> slotted fromCyl"
      using exchange_back [OF ok cyls(1) j d(3,4) fi _ rm swap(2)] r swap(1) by simp_all
    have held: "holder_of w d = Some toCyl" using target_held [OF ok] t d(2) by blast
    obtain w1 where w1: "cyl_removeThing C toCyl d ?n w = Some w1" "ok w1" "stable w w1" "holder_of w1 = (holder_of w)(d := None)"
      "item_of w1 = item_of w" "target toCyl i None w1"
      using remove_all [OF ok cyls(2) held d(3), of ?n] d(1,2) t by auto
    note s1 = stable_keeps [OF w1(3)]
    obtain w2 where w2: "cyl_addThing C fromCyl 0 d w1 = Some w2" "ok w2" "holder_of w2 = (holder_of w1)(d \<mapsto> fromCyl)"
      "item_of w2 = item_of w1" "\<And>c'. cyl c' w1 \<Longrightarrow> cyl c' w2" "\<And>c' i' t. c' \<noteq> fromCyl \<Longrightarrow> target c' i' t w1 \<Longrightarrow> target c' i' t w2"
      using put [OF w1(2) s1(1) [OF cyls(1)], of d k 0] w1(4,5) d(3) s1(2-4) [OF cyls(1)] home by auto
    have "toCyl \<noteq> fromCyl" using home(4) d(1) by blast
    then have t2: "target toCyl i None w2" using w2(6) w1(6) by blast
    have c2: "cyl fromCyl w2" "cyl toCyl w2" using w2(5) s1(1) cyls by auto
    have u2: "kept_units items x w2 = kept_units items x w" for x
      using kept_out [OF ok_finite [OF ok] _ d(3) w1(4,5), of items x] kept_put [OF ok_finite [OF w1(2)] _ _ w2(3,4), of k items x]
        held d(3) w1(4,5) by simp
    obtain oi where oi: "cyl_getIndexOfThing C toCyl d w = Some oi" using index_answers [OF ok cyls(2)] by blast
    obtain w3 where w3: "notify_removed C toCyl d (Some fromCyl) oi True w2 = Some w3" "heap w3 = heap w2" "ok w3" "stable w2 w3"
      "\<And>c i t. target c i t w2 \<Longrightarrow> target c i t w3" using notifications(1) [OF w2(2) c2(2)] by blast
    obtain w4 where w4: "notify_added C fromCyl (Some d) (Some toCyl) w3 = Some w4" "heap w4 = heap w3" "ok w4" "stable w3 w4"
      "\<And>c i t. target c i t w3 \<Longrightarrow> target c i t w4"
      using notifications(2) [OF w3(3) stable_keeps(1) [OF w3(4) c2(1)]] by blast
    have c4: "cyl fromCyl w4" "cyl toCyl w4" using stable_keeps(1) w3(4) w4(4) c2 by blast+
    have i4: "item_of w4 = item_of w" using w4(2) w3(2) w2(4) w1(5) by (simp add: item_of_def fun_eq_iff)
    have t4: "target toCyl i None w4" using t2 w3(5) w4(5) by blast
    obtain r' where r': "cyl_queryAdd C toCyl i b n f w4 = Some r'" using add_answers [OF w4(3) c4(2)] i4 j by (metis option.distinct(1))
    have "kept_units items x w4 = kept_units items x w" for x
      using u2 units_same_heap [of w4 w2] w4(2) w3(2) by simp
    moreover have "r' = RET_NOERROR \<Longrightarrow> apart toCyl b w4 \<and> fits toCyl i b n w4"
      using add_allows [OF w4(3) c4(2) _ t4 flags] r' i4 j by simp
    moreover have "exchange_items C fromCyl toCyl i b t n f w = Some (Inr (r', None), w4)"
      using swap by (auto simp: exchange_items_def fi d(2) k r rm rr oi w1(1) w2(1) w3(1) w4(1) r')
    ultimately show ?thesis using w4(3) c4 i4 t4 by auto
  qed (use start ok cyls in auto)
qed

lemma stackable_id: "i_id k = i_id j \<Longrightarrow> isStackable items k = isStackable items j"
  by (simp add: isStackable_def item_type_def)

lemma merge_ok:
  assumes ok: "ok w" and c: "cyl toCyl w" and j: "item_of w b = Some j" "isStackable items j"
    and t: "\<And>d. t = Some d \<Longrightarrow> holder_of w d = Some toCyl \<and> d \<noteq> b"
  shows "\<exists>n u w'. merge_into C toCyl t b m w = Some (n, u, w') \<and> ok w' \<and> stable w w' \<and> holder_of w' = holder_of w \<and>
    item_of w' b = Some j \<and> dom (item_of w') = dom (item_of w) \<and> n \<le> m \<and>
    (\<forall>k. kept_units items k w' = kept_units items k w + (if i_id j = k then unat n else 0)) \<and>
    (unat m \<le> free_room t (i_id j) w \<longrightarrow> n = m)"
proof (cases t)
  case None
  have "unat m \<le> 0 \<Longrightarrow> m = 0" by (simp add: unat_eq_zero)
  then show ?thesis using None ok stable_refl j by (auto simp: merge_into_def free_room_def)
next
  case (Some d)
  obtain k where k: "item_of w d = Some k" using t [OF Some] by (auto simp: item_of_def holder_of_def Option.bind_eq_Some_conv)
  show ?thesis
  proof (cases "i_id k = i_id j")
    case False
    have "unat m \<le> 0 \<Longrightarrow> m = 0" by (simp add: unat_eq_zero)
    then show ?thesis using False Some ok stable_refl j k by (auto simp: merge_into_def free_room_def)
  next
    case True
    let ?c = "ucast (i_count k) :: u32"
    define n where "n = min (100 - ?c) m"
    note count = ok_counts [OF ok k]
    have s: "isStackable items k" using stackable_id [OF True] j(2) by simp
    have c100: "unat (100 - ?c) = 100 - unat (i_count k)" using count s
      by (subst unat_sub) (simp_all add: word_le_nat_alt)
    then have nn: "unat n = min (100 - unat (i_count k)) (unat m)" by (simp add: n_def min_def word_le_nat_alt)
    moreover have "min (100 - unat (i_count k)) (unat m) \<le> 100" by simp
    ultimately have le: "unat (?c + n) = unat (i_count k) + unat n" using count s
    by (subst unat_word_ariths, subst mod_less) auto
    then have lo: "1 \<le> unat (?c + n)" and hi: "unat (?c + n) \<le> 100" using nn count s by auto
    have held: "holder_of w d = Some toCyl" "d \<noteq> b" using t [OF Some] by auto
    obtain w' k' where w': "cyl_updateThing C toCyl d (i_id k) (?c + n) w = Some w'" "ok w'" "stable w w'" "holder_of w' = holder_of w"
      "item_of w' = (item_of w)(d \<mapsto> k')" "i_id k' = i_id k" "unat (i_count k') = unat (?c + n)"
      using update [OF ok c held(1) k s lo hi] by blast
    have "kept_units items x w' = kept_units items x w + (if i_id j = x then unat n else 0)" for x
      using kept_change [OF ok_finite [OF ok] _ k w'(4,5), of items x] held(1) w'(6,7) le s stackable_id [of k' k] True
      by (auto simp: item_units_def)
    moreover have "n \<le> m" by (simp add: n_def)
    moreover have "unat m \<le> free_room t (i_id j) w \<Longrightarrow> n = m"
      using Some k True nn by (auto simp: free_room_def word_unat_eq_iff)
    moreover have "merge_into C toCyl t b m w = Some (n, Some d, w')"
      using Some k j(1) True w'(1) by (simp add: merge_into_def n_def Let_def)
    ultimately show ?thesis using w' k held(2) j by auto
  qed
qed

lemma new_stack_ok:
  assumes ok: "ok w" and c: "cyl toCyl w" and room: "room toCyl i w" "takes toCyl i kk w"
    and kk: "it_stackable (getItemType items (uint kk))" and m: "1 \<le> unat m" "unat m \<le> 100" and alloc: "heap w (alloc (heap w)) = None"
  shows "\<exists>a w1 w2. new_object items alloc kk (ucast (m :: u32)) w = Some (Some a, w1) \<and> cyl_addThing C toCyl i a w1 = Some w2 \<and> ok w2 \<and>
    (\<forall>c. cyl c w \<longrightarrow> cyl c w2) \<and> holder_of w2 = (holder_of w)(a \<mapsto> toCyl) \<and> (\<exists>j. item_of w2 = (item_of w)(a \<mapsto> j)) \<and> holder_of w a = None \<and>
    (\<forall>k. kept_units items k w2 = kept_units items k w + (if kk = k then unat m else 0))"
proof -
  let ?it = "getItemType items (uint kk)"
  have ty: "it_id ?it \<noteq> 0" "item_class ?it = IC_Item" "it_charges ?it = 0" "\<not> isFluidContainer ?it" "\<not> isSplash ?it"
    using types kk by (auto simp: stack_types_def Let_def)
  define j where "j = \<lparr>m_attributes = [], m_attrFlags = 0, i_id = kk, i_count = ucast m, i_loadedOnMap = False\<rparr>"
  have um: "unat (ucast m :: u8) = unat m" "unat (ucast m :: u16) = unat m" using count_narrow m(2) by auto
  have "(ucast m :: u16) \<noteq> 0" using um(2) m(1) by (auto simp: word_unat_eq_iff)
  moreover have "(ucast (ucast m :: u16) :: u8) = ucast m"
    using um by (simp add: word_unat_eq_iff unsigned_ucast_eq unsigned_take_bit_eq)
  ultimately have "new_Item items kk (ucast m) = Some j" using ty kk by (simp add: new_Item_eq Let_def j_def)
  then have cr: "CreateItem items kk (ucast m) = Some (Some (IC_Item, j))" using ty by (simp add: CreateItem_def Let_def)
  define a where "a = alloc (heap w)"
  define w1 where "w1 = w\<lparr>heap := (heap w)(a \<mapsto> \<lparr>o_item = j, o_parent = None, o_body = None\<rparr>)\<rparr>"
  have n: "new_object items alloc kk (ucast m) w = Some (Some a, w1)"
    by (simp add: new_object_def cr a_def w1_def object_of_def)
  have free: "heap w a = None" using alloc by (simp add: a_def)
  have w1: "ok w1" "stable w w1" "apart toCyl a w1"
    using create [OF ok free _ _ w1_def] c m um by (auto simp: j_def)
  have h1: "holder_of w1 = holder_of w" "item_of w1 = (item_of w)(a \<mapsto> j)" "holder_of w a = None"
    using free by (auto simp: w1_def holder_of_def item_of_def fun_eq_iff)
  obtain w2 where w2: "cyl_addThing C toCyl i a w1 = Some w2" "ok w2" "holder_of w2 = (holder_of w1)(a \<mapsto> toCyl)" "item_of w2 = item_of w1"
    "\<And>c'. cyl c' w1 \<Longrightarrow> cyl c' w2"
    using put [OF w1(1) stable_keeps(1) [OF w1(2) c], of a j i] h1 w1(3) stable_keeps(2,4) [OF w1(2) c] room by (auto simp: j_def)
  have "isStackable items j" "i_id j = kk" "unat (i_count j) = unat m" using kk um by (simp_all add: isStackable_def item_type_def j_def)
  then have j': "item_units items k j = (if kk = k then unat m else 0)" for k by (simp add: item_units_def)
  have "kept_units items k w1 = kept_units items k w" for k
    using units_loose [of "holder_of w" a items k "item_of w" "Some j"] h1 by (simp add: kept_units_def)
  then have "kept_units items k w2 = kept_units items k w + (if kk = k then unat m else 0)" for k
    using kept_put [OF ok_finite [OF w1(1)] _ _ w2(3,4), of j items k] h1 by (simp add: j')
  then show ?thesis using n w2 w1(2) h1 stable_keeps(1) by auto
qed

lemma less_stack:
  assumes "ok w" "item_of w b = Some j" "isStackable items j" "m < ucast (i_count j)"
  shows "unat (i_count (j\<lparr>i_count := i_count j - ucast (m :: u32)\<rparr>)) = unat (i_count j) - unat m \<and> unat m \<le> unat (i_count j)"
proof -
  have "unat m < unat (i_count j)" using assms(4) by (simp add: word_less_nat_alt)
  moreover have "unat (i_count j) \<le> 100" using ok_counts [OF assms(1,2)] assms(3) by simp
  ultimately show ?thesis using count_narrow(2) [of m] by (simp add: unat_sub word_le_nat_alt)
qed

text \<open>Taking a thing, or a part of a stack, out of its cylinder.\<close>

lemma take_stack_ok:
  assumes ok: "ok w" and c: "cyl fromCyl w" "cyl toCyl w" and j: "item_of w b = Some j" "isStackable items j"
    and held: "holder_of w b = Some fromCyl" and m: "m \<noteq> 0" "m \<le> ucast (i_count j)"
    and fits: "fits toCyl i b n w" "cyl_queryMaxCount C toCyl i b n f w = Some (r, q)" "m = min n q"
  shows "\<exists>w' j'. cyl_removeThing C fromCyl b m w = Some w' \<and> ok w' \<and> stable w w' \<and> item_of w' b = Some j' \<and> i_id j' = i_id j \<and>
    dom (item_of w') = dom (item_of w) \<and> (\<forall>d. d \<noteq> b \<longrightarrow> holder_of w' d = holder_of w d \<and> item_of w' d = item_of w d) \<and>
    (\<forall>k. kept_units items k w = kept_units items k w' + (if i_id j = k then unat m else 0)) \<and>
    (room toCyl i w \<longrightarrow> takes toCyl i (i_id j) w') \<and> (holder_of w' b = None \<or> holder_of w' b = Some fromCyl)"
proof (cases "m = ucast (i_count j)")
  case True
  obtain w' where w': "cyl_removeThing C fromCyl b m w = Some w'" "ok w'" "stable w w'" "holder_of w' = (holder_of w)(b := None)"
    "item_of w' = item_of w" "takes toCyl i (i_id j) w'"
    using remove_all [OF ok c(1) held j(1), of m] True fits(1) c(2) by blast
  have "kept_units items k w = kept_units items k w' + (if i_id j = k then unat m else 0)" for k
    using kept_out [OF ok_finite [OF ok] _ j(1) w'(4,5), of items k] held j(2) True by (simp add: item_units_def)
  with w' j show ?thesis by auto
next
  case False
  with m(2) have less: "m < ucast (i_count j)" by simp
  let ?j = "j\<lparr>i_count := i_count j - ucast m\<rparr>"
  obtain w' where w': "cyl_removeThing C fromCyl b m w = Some w'" "ok w'" "stable w w'" "holder_of w' = holder_of w"
    "item_of w' = (item_of w)(b \<mapsto> ?j)"
    using remove_some [OF ok c(1) held j m(1) less] by blast
  have um: "unat (i_count ?j) = unat (i_count j) - unat m" "unat m \<le> unat (i_count j)"
    using less_stack [OF ok j less] by simp_all
  have "isStackable items ?j" using j(2) by (simp add: isStackable_def item_type_def)
  then have "kept_units items k w = kept_units items k w' + (if i_id j = k then unat m else 0)" for k
    using kept_change [OF ok_finite [OF ok] _ j(1) w'(4,5), of items k] held j(2) um by (auto simp: item_units_def)
  moreover have "room toCyl i w \<Longrightarrow> takes toCyl i (i_id j) w'"
    using fits_part [OF ok c(2) j fits(1) _ fits(2)] less fits(3) stable_keeps(4) [OF w'(3) c(2)] by simp
  ultimately show ?thesis using w' j held by auto
qed

lemma carry_ok:
  assumes ok: "ok w" and c: "cyl fromCyl w" "cyl toCyl w" and j: "item_of w b = Some j" and t: "target toCyl i t w" "t \<noteq> Some b"
    and f: "plain_flags f" and alloc: "\<And>h. dom h = dom (heap w) \<Longrightarrow> h (alloc h) = None"
    and way: "apart toCyl b w \<and> fits toCyl i b n w \<or> \<not> room toCyl i w \<and> (isStackable items j \<longrightarrow> free_room t (i_id j) w = 0)"
  shows "\<exists>r mv w'. carry_item items alloc C fromCyl toCyl i b t n f w = Some (r, mv, w') \<and> ok w' \<and>
    (\<forall>k. kept_units items k w' = kept_units items k w)"
proof -
  obtain rm q where rm: "cyl_queryMaxCount C toCyl i b n f w = Some (rm, q)" using max_answers [OF ok c(2)] j by blast
  define m where "m = (if isStackable items j then min n q else q)"
  obtain rr where rr: "cyl_queryRemove C fromCyl b m f w = Some rr" using remove_answers [OF ok c(1)] j by blast
  consider (full) "rm \<noteq> RET_NOERROR" "q = 0" | (refused) "rm = RET_NOERROR \<or> q \<noteq> 0" "rr \<noteq> RET_NOERROR"
    | (go) "rm = RET_NOERROR \<or> q \<noteq> 0" "rr = RET_NOERROR" by blast
  then show ?thesis
  proof cases
    case go
    have m: "holder_of w b = Some fromCyl" "m \<noteq> 0" "isStackable items j \<Longrightarrow> m \<le> ucast (i_count j)"
      using remove_allows [OF ok c(1) j] rr go(2) by blast+
    have full: "isStackable items j \<and> unat m \<le> free_room t (i_id j) w" if "\<not> room toCyl i w"
      using max_room [OF ok c(2) j t(1) f rm that] m(2) by (auto simp: m_def min_def word_le_nat_alt split: if_splits)
    then have way: "apart toCyl b w" "fits toCyl i b n w" using way m(2) by (auto simp: unat_eq_zero)
    obtain ix where ix: "cyl_getIndexOfThing C fromCyl b w = Some ix" using index_answers [OF ok c(1)] by blast
    have "\<exists>w1 u mv w2. cyl_removeThing C fromCyl b m w = Some w1 \<and> ok w1 \<and> cyl fromCyl w1 \<and>
      (holder_of w1 b = None \<or> holder_of w1 b = Some fromCyl) \<and>
      put_items items alloc C toCyl i t b m w1 = Some (u, mv, w2) \<and> ok w2 \<and> cyl fromCyl w2 \<and> cyl toCyl w2 \<and>
      (\<forall>k. kept_units items k w2 = kept_units items k w)"
    proof (cases "isStackable items j")
      case False
      then have room: "room toCyl i w" using full by blast
      obtain w1 where w1: "cyl_removeThing C fromCyl b m w = Some w1" "ok w1" "stable w w1" "holder_of w1 = (holder_of w)(b := None)"
        "item_of w1 = item_of w" "takes toCyl i (i_id j) w1"
        using remove_all [OF ok c(1) m(1) j, of m] False way(2) c(2) by blast
      note s1 = stable_keeps [OF w1(3)]
      obtain w2 where w2: "cyl_addThing C toCyl i b w1 = Some w2" "ok w2" "holder_of w2 = (holder_of w1)(b \<mapsto> toCyl)" "item_of w2 = item_of w1"
        "\<And>c'. cyl c' w1 \<Longrightarrow> cyl c' w2"
        using put [OF w1(2) s1(1) [OF c(2)], of b j i] w1(4-6) j s1(2,3) [OF c(2)] way(1) room by auto
      have "kept_units items k w2 = kept_units items k w" for k
        using kept_out [OF ok_finite [OF ok] _ j w1(4,5), of items k] kept_put [OF ok_finite [OF w1(2)] _ _ w2(3,4), of j items k]
          m(1) w1(4,5) j by simp
      moreover have "put_items items alloc C toCyl i t b m w1 = Some (None, Some b, w2)"
        using False w1(5) j w2(1) by (simp add: put_items_def)
      ultimately show ?thesis using w1 w2(2,5) s1(1) c
        by (intro exI [of _ w1] exI [of _ None] exI [of _ "Some b"] exI [of _ w2] conjI) auto
    next
      case True
      obtain w1 j1 where w1: "cyl_removeThing C fromCyl b m w = Some w1" "ok w1" "stable w w1" "item_of w1 b = Some j1" "i_id j1 = i_id j"
        "dom (item_of w1) = dom (item_of w)" "\<And>d. d \<noteq> b \<Longrightarrow> holder_of w1 d = holder_of w d \<and> item_of w1 d = item_of w d"
        "\<And>k. kept_units items k w = kept_units items k w1 + (if i_id j = k then unat m else 0)"
        "room toCyl i w \<Longrightarrow> takes toCyl i (i_id j) w1" "holder_of w1 b = None \<or> holder_of w1 b = Some fromCyl"
        using take_stack_ok [OF ok c j True m(1,2) m(3) [OF True] way(2) rm] True by (auto simp: m_def)
      note s1 = stable_keeps [OF w1(3)]
      have fr: "free_room t (i_id j) w1 = free_room t (i_id j) w" 
      proof (cases t)
        case (Some d)
        with t(2) w1(7) [of d] show ?thesis by (simp add: free_room_def)
      qed (simp add: free_room_def)
      have td: "holder_of w1 d = Some toCyl \<and> d \<noteq> b" if "t = Some d" for d
        using that target_held [OF ok, of toCyl i d] t w1(7) [of d] by auto
      have st: "isStackable items j1" using stackable_id [OF w1(5)] True by simp
      obtain k u w2 where w2: "merge_into C toCyl t b m w1 = Some (k, u, w2)" "ok w2" "stable w1 w2" "holder_of w2 = holder_of w1"
        "item_of w2 b = Some j1" "dom (item_of w2) = dom (item_of w1)" "k \<le> m"
        "\<And>x. kept_units items x w2 = kept_units items x w1 + (if i_id j1 = x then unat k else 0)"
        "unat m \<le> free_room t (i_id j1) w1 \<Longrightarrow> k = m"
        using merge_ok [OF w1(2) s1(1) [OF c(2)] w1(4) st td, of t m] by blast
      note s2 = stable_keeps [OF w2(3)]
      have c2: "cyl fromCyl w2" "cyl toCyl w2" using s1(1) s2(1) c by auto
      have h1: "holder_of w1 b = None \<or> holder_of w1 b = Some fromCyl" using w1(10) .
      show ?thesis
      proof (cases "m - k > 0")
        case False
        then have "m - k = 0" by (metis word_gt_0)
        then have "k = m" by simp
        then have "put_items items alloc C toCyl i t b m w1 = Some (u, None, w2)"
          using w1(4) st w2(1) by (simp add: put_items_def)
        moreover have "kept_units items x w2 = kept_units items x w" for x using w2(8) w1(5,8) \<open>k = m\<close> by simp
        ultimately show ?thesis using w1(1,2) w2(2) s1(1) c c2 h1
          by (intro exI [of _ w1] exI [of _ u] exI [of _ None] exI [of _ w2] conjI) auto
      next
        case rest: True
        have room: "room toCyl i w" using full w2(9) fr w1(5) rest by force
        have um: "unat (m - k) = unat m - unat k" "unat k \<le> unat m" using w2(7) by (simp_all add: unat_sub word_le_nat_alt)
        have "unat m \<le> 100" using m(3) [OF True] ok_counts [OF ok j] True by (simp add: word_le_nat_alt)
        then have le: "1 \<le> unat (m - k)" "unat (m - k) \<le> 100" using rest um by (auto simp: word_less_nat_alt)
        have "dom (heap w2) = dom (heap w)" using w2(6) w1(6) dom_item_of by simp
        then have al: "heap w2 (alloc (heap w2)) = None" using alloc by blast
        have ts: "it_stackable (getItemType items (uint (i_id j1)))" using st by (simp add: isStackable_def item_type_def)
        obtain a w3 w4 where w4: "new_object items alloc (i_id j1) (ucast (m - k)) w2 = Some (Some a, w3)" "cyl_addThing C toCyl i a w3 = Some w4"
          "ok w4" "\<And>c. cyl c w2 \<Longrightarrow> cyl c w4" "\<And>x. kept_units items x w4 = kept_units items x w2 + (if i_id j1 = x then unat (m - k) else 0)"
          using new_stack_ok [where alloc = alloc, OF w2(2) c2(2) s2(2) [OF s1(1) [OF c(2)] s1(2) [OF c(2) room]] _ ts le al]
            s2(4) [OF s1(1) [OF c(2)] w1(9) [OF room]] w1(5) by force
        have "put_items items alloc C toCyl i t b m w1 = Some (u, Some a, w4)"
          using w1(4) st w2(1) rest w4(1,2) by (simp add: put_items_def)
        moreover have "kept_units items x w4 = kept_units items x w" for x using w4(5) w2(8) w1(5,8) um by simp
        ultimately show ?thesis using w1(1,2) w4(3,4) s1(1) c c2 h1
          by (intro exI [of _ w1] exI [of _ u] exI [of _ "Some a"] exI [of _ w4] conjI) auto
      qed
    qed
    then obtain w1 u mv w2 where w1: "cyl_removeThing C fromCyl b m w = Some w1" "ok w1" "cyl fromCyl w1"
      "holder_of w1 b = None \<or> holder_of w1 b = Some fromCyl"
      and w2: "put_items items alloc C toCyl i t b m w1 = Some (u, mv, w2)" "ok w2" "cyl fromCyl w2" "cyl toCyl w2"
        "\<And>k. kept_units items k w2 = kept_units items k w" by blast
    obtain g where g: "(case holder_of w1 b of None \<Rightarrow> Some True | Some c \<Rightarrow> cyl_isRemoved C c w1) = Some g"
      using w1(4) removed_answers [OF w1(2,3)] by auto
    obtain w3 where w3: "notify_removed C fromCyl b (Some toCyl) ix g w2 = Some w3" "heap w3 = heap w2" "ok w3" "stable w2 w3"
      using notifications(1) [OF w2(2,3)] by blast
    have c3: "cyl toCyl w3" using stable_keeps(1) [OF w3(4) w2(4)] .
    obtain w4 where w4: "notify_added C toCyl mv (Some fromCyl) w3 = Some w4" "heap w4 = heap w3" "ok w4" "stable w3 w4"
      using notifications(2) [OF w3(3) c3] by blast
    obtain w5 where w5: "notify_added C toCyl u (Some fromCyl) w4 = Some w5" "heap w5 = heap w4" "ok w5"
      using notifications(2) [OF w4(3) stable_keeps(1) [OF w4(4) c3]] by blast
    have "kept_units items k w5 = kept_units items k w" for k
      using units_same_heap [of w5 w2 k] w3(2) w4(2) w5(2) w2(5) by simp
    moreover have "\<exists>r. carry_item items alloc C fromCyl toCyl i b t n f w =
        Some (r, Some (case mv of None \<Rightarrow> b | Some b \<Rightarrow> b), w5)"
      using go rr g by (auto simp: carry_item_def rm j m_def [symmetric] ix w1(1) w2(1) w3(1) w4(1) w5(1))
    ultimately show ?thesis using w5(3) by blast
  qed (use ok in \<open>auto simp: carry_item_def rm rr j m_def [symmetric]\<close>)
qed

lemma internalMoveItem_ok:
  assumes ok: "ok w" and c: "cyl fromCyl w" "\<And>c. toCylinder = Some c \<Longrightarrow> cyl c w" and b: "item_of w b \<noteq> None"
    and f: "plain_flags f" and alloc: "\<And>h. dom h = dom (heap w) \<Longrightarrow> h (alloc h) = None"
  shows "\<exists>r mv w'. internalMoveItem items alloc C fromCyl toCylinder i b n f w = Some (r, mv, w') \<and> ok w' \<and>
    (\<forall>k. kept_units items k w' = kept_units items k w)"
proof (cases toCylinder)
  case (Some toCyl)
  obtain j where j: "item_of w b = Some j" using b by blast
  obtain to' i' t f' where d: "find_destination C 16 toCyl i b None f w = Some (to', i', t, f')" "cyl to' w" "target to' i' t w" "plain_flags f'"
    using find_destination_ends [OF ok b c(2) [OF Some] f, of 15 i] by auto
  obtain r where r: "cyl_queryAdd C to' i' b n f' w = Some r" using add_answers [OF ok d(2) b] by blast
  show ?thesis
  proof (cases "t = Some b")
    case True
    then show ?thesis using Some d(1) ok by (simp add: internalMoveItem_def)
  next
    case False
    consider (swap) "r = RET_NEEDEXCHANGE" | (refused) "r \<noteq> RET_NEEDEXCHANGE" "r \<noteq> RET_NOERROR" | (allowed) "r = RET_NOERROR" by blast
    then show ?thesis
    proof cases
      case swap
      obtain s w1 where s: "exchange_items C fromCyl to' i' b t n f' w = Some (s, w1)" "ok w1" "cyl fromCyl w1" "cyl to' w1"
        "item_of w1 = item_of w" "\<And>k. kept_units items k w1 = kept_units items k w"
        "\<And>t'. s = Inr (RET_NOERROR, t') \<Longrightarrow> target to' i' t' w1 \<and> (t' = t \<or> t' = None) \<and>
          (apart to' b w1 \<and> fits to' i' b n w1 \<or> \<not> room to' i' w1 \<and> (isStackable items j \<longrightarrow> free_room t' (i_id j) w1 = 0))"
        using exchange_ok [OF ok c(1) d(2) j d(3,4)] r swap by blast
      show ?thesis
      proof (cases "\<exists>t'. s = Inr (RET_NOERROR, t')")
        case True
        then obtain t' where t': "s = Inr (RET_NOERROR, t')" by blast
        have "dom (heap w1) = dom (heap w)" using s(5) dom_item_of by metis
        then have al: "dom h = dom (heap w1) \<Longrightarrow> h (alloc h) = None" for h using alloc by simp
        have ne: "t' \<noteq> Some b" using s(7) [OF t'] False by auto
        show ?thesis
          using carry_ok [OF s(2,3,4), of b j i' t' f' alloc n] s(5,6) s(7) [OF t'] j d(4) ne al
          by (auto simp: internalMoveItem_def Some d(1) False r swap s(1) t')
      next
        case no: False
        then show ?thesis using s(1,2,6) r swap False d(1) Some
          by (cases s) (auto simp: internalMoveItem_def)
      qed
    next
      case allowed
      have "apart to' b w \<and> fits to' i' b n w" using add_allows [OF ok d(2) b d(3,4)] r allowed by blast
      then show ?thesis
        using carry_ok [OF ok c(1) d(2) j d(3) False d(4), of alloc n] alloc by (simp add: internalMoveItem_def Some d(1) False r allowed)
    qed (use Some d(1) False r ok in \<open>simp add: internalMoveItem_def\<close>)
  qed
qed (simp add: internalMoveItem_def ok)

lemma internalRemoveItem_ok:
  assumes ok: "ok w" and b: "item_of w b = Some j" and c: "\<And>c. holder_of w b = Some c \<Longrightarrow> cyl c w"
  shows "\<exists>r w'. internalRemoveItem canRemove C b cnt test f w = Some (r, w') \<and> ok w' \<and>
    (if r = RET_NOERROR \<and> \<not> test
     then \<forall>x. kept_units items x w = kept_units items x w' + (if i_id j = x
       then if isStackable items j then unat (if cnt = -1 then ucast (i_count j) else word_of_int cnt :: u32) else 1 else 0)
     else w' = w)"
proof (cases "holder_of w b")
  case (Some c0)
  define n where "n = (if cnt = -1 then ucast (i_count j) else word_of_int cnt :: u32)"
  note c = c [OF Some]
  obtain r where r: "cyl_queryRemove C c0 b n (f OR FLAG_IGNORENOTMOVEABLE) w = Some r" using remove_answers [OF ok c] b by blast
  show ?thesis
  proof (cases "r = RET_NOERROR \<and> canRemove j \<and> \<not> test")
    case True
    have a: "n \<noteq> 0" "isStackable items j \<Longrightarrow> n \<le> ucast (i_count j)"
      using remove_allows [OF ok c b] r True by blast+
    obtain ix where ix: "cyl_getIndexOfThing C c0 b w = Some ix" using index_answers [OF ok c] by blast
    have "\<exists>w1. cyl_removeThing C c0 b n w = Some w1 \<and> ok w1 \<and> cyl c0 w1 \<and> (holder_of w1 b = None \<or> holder_of w1 b = Some c0) \<and>
      (\<forall>x. kept_units items x w = kept_units items x w1 + (if i_id j = x then if isStackable items j then unat n else 1 else 0))"
    proof (cases "\<not> isStackable items j \<or> n = ucast (i_count j)")
      case True
      obtain w1 where w1: "cyl_removeThing C c0 b n w = Some w1" "ok w1" "stable w w1" "holder_of w1 = (holder_of w)(b := None)" "item_of w1 = item_of w"
        using remove_all [OF ok c Some b True] by blast
      have "kept_units items x w = kept_units items x w1 + (if i_id j = x then if isStackable items j then unat n else 1 else 0)" for x
        using kept_out [OF ok_finite [OF ok] _ b w1(4,5), of items x] Some True by (auto simp: item_units_def)
      then show ?thesis using w1 stable_keeps(1) c by auto
    next
      case False
      then have s: "isStackable items j" "n < ucast (i_count j)" using a(2) by (auto simp: order.strict_iff_order)
      let ?j = "j\<lparr>i_count := i_count j - ucast n\<rparr>"
      obtain w1 where w1: "cyl_removeThing C c0 b n w = Some w1" "ok w1" "stable w w1" "holder_of w1 = holder_of w" "item_of w1 = (item_of w)(b \<mapsto> ?j)"
        using remove_some [OF ok c Some b s(1) a(1) s(2)] by blast
      have "kept_units items x w = kept_units items x w1 + (if i_id j = x then unat n else 0)" for x
        using kept_change [OF ok_finite [OF ok] _ b w1(4,5), of items x] Some less_stack [OF ok b s] stackable_id [of ?j j] s(1)
        by (auto simp: item_units_def)
      then show ?thesis using w1 stable_keeps(1) c s(1) Some by auto
    qed
    then obtain w1 where w1: "cyl_removeThing C c0 b n w = Some w1" "ok w1" "cyl c0 w1" "holder_of w1 b = None \<or> holder_of w1 b = Some c0"
      "\<And>x. kept_units items x w = kept_units items x w1 + (if i_id j = x then if isStackable items j then unat n else 1 else 0)" by blast
    obtain g where g: "(case holder_of w1 b of None \<Rightarrow> Some True | Some c \<Rightarrow> cyl_isRemoved C c w1) = Some g"
      using w1(4) removed_answers [OF w1(2,3)] by auto
    obtain w2 where w2: "cyl_postRemove C c0 b None ix g w1 = Some w2" "heap w2 = heap w1" "ok w2"
      using told [OF w1(2,3)] by blast
    have "internalRemoveItem canRemove C b cnt test f w = Some (RET_NOERROR, w2)"
      using True r ix w1(1) g w2(1) by (simp add: internalRemoveItem_def b Some n_def [symmetric] Let_def)
    then show ?thesis using True w2(3) w1(5) units_same_heap [OF w2(2)] by (simp add: n_def)
  qed (use ok b Some r in \<open>auto simp: internalRemoveItem_def n_def [symmetric] Let_def\<close>)
qed (simp add: internalRemoveItem_def b ok)

lemma internalAddItem_ok:
  assumes ok: "ok w" and c: "\<And>c. toCylinder = Some c \<Longrightarrow> cyl c w" and j: "item_of w b = Some j" and loose: "holder_of w b = None"
    and f: "plain_flags f" and alloc: "\<And>h. dom h = dom (heap w) \<Longrightarrow> h (alloc h) = None"
  shows "\<exists>r w'. internalAddItem items alloc C toCylinder b i f test w = Some (r, w') \<and> ok w' \<and>
    (if r = RET_NOERROR \<and> \<not> test then \<forall>k. kept_units items k w' = kept_units items k w + item_units items k j else w' = w)"
proof (cases toCylinder)
  case (Some to0)
  have b: "item_of w b \<noteq> None" using j by simp
  obtain to' i' t f' where d: "cyl_queryDestination C to0 i b None f w = Some (to', i', t, f')" "cyl to' w" "target to' i' t w" "plain_flags f'"
    using destination [OF ok c [OF Some] b, of i f] f by blast
  define n where "n = (ucast (i_count j) :: u32)"
  obtain r where r: "cyl_queryAdd C to' i' b n f' w = Some r" using add_answers [OF ok d(2) b] by blast
  obtain rm q where rm: "cyl_queryMaxCount C to' i' b n f' w = Some (rm, q)" using max_answers [OF ok d(2) b] by blast
  note start = internalAddItem_def Some d(1) j n_def [symmetric] r rm Let_def
  show ?thesis
  proof (cases "r = RET_NOERROR \<and> rm = RET_NOERROR \<and> \<not> test")
    case True
    have way: "apart to' b w" "takes to' i' (i_id j) w"
      using add_allows [OF ok d(2) b d(3,4)] r True fits_loose [OF ok d(2) j loose] by blast+
    have n: "n \<noteq> 0" "isStackable items j \<Longrightarrow> unat n \<le> 100"
      using ok_counts [OF ok j] by (auto simp: n_def word_unat_eq_iff)
    define m where "m = (if isStackable items j then min n q else q)"
    have "\<exists>mv w3. place_items items alloc C to' i' t b n m w = Some (mv, w3) \<and> ok w3 \<and> cyl to' w3 \<and>
      (\<forall>k. kept_units items k w3 = kept_units items k w + item_units items k j)"
    proof (cases "isStackable items j")
      case False
      have room: "room to' i' w" using max_room [OF ok d(2) j d(3,4) rm] False True n(1) by auto
      obtain w3 where w3: "cyl_addThing C to' i' b w = Some w3" "ok w3" "holder_of w3 = (holder_of w)(b \<mapsto> to')" "item_of w3 = item_of w" "cyl to' w3"
        using put [OF ok d(2) loose j way(1) room way(2)] d(2) by blast
      then show ?thesis using False kept_put [OF ok_finite [OF ok] loose j w3(3,4)] by (simp add: place_items_def j)
    next
      case st: True
      have m: "m = n" using max_enough [OF ok d(2) j st n(2) [OF st]] rm True d(4) st by (simp add: m_def min_def)
      have td: "holder_of w x = Some to' \<and> x \<noteq> b" if "t = Some x" for x
        using that target_held [OF ok, of to' i' x] d(3) loose by auto
      obtain k u w2 where w2: "merge_into C to' t b n w = Some (k, u, w2)" "ok w2" "stable w w2" "holder_of w2 = holder_of w"
        "item_of w2 b = Some j" "dom (item_of w2) = dom (item_of w)" "k \<le> n"
        "\<And>x. kept_units items x w2 = kept_units items x w + (if i_id j = x then unat k else 0)"
        "unat n \<le> free_room t (i_id j) w \<Longrightarrow> k = n"
        using merge_ok [OF ok d(2) j st td, of t n] by blast
      note s2 = stable_keeps [OF w2(3) d(2)]
      have room: "room to' i' w2" if "n - k > 0"
      proof (rule ccontr)
        assume "\<not> room to' i' w2"
        then have "\<not> room to' i' w" using s2(2) by blast
        then have "unat q \<le> free_room t (i_id j) w" using max_room [OF ok d(2) j d(3,4) rm] st by simp
        moreover have "n \<le> q" using max_enough [OF ok d(2) j st n(2) [OF st]] rm True d(4) by blast
        ultimately have "k = n" using w2(9) by (simp add: word_le_nat_alt)
        with that show False by simp
      qed
      have units: "item_units items x j = (if i_id j = x then unat n else 0)" for x using st by (simp add: item_units_def n_def)
      consider (none) "\<not> n - k > 0" | (all) "n - k > 0" "n - k = n" | (some) "n - k > 0" "n - k \<noteq> n" by blast
      then show ?thesis
      proof cases
        case none
        then have "n - k = 0" by (metis word_gt_0)
        then have "k = n" by simp
        then show ?thesis using none st m w2(1,2,8) s2(1) units by (simp add: place_items_def j)
      next
        case all
        then have "k = 0" by simp
        obtain w3 where w3: "cyl_addThing C to' i' b w2 = Some w3" "ok w3" "holder_of w3 = (holder_of w2)(b \<mapsto> to')" "item_of w3 = item_of w2" "cyl to' w3"
          using put [OF w2(2) s2(1) _ w2(5) s2(3) [OF way(1)] room [OF all(1)] s2(4) [OF way(2)]] loose w2(4) s2(1) by auto
        have "holder_of w2 b = None" using loose w2(4) by simp
        then show ?thesis using all st m w2(1,8) w3(1,2,5) kept_put [OF ok_finite [OF w2(2)] _ w2(5) w3(3,4)] \<open>k = 0\<close> by (simp add: place_items_def j)
      next
        case some
        have um: "unat (n - k) = unat n - unat k" "unat k \<le> unat n" using w2(7) by (simp_all add: unat_sub word_le_nat_alt)
        have le: "1 \<le> unat (n - k)" "unat (n - k) \<le> 100" using some(1) um n(2) [OF st] by (auto simp: word_less_nat_alt)
        have "dom (heap w2) = dom (heap w)" using w2(6) dom_item_of by simp
        then have al: "heap w2 (alloc (heap w2)) = None" using alloc by blast
        have ts: "it_stackable (getItemType items (uint (i_id j)))" using st by (simp add: isStackable_def item_type_def)
        obtain a w3 w4 where w4: "new_object items alloc (i_id j) (ucast (n - k)) w2 = Some (Some a, w3)" "cyl_addThing C to' i' a w3 = Some w4"
          "ok w4" "\<And>c. cyl c w2 \<Longrightarrow> cyl c w4" "\<And>x. kept_units items x w4 = kept_units items x w2 + (if i_id j = x then unat (n - k) else 0)"
          using new_stack_ok [where alloc = alloc, OF w2(2) s2(1) room [OF some(1)] s2(4) [OF way(2)] ts le al] by force
        have "kept_units items x w4 = kept_units items x w + item_units items x j" for x
          using w4(5) w2(8) um units by simp
        then show ?thesis using some st m w2(1) w4(1-3) w4(4) [OF s2(1)] by (simp add: place_items_def j)
      qed
    qed
    then obtain mv w3 where w3: "place_items items alloc C to' i' t b n m w = Some (mv, w3)" "ok w3" "cyl to' w3"
      "\<And>k. kept_units items k w3 = kept_units items k w + item_units items k j" by blast
    obtain w4 where w4: "notify_added C to' (Some (case mv of None \<Rightarrow> b | Some b \<Rightarrow> b)) None w3 = Some w4" "heap w4 = heap w3" "ok w4"
      using notifications(2) [OF w3(2,3)] by blast
    have "internalAddItem items alloc C toCylinder b i f test w = Some (RET_NOERROR, w4)"
      using True w3(1) w4(1) r rm unfolding m_def n_def
      by (simp add: internalAddItem_def Some d(1) j Let_def split del: if_split)
    then show ?thesis using w4(3) w3(4) units_same_heap [OF w4(2)] True by simp
  qed (use ok in \<open>auto simp: start\<close>)
qed (simp add: internalAddItem_def ok)

end

end
