(* ===== verification/InventoryLaws.thy ===== *)
theory InventoryLaws
  imports Inventory
begin

text \<open>
  Players and containers keep the contract of \<open>ItemMoves\<close>: the invariant of what is worn and held, what each operation of
  the two kinds of cylinders leaves of it, what the answers of their queries mean, and so the moves of the game between them.
\<close>

section \<open>What the operations leave as it was\<close>

definition item_map :: "Heap \<Rightarrow> nat \<Rightarrow> Item option" where "item_map h = (\<lambda>b. map_option o_item (h b))"
definition up_map :: "Heap \<Rightarrow> nat \<Rightarrow> Holder option" where "up_map h = (\<lambda>b. Option.bind (h b) o_parent)"
definition size_at :: "Heap \<Rightarrow> nat \<Rightarrow> u32 option" where "size_at h = (\<lambda>a. map_option maxSize (get_body a h))"

lemma of_world: "item_of w = item_map (heap w)" "holder_of w = up_map (heap w)"
  by (simp_all add: fun_eq_iff item_of_def item_map_def holder_of_def up_map_def)

definition heap_frame :: "Heap \<Rightarrow> Heap \<Rightarrow> bool" where
  "heap_frame h' h \<longleftrightarrow> item_map h' = item_map h \<and> up_map h' = up_map h \<and> size_at h' = size_at h"

lemma heap_frame_trans: "heap_frame h2 h1 \<Longrightarrow> heap_frame h1 h \<Longrightarrow> heap_frame h2 h"
  by (simp add: heap_frame_def)

lemma shape_frame: "shape h' = shape h \<Longrightarrow> heap_frame h' h"
proof -
  assume s: "shape h' = shape h"
  have "map_option o_item (shape x y) = map_option o_item (x y)" "Option.bind (shape x y) o_parent = Option.bind (x y) o_parent"
    "map_option maxSize (get_body y (shape x)) = map_option maxSize (get_body y x)" for x y
    by (cases "x y"; simp add: shape_def get_body_def option.map_comp comp_def)+
  then have "item_map x = item_map (shape x)" "up_map x = up_map (shape x)" "size_at x = size_at (shape x)" for x
    by (simp_all add: item_map_def up_map_def size_at_def)
  then show ?thesis unfolding heap_frame_def by (metis s)
qed

lemma put_body_frame:
  assumes "put_body a f h = Some h'" "\<And>c. maxSize (f c) = maxSize c"
  shows "heap_frame h' h"
proof -
  obtain ob c where ob: "h a = Some ob" "o_body ob = Some c" "h' = h(a \<mapsto> ob\<lparr>o_body := Some (f c)\<rparr>)"
    using assms(1) by (auto simp: put_body_def Option.bind_eq_Some_conv)
  then show ?thesis using assms(2) by (simp add: heap_frame_def item_map_def up_map_def size_at_def get_body_def fun_eq_iff)
qed

lemma set_parent_frame:
  assumes "set_parent q b h = Some h'"
  shows "item_map h' = item_map h" "up_map h' = (up_map h)(b := q)" "size_at h' = size_at h"
proof -
  obtain ob where ob: "h b = Some ob" "h' = h(b \<mapsto> ob\<lparr>o_parent := q\<rparr>)" using assms by (auto simp: set_parent_def Option.bind_eq_Some_conv)
  then show "item_map h' = item_map h" "up_map h' = (up_map h)(b := q)" "size_at h' = size_at h"
    by (simp_all add: item_map_def up_map_def size_at_def get_body_def fun_eq_iff)
qed

lemma set_item_frame:
  assumes "set_item b i h = Some h'"
  shows "item_map h' = (item_map h)(b \<mapsto> i)" "up_map h' = up_map h" "size_at h' = size_at h"
proof -
  obtain ob where ob: "h b = Some ob" "h' = h(b \<mapsto> ob\<lparr>o_item := i\<rparr>)" using assms by (auto simp: set_item_def Option.bind_eq_Some_conv)
  then show "item_map h' = (item_map h)(b \<mapsto> i)" "up_map h' = up_map h" "size_at h' = size_at h"
    by (simp_all add: item_map_def up_map_def size_at_def get_body_def fun_eq_iff)
qed

lemma updateItemWeight_frame:
  assumes "updateItemWeight d a h = Some h'"
  shows "heap_frame h' h"
proof (rule updateItemWeight.raw_induct [OF _ assms])
  fix upd d a h h'
  assume ih: "\<And>d a h h'. upd d a h = Some h' \<Longrightarrow> heap_frame h' h"
    and r: "put_body a (\<lambda>c. c\<lparr>total_weight := total_weight c + d\<rparr>) h \<bind> (\<lambda>h. getParentContainer a h \<bind> case_option (Some h) (\<lambda>p. upd d p h)) = Some h'"
  from r obtain h1 p where h1: "put_body a (\<lambda>c. c\<lparr>total_weight := total_weight c + d\<rparr>) h = Some h1"
    "(case p of None \<Rightarrow> Some h1 | Some p \<Rightarrow> upd d p h1) = Some h'"
    by (auto simp: Option.bind_eq_Some_conv)
  have "heap_frame h1 h" by (rule put_body_frame [OF h1(1)]) simp
  moreover have "heap_frame h' h1" using h1(2) ih by (cases p) (auto simp: heap_frame_def)
  ultimately show "heap_frame h' h" by (rule heap_frame_trans [rotated])
qed

lemma update_parent_weight_frame: "update_parent_weight d a h = Some h' \<Longrightarrow> heap_frame h' h"
proof -
  assume "update_parent_weight d a h = Some h'"
  then show ?thesis
    using updateItemWeight_frame by (cases "getParentContainer a h") (auto simp: update_parent_weight_def heap_frame_def split: option.splits)
qed

lemma internalAddThing_frame:
  assumes "internalAddThing items a (ItemThing b) h = Some h'"
  shows "item_map h' = item_map h" "up_map h' = (up_map h)(b \<mapsto> InContainer a)" "size_at h' = size_at h"
proof -
  obtain h1 h2 h3 d d' where h: "set_parent (Some (InContainer a)) b h = Some h1" "put_body a (\<lambda>c. c\<lparr>itemlist := b # itemlist c\<rparr>) h1 = Some h2"
    "put_body a (\<lambda>c. c\<lparr>total_weight := total_weight c + d\<rparr>) h2 = Some h3" "update_parent_weight d' a h3 = Some h'"
    using assms by (auto simp: internalAddThing_def Option.bind_eq_Some_conv)
  have "heap_frame h2 h1" by (rule put_body_frame [OF h(2)]) simp
  moreover have "heap_frame h3 h2" by (rule put_body_frame [OF h(3)]) simp
  moreover note update_parent_weight_frame [OF h(4)]
  ultimately show "item_map h' = item_map h" "up_map h' = (up_map h)(b \<mapsto> InContainer a)" "size_at h' = size_at h"
    using set_parent_frame [OF h(1)] by (simp_all add: heap_frame_def)
qed

lemma addThing_frame:
  assumes "addThing items a i (ItemThing b) h = Some h'" "get_body a h = Some c" "i < sint (capacity c)"
  shows "item_map h' = item_map h" "up_map h' = (up_map h)(b \<mapsto> InContainer a)" "size_at h' = size_at h"
  using assms internalAddThing_frame by (auto simp: addThing_def)

lemma removeThing_frame:
  assumes "removeThing items a (ItemThing b) n h = Some h'" "get_body a h = Some c" "b \<in> set (itemlist c)" "h b = Some ob"
  shows "size_at h' = size_at h"
    "isStackable items (o_item ob) \<and> n \<noteq> ucast (i_count (o_item ob)) \<Longrightarrow> up_map h' = up_map h \<and>
       item_map h' = (item_map h)(b \<mapsto> setItemCount (word_of_int (max 0 (sint (ucast (i_count (o_item ob)) - n)))) (o_item ob))"
    "\<not> (isStackable items (o_item ob) \<and> n \<noteq> ucast (i_count (o_item ob))) \<Longrightarrow> item_map h' = item_map h \<and> up_map h' = (up_map h)(b := None)"
proof -
  have found: "getIndexOfThing (ItemThing b) c \<noteq> -1" using found_in assms(3) by (simp add: getIndexOfThing_def)
  let ?part = "isStackable items (o_item ob) \<and> n \<noteq> ucast (i_count (o_item ob))"
  have some: "size_at h' = size_at h \<and> up_map h' = up_map h \<and>
       item_map h' = (item_map h)(b \<mapsto> setItemCount (word_of_int (max 0 (sint (ucast (i_count (o_item ob)) - n)))) (o_item ob))" if p: "?part"
  proof -
    obtain h1 h2 d d' where h: "set_item b (setItemCount (word_of_int (max 0 (sint (ucast (i_count (o_item ob)) - n)))) (o_item ob)) h = Some h1"
      "put_body a (\<lambda>c. c\<lparr>total_weight := total_weight c + d\<rparr>) h1 = Some h2" "update_parent_weight d' a h2 = Some h'"
      using assms(1) [unfolded removeThing_def Thing.case assms(2,4) Option.bind.simps if_not_P [OF found] if_P [OF p] Let_def Option.bind_eq_Some_conv] by blast
    have "heap_frame h2 h1" by (rule put_body_frame [OF h(2)]) simp
    then show ?thesis using set_item_frame [OF h(1)] update_parent_weight_frame [OF h(3)] by (simp add: heap_frame_def)
  qed
  have all: "size_at h' = size_at h \<and> item_map h' = item_map h \<and> up_map h' = (up_map h)(b := None)" if p: "\<not> ?part"
  proof -
    obtain h1 h2 h3 d d' where h: "update_parent_weight d a h = Some h1" "put_body a (\<lambda>c. c\<lparr>total_weight := total_weight c - d'\<rparr>) h1 = Some h2"
      "set_parent None b h2 = Some h3" "put_body a (\<lambda>c. c\<lparr>itemlist := remove1 b (itemlist c)\<rparr>) h3 = Some h'"
      using assms(1) [unfolded removeThing_def Thing.case assms(2,4) Option.bind.simps if_not_P [OF found] if_not_P [OF p] Let_def Option.bind_eq_Some_conv] by blast
    have "heap_frame h2 h1" by (rule put_body_frame [OF h(2)]) simp
    moreover have "heap_frame h' h3" by (rule put_body_frame [OF h(4)]) simp
    ultimately show ?thesis using set_parent_frame [OF h(3)] update_parent_weight_frame [OF h(1)] by (simp add: heap_frame_def)
  qed
  show "size_at h' = size_at h" using some all by blast
  show "?part \<Longrightarrow> up_map h' = up_map h \<and>
       item_map h' = (item_map h)(b \<mapsto> setItemCount (word_of_int (max 0 (sint (ucast (i_count (o_item ob)) - n)))) (o_item ob))" using some by blast
  show "\<not> ?part \<Longrightarrow> item_map h' = item_map h \<and> up_map h' = (up_map h)(b := None)" using all by blast
qed

lemma updateThing_frame:
  assumes "updateThing items a (ItemThing b) itemId n h = Some h'" "get_body a h = Some c" "b \<in> set (itemlist c)" "h b = Some ob"
    "setID items itemId (o_item ob) = Some j" "setSubType items (ucast n) j = Some i"
  shows "item_map h' = (item_map h)(b \<mapsto> i) \<and> up_map h' = up_map h \<and> size_at h' = size_at h"
proof -
  have found: "getIndexOfThing (ItemThing b) c \<noteq> -1" using found_in assms(3) by (simp add: getIndexOfThing_def)
  obtain h1 h2 d d' where h: "set_item b i h = Some h1"
    "put_body a (\<lambda>c. c\<lparr>total_weight := total_weight c + d\<rparr>) h1 = Some h2" "update_parent_weight d' a h2 = Some h'"
    using assms found by (auto simp: updateThing_def Option.bind_eq_Some_conv Let_def)
  have "heap_frame h2 h1" by (rule put_body_frame [OF h(2)]) simp
  then show ?thesis using set_item_frame [OF h(1)] update_parent_weight_frame [OF h(3)] by (simp add: heap_frame_def)
qed


section \<open>The invariant of players and containers\<close>

text \<open>An item lies in a slot that suits it, and the hands never hold a two-handed item beside another item, or two weapons.\<close>

definition slot_suits :: "MoveEnv \<Rightarrow> int \<Rightarrow> u16 \<Rightarrow> bool" where
  "slot_suits E i itemId \<longleftrightarrow> 1 \<le> i \<and> i \<le> 10 \<and> has_slot E itemId (slot_bit i)"

definition hands_apart :: "MoveEnv \<Rightarrow> u16 \<Rightarrow> u16 \<Rightarrow> bool" where
  "hands_apart E k l \<longleftrightarrow> \<not> has_slot E k SLOTP_TWO_HAND \<and> \<not> has_slot E l SLOTP_TWO_HAND \<and> \<not> (is_weapon E k \<and> is_weapon E l)"

definition worn_ok :: "MoveEnv \<Rightarrow> nat \<Rightarrow> GameWorld \<Rightarrow> bool" where
  "worn_ok E p w \<longleftrightarrow>
     (\<forall>i b. 1 \<le> i \<and> i \<le> 10 \<and> inventory (invs w p) i = Some b \<longrightarrow> (\<exists>j. item_of w b = Some j \<and> slot_suits E i (i_id j))) \<and>
     (\<forall>b d j k. inventory (invs w p) SLOT_RIGHT = Some b \<and> inventory (invs w p) SLOT_LEFT = Some d \<and>
        item_of w b = Some j \<and> item_of w d = Some k \<longrightarrow> hands_apart E (i_id j) (i_id k))"

text \<open>The slots and the parents agree, and no item is in two slots.\<close>

definition wears :: "PlayerInv \<Rightarrow> nat \<Rightarrow> bool" where
  "wears v b \<longleftrightarrow> (\<exists>i. 1 \<le> i \<and> i \<le> 10 \<and> inventory v i = Some b)"

definition nothing_twice :: "PlayerInv \<Rightarrow> bool" where
  "nothing_twice v \<longleftrightarrow> (\<forall>b i i'. 1 \<le> i \<and> i \<le> 10 \<and> 1 \<le> i' \<and> i' \<le> 10 \<and> inventory v i = Some b \<and> inventory v i' = Some b \<longrightarrow> i = i')"

definition slots_agree :: "GameWorld \<Rightarrow> bool" where
  "slots_agree w \<longleftrightarrow> (\<forall>p b. holder_of w b = Some (OnCreature p) \<longleftrightarrow> wears (invs w p) b) \<and> (\<forall>p. nothing_twice (invs w p))"

definition counts_ok :: "Items \<Rightarrow> GameWorld \<Rightarrow> bool" where
  "counts_ok items w \<longleftrightarrow> (\<forall>b j. item_of w b = Some j \<longrightarrow> 1 \<le> unat (i_count j) \<and> (isStackable items j \<longrightarrow> unat (i_count j) \<le> 100))"

definition not_overfull :: "Heap \<Rightarrow> bool" where
  "not_overfull h \<longleftrightarrow> (\<forall>a c. get_body a h = Some c \<longrightarrow> length (itemlist c) \<le> unat (maxSize c) \<and> unat (maxSize c) < 65536)"

definition world_ok :: "MoveEnv \<Rightarrow> GameWorld \<Rightarrow> bool" where
  "world_ok E w \<longleftrightarrow> container_inv (e_items E) (heap w) \<and> finite (dom (heap w)) \<and> not_overfull (heap w) \<and>
     counts_ok (e_items E) w \<and> slots_agree w \<and> (\<forall>p. worn_ok E p w)"

text \<open>
  What the loaded types and the scripts satisfy: stackable types are plain and not two-handed, the constructor of \<^verbatim>\<open>ItemType\<close>
  lets every type into the hands and the ammunition slot and the loader only adds slots, and \<^verbatim>\<open>canPlayerWearEquip\<close> never
  answers that an exchange is needed.
\<close>

definition env_ok :: "MoveEnv \<Rightarrow> bool" where
  "env_ok E \<longleftrightarrow> stack_types (e_items E) \<and>
     (\<forall>k. it_stackable (getItemType (e_items E) (uint (k :: u16))) \<longrightarrow> \<not> has_slot E k SLOTP_TWO_HAND) \<and>
     (\<forall>k. has_slot E k 16 \<and> has_slot E k 32 \<and> has_slot E k 512) \<and>
     (\<forall>p b i w. e_wear E p b i w \<noteq> RET_NEEDEXCHANGE)"

section \<open>What the contract means here\<close>

definition is_cyl :: "Holder \<Rightarrow> GameWorld \<Rightarrow> bool" where
  "is_cyl c w = (case c of InContainer a \<Rightarrow> get_body a (heap w) \<noteq> None | OnCreature p \<Rightarrow> True | OnTile t \<Rightarrow> False)"

definition lies_at :: "Holder \<Rightarrow> int \<Rightarrow> nat option \<Rightarrow> GameWorld \<Rightarrow> bool" where
  "lies_at c i t w = (case c of
     InContainer a \<Rightarrow> (\<exists>c. get_body a (heap w) = Some c \<and> i < sint (capacity c) \<and> t = (if i = -1 then None else getThing (word_of_int i) c))
   | OnCreature p \<Rightarrow> t = player_getThing i (invs w p)
   | OnTile _ \<Rightarrow> False)"

definition has_room :: "Holder \<Rightarrow> int \<Rightarrow> GameWorld \<Rightarrow> bool" where
  "has_room c i w = (case c of
     InContainer a \<Rightarrow> (\<exists>c. get_body a (heap w) = Some c \<and> length (itemlist c) < unat (maxSize c))
   | OnCreature p \<Rightarrow> player_getThing i (invs w p) = None
   | OnTile _ \<Rightarrow> False)"

definition not_inside :: "Holder \<Rightarrow> nat \<Rightarrow> GameWorld \<Rightarrow> bool" where
  "not_inside c b w = (case c of InContainer a \<Rightarrow> \<not> above (parent_of (heap w)) a b | _ \<Rightarrow> True)"

definition other_hand :: "int \<Rightarrow> int option" where
  "other_hand i = (if i = SLOT_RIGHT then Some SLOT_LEFT else if i = SLOT_LEFT then Some SLOT_RIGHT else None)"

definition may_take :: "MoveEnv \<Rightarrow> Holder \<Rightarrow> int \<Rightarrow> u16 \<Rightarrow> GameWorld \<Rightarrow> bool" where
  "may_take E c i k w = (case c of
     InContainer a \<Rightarrow> (\<exists>c. get_body a (heap w) = Some c \<and> i < sint (capacity c))
   | OnCreature p \<Rightarrow> slot_suits E i k \<and> (\<forall>i' d j. other_hand i = Some i' \<and> inventory (invs w p) i' = Some d \<and> item_of w d = Some j \<longrightarrow>
       hands_apart E k (i_id j))
   | OnTile _ \<Rightarrow> False)"

definition may_move :: "MoveEnv \<Rightarrow> Holder \<Rightarrow> int \<Rightarrow> nat \<Rightarrow> u32 \<Rightarrow> GameWorld \<Rightarrow> bool" where
  "may_move E c i b n w = (case c of
     InContainer a \<Rightarrow> (\<exists>c. get_body a (heap w) = Some c \<and> i < sint (capacity c))
   | OnCreature p \<Rightarrow> (\<exists>j. item_of w b = Some j \<and> slot_suits E i (i_id j) \<and>
       (\<forall>i' d k. other_hand i = Some i' \<and> inventory (invs w p) i' = Some d \<and> item_of w d = Some k \<longrightarrow>
          hands_apart E (i_id j) (i_id k) \<or>
          d = b \<and> (n = ucast (i_count j) \<or> has_slot E (i_id j) SLOTP_TWO_HAND \<or> \<not> is_weapon E (i_id j))))
   | OnTile _ \<Rightarrow> False)"

definition is_slotted :: "Holder \<Rightarrow> bool" where
  "is_slotted c = (case c of OnCreature _ \<Rightarrow> True | _ \<Rightarrow> False)"

definition keeps_all :: "MoveEnv \<Rightarrow> GameWorld \<Rightarrow> GameWorld \<Rightarrow> bool" where
  "keeps_all E w w' \<longleftrightarrow> (\<forall>c. is_cyl c w \<longrightarrow> is_cyl c w' \<and> (\<forall>i. has_room c i w \<longrightarrow> has_room c i w') \<and>
     (\<forall>b. not_inside c b w \<longrightarrow> not_inside c b w') \<and> (\<forall>i k. may_take E c i k w \<longrightarrow> may_take E c i k w'))"

lemmas cyl_defs = is_cyl_def lies_at_def has_room_def not_inside_def may_take_def may_move_def is_slotted_def

text \<open>A change that keeps sizes, adds nothing and replaces no item keeps all.\<close>

lemma keeps_allI:
  assumes bodies: "\<And>a c. get_body a (heap w) = Some c \<Longrightarrow>
      \<exists>c'. get_body a (heap w') = Some c' \<and> maxSize c' = maxSize c \<and> length (itemlist c') \<le> length (itemlist c)"
    and par: "\<And>x y. above (parent_of (heap w')) x y \<Longrightarrow> above (parent_of (heap w)) x y"
    and slots: "\<And>p i. inventory (invs w' p) i = inventory (invs w p) i \<or> inventory (invs w' p) i = None"
    and ids: "\<And>d j'. item_of w' d = Some j' \<Longrightarrow> (\<exists>p i. 1 \<le> i \<and> i \<le> 10 \<and> inventory (invs w p) i = Some d) \<Longrightarrow> \<exists>j. item_of w d = Some j \<and> i_id j = i_id j'"
  shows "keeps_all E w w'"
  unfolding keeps_all_def
proof (intro allI impI conjI)
  fix c assume c: "is_cyl c w"
  show "is_cyl c w'" using c bodies by (fastforce simp: is_cyl_def split: Holder.splits)
  show "has_room c i w'" if "has_room c i w" for i
  proof (cases c)
    case (InContainer a)
    with that obtain b where "get_body a (heap w) = Some b" "length (itemlist b) < unat (maxSize b)" by (auto simp: has_room_def)
    with bodies [of a b] InContainer show ?thesis by (auto simp: has_room_def)
  next
    case (OnCreature p)
    with that slots [of p i] show ?thesis by (auto simp: has_room_def player_getThing_def split: if_splits)
  qed (use that in \<open>simp add: has_room_def\<close>)
  show "not_inside c b w'" if "not_inside c b w" for b
    using that par by (auto simp: not_inside_def split: Holder.splits)
  show "may_take E c i k w'" if "may_take E c i k w" for i k
  proof (cases c)
    case (InContainer a)
    with that obtain b where "get_body a (heap w) = Some b" "i < sint (capacity b)" by (auto simp: may_take_def)
    with bodies [of a b] InContainer show ?thesis by (auto simp: may_take_def capacity_def)
  next
    case (OnCreature p)
    have "hands_apart E k (i_id j)" if o: "other_hand i = Some i'" "inventory (invs w' p) i' = Some d" "item_of w' d = Some j" for i' d j
    proof -
      have d: "inventory (invs w p) i' = Some d" using slots [of p i'] o(2) by simp
      have "1 \<le> i'" "i' \<le> 10" using o(1) by (auto simp: other_hand_def split: if_splits)
      then obtain j0 where "item_of w d = Some j0" "i_id j0 = i_id j" using ids [OF o(3)] d by blast
      then show ?thesis using \<open>may_take E c i k w\<close> OnCreature o(1) d by (auto simp: may_take_def)
    qed
    then show ?thesis using \<open>may_take E c i k w\<close> OnCreature by (simp add: may_take_def)
  qed (use that in \<open>simp add: may_take_def\<close>)
qed


lemma body_parts: "get_body a h = Some c \<Longrightarrow> contents h a = Some (itemlist c) \<and> size_at h a = Some (maxSize c)"
  by (simp add: contents_def size_at_def)

lemma parts_body: "contents h a = Some xs \<Longrightarrow> size_at h a = Some n \<Longrightarrow> \<exists>c. get_body a h = Some c \<and> itemlist c = xs \<and> maxSize c = n"
  by (auto simp: contents_def size_at_def)

lemma size_contents: "contents h a = Some xs \<Longrightarrow> \<exists>n. size_at h a = Some n"
  by (auto simp: contents_def size_at_def)

lemma not_overfull_parts:
  "not_overfull h \<longleftrightarrow> (\<forall>a xs n. contents h a = Some xs \<longrightarrow> size_at h a = Some n \<longrightarrow> length xs \<le> unat n \<and> unat n < 65536)"
proof
  assume "not_overfull h"
  then show "\<forall>a xs n. contents h a = Some xs \<longrightarrow> size_at h a = Some n \<longrightarrow> length xs \<le> unat n \<and> unat n < 65536"
    using parts_body unfolding not_overfull_def by blast
next
  assume "\<forall>a xs n. contents h a = Some xs \<longrightarrow> size_at h a = Some n \<longrightarrow> length xs \<le> unat n \<and> unat n < 65536"
  then show "not_overfull h" using body_parts unfolding not_overfull_def by blast
qed

lemma parent_up: "parent_of h b = (case up_map h b of Some (InContainer p) \<Rightarrow> Some p | _ \<Rightarrow> None)"
  by (auto simp: parent_of_def up_map_def split: option.splits)

lemma held_in:
  assumes "container_inv items (heap w)"
  shows "holder_of w b = Some (InContainer a) \<Longrightarrow> \<exists>c ob. get_body a (heap w) = Some c \<and> b \<in> set (itemlist c) \<and> heap w b = Some ob"
    and "get_body a (heap w) = Some c \<Longrightarrow> b \<in> set (itemlist c) \<Longrightarrow> holder_of w b = Some (InContainer a)"
proof -
  note l = inv_container(3) [OF assms]
  show "\<exists>c ob. get_body a (heap w) = Some c \<and> b \<in> set (itemlist c) \<and> heap w b = Some ob" if h: "holder_of w b = Some (InContainer a)"
  proof -
    have p: "parent_of (heap w) b = Some a" using h by (simp add: parent_up of_world)
    then obtain xs where xs: "contents (heap w) a = Some xs" using linksD(3) [OF l] by blast
    then show ?thesis using linksD(2) [OF l xs, of b] p h by (auto simp: contents_def holder_of_def Option.bind_eq_Some_conv)
  qed
  show "holder_of w b = Some (InContainer a)" if "get_body a (heap w) = Some c" "b \<in> set (itemlist c)"
    using that linksD(2) [OF l, of a "itemlist c" b]
    by (auto simp: contents_def of_world parent_up split: option.splits Holder.splits)
qed

lemma heap_change_ok:
  assumes ok: "world_ok E w" and inv: "container_inv (e_items E) h'" and room: "not_overfull h'"
    and items: "dom (item_map h') = dom (item_of w)" "counts_ok (e_items E) (w\<lparr>heap := h'\<rparr>)"
    and up: "\<And>b p. up_map h' b = Some (OnCreature p) \<longleftrightarrow> holder_of w b = Some (OnCreature p)"
    and ids: "\<And>b p j. holder_of w b = Some (OnCreature p) \<Longrightarrow> item_of w b = Some j \<Longrightarrow> \<exists>j'. item_map h' b = Some j' \<and> i_id j' = i_id j"
  shows "world_ok E (w\<lparr>heap := h'\<rparr>)"
proof -
  let ?w = "w\<lparr>heap := h'\<rparr>"
  have "dom h' = dom (item_map h')" "dom (item_of w) = dom (heap w)" by (auto simp: item_map_def item_of_def)
  then have "finite (dom h')" using ok items(1) by (simp add: world_ok_def)
  moreover have ag: "slots_agree w" and ag': "slots_agree ?w" using ok up by (simp_all add: world_ok_def slots_agree_def of_world)
  moreover have "worn_ok E p ?w" for p
  proof -
    have worn: "worn_ok E p w" using ok by (simp add: world_ok_def)
    have held: "holder_of w b = Some (OnCreature p)" if "1 \<le> i" "i \<le> 10" "inventory (invs w p) i = Some b" for i b
      using ag that unfolding slots_agree_def wears_def by blast
    have ex: "\<exists>j. item_of w b = Some j \<and> slot_suits E i (i_id j)" if "1 \<le> i" "i \<le> 10" "inventory (invs w p) i = Some b" for i b
      using worn that unfolding worn_ok_def by blast
    have before: "\<exists>j0. item_of w b = Some j0 \<and> i_id j0 = i_id j" if "1 \<le> i" "i \<le> 10" "inventory (invs w p) i = Some b" "item_map h' b = Some j" for i b j
      using ex [OF that(1-3)] ids [OF held [OF that(1-3)]] that(4) by fastforce
    show ?thesis unfolding worn_ok_def
    proof (intro conjI allI impI; elim conjE)
      fix i b assume s: "1 \<le> i" "i \<le> 10" "inventory (invs ?w p) i = Some b"
      then obtain j where "item_of w b = Some j" "slot_suits E i (i_id j)" using ex by auto
      then show "\<exists>j. item_of ?w b = Some j \<and> slot_suits E i (i_id j)" using ids [OF held, of i b j] s by (auto simp: of_world)
    next
      fix b d j k
      assume "inventory (invs ?w p) SLOT_RIGHT = Some b" "inventory (invs ?w p) SLOT_LEFT = Some d" "item_of ?w b = Some j" "item_of ?w d = Some k"
      then show "hands_apart E (i_id j) (i_id k)"
        using before [of SLOT_RIGHT b j] before [of SLOT_LEFT d k] worn unfolding worn_ok_def by (auto simp: of_world)
    qed
  qed
  ultimately show ?thesis using inv room items(2) by (simp add: world_ok_def)
qed


lemma narrow_count:
  assumes "n < (ucast (c :: u8) :: u32)"
  shows "(word_of_int (max 0 (sint (ucast c - n :: u32))) :: u8) = c - ucast n"
proof -
  have l: "unat n < unat c" using assms by (simp add: word_less_nat_alt)
  have "unat (ucast c - n :: u32) = unat c - unat n" using l by (subst unat_sub) (simp_all add: word_le_nat_alt)
  moreover have "unat c - unat n < 256" using unat_lt2p [of c] by simp
  ultimately have u: "uint (ucast c - n :: u32) = int (unat c - unat n)" "uint (ucast c - n :: u32) < 2 ^ 31"
    by (simp_all add: uint_nat)
  then have "sint (ucast c - n :: u32) = int (unat c - unat n)" by (simp add: sint_u32)
  then have "(word_of_int (max 0 (sint (ucast c - n :: u32))) :: u8) = word_of_nat (unat c - unat n)" by simp
  also have "\<dots> = word_of_nat (unat c) - word_of_nat (unat n)" using l by (simp add: of_nat_diff)
  also have "\<dots> = c - ucast n" by (simp add: of_nat_unat)
  finally show ?thesis .
qed


lemma part_counts:
  assumes "n < ucast (i_count j)" "unat (i_count j) \<le> 100"
  shows "1 \<le> unat (i_count (j\<lparr>i_count := i_count j - ucast (n :: u32)\<rparr>)) \<and> unat (i_count (j\<lparr>i_count := i_count j - ucast n\<rparr>)) \<le> 100"
proof -
  have "unat n < unat (i_count j)" using assms(1) by (simp add: word_less_nat_alt)
  then show ?thesis using count_narrow(2) [of n] assms(2) by (auto simp: unat_sub word_le_nat_alt)
qed

section \<open>Containers keep the contract\<close>

text \<open>After a change of a container: what it holds, what everything is and where it is.\<close>

lemma container_changed:
  assumes ok: "world_ok E w" and h: "f (heap w) = Some h'" and inv: "container_inv (e_items E) h'"
    and con: "contents h' = (contents (heap w))(a \<mapsto> ys)" "contents (heap w) a = Some xs" "length ys \<le> length xs"
    and par: "\<And>x y. above (parent_of h') x y \<Longrightarrow> above (parent_of (heap w)) x y"
    and size: "size_at h' = size_at (heap w)"
    and it: "item_map h' = (item_of w)(b := Some j')" "item_of w b = Some j" "i_id j' = i_id j"
      "1 \<le> unat (i_count j')" "isStackable (e_items E) j' \<longrightarrow> unat (i_count j') \<le> 100"
    and up: "up_map h' = (holder_of w)(b := q)" "holder_of w b = Some (InContainer a)" "q = None \<or> q = holder_of w b"
  shows "\<exists>w'. on_heap f w = Some w' \<and> world_ok E w' \<and> keeps_all E w w' \<and> holder_of w' = (holder_of w)(b := q) \<and>
    item_of w' = (item_of w)(b := Some j') \<and> invs w' = invs w"
proof -
  let ?w = "w\<lparr>heap := h'\<rparr>"
  have w: "on_heap f w = Some ?w" by (simp add: on_heap_def h)
  have old: "not_overfull (heap w)" "counts_ok (e_items E) w" using ok by (simp_all add: world_ok_def)
  have "not_overfull h'" unfolding not_overfull_parts
  proof (intro allI impI)
    fix x zs n assume "contents h' x = Some zs" "size_at h' x = Some n"
    then obtain zs0 where z: "contents (heap w) x = Some zs0" "length zs \<le> length zs0" "size_at (heap w) x = Some n"
      using con size by (auto split: if_splits)
    then have "length zs0 \<le> unat n \<and> unat n < 65536" using old(1) unfolding not_overfull_parts by blast
    then show "length zs \<le> unat n \<and> unat n < 65536" using z(2) by simp
  qed
  moreover have "dom (item_map h') = dom (item_of w)" using it(1,2) by auto
  moreover have "counts_ok (e_items E) ?w" using old(2) it by (auto simp: counts_ok_def of_world)
  moreover have "up_map h' x = Some (OnCreature p) \<longleftrightarrow> holder_of w x = Some (OnCreature p)" for x p using up by auto
  moreover have "\<exists>j'. item_map h' x = Some j' \<and> i_id j' = i_id i" if "item_of w x = Some i" for x i using that it by auto
  ultimately have ok': "world_ok E ?w" using heap_change_ok [OF ok inv] by simp
  have "keeps_all E w ?w"
  proof (rule keeps_allI)
    fix x c assume c: "get_body x (heap w) = Some c"
    then have "contents (heap w) x = Some (itemlist c)" "size_at h' x = Some (maxSize c)" using body_parts size by auto
    then obtain zs where "contents h' x = Some zs" "length zs \<le> length (itemlist c)" using con by (cases "x = a") auto
    then show "\<exists>c'. get_body x (heap ?w) = Some c' \<and> maxSize c' = maxSize c \<and> length (itemlist c') \<le> length (itemlist c)"
      using parts_body [of h' x zs "maxSize c"] \<open>size_at h' x = Some (maxSize c)\<close> by auto
  next
    fix d i assume "item_of ?w d = Some i" "\<exists>p k. 1 \<le> k \<and> k \<le> 10 \<and> inventory (invs w p) k = Some d"
    then show "\<exists>j0. item_of w d = Some j0 \<and> i_id j0 = i_id i" using it by (auto simp: of_world split: if_splits)
  qed (use par in auto)
  with w ok' it(1) up(1) show ?thesis by (simp add: of_world)
qed

lemma container_remove_ok:
  assumes ok: "world_ok E w" and held: "holder_of w b = Some (InContainer a)" and j: "item_of w b = Some j"
  shows "\<not> isStackable (e_items E) j \<or> n = ucast (i_count j) \<Longrightarrow>
      \<exists>w'. on_heap (removeThing (e_items E) a (ItemThing b) n) w = Some w' \<and> world_ok E w' \<and> keeps_all E w w' \<and>
        holder_of w' = (holder_of w)(b := None) \<and> item_of w' = item_of w \<and> invs w' = invs w"
    and "isStackable (e_items E) j \<Longrightarrow> n \<noteq> 0 \<Longrightarrow> n < ucast (i_count j) \<Longrightarrow>
      \<exists>w'. on_heap (removeThing (e_items E) a (ItemThing b) n) w = Some w' \<and> world_ok E w' \<and> keeps_all E w w' \<and>
        holder_of w' = holder_of w \<and> item_of w' = (item_of w)(b \<mapsto> j\<lparr>i_count := i_count j - ucast n\<rparr>) \<and> invs w' = invs w"
proof -
  have inv: "container_inv (e_items E) (heap w)" using ok by (simp add: world_ok_def)
  obtain c ob where c: "get_body a (heap w) = Some c" "b \<in> set (itemlist c)" "heap w b = Some ob" using held_in(1) [OF inv held] by blast
  have ob: "o_item ob = j" using j c(3) by (simp add: item_of_def)
  have con: "contents (heap w) a = Some (itemlist c)" using body_parts [OF c(1)] by simp
  have cnt: "1 \<le> unat (i_count j)" "isStackable (e_items E) j \<Longrightarrow> unat (i_count j) \<le> 100"
    using ok j by (auto simp: world_ok_def counts_ok_def)
  show "\<exists>w'. on_heap (removeThing (e_items E) a (ItemThing b) n) w = Some w' \<and> world_ok E w' \<and> keeps_all E w w' \<and>
        holder_of w' = (holder_of w)(b := None) \<and> item_of w' = item_of w \<and> invs w' = invs w"
    if all: "\<not> isStackable (e_items E) j \<or> n = ucast (i_count j)"
  proof -
    obtain h' where h': "removeThing (e_items E) a (ItemThing b) n (heap w) = Some h'" "container_inv (e_items E) h'"
      "contents h' = (contents (heap w))(a \<mapsto> remove1 b (itemlist c))" "parent_of h' = (parent_of (heap w))(b := None)"
      using removeThing_inv [OF inv con c(2,3)] all ob by blast
    have fr: "size_at h' = size_at (heap w)" "item_map h' = item_map (heap w)" "up_map h' = (up_map (heap w))(b := None)"
      using removeThing_frame [OF h'(1) c] all ob by auto
    have "length (remove1 b (itemlist c)) \<le> length (itemlist c)" by (simp add: length_remove1)
    moreover have "above (parent_of h') x y \<Longrightarrow> above (parent_of (heap w)) x y" for x y unfolding h'(4) by (rule above_remove)
    moreover have "item_map h' = (item_of w)(b := Some j)" using fr(2) j by (auto simp: of_world fun_eq_iff)
    ultimately show ?thesis
      using container_changed [where f = "removeThing (e_items E) a (ItemThing b) n" and b = b and q = None and j = j and j' = j,
        OF ok h'(1,2,3) con] fr cnt held j
      by (simp add: of_world fun_upd_idem)
  qed
  show "\<exists>w'. on_heap (removeThing (e_items E) a (ItemThing b) n) w = Some w' \<and> world_ok E w' \<and> keeps_all E w w' \<and>
        holder_of w' = holder_of w \<and> item_of w' = (item_of w)(b \<mapsto> j\<lparr>i_count := i_count j - ucast n\<rparr>) \<and> invs w' = invs w"
    if st: "isStackable (e_items E) j" "n \<noteq> 0" "n < ucast (i_count j)"
  proof -
    have part: "isStackable (e_items E) (o_item ob)" "n \<noteq> ucast (i_count (o_item ob))" using st ob by auto
    obtain h' where h': "removeThing (e_items E) a (ItemThing b) n (heap w) = Some h'" "container_inv (e_items E) h'"
      "contents h' = contents (heap w)" "parent_of h' = parent_of (heap w)"
      using removeSome_inv [OF inv con c(2,3) part] by blast
    let ?j = "j\<lparr>i_count := i_count j - ucast n\<rparr>"
    have new: "setItemCount (word_of_int (max 0 (sint (ucast (i_count j) - n)))) j = ?j"
      using narrow_count [OF st(3)] by (simp add: setItemCount_def)
    have fr: "size_at h' = size_at (heap w)" "item_map h' = (item_map (heap w))(b \<mapsto> ?j)" "up_map h' = up_map (heap w)"
      using removeThing_frame [OF h'(1) c] part by (simp_all add: ob new)
    have u: "1 \<le> unat (i_count ?j)" "unat (i_count ?j) \<le> 100" using part_counts [OF st(3) cnt(2) [OF st(1)]] by simp_all
    have "contents h' = (contents (heap w))(a \<mapsto> itemlist c)" using h'(3) con by (simp add: fun_upd_idem)
    then show ?thesis
      using container_changed [where f = "removeThing (e_items E) a (ItemThing b) n" and b = b and q = "Some (InContainer a)" and j = j and j' = ?j,
        OF ok h'(1,2) _ con order_refl] u fr h'(4) held j
      by (simp add: of_world fun_upd_idem)
  qed
qed


text \<open>Setting the id of a stack to what it is leaves its count to the new number.\<close>

lemma set_stack:
  assumes "stack_types items" "isStackable items j" "unat n \<le> 100"
  shows "\<exists>i k. setID items (i_id j) j = Some i \<and> setSubType items (ucast (n :: u32)) i = Some k \<and> i_id k = i_id j \<and> unat (i_count k) = unat n"
proof -
  let ?it = "getItemType items (uint (i_id j))"
  have st: "it_stackable ?it" using assms(2) by (simp add: isStackable_def item_type_def)
  have ty: "it_charges ?it = 0" "it_decayTime ?it = 0" "\<not> isFluidContainer ?it" "\<not> isSplash ?it"
    using assms(1) st by (auto simp: stack_types_def Let_def)
  obtain i where i: "setID items (i_id j) j = Some i" "i_id i = i_id j"
    using ty(2) by (cases "\<not> it_stopTime ?it \<and> it_decayTo ?it = -1") (simp_all add: setID_def Let_def on_attrs_def)
  have "(ucast (ucast n :: u16) :: u8) = ucast n"
    using count_narrow [OF assms(3)] by (simp add: word_unat_eq_iff unsigned_ucast_eq unsigned_take_bit_eq)
  then have "setSubType items (ucast n) i = Some (i\<lparr>i_count := ucast n\<rparr>)"
    using ty i(2) by (simp add: setSubType_def Let_def item_type_def)
  then show ?thesis using i count_narrow(2) [OF assms(3)] by simp
qed

lemma container_update_ok:
  assumes ok: "world_ok E w" and types: "stack_types (e_items E)" and held: "holder_of w b = Some (InContainer a)" and j: "item_of w b = Some j"
    and st: "isStackable (e_items E) j" and n: "1 \<le> unat n" "unat n \<le> 100"
  shows "\<exists>w' k. on_heap (updateThing (e_items E) a (ItemThing b) (i_id j) n) w = Some w' \<and> world_ok E w' \<and> keeps_all E w w' \<and>
    holder_of w' = holder_of w \<and> item_of w' = (item_of w)(b \<mapsto> k) \<and> i_id k = i_id j \<and> unat (i_count k) = unat n \<and> invs w' = invs w"
proof -
  have inv: "container_inv (e_items E) (heap w)" using ok by (simp add: world_ok_def)
  obtain c ob where c: "get_body a (heap w) = Some c" "b \<in> set (itemlist c)" "heap w b = Some ob" using held_in(1) [OF inv held] by blast
  have ob: "o_item ob = j" using j c(3) by (simp add: item_of_def)
  have con: "contents (heap w) a = Some (itemlist c)" using body_parts [OF c(1)] by simp
  obtain i k where k: "setID (e_items E) (i_id j) (o_item ob) = Some i" "setSubType (e_items E) (ucast n) i = Some k" "i_id k = i_id j" "unat (i_count k) = unat n"
    using set_stack [OF types st n(2)] ob by auto
  obtain h' where h': "updateThing (e_items E) a (ItemThing b) (i_id j) n (heap w) = Some h'" "container_inv (e_items E) h'"
    "contents h' = contents (heap w)" "parent_of h' = parent_of (heap w)"
    using updateThing_inv [OF inv con c(2,3) k(1,2)] by blast
  have fr: "size_at h' = size_at (heap w)" "item_map h' = (item_map (heap w))(b \<mapsto> k)" "up_map h' = up_map (heap w)"
    using updateThing_frame [OF h'(1) c k(1,2)] by simp_all
  have "contents h' = (contents (heap w))(a \<mapsto> itemlist c)" using h'(3) con by (simp add: fun_upd_idem)
  then show ?thesis
    using container_changed [where f = "updateThing (e_items E) a (ItemThing b) (i_id j) n" and b = b and q = "Some (InContainer a)" and j = j and j' = k,
      OF ok h'(1,2) _ con order_refl] fr h'(4) held j k(3,4) n by (auto simp: of_world fun_upd_idem)
qed

lemma container_put_ok:
  assumes ok: "world_ok E w" and loose: "holder_of w b = None" and j: "item_of w b = Some j" and c: "get_body a (heap w) = Some c"
    and room: "length (itemlist c) < unat (maxSize c)" and out: "\<not> above (parent_of (heap w)) a b" and i: "i < sint (capacity c)"
  shows "\<exists>w'. on_heap (addThing (e_items E) a i (ItemThing b)) w = Some w' \<and> world_ok E w' \<and> holder_of w' = (holder_of w)(b \<mapsto> InContainer a) \<and>
    item_of w' = item_of w \<and> invs w' = invs w \<and>
    (\<forall>x. get_body x (heap w) \<noteq> None \<longrightarrow> get_body x (heap w') \<noteq> None) \<and>
    (\<forall>x. x \<noteq> a \<longrightarrow> map_option itemlist (get_body x (heap w')) = map_option itemlist (get_body x (heap w)) \<and>
       map_option maxSize (get_body x (heap w')) = map_option maxSize (get_body x (heap w)))"
proof -
  have inv: "container_inv (e_items E) (heap w)" and old: "not_overfull (heap w)" "counts_ok (e_items E) w" using ok by (simp_all add: world_ok_def)
  have con: "contents (heap w) a = Some (itemlist c)" "size_at (heap w) a = Some (maxSize c)" using body_parts [OF c] by auto
  have b: "heap w b \<noteq> None" "parent_of (heap w) b = None" using j loose by (auto simp: of_world item_map_def parent_up)
  obtain h' where h': "internalAddThing (e_items E) a (ItemThing b) (heap w) = Some h'" "container_inv (e_items E) h'"
    "contents h' = (contents (heap w))(a \<mapsto> b # itemlist c)" "parent_of h' = (parent_of (heap w))(b \<mapsto> a)"
    using internalAddThing_inv [OF inv con(1) b out] by blast
  note fr = internalAddThing_frame [OF h'(1)]
  have "on_heap (addThing (e_items E) a i (ItemThing b)) w = Some (w\<lparr>heap := h'\<rparr>)"
    using h'(1) c i by (simp add: on_heap_def addThing_def)
  moreover have "not_overfull h'" unfolding not_overfull_parts
  proof (intro allI impI)
    fix x zs n assume x: "contents h' x = Some zs" "size_at h' x = Some n"
    show "length zs \<le> unat n \<and> unat n < 65536"
    proof (cases "x = a")
      case True
      have "unat (maxSize c) < 65536" using old(1) con unfolding not_overfull_parts by blast
      then show ?thesis using True x h'(3) fr(3) con room by auto
    next
      case False
      then show ?thesis using x h'(3) fr(3) old(1) unfolding not_overfull_parts by auto
    qed
  qed
  moreover have "counts_ok (e_items E) (w\<lparr>heap := h'\<rparr>)" using old(2) fr(1) by (simp add: counts_ok_def of_world)
  ultimately have "world_ok E (w\<lparr>heap := h'\<rparr>)"
    using heap_change_ok [OF ok h'(2)] fr(1,2) loose by (auto simp: of_world)
  moreover have "get_body x h' \<noteq> None" if "get_body x (heap w) \<noteq> None" for x
    using that fr(3) by (metis size_at_def option.map_disc_iff)
  moreover have "map_option itemlist (get_body x h') = map_option itemlist (get_body x (heap w)) \<and>
      map_option maxSize (get_body x h') = map_option maxSize (get_body x (heap w))" if "x \<noteq> a" for x
    using fun_cong [OF h'(3), of x] fun_cong [OF fr(3), of x] that by (simp add: contents_def size_at_def)
  ultimately show ?thesis
    using \<open>on_heap (addThing (e_items E) a i (ItemThing b)) w = Some (w\<lparr>heap := h'\<rparr>)\<close> fr(1,2) by (simp add: of_world)
qed


section \<open>Inventories keep the contract\<close>

lemma same_links_inv:
  assumes "container_inv items h" "contents h' = contents h" "parent_of h' = parent_of h" "same_weights items h' h"
  shows "container_inv items h'"
proof -
  have "total_weight c' = (\<Sum>b \<leftarrow> itemlist c'. weight_of items h' b)" if c': "get_body a h' = Some c'" for a c'
  proof -
    obtain c where c: "get_body a h = Some c" "total_weight c = total_weight c'"
      using assms(4) c' by (metis (no_types, lifting) map_option_eq_Some same_weights_def)
    have "contents h' a = Some (itemlist c')" "contents h a = Some (itemlist c)" using c' c by (simp_all add: contents_def)
    then have "itemlist c = itemlist c'" using assms(2) by simp
    moreover have "total_weight c = (\<Sum>b \<leftarrow> itemlist c. weight_of items h b)"
      using assms(1) c(1) by (simp add: container_inv_def weights_off_def)
    ultimately show ?thesis using c(2) assms(4) by (simp add: same_weights_def)
  qed
  then show ?thesis using assms(1-3) by (simp add: container_inv_def links_ok_def weights_off_def)
qed

lemma outside_set_parent:
  assumes inv: "container_inv items h" and p: "parent_of h b = None" and q: "\<And>a. q \<noteq> Some (InContainer a)" and h: "set_parent q b h = Some h'"
  shows "container_inv items h'" "get_body x h' = get_body x h" "parent_of h' = parent_of h"
proof -
  have "(case q of Some (InContainer p) \<Rightarrow> Some p | _ \<Rightarrow> None) = None" using q by (auto split: option.split Holder.split)
  then show par: "parent_of h' = parent_of h" using set_parent_facts(3) [OF h] p by (simp add: fun_upd_idem)
  show "container_inv items h'" by (rule same_links_inv [OF inv set_parent_facts(1) [OF h] par set_parent_facts(2) [OF h]])
  show "get_body x h' = get_body x h" using h by (auto simp: set_parent_def get_body_def Option.bind_eq_Some_conv)
qed

lemma outside_set_item:
  assumes inv: "container_inv items h" and p: "parent_of h b = None" and h: "set_item b i h = Some h'"
  shows "container_inv items h'" "get_body x h' = get_body x h" "parent_of h' = parent_of h"
proof -
  obtain ob where ob: "h b = Some ob" "h' = h(b \<mapsto> ob\<lparr>o_item := i\<rparr>)" using h by (auto simp: set_item_def Option.bind_eq_Some_conv)
  have body: "get_body x h' = get_body x h" for x using ob by (simp add: get_body_def)
  then show "get_body x h' = get_body x h" .
  have con: "contents h' = contents h" using body by (simp add: contents_def fun_eq_iff)
  show par: "parent_of h' = parent_of h" using ob by (auto simp: parent_of_def)
  have "weights_off items h' (\<lambda>x. 0 - (if x = b then 0 else 0) + (if parent_of h b = Some x then weight_of items h' b - weight_of items h b else 0))"
    using ob con par body by (intro weights_off_change [OF inv_container(1) [OF inv] inv_container(2) [OF inv]]) auto
  then show "container_inv items h'" using inv con par p by (simp add: container_inv_def links_ok_def)
qed

lemma player_index:
  assumes "nothing_twice v"
  shows "wears v b \<Longrightarrow> \<exists>i. player_getIndexOfThing b v = i \<and> 1 \<le> i \<and> i \<le> 10 \<and> inventory v i = Some b"
    and "\<not> wears v b \<Longrightarrow> player_getIndexOfThing b v = -1"
proof -
  have s: "i \<in> set (filter (\<lambda>i. inventory v i = Some b) [1..10]) \<longleftrightarrow> 1 \<le> i \<and> i \<le> 10 \<and> inventory v i = Some b" for i
    by (auto simp: set_upto)
  show "\<exists>i. player_getIndexOfThing b v = i \<and> 1 \<le> i \<and> i \<le> 10 \<and> inventory v i = Some b" if worn: "wears v b"
  proof -
    obtain j where "1 \<le> j" "j \<le> 10" "inventory v j = Some b" using worn by (auto simp: wears_def)
    then have "filter (\<lambda>i. inventory v i = Some b) [1..10] \<noteq> []" using s [of j] by (metis empty_iff empty_set)
    then obtain i js where i: "filter (\<lambda>i. inventory v i = Some b) [1..10] = i # js" by (meson neq_Nil_conv)
    then have "i \<in> set (filter (\<lambda>i. inventory v i = Some b) [1..10])" by simp
    then show ?thesis using s [of i] i by (simp add: player_getIndexOfThing_def)
  qed
  show "player_getIndexOfThing b v = -1" if "\<not> wears v b"
  proof -
    have "set (filter (\<lambda>i. inventory v i = Some b) [1..10]) = {}" using s that by (auto simp: wears_def)
    then have "filter (\<lambda>i. inventory v i = Some b) [1..10] = []" by (simp only: set_empty)
    then show ?thesis by (simp add: player_getIndexOfThing_def)
  qed
qed

lemma worn_facts:
  assumes ok: "world_ok E w" and held: "holder_of w b = Some (OnCreature p)"
  shows "\<exists>i. player_getIndexOfThing b (invs w p) = i \<and> 1 \<le> i \<and> i \<le> 10 \<and> inventory (invs w p) i = Some b"
    and "\<exists>ob. heap w b = Some ob" and "parent_of (heap w) b = None"
proof -
  have "wears (invs w p) b" "nothing_twice (invs w p)" using ok held by (simp_all add: world_ok_def slots_agree_def)
  then show "\<exists>i. player_getIndexOfThing b (invs w p) = i \<and> 1 \<le> i \<and> i \<le> 10 \<and> inventory (invs w p) i = Some b"
    using player_index(1) by blast
  show "\<exists>ob. heap w b = Some ob" "parent_of (heap w) b = None"
    using held by (auto simp: holder_of_def parent_of_def Option.bind_eq_Some_conv)
qed

lemma worn_item:
  assumes "world_ok E w" "1 \<le> i" "i \<le> 10" "inventory (invs w p) i = Some b"
  shows "\<exists>j. item_of w b = Some j \<and> slot_suits E i (i_id j)"
  using assms unfolding world_ok_def worn_ok_def by blast

text \<open>A worn item that changes but for its id.\<close>

lemma worn_changed:
  assumes ok: "world_ok E w" and held: "holder_of w b = Some (OnCreature p)" and j: "item_of w b = Some j"
    and k: "i_id k = i_id j" "1 \<le> unat (i_count k)" "isStackable (e_items E) k \<longrightarrow> unat (i_count k) \<le> 100"
  shows "\<exists>w'. on_heap (set_item b k) w = Some w' \<and> world_ok E w' \<and> keeps_all E w w' \<and> holder_of w' = holder_of w \<and>
    item_of w' = (item_of w)(b \<mapsto> k) \<and> invs w' = invs w"
proof -
  have inv: "container_inv (e_items E) (heap w)" and old: "not_overfull (heap w)" "counts_ok (e_items E) w" using ok by (simp_all add: world_ok_def)
  obtain ob where ob: "heap w b = Some ob" using worn_facts(2) [OF ok held] by blast
  then obtain h' where h': "set_item b k (heap w) = Some h'" by (simp add: set_item_def)
  note o = outside_set_item [OF inv worn_facts(3) [OF ok held] h'] and fr = set_item_frame [OF h']
  have "counts_ok (e_items E) (w\<lparr>heap := h'\<rparr>)" using old(2) k fr(1) by (auto simp: counts_ok_def of_world)
  moreover have "not_overfull h'" using old(1) o(2) by (simp add: not_overfull_def)
  moreover have "dom (item_map h') = dom (item_of w)" using fr(1) j by (auto simp: of_world)
  moreover have "\<exists>j'. item_map h' x = Some j' \<and> i_id j' = i_id i" if "item_of w x = Some i" for x i using that fr(1) j k(1) by (auto simp: of_world)
  ultimately have "world_ok E (w\<lparr>heap := h'\<rparr>)" using heap_change_ok [OF ok o(1)] fr(2) by (simp add: of_world)
  moreover have "keeps_all E w (w\<lparr>heap := h'\<rparr>)"
    using o(2,3) fr(1) j k(1) by (intro keeps_allI) (auto simp: of_world split: if_splits)
  ultimately show ?thesis using fr by (simp add: on_heap_def h' of_world)
qed

lemma player_remove_ok:
  assumes ok: "world_ok E w" and held: "holder_of w b = Some (OnCreature p)" and j: "item_of w b = Some j"
  shows "\<not> isStackable (e_items E) j \<or> n = ucast (i_count j) \<Longrightarrow>
      \<exists>w'. player_removeThing E p b n w = Some w' \<and> world_ok E w' \<and> keeps_all E w w' \<and> holder_of w' = (holder_of w)(b := None) \<and>
        item_of w' = item_of w \<and> (\<forall>q i. inventory (invs w' q) i = (if inventory (invs w q) i = Some b \<and> q = p \<and> 1 \<le> i \<and> i \<le> 10 then None else inventory (invs w q) i))"
    and "isStackable (e_items E) j \<Longrightarrow> n \<noteq> 0 \<Longrightarrow> n < ucast (i_count j) \<Longrightarrow>
      \<exists>w'. player_removeThing E p b n w = Some w' \<and> world_ok E w' \<and> keeps_all E w w' \<and> holder_of w' = holder_of w \<and>
        item_of w' = (item_of w)(b \<mapsto> j\<lparr>i_count := i_count j - ucast n\<rparr>) \<and> invs w' = invs w"
proof -
  have inv: "container_inv (e_items E) (heap w)" and old: "not_overfull (heap w)" "counts_ok (e_items E) w" "slots_agree w" "\<And>q. worn_ok E q w"
    using ok by (simp_all add: world_ok_def)
  obtain i where i: "player_getIndexOfThing b (invs w p) = i" "1 \<le> i" "i \<le> 10" "inventory (invs w p) i = Some b"
    using worn_facts(1) [OF ok held] by blast
  obtain ob where ob: "heap w b = Some ob" using worn_facts(2) [OF ok held] by blast
  have cnt: "1 \<le> unat (i_count j)" "isStackable (e_items E) j \<Longrightarrow> unat (i_count j) \<le> 100" using old(2) j by (auto simp: counts_ok_def)
  show "\<exists>w'. player_removeThing E p b n w = Some w' \<and> world_ok E w' \<and> keeps_all E w w' \<and> holder_of w' = (holder_of w)(b := None) \<and>
        item_of w' = item_of w \<and> (\<forall>q i. inventory (invs w' q) i = (if inventory (invs w q) i = Some b \<and> q = p \<and> 1 \<le> i \<and> i \<le> 10 then None else inventory (invs w q) i))"
    if all: "\<not> isStackable (e_items E) j \<or> n = ucast (i_count j)"
  proof -
    obtain h' where h': "set_parent None b (heap w) = Some h'" using ob by (simp add: set_parent_def)
    have "None \<noteq> Some (InContainer a)" for a by simp
    note o = outside_set_parent [OF inv worn_facts(3) [OF ok held] this h'] and fr = set_parent_frame [OF h']
    define w' where "w' = put_slot p i None (w\<lparr>heap := h'\<rparr>)"
    have w': "player_removeThing E p b n w = Some w'"
      using all i j by (auto simp: player_removeThing_def Let_def on_heap_def h' w'_def)
    have hw: "heap w' = h'" by (simp add: w'_def put_slot_def)
    have only: "i' = i" if "1 \<le> i'" "i' \<le> 10" "inventory (invs w p) i' = Some b" for i'
      using old(3) that i(2-4) unfolding slots_agree_def nothing_twice_def by blast
    have iv: "inventory (invs w' q) i' = (if q = p \<and> i' = i then None else inventory (invs w q) i')" for q i'
      by (simp add: w'_def put_slot_def)
    have "wears (invs w' q) x \<longleftrightarrow> wears (invs w q) x \<and> \<not> (q = p \<and> x = b)" for q x
    proof
      assume "wears (invs w q) x \<and> \<not> (q = p \<and> x = b)"
      then obtain k where k: "1 \<le> k" "k \<le> 10" "inventory (invs w q) k = Some x" "\<not> (q = p \<and> x = b)" by (auto simp: wears_def)
      then have "\<not> (q = p \<and> k = i)" using i(4) by auto
      then have "inventory (invs w' q) k = Some x" using k(3) iv by auto
      then show "wears (invs w' q) x" using k(1,2) by (auto simp: wears_def)
    qed (use only in \<open>auto simp: wears_def iv split: if_splits\<close>)
    moreover have "\<not> wears (invs w q) b" if "q \<noteq> p" for q
      using old(3) held that by (metis slots_agree_def option.inject Holder.inject(3))
    moreover have "nothing_twice (invs w q)" for q using old(3) by (simp add: slots_agree_def)
    then have "nothing_twice (invs w' q)" for q unfolding nothing_twice_def iv by (auto split: if_splits)
    ultimately have "slots_agree w'"
      using old(3) fr(2) by (auto simp: slots_agree_def of_world hw)
    moreover have "worn_ok E q w'" for q
      using old(4) [of q] fr(1) unfolding worn_ok_def iv of_world hw by (simp split: if_splits) blast
    moreover have "not_overfull h'" using old(1) o(2) by (simp add: not_overfull_def)
    moreover have "counts_ok (e_items E) w'" using old(2) fr(1) by (simp add: counts_ok_def of_world hw)
    moreover have "dom h' = dom (heap w)" using fr(1) dom_item_of [of w] dom_item_of [of "w\<lparr>heap := h'\<rparr>"] by (simp add: of_world)
    then have "finite (dom h')" using ok by (simp add: world_ok_def)
    ultimately have "world_ok E w'" using o(1) by (simp add: world_ok_def hw)
    moreover have "keeps_all E w w'"
      using o(2,3) fr(1) iv by (intro keeps_allI) (auto simp: of_world hw)
    moreover have "inventory (invs w' q) i' = (if inventory (invs w q) i' = Some b \<and> q = p \<and> 1 \<le> i' \<and> i' \<le> 10 then None else inventory (invs w q) i')" for q i'
      using i(2-4) by (cases "q = p \<and> i' = i") (auto simp: iv dest: only)
    ultimately show ?thesis using w' fr(1,2) by (simp add: of_world hw)
  qed
  show "\<exists>w'. player_removeThing E p b n w = Some w' \<and> world_ok E w' \<and> keeps_all E w w' \<and> holder_of w' = holder_of w \<and>
        item_of w' = (item_of w)(b \<mapsto> j\<lparr>i_count := i_count j - ucast n\<rparr>) \<and> invs w' = invs w"
    if st: "isStackable (e_items E) j" "n \<noteq> 0" "n < ucast (i_count j)"
  proof -
    let ?j = "j\<lparr>i_count := i_count j - ucast n\<rparr>"
    have "setItemCount (word_of_int (max 0 (sint (ucast (i_count j) - n)))) j = ?j" using narrow_count [OF st(3)] by (simp add: setItemCount_def)
    then have e: "player_removeThing E p b n w = on_heap (set_item b ?j) w"
      using st i j by (auto simp: player_removeThing_def Let_def)
    have u: "1 \<le> unat (i_count ?j)" "unat (i_count ?j) \<le> 100" using part_counts [OF st(3) cnt(2) [OF st(1)]] by simp_all
    show ?thesis using worn_changed [OF ok held j _ u(1)] u(2) unfolding e by simp
  qed
qed

lemma player_update_ok:
  assumes ok: "world_ok E w" and types: "stack_types (e_items E)" and held: "holder_of w b = Some (OnCreature p)" and j: "item_of w b = Some j"
    and st: "isStackable (e_items E) j" and n: "1 \<le> unat n" "unat n \<le> 100"
  shows "\<exists>w' k. player_updateThing E p b (i_id j) n w = Some w' \<and> world_ok E w' \<and> keeps_all E w w' \<and>
    holder_of w' = holder_of w \<and> item_of w' = (item_of w)(b \<mapsto> k) \<and> i_id k = i_id j \<and> unat (i_count k) = unat n \<and> invs w' = invs w"
proof -
  obtain i k where k: "setID (e_items E) (i_id j) j = Some i" "setSubType (e_items E) (ucast n) i = Some k" "i_id k = i_id j" "unat (i_count k) = unat n"
    using set_stack [OF types st n(2)] by auto
  have "player_updateThing E p b (i_id j) n w = on_heap (set_item b k) w"
    using worn_facts(1) [OF ok held] j k(1,2) by (auto simp: player_updateThing_def)
  then show ?thesis using worn_changed [OF ok held j k(3)] n k(3,4) by auto
qed


lemma player_put_ok:
  assumes ok: "world_ok E w" and loose: "holder_of w b = None" and j: "item_of w b = Some j"
    and room: "has_room (OnCreature p) i w" and takes: "may_take E (OnCreature p) i (i_id j) w"
  shows "\<exists>w'. player_addThing p i b w = Some w' \<and> world_ok E w' \<and> holder_of w' = (holder_of w)(b \<mapsto> OnCreature p) \<and>
    item_of w' = item_of w \<and> (\<forall>x. get_body x (heap w') = get_body x (heap w)) \<and> (\<forall>q. q \<noteq> p \<longrightarrow> invs w' q = invs w q)"
proof -
  have inv: "container_inv (e_items E) (heap w)" and old: "not_overfull (heap w)" "counts_ok (e_items E) w" "slots_agree w" "\<And>q. worn_ok E q w"
    using ok by (simp_all add: world_ok_def)
  have i: "slot_suits E i (i_id j)" "1 \<le> i" "i \<le> 10" "inventory (invs w p) i = None"
    using room takes by (auto simp: may_take_def has_room_def slot_suits_def player_getThing_def)
  obtain ob where ob: "heap w b = Some ob" using j by (auto simp: item_of_def)
  then obtain h' where h': "set_parent (Some (OnCreature p)) b (heap w) = Some h'" by (simp add: set_parent_def)
  have pb: "parent_of (heap w) b = None" using loose by (simp add: parent_up of_world)
  have "Some (OnCreature p) \<noteq> Some (InContainer a)" for a by simp
  note o = outside_set_parent [OF inv pb this h'] and fr = set_parent_frame [OF h']
  define w' where "w' = put_slot p i (Some b) (w\<lparr>heap := h'\<rparr>)"
  have w': "player_addThing p i b w = Some w'" using i by (simp add: player_addThing_def on_heap_def h' w'_def)
  have hw: "heap w' = h'" by (simp add: w'_def put_slot_def)
  have iv: "inventory (invs w' q) i' = (if q = p \<and> i' = i then Some b else inventory (invs w q) i')" for q i'
    by (simp add: w'_def put_slot_def)
  have nb: "\<not> wears (invs w q) b" for q using old(3) loose by (metis slots_agree_def option.distinct(1))
  have "wears (invs w' q) x \<longleftrightarrow> wears (invs w q) x \<or> q = p \<and> x = b" for q x
  proof
    assume "wears (invs w q) x \<or> q = p \<and> x = b"
    then show "wears (invs w' q) x"
    proof
      assume "wears (invs w q) x"
      then obtain k where "1 \<le> k" "k \<le> 10" "inventory (invs w q) k = Some x" by (auto simp: wears_def)
      then show ?thesis using i(4) by (auto simp: wears_def iv intro!: exI [of _ k])
    qed (use i(2,3) in \<open>auto simp: wears_def iv\<close>)
  qed (auto simp: wears_def iv split: if_splits)
  moreover have "nothing_twice (invs w' q)" for q
    unfolding nothing_twice_def
  proof (intro allI impI; elim conjE)
    fix x k k' assume k: "1 \<le> k" "k \<le> 10" "1 \<le> k'" "k' \<le> 10" "inventory (invs w' q) k = Some x" "inventory (invs w' q) k' = Some x"
    have "nothing_twice (invs w q)" using old(3) by (simp add: slots_agree_def)
    moreover have "inventory (invs w q) y \<noteq> Some b" if "1 \<le> y" "y \<le> 10" for y using nb [of q] that by (auto simp: wears_def)
    ultimately show "k = k'" using k unfolding nothing_twice_def iv by (auto split: if_splits)
  qed
  ultimately have "slots_agree w'" using old(3) fr(2) nb by (auto simp: slots_agree_def of_world hw)
  moreover have "worn_ok E q w'" for q
  proof (cases "q = p")
    case False
    then show ?thesis using old(4) [of q] fr(1) unfolding worn_ok_def iv of_world hw by simp blast
  next
    case True
    have it: "item_of w' = item_of w" using fr(1) by (simp add: of_world hw)
    show ?thesis unfolding worn_ok_def it
    proof (intro conjI allI impI; elim conjE)
      fix i' x assume s: "1 \<le> i'" "i' \<le> 10" "inventory (invs w' q) i' = Some x"
      show "\<exists>j. item_of w x = Some j \<and> slot_suits E i' (i_id j)"
      proof (cases "i' = i")
        case True
        then show ?thesis using s \<open>q = p\<close> iv i(1) j by simp
      next
        case False
        then show ?thesis using s old(4) [of q] iv unfolding worn_ok_def by auto
      qed
    next
      fix x d jx k assume s: "inventory (invs w' q) SLOT_RIGHT = Some x" "inventory (invs w' q) SLOT_LEFT = Some d" "item_of w x = Some jx" "item_of w d = Some k"
      have sym: "hands_apart E y z \<Longrightarrow> hands_apart E z y" for y z by (auto simp: hands_apart_def)
      consider (right) "i = SLOT_RIGHT" | (left) "i = SLOT_LEFT" | (no) "i \<noteq> SLOT_RIGHT" "i \<noteq> SLOT_LEFT" by blast
      then show "hands_apart E (i_id jx) (i_id k)"
      proof cases
        case right
        then have "x = b" "inventory (invs w p) SLOT_LEFT = Some d" using s True iv by auto
        then show ?thesis using takes right s(3,4) j by (simp add: may_take_def other_hand_def)
      next
        case left
        then have "d = b" "inventory (invs w p) SLOT_RIGHT = Some x" using s True iv by auto
        then show ?thesis using takes left s(3,4) j sym by (simp add: may_take_def other_hand_def)
      next
        case no
        then show ?thesis using s old(4) [of q] iv unfolding worn_ok_def by simp
      qed
    qed
  qed
  moreover have "not_overfull h'" using old(1) o(2) by (simp add: not_overfull_def)
  moreover have "counts_ok (e_items E) w'" using old(2) fr(1) by (simp add: counts_ok_def of_world hw)
  moreover have "dom h' = dom (heap w)" using fr(1) dom_item_of [of w] dom_item_of [of "w\<lparr>heap := h'\<rparr>"] by (simp add: of_world)
  then have "finite (dom h')" using ok by (simp add: world_ok_def)
  ultimately have "world_ok E w'" using o(1) by (simp add: world_ok_def hw)
  moreover have "q \<noteq> p \<Longrightarrow> invs w' q = invs w q" for q by (simp add: w'_def put_slot_def)
  ultimately show ?thesis using w' fr(1,2) o(2) by (simp add: of_world hw)
qed

lemma create_ok:
  assumes ok: "world_ok E w" and free: "heap w d = None" and j: "1 \<le> unat (i_count j)" "unat (i_count j) \<le> 100"
    and w': "w' = w\<lparr>heap := (heap w)(d \<mapsto> \<lparr>o_item = j, o_parent = None, o_body = None\<rparr>)\<rparr>"
  shows "world_ok E w' \<and> keeps_all E w w' \<and> (\<forall>c. is_cyl c w \<longrightarrow> not_inside c d w')"
proof -
  let ?h = "(heap w)(d \<mapsto> \<lparr>o_item = j, o_parent = None, o_body = None\<rparr>)"
  have inv: "container_inv (e_items E) (heap w)" and old: "not_overfull (heap w)" "counts_ok (e_items E) w" "slots_agree w" "\<And>q. worn_ok E q w"
    using ok by (simp_all add: world_ok_def)
  have body: "get_body x ?h = get_body x (heap w)" for x using free by (simp add: get_body_def)
  have par: "parent_of ?h = parent_of (heap w)" using free by (auto simp: parent_of_def)
  have up: "up_map ?h = holder_of w" using free by (auto simp: up_map_def holder_of_def)
  have it: "item_map ?h = (item_of w)(d \<mapsto> j)" by (auto simp: item_map_def item_of_def)
  have con: "contents ?h = contents (heap w)" using body by (simp add: contents_def fun_eq_iff)
  have nd: "parent_of (heap w) d = None" using free by (simp add: parent_of_def)
  have "weights_off (e_items E) ?h (\<lambda>_. 0)" unfolding weights_off_def body
  proof (intro allI impI)
    fix a c assume c: "get_body a (heap w) = Some c"
    have "d \<notin> set (itemlist c)" using linksD(2) [OF inv_container(3) [OF inv], of a "itemlist c" d] c nd by (simp add: contents_def)
    then have "(\<Sum>b \<leftarrow> itemlist c. weight_of (e_items E) ?h b) = (\<Sum>b \<leftarrow> itemlist c. weight_of (e_items E) (heap w) b)"
      by (intro arg_cong [where f = sum_list] map_cong) (auto simp: weight_of_def)
    then show "total_weight c + 0 = (\<Sum>b \<leftarrow> itemlist c. weight_of (e_items E) ?h b)"
      using inv c by (simp add: container_inv_def weights_off_def)
  qed
  then have inv': "container_inv (e_items E) ?h" using inv con par by (simp add: container_inv_def links_ok_def)
  have worn: "x \<noteq> d" if "1 \<le> i" "i \<le> 10" "inventory (invs w p) i = Some x" for x i p
    using worn_item [OF ok that] free by (auto simp: item_of_def)
  have "worn_ok E p w'" for p
    unfolding worn_ok_def w' of_world
  proof (intro conjI allI impI; elim conjE)
    fix i x assume s: "1 \<le> i" "i \<le> 10" "inventory (invs (w\<lparr>heap := ?h\<rparr>) p) i = Some x"
    then show "\<exists>j. item_map (heap (w\<lparr>heap := ?h\<rparr>)) x = Some j \<and> slot_suits E i (i_id j)"
      using old(4) [of p] worn [of i p x] unfolding worn_ok_def by (simp add: it)
  next
    fix x y jx jy
    assume s: "inventory (invs (w\<lparr>heap := ?h\<rparr>) p) SLOT_RIGHT = Some x" "inventory (invs (w\<lparr>heap := ?h\<rparr>) p) SLOT_LEFT = Some y"
      "item_map (heap (w\<lparr>heap := ?h\<rparr>)) x = Some jx" "item_map (heap (w\<lparr>heap := ?h\<rparr>)) y = Some jy"
    then show "hands_apart E (i_id jx) (i_id jy)"
      using old(4) [of p] worn [of SLOT_RIGHT p x] worn [of SLOT_LEFT p y] unfolding worn_ok_def by (simp add: it)
  qed
  then have "world_ok E w'"
    using inv' ok old body up it j unfolding w'
    by (auto simp: world_ok_def not_overfull_def counts_ok_def slots_agree_def of_world)
  moreover have "keeps_all E w w'"
  proof (rule keeps_allI)
    fix x j' assume "item_of w' x = Some j'" "\<exists>p i. 1 \<le> i \<and> i \<le> 10 \<and> inventory (invs w p) i = Some x"
    then show "\<exists>j. item_of w x = Some j \<and> i_id j = i_id j'" using worn [of _ _ x] it by (auto simp: w' of_world)
  qed (use body par in \<open>auto simp: w'\<close>)
  moreover have "not_inside c d w'" if "is_cyl c w" for c
  proof (cases c)
    case (InContainer a)
    have "above (parent_of (heap w)) x y \<Longrightarrow> x \<noteq> d \<Longrightarrow> y \<noteq> d" for x y
    proof (induction rule: above.induct)
      case (up x p y)
      have "contents (heap w) p \<noteq> None" using linksD(3) [OF inv_container(3) [OF inv] up(1)] .
      then have "p \<noteq> d" using free by (auto simp: contents_def get_body_def)
      then show ?case using up by blast
    qed
    moreover have "a \<noteq> d" using that InContainer free by (auto simp: is_cyl_def get_body_def)
    ultimately show ?thesis using InContainer par by (auto simp: not_inside_def w')
  qed (simp_all add: not_inside_def)
  ultimately show ?thesis by blast
qed


section \<open>The queries answer\<close>

lemma parent_exists: "links_ok h \<Longrightarrow> parent_of h a = Some p \<Longrightarrow> h p \<noteq> None"
  using linksD(3) [of "contents h" "parent_of h" a p] by (auto simp: links_ok_def contents_def get_body_def Option.bind_eq_Some_conv)

lemma up_exists: "links_ok h \<Longrightarrow> h a = Some ob \<Longrightarrow> o_parent ob = Some (InContainer p) \<Longrightarrow> h p \<noteq> None"
  using parent_exists [of h a p] by (simp add: parent_of_def)

lemma top_from_ends:
  assumes l: "links_ok h" and r: "rooted par a" "par = parent_of h"
  shows "h a \<noteq> None \<Longrightarrow> (\<And>x. prev \<noteq> OnTile x) \<Longrightarrow> \<exists>t. top_from ct (InContainer a) prev h = Some t \<and> (\<forall>x. t \<noteq> OnTile x)"
  using r
proof (induction arbitrary: prev rule: rooted.induct)
  case (root a)
  then obtain ob where ob: "h a = Some ob" by blast
  have tile: "top_from ct (OnTile x) q h = Some q" for x q by (subst top_from.simps) (simp add: holder_parent_def)
  show ?case
  proof (cases "o_parent ob")
    case None
    then show ?thesis using root.prems(2) ob by (subst top_from.simps) (simp add: holder_parent_def getParent_def)
  next
    case (Some c)
    show ?thesis
    proof (cases c)
      case (InContainer p)
      then show ?thesis using Some ob root by (simp add: parent_of_def)
    next
      case (OnTile x)
      then show ?thesis using Some ob by (subst top_from.simps) (simp add: holder_parent_def getParent_def tile)
    next
      case (OnCreature c')
      have "\<exists>t. top_from ct (OnCreature c') (InContainer a) h = Some t \<and> (\<forall>x. t \<noteq> OnTile x)"
        by (subst top_from.simps) (simp add: holder_parent_def tile split: option.split)
      then show ?thesis using Some OnCreature ob by (subst top_from.simps) (simp add: holder_parent_def getParent_def)
    qed
  qed
next
  case (inside a p)
  then obtain ob where ob: "h a = Some ob" by blast
  then have up: "o_parent ob = Some (InContainer p)" using inside by (auto simp: parent_of_def split: option.splits Holder.splits)
  have "h p \<noteq> None" using parent_exists [OF l] inside by blast
  then show ?case using inside.IH [of "InContainer a"] up ob inside.prems
    by (subst top_from.simps) (simp add: holder_parent_def getParent_def)
qed

lemma holder_top:
  assumes l: "links_ok h" and c: "\<And>a. c = InContainer a \<Longrightarrow> h a \<noteq> None"
  shows "(\<And>x. prev \<noteq> OnTile x) \<Longrightarrow> \<exists>t. top_from ct c prev h = Some t \<and> (\<forall>x. t \<noteq> OnTile x)"
proof (cases c)
  case (InContainer a)
  then show ?thesis if "\<And>x. prev \<noteq> OnTile x"
    using that top_from_ends [OF l linksD(4) [OF l [unfolded links_ok_def]] refl] c by blast
next
  case (OnTile x)
  then show ?thesis if "\<And>x. prev \<noteq> OnTile x" using that by (subst top_from.simps) (simp add: holder_parent_def)
next
  case (OnCreature p)
  have tile: "top_from ct (OnTile x) q h = Some q" for x q by (subst top_from.simps) (simp add: holder_parent_def)
  show ?thesis if "\<And>x. prev \<noteq> OnTile x"
    using that OnCreature by (subst top_from.simps) (simp add: holder_parent_def tile split: option.split)
qed

lemma getTopParent_answers:
  assumes l: "links_ok h" and a: "h a \<noteq> None"
  shows "\<exists>t. getTopParent ct a h = Some t \<and> (\<forall>x. t \<noteq> OnTile x)"
proof -
  obtain ob where ob: "h a = Some ob" using a by blast
  show ?thesis
  proof (cases "o_parent ob")
    case (Some c)
    have "c = InContainer p \<Longrightarrow> h p \<noteq> None" for p using parent_exists [OF l, of a p] ob Some by (auto simp: parent_of_def)
    then show ?thesis using holder_top [OF l, of c "InContainer a"] ob Some by (auto simp: getTopParent_def getParent_def)
  qed (simp add: getTopParent_def getParent_def ob)
qed

lemma thing_top_answers:
  assumes l: "links_ok h" and b: "h b \<noteq> None"
  shows "\<exists>t. thing_top ct b h = Some t"
proof -
  obtain ob where ob: "h b = Some ob" using b by blast
  show ?thesis
  proof (cases "o_body ob \<noteq> None")
    case True
    then show ?thesis using getTopParent_answers [OF l b, of ct] ob by (auto simp: thing_top_def)
  next
    case False
    show ?thesis
    proof (cases "o_parent ob")
      case (Some c)
      have c: "c = InContainer p \<Longrightarrow> h p \<noteq> None" for p using parent_exists [OF l, of b p] ob Some by (auto simp: parent_of_def)
      then obtain q where q: "holder_parent ct c h = Some q" "\<And>p. q = Some (InContainer p) \<Longrightarrow> h p \<noteq> None"
        using up_exists [OF l] by (cases c) (force simp: holder_parent_def getParent_def)+
      show ?thesis
      proof (cases q)
        case (Some u)
        show ?thesis
        proof (cases "\<exists>x. c = OnTile x")
          case False
          then show ?thesis using holder_top [OF l, of u c ct] q Some \<open>o_parent ob = Some c\<close> \<open>\<not> o_body ob \<noteq> None\<close> ob by (auto simp: thing_top_def)
        qed (use q Some in \<open>auto simp: holder_parent_def\<close>)
      qed (use q Some False ob in \<open>simp add: thing_top_def\<close>)
    qed (use False ob in \<open>simp add: thing_top_def\<close>)
  qed
qed

lemma world_links: "world_ok E w \<Longrightarrow> links_ok (heap w)"
  by (simp add: world_ok_def container_inv_def)

lemma hasCapacity_answers:
  assumes "world_ok E w" "item_of w b \<noteq> None"
  shows "\<exists>r. hasCapacity E p b n w = Some r"
proof -
  have b: "heap w b \<noteq> None" using assms(2) by (auto simp: item_of_def)
  obtain t where "thing_top (e_creature_tile E) b (heap w) = Some t" using thing_top_answers [OF world_links [OF assms(1)] b] by blast
  then show ?thesis using b by (auto simp: hasCapacity_def Let_def)
qed

lemma hand_query_answers:
  assumes "item_of w b \<noteq> None" "\<And>d. other = Some d \<Longrightarrow> item_of w d \<noteq> None"
  shows "\<exists>r. hand_query E other b n w = Some r \<and> r \<noteq> RET_NEEDEXCHANGE"
proof -
  obtain i where i: "item_of w b = Some i" using assms(1) by blast
  show ?thesis
  proof (cases other)
    case (Some d)
    then obtain k where "item_of w d = Some k" using assms(2) by blast
    then show ?thesis using i Some by (simp add: hand_query_def)
  qed (simp add: hand_query_def i)
qed

lemma slot_query_answers:
  assumes ok: "world_ok E w" and b: "item_of w b \<noteq> None"
  shows "\<exists>r. slot_query E p i b n w = Some r \<and> r \<noteq> RET_NEEDEXCHANGE"
proof -
  obtain j where j: "item_of w b = Some j" using b by blast
  have hand: "\<exists>r. hand_query E (inventory (invs w p) k) b n w = Some r \<and> r \<noteq> RET_NEEDEXCHANGE" if "k = SLOT_LEFT \<or> k = SLOT_RIGHT" for k
    using hand_query_answers [OF b, of "inventory (invs w p) k"] worn_item [OF ok, of k p] that by fastforce
  have "dress_query E (i_id j) \<noteq> RET_NEEDEXCHANGE" by (simp add: dress_query_def)
  then show ?thesis using hand [of SLOT_LEFT] hand [of SLOT_RIGHT] j by (auto simp: slot_query_def Let_def)
qed

lemma slot_item_exists:
  assumes "world_ok E w" "getInventoryItem i (invs w p) = Some d"
  shows "item_of w d \<noteq> None"
proof -
  have "\<exists>k. 1 \<le> k \<and> k \<le> 10 \<and> inventory (invs w p) k = Some d"
  proof (cases "0 < i \<and> i < 11")
    case True
    then show ?thesis using assms(2) by (intro exI [of _ i]) (simp add: getInventoryItem_def)
  next
    case False
    then have "inventory (invs w p) SLOT_LEFT = Some d \<or> inventory (invs w p) SLOT_RIGHT = Some d"
      using assms(2) by (auto simp: getInventoryItem_def split: if_splits option.splits)
    then show ?thesis by (elim disjE) (rule exI [of _ SLOT_LEFT], simp, rule exI [of _ SLOT_RIGHT], simp)
  qed
  then show ?thesis using worn_item [OF assms(1)] by fastforce
qed

lemma player_add_answers:
  assumes ok: "world_ok E w" and b: "item_of w b \<noteq> None"
  shows "\<exists>r. player_queryAdd E p i b n f w = Some r"
proof -
  obtain j where j: "item_of w b = Some j" using b by blast
  obtain r where r: "slot_query E p i b n w = Some r" using slot_query_answers [OF ok b] by blast
  obtain c where c: "hasCapacity E p b n w = Some c" using hasCapacity_answers [OF ok b] by blast
  obtain x where x: "(case getInventoryItem i (invs w p) of None \<Rightarrow> Some False
           | Some d \<Rightarrow> map_option (\<lambda>k. \<not> isStackable (e_items E) k \<or> i_id k \<noteq> i_id j) (item_of w d)) = Some x"
    using slot_item_exists [OF ok, of i p] by (cases "getInventoryItem i (invs w p)") fastforce+
  show ?thesis by (simp add: player_queryAdd_def j r c x)
qed


section \<open>What the answers mean\<close>

lemma container_add_facts:
  assumes ok: "world_ok E w" and a: "get_body a (heap w) = Some c" and b: "item_of w b = Some j"
  shows "\<exists>r. container_queryAdd E a i b n f w = Some r \<and> r \<noteq> RET_NEEDEXCHANGE"
    and "\<not> hasFlags f FLAG_CHILDISOWNER \<Longrightarrow> container_queryAdd E a i b n f w = Some RET_NOERROR \<Longrightarrow> not_inside (InContainer a) b w"
proof -
  have inv: "container_inv (e_items E) (heap w)" using ok by (simp add: world_ok_def)
  note l = world_links [OF ok]
  obtain oa where oa: "heap w a = Some oa" using a by (auto simp: get_body_def Option.bind_eq_Some_conv)
  obtain ob where ob: "heap w b = Some ob" "o_item ob = j" using b by (auto simp: item_of_def)
  obtain top where top: "getTopParent (e_creature_tile E) a (heap w) = Some top" "\<And>x. top \<noteq> OnTile x" using getTopParent_answers [OF l, of a] oa by auto
  have up: "has_parent b (o_parent oa) (heap w) = Some (\<exists>p. parent_of (heap w) a = Some p \<and> above (parent_of (heap w)) p b)"
    by (rule has_parent_above [OF l linksD(4) [OF inv_container(3) [OF inv]] refl oa])
  have own: "\<exists>r. player_queryAdd E p INDEX_WHEREEVER b n (f OR FLAG_CHILDISOWNER) w = Some r \<and> r \<noteq> RET_NEEDEXCHANGE" for p
  proof -
    have "(f OR FLAG_CHILDISOWNER) AND FLAG_CHILDISOWNER = FLAG_CHILDISOWNER" by (auto simp: bit_eq_iff bit_simps)
    then have "hasFlags (f OR FLAG_CHILDISOWNER) FLAG_CHILDISOWNER" by (simp add: hasFlags_def)
    moreover obtain x where "hasCapacity E p b n w = Some x" using hasCapacity_answers [OF ok, of b] b by auto
    ultimately show ?thesis by (simp add: player_queryAdd_def b)
  qed
  obtain r where r: "(case top of InContainer _ \<Rightarrow> Some RET_NOERROR
       | OnCreature p \<Rightarrow> player_queryAdd E p INDEX_WHEREEVER b n (f OR FLAG_CHILDISOWNER) w
       | OnTile t \<Rightarrow> cyl_queryAdd (e_tiles E) top INDEX_WHEREEVER b n (f OR FLAG_CHILDISOWNER) w) = Some r" "r \<noteq> RET_NEEDEXCHANGE"
    using own top(2) by (cases top) fastforce+
  show "\<exists>r. container_queryAdd E a i b n f w = Some r \<and> r \<noteq> RET_NEEDEXCHANGE"
    using top(1) r up oa ob a
    by (auto simp: container_queryAdd_def queryAdd_def getParent_def split: Holder.splits)
  show "not_inside (InContainer a) b w" if f: "\<not> hasFlags f FLAG_CHILDISOWNER" "container_queryAdd E a i b n f w = Some RET_NOERROR"
  proof -
    have q: "queryAdd (e_items E) (e_creature_tile E) (\<lambda>_ _ _ _ _. r) a i (ItemThing b) n f (heap w) = Some RET_NOERROR"
      using f(2) top(1) r(1) by (simp add: container_queryAdd_def)
    have "b \<noteq> a \<and> \<not> (\<exists>p. parent_of (heap w) a = Some p \<and> above (parent_of (heap w)) p b)"
      using q f(1) up oa ob by (auto simp: queryAdd_def getParent_def split: if_splits)
    then show ?thesis by (auto simp: not_inside_def elim: above.cases)
  qed
qed

lemma dressed: "env_ok E \<Longrightarrow> dress_query E k \<noteq> RET_NOERROR \<and> dress_query E k \<noteq> RET_NOTENOUGHROOM"
  by (simp add: env_ok_def dress_query_def)

lemma hand_query_apart:
  assumes "hand_query E (inventory v i') b n w = Some RET_NOERROR" "item_of w b = Some j" "inventory v i' = Some d" "item_of w d = Some k"
  shows "hands_apart E (i_id j) (i_id k) \<or>
          d = b \<and> (n = ucast (i_count j) \<or> has_slot E (i_id j) SLOTP_TWO_HAND \<or> \<not> is_weapon E (i_id j))"
  using assms by (auto simp: hand_query_def hands_apart_def split: if_splits)

lemma slot_query_range:
  assumes "slot_query E p i b n w = Some r" "r = RET_NOERROR \<or> r = RET_NOTENOUGHROOM" "env_ok E" "item_of w b = Some j"
  shows "-1 \<le> i \<and> i \<le> 10" "r = RET_NOERROR \<Longrightarrow> 1 \<le> i"
  using assms dressed [OF assms(3), of "i_id j"] by (auto simp: slot_query_def Let_def split: if_splits)

lemma slot_query_fits:
  assumes q: "slot_query E p i b n w = Some RET_NOERROR" and env: "env_ok E" and j: "item_of w b = Some j"
  shows "may_move E (OnCreature p) i b n w"
proof -
  have s: "slot_suits E i (i_id j)"
    using q j dressed [OF env, of "i_id j"] env
    by (auto simp: slot_query_def Let_def slot_suits_def slot_bit_def env_ok_def split: if_splits)
  have "hands_apart E (i_id j) (i_id k) \<or> d = b \<and> (n = ucast (i_count j) \<or> has_slot E (i_id j) SLOTP_TWO_HAND \<or> \<not> is_weapon E (i_id j))"
    if o: "other_hand i = Some i'" "inventory (invs w p) i' = Some d" "item_of w d = Some k" for i' d k
  proof -
    have "hand_query E (inventory (invs w p) i') b n w = Some RET_NOERROR"
      using q o(1) j dressed [OF env, of "i_id j"] by (auto simp: slot_query_def Let_def other_hand_def split: if_splits)
    then show ?thesis using hand_query_apart o j by blast
  qed
  then show ?thesis using s j by (auto simp: may_move_def)
qed

lemma player_add_facts:
  assumes env: "env_ok E" and ok: "world_ok E w" and b: "item_of w b = Some j" and f: "\<not> hasFlags f FLAG_CHILDISOWNER"
  shows "player_queryAdd E p i b n f w = Some RET_NOERROR \<Longrightarrow> may_move E (OnCreature p) i b n w \<and>
      (\<forall>d k. player_getThing i (invs w p) = Some d \<longrightarrow> item_of w d = Some k \<longrightarrow> isStackable (e_items E) k \<and> i_id k = i_id j)"
proof -
  obtain r where r: "slot_query E p i b n w = Some r" "r \<noteq> RET_NEEDEXCHANGE" using slot_query_answers [OF ok, of b p i n] b by auto
  assume q: "player_queryAdd E p i b n f w = Some RET_NOERROR"
  have *: "r = RET_NOERROR"
    using q f r b by (auto simp: player_queryAdd_def Option.bind_eq_Some_conv split: if_splits)
  then have i: "1 \<le> i" "i \<le> 10" using slot_query_range [OF r(1) _ env b] by auto
  have "isStackable (e_items E) k \<and> i_id k = i_id j" if "player_getThing i (invs w p) = Some d" "item_of w d = Some k" for d k
    using q f r b that * i by (auto simp: player_queryAdd_def Option.bind_eq_Some_conv player_getThing_def getInventoryItem_def split: if_splits)
  then show "may_move E (OnCreature p) i b n w \<and>
      (\<forall>d k. player_getThing i (invs w p) = Some d \<longrightarrow> item_of w d = Some k \<longrightarrow> isStackable (e_items E) k \<and> i_id k = i_id j)"
    using slot_query_fits [OF _ env b] r(1) * by blast
qed

lemma player_add_exchange:
  assumes env: "env_ok E" and ok: "world_ok E w" and b: "item_of w b = Some j" and q: "player_queryAdd E p i b n f w = Some RET_NEEDEXCHANGE"
  shows "\<exists>d k. player_getThing i (invs w p) = Some d \<and> item_of w d = Some k \<and> \<not> (isStackable (e_items E) k \<and> i_id k = i_id j)"
proof -
  obtain r where r: "slot_query E p i b n w = Some r" "r \<noteq> RET_NEEDEXCHANGE" using slot_query_answers [OF ok, of b p i n] b by auto
  have wear: "e_wear E p b i w \<noteq> RET_NEEDEXCHANGE" using env by (simp add: env_ok_def)
  have f: "\<not> hasFlags f FLAG_CHILDISOWNER" using q b by (auto simp: player_queryAdd_def Option.bind_eq_Some_conv split: if_splits)
  have rr: "r = RET_NOERROR \<or> r = RET_NOTENOUGHROOM"
    using q f r b by (auto simp: player_queryAdd_def Option.bind_eq_Some_conv split: if_splits)
  have i: "-1 \<le> i" "i \<le> 10" using slot_query_range [OF r(1) rr env b] by auto
  obtain d k where d: "getInventoryItem i (invs w p) = Some d" "item_of w d = Some k" "\<not> (isStackable (e_items E) k \<and> i_id k = i_id j)"
    using q f r b wear rr by (auto simp: player_queryAdd_def Option.bind_eq_Some_conv split: if_splits option.splits)
  have "player_getThing i (invs w p) = Some d" using d(1) i by (auto simp: player_getThing_def getInventoryItem_def split: if_splits)
  then show ?thesis using d(2,3) by blast
qed

lemma stackable_same: "i_id k = i_id j \<Longrightarrow> isStackable items k = isStackable items j"
  by (simp add: isStackable_def item_type_def)

lemma player_add_home:
  assumes env: "env_ok E" and ok: "world_ok E w" and b: "item_of w b = Some j" and d: "item_of w d = Some k"
    and differ: "\<not> (isStackable (e_items E) k \<and> i_id k = i_id j)"
  shows "player_queryAdd E p (player_getIndexOfThing b (invs w p)) d n 0 w \<noteq> Some RET_NOERROR"
proof
  let ?i = "player_getIndexOfThing b (invs w p)"
  assume q: "player_queryAdd E p ?i d n 0 w = Some RET_NOERROR"
  have f: "\<not> hasFlags 0 FLAG_CHILDISOWNER" by (simp add: hasFlags_def)
  note facts = player_add_facts [OF env ok d f q]
  have r: "1 \<le> ?i" "?i \<le> 10" using facts by (auto simp: may_move_def slot_suits_def)
  have "nothing_twice (invs w p)" using ok by (simp add: world_ok_def slots_agree_def)
  then have "inventory (invs w p) ?i = Some b" using player_index [of "invs w p" b] r by fastforce
  then have "isStackable (e_items E) j \<and> i_id j = i_id k" using facts b r by (auto simp: player_getThing_def)
  then show False using differ stackable_same by metis
qed

lemma count_left:
  assumes "unat (c :: u8) \<le> 100"
  shows "unat (100 - ucast c :: u32) = 100 - unat c"
proof -
  have "unat (100 - ucast c :: u32) = unat (100 :: u32) - unat (ucast c :: u32)"
    using assms by (intro unat_sub) (simp add: word_le_nat_alt)
  then show ?thesis by simp
qed

lemma world_counts:
  "world_ok E w \<Longrightarrow> item_of w b = Some j \<Longrightarrow> 1 \<le> unat (i_count j) \<and> (isStackable (e_items E) j \<longrightarrow> unat (i_count j) \<le> 100)"
  by (auto simp: world_ok_def counts_ok_def)

lemma player_max_facts:
  assumes ok: "world_ok E w" and j: "item_of w b = Some j"
  shows "\<exists>r q. player_queryMaxCount E p i b n w = Some (r, q)"
    and "player_queryMaxCount E p i b n w = Some (r, q) \<Longrightarrow> \<not> has_room (OnCreature p) i w \<Longrightarrow>
      (if isStackable (e_items E) j then unat q \<le> free_room (player_getThing i (invs w p)) (i_id j) w else q = 0 \<and> (n \<noteq> 0 \<longrightarrow> r \<noteq> RET_NOERROR))"
    and "player_queryMaxCount E p i b n w = Some (RET_NOERROR, q) \<Longrightarrow> isStackable (e_items E) j \<Longrightarrow> unat n \<le> 100 \<Longrightarrow> n \<le> q"
    and "player_queryMaxCount E p i b n w = Some (r, q) \<Longrightarrow> has_room (OnCreature p) i w \<Longrightarrow> isStackable (e_items E) j \<Longrightarrow> q = 100"
proof -
  have ex: "\<exists>k. item_of w d = Some k" if d: "player_getThing i (invs w p) = Some d" for d
    using d worn_item [OF ok, of i p d] by (auto simp: player_getThing_def split: if_splits)
  then show "\<exists>r q. player_queryMaxCount E p i b n w = Some (r, q)"
    using j by (cases "player_getThing i (invs w p)") (fastforce simp: player_queryMaxCount_def Let_def)+
  show "if isStackable (e_items E) j then unat q \<le> free_room (player_getThing i (invs w p)) (i_id j) w else q = 0 \<and> (n \<noteq> 0 \<longrightarrow> r \<noteq> RET_NOERROR)"
    if q: "player_queryMaxCount E p i b n w = Some (r, q)" and full: "\<not> has_room (OnCreature p) i w"
  proof -
    obtain d where d: "player_getThing i (invs w p) = Some d" using full by (auto simp: has_room_def)
    obtain k where k: "item_of w d = Some k" using ex d by blast
    have m: "q = (if isStackable (e_items E) k \<and> i_id j = i_id k then 100 - ucast (i_count k) else 0)" "r = (if q < n then RET_NOTENOUGHROOM else RET_NOERROR)"
      using q d k j by (auto simp: player_queryMaxCount_def Let_def)
    show ?thesis
    proof (cases "isStackable (e_items E) j")
      case True
      have "i_id j = i_id k \<Longrightarrow> unat (100 - ucast (i_count k) :: u32) = 100 - unat (i_count k)"
        using count_left world_counts [OF ok k] True stackable_same by metis
      then show ?thesis using True m(1) d k by (simp add: free_room_def)
    next
      case False
      have "\<not> (isStackable (e_items E) k \<and> i_id j = i_id k)" using False stackable_same by metis
      then show ?thesis using False m by (auto simp: word_gt_0)
    qed
  qed
  show "n \<le> q" if "player_queryMaxCount E p i b n w = Some (RET_NOERROR, q)" "isStackable (e_items E) j" "unat n \<le> 100"
  proof (cases "player_getThing i (invs w p)")
    case None
    then show ?thesis using that j by (auto simp: player_queryMaxCount_def word_le_nat_alt)
  next
    case (Some d)
    then obtain k where "item_of w d = Some k" using ex by blast
    then show ?thesis using that(1) j Some by (simp add: player_queryMaxCount_def Let_def not_less split: if_splits)
  qed
  show "q = 100" if "player_queryMaxCount E p i b n w = Some (r, q)" "has_room (OnCreature p) i w" "isStackable (e_items E) j"
    using that j by (simp add: player_queryMaxCount_def has_room_def)
qed

lemma full_container:
  assumes "length (itemlist c) \<le> unat (maxSize c)" "unat (maxSize c) < 65536" "\<not> length (itemlist c) < unat (maxSize c)"
  shows "freeSlots c = 0"
proof -
  have "capacity c = size_of c" using assms by (simp add: capacity_def size_of_def)
  then show ?thesis by (simp add: freeSlots_def)
qed

lemma getThing_in: "getThing i c = Some d \<Longrightarrow> d \<in> set (itemlist c)"
  by (auto simp: getThing_def split: if_splits)

lemma lies_at_held: "world_ok E w \<Longrightarrow> lies_at c i (Some d) w \<Longrightarrow> holder_of w d = Some c \<and> item_of w d \<noteq> None"
proof (cases c)
  case (InContainer a)
  assume ok: "world_ok E w" and t: "lies_at c i (Some d) w"
  have inv: "container_inv (e_items E) (heap w)" using ok by (simp add: world_ok_def)
  obtain x where "get_body a (heap w) = Some x" "d \<in> set (itemlist x)" using t InContainer getThing_in by (auto simp: lies_at_def split: if_splits)
  then have "holder_of w d = Some c" using held_in(2) [OF inv] InContainer by blast
  then show ?thesis by (auto simp: holder_of_def item_of_def Option.bind_eq_Some_conv)
next
  case (OnCreature p)
  assume ok: "world_ok E w" and t: "lies_at c i (Some d) w"
  have s: "1 \<le> i" "i \<le> 10" "inventory (invs w p) i = Some d" using t OnCreature by (auto simp: lies_at_def player_getThing_def split: if_splits)
  then have "wears (invs w p) d" by (auto simp: wears_def)
  then have "holder_of w d = Some c" using ok OnCreature by (simp add: world_ok_def slots_agree_def)
  then show ?thesis by (auto simp: holder_of_def item_of_def Option.bind_eq_Some_conv)
qed (simp add: lies_at_def)

lemma container_max_facts:
  assumes ok: "world_ok E w" and j: "item_of w b = Some j" and a: "get_body a (heap w) = Some c"
  shows "\<exists>r q. queryMaxCount (e_items E) a i (ItemThing b) n f (heap w) = Some (r, q)"
    and "queryMaxCount (e_items E) a i (ItemThing b) n f (heap w) = Some (r, q) \<Longrightarrow> plain_flags f \<Longrightarrow> lies_at (InContainer a) i t w \<Longrightarrow>
      \<not> has_room (InContainer a) i w \<Longrightarrow>
      (if isStackable (e_items E) j then unat q \<le> free_room t (i_id j) w else q = 0 \<and> (n \<noteq> 0 \<longrightarrow> r \<noteq> RET_NOERROR))"
    and "queryMaxCount (e_items E) a i (ItemThing b) n f (heap w) = Some (RET_NOERROR, q) \<Longrightarrow> plain_flags f \<Longrightarrow> isStackable (e_items E) j \<Longrightarrow> n \<le> q"
    and "queryMaxCount (e_items E) a i (ItemThing b) n 0 (heap w) = Some (r, q) \<Longrightarrow> i = -1 \<Longrightarrow> n \<noteq> 0 \<Longrightarrow> r = RET_NOERROR \<or> q \<noteq> 0 \<Longrightarrow>
      has_room (InContainer a) k w"
proof -
  have inv: "container_inv (e_items E) (heap w)" and nf: "not_overfull (heap w)" using ok by (simp_all add: world_ok_def)
  have len: "length (itemlist c) \<le> unat (maxSize c)" "unat (maxSize c) < 65536" using nf a unfolding not_overfull_def by blast+
  obtain ob where ob: "heap w b = Some ob" "o_item ob = j" using j by (auto simp: item_of_def)
  have held: "\<exists>k. heap w d = Some k" if "getThing x c = Some d" for x d
  proof -
    have "holder_of w d = Some (InContainer a)" using held_in(2) [OF inv a] getThing_in [OF that] by blast
    then show ?thesis by (auto simp: holder_of_def Option.bind_eq_Some_conv)
  qed
  show "\<exists>r q. queryMaxCount (e_items E) a i (ItemThing b) n f (heap w) = Some (r, q)"
    using a ob held [of "word_of_int i"] by (cases "getThing (word_of_int i) c") (fastforce simp: queryMaxCount_def Let_def)+
  show "if isStackable (e_items E) j then unat q \<le> free_room t (i_id j) w else q = 0 \<and> (n \<noteq> 0 \<longrightarrow> r \<noteq> RET_NOERROR)"
    if q: "queryMaxCount (e_items E) a i (ItemThing b) n f (heap w) = Some (r, q)" and f: "plain_flags f" and t: "lies_at (InContainer a) i t w"
      and full: "\<not> has_room (InContainer a) i w"
  proof -
    have z: "freeSlots c = 0" using full_container [OF len] full a by (simp add: has_room_def)
    have tt: "t = (if i = -1 then None else getThing (word_of_int i) c)" using t a by (simp add: lies_at_def)
    show ?thesis
    proof (cases "isStackable (e_items E) j")
      case False
      then show ?thesis using q f a ob z by (auto simp: queryMaxCount_def plain_flags_def Let_def)
    next
      case True
      show ?thesis
      proof (cases t)
        case None
        then have "q = 0" using q f a ob z True tt by (auto simp: queryMaxCount_def plain_flags_def Let_def split: if_splits)
        then show ?thesis using True by simp
      next
        case (Some d)
        then have g: "i \<noteq> -1" "getThing (word_of_int i) c = Some d" using tt by (auto split: if_splits)
        obtain k where k: "heap w d = Some k" using held g(2) by blast
        have "q = (if i_id (o_item k) = i_id j then 100 - ucast (i_count (o_item k)) else 0)"
          using q f a ob z True g k by (auto simp: queryMaxCount_def plain_flags_def Let_def)
        moreover have kd: "item_of w d = Some (o_item k)" using k by (simp add: item_of_def)
        moreover have "i_id (o_item k) = i_id j \<Longrightarrow> unat (100 - ucast (i_count (o_item k)) :: u32) = 100 - unat (i_count (o_item k))"
          using count_left world_counts [OF ok kd] True stackable_same by metis
        ultimately show ?thesis using True Some by (simp add: free_room_def)
      qed
    qed
  qed
  show "n \<le> q" if "queryMaxCount (e_items E) a i (ItemThing b) n f (heap w) = Some (RET_NOERROR, q)" "plain_flags f" "isStackable (e_items E) j"
    using that a ob by (auto simp: queryMaxCount_def plain_flags_def Let_def Option.bind_eq_Some_conv split: if_splits)
  show "has_room (InContainer a) k w"
    if "queryMaxCount (e_items E) a i (ItemThing b) n 0 (heap w) = Some (r, q)" "i = -1" "n \<noteq> 0" "r = RET_NOERROR \<or> q \<noteq> 0"
  proof (rule ccontr)
    assume "\<not> has_room (InContainer a) k w"
    then have z: "freeSlots c = 0" using full_container [OF len] a by (simp add: has_room_def)
    show False
      using that a ob z by (auto simp: queryMaxCount_def hasFlags_def Let_def word_gt_0 split: if_splits)
  qed
qed

text \<open>The answers to a removal, the places of things, and whether a cylinder was removed.\<close>

lemma container_queries:
  assumes ok: "world_ok E w" and j: "item_of w b = Some j" and a: "get_body a (heap w) = Some c"
  shows "\<exists>r. queryRemove (e_items E) a (ItemThing b) n f (heap w) = Some r"
    and "queryRemove (e_items E) a (ItemThing b) n f (heap w) = Some RET_NOERROR \<Longrightarrow>
      holder_of w b = Some (InContainer a) \<and> n \<noteq> 0 \<and> (isStackable (e_items E) j \<longrightarrow> n \<le> ucast (i_count j))"
proof -
  have inv: "container_inv (e_items E) (heap w)" using ok by (simp add: world_ok_def)
  obtain ob where ob: "heap w b = Some ob" "o_item ob = j" using j by (auto simp: item_of_def)
  show "\<exists>r. queryRemove (e_items E) a (ItemThing b) n f (heap w) = Some r" using a ob by (simp add: queryRemove_def)
  assume q: "queryRemove (e_items E) a (ItemThing b) n f (heap w) = Some RET_NOERROR"
  have nf: "x \<notin> set xs \<Longrightarrow> index_from x xs m = -1" for x :: nat and xs m by (induction xs arbitrary: m) auto
  have "b \<in> set (itemlist c)" using q a nf by (auto simp: queryRemove_def getIndexOfThing_def split: if_splits)
  then have "holder_of w b = Some (InContainer a)" using held_in(2) [OF inv a] by blast
  then show "holder_of w b = Some (InContainer a) \<and> n \<noteq> 0 \<and> (isStackable (e_items E) j \<longrightarrow> n \<le> ucast (i_count j))"
    using q a ob by (auto simp: queryRemove_def split: if_splits)
qed

lemma player_queries:
  assumes ok: "world_ok E w" and j: "item_of w b = Some j"
  shows "\<exists>r. player_queryRemove E p b n f w = Some r"
    and "player_queryRemove E p b n f w = Some RET_NOERROR \<Longrightarrow>
      holder_of w b = Some (OnCreature p) \<and> n \<noteq> 0 \<and> (isStackable (e_items E) j \<longrightarrow> n \<le> ucast (i_count j))"
proof -
  show "\<exists>r. player_queryRemove E p b n f w = Some r" using j by (simp add: player_queryRemove_def)
  assume q: "player_queryRemove E p b n f w = Some RET_NOERROR"
  have "nothing_twice (invs w p)" using ok by (simp add: world_ok_def slots_agree_def)
  then have "wears (invs w p) b" using q player_index(2) [of "invs w p" b] by (auto simp: player_queryRemove_def split: if_splits)
  then have "holder_of w b = Some (OnCreature p)" using ok by (simp add: world_ok_def slots_agree_def)
  then show "holder_of w b = Some (OnCreature p) \<and> n \<noteq> 0 \<and> (isStackable (e_items E) j \<longrightarrow> n \<le> ucast (i_count j))"
    using q j by (auto simp: player_queryRemove_def split: if_splits)
qed

lemma is_removed_answers:
  assumes l: "links_ok h" and a: "h a \<noteq> None"
  shows "\<exists>r. is_removed gone (Some (InContainer a)) h = Some r"
proof -
  have "rooted (parent_of h) a" using linksD(4) [OF l [unfolded links_ok_def]] .
  then show ?thesis using a
  proof (induction rule: rooted.induct)
    case (root a)
    then obtain ob where ob: "h a = Some ob" by blast
    have n: "o_parent ob \<noteq> Some (InContainer x)" for x using root ob by (auto simp: parent_of_def)
    have "\<exists>r. is_removed gone (o_parent ob) h = Some r"
    proof (cases "o_parent ob")
      case None
      show ?thesis unfolding None by (rule exI [of _ True]) (subst is_removed.simps, simp)
    next
      case (Some c)
      then show ?thesis using n unfolding Some by (subst is_removed.simps) (auto split: Holder.splits)
    qed
    then show ?case using ob by (subst is_removed.simps) (simp add: getParent_def)
  next
    case (inside a p)
    then obtain ob where ob: "h a = Some ob" by blast
    then have up: "o_parent ob = Some (InContainer p)" using inside by (auto simp: parent_of_def split: option.splits Holder.splits)
    have "h p \<noteq> None" using parent_exists [OF l] inside by blast
    then show ?case using inside.IH up ob by (subst is_removed.simps) (simp add: getParent_def)
  qed
qed

text \<open>What may come by a move may also be put there, once it has left its place or is only a part of what was asked for.\<close>

lemma suits_itself: "\<not> has_slot E k SLOTP_TWO_HAND \<Longrightarrow> \<not> is_weapon E k \<Longrightarrow> hands_apart E k k"
  by (simp add: hands_apart_def)

lemma moved_may_take:
  assumes m: "may_move E (OnCreature q) i b n w" and j: "item_of w b = Some j" and it: "item_of w' = item_of w"
    and inv: "\<And>i'. 1 \<le> i' \<Longrightarrow> i' \<le> 10 \<Longrightarrow> inventory (invs w' q) i' = (if inventory (invs w q) i' = Some b then None else inventory (invs w q) i')"
  shows "may_take E (OnCreature q) i (i_id j) w'"
proof -
  have "hands_apart E (i_id j) (i_id k)" if o: "other_hand i = Some i'" "inventory (invs w' q) i' = Some d" "item_of w' d = Some k" for i' d k
  proof -
    have "1 \<le> i'" "i' \<le> 10" using o(1) by (auto simp: other_hand_def split: if_splits)
    then have "inventory (invs w q) i' = Some d" "d \<noteq> b" using inv [of i'] o(2) by (auto split: if_splits)
    then show ?thesis using m o(1,3) j it by (auto simp: may_move_def)
  qed
  then show ?thesis using m j by (auto simp: may_move_def may_take_def)
qed

lemma part_may_take:
  assumes env: "env_ok E" and m: "may_move E (OnCreature q) i b n w" and j: "item_of w b = Some j" and st: "isStackable (e_items E) j"
    and part: "n \<noteq> ucast (i_count j)"
  shows "may_take E (OnCreature q) i (i_id j) w"
proof -
  have "\<not> has_slot E (i_id j) SLOTP_TWO_HAND" using env st by (simp add: env_ok_def isStackable_def item_type_def)
  then show ?thesis using m j part suits_itself [of E "i_id j"] by (fastforce simp: may_move_def may_take_def)
qed

lemma loose_may_take:
  assumes ok: "world_ok E w" and m: "may_move E c i b n w" and j: "item_of w b = Some j" and loose: "holder_of w b = None"
  shows "may_take E c i (i_id j) w"
proof (cases c)
  case (OnCreature q)
  have "inventory (invs w q) k \<noteq> Some b" if "1 \<le> k" "k \<le> 10" for k
  proof
    assume "inventory (invs w q) k = Some b"
    then have "wears (invs w q) b" using that by (auto simp: wears_def)
    then show False using ok loose by (metis option.distinct(1) slots_agree_def world_ok_def)
  qed
  then show ?thesis using moved_may_take [of E q i b n w j w] m j OnCreature by simp
qed (use m in \<open>auto simp: may_move_def may_take_def\<close>)

lemma left_may_take:
  assumes ok: "world_ok E w" and j: "item_of w b = Some j" and c: "is_cyl c w" and it: "item_of w' = item_of w" and keeps: "keeps_all E w w'"
    and inv: "\<And>q i. 1 \<le> i \<Longrightarrow> i \<le> 10 \<Longrightarrow> inventory (invs w' q) i = (if inventory (invs w q) i = Some b then None else inventory (invs w q) i)"
    and m: "may_move E c i b n w"
  shows "may_take E c i (i_id j) w'"
proof (cases c)
  case (OnCreature q)
  then show ?thesis using moved_may_take [of E q i b n w j w'] m j it inv by blast
next
  case (InContainer a)
  then have "may_take E c i (i_id j) w" using m by (simp add: may_move_def may_take_def)
  then show ?thesis using keeps c by (simp add: keeps_all_def)
qed (use c in \<open>simp add: is_cyl_def\<close>)

lemma worn_only_there:
  assumes ok: "world_ok E w" and held: "holder_of w b = Some c" and i: "1 \<le> i" "i \<le> 10" "inventory (invs w q) i = Some b"
  shows "c = OnCreature q"
proof -
  have "wears (invs w q) b" using i by (auto simp: wears_def)
  then show ?thesis using ok held by (metis option.inject slots_agree_def world_ok_def)
qed

section \<open>Where an item goes\<close>

lemma slot_exists:
  assumes "world_ok E w" "i \<in> set [1..10]" "inventory (invs w p) i = Some d"
  shows "\<exists>ob. heap w d = Some ob"
proof -
  have "1 \<le> i" "i \<le> 10" using assms(2) by (simp_all add: set_upto)
  then show ?thesis using worn_item [OF assms(1) _ _ assms(3)] by (auto simp: item_of_def)
qed

lemma body_of: "heap w d = Some ob \<Longrightarrow> o_body ob \<noteq> None \<Longrightarrow> \<exists>c. get_body d (heap w) = Some c"
  by (simp add: get_body_def)

lemma find_free_slot_result:
  assumes ok: "world_ok E w" and b: "item_of w b \<noteq> None"
  shows "\<exists>r. find_free_slot E p b n is w = Some r \<and> (\<forall>i. r = Some i \<longrightarrow> inventory (invs w p) i = None)"
proof (induction "is")
  case (Cons i ks)
  obtain r where "player_queryAdd E p i b n 0 w = Some r" using player_add_answers [OF ok b] by blast
  then show ?case using Cons by (cases "r = RET_NOERROR") auto
qed simp

lemma find_container_result:
  assumes ok: "world_ok E w" and b: "item_of w b \<noteq> None"
  shows "set is \<subseteq> set [1..10] \<Longrightarrow> \<exists>r. find_container E p b n is w = Some r \<and>
    (\<forall>d \<in> (case r of Inl d \<Rightarrow> {d} | Inr ds \<Rightarrow> set ds). \<exists>c. get_body d (heap w) = Some c)"
proof (induction "is")
  case (Cons i ks)
  obtain r where r: "find_container E p b n ks w = Some r" "\<forall>d \<in> (case r of Inl d \<Rightarrow> {d} | Inr ds \<Rightarrow> set ds). \<exists>c. get_body d (heap w) = Some c"
    using Cons by auto
  show ?case
  proof (cases "inventory (invs w p) i")
    case (Some d)
    obtain ob where ob: "heap w d = Some ob" using slot_exists [OF ok _ Some] Cons.prems by auto
    show ?thesis
    proof (cases "tradeItem (invs w p) = Some d \<or> o_body ob = None")
      case False
      then obtain c where c: "get_body d (heap w) = Some c" using body_of ob by blast
      obtain j where j: "item_of w b = Some j" using b by blast
      obtain q where q: "container_queryAdd E d (-1) b n 0 w = Some q" using container_add_facts(1) [OF ok c j] by blast
      show ?thesis
      proof (cases "q = RET_NOERROR")
        case False
        have "\<forall>x \<in> (case map_sum id ((#) d) r of Inl d \<Rightarrow> {d} | Inr ds \<Rightarrow> set ds). \<exists>c. get_body x (heap w) = Some c"
          using r(2) c by (cases r) auto
        then show ?thesis using Some False \<open>\<not> (tradeItem (invs w p) = Some d \<or> o_body ob = None)\<close> ob q r(1) by auto
      qed (use Some False ob q c in auto)
    qed (use Some ob r in auto)
  qed (use r in auto)
qed simp

lemma find_inside_result:
  assumes ok: "world_ok E w" and b: "item_of w b \<noteq> None"
  shows "iter_inv (heap w) it \<Longrightarrow> finite (to_visit (heap w) it) \<Longrightarrow>
    \<exists>r. find_inside E p b n it w = Some r \<and> (\<forall>d. r = Some d \<longrightarrow> (\<exists>c. get_body d (heap w) = Some c))"
proof (induction "card (to_visit (heap w) it)" arbitrary: it rule: less_induct)
  case less
  show ?case
  proof (cases "over it = []")
    case True
    then show ?thesis by (subst find_inside.simps) (simp add: iter_at_end_def)
  next
    case False
    obtain it' d where s: "iter_next (heap w) it = Some it'" "iter_item it = Some d" "iter_inv (heap w) it'"
      "to_visit (heap w) it = insert d (to_visit (heap w) it')" "d \<notin> to_visit (heap w) it'"
      using iter_next_step [OF world_links [OF ok] less.prems(1) False] by blast
    have "heap w d \<noteq> None" using less.prems(1) s(2) False by (auto simp: iter_inv_def iter_item_def split: list.splits)
    then obtain ob where ob: "heap w d = Some ob" by blast
    have fin: "finite (to_visit (heap w) it')" "card (to_visit (heap w) it) = Suc (card (to_visit (heap w) it'))"
      using less.prems(2) s(4,5) by auto
    have ih: "\<exists>r. find_inside E p b n it' w = Some r \<and> (\<forall>d. r = Some d \<longrightarrow> (\<exists>c. get_body d (heap w) = Some c))"
      using less.hyps [of it'] s(3) fin by simp
    obtain j where j: "item_of w b = Some j" using b by blast
    show ?thesis
    proof (cases "tradeItem (invs w p) \<noteq> Some d \<and> o_body ob \<noteq> None")
      case True
      then obtain c where c: "get_body d (heap w) = Some c" using body_of ob by blast
      obtain q where q: "container_queryAdd E d (-1) b n 0 w = Some q" using container_add_facts(1) [OF ok c j] by blast
      show ?thesis using ih True False s(1,2) ob q c by (subst find_inside.simps) (auto simp: iter_at_end_def)
    next
      case no: False
      show ?thesis using ih no False s(1,2) ob by (subst find_inside.simps) (auto simp: iter_at_end_def)
    qed
  qed
qed

lemma find_deeper_result:
  assumes ok: "world_ok E w" and b: "item_of w b \<noteq> None"
  shows "\<forall>d \<in> set as. \<exists>c. get_body d (heap w) = Some c \<Longrightarrow>
    \<exists>r. find_deeper E p b n as w = Some r \<and> (\<forall>d. r = Some d \<longrightarrow> (\<exists>c. get_body d (heap w) = Some c))"
proof (induction as)
  case (Cons a as)
  then obtain c where c: "get_body a (heap w) = Some c" by auto
  note l = world_links [OF ok]
  obtain it where it: "iter_begin a (heap w) = Some it" "iter_inv (heap w) it" "to_visit (heap w) it = inside_of (parent_of (heap w)) {a}"
    using iter_begin_inv [OF l c] by blast
  have "inside_of (parent_of (heap w)) {a} \<subseteq> dom (heap w)" by (auto simp: inside_of_def parent_of_def split: option.splits)
  then have "finite (to_visit (heap w) it)" using ok it(3) by (auto simp: world_ok_def intro: finite_subset)
  then obtain r where "find_inside E p b n it w = Some r" "\<And>d. r = Some d \<Longrightarrow> \<exists>c. get_body d (heap w) = Some c"
    using find_inside_result [OF ok b it(2)] by blast
  then show ?case using Cons it(1) by (cases r) auto
qed simp

lemma small_sint: "unat (x :: u32) < 65536 \<Longrightarrow> sint x = int (unat x)"
proof -
  assume "unat x < 65536"
  moreover have u: "int (unat x) = uint x" by simp
  ultimately have "uint x < 65536" by linarith
  then have "uint x < 2 ^ 31" by simp
  then show ?thesis using u by (simp only: sint_u32 if_True)
qed

lemma whole_container:
  assumes "world_ok E w" "get_body x (heap w) = Some y"
  shows "is_cyl (InContainer x) w \<and> lies_at (InContainer x) (-1) None w"
proof -
  have "unat (maxSize y) < 65536" using assms unfolding world_ok_def not_overfull_def by blast
  from small_sint [OF this] have "-1 < sint (maxSize y)" by linarith
  then show ?thesis using assms(2) by (simp add: is_cyl_def lies_at_def capacity_def)
qed

lemma container_destination:
  assumes ok: "world_ok E w" and a: "get_body a (heap w) = Some c"
  shows "\<exists>a' i' t. queryDestination a i None (heap w) = Some (a', i', t) \<and> is_cyl (InContainer a') w \<and>
    lies_at (InContainer a') i' t w \<and> (a' \<noteq> a \<longrightarrow> t = None)"
proof -
  have inv: "container_inv (e_items E) (heap w)" using ok by (simp add: world_ok_def)
  note whole = whole_container [OF ok]
  obtain oa where oa: "heap w a = Some oa" using a by (auto simp: get_body_def Option.bind_eq_Some_conv)
  consider (up) "i = 254" | (whole) "i = 255 \<or> i \<noteq> 254 \<and> (sint (capacity c) \<le> i \<or> i = -1)"
    | (at) "i \<noteq> 254" "i \<noteq> 255" "i < sint (capacity c)" "i \<noteq> -1" by linarith
  then show ?thesis
  proof cases
    case up
    obtain u where u: "getParentContainer a (heap w) = Some u" "\<And>p. u = Some p \<Longrightarrow> \<exists>y. get_body p (heap w) = Some y"
    proof -
      have "getParentContainer a (heap w) = Some (parent_of (heap w) a)" by (rule getParentContainer_parent [OF world_links [OF ok] oa])
      moreover have "\<exists>y. get_body p (heap w) = Some y" if "parent_of (heap w) a = Some p" for p
        using linksD(3) [OF inv_container(3) [OF inv] that] by (auto simp: contents_def)
      ultimately show ?thesis by (rule that)
    qed
    then show ?thesis using up whole a by (cases u) (auto simp: queryDestination_def)
  next
    case whole': whole
    then show ?thesis using whole [OF a] a by (auto simp: queryDestination_def Let_def)
  next
    case at
    show ?thesis
    proof (cases "getThing (word_of_int i) c")
      case None
      then show ?thesis using at a by (auto simp: queryDestination_def Let_def is_cyl_def lies_at_def)
    next
      case (Some d)
      have "holder_of w d = Some (InContainer a)" using held_in(2) [OF inv a] getThing_in [OF Some] by blast
      then obtain ob where ob: "heap w d = Some ob" by (auto simp: holder_of_def Option.bind_eq_Some_conv)
      show ?thesis
      proof (cases "o_body ob")
        case None
        then show ?thesis using Some at a ob by (auto simp: queryDestination_def Let_def is_cyl_def lies_at_def)
      next
        case (Some y)
        then have "get_body d (heap w) = Some y" using ob by (simp add: get_body_def)
        then show ?thesis using Some \<open>getThing (word_of_int i) c = Some d\<close> at a ob whole by (auto simp: queryDestination_def Let_def)
      qed
    qed
  qed
qed

lemma player_destination:
  assumes ok: "world_ok E w" and b: "item_of w b \<noteq> None"
  shows "\<exists>c' i' t. player_queryDestination E p i b None w = Some (c', i', t) \<and> is_cyl c' w \<and> lies_at c' i' t w \<and> (c' \<noteq> OnCreature p \<longrightarrow> t = None)"
proof -
  note whole = whole_container [OF ok]
  show ?thesis
  proof (cases "i = 0 \<or> i = -1")
    case any: True
    obtain n where n: "item_count b w = Some n" using b by (auto simp: item_count_def)
    obtain r where r: "find_free_slot E p b n [1..10] w = Some r" "\<And>i. r = Some i \<Longrightarrow> inventory (invs w p) i = None"
      using find_free_slot_result [OF ok b, of p n "[1..10]"] by blast
    show ?thesis
    proof (cases r)
      case (Some k)
      then have "player_getThing k (invs w p) = None" using r(2) by (simp add: player_getThing_def)
      then show ?thesis using any n r(1) Some by (auto simp: player_queryDestination_def is_cyl_def lies_at_def)
    next
      case None
      obtain q where q: "find_container E p b n [1..10] w = Some q" "\<forall>d \<in> (case q of Inl d \<Rightarrow> {d} | Inr ds \<Rightarrow> set ds). \<exists>c. get_body d (heap w) = Some c"
        using find_container_result [OF ok b, of "[1..10]" p n] by blast
      show ?thesis
      proof (cases q)
        case (Inl d)
        then obtain y where "get_body d (heap w) = Some y" using q(2) by auto
        then show ?thesis using whole any n r(1) None q(1) Inl by (auto simp: player_queryDestination_def)
      next
        case (Inr ds)
        obtain s where s: "find_deeper E p b n ds w = Some s" "\<And>d. s = Some d \<Longrightarrow> \<exists>c. get_body d (heap w) = Some c"
          using find_deeper_result [OF ok b, of ds p n] q(2) Inr by auto
        show ?thesis
        proof (cases s)
          case no: None
          have "player_getThing i (invs w p) = None" using any by (auto simp: player_getThing_def)
          then show ?thesis using any n r(1) None q(1) Inr s(1) no by (auto simp: player_queryDestination_def is_cyl_def lies_at_def)
        next
          case (Some d)
          then obtain y where "get_body d (heap w) = Some y" using s(2) by blast
          then show ?thesis using whole any n r(1) None q(1) Inr s(1) Some by (auto simp: player_queryDestination_def)
        qed
      qed
    qed
  next
    case at: False
    show ?thesis
    proof (cases "player_getThing i (invs w p)")
      case None
      then show ?thesis using at by (auto simp: player_queryDestination_def is_cyl_def lies_at_def)
    next
      case (Some d)
      then have "item_of w d \<noteq> None" using lies_at_held [OF ok, of "OnCreature p" i d] by (simp add: lies_at_def)
      then obtain ob where ob: "heap w d = Some ob" by (auto simp: item_of_def)
      show ?thesis
      proof (cases "o_body ob")
        case None
        then show ?thesis using at Some ob by (auto simp: player_queryDestination_def is_cyl_def lies_at_def)
      next
        case (Some y)
        then have "get_body d (heap w) = Some y" using ob by (simp add: get_body_def)
        then show ?thesis using whole at \<open>player_getThing i (invs w p) = Some d\<close> ob Some by (auto simp: player_queryDestination_def)
      qed
    qed
  qed
qed

section \<open>Players and containers satisfy the contract\<close>

text \<open>What the notifications change is the weight that a player carries.\<close>

lemma same_slots:
  assumes h: "heap w' = heap w" and s: "\<And>q. inventory (invs w' q) = inventory (invs w q)"
  shows "world_ok E w' = world_ok E w" "keeps_all E w w'" "lies_at c i t w' = lies_at c i t w"
proof -
  have f: "item_of w' = item_of w" "holder_of w' = holder_of w" using h by (simp_all add: of_world)
  have ws: "wears (invs w' q) = wears (invs w q)" "nothing_twice (invs w' q) = nothing_twice (invs w q)" for q
    by (simp_all add: wears_def nothing_twice_def s fun_eq_iff)
  show "world_ok E w' = world_ok E w"
    by (simp add: world_ok_def counts_ok_def slots_agree_def worn_ok_def h f ws s)
  show "keeps_all E w w'" by (rule keeps_allI) (auto simp: h f s)
  show "lies_at c i t w' = lies_at c i t w" unfolding lies_at_def player_getThing_def h s ..
qed

lemma weight_kept: "heap (updateInventoryWeigth items p w) = heap w" "inventory (invs (updateInventoryWeigth items p w) q) = inventory (invs w q)"
  by (simp_all add: updateInventoryWeigth_def)

lemma notify_result:
  assumes ok: "world_ok E w" and a: "get_body a (heap w) \<noteq> None"
  shows "\<exists>w'. container_notify E a w = Some w' \<and> heap w' = heap w \<and> (\<forall>q. inventory (invs w' q) = inventory (invs w q))"
proof -
  have "heap w a \<noteq> None" using a by (cases "heap w a") (simp_all add: get_body_def)
  then obtain t where t: "getTopParent (e_creature_tile E) a (heap w) = Some t" using getTopParent_answers [OF world_links [OF ok]] by blast
  show ?thesis
  proof (cases t)
    case (OnCreature p)
    show ?thesis
      by (rule exI [of _ "updateInventoryWeigth (e_items E) p w"]) (simp add: container_notify_def t OnCreature weight_kept)
  qed (simp_all add: container_notify_def t)
qed

lemma told_result:
  assumes ok: "world_ok E w" and c: "is_cyl c w"
  shows "\<exists>w'. cyl_postAdd (game_cylinders E) c b q i w = Some w' \<and> cyl_postRemove (game_cylinders E) c b q i g w = Some w' \<and>
    heap w' = heap w \<and> world_ok E w' \<and> keeps_all E w w' \<and> (\<forall>c i t. lies_at c i t w \<longrightarrow> lies_at c i t w')"
proof -
  obtain w' where w': "cyl_postAdd (game_cylinders E) c b q i w = Some w'" "cyl_postRemove (game_cylinders E) c b q i g w = Some w'"
    "heap w' = heap w" "\<And>q. inventory (invs w' q) = inventory (invs w q)"
  proof (cases c)
    case (InContainer a)
    then have "get_body a (heap w) \<noteq> None" using c by (simp add: is_cyl_def)
    from notify_result [OF ok this] show ?thesis using that InContainer by (auto simp: game_cylinders_def)
  next
    case (OnCreature p)
    show ?thesis by (rule that [of "updateInventoryWeigth (e_items E) p w"]) (simp_all add: game_cylinders_def OnCreature weight_kept)
  qed (use c in \<open>simp add: is_cyl_def\<close>)
  show ?thesis using w' same_slots [OF w'(3,4)] ok by blast
qed

text \<open>An item may take the place of another in the cylinder it leaves only if that is a container with a free slot.\<close>

lemma home_result:
  assumes env: "env_ok E" and ok: "world_ok E w" and c: "is_cyl c w" and j: "item_of w b = Some j" and k: "item_of w d = Some k"
    and differ: "\<not> (isStackable (e_items E) k \<and> i_id k = i_id j)"
    and i: "cyl_getIndexOfThing (game_cylinders E) c b w = Some i"
    and add: "cyl_queryAdd (game_cylinders E) c i d (ucast (i_count k)) 0 w = Some RET_NOERROR"
    and max: "cyl_queryMaxCount (game_cylinders E) c (-1) d (ucast (i_count k)) 0 w = Some (r, q)" "r = RET_NOERROR \<or> q \<noteq> 0"
  shows "not_inside c d w \<and> has_room c 0 w \<and> may_take E c 0 (i_id k) w \<and> \<not> is_slotted c"
proof (cases c)
  case (OnCreature p)
  have "i = player_getIndexOfThing b (invs w p)" using i OnCreature by (simp add: game_cylinders_def)
  then show ?thesis using add OnCreature player_add_home [OF env ok j k differ, of p "ucast (i_count k)"] by (simp add: game_cylinders_def)
next
  case (InContainer a)
  obtain x where x: "get_body a (heap w) = Some x" using c InContainer by (auto simp: is_cyl_def)
  have f: "\<not> hasFlags 0 FLAG_CHILDISOWNER" by (simp add: hasFlags_def)
  have out: "not_inside c d w"
    using container_add_facts(2) [OF ok x k f, of i "ucast (i_count k)"] add InContainer by (simp add: game_cylinders_def)
  have n: "(ucast (i_count k) :: u32) \<noteq> 0" using world_counts [OF ok k] by (auto simp: word_unat_eq_iff)
  have room: "has_room c 0 w" using container_max_facts(4) [OF ok k x _ refl n max(2)] max(1) InContainer by (simp add: game_cylinders_def)
  have small: "unat (maxSize x) < 65536" using ok x unfolding world_ok_def not_overfull_def by blast
  have "0 < unat (maxSize x)" using room InContainer x by (simp add: has_room_def)
  then have "0 < sint (maxSize x)" using small_sint [OF small] by linarith
  then show ?thesis using out room InContainer x by (simp add: may_take_def capacity_def is_slotted_def)
qed (use c in \<open>simp add: is_cyl_def\<close>)

lemma remove_all_result:
  assumes ok: "world_ok E w" and c: "is_cyl c w" and held: "holder_of w b = Some c" and j: "item_of w b = Some j"
    and all: "\<not> isStackable (e_items E) j \<or> n = ucast (i_count j)"
  shows "\<exists>w'. cyl_removeThing (game_cylinders E) c b n w = Some w' \<and> world_ok E w' \<and> keeps_all E w w' \<and> holder_of w' = (holder_of w)(b := None) \<and>
        item_of w' = item_of w \<and> (\<forall>c' i k. is_cyl c' w \<longrightarrow> may_move E c' i b k w \<longrightarrow> may_take E c' i (i_id j) w') \<and>
        (\<forall>i. is_slotted c \<longrightarrow> lies_at c i (Some b) w \<longrightarrow> lies_at c i None w')"
proof (cases c)
  case (InContainer a)
  obtain w' where w': "on_heap (removeThing (e_items E) a (ItemThing b) n) w = Some w'" "world_ok E w'" "keeps_all E w w'"
        "holder_of w' = (holder_of w)(b := None)" "item_of w' = item_of w" "invs w' = invs w"
    using container_remove_ok(1) [OF ok held [unfolded InContainer] j all] by blast
  have "inventory (invs w' q) i = (if inventory (invs w q) i = Some b then None else inventory (invs w q) i)" if "1 \<le> i" "i \<le> 10" for q i
    using worn_only_there [OF ok held that, of q] w'(6) InContainer by auto
  then have "\<forall>c' i k. is_cyl c' w \<longrightarrow> may_move E c' i b k w \<longrightarrow> may_take E c' i (i_id j) w'"
    using left_may_take [OF ok j _ w'(5,3)] by blast
  moreover have "\<not> is_slotted c" by (simp add: InContainer is_slotted_def)
  ultimately show ?thesis using w' InContainer unfolding game_cylinders_def by (intro exI [of _ w']) simp
next
  case (OnCreature p)
  obtain w' where w': "player_removeThing E p b n w = Some w'" "world_ok E w'" "keeps_all E w w'"
        "holder_of w' = (holder_of w)(b := None)" "item_of w' = item_of w"
        "\<And>q i. inventory (invs w' q) i = (if inventory (invs w q) i = Some b \<and> q = p \<and> 1 \<le> i \<and> i \<le> 10 then None else inventory (invs w q) i)"
    using player_remove_ok(1) [OF ok held [unfolded OnCreature] j all] by blast
  have "inventory (invs w' q) i = (if inventory (invs w q) i = Some b then None else inventory (invs w q) i)" if "1 \<le> i" "i \<le> 10" for q i
    using worn_only_there [OF ok held that, of q] w'(6) that OnCreature by auto
  then have "\<forall>c' i k. is_cyl c' w \<longrightarrow> may_move E c' i b k w \<longrightarrow> may_take E c' i (i_id j) w'"
    using left_may_take [OF ok j _ w'(5,3)] by blast
  moreover have "lies_at c i None w'" if "lies_at c i (Some b) w" for i
    using that w'(6) OnCreature by (auto simp: lies_at_def player_getThing_def split: if_splits)
  ultimately show ?thesis using w'(1-5) OnCreature unfolding game_cylinders_def by (intro exI [of _ w']) simp
qed (use c in \<open>simp add: is_cyl_def\<close>)

section \<open>The laws for the virtual functions\<close>

lemma cyl_cases [consumes 1, case_names container player]:
  assumes "is_cyl c w"
  obtains a x where "c = InContainer a" "get_body a (heap w) = Some x" | p where "c = OnCreature p"
  using assms by (cases c) (auto simp: is_cyl_def)

lemmas gc = game_cylinders_def

lemma keeps_refl: "keeps_all E w w" by (simp add: keeps_all_def)

lemma keeps_trans: "keeps_all E w w1 \<Longrightarrow> keeps_all E w1 w2 \<Longrightarrow> keeps_all E w w2"
  unfolding keeps_all_def by blast

lemma keeps_parts:
  assumes "keeps_all E w w1" "is_cyl c w"
  shows "is_cyl c w1" "has_room c i w \<Longrightarrow> has_room c i w1" "not_inside c b w \<Longrightarrow> not_inside c b w1" "may_take E c i k w \<Longrightarrow> may_take E c i k w1"
  using assms unfolding keeps_all_def by blast+

lemma world_finite: "world_ok E w \<Longrightarrow> finite (dom (holder_of w))"
proof -
  assume "world_ok E w"
  then have "finite (dom (heap w))" by (simp add: world_ok_def)
  moreover have "dom (holder_of w) \<subseteq> dom (heap w)" by (auto simp: holder_of_def Option.bind_eq_Some_conv)
  ultimately show ?thesis by (rule finite_subset [rotated])
qed

lemma law_destination:
  assumes ok: "world_ok E w" and c: "is_cyl c w" and b: "item_of w b \<noteq> None"
  shows "\<exists>c' i' t f'. cyl_queryDestination (game_cylinders E) c i b None f w = Some (c', i', t, f') \<and> is_cyl c' w \<and> lies_at c' i' t w \<and>
        (c' \<noteq> c \<longrightarrow> t = None) \<and> (plain_flags f \<longrightarrow> plain_flags f')"
  using c
proof (cases rule: cyl_cases)
  case (container a x)
  then show ?thesis using container_destination [OF ok container(2), of i] by (auto simp: gc)
next
  case (player p)
  then show ?thesis using player_destination [OF ok b, of p i] by (auto simp: gc)
qed

lemma law_slot_taken: "is_slotted c \<Longrightarrow> lies_at c i (Some d) w \<Longrightarrow> \<not> has_room c i w"
  by (cases c) (auto simp: cyl_defs dest: sym)

lemma law_add_answers:
  assumes ok: "world_ok E w" and c: "is_cyl c w" and b: "item_of w b \<noteq> None"
  shows "\<exists>r. cyl_queryAdd (game_cylinders E) c i b n f w = Some r"
proof -
  obtain j where j: "item_of w b = Some j" using b by blast
  show ?thesis using c
  proof (cases rule: cyl_cases)
    case (container a x)
    then show ?thesis using container_add_facts(1) [OF ok container(2) j, of i n f] by (auto simp: gc)
  next
    case (player p)
    then show ?thesis using player_add_answers [OF ok b, of p i n f] by (simp add: gc)
  qed
qed

lemma law_add_allows:
  assumes env: "env_ok E" and ok: "world_ok E w" and c: "is_cyl c w" and b: "item_of w b \<noteq> None" and t: "lies_at c i t w" and f: "plain_flags f"
    and add: "cyl_queryAdd (game_cylinders E) c i b n f w = Some RET_NOERROR"
  shows "not_inside c b w \<and> may_move E c i b n w"
proof -
  obtain j where j: "item_of w b = Some j" using b by blast
  have ff: "\<not> hasFlags f FLAG_CHILDISOWNER" using f by (simp add: plain_flags_def)
  show ?thesis using c
  proof (cases rule: cyl_cases)
    case (container a x)
    then show ?thesis using container_add_facts(2) [OF ok container(2) j ff, of i n] add t by (auto simp: gc may_move_def lies_at_def)
  next
    case (player p)
    then show ?thesis using player_add_facts [OF env ok j ff, of p i n] add by (simp add: gc not_inside_def)
  qed
qed

lemma law_add_exchange:
  assumes env: "env_ok E" and ok: "world_ok E w" and c: "is_cyl c w" and j: "item_of w b = Some j" and t: "lies_at c i t w"
    and add: "cyl_queryAdd (game_cylinders E) c i b n f w = Some RET_NEEDEXCHANGE"
  shows "is_slotted c \<and> (\<exists>d k. t = Some d \<and> item_of w d = Some k \<and> \<not> (isStackable (e_items E) k \<and> i_id k = i_id j))"
  using c
proof (cases rule: cyl_cases)
  case (container a x)
  then show ?thesis using container_add_facts(1) [OF ok container(2) j, of i n f] add by (auto simp: gc)
next
  case (player p)
  then show ?thesis using player_add_exchange [OF env ok j, of p i n f] add t by (auto simp: gc is_slotted_def lies_at_def)
qed

lemma law_max_answers:
  assumes ok: "world_ok E w" and c: "is_cyl c w" and b: "item_of w b \<noteq> None"
  shows "\<exists>r q. cyl_queryMaxCount (game_cylinders E) c i b n f w = Some (r, q)"
proof -
  obtain j where j: "item_of w b = Some j" using b by blast
  show ?thesis using c
  proof (cases rule: cyl_cases)
    case (container a x)
    then show ?thesis using container_max_facts(1) [OF ok j container(2), of i n f] by (simp add: gc)
  next
    case (player p)
    then show ?thesis using player_max_facts(1) [OF ok j, of p i n] by (simp add: gc)
  qed
qed

lemma law_max_room:
  assumes ok: "world_ok E w" and c: "is_cyl c w" and j: "item_of w b = Some j" and t: "lies_at c i t w" and f: "plain_flags f"
    and max: "cyl_queryMaxCount (game_cylinders E) c i b n f w = Some (r, q)" and full: "\<not> has_room c i w"
  shows "if isStackable (e_items E) j then unat q \<le> free_room t (i_id j) w else q = 0 \<and> (n \<noteq> 0 \<longrightarrow> r \<noteq> RET_NOERROR)"
  using c
proof (cases rule: cyl_cases)
  case (container a x)
  then show ?thesis using container_max_facts(2) [OF ok j container(2), of i n f r q t] max t f full by (simp add: gc)
next
  case (player p)
  then have "t = player_getThing i (invs w p)" using t by (simp add: lies_at_def)
  then show ?thesis using player_max_facts(2) [OF ok j, of p i n r q] max full player by (simp add: gc)
qed

lemma law_remove_answers:
  assumes ok: "world_ok E w" and c: "is_cyl c w" and b: "item_of w b \<noteq> None"
  shows "\<exists>r. cyl_queryRemove (game_cylinders E) c b n f w = Some r"
proof -
  obtain j where j: "item_of w b = Some j" using b by blast
  show ?thesis using c
  proof (cases rule: cyl_cases)
    case (container a x)
    then show ?thesis using container_queries(1) [OF ok j container(2), of n f] by (simp add: gc)
  next
    case (player p)
    then show ?thesis using player_queries(1) [OF ok j, of p n f] by (simp add: gc)
  qed
qed

lemma law_index_answers: "is_cyl c w \<Longrightarrow> \<exists>i. cyl_getIndexOfThing (game_cylinders E) c b w = Some i"
  by (cases c) (auto simp: gc is_cyl_def)

lemma law_removed_answers:
  assumes ok: "world_ok E w" and c: "is_cyl c w"
  shows "\<exists>r. cyl_isRemoved (game_cylinders E) c w = Some r"
  using c
proof (cases rule: cyl_cases)
  case (container a x)
  then have "heap w a \<noteq> None" by (cases "heap w a") (simp_all add: get_body_def)
  then show ?thesis using is_removed_answers [OF world_links [OF ok], of a "e_gone E"] container by (simp add: gc)
next
  case (player p)
  have "is_removed (e_gone E) (Some c) (heap w) = Some (e_gone E p)" unfolding player by (subst is_removed.simps) simp
  then show ?thesis by (simp add: gc)
qed

lemma law_remove_allows:
  assumes ok: "world_ok E w" and c: "is_cyl c w" and j: "item_of w b = Some j"
    and q: "cyl_queryRemove (game_cylinders E) c b n f w = Some RET_NOERROR"
  shows "holder_of w b = Some c \<and> n \<noteq> 0 \<and> (isStackable (e_items E) j \<longrightarrow> n \<le> ucast (i_count j))"
  using c
proof (cases rule: cyl_cases)
  case (container a x)
  then show ?thesis using container_queries(2) [OF ok j container(2), of n f] q by (simp add: gc)
next
  case (player p)
  then show ?thesis using player_queries(2) [OF ok j, of p n f] q by (simp add: gc)
qed

lemma law_remove_some:
  assumes ok: "world_ok E w" and c: "is_cyl c w" and held: "holder_of w b = Some c" and j: "item_of w b = Some j"
    and st: "isStackable (e_items E) j" "n \<noteq> 0" "n < ucast (i_count j)"
  shows "\<exists>w'. cyl_removeThing (game_cylinders E) c b n w = Some w' \<and> world_ok E w' \<and> keeps_all E w w' \<and> holder_of w' = holder_of w \<and>
        item_of w' = (item_of w)(b \<mapsto> j\<lparr>i_count := i_count j - ucast n\<rparr>)"
  using c
proof (cases rule: cyl_cases)
  case (container a x)
  show ?thesis using container_remove_ok(2) [OF ok held [unfolded container(1)] j st] container(1) by (auto simp: gc)
next
  case (player p)
  show ?thesis using player_remove_ok(2) [OF ok held [unfolded player] j st] player by (auto simp: gc)
qed

lemma law_fits_part:
  assumes env: "env_ok E" and ok: "world_ok E w" and c: "is_cyl c w" and j: "item_of w b = Some j" and st: "isStackable (e_items E) j"
    and m: "may_move E c i b n w" and room: "has_room c i w"
    and max: "cyl_queryMaxCount (game_cylinders E) c i b n f w = Some (r, q)" and part: "min n q < ucast (i_count j)"
  shows "may_take E c i (i_id j) w"
  using c
proof (cases rule: cyl_cases)
  case (container a x)
  then show ?thesis using m by (simp add: may_move_def may_take_def)
next
  case (player p)
  have q: "q = 100" using player_max_facts(4) [OF ok j, of p i n r q] max room st player by (simp add: gc)
  have "unat (ucast (i_count j) :: u32) \<le> 100" using world_counts [OF ok j] st by simp
  then have "(ucast (i_count j) :: u32) \<le> 100" by (simp add: word_le_nat_alt)
  then have "n \<noteq> ucast (i_count j)" using part q by (auto simp: min_def split: if_splits)
  then show ?thesis using part_may_take [OF env _ j st] m player by simp
qed

lemma law_max_enough:
  assumes ok: "world_ok E w" and c: "is_cyl c w" and j: "item_of w b = Some j" and st: "isStackable (e_items E) j" and n: "unat n \<le> 100"
    and max: "cyl_queryMaxCount (game_cylinders E) c i b n f w = Some (RET_NOERROR, q)" and f: "plain_flags f"
  shows "n \<le> q"
  using c
proof (cases rule: cyl_cases)
  case (container a x)
  then show ?thesis using container_max_facts(3) [OF ok j container(2), of i n f q] max st f by (simp add: gc)
next
  case (player p)
  then show ?thesis using player_max_facts(3) [OF ok j, of p i n q] max st n by (simp add: gc)
qed

lemma law_update:
  assumes env: "env_ok E" and ok: "world_ok E w" and c: "is_cyl c w" and held: "holder_of w b = Some c" and j: "item_of w b = Some j"
    and st: "isStackable (e_items E) j" and n: "1 \<le> unat n" "unat n \<le> 100"
  shows "\<exists>w' k. cyl_updateThing (game_cylinders E) c b (i_id j) n w = Some w' \<and> world_ok E w' \<and> keeps_all E w w' \<and> holder_of w' = holder_of w \<and>
        item_of w' = (item_of w)(b \<mapsto> k) \<and> i_id k = i_id j \<and> unat (i_count k) = unat n"
proof -
  have ty: "stack_types (e_items E)" using env by (simp add: env_ok_def)
  show ?thesis using c
  proof (cases rule: cyl_cases)
    case (container a x)
    show ?thesis using container_update_ok [OF ok ty held [unfolded container(1)] j st n] container(1) by (auto simp: gc)
  next
    case (player p)
    show ?thesis using player_update_ok [OF ok ty held [unfolded player] j st n] player by (auto simp: gc)
  qed
qed

lemma law_put:
  assumes ok: "world_ok E w" and c: "is_cyl c w" and loose: "holder_of w b = None" and j: "item_of w b = Some j" and out: "not_inside c b w"
    and room: "has_room c i w" and takes: "may_take E c i (i_id j) w"
  shows "\<exists>w'. cyl_addThing (game_cylinders E) c i b w = Some w' \<and> world_ok E w' \<and> holder_of w' = (holder_of w)(b \<mapsto> c) \<and> item_of w' = item_of w \<and>
        (\<forall>c'. is_cyl c' w \<longrightarrow> is_cyl c' w') \<and> (\<forall>c' i t. c' \<noteq> c \<longrightarrow> lies_at c' i t w \<longrightarrow> lies_at c' i t w')"
  using c
proof (cases rule: cyl_cases)
  case (container a x)
  have r: "length (itemlist x) < unat (maxSize x)" "\<not> above (parent_of (heap w)) a b" "i < sint (capacity x)"
    using room out takes container by (simp_all add: has_room_def not_inside_def may_take_def)
  obtain w' where w': "on_heap (addThing (e_items E) a i (ItemThing b)) w = Some w'" "world_ok E w'" "holder_of w' = (holder_of w)(b \<mapsto> InContainer a)"
    "item_of w' = item_of w" "invs w' = invs w" "\<And>x. get_body x (heap w) \<noteq> None \<Longrightarrow> get_body x (heap w') \<noteq> None"
    "\<And>x. x \<noteq> a \<Longrightarrow> map_option itemlist (get_body x (heap w')) = map_option itemlist (get_body x (heap w)) \<and>
       map_option maxSize (get_body x (heap w')) = map_option maxSize (get_body x (heap w))"
    using container_put_ok [OF ok loose j container(2) r] by blast
  have "is_cyl c' w'" if "is_cyl c' w" for c' using that w'(6) by (auto simp: is_cyl_def split: Holder.splits)
  moreover have "lies_at c' i' t w'" if ne: "c' \<noteq> c" and at: "lies_at c' i' t w" for c' i' t
  proof (cases c')
    case (InContainer a')
    then obtain y where y: "get_body a' (heap w) = Some y" using at by (auto simp: lies_at_def)
    have "a' \<noteq> a" using ne InContainer container(1) by blast
    with w'(7) [of a'] y obtain z where z: "get_body a' (heap w') = Some z" "itemlist z = itemlist y" "maxSize z = maxSize y" by auto
    have "getThing k z = getThing k y" for k by (simp add: getThing_def size_of_def z)
    then show ?thesis using at InContainer y z by (simp add: lies_at_def capacity_def)
  qed (use at w'(5) in \<open>simp_all add: lies_at_def\<close>)
  ultimately show ?thesis using w'(1-4) container(1) unfolding gc by (intro exI [of _ w']) simp
next
  case (player p)
  obtain w' where w': "player_addThing p i b w = Some w'" "world_ok E w'" "holder_of w' = (holder_of w)(b \<mapsto> OnCreature p)"
    "item_of w' = item_of w" "\<And>x. get_body x (heap w') = get_body x (heap w)" "\<And>q. q \<noteq> p \<Longrightarrow> invs w' q = invs w q"
    using player_put_ok [OF ok loose j room [unfolded player] takes [unfolded player]] by blast
  have "is_cyl c' w'" if "is_cyl c' w" for c' using that w'(5) by (cases c') (simp_all add: is_cyl_def)
  moreover have "lies_at c' i' t w'" if "c' \<noteq> c" "lies_at c' i' t w" for c' i' t
    using that w'(5,6) player unfolding lies_at_def by (cases c') auto
  ultimately show ?thesis using w'(1-4) player unfolding gc by (intro exI [of _ w']) simp
qed

theorem game_laws:
  assumes env: "env_ok E"
  shows "cylinder_laws (e_items E) (game_cylinders E) (world_ok E) is_cyl lies_at has_room not_inside (may_move E) (may_take E) is_slotted (keeps_all E)"
proof (unfold_locales, goal_cases)
  case 1 then show ?case using env by (simp add: env_ok_def)
next
  case 2 then show ?case by (rule keeps_trans)
next
  case 3 then show ?case by (rule keeps_refl)
next
  case 4 then show ?case by (rule keeps_parts(1))
next
  case 5 then show ?case by (rule keeps_parts(2))
next
  case 6 then show ?case by (rule keeps_parts(3))
next
  case 7 then show ?case by (rule keeps_parts(4))
next
  case 8 then show ?case by (rule world_finite)
next
  case 9 then show ?case by (rule world_counts)
next
  case 10 then show ?case by (rule law_destination)
next
  case 11 then show ?case using lies_at_held by blast
next
  case 12 then show ?case by (rule law_slot_taken)
next
  case 13 then show ?case by (rule law_add_answers)
next
  case 14 then show ?case by (rule law_add_allows [OF env])
next
  case 15 then show ?case by (rule law_add_exchange [OF env])
next
  case 16 then show ?case by (rule law_max_answers)
next
  case 17 then show ?case by (rule law_max_room)
next
  case 18 then show ?case by (rule law_remove_answers)
next
  case 19 then show ?case by (intro law_index_answers)
next
  case 20 then show ?case by (rule law_removed_answers)
next
  case 21 then show ?case by (rule law_remove_allows)
next
  case 22 then show ?case by (rule law_remove_some)
next
  case 23 then show ?case by (rule remove_all_result)
next
  case 24 then show ?case by (rule law_fits_part [OF env])
next
  case 25 then show ?case by (intro loose_may_take)
next
  case 26 then show ?case by (rule law_max_enough)
next
  case 27 then show ?case by (rule law_update [OF env])
next
  case 28 then show ?case by (rule law_put)
next
  case 29 then show ?case by (rule create_ok)
next
  case 30 then show ?case using told_result by meson
next
  case 31 then show ?case by (rule home_result [OF env])
qed

text \<open>What the moves rely on of \<^verbatim>\<open>operator new\<close>: it hands out an address that is free.\<close>

definition fresh_addresses :: "(Heap \<Rightarrow> nat) \<Rightarrow> bool" where
  "fresh_addresses alloc \<longleftrightarrow> (\<forall>h. finite (dom h) \<longrightarrow> h (alloc h) = None)"

text \<open>The contract holds in every world of loaded types and scripts.\<close>

locale game_world =
  fixes E :: MoveEnv
  assumes env: "env_ok E"

sublocale game_world \<subseteq> moves: cylinder_laws "e_items E" "game_cylinders E" "world_ok E" is_cyl lies_at has_room not_inside
    "may_move E" "may_take E" is_slotted "keeps_all E"
  by (rule game_laws [OF env])

section \<open>The game\<close>

text \<open>A run of the game: every operation is called with items and cylinders that exist, as the callers of \<^verbatim>\<open>game.cpp\<close> do.\<close>

datatype game_op = OpMoveItem Holder "Holder option" int nat u32 u32 | OpRemoveItem nat int bool u32
  | OpAddItem "Holder option" nat int u32 bool

definition called_well :: "game_op \<Rightarrow> GameWorld \<Rightarrow> bool" where
  "called_well x w = (case x of
     OpMoveItem c d _ b _ f \<Rightarrow> is_cyl c w \<and> (case d of None \<Rightarrow> True | Some d \<Rightarrow> is_cyl d w) \<and> item_of w b \<noteq> None \<and> plain_flags f
   | OpRemoveItem b _ _ _ \<Rightarrow> item_of w b \<noteq> None \<and> (case holder_of w b of None \<Rightarrow> True | Some c \<Rightarrow> is_cyl c w)
   | OpAddItem c b _ f _ \<Rightarrow> (case c of None \<Rightarrow> True | Some c \<Rightarrow> is_cyl c w) \<and> item_of w b \<noteq> None \<and> holder_of w b = None \<and> plain_flags f)"

definition game_step :: "MoveEnv \<Rightarrow> (Heap \<Rightarrow> nat) \<Rightarrow> (Item \<Rightarrow> bool) \<Rightarrow> game_op \<Rightarrow> GameWorld \<Rightarrow> GameWorld option" where
  "game_step E alloc canRemove x w = (if \<not> called_well x w then Some w else case x of
     OpMoveItem c d i b n f \<Rightarrow> map_option (\<lambda>(_, _, w). w) (internalMoveItem (e_items E) alloc (game_cylinders E) c d i b n f w)
   | OpRemoveItem b n test f \<Rightarrow> map_option snd (internalRemoveItem canRemove (game_cylinders E) b n test f w)
   | OpAddItem c b i f test \<Rightarrow> map_option snd (internalAddItem (e_items E) alloc (game_cylinders E) c b i f test w))"

fun game_run :: "MoveEnv \<Rightarrow> (Heap \<Rightarrow> nat) \<Rightarrow> (Item \<Rightarrow> bool) \<Rightarrow> game_op list \<Rightarrow> GameWorld \<Rightarrow> GameWorld option" where
  "game_run E alloc canRemove [] w = Some w"
| "game_run E alloc canRemove (x # xs) w = do { w \<leftarrow> game_step E alloc canRemove x w; game_run E alloc canRemove xs w }"

context game_world
begin

lemma fresh_here: "world_ok E w \<Longrightarrow> fresh_addresses alloc \<Longrightarrow> dom h = dom (heap w) \<Longrightarrow> h (alloc h) = None"
  by (simp add: fresh_addresses_def world_ok_def)

lemma move_ok:
  assumes "world_ok E w" "is_cyl fromCyl w" "\<And>c. toCylinder = Some c \<Longrightarrow> is_cyl c w" "item_of w b \<noteq> None" "plain_flags f"
    and new: "fresh_addresses alloc"
  shows "\<exists>r mv w'. internalMoveItem (e_items E) alloc (game_cylinders E) fromCyl toCylinder i b n f w = Some (r, mv, w') \<and> world_ok E w' \<and>
    (\<forall>k. kept_units (e_items E) k w' = kept_units (e_items E) k w)"
  by (rule moves.internalMoveItem_ok) (use assms fresh_here [OF assms(1) new] in auto)

lemma add_ok:
  assumes "world_ok E w" "\<And>c. toCylinder = Some c \<Longrightarrow> is_cyl c w" "item_of w b = Some j" "holder_of w b = None" "plain_flags f"
    and new: "fresh_addresses alloc"
  shows "\<exists>r w'. internalAddItem (e_items E) alloc (game_cylinders E) toCylinder b i f test w = Some (r, w') \<and> world_ok E w' \<and>
    (if r = RET_NOERROR \<and> \<not> test then \<forall>k. kept_units (e_items E) k w' = kept_units (e_items E) k w + item_units (e_items E) k j else w' = w)"
  by (rule moves.internalAddItem_ok) (use assms fresh_here [OF assms(1) new] in auto)

lemma game_step_ok:
  assumes ok: "world_ok E w" and new: "fresh_addresses alloc"
  shows "\<exists>w'. game_step E alloc canRemove x w = Some w' \<and> world_ok E w'"
proof (cases "called_well x w")
  case True
  show ?thesis
  proof (cases x)
    case (OpMoveItem c d i b n f)
    then have a: "is_cyl c w" "\<And>e. d = Some e \<Longrightarrow> is_cyl e w" "item_of w b \<noteq> None" "plain_flags f" using True by (auto simp: called_well_def)
    obtain r mv w' where "internalMoveItem (e_items E) alloc (game_cylinders E) c d i b n f w = Some (r, mv, w')" "world_ok E w'"
      using move_ok [OF ok a new, where i = i and n = n] by blast
    then show ?thesis using OpMoveItem True by (simp add: game_step_def)
  next
    case (OpRemoveItem b n test f)
    then obtain j where a: "item_of w b = Some j" using True by (auto simp: called_well_def)
    have c: "\<And>c. holder_of w b = Some c \<Longrightarrow> is_cyl c w" using OpRemoveItem True by (auto simp: called_well_def)
    obtain r w' where "internalRemoveItem canRemove (game_cylinders E) b n test f w = Some (r, w')" "world_ok E w'"
      using moves.internalRemoveItem_ok [OF ok a c, where canRemove = canRemove and cnt = n and test = test and f = f] by blast
    then show ?thesis using OpRemoveItem True by (simp add: game_step_def)
  next
    case (OpAddItem c b i f test)
    then obtain j where j: "item_of w b = Some j" using True by (auto simp: called_well_def)
    have a: "\<And>d. c = Some d \<Longrightarrow> is_cyl d w" "holder_of w b = None" "plain_flags f" using OpAddItem True by (auto simp: called_well_def)
    obtain r w' where "internalAddItem (e_items E) alloc (game_cylinders E) c b i f test w = Some (r, w')" "world_ok E w'"
      using add_ok [OF ok a(1) j a(2,3) new, where i = i and test = test] by blast
    then show ?thesis using OpAddItem True by (simp add: game_step_def)
  qed
qed (simp add: game_step_def ok)

lemma game_run_ok:
  assumes new: "fresh_addresses alloc"
  shows "world_ok E w \<Longrightarrow> \<exists>w'. game_run E alloc canRemove xs w = Some w' \<and> world_ok E w'"
proof (induction xs arbitrary: w)
  case (Cons x xs)
  obtain w1 where w1: "game_step E alloc canRemove x w = Some w1" "world_ok E w1" using game_step_ok [OF Cons.prems new] by blast
  show ?case using Cons.IH [OF w1(2)] w1(1) by simp
qed simp

end

text \<open>
  C4. Moving an item between any two containers or inventories always comes to an end with a return value, whatever
  the queries answer and whether or not items are exchanged or stacks merged; the slots, parents, hands, weights and sizes
  stay right; and of every item type there are as many units in the world as before: nothing is lost or doubled.
\<close>
theorem moving_keeps_every_unit:
  assumes "env_ok E" "world_ok E w" "is_cyl fromCyl w" "\<And>c. toCylinder = Some c \<Longrightarrow> is_cyl c w" "item_of w b \<noteq> None" "plain_flags flags"
    "fresh_addresses alloc"
  shows "\<exists>ret moved w'. internalMoveItem (e_items E) alloc (game_cylinders E) fromCyl toCylinder index b count flags w = Some (ret, moved, w') \<and>
    world_ok E w' \<and> (\<forall>itemId. kept_units (e_items E) itemId w' = kept_units (e_items E) itemId w)"
  using game_world.move_ok [OF game_world.intro [OF assms(1)] assms(2-7)] .

text \<open>
  C16. Removing \<open>count\<close> of an item, or all of it for -1, always returns; when it succeeds and was no test, exactly that many
  units of its type are gone and no other, and otherwise the world is as it was.
\<close>
theorem removing_removes_exactly:
  assumes "env_ok E" "world_ok E w" "item_of w b = Some j" "\<And>c. holder_of w b = Some c \<Longrightarrow> is_cyl c w"
  shows "\<exists>ret w'. internalRemoveItem canRemove (game_cylinders E) b count test flags w = Some (ret, w') \<and> world_ok E w' \<and>
    (if ret = RET_NOERROR \<and> \<not> test
     then \<forall>itemId. kept_units (e_items E) itemId w = kept_units (e_items E) itemId w' + (if i_id j = itemId
       then if isStackable (e_items E) j then unat (if count = -1 then ucast (i_count j) else word_of_int count :: u32) else 1 else 0)
     else w' = w)"
  using cylinder_laws.internalRemoveItem_ok [OF game_laws [OF assms(1)] assms(2-4)] .

text \<open>
  C15. Adding a new item always returns; when it succeeds and was no test, exactly its units are added, whether it is put down
  whole, merged into a stack, or split between a stack and a new item; otherwise the world is as it was.
\<close>
theorem adding_adds_exactly:
  assumes "env_ok E" "world_ok E w" "\<And>c. toCylinder = Some c \<Longrightarrow> is_cyl c w" "item_of w b = Some j" "holder_of w b = None" "plain_flags flags"
    "fresh_addresses alloc"
  shows "\<exists>ret w'. internalAddItem (e_items E) alloc (game_cylinders E) toCylinder b index flags test w = Some (ret, w') \<and> world_ok E w' \<and>
    (if ret = RET_NOERROR \<and> \<not> test
     then \<forall>itemId. kept_units (e_items E) itemId w' = kept_units (e_items E) itemId w + item_units (e_items E) itemId j
     else w' = w)"
  using game_world.add_ok [OF game_world.intro [OF assms(1)] assms(2-7)] .


text \<open>A small world: player 7 wears an empty backpack and 50 arrows on a tile, and a further stack of 40 arrows lies nowhere.\<close>

definition move_types :: Items where
  "move_types = \<lparr>is_items = [Some (new_ItemType\<lparr>it_pickupable := True, it_weight := 10\<rparr>),
      Some (new_ItemType\<lparr>it_id := 1, it_pickupable := True, it_stackable := True, it_weight := 1\<rparr>)], is_reverse = (\<lambda>_. None),
     is_dwMajorVersion = 0, is_dwMinorVersion = 0, is_dwBuildNumber = 0\<rparr>"

definition no_tiles :: Cylinders where
  "no_tiles = \<lparr>cyl_queryDestination = (\<lambda>_ _ _ _ _ _. None), cyl_queryAdd = (\<lambda>_ _ _ _ _ _. None), cyl_queryMaxCount = (\<lambda>_ _ _ _ _ _. None),
     cyl_queryRemove = (\<lambda>_ _ _ _ _. None), cyl_addThing = (\<lambda>_ _ _ _. None), cyl_updateThing = (\<lambda>_ _ _ _ _. None),
     cyl_removeThing = (\<lambda>_ _ _ _. None), cyl_getIndexOfThing = (\<lambda>_ _ _. None), cyl_isRemoved = (\<lambda>_ _. None),
     cyl_postAdd = (\<lambda>_ _ _ _ _. None), cyl_postRemove = (\<lambda>_ _ _ _ _ _. None)\<rparr>"

definition move_env :: MoveEnv where
  "move_env = \<lparr>e_items = move_types, e_slotPosition = (\<lambda>k. if k = 0 then 564 else 560), e_weaponType = (\<lambda>_. 0), e_creature_tile = (\<lambda>_. Some 5),
     e_gone = (\<lambda>_. False), e_wear = (\<lambda>_ _ _ _. RET_NOERROR), e_tiles = no_tiles\<rparr>"

definition arrows :: "u8 \<Rightarrow> Item" where
  "arrows n = \<lparr>m_attributes = [], m_attrFlags = 0, i_id = 1, i_count = n, i_loadedOnMap = False\<rparr>"

definition move_world :: GameWorld where
  "move_world = \<lparr>heap = (\<lambda>_. None)(1 \<mapsto> (new_Container move_types example_item)\<lparr>o_parent := Some (OnCreature 7)\<rparr>,
       2 \<mapsto> \<lparr>o_item = arrows 50, o_parent = Some (OnCreature 7), o_body = None\<rparr>,
       3 \<mapsto> \<lparr>o_item = arrows 40, o_parent = None, o_body = None\<rparr>),
     invs = (\<lambda>p. \<lparr>inventory = (\<lambda>i. if p = 7 \<and> i = 3 then Some 1 else if p = 7 \<and> i = 10 then Some 2 else None), inv_capacity = 500,
       inventoryWeight = 60, tradeItem = None, infinite_capacity = False, cannot_pickup = False\<rparr>)\<rparr>"

lemma move_env_ok: "env_ok move_env"
proof -
  have ty: "getItemType move_types i = (if unat (word_of_int i :: u32) = 0 then new_ItemType\<lparr>it_pickupable := True, it_weight := 10\<rparr>
     else if unat (word_of_int i :: u32) = 1 then new_ItemType\<lparr>it_id := 1, it_pickupable := True, it_stackable := True, it_weight := 1\<rparr> else new_ItemType)" for i
    by (auto simp: getItemType_def getElement_def move_types_def nth_Cons')
  have "stack_types move_types"
    by (simp add: stack_types_def ty Let_def item_class_def isFluidContainer_def isSplash_def isContainer_def isMagicField_def isDoor_def isDepot_def isTeleport_def
      isMailbox_def isTrashHolder_def isBed_def new_ItemType_def)
  then show ?thesis by (simp add: env_ok_def move_env_def has_slot_def)
qed

lemma move_world_ok: "world_ok move_env move_world"
proof -
  let ?h = "heap move_world"
  have h: "?h x = (if x = 1 then Some ((new_Container move_types example_item)\<lparr>o_parent := Some (OnCreature 7)\<rparr>)
      else if x = 2 then Some \<lparr>o_item = arrows 50, o_parent = Some (OnCreature 7), o_body = None\<rparr>
      else if x = 3 then Some \<lparr>o_item = arrows 40, o_parent = None, o_body = None\<rparr> else None)" for x
    by (simp add: move_world_def)
  have par: "parent_of ?h = (\<lambda>_. None)" by (simp add: parent_of_def fun_eq_iff h)
  have body: "get_body x ?h = (if x = 1 then Some \<lparr>maxSize = 8, total_weight = 0, itemlist = [], serializationCount = 0\<rparr> else None)" for x
    by (simp add: get_body_def h new_Container_def example_item_def item_type_def getItemType_def getElement_def move_types_def new_ItemType_def)
  have "links_ok ?h" unfolding links_ok_def links_def par by (auto simp: contents_def body intro: rooted.root)
  then have inv: "container_inv (e_items move_env) ?h" by (simp add: container_inv_def weights_off_def body)
  have dom: "dom ?h = {1, 2, 3}" by (auto simp: dom_def h)
  have it: "item_of move_world x = (if x = 1 then Some example_item else if x = 2 then Some (arrows 50) else if x = 3 then Some (arrows 40) else None)" for x
    by (simp add: item_of_def h new_Container_def)
  have up: "holder_of move_world x = (if x = 1 \<or> x = 2 then Some (OnCreature 7) else None)" for x by (simp add: holder_of_def h)
  have iv: "inventory (invs move_world p) i = (if p = 7 \<and> i = 3 then Some 1 else if p = 7 \<and> i = 10 then Some 2 else None)" for p i
    by (simp add: move_world_def)
  have "counts_ok (e_items move_env) move_world" by (simp add: counts_ok_def it example_item_def arrows_def)
  moreover have "not_overfull ?h" by (simp add: not_overfull_def body)
  moreover have "wears (invs move_world p) b \<longleftrightarrow> p = 7 \<and> (b = 1 \<or> b = 2)" for p b
    by (auto simp: wears_def iv intro: exI [of _ 3] exI [of _ 10])
  then have "slots_agree move_world" by (auto simp: slots_agree_def up nothing_twice_def iv)
  moreover have "worn_ok move_env p move_world" for p
    by (simp add: worn_ok_def iv it slot_suits_def has_slot_def slot_bit_def move_env_def example_item_def arrows_def)
  ultimately show ?thesis using inv dom by (simp add: world_ok_def)
qed

interpretation example_game: game_world move_env
  by (unfold_locales) (rule move_env_ok)

definition past_all :: "Heap \<Rightarrow> nat" where
  "past_all h = Suc (Max (insert 0 (dom h)))"

lemma past_all_fresh: "fresh_addresses past_all"
proof -
  have "h (past_all h) = None" if "finite (dom h)" for h :: Heap
  proof (rule ccontr)
    assume "h (past_all h) \<noteq> None"
    then have "past_all h \<le> Max (insert 0 (dom h))" using that by (intro Max_ge) auto
    then show False by (simp add: past_all_def)
  qed
  then show ?thesis by (simp add: fresh_addresses_def)
qed

text \<open>In this world 20 of the arrows are moved into the backpack or taken away, or 40 are added to the stack.\<close>

lemma example_cyls: "is_cyl (OnCreature 7) move_world" "is_cyl (InContainer 1) move_world"
  by (simp_all add: is_cyl_def move_world_def get_body_def new_Container_def)

lemma example_things: "item_of move_world 2 = Some (arrows 50)" "item_of move_world 3 = Some (arrows 40)" "holder_of move_world 2 = Some (OnCreature 7)"
    "holder_of move_world 3 = None"
  by (simp_all add: item_of_def holder_of_def move_world_def)

lemma example_flags: "plain_flags 0"
  by (simp add: plain_flags_def hasFlags_def)

lemmas move_eval = move_env_def move_types_def move_world_def arrows_def game_cylinders_def item_type_def getItemType_def getElement_def new_ItemType_def
  new_Container_def example_item_def item_of_def holder_of_def isStackable_def isPickupable_def isNotMoveable_def hasFlags_def

lemma first_destination: "find_destination C 16 c i b t f w = do {
     (subCyl, index, toItem, flags) \<leftarrow> cyl_queryDestination C c i b t f w;
     if subCyl = c then Some (c, index, toItem, flags)
     else find_destination C 15 subCyl index b toItem 0 w }"
  using find_destination.simps(2) [of C 15] by (simp add: numeral_eq_Suc)

lemma example_tops: "getTopParent (\<lambda>_. Some 5) 1 (heap move_world) = Some (OnCreature 7)"
    "thing_top (\<lambda>_. Some 5) 2 (heap move_world) = Some (Some (OnCreature 7))" "thing_top (\<lambda>_. Some 5) 3 (heap move_world) = Some None"
    "has_parent 2 (Some (OnCreature 7)) (heap move_world) = Some False"
proof -
  have tile: "top_from ct (OnTile x) c h = Some c" for ct x c h by (subst top_from.simps) (simp add: holder_parent_def)
  have "top_from (\<lambda>_. Some 5) (OnCreature 7) c h = Some (OnCreature 7)" for c h
    by (subst top_from.simps) (simp add: holder_parent_def tile)
  then show "getTopParent (\<lambda>_. Some 5) 1 (heap move_world) = Some (OnCreature 7)" by (simp add: getTopParent_def getParent_def move_eval)
  show "thing_top (\<lambda>_. Some 5) 2 (heap move_world) = Some (Some (OnCreature 7))" by (simp add: thing_top_def move_eval holder_parent_def tile)
  show "thing_top (\<lambda>_. Some 5) 3 (heap move_world) = Some None" by (simp add: thing_top_def move_eval)
  show "has_parent 2 (Some (OnCreature 7)) (heap move_world) = Some False" by (subst has_parent.simps) simp
qed

lemma example_move_queries: "find_destination (game_cylinders move_env) 16 (InContainer 1) (-1) 2 None 0 move_world = Some (InContainer 1, -1, None, 0)"
    "cyl_queryAdd (game_cylinders move_env) (InContainer 1) (-1) 2 20 0 move_world = Some RET_NOERROR"
    "cyl_queryMaxCount (game_cylinders move_env) (InContainer 1) (-1) 2 20 0 move_world = Some (RET_NOERROR, 800)"
    "cyl_queryRemove (game_cylinders move_env) (OnCreature 7) 2 20 0 move_world = Some RET_NOERROR"
proof -
  show "find_destination (game_cylinders move_env) 16 (InContainer 1) (-1) 2 None 0 move_world = Some (InContainer 1, -1, None, 0)"
    by (simp add: first_destination move_eval queryDestination_def get_body_def capacity_def)
  show "cyl_queryAdd (game_cylinders move_env) (InContainer 1) (-1) 2 20 0 move_world = Some RET_NOERROR"
    using example_tops
    by (simp add: container_queryAdd_def queryAdd_def player_queryAdd_def hasCapacity_def move_eval getParent_def size_of_def capacity_def get_body_def Let_def)
  show "cyl_queryMaxCount (game_cylinders move_env) (InContainer 1) (-1) 2 20 0 move_world = Some (RET_NOERROR, 800)"
    by (simp add: queryMaxCount_def move_eval freeSlots_def capacity_def size_of_def get_body_def Let_def)
  show "cyl_queryRemove (game_cylinders move_env) (OnCreature 7) 2 20 0 move_world = Some RET_NOERROR"
    by (simp add: move_eval player_queryRemove_def player_getIndexOfThing_def upto.simps)
qed

lemma example_move_answer:
  assumes "internalMoveItem (e_items move_env) alloc (game_cylinders move_env) (OnCreature 7) (Some (InContainer 1)) (-1) 2 20 0 move_world = Some (r, mv, w')"
  shows "r = RET_NOERROR"
proof -
  have st: "isStackable (e_items move_env) (arrows 50)" by (simp add: move_eval)
  have "carry_item (e_items move_env) alloc (game_cylinders move_env) (OnCreature 7) (InContainer 1) (-1) 2 None 20 0 move_world = Some (r, mv, w')"
    using assms by (simp add: internalMoveItem_def example_move_queries del: One_nat_def)
  then have "carry_item (e_items move_env) alloc (game_cylinders move_env) (OnCreature 7) (InContainer 1) (-1) 2 None 20 0 move_world = Some (r, mv, w')
    \<and> min (20 :: u32) 800 = 20" by simp
  then show ?thesis
    unfolding carry_item_def example_move_queries(3) Option.bind.simps prod.case example_things(1) st if_True
    by (clarsimp simp: example_move_queries(4) st Option.bind_eq_Some_conv simp del: One_nat_def)
qed

lemma example_add_queries: "cyl_queryDestination (game_cylinders move_env) (OnCreature 7) 10 3 None 0 move_world = Some (OnCreature 7, 10, Some 2, 0)"
    "cyl_queryAdd (game_cylinders move_env) (OnCreature 7) 10 3 40 0 move_world = Some RET_NOERROR"
    "cyl_queryMaxCount (game_cylinders move_env) (OnCreature 7) 10 3 40 0 move_world = Some (RET_NOERROR, 50)"
proof -
  show "cyl_queryDestination (game_cylinders move_env) (OnCreature 7) 10 3 None 0 move_world = Some (OnCreature 7, 10, Some 2, 0)"
    by (simp add: player_queryDestination_def player_getThing_def move_eval)
  show "cyl_queryAdd (game_cylinders move_env) (OnCreature 7) 10 3 40 0 move_world = Some RET_NOERROR"
    using example_tops
    by (simp add: player_queryAdd_def slot_query_def has_slot_def slot_bit_def getInventoryItem_def hasCapacity_def getFreeCapacity_def move_eval Let_def)
  show "cyl_queryMaxCount (game_cylinders move_env) (OnCreature 7) 10 3 40 0 move_world = Some (RET_NOERROR, 50)"
    by (simp add: player_queryMaxCount_def player_getThing_def move_eval Let_def)
qed

lemma example_add_answer:
  assumes "internalAddItem (e_items move_env) alloc (game_cylinders move_env) (Some (OnCreature 7)) 3 10 0 False move_world = Some (r, w')"
  shows "r = RET_NOERROR"
proof -
  have "item_of move_world 3 = Some (arrows 40)" "(ucast (i_count (arrows 40)) :: u32) = 40" using example_things by (simp_all add: arrows_def)
  then show ?thesis using assms by (auto simp: internalAddItem_def example_add_queries Option.bind_eq_Some_conv Let_def split: if_splits)
qed

lemma example_remove_answer:
  assumes "internalRemoveItem (\<lambda>_. True) (game_cylinders move_env) 2 20 False 0 move_world = Some (r, w')"
  shows "r = RET_NOERROR"
proof -
  have "cyl_queryRemove (game_cylinders move_env) (OnCreature 7) 2 20 64 move_world = Some RET_NOERROR"
    by (simp add: move_eval player_queryRemove_def player_getIndexOfThing_def upto.simps)
  then show ?thesis using assms example_things by (auto simp: internalRemoveItem_def Option.bind_eq_Some_conv Let_def split: if_splits)
qed

lemma example_units: "kept_units (e_items move_env) 1 move_world = 50"
proof -
  have d: "dom (holder_of move_world) = {1, 2}" by (auto simp: dom_def holder_of_def move_world_def new_Container_def split: if_splits)
  have "item_of move_world 1 = Some example_item" "item_of move_world 2 = Some (arrows 50)" by (simp_all add: item_of_def move_world_def new_Container_def)
  moreover have "isStackable (e_items move_env) (arrows 50)" by (simp add: move_eval)
  ultimately show ?thesis unfolding kept_units_def units_in_def d by (simp add: item_units_def example_item_def arrows_def)
qed

theorem moving_keeps_every_unit_witness:
  "\<exists>moved w'. internalMoveItem (e_items move_env) past_all (game_cylinders move_env) (OnCreature 7) (Some (InContainer 1)) (-1) 2 20 0 move_world =
      Some (RET_NOERROR, moved, w') \<and> world_ok move_env w' \<and> kept_units (e_items move_env) 1 w' = 50"
proof -
  obtain ret moved w' where w': "internalMoveItem (e_items move_env) past_all (game_cylinders move_env) (OnCreature 7) (Some (InContainer 1)) (-1) 2 20 0 move_world =
      Some (ret, moved, w')" "world_ok move_env w'" "\<And>k. kept_units (e_items move_env) k w' = kept_units (e_items move_env) k move_world"
    using moving_keeps_every_unit [OF move_env_ok move_world_ok example_cyls(1), where toCylinder = "Some (InContainer 1)" and b = 2 and flags = 0 and alloc = past_all and index = "-1" and count = 20]
      example_cyls(2) example_things(1) example_flags past_all_fresh by auto
  then show ?thesis using example_move_answer [OF w'(1)] example_units by auto
qed

theorem removing_removes_exactly_witness:
  "\<exists>w'. internalRemoveItem (\<lambda>_. True) (game_cylinders move_env) 2 20 False 0 move_world = Some (RET_NOERROR, w') \<and> world_ok move_env w' \<and>
    kept_units (e_items move_env) 1 w' = 30"
proof -
  have st: "isStackable (e_items move_env) (arrows 50)" "i_id (arrows 50) = 1" by (simp_all add: move_eval)
  have c: "holder_of move_world 2 = Some c \<Longrightarrow> is_cyl c move_world" for c using example_cyls(1) example_things(3) by simp
  obtain ret w' where w': "internalRemoveItem (\<lambda>_. True) (game_cylinders move_env) 2 20 False 0 move_world = Some (ret, w')" "world_ok move_env w'"
    "if ret = RET_NOERROR \<and> \<not> False
     then \<forall>itemId. kept_units (e_items move_env) itemId move_world = kept_units (e_items move_env) itemId w' + (if i_id (arrows 50) = itemId
       then if isStackable (e_items move_env) (arrows 50) then unat (if (20 :: int) = -1 then ucast (i_count (arrows 50)) else word_of_int 20 :: u32) else 1 else 0)
     else w' = move_world"
    using removing_removes_exactly [OF move_env_ok move_world_ok example_things(1) c, of "\<lambda>_. True" 20 False 0] by blast
  then have "kept_units (e_items move_env) 1 move_world = kept_units (e_items move_env) 1 w' + 20"
    using example_remove_answer [OF w'(1)] by (simp add: st)
  with w'(1,2) example_remove_answer [OF w'(1)] example_units show ?thesis by auto
qed

theorem adding_adds_exactly_witness:
  "\<exists>w'. internalAddItem (e_items move_env) past_all (game_cylinders move_env) (Some (OnCreature 7)) 3 10 0 False move_world = Some (RET_NOERROR, w') \<and>
    world_ok move_env w' \<and> kept_units (e_items move_env) 1 w' = 90"
proof -
  have c: "Some (OnCreature 7) = Some c \<Longrightarrow> is_cyl c move_world" for c using example_cyls(1) by simp
  have u: "item_units (e_items move_env) 1 (arrows 40) = 40" by (simp add: item_units_def move_eval)
  obtain ret w' where w': "internalAddItem (e_items move_env) past_all (game_cylinders move_env) (Some (OnCreature 7)) 3 10 0 False move_world = Some (ret, w')"
    "world_ok move_env w'" "if ret = RET_NOERROR \<and> \<not> False
     then \<forall>itemId. kept_units (e_items move_env) itemId w' = kept_units (e_items move_env) itemId move_world + item_units (e_items move_env) itemId (arrows 40)
     else w' = move_world"
    using adding_adds_exactly [OF move_env_ok move_world_ok c example_things(2,4) example_flags past_all_fresh, where index = 10 and test = False] by blast
  then have "kept_units (e_items move_env) 1 w' = 90" using example_add_answer [OF w'(1)] example_units u by simp
  with w'(1,2) example_add_answer [OF w'(1)] show ?thesis by blast
qed


end
