(* ===== verification/Spec2Isabelle.thy ===== *)
theory Spec2Isabelle
  imports Item ProtocolCrypt Scheduling Spectators SightLine PathSearch Party LoginGuard Containers Digests Tiles ConditionStore
    ClientRequests ClientView ItemMoves Inventory InventoryLaws
begin

text \<open>
  Verification development for the OpenTibia server (the C++ files of \<^verbatim>\<open>src/Source\<close>).

  \<^bold>\<open>The program.\<close> The server is one process.  Network threads receive messages (\<^verbatim>\<open>connection.cpp\<close>,
  \<^verbatim>\<open>protocol.cpp\<close>, \<^verbatim>\<open>networkmessage.cpp\<close>) and hand what the client asks for as tasks to one dispatcher thread
  (\<^verbatim>\<open>tasks.cpp\<close>), to which the scheduler thread (\<^verbatim>\<open>scheduler.cpp\<close>) adds the tasks whose time has come.  The
  tasks call \<^verbatim>\<open>game.cpp\<close>, which works on the map (\<^verbatim>\<open>map.cpp\<close>), its tiles (\<^verbatim>\<open>tile.cpp\<close>), the items and
  containers on them (\<^verbatim>\<open>item.cpp\<close>, \<^verbatim>\<open>container.cpp\<close>) and the creatures.  Item types and the map are read from
  binary node files (\<^verbatim>\<open>fileloader.cpp\<close>, \<^verbatim>\<open>items.cpp\<close>).  Only the dispatcher thread changes the game, so
  everything but the scheduler and the dispatcher is modelled as sequential code with its state passed
  explicitly.

  \<^bold>\<open>Theories.\<close>  Each theory keeps the order and the names of the code; a name that clashes with the library or with
  another part has a prefix.

  \<^item> \<open>Prelude\<close>: the integer types, reading and writing at an offset of a byte list, the little-endian layout of a
    value (locale \<open>wire_value\<close>, interpreted at 8, 16 and 32 bits) and the contracts of stores of keys and
    values (locales \<open>joined_store\<close>, \<open>lookup_store\<close>, \<open>keep_store\<close>).
  \<^item> \<open>Positions\<close> (\<^verbatim>\<open>position.h\<close>, \<^verbatim>\<open>position.cpp\<close>): positions, their order as an instance of \<open>linorder\<close>, range tests.
  \<^item> \<open>PropStreams\<close>, \<open>FileReader\<close>, \<open>FileLoader\<close> (\<^verbatim>\<open>fileloader.h\<close>, \<^verbatim>\<open>fileloader.cpp\<close>): typed values in byte arrays; the file with
    and without its block cache, both a cursor on the bytes of the file (locale \<open>byte_cursor\<close>); the writer and the
    recursive parser of node trees.  The parser takes one unit of fuel per byte it consumes: with one unit more
    than the bytes left it answers on every file, and a written tree is read back.
  \<^item> \<open>NetMsg\<close>, \<open>ProtocolCrypt\<close> (\<^verbatim>\<open>networkmessage.h\<close>, \<^verbatim>\<open>networkmessage.cpp\<close>, \<^verbatim>\<open>outputmessage.h\<close>, \<^verbatim>\<open>protocol.cpp\<close>): the message buffer with one
    position for reading and writing, an implementation of \<open>byte_sink\<close> as the property stream is; framing and XTEA
    (locale \<open>block_cipher\<close>, interpreted for every key).
  \<^item> \<open>Items\<close>, \<open>ItemAttrs\<close>, \<open>Item\<close> (\<^verbatim>\<open>items.h\<close>, \<^verbatim>\<open>items.cpp\<close>, \<^verbatim>\<open>itemloader.h\<close>, \<^verbatim>\<open>ItemAttributes.h\<close>, \<^verbatim>\<open>ItemAttributes.cpp\<close>,
    \<^verbatim>\<open>item.h\<close>, \<^verbatim>\<open>item.cpp\<close>): the growing table of item types (an interpretation of \<open>lookup_store\<close>) and the loader that fills it
    from a node tree; the attribute list of an item; items, their creation, derived properties and stored form.
  \<^item> \<open>Containers\<close> (\<^verbatim>\<open>container.h\<close>, \<^verbatim>\<open>container.cpp\<close>, \<^verbatim>\<open>thing.cpp\<close>) and \<open>Tiles\<close> (\<^verbatim>\<open>tile.h\<close>, \<^verbatim>\<open>tile.cpp\<close>): the two main kinds of
    cylinders, with the queries before a move and the operations that carry it out.  A container lives in a heap of objects, where
    reading a free address is \<open>None\<close>; a tile has stores of its items and creatures, and both have an inductive relation
    of the states that any sequence of operations reaches.
  \<^item> \<open>ItemMoves\<close> (\<^verbatim>\<open>cylinder.h\<close>, \<^verbatim>\<open>game.cpp\<close>): the moves, additions and removals of items by the game over the virtual functions
    of a cylinder, a record of functions.  What the game relies on of them is the locale \<open>cylinder_laws\<close>, inside which the
    moves are shown to return and to keep every unit.  \<open>Inventory\<close> (\<^verbatim>\<open>player.h\<close>, \<^verbatim>\<open>player.cpp\<close>): what a player wears, as a
    cylinder.  \<open>InventoryLaws\<close>: players and containers satisfy the laws (locale \<open>game_world\<close>, a sublocale), with the
    properties of the moves between them.
  \<^item> \<open>MapTree\<close>, \<open>Spectators\<close>, \<open>SightLine\<close>, \<open>PathSearch\<close> (\<^verbatim>\<open>map.h\<close>, \<^verbatim>\<open>map.cpp\<close>, \<^verbatim>\<open>waypoints.h\<close>): the tree of tiles with its linked leaves
    (an interpretation of \<open>keep_store\<close>: the first tile set at a position stays), who sees a position and the cache
    of those answers, lines of sight, and the two path searches, whose common argument is the locale
    \<open>node_search\<close>.
  \<^item> \<open>Scheduling\<close> (\<^verbatim>\<open>scheduler.h\<close>, \<^verbatim>\<open>scheduler.cpp\<close>, \<^verbatim>\<open>tasks.h\<close>, \<^verbatim>\<open>tasks.cpp\<close>): two transition systems whose steps are the
    critical sections; invariants by rule induction over reachable states.
  \<^item> \<open>Party\<close> (\<^verbatim>\<open>party.h\<close>, \<^verbatim>\<open>party.cpp\<close>, parts of \<^verbatim>\<open>player.cpp\<close> and \<^verbatim>\<open>game.cpp\<close>): parties and players in heaps, with the requests
    of the clients as steps.
  \<^item> \<open>Conditions\<close>, \<open>ConditionStore\<close> (\<^verbatim>\<open>condition.h\<close>, \<^verbatim>\<open>condition.cpp\<close>, parts of \<^verbatim>\<open>creature.cpp\<close>, \<^verbatim>\<open>player.cpp\<close> and \<^verbatim>\<open>ioplayer.cpp\<close>): the
    timed effects on a creature, the list of them with what starting, merging and ending does, and their stored form.
  \<^item> \<open>ClientRequests\<close>, \<open>ClientView\<close> (\<^verbatim>\<open>protocolgame.h\<close>, \<^verbatim>\<open>protocolgame.cpp\<close>): the parser of what a client asks for, each request a
    task of the dispatcher; and what a client is shown: the description of the map and its parts as the player
    walks, creatures, items and the list of creatures the client knows, with a reader of these messages as the client has it.
  \<^item> \<open>LoginGuard\<close> (\<^verbatim>\<open>ban.h\<close>, \<^verbatim>\<open>ban.cpp\<close>, \<^verbatim>\<open>WaitingList.h\<close>, \<^verbatim>\<open>WaitingList.cpp\<close>): failed logins, connections and the waiting list.
  \<^item> \<open>Digests\<close> (\<^verbatim>\<open>sha1.h\<close>, \<^verbatim>\<open>sha1.cpp\<close>, \<^verbatim>\<open>md5.h\<close>, \<^verbatim>\<open>md5.cpp\<close>, \<^verbatim>\<open>tools.cpp\<close>): the two digests, refinements of the published
    algorithms by one argument on buffers of blocks (locale \<open>block_buffer\<close>), and the comparison of passwords.

  \<^bold>\<open>What the lemmas show.\<close>  For each part there are the facts of its operations on every branch, an invariant of its
  state with the proof that every operation keeps it, and then the properties.  Round trips: node files, streams,
  messages, encrypted messages, items.  Refinement and equivalence: digests, the closed form of the line of
  sight, the stack of a tile as one list, the walk along linked leaves as a lookup of every block.  Termination and bounds: the
  parser, the iterator of containers, both path searches, the search for a place of an item, every write to a message and
  every read of a request.  Conservation: the moves of items lose and double nothing.  Errors of the code
  are theorems as well: an invitation to oneself that outlives its party, a
  waiting list cleaned past its end, an item added without its weight, floor-change flags forgotten, a truncated request
  completed from the bytes of an earlier one, stored conditions read past the end of an array.

  \<^bold>\<open>Conventions.\<close>  Machine integers are words where they can wrap.  Where the source has \<^verbatim>\<open>int32_t\<close> counters and
  coordinates far from their bounds they are \<open>int\<close> or \<open>nat\<close>, as each theory says.  Weights and the factors of conditions are real numbers, so the
  rounding of \<^verbatim>\<open>double\<close> and \<^verbatim>\<open>float\<close> is left out.  Undefined behaviour of C++ (a freed object, an index outside an array, a failing
  assertion) is \<open>None\<close>.  Clocks, random numbers, what a script answers and the
  addresses that \<^verbatim>\<open>operator new\<close> hands out are arguments.

  \<^bold>\<open>Bounds.\<close>  Fuel occurs in the node parser only, as said above; other loops are structural or have a measure, the path searches that of
  the nodes still free among 512 and the open ones, the client's reader that of the bytes left; the loop over destinations
  of an item asks at most 16 cylinders, as the code does.  Queries of spectators assume that the visible rectangle lies inside the
  16-bit coordinates, as the maps of the server keep an empty border.

  \<^bold>\<open>Not modelled.\<close>  The script engine (\<^verbatim>\<open>luascript.cpp\<close>) binds the Lua interpreter, which is not part of
  the repository, and the tables of spells, actions, movements and events are filled by it and by XML files; the
  data access (\<^verbatim>\<open>database*.cpp\<close>, \<^verbatim>\<open>ioplayer.cpp\<close>, \<^verbatim>\<open>ioaccount.cpp\<close>) issues SQL to client libraries; sockets belong to Asio and RSA to
  a library of large numbers.  What a call of these would return is an argument of the models where one is needed.
  Of the game itself, monsters, combat, spells, houses, chat, trade and the growth of players are left out: their results
  depend on formulas in scripts and files and on random numbers, and they act through the map, the conditions and the
  items modelled here.  Tiles are not connected to the moves of items: their virtual functions are an argument there, and the
  invariant of tiles is proved in \<open>Tiles\<close> over a state of its own.
\<close>

end
